(* ===== verification/Prelude.thy ===== *)
theory Prelude
  imports Main "HOL-Library.Product_Lexorder" "HOL-Library.Multiset"
begin

text \<open>
  What every component of the model shares: results of code that can abort, C++ integers of
  a fixed width, the ordered containers of the standard library (\<open>std::set\<close> and
  \<open>std::map\<close> as lists kept strictly sorted by a key, in iteration order), and the runs of
  a component's operations with the contract that carries an invariant through them.
\<close>

section \<open>Fact collections\<close>

named_theorems res_simps "rules that compute with aborting results"
named_theorems container_simps "rules about the ordered containers"

section \<open>Code that can abort\<close>

text \<open>
  A failed \<open>ASSERT\<close> or \<open>assert\<close> aborts the process (\<open>shared/base/assertx.h\<close>).
  A read out of range, \<open>top()\<close> of an empty stack and a null dereference are undefined in
  C++, a loop can run for ever and a thread can wait for a mutex that it holds itself; the model
  makes each of them, and a division by zero, its own way of not returning. \<open>Thrown\<close> is an exception on its way to a
  handler, \<open>Uncaught\<close> one that has none.
\<close>

datatype abort = AssertFail | OutOfRange | EmptyTop | NullDeref | Diverge | Uncaught | Deadlock | Thrown | DivZero | Dangling

type_synonym 'a res = "abort + 'a"

definition bindr :: "'a res \<Rightarrow> ('a \<Rightarrow> 'b res) \<Rightarrow> 'b res" where
  "bindr m k = (case m of Inl e \<Rightarrow> Inl e | Inr x \<Rightarrow> k x)"

definition assertx :: "bool \<Rightarrow> 'a res \<Rightarrow> 'a res" where
  "assertx P k = (if P then k else Inl AssertFail)"

lemma bindr_simps [simp, res_simps]:
  "bindr (Inl e) k = Inl e"
  "bindr (Inr x) k = k x"
  by (simp_all add: bindr_def)

lemma assertx_simps [simp, res_simps]:
  "assertx True k = k"
  "assertx False k = Inl AssertFail"
  by (simp_all add: assertx_def)

lemma bindr_Inr_iff: "bindr m k = Inr y \<longleftrightarrow> (\<exists>x. m = Inr x \<and> k x = Inr y)"
  by (cases m) auto

lemma assertx_Inr_iff: "assertx P k = Inr y \<longleftrightarrow> P \<and> k = Inr y"
  by (simp add: assertx_def)

lemma bindr_cong [fundef_cong]:
  "m = m' \<Longrightarrow> (\<And>x. m' = Inr x \<Longrightarrow> k x = k' x) \<Longrightarrow> bindr m k = bindr m' k'"
  by (cases m') auto

lemma bindr_assoc: "bindr (bindr m f) g = bindr m (\<lambda>x. bindr (f x) g)"
  by (cases m) auto

lemmas res_Inr_iff = bindr_Inr_iff assertx_Inr_iff

section \<open>Integers of a fixed width\<close>

text \<open>
  \<open>i32\<close> and \<open>i64\<close> read a mathematical integer as the two's complement value the compiled
  code stores in an \<open>int32_t\<close> or \<open>int64_t\<close>; \<open>u32\<close> and \<open>u64\<close> are the unsigned ones.
\<close>

definition i32 :: "int \<Rightarrow> int" where
  "i32 x = (x + 2147483648) mod 4294967296 - 2147483648"

definition i64 :: "int \<Rightarrow> int" where
  "i64 x = (x + 9223372036854775808) mod 18446744073709551616 - 9223372036854775808"

definition i16 :: "int \<Rightarrow> int" where
  "i16 x = (x + 32768) mod 65536 - 32768"

definition u64 :: "int \<Rightarrow> int" where
  "u64 x = x mod 18446744073709551616"

definition u32 :: "int \<Rightarrow> int" where
  "u32 x = x mod 4294967296"

lemma i16_id: "- 32768 \<le> x \<Longrightarrow> x < 32768 \<Longrightarrow> i16 x = x"
  by (simp add: i16_def)

lemma u64_id: "0 \<le> x \<Longrightarrow> x < 18446744073709551616 \<Longrightarrow> u64 x = x"
  by (simp add: u64_def)

lemma u32_id: "0 \<le> x \<Longrightarrow> x < 4294967296 \<Longrightarrow> u32 x = x"
  by (simp add: u32_def)

lemma i32_id: "- 2147483648 \<le> x \<Longrightarrow> x < 2147483648 \<Longrightarrow> i32 x = x"
  by (simp add: i32_def)

lemma i64_id: "- 9223372036854775808 \<le> x \<Longrightarrow> x < 9223372036854775808 \<Longrightarrow> i64 x = x"
  by (simp add: i64_def)

lemma i32_wrap:
  assumes "2147483648 \<le> x" "x < 6442450944"
  shows "i32 x = x - 4294967296"
  using assms mod_add_self2 [of "x - 2147483648" "4294967296::int"]
  by (simp add: i32_def add.commute)

lemma i32_range: "- 2147483648 \<le> i32 x" "i32 x < 2147483648"
  by (simp_all add: i32_def)

lemma i32_idem [simp]: "i32 (i32 x) = i32 x"
  using i32_range [of x] by (intro i32_id) auto

section \<open>Ordered containers\<close>

text \<open>
  A \<open>std::set\<close> with comparator \<open>key a < key b\<close> is a list strictly sorted by \<open>key\<close>.
  \<open>insert\<close> of an element whose key is present changes nothing, as in C++. A \<open>std::map\<close> is
  a set of pairs keyed by the first component, whose \<open>m[k] = v\<close> replaces the value.
\<close>

definition sset_inv :: "('a \<Rightarrow> 'k::linorder) \<Rightarrow> 'a list \<Rightarrow> bool" where
  "sset_inv key xs \<longleftrightarrow> sorted (List.map key xs) \<and> distinct (List.map key xs)"

definition sset_insert :: "('a \<Rightarrow> 'k::linorder) \<Rightarrow> 'a \<Rightarrow> 'a list \<Rightarrow> 'a list" where
  "sset_insert key x xs = (if key x \<in> key ` set xs then xs else insort_key key x xs)"

definition sset_erase :: "('a \<Rightarrow> 'k::linorder) \<Rightarrow> 'k \<Rightarrow> 'a list \<Rightarrow> 'a list" where
  "sset_erase key k xs = filter (\<lambda>x. key x \<noteq> k) xs"

definition smap_put :: "'k::linorder \<Rightarrow> 'v \<Rightarrow> ('k \<times> 'v) list \<Rightarrow> ('k \<times> 'v) list" where
  "smap_put k v m = insort_key fst (k, v) (sset_erase fst k m)"

abbreviation smap_inv :: "('k::linorder \<times> 'v) list \<Rightarrow> bool" where
  "smap_inv \<equiv> sset_inv fst"

abbreviation smap_erase :: "'k::linorder \<Rightarrow> ('k \<times> 'v) list \<Rightarrow> ('k \<times> 'v) list" where
  "smap_erase \<equiv> sset_erase fst"

lemma sset_inv_Nil [simp, container_simps]: "sset_inv key []"
  by (simp add: sset_inv_def)

lemma sset_inv_Cons [container_simps]:
  "sset_inv key (x # xs) \<longleftrightarrow> (\<forall>y \<in> set xs. key x < key y) \<and> sset_inv key xs"
  by (auto simp: sset_inv_def less_le)

lemma sset_inv_distinct: "sset_inv key xs \<Longrightarrow> distinct xs"
  by (simp add: sset_inv_def distinct_map)

lemma sset_inv_key_inj: "sset_inv key xs \<Longrightarrow> x \<in> set xs \<Longrightarrow> y \<in> set xs \<Longrightarrow> key x = key y \<Longrightarrow> x = y"
  by (meson sset_inv_def distinct_map inj_onD)

lemma sset_inv_insert [simp]: "sset_inv key xs \<Longrightarrow> sset_inv key (sset_insert key x xs)"
  unfolding sset_inv_def sset_insert_def distinct_map
  by (auto simp: sorted_insort_key distinct_insort set_insort_key)

lemma set_sset_insert:
  "set (sset_insert key x xs) = (if key x \<in> key ` set xs then set xs else insert x (set xs))"
  by (simp add: sset_insert_def set_insort_key)

lemma length_sset_insert:
  "length (sset_insert key x xs) = (if key x \<in> key ` set xs then length xs else Suc (length xs))"
  by (simp add: sset_insert_def)

lemma sset_inv_filter: "sset_inv key xs \<Longrightarrow> sset_inv key (filter P xs)"
  by (induction xs) (auto simp: sset_inv_Cons)

lemma sset_inv_erase [simp]: "sset_inv key xs \<Longrightarrow> sset_inv key (sset_erase key k xs)"
  by (simp add: sset_erase_def sset_inv_filter)

lemma set_sset_erase: "set (sset_erase key k xs) = {x \<in> set xs. key x \<noteq> k}"
  by (auto simp: sset_erase_def)

lemma length_sset_erase:
  assumes "sset_inv key xs"
  shows "length (sset_erase key k xs) = (if k \<in> key ` set xs then length xs - 1 else length xs)"
  using assms
proof (induction xs)
  case Nil
  show ?case by (simp add: sset_erase_def)
next
  case (Cons x xs)
  then have IH: "length (sset_erase key k xs)
      = (if k \<in> key ` set xs then length xs - 1 else length xs)"
    by (simp add: sset_inv_Cons)
  show ?case
  proof (cases "key x = k")
    case True
    with Cons.prems have "k \<notin> key ` set xs" by (auto simp: sset_inv_Cons)
    with True IH show ?thesis by (simp add: sset_erase_def)
  next
    case False
    then show ?thesis using IH by (cases xs) (auto simp: sset_erase_def)
  qed
qed

lemma smap_inv_put [simp]: "smap_inv m \<Longrightarrow> smap_inv (smap_put k v m)"
  using sset_inv_insert [of fst "smap_erase k m" "(k, v)"]
  by (auto simp: smap_put_def sset_insert_def sset_erase_def sset_inv_filter split: if_splits)

lemma set_smap_put: "set (smap_put k v m) = insert (k, v) {e \<in> set m. fst e \<noteq> k}"
  by (auto simp: smap_put_def set_insort_key set_sset_erase)

lemma smap_map_of_iff: "smap_inv m \<Longrightarrow> map_of m k = Some v \<longleftrightarrow> (k, v) \<in> set m"
  by (simp add: sset_inv_def)

lemma smap_map_of_None: "map_of m k = None \<longleftrightarrow> k \<notin> fst ` set m"
  by (simp add: map_of_eq_None_iff)

lemma map_of_smap_put [simp]:
  assumes "smap_inv m"
  shows "map_of (smap_put k v m) = (map_of m)(k \<mapsto> v)"
proof
  fix x
  have inv: "smap_inv (smap_put k v m)" using assms by simp
  show "map_of (smap_put k v m) x = ((map_of m)(k \<mapsto> v)) x"
  proof (cases "((map_of m)(k \<mapsto> v)) x")
    case None
    then have "x \<notin> fst ` set (smap_put k v m)"
      by (auto simp: set_smap_put map_of_eq_None_iff split: if_splits)
    with None show ?thesis by (simp add: smap_map_of_None)
  next
    case (Some y)
    then have "(x, y) \<in> set (smap_put k v m)"
      using assms by (auto simp: set_smap_put smap_map_of_iff split: if_splits)
    with Some inv show ?thesis by (simp add: smap_map_of_iff)
  qed
qed

lemma map_of_filter_keys: "map_of (filter (\<lambda>e. fst e \<noteq> k) m) = (map_of m)(k := None)"
  by (induction m) auto

lemma map_of_smap_erase [simp]: "map_of (smap_erase k m) = (map_of m)(k := None)"
  by (simp add: sset_erase_def map_of_filter_keys)

section \<open>Splitting ordered lists\<close>

lemma dropWhile_none_left:
  assumes "sorted_wrt R xs" "\<And>m n. R m n \<Longrightarrow> P n \<Longrightarrow> P m"
  shows "\<forall>m \<in> set (dropWhile P xs). \<not> P m"
  using assms(1)
proof (induction xs)
  case Nil
  then show ?case by simp
next
  case (Cons x xs)
  show ?case
  proof (cases "P x")
    case True
    then have "dropWhile P (x # xs) = dropWhile P xs" by simp
    moreover have "sorted_wrt R xs" using Cons.prems by simp
    ultimately show ?thesis using Cons.IH by metis
  next
    case False
    have "R x m" if "m \<in> set xs" for m using that Cons.prems by simp
    then have "\<not> P m" if "m \<in> set xs" for m using that False assms(2) by blast
    moreover have "dropWhile P (x # xs) = x # xs" using False by simp
    ultimately show ?thesis using False by auto
  qed
qed

lemma takeWhile_app_all: "\<forall>m \<in> set xs. P m \<Longrightarrow> takeWhile P (xs @ ys) = xs @ takeWhile P ys"
  by (simp add: takeWhile_append2)

lemma dropWhile_app_all: "\<forall>m \<in> set xs. P m \<Longrightarrow> dropWhile P (xs @ ys) = dropWhile P ys"
  by (simp add: dropWhile_append2)

lemma takeWhile_app_stop:
  assumes "ys = [] \<or> \<not> P (hd ys)"
  shows "takeWhile P (xs @ ys) = takeWhile P xs"
proof -
  from assms have "takeWhile P ys = []" by (cases ys) auto
  then show ?thesis by (induction xs) simp_all
qed

lemma dropWhile_app_stop:
  assumes "ys = [] \<or> \<not> P (hd ys)"
  shows "dropWhile P (xs @ ys) = dropWhile P xs @ ys"
proof -
  from assms have "dropWhile P ys = ys" by (cases ys) auto
  then show ?thesis by (induction xs) simp_all
qed

lemmas split_while = takeWhile_app_all dropWhile_app_all takeWhile_app_stop dropWhile_app_stop

section \<open>Lists updated by index\<close>

lemma sum_list_update:
  fixes f :: "'a \<Rightarrow> int"
  shows "i < length xs \<Longrightarrow> sum_list (List.map f (xs[i := x])) = sum_list (List.map f xs) - f (xs ! i) + f x"
  by (induction xs arbitrary: i) (auto split: nat.splits)

lemma filter_length_sum:
  "int (length (filter P xs)) = sum_list (List.map (\<lambda>x. if P x then 1 else 0) xs)"
  by (induction xs) auto

lemma filter_length_update:
  "i < length xs \<Longrightarrow> int (length (filter P (xs[i := x]))) =
     int (length (filter P xs)) - (if P (xs ! i) then 1 else 0) + (if P x then 1 else 0)"
  by (simp only: filter_length_sum sum_list_update)

section \<open>The map interface\<close>

text \<open>
  What the components rely on when they keep their data in a \<open>std::map\<close>: a lookup sees the
  last value stored, an erased key is gone, and both keep the representation.
\<close>

locale keyed_store =
  fixes put :: "'k \<Rightarrow> 'v \<Rightarrow> 'm \<Rightarrow> 'm"
    and erase :: "'k \<Rightarrow> 'm \<Rightarrow> 'm"
    and find :: "'m \<Rightarrow> 'k \<Rightarrow> 'v option"
    and ok :: "'m \<Rightarrow> bool"
  assumes find_put: "ok m \<Longrightarrow> find (put k v m) = (find m)(k \<mapsto> v)"
    and find_erase: "ok m \<Longrightarrow> find (erase k m) = (find m)(k := None)"
    and ok_put: "ok m \<Longrightarrow> ok (put k v m)"
    and ok_erase: "ok m \<Longrightarrow> ok (erase k m)"
begin

lemma find_put_same: "ok m \<Longrightarrow> find (put k v m) k = Some v"
  by (simp add: find_put)

lemma find_put_other: "ok m \<Longrightarrow> j \<noteq> k \<Longrightarrow> find (put k v m) j = find m j"
  by (simp add: find_put)

lemma put_put: "ok m \<Longrightarrow> find (put k v (put k u m)) = find (put k v m)"
  by (simp add: find_put ok_put)

lemma erase_put: "ok m \<Longrightarrow> find (erase k (put k v m)) = find (erase k m)"
  by (simp add: find_put find_erase ok_put)

lemma put_commute: "ok m \<Longrightarrow> j \<noteq> k \<Longrightarrow> find (put j u (put k v m)) = find (put k v (put j u m))"
  by (simp add: find_put ok_put fun_upd_twist)

end

interpretation smap: keyed_store smap_put smap_erase map_of smap_inv
  by unfold_locales (auto simp: map_of_smap_put)

section \<open>Runs of operations and the invariant contract\<close>

text \<open>
  A component is driven by a sequence of operations. \<open>run\<close> performs them in order and stops
  at the first that aborts; \<open>admissible\<close> says that each operation is called within its
  documented precondition.
\<close>

fun run :: "('s \<Rightarrow> 'o \<Rightarrow> 's res) \<Rightarrow> 's \<Rightarrow> 'o list \<Rightarrow> 's res" where
  "run step s [] = Inr s"
| "run step s (x # xs) = bindr (step s x) (\<lambda>s'. run step s' xs)"

fun admissible :: "('s \<Rightarrow> 'o \<Rightarrow> 's res) \<Rightarrow> ('s \<Rightarrow> 'o \<Rightarrow> bool) \<Rightarrow> 's \<Rightarrow> 'o list \<Rightarrow> bool" where
  "admissible step pre s [] = True"
| "admissible step pre s (x # xs) =
     (pre s x \<and> (case step s x of Inl _ \<Rightarrow> True | Inr s' \<Rightarrow> admissible step pre s' xs))"

locale invariant_system =
  fixes step :: "'s \<Rightarrow> 'o \<Rightarrow> 's res"
    and pre :: "'s \<Rightarrow> 'o \<Rightarrow> bool"
    and inv :: "'s \<Rightarrow> bool"
  assumes step_inv: "inv s \<Longrightarrow> pre s x \<Longrightarrow> \<exists>s'. step s x = Inr s' \<and> inv s'"
begin

lemma run_inv: "inv s \<Longrightarrow> admissible step pre s xs \<Longrightarrow> \<exists>s'. run step s xs = Inr s' \<and> inv s'"
proof (induction xs arbitrary: s)
  case Nil
  then show ?case by simp
next
  case (Cons x xs)
  then obtain s' where s': "step s x = Inr s'" "inv s'"
    using step_inv by (metis admissible.simps(2))
  with Cons show ?case by simp
qed

lemma run_append: "run step s (xs @ ys) = bindr (run step s xs) (\<lambda>s'. run step s' ys)"
  by (induction xs arbitrary: s) (auto simp: bindr_assoc)

end

text \<open>
  A precondition on the operations alone makes every sequence of such operations admissible.
\<close>

lemma admissibleI: "(\<And>s x. x \<in> set xs \<Longrightarrow> pre s x) \<Longrightarrow> admissible step pre s xs"
  by (induction xs arbitrary: s) (auto split: sum.splits)

text \<open>
  A component with an abstract specification: \<open>abs\<close> forgets the representation and each
  concrete step does on the abstract state what \<open>spec\<close> says.
\<close>

locale refinement_system = invariant_system step pre inv
  for step :: "'s \<Rightarrow> 'o \<Rightarrow> 's res" and pre :: "'s \<Rightarrow> 'o \<Rightarrow> bool" and inv :: "'s \<Rightarrow> bool" +
  fixes abs :: "'s \<Rightarrow> 'a"
    and spec :: "'a \<Rightarrow> 'o \<Rightarrow> 'a"
  assumes step_refines: "inv s \<Longrightarrow> pre s x \<Longrightarrow> step s x = Inr s' \<Longrightarrow> abs s' = spec (abs s) x"
begin

lemma run_refines:
  "inv s \<Longrightarrow> admissible step pre s xs \<Longrightarrow>
     \<exists>s'. run step s xs = Inr s' \<and> inv s' \<and> abs s' = foldl spec (abs s) xs"
proof (induction xs arbitrary: s)
  case Nil
  then show ?case by simp
next
  case (Cons x xs)
  then obtain s' where s': "step s x = Inr s'" "inv s'"
    using step_inv by (metis admissible.simps(2))
  moreover have "abs s' = spec (abs s) x"
    using step_refines s' Cons.prems by simp
  moreover have "admissible step pre s' xs" using Cons.prems s' by simp
  ultimately show ?case using Cons.IH [of s'] by simp
qed

end

end
