(* ===== verification/TimerLite.thy ===== *)
theory TimerLite
  imports Prelude
begin

text \<open>
  \<open>gs/global/timer_lite.h\<close>: the per-scene timer. It keeps each pending entry twice, in a
  set ordered by expiry time and in a map from the entry to its expiry time. This theory
  holds the state, the three public operations with their assertions, the representation
  invariant, and the refinement to a finite map from entries to expiry times.
\<close>

section \<open>State\<close>

text \<open>
  An entry is a \<open>T*\<close>, modelled by its address. \<open>std::pair\<close> compares lexicographically, which is
  the order of \<open>int \<times> nat\<close>. \<open>ptr_max\<close> is \<open>numeric_limits<intptr_t>::max()\<close>, the address the
  code uses as a sentry above every real one.
\<close>

type_synonym ptr = nat
type_synonym entry = "int \<times> ptr"

definition ptr_max :: ptr where
  "ptr_max = 9223372036854775807"

definition time_max :: int where
  "time_max = 9223372036854775807"

record timer_lite =
  timers :: "entry list"
  active_timers :: "(ptr \<times> int) list"

definition TimerLite_init :: timer_lite where
  "TimerLite_init = \<lparr>timers = [], active_timers = []\<rparr>"

abbreviation tset_inv :: "entry list \<Rightarrow> bool" where
  "tset_inv \<equiv> sset_inv (\<lambda>e. e)"

section \<open>Operations\<close>

definition GetNextTime :: "timer_lite \<Rightarrow> int" where
  "GetNextTime t = (case timers t of [] \<Rightarrow> time_max | e # _ \<Rightarrow> fst e)"

text \<open>The \<open>assert(timers_.size() == active_timers_.size())\<close> at the start and end of each.\<close>

definition sizes_agree :: "timer_lite \<Rightarrow> bool" where
  "sizes_agree t \<longleftrightarrow> length (timers t) = length (active_timers t)"

text \<open>The loop over \<open>expired\<close>: every entry must be erased from the map exactly once.\<close>

fun erase_active :: "(ptr \<times> int) list \<Rightarrow> entry list \<Rightarrow> (ptr \<times> int) list res" where
  "erase_active act [] = Inr act"
| "erase_active act (e # es) =
     assertx (snd e \<in> fst ` set act) (erase_active (smap_erase (snd e) act) es)"

text \<open>
  \<open>expired\<close> is an output vector that is appended to; \<open>lower_bound\<close> splits the ordered set at
  the first element that is not below the sentry.
\<close>

definition GetExpired :: "timer_lite \<Rightarrow> int \<Rightarrow> entry list \<Rightarrow> (timer_lite \<times> entry list \<times> int) res" where
  "GetExpired t now expired =
     assertx (sizes_agree t)
      (let sentry = (now, ptr_max);
           hit = takeWhile (\<lambda>e. e < sentry) (timers t);
           rest = dropWhile (\<lambda>e. e < sentry) (timers t);
           expired' = expired @ hit
       in assertx (rest = [] \<or> now < fst (hd rest))
           (bindr (erase_active (active_timers t) expired') (\<lambda>act.
              let t' = \<lparr>timers = rest, active_timers = act\<rparr>
              in assertx (sizes_agree t') (Inr (t', expired', GetNextTime t')))))"

definition AddEntry :: "timer_lite \<Rightarrow> int \<Rightarrow> ptr \<Rightarrow> (timer_lite \<times> int) res" where
  "AddEntry t when ent =
     assertx (sizes_agree t)
      (case map_of (active_timers t) ent of
         None \<Rightarrow>
           assertx ((when, ent) \<notin> set (timers t))
            (let t' = \<lparr>timers = sset_insert (\<lambda>e. e) (when, ent) (timers t),
                       active_timers = smap_put ent when (active_timers t)\<rparr>
             in assertx (sizes_agree t') (Inr (t', GetNextTime t')))
       | Some old \<Rightarrow>
           assertx ((old, ent) \<in> set (timers t))
            (let ts = sset_erase (\<lambda>e. e) (old, ent) (timers t)
             in assertx ((when, ent) \<notin> set ts)
                 (let t' = \<lparr>timers = sset_insert (\<lambda>e. e) (when, ent) ts,
                            active_timers = smap_put ent when (active_timers t)\<rparr>
                  in assertx (sizes_agree t') (Inr (t', GetNextTime t')))))"

definition Cancel :: "timer_lite \<Rightarrow> ptr \<Rightarrow> (timer_lite \<times> int) res" where
  "Cancel t ent =
     assertx (sizes_agree t)
      (case map_of (active_timers t) ent of
         None \<Rightarrow> assertx (sizes_agree t) (Inr (t, GetNextTime t))
       | Some old \<Rightarrow>
           assertx ((old, ent) \<in> set (timers t))
            (let t' = \<lparr>timers = sset_erase (\<lambda>e. e) (old, ent) (timers t),
                       active_timers = smap_erase ent (active_timers t)\<rparr>
             in assertx (sizes_agree t') (Inr (t', GetNextTime t'))))"

section \<open>Representation invariant and abstraction\<close>

text \<open>
  The two containers hold the same pairs, both are strictly ordered, and every address is
  below the sentry address. The abstract state is the map from entries to expiry times.
\<close>

definition timer_inv :: "timer_lite \<Rightarrow> bool" where
  "timer_inv t \<longleftrightarrow>
     tset_inv (timers t) \<and> smap_inv (active_timers t) \<and>
     set (timers t) = prod.swap ` set (active_timers t) \<and>
     (\<forall>e \<in> set (timers t). snd e < ptr_max)"

definition timer_abs :: "timer_lite \<Rightarrow> ptr \<Rightarrow> int option" where
  "timer_abs t = map_of (active_timers t)"

lemma timer_inv_init: "timer_inv TimerLite_init"
  by (simp add: timer_inv_def TimerLite_init_def)

lemma timer_invD:
  assumes "timer_inv t"
  shows "tset_inv (timers t)" "smap_inv (active_timers t)"
    "(w, p) \<in> set (timers t) \<longleftrightarrow> timer_abs t p = Some w"
    "(p, w) \<in> set (active_timers t) \<longleftrightarrow> timer_abs t p = Some w"
proof -
  show "tset_inv (timers t)" "smap_inv (active_timers t)"
    using assms by (simp_all add: timer_inv_def)
  then show act: "(p, w) \<in> set (active_timers t) \<longleftrightarrow> timer_abs t p = Some w"
    by (simp only: timer_abs_def smap_map_of_iff)
  have "(w, p) \<in> set (timers t) \<longleftrightarrow> (p, w) \<in> set (active_timers t)"
    using assms by (force simp: timer_inv_def)
  then show "(w, p) \<in> set (timers t) \<longleftrightarrow> timer_abs t p = Some w"
    using act by simp
qed

lemma timer_inv_sizes: "timer_inv t \<Longrightarrow> sizes_agree t"
proof -
  assume inv: "timer_inv t"
  then have "distinct (timers t)" "distinct (active_timers t)"
    using sset_inv_distinct timer_invD(1,2) by blast+
  then have "length (timers t) = card (set (timers t))"
    "length (active_timers t) = card (set (active_timers t))"
    by (simp_all add: distinct_card)
  moreover have "card (set (timers t)) = card (set (active_timers t))"
    using inv by (simp add: timer_inv_def card_image)
  ultimately show ?thesis by (simp add: sizes_agree_def)
qed

text \<open>Building a state from two containers that hold the same pairs.\<close>

lemma timer_inv_make:
  assumes "tset_inv ts" "smap_inv act" "set ts = prod.swap ` set act"
    and "\<And>w p. (w, p) \<in> set ts \<Longrightarrow> p < ptr_max"
  shows "timer_inv \<lparr>timers = ts, active_timers = act\<rparr>"
  using assms by (auto simp: timer_inv_def)

section \<open>AddEntry and Cancel\<close>

lemma AddEntry_correct:
  assumes inv: "timer_inv t" and p: "ent < ptr_max"
  obtains t' where "AddEntry t when ent = Inr (t', GetNextTime t')" "timer_inv t'"
    "timer_abs t' = (timer_abs t)(ent \<mapsto> when)"
proof (cases "timer_abs t ent")
  case None
  let ?t = "\<lparr>timers = sset_insert (\<lambda>e. e) (when, ent) (timers t),
             active_timers = smap_put ent when (active_timers t)\<rparr>"
  have new: "(w, ent) \<notin> set (timers t)" for w
    using None inv by (simp add: timer_invD)
  have inv': "timer_inv ?t"
    using inv new p
    by (intro timer_inv_make) (force simp: timer_inv_def set_sset_insert set_smap_put)+
  show ?thesis
  proof
    show "AddEntry t when ent = Inr (?t, GetNextTime ?t)"
      using timer_inv_sizes [OF inv] timer_inv_sizes [OF inv'] None new
      by (simp add: AddEntry_def timer_abs_def Let_def)
    show "timer_abs ?t = (timer_abs t)(ent \<mapsto> when)"
      using inv by (simp add: timer_abs_def timer_inv_def)
  qed (rule inv')
next
  case (Some old)
  let ?ts = "sset_erase (\<lambda>e. e) (old, ent) (timers t)"
  let ?t = "\<lparr>timers = sset_insert (\<lambda>e. e) (when, ent) ?ts,
             active_timers = smap_put ent when (active_timers t)\<rparr>"
  have old: "(w, ent) \<in> set (timers t) \<longleftrightarrow> w = old" for w
    using Some inv by (auto simp: timer_invD)
  then have new: "(when, ent) \<notin> set ?ts" by (auto simp: set_sset_erase)
  have inv': "timer_inv ?t"
    using inv new old p by (intro timer_inv_make)
      (force simp: timer_inv_def set_sset_insert set_sset_erase set_smap_put)+
  show ?thesis
  proof
    show "AddEntry t when ent = Inr (?t, GetNextTime ?t)"
      using timer_inv_sizes [OF inv] timer_inv_sizes [OF inv'] Some new old
      by (simp add: AddEntry_def timer_abs_def Let_def)
    show "timer_abs ?t = (timer_abs t)(ent \<mapsto> when)"
      using inv by (simp add: timer_abs_def timer_inv_def)
  qed (rule inv')
qed

lemma Cancel_correct:
  assumes inv: "timer_inv t"
  obtains t' where "Cancel t ent = Inr (t', GetNextTime t')" "timer_inv t'"
    "timer_abs t' = (timer_abs t)(ent := None)"
proof (cases "timer_abs t ent")
  case None
  then have "timer_abs t = (timer_abs t)(ent := None)" by (simp add: fun_upd_idem)
  moreover have "Cancel t ent = Inr (t, GetNextTime t)"
    using None timer_inv_sizes [OF inv] by (simp add: Cancel_def timer_abs_def)
  ultimately show ?thesis using that inv by blast
next
  case (Some old)
  let ?t = "\<lparr>timers = sset_erase (\<lambda>e. e) (old, ent) (timers t),
             active_timers = smap_erase ent (active_timers t)\<rparr>"
  have old: "(w, ent) \<in> set (timers t) \<longleftrightarrow> w = old" for w
    using Some inv by (auto simp: timer_invD)
  have inv': "timer_inv ?t"
    using inv old by (intro timer_inv_make)
      (force simp: timer_inv_def set_sset_erase)+
  show ?thesis
  proof
    show "Cancel t ent = Inr (?t, GetNextTime ?t)"
      using timer_inv_sizes [OF inv] timer_inv_sizes [OF inv'] Some old
      by (simp add: Cancel_def timer_abs_def Let_def)
    show "timer_abs ?t = (timer_abs t)(ent := None)"
      by (simp add: timer_abs_def)
  qed (rule inv')
qed

section \<open>GetExpired\<close>

lemma takeWhile_sset:
  fixes ts :: "'a::linorder list"
  shows "sset_inv (\<lambda>e. e) ts \<Longrightarrow> takeWhile (\<lambda>e. e < s) ts = filter (\<lambda>e. e < s) ts"
proof (induction ts)
  case (Cons a ts)
  then have "\<not> a < s \<Longrightarrow> filter (\<lambda>e. e < s) ts = []"
    by (force simp: sset_inv_Cons filter_empty_conv)
  with Cons show ?case by (simp add: sset_inv_Cons)
qed simp

lemma dropWhile_sset:
  fixes ts :: "'a::linorder list"
  shows "sset_inv (\<lambda>e. e) ts \<Longrightarrow> dropWhile (\<lambda>e. e < s) ts = filter (\<lambda>e. \<not> e < s) ts"
proof (induction ts)
  case (Cons a ts)
  then have "\<not> a < s \<Longrightarrow> filter (\<lambda>e. \<not> e < s) ts = ts"
    by (force simp: sset_inv_Cons filter_id_conv)
  with Cons show ?case by (simp add: sset_inv_Cons)
qed simp

text \<open>With real addresses the sentry separates exactly the entries due at \<open>now\<close>.\<close>

lemma sentry_split:
  fixes e :: entry
  shows "snd e < ptr_max \<Longrightarrow> e < (now, ptr_max) \<longleftrightarrow> fst e \<le> now"
  by (cases e) (auto simp: less_prod_def)

lemma erase_active_filter:
  assumes "smap_inv act" "snd ` set es \<subseteq> fst ` set act" "distinct (map snd es)"
  shows "erase_active act es = Inr (filter (\<lambda>a. fst a \<notin> snd ` set es) act)"
  using assms
proof (induction es arbitrary: act)
  case Nil
  then show ?case by simp
next
  case (Cons e es)
  have present: "snd e \<in> fst ` set act" and fresh: "snd e \<notin> snd ` set es"
    using Cons.prems by auto
  have sub: "snd ` set es \<subseteq> fst ` set (smap_erase (snd e) act)"
  proof
    fix p assume p: "p \<in> snd ` set es"
    then obtain w where "(p, w) \<in> set act" using Cons.prems(2) by auto
    moreover have "p \<noteq> snd e" using fresh p by metis
    ultimately show "p \<in> fst ` set (smap_erase (snd e) act)"
      by (force simp: set_sset_erase)
  qed
  have "erase_active (smap_erase (snd e) act) es
      = Inr (filter (\<lambda>a. fst a \<notin> snd ` set es) (smap_erase (snd e) act))"
    by (rule Cons.IH) (use Cons.prems sub in simp_all)
  moreover have "filter (\<lambda>a. fst a \<notin> snd ` set es) (smap_erase (snd e) act)
      = filter (\<lambda>a. fst a \<notin> snd ` set (e # es)) act"
    unfolding sset_erase_def filter_filter by (rule filter_cong) auto
  ultimately show ?case using present by simp
qed

lemma timer_distinct_ents:
  assumes "timer_inv t" shows "distinct (map snd (timers t))"
proof -
  have "inj_on snd (set (timers t))"
    using timer_invD(3) [OF assms] by (fastforce intro: inj_onI)
  with assms show ?thesis
    by (simp add: distinct_map sset_inv_distinct [OF timer_invD(1)])
qed

lemma GetExpired_correct:
  assumes inv: "timer_inv t"
  obtains t' where
    "GetExpired t now [] = Inr (t', filter (\<lambda>e. fst e \<le> now) (timers t), GetNextTime t')"
    "timer_inv t'" "timers t' = filter (\<lambda>e. now < fst e) (timers t)"
    "timer_abs t' = (\<lambda>p. case timer_abs t p of None \<Rightarrow> None
                         | Some w \<Rightarrow> if w \<le> now then None else Some w)"
proof -
  let ?s = "(now, ptr_max)"
  let ?hit = "filter (\<lambda>e. fst e \<le> now) (timers t)"
  let ?rest = "filter (\<lambda>e. now < fst e) (timers t)"
  let ?act = "filter (\<lambda>a. fst a \<notin> snd ` set ?hit) (active_timers t)"
  let ?t = "\<lparr>timers = ?rest, active_timers = ?act\<rparr>"
  have small: "\<forall>e \<in> set (timers t). snd e < ptr_max"
    using inv by (simp add: timer_inv_def)
  then have tk: "takeWhile (\<lambda>e. e < ?s) (timers t) = ?hit"
    and dr: "dropWhile (\<lambda>e. e < ?s) (timers t) = ?rest"
    using inv by (auto simp: takeWhile_sset dropWhile_sset timer_invD sentry_split not_le
        intro!: filter_cong)
  have act: "erase_active (active_timers t) ?hit = Inr ?act"
    using inv timer_distinct_ents [OF inv]
    by (intro erase_active_filter) (force simp: timer_inv_def distinct_map_filter)+
  have gone: "p \<in> snd ` set ?hit \<longleftrightarrow> (\<exists>w. timer_abs t p = Some w \<and> w \<le> now)" for p
    by (force simp flip: timer_invD(3) [OF inv])
  have act_iff: "(p, w) \<in> set ?act \<longleftrightarrow> timer_abs t p = Some w \<and> now < w" for p w
  proof -
    have "(p, w) \<in> set ?act \<longleftrightarrow> timer_abs t p = Some w \<and> p \<notin> snd ` set ?hit"
      by (simp add: timer_invD(4) [OF inv])
    then show ?thesis unfolding gone by auto
  qed
  have rest_iff: "(w, p) \<in> set ?rest \<longleftrightarrow> timer_abs t p = Some w \<and> now < w" for p w
    by (auto simp: timer_invD(3) [OF inv])
  have inv': "timer_inv ?t"
  proof (rule timer_inv_make)
    show "set ?rest = prod.swap ` set ?act"
      using act_iff rest_iff by (force simp del: set_filter)
  qed (use inv small in \<open>auto simp: sset_inv_filter timer_inv_def\<close>)
  have abs: "timer_abs ?t p = (case timer_abs t p of None \<Rightarrow> None
                 | Some w \<Rightarrow> if w \<le> now then None else Some w)" for p
  proof -
    have "timer_abs ?t p = Some w \<longleftrightarrow> timer_abs t p = Some w \<and> now < w" for w
      using timer_invD(4) [OF inv'] act_iff by simp
    then show ?thesis
      by (cases "timer_abs ?t p"; cases "timer_abs t p") (auto simp: not_le)
  qed
  have "?rest = [] \<or> now < fst (hd ?rest)"
    using hd_in_set [of ?rest] by (cases "?rest = []") auto
  then have "GetExpired t now [] = Inr (?t, ?hit, GetNextTime ?t)"
    using tk dr act timer_inv_sizes [OF inv] timer_inv_sizes [OF inv']
    by (simp add: GetExpired_def Let_def del: dropWhile_eq_Nil_conv set_filter)
  then show ?thesis using inv' abs by (intro that [of ?t]) auto
qed
section \<open>Sequences of calls and the abstract timer\<close>

datatype timer_op = OpAdd int ptr | OpCancel ptr | OpExpire int

fun timer_step :: "timer_lite \<Rightarrow> timer_op \<Rightarrow> timer_lite res" where
  "timer_step t (OpAdd w p) = bindr (AddEntry t w p) (\<lambda>(t', _). Inr t')"
| "timer_step t (OpCancel p) = bindr (Cancel t p) (\<lambda>(t', _). Inr t')"
| "timer_step t (OpExpire now) = bindr (GetExpired t now []) (\<lambda>(t', _, _). Inr t')"

text \<open>The only precondition: entries are addresses of real objects, below the sentry.\<close>

fun timer_pre :: "timer_lite \<Rightarrow> timer_op \<Rightarrow> bool" where
  "timer_pre t (OpAdd w p) = (p < ptr_max)"
| "timer_pre t _ = True"

text \<open>What a timer promises: the last expiry time given to each entry still pending.\<close>

fun timer_spec :: "(ptr \<Rightarrow> int option) \<Rightarrow> timer_op \<Rightarrow> (ptr \<Rightarrow> int option)" where
  "timer_spec m (OpAdd w p) = m(p \<mapsto> w)"
| "timer_spec m (OpCancel p) = m(p := None)"
| "timer_spec m (OpExpire now) =
     (\<lambda>p. case m p of None \<Rightarrow> None | Some w \<Rightarrow> if w \<le> now then None else Some w)"

lemma timer_step_correct:
  assumes "timer_inv t" "timer_pre t x"
  shows "\<exists>t'. timer_step t x = Inr t' \<and> timer_inv t' \<and> timer_abs t' = timer_spec (timer_abs t) x"
proof (cases x)
  case (OpAdd w p)
  with assms show ?thesis by (auto elim: AddEntry_correct [of t p w])
next
  case (OpCancel p)
  with assms show ?thesis by (auto elim: Cancel_correct [of t p])
next
  case (OpExpire now)
  from GetExpired_correct [OF assms(1), of now] obtain t' where
    "GetExpired t now [] = Inr (t', filter (\<lambda>e. fst e \<le> now) (timers t), GetNextTime t')"
    "timer_inv t'" "timer_abs t' = timer_spec (timer_abs t) (OpExpire now)"
    by auto
  with OpExpire show ?thesis by auto
qed

interpretation timer: refinement_system timer_step timer_pre timer_inv timer_abs timer_spec
  by unfold_locales (use timer_step_correct in fastforce)+

text \<open>
  C14: From an empty timer, any sequence of \<open>AddEntry\<close>, \<open>Cancel\<close> and \<open>GetExpired\<close> calls on
  real objects trips none of the assertions (the set and the map never disagree, nothing is
  inserted twice or erased when absent) and leaves exactly the entries whose last expiry
  time is still pending.
\<close>

theorem timer_refines_pending_map:
  assumes "\<forall>w p. OpAdd w p \<in> set ops \<longrightarrow> p < ptr_max"
  shows "\<exists>t. run timer_step TimerLite_init ops = Inr t \<and> timer_inv t \<and>
             timer_abs t = foldl timer_spec (\<lambda>_. None) ops"
proof -
  have "timer_pre t x" if "x \<in> set ops" for t x
    using assms that by (cases x) auto
  then have "admissible timer_step timer_pre TimerLite_init ops"
    by (intro admissibleI)
  from timer.run_refines [OF timer_inv_init this] show ?thesis
    by (simp add: timer_abs_def TimerLite_init_def)
qed

theorem timer_refines_pending_map_witness:
  "\<exists>t. run timer_step TimerLite_init [OpAdd 5 1, OpAdd 7 2, OpAdd 9 1, OpExpire 7] = Inr t \<and>
       timer_abs t 1 = Some 9 \<and> timer_abs t 2 = None"
  using timer_refines_pending_map [of "[OpAdd 5 1, OpAdd 7 2, OpAdd 9 1, OpExpire 7]"]
  by (auto simp: ptr_max_def)

text \<open>
  \<open>GetExpired\<close> hands out exactly the pending entries due at \<open>now\<close> (the bound included),
  in order of expiry, keeps the others, and returns the time of the next one, which is
  later than \<open>now\<close>, or \<open>INT64_MAX\<close> when none is left.
\<close>

theorem GetExpired_exact:
  assumes "timer_inv t" and "now < time_max"
  shows "\<exists>t' out nxt. GetExpired t now [] = Inr (t', out, nxt) \<and>
     sorted out \<and> distinct out \<and>
     (\<forall>w p. (w, p) \<in> set out \<longleftrightarrow> timer_abs t p = Some w \<and> w \<le> now) \<and>
     (\<forall>w p. timer_abs t' p = Some w \<longleftrightarrow> timer_abs t p = Some w \<and> now < w) \<and>
     now < nxt \<and> (\<forall>w p. timer_abs t' p = Some w \<longrightarrow> nxt \<le> w) \<and>
     (nxt \<noteq> time_max \<longrightarrow> (\<exists>p. timer_abs t' p = Some nxt))"
proof -
  obtain t' where t': "GetExpired t now [] =
        Inr (t', filter (\<lambda>e. fst e \<le> now) (timers t), GetNextTime t')"
      "timer_inv t'" "timers t' = filter (\<lambda>e. now < fst e) (timers t)"
    using GetExpired_correct [OF assms(1)] by metis
  have pend: "timer_abs t' p = Some w \<longleftrightarrow> timer_abs t p = Some w \<and> now < w" for w p
    using timer_invD(3) [OF assms(1)] timer_invD(3) [OF t'(2)] t'(3) by auto
  have srt: "sorted (timers t)" "distinct (timers t)"
    using timer_invD(1) [OF assms(1)] by (simp_all add: sset_inv_def)
  have next_le: "GetNextTime t' \<le> w" if "timer_abs t' p = Some w" for w p
  proof -
    have "(w, p) \<in> set (timers t')" using that by (simp add: timer_invD(3) [OF t'(2)])
    then show ?thesis using timer_invD(1) [OF t'(2)]
      by (cases "timers t'") (auto simp: GetNextTime_def sset_inv_Cons less_prod_def)
  qed
  have next_in: "\<exists>p. timer_abs t' p = Some (GetNextTime t')" if "timers t' \<noteq> []"
  proof -
    from that have "(GetNextTime t', snd (hd (timers t'))) \<in> set (timers t')"
      by (cases "timers t'") (auto simp: GetNextTime_def)
    then show ?thesis using timer_invD(3) [OF t'(2)] by blast
  qed
  then have "now < GetNextTime t'"
    using assms(2) pend by (cases "timers t' = []") (auto simp: GetNextTime_def)
  moreover have "GetNextTime t' \<noteq> time_max \<Longrightarrow> \<exists>p. timer_abs t' p = Some (GetNextTime t')"
    using next_in by (cases "timers t' = []") (auto simp: GetNextTime_def)
  moreover note t'(1)
  ultimately show ?thesis
  proof (intro exI conjI)
    show "sorted (filter (\<lambda>e. fst e \<le> now) (timers t))"
      using srt(1) sorted_filter [of "\<lambda>e. e" "timers t"] by simp
    show "\<forall>w p. (w, p) \<in> set (filter (\<lambda>e. fst e \<le> now) (timers t)) \<longleftrightarrow>
        timer_abs t p = Some w \<and> w \<le> now"
      by (simp add: timer_invD(3) [OF assms(1)])
  qed (use srt pend next_le in auto)
qed

theorem GetExpired_exact_witness:
  "\<exists>t' out nxt. GetExpired \<lparr>timers = [(3, 8), (5, 4)], active_timers = [(4, 5), (8, 3)]\<rparr> 3 []
      = Inr (t', out, nxt) \<and> set out = {(3, 8)} \<and> nxt = 5"
proof -
  let ?t = "\<lparr>timers = [(3, 8), (5, 4)], active_timers = [(4, 5), (8, 3)]\<rparr>"
  have inv: "timer_inv ?t"
    by (auto simp: timer_inv_def sset_inv_def ptr_max_def)
  obtain t' out nxt where r: "GetExpired ?t 3 [] = Inr (t', out, nxt)"
    "\<forall>w p. (w, p) \<in> set out \<longleftrightarrow> timer_abs ?t p = Some w \<and> w \<le> 3"
    using GetExpired_exact [OF inv, of 3] by (auto simp: time_max_def)
  moreover have "(w, p) \<in> set out \<longleftrightarrow> (w, p) = (3, 8)" for w p
    using r(2) by (auto simp: timer_abs_def split: if_splits)
  ultimately show ?thesis
    by (auto simp: GetExpired_def sizes_agree_def GetNextTime_def sset_erase_def
        less_prod_def ptr_max_def)
qed

end
