(* ===== verification/Aggro.thy ===== *)
theory Aggro
  imports Prelude
begin

unbundle bit_operations_syntax

text \<open>
  \<open>gs/obj/aggrolist.cpp\<close> and \<open>gs/obj/aiaggro.cpp\<close>: the hate list of a monster, a vector of at
  most 16 targets kept in descending order of hate, and the policy that ages it. The vector
  surgery of \<open>AddRage\<close> (scan, shift, store) is modelled index by index and shown equivalent
  to removing the target and inserting it again at its place.
\<close>

section \<open>State\<close>

text \<open>\<open>XID\<close> of \<open>gs/global/game_types.h\<close>: a type tag and a 64-bit id, compared field by field.\<close>

record xid =
  xtype :: nat
  xnum :: int

record aggro_node =
  node_id :: xid
  rage :: int

type_synonym aggro_vec = "aggro_node list"

definition kMaxAggroListSize :: nat where
  "kMaxAggroListSize = 16"

section \<open>The loops of AddRage\<close>

fun find_id :: "aggro_vec \<Rightarrow> xid \<Rightarrow> nat option" where
  "find_id [] x = None"
| "find_id (n # al) x = (if node_id n = x then Some 0 else map_option Suc (find_id al x))"

text \<open>\<open>while (it2 != begin) { --it2; if (it2->rage > newrage) break; }\<close>\<close>

fun scan_up :: "aggro_vec \<Rightarrow> int \<Rightarrow> nat \<Rightarrow> nat" where
  "scan_up al r 0 = 0"
| "scan_up al r (Suc j) = (if rage (al ! j) > r then j else scan_up al r j)"

text \<open>\<open>while (it2 != end) { if (it2->rage < newrage) break; ++it2; }\<close>\<close>

function scan_down :: "aggro_vec \<Rightarrow> int \<Rightarrow> nat \<Rightarrow> nat" where
  "scan_down al r j =
     (if j < length al then (if rage (al ! j) < r then j else scan_down al r (Suc j)) else j)"
  by pat_completeness auto
termination
  by (relation "measure (\<lambda>(al, r, j). length al - j)") auto

declare scan_down.simps [simp del]

text \<open>\<open>for (; it != it2; --it) *it = *(it - 1);\<close>\<close>

fun shift_right :: "aggro_vec \<Rightarrow> nat \<Rightarrow> nat \<Rightarrow> aggro_vec" where
  "shift_right al it2 0 = al"
| "shift_right al it2 (Suc it) =
     (if Suc it = it2 then al else shift_right (al[Suc it := al ! it]) it2 it)"

text \<open>\<open>for (; it != it2; ++it) *it = *(it + 1);\<close>\<close>

function shift_left :: "aggro_vec \<Rightarrow> nat \<Rightarrow> nat \<Rightarrow> aggro_vec" where
  "shift_left al it2 it =
     (if it < it2 then shift_left (al[it := al ! Suc it]) it2 (Suc it) else al)"
  by pat_completeness auto
termination
  by (relation "measure (\<lambda>(al, it2, it). it2 - it)") auto

declare shift_left.simps [simp del]

text \<open>
  \<open>*it2 = node; it2->rage = newrage;\<close>, the end of both branches; the position is returned.
\<close>

definition store_node :: "aggro_vec \<Rightarrow> nat \<Rightarrow> aggro_node \<Rightarrow> int \<Rightarrow> aggro_vec \<times> int option" where
  "store_node al it2 node newrage = (al[it2 := node\<lparr>rage := newrage\<rparr>], Some (int it2))"

text \<open>
  \<open>std::lower_bound\<close> with \<open>RageCompare\<close>: the first position whose hate is below \<open>r\<close>, on a
  vector partitioned by that test.
\<close>

definition find_rage :: "aggro_vec \<Rightarrow> int \<Rightarrow> nat" where
  "find_rage al r = length (takeWhile (\<lambda>n. rage n \<ge> r) al)"

section \<open>Operations of AggroList\<close>

text \<open>
  The position that \<open>AddRage\<close> returns is \<open>None\<close> where the code computes it from an iterator that
  the vector operation before it has invalidated: after \<open>alist_.insert(it2, ...)\<close>, which may move
  the vector to other storage, and after \<open>alist_.erase(it)\<close>. Nothing is said of it there.
\<close>

definition AddRage :: "aggro_vec \<Rightarrow> xid \<Rightarrow> int \<Rightarrow> (aggro_vec \<times> int option) res" where
  "AddRage al x a_rage =
     (if a_rage = 0 then Inr (al, Some (-1))
      else case find_id al x of
        Some it \<Rightarrow>
          (let total = i32 (rage (al ! it) + a_rage);
               newrage = (if total < 0 then 0 else total)
           in if newrage \<noteq> 0 then
                (if a_rage > 0 then
                   (let j = scan_up al newrage it
                    in if rage (al ! j) > newrage
                       then Inr (store_node (shift_right al (Suc j) it) (Suc j) (al ! it) newrage)
                       else assertx (j = 0)
                              (Inr (store_node (shift_right al j it) j (al ! it) newrage)))
                 else
                   (let j = scan_down al newrage (Suc it) - 1
                    in Inr (store_node (shift_left al j it) j (al ! it) newrage)))
              else Inr (take it al @ drop (Suc it) al, None))
      | None \<Rightarrow>
          if a_rage < 0 then Inr (al, Some 0)
          else let al' = (if length al \<ge> kMaxAggroListSize then butlast al else al);
                   j = find_rage al' a_rage
               in Inr (take j al' @ \<lparr>node_id = x, rage = a_rage\<rparr> # drop j al', None))"

definition AddToFirst :: "aggro_vec \<Rightarrow> xid \<Rightarrow> int \<Rightarrow> (aggro_vec \<times> int option) res" where
  "AddToFirst al x addon =
     assertx (addon \<ge> 0)
      (case find_id al x of
         None \<Rightarrow> if al = [] then AddRage al x addon
                 else AddRage al x (i32 (rage (al ! 0) + addon))
       | Some it \<Rightarrow> AddRage al x (i32 (rage (al ! 0) - rage (al ! it) + addon)))"

definition RemoveFirst :: "aggro_vec \<Rightarrow> aggro_vec" where
  "RemoveFirst al = (if al = [] then al else tl al)"

definition GetFirst :: "aggro_vec \<Rightarrow> xid option" where
  "GetFirst al = (if al = [] then None else Some (node_id (al ! 0)))"

definition Aggro_Remove :: "aggro_vec \<Rightarrow> xid \<Rightarrow> aggro_vec \<times> int" where
  "Aggro_Remove al x =
     (case find_id al x of None \<Rightarrow> (al, -1) | Some it \<Rightarrow> (take it al @ drop (Suc it) al, int it))"

definition IsFirst :: "aggro_vec \<Rightarrow> xid \<Rightarrow> bool" where
  "IsFirst al x \<longleftrightarrow> al \<noteq> [] \<and> node_id (al ! 0) = x"

section \<open>The list invariant\<close>

definition aggro_inv :: "aggro_vec \<Rightarrow> bool" where
  "aggro_inv al \<longleftrightarrow>
     sorted_wrt (\<lambda>m n. rage n \<le> rage m) al \<and> distinct (map node_id al) \<and>
     length al \<le> kMaxAggroListSize \<and>
     (\<forall>n \<in> set al. 0 < rage n \<and> rage n < 2147483648)"

lemma find_id_Some:
  "find_id al x = Some it \<Longrightarrow>
     \<exists>pre n post. al = pre @ n # post \<and> length pre = it \<and> node_id n = x \<and>
       x \<notin> node_id ` set pre"
proof (induction al arbitrary: it)
  case Nil
  then show ?case by simp
next
  case (Cons m al)
  show ?case
  proof (cases "node_id m = x")
    case True
    with Cons.prems show ?thesis by (intro exI [of _ "[]"]) auto
  next
    case False
    with Cons.prems obtain j where "find_id al x = Some j" "it = Suc j" by auto
    with Cons.IH obtain pre n post where
      "al = pre @ n # post" "length pre = j" "node_id n = x" "x \<notin> node_id ` set pre"
      by blast
    with False \<open>it = Suc j\<close> show ?thesis by (intro exI [of _ "m # pre"]) auto
  qed
qed

lemma find_id_None: "find_id al x = None \<longleftrightarrow> x \<notin> node_id ` set al"
  by (induction al) auto

lemma find_id_append:
  "x \<notin> node_id ` set pre \<Longrightarrow> node_id n = x \<Longrightarrow> find_id (pre @ n # post) x = Some (length pre)"
  by (induction pre) auto

section \<open>What the scans and shifts compute\<close>

lemma scan_up_split:
  assumes "\<forall>m \<in> set hi. rage m > r" "\<forall>m \<in> set lo. \<not> rage m > r"
  shows "scan_up (hi @ lo @ rest) r (length hi + length lo) = length hi - 1"
  using assms(2)
proof (induction lo arbitrary: rest rule: rev_induct)
  case Nil
  then show ?case
    using assms(1) by (cases hi rule: rev_cases) (auto simp: nth_append)
next
  case (snoc m lo)
  then show ?case by (simp add: nth_append)
qed

lemma scan_down_split:
  assumes "\<forall>m \<in> set hi. \<not> rage m < r" "lo = [] \<or> rage (hd lo) < r"
  shows "scan_down (pre @ hi @ lo) r (length pre) = length pre + length hi"
  using assms(1)
proof (induction hi arbitrary: pre)
  case Nil
  then show ?case
    using assms(2) by (subst scan_down.simps) (cases lo, auto simp: nth_append)
next
  case (Cons m hi)
  have "scan_down (pre @ (m # hi) @ lo) r (length pre)
      = scan_down ((pre @ [m]) @ hi @ lo) r (length (pre @ [m]))"
    using Cons.prems by (subst scan_down.simps) (simp add: nth_append)
  also have "\<dots> = length pre + length (m # hi)"
    using Cons.IH [of "pre @ [m]"] Cons.prems by simp
  finally show ?case .
qed

lemma shift_right_split:
  "(shift_right (p @ q @ x # post) (length p) (length p + length q))[length p := y]
     = p @ y # q @ post"
proof (induction q arbitrary: x post rule: rev_induct)
  case Nil
  then show ?case by (cases p) auto
next
  case (snoc z q)
  have "shift_right (p @ (q @ [z]) @ x # post) (length p) (length p + length (q @ [z]))
      = shift_right (p @ q @ z # z # post) (length p) (length p + length q)"
    by (simp add: nth_append list_update_append)
  with snoc [of z "z # post"] show ?case by simp
qed

lemma shift_left_split:
  "(shift_left (p @ x # q @ post) (length p + length q) (length p))[length p + length q := y]
     = p @ q @ y # post"
proof (induction q arbitrary: p x)
  case Nil
  then show ?case by (simp add: shift_left.simps list_update_append)
next
  case (Cons z q)
  have "shift_left (p @ x # (z # q) @ post) (length p + length (z # q)) (length p)
      = shift_left ((p @ [z]) @ z # q @ post) (length (p @ [z]) + length q) (length (p @ [z]))"
    by (subst shift_left.simps) (simp add: nth_append list_update_append)
  with Cons [of "p @ [z]" z] show ?case by simp
qed

section \<open>The reference: take out and insert again\<close>

text \<open>
  A raised target goes before every target with at most its new hate, a lowered one after
  every target with at least its new hate; a new one like a lowered one, the last target
  making room when the list is full.
\<close>

definition without :: "aggro_vec \<Rightarrow> xid \<Rightarrow> aggro_vec" where
  "without al x = filter (\<lambda>n. node_id n \<noteq> x) al"

definition place :: "(aggro_node \<Rightarrow> bool) \<Rightarrow> aggro_node \<Rightarrow> aggro_vec \<Rightarrow> aggro_vec \<times> int option" where
  "place before n al = (takeWhile before al @ n # dropWhile before al,
                        Some (int (length (takeWhile before al))))"

definition hate_of :: "aggro_vec \<Rightarrow> xid \<Rightarrow> int option" where
  "hate_of al x = map_of (map (\<lambda>n. (node_id n, rage n)) al) x"

definition AddRage_ref :: "aggro_vec \<Rightarrow> xid \<Rightarrow> int \<Rightarrow> aggro_vec \<times> int option" where
  "AddRage_ref al x a =
     (if a = 0 then (al, Some (-1))
      else case hate_of al x of
        Some h \<Rightarrow>
          (let r = max 0 (i32 (h + a)); n = \<lparr>node_id = x, rage = r\<rparr>
           in if r = 0 then (without al x, None)
              else if a > 0 then place (\<lambda>m. rage m > r) n (without al x)
              else place (\<lambda>m. rage m \<ge> r) n (without al x))
      | None \<Rightarrow>
          if a < 0 then (al, Some 0)
          else (fst (place (\<lambda>m. rage m \<ge> a) \<lparr>node_id = x, rage = a\<rparr>
                 (if length al < kMaxAggroListSize then al else butlast al)), None))"

lemma hate_of_None: "hate_of al x = None \<longleftrightarrow> x \<notin> node_id ` set al"
  by (simp add: hate_of_def map_of_eq_None_iff image_image)

lemma hate_of_append:
  "x \<notin> node_id ` set pre \<Longrightarrow> node_id n = x \<Longrightarrow> hate_of (pre @ n # post) x = Some (rage n)"
  by (induction pre) (auto simp: hate_of_def)

lemma filter_out: "x \<notin> node_id ` set xs \<Longrightarrow> filter (\<lambda>n. node_id n \<noteq> x) xs = xs"
  by (induction xs) auto

lemma without_append:
  "node_id n = x \<Longrightarrow> x \<notin> node_id ` set pre \<Longrightarrow> x \<notin> node_id ` set post \<Longrightarrow>
     without (pre @ n # post) x = pre @ post"
  by (simp add: without_def filter_out)

text \<open>A descending list splits at a bound: everything before it passes, nothing after does.\<close>

abbreviation desc :: "aggro_vec \<Rightarrow> bool" where
  "desc \<equiv> sorted_wrt (\<lambda>m n. rage n \<le> rage m)"

lemma desc_split:
  assumes "desc al"
  shows "\<forall>m \<in> set (dropWhile (\<lambda>n. rage n > r) al). \<not> rage m > r"
    "\<forall>m \<in> set (dropWhile (\<lambda>n. rage n \<ge> r) al). \<not> rage m \<ge> r"
  using assms
  by (rule dropWhile_none_left [where R = "\<lambda>m n. rage n \<le> rage m"], simp)+

lemma place_takeWhile:
  assumes "\<forall>m \<in> set hi. P m" "lo = [] \<or> \<not> P (hd lo)"
  shows "place P n (hi @ lo) = (hi @ n # lo, Some (int (length hi)))"
proof -
  have "takeWhile P lo = []" "dropWhile P lo = lo"
    using assms(2) by (cases lo; simp)+
  with assms(1) show ?thesis by (simp add: place_def split_while)
qed

lemma aggro_invD:
  assumes "aggro_inv (pre @ n # post)"
  shows "desc (pre @ post)" "\<forall>m \<in> set pre. rage n \<le> rage m" "\<forall>m \<in> set post. rage m \<le> rage n"
    "node_id n \<notin> node_id ` set pre" "node_id n \<notin> node_id ` set post"
    "0 < rage n" "rage n < 2147483648"
  using assms by (auto simp: aggro_inv_def sorted_wrt_append)

lemma AddRage_raise:
  assumes inv: "aggro_inv (pre @ n # post)" and a: "0 < a" and r: "r = rage n + a"
    and i: "i32 (rage n + a) = r"
  shows "AddRage (pre @ n # post) (node_id n) a =
     Inr (place (\<lambda>m. rage m > r) (n\<lparr>rage := r\<rparr>) (pre @ post))"
proof -
  note D = aggro_invD [OF inv]
  let ?hi = "takeWhile (\<lambda>m. rage m > r) pre"
  let ?lo = "dropWhile (\<lambda>m. rage m > r) pre"
  let ?y = "n\<lparr>rage := r\<rparr>"
  have pre: "pre = ?hi @ ?lo" by simp
  have hi: "\<forall>m \<in> set ?hi. rage m > r" by (auto dest: set_takeWhileD)
  have lo: "\<forall>m \<in> set ?lo. \<not> rage m > r"
    using D(1) by (intro desc_split) (simp add: sorted_wrt_append)
  have len: "length ?hi + length ?lo = length pre" by (metis pre length_append)
  have al: "pre @ n # post = ?hi @ ?lo @ n # post" by simp
  have scan: "scan_up (pre @ n # post) r (length pre) = length ?hi - 1"
    using scan_up_split [OF hi lo, of "n # post"] by (simp only: al len)
  have shift: "(shift_right (pre @ n # post) (length ?hi) (length pre))[length ?hi := ?y]
      = ?hi @ ?y # ?lo @ post"
    using shift_right_split [of ?hi ?lo n post ?y] by (simp only: al len)
  have at_j: "rage ((pre @ n # post) ! (length ?hi - 1)) > r \<longleftrightarrow> ?hi \<noteq> []"
  proof (cases "?hi = []")
    case True
    then have "\<not> rage ((pre @ n # post) ! 0) > r"
      using a r by (cases pre) (auto split: if_splits)
    with True show ?thesis by simp
  next
    case False
    then have "(pre @ n # post) ! (length ?hi - 1) = last ?hi"
      by (metis al append_butlast_last_id length_butlast nth_append_length append.assoc
          append_Cons append_Nil)
    with False hi show ?thesis by (simp add: last_in_set)
  qed
  have "?lo @ post = [] \<or> \<not> rage (hd (?lo @ post)) > r"
  proof (cases "?lo = []")
    case True
    then have "?lo @ post = post" by simp
    moreover have "post = [] \<or> \<not> rage (hd post) > r" using D(3) a r by (cases post) auto
    ultimately show ?thesis by (simp only:) 
  next
    case False
    then have "hd (?lo @ post) \<in> set ?lo" by (simp del: dropWhile_eq_Nil_conv)
    with lo show ?thesis by blast
  qed
  from place_takeWhile [OF hi this, of ?y]
  have ref: "place (\<lambda>m. rage m > r) ?y (pre @ post) = (?hi @ ?y # ?lo @ post, Some (int (length ?hi)))"
    by (metis pre append.assoc)
  have "0 < r" using D(6) a r by simp
  with a i D(4) scan shift at_j ref show ?thesis
    by (cases "?hi = []")
      (simp_all add: AddRage_def find_id_append store_node_def Let_def del: takeWhile_eq_Nil_iff)
qed

lemma AddRage_lower:
  assumes inv: "aggro_inv (pre @ n # post)" and a: "a < 0" and r: "r = rage n + a" "0 < r"
    and i: "i32 (rage n + a) = r"
  shows "AddRage (pre @ n # post) (node_id n) a =
     Inr (place (\<lambda>m. rage m \<ge> r) (n\<lparr>rage := r\<rparr>) (pre @ post))"
proof -
  note D = aggro_invD [OF inv]
  let ?hi = "takeWhile (\<lambda>m. rage m \<ge> r) post"
  let ?lo = "dropWhile (\<lambda>m. rage m \<ge> r) post"
  let ?y = "n\<lparr>rage := r\<rparr>"
  have post: "post = ?hi @ ?lo" by simp
  have hi: "\<forall>m \<in> set ?hi. \<not> rage m < r" by (auto dest: set_takeWhileD)
  have lo: "?lo = [] \<or> rage (hd ?lo) < r"
    using hd_dropWhile [of "\<lambda>m. rage m \<ge> r" post] by (cases "?lo = []") auto
  have al: "pre @ n # post = pre @ n # ?hi @ ?lo" by simp
  have scan: "scan_down (pre @ n # post) r (Suc (length pre)) = Suc (length pre + length ?hi)"
    using scan_down_split [OF hi lo, of "pre @ [n]"] by simp
  have shift: "(shift_left (pre @ n # post) (length pre + length ?hi) (length pre))
      [length pre + length ?hi := ?y] = pre @ ?hi @ ?y # ?lo"
    using shift_left_split [of pre n ?hi ?lo ?y] by simp
  have "\<forall>m \<in> set (pre @ ?hi). rage m \<ge> r"
    using D(2) a r hi by force
  from place_takeWhile [OF this, of ?lo ?y] lo
  have ref: "place (\<lambda>m. rage m \<ge> r) ?y (pre @ post)
      = (pre @ ?hi @ ?y # ?lo, Some (int (length pre + length ?hi)))"
    by (simp add: not_le)
  with a i r(2) D(4) scan shift ref show ?thesis
    by (simp add: AddRage_def find_id_append store_node_def Let_def)
qed

lemma AddRage_eq_ref:
  assumes inv: "aggro_inv al" and a: "- 2147483648 \<le> a" "a < 2147483648"
  shows "AddRage al x a = Inr (AddRage_ref al x a)"
proof (cases "a = 0")
  case True
  then show ?thesis by (simp add: AddRage_def AddRage_ref_def)
next
  case nz: False
  show ?thesis
  proof (cases "find_id al x")
    case None
    then have "hate_of al x = None" by (simp add: find_id_None hate_of_None)
    moreover have "length al = kMaxAggroListSize \<or> length al < kMaxAggroListSize"
      using inv by (auto simp: aggro_inv_def)
    ultimately show ?thesis using None nz
      by (auto simp: AddRage_def AddRage_ref_def place_def find_rage_def Let_def
          simp flip: takeWhile_eq_take dropWhile_eq_drop)
  next
    case (Some it)
    then obtain pre n post where al: "al = pre @ n # post" "length pre = it" "node_id n = x"
      using find_id_Some by blast
    note D = aggro_invD [OF inv [unfolded al(1)]]
    have hate: "hate_of al x = Some (rage n)" and wo: "without al x = pre @ post"
      using D al by (simp_all add: hate_of_append without_append)
    let ?s = "i32 (rage n + a)"
    have s: "?s > 0 \<Longrightarrow> ?s = rage n + a"
      using D(6,7) a by (cases "rage n + a < 2147483648") (simp_all add: i32_id i32_wrap)
    have up: "n\<lparr>rage := r\<rparr> = \<lparr>node_id = x, rage = r\<rparr>" for r
      using al(3) by (cases n) simp
    show ?thesis
    proof (cases "?s > 0")
      case True
      have "AddRage al x a = Inr (place (if a > 0 then (\<lambda>m. rage m > ?s) else (\<lambda>m. rage m \<ge> ?s))
              (n\<lparr>rage := ?s\<rparr>) (pre @ post))"
        using AddRage_raise [of pre n post a ?s] AddRage_lower [of pre n post a ?s]
          s True inv al nz by (cases "a > 0") auto
      with True nz hate wo show ?thesis
        by (auto simp: AddRage_ref_def Let_def max_def up)
    next
      case False
      have "takeWhile (\<lambda>m. node_id m \<noteq> x) al = pre"
        using D(4) al by (subst al(1), subst takeWhile_app_all) (auto simp: image_iff)
      with False Some nz al hate wo show ?thesis
        by (auto simp: AddRage_def AddRage_ref_def Let_def max_def)
    qed
  qed
qed

section \<open>Every operation keeps the invariant\<close>

definition node_ok :: "aggro_node \<Rightarrow> bool" where
  "node_ok n \<longleftrightarrow> 0 < rage n \<and> rage n < 2147483648"

lemma aggro_inv_place:
  assumes inv: "aggro_inv al" and room: "length al < kMaxAggroListSize"
    and new: "node_id n \<notin> node_id ` set al" and n: "node_ok n"
    and before: "before = (\<lambda>m. rage m > rage n) \<or> before = (\<lambda>m. rage m \<ge> rage n)"
  shows "aggro_inv (fst (place before n al))"
proof -
  let ?hi = "takeWhile before al" and ?lo = "dropWhile before al"
  have al: "?hi @ ?lo = al" by simp
  have parts: "desc ?hi" "desc ?lo" "\<forall>m \<in> set ?hi. \<forall>k \<in> set ?lo. rage k \<le> rage m"
    using inv al by (metis aggro_inv_def sorted_wrt_append)+
  have hi: "\<forall>m \<in> set ?hi. rage n \<le> rage m"
    using before by (auto dest!: set_takeWhileD)
  have lo: "\<forall>m \<in> set ?lo. rage m \<le> rage n"
    using before desc_split [of al "rage n"] inv by (auto simp: aggro_inv_def not_less not_le)
  have "desc (?hi @ n # ?lo)"
    using parts hi lo by (auto simp: sorted_wrt_append)
  moreover have sub: "set ?hi \<union> set ?lo = set al"
    by (metis al set_append)
  moreover have "distinct (map node_id (?hi @ n # ?lo))"
  proof -
    have "distinct (map node_id ?hi @ map node_id ?lo)"
      using inv by (metis al map_append aggro_inv_def)
    moreover have "node_id n \<notin> set (map node_id ?hi @ map node_id ?lo)"
      using new sub by auto
    ultimately show ?thesis by auto
  qed
  moreover have "length (?hi @ n # ?lo) = Suc (length al)"
    by (metis al length_append length_Cons add_Suc_right)
  moreover have "\<forall>m \<in> set (?hi @ n # ?lo). node_ok m"
    using inv n sub by (auto simp: aggro_inv_def node_ok_def)
  ultimately show ?thesis
    using room by (auto simp: place_def aggro_inv_def node_ok_def)
qed

lemma aggro_inv_filter: "aggro_inv al \<Longrightarrow> aggro_inv (filter P al)"
  by (auto simp: aggro_inv_def sorted_wrt_filter distinct_map_filter
      intro: le_trans [OF length_filter_le])

lemma aggro_inv_take: "aggro_inv al \<Longrightarrow> aggro_inv (take k al)"
  by (auto simp: aggro_inv_def sorted_wrt_take distinct_take simp flip: take_map dest: in_set_takeD)

lemma aggro_inv_butlast: "aggro_inv al \<Longrightarrow> aggro_inv (butlast al)"
  by (simp add: butlast_conv_take aggro_inv_take)

lemma aggro_inv_tl: "aggro_inv al \<Longrightarrow> aggro_inv (tl al)"
  by (cases al) (auto simp: aggro_inv_def)

lemma length_without:
  "hate_of al x \<noteq> None \<Longrightarrow> length (without al x) < length al"
  by (auto simp: hate_of_None without_def intro!: length_filter_less)

lemma AddRage_ref_inv:
  assumes inv: "aggro_inv al" and a: "a < 2147483648"
  shows "aggro_inv (fst (AddRage_ref al x a))"
proof (cases "hate_of al x")
  case None
  let ?al = "if length al < kMaxAggroListSize then al else butlast al"
  have "aggro_inv ?al" using inv by (simp add: aggro_inv_butlast)
  moreover have "length ?al < kMaxAggroListSize"
    using inv by (auto simp: aggro_inv_def kMaxAggroListSize_def)
  moreover have "x \<notin> node_id ` set ?al"
    using None by (auto simp: hate_of_None dest: in_set_butlastD)
  ultimately have "a > 0 \<Longrightarrow> aggro_inv (fst (place (\<lambda>m. rage m \<ge> a) \<lparr>node_id = x, rage = a\<rparr> ?al))"
    using a by (intro aggro_inv_place) (auto simp: node_ok_def)
  with None inv show ?thesis by (auto simp: AddRage_ref_def not_less)
next
  case (Some h)
  have "x \<notin> node_id ` set (without al x)" by (auto simp: without_def)
  moreover have "length (without al x) < kMaxAggroListSize"
    using length_without [of al x] Some inv by (auto simp: aggro_inv_def)
  moreover have wo: "aggro_inv (without al x)"
    using inv by (simp add: without_def aggro_inv_filter)
  ultimately have "aggro_inv (fst (place before \<lparr>node_id = x, rage = r\<rparr> (without al x)))"
    if "0 < r" "r < 2147483648"
      "before = (\<lambda>m. rage m > r) \<or> before = (\<lambda>m. rage m \<ge> r)" for r before
    using that by (intro aggro_inv_place) (auto simp: node_ok_def)
  then show ?thesis
    using Some inv wo i32_range(2) [of "h + a"] by (auto simp: AddRage_ref_def Let_def max_def)
qed

lemma Aggro_Remove_without: "aggro_inv al \<Longrightarrow> fst (Aggro_Remove al x) = without al x"
proof (cases "find_id al x")
  case None
  moreover from None have "x \<notin> node_id ` set al" by (simp add: find_id_None)
  ultimately show ?thesis by (simp add: Aggro_Remove_def without_def filter_out)
next
  case (Some it)
  assume inv: "aggro_inv al"
  from Some obtain pre n post where al: "al = pre @ n # post" "length pre = it" "node_id n = x"
    using find_id_Some by blast
  with aggro_invD [OF inv [unfolded al(1)]] Some show ?thesis
    by (auto simp: Aggro_Remove_def without_append)
qed

section \<open>Where AddToFirst puts its target\<close>

lemma hate_of_Cons:
  "hate_of (n # al) x = (if node_id n = x then Some (rage n) else hate_of al x)"
  by (auto simp: hate_of_def)

lemma hate_le_first:
  assumes "aggro_inv al" "hate_of al x = Some h"
  shows "al \<noteq> [] \<and> h \<le> rage (al ! 0) \<and> 0 < h"
proof -
  have "(x, h) \<in> set (map (\<lambda>n. (node_id n, rage n)) al)"
    using assms(2) unfolding hate_of_def by (rule map_of_SomeD)
  with assms(1) show ?thesis by (cases al) (auto simp: aggro_inv_def)
qed

lemma find_id_hate: "find_id al x = Some it \<Longrightarrow> hate_of al x = Some (rage (al ! it)) \<and> it < length al"
  by (induction al arbitrary: it) (auto simp: hate_of_Cons split: if_splits)

lemma place_first:
  assumes "\<forall>m \<in> set al. \<not> before m"
  shows "place before n al = (n # al, Some 0)"
proof -
  from assms have "takeWhile before al = []" "dropWhile before al = al"
    by (cases al; simp)+
  then show ?thesis by (simp add: place_def)
qed

lemma rage_le_first: "aggro_inv al \<Longrightarrow> m \<in> set al \<Longrightarrow> rage m \<le> rage (al ! 0)"
  by (cases al) (auto simp: aggro_inv_def)

lemma set_without: "m \<in> set (without al x) \<Longrightarrow> m \<in> set al"
  by (simp add: without_def)

section \<open>AggroPolicy\<close>

text \<open>
  The float comparison of squared distances is left to the caller: \<open>far\<close> is its outcome.
  \<open>enemy\<close> is the faction mask of the target, tested with a bitwise and.
\<close>

record aggro_policy =
  aggro_list :: aggro_vec
  aggro_time :: int
  enemy_faction :: int
  timeout_timer :: int
  aggro_watch :: bool

definition AggroPolicy_Clear :: "aggro_policy \<Rightarrow> aggro_policy" where
  "AggroPolicy_Clear p = p\<lparr>timeout_timer := 0, aggro_list := []\<rparr>"

definition AggroPolicy_Heartbeat :: "aggro_policy \<Rightarrow> aggro_policy" where
  "AggroPolicy_Heartbeat p =
     (if timeout_timer p \<noteq> 0 then
        (let p1 = p\<lparr>timeout_timer := timeout_timer p - 1\<rparr>
         in if timeout_timer p1 \<le> 0 then
              (let p2 = p1\<lparr>aggro_list := RemoveFirst (aggro_list p1)\<rparr>
               in case GetFirst (aggro_list p2) of
                    Some _ \<Rightarrow> p2\<lparr>timeout_timer := aggro_time p2\<rparr>
                  | None \<Rightarrow> AggroPolicy_Clear (p2\<lparr>timeout_timer := 0\<rparr>))
            else p1)
      else p)"

definition AggroWatch :: "aggro_policy \<Rightarrow> xid \<Rightarrow> bool \<Rightarrow> int \<Rightarrow> (aggro_policy \<times> bool) res" where
  "AggroWatch p target far faction =
     (if \<not> aggro_watch p then Inr (p, False)
      else if aggro_list p = [] then
        (if far then Inr (p, False)
         else if faction AND enemy_faction p \<noteq> 0 then
           bindr (AddRage (aggro_list p) target 1) (\<lambda>(al, _).
             Inr (p\<lparr>aggro_list := al, timeout_timer := aggro_time p\<rparr>, True))
         else Inr (p, False))
      else Inr (p, False))"

definition ChangeWatch :: "aggro_policy \<Rightarrow> xid \<Rightarrow> bool \<Rightarrow> int \<Rightarrow> (aggro_policy \<times> bool) res" where
  "ChangeWatch p target far faction =
     (if far then Inr (p, False)
      else if faction AND enemy_faction p \<noteq> 0 then
        bindr (AddToFirst (aggro_list p) target 1) (\<lambda>(al, _).
          Inr (p\<lparr>aggro_list := al, timeout_timer := aggro_time p\<rparr>, True))
      else Inr (p, False))"

definition AggroPolicy_Remove :: "aggro_policy \<Rightarrow> xid \<Rightarrow> aggro_policy" where
  "AggroPolicy_Remove p x =
     (case Aggro_Remove (aggro_list p) x of
        (al, i) \<Rightarrow> if i = 0 then p\<lparr>aggro_list := al, timeout_timer := aggro_time p\<rparr>
                   else p\<lparr>aggro_list := al\<rparr>)"

definition RefreshTimer :: "aggro_policy \<Rightarrow> xid \<Rightarrow> aggro_policy" where
  "RefreshTimer p x =
     (if IsFirst (aggro_list p) x then p\<lparr>timeout_timer := aggro_time p\<rparr> else p)"

definition ChangeAggroParam :: "aggro_policy \<Rightarrow> int \<Rightarrow> int \<Rightarrow> aggro_policy" where
  "ChangeAggroParam p time enemies = p\<lparr>aggro_time := time, enemy_faction := enemies\<rparr>"

section \<open>Sequences of calls\<close>

datatype aggro_op =
  OpAddRage xid int
| OpAddToFirst xid int
| OpRemove xid
| OpRemoveFirst
| OpClearList

fun aggro_step :: "aggro_vec \<Rightarrow> aggro_op \<Rightarrow> aggro_vec res" where
  "aggro_step al (OpAddRage x a) = bindr (AddRage al x a) (\<lambda>(al', _). Inr al')"
| "aggro_step al (OpAddToFirst x a) = bindr (AddToFirst al x a) (\<lambda>(al', _). Inr al')"
| "aggro_step al (OpRemove x) = Inr (fst (Aggro_Remove al x))"
| "aggro_step al OpRemoveFirst = Inr (RemoveFirst al)"
| "aggro_step al OpClearList = Inr []"

fun aggro_pre :: "aggro_vec \<Rightarrow> aggro_op \<Rightarrow> bool" where
  "aggro_pre al (OpAddRage x a) \<longleftrightarrow> - 2147483648 \<le> a \<and> a < 2147483648"
| "aggro_pre al (OpAddToFirst x a) \<longleftrightarrow> 0 \<le> a \<and> a < 2147483648"
| "aggro_pre al _ \<longleftrightarrow> True"

lemma AddToFirst_AddRage:
  assumes "0 \<le> a" "a < 2147483648"
  shows "\<exists>b. - 2147483648 \<le> b \<and> b < 2147483648 \<and> AddToFirst al x a = AddRage al x b"
proof -
  have "\<exists>b. - 2147483648 \<le> b \<and> b < 2147483648 \<and> AddRage al x (i32 c) = AddRage al x b" for c
    using i32_range by blast
  moreover have "\<exists>b. - 2147483648 \<le> b \<and> b < 2147483648 \<and> AddRage [] x a = AddRage [] x b"
    using assms by (intro exI [of _ a]) simp
  ultimately show ?thesis using assms by (auto simp: AddToFirst_def split: option.splits)
qed

lemma aggro_step_inv:
  assumes "aggro_inv al" "aggro_pre al op"
  shows "\<exists>al'. aggro_step al op = Inr al' \<and> aggro_inv al'"
proof (cases op)
  case (OpAddRage x a)
  with assms show ?thesis
    using AddRage_eq_ref [of al a x] AddRage_ref_inv [of al a x]
    by (cases "AddRage_ref al x a") auto
next
  case (OpAddToFirst x a)
  with assms obtain b where "- 2147483648 \<le> b" "b < 2147483648" "AddToFirst al x a = AddRage al x b"
    using AddToFirst_AddRage [of a al x] by auto
  with assms OpAddToFirst show ?thesis
    using AddRage_eq_ref [of al b x] AddRage_ref_inv [of al b x]
    by (cases "AddRage_ref al x b") auto
next
  case (OpRemove x)
  with assms show ?thesis by (simp add: Aggro_Remove_without without_def aggro_inv_filter)
qed (use assms in \<open>auto simp: RemoveFirst_def aggro_inv_tl\<close>, simp add: aggro_inv_def)

interpretation aggro: invariant_system aggro_step aggro_pre aggro_inv
  by unfold_locales (rule aggro_step_inv)

lemma aggro_inv_Nil: "aggro_inv []"
  by (simp add: aggro_inv_def)

section \<open>Properties\<close>

text \<open>
  C13: \<open>AddRage\<close>, with its backward and forward scans and its element by element shifts, leaves
  the list that taking the target out and inserting it at the place of its new hate leaves, on
  every branch; when the hate of a listed target is raised or lowered to a positive value, the
  position it returns is the one the target has then. It never trips its assertion. Nothing is
  claimed of the position returned after a new target was inserted or one was erased, where the code computes it from an
  invalidated iterator.
\<close>

theorem AddRage_equiv_reference:
  assumes "aggro_inv al" "- 2147483648 \<le> a" "a < 2147483648"
  shows "AddRage al x a = Inr (AddRage_ref al x a)"
  using assms by (rule AddRage_eq_ref)

abbreviation mob_a :: xid where "mob_a \<equiv> \<lparr>xtype = 3, xnum = 1\<rparr>"
abbreviation mob_b :: xid where "mob_b \<equiv> \<lparr>xtype = 3, xnum = 2\<rparr>"

theorem AddRage_equiv_reference_witness:
  "AddRage [\<lparr>node_id = mob_a, rage = 9\<rparr>, \<lparr>node_id = mob_b, rage = 4\<rparr>] mob_b 5
     = Inr ([\<lparr>node_id = mob_b, rage = 9\<rparr>, \<lparr>node_id = mob_a, rage = 9\<rparr>], Some 0)"
proof -
  let ?al = "[\<lparr>node_id = mob_a, rage = 9\<rparr>, \<lparr>node_id = mob_b, rage = 4\<rparr>]"
  have "aggro_inv ?al" by (simp add: aggro_inv_def kMaxAggroListSize_def)
  from AddRage_equiv_reference [OF this, of 5 mob_b] show ?thesis
    by (simp add: AddRage_ref_def hate_of_def without_def place_def i32_def)
qed

text \<open>
  C39: Whatever sequence of \<open>AddRage\<close>, \<open>AddToFirst\<close>, \<open>Remove\<close>, \<open>RemoveFirst\<close> and \<open>Clear\<close> a
  monster sees, its hate list stays in descending order, without duplicates, with at most
  16 targets of positive hate, and \<open>GetFirst\<close> answers a target of maximal hate.
\<close>

theorem aggro_list_invariant:
  assumes "\<forall>op \<in> set ops. \<forall>al. aggro_pre al op"
  shows "\<exists>al. run aggro_step [] ops = Inr al \<and> aggro_inv al \<and>
     (\<forall>x h. hate_of al x = Some h \<longrightarrow>
        (\<exists>y. GetFirst al = Some y \<and> (\<exists>g. hate_of al y = Some g \<and> h \<le> g)))"
proof -
  have "admissible aggro_step aggro_pre [] ops"
    using assms by (intro admissibleI) auto
  from aggro.run_inv [OF aggro_inv_Nil this] obtain al where
    al: "run aggro_step [] ops = Inr al" "aggro_inv al" by blast
  have "\<exists>y. GetFirst al = Some y \<and> (\<exists>g. hate_of al y = Some g \<and> h \<le> g)"
    if "hate_of al x = Some h" for x h
    using hate_le_first [OF al(2) that] by (cases al) (auto simp: GetFirst_def hate_of_Cons)
  with al show ?thesis by blast
qed

theorem aggro_list_invariant_witness:
  "\<exists>al. run aggro_step [] [OpAddRage mob_a 3, OpAddToFirst mob_b 1, OpRemove mob_a] = Inr al \<and>
        aggro_inv al"
  using aggro_list_invariant [of "[OpAddRage mob_a 3, OpAddToFirst mob_b 1, OpRemove mob_a]"]
  by fastforce

text \<open>
  \<open>AddToFirst\<close> with a positive bonus makes its target the one the monster attacks, with
  the former maximum plus the bonus as its hate, as long as that sum fits an \<open>int\<close>.
\<close>

theorem AddToFirst_makes_first:
  assumes inv: "aggro_inv al" and a: "0 < addon"
    and fits: "(if al = [] then 0 else rage (al ! 0)) + addon < 2147483648"
  shows "\<exists>al' i. AddToFirst al x addon = Inr (al', i) \<and> aggro_inv al' \<and> GetFirst al' = Some x \<and>
     hate_of al' x = Some ((if al = [] then 0 else rage (al ! 0)) + addon)"
proof -
  let ?top = "if al = [] then 0 else rage (al ! 0)"
  let ?n = "\<lparr>node_id = x, rage = ?top + addon\<rparr>"
  have top: "\<forall>m \<in> set al. 0 < rage m \<and> rage m \<le> ?top"
    using inv rage_le_first [OF inv] by (auto simp: aggro_inv_def)
  then have top0: "0 \<le> ?top" by (cases al) auto
  have "\<exists>b rest. AddToFirst al x addon = AddRage al x b \<and> - 2147483648 \<le> b \<and> b < 2147483648 \<and>
      fst (AddRage_ref al x b) = ?n # rest"
  proof (cases "find_id al x")
    case None
    let ?al = "if length al < kMaxAggroListSize then al else butlast al"
    have "set ?al \<subseteq> set al" by (auto dest: in_set_butlastD)
    then have "\<forall>m \<in> set ?al. \<not> rage m \<ge> ?top + addon"
      using top a by force
    then have "place (\<lambda>m. rage m \<ge> ?top + addon) ?n ?al = (?n # ?al, Some 0)"
      by (rule place_first)
    moreover have "hate_of al x = None" using None by (simp add: hate_of_None find_id_None)
    ultimately have "fst (AddRage_ref al x (?top + addon)) = ?n # ?al"
      using a top0 by (simp add: AddRage_ref_def)
    moreover have "AddToFirst al x addon = AddRage al x (?top + addon)"
      using None a fits top0 by (cases "al = []") (auto simp: AddToFirst_def i32_id)
    ultimately show ?thesis using a fits top0 by auto
  next
    case (Some it)
    let ?b = "?top - rage (al ! it) + addon"
    from find_id_hate [OF Some] have h: "hate_of al x = Some (rage (al ! it))" "it < length al"
      by auto
    then have mem: "al ! it \<in> set al" by simp
    have b: "0 < ?b" "?b < 2147483648" "rage (al ! it) + ?b = ?top + addon"
      using top mem a fits by auto
    have "\<forall>m \<in> set (without al x). \<not> rage m > ?top + addon"
      using top a by (auto dest!: set_without)
    then have "place (\<lambda>m. rage m > ?top + addon) ?n (without al x) = (?n # without al x, Some 0)"
      by (rule place_first)
    then have "fst (AddRage_ref al x ?b) = ?n # without al x"
      using h b(1) fits top0 a by (simp add: AddRage_ref_def Let_def i32_id b(3) max_def)
    moreover have "AddToFirst al x addon = AddRage al x ?b"
      using Some a b h(2) by (auto simp: AddToFirst_def i32_id)
    ultimately show ?thesis using b by auto
  qed
  then obtain b rest where r: "AddToFirst al x addon = AddRage al x b"
    "- 2147483648 \<le> b" "b < 2147483648" "fst (AddRage_ref al x b) = ?n # rest" by blast
  then have "AddRage al x b = Inr (?n # rest, snd (AddRage_ref al x b))" "aggro_inv (?n # rest)"
    using AddRage_eq_ref [OF inv r(2,3), of x] AddRage_ref_inv [OF inv r(3), of x] by (simp_all add: prod_eq_iff)
  with r(1) show ?thesis by (auto simp: GetFirst_def hate_of_Cons)
qed

theorem AddToFirst_makes_first_witness:
  "\<exists>al' i. AddToFirst [\<lparr>node_id = mob_a, rage = 9\<rparr>] mob_b 1 = Inr (al', i) \<and> GetFirst al' = Some mob_b"
proof -
  have "aggro_inv [\<lparr>node_id = mob_a, rage = 9\<rparr>]" by (simp add: aggro_inv_def kMaxAggroListSize_def)
  from AddToFirst_makes_first [OF this, of 1 mob_b] show ?thesis by auto
qed

text \<open>
  A bonus of zero, which the assertion of \<open>AddToFirst\<close> admits, does not put a new target
  first: it is inserted behind every target of equal hate.
\<close>

theorem AddToFirst_zero_not_first:
  assumes inv: "aggro_inv al" and "al \<noteq> []" "x \<notin> node_id ` set al" "length al < kMaxAggroListSize"
  shows "\<exists>al' i. AddToFirst al x 0 = Inr (al', i) \<and> hate_of al' x = Some (rage (al ! 0)) \<and>
     GetFirst al' = GetFirst al \<and> GetFirst al' \<noteq> Some x"
proof -
  let ?r = "rage (al ! 0)"
  have r: "0 < ?r" "?r < 2147483648"
    using inv assms(2) by (auto simp: aggro_inv_def)
  have "find_id al x = None" "hate_of al x = None"
    using assms(3) by (simp_all add: find_id_None hate_of_None)
  then have e: "AddToFirst al x 0 = Inr (fst (place (\<lambda>m. rage m \<ge> ?r) \<lparr>node_id = x, rage = ?r\<rparr> al), None)"
    using AddRage_eq_ref [OF inv, of ?r x] r assms(2,4)
    by (simp add: AddToFirst_def AddRage_ref_def i32_id)
  let ?hi = "takeWhile (\<lambda>m. rage m \<ge> ?r) al" and ?lo = "dropWhile (\<lambda>m. rage m \<ge> ?r) al"
  have f: "fst (place (\<lambda>m. rage m \<ge> ?r) \<lparr>node_id = x, rage = ?r\<rparr> al) = ?hi @ \<lparr>node_id = x, rage = ?r\<rparr> # ?lo"
    by (simp add: place_def)
  have "x \<notin> node_id ` set ?hi" using assms(3) by (auto dest: set_takeWhileD)
  then have "hate_of (?hi @ \<lparr>node_id = x, rage = ?r\<rparr> # ?lo) x = Some ?r" by (simp add: hate_of_append)
  moreover have "GetFirst (?hi @ \<lparr>node_id = x, rage = ?r\<rparr> # ?lo) = GetFirst al" "GetFirst al \<noteq> Some x"
    using assms(2,3) by (cases al; auto simp: GetFirst_def)+
  ultimately show ?thesis using e unfolding f by metis
qed

theorem AddToFirst_zero_not_first_witness:
  "\<exists>al' i. AddToFirst [\<lparr>node_id = mob_a, rage = 9\<rparr>] mob_b 0 = Inr (al', i) \<and> GetFirst al' = Some mob_a"
proof -
  let ?al = "[\<lparr>node_id = mob_a, rage = 9\<rparr>]"
  have "aggro_inv ?al" by (simp add: aggro_inv_def kMaxAggroListSize_def)
  then have "\<exists>al' i. AddToFirst ?al mob_b 0 = Inr (al', i) \<and> hate_of al' mob_b = Some (rage (?al ! 0)) \<and>
      GetFirst al' = GetFirst ?al \<and> GetFirst al' \<noteq> Some mob_b"
    by (rule AddToFirst_zero_not_first) (simp_all add: kMaxAggroListSize_def)
  moreover have "GetFirst ?al = Some mob_a" by (simp add: GetFirst_def)
  ultimately show ?thesis by metis
qed

text \<open>
  Ageing: the policy's heartbeat counts down; the target on top is forgotten when the count
  reaches zero, not before, and the count starts again exactly if a target is left.
\<close>

lemma Heartbeat_waits:
  "int k < timeout_timer p \<Longrightarrow>
     (AggroPolicy_Heartbeat ^^ k) p = p\<lparr>timeout_timer := timeout_timer p - int k\<rparr>"
proof (induction k)
  case (Suc k)
  then show ?case by (simp add: AggroPolicy_Heartbeat_def Let_def)
qed simp

text \<open>
  With \<open>n > 0\<close> seconds on its timer, a monster whose policy is only driven by
  heartbeats keeps its list for \<open>n - 1\<close> beats; the \<open>n\<close>-th drops the first target, restarts
  the timer with \<open>aggro_time\<close> when another target is left and stops it when none is.
\<close>

theorem Heartbeat_times_out:
  assumes "timeout_timer p = int (Suc k)"
  shows "aggro_list ((AggroPolicy_Heartbeat ^^ k) p) = aggro_list p \<and>
     aggro_list ((AggroPolicy_Heartbeat ^^ Suc k) p) = tl (aggro_list p) \<and>
     timeout_timer ((AggroPolicy_Heartbeat ^^ Suc k) p)
       = (if tl (aggro_list p) = [] then 0 else aggro_time p)"
proof -
  have wait: "(AggroPolicy_Heartbeat ^^ k) p = p\<lparr>timeout_timer := 1\<rparr>"
    using Heartbeat_waits [of k p] assms by simp
  then have "(AggroPolicy_Heartbeat ^^ Suc k) p = AggroPolicy_Heartbeat (p\<lparr>timeout_timer := 1\<rparr>)"
    by simp
  with wait show ?thesis
    by (auto simp: AggroPolicy_Heartbeat_def RemoveFirst_def GetFirst_def AggroPolicy_Clear_def Let_def)
qed

theorem Heartbeat_times_out_witness:
  "aggro_list ((AggroPolicy_Heartbeat ^^ 2)
     \<lparr>aggro_list = [\<lparr>node_id = mob_a, rage = 9\<rparr>], aggro_time = 60, enemy_faction = 1,
      timeout_timer = 2, aggro_watch = True\<rparr>) = []"
  using Heartbeat_times_out [of "\<lparr>aggro_list = [\<lparr>node_id = mob_a, rage = 9\<rparr>], aggro_time = 60,
      enemy_faction = 1, timeout_timer = 2, aggro_watch = True\<rparr>" 1]
  by (simp add: numeral_2_eq_2)

end
