(* ===== verification/Items.thy ===== *)
theory Items
  imports Prelude
begin

unbundle bit_operations_syntax

text \<open>
  \<open>gs/item/item.h\<close>, \<open>item.cpp\<close> and the lookups of \<open>item_manager.h\<close>: one item slot, its life
  cycle (construct, load, copy, put in, take out, clear) with the test counter \<open>ref\<close> and the
  activation flag, and the dispatch of \<open>ItemBody\<close> by location. The dynamic essences of an item
  are not part of this record: no operation here branches on them. What the bodies do to the
  owner is recorded as a list of events in call order; the virtual functions that answer a
  question (rank, price, use) are parameters in \<open>item_body\<close>.
\<close>

section \<open>Data\<close>

datatype location =
  INVENTORY | EQUIPMENT | TASK_INV | HIDE_INV | PET_INV | CARD_INV | MOUNT_INV

text \<open>\<open>ITEM_CLS\<close> is used as an index, so its values are the enumeration's numbers.\<close>

definition ITEM_CLS_INVALID :: int where "ITEM_CLS_INVALID = 0"
definition ITEM_CLS_NORMAL :: int where "ITEM_CLS_NORMAL = 1"
definition ITEM_CLS_EQUIP :: int where "ITEM_CLS_EQUIP = 2"
definition ITEM_CLS_CARD :: int where "ITEM_CLS_CARD = 3"
definition ITEM_CLS_TASK :: int where "ITEM_CLS_TASK = 4"
definition ITEM_CLS_HIDE :: int where "ITEM_CLS_HIDE = 5"
definition ITEM_CLS_TASK_SCROLL :: int where "ITEM_CLS_TASK_SCROLL = 6"
definition ITEM_CLS_PET :: int where "ITEM_CLS_PET = 7"
definition ITEM_CLS_SKILL :: int where "ITEM_CLS_SKILL = 8"
definition ITEM_CLS_MOUNT :: int where "ITEM_CLS_MOUNT = 9"
definition ITEM_CLS_MAX :: nat where "ITEM_CLS_MAX = 10"

lemmas item_cls_defs = ITEM_CLS_INVALID_def ITEM_CLS_NORMAL_def ITEM_CLS_EQUIP_def
  ITEM_CLS_CARD_def ITEM_CLS_TASK_def ITEM_CLS_HIDE_def ITEM_CLS_TASK_SCROLL_def
  ITEM_CLS_PET_def ITEM_CLS_SKILL_def ITEM_CLS_MOUNT_def ITEM_CLS_MAX_def

text \<open>The template types \<open>LocateItemCls\<close> names; the others of the enumeration fall together.\<close>

datatype templ_type =
  TEMPL_TYPE_EQUIP | TEMPL_TYPE_CARD | TEMPL_TYPE_HIDDEN_ITEM | TEMPL_TYPE_NORMAL_ITEM
| TEMPL_TYPE_TASK_ITEM | TEMPL_TYPE_TASK_SCROLL | TEMPL_TYPE_PET_ITEM
| TEMPL_TYPE_SKILL_ITEM | TEMPL_TYPE_MOUNT | TEMPL_TYPE_other nat

fun LocateItemCls :: "templ_type \<Rightarrow> int" where
  "LocateItemCls TEMPL_TYPE_EQUIP = ITEM_CLS_EQUIP"
| "LocateItemCls TEMPL_TYPE_CARD = ITEM_CLS_CARD"
| "LocateItemCls TEMPL_TYPE_HIDDEN_ITEM = ITEM_CLS_HIDE"
| "LocateItemCls TEMPL_TYPE_NORMAL_ITEM = ITEM_CLS_NORMAL"
| "LocateItemCls TEMPL_TYPE_TASK_ITEM = ITEM_CLS_TASK"
| "LocateItemCls TEMPL_TYPE_TASK_SCROLL = ITEM_CLS_TASK_SCROLL"
| "LocateItemCls TEMPL_TYPE_PET_ITEM = ITEM_CLS_PET"
| "LocateItemCls TEMPL_TYPE_SKILL_ITEM = ITEM_CLS_SKILL"
| "LocateItemCls TEMPL_TYPE_MOUNT = ITEM_CLS_MOUNT"
| "LocateItemCls (TEMPL_TYPE_other _) = ITEM_CLS_INVALID"

text \<open>\<open>None\<close> is the code's -1, logged as an unknown class.\<close>

definition LocateLocation :: "int \<Rightarrow> location option" where
  "LocateLocation c =
     (if c \<in> {ITEM_CLS_NORMAL, ITEM_CLS_EQUIP, ITEM_CLS_TASK_SCROLL, ITEM_CLS_SKILL} then Some INVENTORY
      else if c = ITEM_CLS_TASK then Some TASK_INV
      else if c = ITEM_CLS_HIDE then Some HIDE_INV
      else if c = ITEM_CLS_PET then Some PET_INV
      else if c = ITEM_CLS_CARD then Some CARD_INV
      else if c = ITEM_CLS_MOUNT then Some MOUNT_INV
      else None)"

record itemdata =
  d_id :: int
  d_index :: int
  d_count :: int
  d_pile_limit :: int
  d_proc_type :: int
  d_recycle_price :: int
  d_expire_date :: int
  d_item_cls :: int

text \<open>\<open>pBody\<close> points at the body registered for a template; it is named by the template id.\<close>

record item =
  itype :: int
  icount :: int
  pile_limit :: int
  proc_type :: int
  expire_date :: int
  price :: int
  equip_mask :: int
  item_cls :: int
  pBody :: "int option"
  is_active :: bool
  ref :: int

datatype item_use = ITEM_USE_FAILURE | ITEM_USE_CONSUME | ITEM_USE_RETAIN

record item_body =
  body_rank :: int
  body_equip_mask :: int
  body_extra_price :: "item \<Rightarrow> int"
  body_test_use :: "nat \<Rightarrow> item \<Rightarrow> bool"
  body_on_use :: "nat \<Rightarrow> item \<Rightarrow> item_use"
  body_test_activate :: "nat \<Rightarrow> item \<Rightarrow> bool"

text \<open>
  \<open>ItemManager\<close>: the template data and the bodies, by template id. What a body does when its item is
  used is its answer alone: those of \<open>itembody/item_task_scroll.cpp\<close> and \<open>item_skill.cpp\<close>, which take
  other items out of the bags meanwhile, are not modelled, and no property speaks of using items.
\<close>

record item_man =
  item_map :: "int \<Rightarrow> itemdata option"
  body_map :: "int \<Rightarrow> item_body option"

text \<open>What a list of items does to its owner.\<close>

datatype item_event =
  Activated nat int
| Deactivated nat int
| Enabled nat int
| Disabled nat int
| GainMoney int

section \<open>ItemManager lookups\<close>

text \<open>An unknown id is logged and answered with \<open>NULL\<close>, which is 0 as an \<open>int\<close>.\<close>

definition GetItemCls :: "item_man \<Rightarrow> int \<Rightarrow> int" where
  "GetItemCls m i = (case item_map m i of None \<Rightarrow> 0 | Some d \<Rightarrow> d_item_cls d)"

definition GetItemPileLimit :: "item_man \<Rightarrow> int \<Rightarrow> int" where
  "GetItemPileLimit m i = (case item_map m i of None \<Rightarrow> 0 | Some d \<Rightarrow> d_pile_limit d)"

definition GetItemPrice :: "item_man \<Rightarrow> int \<Rightarrow> int" where
  "GetItemPrice m i = (case item_map m i of None \<Rightarrow> 0 | Some d \<Rightarrow> d_recycle_price d)"

definition GetItemBody :: "item_man \<Rightarrow> int \<Rightarrow> int option" where
  "GetItemBody m i = (case body_map m i of None \<Rightarrow> None | Some _ \<Rightarrow> Some i)"

definition GenerateItem :: "item_man \<Rightarrow> int \<Rightarrow> itemdata option" where
  "GenerateItem m i = item_map m i"

section \<open>Item\<close>

definition empty_item :: item where
  "empty_item = \<lparr>itype = -1, icount = 0, pile_limit = 0, proc_type = 0, expire_date = 0,
     price = 0, equip_mask = 0, item_cls = 0, pBody = None, is_active = False, ref = 0\<rparr>"

text \<open>\<open>Clear\<close> resets every field; \<open>Release\<close> calls it.\<close>

definition Item_Clear :: "item \<Rightarrow> item" where
  "Item_Clear it = it\<lparr>itype := -1, icount := 0, pile_limit := 0, proc_type := 0, expire_date := 0,
     price := 0, pBody := None, equip_mask := 0, item_cls := 0, is_active := False, ref := 0\<rparr>"

lemma Item_Clear_empty [simp]: "Item_Clear it = empty_item"
  by (cases it) (simp add: Item_Clear_def empty_item_def)

text \<open>\<open>operator=\<close> copies all but the activation flag and the test counter.\<close>

definition item_assign :: "item \<Rightarrow> item res" where
  "item_assign rhs = assertx (icount rhs > 0) (Inr (rhs\<lparr>is_active := False, ref := 0\<rparr>))"

text \<open>Amounts are \<open>int32_t\<close>: sums wrap as they do on the machine.\<close>

definition SetAmount :: "item \<Rightarrow> int \<Rightarrow> item res" where
  "SetAmount it n = assertx (n > 0) (Inr (it\<lparr>icount := n\<rparr>))"

definition Item_IncAmount :: "item \<Rightarrow> int \<Rightarrow> item res" where
  "Item_IncAmount it n = assertx (i32 (icount it + n) \<le> pile_limit it) (Inr (it\<lparr>icount := i32 (icount it + n)\<rparr>))"

definition Item_DecAmount :: "item \<Rightarrow> int \<Rightarrow> item res" where
  "Item_DecAmount it n = assertx (i32 (icount it - n) \<ge> 0) (Inr (it\<lparr>icount := i32 (icount it - n)\<rparr>))"

definition PROC_NODROP :: int where "PROC_NODROP = 1"
definition PROC_NOSELL :: int where "PROC_NOSELL = 2"
definition PROC_NOTRADE :: int where "PROC_NOTRADE = 4"
definition PROC_BIND_ON_GAIN :: int where "PROC_BIND_ON_GAIN = 8"
definition PROC_BIND_ON_EQUIP :: int where "PROC_BIND_ON_EQUIP = 16"
definition PROC_BIND :: int where "PROC_BIND = 32"
definition PROC_DISABLED :: int where "PROC_DISABLED = 64"

lemmas proc_defs = PROC_NODROP_def PROC_NOSELL_def PROC_NOTRADE_def PROC_BIND_ON_GAIN_def
  PROC_BIND_ON_EQUIP_def PROC_BIND_def PROC_DISABLED_def

definition CanDrop :: "item \<Rightarrow> bool" where
  "CanDrop it \<longleftrightarrow> proc_type it AND (PROC_NODROP OR PROC_BIND) = 0"

definition CanTrade :: "item \<Rightarrow> bool" where
  "CanTrade it \<longleftrightarrow> proc_type it AND (PROC_NOTRADE OR PROC_BIND) = 0"

definition CanSell :: "item \<Rightarrow> bool" where
  "CanSell it \<longleftrightarrow> proc_type it AND PROC_NOSELL = 0"

definition TestBind :: "item \<Rightarrow> bool" where
  "TestBind it \<longleftrightarrow> proc_type it AND PROC_BIND \<noteq> 0"

definition TestBindOnEquip :: "item \<Rightarrow> bool" where
  "TestBindOnEquip it \<longleftrightarrow> proc_type it AND PROC_BIND_ON_EQUIP \<noteq> 0"

definition TestDisabled :: "item \<Rightarrow> bool" where
  "TestDisabled it \<longleftrightarrow> proc_type it AND PROC_DISABLED \<noteq> 0"

definition Item_Bind :: "item \<Rightarrow> item" where
  "Item_Bind it = it\<lparr>proc_type := proc_type it OR PROC_BIND\<rparr>"

definition SetDisabled :: "item \<Rightarrow> item" where
  "SetDisabled it = it\<lparr>proc_type := proc_type it OR PROC_DISABLED\<rparr>"

definition ClrDisabled :: "item \<Rightarrow> item" where
  "ClrDisabled it = it\<lparr>proc_type := proc_type it AND NOT PROC_DISABLED\<rparr>"

definition GetRank :: "item_man \<Rightarrow> item \<Rightarrow> int" where
  "GetRank m it = (case Option.bind (pBody it) (body_map m) of None \<Rightarrow> -1 | Some b \<Rightarrow> body_rank b)"

definition GetExtraPrice :: "item_man \<Rightarrow> item \<Rightarrow> int" where
  "GetExtraPrice m it =
     (case Option.bind (pBody it) (body_map m) of None \<Rightarrow> 0 | Some b \<Rightarrow> body_extra_price b it)"

definition GetTotalPrice :: "item_man \<Rightarrow> item \<Rightarrow> int" where
  "GetTotalPrice m it =
     (let total = i32 (price it + GetExtraPrice m it) in if total > 0 then total else 0)"

definition LocateSelf :: "item_man \<Rightarrow> item \<Rightarrow> item" where
  "LocateSelf m it =
     it\<lparr>pBody := GetItemBody m (itype it),
        equip_mask := (case body_map m (itype it) of None \<Rightarrow> 0 | Some b \<Rightarrow> body_equip_mask b),
        price := GetItemPrice m (itype it),
        item_cls := GetItemCls m (itype it),
        pile_limit := GetItemPileLimit m (itype it)\<rparr>"

definition MakeItem :: "item_man \<Rightarrow> item \<Rightarrow> itemdata \<Rightarrow> item res" where
  "MakeItem m it d =
     assertx (d_count d > 0)
       (Inr (LocateSelf m (it\<lparr>itype := d_id d, icount := d_count d, price := d_recycle_price d,
          pile_limit := d_pile_limit d, proc_type := d_proc_type d,
          expire_date := d_expire_date d, is_active := False\<rparr>)))"

text \<open>
  The stored form is a \<open>common::PlayerInventoryData::ItemData\<close>; the fields the code writes and
  reads are those of \<open>itemdata\<close> without price and class; the slot index is an \<open>int16_t\<close>. \<open>OnLoadFromDB\<close> of a body only adjusts
  essences.
\<close>

record db_item =
  db_type :: int
  db_index :: int
  db_count :: int
  db_pile_limit :: int
  db_proc_type :: int
  db_expire_date :: int

definition Item_LoadFromDB :: "item_man \<Rightarrow> item \<Rightarrow> db_item \<Rightarrow> item res" where
  "Item_LoadFromDB m it d =
     assertx (itype it = -1)
      (assertx (db_type d \<noteq> -1)
        (assertx (db_count d > 0)
          (Inr (LocateSelf m (it\<lparr>itype := db_type d, icount := db_count d,
             pile_limit := db_pile_limit d, proc_type := db_proc_type d,
             expire_date := db_expire_date d\<rparr>)))))"

definition Item_SaveForDB :: "item \<Rightarrow> nat \<Rightarrow> db_item res" where
  "Item_SaveForDB it index =
     assertx (itype it \<noteq> -1)
      (assertx (icount it > 0)
        (Inr \<lparr>db_type = itype it, db_index = i16 (int index), db_count = icount it,
              db_pile_limit = pile_limit it, db_proc_type = proc_type it,
              db_expire_date = expire_date it\<rparr>))"

definition Item_SaveItem :: "item \<Rightarrow> itemdata \<Rightarrow> itemdata res" where
  "Item_SaveItem it d =
     assertx (icount it > 0)
       (Inr (d\<lparr>d_id := itype it, d_count := icount it, d_pile_limit := pile_limit it,
          d_proc_type := proc_type it, d_expire_date := expire_date it, d_item_cls := i16 (item_cls it)\<rparr>))"

section \<open>ItemBody: what happens at a location\<close>

text \<open>The locations whose items act on the owner while they are there.\<close>

definition activating :: "location \<Rightarrow> bool" where
  "activating l \<longleftrightarrow> l \<in> {EQUIPMENT, HIDE_INV, PET_INV, CARD_INV, MOUNT_INV}"

definition body_Activate :: "nat \<Rightarrow> int \<Rightarrow> item \<Rightarrow> (item \<times> item_event list) res" where
  "body_Activate index b it =
     assertx (\<not> is_active it)
      (let it' = it\<lparr>is_active := True\<rparr>
       in Inr (it', if \<not> TestDisabled it' then [Activated index b] else []))"

definition body_Deactivate :: "nat \<Rightarrow> int \<Rightarrow> item \<Rightarrow> (item \<times> item_event list) res" where
  "body_Deactivate index b it =
     assertx (is_active it)
      (let it' = it\<lparr>is_active := False\<rparr>
       in if \<not> TestDisabled it' then Inr (it', [Deactivated index b])
          else Inr (ClrDisabled it', []))"

definition body_OnPutIn :: "location \<Rightarrow> nat \<Rightarrow> int \<Rightarrow> item \<Rightarrow> (item \<times> item_event list) res" where
  "body_OnPutIn l index b it = (if activating l then body_Activate index b it else Inr (it, []))"

definition body_OnTakeOut :: "location \<Rightarrow> nat \<Rightarrow> int \<Rightarrow> item \<Rightarrow> (item \<times> item_event list) res" where
  "body_OnTakeOut l index b it = (if activating l then body_Deactivate index b it else Inr (it, []))"

definition Item_OnPutIn :: "location \<Rightarrow> nat \<Rightarrow> item \<Rightarrow> (item \<times> item_event list) res" where
  "Item_OnPutIn l index it =
     assertx (ref it = 0)
      (let it' = it\<lparr>ref := ref it + 1\<rparr>
       in case pBody it' of None \<Rightarrow> Inr (it', []) | Some b \<Rightarrow> body_OnPutIn l index b it')"

definition Item_OnTakeOut :: "location \<Rightarrow> nat \<Rightarrow> item \<Rightarrow> (item \<times> item_event list) res" where
  "Item_OnTakeOut l index it =
     assertx (ref it = 1)
      (let it' = it\<lparr>ref := ref it - 1\<rparr>
       in case pBody it' of None \<Rightarrow> Inr (it', []) | Some b \<Rightarrow> body_OnTakeOut l index b it')"

definition Item_CanUse :: "item_man \<Rightarrow> location \<Rightarrow> nat \<Rightarrow> item \<Rightarrow> bool" where
  "Item_CanUse m l index it =
     (case Option.bind (pBody it) (body_map m) of
        None \<Rightarrow> False | Some b \<Rightarrow> l = INVENTORY \<and> body_test_use b index it)"

definition Item_UseItem :: "item_man \<Rightarrow> location \<Rightarrow> nat \<Rightarrow> item \<Rightarrow> item_use" where
  "Item_UseItem m l index it =
     (case Option.bind (pBody it) (body_map m) of
        None \<Rightarrow> ITEM_USE_FAILURE
      | Some b \<Rightarrow> if l = INVENTORY then body_on_use b index it else ITEM_USE_FAILURE)"

definition Item_CanActivate :: "item_man \<Rightarrow> location \<Rightarrow> nat \<Rightarrow> item \<Rightarrow> bool" where
  "Item_CanActivate m l index it =
     (case Option.bind (pBody it) (body_map m) of
        None \<Rightarrow> False | Some b \<Rightarrow> l = INVENTORY \<and> body_test_activate b index it)"

text \<open>Enable and disable a piece of equipment in place; any other location is an assertion.\<close>

definition Item_Enable :: "location \<Rightarrow> nat \<Rightarrow> item \<Rightarrow> (item \<times> item_event list) res" where
  "Item_Enable l index it =
     (case pBody it of
        None \<Rightarrow> Inr (it, [])
      | Some b \<Rightarrow>
          assertx (l = EQUIPMENT)
           (assertx (is_active it)
             (assertx (TestDisabled it) (Inr (ClrDisabled it, [Enabled index b])))))"

definition Item_Disable :: "location \<Rightarrow> nat \<Rightarrow> item \<Rightarrow> (item \<times> item_event list) res" where
  "Item_Disable l index it =
     (case pBody it of
        None \<Rightarrow> Inr (it, [])
      | Some b \<Rightarrow>
          assertx (l = EQUIPMENT)
           (assertx (is_active it)
             (assertx (\<not> TestDisabled it) (Inr (SetDisabled it, [Disabled index b])))))"

section \<open>Facts\<close>

lemma ClrDisabled_clears [simp]: "\<not> TestDisabled (ClrDisabled it)"
proof -
  have "(proc_type it AND NOT 64) AND 64 = (0::int)"
    by (simp add: bit_eq_iff bit_simps)
  then show ?thesis by (simp add: TestDisabled_def ClrDisabled_def PROC_DISABLED_def)
qed

lemma SetDisabled_sets [simp]: "TestDisabled (SetDisabled it)"
proof -
  have "bit ((proc_type it OR 64) AND 64) 6" by (simp add: bit_simps bit_numeral_rec)
  then have "(proc_type it OR 64) AND 64 \<noteq> (0::int)" by auto
  then show ?thesis by (simp add: TestDisabled_def SetDisabled_def PROC_DISABLED_def)
qed

text \<open>
  Every class a template can have, but the invalid one, has a bag to go to, and the class
  determines it.
\<close>

lemma LocateLocation_total:
  "LocateItemCls t \<noteq> ITEM_CLS_INVALID \<Longrightarrow> \<exists>l. LocateLocation (LocateItemCls t) = Some l"
  by (cases t) (simp_all add: LocateLocation_def item_cls_defs)

text \<open>A slot that is in use, counted once by its list, active exactly where it should be.\<close>

definition placed :: "location \<Rightarrow> item \<Rightarrow> bool" where
  "placed l it \<longleftrightarrow> itype it \<noteq> -1 \<and> 0 < icount it \<and> icount it \<le> pile_limit it \<and> ref it = 1 \<and>
     (is_active it \<longleftrightarrow> activating l \<and> pBody it \<noteq> None)"

text \<open>An item value that is not in any list: just made, or copied by \<open>operator=\<close>.\<close>

definition loose :: "item \<Rightarrow> bool" where
  "loose it \<longleftrightarrow> itype it \<noteq> -1 \<and> 0 < icount it \<and> icount it \<le> pile_limit it \<and> ref it = 0 \<and>
     \<not> is_active it"

text \<open>The fields a list moves around; the counters and flags are left out.\<close>

definition same_item :: "item \<Rightarrow> item \<Rightarrow> bool" where
  "same_item a b \<longleftrightarrow> itype a = itype b \<and> icount a = icount b \<and> pile_limit a = pile_limit b \<and>
     expire_date a = expire_date b \<and> item_cls a = item_cls b \<and> pBody a = pBody b"

lemma same_item_refl [simp]: "same_item a a"
  by (simp add: same_item_def)

lemma Item_OnPutIn_loose:
  assumes "loose it"
  shows "\<exists>it' ev. Item_OnPutIn l index it = Inr (it', ev) \<and> placed l it' \<and> same_item it' it"
proof (cases "pBody it")
  case None
  with assms show ?thesis
    by (auto simp: Item_OnPutIn_def loose_def placed_def same_item_def)
next
  case (Some b)
  with assms show ?thesis
    by (auto simp: Item_OnPutIn_def body_OnPutIn_def body_Activate_def loose_def placed_def
        same_item_def Let_def)
qed

lemma Item_OnTakeOut_placed:
  assumes "placed l it"
  shows "\<exists>it' ev. Item_OnTakeOut l index it = Inr (it', ev) \<and> loose it' \<and> same_item it' it"
proof (cases "pBody it")
  case None
  with assms show ?thesis
    by (auto simp: Item_OnTakeOut_def loose_def placed_def same_item_def)
next
  case (Some b)
  with assms show ?thesis
    by (auto simp: Item_OnTakeOut_def body_OnTakeOut_def body_Deactivate_def ClrDisabled_def
        loose_def placed_def same_item_def Let_def)
qed

lemma item_assign_loose:
  "0 < icount it \<Longrightarrow> item_assign it = Inr (it\<lparr>is_active := False, ref := 0\<rparr>)"
  by (simp add: item_assign_def)

lemma empty_item_simps [simp]:
  "itype empty_item = -1" "icount empty_item = 0" "pile_limit empty_item = 0"
  "expire_date empty_item = 0" "pBody empty_item = None" "\<not> is_active empty_item"
  "ref empty_item = 0" "item_cls empty_item = 0"
  by (simp_all add: empty_item_def)

end
