(* ===== verification/ItemList.thy ===== *)
theory ItemList
  imports Items
begin

text \<open>
  \<open>gs/item/item_list.{h,cpp}\<close>: a bag of item slots with its count of empty slots and its set
  of items that expire. The bag stacks, moves, sells, ages and stores items; every operation
  is written with its early returns, its assertions and the calls to \<open>OnPutIn\<close> and
  \<open>OnTakeOut\<close> in the order the code makes them. Amounts, sums of amounts and the money of a sale
  are \<open>int32_t\<close> and wrap.
  Dynamic essences are not part of an item here, so \<open>LoadEss\<close> and \<open>SaveEss\<close> do not appear.
\<close>

section \<open>State\<close>

text \<open>
  \<open>aging_items\<close> is a \<open>std::set<AgingItem>\<close> whose order looks at \<open>expire_time\<close> only; an entry
  is the slot index and the expiry time. What the items do to the owner is logged.
\<close>

record item_list =
  il_loc :: location
  slots :: "item list"
  capacity :: nat
  empty_slot_count :: int
  aging_items :: "(nat \<times> int) list"
  il_log :: "item_event list"

definition ItemList_init :: "location \<Rightarrow> nat \<Rightarrow> item_list" where
  "ItemList_init l n = \<lparr>il_loc = l, slots = replicate n empty_item, capacity = n,
     empty_slot_count = int n, aging_items = [], il_log = []\<rparr>"

definition with_slot :: "item_list \<Rightarrow> nat \<Rightarrow> (item \<Rightarrow> 'a res) \<Rightarrow> 'a res" where
  "with_slot l i k = (if i < length (slots l) then k (slots l ! i) else Inl OutOfRange)"

definition set_slot :: "item_list \<Rightarrow> nat \<Rightarrow> item \<Rightarrow> item_list" where
  "set_slot l i it = l\<lparr>slots := (slots l)[i := it]\<rparr>"

definition IsFull :: "item_list \<Rightarrow> bool" where
  "IsFull l \<longleftrightarrow> empty_slot_count l = 0"

definition IsEmptySlot :: "item_list \<Rightarrow> nat \<Rightarrow> bool res" where
  "IsEmptySlot l i = with_slot l i (\<lambda>it. Inr (itype it = -1))"

section \<open>Putting in and taking out\<close>

definition OnPutIn :: "item_list \<Rightarrow> nat \<Rightarrow> item_list res" where
  "OnPutIn l i = with_slot l i (\<lambda>it0.
     bindr (Item_OnPutIn (il_loc l) i it0) (\<lambda>(it, ev).
       let l1 = (set_slot l i it)\<lparr>empty_slot_count := u64 (empty_slot_count l - 1),
                                  il_log := il_log l @ ev\<rparr>
       in if expire_date it \<noteq> 0 then
            assertx (pile_limit it = 1)
             (assertx (\<forall>e \<in> set (aging_items l). fst e \<noteq> i)
               (Inr (l1\<lparr>aging_items := sset_insert snd (i, expire_date it) (aging_items l)\<rparr>)))
          else Inr l1))"

text \<open>\<open>aging_items.erase(std::find_if(...))\<close>: the first entry with the index.\<close>

fun erase_index :: "nat \<Rightarrow> (nat \<times> int) list \<Rightarrow> (nat \<times> int) list" where
  "erase_index i [] = []"
| "erase_index i (e # es) = (if fst e = i then es else e # erase_index i es)"

definition OnTakeOut :: "item_list \<Rightarrow> nat \<Rightarrow> item_list res" where
  "OnTakeOut l i = with_slot l i (\<lambda>it0.
     bindr (Item_OnTakeOut (il_loc l) i it0) (\<lambda>(it, ev).
       let l1 = (set_slot l i it)\<lparr>empty_slot_count := u64 (empty_slot_count l + 1),
                                  il_log := il_log l @ ev\<rparr>
       in Inr (if expire_date it \<noteq> 0
               then l1\<lparr>aging_items := erase_index i (aging_items l)\<rparr> else l1)))"

text \<open>\<open>list_[i].Release()\<close> (\<open>Clear()\<close>), and \<open>list_[i] = it\<close>.\<close>

definition ReleaseSlot :: "item_list \<Rightarrow> nat \<Rightarrow> item_list res" where
  "ReleaseSlot l i = with_slot l i (\<lambda>it. Inr (set_slot l i (Item_Clear it)))"

definition AssignSlot :: "item_list \<Rightarrow> nat \<Rightarrow> item \<Rightarrow> item_list res" where
  "AssignSlot l i it = with_slot l i (\<lambda>_. bindr (item_assign it) (\<lambda>it'. Inr (set_slot l i it')))"

section \<open>Queries\<close>

fun find_from :: "(item \<Rightarrow> bool) \<Rightarrow> nat \<Rightarrow> item list \<Rightarrow> nat option" where
  "find_from P i [] = None"
| "find_from P i (it # its) = (if P it then Some i else find_from P (Suc i) its)"

definition index_or_minus1 :: "nat option \<Rightarrow> int" where
  "index_or_minus1 r = (case r of None \<Rightarrow> -1 | Some i \<Rightarrow> int i)"

definition Find :: "item_list \<Rightarrow> int \<Rightarrow> int" where
  "Find l ty = index_or_minus1 (find_from (\<lambda>it. itype it \<noteq> -1 \<and> itype it = ty) 0 (slots l))"

definition FindEmpty :: "item_list \<Rightarrow> nat option" where
  "FindEmpty l = find_from (\<lambda>it. itype it = -1) 0 (slots l)"

definition CountItem :: "item_list \<Rightarrow> int \<Rightarrow> int" where
  "CountItem l ty =
     i32 (sum_list (List.map (\<lambda>it. if itype it \<noteq> -1 \<and> itype it = ty then icount it else 0) (slots l)))"

fun room_left :: "int \<Rightarrow> item list \<Rightarrow> int \<Rightarrow> int" where
  "room_left ty [] n = n"
| "room_left ty (it # its) n =
     (if n > 0 then room_left ty its
        (if itype it \<noteq> -1 \<and> itype it = ty then i32 (n - i32 (pile_limit it - icount it)) else n)
      else n)"

definition HasSlot :: "item_list \<Rightarrow> int \<Rightarrow> int \<Rightarrow> bool" where
  "HasSlot l ty n = (if empty_slot_count l \<noteq> 0 then True else room_left ty (slots l) n \<le> 0)"

definition IsItemExist :: "item_list \<Rightarrow> int \<Rightarrow> int \<Rightarrow> bool" where
  "IsItemExist l ty n \<longleftrightarrow> CountItem l ty \<ge> n"

definition IsItemExistAt :: "item_list \<Rightarrow> nat \<Rightarrow> int \<Rightarrow> int \<Rightarrow> bool res" where
  "IsItemExistAt l i ty n =
     (if i \<ge> capacity l then Inr False
      else with_slot l i (\<lambda>it.
        if itype it = -1 \<or> itype it \<noteq> ty then Inr False else Inr (icount it \<ge> n)))"

definition IsItemIndex :: "item_list \<Rightarrow> nat \<Rightarrow> bool res" where
  "IsItemIndex l i = (if i < capacity l then with_slot l i (\<lambda>it. Inr (itype it \<noteq> -1)) else Inr False)"

text \<open>The sum is an \<open>int64_t\<close>, returned as an \<open>int\<close>.\<close>

definition TotalItemCount :: "item_list \<Rightarrow> int" where
  "TotalItemCount l =
     i32 (sum_list (List.map (\<lambda>it. if itype it = -1 then 0 else icount it) (take (capacity l) (slots l))))"

section \<open>Amounts\<close>

definition IncAmount :: "item_list \<Rightarrow> nat \<Rightarrow> int \<Rightarrow> (item_list \<times> int) res" where
  "IncAmount l i n =
     (if i \<ge> capacity l then Inl AssertFail
      else with_slot l i (\<lambda>it.
        if itype it = -1 then Inl AssertFail
        else if icount it \<ge> pile_limit it then Inr (l, 0)
        else let delta = (if i32 (pile_limit it - icount it) > n then n else i32 (pile_limit it - icount it))
             in bindr (Item_IncAmount it delta) (\<lambda>it'. Inr (set_slot l i it', delta))))"

definition DecAmount :: "item_list \<Rightarrow> nat \<Rightarrow> int \<Rightarrow> (item_list \<times> int) res" where
  "DecAmount l i n =
     (if i \<ge> capacity l then Inl AssertFail
      else with_slot l i (\<lambda>it.
        if itype it = -1 then Inl AssertFail
        else if icount it \<le> n then
          bindr (OnTakeOut l i) (\<lambda>l1. bindr (ReleaseSlot l1 i) (\<lambda>l2. Inr (l2, 0)))
        else bindr (Item_DecAmount it n) (\<lambda>it'. Inr (set_slot l i it', icount it'))))"

definition TakeOutItem :: "item_list \<Rightarrow> nat \<Rightarrow> int \<Rightarrow> int \<Rightarrow> (item_list \<times> bool) res" where
  "TakeOutItem l i ty n =
     bindr (IsItemExistAt l i ty n) (\<lambda>ex.
       if \<not> ex then Inr (l, False)
       else bindr (DecAmount l i n) (\<lambda>(l', r). Inr (l', r \<ge> 0)))"

section \<open>Putting items in\<close>

text \<open>
  The loop of \<open>TryPile\<close> from slot \<open>i\<close> on: the new slots, the count left, the first empty
  slot met and the last slot that took some.
\<close>

fun TryPile :: "int \<Rightarrow> nat \<Rightarrow> item list \<Rightarrow> int \<Rightarrow> nat option \<Rightarrow> int
    \<Rightarrow> (item list \<times> int \<times> nat option \<times> int) res" where
  "TryPile ty i [] n pEmpty last_idx = Inr ([], n, pEmpty, last_idx)"
| "TryPile ty i (it # its) n pEmpty last_idx =
     (if itype it = -1 then
        bindr (TryPile ty (Suc i) its n (if pEmpty = None then Some i else pEmpty) last_idx)
          (\<lambda>(its', r). Inr (it # its', r))
      else if itype it = ty \<and> icount it < pile_limit it then
        (let tmp = (if i32 (n + icount it) > pile_limit it then i32 (pile_limit it - icount it) else n)
         in bindr (Item_IncAmount it tmp) (\<lambda>it'.
              if i32 (n - tmp) \<le> 0 then Inr (it' # its, i32 (n - tmp), pEmpty, int i)
              else bindr (TryPile ty (Suc i) its (i32 (n - tmp)) pEmpty (int i))
                     (\<lambda>(its', r). Inr (it' # its', r))))
      else bindr (TryPile ty (Suc i) its n pEmpty last_idx) (\<lambda>(its', r). Inr (it # its', r)))"

text \<open>\<open>Push(Item&, int&)\<close>: the bag, what is left of the item, \<open>last_index\<close> and the result.\<close>

definition Push :: "item_list \<Rightarrow> item \<Rightarrow> int \<Rightarrow> (item_list \<times> item \<times> int \<times> bool) res" where
  "Push l it last_index =
     assertx (itype it \<noteq> -1 \<and> icount it > 0)
      (if empty_slot_count l = 0 \<and> pile_limit it = 1 then Inr (l, it, last_index, False)
       else
         let finish = (\<lambda>l it last_index pEmpty.
               case pEmpty of
                 None \<Rightarrow> Inr (l, it, last_index, False)
               | Some i \<Rightarrow> bindr (AssignSlot l i it) (\<lambda>l1.
                   bindr (OnPutIn l1 i) (\<lambda>l2. Inr (l2, Item_Clear it, int i, True))))
         in if pile_limit it > 1 then
              bindr (TryPile (itype it) 0 (slots l) (icount it) None (-1)) (\<lambda>(ss, remain, pEmpty, li).
                let l1 = l\<lparr>slots := ss\<rparr>
                in assertx (remain \<ge> 0)
                    (if remain = 0 then Inr (l1, Item_Clear it, li, True)
                     else bindr (SetAmount it remain) (\<lambda>it'. finish l1 it' li pEmpty)))
            else finish l it last_index (FindEmpty l))"

text \<open>\<open>Push(itemdata&, int&)\<close>: the count of the data is what is left.\<close>

definition PushData :: "item_man \<Rightarrow> item_list \<Rightarrow> itemdata \<Rightarrow> (item_list \<times> itemdata \<times> int \<times> bool) res" where
  "PushData m l data =
     assertx (d_id data > 0 \<and> d_count data > 0)
      (if empty_slot_count l = 0 \<and> d_pile_limit data = 1 then Inr (l, data, -1, False)
       else
         let finish = (\<lambda>l data last_index pEmpty.
               case pEmpty of
                 None \<Rightarrow> Inr (l, data, last_index, False)
               | Some i \<Rightarrow> bindr (MakeItem m empty_item data) (\<lambda>it.
                   bindr (AssignSlot l i it) (\<lambda>l1.
                     bindr (OnPutIn l1 i) (\<lambda>l2. Inr (l2, data\<lparr>d_count := 0\<rparr>, int i, True)))))
         in if d_pile_limit data > 1 then
              bindr (TryPile (d_id data) 0 (slots l) (d_count data) None (-1)) (\<lambda>(ss, remain, pEmpty, li).
                let l1 = l\<lparr>slots := ss\<rparr>
                in assertx (remain \<ge> 0)
                    (if remain = 0 then Inr (l1, data\<lparr>d_count := 0\<rparr>, li, True)
                     else finish l1 (data\<lparr>d_count := remain\<rparr>) li pEmpty))
            else finish l data (-1) (FindEmpty l))"

definition PushAt :: "item_list \<Rightarrow> nat \<Rightarrow> item \<Rightarrow> (item_list \<times> item \<times> bool) res" where
  "PushAt l i it =
     assertx (itype it \<noteq> -1)
      (with_slot l i (\<lambda>old.
         if itype old = -1 then
           bindr (AssignSlot l i it) (\<lambda>l1. bindr (OnPutIn l1 i) (\<lambda>l2. Inr (l2, Item_Clear it, True)))
         else if itype old = itype it \<and> pile_limit old \<ge> i32 (icount old + icount it) then
           assertx (pile_limit it = pile_limit old)
            (bindr (Item_IncAmount old (icount it)) (\<lambda>old'. Inr (set_slot l i old', Item_Clear it, True)))
         else Inr (l, it, False)))"

text \<open>A negative \<open>start\<close> becomes a huge \<open>size_t\<close>.\<close>

definition PushInEmpty :: "item_list \<Rightarrow> int \<Rightarrow> item \<Rightarrow> (item_list \<times> int) res" where
  "PushInEmpty l start it =
     assertx (itype it \<noteq> -1)
      (case find_from (\<lambda>it. itype it = -1) (nat (u64 start)) (drop (nat (u64 start)) (slots l)) of
         None \<Rightarrow> Inr (l, -1)
       | Some i \<Rightarrow> bindr (AssignSlot l i it) (\<lambda>l1. bindr (OnPutIn l1 i) (\<lambda>l2. Inr (l2, int i))))"

definition PushInEmptyData :: "item_man \<Rightarrow> item_list \<Rightarrow> int \<Rightarrow> itemdata \<Rightarrow> (item_list \<times> int) res" where
  "PushInEmptyData m l start data =
     assertx (d_id data > 0)
      (bindr (MakeItem m empty_item data) (\<lambda>it. PushInEmpty l start it))"

section \<open>Taking items out and moving them\<close>

definition RemoveItem :: "item_list \<Rightarrow> nat \<Rightarrow> (item_list \<times> item) res" where
  "RemoveItem l i =
     (if i \<ge> capacity l then Inl AssertFail
      else with_slot l i (\<lambda>it0.
        if itype it0 = -1 then Inl AssertFail
        else bindr (OnTakeOut l i) (\<lambda>l1.
          with_slot l1 i (\<lambda>it. bindr (item_assign it) (\<lambda>out.
            bindr (ReleaseSlot l1 i) (\<lambda>l2. Inr (l2, out)))))))"

definition Remove :: "item_list \<Rightarrow> nat \<Rightarrow> item_list res" where
  "Remove l i =
     (if i \<ge> capacity l then Inl AssertFail
      else with_slot l i (\<lambda>it0.
        if itype it0 = -1 then Inl AssertFail
        else bindr (OnTakeOut l i) (\<lambda>l1. ReleaseSlot l1 i)))"

text \<open>The swap goes through \<open>operator=\<close>, whose assertion an empty slot fails.\<close>

definition Exchange :: "item_list \<Rightarrow> nat \<Rightarrow> item \<Rightarrow> (item_list \<times> item) res" where
  "Exchange l i it =
     with_slot l i (\<lambda>src0.
       bindr (if itype src0 \<noteq> -1 then OnTakeOut l i else Inr l) (\<lambda>l1.
         with_slot l1 i (\<lambda>src.
           bindr (item_assign src) (\<lambda>it'.
             bindr (AssignSlot l1 i it) (\<lambda>l2.
               with_slot l2 i (\<lambda>src'.
                 bindr (if itype src' \<noteq> -1 then OnPutIn l2 i else Inr l2) (\<lambda>l3. Inr (l3, it'))))))))"

definition ExchangeItem :: "item_list \<Rightarrow> nat \<Rightarrow> nat \<Rightarrow> (item_list \<times> bool) res" where
  "ExchangeItem l i j =
     (if i = j \<or> i \<ge> length (slots l) \<or> j \<ge> length (slots l) then Inr (l, False)
      else bindr (AssignSlot l i (slots l ! j)) (\<lambda>l1.
             bindr (AssignSlot l1 j (slots l ! i)) (\<lambda>l2. Inr (l2, True))))"

definition MoveItem :: "item_list \<Rightarrow> nat \<Rightarrow> nat \<Rightarrow> int \<Rightarrow> (item_list \<times> bool) res" where
  "MoveItem l dest src n =
     (if src = dest \<or> src \<ge> length (slots l) \<or> dest \<ge> length (slots l) then Inr (l, False)
      else if n = 0 then Inr (l, False)
      else let it_src = slots l ! src; it_dest = slots l ! dest in
        if itype it_src = -1 \<or> icount it_src < n then Inr (l, False)
        else if itype it_dest = -1 then
          bindr (item_assign it_src) (\<lambda>d0. bindr (SetAmount d0 n) (\<lambda>d.
            bindr (Item_DecAmount it_src n) (\<lambda>s.
              let l1 = set_slot (set_slot l dest d) src s in
              if icount s = 0 then bindr (ReleaseSlot l1 src) (\<lambda>l2. Inr (l2, True))
              else bindr (OnPutIn l1 dest) (\<lambda>l2. Inr (l2, True)))))
        else if itype it_dest \<noteq> itype it_src \<or> i32 (icount it_dest + n) > pile_limit it_dest then Inr (l, False)
        else bindr (Item_IncAmount it_dest n) (\<lambda>d. bindr (Item_DecAmount it_src n) (\<lambda>s.
               let l1 = set_slot (set_slot l dest d) src s in
               if icount s = 0 then
                 bindr (OnTakeOut l1 src) (\<lambda>l2. bindr (ReleaseSlot l2 src) (\<lambda>l3. Inr (l3, True)))
               else Inr (l1, True))))"

section \<open>Use, sell, clear, age\<close>

definition UseItem :: "item_man \<Rightarrow> item_list \<Rightarrow> nat \<Rightarrow> (item_list \<times> int) res" where
  "UseItem m l i =
     (if i \<ge> capacity l then Inr (l, -1)
      else with_slot l i (\<lambda>it.
        if itype it = -1 then Inr (l, -1)
        else if \<not> Item_CanUse m (il_loc l) i it then Inr (l, -1)
        else case Item_UseItem m (il_loc l) i it of
               ITEM_USE_FAILURE \<Rightarrow> Inr (l, -1)
             | ITEM_USE_CONSUME \<Rightarrow> bindr (DecAmount l i 1) (\<lambda>(l', _). Inr (l', 1))
             | ITEM_USE_RETAIN \<Rightarrow> Inr (l, 0)))"

definition SellItem :: "item_man \<Rightarrow> item_list \<Rightarrow> nat \<Rightarrow> int \<Rightarrow> (item_list \<times> bool) res" where
  "SellItem m l i n =
     (if i \<ge> capacity l then Inr (l, False)
      else with_slot l i (\<lambda>it.
        if itype it = -1 then Inr (l, False)
        else if icount it < n then Inr (l, False)
        else if \<not> CanSell it then Inr (l, False)
        else let total_value = i32 (GetTotalPrice m it * n);
                 l1 = (if total_value > 0 then l\<lparr>il_log := il_log l @ [GainMoney total_value]\<rparr> else l)
             in bindr (Item_DecAmount it n) (\<lambda>it'.
                  let l2 = set_slot l1 i it' in
                  if icount it' = 0 then
                    bindr (OnTakeOut l2 i) (\<lambda>l3. bindr (ReleaseSlot l3 i) (\<lambda>l4. Inr (l4, True)))
                  else Inr (l2, True))))"

text \<open>The loop of \<open>Clear\<close> over the slots \<open>i, ..., Size() - 1\<close>.\<close>

fun clear_slots :: "nat list \<Rightarrow> item_list \<Rightarrow> item_list res" where
  "clear_slots [] l = Inr l"
| "clear_slots (i # is) l = with_slot l i (\<lambda>it.
     if itype it \<noteq> -1
     then bindr (OnTakeOut l i) (\<lambda>l1. bindr (ReleaseSlot l1 i) (clear_slots is))
     else clear_slots is l)"

definition ItemList_Clear :: "item_list \<Rightarrow> item_list res" where
  "ItemList_Clear l =
     bindr (clear_slots [0..<capacity l] l) (\<lambda>l1.
       assertx (empty_slot_count l1 = int (capacity l1)) (Inr l1))"

text \<open>
  \<open>HeartBeat\<close> walks the set from the earliest entry and stops at the first one that is still
  valid; it does not call the bag's own \<open>OnTakeOut\<close>.
\<close>

fun heartbeat_loop :: "int \<Rightarrow> (nat \<times> int) list \<Rightarrow> item_list \<Rightarrow> item_list res" where
  "heartbeat_loop now [] l = Inr l"
| "heartbeat_loop now (e # es) l =
     (if snd e > now then Inr l
      else with_slot l (fst e) (\<lambda>it.
        bindr (Item_OnTakeOut (il_loc l) (fst e) it) (\<lambda>(it', ev).
          heartbeat_loop now es
            ((set_slot l (fst e) (Item_Clear it'))\<lparr>empty_slot_count := u64 (empty_slot_count l + 1),
               aging_items := es, il_log := il_log l @ ev\<rparr>))))"

definition HeartBeat :: "item_list \<Rightarrow> int \<Rightarrow> item_list res" where
  "HeartBeat l cur_time = heartbeat_loop cur_time (aging_items l) l"

definition GetExpireItem :: "item_list \<Rightarrow> int \<Rightarrow> nat list \<Rightarrow> nat list" where
  "GetExpireItem l cur_time out =
     out @ List.map fst (filter (\<lambda>e. snd e \<le> cur_time) (aging_items l))"

section \<open>Database\<close>

definition resize :: "nat \<Rightarrow> 'a \<Rightarrow> 'a list \<Rightarrow> 'a list" where
  "resize n d xs = take n xs @ replicate (n - length xs) d"

fun load_items :: "item_man \<Rightarrow> int \<Rightarrow> db_item list \<Rightarrow> item_list \<Rightarrow> item_list res" where
  "load_items m now [] l = Inr l"
| "load_items m now (d # ds) l =
     (if db_expire_date d = 0 \<or> db_expire_date d > now then
        (let index = nat (u64 (db_index d)) in
         with_slot l index (\<lambda>it.
           bindr (Item_LoadFromDB m it d) (\<lambda>it'.
             bindr (OnPutIn (set_slot l index it') index) (load_items m now ds))))
      else load_items m now ds l)"

definition LoadFromDB :: "item_man \<Rightarrow> int \<Rightarrow> item_list \<Rightarrow> db_item list \<Rightarrow> int \<Rightarrow> item_list res" where
  "LoadFromDB m now l data cap =
     (let l1 = (if cap > 0 then l\<lparr>capacity := nat cap, empty_slot_count := cap,
                                 slots := resize (nat cap) empty_item (slots l)\<rparr> else l)
      in assertx (capacity l1 > 0)
          (assertx (length data \<le> capacity l1) (load_items m now data l1)))"

text \<open>The vector is resized to the number of used slots first and then filled by index.\<close>

fun save_slots :: "nat \<Rightarrow> item list \<Rightarrow> nat \<Rightarrow> db_item list \<Rightarrow> db_item list res" where
  "save_slots i [] idx out = Inr out"
| "save_slots i (it # its) idx out =
     (if itype it = -1 then save_slots (Suc i) its idx out
      else if idx < length out then
        bindr (Item_SaveForDB it i) (\<lambda>d. save_slots (Suc i) its (Suc idx) (out[idx := d]))
      else Inl OutOfRange)"

definition db_default :: db_item where
  "db_default = \<lparr>db_type = -1, db_index = 0, db_count = 0, db_pile_limit = 0, db_proc_type = 0,
     db_expire_date = 0\<rparr>"

definition SaveForDB :: "item_list \<Rightarrow> (db_item list \<times> int) res" where
  "SaveForDB l =
     bindr (save_slots 0 (take (capacity l) (slots l)) 0
              (replicate (nat (u64 (int (capacity l) - empty_slot_count l))) db_default))
       (\<lambda>out. Inr (out, i32 (int (capacity l))))"

definition SaveItem :: "item_list \<Rightarrow> nat \<Rightarrow> itemdata \<Rightarrow> (itemdata \<times> int) res" where
  "SaveItem l i data =
     (if i \<ge> capacity l then Inr (data, -1)
      else with_slot l i (\<lambda>it.
        if itype it = -1 then Inr (data, 0)
        else bindr (Item_SaveItem it data) (\<lambda>d. Inr (d\<lparr>d_index := i16 (int i)\<rparr>, i32 (int i + 1)))))"

section \<open>Tidying up\<close>

text \<open>
  \<open>ItemInsertor::Insert\<close>: the first loop stacks onto the items there; \<open>None\<close> is its early
  return. The room of a stack is computed from the amount of the new item, as written.
\<close>

fun pile_into :: "item \<Rightarrow> int \<Rightarrow> item list \<Rightarrow> (item list \<times> int option) res" where
  "pile_into it n [] = Inr ([], Some n)"
| "pile_into it n (x # xs) =
     (if itype x = itype it \<and> icount x < pile_limit x then
        (if i32 (n + icount x) > pile_limit x then
           (let tmp = i32 (pile_limit x - icount it) in
            bindr (Item_IncAmount x tmp) (\<lambda>x'.
              bindr (pile_into it (i32 (n - tmp)) xs) (\<lambda>(xs', r). Inr (x' # xs', r))))
         else bindr (Item_IncAmount x n) (\<lambda>x'. Inr (x' # xs, None)))
      else bindr (pile_into it n xs) (\<lambda>(xs', r). Inr (x # xs', r)))"

fun insert_ranked :: "item_man \<Rightarrow> item \<Rightarrow> item list \<Rightarrow> item list" where
  "insert_ranked m it [] = [it]"
| "insert_ranked m it (x # xs) =
     (if itype x < itype it then x # insert_ranked m it xs
      else if itype x = itype it \<and> GetRank m x \<ge> GetRank m it then x # insert_ranked m it xs
      else it # x # xs)"

definition Insertor_Insert :: "item_man \<Rightarrow> item list \<Rightarrow> item \<Rightarrow> item list res" where
  "Insertor_Insert m xs it =
     bindr (pile_into it (icount it) xs) (\<lambda>(xs', r).
       case r of None \<Rightarrow> Inr xs'
       | Some n \<Rightarrow> bindr (SetAmount it n) (\<lambda>it'. Inr (insert_ranked m it' xs')))"

fun insert_all :: "item_man \<Rightarrow> item list \<Rightarrow> item list \<Rightarrow> item list res" where
  "insert_all m acc [] = Inr acc"
| "insert_all m acc (it # its) = bindr (Insertor_Insert m acc it) (\<lambda>acc'. insert_all m acc' its)"

fun tidy_classes :: "item_man \<Rightarrow> item list \<Rightarrow> nat list \<Rightarrow> item list res" where
  "tidy_classes m its [] = Inr []"
| "tidy_classes m its (c # cs) =
     bindr (insert_all m [] (filter (\<lambda>it. item_cls it = int c) its)) (\<lambda>xs.
       bindr (tidy_classes m its cs) (\<lambda>ys. Inr (xs @ ys)))"

fun refill :: "nat \<Rightarrow> item list \<Rightarrow> item_list \<Rightarrow> item_list res" where
  "refill i [] l = Inr l"
| "refill i (it # its) l =
     bindr (AssignSlot l i it) (\<lambda>l1. bindr (OnPutIn l1 i) (refill (Suc i) its))"

definition TidyUp :: "item_man \<Rightarrow> item_list \<Rightarrow> item_list res" where
  "TidyUp m l =
     (let total = TotalItemCount l;
          its = filter (\<lambda>it. itype it \<noteq> -1) (take (capacity l) (slots l))
      in if \<exists>it \<in> set its. item_cls it < 0 \<or> item_cls it \<ge> int ITEM_CLS_MAX then Inl OutOfRange
         else bindr (tidy_classes m its [0..<ITEM_CLS_MAX]) (\<lambda>tmp.
           assertx (length tmp \<le> capacity l)
            (bindr (ItemList_Clear l) (\<lambda>l1.
              bindr (refill 0 tmp l1) (\<lambda>l2.
                assertx (total = TotalItemCount l2)
                 (assertx (empty_slot_count l2 = u64 (int (capacity l2) - int (length tmp)))
                   (Inr l2)))))))"

end
