(* ===== verification/ItemListCorrect.thy ===== *)
theory ItemListCorrect
  imports ItemList
begin

text \<open>
  Correctness of the item bag of theory \<open>ItemList\<close>: the representation invariant \<open>il_inv\<close> and
  what every operation does to it, the conservation of items by stacking and moving, ageing,
  and the round trip through the database, with the calls that break the invariant.
\<close>

section \<open>The invariant\<close>

definition wf_item :: "item \<Rightarrow> bool" where
  "wf_item it \<longleftrightarrow> itype it \<noteq> -1 \<and> 0 < icount it \<and> icount it \<le> pile_limit it \<and> pile_limit it < 2147483648 \<and>
     (expire_date it \<noteq> 0 \<longrightarrow> pile_limit it = 1)"

definition slot_ok :: "location \<Rightarrow> item \<Rightarrow> bool" where
  "slot_ok loc it \<longleftrightarrow> it = empty_item \<or> placed loc it \<and> wf_item it"

definition aging_ok :: "item list \<Rightarrow> (nat \<times> int) list \<Rightarrow> bool" where
  "aging_ok ss es \<longleftrightarrow> sset_inv snd es \<and>
     (\<forall>e \<in> set es. fst e < length ss \<and> itype (ss ! fst e) \<noteq> -1 \<and> snd e \<noteq> 0 \<and>
        expire_date (ss ! fst e) = snd e)"

definition empties :: "item list \<Rightarrow> int" where
  "empties ss = int (length (filter (\<lambda>it. itype it = -1) ss))"

definition il_inv :: "item_list \<Rightarrow> bool" where
  "il_inv l \<longleftrightarrow> length (slots l) = capacity l \<and> capacity l < 2147483648 \<and>
     (\<forall>it \<in> set (slots l). slot_ok (il_loc l) it) \<and>
     empty_slot_count l = empties (slots l) \<and> aging_ok (slots l) (aging_items l)"

text \<open>Same bag, other contents.\<close>

definition same_bag :: "item_list \<Rightarrow> item_list \<Rightarrow> bool" where
  "same_bag l l' \<longleftrightarrow> il_loc l' = il_loc l \<and> capacity l' = capacity l"

lemma same_bag_refl [simp]: "same_bag l l"
  by (simp add: same_bag_def)

lemma same_bag_trans: "same_bag a b \<Longrightarrow> same_bag b c \<Longrightarrow> same_bag a c"
  by (simp add: same_bag_def)

lemma il_inv_init: "n < 2147483648 \<Longrightarrow> il_inv (ItemList_init loc n)"
  by (simp add: il_inv_def ItemList_init_def empties_def aging_ok_def slot_ok_def)

lemma empties_update:
  "i < length ss \<Longrightarrow> empties (ss[i := it]) =
     empties ss - (if itype (ss ! i) = -1 then 1 else 0) + (if itype it = -1 then 1 else 0)"
  unfolding empties_def by (rule filter_length_update)

lemma empties_range: "0 \<le> empties ss" "empties ss \<le> int (length ss)"
  by (simp_all add: empties_def)

lemma empties_pos: "i < length ss \<Longrightarrow> itype (ss ! i) = -1 \<Longrightarrow> 0 < empties ss"
proof -
  assume "i < length ss" "itype (ss ! i) = -1"
  then have "ss ! i \<in> set (filter (\<lambda>it. itype it = -1) ss)" by simp
  then have "filter (\<lambda>it. itype it = -1) ss \<noteq> []" by fastforce
  then show ?thesis by (simp add: empties_def)
qed

lemma empties_not_all: "i < length ss \<Longrightarrow> itype (ss ! i) \<noteq> -1 \<Longrightarrow> empties ss < int (length ss)"
proof -
  assume "i < length ss" "itype (ss ! i) \<noteq> -1"
  then have "length (filter (\<lambda>it. itype it = -1) ss) < length ss"
    by (intro length_filter_less [of "ss ! i"]) auto
  then show ?thesis by (simp add: empties_def)
qed

lemma slot_ok_nonempty: "slot_ok loc it \<Longrightarrow> itype it \<noteq> -1 \<longleftrightarrow> it \<noteq> empty_item"
  by (auto simp: slot_ok_def placed_def)

lemma slot_ok_used: "slot_ok loc it \<Longrightarrow> itype it \<noteq> -1 \<Longrightarrow> placed loc it \<and> wf_item it"
  by (auto simp: slot_ok_def)

lemma wf_same_item: "same_item a b \<Longrightarrow> wf_item b \<Longrightarrow> wf_item a"
  by (simp add: same_item_def wf_item_def)

lemma il_inv_slot:
  assumes "il_inv l" "i < capacity l"
  shows "i < length (slots l)" "slot_ok (il_loc l) (slots l ! i)"
  using assms by (auto simp: il_inv_def)

section \<open>The set of ageing items\<close>

lemma aging_index_unique:
  "aging_ok ss es \<Longrightarrow> e \<in> set es \<Longrightarrow> e' \<in> set es \<Longrightarrow> fst e = fst e' \<Longrightarrow> e = e'"
  unfolding aging_ok_def by (metis prod_eqI)

lemma erase_index_filter:
  "aging_ok ss es \<Longrightarrow> erase_index i es = filter (\<lambda>e. fst e \<noteq> i) es"
proof (induction es)
  case (Cons e es)
  then have ok: "aging_ok ss es" by (simp add: aging_ok_def sset_inv_Cons)
  show ?case
  proof (cases "fst e = i")
    case True
    have d: "e \<notin> set es"
      using Cons.prems sset_inv_distinct [of snd "e # es"] by (simp add: aging_ok_def)
    have "fst e' \<noteq> i" if e': "e' \<in> set es" for e'
    proof
      assume "fst e' = i"
      with True have "e = e'"
        using aging_index_unique [OF Cons.prems list.set_intros(1) list.set_intros(2) [OF e']] by simp
      with d e' show False by blast
    qed
    then have "filter (\<lambda>e. fst e \<noteq> i) es = es" by (intro filter_True) blast
    then show ?thesis using True by simp
  qed (simp add: Cons.IH [OF ok])
qed simp

lemma aging_ok_remove:
  "aging_ok ss es \<Longrightarrow> i < length ss \<Longrightarrow> aging_ok (ss[i := it]) (filter (\<lambda>e. fst e \<noteq> i) es)"
  by (auto simp: aging_ok_def sset_inv_filter)

lemma aging_ok_no_expiry:
  assumes "aging_ok ss es" "itype (ss ! i) = -1 \<or> expire_date (ss ! i) = 0"
  shows "filter (\<lambda>e. fst e \<noteq> i) es = es" "\<forall>e \<in> set es. fst e \<noteq> i"
  using assms by (auto simp: aging_ok_def filter_id_conv)

lemma aging_ok_add:
  assumes "aging_ok ss es" "i < length ss" "itype (ss ! i) = -1" "itype it \<noteq> -1"
  shows "aging_ok (ss[i := it]) (if expire_date it \<noteq> 0 then sset_insert snd (i, expire_date it) es else es)"
proof -
  have "fst e \<noteq> i" if "e \<in> set es" for e
    using aging_ok_no_expiry(2) [OF assms(1)] assms(3) that by blast
  with assms show ?thesis
    by (auto simp: aging_ok_def set_sset_insert nth_list_update)
qed

section \<open>OnTakeOut and OnPutIn\<close>

lemma OnTakeOut_ok:
  assumes inv: "il_inv l" and i: "i < capacity l" and used: "itype (slots l ! i) \<noteq> -1"
  shows "\<exists>l1 it. OnTakeOut l i = Inr l1 \<and> slots l1 = (slots l)[i := it] \<and> loose it \<and>
     same_item it (slots l ! i) \<and> il_inv (set_slot l1 i empty_item) \<and> same_bag l l1"
proof -
  have len: "i < length (slots l)" and ok: "slot_ok (il_loc l) (slots l ! i)"
    and ag: "aging_ok (slots l) (aging_items l)"
    using inv i by (auto simp: il_inv_def)
  obtain it ev where it: "Item_OnTakeOut (il_loc l) i (slots l ! i) = Inr (it, ev)"
    "loose it" "same_item it (slots l ! i)"
    using Item_OnTakeOut_placed slot_ok_used [OF ok used] by blast
  have u: "u64 (empty_slot_count l + 1) = empties (slots l) + 1"
    using inv empties_range [of "slots l"] by (auto simp: il_inv_def u64_id)
  let ?ag = "if expire_date it \<noteq> 0 then erase_index i (aging_items l) else aging_items l"
  have ag': "?ag = filter (\<lambda>e. fst e \<noteq> i) (aging_items l)"
    using erase_index_filter [OF ag, of i] aging_ok_no_expiry(1) [OF ag, of i] it(3)
    by (auto simp: same_item_def)
  let ?l1 = "l\<lparr>slots := (slots l)[i := it], empty_slot_count := empties (slots l) + 1,
     il_log := il_log l @ ev, aging_items := filter (\<lambda>e. fst e \<noteq> i) (aging_items l)\<rparr>"
  have "OnTakeOut l i = Inr ?l1"
    using len it(1) u ag' by (auto simp: OnTakeOut_def with_slot_def set_slot_def Let_def split: if_splits)
  moreover have "il_inv (set_slot ?l1 i empty_item)"
    using inv len used aging_ok_remove [OF ag len, of empty_item]
    by (auto simp: il_inv_def set_slot_def empties_update slot_ok_def dest!: subsetD [OF set_update_subset_insert])
  ultimately show ?thesis using it
    by (intro exI [of _ ?l1] exI [of _ it]) (auto simp: same_bag_def)
qed

lemma OnPutIn_ok:
  assumes inv: "il_inv l" and i: "i < capacity l" and free: "itype (slots l ! i) = -1"
    and it: "loose it" "wf_item it"
  shows "\<exists>l1 it'. OnPutIn (set_slot l i it) i = Inr l1 \<and> slots l1 = (slots l)[i := it'] \<and>
     placed (il_loc l) it' \<and> same_item it' it \<and> il_inv l1 \<and> same_bag l l1 \<and>
     aging_items l1 = (if expire_date it \<noteq> 0 then sset_insert snd (i, expire_date it) (aging_items l)
                       else aging_items l)"
proof -
  have len: "i < length (slots l)" and ag: "aging_ok (slots l) (aging_items l)"
    using inv i by (auto simp: il_inv_def)
  obtain it' ev where it': "Item_OnPutIn (il_loc l) i it = Inr (it', ev)"
    "placed (il_loc l) it'" "same_item it' it"
    using Item_OnPutIn_loose it(1) by blast
  have u: "u64 (empty_slot_count l - 1) = empties (slots l) - 1"
    using inv empties_range [of "slots l"] empties_pos [OF len free]
    by (auto simp: il_inv_def u64_id)
  let ?ag = "if expire_date it' \<noteq> 0 then sset_insert snd (i, expire_date it') (aging_items l)
             else aging_items l"
  let ?l1 = "l\<lparr>slots := (slots l)[i := it'], empty_slot_count := empties (slots l) - 1,
     il_log := il_log l @ ev, aging_items := ?ag\<rparr>"
  have nofst: "\<forall>e \<in> set (aging_items l). fst e \<noteq> i"
    using aging_ok_no_expiry(2) [OF ag] free by blast
  have wf': "wf_item it'" using it(2) it'(3) by (rule wf_same_item [rotated])
  have "OnPutIn (set_slot l i it) i = Inr ?l1"
    using len it'(1) u nofst wf'
    by (auto simp: OnPutIn_def with_slot_def set_slot_def Let_def wf_item_def)
  moreover have "il_inv ?l1"
    using inv len free it'(2) wf' aging_ok_add [OF ag len free, of it']
    by (auto simp: il_inv_def empties_update slot_ok_def placed_def
        dest!: subsetD [OF set_update_subset_insert])
  ultimately show ?thesis using it'
    by (intro exI [of _ ?l1] exI [of _ it']) (auto simp: same_bag_def same_item_def)
qed

text \<open>The two compositions every operation uses: take out and release, copy in and put in.\<close>

lemma take_release_ok:
  assumes "il_inv l" "i < capacity l" "itype (slots l ! i) \<noteq> -1"
  shows "\<exists>l2. bindr (OnTakeOut l i) (\<lambda>l1. bindr (ReleaseSlot l1 i) k) = k l2 \<and>
     il_inv l2 \<and> slots l2 = (slots l)[i := empty_item] \<and> same_bag l l2"
proof -
  obtain l1 it where l1: "OnTakeOut l i = Inr l1" "slots l1 = (slots l)[i := it]"
    "il_inv (set_slot l1 i empty_item)" "same_bag l l1"
    using OnTakeOut_ok [OF assms] by blast
  have "i < length (slots l)" using assms(1,2) by (simp add: il_inv_def)
  then have "ReleaseSlot l1 i = Inr (set_slot l1 i empty_item)"
    using l1(2) by (simp add: ReleaseSlot_def with_slot_def)
  moreover have "slots (set_slot l1 i empty_item) = (slots l)[i := empty_item]"
    using l1(2) by (simp add: set_slot_def)
  moreover have "same_bag l (set_slot l1 i empty_item)"
    using l1(4) by (simp add: same_bag_def set_slot_def)
  ultimately show ?thesis using l1 by auto
qed

lemma assign_put_ok:
  assumes "il_inv l" "i < capacity l" "itype (slots l ! i) = -1" "wf_item it"
  shows "\<exists>l2 it'. bindr (AssignSlot l i it) (\<lambda>l1. bindr (OnPutIn l1 i) k) = k l2 \<and>
     il_inv l2 \<and> slots l2 = (slots l)[i := it'] \<and> placed (il_loc l) it' \<and> same_item it' it \<and>
     same_bag l l2 \<and>
     aging_items l2 = (if expire_date it \<noteq> 0 then sset_insert snd (i, expire_date it) (aging_items l)
                       else aging_items l)"
proof -
  let ?it = "it\<lparr>is_active := False, ref := 0\<rparr>"
  have "loose ?it" "wf_item ?it" "same_item ?it it"
    using assms(4) by (auto simp: loose_def wf_item_def same_item_def)
  moreover have "AssignSlot l i it = Inr (set_slot l i ?it)"
    using assms by (simp add: AssignSlot_def with_slot_def item_assign_def il_inv_def wf_item_def)
  ultimately show ?thesis
    using OnPutIn_ok [OF assms(1,2,3), of ?it] by (fastforce simp: same_item_def)
qed

section \<open>Changing amounts\<close>

definition amounts_only :: "location \<Rightarrow> item list \<Rightarrow> item list \<Rightarrow> bool" where
  "amounts_only loc ss ss' \<longleftrightarrow>
     list_all2 (\<lambda>a b. b = a\<lparr>icount := icount b\<rparr> \<and> (itype a = -1 \<longrightarrow> b = a) \<and> slot_ok loc b) ss ss'"

definition of_type :: "int \<Rightarrow> item \<Rightarrow> int" where
  "of_type ty it = (if itype it \<noteq> -1 \<and> itype it = ty then icount it else 0)"

text \<open>How many items of a type the bag holds; \<open>CountItem\<close> tells so in 32 bits.\<close>

definition amount_of :: "item_list \<Rightarrow> int \<Rightarrow> int" where
  "amount_of l ty = sum_list (List.map (of_type ty) (slots l))"

lemma CountItem_amount: "CountItem l ty = i32 (amount_of l ty)"
  unfolding CountItem_def amount_of_def of_type_def [abs_def] by (rule refl)

lemma of_type_empty [simp]: "of_type ty empty_item = 0"
  by (simp add: of_type_def)

lemma of_type_same: "same_item a b \<Longrightarrow> of_type ty a = of_type ty b"
  by (simp add: of_type_def same_item_def)

lemma same_item_count: "a = b\<lparr>icount := icount a\<rparr> \<Longrightarrow> itype a = itype b \<and> pile_limit a = pile_limit b \<and>
    expire_date a = expire_date b"
  by (cases a; cases b) auto

lemma amounts_only_refl: "\<forall>it \<in> set ss. slot_ok loc it \<Longrightarrow> amounts_only loc ss ss"
  unfolding amounts_only_def by (rule list.rel_refl_strong) auto

lemma amounts_only_Cons [simp]:
  "amounts_only loc (a # ss) (b # ss') \<longleftrightarrow>
     b = a\<lparr>icount := icount b\<rparr> \<and> (itype a = -1 \<longrightarrow> b = a) \<and> slot_ok loc b \<and> amounts_only loc ss ss'"
  by (simp add: amounts_only_def)

lemma amounts_only_length: "amounts_only loc ss ss' \<Longrightarrow> length ss' = length ss"
  by (simp add: amounts_only_def list_all2_lengthD)

lemma amounts_only_nth:
  assumes "amounts_only loc ss ss'" "i < length ss"
  shows "ss' ! i = (ss ! i)\<lparr>icount := icount (ss' ! i)\<rparr>" "slot_ok loc (ss' ! i)"
    "itype (ss' ! i) = itype (ss ! i)" "expire_date (ss' ! i) = expire_date (ss ! i)"
  using list_all2_nthD [OF assms [unfolded amounts_only_def]] same_item_count by auto

lemma amounts_only_empties: "amounts_only loc ss ss' \<Longrightarrow> empties ss' = empties ss"
  unfolding amounts_only_def empties_def
  by (induction rule: list_all2_induct) (auto dest: same_item_count)

lemma il_inv_amounts:
  assumes inv: "il_inv l" and am: "amounts_only (il_loc l) (slots l) ss"
  shows "il_inv (l\<lparr>slots := ss\<rparr>)"
proof -
  have len: "length ss = capacity l"
    using amounts_only_length [OF am] inv by (simp add: il_inv_def)
  have "slot_ok (il_loc l) it" if "it \<in> set ss" for it
    using that amounts_only_nth(2) [OF am] amounts_only_length [OF am] by (auto simp: in_set_conv_nth)
  moreover have "aging_ok ss (aging_items l)"
    using inv amounts_only_nth(3,4) [OF am] len by (auto simp: il_inv_def aging_ok_def)
  ultimately show ?thesis
    using inv len amounts_only_empties [OF am] by (simp add: il_inv_def)
qed

lemma il_inv_set_count:
  assumes inv: "il_inv l" and i: "i < capacity l" "itype (slots l ! i) \<noteq> -1"
    and n: "0 < n" "n \<le> pile_limit (slots l ! i)"
  shows "il_inv (set_slot l i ((slots l ! i)\<lparr>icount := n\<rparr>))"
proof -
  have len: "i < length (slots l)" using inv i by (simp add: il_inv_def)
  then have "slot_ok (il_loc l) (slots l ! i)" using inv by (simp add: il_inv_def)
  from slot_ok_used [OF this i(2)] have "placed (il_loc l) (slots l ! i) \<and> wf_item (slots l ! i)" .
  then have "slot_ok (il_loc l) ((slots l ! i)\<lparr>icount := n\<rparr>)"
    using n by (auto simp: slot_ok_def placed_def wf_item_def)
  then have "amounts_only (il_loc l) (slots l) ((slots l)[i := (slots l ! i)\<lparr>icount := n\<rparr>])"
    using inv i(2) len
    by (auto simp: amounts_only_def list_all2_conv_all_nth nth_list_update il_inv_def)
  with inv show ?thesis unfolding set_slot_def by (rule il_inv_amounts)
qed

text \<open>The amount of an item plays no part in taking it out of the bag.\<close>

lemma Item_OnTakeOut_count:
  "Item_OnTakeOut loc i (it\<lparr>icount := n\<rparr>) =
     bindr (Item_OnTakeOut loc i it) (\<lambda>(it', ev). Inr (it'\<lparr>icount := n\<rparr>, ev))"
  by (auto simp: Item_OnTakeOut_def body_OnTakeOut_def body_Deactivate_def assertx_def Let_def
      TestDisabled_def ClrDisabled_def split: option.splits)

lemma take_release_count:
  assumes "i < length (slots l)"
  shows "bindr (OnTakeOut (set_slot l i ((slots l ! i)\<lparr>icount := n\<rparr>)) i) (\<lambda>l1. bindr (ReleaseSlot l1 i) k) =
     bindr (OnTakeOut l i) (\<lambda>l1. bindr (ReleaseSlot l1 i) k)"
  using assms
  by (auto simp: OnTakeOut_def ReleaseSlot_def with_slot_def set_slot_def Item_OnTakeOut_count
      bindr_def Let_def split: sum.splits prod.splits)

section \<open>TryPile\<close>

lemma find_from_shift: "find_from P (Suc i) xs = map_option Suc (find_from P i xs)"
  by (induction xs arbitrary: i) auto

lemma find_from_Some:
  "find_from P i xs = Some j \<Longrightarrow> i \<le> j \<and> j < i + length xs \<and> P (xs ! (j - i))"
  by (induction xs arbitrary: i) (fastforce split: if_splits)+

lemma find_from_None: "find_from P i xs = None \<longleftrightarrow> (\<forall>x \<in> set xs. \<not> P x)"
  by (induction xs arbitrary: i) auto

text \<open>Adding \<open>n\<close> to a stack of the type does not leave the 32 bits of an amount.\<close>

definition stackable :: "item list \<Rightarrow> int \<Rightarrow> int \<Rightarrow> bool" where
  "stackable ss ty n \<longleftrightarrow> (\<forall>it \<in> set ss. itype it = ty \<longrightarrow> n + pile_limit it < 2147483648)"

lemma stackable_less: "stackable ss ty n \<Longrightarrow> k \<le> n \<Longrightarrow> stackable ss ty k"
  by (fastforce simp: stackable_def)

definition piled :: "location \<Rightarrow> int \<Rightarrow> nat \<Rightarrow> item list \<Rightarrow> int \<Rightarrow> nat option \<Rightarrow> int
    \<Rightarrow> item list \<times> int \<times> nat option \<times> int \<Rightarrow> bool" where
  "piled loc ty i its n pe li r \<longleftrightarrow> (case r of (its', n', pe', li') \<Rightarrow>
     amounts_only loc its its' \<and> 0 \<le> n' \<and> n' \<le> n \<and>
     (\<forall>t. sum_list (List.map (of_type t) its')
        = sum_list (List.map (of_type t) its) + (if t = ty then n - n' else 0)) \<and>
     (0 < n' \<longrightarrow> pe' = (if pe = None then find_from (\<lambda>it. itype it = -1) i its else pe) \<and>
        (\<forall>it \<in> set its'. itype it = ty \<longrightarrow> icount it = pile_limit it)) \<and>
     (if n' < n then int i \<le> li' \<and> li' < int (i + length its) else li' = li))"

text \<open>A slot the loop passes over: empty, of another type, or full.\<close>

lemma piled_skip:
  assumes p: "piled loc ty (Suc i) its n (if itype it = -1 \<and> pe = None then Some i else pe) li (its', n', pe', li')"
    and it: "slot_ok loc it" "itype it = ty \<longrightarrow> icount it = pile_limit it"
  shows "piled loc ty i (it # its) n pe li (it # its', n', pe', li')"
proof -
  let ?pe = "if itype it = -1 \<and> pe = None then Some i else pe"
  from p have A: "amounts_only loc its its'" and B: "0 \<le> n'" "n' \<le> n"
    and C: "\<forall>t. sum_list (List.map (of_type t) its')
        = sum_list (List.map (of_type t) its) + (if t = ty then n - n' else 0)"
    and D: "0 < n' \<longrightarrow> pe' = (if ?pe = None then find_from (\<lambda>it. itype it = -1) (Suc i) its else ?pe) \<and>
        (\<forall>it \<in> set its'. itype it = ty \<longrightarrow> icount it = pile_limit it)"
    and E: "if n' < n then int (Suc i) \<le> li' \<and> li' < int (Suc i + length its) else li' = li"
    unfolding piled_def prod.case by blast+
  have "amounts_only loc (it # its) (it # its')" using A it(1) by simp
  moreover have "0 < n' \<longrightarrow> pe' = (if pe = None then find_from (\<lambda>it. itype it = -1) i (it # its) else pe) \<and>
      (\<forall>it \<in> set (it # its'). itype it = ty \<longrightarrow> icount it = pile_limit it)"
    using D it(2) by (cases "itype it = -1"; cases pe) auto
  moreover have "if n' < n then int i \<le> li' \<and> li' < int (i + length (it # its)) else li' = li"
    using E by (cases "n' < n") simp_all
  moreover have "\<forall>t. sum_list (List.map (of_type t) (it # its'))
        = sum_list (List.map (of_type t) (it # its)) + (if t = ty then n - n' else 0)"
    using C by simp
  ultimately show ?thesis using B unfolding piled_def prod.case by blast
qed

lemma TryPile_ok:
  assumes "\<forall>it \<in> set its. slot_ok loc it" "0 < n" "ty \<noteq> -1" "stackable its ty n" "n < 2147483648"
  shows "\<exists>r. TryPile ty i its n pe li = Inr r \<and> piled loc ty i its n pe li r"
  using assms
proof (induction its arbitrary: i n pe li)
  case Nil
  then show ?case by (simp add: piled_def amounts_only_def)
next
  case (Cons it its)
  have okit: "slot_ok loc it" using Cons.prems by simp
  have oks: "\<forall>it \<in> set its. slot_ok loc it" and st: "stackable its ty n" using Cons.prems by (simp_all add: stackable_def)
  note IH = Cons.IH [OF oks _ Cons.prems(3)]
  show ?case
  proof (cases "itype it = -1")
    case True
    obtain its' n' pe' li' where r: "TryPile ty (Suc i) its n (if pe = None then Some i else pe) li
        = Inr (its', n', pe', li')"
      "piled loc ty (Suc i) its n (if pe = None then Some i else pe) li (its', n', pe', li')"
      using IH [OF Cons.prems(2) st Cons.prems(5)] by (metis prod_cases4)
    have "TryPile ty i (it # its) n pe li = Inr (it # its', n', pe', li')" using True r(1) by simp
    moreover have "piled loc ty i (it # its) n pe li (it # its', n', pe', li')"
      using r(2) True okit Cons.prems(3) by (intro piled_skip) simp_all
    ultimately show ?thesis by blast
  next
    case used: False
    then have ok: "placed loc it" "wf_item it" using slot_ok_used [OF okit] by auto
    show ?thesis
    proof (cases "itype it = ty \<and> icount it < pile_limit it")
      case False
      obtain its' n' pe' li' where r: "TryPile ty (Suc i) its n pe li = Inr (its', n', pe', li')"
        "piled loc ty (Suc i) its n pe li (its', n', pe', li')"
        using IH [OF Cons.prems(2) st Cons.prems(5)] by (metis prod_cases4)
      have "TryPile ty i (it # its) n pe li = Inr (it # its', n', pe', li')" using False used r(1) by auto
      moreover have "piled loc ty i (it # its) n pe li (it # its', n', pe', li')"
        using r(2) used False okit ok by (intro piled_skip) (auto simp: wf_item_def)
      ultimately show ?thesis by blast
    next
      case room: True
      let ?tmp = "if n + icount it > pile_limit it then pile_limit it - icount it else n"
      let ?it = "it\<lparr>icount := icount it + ?tmp\<rparr>"
      have tmp: "0 < ?tmp" "?tmp \<le> n" "icount it + ?tmp \<le> pile_limit it"
        using room Cons.prems(2) by auto
      have small: "n + pile_limit it < 2147483648" "0 < icount it" "pile_limit it < 2147483648"
        using Cons.prems(4) room ok(2) by (auto simp: stackable_def wf_item_def)
      then have w: "i32 (n + icount it) = n + icount it" "i32 (pile_limit it - icount it) = pile_limit it - icount it"
          "i32 (icount it + ?tmp) = icount it + ?tmp" "i32 (n - ?tmp) = n - ?tmp"
        using room tmp Cons.prems(2,5) by (auto intro!: i32_id)
      have inc: "Item_IncAmount it ?tmp = Inr ?it" using tmp w(3) by (simp add: Item_IncAmount_def)
      have okit': "slot_ok loc ?it" using ok tmp room
        by (auto simp: slot_ok_def placed_def wf_item_def)
      show ?thesis
      proof (cases "n - ?tmp \<le> 0")
        case True
        then have "?tmp = n" using tmp by linarith
        then show ?thesis
          using used room inc tmp okit' amounts_only_refl [OF oks] Cons.prems(3) w
          by (simp add: piled_def of_type_def)
      next
        case False
        then have pos: "0 < n - ?tmp" and full: "icount it + ?tmp = pile_limit it"
          and more: "pile_limit it < n + icount it"
          by (auto split: if_splits)
        have less: "stackable its ty (n - ?tmp)" "n - ?tmp < 2147483648"
          using stackable_less [OF st, of "n - ?tmp"] tmp(1) Cons.prems(5) by linarith+
        obtain its' n' pe' li' where r: "TryPile ty (Suc i) its (n - ?tmp) pe (int i) = Inr (its', n', pe', li')"
          "piled loc ty (Suc i) its (n - ?tmp) pe (int i) (its', n', pe', li')"
          using IH [OF pos less(1,2)] by (metis prod_cases4)
        have "TryPile ty i (it # its) n pe li = Inr (?it # its', n', pe', li')"
          using used room inc False r(1) w by (simp add: Let_def more)
        moreover have "piled loc ty i (it # its) n pe li (?it # its', n', pe', li')"
          using r(2) used room okit' Cons.prems(3) tmp(1,2)
          by (auto simp: piled_def of_type_def more split: if_splits)
        ultimately show ?thesis by blast
      qed
    qed
  qed
qed

section \<open>Push\<close>

lemma FindEmpty_Some:
  assumes "il_inv l" "FindEmpty l = Some i"
  shows "i < capacity l" "itype (slots l ! i) = -1"
  using find_from_Some [OF assms(2) [unfolded FindEmpty_def]] assms(1) by (auto simp: il_inv_def)

lemma FindEmpty_None: "FindEmpty l = None \<longleftrightarrow> (\<forall>it \<in> set (slots l). itype it \<noteq> -1)"
  by (simp add: FindEmpty_def find_from_None)

lemma amount_of_update:
  "i < length (slots l) \<Longrightarrow> slots l' = (slots l)[i := it] \<Longrightarrow>
     amount_of l' t = amount_of l t - of_type t (slots l ! i) + of_type t it"
  by (simp add: amount_of_def sum_list_update)

lemma count_put:
  assumes "il_inv l" "i < capacity l" "itype (slots l ! i) = -1" "slots l' = (slots l)[i := it']"
    "same_item it' it" "itype it \<noteq> -1"
  shows "amount_of l' t = amount_of l t + (if t = itype it then icount it else 0)"
  using assms amount_of_update [of i l l' it' t] by (auto simp: il_inv_def of_type_def same_item_def)

lemma IsFull_iff:
  assumes "il_inv l"
  shows "empty_slot_count l = 0 \<longleftrightarrow> (\<forall>it \<in> set (slots l). itype it \<noteq> -1)"
proof -
  have "empties (slots l) = 0 \<longleftrightarrow> filter (\<lambda>it. itype it = -1) (slots l) = []"
    by (simp add: empties_def)
  also have "\<dots> \<longleftrightarrow> (\<forall>it \<in> set (slots l). itype it \<noteq> -1)" by (simp add: filter_empty_conv)
  finally show ?thesis using assms by (simp add: il_inv_def)
qed

definition data_ok :: "item_man \<Rightarrow> itemdata \<Rightarrow> bool" where
  "data_ok m d \<longleftrightarrow> 0 < d_id d \<and> 0 < d_count d \<and> d_count d \<le> d_pile_limit d \<and> d_pile_limit d < 2147483648 \<and>
     GetItemPileLimit m (d_id d) = d_pile_limit d \<and> (d_expire_date d \<noteq> 0 \<longrightarrow> d_pile_limit d = 1)"

lemma MakeItem_ok:
  "data_ok m d \<Longrightarrow> \<exists>it. MakeItem m empty_item d = Inr it \<and> wf_item it \<and> itype it = d_id d \<and> icount it = d_count d"
  by (auto simp: MakeItem_def LocateSelf_def data_ok_def wf_item_def)

text \<open>What a push did: \<open>k\<close> items of the type went in and nothing else changed.\<close>

definition pushed :: "item_list \<Rightarrow> item_list \<Rightarrow> int \<Rightarrow> int \<Rightarrow> int \<Rightarrow> int \<Rightarrow> bool \<Rightarrow> bool" where
  "pushed l l' ty n remain li b \<longleftrightarrow>
     il_inv l' \<and> same_bag l l' \<and> 0 \<le> remain \<and> remain \<le> n \<and> (b \<longleftrightarrow> remain = 0) \<and>
     (\<forall>t. amount_of l' t = amount_of l t + (if t = ty then n - remain else 0)) \<and>
     (b \<or> remain < n \<longrightarrow> 0 \<le> li \<and> li < int (capacity l)) \<and>
     (\<not> b \<longrightarrow> (\<forall>it \<in> set (slots l'). itype it \<noteq> -1)) \<and>
     (if b then empties (slots l) - 1 \<le> empties (slots l') else empties (slots l') = empties (slots l))"

lemma pushed_intro_put:
  assumes "il_inv l" "FindEmpty l = Some i" "wf_item it" "icount it = n" "0 < n" "itype it = ty"
    "il_inv l2" "slots l2 = (slots l)[i := it']" "same_item it' it" "same_bag l l2"
  shows "pushed l l2 ty n 0 (int i) True"
  using empties_update [of i "slots l" it'] il_inv_slot [OF assms(1) FindEmpty_Some(1) [OF assms(1,2)]] count_put [OF assms(1) FindEmpty_Some [OF assms(1,2)] assms(8,9)]
    FindEmpty_Some [OF assms(1,2)] assms
  by (auto simp: pushed_def wf_item_def)

text \<open>The part of both pushes after stacking: find the empty slot and put the rest there.\<close>

lemma put_rest:
  assumes inv: "il_inv l" and wf: "wf_item it"
  shows "(case FindEmpty l of
       None \<Rightarrow> pushed l l (itype it) (icount it) (icount it) li False
     | Some i \<Rightarrow> \<exists>l2. bindr (AssignSlot l i it) (\<lambda>l1. bindr (OnPutIn l1 i) f) = f l2 \<and>
                      pushed l l2 (itype it) (icount it) 0 (int i) True)"
proof (cases "FindEmpty l")
  case None
  then have "pushed l l (itype it) (icount it) (icount it) li False"
    using inv wf by (auto simp: pushed_def FindEmpty_None wf_item_def)
  then show ?thesis by (simp add: None)
next
  case (Some i)
  obtain l2 it' where "bindr (AssignSlot l i it) (\<lambda>l1. bindr (OnPutIn l1 i) f) = f l2"
    "il_inv l2" "slots l2 = (slots l)[i := it']" "same_item it' it" "same_bag l l2"
    using assign_put_ok [OF inv FindEmpty_Some [OF inv Some] wf] by blast
  then show ?thesis
    using pushed_intro_put [OF inv Some wf] wf Some by (auto simp: wf_item_def)
qed

lemma pile_pushed:
  assumes inv: "il_inv l" and n: "0 < n" "ty \<noteq> -1" "stackable (slots l) ty n" "n < 2147483648"
  shows "\<exists>ss k pe li. TryPile ty 0 (slots l) n None (-1) = Inr (ss, k, pe, li) \<and> 0 \<le> k \<and> k \<le> n \<and>
     il_inv (l\<lparr>slots := ss\<rparr>) \<and> same_bag l (l\<lparr>slots := ss\<rparr>) \<and>
     (\<forall>t. amount_of (l\<lparr>slots := ss\<rparr>) t = amount_of l t + (if t = ty then n - k else 0)) \<and>
     (0 < k \<longrightarrow> pe = FindEmpty (l\<lparr>slots := ss\<rparr>)) \<and>
     (k < n \<longrightarrow> 0 \<le> li \<and> li < int (capacity l)) \<and> (k = n \<longrightarrow> li = -1) \<and>
     (0 < k \<longrightarrow> (\<forall>it \<in> set ss. itype it = ty \<longrightarrow> icount it = pile_limit it)) \<and>
     empties ss = empties (slots l)"
proof -
  have oks: "\<forall>it \<in> set (slots l). slot_ok (il_loc l) it" using inv by (simp add: il_inv_def)
  obtain ss k pe li where r: "TryPile ty 0 (slots l) n None (-1) = Inr (ss, k, pe, li)"
    "piled (il_loc l) ty 0 (slots l) n None (-1) (ss, k, pe, li)"
    using TryPile_ok [OF oks n] by (metis prod_cases4)
  then have am: "amounts_only (il_loc l) (slots l) ss" by (simp add: piled_def)
  have "find_from (\<lambda>it. itype it = -1) i ss' = find_from (\<lambda>it. itype it = -1) i xs"
    if "amounts_only loc xs ss'" for i xs ss' loc
    using that unfolding amounts_only_def
    by (induction arbitrary: i rule: list_all2_induct) (auto dest: same_item_count)
  from this [OF am] have fe: "FindEmpty (l\<lparr>slots := ss\<rparr>) = find_from (\<lambda>it. itype it = -1) 0 (slots l)"
    by (simp add: FindEmpty_def)
  have "length (slots l) = capacity l" using inv by (simp add: il_inv_def)
  then show ?thesis
    using r il_inv_amounts [OF inv am] amounts_only_empties [OF am]
    by (auto simp: piled_def fe same_bag_def amount_of_def)
qed

lemma PushData_ok:
  assumes inv: "il_inv l" and d: "data_ok m d" and st: "stackable (slots l) (d_id d) (d_count d)"
  shows "\<exists>l' d' li b. PushData m l d = Inr (l', d', li, b) \<and> d' = d\<lparr>d_count := d_count d'\<rparr> \<and>
     pushed l l' (d_id d) (d_count d) (d_count d') li b \<and> (\<not> b \<and> d_count d' = d_count d \<longrightarrow> li = -1)"
proof -
  have pre: "0 < d_id d" "0 < d_count d" "d_id d \<noteq> -1" "d_count d < 2147483648" using d by (auto simp: data_ok_def)
  consider (full) "empty_slot_count l = 0" "d_pile_limit d = 1"
    | (stack) "d_pile_limit d > 1" | (single) "d_pile_limit d = 1" "empty_slot_count l \<noteq> 0"
    using d by (auto simp: data_ok_def) linarith
  then show ?thesis
  proof cases
    case full
    then have "pushed l l (d_id d) (d_count d) (d_count d) (-1) False"
      using inv pre IsFull_iff [OF inv] by (auto simp: pushed_def)
    then show ?thesis using full pre by (intro exI [of _ l] exI [of _ d]) (auto simp: PushData_def)
  next
    case single
    obtain it where it: "MakeItem m empty_item d = Inr it" "wf_item it" "itype it = d_id d"
      "icount it = d_count d" using MakeItem_ok [OF d] by blast
    from single(2) obtain i where i: "FindEmpty l = Some i"
      using IsFull_iff [OF inv] FindEmpty_None by fastforce
    show ?thesis
      using put_rest [OF inv it(2), of "-1" "\<lambda>l2. Inr (l2, d\<lparr>d_count := 0\<rparr>, int i, True)"]
        i it single pre
      by (auto simp: PushData_def intro!: exI [of _ "d\<lparr>d_count := 0\<rparr>"])
  next
    case stack
    obtain ss k pe li where p: "TryPile (d_id d) 0 (slots l) (d_count d) None (-1) = Inr (ss, k, pe, li)"
      "0 \<le> k" "k \<le> d_count d" "il_inv (l\<lparr>slots := ss\<rparr>)" "same_bag l (l\<lparr>slots := ss\<rparr>)"
      "\<forall>t. amount_of (l\<lparr>slots := ss\<rparr>) t = amount_of l t + (if t = d_id d then d_count d - k else 0)"
      "0 < k \<longrightarrow> pe = FindEmpty (l\<lparr>slots := ss\<rparr>)"
      "k < d_count d \<longrightarrow> 0 \<le> li \<and> li < int (capacity l)" "k = d_count d \<longrightarrow> li = -1"
      "empties ss = empties (slots l)"
      using pile_pushed [OF inv pre(2,3) st pre(4)] by metis
    let ?l1 = "l\<lparr>slots := ss\<rparr>" and ?d = "d\<lparr>d_count := k\<rparr>"
    show ?thesis
    proof (cases "k = 0")
      case True
      then have "pushed l ?l1 (d_id d) (d_count d) 0 li True"
        using p pre by (auto simp: pushed_def)
      then show ?thesis using True p(1) stack pre
        by (intro exI [of _ ?l1] exI [of _ "d\<lparr>d_count := 0\<rparr>"]) (auto simp: PushData_def)
    next
      case False
      then have k: "0 < k" using p(2) by simp
      have d': "data_ok m ?d" using d k p(3) by (simp add: data_ok_def)
      obtain it where it: "MakeItem m empty_item ?d = Inr it" "wf_item it" "itype it = d_id d"
        "icount it = k" using MakeItem_ok [OF d'] by auto
      show ?thesis
      proof (cases "FindEmpty ?l1")
        case None
        have "pushed l ?l1 (d_id d) (d_count d) k li False"
          using p k None by (auto simp: pushed_def FindEmpty_None)
        then show ?thesis using None p(1,7,9) stack pre k
          by (intro exI [of _ ?l1] exI [of _ ?d]) (auto simp: PushData_def)
      next
        case (Some i)
        obtain l2 where l2: "bindr (AssignSlot ?l1 i it) (\<lambda>l1. bindr (OnPutIn l1 i)
            (\<lambda>l2. Inr (l2, ?d\<lparr>d_count := 0\<rparr>, int i, True))) = Inr (l2, ?d\<lparr>d_count := 0\<rparr>, int i, True)"
          "pushed ?l1 l2 (itype it) (icount it) 0 (int i) True"
          using put_rest [OF p(4) it(2), of "-1"
              "\<lambda>l2. Inr (l2, ?d\<lparr>d_count := 0\<rparr>, int i, True)"] Some by auto
        have "pushed l l2 (d_id d) (d_count d) 0 (int i) True"
          using l2(2) p(3,5,6,10) k it(3,4) by (auto simp: pushed_def same_bag_def)
        moreover have "PushData m l d = Inr (l2, d\<lparr>d_count := 0\<rparr>, int i, True)"
          using Some p(1,7) stack pre k it(1) l2(1) by (simp add: PushData_def)
        ultimately show ?thesis by auto
      qed
    qed
  qed
qed

section \<open>The other operations\<close>

lemma il_inv_used:
  "il_inv l \<Longrightarrow> i < capacity l \<Longrightarrow> itype (slots l ! i) \<noteq> -1 \<Longrightarrow>
     placed (il_loc l) (slots l ! i) \<and> wf_item (slots l ! i)"
  using il_inv_slot slot_ok_used by blast

lemma il_inv_cong_log: "il_inv (l\<lparr>il_log := g\<rparr>) = il_inv l"
  by (simp add: il_inv_def)

lemma DecAmount_ok:
  assumes inv: "il_inv l" and i: "i < capacity l" "itype (slots l ! i) \<noteq> -1" and n: "0 \<le> n"
  shows "\<exists>l'. DecAmount l i n = Inr (l', max 0 (icount (slots l ! i) - n)) \<and> il_inv l' \<and> same_bag l l' \<and>
     slots l' = (slots l)[i := if icount (slots l ! i) \<le> n then empty_item
                              else (slots l ! i)\<lparr>icount := icount (slots l ! i) - n\<rparr>]"
proof (cases "icount (slots l ! i) \<le> n")
  case True
  obtain l2 where "bindr (OnTakeOut l i) (\<lambda>l1. bindr (ReleaseSlot l1 i) (\<lambda>l2. Inr (l2, 0::int))) = Inr (l2, 0)"
    "il_inv l2" "slots l2 = (slots l)[i := empty_item]" "same_bag l l2"
    using take_release_ok [OF inv i, of "\<lambda>l2. Inr (l2, 0)"] by blast
  then show ?thesis using True i il_inv_slot [OF inv i(1)]
    by (auto simp: DecAmount_def with_slot_def max_def)
next
  case False
  let ?n = "icount (slots l ! i) - n"
  have n': "0 < ?n" "?n \<le> pile_limit (slots l ! i)" "?n < 2147483648"
    using False n il_inv_used [OF inv i] by (auto simp: wf_item_def)
  then have "i32 ?n = ?n" by (simp add: i32_id)
  with False n' show ?thesis using i il_inv_slot [OF inv i(1)] il_inv_set_count [OF inv i]
    by (auto simp: DecAmount_def with_slot_def Item_DecAmount_def set_slot_def same_bag_def)
qed

lemma IncAmount_ok:
  assumes inv: "il_inv l" and i: "i < capacity l" "itype (slots l ! i) \<noteq> -1" and n: "0 \<le> n"
  shows "\<exists>l' k. IncAmount l i n = Inr (l', k) \<and> il_inv l' \<and> same_bag l l' \<and> 0 \<le> k \<and> k \<le> n"
proof (cases "icount (slots l ! i) \<ge> pile_limit (slots l ! i)")
  case True
  then show ?thesis using assms il_inv_slot [OF inv i(1)]
    by (auto simp: IncAmount_def with_slot_def)
next
  case False
  let ?k = "if pile_limit (slots l ! i) - icount (slots l ! i) > n then n
            else pile_limit (slots l ! i) - icount (slots l ! i)"
  have "0 < icount (slots l ! i) + ?k" "icount (slots l ! i) + ?k \<le> pile_limit (slots l ! i)"
    using il_inv_used [OF inv i] n False by (auto simp: wf_item_def)
  then have "il_inv (set_slot l i ((slots l ! i)\<lparr>icount := icount (slots l ! i) + ?k\<rparr>))"
    by (rule il_inv_set_count [OF inv i])
  moreover have "i32 (icount (slots l ! i) + ?k) = icount (slots l ! i) + ?k"
      "i32 (pile_limit (slots l ! i) - icount (slots l ! i)) = pile_limit (slots l ! i) - icount (slots l ! i)"
    using il_inv_used [OF inv i] n False by (auto simp: wf_item_def intro!: i32_id)
  moreover from this have "IncAmount l i n = Inr (set_slot l i ((slots l ! i)\<lparr>icount := icount (slots l ! i) + ?k\<rparr>), ?k)"
    using False i il_inv_slot [OF inv i(1)]
    by (auto simp: IncAmount_def with_slot_def Item_IncAmount_def Let_def)
  ultimately show ?thesis using n False by (auto simp: same_bag_def set_slot_def)
qed

lemma TakeOutItem_ok:
  assumes inv: "il_inv l" and n: "0 \<le> n"
  shows "\<exists>l' b. TakeOutItem l i ty n = Inr (l', b) \<and> il_inv l' \<and> same_bag l l' \<and>
     b = (i < capacity l \<and> itype (slots l ! i) \<noteq> -1 \<and> itype (slots l ! i) = ty \<and> icount (slots l ! i) \<ge> n) \<and>
     (\<not> b \<longrightarrow> l' = l) \<and>
     (b \<longrightarrow> slots l' = (slots l)[i := if icount (slots l ! i) = n then empty_item
                              else (slots l ! i)\<lparr>icount := icount (slots l ! i) - n\<rparr>])"
proof (cases "i < capacity l")
  case False
  then show ?thesis using inv
    by (intro exI [of _ l] exI [of _ False]) (simp add: TakeOutItem_def IsItemExistAt_def)
next
  case True
  note slot = il_inv_slot [OF inv True]
  show ?thesis
  proof (cases "itype (slots l ! i) \<noteq> -1 \<and> itype (slots l ! i) = ty \<and> icount (slots l ! i) \<ge> n")
    case False
    then show ?thesis using inv True slot
      by (auto simp: TakeOutItem_def IsItemExistAt_def with_slot_def)
  next
    case ok: True
    then have "IsItemExistAt l i ty n = Inr True"
      using True slot by (auto simp: IsItemExistAt_def with_slot_def)
    then show ?thesis using DecAmount_ok [OF inv True _ n] ok True
      by (auto simp: TakeOutItem_def)
  qed
qed

lemma Remove_ok:
  assumes "il_inv l" "i < capacity l" "itype (slots l ! i) \<noteq> -1"
  shows "\<exists>l'. Remove l i = Inr l' \<and> il_inv l' \<and> same_bag l l' \<and> slots l' = (slots l)[i := empty_item]"
  using take_release_ok [OF assms, of Inr] assms il_inv_slot [OF assms(1,2)]
  by (auto simp: Remove_def with_slot_def bindr_def split: sum.splits)

lemma RemoveItem_ok:
  assumes inv: "il_inv l" and i: "i < capacity l" "itype (slots l ! i) \<noteq> -1"
  shows "\<exists>l' out. RemoveItem l i = Inr (l', out) \<and> il_inv l' \<and> same_bag l l' \<and>
     slots l' = (slots l)[i := empty_item] \<and> same_item out (slots l ! i) \<and> wf_item out \<and> loose out"
proof -
  note slot = il_inv_slot [OF inv i(1)]
  obtain l1 it where l1: "OnTakeOut l i = Inr l1" "slots l1 = (slots l)[i := it]" "loose it"
    "same_item it (slots l ! i)" "il_inv (set_slot l1 i empty_item)" "same_bag l l1"
    using OnTakeOut_ok [OF inv i] by blast
  have wf: "wf_item it" using l1(4) il_inv_used [OF inv i] wf_same_item by blast
  have "it\<lparr>is_active := False, ref := 0\<rparr> = it" using l1(3) by (cases it) (simp add: loose_def)
  then have "item_assign it = Inr it" using wf by (simp add: item_assign_def wf_item_def)
  then have "RemoveItem l i = Inr (set_slot l1 i empty_item, it)"
    using slot i l1(1,2) by (simp add: RemoveItem_def with_slot_def ReleaseSlot_def)
  then show ?thesis using l1 wf by (auto simp: set_slot_def same_bag_def)
qed

lemma SellItem_ok:
  assumes inv: "il_inv l" and n: "0 \<le> n"
  shows "\<exists>l' b. SellItem m l i n = Inr (l', b) \<and> il_inv l' \<and> same_bag l l'"
proof (cases "i < capacity l \<and> itype (slots l ! i) \<noteq> -1 \<and> icount (slots l ! i) \<ge> n \<and> CanSell (slots l ! i)")
  case False
  then show ?thesis using inv il_inv_slot [OF inv, of i]
    by (cases "i < capacity l") (auto simp: SellItem_def with_slot_def)
next
  case True
  then have i: "i < capacity l" "itype (slots l ! i) \<noteq> -1" by auto
  note slot = il_inv_slot [OF inv i(1)]
  let ?it = "slots l ! i"
  let ?v = "i32 (GetTotalPrice m ?it * n)"
  let ?l1 = "if ?v > 0 then l\<lparr>il_log := il_log l @ [GainMoney ?v]\<rparr> else l"
  have l1: "il_inv ?l1" "i < capacity ?l1" "slots ?l1 = slots l" "same_bag l ?l1"
    using inv i by (auto simp: il_inv_cong_log same_bag_def)
  have "i32 (icount ?it - n) = icount ?it - n"
    using True n il_inv_used [OF inv i] by (intro i32_id) (auto simp: wf_item_def)
  then have dec: "Item_DecAmount ?it n = Inr (?it\<lparr>icount := icount ?it - n\<rparr>)"
    using True by (simp add: Item_DecAmount_def)
  show ?thesis
  proof (cases "icount ?it = n")
    case sold: True
    have len: "i < length (slots ?l1)" using slot l1(3) by simp
    obtain l4 where l4: "bindr (OnTakeOut (set_slot ?l1 i (?it\<lparr>icount := 0\<rparr>)) i)
        (\<lambda>l3. bindr (ReleaseSlot l3 i) (\<lambda>l4. Inr (l4, True))) = Inr (l4, True)"
      "il_inv l4" "same_bag ?l1 l4"
      using take_release_ok [OF l1(1,2), of "\<lambda>l4. Inr (l4, True)"] i l1(3)
        take_release_count [OF len, of 0 "\<lambda>l4. Inr (l4, True)"] by auto
    have "SellItem m l i n = Inr (l4, True)"
      using True sold slot dec l4(1) by (simp add: SellItem_def with_slot_def Let_def)
    then show ?thesis using l4 l1(4) same_bag_trans by blast
  next
    case False
    have "0 < icount ?it - n" "icount ?it - n \<le> pile_limit ?it"
      using True False n il_inv_used [OF inv i] by (auto simp: wf_item_def)
    then have "il_inv (set_slot ?l1 i (?it\<lparr>icount := icount ?it - n\<rparr>))"
      using il_inv_set_count [OF l1(1,2)] i l1(3) by simp
    moreover have "SellItem m l i n = Inr (set_slot ?l1 i (?it\<lparr>icount := icount ?it - n\<rparr>), True)"
      using True False slot dec by (simp add: SellItem_def with_slot_def Let_def)
    moreover have "same_bag l (set_slot ?l1 i (?it\<lparr>icount := icount ?it - n\<rparr>))"
      by (simp add: same_bag_def set_slot_def)
    ultimately show ?thesis by blast
  qed
qed

lemma UseItem_ok:
  assumes inv: "il_inv l"
  shows "\<exists>l' r. UseItem m l i = Inr (l', r) \<and> il_inv l' \<and> same_bag l l'"
proof (cases "i < capacity l \<and> itype (slots l ! i) \<noteq> -1")
  case False
  then show ?thesis using inv il_inv_slot [OF inv, of i]
    by (cases "i < capacity l") (auto simp: UseItem_def with_slot_def)
next
  case True
  then obtain l' where "DecAmount l i 1 = Inr (l', max 0 (icount (slots l ! i) - 1))" "il_inv l'" "same_bag l l'"
    using DecAmount_ok [OF inv, of i 1] by auto
  then show ?thesis using True inv il_inv_slot [OF inv, of i]
    by (auto simp: UseItem_def with_slot_def split: item_use.split)
qed

lemma clear_slots_ok:
  "il_inv l \<Longrightarrow> \<forall>i \<in> set is. i < capacity l \<Longrightarrow>
     \<exists>l'. clear_slots is l = Inr l' \<and> il_inv l' \<and> same_bag l l' \<and>
       (\<forall>j. slots l' ! j = (if j \<in> set is \<and> j < length (slots l) then empty_item else slots l ! j))"
proof (induction "is" arbitrary: l)
  case (Cons i "is")
  have i: "i < capacity l" and isb: "\<forall>i \<in> set is. i < capacity l" using Cons.prems by auto
  note slot = il_inv_slot [OF Cons.prems(1) i]
  show ?case
  proof (cases "itype (slots l ! i) = -1")
    case True
    then have e: "slots l ! i = empty_item" using slot slot_ok_nonempty by blast
    obtain l' where "clear_slots is l = Inr l'" "il_inv l'" "same_bag l l'"
      "\<forall>j. slots l' ! j = (if j \<in> set is \<and> j < length (slots l) then empty_item else slots l ! j)"
      using Cons.IH [OF Cons.prems(1) isb] by blast
    then show ?thesis using True e slot by (auto simp: with_slot_def)
  next
    case False
    obtain l2 where l2: "bindr (OnTakeOut l i) (\<lambda>l1. bindr (ReleaseSlot l1 i) (clear_slots is)) = clear_slots is l2"
      "il_inv l2" "slots l2 = (slots l)[i := empty_item]" "same_bag l l2"
      using take_release_ok [OF Cons.prems(1) i False, of "clear_slots is"] by blast
    have isb2: "\<forall>i \<in> set is. i < capacity l2" using isb l2(4) by (simp add: same_bag_def)
    obtain l' where "clear_slots is l2 = Inr l'" "il_inv l'" "same_bag l2 l'"
      "\<forall>j. slots l' ! j = (if j \<in> set is \<and> j < length (slots l2) then empty_item else slots l2 ! j)"
      using Cons.IH [OF l2(2) isb2] by blast
    then show ?thesis using l2 False slot
      by (auto simp: with_slot_def nth_list_update intro: same_bag_trans)
  qed
qed simp

lemma ItemList_Clear_ok:
  assumes inv: "il_inv l"
  shows "\<exists>l'. ItemList_Clear l = Inr l' \<and> il_inv l' \<and> same_bag l l' \<and>
     slots l' = replicate (capacity l) empty_item"
proof -
  obtain l' where l': "clear_slots [0..<capacity l] l = Inr l'" "il_inv l'" "same_bag l l'"
    "\<forall>j. slots l' ! j = (if j \<in> set [0..<capacity l] \<and> j < length (slots l) then empty_item else slots l ! j)"
    using clear_slots_ok [OF inv, of "[0..<capacity l]"] by auto
  have "slots l' = replicate (capacity l) empty_item"
    using l' inv by (intro nth_equalityI) (auto simp: il_inv_def same_bag_def)
  moreover from this have "empty_slot_count l' = int (capacity l')"
    using l'(2,3) by (simp add: il_inv_def empties_def same_bag_def)
  ultimately show ?thesis using l' by (auto simp: ItemList_Clear_def)
qed

section \<open>Ageing\<close>

text \<open>
  One step of the loop of \<open>HeartBeat\<close> leaves the bag as taking out and releasing the slot
  through \<open>OnTakeOut\<close> would: the entry it erases is the one of the slot.
\<close>

lemma heartbeat_step:
  assumes inv: "il_inv l" and ag: "aging_items l = e # es"
  shows "\<exists>l2. il_inv l2 \<and> slots l2 = (slots l)[fst e := empty_item] \<and> same_bag l l2 \<and>
     aging_items l2 = es \<and>
     (snd e \<le> now \<longrightarrow> heartbeat_loop now (e # es) l = heartbeat_loop now es l2)"
proof -
  let ?i = "fst e"
  have e: "?i < length (slots l)" "itype (slots l ! ?i) \<noteq> -1" "expire_date (slots l ! ?i) \<noteq> 0"
    using inv ag by (auto simp: il_inv_def aging_ok_def)
  then have i: "?i < capacity l" using inv by (simp add: il_inv_def)
  obtain it ev where it: "Item_OnTakeOut (il_loc l) ?i (slots l ! ?i) = Inr (it, ev)"
    "same_item it (slots l ! ?i)"
    using Item_OnTakeOut_placed il_inv_used [OF inv i e(2)] by blast
  let ?l2 = "(set_slot l ?i (Item_Clear it))\<lparr>empty_slot_count := u64 (empty_slot_count l + 1),
               aging_items := es, il_log := il_log l @ ev\<rparr>"
  have "bindr (OnTakeOut l ?i) (\<lambda>l1. bindr (ReleaseSlot l1 ?i) Inr) = Inr ?l2"
    using e it ag by (simp add: OnTakeOut_def ReleaseSlot_def with_slot_def set_slot_def Let_def same_item_def)
  then have "il_inv ?l2 \<and> slots ?l2 = (slots l)[?i := empty_item] \<and> same_bag l ?l2"
    using take_release_ok [OF inv i e(2), of Inr] by auto
  moreover have "snd e \<le> now \<longrightarrow> heartbeat_loop now (e # es) l = heartbeat_loop now es ?l2"
    using e it by (simp add: with_slot_def)
  ultimately show ?thesis by (intro exI [of _ ?l2]) simp
qed

lemma HeartBeat_ok:
  assumes "il_inv l"
  shows "\<exists>l'. HeartBeat l now = Inr l' \<and> il_inv l' \<and> same_bag l l' \<and>
     aging_items l' = filter (\<lambda>e. now < snd e) (aging_items l) \<and>
     (\<forall>i. slots l' ! i = (if \<exists>t. (i, t) \<in> set (aging_items l) \<and> t \<le> now then empty_item else slots l ! i))"
proof -
  have "\<exists>l'. heartbeat_loop now es l = Inr l' \<and> il_inv l' \<and> same_bag l l' \<and>
     aging_items l' = filter (\<lambda>e. now < snd e) es \<and>
     (\<forall>i. slots l' ! i = (if \<exists>t. (i, t) \<in> set es \<and> t \<le> now then empty_item else slots l ! i))"
    if "aging_items l = es" "il_inv l" for es l
    using that
  proof (induction es arbitrary: l)
    case (Cons e es)
    have srt: "\<forall>e' \<in> set es. snd e < snd e'"
      using Cons.prems by (auto simp: il_inv_def aging_ok_def sset_inv_Cons)
    show ?case
    proof (cases "snd e > now")
      case True
      then have "filter (\<lambda>e. now < snd e) (e # es) = e # es" using srt by (auto simp: filter_id_conv)
      moreover have "(if \<exists>t. (i, t) \<in> set (e # es) \<and> t \<le> now then empty_item else slots l ! i) = slots l ! i" for i
        using srt True by fastforce
      moreover have "heartbeat_loop now (e # es) l = Inr l" using True by simp
      ultimately show ?thesis using Cons.prems by (metis same_bag_refl)
    next
      case False
      obtain l2 where l2: "il_inv l2" "slots l2 = (slots l)[fst e := empty_item]" "same_bag l l2"
        "aging_items l2 = es" "heartbeat_loop now (e # es) l = heartbeat_loop now es l2"
        using heartbeat_step [OF Cons.prems(2,1), of now] False by auto
      have len: "fst e < length (slots l)" using Cons.prems by (auto simp: il_inv_def aging_ok_def)
      obtain l' where l': "heartbeat_loop now es l2 = Inr l'" "il_inv l'" "same_bag l2 l'"
        "aging_items l' = filter (\<lambda>e. now < snd e) es"
        "\<forall>i. slots l' ! i = (if \<exists>t. (i, t) \<in> set es \<and> t \<le> now then empty_item else slots l2 ! i)"
        using Cons.IH [OF l2(4,1)] by blast
      have "slots l' ! i = (if \<exists>t. (i, t) \<in> set (e # es) \<and> t \<le> now then empty_item else slots l ! i)" for i
      proof (cases "i = fst e")
        case True
        then have "(i, snd e) \<in> set (e # es) \<and> snd e \<le> now" using False by simp
        moreover have "slots l' ! i = empty_item" using True l'(5) l2(2) len by simp
        ultimately show ?thesis by metis
      next
        case i: False
        then have "(\<exists>t. (i, t) \<in> set (e # es) \<and> t \<le> now) = (\<exists>t. (i, t) \<in> set es \<and> t \<le> now)" by auto
        moreover have "slots l2 ! i = slots l ! i" using i l2(2) by simp
        ultimately show ?thesis using l'(5) by presburger
      qed
      moreover have "filter (\<lambda>e. now < snd e) (e # es) = filter (\<lambda>e. now < snd e) es" using False by simp
      moreover have "heartbeat_loop now (e # es) l = Inr l'" using l2(5) l'(1) by simp
      ultimately show ?thesis using l' same_bag_trans [OF l2(3) l'(3)] by metis
    qed
  qed simp
  then show ?thesis using assms by (simp add: HeartBeat_def)
qed

section \<open>Putting at an index, moving\<close>

lemma PushAt_ok:
  assumes inv: "il_inv l" and i: "i < capacity l" and wf: "wf_item it"
    and lim: "itype (slots l ! i) = itype it \<Longrightarrow> pile_limit it = pile_limit (slots l ! i) \<and> icount (slots l ! i) + icount it < 2147483648"
  shows "\<exists>l' it' b. PushAt l i it = Inr (l', it', b) \<and> il_inv l' \<and> same_bag l l' \<and>
     (if b then it' = empty_item \<and> (\<forall>t. amount_of l' t = amount_of l t + (if t = itype it then icount it else 0))
      else l' = l \<and> it' = it)"
proof -
  note slot = il_inv_slot [OF inv i]
  have ty: "itype it \<noteq> -1" "0 < icount it" using wf by (auto simp: wf_item_def)
  have sum: "i32 (icount (slots l ! i) + icount it) = icount (slots l ! i) + icount it" if "itype (slots l ! i) = itype it"
  proof -
    have "0 < icount (slots l ! i)" using il_inv_used [OF inv i] that ty by (simp add: wf_item_def)
    then show ?thesis using lim [OF that] ty by (intro i32_id) auto
  qed
  consider (free) "itype (slots l ! i) = -1"
    | (stack) "itype (slots l ! i) \<noteq> -1" "itype (slots l ! i) = itype it"
        "pile_limit (slots l ! i) \<ge> icount (slots l ! i) + icount it"
    | (no) "itype (slots l ! i) \<noteq> -1" "\<not> (itype (slots l ! i) = itype it \<and>
        pile_limit (slots l ! i) \<ge> icount (slots l ! i) + icount it)" by blast
  then show ?thesis
  proof cases
    case free
    obtain l2 it' where l2: "bindr (AssignSlot l i it) (\<lambda>l1. bindr (OnPutIn l1 i)
        (\<lambda>l2. Inr (l2, empty_item, True))) = Inr (l2, empty_item, True)"
      "il_inv l2" "slots l2 = (slots l)[i := it']" "same_item it' it" "same_bag l l2"
      using assign_put_ok [OF inv i free wf, of "\<lambda>l2. Inr (l2, empty_item, True)"] by blast
    then show ?thesis using free slot ty count_put [OF inv i free l2(3,4) ty(1)]
      by (auto simp: PushAt_def with_slot_def)
  next
    case stack
    let ?it = "(slots l ! i)\<lparr>icount := icount (slots l ! i) + icount it\<rparr>"
    have "il_inv (set_slot l i ?it)"
      using stack ty il_inv_used [OF inv i stack(1)] by (intro il_inv_set_count [OF inv i]) (auto simp: wf_item_def)
    moreover have "amount_of (set_slot l i ?it) t = amount_of l t + (if t = itype it then icount it else 0)" for t
      using amount_of_update [OF slot(1), of "set_slot l i ?it" ?it t] stack
      by (simp add: set_slot_def of_type_def)
    moreover have "PushAt l i it = Inr (set_slot l i ?it, empty_item, True)"
      using stack ty slot lim sum by (simp add: PushAt_def with_slot_def Item_IncAmount_def)
    moreover have "same_bag l (set_slot l i ?it)" by (simp add: same_bag_def set_slot_def)
    ultimately show ?thesis by auto
  next
    case no
    then show ?thesis using inv ty slot sum
      by (intro exI [of _ l] exI [of _ it] exI [of _ False]) (auto simp: PushAt_def with_slot_def)
  qed
qed

lemma PushInEmpty_ok:
  assumes inv: "il_inv l" and wf: "wf_item it"
  shows "\<exists>l' r. PushInEmpty l start it = Inr (l', r) \<and> il_inv l' \<and> same_bag l l' \<and>
     (if r < 0 then l' = l else (\<exists>it'. int (nat (u64 start)) \<le> r \<and> nat r < capacity l \<and>
        itype (slots l ! nat r) = -1 \<and> slots l' = (slots l)[nat r := it'] \<and> same_item it' it \<and>
        find_from (\<lambda>it. itype it = -1) (nat (u64 start)) (drop (nat (u64 start)) (slots l)) = Some (nat r)))"
proof (cases "find_from (\<lambda>it. itype it = -1) (nat (u64 start)) (drop (nat (u64 start)) (slots l))")
  case None
  then show ?thesis using inv wf
    by (intro exI [of _ l] exI [of _ "-1"]) (auto simp: PushInEmpty_def wf_item_def)
next
  case (Some i)
  have i: "i < capacity l" "itype (slots l ! i) = -1" "nat (u64 start) \<le> i"
    using find_from_Some [OF Some] inv by (auto simp: il_inv_def)
  obtain l2 it' where "bindr (AssignSlot l i it) (\<lambda>l1. bindr (OnPutIn l1 i)
      (\<lambda>l2. Inr (l2, int i))) = Inr (l2, int i)"
    "il_inv l2" "slots l2 = (slots l)[i := it']" "same_item it' it" "same_bag l l2"
    using assign_put_ok [OF inv i(1,2) wf, of "\<lambda>l2. Inr (l2, int i)"] by blast
  then show ?thesis using Some i wf
    by (intro exI [of _ l2] exI [of _ "int i"]) (auto simp: PushInEmpty_def wf_item_def)
qed

section \<open>Saving and loading\<close>

definition db_of :: "nat \<Rightarrow> item \<Rightarrow> db_item" where
  "db_of i it = \<lparr>db_type = itype it, db_index = i16 (int i), db_count = icount it,
     db_pile_limit = pile_limit it, db_proc_type = proc_type it, db_expire_date = expire_date it\<rparr>"

fun saved :: "nat \<Rightarrow> item list \<Rightarrow> db_item list" where
  "saved i [] = []"
| "saved i (it # its) = (if itype it = -1 then saved (Suc i) its else db_of i it # saved (Suc i) its)"

lemma length_saved: "int (length (saved i its)) = int (length its) - empties its"
  by (induction its arbitrary: i) (auto simp: empties_def)

lemma save_slots_saved:
  assumes "\<forall>it \<in> set its. slot_ok loc it"
  shows "save_slots i its (length out) (out @ replicate (length (saved i its)) d) = Inr (out @ saved i its)"
  using assms
proof (induction its arbitrary: i out)
  case (Cons it its)
  show ?case
  proof (cases "itype it = -1")
    case True
    then show ?thesis using Cons by simp
  next
    case False
    then have wf: "wf_item it" using Cons.prems slot_ok_used by auto
    then have s: "Item_SaveForDB it i = Inr (db_of i it)"
      by (simp add: Item_SaveForDB_def db_of_def wf_item_def)
    have "(out @ d # replicate (length (saved (Suc i) its)) d)[length out := db_of i it]
        = (out @ [db_of i it]) @ replicate (length (saved (Suc i) its)) d" by simp
    moreover have "save_slots (Suc i) its (length (out @ [db_of i it]))
        ((out @ [db_of i it]) @ replicate (length (saved (Suc i) its)) d) = Inr ((out @ [db_of i it]) @ saved (Suc i) its)"
      using Cons by (intro Cons.IH) auto
    ultimately show ?thesis using False s by simp
  qed
qed simp

lemma SaveForDB_saved:
  assumes "il_inv l"
  shows "SaveForDB l = Inr (saved 0 (slots l), int (capacity l))"
proof -
  have "u64 (int (capacity l) - empty_slot_count l) = int (length (saved 0 (slots l)))"
    using assms length_saved [of 0 "slots l"] empties_range [of "slots l"]
    by (simp add: il_inv_def u64_id)
  moreover have "save_slots 0 (slots l) 0 (replicate (length (saved 0 (slots l))) db_default) = Inr (saved 0 (slots l))"
    using save_slots_saved [of "slots l" "il_loc l" 0 "[]"] assms by (simp add: il_inv_def)
  ultimately show ?thesis using assms by (simp add: SaveForDB_def il_inv_def i32_id)
qed

text \<open>The item agrees with its template and is not past its expiry.\<close>

definition tmpl_match :: "item_man \<Rightarrow> item \<Rightarrow> bool" where
  "tmpl_match m it \<longleftrightarrow> pile_limit it = GetItemPileLimit m (itype it) \<and>
     item_cls it = GetItemCls m (itype it) \<and> pBody it = GetItemBody m (itype it)"

definition unexpired :: "int \<Rightarrow> item \<Rightarrow> bool" where
  "unexpired now it \<longleftrightarrow> expire_date it = 0 \<or> now < expire_date it"

text \<open>The same item with the same flags: bound, not to be traded, disabled and the others.\<close>

definition same_stored :: "item \<Rightarrow> item \<Rightarrow> bool" where
  "same_stored a b \<longleftrightarrow> same_item a b \<and> proc_type a = proc_type b"

lemma OnPutIn_proc:
  assumes "OnPutIn l i = Inr l1" "i < length (slots l)"
  shows "proc_type (slots l1 ! i) = proc_type (slots l ! i)"
proof -
  have "proc_type it' = proc_type it" if "Item_OnPutIn loc i it = Inr (it', ev)" for loc it it' ev
    using that by (auto simp: Item_OnPutIn_def body_OnPutIn_def body_Activate_def Let_def assertx_Inr_iff split: option.splits if_splits)
  then show ?thesis using assms by (fastforce simp: OnPutIn_def with_slot_def bindr_Inr_iff assertx_Inr_iff set_slot_def Let_def split: if_splits)
qed

lemma Item_LoadFromDB_saved:
  assumes "wf_item it" "tmpl_match m it"
  shows "\<exists>it'. Item_LoadFromDB m empty_item (db_of i it) = Inr it' \<and> loose it' \<and> wf_item it' \<and> same_stored it' it"
  using assms
  by (auto simp: Item_LoadFromDB_def db_of_def wf_item_def tmpl_match_def LocateSelf_def loose_def same_item_def same_stored_def)

lemma load_items_saved:
  assumes "il_inv l" "i + length its \<le> capacity l" "capacity l \<le> 32768" "\<forall>it \<in> set its. slot_ok loc it"
    "\<forall>it \<in> set its. itype it \<noteq> -1 \<longrightarrow> tmpl_match m it \<and> unexpired now it"
    "\<forall>j < length its. slots l ! (i + j) = empty_item"
  shows "\<exists>l'. load_items m now (saved i its) l = Inr l' \<and> il_inv l' \<and> same_bag l l' \<and>
     (\<forall>j < length its. same_stored (slots l' ! (i + j)) (its ! j)) \<and>
     (\<forall>j. j < i \<or> i + length its \<le> j \<longrightarrow> slots l' ! j = slots l ! j)"
  using assms
proof (induction its arbitrary: i l)
  case (Cons it its)
  have i: "i < capacity l" "slots l ! i = empty_item" using Cons.prems(2) Cons.prems(6) [rule_format, of 0] by auto
  have prems': "\<forall>it \<in> set its. slot_ok loc it"
    "\<forall>it \<in> set its. itype it \<noteq> -1 \<longrightarrow> tmpl_match m it \<and> unexpired now it" using Cons.prems(4,5) by auto
  have free: "\<forall>j < length its. slots l ! (Suc i + j) = empty_item"
    using Cons.prems(6) by (metis Suc_less_eq add_Suc_shift length_Cons)
  obtain l1 where l1: "load_items m now (saved i (it # its)) l = load_items m now (saved (Suc i) its) l1"
    "il_inv l1" "same_bag l l1" "same_stored (slots l1 ! i) it" "\<forall>j. j \<noteq> i \<longrightarrow> slots l1 ! j = slots l ! j"
  proof (cases "itype it = -1")
    case True
    then have "it = empty_item" using Cons.prems(4) slot_ok_nonempty by auto
    then show ?thesis using True that Cons.prems(1) i by (auto simp: same_stored_def)
  next
    case False
    then have wf: "wf_item it" and tm: "tmpl_match m it" "unexpired now it"
      using Cons.prems(4,5) slot_ok_used by auto
    obtain it1 where it1: "Item_LoadFromDB m empty_item (db_of i it) = Inr it1" "loose it1" "wf_item it1"
      "same_stored it1 it" using Item_LoadFromDB_saved [OF wf tm(1)] by blast
    obtain l1 it' where l1: "OnPutIn (set_slot l i it1) i = Inr l1" "slots l1 = (slots l)[i := it']"
      "same_item it' it1" "il_inv l1" "same_bag l l1"
      using OnPutIn_ok [OF Cons.prems(1) i(1) _ it1(2,3)] i(2) by auto
    have idx: "nat (u64 (db_index (db_of i it))) = i"
      using i(1) Cons.prems(3) by (simp add: db_of_def u64_id i16_id)
    have len: "i < length (slots l)" using i(1) Cons.prems(1) by (simp add: il_inv_def)
    have "load_items m now (saved i (it # its)) l = load_items m now (saved (Suc i) its) l1"
      using False idx len i(2) it1(1) l1(1) tm(2)
      by (auto simp: with_slot_def unexpired_def Let_def db_of_def)
    moreover have "same_stored it' it1" using l1(3) OnPutIn_proc [OF l1(1)] l1(2) len by (simp add: same_stored_def set_slot_def)
    ultimately show ?thesis using that l1 it1(4) len by (auto simp: same_stored_def same_item_def)
  qed
  have cap: "capacity l1 = capacity l" using l1(3) by (simp add: same_bag_def)
  have free1: "\<forall>j < length its. slots l1 ! (Suc i + j) = empty_item" using free l1(5) by simp
  have fits: "Suc i + length its \<le> capacity l1" using Cons.prems(2) cap by simp
  obtain l' where l': "load_items m now (saved (Suc i) its) l1 = Inr l'" "il_inv l'" "same_bag l1 l'"
    "\<forall>j < length its. same_stored (slots l' ! (Suc i + j)) (its ! j)"
    "\<forall>j. j < Suc i \<or> Suc i + length its \<le> j \<longrightarrow> slots l' ! j = slots l1 ! j"
    using Cons.IH [OF l1(2) fits _ prems' free1] cap Cons.prems(3) by auto
  have "slots l' ! i = slots l1 ! i" using l'(5) by simp
  then have "\<forall>j < length (it # its). same_stored (slots l' ! (i + j)) ((it # its) ! j)"
    using l'(4) l1(4) by (auto simp: less_Suc_eq_0_disj)
  moreover have "\<forall>j. j < i \<or> i + length (it # its) \<le> j \<longrightarrow> slots l' ! j = slots l ! j"
    using l'(5) l1(5) by auto
  moreover have "load_items m now (saved i (it # its)) l = Inr l'" using l1(1) l'(1) by (rule trans)
  moreover have "same_bag l l'" using l1(3) l'(3) by (rule same_bag_trans)
  ultimately show ?case using l'(2) by blast
qed simp

end
