(* ===== verification/ItemListProps.thy ===== *)
theory ItemListProps
  imports ItemListCorrect
begin

text \<open>
  The properties of the item bag: its operations as a system with the invariant \<open>il_inv\<close>, the
  conservation of items, ageing, the database round trip, and the operations that leave the
  bag in a state where taking the item out aborts.
\<close>

section \<open>The bag as a system of operations\<close>

datatype bag_op =
  BPush itemdata
| BPushAt nat item
| BPushInEmpty int item
| BRemove nat
| BDec nat int
| BInc nat int
| BTakeOut nat int int
| BSell nat int
| BClear
| BHeartBeat int

fun bag_step :: "item_man \<Rightarrow> item_list \<Rightarrow> bag_op \<Rightarrow> item_list res" where
  "bag_step m l (BPush d) = bindr (PushData m l d) (\<lambda>(l', _). Inr l')"
| "bag_step m l (BPushAt i it) = bindr (PushAt l i it) (\<lambda>(l', _). Inr l')"
| "bag_step m l (BPushInEmpty s it) = bindr (PushInEmpty l s it) (\<lambda>(l', _). Inr l')"
| "bag_step m l (BRemove i) = Remove l i"
| "bag_step m l (BDec i n) = bindr (DecAmount l i n) (\<lambda>(l', _). Inr l')"
| "bag_step m l (BInc i n) = bindr (IncAmount l i n) (\<lambda>(l', _). Inr l')"
| "bag_step m l (BTakeOut i ty n) = bindr (TakeOutItem l i ty n) (\<lambda>(l', _). Inr l')"
| "bag_step m l (BSell i n) = bindr (SellItem m l i n) (\<lambda>(l', _). Inr l')"
| "bag_step m l BClear = ItemList_Clear l"
| "bag_step m l (BHeartBeat now) = HeartBeat l now"

definition in_use :: "item_list \<Rightarrow> nat \<Rightarrow> bool" where
  "in_use l i \<longleftrightarrow> i < capacity l \<and> itype (slots l ! i) \<noteq> -1"

fun bag_pre :: "item_man \<Rightarrow> item_list \<Rightarrow> bag_op \<Rightarrow> bool" where
  "bag_pre m l (BPush d) = (data_ok m d \<and> stackable (slots l) (d_id d) (d_count d))"
| "bag_pre m l (BPushAt i it) = (i < capacity l \<and> wf_item it \<and>
     (itype (slots l ! i) = itype it \<longrightarrow> pile_limit it = pile_limit (slots l ! i) \<and> icount (slots l ! i) + icount it < 2147483648))"
| "bag_pre m l (BPushInEmpty s it) = wf_item it"
| "bag_pre m l (BRemove i) = in_use l i"
| "bag_pre m l (BDec i n) = (in_use l i \<and> 0 \<le> n)"
| "bag_pre m l (BInc i n) = (in_use l i \<and> 0 \<le> n)"
| "bag_pre m l (BTakeOut i ty n) = (0 \<le> n)"
| "bag_pre m l (BSell i n) = (0 \<le> n)"
| "bag_pre m l _ = True"

lemma bag_step_inv:
  assumes inv: "il_inv l" and pre: "bag_pre m l op"
  shows "\<exists>l'. bag_step m l op = Inr l' \<and> il_inv l'"
proof (cases op)
  case (BPush d)
  then show ?thesis using PushData_ok [OF inv, of m d] pre by (auto simp: pushed_def)
next
  case (BPushAt i it)
  then show ?thesis using PushAt_ok [OF inv, of i it] pre by auto
next
  case (BPushInEmpty s it)
  then show ?thesis using PushInEmpty_ok [OF inv, of it s] pre by auto
next
  case (BRemove i)
  then show ?thesis using Remove_ok [OF inv, of i] pre by (auto simp: in_use_def)
next
  case (BDec i n)
  then show ?thesis using DecAmount_ok [OF inv, of i n] pre by (auto simp: in_use_def)
next
  case (BInc i n)
  then show ?thesis using IncAmount_ok [OF inv, of i n] pre by (auto simp: in_use_def)
next
  case (BTakeOut i ty n)
  then obtain l' b where "TakeOutItem l i ty n = Inr (l', b)" "il_inv l'"
    using TakeOutItem_ok [OF inv, of n i ty] pre by auto
  with BTakeOut show ?thesis by simp
next
  case (BSell i n)
  then show ?thesis using SellItem_ok [OF inv, of n m i] pre by auto
next
  case BClear
  then show ?thesis using ItemList_Clear_ok [OF inv] by auto
next
  case (BHeartBeat now)
  then show ?thesis using HeartBeat_ok [OF inv, of now] by auto
qed

interpretation bag: invariant_system "bag_step m" "bag_pre m" il_inv for m
  by unfold_locales (rule bag_step_inv)

section \<open>Properties\<close>

abbreviation potion :: itemdata where
  "potion \<equiv> \<lparr>d_id = 7, d_index = 0, d_count = 3, d_pile_limit = 5, d_proc_type = 0,
     d_recycle_price = 2, d_expire_date = 0, d_item_cls = 1\<rparr>"

abbreviation shop :: item_man where
  "shop \<equiv> \<lparr>item_map = (\<lambda>i. if i = 7 then Some potion else None), body_map = (\<lambda>_. None)\<rparr>"

abbreviation flask :: "int \<Rightarrow> item" where
  "flask n \<equiv> \<lparr>itype = 7, icount = n, pile_limit = 5, proc_type = 0, expire_date = 0,
     price = 2, equip_mask = 0, item_cls = 1, pBody = None, is_active = False, ref = 1\<rparr>"

abbreviation bag2 :: "item \<Rightarrow> item \<Rightarrow> item_list" where
  "bag2 a b \<equiv> \<lparr>il_loc = INVENTORY, slots = [a, b], capacity = 2,
     empty_slot_count = empties [a, b], aging_items = [], il_log = []\<rparr>"

lemma bag2_inv: "slot_ok INVENTORY a \<Longrightarrow> slot_ok INVENTORY b \<Longrightarrow> il_inv (bag2 a b)"
  by (simp add: il_inv_def aging_ok_def)

lemma flask_ok: "0 < n \<Longrightarrow> n \<le> 5 \<Longrightarrow> slot_ok INVENTORY (flask n)"
  by (simp add: slot_ok_def placed_def wf_item_def activating_def)

lemma empty_ok: "slot_ok loc empty_item"
  by (simp add: slot_ok_def)



text \<open>
  C20: \<open>Push\<close> of item data loses and invents nothing: what the bag holds of the type grows by
  exactly what the data's count shrinks, no other type changes, the result is true exactly if
  nothing is left, and when something is left the bag has no empty slot; for sound data whose count
  cannot take a stack of the type in the bag beyond 32 bits.
\<close>

theorem Push_conserves:
  assumes "il_inv l" "data_ok m d" "stackable (slots l) (d_id d) (d_count d)"
  shows "\<exists>l' d' li b. PushData m l d = Inr (l', d', li, b) \<and>
     amount_of l' (d_id d) + d_count d' = amount_of l (d_id d) + d_count d \<and>
     0 \<le> d_count d' \<and> (b \<longleftrightarrow> d_count d' = 0) \<and>
     (\<forall>t. t \<noteq> d_id d \<longrightarrow> amount_of l' t = amount_of l t) \<and>
     (\<not> b \<longrightarrow> empty_slot_count l' = 0)"
proof -
  obtain l' d' li b where p: "PushData m l d = Inr (l', d', li, b)"
    "pushed l l' (d_id d) (d_count d) (d_count d') li b"
    using PushData_ok [OF assms] by blast
  then have "\<not> b \<longrightarrow> empty_slot_count l' = 0" using IsFull_iff [of l'] by (simp add: pushed_def)
  with p show ?thesis by (auto simp: pushed_def)
qed

theorem Push_conserves_witness:
  "\<exists>l' d' li b. PushData shop (bag2 (flask 4) empty_item) potion = Inr (l', d', li, b) \<and>
     amount_of l' 7 + d_count d' = 7"
proof -
  have inv: "il_inv (bag2 (flask 4) empty_item)" by (intro bag2_inv flask_ok empty_ok) auto
  have "data_ok shop potion" by (simp add: data_ok_def GetItemPileLimit_def)
  moreover have "stackable (slots (bag2 (flask 4) empty_item)) (d_id potion) (d_count potion)" by (simp add: stackable_def empty_item_def)
  ultimately obtain l' d' li b where "PushData shop (bag2 (flask 4) empty_item) potion = Inr (l', d', li, b)"
      "amount_of l' (d_id potion) + d_count d' = amount_of (bag2 (flask 4) empty_item) (d_id potion) + d_count potion"
    using Push_conserves [OF inv] by metis
  then show ?thesis by (simp add: amount_of_def [of "bag2 (flask 4) empty_item"] of_type_def)
qed

text \<open>
  After moving a whole stack onto an empty slot, every attempt to take the item out of its
  new slot trips the assertion on the test counter: the branch neither takes the item out of
  the old slot nor puts it in at the new one.
\<close>

theorem MoveItem_whole_then_stuck:
  assumes inv: "il_inv l" and s: "in_use l src" and d: "dest < capacity l" "itype (slots l ! dest) = -1"
  shows "\<exists>l'. MoveItem l dest src (icount (slots l ! src)) = Inr (l', True) \<and>
     amount_of l' (itype (slots l ! src)) = amount_of l (itype (slots l ! src)) \<and>
     Remove l' dest = Inl AssertFail \<and>
     DecAmount l' dest (icount (slots l ! src)) = Inl AssertFail"
proof -
  let ?it = "slots l ! src"
  have i: "src < capacity l" "itype ?it \<noteq> -1" using s by (auto simp: in_use_def)
  have ne: "src \<noteq> dest" using i(2) d(2) by auto
  note slot = il_inv_slot [OF inv i(1)] il_inv_slot [OF inv d(1)]
  have wf: "0 < icount ?it" using il_inv_used [OF inv i] by (simp add: wf_item_def)
  have e: "slots l ! dest = empty_item" using slot(4) d(2) slot_ok_nonempty by blast
  let ?new = "?it\<lparr>is_active := False, ref := 0\<rparr>"
  have new: "?new\<lparr>icount := icount ?it\<rparr> = ?new" by (cases ?it) simp
  let ?l' = "l\<lparr>slots := (slots l)[dest := ?new, src := empty_item]\<rparr>"
  have "MoveItem l dest src (icount ?it) = Inr (?l', True)"
    using ne slot i d wf new i32_id [of 0]
    by (simp add: MoveItem_def item_assign_def SetAmount_def Item_DecAmount_def ReleaseSlot_def
        with_slot_def set_slot_def Let_def)
  moreover have "OnTakeOut ?l' dest = Inl AssertFail"
    using ne slot by (simp add: OnTakeOut_def with_slot_def Item_OnTakeOut_def)
  then have "Remove ?l' dest = Inl AssertFail" "DecAmount ?l' dest (icount ?it) = Inl AssertFail"
    using ne slot i d by (auto simp: Remove_def DecAmount_def with_slot_def)
  moreover have "amount_of ?l' (itype ?it) = amount_of l (itype ?it)"
    using ne slot e i by (simp add: amount_of_def sum_list_update) (simp add: of_type_def)
  ultimately show ?thesis by blast
qed

theorem MoveItem_whole_then_stuck_witness:
  "\<exists>l'. MoveItem (bag2 (flask 4) empty_item) 1 0 4 = Inr (l', True) \<and> Remove l' 1 = Inl AssertFail"
proof -
  have inv: "il_inv (bag2 (flask 4) empty_item)" by (intro bag2_inv flask_ok empty_ok) auto
  show ?thesis using MoveItem_whole_then_stuck [OF inv, of 0 1] by (auto simp: in_use_def)
qed

text \<open>
  \<open>ExchangeItem\<close> with one empty slot aborts, and with two used slots it succeeds but leaves
  both items outside the bag's books: removing either one afterwards aborts.
\<close>

theorem ExchangeItem_breaks:
  assumes inv: "il_inv l" and i: "in_use l i" and j: "j < capacity l" "i \<noteq> j"
  shows "if itype (slots l ! j) = -1 then ExchangeItem l i j = Inl AssertFail
         else \<exists>l'. ExchangeItem l i j = Inr (l', True) \<and>
                Remove l' i = Inl AssertFail \<and> Remove l' j = Inl AssertFail"
proof (cases "itype (slots l ! j) = -1")
  case True
  have i': "i < capacity l" using i by (simp add: in_use_def)
  have "slots l ! j = empty_item" using il_inv_slot [OF inv j(1)] True slot_ok_nonempty by blast
  then have "ExchangeItem l i j = Inl AssertFail"
    using il_inv_slot [OF inv i'] il_inv_slot [OF inv j(1)] j
    by (simp add: ExchangeItem_def AssignSlot_def with_slot_def item_assign_def)
  with True show ?thesis by simp
next
  case False
  have i': "i < capacity l" "itype (slots l ! i) \<noteq> -1" using i by (auto simp: in_use_def)
  note slot = il_inv_slot [OF inv i'(1)] il_inv_slot [OF inv j(1)]
  have "0 < icount (slots l ! i)" "0 < icount (slots l ! j)"
    using il_inv_used [OF inv i'] il_inv_used [OF inv j(1) False] by (auto simp: wf_item_def)
  then have ex: "ExchangeItem l i j = Inr (l\<lparr>slots := (slots l)[i := (slots l ! j)\<lparr>is_active := False, ref := 0\<rparr>,
      j := (slots l ! i)\<lparr>is_active := False, ref := 0\<rparr>]\<rparr>, True)" (is "_ = Inr (?l', True)")
    using slot j(2) by (simp add: ExchangeItem_def AssignSlot_def with_slot_def item_assign_def set_slot_def)
  have "Remove ?l' i = Inl AssertFail" "Remove ?l' j = Inl AssertFail"
    using slot i' j False
    by (auto simp: Remove_def OnTakeOut_def with_slot_def Item_OnTakeOut_def nth_list_update)
  with ex False show ?thesis by simp
qed

theorem ExchangeItem_breaks_witness:
  "ExchangeItem (bag2 (flask 4) empty_item) 0 1 = Inl AssertFail"
proof -
  have inv: "il_inv (bag2 (flask 4) empty_item)" by (intro bag2_inv flask_ok empty_ok) auto
  show ?thesis using ExchangeItem_breaks [OF inv, of 0 1] by (simp add: in_use_def)
qed

text \<open>
  If every item that expires is entered in the set of ageing items, \<open>HeartBeat\<close> empties
  exactly the slots whose item's expiry has come and leaves all other slots as they are.
\<close>

theorem HeartBeat_exact:
  assumes inv: "il_inv l"
    and reg: "\<And>i. in_use l i \<Longrightarrow> expire_date (slots l ! i) \<noteq> 0 \<Longrightarrow>
                (i, expire_date (slots l ! i)) \<in> set (aging_items l)"
  shows "\<exists>l'. HeartBeat l now = Inr l' \<and> il_inv l' \<and>
     (\<forall>i < capacity l. slots l' ! i =
        (if in_use l i \<and> expire_date (slots l ! i) \<noteq> 0 \<and> expire_date (slots l ! i) \<le> now
         then empty_item else slots l ! i))"
proof -
  obtain l' where l': "HeartBeat l now = Inr l'" "il_inv l'"
    "\<forall>i. slots l' ! i = (if \<exists>t. (i, t) \<in> set (aging_items l) \<and> t \<le> now then empty_item else slots l ! i)"
    using HeartBeat_ok [OF inv] by blast
  have "(\<exists>t. (i, t) \<in> set (aging_items l) \<and> t \<le> now) =
      (in_use l i \<and> expire_date (slots l ! i) \<noteq> 0 \<and> expire_date (slots l ! i) \<le> now)" for i
  proof
    assume "\<exists>t. (i, t) \<in> set (aging_items l) \<and> t \<le> now"
    then show "in_use l i \<and> expire_date (slots l ! i) \<noteq> 0 \<and> expire_date (slots l ! i) \<le> now"
      using inv by (fastforce simp: il_inv_def aging_ok_def in_use_def)
  qed (use reg in blast)
  with l' show ?thesis by simp
qed

abbreviation scroll :: "int \<Rightarrow> item" where
  "scroll t \<equiv> \<lparr>itype = 8, icount = 1, pile_limit = 1, proc_type = 0, expire_date = t,
     price = 2, equip_mask = 0, item_cls = 1, pBody = None, is_active = False, ref = 1\<rparr>"

abbreviation aged_bag :: item_list where
  "aged_bag \<equiv> \<lparr>il_loc = INVENTORY, slots = [scroll 50, empty_item], capacity = 2,
     empty_slot_count = 1, aging_items = [(0, 50)], il_log = []\<rparr>"

lemma aged_bag_inv: "il_inv aged_bag"
  by (simp add: il_inv_def aging_ok_def slot_ok_def placed_def wf_item_def activating_def
      empties_def sset_inv_Cons)

theorem HeartBeat_exact_witness:
  "\<exists>l'. HeartBeat aged_bag 60 = Inr l' \<and> slots l' ! 0 = empty_item"
proof -
  have "(i, expire_date (slots aged_bag ! i)) \<in> set (aging_items aged_bag)"
    if "in_use aged_bag i" for i
    using that by (cases i) (auto simp: in_use_def less_Suc_eq numeral_2_eq_2)
  from HeartBeat_exact [OF aged_bag_inv this, of 60] show ?thesis by (auto simp: in_use_def)
qed

text \<open>
  The set of ageing items orders its entries by expiry time alone, so an item that expires
  at the same second as one already in the bag is never entered: when the time comes the
  heartbeat removes the first and the second stays in the bag for good.
\<close>

theorem same_expiry_never_removed:
  assumes inv: "il_inv l" and old: "(j, expire_date it) \<in> set (aging_items l)"
    and i: "i < capacity l" "itype (slots l ! i) = -1" and wf: "wf_item it" and now: "expire_date it \<le> now"
  shows "\<exists>l1 l2. PushAt l i it = Inr (l1, empty_item, True) \<and> HeartBeat l1 now = Inr l2 \<and>
     itype (slots l2 ! j) = -1 \<and> itype (slots l2 ! i) = itype it \<and>
     (\<forall>e \<in> set (aging_items l2). fst e \<noteq> i)"
proof -
  have ag: "aging_ok (slots l) (aging_items l)" using inv by (simp add: il_inv_def)
  obtain l1 it' where l1: "bindr (AssignSlot l i it) (\<lambda>l1. bindr (OnPutIn l1 i)
      (\<lambda>l2. Inr (l2, empty_item, True))) = Inr (l1, empty_item, True)"
    "il_inv l1" "slots l1 = (slots l)[i := it']" "same_item it' it"
    "aging_items l1 = (if expire_date it \<noteq> 0 then sset_insert snd (i, expire_date it) (aging_items l) else aging_items l)"
    using assign_put_ok [OF inv i wf, of "\<lambda>l2. Inr (l2, empty_item, True)"] by blast
  have "expire_date it \<in> snd ` set (aging_items l)" using old by force
  then have ag1: "aging_items l1 = aging_items l" using l1(5) by (simp add: sset_insert_def)
  have none: "\<forall>e \<in> set (aging_items l). fst e \<noteq> i" using aging_ok_no_expiry(2) [OF ag] i(2) by blast
  obtain l2 where l2: "HeartBeat l1 now = Inr l2" "aging_items l2 = filter (\<lambda>e. now < snd e) (aging_items l1)"
    "\<forall>i. slots l2 ! i = (if \<exists>t. (i, t) \<in> set (aging_items l1) \<and> t \<le> now then empty_item else slots l1 ! i)"
    using HeartBeat_ok [OF l1(2)] by blast
  have "slots l2 ! j = empty_item" using l2(3) ag1 old now by auto
  moreover have "slots l2 ! i = it'"
    using l2(3) ag1 none l1(3) il_inv_slot [OF inv i(1)] by fastforce
  moreover have "PushAt l i it = Inr (l1, empty_item, True)"
    using l1(1) i il_inv_slot [OF inv i(1)] wf by (simp add: PushAt_def with_slot_def wf_item_def)
  ultimately show ?thesis using l1(4) l2(1,2) ag1 none by (auto simp: same_item_def)
qed

theorem same_expiry_never_removed_witness:
  "\<exists>l1 l2. PushAt aged_bag 1 (scroll 50) = Inr (l1, empty_item, True) \<and> HeartBeat l1 60 = Inr l2 \<and>
     itype (slots l2 ! 1) = 8"
  using same_expiry_never_removed [OF aged_bag_inv, of 0 "scroll 50" 1 60] by (auto simp: wf_item_def)

text \<open>
  C26: A bag whose items agree with their templates and are not past their expiry survives a save
  and a load into a fresh bag: the same capacity (1 to 32768), and in every slot the same
  item: type, amount, limit, expiry, class, body and the flags that bind it or forbid its trade.
\<close>

theorem Save_Load_roundtrip:
  assumes inv: "il_inv l" and cap: "0 < capacity l" "capacity l \<le> 32768"
    and m: "\<forall>it \<in> set (slots l). itype it \<noteq> -1 \<longrightarrow> tmpl_match m it \<and> unexpired now it"
  shows "\<exists>ds l'. SaveForDB l = Inr (ds, int (capacity l)) \<and>
     LoadFromDB m now (ItemList_init (il_loc l) n) ds (int (capacity l)) = Inr l' \<and> il_inv l' \<and>
     capacity l' = capacity l \<and> (\<forall>i < capacity l. same_stored (slots l' ! i) (slots l ! i))"
proof -
  let ?c = "capacity l" and ?ds = "saved 0 (slots l)"
  let ?l0 = "ItemList_init (il_loc l) ?c"
  have c: "?c < 2147483648" "length (slots l) = ?c" "\<forall>it \<in> set (slots l). slot_ok (il_loc l) it"
    using inv by (auto simp: il_inv_def)
  obtain l' where l': "load_items m now ?ds ?l0 = Inr l'" "il_inv l'" "same_bag ?l0 l'"
    "\<forall>j < length (slots l). same_stored (slots l' ! (0 + j)) (slots l ! j)"
    using load_items_saved [OF il_inv_init [OF c(1)] _ _ c(3) m, of 0 "il_loc l"] c(2) cap(2)
    by (auto simp: ItemList_init_def)
  have "resize ?c empty_item (replicate n empty_item) = replicate ?c empty_item"
    by (auto simp: resize_def min_def replicate_add [symmetric])
  then have "(ItemList_init (il_loc l) n)\<lparr>capacity := nat (int ?c), empty_slot_count := int ?c,
      slots := resize (nat (int ?c)) empty_item (slots (ItemList_init (il_loc l) n))\<rparr> = ?l0"
    by (simp add: ItemList_init_def)
  moreover have "length ?ds \<le> ?c"
    using length_saved [of 0 "slots l"] empties_range [of "slots l"] c(2) by linarith
  ultimately have "LoadFromDB m now (ItemList_init (il_loc l) n) ?ds (int ?c) = Inr l'"
    using cap l'(1) by (simp add: LoadFromDB_def Let_def) (simp add: ItemList_init_def)
  then show ?thesis using SaveForDB_saved [OF inv] l' c(2)
    by (auto simp: same_bag_def ItemList_init_def)
qed

theorem Save_Load_roundtrip_witness:
  "\<exists>ds l'. SaveForDB (bag2 (flask 4) empty_item) = Inr (ds, 2) \<and>
     LoadFromDB shop 0 (ItemList_init INVENTORY 0) ds 2 = Inr l' \<and> same_stored (slots l' ! 0) (flask 4)"
proof -
  have inv: "il_inv (bag2 (flask 4) empty_item)" by (intro bag2_inv flask_ok empty_ok) auto
  have "\<forall>it \<in> set (slots (bag2 (flask 4) empty_item)). itype it \<noteq> -1 \<longrightarrow> tmpl_match shop it \<and> unexpired 0 it"
    by (simp add: tmpl_match_def unexpired_def GetItemPileLimit_def GetItemCls_def GetItemBody_def)
  from Save_Load_roundtrip [OF inv _ _ this, of 0] show ?thesis by fastforce
qed

text \<open>
  \<open>ItemInsertor::Insert\<close> onto one stack that cannot take all of the new item: the room it
  tries to fill is the pile limit less the amount of the new item, not of the stack, so it
  aborts exactly when the stack holds more than the new item, and otherwise moves that many
  and keeps the sum (for stacks that cannot overflow 32 bits).
\<close>

theorem Insertor_overflow:
  assumes "itype x = itype it" "icount x < pile_limit x" "pile_limit x < icount it + icount x"
    "icount it \<le> pile_limit x" "0 < icount x" "pile_limit x < 1073741824" "0 < icount it"
  shows "if icount it < icount x then Insertor_Insert m [x] it = Inl AssertFail
     else \<exists>a b. (Insertor_Insert m [x] it = Inr [a, b] \<or> Insertor_Insert m [x] it = Inr [b, a]) \<and>
            itype a = itype it \<and> itype b = itype it \<and> icount a + icount b = icount x + icount it"
proof (cases "icount it < icount x")
  case True
  have "i32 (icount it + icount x) = icount it + icount x" "i32 (pile_limit x - icount it) = pile_limit x - icount it"
      "i32 (icount x + (pile_limit x - icount it)) = icount x + (pile_limit x - icount it)"
    using assms True by (auto intro!: i32_id)
  with assms True show ?thesis by (simp add: Insertor_Insert_def Item_IncAmount_def)
next
  case False
  have w: "i32 (icount it + icount x) = icount it + icount x" "i32 (pile_limit x - icount it) = pile_limit x - icount it"
      "i32 (icount x + (pile_limit x - icount it)) = icount x + (pile_limit x - icount it)"
      "i32 (icount it - (pile_limit x - icount it)) = icount it - (pile_limit x - icount it)"
    using assms False by (auto intro!: i32_id)
  let ?tmp = "pile_limit x - icount it"
  let ?a = "x\<lparr>icount := icount x + ?tmp\<rparr>" and ?b = "it\<lparr>icount := icount it - ?tmp\<rparr>"
  have "Insertor_Insert m [x] it = Inr (insert_ranked m ?b [?a])"
    using assms False w by (simp add: Insertor_Insert_def Item_IncAmount_def SetAmount_def)
  then have "Insertor_Insert m [x] it = Inr [?a, ?b] \<or> Insertor_Insert m [x] it = Inr [?b, ?a]"
    by auto
  moreover have "itype ?a = itype it \<and> itype ?b = itype it \<and> icount ?a + icount ?b = icount x + icount it"
    using assms by simp
  ultimately show ?thesis using False by meson
qed

theorem Insertor_overflow_witness:
  "Insertor_Insert shop [flask 4] (flask 2) = Inl AssertFail"
  using Insertor_overflow [of "flask 4" "flask 2" shop] by simp

end
