(* ===== verification/Inventory.thy ===== *)
theory Inventory
  imports ItemListCorrect
begin

text \<open>
  \<open>gs/player/subsys/player_inventory.{h,cpp}\<close>: the seven bags of a player, the interface other
  subsystems use (check, gain and take out items) and the handlers of the client's commands.
  What the subsystem tells the client is a list of notices in the order of the calls. The CRC of
  the equipment and the broadcast of the weapon are left out: they read the bags only.
\<close>

section \<open>State\<close>

datatype inv_err = ERR_FATAL_ERROR | ERR_INV_FULL | ERR_INV_FULL_CANNOT_DISASSEMBLE
  | ERR_ITEM_CANNOT_DISASSEMBLE | ERR_DISASSEMBLE_FAILURE | ERR_GAIN_ITEM_FAILURE

datatype notice =
  NSelfItem location itemdata
| NGain location int int int int int int
| NError inv_err
| NDrop int nat int
| NMove nat nat int
| NSell location nat int
| NExchange nat nat
| NEquip nat nat
| NUndoEquip int nat
| NUse location int nat int
| NDisassemble int

record player_inventory =
  bag_inventory :: item_list
  bag_equipment :: item_list
  bag_hide :: item_list
  bag_task :: item_list
  bag_pet :: item_list
  bag_card :: item_list
  bag_mount :: item_list
  notices :: "notice list"

definition EQUIP_INDEX_MAX :: nat where "EQUIP_INDEX_MAX = 7"
definition MAX_HIDE_INV_SIZE :: nat where "MAX_HIDE_INV_SIZE = 100"
definition MAX_TASK_INV_SIZE :: nat where "MAX_TASK_INV_SIZE = 100"
definition MAX_PET_INV_SIZE :: nat where "MAX_PET_INV_SIZE = 128"
definition MAX_CARD_INV_SIZE :: nat where "MAX_CARD_INV_SIZE = 100"
definition MAX_MOUNT_INV_SIZE :: nat where "MAX_MOUNT_INV_SIZE = 100"

definition PlayerInventory_init :: player_inventory where
  "PlayerInventory_init = \<lparr>bag_inventory = ItemList_init INVENTORY 0,
     bag_equipment = ItemList_init EQUIPMENT EQUIP_INDEX_MAX,
     bag_hide = ItemList_init HIDE_INV MAX_HIDE_INV_SIZE,
     bag_task = ItemList_init TASK_INV MAX_TASK_INV_SIZE,
     bag_pet = ItemList_init PET_INV MAX_PET_INV_SIZE,
     bag_card = ItemList_init CARD_INV MAX_CARD_INV_SIZE,
     bag_mount = ItemList_init MOUNT_INV MAX_MOUNT_INV_SIZE, notices = []\<rparr>"

text \<open>The numbers of the locations, and the switch that finds a bag.\<close>

definition all_locations :: "location list" where
  "all_locations = [INVENTORY, EQUIPMENT, TASK_INV, HIDE_INV, PET_INV, CARD_INV, MOUNT_INV]"

definition location_of :: "int \<Rightarrow> location option" where
  "location_of w = (if 0 \<le> w \<and> w < 7 then Some (all_locations ! nat w) else None)"

fun GetItemList :: "player_inventory \<Rightarrow> location \<Rightarrow> item_list" where
  "GetItemList p INVENTORY = bag_inventory p"
| "GetItemList p EQUIPMENT = bag_equipment p"
| "GetItemList p HIDE_INV = bag_hide p"
| "GetItemList p TASK_INV = bag_task p"
| "GetItemList p PET_INV = bag_pet p"
| "GetItemList p CARD_INV = bag_card p"
| "GetItemList p MOUNT_INV = bag_mount p"

fun put_bag :: "location \<Rightarrow> item_list \<Rightarrow> player_inventory \<Rightarrow> player_inventory" where
  "put_bag INVENTORY l p = p\<lparr>bag_inventory := l\<rparr>"
| "put_bag EQUIPMENT l p = p\<lparr>bag_equipment := l\<rparr>"
| "put_bag HIDE_INV l p = p\<lparr>bag_hide := l\<rparr>"
| "put_bag TASK_INV l p = p\<lparr>bag_task := l\<rparr>"
| "put_bag PET_INV l p = p\<lparr>bag_pet := l\<rparr>"
| "put_bag CARD_INV l p = p\<lparr>bag_card := l\<rparr>"
| "put_bag MOUNT_INV l p = p\<lparr>bag_mount := l\<rparr>"

definition notify :: "notice \<Rightarrow> player_inventory \<Rightarrow> player_inventory" where
  "notify n p = p\<lparr>notices := notices p @ [n]\<rparr>"

text \<open>A client's index is converted to \<open>size_t\<close>.\<close>

definition to_size :: "int \<Rightarrow> nat" where
  "to_size i = nat (u64 i)"

definition blank_data :: itemdata where
  "blank_data = \<lparr>d_id = 0, d_index = -1, d_count = 0, d_pile_limit = 0, d_proc_type = 0,
     d_recycle_price = 0, d_expire_date = 0, d_item_cls = 0\<rparr>"

definition SelfGetItemData :: "player_inventory \<Rightarrow> location \<Rightarrow> int \<Rightarrow> player_inventory res" where
  "SelfGetItemData p w index =
     bindr (SaveItem (GetItemList p w) (to_size index) (blank_data\<lparr>d_index := i16 index\<rparr>)) (\<lambda>(d, _).
       Inr (notify (NSelfItem w d) p))"

section \<open>Database\<close>

record inventory_data =
  db_inventory :: "db_item list"
  db_equipment :: "db_item list"
  db_hide :: "db_item list"
  db_task :: "db_item list"
  db_pet :: "db_item list"
  db_card :: "db_item list"
  db_mount :: "db_item list"
  db_inventory_cap :: int

definition Inventory_SaveToDB :: "player_inventory \<Rightarrow> inventory_data res" where
  "Inventory_SaveToDB p =
     bindr (SaveForDB (bag_inventory p)) (\<lambda>(a, cap).
     bindr (SaveForDB (bag_equipment p)) (\<lambda>(b, _).
     bindr (SaveForDB (bag_hide p)) (\<lambda>(c, _).
     bindr (SaveForDB (bag_task p)) (\<lambda>(d, _).
     bindr (SaveForDB (bag_pet p)) (\<lambda>(e, _).
     bindr (SaveForDB (bag_card p)) (\<lambda>(f, _).
     bindr (SaveForDB (bag_mount p)) (\<lambda>(g, _).
       Inr \<lparr>db_inventory = a, db_equipment = b, db_hide = c, db_task = d, db_pet = e,
            db_card = f, db_mount = g, db_inventory_cap = cap\<rparr>)))))))"

definition Inventory_LoadFromDB ::
    "item_man \<Rightarrow> int \<Rightarrow> player_inventory \<Rightarrow> inventory_data \<Rightarrow> player_inventory res" where
  "Inventory_LoadFromDB m now p d =
     bindr (LoadFromDB m now (bag_inventory p) (db_inventory d) (db_inventory_cap d)) (\<lambda>a.
     bindr (LoadFromDB m now (bag_equipment p) (db_equipment d) 0) (\<lambda>b.
     bindr (LoadFromDB m now (bag_hide p) (db_hide d) 0) (\<lambda>c.
     bindr (LoadFromDB m now (bag_task p) (db_task d) 0) (\<lambda>t.
     bindr (LoadFromDB m now (bag_pet p) (db_pet d) 0) (\<lambda>e.
     bindr (LoadFromDB m now (bag_card p) (db_card d) 0) (\<lambda>f.
     bindr (LoadFromDB m now (bag_mount p) (db_mount d) 0) (\<lambda>g.
       Inr (p\<lparr>bag_inventory := a, bag_equipment := b, bag_hide := c, bag_task := t, bag_pet := e,
              bag_card := f, bag_mount := g\<rparr>))))))))"

section \<open>Queries\<close>

definition QueryInventory :: "item_man \<Rightarrow> int \<Rightarrow> location option" where
  "QueryInventory m ty =
     (let c = GetItemCls m ty in if c \<le> 0 then None else LocateLocation c)"

definition Inv_CountItem :: "item_man \<Rightarrow> player_inventory \<Rightarrow> int \<Rightarrow> int" where
  "Inv_CountItem m p ty =
     (if ty \<le> 0 then 0
      else case QueryInventory m ty of None \<Rightarrow> 0 | Some w \<Rightarrow> CountItem (GetItemList p w) ty)"

definition CountEquipItem :: "player_inventory \<Rightarrow> int \<Rightarrow> int" where
  "CountEquipItem p ty = (if ty \<le> 0 then 0 else CountItem (bag_equipment p) ty)"

definition Inv_HasSlot :: "player_inventory \<Rightarrow> location \<Rightarrow> int \<Rightarrow> bool" where
  "Inv_HasSlot p w n \<longleftrightarrow> empty_slot_count (GetItemList p w) \<ge> u64 n"

definition CheckItem :: "item_man \<Rightarrow> player_inventory \<Rightarrow> int \<Rightarrow> int \<Rightarrow> bool" where
  "CheckItem m p ty n =
     (if ty \<le> 0 \<or> n \<le> 0 then True
      else case QueryInventory m ty of None \<Rightarrow> False | Some w \<Rightarrow> IsItemExist (GetItemList p w) ty n)"

definition CheckItemAt :: "item_man \<Rightarrow> player_inventory \<Rightarrow> int \<Rightarrow> int \<Rightarrow> int \<Rightarrow> bool res" where
  "CheckItemAt m p idx ty n =
     (if ty \<le> 0 \<or> n \<le> 0 then Inr True
      else case QueryInventory m ty of
             None \<Rightarrow> Inr False
           | Some w \<Rightarrow> IsItemExistAt (GetItemList p w) (to_size idx) ty n)"

definition QueryItem :: "player_inventory \<Rightarrow> int \<Rightarrow> int \<Rightarrow> itemdata \<Rightarrow> (itemdata \<times> bool) res" where
  "QueryItem p wh idx d =
     (case location_of wh of
        None \<Rightarrow> Inr (d, False)
      | Some w \<Rightarrow> bindr (SaveItem (GetItemList p w) (to_size idx) d) (\<lambda>(d', r). Inr (d', r > 0)))"

text \<open>\<open>inv[item_idx]\<close> is not checked against the size of the bag.\<close>

definition Inv_CanTrade :: "player_inventory \<Rightarrow> int \<Rightarrow> int \<Rightarrow> bool res" where
  "Inv_CanTrade p wh idx =
     (case location_of wh of
        None \<Rightarrow> Inr False
      | Some w \<Rightarrow> with_slot (GetItemList p w) (to_size idx) (\<lambda>it.
          if itype it \<le> 0 then Inr False else Inr (CanTrade it)))"

section \<open>Taking items out\<close>

text \<open>
  The one fact about \<open>DecAmount\<close> that makes the loop end: asking for the whole stack empties
  its slot.
\<close>

lemma DecAmount_all:
  assumes "DecAmount l i (icount (slots l ! i)) = Inr (l', r)" "itype (slots l ! i) \<noteq> -1"
  shows "slots l' = (slots l)[i := empty_item]" "i < length (slots l)"
  using assms
  by (auto simp: DecAmount_def OnTakeOut_def ReleaseSlot_def with_slot_def set_slot_def
      bindr_Inr_iff Let_def split: if_splits prod.splits)

definition used_slots :: "item list \<Rightarrow> nat" where
  "used_slots ss = length (filter (\<lambda>it. itype it \<noteq> -1) ss)"

lemma used_slots_less:
  "i < length ss \<Longrightarrow> itype (ss ! i) \<noteq> -1 \<Longrightarrow> used_slots (ss[i := empty_item]) < used_slots ss"
  using filter_length_update [of i ss "\<lambda>it. itype it \<noteq> -1" empty_item] by (simp add: used_slots_def)

text \<open>The loop of both \<open>TakeOutItem\<close> and \<open>TakeOutAllItem\<close>.\<close>

definition find_type :: "item_list \<Rightarrow> int \<Rightarrow> nat option" where
  "find_type l ty = find_from (\<lambda>it. itype it \<noteq> -1 \<and> itype it = ty) 0 (slots l)"

lemma Find_find_type: "Find l ty = index_or_minus1 (find_type l ty)"
  by (simp add: Find_def find_type_def)

lemma find_type_Some:
  "find_type l ty = Some i \<Longrightarrow> i < length (slots l) \<and> itype (slots l ! i) = ty \<and> itype (slots l ! i) \<noteq> -1"
  unfolding find_type_def using find_from_Some by fastforce

function take_loop :: "location \<Rightarrow> int \<Rightarrow> int \<Rightarrow> player_inventory \<Rightarrow> (player_inventory \<times> bool) res" where
  "take_loop w ty n p =
     (if n > 0 then
        (let l = GetItemList p w in
         case find_type l ty of
           None \<Rightarrow> Inr (p, False)
         | Some i \<Rightarrow>
             (let a = icount (slots l ! i) in
              if n > a then
                bindr (DecAmount l i a) (\<lambda>r.
                  bindr (SelfGetItemData (put_bag w (fst r) p) w (int i)) (\<lambda>p'.
                    take_loop w ty (n - a) p'))
              else
                bindr (DecAmount l i n) (\<lambda>r.
                  bindr (SelfGetItemData (put_bag w (fst r) p) w (int i)) (\<lambda>p'. Inr (p', True)))))
      else Inr (p, False))"
  by pat_completeness auto

lemma GetItemList_put [simp]: "GetItemList (put_bag w l p) w' = (if w' = w then l else GetItemList p w')"
  by (cases w; cases w') auto

lemma GetItemList_notify [simp]: "GetItemList (notify n p) w = GetItemList p w"
  by (cases w) (auto simp: notify_def)

lemma SelfGetItemData_bags: "SelfGetItemData p w i = Inr p' \<Longrightarrow> GetItemList p' w' = GetItemList p w'"
  by (auto simp: SelfGetItemData_def bindr_Inr_iff)

termination take_loop
proof (relation "measure (\<lambda>(w, ty, n, p). used_slots (slots (GetItemList p w)))")
  fix w ty n p l i a r p'
  assume "0 < n" "l = GetItemList p w" "find_type l ty = Some i" "a = icount (slots l ! i)" "a < n"
    "DecAmount l i a = Inr r" "SelfGetItemData (put_bag w (fst r) p) w (int i) = Inr p'"
  then show "((w, ty, n - a, p'), w, ty, n, p) \<in> measure (\<lambda>(w, ty, n, p). used_slots (slots (GetItemList p w)))"
    using find_type_Some [of l ty i] DecAmount_all [of l i "fst r" "snd r"] used_slots_less [of i "slots l"]
    by (auto simp: SelfGetItemData_bags)
qed simp

declare take_loop.simps [simp del]

definition Inv_TakeOutItem :: "item_man \<Rightarrow> player_inventory \<Rightarrow> int \<Rightarrow> int \<Rightarrow> (player_inventory \<times> bool) res" where
  "Inv_TakeOutItem m p ty n =
     (if ty \<le> 0 \<or> n \<le> 0 then Inr (p, True)
      else let c = GetItemCls m ty in
        if c \<le> 0 then Inr (p, False)
        else case LocateLocation c of None \<Rightarrow> Inr (p, False) | Some w \<Rightarrow> take_loop w ty n p)"

definition Inv_TakeOutItemAt ::
    "item_man \<Rightarrow> player_inventory \<Rightarrow> int \<Rightarrow> int \<Rightarrow> int \<Rightarrow> (player_inventory \<times> bool) res" where
  "Inv_TakeOutItemAt m p idx ty n =
     (if ty \<le> 0 \<or> n \<le> 0 then Inr (p, True)
      else let c = GetItemCls m ty in
        if c \<le> 0 then Inr (p, False)
        else case LocateLocation c of
          None \<Rightarrow> Inr (p, False)
        | Some w \<Rightarrow> bindr (TakeOutItem (GetItemList p w) (to_size idx) ty n) (\<lambda>(l, rst).
            if rst then bindr (SelfGetItemData (put_bag w l p) w idx) (\<lambda>p'. Inr (p', True))
            else Inr (put_bag w l p, False)))"

text \<open>The task and hidden bags lose every item of the type.\<close>

fun remove_all :: "location \<Rightarrow> int \<Rightarrow> nat list \<Rightarrow> player_inventory \<Rightarrow> player_inventory res" where
  "remove_all w ty [] p = Inr p"
| "remove_all w ty (i # is) p =
     with_slot (GetItemList p w) i (\<lambda>it.
       if itype it = ty then
         bindr (Remove (GetItemList p w) i) (\<lambda>l.
           bindr (SelfGetItemData (put_bag w l p) w (int i)) (remove_all w ty is))
       else remove_all w ty is p)"

definition TakeOutAllItem :: "item_man \<Rightarrow> player_inventory \<Rightarrow> int \<Rightarrow> int \<Rightarrow> (player_inventory \<times> bool) res" where
  "TakeOutAllItem m p ty n =
     (if ty \<le> 0 \<or> n \<le> 0 then Inr (p, True)
      else let c = GetItemCls m ty in
        if c \<le> 0 then Inr (p, False)
        else case LocateLocation c of
          None \<Rightarrow> Inr (p, False)
        | Some w \<Rightarrow>
            if w = HIDE_INV \<or> w = TASK_INV then
              bindr (remove_all w ty [0..<capacity (GetItemList p w)] p) (\<lambda>p'. Inr (p', True))
            else take_loop w ty n p)"

section \<open>Gaining items\<close>

lemma with_slot_cong [fundef_cong]:
  "l = l' \<Longrightarrow> i = i' \<Longrightarrow> (\<And>x. x = slots l' ! i' \<Longrightarrow> k x = k' x) \<Longrightarrow> with_slot l i k = with_slot l' i' k'"
  by (simp add: with_slot_def)

lemma PushData_count_pos: "PushData m l d = Inr r \<Longrightarrow> 0 < d_count d"
  by (simp add: PushData_def assertx_Inr_iff)

text \<open>
  The loop that pushes a simple item in stacks of at most the pile limit: the bags, the data and
  the number that did not fit.
\<close>

function gain_loop :: "item_man \<Rightarrow> location \<Rightarrow> int \<Rightarrow> itemdata \<Rightarrow> int \<Rightarrow> player_inventory
    \<Rightarrow> (player_inventory \<times> itemdata \<times> int) res" where
  "gain_loop m w mode item remain p =
     (if remain > 0 then
        (let c = (if remain > d_pile_limit item then d_pile_limit item else remain) in
         bindr (PushData m (GetItemList p w) (item\<lparr>d_count := c\<rparr>)) (\<lambda>r.
           case r of (l, item', last_index, ok) \<Rightarrow>
             if \<not> ok then
               bindr (if last_index \<ge> 0 then
                        with_slot l (to_size last_index) (\<lambda>it.
                          Inr (notify (NGain w (d_id item') (c - d_count item') (d_expire_date item')
                                 last_index (icount it) mode) (put_bag w l p)))
                      else Inr (put_bag w l p)) (\<lambda>p'.
                 Inr (notify (NError ERR_INV_FULL) p', item', remain - c + d_count item'))
             else
               with_slot l (to_size last_index) (\<lambda>it.
                 gain_loop m w mode (item'\<lparr>d_index := i16 last_index\<rparr>) (remain - c)
                   (notify (NGain w (d_id item') c (d_expire_date item') last_index (icount it) mode)
                      (put_bag w l p)))))
      else Inr (p, item, remain))"
  by pat_completeness auto

termination gain_loop
  by (relation "measure (\<lambda>(m, w, mode, item, remain, p). nat remain)")
    (auto dest: PushData_count_pos split: if_splits)

declare gain_loop.simps [simp del]

text \<open>\<open>complex\<close> stands for \<open>item.content.size() > 0\<close>.\<close>

definition GainItemData :: "item_man \<Rightarrow> location \<Rightarrow> int \<Rightarrow> bool \<Rightarrow> itemdata \<Rightarrow> int \<Rightarrow> player_inventory
    \<Rightarrow> (player_inventory \<times> itemdata \<times> int \<times> bool) res" where
  "GainItemData m w mode complex item item_count p =
     (if d_id item \<le> 0 \<or> item_count \<le> 0 then Inr (p, item, item_count, False)
      else
        let item1 = (if d_proc_type item AND PROC_BIND_ON_GAIN \<noteq> 0
                     then item\<lparr>d_proc_type := d_proc_type item OR PROC_BIND\<rparr> else item);
            item2 = (if d_pile_limit item1 \<noteq> 1 \<and> d_expire_date item1 \<noteq> 0
                     then item1\<lparr>d_expire_date := 0\<rparr> else item1)
        in if complex then
             if d_count item2 \<noteq> 1 \<or> d_pile_limit item2 \<noteq> 1 then Inr (p, item2, d_count item2, False)
             else if IsFull (GetItemList p w) then Inr (p, item2, item_count, False)
             else bindr (PushInEmptyData m (GetItemList p w) 0 item2) (\<lambda>(l, last_index).
               if last_index < 0 then Inr (put_bag w l p, item2, item_count, False)
               else Inr (notify (NGain w (d_id item2) 1 (d_expire_date item2) last_index 1 mode) (put_bag w l p),
                         item2\<lparr>d_index := i16 last_index\<rparr>, 0, True))
           else bindr (gain_loop m w mode item2 item_count p) (\<lambda>(p', item', remain).
             Inr (p', item', remain, True)))"

text \<open>
  \<open>GainItem(item_type, mode, valid_time, item_count)\<close>: the generated data has no content, as
  the item manager's templates have none.
\<close>

definition GainItem :: "item_man \<Rightarrow> int \<Rightarrow> int \<Rightarrow> int \<Rightarrow> int \<Rightarrow> int \<Rightarrow> player_inventory
    \<Rightarrow> (player_inventory \<times> int \<times> bool) res" where
  "GainItem m now ty mode valid_time item_count p =
     (if ty \<le> 0 \<or> item_count \<le> 0 \<or> valid_time < 0 then Inr (p, item_count, False)
      else case GenerateItem m ty of
        None \<Rightarrow> Inr (p, item_count, False)
      | Some tmp \<Rightarrow>
          let c = GetItemCls m ty in
          if c \<le> 0 then Inr (p, item_count, False)
          else case LocateLocation c of
            None \<Rightarrow> Inr (p, item_count, False)
          | Some w \<Rightarrow>
              let tmp' = (if d_pile_limit tmp = 1 \<and> valid_time \<noteq> 0
                          then tmp\<lparr>d_expire_date := i32 (now + valid_time)\<rparr> else tmp)
              in bindr (GainItemData m w mode False tmp' item_count p) (\<lambda>(p', _, remain, ret).
                   Inr (p', remain, ret)))"

section \<open>Heartbeat, release, transfer\<close>

fun expire_bag :: "location \<Rightarrow> nat list \<Rightarrow> player_inventory \<Rightarrow> player_inventory res" where
  "expire_bag w [] p = Inr p"
| "expire_bag w (i # is) p =
     with_slot (GetItemList p w) i (\<lambda>it.
       bindr (TakeOutItem (GetItemList p w) i (itype it) 1) (\<lambda>(l, ok).
         if ok then bindr (SelfGetItemData (put_bag w l p) w (int i)) (expire_bag w is)
         else expire_bag w is (put_bag w l p)))"

fun expire_bags :: "int \<Rightarrow> location list \<Rightarrow> player_inventory \<Rightarrow> player_inventory res" where
  "expire_bags now [] p = Inr p"
| "expire_bags now (w # ws) p =
     bindr (expire_bag w (GetExpireItem (GetItemList p w) now []) p) (expire_bags now ws)"

definition OnHeartbeat :: "int \<Rightarrow> player_inventory \<Rightarrow> player_inventory res" where
  "OnHeartbeat now p = expire_bags now all_locations p"

fun clear_bags :: "location list \<Rightarrow> player_inventory \<Rightarrow> player_inventory res" where
  "clear_bags [] p = Inr p"
| "clear_bags (w # ws) p =
     bindr (ItemList_Clear (GetItemList p w)) (\<lambda>l. clear_bags ws (put_bag w l p))"

definition OnRelease :: "player_inventory \<Rightarrow> player_inventory res" where
  "OnRelease p = clear_bags [INVENTORY, EQUIPMENT, HIDE_INV, TASK_INV, PET_INV, CARD_INV, MOUNT_INV] p"

text \<open>\<open>cls_ok\<close> stands for \<open>item.GetClsLimit().test(player_.role_class())\<close>.\<close>

fun transfer_slots :: "(item \<Rightarrow> bool) \<Rightarrow> nat list \<Rightarrow> player_inventory \<Rightarrow> player_inventory res" where
  "transfer_slots cls_ok [] p = Inr p"
| "transfer_slots cls_ok (i # is) p =
     with_slot (bag_equipment p) i (\<lambda>it.
       if itype it = -1 then transfer_slots cls_ok is p
       else let upd = (\<lambda>(it', ev). bindr (SelfGetItemData
                  (p\<lparr>bag_equipment := (set_slot (bag_equipment p) i it')
                       \<lparr>il_log := il_log (bag_equipment p) @ ev\<rparr>\<rparr>) EQUIPMENT (int i))
                  (transfer_slots cls_ok is))
            in if TestDisabled it then
                 (if cls_ok it then bindr (Item_Enable EQUIPMENT i it) upd else transfer_slots cls_ok is p)
               else
                 (if \<not> cls_ok it then bindr (Item_Disable EQUIPMENT i it) upd else transfer_slots cls_ok is p))"

definition OnTransferCls :: "(item \<Rightarrow> bool) \<Rightarrow> player_inventory \<Rightarrow> player_inventory res" where
  "OnTransferCls cls_ok p = transfer_slots cls_ok [0..<EQUIP_INDEX_MAX] p"

section \<open>Commands of the client\<close>

definition CMDHandler_DropInventoryItem :: "int \<Rightarrow> int \<Rightarrow> player_inventory \<Rightarrow> player_inventory res" where
  "CMDHandler_DropInventoryItem index num p =
     (if num \<le> 0 then Inr (notify (NError ERR_FATAL_ERROR) p)
      else with_slot (bag_inventory p) (to_size index) (\<lambda>it.
        if itype it = -1 \<or> \<not> CanDrop it then Inr p
        else bindr (DecAmount (bag_inventory p) (to_size index) num) (\<lambda>(l, r).
          if r < 0 then Inr (p\<lparr>bag_inventory := l\<rparr>)
          else Inr (notify (NDrop (itype it) (to_size index) num) (p\<lparr>bag_inventory := l\<rparr>)))))"

definition CMDHandler_MoveInventoryItem :: "int \<Rightarrow> int \<Rightarrow> int \<Rightarrow> player_inventory \<Rightarrow> player_inventory res" where
  "CMDHandler_MoveInventoryItem src dst num p =
     (if src < 0 \<or> dst < 0 \<or> num \<le> 0 then Inr (notify (NError ERR_FATAL_ERROR) p)
      else bindr (MoveItem (bag_inventory p) (nat dst) (nat src) num) (\<lambda>(l, ok).
        if \<not> ok then Inr (p\<lparr>bag_inventory := l\<rparr>)
        else Inr (notify (NMove (nat dst) (nat src) num) (p\<lparr>bag_inventory := l\<rparr>))))"

definition CMDHandler_SellInventoryItem :: "item_man \<Rightarrow> int \<Rightarrow> int \<Rightarrow> int \<Rightarrow> player_inventory \<Rightarrow> player_inventory res" where
  "CMDHandler_SellInventoryItem m wh index num p =
     (case location_of wh of
        None \<Rightarrow> Inr (notify (NError ERR_FATAL_ERROR) p)
      | Some w \<Rightarrow>
          if w \<noteq> INVENTORY \<and> w \<noteq> PET_INV \<and> w \<noteq> CARD_INV \<and> w \<noteq> MOUNT_INV
          then Inr (notify (NError ERR_FATAL_ERROR) p)
          else if index < 0 \<or> num < 0 then Inr (notify (NError ERR_FATAL_ERROR) p)
          else bindr (SellItem m (GetItemList p w) (nat index) num) (\<lambda>(l, ok).
            if \<not> ok then Inr (put_bag w l p)
            else bindr (SelfGetItemData (put_bag w l p) w index) (\<lambda>p'.
              Inr (notify (NSell w (nat index) num) p'))))"

definition CMDHandler_ExchangeInventoryItem :: "int \<Rightarrow> int \<Rightarrow> player_inventory \<Rightarrow> player_inventory res" where
  "CMDHandler_ExchangeInventoryItem i j p =
     (if i < 0 \<or> j < 0 then Inr (notify (NError ERR_FATAL_ERROR) p)
      else bindr (ExchangeItem (bag_inventory p) (nat i) (nat j)) (\<lambda>(l, ok).
        if \<not> ok then Inr (p\<lparr>bag_inventory := l\<rparr>)
        else Inr (notify (NExchange (nat i) (nat j)) (p\<lparr>bag_inventory := l\<rparr>))))"

definition CMDHandler_EquipItem :: "item_man \<Rightarrow> int \<Rightarrow> int \<Rightarrow> player_inventory \<Rightarrow> player_inventory res" where
  "CMDHandler_EquipItem m idx1 idx2 p =
     (let idx_inv = to_size idx1; idx_equip = to_size idx2 in
      if idx_inv \<ge> capacity (bag_inventory p) then Inr (notify (NError ERR_FATAL_ERROR) p)
      else if idx_equip \<ge> capacity (bag_equipment p) then Inr (notify (NError ERR_FATAL_ERROR) p)
      else with_slot (bag_inventory p) idx_inv (\<lambda>it0.
        if itype it0 = -1 then Inr (notify (NError ERR_FATAL_ERROR) p)
        else if \<not> Item_CanActivate m INVENTORY idx_equip it0 then Inr p
        else bindr (RemoveItem (bag_inventory p) idx_inv) (\<lambda>(inv1, it1).
          bindr (IsEmptySlot (bag_equipment p) idx_equip) (\<lambda>free.
            bindr (if free then Inr (inv1, bag_equipment p)
                   else bindr (RemoveItem (bag_equipment p) idx_equip) (\<lambda>(eq1, it2).
                     bindr (PushInEmpty inv1 (int idx_inv) it2) (\<lambda>(inv2, rst).
                       assertx (rst \<ge> 0) (Inr (inv2, eq1))))) (\<lambda>(inv2, eq1).
              bindr (PushInEmpty eq1 (int idx_equip) it1) (\<lambda>(eq2, rst).
                assertx (rst \<ge> 0)
                 (with_slot eq2 idx_equip (\<lambda>it.
                   let changed = TestBindOnEquip it;
                       eq3 = (if changed then set_slot eq2 idx_equip (Item_Bind it) else eq2);
                       p1 = notify (NEquip idx_inv idx_equip) (p\<lparr>bag_inventory := inv2, bag_equipment := eq3\<rparr>)
                   in if changed then SelfGetItemData p1 EQUIPMENT (int idx_equip) else Inr p1))))))))"

definition CMDHandler_UndoEquip :: "int \<Rightarrow> player_inventory \<Rightarrow> player_inventory res" where
  "CMDHandler_UndoEquip idx p =
     (let idx_equip = to_size idx in
      if idx_equip \<ge> capacity (bag_equipment p) then Inr (notify (NError ERR_FATAL_ERROR) p)
      else bindr (IsEmptySlot (bag_equipment p) idx_equip) (\<lambda>free.
        if free then Inr p
        else if IsFull (bag_inventory p) then Inr (notify (NError ERR_INV_FULL) p)
        else bindr (RemoveItem (bag_equipment p) idx_equip) (\<lambda>(eq1, it).
          bindr (PushInEmpty (bag_inventory p) 0 it) (\<lambda>(inv1, rst).
            assertx (rst \<ge> 0)
              (Inr (notify (NUndoEquip rst idx_equip) (p\<lparr>bag_inventory := inv1, bag_equipment := eq1\<rparr>)))))))"

definition CMDHandler_UseItem :: "item_man \<Rightarrow> int \<Rightarrow> int \<Rightarrow> player_inventory \<Rightarrow> player_inventory res" where
  "CMDHandler_UseItem m wh idx p =
     (case location_of wh of
        None \<Rightarrow> Inr p
      | Some w \<Rightarrow>
          with_slot (GetItemList p w) (to_size idx) (\<lambda>it.
            if \<not> Item_CanUse m w (to_size idx) it then Inr p
            else bindr (UseItem m (GetItemList p w) (to_size idx)) (\<lambda>(l, num).
              let p' = put_bag w l p
              in Inr (if num > 0 then notify (NUse w (itype it) (to_size idx) num) p' else p'))))"

text \<open>
  \<open>is_equip\<close> and \<open>product\<close> are the template lookups (the product's pile limit), \<open>rounded\<close> the
  conversion \<open>(int)(price / 50.f + 0.5f)\<close>.
\<close>

definition FIXED_ITEM_DISASSEMBLE_PRODUCT :: int where "FIXED_ITEM_DISASSEMBLE_PRODUCT = 5000147"

definition CMDHandler_ItemDisassemble ::
    "item_man \<Rightarrow> int \<Rightarrow> (int \<Rightarrow> bool) \<Rightarrow> int option \<Rightarrow> (int \<Rightarrow> int) \<Rightarrow> int \<Rightarrow> int \<Rightarrow> player_inventory
     \<Rightarrow> player_inventory res" where
  "CMDHandler_ItemDisassemble m now is_equip product rounded index item_id p =
     (if index < 0 \<or> index \<ge> int (capacity (bag_inventory p)) then Inr p
      else if \<not> is_equip item_id then Inr (notify (NError ERR_ITEM_CANNOT_DISASSEMBLE) p)
      else bindr (CheckItemAt m p index item_id 1) (\<lambda>there.
        if \<not> there then Inr p
        else case product of
          None \<Rightarrow> Inr p
        | Some limit \<Rightarrow>
            with_slot (bag_inventory p) (nat index) (\<lambda>it.
              if itype it \<noteq> item_id then Inr p
              else
                let r = rounded (GetTotalPrice m it);
                    calc_count = (if r > 0 then r else 1);
                    slot_count = calc_count div limit + 1
                in if \<not> Inv_HasSlot p INVENTORY slot_count
                   then Inr (notify (NError ERR_INV_FULL_CANNOT_DISASSEMBLE) p)
                   else bindr (Inv_TakeOutItemAt m p index item_id 1) (\<lambda>(p1, taken).
                     if \<not> taken then Inr (notify (NError ERR_DISASSEMBLE_FAILURE) p1)
                     else bindr (GainItem m now FIXED_ITEM_DISASSEMBLE_PRODUCT 0 0 calc_count p1)
                       (\<lambda>(p2, num, ok).
                         if \<not> ok then Inr (notify (NError ERR_GAIN_ITEM_FAILURE) p2)
                         else Inr (notify (NDisassemble index) p2))))))"

definition DebugCleanAllItem :: "int \<Rightarrow> player_inventory \<Rightarrow> player_inventory res" where
  "DebugCleanAllItem wh p =
     (case location_of wh of
        None \<Rightarrow> Inr p
      | Some w \<Rightarrow> bindr (ItemList_Clear (GetItemList p w)) (\<lambda>l. Inr (put_bag w l p)))"

end
