(* ===== verification/InventoryProps.thy ===== *)
theory InventoryProps
  imports Inventory ItemListProps
begin

text \<open>
  The properties of the player's inventory subsystem over the bags' lemmas: gaining items
  conserves them and succeeds when there is room, the heartbeat of the subsystem, taking items
  out, equipping, disassembling, and the handlers that trust a client's index.
\<close>

definition inv_all :: "player_inventory \<Rightarrow> bool" where
  "inv_all p \<longleftrightarrow> (\<forall>w. il_inv (GetItemList p w) \<and> il_loc (GetItemList p w) = w)"

lemma inv_all_put: "inv_all p \<Longrightarrow> il_inv l \<Longrightarrow> il_loc l = w \<Longrightarrow> inv_all (put_bag w l p)"
  by (simp add: inv_all_def)

lemma inv_all_notify [simp]: "inv_all (notify n p) = inv_all p"
  by (simp add: inv_all_def)

lemma SaveItem_ok:
  assumes "il_inv l"
  shows "\<exists>d' r. SaveItem l i d = Inr (d', r)"
proof (cases "i < capacity l \<and> itype (slots l ! i) \<noteq> -1")
  case True
  then show ?thesis using il_inv_slot [OF assms, of i] il_inv_used [OF assms, of i]
    by (auto simp: SaveItem_def with_slot_def Item_SaveItem_def wf_item_def)
next
  case False
  then show ?thesis using il_inv_slot [OF assms, of i]
    by (cases "i < capacity l") (auto simp: SaveItem_def with_slot_def)
qed

lemma SelfGetItemData_ok:
  assumes "inv_all p"
  shows "\<exists>n. SelfGetItemData p w i = Inr (notify n p)"
proof -
  have "il_inv (GetItemList p w)" using assms by (simp add: inv_all_def)
  from SaveItem_ok [OF this, of "to_size i" "blank_data\<lparr>d_index := i16 i\<rparr>"]
  show ?thesis by (auto simp: SelfGetItemData_def)
qed

section \<open>Gaining items\<close>

text \<open>The stacks of a type in a bag are limited to \<open>k\<close>; a push adds at most one more stack.\<close>

definition limits_le :: "int \<Rightarrow> int \<Rightarrow> item list \<Rightarrow> bool" where
  "limits_le ty k ss \<longleftrightarrow> (\<forall>it \<in> set ss. itype it = ty \<longrightarrow> pile_limit it \<le> k)"

lemma TryPile_limits:
  assumes "TryPile ty i its n pe li = Inr (its', r)" "limits_le t k its"
  shows "limits_le t k its'"
  using assms
proof (induction its arbitrary: i n pe li its' r)
  case (Cons it its)
  have rest: "limits_le t k its" and it: "itype it = t \<longrightarrow> pile_limit it \<le> k" using Cons.prems(2) by (simp_all add: limits_le_def)
  show ?case
  proof (cases "itype it \<noteq> -1 \<and> itype it = ty \<and> icount it < pile_limit it")
    case True
    then obtain it2 its2 where x: "its' = it2 # its2" "itype it2 = itype it" "pile_limit it2 = pile_limit it" "its2 = its \<or> (\<exists>n pe li r. TryPile ty (Suc i) its n pe li = Inr (its2, r))"
      using Cons.prems(1) by (auto simp: Let_def Item_IncAmount_def bindr_Inr_iff assertx_Inr_iff split: if_splits) blast+
    then have "limits_le t k its2" using Cons.IH rest by blast
    then show ?thesis using x it by (simp add: limits_le_def)
  next
    case False
    then obtain its2 n pe li r where x: "its' = it # its2" "TryPile ty (Suc i) its n pe li = Inr (its2, r)"
      using Cons.prems(1) by (auto simp: bindr_Inr_iff split: if_splits)
    have "limits_le t k its2" by (rule Cons.IH [OF x(2) rest])
    then show ?thesis using x(1) it by (simp add: limits_le_def)
  qed
qed simp

lemma put_limits:
  assumes "AssignSlot l i it = Inr l1" "OnPutIn l1 i = Inr l2" "limits_le t k (slots l)" "itype it = t \<longrightarrow> pile_limit it \<le> k"
  shows "limits_le t k (slots l2)"
proof -
  have put: "itype it' = itype x \<and> pile_limit it' = pile_limit x" if "Item_OnPutIn loc j x = Inr (it', ev)" for loc j x it' ev
    using that by (auto simp: Item_OnPutIn_def body_OnPutIn_def body_Activate_def Let_def assertx_Inr_iff split: option.splits if_splits)
  have i: "i < length (slots l)" and l1: "slots l1 = (slots l)[i := it\<lparr>is_active := False, ref := 0\<rparr>]"
    using assms(1) by (auto simp: AssignSlot_def with_slot_def item_assign_def set_slot_def assertx_def bindr_def split: if_splits)
  then obtain it' ev where "Item_OnPutIn (il_loc l1) i (it\<lparr>is_active := False, ref := 0\<rparr>) = Inr (it', ev)" "slots l2 = (slots l)[i := it']"
    using assms(2) by (auto simp: OnPutIn_def with_slot_def bindr_Inr_iff assertx_Inr_iff set_slot_def Let_def split: if_splits)
  then show ?thesis using assms(3,4) put by (auto simp: limits_le_def dest!: subsetD [OF set_update_subset_insert])
qed

lemma PushData_limits:
  assumes "PushData m l d = Inr (l', r)" "limits_le (d_id d) k (slots l)" "GetItemPileLimit m (d_id d) \<le> k"
  shows "limits_le (d_id d) k (slots l')"
proof -
  have put: "limits_le (d_id d) k (slots l2)"
    if "MakeItem m empty_item x = Inr it" "d_id x = d_id d" "AssignSlot l0 i it = Inr l1" "OnPutIn l1 i = Inr l2" "limits_le (d_id d) k (slots l0)"
    for x it l0 i l1 l2
    by (rule put_limits [OF that(3,4,5)]) (use that(1,2) assms(3) in \<open>auto simp: MakeItem_def LocateSelf_def assertx_Inr_iff\<close>)
  show ?thesis using assms(1,2)
    by (auto simp: PushData_def Let_def bindr_Inr_iff assertx_Inr_iff split: if_splits option.splits
        dest!: TryPile_limits [OF _ assms(2)] intro: put)
qed

definition gain_ok :: "item_man \<Rightarrow> itemdata \<Rightarrow> bool" where
  "gain_ok m item \<longleftrightarrow> 0 < d_id item \<and> 1 \<le> d_pile_limit item \<and> d_pile_limit item \<le> 1073741823 \<and>
     GetItemPileLimit m (d_id item) = d_pile_limit item \<and>
     (d_expire_date item \<noteq> 0 \<longrightarrow> d_pile_limit item = 1)"

definition gained :: "location \<Rightarrow> int \<Rightarrow> int \<Rightarrow> int \<Rightarrow> player_inventory \<Rightarrow> player_inventory \<Rightarrow> bool" where
  "gained w ty n remain p p' \<longleftrightarrow> inv_all p' \<and> 0 \<le> remain \<and> remain \<le> n \<and>
     amount_of (GetItemList p' w) ty + remain = amount_of (GetItemList p w) ty + n \<and>
     (\<forall>t. t \<noteq> ty \<longrightarrow> amount_of (GetItemList p' w) t = amount_of (GetItemList p w) t) \<and>
     (\<forall>w'. w' \<noteq> w \<longrightarrow> GetItemList p' w' = GetItemList p w') \<and>
     (0 < remain \<longrightarrow> empty_slot_count (GetItemList p' w) = 0)"

lemma to_size_id: "0 \<le> i \<Longrightarrow> i < 9223372036854775808 \<Longrightarrow> to_size i = nat i"
  by (simp add: to_size_def u64_id)

lemma gain_loop_ok:
  assumes "inv_all p" "gain_ok m item" "0 \<le> remain" "limits_le (d_id item) 1073741823 (slots (GetItemList p w))"
  shows "\<exists>p' item' left. gain_loop m w mode item remain p = Inr (p', item', left) \<and>
     gained w (d_id item) remain left p p' \<and>
     (remain \<le> empties (slots (GetItemList p w)) * d_pile_limit item \<longrightarrow> left = 0)"
  using assms
proof (induction "nat remain" arbitrary: item remain p rule: less_induct)
  case less
  show ?case
  proof (cases "remain = 0")
    case True
    then have "gain_loop m w mode item remain p = Inr (p, item, 0)" by (subst gain_loop.simps) simp
    moreover have "gained w (d_id item) remain 0 p p" using True less.prems(1) by (simp add: gained_def)
    ultimately show ?thesis by blast
  next
    case False
    let ?c = "if remain > d_pile_limit item then d_pile_limit item else remain"
    let ?l = "GetItemList p w" and ?d = "item\<lparr>d_count := ?c\<rparr>"
    have c: "0 < ?c" "?c \<le> remain" "?c \<le> d_pile_limit item"
      using less.prems False by (auto simp: gain_ok_def)
    have inv: "il_inv ?l" "il_loc ?l = w" using less.prems(1) by (auto simp: inv_all_def)
    have "data_ok m ?d" using less.prems(2) c by (auto simp: data_ok_def gain_ok_def)
    moreover have "stackable (slots ?l) (d_id ?d) (d_count ?d)"
      using less.prems(2,4) c(3) by (fastforce simp: stackable_def limits_le_def gain_ok_def)
    ultimately obtain l' d' li b where
      r: "PushData m ?l ?d = Inr (l', d', li, b)" and d': "d' = ?d\<lparr>d_count := d_count d'\<rparr>"
      and p: "pushed ?l l' (d_id item) ?c (d_count d') li b"
      and li: "\<not> b \<and> d_count d' = ?c \<longrightarrow> li = -1"
      using PushData_ok [OF inv(1), of m ?d] by auto
    have lim: "limits_le (d_id item) 1073741823 (slots l')"
      using PushData_limits [OF r] less.prems(2,4) by (simp add: gain_ok_def)
    have d'_simps: "d_id d' = d_id item" "d_pile_limit d' = d_pile_limit item" "d_expire_date d' = d_expire_date item"
      by (subst d', simp)+
    have inv': "inv_all (put_bag w l' p)"
      using p inv less.prems(1) by (intro inv_all_put) (auto simp: pushed_def same_bag_def)
    have len: "length (slots l') = capacity ?l" "capacity ?l < 2147483648"
      using p inv(1) by (auto simp: pushed_def same_bag_def il_inv_def)
    have emp: "empty_slot_count l' = empties (slots l')" using p by (simp add: pushed_def il_inv_def)
    show ?thesis
    proof (cases b)
      case False
      then have full: "empty_slot_count l' = 0" and em: "empties (slots ?l) = 0"
        using p IsFull_iff [of l'] emp by (auto simp: pushed_def)
      have "\<exists>p'. gain_loop m w mode item remain p = Inr (p', d', remain - ?c + d_count d') \<and>
          (\<forall>w'. GetItemList p' w' = GetItemList (put_bag w l' p) w')"
      proof (cases "li \<ge> 0")
        case True
        with li False p have "li < int (capacity ?l)" by (auto simp: pushed_def)
        then have "to_size li < length (slots l')" using True len by (simp add: to_size_id nat_less_iff)
        then show ?thesis using less.prems \<open>remain \<noteq> 0\<close> r False True
          by (subst gain_loop.simps) (simp add: Let_def with_slot_def)
      next
        case neg: False
        then show ?thesis using less.prems \<open>remain \<noteq> 0\<close> r False
          by (subst gain_loop.simps) (simp add: Let_def)
      qed
      then obtain p' where p': "gain_loop m w mode item remain p = Inr (p', d', remain - ?c + d_count d')"
        "\<forall>w'. GetItemList p' w' = GetItemList (put_bag w l' p) w'" by blast
      have "gained w (d_id item) remain (remain - ?c + d_count d') p p'"
        using p p'(2) inv' c full by (auto simp: gained_def pushed_def inv_all_def)
      moreover have "remain \<le> empties (slots ?l) * d_pile_limit item \<longrightarrow> remain - ?c + d_count d' = 0"
        using em less.prems(3) \<open>remain \<noteq> 0\<close> by simp
      ultimately show ?thesis using p'(1) by blast
    next
      case True
      then have li0: "0 \<le> li" "li < int (capacity ?l)" and z: "d_count d' = 0" using p by (auto simp: pushed_def)
      have ts: "to_size li < length (slots l')" using li0 len by (simp add: to_size_id nat_less_iff)
      let ?p1 = "notify (NGain w (d_id d') ?c (d_expire_date d') li (icount (slots l' ! to_size li)) mode) (put_bag w l' p)"
      let ?item = "d'\<lparr>d_index := i16 li\<rparr>"
      have step: "gain_loop m w mode item remain p = gain_loop m w mode ?item (remain - ?c) ?p1"
        using less.prems \<open>remain \<noteq> 0\<close> r True ts
        by (subst gain_loop.simps) (simp add: Let_def with_slot_def)
      have ok': "gain_ok m ?item" using less.prems(2) by (simp add: gain_ok_def d'_simps)
      have smaller: "nat (remain - ?c) < nat remain" "0 \<le> remain - ?c" using c by auto
      obtain p' item' left where IH: "gain_loop m w mode ?item (remain - ?c) ?p1 = Inr (p', item', left)"
        "gained w (d_id ?item) (remain - ?c) left ?p1 p'"
        "remain - ?c \<le> empties (slots (GetItemList ?p1 w)) * d_pile_limit ?item \<longrightarrow> left = 0"
        using less.hyps [OF smaller(1) _ ok' smaller(2), of ?p1] inv' lim d'_simps by auto
      have "gained w (d_id item) remain left p p'"
        using IH(2) p z c by (auto simp: gained_def pushed_def d'_simps)
      moreover have "left = 0" if fits: "remain \<le> empties (slots ?l) * d_pile_limit item"
      proof -
        have ge: "empties (slots ?l) - 1 \<le> empties (slots l')" using p True by (simp add: pushed_def)
        have "remain - ?c \<le> empties (slots l') * d_pile_limit item"
        proof (cases "remain > d_pile_limit item")
          case True
          have "(empties (slots ?l) - 1) * d_pile_limit item \<le> empties (slots l') * d_pile_limit item"
            using ge less.prems(2) by (intro mult_right_mono) (auto simp: gain_ok_def)
          then show ?thesis using True fits by (simp add: left_diff_distrib)
        next
          case False
          then show ?thesis using empties_range [of "slots l'"] less.prems(2) by (simp add: gain_ok_def)
        qed
        then show ?thesis using IH(3) d'_simps by simp
      qed
      ultimately show ?thesis using step IH(1) by auto
    qed
  qed
qed

lemma LocateLocation_pos: "LocateLocation c = Some w \<Longrightarrow> 0 < c"
  by (auto simp: LocateLocation_def item_cls_defs split: if_splits)

text \<open>
  C1: Gaining \<open>n\<close> items of a known type never aborts and conserves them: the bag of the type
  grows by what is not reported as left over, no other type and no other bag changes, something
  is left only if the bag is full, and nothing is left when the empty slots have room for all. The
  stacks of the type are limited to less than \<open>2 ^ 30\<close>, so that no sum leaves 32 bits.
\<close>

theorem GainItem_conserves:
  assumes inv: "inv_all p" and tmp: "item_map m ty = Some tmp" "d_id tmp = ty" "1 \<le> d_pile_limit tmp"
    and w: "LocateLocation (GetItemCls m ty) = Some w"
    and lim: "d_pile_limit tmp \<le> 1073741823" "limits_le ty 1073741823 (slots (GetItemList p w))"
    and args: "0 < ty" "0 < n" "0 \<le> valid_time"
  shows "\<exists>p' left. GainItem m now ty mode valid_time n p = Inr (p', left, True) \<and> gained w ty n left p p' \<and>
     (n \<le> empty_slot_count (GetItemList p w) * d_pile_limit tmp \<longrightarrow> left = 0)"
proof -
  let ?tmp = "if d_pile_limit tmp = 1 \<and> valid_time \<noteq> 0 then tmp\<lparr>d_expire_date := i32 (now + valid_time)\<rparr> else tmp"
  let ?i1 = "if d_proc_type ?tmp AND PROC_BIND_ON_GAIN \<noteq> 0 then ?tmp\<lparr>d_proc_type := d_proc_type ?tmp OR PROC_BIND\<rparr> else ?tmp"
  let ?i2 = "if d_pile_limit ?i1 \<noteq> 1 \<and> d_expire_date ?i1 \<noteq> 0 then ?i1\<lparr>d_expire_date := 0\<rparr> else ?i1"
  have ids: "d_id ?i2 = ty" "d_pile_limit ?i2 = d_pile_limit tmp" "d_id ?tmp = ty" using tmp(2) by auto
  have ok: "gain_ok m ?i2"
    using tmp args lim(1) by (auto simp: gain_ok_def GetItemPileLimit_def)
  have n: "0 \<le> n" using args by simp
  obtain p' item' left where r: "gain_loop m w mode ?i2 n p = Inr (p', item', left)"
    "gained w (d_id ?i2) n left p p'"
    "n \<le> empties (slots (GetItemList p w)) * d_pile_limit ?i2 \<longrightarrow> left = 0"
    using gain_loop_ok [OF inv ok n, of w mode] lim(2) ids(1) by auto
  have "GainItemData m w mode False ?tmp n p = Inr (p', item', left, True)"
    using args ids(3) r(1) by (simp add: GainItemData_def Let_def)
  then have "GainItem m now ty mode valid_time n p = Inr (p', left, True)"
    using args tmp(1) w LocateLocation_pos [OF w]
    by (simp add: GainItem_def GenerateItem_def Let_def)
  moreover have "empty_slot_count (GetItemList p w) = empties (slots (GetItemList p w))"
    using inv by (simp add: inv_all_def il_inv_def)
  ultimately show ?thesis using r(2,3) ids(1,2) by auto
qed

abbreviation demo_inv :: player_inventory where
  "demo_inv \<equiv> PlayerInventory_init\<lparr>bag_inventory := bag2 (flask 4) empty_item\<rparr>"

lemma demo_inv_ok: "inv_all demo_inv"
proof -
  have "il_inv (bag2 (flask 4) empty_item)" by (intro bag2_inv flask_ok empty_ok) auto
  moreover have "il_inv (ItemList_init l n) \<and> il_loc (ItemList_init l n) = l" if "n < 2147483648" for l n
    using il_inv_init [OF that] by (simp add: ItemList_init_def)
  ultimately show ?thesis unfolding inv_all_def
    by (intro allI, case_tac w)
      (simp_all add: PlayerInventory_init_def EQUIP_INDEX_MAX_def MAX_HIDE_INV_SIZE_def
        MAX_TASK_INV_SIZE_def MAX_PET_INV_SIZE_def MAX_CARD_INV_SIZE_def MAX_MOUNT_INV_SIZE_def)
qed

theorem GainItem_conserves_witness:
  "\<exists>p' left. GainItem shop 0 7 0 0 8 demo_inv = Inr (p', left, True) \<and>
     amount_of (GetItemList p' INVENTORY) 7 + left = amount_of (GetItemList demo_inv INVENTORY) 7 + 8"
proof -
  have w: "LocateLocation (GetItemCls shop 7) = Some INVENTORY"
    by (simp add: GetItemCls_def LocateLocation_def item_cls_defs)
  have lim: "limits_le 7 1073741823 (slots (GetItemList demo_inv INVENTORY))" by (simp add: limits_le_def empty_item_def)
  obtain p' left where "GainItem shop 0 7 0 0 8 demo_inv = Inr (p', left, True)" "gained INVENTORY 7 8 left demo_inv p'"
    using GainItem_conserves [OF demo_inv_ok _ _ _ w _ lim, of potion 8 0 0 0] by auto
  then show ?thesis by (auto simp: gained_def)
qed

section \<open>Taking items out\<close>

lemma empties_used: "int (used_slots ss) = int (length ss) - empties ss"
  by (induction ss) (auto simp: used_slots_def empties_def)

lemma count_pos_find:
  assumes "il_inv l" "find_type l ty = None"
  shows "amount_of l ty = 0"
proof -
  have "\<forall>it \<in> set (slots l). of_type ty it = 0"
    using assms(2) by (auto simp: find_type_def find_from_None of_type_def)
  then have "sum_list (List.map (of_type ty) (slots l)) = sum_list (List.map (\<lambda>_. 0) (slots l))"
    by (intro arg_cong [of _ _ sum_list] map_cong) auto
  then show ?thesis by (simp add: amount_of_def sum_list_triv)
qed

lemma amount_of_nonneg: "il_inv l \<Longrightarrow> 0 \<le> amount_of l ty"
  unfolding amount_of_def
  by (rule sum_list_nonneg) (auto simp: il_inv_def of_type_def slot_ok_def wf_item_def)

lemma amount_of_ge:
  assumes "il_inv l" "i < length (slots l)"
  shows "of_type ty (slots l ! i) \<le> amount_of l ty"
proof -
  have nn: "0 \<le> of_type ty it" if "it \<in> set (slots l)" for it
    using assms(1) that by (auto simp: il_inv_def of_type_def slot_ok_def wf_item_def)
  have "of_type ty (slots l ! i) \<in> set (List.map (of_type ty) (slots l))" using assms(2) by simp
  then show ?thesis unfolding amount_of_def
    by (rule member_le_sum_list) (use nn in auto)
qed

definition taken :: "location \<Rightarrow> int \<Rightarrow> int \<Rightarrow> player_inventory \<Rightarrow> player_inventory \<Rightarrow> bool" where
  "taken w ty k p p' \<longleftrightarrow> inv_all p' \<and>
     amount_of (GetItemList p' w) ty = amount_of (GetItemList p w) ty - k \<and>
     (\<forall>t. t \<noteq> ty \<longrightarrow> amount_of (GetItemList p' w) t = amount_of (GetItemList p w) t) \<and>
     (\<forall>w'. w' \<noteq> w \<longrightarrow> GetItemList p' w' = GetItemList p w')"

text \<open>One round of the loop: at most the stack at the found slot is taken.\<close>

lemma take_step:
  assumes inv: "inv_all p" and f: "find_type (GetItemList p w) ty = Some i"
    and n: "0 < n" "n \<le> icount (slots (GetItemList p w) ! i)"
  shows "\<exists>r p'. DecAmount (GetItemList p w) i n = Inr r \<and>
     SelfGetItemData (put_bag w (fst r) p) w (int i) = Inr p' \<and> taken w ty n p p'"
proof -
  let ?l = "GetItemList p w"
  have l: "il_inv ?l" "il_loc ?l = w" using inv by (auto simp: inv_all_def)
  have i: "i < length (slots ?l)" "itype (slots ?l ! i) = ty" "itype (slots ?l ! i) \<noteq> -1"
    using find_type_Some [OF f] by auto
  have n0: "0 \<le> n" using n by simp
  have i': "i < capacity ?l" using i l by (simp add: il_inv_def)
  obtain l' where l': "DecAmount ?l i n = Inr (l', max 0 (icount (slots ?l ! i) - n))" "il_inv l'"
    "same_bag ?l l'" "slots l' = (slots ?l)[i := if icount (slots ?l ! i) \<le> n then empty_item
                          else (slots ?l ! i)\<lparr>icount := icount (slots ?l ! i) - n\<rparr>]"
    using DecAmount_ok [OF l(1) i' i(3) n0] by blast
  have inv': "inv_all (put_bag w l' p)" using inv l l' by (intro inv_all_put) (auto simp: same_bag_def)
  obtain n' where "SelfGetItemData (put_bag w l' p) w (int i) = Inr (notify n' (put_bag w l' p))"
    using SelfGetItemData_ok [OF inv'] by blast
  moreover have "amount_of l' t = amount_of ?l t - (if t = ty then n else 0)" for t
    using amount_of_update [OF i(1) l'(4), of t] i n by (auto simp: of_type_def)
  ultimately show ?thesis using l'(1) inv' by (auto simp: taken_def)
qed

lemma take_loop_ok:
  assumes "inv_all p" "0 < n"
  shows "\<exists>p' b. take_loop w ty n p = Inr (p', b) \<and> b = (n \<le> amount_of (GetItemList p w) ty) \<and>
     taken w ty (min n (amount_of (GetItemList p w) ty)) p p'"
  using assms
proof (induction "nat n" arbitrary: n p rule: less_induct)
  case less
  let ?l = "GetItemList p w"
  have inv: "il_inv ?l" using less.prems(1) by (simp add: inv_all_def)
  show ?case
  proof (cases "find_type ?l ty")
    case None
    then have "take_loop w ty n p = Inr (p, False)" using less.prems by (subst take_loop.simps) simp
    then show ?thesis using count_pos_find [OF inv None] less.prems
      by (intro exI [of _ p] exI [of _ False]) (simp add: taken_def)
  next
    case (Some i)
    let ?a = "icount (slots ?l ! i)"
    have i: "i < length (slots ?l)" "itype (slots ?l ! i) = ty" "itype (slots ?l ! i) \<noteq> -1"
      using find_type_Some [OF Some] by auto
    have "i < capacity ?l" using i inv by (simp add: il_inv_def)
    then have a: "0 < ?a" using il_inv_used [OF inv _ i(3)] by (simp add: wf_item_def)
    have ge: "?a \<le> amount_of ?l ty" using amount_of_ge [OF inv i(1), of ty] i by (simp add: of_type_def)
    show ?thesis
    proof (cases "n > ?a")
      case False
      then obtain r p' where r: "DecAmount ?l i n = Inr r"
        "SelfGetItemData (put_bag w (fst r) p) w (int i) = Inr p'" "taken w ty n p p'"
        using take_step [OF less.prems(1) Some less.prems(2)] by auto
      have "take_loop w ty n p = Inr (p', True)"
        using r Some False less.prems by (subst take_loop.simps) (simp add: Let_def)
      then show ?thesis using False ge r(3) by (auto simp: min_def)
    next
      case True
      obtain r p' where r: "DecAmount ?l i ?a = Inr r"
        "SelfGetItemData (put_bag w (fst r) p) w (int i) = Inr p'" "taken w ty ?a p p'"
        using take_step [OF less.prems(1) Some a] by auto
      have step: "take_loop w ty n p = take_loop w ty (n - ?a) p'"
        using r Some True less.prems by (subst take_loop.simps) (simp add: Let_def)
      have "inv_all p'" "0 < n - ?a" "nat (n - ?a) < nat n" using r(3) True a by (auto simp: taken_def)
      from less.hyps [OF this(3,1,2)] obtain p'' b where IH: "take_loop w ty (n - ?a) p' = Inr (p'', b)"
        "b = (n - ?a \<le> amount_of (GetItemList p' w) ty)"
        "taken w ty (min (n - ?a) (amount_of (GetItemList p' w) ty)) p' p''" by blast
      then show ?thesis using step r(3) by (auto simp: taken_def min_def)
    qed
  qed
qed

text \<open>
  C40: \<open>TakeOutItem\<close> of \<open>n\<close> items always ends without abort. It answers true exactly if the bag
  holds that many and then removes exactly \<open>n\<close>; when it answers false it has removed all the
  items of the type there were.
\<close>

theorem TakeOutItem_greedy:
  assumes "inv_all p" "LocateLocation (GetItemCls m ty) = Some w" "0 < ty" "0 < n"
  shows "\<exists>p' b. Inv_TakeOutItem m p ty n = Inr (p', b) \<and> inv_all p' \<and>
     b = (n \<le> amount_of (GetItemList p w) ty) \<and>
     amount_of (GetItemList p' w) ty = (if b then amount_of (GetItemList p w) ty - n else 0) \<and>
     (\<forall>t. t \<noteq> ty \<longrightarrow> amount_of (GetItemList p' w) t = amount_of (GetItemList p w) t) \<and>
     (\<forall>w'. w' \<noteq> w \<longrightarrow> GetItemList p' w' = GetItemList p w')"
  using take_loop_ok [OF assms(1,4), of w ty] assms LocateLocation_pos [OF assms(2)]
  by (auto simp: Inv_TakeOutItem_def Let_def taken_def min_def)

theorem TakeOutItem_greedy_witness:
  "\<exists>p' b. Inv_TakeOutItem shop demo_inv 7 9 = Inr (p', b) \<and> \<not> b \<and> amount_of (GetItemList p' INVENTORY) 7 = 0"
proof -
  have "LocateLocation (GetItemCls shop 7) = Some INVENTORY"
    by (simp add: GetItemCls_def LocateLocation_def item_cls_defs)
  from TakeOutItem_greedy [OF demo_inv_ok this, of 9] show ?thesis
    by (auto simp: amount_of_def of_type_def)
qed

section \<open>The heartbeat of the subsystem\<close>

lemma expire_bag_ok:
  assumes "inv_all p" "distinct is" "\<forall>i \<in> set is. i < capacity (GetItemList p w) \<and>
     itype (slots (GetItemList p w) ! i) \<noteq> -1 \<and> icount (slots (GetItemList p w) ! i) = 1"
  shows "\<exists>p'. expire_bag w is p = Inr p' \<and> inv_all p' \<and>
     (\<forall>w'. w' \<noteq> w \<longrightarrow> GetItemList p' w' = GetItemList p w') \<and>
     (\<forall>j. slots (GetItemList p' w) ! j = (if j \<in> set is then empty_item else slots (GetItemList p w) ! j))"
  using assms
proof (induction "is" arbitrary: p)
  case (Cons i "is")
  let ?l = "GetItemList p w"
  have l: "il_inv ?l" "il_loc ?l = w" using Cons.prems(1) by (auto simp: inv_all_def)
  have i: "i < capacity ?l" "itype (slots ?l ! i) \<noteq> -1" "icount (slots ?l ! i) = 1" using Cons.prems(3) by auto
  obtain l' where l': "TakeOutItem ?l i (itype (slots ?l ! i)) 1 = Inr (l', True)" "il_inv l'" "same_bag ?l l'"
    "slots l' = (slots ?l)[i := empty_item]"
    using TakeOutItem_ok [OF l(1), of 1 i "itype (slots ?l ! i)"] i by auto
  have len: "i < length (slots ?l)" using i l by (simp add: il_inv_def)
  have inv': "inv_all (put_bag w l' p)" using Cons.prems(1) l l' by (intro inv_all_put) (auto simp: same_bag_def)
  obtain n where n: "SelfGetItemData (put_bag w l' p) w (int i) = Inr (notify n (put_bag w l' p))"
    using SelfGetItemData_ok [OF inv'] by blast
  let ?p1 = "notify n (put_bag w l' p)"
  have "expire_bag w (i # is) p = expire_bag w is ?p1"
    using l'(1) n len by (simp add: with_slot_def)
  moreover have "\<forall>j \<in> set is. j < capacity (GetItemList ?p1 w) \<and>
     itype (slots (GetItemList ?p1 w) ! j) \<noteq> -1 \<and> icount (slots (GetItemList ?p1 w) ! j) = 1"
  proof
    fix j assume j: "j \<in> set is"
    then have "j \<noteq> i" using Cons.prems(2) by auto
    then have "slots l' ! j = slots ?l ! j" using l'(4) by simp
    then show "j < capacity (GetItemList ?p1 w) \<and> itype (slots (GetItemList ?p1 w) ! j) \<noteq> -1 \<and>
        icount (slots (GetItemList ?p1 w) ! j) = 1"
      using Cons.prems(3) j l'(3) by (simp add: same_bag_def)
  qed
  ultimately show ?case
    using Cons.IH [of ?p1] inv' Cons.prems(2) l'(4) len by (auto simp: nth_list_update)
qed simp

lemma expire_indices:
  assumes inv: "il_inv l"
  shows "distinct (GetExpireItem l now [])"
    "\<forall>i \<in> set (GetExpireItem l now []). i < capacity l \<and> itype (slots l ! i) \<noteq> -1 \<and> icount (slots l ! i) = 1"
    "set (GetExpireItem l now []) = {i. \<exists>t. (i, t) \<in> set (aging_items l) \<and> t \<le> now}"
proof -
  have ag: "aging_ok (slots l) (aging_items l)" using inv by (simp add: il_inv_def)
  have "inj_on fst (set (aging_items l))" using aging_index_unique [OF ag] by (auto intro: inj_onI)
  then have "inj_on fst (set (filter (\<lambda>e. snd e \<le> now) (aging_items l)))"
    by (rule inj_on_subset) auto
  moreover have "distinct (aging_items l)" using ag sset_inv_distinct by (auto simp: aging_ok_def)
  ultimately show "distinct (GetExpireItem l now [])" by (simp add: GetExpireItem_def distinct_map)
  show "\<forall>i \<in> set (GetExpireItem l now []). i < capacity l \<and> itype (slots l ! i) \<noteq> -1 \<and> icount (slots l ! i) = 1"
  proof
    fix i assume "i \<in> set (GetExpireItem l now [])"
    then obtain e where e: "e \<in> set (aging_items l)" "fst e = i" by (auto simp: GetExpireItem_def)
    then have i: "i < capacity l" "itype (slots l ! i) \<noteq> -1" "expire_date (slots l ! i) \<noteq> 0"
      using ag inv by (auto simp: aging_ok_def il_inv_def)
    then show "i < capacity l \<and> itype (slots l ! i) \<noteq> -1 \<and> icount (slots l ! i) = 1"
      using il_inv_used [OF inv i(1,2)] by (auto simp: wf_item_def)
  qed
  show "set (GetExpireItem l now []) = {i. \<exists>t. (i, t) \<in> set (aging_items l) \<and> t \<le> now}"
    by (force simp: GetExpireItem_def)
qed

definition aged_out :: "player_inventory \<Rightarrow> int \<Rightarrow> location \<Rightarrow> nat \<Rightarrow> bool" where
  "aged_out p now w i \<longleftrightarrow> (\<exists>t. (i, t) \<in> set (aging_items (GetItemList p w)) \<and> t \<le> now)"

lemma expire_bags_ok:
  assumes "inv_all p" "distinct ws"
  shows "\<exists>p'. expire_bags now ws p = Inr p' \<and> inv_all p' \<and>
     (\<forall>w. w \<notin> set ws \<longrightarrow> GetItemList p' w = GetItemList p w) \<and>
     (\<forall>w \<in> set ws. \<forall>i. slots (GetItemList p' w) ! i =
        (if aged_out p now w i then empty_item else slots (GetItemList p w) ! i))"
  using assms
proof (induction ws arbitrary: p)
  case (Cons w ws)
  have "il_inv (GetItemList p w)" using Cons.prems(1) by (simp add: inv_all_def)
  note ex = expire_indices [OF this, of now]
  obtain p1 where p1: "expire_bag w (GetExpireItem (GetItemList p w) now []) p = Inr p1" "inv_all p1"
    "\<forall>w'. w' \<noteq> w \<longrightarrow> GetItemList p1 w' = GetItemList p w'"
    "\<forall>j. slots (GetItemList p1 w) ! j = (if aged_out p now w j then empty_item else slots (GetItemList p w) ! j)"
    using expire_bag_ok [OF Cons.prems(1) ex(1,2)] ex(3) by (auto simp: aged_out_def)
  have d: "distinct ws" "w \<notin> set ws" using Cons.prems(2) by auto
  obtain p' where p': "expire_bags now ws p1 = Inr p'" "inv_all p'"
    "\<forall>w. w \<notin> set ws \<longrightarrow> GetItemList p' w = GetItemList p1 w"
    "\<forall>w \<in> set ws. \<forall>i. slots (GetItemList p' w) ! i =
        (if aged_out p1 now w i then empty_item else slots (GetItemList p1 w) ! i)"
    using Cons.IH [OF p1(2) d(1)] by blast
  have same: "GetItemList p1 w' = GetItemList p w'" if "w' \<in> set ws" for w'
    using that d(2) p1(3) by metis
  then have "aged_out p1 now w' = aged_out p now w'" if "w' \<in> set ws" for w'
    using that unfolding aged_out_def by presburger
  with same show ?case using p1 p' d(2) by auto
qed simp

text \<open>
  The subsystem's heartbeat removes, from all seven bags, exactly the items whose entry in
  the ageing sets is due, keeps every other slot, and never aborts.
\<close>

theorem OnHeartbeat_exact:
  assumes "inv_all p"
  shows "\<exists>p'. OnHeartbeat now p = Inr p' \<and> inv_all p' \<and>
     (\<forall>w i. slots (GetItemList p' w) ! i =
        (if aged_out p now w i then empty_item else slots (GetItemList p w) ! i))"
proof -
  have "w \<in> set all_locations" for w by (cases w) (auto simp: all_locations_def)
  moreover have "distinct all_locations" by (simp add: all_locations_def)
  ultimately show ?thesis
    using expire_bags_ok [OF assms, of all_locations now] unfolding OnHeartbeat_def by blast
qed

theorem OnHeartbeat_exact_witness:
  "\<exists>p'. OnHeartbeat 60 (demo_inv\<lparr>bag_inventory := aged_bag\<rparr>) = Inr p' \<and>
     slots (GetItemList p' INVENTORY) ! 0 = empty_item"
proof -
  let ?p = "demo_inv\<lparr>bag_inventory := aged_bag\<rparr>"
  have "?p = put_bag INVENTORY aged_bag demo_inv" by simp
  then have "inv_all ?p" using inv_all_put [OF demo_inv_ok aged_bag_inv, of INVENTORY] by simp
  from OnHeartbeat_exact [OF this, of 60] obtain p' where p': "OnHeartbeat 60 ?p = Inr p'"
    "\<forall>w i. slots (GetItemList p' w) ! i =
        (if aged_out ?p 60 w i then empty_item else slots (GetItemList ?p w) ! i)" by blast
  have "aged_out ?p 60 INVENTORY 0" by (simp add: aged_out_def)
  with p'(2) have "slots (GetItemList p' INVENTORY) ! 0 = empty_item" by presburger
  with p'(1) show ?thesis by blast
qed

section \<open>Equipment\<close>

lemma PushInEmpty_at:
  assumes inv: "il_inv l" and i: "i < capacity l" "itype (slots l ! i) = -1" and wf: "wf_item it"
  shows "\<exists>l' it'. PushInEmpty l (int i) it = Inr (l', int i) \<and> il_inv l' \<and> same_bag l l' \<and>
     slots l' = (slots l)[i := it'] \<and> same_item it' it"
proof -
  have u: "nat (u64 (int i)) = i" using i(1) inv by (simp add: il_inv_def u64_id)
  have "drop i (slots l) = slots l ! i # drop (Suc i) (slots l)"
    using il_inv_slot [OF inv i(1)] by (simp add: Cons_nth_drop_Suc)
  then have f: "find_from (\<lambda>it. itype it = -1) i (drop i (slots l)) = Some i" using i(2) by simp
  obtain l2 it' where "bindr (AssignSlot l i it) (\<lambda>l1. bindr (OnPutIn l1 i)
      (\<lambda>l2. Inr (l2, int i))) = Inr (l2, int i)"
    "il_inv l2" "slots l2 = (slots l)[i := it']" "same_item it' it" "same_bag l l2"
    using assign_put_ok [OF inv i wf, of "\<lambda>l2. Inr (l2, int i)"] by blast
  then show ?thesis using u f wf by (auto simp: PushInEmpty_def wf_item_def)
qed

lemma il_inv_bind:
  assumes inv: "il_inv l" and i: "i < capacity l" "itype (slots l ! i) \<noteq> -1"
  shows "il_inv (set_slot l i (Item_Bind (slots l ! i)))"
proof -
  let ?it = "Item_Bind (slots l ! i)"
  have ok: "slot_ok (il_loc l) ?it"
    using il_inv_used [OF inv i] by (auto simp: slot_ok_def placed_def wf_item_def Item_Bind_def)
  have ty: "itype ?it = itype (slots l ! i)" "expire_date ?it = expire_date (slots l ! i)"
    by (auto simp: Item_Bind_def)
  have "itype ((slots l)[i := ?it] ! k) = itype (slots l ! k)"
    "expire_date ((slots l)[i := ?it] ! k) = expire_date (slots l ! k)" for k
    using ty il_inv_slot [OF inv i(1)] by (cases "k = i"; simp)+
  then have "aging_ok ((slots l)[i := ?it]) (aging_items l)"
    using inv by (auto simp: il_inv_def aging_ok_def)
  then show ?thesis using inv ok ty il_inv_slot [OF inv i(1)]
    by (auto simp: il_inv_def set_slot_def empties_update dest!: subsetD [OF set_update_subset_insert])
qed

lemma same_item_trans: "same_item a b \<Longrightarrow> same_item b c \<Longrightarrow> same_item a c"
  by (simp add: same_item_def)

definition only_slot :: "nat \<Rightarrow> item_list \<Rightarrow> item_list \<Rightarrow> bool" where
  "only_slot i l l' \<longleftrightarrow> same_bag l l' \<and> (\<forall>k. k \<noteq> i \<longrightarrow> slots l' ! k = slots l ! k)"

lemma only_slot_update: "same_bag l l' \<Longrightarrow> slots l' = (slots l)[i := it] \<Longrightarrow> only_slot i l l'"
  by (simp add: only_slot_def)

text \<open>The two bags after the handler's exchange, before binding and notices.\<close>

lemma equip_exchange:
  assumes bg: "il_inv bag" "il_loc bag = INVENTORY" and eq: "il_inv eq" "il_loc eq = EQUIPMENT"
    and i: "i < capacity bag" "itype (slots bag ! i) \<noteq> -1" and j: "j < capacity eq"
  shows "\<exists>inv1 it1 free inv2 eq1 eq2. RemoveItem bag i = Inr (inv1, it1) \<and>
     IsEmptySlot eq j = Inr free \<and> free = (itype (slots eq ! j) = -1) \<and>
     (if free then inv2 = inv1 \<and> eq1 = eq
      else \<exists>it2. RemoveItem eq j = Inr (eq1, it2) \<and> PushInEmpty inv1 (int i) it2 = Inr (inv2, int i)) \<and>
     PushInEmpty eq1 (int j) it1 = Inr (eq2, int j) \<and> il_inv inv2 \<and> il_inv eq2 \<and>
     only_slot i bag inv2 \<and> only_slot j eq eq2 \<and> same_item (slots eq2 ! j) (slots bag ! i) \<and>
     (if free then slots inv2 ! i = empty_item else same_item (slots inv2 ! i) (slots eq ! j))"
proof -
  obtain inv1 it1 where r1: "RemoveItem bag i = Inr (inv1, it1)" "il_inv inv1" "same_bag bag inv1"
    "slots inv1 = (slots bag)[i := empty_item]" "same_item it1 (slots bag ! i)" "wf_item it1"
    using RemoveItem_ok [OF bg(1) i] by blast
  have len: "i < length (slots bag)" "j < length (slots eq)"
    using il_inv_slot [OF bg(1) i(1)] il_inv_slot [OF eq(1) j] by auto
  have cap1: "i < capacity inv1" using r1(3) i(1) by (simp add: same_bag_def)
  have e1: "itype (slots inv1 ! i) = -1" using r1(4) len by simp
  have fr: "IsEmptySlot eq j = Inr (itype (slots eq ! j) = -1)"
    using len by (simp add: IsEmptySlot_def with_slot_def)
  show ?thesis
  proof (cases "itype (slots eq ! j) = -1")
    case True
    obtain eq2 it' where p: "PushInEmpty eq (int j) it1 = Inr (eq2, int j)" "il_inv eq2" "same_bag eq eq2"
      "slots eq2 = (slots eq)[j := it']" "same_item it' it1"
      using PushInEmpty_at [OF eq(1) j True r1(6)] by blast
    have "same_item (slots eq2 ! j) (slots bag ! i)" using p(4,5) r1(5) len same_item_trans by simp
    then show ?thesis using True r1 fr p only_slot_update [OF p(3,4)] only_slot_update [OF r1(3,4)] len
      by (intro exI [of _ inv1] exI [of _ it1] exI [of _ True] exI [of _ inv1] exI [of _ eq] exI [of _ eq2]) simp
  next
    case False
    obtain eq1 it2 where r2: "RemoveItem eq j = Inr (eq1, it2)" "il_inv eq1" "same_bag eq eq1"
      "slots eq1 = (slots eq)[j := empty_item]" "same_item it2 (slots eq ! j)" "wf_item it2"
      using RemoveItem_ok [OF eq(1) j False] by blast
    obtain inv2 it2' where p2: "PushInEmpty inv1 (int i) it2 = Inr (inv2, int i)" "il_inv inv2" "same_bag inv1 inv2"
      "slots inv2 = (slots inv1)[i := it2']" "same_item it2' it2"
      using PushInEmpty_at [OF r1(2) cap1 e1 r2(6)] by blast
    have cap2: "j < capacity eq1" using r2(3) j by (simp add: same_bag_def)
    have e2: "itype (slots eq1 ! j) = -1" using r2(4) len by simp
    obtain eq2 it' where p: "PushInEmpty eq1 (int j) it1 = Inr (eq2, int j)" "il_inv eq2" "same_bag eq1 eq2"
      "slots eq2 = (slots eq1)[j := it']" "same_item it' it1"
      using PushInEmpty_at [OF r2(2) cap2 e2 r1(6)] by blast
    have s: "slots inv2 = (slots bag)[i := it2']" "slots eq2 = (slots eq)[j := it']" using p2(4) r1(4) p(4) r2(4) by simp_all
    have b: "same_bag bag inv2" "same_bag eq eq2" using same_bag_trans r1(3) p2(3) r2(3) p(3) by blast+
    have "same_item (slots eq2 ! j) (slots bag ! i)" "same_item (slots inv2 ! i) (slots eq ! j)"
      using s len p(5) r1(5) p2(5) r2(5) same_item_trans by auto
    then show ?thesis using False r1(1) r2(1) fr p(1,2) p2(1,2) only_slot_update [OF b(2) s(2)] only_slot_update [OF b(1) s(1)]
      by (intro exI [of _ inv1] exI [of _ it1] exI [of _ False] exI [of _ inv2] exI [of _ eq1] exI [of _ eq2]) auto
  qed
qed

text \<open>
  C29: Equipping never trips its assertions and loses nothing: the equipment slot gets the item of
  the bag's slot, the bag's slot gets the item that was worn there, or becomes empty if none was,
  and every other slot of both bags and every other bag is as before.
\<close>

theorem EquipItem_swaps:
  assumes inv: "inv_all p" and i: "i < capacity (bag_inventory p)" "itype (slots (bag_inventory p) ! i) \<noteq> -1"
    and j: "j < capacity (bag_equipment p)"
    and can: "Item_CanActivate m INVENTORY j (slots (bag_inventory p) ! i)"
  shows "\<exists>p'. CMDHandler_EquipItem m (int i) (int j) p = Inr p' \<and> inv_all p' \<and>
     same_item (slots (bag_equipment p') ! j) (slots (bag_inventory p) ! i) \<and>
     (if itype (slots (bag_equipment p) ! j) = -1 then slots (bag_inventory p') ! i = empty_item
      else same_item (slots (bag_inventory p') ! i) (slots (bag_equipment p) ! j)) \<and>
     only_slot i (bag_inventory p) (bag_inventory p') \<and> only_slot j (bag_equipment p) (bag_equipment p') \<and>
     (\<forall>w. w \<noteq> INVENTORY \<and> w \<noteq> EQUIPMENT \<longrightarrow> GetItemList p' w = GetItemList p w)"
proof -
  let ?inv = "bag_inventory p" and ?eq = "bag_equipment p"
  have b: "il_inv ?inv" "il_loc ?inv = INVENTORY" "il_inv ?eq" "il_loc ?eq = EQUIPMENT"
    using inv [unfolded inv_all_def, rule_format, of INVENTORY] inv [unfolded inv_all_def, rule_format, of EQUIPMENT]
    by auto
  obtain inv1 it1 free inv2 eq1 eq2 where x: "RemoveItem ?inv i = Inr (inv1, it1)"
    "IsEmptySlot ?eq j = Inr free" "free = (itype (slots ?eq ! j) = -1)"
    "if free then inv2 = inv1 \<and> eq1 = ?eq
      else \<exists>it2. RemoveItem ?eq j = Inr (eq1, it2) \<and> PushInEmpty inv1 (int i) it2 = Inr (inv2, int i)"
    "PushInEmpty eq1 (int j) it1 = Inr (eq2, int j)" "il_inv inv2" "il_inv eq2"
    "only_slot i ?inv inv2" "only_slot j ?eq eq2" "same_item (slots eq2 ! j) (slots ?inv ! i)"
    "if free then slots inv2 ! i = empty_item else same_item (slots inv2 ! i) (slots ?eq ! j)"
    using equip_exchange [OF b(1,2,3,4) i j] by blast
  have capj: "j < capacity eq2" "j < length (slots eq2)"
    using x(7,9) j by (auto simp: only_slot_def same_bag_def il_inv_def)
  have used: "itype (slots eq2 ! j) \<noteq> -1" using x(10) i(2) by (simp add: same_item_def)
  let ?it = "slots eq2 ! j"
  obtain eq3 where e3: "eq3 = (if TestBindOnEquip ?it then set_slot eq2 j (Item_Bind ?it) else eq2)" by blast
  let ?p0 = "p\<lparr>bag_inventory := inv2, bag_equipment := eq3\<rparr>"
  let ?p1 = "notify (NEquip i j) ?p0"
  have eq3: "il_inv eq3" "same_bag eq2 eq3" "only_slot j eq2 eq3" "same_item (slots eq3 ! j) ?it"
    using il_inv_bind [OF x(7) capj(1) used] x(7) capj
    by (auto simp: e3 same_bag_def only_slot_def set_slot_def Item_Bind_def same_item_def)
  have p0: "?p0 = put_bag EQUIPMENT eq3 (put_bag INVENTORY inv2 p)" by simp
  have "inv_all (put_bag INVENTORY inv2 p)"
    using x(6,8) b(2) by (intro inv_all_put [OF inv]) (auto simp: only_slot_def same_bag_def)
  from inv_all_put [OF this eq3(1), of EQUIPMENT] have inv0: "inv_all ?p0" unfolding p0
    using x(9) b(4) eq3(2) by (auto simp: only_slot_def same_bag_def)
  have ts: "to_size (int i) = i" "to_size (int j) = j"
    using i(1) j b(1,3) by (auto simp: il_inv_def to_size_id)
  have leni: "i < length (slots ?inv)" using il_inv_slot [OF b(1) i(1)] by simp
  have h: "CMDHandler_EquipItem m (int i) (int j) p =
      (if TestBindOnEquip ?it then SelfGetItemData ?p1 EQUIPMENT (int j) else Inr ?p1)"
    using x(1,2,4,5) i j can leni capj
    by (auto simp: CMDHandler_EquipItem_def Let_def ts with_slot_def e3 split: if_splits)
  obtain n where n: "SelfGetItemData ?p1 EQUIPMENT (int j) = Inr (notify n ?p1)"
    using SelfGetItemData_ok [of ?p1] inv0 by auto
  obtain p' where p': "CMDHandler_EquipItem m (int i) (int j) p = Inr p'"
    "\<forall>w. GetItemList p' w = GetItemList ?p0 w"
    using h n by (cases "TestBindOnEquip ?it") auto
  have e: "bag_equipment p' = eq3" "bag_inventory p' = inv2"
    using p'(2) [rule_format, of EQUIPMENT] p'(2) [rule_format, of INVENTORY] by simp_all
  have "same_item (slots eq3 ! j) (slots ?inv ! i)" using eq3(4) x(10) by (rule same_item_trans)
  moreover have "only_slot j ?eq eq3" using x(9) eq3(3) by (auto simp: only_slot_def same_bag_def)
  moreover have "inv_all p'" using inv0 p'(2) by (simp add: inv_all_def)
  moreover have "GetItemList p' w = GetItemList p w" if "w \<noteq> INVENTORY \<and> w \<noteq> EQUIPMENT" for w
    using that p'(2) [rule_format, of w] by (cases w) simp_all
  ultimately show ?thesis using p'(1) x(3,8,11) unfolding e by (intro exI [of _ p']) (auto simp: e)
qed

theorem EquipItem_swaps_witness:
  "\<exists>p'. CMDHandler_EquipItem (shop\<lparr>body_map := (\<lambda>_. Some \<lparr>body_rank = 0, body_equip_mask = 1,
       body_extra_price = (\<lambda>_. 0), body_test_use = (\<lambda>_ _. False), body_on_use = (\<lambda>_ _. ITEM_USE_FAILURE),
       body_test_activate = (\<lambda>_ _. True)\<rparr>)\<rparr>) 0 0
     (demo_inv\<lparr>bag_inventory := bag2 ((flask 4)\<lparr>pBody := Some 7\<rparr>) empty_item\<rparr>) = Inr p' \<and>
     itype (slots (bag_equipment p') ! 0) = 7"
proof -
  let ?p = "demo_inv\<lparr>bag_inventory := bag2 ((flask 4)\<lparr>pBody := Some 7\<rparr>) empty_item\<rparr>"
  have "slot_ok INVENTORY ((flask 4)\<lparr>pBody := Some 7\<rparr>)"
    by (simp add: slot_ok_def placed_def wf_item_def activating_def)
  from inv_all_put [OF demo_inv_ok bag2_inv [OF this empty_ok], of INVENTORY] have inv: "inv_all ?p" by simp
  show ?thesis
    using EquipItem_swaps [OF inv, of 0 0 "shop\<lparr>body_map := (\<lambda>_. Some \<lparr>body_rank = 0, body_equip_mask = 1,
       body_extra_price = (\<lambda>_. 0), body_test_use = (\<lambda>_ _. False), body_on_use = (\<lambda>_ _. ITEM_USE_FAILURE),
       body_test_activate = (\<lambda>_ _. True)\<rparr>)\<rparr>"]
    by (auto simp: Item_CanActivate_def PlayerInventory_init_def ItemList_init_def EQUIP_INDEX_MAX_def same_item_def)
qed

section \<open>Indices that come from the client\<close>

text \<open>
  For an index outside the bag, selling and equipping answer without touching the bags, but
  dropping, using and testing for trade read the slot before any check: the read is out of range.
\<close>

theorem client_index_unchecked:
  assumes inv: "inv_all p" and far: "capacity (bag_inventory p) \<le> to_size idx" and n: "0 < n"
  shows "CMDHandler_DropInventoryItem idx n p = Inl OutOfRange \<and>
     CMDHandler_UseItem m 0 idx p = Inl OutOfRange \<and>
     Inv_CanTrade p 0 idx = Inl OutOfRange \<and>
     CMDHandler_EquipItem m idx j p = Inr (notify (NError ERR_FATAL_ERROR) p)"
proof -
  have "il_inv (bag_inventory p)" using inv [unfolded inv_all_def, rule_format, of INVENTORY] by simp
  then have len: "length (slots (bag_inventory p)) = capacity (bag_inventory p)" by (simp add: il_inv_def)
  have "location_of 0 = Some INVENTORY" by (simp add: location_of_def all_locations_def)
  then show ?thesis using far n len
    by (simp add: CMDHandler_DropInventoryItem_def CMDHandler_UseItem_def Inv_CanTrade_def
        CMDHandler_EquipItem_def with_slot_def Let_def)
qed

theorem client_index_unchecked_witness:
  "CMDHandler_DropInventoryItem (-1) 1 demo_inv = Inl OutOfRange"
  using client_index_unchecked [OF demo_inv_ok, of "-1" 1] by (simp add: to_size_def u64_def)

end
