(* ===== verification/OpenHeap.thy ===== *)
theory OpenHeap
  imports Prelude "HOL-Library.AList"
begin

unbundle bit_operations_syntax

text \<open>
  \<open>pathfinder/pf_engine/base_astar.h\<close>: the binary heap \<open>OpenHeap\<close> of the A* searches with its
  index from node keys to heap positions, the hash \<open>CloseHash\<close>, and the packing of a node's
  owner and coordinates into a key. The heap holds pointers to nodes whose cost the search
  changes in place, so the operations take the node's key and cost as functions of the pointer;
  \<open>Update\<close> is called after the cost function has changed at one pointer.
\<close>

section \<open>Keys\<close>

text \<open>
  \<open>MAKE_KEY(o,x,z)\<close>: the coordinates are combined as 32-bit \<open>int\<close>s, so a set bit 15 of \<open>z\<close> ends
  up in the sign bit, which widening to 64 bits extends. \<open>GEN_KEY\<close> is the 32-bit part.
\<close>

definition GEN_KEY :: "int \<Rightarrow> int \<Rightarrow> int" where
  "GEN_KEY x z = i32 ((x mod 65536) + (z mod 65536) * 65536)"

definition MAKE_KEY :: "int \<Rightarrow> int \<Rightarrow> int \<Rightarrow> int" where
  "MAKE_KEY ow x z =
     i64 ((i32 ((x mod 65536) + (z mod 65536) * 65536)) OR ((ow mod 65536) * 4294967296))"

definition i16_of :: "int \<Rightarrow> int" where
  "i16_of v = i16 v"

definition GET_KEY_X :: "int \<Rightarrow> int" where
  "GET_KEY_X key = i16_of (key mod 65536)"

definition GET_KEY_Z :: "int \<Rightarrow> int" where
  "GET_KEY_Z key = i16_of ((key div 65536) mod 65536)"

section \<open>OpenHeap\<close>

record 'p open_heap =
  hlist :: "'p list"
  pos2idx :: "(int \<times> nat) list"

abbreviation idx_of :: "'p open_heap \<Rightarrow> int \<Rightarrow> nat option" where
  "idx_of h \<equiv> map_of (pos2idx h)"

lemma idx_upd [simp]:
  "map_of (AList.update k v m) = (map_of m)(k := Some v)"
  "map_of (AList.delete k m) = (map_of m)(k := None)"
  by (simp_all add: update_conv' delete_conv')

definition OpenHeap_init :: "'p open_heap" where
  "OpenHeap_init = \<lparr>hlist = [], pos2idx = []\<rparr>"

definition Heap_Swap :: "('p \<Rightarrow> int) \<Rightarrow> 'p open_heap \<Rightarrow> nat \<Rightarrow> nat \<Rightarrow> 'p open_heap" where
  "Heap_Swap key h i j =
     (let obj1 = hlist h ! i; obj2 = hlist h ! j in
      h\<lparr>hlist := (hlist h)[j := obj1, i := obj2],
        pos2idx := AList.update (key obj2) i (AList.update (key obj1) j (pos2idx h))\<rparr>)"

definition parent :: "nat \<Rightarrow> nat" where
  "parent i = (i - 1) div 2"

lemma parent_less: "0 < i \<Longrightarrow> parent i < i"
  unfolding parent_def by linarith

function HeapifyUp :: "('p \<Rightarrow> 'c::linorder) \<Rightarrow> ('p \<Rightarrow> int) \<Rightarrow> 'p open_heap \<Rightarrow> nat \<Rightarrow> 'p open_heap" where
  "HeapifyUp cost key h i =
     (if i > 0 then
        (let p = parent i in
         if cost (hlist h ! p) > cost (hlist h ! i) then HeapifyUp cost key (Heap_Swap key h i p) p else h)
      else h)"
  by pat_completeness auto
termination by (relation "measure (\<lambda>(_, _, _, i). i)") (auto simp: parent_less)

definition min_child :: "('p \<Rightarrow> 'c::linorder) \<Rightarrow> 'p list \<Rightarrow> nat \<Rightarrow> nat" where
  "min_child cost l i =
     (if 2 * i + 2 \<ge> length l then 2 * i + 1
      else if cost (l ! (2 * i + 1)) < cost (l ! (2 * i + 2)) then 2 * i + 1 else 2 * i + 2)"

lemma hlist_Swap [simp]: "hlist (Heap_Swap key h i j) = (hlist h)[j := hlist h ! i, i := hlist h ! j]"
  by (simp add: Heap_Swap_def Let_def)

lemma min_child_gt: "i < min_child cost l i"
  by (simp add: min_child_def)

function HeapifyDown :: "('p \<Rightarrow> 'c::linorder) \<Rightarrow> ('p \<Rightarrow> int) \<Rightarrow> 'p open_heap \<Rightarrow> nat \<Rightarrow> 'p open_heap" where
  "HeapifyDown cost key h i =
     (if i < length (hlist h) then
        if 2 * i + 1 \<ge> length (hlist h) then h
        else let c = min_child cost (hlist h) i in
          if cost (hlist h ! c) < cost (hlist h ! i) then HeapifyDown cost key (Heap_Swap key h c i) c else h
      else h)"
  by pat_completeness auto
termination
  by (relation "measure (\<lambda>(_, _, h, i). length (hlist h) - i)")
    (auto simp: min_child_def)

declare HeapifyUp.simps [simp del] HeapifyDown.simps [simp del]

definition Heap_Push :: "('p \<Rightarrow> 'c::linorder) \<Rightarrow> ('p \<Rightarrow> int) \<Rightarrow> 'p \<Rightarrow> 'p open_heap \<Rightarrow> 'p open_heap" where
  "Heap_Push cost key obj h =
     (let h1 = h\<lparr>pos2idx := AList.update (key obj) (length (hlist h)) (pos2idx h), hlist := hlist h @ [obj]\<rparr>
      in HeapifyUp cost key h1 (length (hlist h1) - 1))"

definition Heap_Pop :: "('p \<Rightarrow> 'c::linorder) \<Rightarrow> ('p \<Rightarrow> int) \<Rightarrow> 'p open_heap \<Rightarrow> 'p open_heap" where
  "Heap_Pop cost key h =
     (if hlist h = [] then h
      else let h1 = Heap_Swap key h 0 (length (hlist h) - 1);
               h2 = h1\<lparr>pos2idx := AList.delete (key (last (hlist h1))) (pos2idx h1), hlist := butlast (hlist h1)\<rparr>
           in HeapifyDown cost key h2 0)"

text \<open>\<open>pos2idx[key]\<close> of a node that is not in the heap creates an entry with index 0.\<close>

definition Heap_Update :: "('p \<Rightarrow> 'c::linorder) \<Rightarrow> ('p \<Rightarrow> int) \<Rightarrow> 'p \<Rightarrow> 'p open_heap \<Rightarrow> 'p open_heap" where
  "Heap_Update cost key obj h =
     (case idx_of h (key obj) of
        Some i \<Rightarrow> HeapifyUp cost key h i
      | None \<Rightarrow> HeapifyUp cost key (h\<lparr>pos2idx := AList.update (key obj) 0 (pos2idx h)\<rparr>) 0)"

definition Heap_Empty :: "'p open_heap \<Rightarrow> bool" where
  "Heap_Empty h \<longleftrightarrow> hlist h = [] \<and> pos2idx h = []"

definition Heap_Top :: "'p open_heap \<Rightarrow> 'p option" where
  "Heap_Top h = (case hlist h of [] \<Rightarrow> None | p # _ \<Rightarrow> Some p)"

definition Heap_Find :: "int \<Rightarrow> 'p open_heap \<Rightarrow> 'p option" where
  "Heap_Find k h = (case idx_of h k of None \<Rightarrow> None | Some i \<Rightarrow> Some (hlist h ! i))"

definition Heap_Clear :: "'p open_heap \<Rightarrow> 'p open_heap" where
  "Heap_Clear h = OpenHeap_init"

section \<open>CloseHash\<close>

type_synonym 'p close_hash = "int \<Rightarrow> 'p option"

definition Close_Push :: "('p \<Rightarrow> int) \<Rightarrow> 'p \<Rightarrow> 'p close_hash \<Rightarrow> 'p close_hash" where
  "Close_Push key obj m = m(key obj := Some obj)"

definition Close_Remove :: "('p \<Rightarrow> int) \<Rightarrow> 'p \<Rightarrow> 'p close_hash \<Rightarrow> 'p close_hash" where
  "Close_Remove key obj m = m(key obj := None)"

definition Close_Find :: "int \<Rightarrow> 'p close_hash \<Rightarrow> 'p option" where
  "Close_Find k m = m k"

section \<open>The heap order\<close>

definition heap_ok :: "('p \<Rightarrow> 'c::linorder) \<Rightarrow> 'p list \<Rightarrow> bool" where
  "heap_ok cost l \<longleftrightarrow> (\<forall>j. 0 < j \<and> j < length l \<longrightarrow> cost (l ! parent j) \<le> cost (l ! j))"

text \<open>In order but for the edge above \<open>i\<close>, or but for the edges below \<open>i\<close>.\<close>

definition up_ok :: "('p \<Rightarrow> 'c::linorder) \<Rightarrow> 'p list \<Rightarrow> nat \<Rightarrow> bool" where
  "up_ok cost l i \<longleftrightarrow>
     (\<forall>j. 0 < j \<and> j < length l \<and> j \<noteq> i \<longrightarrow> cost (l ! parent j) \<le> cost (l ! j)) \<and>
     (\<forall>j. 0 < j \<and> j < length l \<and> parent j = i \<and> 0 < i \<longrightarrow> cost (l ! parent i) \<le> cost (l ! j))"

definition down_ok :: "('p \<Rightarrow> 'c::linorder) \<Rightarrow> 'p list \<Rightarrow> nat \<Rightarrow> bool" where
  "down_ok cost l i \<longleftrightarrow>
     (\<forall>j. 0 < j \<and> j < length l \<and> parent j \<noteq> i \<longrightarrow> cost (l ! parent j) \<le> cost (l ! j)) \<and>
     (\<forall>j. 0 < j \<and> j < length l \<and> parent j = i \<and> 0 < i \<longrightarrow> cost (l ! parent i) \<le> cost (l ! j))"

definition idx_ok :: "('p \<Rightarrow> int) \<Rightarrow> 'p open_heap \<Rightarrow> bool" where
  "idx_ok key h \<longleftrightarrow> (\<forall>i < length (hlist h). idx_of h (key (hlist h ! i)) = Some i) \<and>
     (\<forall>k. idx_of h k \<noteq> None \<longrightarrow> (\<exists>i < length (hlist h). key (hlist h ! i) = k))"

definition heap_inv :: "('p \<Rightarrow> 'c::linorder) \<Rightarrow> ('p \<Rightarrow> int) \<Rightarrow> 'p open_heap \<Rightarrow> bool" where
  "heap_inv cost key h \<longleftrightarrow> heap_ok cost (hlist h) \<and> idx_ok key h"

lemma parent_child: "parent j = i \<longleftrightarrow> j = 2 * i + 1 \<or> j = 2 * i + 2 \<or> j = 0 \<and> i = 0"
  unfolding parent_def by auto

lemma nth_swap:
  "i < length l \<Longrightarrow> j < length l \<Longrightarrow>
     l[j := l ! i, i := l ! j] ! k = (if k = i then l ! j else if k = j then l ! i else l ! k)"
  by (auto simp: nth_list_update)

lemma mset_Swap: "i < length l \<Longrightarrow> j < length l \<Longrightarrow> mset (l[j := l ! i, i := l ! j]) = mset l"
  by (simp add: mset_swap)

lemma idx_ok_Swap:
  assumes "idx_ok key h" "i < length (hlist h)" "j < length (hlist h)"
  shows "idx_ok key (Heap_Swap key h i j)"
proof -
  have inj: "a = b" if "a < length (hlist h)" "b < length (hlist h)" "key (hlist h ! a) = key (hlist h ! b)" for a b
    using assms(1) that unfolding idx_ok_def by (metis option.inject)
  have p: "idx_of (Heap_Swap key h i j) =
      (idx_of h)(key (hlist h ! i) := Some j, key (hlist h ! j) := Some i)"
    by (simp add: Heap_Swap_def Let_def)
  show ?thesis unfolding idx_ok_def
  proof (intro conjI allI impI)
    fix k assume k: "k < length (hlist (Heap_Swap key h i j))"
    then show "idx_of (Heap_Swap key h i j) (key (hlist (Heap_Swap key h i j) ! k)) = Some k"
      using assms inj unfolding p hlist_Swap nth_swap [OF assms(2,3)] by (auto simp: idx_ok_def)
  next
    fix k assume "idx_of (Heap_Swap key h i j) k \<noteq> None"
    then consider "k = key (hlist h ! i)" | "k = key (hlist h ! j)" | "idx_of h k \<noteq> None"
      unfolding p by (auto split: if_splits)
    then obtain a where "a < length (hlist h)" "key (hlist h ! a) = k"
      by cases (use assms in \<open>auto simp: idx_ok_def\<close>)
    then show "\<exists>a < length (hlist (Heap_Swap key h i j)). key (hlist (Heap_Swap key h i j) ! a) = k"
      unfolding hlist_Swap nth_swap [OF assms(2,3)] using assms(2,3)
      by (intro exI [of _ "if a = i then j else if a = j then i else a"]) auto
  qed
qed

lemma up_ok_Swap:
  assumes up: "up_ok cost l i" and i: "0 < i" "i < length l" and lt: "cost (l ! i) < cost (l ! parent i)"
  shows "up_ok cost (l[parent i := l ! i, i := l ! parent i]) (parent i)"
proof -
  let ?p = "parent i"
  have p: "?p < i" "?p < length l" using parent_less [OF i(1)] i(2) by auto
  have A: "cost (l ! parent j) \<le> cost (l ! j)" if "0 < j" "j < length l" "j \<noteq> i" for j
    using up that by (simp add: up_ok_def)
  have B: "cost (l ! ?p) \<le> cost (l ! j)" if "0 < j" "j < length l" "parent j = i" for j
    using up that i(1) by (simp add: up_ok_def)
  note sw = nth_swap [OF i(2) p(2)]
  show ?thesis unfolding up_ok_def sw
  proof (intro conjI allI impI)
    fix j assume j: "0 < j \<and> j < length (l[?p := l ! i, i := l ! ?p]) \<and> j \<noteq> ?p"
    then have j': "0 < j" "j < length l" "j \<noteq> ?p" by auto
    have pj: "parent j < j" using j' parent_less by simp
    show "cost (if parent j = i then l ! ?p else if parent j = ?p then l ! i else l ! parent j)
        \<le> cost (if j = i then l ! ?p else if j = ?p then l ! i else l ! j)"
      using A [OF j'(1,2)] B [OF j'(1,2)] lt j' p(1) pj by auto
  next
    fix j assume j: "0 < j \<and> j < length (l[?p := l ! i, i := l ! ?p]) \<and> parent j = ?p \<and> 0 < ?p"
    then have "cost (l ! parent ?p) \<le> cost (l ! ?p)" using A [of ?p] p by auto
    moreover have "j \<noteq> i \<Longrightarrow> cost (l ! ?p) \<le> cost (l ! j)" using A [of j] j by auto
    moreover have "parent ?p < ?p" using j parent_less by blast
    moreover have "j \<noteq> ?p" using j parent_less [of j] by auto
    ultimately show "cost (if parent ?p = i then l ! ?p else if parent ?p = ?p then l ! i else l ! parent ?p)
        \<le> cost (if j = i then l ! ?p else if j = ?p then l ! i else l ! j)"
      using p(1) by auto
  qed
qed

lemma HeapifyUp_ok:
  assumes "up_ok cost (hlist h) i" "idx_ok key h" "i < length (hlist h)"
  shows "heap_inv cost key (HeapifyUp cost key h i) \<and> mset (hlist (HeapifyUp cost key h i)) = mset (hlist h)"
  using assms
proof (induction cost key h i rule: HeapifyUp.induct)
  case (1 cost key h i)
  show ?case
  proof (cases "0 < i \<and> cost (hlist h ! parent i) > cost (hlist h ! i)")
    case True
    let ?h = "Heap_Swap key h i (parent i)"
    have p: "parent i < length (hlist h)" using parent_less [of i] True "1.prems"(3) by simp
    have "up_ok cost (hlist ?h) (parent i)"
      unfolding hlist_Swap using up_ok_Swap "1.prems" True by blast
    moreover have "idx_ok key ?h" using idx_ok_Swap "1.prems" p by blast
    moreover have "parent i < length (hlist ?h)" using p by simp
    ultimately have "heap_inv cost key (HeapifyUp cost key ?h (parent i)) \<and>
        mset (hlist (HeapifyUp cost key ?h (parent i))) = mset (hlist ?h)"
      using "1.IH" True by blast
    moreover have "HeapifyUp cost key h i = HeapifyUp cost key ?h (parent i)"
      using True by (subst HeapifyUp.simps) (simp add: Let_def)
    ultimately show ?thesis using mset_Swap "1.prems"(3) p by simp
  next
    case False
    then have "HeapifyUp cost key h i = h" by (subst HeapifyUp.simps) (auto simp: Let_def)
    moreover have "heap_ok cost (hlist h)"
      unfolding heap_ok_def
    proof (intro allI impI)
      fix j assume j: "0 < j \<and> j < length (hlist h)"
      show "cost (hlist h ! parent j) \<le> cost (hlist h ! j)"
        using "1.prems"(1) j False by (cases "j = i") (auto simp: up_ok_def)
    qed
    ultimately show ?thesis using "1.prems"(2) by (simp add: heap_inv_def)
  qed
qed

lemma min_child_least:
  assumes "2 * i + 1 < length l"
  shows "min_child cost l i < length l" "parent (min_child cost l i) = i"
    "\<And>j. j < length l \<Longrightarrow> 0 < j \<Longrightarrow> parent j = i \<Longrightarrow> cost (l ! min_child cost l i) \<le> cost (l ! j)"
  using assms by (auto simp: min_child_def parent_child)

lemma down_ok_Swap:
  assumes dn: "down_ok cost l i" and c: "2 * i + 1 < length l"
    and lt: "cost (l ! min_child cost l i) < cost (l ! i)"
  shows "down_ok cost (l[i := l ! min_child cost l i, min_child cost l i := l ! i]) (min_child cost l i)"
proof -
  let ?c = "min_child cost l i"
  note mc = min_child_least [OF c]
  have ic: "i < ?c" "i < length l" using min_child_gt c by auto
  have A: "cost (l ! parent j) \<le> cost (l ! j)" if "0 < j" "j < length l" "parent j \<noteq> i" for j
    using dn that by (simp add: down_ok_def)
  have B: "cost (l ! parent i) \<le> cost (l ! j)" if "0 < j" "j < length l" "parent j = i" "0 < i" for j
    using dn that by (simp add: down_ok_def)
  note sw = nth_swap [OF mc(1) ic(2)]
  show ?thesis unfolding down_ok_def sw
  proof (intro conjI allI impI)
    fix j assume j: "0 < j \<and> j < length (l[i := l ! ?c, ?c := l ! i]) \<and> parent j \<noteq> ?c"
    then have j': "0 < j" "j < length l" "parent j \<noteq> ?c" by auto
    have pj: "parent j < j" using j' parent_less by simp
    show "cost (if parent j = ?c then l ! i else if parent j = i then l ! ?c else l ! parent j)
        \<le> cost (if j = ?c then l ! i else if j = i then l ! ?c else l ! j)"
    proof (cases "parent j = i")
      case True
      then show ?thesis using mc(3) [OF j'(2,1) True] lt ic(1) pj by auto
    next
      case False
      have "j = i \<Longrightarrow> cost (l ! parent i) \<le> cost (l ! ?c)"
        using B [of ?c] mc(1,2) ic(1) j' by auto
      moreover have "j \<noteq> ?c" using False mc(2) by auto
      ultimately show ?thesis using A [OF j'(1,2) False] False j'(3) by auto
    qed
  next
    fix j assume j: "0 < j \<and> j < length (l[i := l ! ?c, ?c := l ! i]) \<and> parent j = ?c \<and> 0 < ?c"
    then have "?c < j" using parent_less by metis
    then have "j \<noteq> i" "j \<noteq> ?c" using ic(1) by auto
    moreover have "cost (l ! ?c) \<le> cost (l ! j)" using A [of j] j ic(1) by auto
    ultimately show "cost (if parent ?c = ?c then l ! i else if parent ?c = i then l ! ?c else l ! parent ?c)
        \<le> cost (if j = ?c then l ! i else if j = i then l ! ?c else l ! j)"
      using mc(2) ic(1) by auto
  qed
qed

lemma HeapifyDown_ok:
  assumes "down_ok cost (hlist h) i" "idx_ok key h"
  shows "heap_inv cost key (HeapifyDown cost key h i) \<and> mset (hlist (HeapifyDown cost key h i)) = mset (hlist h)"
  using assms
proof (induction cost key h i rule: HeapifyDown.induct)
  case (1 cost key h i)
  let ?l = "hlist h" and ?c = "min_child cost (hlist h) i"
  show ?case
  proof (cases "2 * i + 1 < length ?l \<and> cost (?l ! ?c) < cost (?l ! i)")
    case True
    then have c: "2 * i + 1 < length ?l" and lt: "cost (?l ! ?c) < cost (?l ! i)" by auto
    note mc = min_child_least [OF c]
    have i: "i < length ?l" using c by simp
    let ?h = "Heap_Swap key h ?c i"
    have "down_ok cost (hlist ?h) ?c" unfolding hlist_Swap using down_ok_Swap "1.prems"(1) c lt by blast
    moreover have "idx_ok key ?h" using idx_ok_Swap "1.prems"(2) mc(1) i by blast
    ultimately have "heap_inv cost key (HeapifyDown cost key ?h ?c) \<and>
        mset (hlist (HeapifyDown cost key ?h ?c)) = mset (hlist ?h)"
      using "1.IH" [OF i _ refl lt] c by simp
    moreover have "HeapifyDown cost key h i = HeapifyDown cost key ?h ?c"
      using i c lt by (subst HeapifyDown.simps) (simp add: Let_def)
    ultimately show ?thesis using mset_Swap [OF mc(1) i] by simp
  next
    case False
    then have "HeapifyDown cost key h i = h" by (subst HeapifyDown.simps) (auto simp: Let_def)
    moreover have "cost (?l ! parent j) \<le> cost (?l ! j)" if j: "0 < j" "j < length ?l" for j
    proof (cases "parent j = i")
      case True
      then have c: "2 * i + 1 < length ?l" using j by (auto simp: parent_child)
      show ?thesis using min_child_least(3) [OF c j(2,1) True, of cost] False c True by auto
    next
      case False
      then show ?thesis using "1.prems"(1) j by (simp add: down_ok_def)
    qed
    ultimately show ?thesis using "1.prems"(2) by (simp add: heap_inv_def heap_ok_def)
  qed
qed

section \<open>The operations\<close>

lemma idx_ok_key_inj:
  "idx_ok key h \<Longrightarrow> i < length (hlist h) \<Longrightarrow> j < length (hlist h) \<Longrightarrow> key (hlist h ! i) = key (hlist h ! j) \<Longrightarrow> i = j"
  unfolding idx_ok_def by (metis option.inject)

lemma Heap_Find_iff:
  assumes "idx_ok key h"
  shows "Heap_Find k h = Some p \<longleftrightarrow> p \<in> set (hlist h) \<and> key p = k"
proof
  assume "Heap_Find k h = Some p"
  then obtain i where i: "idx_of h k = Some i" "p = hlist h ! i" by (auto simp: Heap_Find_def split: option.splits)
  then obtain j where j: "j < length (hlist h)" "key (hlist h ! j) = k" using assms by (auto simp: idx_ok_def)
  then have "idx_of h k = Some j" using assms by (auto simp: idx_ok_def)
  with i j show "p \<in> set (hlist h) \<and> key p = k" by simp
next
  assume "p \<in> set (hlist h) \<and> key p = k"
  then obtain i where "i < length (hlist h)" "hlist h ! i = p" "key p = k" by (auto simp: in_set_conv_nth)
  then show "Heap_Find k h = Some p" using assms by (auto simp: idx_ok_def Heap_Find_def)
qed

lemma heap_inv_init: "heap_inv cost key OpenHeap_init"
  by (simp add: heap_inv_def heap_ok_def idx_ok_def OpenHeap_init_def)

lemma Heap_Push_ok:
  assumes inv: "heap_inv cost key h" and fresh: "key p \<notin> key ` set (hlist h)"
  shows "heap_inv cost key (Heap_Push cost key p h)" "mset (hlist (Heap_Push cost key p h)) = add_mset p (mset (hlist h))"
proof -
  let ?h = "h\<lparr>pos2idx := AList.update (key p) (length (hlist h)) (pos2idx h), hlist := hlist h @ [p]\<rparr>"
  let ?n = "length (hlist h)"
  have "idx_ok key ?h"
    unfolding idx_ok_def
  proof (intro conjI allI impI)
    fix i assume "i < length (hlist ?h)"
    then show "idx_of ?h (key (hlist ?h ! i)) = Some i"
      using inv fresh nth_mem [of i "hlist h"]
      by (auto simp: heap_inv_def idx_ok_def nth_append less_Suc_eq simp del: nth_mem)
        (metis image_eqI)
  next
    fix k assume "idx_of ?h k \<noteq> None"
    then consider "k = key p" | "idx_of h k \<noteq> None" by (auto split: if_splits)
    then show "\<exists>i < length (hlist ?h). key (hlist ?h ! i) = k"
    proof cases
      case 1
      then show ?thesis by (intro exI [of _ ?n]) simp
    next
      case 2
      then obtain i where "i < ?n" "key (hlist h ! i) = k" using inv by (auto simp: heap_inv_def idx_ok_def)
      then show ?thesis by (intro exI [of _ i]) (simp add: nth_append)
    qed
  qed
  moreover have "up_ok cost (hlist ?h) ?n"
    using inv unfolding up_ok_def
    by (auto simp: heap_inv_def heap_ok_def nth_append less_Suc_eq parent_child)
      (metis parent_less less_trans nat_less_le not_less)+
  ultimately have "heap_inv cost key (HeapifyUp cost key ?h ?n) \<and> mset (hlist (HeapifyUp cost key ?h ?n)) = mset (hlist ?h)"
    by (intro HeapifyUp_ok) simp_all
  then show "heap_inv cost key (Heap_Push cost key p h)" "mset (hlist (Heap_Push cost key p h)) = add_mset p (mset (hlist h))"
    by (auto simp: Heap_Push_def Let_def)
qed

lemma heap_ok_root:
  assumes "heap_ok cost l" "j < length l"
  shows "cost (l ! 0) \<le> cost (l ! j)"
  using assms(2)
proof (induction j rule: less_induct)
  case (less j)
  show ?case
  proof (cases "j = 0")
    case False
    then have "cost (l ! 0) \<le> cost (l ! parent j)" using less parent_less [of j] by simp
    also have "\<dots> \<le> cost (l ! j)" using assms(1) False less.prems by (simp add: heap_ok_def)
    finally show ?thesis .
  qed simp
qed

lemma Heap_Top_least:
  assumes "heap_inv cost key h" "Heap_Top h = Some p"
  shows "p \<in># mset (hlist h)" "\<forall>q \<in># mset (hlist h). cost p \<le> cost q"
proof -
  have p: "hlist h \<noteq> []" "p = hlist h ! 0"
    using assms(2) by (auto simp: Heap_Top_def split: list.splits)
  then show "p \<in># mset (hlist h)" by simp
  show "\<forall>q \<in># mset (hlist h). cost p \<le> cost q"
  proof
    fix q assume "q \<in># mset (hlist h)"
    then obtain j where "j < length (hlist h)" "hlist h ! j = q" by (auto simp: in_set_conv_nth)
    then show "cost p \<le> cost q" using heap_ok_root [of cost "hlist h" j] assms(1) p(2) by (simp add: heap_inv_def)
  qed
qed

text \<open>The last element moved to the root: every edge is in order but those below the root.\<close>

lemma Heap_Pop_ok:
  assumes inv: "heap_inv cost key h" and top: "Heap_Top h = Some p"
  shows "heap_inv cost key (Heap_Pop cost key h)" "mset (hlist h) = add_mset p (mset (hlist (Heap_Pop cost key h)))"
proof -
  let ?l = "hlist h" and ?n = "length (hlist h) - 1"
  have ne: "?l \<noteq> []" "?l ! 0 = p" using top by (auto simp: Heap_Top_def split: list.splits)
  then have n: "0 < length ?l" "?n < length ?l" by auto
  let ?h1 = "Heap_Swap key h 0 ?n"
  have h1: "idx_ok key ?h1" using inv n idx_ok_Swap unfolding heap_inv_def by blast
  have len1: "length (hlist ?h1) = length ?l" by simp
  then have ne1: "hlist ?h1 \<noteq> []" using ne by auto
  have last1: "last (hlist ?h1) = p"
    using ne n nth_swap [OF n] len1 ne1 by (auto simp: last_conv_nth)
  let ?h2 = "?h1\<lparr>pos2idx := AList.delete (key (last (hlist ?h1))) (pos2idx ?h1), hlist := butlast (hlist ?h1)\<rparr>"
  have l2: "hlist ?h2 = butlast (hlist ?h1)" by simp
  have "idx_ok key ?h2"
    unfolding idx_ok_def
  proof (intro conjI allI impI)
    fix i assume i: "i < length (hlist ?h2)"
    then have "hlist ?h2 ! i = hlist ?h1 ! i" "i < length (hlist ?h1)" by (auto simp: nth_butlast)
    moreover have "key (hlist ?h1 ! i) \<noteq> key (last (hlist ?h1))"
      using idx_ok_key_inj [OF h1, of i "length (hlist ?h1) - 1"] i ne1 by (auto simp: last_conv_nth)
    ultimately show "idx_of ?h2 (key (hlist ?h2 ! i)) = Some i" using h1 by (simp add: idx_ok_def)
  next
    fix k assume k: "idx_of ?h2 k \<noteq> None"
    then have "idx_of ?h1 k \<noteq> None" "k \<noteq> key (last (hlist ?h1))" by (auto split: if_splits)
    then obtain i where i: "i < length (hlist ?h1)" "key (hlist ?h1 ! i) = k" using h1 by (auto simp: idx_ok_def)
    then have "i \<noteq> length (hlist ?h1) - 1" using \<open>k \<noteq> _\<close> ne1 by (auto simp: last_conv_nth)
    then show "\<exists>i < length (hlist ?h2). key (hlist ?h2 ! i) = k" using i by (intro exI [of _ i]) (auto simp: nth_butlast)
  qed
  moreover have "down_ok cost (hlist ?h2) 0"
    unfolding down_ok_def
  proof (intro conjI allI impI)
    fix j assume j: "0 < j \<and> j < length (hlist ?h2) \<and> parent j \<noteq> 0"
    then have "j < length ?l" "j < ?n" "parent j < ?n" using parent_less [of j] by auto
    then have "hlist ?h2 ! j = ?l ! j" "hlist ?h2 ! parent j = ?l ! parent j"
      using j nth_swap [OF n] by (auto simp: nth_butlast)
    then show "cost (hlist ?h2 ! parent j) \<le> cost (hlist ?h2 ! j)"
      using inv j \<open>j < length ?l\<close> by (simp add: heap_inv_def heap_ok_def)
  qed auto
  ultimately have "heap_inv cost key (HeapifyDown cost key ?h2 0) \<and> mset (hlist (HeapifyDown cost key ?h2 0)) = mset (hlist ?h2)"
    by (intro HeapifyDown_ok) auto
  moreover have "mset ?l = mset (hlist ?h1)" unfolding hlist_Swap by (rule mset_Swap [OF n, symmetric])
  moreover have "mset (hlist ?h1) = add_mset p (mset (hlist ?h2))"
    using ne1 last1 by (metis l2 append_butlast_last_id mset.simps(1) mset.simps(2) mset_append union_mset_add_mset_right add_0_right)
  moreover have "Heap_Pop cost key h = HeapifyDown cost key ?h2 0" using ne by (simp add: Heap_Pop_def Let_def)
  ultimately show "heap_inv cost key (Heap_Pop cost key h)" "mset ?l = add_mset p (mset (hlist (Heap_Pop cost key h)))"
    by simp_all
qed

text \<open>Lowering the cost of one node and calling \<open>Update\<close> on it restores the order.\<close>

lemma Heap_Update_ok:
  assumes inv: "heap_inv cost key h" and p: "p \<in> set (hlist h)"
    and low: "\<And>q. q \<noteq> p \<Longrightarrow> cost' q = cost q" "cost' p \<le> cost p"
  shows "heap_inv cost' key (Heap_Update cost' key p h)" "mset (hlist (Heap_Update cost' key p h)) = mset (hlist h)"
proof -
  obtain i where i: "i < length (hlist h)" "hlist h ! i = p" using p by (auto simp: in_set_conv_nth)
  have idx: "idx_ok key h" using inv by (simp add: heap_inv_def)
  then have pi: "idx_of h (key p) = Some i" using i by (auto simp: idx_ok_def)
  have other: "hlist h ! j \<noteq> p" if "j < length (hlist h)" "j \<noteq> i" for j
    using idx_ok_key_inj [OF idx, of i j] that i by auto
  have ge: "cost (hlist h ! parent j) \<le> cost (hlist h ! j)" if "0 < j" "j < length (hlist h)" for j
    using inv that by (simp add: heap_inv_def heap_ok_def)
  have le: "cost' q \<le> cost q" for q using low by (cases "q = p") auto
  have "up_ok cost' (hlist h) i"
    unfolding up_ok_def
  proof (intro conjI allI impI)
    fix j assume j: "0 < j \<and> j < length (hlist h) \<and> j \<noteq> i"
    then have "cost' (hlist h ! j) = cost (hlist h ! j)" using other low(1) by simp
    then show "cost' (hlist h ! parent j) \<le> cost' (hlist h ! j)" using ge [of j] le j order_trans by metis
  next
    fix j assume j: "0 < j \<and> j < length (hlist h) \<and> parent j = i \<and> 0 < i"
    then have "j \<noteq> i" "parent i \<noteq> i" using parent_less [of j] parent_less [of i] by auto
    then have "cost' (hlist h ! j) = cost (hlist h ! j)" "cost' (hlist h ! parent i) = cost (hlist h ! parent i)"
      using other low(1) j i parent_less [of i] by auto
    then show "cost' (hlist h ! parent i) \<le> cost' (hlist h ! j)"
      using ge [of i] ge [of j] j i order_trans by metis
  qed
  then have "heap_inv cost' key (HeapifyUp cost' key h i) \<and> mset (hlist (HeapifyUp cost' key h i)) = mset (hlist h)"
    using HeapifyUp_ok idx i(1) by blast
  then show "heap_inv cost' key (Heap_Update cost' key p h)" "mset (hlist (Heap_Update cost' key p h)) = mset (hlist h)"
    using pi by (auto simp: Heap_Update_def)
qed

section \<open>The priority queue contract\<close>

text \<open>What a search relies on in its open list, whatever the representation.\<close>

locale priority_queue =
  fixes push :: "'p \<Rightarrow> 'q \<Rightarrow> 'q"
    and pop :: "'q \<Rightarrow> 'q"
    and peek :: "'q \<Rightarrow> 'p option"
    and elems :: "'q \<Rightarrow> 'p multiset"
    and inv :: "'q \<Rightarrow> bool"
    and fresh :: "'p \<Rightarrow> 'q \<Rightarrow> bool"
    and cost :: "'p \<Rightarrow> 'c::linorder"
  assumes push_inv: "inv q \<Longrightarrow> fresh p q \<Longrightarrow> inv (push p q)"
    and push_elems: "inv q \<Longrightarrow> fresh p q \<Longrightarrow> elems (push p q) = add_mset p (elems q)"
    and pop_inv: "inv q \<Longrightarrow> peek q = Some p \<Longrightarrow> inv (pop q)"
    and pop_elems: "inv q \<Longrightarrow> peek q = Some p \<Longrightarrow> elems q = add_mset p (elems (pop q))"
    and top_least: "inv q \<Longrightarrow> peek q = Some p \<Longrightarrow> x \<in># elems q \<Longrightarrow> cost p \<le> cost x"
    and top_None: "inv q \<Longrightarrow> peek q = None \<longleftrightarrow> elems q = {#}"

fun drain :: "('q \<Rightarrow> 'p option) \<Rightarrow> ('q \<Rightarrow> 'q) \<Rightarrow> nat \<Rightarrow> 'q \<Rightarrow> 'p list" where
  "drain peek pop 0 q = []"
| "drain peek pop (Suc n) q = (case peek q of None \<Rightarrow> [] | Some p \<Rightarrow> p # drain peek pop n (pop q))"

context priority_queue
begin

text \<open>Taking the top until nothing is left gives every element once, cheapest first.\<close>

lemma drain_sorted:
  assumes "inv q" "size (elems q) \<le> n"
  shows "mset (drain peek pop n q) = elems q \<and> sorted (List.map cost (drain peek pop n q))"
  using assms
proof (induction n arbitrary: q)
  case (Suc n)
  show ?case
  proof (cases "peek q")
    case None
    then show ?thesis using top_None [OF Suc.prems(1)] by simp
  next
    case (Some p)
    have e: "elems q = add_mset p (elems (pop q))" using pop_elems Suc.prems(1) Some by blast
    then have IH: "mset (drain peek pop n (pop q)) = elems (pop q)" "sorted (List.map cost (drain peek pop n (pop q)))"
      using Suc.IH [of "pop q"] pop_inv [OF Suc.prems(1) Some] Suc.prems(2) by auto
    have "cost p \<le> cost x" if "x \<in> set (drain peek pop n (pop q))" for x
    proof -
      have "x \<in># elems (pop q)" using that IH(1) by (metis set_mset_mset)
      then show ?thesis using top_least [OF Suc.prems(1) Some] e by simp
    qed
    then show ?thesis using Some IH e by simp
  qed
qed simp

lemma fill_elems:
  "inv q \<Longrightarrow> (\<And>p r. inv r \<Longrightarrow> p \<in> set ps \<Longrightarrow> p \<notin># elems r \<Longrightarrow> fresh p r) \<Longrightarrow> distinct ps \<Longrightarrow>
     \<forall>p \<in> set ps. p \<notin># elems q \<Longrightarrow>
     inv (fold push ps q) \<and> elems (fold push ps q) = mset ps + elems q"
proof (induction ps arbitrary: q)
  case (Cons p ps)
  have f: "fresh p q" using Cons.prems by simp
  have e: "elems (push p q) = add_mset p (elems q)" using push_elems Cons.prems(1) f by blast
  have "\<forall>r \<in> set ps. r \<notin># elems (push p q)" using Cons.prems(3,4) e by auto
  then show ?case using Cons.IH [of "push p q"] push_inv [OF Cons.prems(1) f] Cons.prems e by auto
qed simp

end

interpretation heap: priority_queue "Heap_Push cost key" "Heap_Pop cost key" Heap_Top "\<lambda>h. mset (hlist h)"
  "heap_inv cost key" "\<lambda>p h. key p \<notin> key ` set (hlist h)" cost
  for cost :: "'p \<Rightarrow> 'c::linorder" and key :: "'p \<Rightarrow> int"
proof unfold_locales
  fix q p x assume "heap_inv cost key q" "Heap_Top q = Some p" "x \<in># mset (hlist q)"
  then show "cost p \<le> cost x" using Heap_Top_least(2) by fast
next
  fix q :: "'p open_heap"
  show "(Heap_Top q = None) = (mset (hlist q) = {#})" by (auto simp: Heap_Top_def split: list.splits)
qed (auto intro: Heap_Push_ok Heap_Pop_ok)

section \<open>Properties\<close>

text \<open>
  Pushing any nodes with pairwise different keys and then taking the top until the heap is
  empty gives exactly these nodes in order of cost: sifting up and down keep the heap order, and
  the index from keys to positions stays exact, so every node is found under its key.
\<close>

theorem OpenHeap_sorts:
  assumes "distinct (List.map key ps)"
  shows "let h = fold (Heap_Push cost key) ps OpenHeap_init in
     heap_inv cost key h \<and> (\<forall>p \<in> set ps. Heap_Find (key p) h = Some p) \<and>
     mset (drain Heap_Top (Heap_Pop cost key) (length ps) h) = mset ps \<and>
     sorted (List.map cost (drain Heap_Top (Heap_Pop cost key) (length ps) h))"
proof -
  let ?h = "fold (Heap_Push cost key) ps OpenHeap_init"
  have gen: "heap_inv cost key (fold (Heap_Push cost key) ps h) \<and>
      mset (hlist (fold (Heap_Push cost key) ps h)) = mset ps + mset (hlist h)"
    if "heap_inv cost key h" "distinct (List.map key ps)" "key ` set ps \<inter> key ` set (hlist h) = {}" for ps h
    using that
  proof (induction ps arbitrary: h)
    case (Cons p ps)
    have f: "key p \<notin> key ` set (hlist h)" using Cons.prems(3) by auto
    note P = Heap_Push_ok [OF Cons.prems(1) f]
    have "set (hlist (Heap_Push cost key p h)) = insert p (set (hlist h))" using P(2) by (metis set_mset_add_mset_insert set_mset_mset)
    then show ?case using Cons.IH [OF P(1)] Cons.prems P(2) by auto
  qed simp
  have e: "mset (hlist ?h) = mset ps" and inv: "heap_inv cost key ?h"
    using gen [OF heap_inv_init assms] by (auto simp: OpenHeap_init_def)
  have "set (hlist ?h) = set ps" using e by (metis set_mset_mset)
  then have "\<forall>p \<in> set ps. Heap_Find (key p) ?h = Some p"
    using inv Heap_Find_iff [of key ?h] by (auto simp: heap_inv_def)
  moreover have "size (mset (hlist ?h)) \<le> length ps" using e by simp
  ultimately show ?thesis using heap.drain_sorted [OF inv, of "length ps"] inv e by (simp add: Let_def)
qed

theorem OpenHeap_sorts_witness:
  "sorted (List.map id (drain Heap_Top (Heap_Pop id id) 3 (fold (Heap_Push id id) [5, 9, 1::int] OpenHeap_init)))"
  using OpenHeap_sorts [of "id :: int \<Rightarrow> int" "[5, 9, 1]" id] by (simp add: Let_def numeral_3_eq_3)

text \<open>
  After the search has lowered the cost of one node of the heap in place, \<open>Update\<close> restores
  the heap: the same nodes, in heap order for the new costs, all found under their keys.
\<close>

theorem OpenHeap_Update_restores:
  assumes "heap_inv cost key h" "p \<in> set (hlist h)"
    and "\<And>q. q \<noteq> p \<Longrightarrow> cost' q = cost q" "cost' p \<le> cost p"
  shows "heap_inv cost' key (Heap_Update cost' key p h) \<and> mset (hlist (Heap_Update cost' key p h)) = mset (hlist h) \<and>
     (\<forall>q \<in> set (hlist h). Heap_Find (key q) (Heap_Update cost' key p h) = Some q)"
proof -
  note U = Heap_Update_ok [OF assms]
  have "set (hlist (Heap_Update cost' key p h)) = set (hlist h)" using U(2) by (metis set_mset_mset)
  then show ?thesis using U Heap_Find_iff [of key "Heap_Update cost' key p h"] by (auto simp: heap_inv_def)
qed

theorem OpenHeap_Update_restores_witness:
  "mset (hlist (Heap_Update (id(9 := 0)) id 9 (fold (Heap_Push id id) [5, 9, 1::int] OpenHeap_init))) = {#5, 9, 1#}"
proof -
  let ?h = "fold (Heap_Push id id) [5, 9, 1::int] OpenHeap_init"
  have h: "heap_inv id id ?h" "mset (hlist ?h) = {#5, 9, 1#}"
    using heap.fill_elems [where cost = "id :: int \<Rightarrow> int" and key = id, of OpenHeap_init "[5, 9, 1]", OF heap_inv_init]
    by (auto simp: OpenHeap_init_def)
  then have "9 \<in> set (hlist ?h)" by (metis set_mset_mset set_mset_add_mset_insert insertI1 insertI2)
  from OpenHeap_Update_restores [OF h(1) this, of "id(9 := 0)"] h(2) show ?thesis by simp
qed

section \<open>Keys of nodes\<close>

lemma bit_above:
  fixes v :: int
  assumes "0 \<le> v" "v < 2147483648" "31 \<le> n"
  shows "\<not> bit v n"
proof -
  have "v < 2 ^ n" using assms power_increasing [of 31 n "2::int"] by simp
  then show ?thesis using assms(1) by (simp add: bit_iff_odd)
qed

lemma or_high_absorbed:
  fixes a b :: int
  assumes "- 2147483648 \<le> a" "a < 0"
  shows "a OR push_bit 32 b = a"
proof (rule bit_eqI)
  fix n
  have "NOT a = - a - 1" by (simp add: not_int_def)
  then have "31 \<le> n \<Longrightarrow> \<not> bit (NOT a) n" using bit_above [of "NOT a" n] assms by simp
  then have "31 \<le> n \<Longrightarrow> bit a n" by (simp add: bit_not_int_iff)
  then show "bit (a OR push_bit 32 b) n = bit a n" by (cases "31 \<le> n") (auto simp: bit_simps)
qed

lemma or_high_add:
  fixes a b :: int
  assumes "0 \<le> a" "a < 2147483648"
  shows "a OR push_bit 32 b = a + push_bit 32 b"
proof (rule disjunctive_add_eq_or [symmetric])
  show "a AND push_bit 32 b = 0"
  proof (rule bit_eqI)
    fix n show "bit (a AND push_bit 32 b) n = bit (0::int) n"
      using bit_above [OF assms, of n] by (cases "32 \<le> n") (auto simp: bit_simps)
  qed
qed

lemma digit_unique:
  fixes a :: int
  assumes "a + 65536 * b = c + 65536 * d" "0 \<le> a" "a < 65536" "0 \<le> c" "c < 65536"
  shows "a = c" "b = d"
proof -
  have "(a + 65536 * b) mod 65536 = a" "(c + 65536 * d) mod 65536 = c" using assms(2-5) by simp_all
  then show ac: "a = c" using assms(1) by metis
  show "b = d" using assms(1) unfolding ac by simp
qed

lemma MAKE_KEY_low:
  assumes "0 \<le> z" "z < 32768"
  shows "MAKE_KEY ow x z mod 18446744073709551616 = (x mod 65536) + z * 65536 + (ow mod 65536) * 4294967296"
proof -
  have r: "0 \<le> x mod 65536" "x mod 65536 < 65536" "0 \<le> ow mod 65536" "ow mod 65536 < 65536" by auto
  let ?v = "(x mod 65536) + (z mod 65536) * 65536"
  have v: "0 \<le> ?v" "?v < 2147483648" using assms r by auto
  have "i32 ?v OR ((ow mod 65536) * 4294967296) = ?v + (ow mod 65536) * 4294967296"
    using or_high_add [OF v, of "ow mod 65536"] i32_id [of ?v] v by (simp add: push_bit_eq_mult)
  then have "MAKE_KEY ow x z = i64 (?v + (ow mod 65536) * 4294967296)" by (simp add: MAKE_KEY_def)
  moreover have "i64 s mod 18446744073709551616 = s" if "0 \<le> s" "s < 18446744073709551616" for s
    using that by (simp add: i64_def mod_diff_left_eq)
  ultimately show ?thesis using v r assms by simp
qed

lemma MAKE_KEY_inj:
  assumes "0 \<le> z" "z < 32768" "0 \<le> z2" "z2 < 32768" "MAKE_KEY ow x z = MAKE_KEY o2 x2 z2"
  shows "ow mod 65536 = o2 mod 65536 \<and> x mod 65536 = x2 mod 65536 \<and> z = z2"
proof -
  have e: "(x mod 65536) + z * 65536 + (ow mod 65536) * 4294967296
      = (x2 mod 65536) + z2 * 65536 + (o2 mod 65536) * 4294967296"
    using MAKE_KEY_low [OF assms(1,2), of ow x] MAKE_KEY_low [OF assms(3,4), of o2 x2] assms(5) by simp
  have r: "0 \<le> x mod 65536" "x mod 65536 < 65536" "0 \<le> x2 mod 65536" "x2 mod 65536 < 65536" by auto
  have "x mod 65536 + 65536 * (z + ow mod 65536 * 65536) = x2 mod 65536 + 65536 * (z2 + o2 mod 65536 * 65536)"
    using e by simp
  from digit_unique [OF this] r have x: "x mod 65536 = x2 mod 65536"
    and "z + 65536 * (ow mod 65536) = z2 + 65536 * (o2 mod 65536)" by auto
  from digit_unique [OF this(2)] x show ?thesis using assms by auto
qed

text \<open>
  With bit 15 of \<open>z\<close> clear, the key of a node determines its owner and both coordinates; with
  that bit set, the sign extension erases the owner: nodes of all owners get the same key.
\<close>

theorem MAKE_KEY_owner:
  assumes "0 \<le> z" "z < 65536"
  shows "if z < 32768
     then \<forall>o2 x2 z2. 0 \<le> z2 \<and> z2 < 32768 \<and> MAKE_KEY ow x z = MAKE_KEY o2 x2 z2 \<longrightarrow>
            ow mod 65536 = o2 mod 65536 \<and> x mod 65536 = x2 mod 65536 \<and> z = z2
     else \<forall>o2. MAKE_KEY o2 x z = MAKE_KEY ow x z"
proof (cases "z < 32768")
  case True
  have "ow mod 65536 = o2 mod 65536 \<and> x mod 65536 = x2 mod 65536 \<and> z = z2"
    if "0 \<le> z2" "z2 < 32768" "MAKE_KEY ow x z = MAKE_KEY o2 x2 z2" for o2 x2 z2
    using MAKE_KEY_inj [OF assms(1) True that] .
  then have "\<forall>o2 x2 z2. 0 \<le> z2 \<and> z2 < 32768 \<and> MAKE_KEY ow x z = MAKE_KEY o2 x2 z2 \<longrightarrow>
      ow mod 65536 = o2 mod 65536 \<and> x mod 65536 = x2 mod 65536 \<and> z = z2" by blast
  then show ?thesis unfolding if_P [OF True] .
next
  case False
  have "MAKE_KEY o2 x z = i64 (i32 ((x mod 65536) + (z mod 65536) * 65536))" for o2
  proof -
    let ?v = "(x mod 65536) + (z mod 65536) * 65536"
    have "0 \<le> x mod 65536" "x mod 65536 < 65536" by auto
    then have v: "2147483648 \<le> ?v" "?v < 4294967296" using assms False by auto
    then have "i32 ?v = ?v - 4294967296" by (intro i32_wrap) auto
    then have "i32 ?v OR push_bit 32 (o2 mod 65536) = i32 ?v"
      using v by (intro or_high_absorbed) auto
    then show ?thesis by (simp add: MAKE_KEY_def push_bit_eq_mult)
  qed
  with False show ?thesis by simp
qed

theorem MAKE_KEY_owner_witness: "MAKE_KEY 1 3 40000 = MAKE_KEY 2 3 40000"
  using MAKE_KEY_owner [of 40000 2 3] by simp

end
