(* ===== verification/NetBuffer.thy ===== *)
theory NetBuffer
  imports Prelude "HOL-Library.Word"
begin

unbundle bit_operations_syntax

text \<open>
  \<open>shared/net/buffer.h\<close>: the byte buffer of the network layer, a vector with a reader and a
  writer index, and its integers in network byte order. Every operation is shown to do on the
  readable bytes what the corresponding operation of a plain byte queue does.
\<close>

type_synonym byte = "8 word"

definition kCheapPrepend :: nat where "kCheapPrepend = 8"
definition kInitialSize :: nat where "kInitialSize = 1024"

record net_buffer =
  bytes_of :: "byte list"
  readerIndex :: nat
  writerIndex :: nat

definition Buffer_init :: net_buffer where
  "Buffer_init = \<lparr>bytes_of = replicate (kCheapPrepend + kInitialSize) 0,
     readerIndex = kCheapPrepend, writerIndex = kCheapPrepend\<rparr>"

definition ReadableBytes :: "net_buffer \<Rightarrow> nat" where
  "ReadableBytes b = writerIndex b - readerIndex b"

definition WritableBytes :: "net_buffer \<Rightarrow> nat" where
  "WritableBytes b = length (bytes_of b) - writerIndex b"

definition PrependableBytes :: "net_buffer \<Rightarrow> nat" where
  "PrependableBytes b = readerIndex b"

text \<open>\<open>std::copy\<close> of a block to a position inside the vector.\<close>

definition write_at :: "nat \<Rightarrow> byte list \<Rightarrow> byte list \<Rightarrow> byte list" where
  "write_at i xs l = take i l @ xs @ drop (i + length xs) l"

definition peek_bytes :: "net_buffer \<Rightarrow> byte list" where
  "peek_bytes b = take (ReadableBytes b) (drop (readerIndex b) (bytes_of b))"

definition RetrieveAll :: "net_buffer \<Rightarrow> net_buffer" where
  "RetrieveAll b = b\<lparr>readerIndex := kCheapPrepend, writerIndex := kCheapPrepend\<rparr>"

definition Retrieve :: "net_buffer \<Rightarrow> nat \<Rightarrow> net_buffer res" where
  "Retrieve b len =
     assertx (len \<le> ReadableBytes b)
      (Inr (if len < ReadableBytes b then b\<lparr>readerIndex := readerIndex b + len\<rparr> else RetrieveAll b))"

definition RetrieveAsString :: "net_buffer \<Rightarrow> nat \<Rightarrow> (net_buffer \<times> byte list) res" where
  "RetrieveAsString b len =
     assertx (len \<le> ReadableBytes b)
      (bindr (Retrieve b len) (\<lambda>b'. Inr (b', take len (peek_bytes b))))"

definition RetrieveAllAsString :: "net_buffer \<Rightarrow> (net_buffer \<times> byte list) res" where
  "RetrieveAllAsString b = RetrieveAsString b (ReadableBytes b)"

definition MakeSpace :: "net_buffer \<Rightarrow> nat \<Rightarrow> net_buffer res" where
  "MakeSpace b len =
     (if WritableBytes b + PrependableBytes b < len + kCheapPrepend then
        Inr (b\<lparr>bytes_of := take (writerIndex b + len) (bytes_of b)
                 @ replicate (writerIndex b + len - length (bytes_of b)) 0\<rparr>)
      else
        assertx (kCheapPrepend < readerIndex b)
         (let readable = ReadableBytes b;
              b' = b\<lparr>bytes_of := write_at kCheapPrepend (peek_bytes b) (bytes_of b),
                     readerIndex := kCheapPrepend, writerIndex := kCheapPrepend + readable\<rparr>
          in assertx (readable = ReadableBytes b') (Inr b')))"

definition EnsureWritableBytes :: "net_buffer \<Rightarrow> nat \<Rightarrow> net_buffer res" where
  "EnsureWritableBytes b len =
     bindr (if WritableBytes b < len then MakeSpace b len else Inr b) (\<lambda>b'.
       assertx (WritableBytes b' \<ge> len) (Inr b'))"

definition Append :: "net_buffer \<Rightarrow> byte list \<Rightarrow> net_buffer res" where
  "Append b xs =
     bindr (EnsureWritableBytes b (length xs)) (\<lambda>b'.
       Inr (b'\<lparr>bytes_of := write_at (writerIndex b') xs (bytes_of b'),
               writerIndex := writerIndex b' + length xs\<rparr>))"

definition Prepend :: "net_buffer \<Rightarrow> byte list \<Rightarrow> net_buffer res" where
  "Prepend b xs =
     assertx (length xs \<le> PrependableBytes b)
      (let r = readerIndex b - length xs
       in Inr (b\<lparr>readerIndex := r, bytes_of := write_at r xs (bytes_of b)\<rparr>))"

text \<open>\<open>Shrink\<close> copies the readable bytes into a fresh buffer and swaps it in.\<close>

definition Shrink :: "net_buffer \<Rightarrow> nat \<Rightarrow> net_buffer res" where
  "Shrink b reserve =
     bindr (EnsureWritableBytes Buffer_init (ReadableBytes b + reserve)) (\<lambda>other.
       Append other (peek_bytes b))"

text \<open>The position of the first CR LF, counted from \<open>peek()\<close>.\<close>

fun crlf_at :: "byte list \<Rightarrow> nat option" where
  "crlf_at (x # y # zs) = (if x = 13 \<and> y = 10 then Some 0 else map_option Suc (crlf_at (y # zs)))"
| "crlf_at _ = None"

definition FindCRLF :: "net_buffer \<Rightarrow> nat option" where
  "FindCRLF b = crlf_at (peek_bytes b)"

section \<open>Integers in network order\<close>

definition be32 :: "32 word \<Rightarrow> byte list" where
  "be32 x = [ucast (drop_bit 24 x), ucast (drop_bit 16 x), ucast (drop_bit 8 x), ucast x]"

definition host32 :: "byte list \<Rightarrow> 32 word" where
  "host32 bs = push_bit 24 (ucast (bs ! 0)) OR push_bit 16 (ucast (bs ! 1)) OR
     push_bit 8 (ucast (bs ! 2)) OR ucast (bs ! 3)"

definition be16 :: "16 word \<Rightarrow> byte list" where
  "be16 x = [ucast (drop_bit 8 x), ucast x]"

definition host16 :: "byte list \<Rightarrow> 16 word" where
  "host16 bs = push_bit 8 (ucast (bs ! 0)) OR ucast (bs ! 1)"

definition AppendInt32 :: "net_buffer \<Rightarrow> 32 word \<Rightarrow> net_buffer res" where
  "AppendInt32 b x = Append b (be32 x)"

definition AppendInt16 :: "net_buffer \<Rightarrow> 16 word \<Rightarrow> net_buffer res" where
  "AppendInt16 b x = Append b (be16 x)"

definition AppendInt8 :: "net_buffer \<Rightarrow> 8 word \<Rightarrow> net_buffer res" where
  "AppendInt8 b x = Append b [x]"

definition PeekInt32 :: "net_buffer \<Rightarrow> (32 word) res" where
  "PeekInt32 b = assertx (ReadableBytes b \<ge> 4) (Inr (host32 (peek_bytes b)))"

definition PeekInt16 :: "net_buffer \<Rightarrow> (16 word) res" where
  "PeekInt16 b = assertx (ReadableBytes b \<ge> 2) (Inr (host16 (peek_bytes b)))"

definition PeekInt8 :: "net_buffer \<Rightarrow> (8 word) res" where
  "PeekInt8 b = assertx (ReadableBytes b \<ge> 1) (Inr (peek_bytes b ! 0))"

definition ReadInt32 :: "net_buffer \<Rightarrow> (net_buffer \<times> 32 word) res" where
  "ReadInt32 b = bindr (PeekInt32 b) (\<lambda>x. bindr (Retrieve b 4) (\<lambda>b'. Inr (b', x)))"

definition ReadInt16 :: "net_buffer \<Rightarrow> (net_buffer \<times> 16 word) res" where
  "ReadInt16 b = bindr (PeekInt16 b) (\<lambda>x. bindr (Retrieve b 2) (\<lambda>b'. Inr (b', x)))"

definition ReadInt8 :: "net_buffer \<Rightarrow> (net_buffer \<times> 8 word) res" where
  "ReadInt8 b = bindr (PeekInt8 b) (\<lambda>x. bindr (Retrieve b 1) (\<lambda>b'. Inr (b', x)))"

definition PrependInt32 :: "net_buffer \<Rightarrow> 32 word \<Rightarrow> net_buffer res" where
  "PrependInt32 b x = Prepend b (be32 x)"

definition PrependInt16 :: "net_buffer \<Rightarrow> 16 word \<Rightarrow> net_buffer res" where
  "PrependInt16 b x = Prepend b (be16 x)"

definition PrependInt8 :: "net_buffer \<Rightarrow> 8 word \<Rightarrow> net_buffer res" where
  "PrependInt8 b x = Prepend b [x]"

section \<open>The buffer implements a byte queue\<close>

definition buffer_inv :: "net_buffer \<Rightarrow> bool" where
  "buffer_inv b \<longleftrightarrow> readerIndex b \<le> writerIndex b \<and> writerIndex b \<le> length (bytes_of b) \<and>
     kCheapPrepend \<le> length (bytes_of b)"

lemma buffer_inv_init: "buffer_inv Buffer_init"
  by (simp add: buffer_inv_def Buffer_init_def)

lemma length_peek: "buffer_inv b \<Longrightarrow> length (peek_bytes b) = ReadableBytes b"
  by (auto simp: peek_bytes_def buffer_inv_def ReadableBytes_def min_def)

lemma length_write_at: "i + length xs \<le> length l \<Longrightarrow> length (write_at i xs l) = length l"
  by (simp add: write_at_def)

lemma read_write_at: "i + length xs \<le> length l \<Longrightarrow> take (length xs) (drop i (write_at i xs l)) = xs"
  by (simp add: write_at_def)

lemma Retrieve_ok:
  assumes "buffer_inv b" "n \<le> length (peek_bytes b)"
  shows "\<exists>b'. Retrieve b n = Inr b' \<and> buffer_inv b' \<and> peek_bytes b' = drop n (peek_bytes b)"
proof (cases "n < ReadableBytes b")
  case True
  let ?b = "b\<lparr>readerIndex := readerIndex b + n\<rparr>"
  have "peek_bytes ?b = drop n (peek_bytes b)"
    using True by (simp add: peek_bytes_def ReadableBytes_def drop_take add.commute)
  moreover have "buffer_inv ?b" using assms(1) True by (auto simp: buffer_inv_def ReadableBytes_def)
  ultimately show ?thesis using True by (simp add: Retrieve_def)
next
  case False
  then have "n = ReadableBytes b" using assms by (simp add: length_peek)
  then show ?thesis using assms
    by (auto simp: Retrieve_def RetrieveAll_def buffer_inv_def peek_bytes_def ReadableBytes_def)
qed

lemma MakeSpace_ok:
  assumes inv: "buffer_inv b" and few: "WritableBytes b < n"
  shows "\<exists>b'. MakeSpace b n = Inr b' \<and> buffer_inv b' \<and> peek_bytes b' = peek_bytes b \<and> n \<le> WritableBytes b'"
proof (cases "WritableBytes b + PrependableBytes b < n + kCheapPrepend")
  case True
  let ?b = "b\<lparr>bytes_of := take (writerIndex b + n) (bytes_of b)
                 @ replicate (writerIndex b + n - length (bytes_of b)) 0\<rparr>"
  have w: "length (bytes_of b) \<le> writerIndex b + n" "writerIndex b \<le> length (bytes_of b)"
    using inv few by (auto simp: WritableBytes_def buffer_inv_def)
  have "peek_bytes ?b = peek_bytes b"
    using w inv by (simp add: peek_bytes_def ReadableBytes_def buffer_inv_def)
  moreover have "buffer_inv ?b" using w inv by (simp add: buffer_inv_def)
  moreover have "n \<le> WritableBytes ?b" using w by (simp add: WritableBytes_def)
  ultimately show ?thesis using True by (simp add: MakeSpace_def)
next
  case False
  let ?r = "ReadableBytes b"
  let ?b = "b\<lparr>bytes_of := write_at kCheapPrepend (peek_bytes b) (bytes_of b),
     readerIndex := kCheapPrepend, writerIndex := kCheapPrepend + ?r\<rparr>"
  have pre: "kCheapPrepend < readerIndex b" using False few by (simp add: PrependableBytes_def)
  have fits: "kCheapPrepend + length (peek_bytes b) \<le> length (bytes_of b)"
    using inv pre unfolding length_peek [OF inv] by (auto simp: buffer_inv_def ReadableBytes_def)
  have len: "length (bytes_of ?b) = length (bytes_of b)" using length_write_at [OF fits] by simp
  have "peek_bytes ?b = peek_bytes b"
    using read_write_at [OF fits] length_peek [OF inv] by (simp add: peek_bytes_def [of ?b] ReadableBytes_def [of ?b])
  moreover have "buffer_inv ?b" using len fits [unfolded length_peek [OF inv]] inv by (simp add: buffer_inv_def)
  moreover have "n \<le> WritableBytes ?b"
    using False inv pre len by (simp add: WritableBytes_def PrependableBytes_def ReadableBytes_def buffer_inv_def)
  moreover have "ReadableBytes ?b = ?r" by (simp add: ReadableBytes_def)
  ultimately show ?thesis using False pre by (simp add: MakeSpace_def Let_def)
qed

lemma EnsureWritableBytes_ok:
  assumes "buffer_inv b"
  shows "\<exists>b'. EnsureWritableBytes b n = Inr b' \<and> buffer_inv b' \<and> peek_bytes b' = peek_bytes b \<and> n \<le> WritableBytes b'"
  using assms MakeSpace_ok [OF assms, of n] by (cases "WritableBytes b < n") (auto simp: EnsureWritableBytes_def)

lemma Append_ok:
  assumes "buffer_inv b"
  shows "\<exists>b'. Append b xs = Inr b' \<and> buffer_inv b' \<and> peek_bytes b' = peek_bytes b @ xs"
proof -
  obtain c where c: "EnsureWritableBytes b (length xs) = Inr c" "buffer_inv c" "peek_bytes c = peek_bytes b"
    "length xs \<le> WritableBytes c" using EnsureWritableBytes_ok [OF assms] by blast
  let ?c = "c\<lparr>bytes_of := write_at (writerIndex c) xs (bytes_of c), writerIndex := writerIndex c + length xs\<rparr>"
  have w: "readerIndex c \<le> writerIndex c" "writerIndex c + length xs \<le> length (bytes_of c)"
    using c(2,4) by (auto simp: buffer_inv_def WritableBytes_def)
  have "write_at (writerIndex c) xs (bytes_of c) =
      take (readerIndex c) (bytes_of c) @ peek_bytes c @ xs @ drop (writerIndex c + length xs) (bytes_of c)"
    using w(1) take_add [of "readerIndex c" "ReadableBytes c" "bytes_of c"]
    by (simp add: write_at_def peek_bytes_def ReadableBytes_def)
  then have "drop (readerIndex c) (write_at (writerIndex c) xs (bytes_of c)) =
      peek_bytes c @ xs @ drop (writerIndex c + length xs) (bytes_of c)"
    using w by simp
  moreover have "peek_bytes ?c = take (ReadableBytes ?c) (drop (readerIndex c) (write_at (writerIndex c) xs (bytes_of c)))"
    by (simp add: peek_bytes_def)
  ultimately have "peek_bytes ?c = take (ReadableBytes ?c) (peek_bytes c @ xs @ drop (writerIndex c + length xs) (bytes_of c))"
    by simp
  moreover have "ReadableBytes ?c = length (peek_bytes c @ xs)"
    using w length_peek [OF c(2)] by (simp add: ReadableBytes_def)
  ultimately have "peek_bytes ?c = peek_bytes c @ xs" by simp
  moreover have "buffer_inv ?c" using c(2) w by (simp add: buffer_inv_def length_write_at)
  ultimately show ?thesis using c(1,3) by (simp add: Append_def)
qed

lemma Prepend_ok:
  assumes "buffer_inv b" "length xs \<le> PrependableBytes b"
  shows "\<exists>b'. Prepend b xs = Inr b' \<and> buffer_inv b' \<and> peek_bytes b' = xs @ peek_bytes b"
proof -
  let ?r = "readerIndex b - length xs"
  let ?b = "b\<lparr>readerIndex := ?r, bytes_of := write_at ?r xs (bytes_of b)\<rparr>"
  have r: "?r + length xs = readerIndex b" "readerIndex b \<le> writerIndex b" "writerIndex b \<le> length (bytes_of b)"
    using assms by (auto simp: PrependableBytes_def buffer_inv_def)
  have "drop ?r (write_at ?r xs (bytes_of b)) = xs @ drop (readerIndex b) (bytes_of b)"
    using r by (simp add: write_at_def)
  moreover have "writerIndex b - ?r = length xs + (writerIndex b - readerIndex b)" using r by simp
  ultimately have "peek_bytes ?b = xs @ peek_bytes b" by (simp add: peek_bytes_def ReadableBytes_def)
  moreover have "buffer_inv ?b" using assms(1) r by (simp add: buffer_inv_def length_write_at)
  ultimately show ?thesis using assms(2) by (simp add: Prepend_def Let_def)
qed

lemma Shrink_ok:
  assumes "buffer_inv b"
  shows "\<exists>b'. Shrink b n = Inr b' \<and> buffer_inv b' \<and> peek_bytes b' = peek_bytes b"
proof -
  obtain c where c: "EnsureWritableBytes Buffer_init (ReadableBytes b + n) = Inr c" "buffer_inv c"
    "peek_bytes c = peek_bytes Buffer_init"
    using EnsureWritableBytes_ok [OF buffer_inv_init] by blast
  have "peek_bytes Buffer_init = []" by (simp add: peek_bytes_def ReadableBytes_def Buffer_init_def)
  with c Append_ok [OF c(2), of "peek_bytes b"] show ?thesis by (auto simp: Shrink_def)
qed

datatype buf_op = BufAppend "byte list" | BufRetrieve nat | BufRetrieveAll | BufShrink nat

fun buf_step :: "net_buffer \<Rightarrow> buf_op \<Rightarrow> net_buffer res" where
  "buf_step b (BufAppend xs) = Append b xs"
| "buf_step b (BufRetrieve n) = Retrieve b n"
| "buf_step b BufRetrieveAll = Inr (RetrieveAll b)"
| "buf_step b (BufShrink n) = Shrink b n"

fun buf_pre :: "net_buffer \<Rightarrow> buf_op \<Rightarrow> bool" where
  "buf_pre b (BufRetrieve n) = (n \<le> length (peek_bytes b))"
| "buf_pre b _ = True"

fun buf_spec :: "byte list \<Rightarrow> buf_op \<Rightarrow> byte list" where
  "buf_spec q (BufAppend xs) = q @ xs"
| "buf_spec q (BufRetrieve n) = drop n q"
| "buf_spec q BufRetrieveAll = []"
| "buf_spec q (BufShrink n) = q"

lemma buf_step_ok:
  assumes "buffer_inv b" "buf_pre b op"
  shows "\<exists>b'. buf_step b op = Inr b' \<and> buffer_inv b' \<and> peek_bytes b' = buf_spec (peek_bytes b) op"
proof (cases op)
  case BufRetrieveAll
  then show ?thesis using assms(1)
    by (simp add: RetrieveAll_def buffer_inv_def peek_bytes_def ReadableBytes_def)
qed (use assms Append_ok Retrieve_ok Shrink_ok in auto)

interpretation buf: refinement_system buf_step buf_pre buffer_inv peek_bytes buf_spec
proof unfold_locales
  fix b op b' assume "buffer_inv b" "buf_pre b op"
  note ok = buf_step_ok [OF this]
  then show "\<exists>b'. buf_step b op = Inr b' \<and> buffer_inv b'" by blast
  assume "buf_step b op = Inr b'"
  with ok show "peek_bytes b' = buf_spec (peek_bytes b) op" by auto
qed

section \<open>Properties\<close>



lemma host32_be32: "host32 (be32 x @ ys) = x"
proof (rule bit_word_eqI)
  fix n assume "n < LENGTH(32)"
  then consider "n < 8" | "8 \<le> n" "n < 16" | "16 \<le> n" "n < 24" | "24 \<le> n" "n < 32" by fastforce
  then show "bit (host32 (be32 x @ ys)) n = bit x n"
    by cases (auto simp: host32_def be32_def bit_simps)
qed

lemma host16_be16: "host16 (be16 x @ ys) = x"
  by (rule bit_word_eqI) (auto simp: host16_def be16_def bit_simps not_less dest: bit_imp_le_length)

text \<open>
  Integers survive the wire: whatever is in the buffer, appending a 32-bit, a 16-bit and an
  8-bit integer and reading them back after the old contents gives the same integers, and
  prepending a 32-bit integer makes it the next one read; the rest of the contents is untouched.
\<close>

theorem Buffer_int_roundtrip:
  assumes inv: "buffer_inv b"
  shows "\<exists>b1 b2 b3 c0 c1 c2 c3. AppendInt32 b x = Inr b1 \<and> AppendInt16 b1 y = Inr b2 \<and> AppendInt8 b2 z = Inr b3 \<and>
     Retrieve b3 (length (peek_bytes b)) = Inr c0 \<and>
     ReadInt32 c0 = Inr (c1, x) \<and> ReadInt16 c1 = Inr (c2, y) \<and> ReadInt8 c2 = Inr (c3, z) \<and> peek_bytes c3 = []"
proof -
  obtain b1 where b1: "AppendInt32 b x = Inr b1" "buffer_inv b1" "peek_bytes b1 = peek_bytes b @ be32 x"
    using Append_ok [OF inv] unfolding AppendInt32_def by blast
  obtain b2 where b2: "AppendInt16 b1 y = Inr b2" "buffer_inv b2" "peek_bytes b2 = peek_bytes b1 @ be16 y"
    using Append_ok [OF b1(2)] unfolding AppendInt16_def by blast
  obtain b3 where b3: "AppendInt8 b2 z = Inr b3" "buffer_inv b3" "peek_bytes b3 = peek_bytes b2 @ [z]"
    using Append_ok [OF b2(2)] unfolding AppendInt8_def by blast
  obtain c0 where c0: "Retrieve b3 (length (peek_bytes b)) = Inr c0" "buffer_inv c0" "peek_bytes c0 = be32 x @ be16 y @ [z]"
    using Retrieve_ok [OF b3(2), of "length (peek_bytes b)"] b3(3) b2(3) b1(3) by auto
  have l: "length (be32 x) = 4" "length (be16 y) = 2" by (auto simp: be32_def be16_def)
  obtain c1 where c1: "Retrieve c0 4 = Inr c1" "buffer_inv c1" "peek_bytes c1 = be16 y @ [z]"
    using Retrieve_ok [OF c0(2), of 4] c0(3) l by auto
  obtain c2 where c2: "Retrieve c1 2 = Inr c2" "buffer_inv c2" "peek_bytes c2 = [z]"
    using Retrieve_ok [OF c1(2), of 2] c1(3) l by auto
  obtain c3 where c3: "Retrieve c2 1 = Inr c3" "buffer_inv c3" "peek_bytes c3 = []"
    using Retrieve_ok [OF c2(2), of 1] c2(3) by auto
  have r: "ReadableBytes c0 \<ge> 4" "ReadableBytes c1 \<ge> 2" "ReadableBytes c2 \<ge> 1"
    using length_peek [OF c0(2)] length_peek [OF c1(2)] length_peek [OF c2(2)] c0(3) c1(3) c2(3) l by simp_all
  have "ReadInt32 c0 = Inr (c1, x)" using r(1) c1(1) c0(3) host32_be32 by (simp add: ReadInt32_def PeekInt32_def)
  moreover have "ReadInt16 c1 = Inr (c2, y)" using r(2) c2(1) c1(3) host16_be16 by (simp add: ReadInt16_def PeekInt16_def)
  moreover have "ReadInt8 c2 = Inr (c3, z)" using r(3) c3(1) c2(3) by (simp add: ReadInt8_def PeekInt8_def)
  ultimately show ?thesis using b1(1) b2(1) b3(1) c0(1) c3(3) by blast
qed

theorem Buffer_int_roundtrip_witness:
  "\<exists>b1 b2 b3 c0 c1 c2 c3. AppendInt32 Buffer_init 305419896 = Inr b1 \<and> AppendInt16 b1 4660 = Inr b2 \<and>
     AppendInt8 b2 7 = Inr b3 \<and> Retrieve b3 (length (peek_bytes Buffer_init)) = Inr c0 \<and>
     ReadInt32 c0 = Inr (c1, 305419896) \<and> ReadInt16 c1 = Inr (c2, 4660) \<and> ReadInt8 c2 = Inr (c3, 7) \<and>
     peek_bytes c3 = []"
  by (rule Buffer_int_roundtrip [OF buffer_inv_init])

end
