(* ===== verification/BitMap.thy ===== *)
theory BitMap
  imports Prelude NetBuffer
begin

unbundle bit_operations_syntax

text \<open>
  \<open>pathfinder/pf_engine/bit_map.h\<close>: the walk map, one bit per cell, most significant bit of a
  byte first; the two ways to block cells while the game runs (\<open>_dyn_ref\<close> counts the blocks of
  a cell, \<open>_dyn_map\<close> remembers the cells blocked once); saving and loading; and the entry points
  \<open>SetWalkable\<close> of \<open>pf_agent/path_finder.cpp\<close>. A \<open>float\<close> is only stored and copied here, so the
  model keeps its four bytes.
\<close>

section \<open>Points and neighbours\<close>

text \<open>\<open>PointI\<close>: two shorts, whose \<open>Offset\<close> wraps.\<close>

type_synonym point = "int \<times> int"

definition Offset :: "point \<Rightarrow> int \<Rightarrow> int \<Rightarrow> point" where
  "Offset p ox oz = (i16 (fst p + ox), i16 (snd p + oz))"

definition PF2D_NeighborDist :: "(int \<times> int) list" where
  "PF2D_NeighborDist = [(-1, 0), (1, 0), (0, 1), (0, -1), (1, 1), (1, -1), (-1, 1), (-1, -1)]"

section \<open>The map\<close>

record bit_map =
  map_id :: int
  map_length :: int
  map_width :: int
  grid_size :: "byte list"
  origin_x :: "byte list"
  origin_z :: "byte list"
  buf_len :: int
  pBuf :: "byte list"
  dyn_map :: "int set"
  dyn_ref :: "int \<Rightarrow> int option"

definition BitMap_init :: bit_map where
  "BitMap_init = \<lparr>map_id = 0, map_length = 0, map_width = 0, grid_size = [0, 0, 0, 0], origin_x = [0, 0, 0, 0],
     origin_z = [0, 0, 0, 0], buf_len = 0, pBuf = [], dyn_map = {}, dyn_ref = (\<lambda>_. None)\<rparr>"

definition TransCoordToIndex :: "bit_map \<Rightarrow> point \<Rightarrow> int" where
  "TransCoordToIndex m pt = u64 (i32 (snd pt * map_length m + fst pt))"

definition IsValidPos :: "bit_map \<Rightarrow> point \<Rightarrow> bool" where
  "IsValidPos m pt \<longleftrightarrow> (fst pt \<ge> 0 \<and> fst pt < map_length m) \<and> (snd pt \<ge> 0 \<and> snd pt < map_width m)"

text \<open>\<open>1 << (7 - (index & 7))\<close> as an \<open>unsigned char\<close>; a byte outside the buffer is out of range.\<close>

definition bit_mask :: "int \<Rightarrow> byte" where
  "bit_mask index = push_bit (nat (7 - index mod 8)) 1"

definition byte_at :: "bit_map \<Rightarrow> int \<Rightarrow> byte res" where
  "byte_at m index = (if nat (index div 8) < length (pBuf m) then Inr (pBuf m ! nat (index div 8)) else Inl OutOfRange)"

definition TestBit :: "bit_map \<Rightarrow> int \<Rightarrow> bool res" where
  "TestBit m index =
     (if index < 0 \<or> index \<ge> u64 (i32 (map_width m * map_length m)) then Inr False
      else bindr (byte_at m index) (\<lambda>b. Inr (b AND bit_mask index \<noteq> 0)))"

definition SetBitUnsafe :: "bit_map \<Rightarrow> int \<Rightarrow> bool \<Rightarrow> bit_map res" where
  "SetBitUnsafe m index passable =
     bindr (byte_at m index) (\<lambda>b.
       Inr (m\<lparr>pBuf := (pBuf m)[nat (index div 8) :=
              (if passable then b OR bit_mask index else b AND NOT (bit_mask index))]\<rparr>))"

definition SetBit :: "bit_map \<Rightarrow> int \<Rightarrow> bool \<Rightarrow> bit_map res" where
  "SetBit m index passable =
     (if index < 0 \<or> index \<ge> u64 (i32 (map_width m * map_length m)) then Inr m else SetBitUnsafe m index passable)"

definition IsPassable :: "bit_map \<Rightarrow> point \<Rightarrow> bool res" where
  "IsPassable m pt =
     (if fst pt < 0 \<or> fst pt \<ge> map_length m \<or> snd pt < 0 \<or> snd pt \<ge> map_width m then Inr False
      else TestBit m (TransCoordToIndex m pt))"

section \<open>Dynamic blocks\<close>

text \<open>The keys of \<open>_dyn_ref\<close> and \<open>_dyn_map\<close> are \<open>int\<close>s; the index is truncated on the way in.\<close>

definition block_ref :: "bit_map \<Rightarrow> point \<Rightarrow> bit_map res" where
  "block_ref m pt =
     (let index = TransCoordToIndex m pt in
      case dyn_ref m (i32 index) of
        None \<Rightarrow> SetBitUnsafe (m\<lparr>dyn_ref := (dyn_ref m)(i32 index := Some 1)\<rparr>) index False
      | Some n \<Rightarrow> Inr (m\<lparr>dyn_ref := (dyn_ref m)(i32 index := Some (i32 (n + 1)))\<rparr>))"

definition release_ref :: "bit_map \<Rightarrow> point \<Rightarrow> bit_map res" where
  "release_ref m pt =
     (let index = TransCoordToIndex m pt in
      case dyn_ref m (i32 index) of
        None \<Rightarrow> Inr m
      | Some n \<Rightarrow>
          if i32 (n - 1) = 0 then
            bindr (SetBitUnsafe m index True) (\<lambda>m'. Inr (m'\<lparr>dyn_ref := (dyn_ref m')(i32 index := None)\<rparr>))
          else Inr (m\<lparr>dyn_ref := (dyn_ref m)(i32 index := Some (i32 (n - 1)))\<rparr>))"

definition SetDynPassables :: "bit_map \<Rightarrow> point list \<Rightarrow> bool \<Rightarrow> (bit_map \<times> bool) res" where
  "SetDynPassables m pos passable =
     (if \<not> passable then bindr (run block_ref m pos) (\<lambda>m'. Inr (m', True))
      else bindr (run release_ref m pos) (\<lambda>m'. Inr (m', True)))"

definition SetDynPassable :: "bit_map \<Rightarrow> point \<Rightarrow> bool \<Rightarrow> (bit_map \<times> bool) res" where
  "SetDynPassable m pos passable =
     (let index = TransCoordToIndex m pos in
      if \<not> passable then
        bindr (TestBit m index) (\<lambda>t.
          if \<not> t then Inr (m, False)
          else if i32 index \<in> dyn_map m then Inr (m, False)
          else bindr (SetBit (m\<lparr>dyn_map := insert (i32 index) (dyn_map m)\<rparr>) index False) (\<lambda>m'. Inr (m', True)))
      else
        bindr (TestBit m index) (\<lambda>t.
          if t then Inr (m, False)
          else if i32 index \<notin> dyn_map m then Inr (m, False)
          else bindr (SetBit (m\<lparr>dyn_map := dyn_map m - {i32 index}\<rparr>) index True) (\<lambda>m'. Inr (m', True))))"

text \<open>
  \<open>path_finder.cpp\<close>: blocking or freeing a cell or a square around it. The position is the
  grid cell the caller's coordinates fall into. The rows run from entry 2 of the table to
  entry 3, the columns from entry 0 to entry 2. \<open>points.front()\<close> of an empty vector is undefined.
\<close>

definition SetWalkable :: "bit_map \<Rightarrow> point \<Rightarrow> bool \<Rightarrow> (bit_map \<times> bool) res" where
  "SetWalkable m pos walkable = (if \<not> IsValidPos m pos then Inr (m, False) else SetDynPassable m pos walkable)"

datatype walkable_unit = WalkableUnit_1 | WalkableUnit_Center_3x3 | WalkableUnit_Center_5x5

fun aRangeTable :: "walkable_unit \<Rightarrow> int \<times> int \<times> int \<times> int" where
  "aRangeTable WalkableUnit_1 = (0, 0, 0, 0)"
| "aRangeTable WalkableUnit_Center_3x3 = (-1, -1, 1, 1)"
| "aRangeTable WalkableUnit_Center_5x5 = (-2, -2, 2, 2)"

definition unit_points :: "bit_map \<Rightarrow> point \<Rightarrow> walkable_unit \<Rightarrow> point list" where
  "unit_points m pos unit =
     (case aRangeTable unit of (r0, r1, r2, r3) \<Rightarrow>
        filter (IsValidPos m)
          (concat (List.map (\<lambda>z. List.map (\<lambda>x. Offset pos x z) [r0..r2]) [r2..r3])))"

definition SetWalkableUnit :: "bit_map \<Rightarrow> point \<Rightarrow> walkable_unit \<Rightarrow> bool \<Rightarrow> (bit_map \<times> bool) res" where
  "SetWalkableUnit m pos unit walkable =
     (if unit = WalkableUnit_1 then
        (if IsValidPos m pos then SetDynPassables m [pos] walkable else Inr (m, False))
      else if unit_points m pos unit = [] then Inl OutOfRange
      else SetDynPassables m (unit_points m pos unit) walkable)"

section \<open>Saving and loading\<close>

definition ReadFloatFromBuffer :: "net_buffer \<Rightarrow> (net_buffer \<times> byte list) res" where
  "ReadFloatFromBuffer b =
     (if ReadableBytes b < 4 then Inr (b, [0, 0, 128, 191])
      else bindr (Retrieve b 4) (\<lambda>b'. Inr (b', take 4 (peek_bytes b))))"

definition map_bytes :: "int \<Rightarrow> int \<Rightarrow> int" where
  "map_bytes l w =
     (let grid_count = u64 (i32 (l * w));
          len = grid_count div 8
      in if grid_count mod 8 \<noteq> 0 then u64 (len + 1) else len)"

definition BitMap_Load :: "bit_map \<Rightarrow> net_buffer \<Rightarrow> (bit_map \<times> net_buffer \<times> bool) res" where
  "BitMap_Load m b0 =
     bindr (ReadInt32 b0) (\<lambda>(b1, id).
     bindr (ReadInt32 b1) (\<lambda>(b2, l).
     bindr (ReadInt32 b2) (\<lambda>(b3, w).
     bindr (ReadFloatFromBuffer b3) (\<lambda>(b4, g).
     bindr (ReadFloatFromBuffer b4) (\<lambda>(b5, ox).
     bindr (ReadFloatFromBuffer b5) (\<lambda>(b6, oz).
     bindr (ReadInt32 b6) (\<lambda>(b7, bl).
       let m1 = m\<lparr>map_id := sint id, map_length := sint l, map_width := sint w, grid_size := g,
                  origin_x := ox, origin_z := oz, buf_len := sint bl\<rparr>;
           len = map_bytes (sint l) (sint w)
       in if len \<noteq> u64 (sint bl) then Inr (m1, b7, False)
          else if int (ReadableBytes b7) < len then Inr (m1, b7, False)
          else bindr (Retrieve b7 (nat len)) (\<lambda>b8.
                 Inr (m1\<lparr>pBuf := take (nat len) (peek_bytes b7), buf_len := i32 len\<rparr>, b8, True)))))))))"

definition BitMap_Save :: "bit_map \<Rightarrow> net_buffer \<Rightarrow> (net_buffer \<times> bool) res" where
  "BitMap_Save m b0 =
     bindr (AppendInt32 b0 (word_of_int (map_id m))) (\<lambda>b1.
     bindr (AppendInt32 b1 (word_of_int (map_length m))) (\<lambda>b2.
     bindr (AppendInt32 b2 (word_of_int (map_width m))) (\<lambda>b3.
     bindr (Append b3 (grid_size m)) (\<lambda>b4.
     bindr (Append b4 (origin_x m)) (\<lambda>b5.
     bindr (Append b5 (origin_z m)) (\<lambda>b6.
     bindr (AppendInt32 b6 (word_of_int (buf_len m))) (\<lambda>b7.
     bindr (if length (pBuf m) < nat (u64 (buf_len m)) then Inl OutOfRange
            else Append b7 (take (nat (u64 (buf_len m))) (pBuf m))) (\<lambda>b8.
       Inr (b8, True)))))))))"

section \<open>Cells and bits\<close>

definition bitmap_inv :: "bit_map \<Rightarrow> bool" where
  "bitmap_inv m \<longleftrightarrow> 0 \<le> map_length m \<and> 0 \<le> map_width m \<and> map_length m * map_width m < 2147483648 \<and>
     map_length m * map_width m \<le> 8 * int (length (pBuf m))"

definition cell :: "bit_map \<Rightarrow> int \<Rightarrow> bool" where
  "cell m i \<longleftrightarrow> 0 \<le> i \<and> i < map_length m * map_width m"

definition passable_cell :: "bit_map \<Rightarrow> int \<Rightarrow> bool" where
  "passable_cell m i = bit (pBuf m ! nat (i div 8)) (nat (7 - i mod 8))"

lemma and_mask: "(b AND bit_mask i \<noteq> 0) = bit b (nat (7 - i mod 8))"
  by (simp add: bit_mask_def push_bit_of_1 and_exp_eq_0_iff_not_bit)

lemma valid_cell:
  assumes "bitmap_inv m" "IsValidPos m pt"
  shows "cell m (snd pt * map_length m + fst pt)"
proof -
  have "snd pt * map_length m + fst pt < (snd pt + 1) * map_length m" using assms by (simp add: IsValidPos_def algebra_simps)
  also have "\<dots> \<le> map_width m * map_length m"
    using assms by (intro mult_right_mono) (auto simp: IsValidPos_def bitmap_inv_def)
  finally show ?thesis using assms by (simp add: cell_def IsValidPos_def bitmap_inv_def mult.commute)
qed

lemma cell_bound: "bitmap_inv m \<Longrightarrow> cell m i \<Longrightarrow> 0 \<le> i \<and> i < 2147483648"
  by (auto simp: bitmap_inv_def cell_def)

lemma cell_key: "bitmap_inv m \<Longrightarrow> cell m i \<Longrightarrow> i32 i = i"
  using cell_bound by (intro i32_id) force+

lemma Trans_valid:
  assumes "bitmap_inv m" "IsValidPos m pt"
  shows "TransCoordToIndex m pt = snd pt * map_length m + fst pt" "cell m (TransCoordToIndex m pt)"
proof -
  note c = valid_cell [OF assms]
  then have "0 \<le> snd pt * map_length m + fst pt" "snd pt * map_length m + fst pt < 2147483648"
    using cell_bound assms(1) by auto
  then show *: "TransCoordToIndex m pt = snd pt * map_length m + fst pt"
    by (simp add: TransCoordToIndex_def i32_id u64_id)
  show "cell m (TransCoordToIndex m pt)" unfolding * by (rule c)
qed

lemma Trans_inj:
  assumes "bitmap_inv m" "IsValidPos m p" "IsValidPos m q" "TransCoordToIndex m p = TransCoordToIndex m q"
  shows "p = q"
proof -
  let ?l = "map_length m"
  have e: "snd p * ?l + fst p = snd q * ?l + fst q" using assms Trans_valid(1) by simp
  have r: "0 \<le> fst p" "fst p < ?l" "0 \<le> fst q" "fst q < ?l" using assms by (auto simp: IsValidPos_def)
  have "(snd p * ?l + fst p) mod ?l = fst p" "(snd q * ?l + fst q) mod ?l = fst q" using r by simp_all
  then have f: "fst p = fst q" using e by metis
  then have "snd p = snd q" using e r by simp
  with f show ?thesis by (simp add: prod_eq_iff)
qed

lemma byte_at_cell:
  assumes "bitmap_inv m" "cell m i"
  shows "byte_at m i = Inr (pBuf m ! nat (i div 8))" "nat (i div 8) < length (pBuf m)"
proof -
  have "i < 8 * int (length (pBuf m))" using assms by (auto simp: bitmap_inv_def cell_def)
  then have "i div 8 < int (length (pBuf m))" by linarith
  moreover have "0 \<le> i div 8" using assms(2) by (simp add: cell_def pos_imp_zdiv_nonneg_iff)
  ultimately show "nat (i div 8) < length (pBuf m)" by linarith
  then show "byte_at m i = Inr (pBuf m ! nat (i div 8))" by (simp add: byte_at_def)
qed

lemma grid_u64: "bitmap_inv m \<Longrightarrow> u64 (i32 (map_width m * map_length m)) = map_length m * map_width m"
proof -
  assume "bitmap_inv m"
  then have "0 \<le> map_length m * map_width m" "map_length m * map_width m < 2147483648" by (auto simp: bitmap_inv_def)
  then show ?thesis by (simp add: i32_id u64_id mult.commute [of "map_width m"])
qed

lemma TestBit_cell:
  assumes "bitmap_inv m" "cell m i"
  shows "TestBit m i = Inr (passable_cell m i)"
  unfolding TestBit_def grid_u64 [OF assms(1)]
  using assms(2) by (simp add: byte_at_cell(1) [OF assms] and_mask passable_cell_def cell_def)

lemma IsPassable_valid:
  assumes "bitmap_inv m"
  shows "IsPassable m pt = Inr (IsValidPos m pt \<and> passable_cell m (TransCoordToIndex m pt))"
  using TestBit_cell [OF assms Trans_valid(2) [OF assms], of pt]
  by (auto simp: IsPassable_def IsValidPos_def)

lemma same_bit:
  fixes i j :: int
  assumes "0 \<le> i" "0 \<le> j"
  shows "nat (i div 8) = nat (j div 8) \<and> nat (7 - i mod 8) = nat (7 - j mod 8) \<longleftrightarrow> i = j"
proof
  assume e: "nat (i div 8) = nat (j div 8) \<and> nat (7 - i mod 8) = nat (7 - j mod 8)"
  have "0 \<le> i div 8" "0 \<le> j div 8" using assms by (simp_all add: pos_imp_zdiv_nonneg_iff)
  then have "i div 8 = j div 8" using e by (metis int_nat_eq)
  moreover have "i mod 8 < 8" "j mod 8 < 8" by simp_all
  then have "0 \<le> 7 - i mod 8" "0 \<le> 7 - j mod 8" by linarith+
  then have "7 - i mod 8 = 7 - j mod 8" using e by (metis int_nat_eq)
  then have "i mod 8 = j mod 8" by simp
  ultimately show "i = j" by (metis div_mult_mod_eq)
qed simp

lemma set_bit_byte:
  fixes x :: byte
  assumes "c < 8"
  shows "bit (if v then x OR push_bit a 1 else x AND NOT (push_bit a 1)) c = (if c = a then v else bit x c)"
  using assms by (auto simp: bit_simps)

lemma SetBitUnsafe_cell:
  assumes "bitmap_inv m" "cell m i"
  shows "\<exists>bs. SetBitUnsafe m i v = Inr (m\<lparr>pBuf := bs\<rparr>) \<and> length bs = length (pBuf m) \<and>
     bs = (pBuf m)[nat (i div 8) := (if v then pBuf m ! nat (i div 8) OR bit_mask i
                                     else pBuf m ! nat (i div 8) AND NOT (bit_mask i))] \<and>
     (\<forall>j. cell m j \<longrightarrow> passable_cell (m\<lparr>pBuf := bs\<rparr>) j = (if j = i then v else passable_cell m j))"
proof -
  let ?bs = "(pBuf m)[nat (i div 8) := (if v then pBuf m ! nat (i div 8) OR bit_mask i
                                     else pBuf m ! nat (i div 8) AND NOT (bit_mask i))]"
  have "passable_cell (m\<lparr>pBuf := ?bs\<rparr>) j = (if j = i then v else passable_cell m j)" if j: "cell m j" for j
  proof (cases "nat (i div 8) = nat (j div 8)")
    case False
    then show ?thesis by (auto simp: passable_cell_def)
  next
    case True
    have b: "?bs ! nat (j div 8) = (if v then pBuf m ! nat (i div 8) OR bit_mask i
                                     else pBuf m ! nat (i div 8) AND NOT (bit_mask i))"
      using True byte_at_cell(2) [OF assms] by simp
    have "0 \<le> i" "0 \<le> j" using assms(2) j by (auto simp: cell_def)
    then have ij: "nat (7 - j mod 8) = nat (7 - i mod 8) \<longleftrightarrow> j = i" using same_bit [of j i] True by simp
    have "0 \<le> j mod 8" by simp
    then have k: "nat (7 - j mod 8) < 8" by linarith
    have "bit (?bs ! nat (j div 8)) (nat (7 - j mod 8)) = (if j = i then v else bit (pBuf m ! nat (j div 8)) (nat (7 - j mod 8)))"
      unfolding b unfolding bit_mask_def set_bit_byte [OF k] ij using True by (simp only:)
    then show ?thesis by (simp add: passable_cell_def)
  qed
  then show ?thesis using byte_at_cell(1) [OF assms] by (simp add: SetBitUnsafe_def)
qed

lemma SetBit_cell:
  assumes "bitmap_inv m" "cell m i"
  shows "SetBit m i v = SetBitUnsafe m i v"
  unfolding SetBit_def grid_u64 [OF assms(1)] using assms(2) by (simp add: cell_def)

lemma inv_update [simp]:
  "length bs = length (pBuf m) \<Longrightarrow> bitmap_inv (m\<lparr>pBuf := bs\<rparr>) = bitmap_inv m"
  "bitmap_inv (m\<lparr>dyn_ref := d\<rparr>) = bitmap_inv m"
  "bitmap_inv (m\<lparr>dyn_map := e\<rparr>) = bitmap_inv m"
  by (auto simp: bitmap_inv_def)

lemma frame_update [simp]:
  "cell (m\<lparr>pBuf := bs\<rparr>) = cell m" "cell (m\<lparr>dyn_ref := d\<rparr>) = cell m" "cell (m\<lparr>dyn_map := e\<rparr>) = cell m"
  "IsValidPos (m\<lparr>pBuf := bs\<rparr>) = IsValidPos m" "IsValidPos (m\<lparr>dyn_ref := d\<rparr>) = IsValidPos m"
  "IsValidPos (m\<lparr>dyn_map := e\<rparr>) = IsValidPos m"
  "TransCoordToIndex (m\<lparr>pBuf := bs\<rparr>) = TransCoordToIndex m" "TransCoordToIndex (m\<lparr>dyn_ref := d\<rparr>) = TransCoordToIndex m"
  "TransCoordToIndex (m\<lparr>dyn_map := e\<rparr>) = TransCoordToIndex m"
  "passable_cell (m\<lparr>dyn_ref := d, pBuf := bs\<rparr>) = passable_cell (m\<lparr>pBuf := bs\<rparr>)"
  "passable_cell (m\<lparr>dyn_ref := d\<rparr>) = passable_cell m" "passable_cell (m\<lparr>dyn_map := e\<rparr>) = passable_cell m"
  by (auto simp: cell_def IsValidPos_def TransCoordToIndex_def passable_cell_def fun_eq_iff)

section \<open>Counted blocks\<close>

definition refs :: "bit_map \<Rightarrow> point \<Rightarrow> nat" where
  "refs m pt = (case dyn_ref m (TransCoordToIndex m pt) of None \<Rightarrow> 0 | Some n \<Rightarrow> nat n)"

text \<open>One step blocks or releases one cell; the two loops of \<open>SetDynPassable\<close> are runs of these.\<close>

fun ref_step :: "bit_map \<Rightarrow> point \<times> bool \<Rightarrow> bit_map res" where
  "ref_step m (pt, passable) = (if passable then release_ref m pt else block_ref m pt)"

fun ref_pre :: "bit_map \<Rightarrow> point \<times> bool \<Rightarrow> bool" where
  "ref_pre m (pt, passable) = (IsValidPos m pt \<and> refs m pt < 2147483647)"

fun ref_spec :: "(point \<Rightarrow> nat) \<Rightarrow> point \<times> bool \<Rightarrow> point \<Rightarrow> nat" where
  "ref_spec f (pt, passable) = f(pt := (if passable then f pt - 1 else f pt + 1))"

definition same_grid :: "bit_map \<Rightarrow> bit_map \<Rightarrow> bool" where
  "same_grid m0 m \<longleftrightarrow> map_length m = map_length m0 \<and> map_width m = map_width m0 \<and> map_id m = map_id m0 \<and>
     dyn_map m = dyn_map m0 \<and> length (pBuf m) = length (pBuf m0)"

definition refs_inv :: "bit_map \<Rightarrow> bit_map \<Rightarrow> bool" where
  "refs_inv m0 m \<longleftrightarrow> bitmap_inv m \<and> same_grid m0 m \<and>
     (\<forall>k n. dyn_ref m k = Some n \<longrightarrow> 0 < n \<and> n < 2147483648) \<and>
     (\<forall>i. cell m i \<and> passable_cell m0 i \<longrightarrow> passable_cell m i = (dyn_ref m i = None))"

definition refs_of :: "bit_map \<Rightarrow> point \<Rightarrow> nat" where
  "refs_of m pt = (if IsValidPos m pt then refs m pt else 0)"

lemma same_grid_frame:
  assumes "same_grid m0 m"
  shows "cell m = cell m0" "IsValidPos m = IsValidPos m0" "TransCoordToIndex m = TransCoordToIndex m0"
  using assms by (auto simp: same_grid_def cell_def IsValidPos_def TransCoordToIndex_def fun_eq_iff)

lemma refs_upd:
  assumes "bitmap_inv m" "IsValidPos m pt"
  shows "refs_of (m\<lparr>dyn_ref := (dyn_ref m)(TransCoordToIndex m pt := v)\<rparr>) =
    (refs_of m)(pt := (case v of None \<Rightarrow> 0 | Some n \<Rightarrow> nat n))"
  using assms Trans_inj [OF assms(1)] by (auto simp: refs_of_def refs_def fun_eq_iff)

lemma refs_of_pBuf [simp]:
  "refs_of (m\<lparr>pBuf := bs\<rparr>) = refs_of m"
  "refs_of (m\<lparr>pBuf := bs, dyn_ref := d\<rparr>) = refs_of (m\<lparr>dyn_ref := d\<rparr>)"
  by (auto simp: refs_of_def refs_def fun_eq_iff)

lemma pBuf_upd_eq: "m\<lparr>pBuf := x\<rparr> = m\<lparr>pBuf := y\<rparr> \<longleftrightarrow> x = y" for m :: bit_map
  by (cases m) simp

text \<open>Setting the bit of a cell together with its counter.\<close>

lemma refs_inv_set:
  assumes inv: "refs_inv m0 m" and pt: "IsValidPos m pt" and i: "i = TransCoordToIndex m pt"
    and d: "case d of None \<Rightarrow> v | Some n \<Rightarrow> \<not> v \<and> 0 < n \<and> n < 2147483648"
  shows "\<exists>bs. SetBitUnsafe m i v = Inr (m\<lparr>pBuf := bs\<rparr>) \<and>
     SetBitUnsafe (m\<lparr>dyn_ref := (dyn_ref m)(i := d)\<rparr>) i v = Inr (m\<lparr>pBuf := bs, dyn_ref := (dyn_ref m)(i := d)\<rparr>) \<and>
     refs_inv m0 (m\<lparr>pBuf := bs, dyn_ref := (dyn_ref m)(i := d)\<rparr>)"
proof -
  let ?m = "m\<lparr>dyn_ref := (dyn_ref m)(i := d)\<rparr>"
  have b: "bitmap_inv m" using inv by (simp add: refs_inv_def)
  have c: "cell m i" using Trans_valid(2) [OF b pt] i by simp
  obtain bs where bs: "SetBitUnsafe m i v = Inr (m\<lparr>pBuf := bs\<rparr>)" "length bs = length (pBuf m)"
    "\<And>j. cell m j \<Longrightarrow> passable_cell (m\<lparr>pBuf := bs\<rparr>) j = (if j = i then v else passable_cell m j)"
    using SetBitUnsafe_cell [OF b c, of v] by blast
  have "SetBitUnsafe ?m i v = Inr (m\<lparr>pBuf := bs, dyn_ref := (dyn_ref m)(i := d)\<rparr>)"
    using bs(1) by (auto simp: SetBitUnsafe_def byte_at_def bindr_def pBuf_upd_eq split: if_splits)
  moreover have "refs_inv m0 (m\<lparr>pBuf := bs, dyn_ref := (dyn_ref m)(i := d)\<rparr>)"
    unfolding refs_inv_def
  proof (intro conjI allI impI)
    show "bitmap_inv (m\<lparr>pBuf := bs, dyn_ref := (dyn_ref m)(i := d)\<rparr>)" using b bs(2) by simp
    show "same_grid m0 (m\<lparr>pBuf := bs, dyn_ref := (dyn_ref m)(i := d)\<rparr>)"
      using inv bs(2) by (simp add: refs_inv_def same_grid_def)
  next
    fix k n assume "dyn_ref (m\<lparr>pBuf := bs, dyn_ref := (dyn_ref m)(i := d)\<rparr>) k = Some n"
    then show "0 < n" "n < 2147483648" using inv d by (auto simp: refs_inv_def split: if_splits)
  next
    fix j assume j: "cell (m\<lparr>pBuf := bs, dyn_ref := (dyn_ref m)(i := d)\<rparr>) j \<and> passable_cell m0 j"
    then have "passable_cell (m\<lparr>pBuf := bs\<rparr>) j = (if j = i then v else passable_cell m j)" using bs(3) by simp
    moreover have "j \<noteq> i \<Longrightarrow> passable_cell m j = (dyn_ref m j = None)" using inv j by (simp add: refs_inv_def)
    ultimately show "passable_cell (m\<lparr>pBuf := bs, dyn_ref := (dyn_ref m)(i := d)\<rparr>) j =
        (dyn_ref (m\<lparr>pBuf := bs, dyn_ref := (dyn_ref m)(i := d)\<rparr>) j = None)"
      using d by (auto split: option.splits)
  qed
  ultimately show ?thesis using bs(1) by blast
qed

text \<open>Changing the counter of a cell that stays blocked.\<close>

lemma refs_inv_count:
  assumes "refs_inv m0 m" "dyn_ref m i = Some k" "0 < n" "n < 2147483648"
  shows "refs_inv m0 (m\<lparr>dyn_ref := (dyn_ref m)(i := Some n)\<rparr>)"
  using assms unfolding refs_inv_def by (auto simp: same_grid_def)

lemma block_ref_ok:
  assumes inv: "refs_inv m0 m" and pre: "ref_pre m (pt, False)"
  shows "\<exists>m'. block_ref m pt = Inr m' \<and> refs_inv m0 m' \<and> refs_of m' = ref_spec (refs_of m) (pt, False)"
proof -
  let ?i = "TransCoordToIndex m pt"
  have b: "bitmap_inv m" and v: "IsValidPos m pt" using inv pre by (auto simp: refs_inv_def)
  have key: "i32 ?i = ?i" using cell_key [OF b Trans_valid(2) [OF b v]] .
  show ?thesis
  proof (cases "dyn_ref m ?i")
    case None
    then have "refs_of m pt = 0" by (simp add: refs_of_def refs_def)
    moreover obtain bs where "block_ref m pt = Inr (m\<lparr>pBuf := bs, dyn_ref := (dyn_ref m)(?i := Some 1)\<rparr>)"
      "refs_inv m0 (m\<lparr>pBuf := bs, dyn_ref := (dyn_ref m)(?i := Some 1)\<rparr>)"
      using refs_inv_set [OF inv v refl, where d = "Some 1" and v = False] None key by (auto simp: block_ref_def Let_def)
    moreover have "refs_of (m\<lparr>pBuf := bs, dyn_ref := (dyn_ref m)(?i := Some 1)\<rparr>) = (refs_of m)(pt := 1)"
      using refs_upd [OF b v, of "Some 1"] by simp
    ultimately show ?thesis by (auto simp: fun_upd_def)
  next
    case (Some n)
    then have n: "0 < n" "n + 1 < 2147483648" using inv pre by (auto simp: refs_inv_def refs_def)
    then have "block_ref m pt = Inr (m\<lparr>dyn_ref := (dyn_ref m)(?i := Some (n + 1))\<rparr>)"
      using Some key by (simp add: block_ref_def Let_def i32_id)
    moreover have "refs_of m pt = nat n" using Some v by (simp add: refs_of_def refs_def)
    moreover have "nat (n + 1) = nat n + 1" using n by simp
    ultimately show ?thesis
      using refs_inv_count [OF inv Some, of "n + 1"] refs_upd [OF b v, of "Some (n + 1)"] n by auto
  qed
qed

lemma release_ref_ok:
  assumes inv: "refs_inv m0 m" and pre: "ref_pre m (pt, True)"
  shows "\<exists>m'. release_ref m pt = Inr m' \<and> refs_inv m0 m' \<and> refs_of m' = ref_spec (refs_of m) (pt, True)"
proof -
  let ?i = "TransCoordToIndex m pt"
  have b: "bitmap_inv m" and v: "IsValidPos m pt" using inv pre by (auto simp: refs_inv_def)
  have key: "i32 ?i = ?i" using cell_key [OF b Trans_valid(2) [OF b v]] .
  show ?thesis
  proof (cases "dyn_ref m ?i")
    case None
    then have "refs_of m pt = 0" by (simp add: refs_of_def refs_def)
    then have "(refs_of m)(pt := refs_of m pt - 1) = refs_of m" by (metis diff_0_eq_0 fun_upd_triv)
    then show ?thesis using None key inv by (simp add: release_ref_def Let_def)
  next
    case (Some n)
    then have n: "0 < n" "n < 2147483648" using inv by (auto simp: refs_inv_def)
    then have i: "i32 (n - 1) = n - 1" by (intro i32_id) auto
    have r: "refs_of m pt = nat n" using Some v by (simp add: refs_of_def refs_def)
    show ?thesis
    proof (cases "n = 1")
      case True
      obtain bs where bs: "SetBitUnsafe m ?i True = Inr (m\<lparr>pBuf := bs\<rparr>)"
        "refs_inv m0 (m\<lparr>pBuf := bs, dyn_ref := (dyn_ref m)(?i := None)\<rparr>)"
        using refs_inv_set [OF inv v refl, where d = None and v = True] by auto
      then have "release_ref m pt = Inr (m\<lparr>pBuf := bs, dyn_ref := (dyn_ref m)(?i := None)\<rparr>)"
        using Some key i True by (simp add: release_ref_def Let_def)
      moreover have "refs_of (m\<lparr>pBuf := bs, dyn_ref := (dyn_ref m)(?i := None)\<rparr>) = (refs_of m)(pt := 0)"
        using refs_upd [OF b v, of None] by simp
      ultimately show ?thesis using bs(2) r True by (auto simp: fun_upd_def)
    next
      case False
      then have "release_ref m pt = Inr (m\<lparr>dyn_ref := (dyn_ref m)(?i := Some (n - 1))\<rparr>)"
        using Some key i by (simp add: release_ref_def Let_def)
      moreover have "nat (n - 1) = nat n - 1" using n by simp
      ultimately show ?thesis
        using refs_inv_count [OF inv Some, of "n - 1"] refs_upd [OF b v, of "Some (n - 1)"] n False r by auto
    qed
  qed
qed

lemma ref_step_ok:
  assumes "refs_inv m0 m" "ref_pre m op"
  shows "\<exists>m'. ref_step m op = Inr m' \<and> refs_inv m0 m' \<and> refs_of m' = ref_spec (refs_of m) op"
  using block_ref_ok [OF assms(1)] release_ref_ok [OF assms(1)] assms(2) by (cases op) auto

interpretation blocks: refinement_system ref_step ref_pre "refs_inv m0" refs_of ref_spec for m0
proof unfold_locales
  fix m op m' assume a: "refs_inv m0 m" "ref_pre m op"
  note ok = ref_step_ok [OF a]
  then show "\<exists>m'. ref_step m op = Inr m' \<and> refs_inv m0 m'" by blast
  assume "ref_step m op = Inr m'"
  with ok show "refs_of m' = ref_spec (refs_of m) op" by auto
qed

section \<open>Properties\<close>

text \<open>The blocks of a cell that calls of \<open>SetDynPassable\<close> leave outstanding.\<close>

definition flat_calls :: "(point list \<times> bool) list \<Rightarrow> (point \<times> bool) list" where
  "flat_calls ops = concat (List.map (\<lambda>(ps, v). List.map (\<lambda>p. (p, v)) ps) ops)"

definition outstanding :: "point \<Rightarrow> (point list \<times> bool) list \<Rightarrow> nat" where
  "outstanding pt ops =
     foldl (\<lambda>n (p, v). if p = pt then (if v then n - 1 else n + 1) else n) 0 (flat_calls ops)"

fun dyn_call :: "bit_map \<Rightarrow> point list \<times> bool \<Rightarrow> bit_map res" where
  "dyn_call m (ps, v) = bindr (SetDynPassables m ps v) (\<lambda>(m', _). Inr m')"

lemma run_map: "run step s (List.map f xs) = run (\<lambda>s x. step s (f x)) s xs"
  by (induction xs arbitrary: s) simp_all

lemma dyn_call_run: "dyn_call m (ps, v) = run ref_step m (List.map (\<lambda>p. (p, v)) ps)"
proof -
  have "bindr (bindr r (\<lambda>m'. Inr (m', True))) (\<lambda>(m', _). Inr m') = r" for r :: "bit_map res" by (cases r) auto
  then show ?thesis by (cases v) (auto simp: SetDynPassables_def run_map)
qed

lemma dyn_calls_run: "run dyn_call m ops = run ref_step m (flat_calls ops)"
proof (induction ops arbitrary: m)
  case (Cons op ops)
  obtain ps v where op: "op = (ps, v)" by (cases op)
  have "run ref_step m (flat_calls (op # ops)) =
      bindr (run ref_step m (List.map (\<lambda>p. (p, v)) ps)) (\<lambda>m'. run ref_step m' (flat_calls ops))"
    using blocks.run_append by (simp add: op flat_calls_def)
  moreover have "run dyn_call m (op # ops) = bindr (dyn_call m (ps, v)) (\<lambda>m'. run dyn_call m' ops)" by (simp add: op)
  ultimately show ?case using Cons.IH by (simp add: dyn_call_run del: dyn_call.simps)
qed (simp add: flat_calls_def)

lemma ref_spec_fold:
  "foldl ref_spec f xs pt = foldl (\<lambda>n (p, v). if p = pt then (if v then n - 1 else n + 1) else n) (f pt) xs"
  by (induction xs arbitrary: f) (auto split: if_splits)

text \<open>Calls that block fewer than \<open>2 ^ 31\<close> cells in all cannot overflow a counter.\<close>

lemma ref_admissible:
  assumes "refs_inv m0 m" "\<forall>(p, v) \<in> set xs. IsValidPos m0 p" "\<forall>p. refs_of m p + length xs < 2147483648"
  shows "admissible ref_step ref_pre m xs"
  using assms
proof (induction xs arbitrary: m)
  case (Cons x xs)
  obtain p v where x: "x = (p, v)" by (cases x)
  have vp: "IsValidPos m p"
    using Cons.prems(1,2) same_grid_frame(2) [of m0 m] by (auto simp: refs_inv_def x)
  have pre: "ref_pre m x" using Cons.prems(3) [rule_format, of p] vp by (simp add: x refs_of_def)
  obtain m' where m': "ref_step m x = Inr m'" "refs_inv m0 m'" "refs_of m' = ref_spec (refs_of m) x"
    using ref_step_ok [OF Cons.prems(1) pre] by blast
  have "refs_of m' q + length xs < 2147483648" for q
    using m'(3) Cons.prems(3) [rule_format, of q] by (auto simp: x)
  then show ?case using Cons.IH [OF m'(2)] Cons.prems(2) m'(1) pre by auto
qed simp

text \<open>
  C15: Counted blocks nest: after any sequence of block and release calls on cells of the map, a
  cell that was walkable before is walkable exactly if every block on it has been released,
  however the calls overlapped, and no call runs out of the bitmap.
\<close>

theorem SetDynPassables_counts:
  assumes inv: "bitmap_inv m" and clean: "\<forall>k. dyn_ref m k = None"
    and valid: "\<forall>(ps, v) \<in> set ops. \<forall>p \<in> set ps. IsValidPos m p"
    and few: "length (flat_calls ops) < 2147483648"
  shows "\<exists>m'. run dyn_call m ops = Inr m' \<and> bitmap_inv m' \<and>
     (\<forall>pt. IsValidPos m pt \<and> IsPassable m pt = Inr True \<longrightarrow> IsPassable m' pt = Inr (outstanding pt ops = 0))"
proof -
  have i0: "refs_inv m m" using inv clean by (simp add: refs_inv_def same_grid_def)
  have r0: "refs_of m = (\<lambda>_. 0)" using clean by (simp add: refs_of_def refs_def fun_eq_iff)
  have "\<forall>(p, v) \<in> set (flat_calls ops). IsValidPos m p" using valid by (fastforce simp: flat_calls_def)
  then have "admissible ref_step ref_pre m (flat_calls ops)" using ref_admissible [OF i0] few r0 by simp
  from blocks.run_refines [OF i0 this] obtain m' where m': "run dyn_call m ops = Inr m'" "refs_inv m m'"
    "refs_of m' = foldl ref_spec (\<lambda>_. 0) (flat_calls ops)" unfolding r0 dyn_calls_run by blast
  have b: "bitmap_inv m'" using m'(2) by (simp add: refs_inv_def)
  have fr: "cell m' = cell m" "IsValidPos m' = IsValidPos m" "TransCoordToIndex m' = TransCoordToIndex m"
    using same_grid_frame m'(2) by (auto simp: refs_inv_def)
  have "IsPassable m' pt = Inr (outstanding pt ops = 0)"
    if pt: "IsValidPos m pt" "IsPassable m pt = Inr True" for pt
  proof -
    let ?i = "TransCoordToIndex m pt"
    have "passable_cell m ?i" "cell m ?i" using pt IsPassable_valid [OF inv] Trans_valid(2) [OF inv] by auto
    then have "passable_cell m' ?i = (dyn_ref m' ?i = None)" using m'(2) fr by (simp add: refs_inv_def)
    also have "\<dots> = (refs_of m' pt = 0)"
    proof (cases "dyn_ref m' ?i")
      case (Some n)
      then have "0 < n" using m'(2) unfolding refs_inv_def by blast
      then show ?thesis using Some pt(1) by (simp add: refs_of_def refs_def fr)
    qed (simp add: refs_of_def refs_def fr)
    also have "\<dots> = (outstanding pt ops = 0)" by (simp add: m'(3) ref_spec_fold outstanding_def)
    finally show ?thesis using IsPassable_valid [OF b] pt(1) fr by simp
  qed
  then show ?thesis using m'(1) b by blast
qed

definition small_map :: bit_map where
  "small_map = BitMap_init\<lparr>map_length := 4, map_width := 3, buf_len := 2, pBuf := [0xF0, 0xF0]\<rparr>"

lemma small_map_inv: "bitmap_inv small_map" "\<forall>k. dyn_ref small_map k = None"
  by (auto simp: small_map_def bitmap_inv_def BitMap_init_def)

theorem SetDynPassables_counts_witness:
  "\<exists>m'. run dyn_call small_map [([(0, 0), (1, 0)], False), ([(1, 0)], False), ([(0, 0), (1, 0)], True)] = Inr m' \<and>
     IsPassable m' (0, 0) = Inr True \<and> IsPassable m' (1, 0) = Inr False"
proof -
  let ?ops = "[([(0, 0), (1, 0)], False), ([(1, 0)], False), ([(0, 0), (1, 0)], True)]"
  have v: "IsValidPos small_map (0, 0)" "IsValidPos small_map (1, 0)" by (auto simp: IsValidPos_def small_map_def)
  have p: "IsPassable small_map (0, 0) = Inr True" "IsPassable small_map (1, 0) = Inr True"
    by code_simp+
  have "outstanding (0, 0) ?ops = 0" "outstanding (1, 0) ?ops = 1" by code_simp+
  moreover have "length (flat_calls ?ops) < 2147483648" by (simp add: flat_calls_def)
  ultimately show ?thesis using SetDynPassables_counts [OF small_map_inv, of ?ops] v p by fastforce
qed

text \<open>
  Releasing a counted block sets the cell's bit whatever it was before: a cell that was never
  walkable becomes walkable by blocking it once and releasing it.
\<close>

theorem SetDynPassables_opens:
  assumes "bitmap_inv m" "IsValidPos m pt" "dyn_ref m (TransCoordToIndex m pt) = None"
  shows "\<exists>m1 m2. SetDynPassables m [pt] False = Inr (m1, True) \<and> SetDynPassables m1 [pt] True = Inr (m2, True) \<and>
     IsPassable m1 pt = Inr False \<and> IsPassable m2 pt = Inr True"
proof -
  let ?i = "TransCoordToIndex m pt"
  have c: "cell m ?i" and key: "i32 ?i = ?i" using Trans_valid(2) [OF assms(1,2)] cell_key [OF assms(1)] by auto
  let ?m = "m\<lparr>dyn_ref := (dyn_ref m)(?i := Some 1)\<rparr>"
  have inv: "bitmap_inv ?m" "cell ?m ?i" using assms(1) c by simp_all
  obtain bs where bs: "SetBitUnsafe ?m ?i False = Inr (?m\<lparr>pBuf := bs\<rparr>)" "length bs = length (pBuf m)"
    "\<not> passable_cell (?m\<lparr>pBuf := bs\<rparr>) ?i" using SetBitUnsafe_cell [OF inv, of False] inv by auto
  let ?m1 = "?m\<lparr>pBuf := bs\<rparr>"
  have inv1: "bitmap_inv ?m1" "cell ?m1 ?i" using inv bs(2) by simp_all
  obtain cs where cs: "SetBitUnsafe ?m1 ?i True = Inr (?m1\<lparr>pBuf := cs\<rparr>)" "length cs = length (pBuf ?m1)"
    "passable_cell (?m1\<lparr>pBuf := cs\<rparr>) ?i" using SetBitUnsafe_cell [OF inv1, of True] inv1 by auto
  let ?m2 = "?m1\<lparr>pBuf := cs, dyn_ref := (dyn_ref ?m1)(?i := None)\<rparr>"
  have inv2: "bitmap_inv ?m2" using assms(1) bs(2) cs(2) by simp
  have "SetDynPassables m [pt] False = Inr (?m1, True)"
    using bs(1) assms(3) key by (simp add: SetDynPassables_def block_ref_def Let_def)
  moreover have "SetDynPassables ?m1 [pt] True = Inr (?m2, True)"
    using cs(1) key by (simp add: SetDynPassables_def release_ref_def Let_def i32_id)
  moreover have "IsPassable ?m1 pt = Inr False" "IsPassable ?m2 pt = Inr True"
    using IsPassable_valid inv1(1) inv2 assms(2) bs(3) cs(3) by simp_all
  ultimately show ?thesis by blast
qed

theorem SetDynPassables_opens_witness:
  "\<exists>m1 m2. SetDynPassables (small_map\<lparr>pBuf := [0, 0]\<rparr>) [(2, 1)] False = Inr (m1, True) \<and>
     SetDynPassables m1 [(2, 1)] True = Inr (m2, True) \<and> IsPassable m2 (2, 1) = Inr True"
proof -
  let ?m = "small_map\<lparr>pBuf := [0, 0]\<rparr>"
  have "bitmap_inv ?m" "IsValidPos ?m (2, 1)" "dyn_ref ?m (TransCoordToIndex ?m (2, 1)) = None"
    using small_map_inv by (auto simp: small_map_def IsValidPos_def bitmap_inv_def)
  from SetDynPassables_opens [OF this] show ?thesis by blast
qed

lemma restore_byte: "bit (x :: byte) a \<Longrightarrow> x AND NOT (push_bit a 1) OR push_bit a 1 = x"
  by (rule bit_word_eqI) (auto simp: bit_simps)

text \<open>
  The single-cell interface is exact: it blocks only a walkable cell and releasing it gives
  back the very same map; a second block of the cell, a block of an unwalkable cell and a
  release of a cell it did not block are refused and change nothing.
\<close>

theorem SetDynPassable_restores:
  assumes inv: "bitmap_inv m" and pt: "IsValidPos m pt"
    and sync: "\<forall>i \<in> dyn_map m. \<not> passable_cell m i"
  shows "if passable_cell m (TransCoordToIndex m pt)
     then \<exists>m1. SetDynPassable m pt False = Inr (m1, True) \<and> IsPassable m1 pt = Inr False \<and>
            SetDynPassable m1 pt False = Inr (m1, False) \<and> SetDynPassable m1 pt True = Inr (m, True)
     else SetDynPassable m pt False = Inr (m, False) \<and>
          (TransCoordToIndex m pt \<notin> dyn_map m \<longrightarrow> SetDynPassable m pt True = Inr (m, False))"
proof -
  let ?i = "TransCoordToIndex m pt"
  have c: "cell m ?i" and key: "i32 ?i = ?i" using Trans_valid(2) [OF inv pt] cell_key [OF inv] by auto
  show ?thesis
  proof (cases "passable_cell m ?i")
    case True
    have fresh: "?i \<notin> dyn_map m" using sync True by blast
    let ?m = "m\<lparr>dyn_map := insert ?i (dyn_map m)\<rparr>"
    have m: "bitmap_inv ?m" "cell ?m ?i" using inv c by simp_all
    obtain bs where bs: "SetBitUnsafe ?m ?i False = Inr (?m\<lparr>pBuf := bs\<rparr>)" "length bs = length (pBuf m)"
      "bs = (pBuf m)[nat (?i div 8) := pBuf m ! nat (?i div 8) AND NOT (bit_mask ?i)]"
      "\<not> passable_cell (?m\<lparr>pBuf := bs\<rparr>) ?i" using SetBitUnsafe_cell [OF m, of False] m by auto
    let ?m1 = "?m\<lparr>pBuf := bs\<rparr>"
    have m1: "bitmap_inv ?m1" "cell ?m1 ?i" using m bs(2) by simp_all
    have t1: "TestBit ?m1 ?i = Inr False" using TestBit_cell [OF m1] bs(4) by simp
    have b1: "SetDynPassable m pt False = Inr (?m1, True)"
      using TestBit_cell [OF inv c] True key fresh SetBit_cell [OF m] bs(1) by (simp add: SetDynPassable_def Let_def)
    have b2: "SetDynPassable ?m1 pt False = Inr (?m1, False)"
      using t1 by (simp add: SetDynPassable_def Let_def)
    let ?m2 = "?m1\<lparr>dyn_map := dyn_map m\<rparr>"
    have m2: "bitmap_inv ?m2" "cell ?m2 ?i" using inv c bs(2) by simp_all
    have k: "nat (?i div 8) < length (pBuf m)" using byte_at_cell(2) [OF inv c] .
    have "(pBuf m ! nat (?i div 8) AND NOT (bit_mask ?i)) OR bit_mask ?i = pBuf m ! nat (?i div 8)"
      using True restore_byte unfolding bit_mask_def passable_cell_def by blast
    then have "bs[nat (?i div 8) := bs ! nat (?i div 8) OR bit_mask ?i] = pBuf m" using k unfolding bs(3) by simp
    then have "SetBitUnsafe ?m2 ?i True = Inr m"
      using byte_at_cell(1) [OF m2] by (simp add: SetBitUnsafe_def)
    moreover have "insert ?i (dyn_map m) - {?i} = dyn_map m" using fresh by simp
    ultimately have "SetDynPassable ?m1 pt True = Inr (m, True)"
      using t1 key SetBit_cell [OF m2] by (simp add: SetDynPassable_def Let_def)
    moreover have "IsPassable ?m1 pt = Inr False" using IsPassable_valid [OF m1(1)] bs(4) by simp
    ultimately show ?thesis using True b1 b2 by auto
  next
    case False
    then show ?thesis using TestBit_cell [OF inv c] key by (simp add: SetDynPassable_def Let_def)
  qed
qed

theorem SetDynPassable_restores_witness:
  "\<exists>m1. SetDynPassable small_map (1, 0) False = Inr (m1, True) \<and> SetDynPassable m1 (1, 0) True = Inr (small_map, True)"
proof -
  have "IsValidPos small_map (1, 0)" "\<forall>i \<in> dyn_map small_map. \<not> passable_cell small_map i"
    by (auto simp: IsValidPos_def small_map_def BitMap_init_def)
  moreover have "passable_cell small_map (TransCoordToIndex small_map (1, 0))" by code_simp
  ultimately show ?thesis using SetDynPassable_restores [OF small_map_inv(1), of "(1, 0)"] by auto
qed

lemma small_map_u: "nat (u64 (buf_len small_map)) = 2" "u64 (buf_len small_map) = 2"
  by (simp_all add: small_map_def u64_def)

text \<open>A map as the generator writes it: fields in range, as many bytes as the cells need.\<close>

definition map_saved :: "bit_map \<Rightarrow> bool" where
  "map_saved m \<longleftrightarrow> (\<forall>x \<in> {map_id m, map_length m, map_width m, buf_len m}. - 2147483648 \<le> x \<and> x < 2147483648) \<and>
     length (grid_size m) = 4 \<and> length (origin_x m) = 4 \<and> length (origin_z m) = 4 \<and>
     0 \<le> buf_len m \<and> int (length (pBuf m)) = buf_len m \<and> map_bytes (map_length m) (map_width m) = buf_len m"

lemma sint_word: "- 2147483648 \<le> x \<Longrightarrow> x < 2147483648 \<Longrightarrow> sint (word_of_int x :: 32 word) = x"
  by (simp add: sint_sbintrunc' signed_take_bit_int_eq_self)

lemma AppendInt32_ok:
  "buffer_inv b \<Longrightarrow> \<exists>b'. AppendInt32 b x = Inr b' \<and> buffer_inv b' \<and> peek_bytes b' = peek_bytes b @ be32 x"
  using Append_ok unfolding AppendInt32_def by blast

lemma ReadInt32_ok:
  assumes "buffer_inv b" "peek_bytes b = be32 x @ q"
  shows "\<exists>b'. ReadInt32 b = Inr (b', x) \<and> buffer_inv b' \<and> peek_bytes b' = q"
proof -
  have l: "length (be32 x) = 4" by (simp add: be32_def)
  then obtain b' where "Retrieve b 4 = Inr b'" "buffer_inv b'" "peek_bytes b' = q"
    using Retrieve_ok [OF assms(1), of 4] assms(2) by auto
  moreover have "ReadableBytes b \<ge> 4" using length_peek [OF assms(1)] assms(2) l by simp
  ultimately show ?thesis using assms(2) host32_be32 by (simp add: ReadInt32_def PeekInt32_def)
qed

lemma ReadFloat_ok:
  assumes "buffer_inv b" "peek_bytes b = f @ q" "length f = 4"
  shows "\<exists>b'. ReadFloatFromBuffer b = Inr (b', f) \<and> buffer_inv b' \<and> peek_bytes b' = q"
proof -
  obtain b' where "Retrieve b 4 = Inr b'" "buffer_inv b'" "peek_bytes b' = q"
    using Retrieve_ok [OF assms(1), of 4] assms(2,3) by auto
  moreover have "\<not> ReadableBytes b < 4" using length_peek [OF assms(1)] assms(2,3) by simp
  ultimately show ?thesis using assms(2,3) by (simp add: ReadFloatFromBuffer_def)
qed

definition map_image :: "bit_map \<Rightarrow> byte list" where
  "map_image m = be32 (word_of_int (map_id m)) @ be32 (word_of_int (map_length m)) @ be32 (word_of_int (map_width m)) @
     grid_size m @ origin_x m @ origin_z m @ be32 (word_of_int (buf_len m)) @ pBuf m"

lemma Save_image:
  assumes "map_saved m" "buffer_inv b"
  shows "\<exists>b'. BitMap_Save m b = Inr (b', True) \<and> buffer_inv b' \<and> peek_bytes b' = peek_bytes b @ map_image m"
proof -
  obtain b1 where b1: "AppendInt32 b (word_of_int (map_id m)) = Inr b1" "buffer_inv b1"
    "peek_bytes b1 = peek_bytes b @ be32 (word_of_int (map_id m))" using AppendInt32_ok [OF assms(2)] by blast
  obtain b2 where b2: "AppendInt32 b1 (word_of_int (map_length m)) = Inr b2" "buffer_inv b2"
    "peek_bytes b2 = peek_bytes b1 @ be32 (word_of_int (map_length m))" using AppendInt32_ok [OF b1(2)] by blast
  obtain b3 where b3: "AppendInt32 b2 (word_of_int (map_width m)) = Inr b3" "buffer_inv b3"
    "peek_bytes b3 = peek_bytes b2 @ be32 (word_of_int (map_width m))" using AppendInt32_ok [OF b2(2)] by blast
  obtain b4 where b4: "Append b3 (grid_size m) = Inr b4" "buffer_inv b4" "peek_bytes b4 = peek_bytes b3 @ grid_size m"
    using Append_ok [OF b3(2)] by blast
  obtain b5 where b5: "Append b4 (origin_x m) = Inr b5" "buffer_inv b5" "peek_bytes b5 = peek_bytes b4 @ origin_x m"
    using Append_ok [OF b4(2)] by blast
  obtain b6 where b6: "Append b5 (origin_z m) = Inr b6" "buffer_inv b6" "peek_bytes b6 = peek_bytes b5 @ origin_z m"
    using Append_ok [OF b5(2)] by blast
  obtain b7 where b7: "AppendInt32 b6 (word_of_int (buf_len m)) = Inr b7" "buffer_inv b7"
    "peek_bytes b7 = peek_bytes b6 @ be32 (word_of_int (buf_len m))" using AppendInt32_ok [OF b6(2)] by blast
  obtain b8 where b8: "Append b7 (pBuf m) = Inr b8" "buffer_inv b8" "peek_bytes b8 = peek_bytes b7 @ pBuf m"
    using Append_ok [OF b7(2)] by blast
  have "nat (u64 (buf_len m)) = length (pBuf m)" using assms(1) by (auto simp: map_saved_def u64_id)
  then have "BitMap_Save m b = Inr (b8, True)"
    using b1(1) b2(1) b3(1) b4(1) b5(1) b6(1) b7(1) b8(1) by (simp add: BitMap_Save_def)
  then show ?thesis using b8 b7(3) b6(3) b5(3) b4(3) b3(3) b2(3) b1(3) by (simp add: map_image_def)
qed

lemma Load_image:
  assumes m: "map_saved m" and b: "buffer_inv b" "peek_bytes b = map_image m @ q"
  shows "\<exists>b'. BitMap_Load m0 b = Inr (m\<lparr>dyn_map := dyn_map m0, dyn_ref := dyn_ref m0\<rparr>, b', True) \<and>
     buffer_inv b' \<and> peek_bytes b' = q"
proof -
  note image = b(2) [unfolded map_image_def append_assoc]
  have f: "length (grid_size m) = 4" "length (origin_x m) = 4" "length (origin_z m) = 4" using m by (auto simp: map_saved_def)
  obtain b1 where b1: "ReadInt32 b = Inr (b1, word_of_int (map_id m))" "buffer_inv b1" "peek_bytes b1 =
     be32 (word_of_int (map_length m)) @ be32 (word_of_int (map_width m)) @ grid_size m @ origin_x m @ origin_z m @
     be32 (word_of_int (buf_len m)) @ pBuf m @ q" using ReadInt32_ok [OF b(1) image] by blast
  obtain b2 where b2: "ReadInt32 b1 = Inr (b2, word_of_int (map_length m))" "buffer_inv b2" "peek_bytes b2 =
     be32 (word_of_int (map_width m)) @ grid_size m @ origin_x m @ origin_z m @
     be32 (word_of_int (buf_len m)) @ pBuf m @ q" using ReadInt32_ok [OF b1(2,3)] by blast
  obtain b3 where b3: "ReadInt32 b2 = Inr (b3, word_of_int (map_width m))" "buffer_inv b3" "peek_bytes b3 =
     grid_size m @ origin_x m @ origin_z m @ be32 (word_of_int (buf_len m)) @ pBuf m @ q"
    using ReadInt32_ok [OF b2(2,3)] by blast
  obtain b4 where b4: "ReadFloatFromBuffer b3 = Inr (b4, grid_size m)" "buffer_inv b4" "peek_bytes b4 =
     origin_x m @ origin_z m @ be32 (word_of_int (buf_len m)) @ pBuf m @ q"
    using ReadFloat_ok [OF b3(2,3) f(1)] by blast
  obtain b5 where b5: "ReadFloatFromBuffer b4 = Inr (b5, origin_x m)" "buffer_inv b5" "peek_bytes b5 =
     origin_z m @ be32 (word_of_int (buf_len m)) @ pBuf m @ q" using ReadFloat_ok [OF b4(2,3) f(2)] by blast
  obtain b6 where b6: "ReadFloatFromBuffer b5 = Inr (b6, origin_z m)" "buffer_inv b6" "peek_bytes b6 =
     be32 (word_of_int (buf_len m)) @ pBuf m @ q" using ReadFloat_ok [OF b5(2,3) f(3)] by blast
  obtain b7 where b7: "ReadInt32 b6 = Inr (b7, word_of_int (buf_len m))" "buffer_inv b7" "peek_bytes b7 = pBuf m @ q"
    using ReadInt32_ok [OF b6(2,3)] by blast
  have n: "nat (buf_len m) = length (pBuf m)" "u64 (buf_len m) = buf_len m" "i32 (buf_len m) = buf_len m"
    "map_bytes (map_length m) (map_width m) = buf_len m" "int (length (pBuf m)) = buf_len m"
    using m by (auto simp: map_saved_def u64_id i32_id)
  have s: "sint (word_of_int (map_id m) :: 32 word) = map_id m" "sint (word_of_int (map_length m) :: 32 word) = map_length m"
    "sint (word_of_int (map_width m) :: 32 word) = map_width m" "sint (word_of_int (buf_len m) :: 32 word) = buf_len m"
    using m by (auto simp: map_saved_def intro!: sint_word)
  obtain b8 where b8: "Retrieve b7 (length (pBuf m)) = Inr b8" "buffer_inv b8" "peek_bytes b8 = q"
    using Retrieve_ok [OF b7(2), of "length (pBuf m)"] b7(3) by auto
  have r: "\<not> int (ReadableBytes b7) < buf_len m" using length_peek [OF b7(2)] b7(3) n(5) by simp
  have "BitMap_Load m0 b = Inr (m0\<lparr>map_id := map_id m, map_length := map_length m, map_width := map_width m,
      grid_size := grid_size m, origin_x := origin_x m, origin_z := origin_z m, buf_len := buf_len m, pBuf := pBuf m\<rparr>, b8, True)"
    unfolding BitMap_Load_def using b1(1) b2(1) b3(1) b4(1) b5(1) b6(1) b7(1,3) b8(1) n r s by (simp add: Let_def)
  moreover have "m0\<lparr>map_id := map_id m, map_length := map_length m, map_width := map_width m,
      grid_size := grid_size m, origin_x := origin_x m, origin_z := origin_z m, buf_len := buf_len m, pBuf := pBuf m\<rparr> =
      m\<lparr>dyn_map := dyn_map m0, dyn_ref := dyn_ref m0\<rparr>" by (cases m; cases m0) simp
  ultimately show ?thesis using b8 by metis
qed

text \<open>
  C28: A map that was saved loads back: after \<open>Save\<close> has appended it to any buffer, skipping
  what was there before and loading gives the map with all its cells, leaves nothing unread,
  and keeps only the dynamic bookkeeping of the object loaded into. A block in force at the
  time of saving is saved as part of the cells.
\<close>

theorem BitMap_Load_Save:
  assumes "map_saved m" "buffer_inv b"
  shows "\<exists>b1 b2 b3. BitMap_Save m b = Inr (b1, True) \<and> Retrieve b1 (length (peek_bytes b)) = Inr b2 \<and>
     BitMap_Load m0 b2 = Inr (m\<lparr>dyn_map := dyn_map m0, dyn_ref := dyn_ref m0\<rparr>, b3, True) \<and> peek_bytes b3 = []"
proof -
  obtain b1 where b1: "BitMap_Save m b = Inr (b1, True)" "buffer_inv b1" "peek_bytes b1 = peek_bytes b @ map_image m"
    using Save_image [OF assms] by blast
  obtain b2 where b2: "Retrieve b1 (length (peek_bytes b)) = Inr b2" "buffer_inv b2" "peek_bytes b2 = map_image m @ []"
    using Retrieve_ok [OF b1(2), of "length (peek_bytes b)"] b1(3) by auto
  show ?thesis using Load_image [OF assms(1) b2(2,3), of m0] b1(1) b2(1) by blast
qed

theorem BitMap_Load_Save_witness:
  "\<exists>b1 b2 b3. BitMap_Save small_map Buffer_init = Inr (b1, True) \<and>
     Retrieve b1 (length (peek_bytes Buffer_init)) = Inr b2 \<and>
     BitMap_Load BitMap_init b2 = Inr (small_map, b3, True) \<and> peek_bytes b3 = []"
proof -
  have "map_saved small_map"
    by (auto simp: map_saved_def small_map_def BitMap_init_def map_bytes_def u64_def i32_def Let_def)
  moreover have "small_map\<lparr>dyn_map := dyn_map BitMap_init, dyn_ref := dyn_ref BitMap_init\<rparr> = small_map"
    by (simp add: small_map_def BitMap_init_def)
  ultimately show ?thesis using BitMap_Load_Save [OF _ buffer_inv_init, of small_map BitMap_init] by simp
qed

text \<open>
  The square units of \<open>SetWalkable\<close> reach only part of the square: of the 3 by 3 cells
  around an inner position the call changes the three of the row above it, and of the 5 by 5
  the five of the row two above; the position itself is never among them.
\<close>

theorem unit_points_row:
  assumes "IsValidPos m (x, z)" "x < 32700" "z < 32700"
  shows "set (unit_points m (x, z) WalkableUnit_Center_3x3) = {p. IsValidPos m p \<and> snd p = z + 1 \<and> \<bar>fst p - x\<bar> \<le> 1} \<and>
     set (unit_points m (x, z) WalkableUnit_Center_5x5) = {p. IsValidPos m p \<and> snd p = z + 2 \<and> \<bar>fst p - x\<bar> \<le> 2} \<and>
     (x, z) \<notin> set (unit_points m (x, z) WalkableUnit_Center_3x3)"
proof -
  have off: "Offset (x, z) a c = (x + a, z + c)" if "a \<in> {-2..2}" "c \<in> {-2..2}" for a c
    using that assms by (auto simp: Offset_def IsValidPos_def intro!: i16_id)
  have row: "set (filter (IsValidPos m) (concat (List.map (\<lambda>c. List.map (\<lambda>a. Offset (x, z) a c) [- r..r]) [r..r]))) =
      {p. IsValidPos m p \<and> snd p = z + r \<and> \<bar>fst p - x\<bar> \<le> r}" if r: "r \<in> {1, 2}" for r
  proof (rule set_eqI)
    fix p :: point
    have "p \<in> (\<lambda>a. Offset (x, z) a r) ` {- r..r} \<longleftrightarrow> snd p = z + r \<and> \<bar>fst p - x\<bar> \<le> r"
    proof
      assume "p \<in> (\<lambda>a. Offset (x, z) a r) ` {- r..r}"
      then obtain a where "a \<in> {- r..r}" "p = Offset (x, z) a r" by blast
      then show "snd p = z + r \<and> \<bar>fst p - x\<bar> \<le> r" using off [of a r] r by auto
    next
      assume p: "snd p = z + r \<and> \<bar>fst p - x\<bar> \<le> r"
      then have "fst p - x \<in> {- r..r}" by auto
      moreover have "Offset (x, z) (fst p - x) r = p" 
      proof -
        have "fst p - x \<in> {-2..2}" "r \<in> {-2..2}" using p r by auto
        from off [OF this] show ?thesis using p by (simp add: prod_eq_iff)
      qed
      ultimately show "p \<in> (\<lambda>a. Offset (x, z) a r) ` {- r..r}" by (metis image_eqI)
    qed
    then show "p \<in> set (filter (IsValidPos m) (concat (List.map (\<lambda>c. List.map (\<lambda>a. Offset (x, z) a c) [- r..r]) [r..r]))) \<longleftrightarrow>
        p \<in> {p. IsValidPos m p \<and> snd p = z + r \<and> \<bar>fst p - x\<bar> \<le> r}" by auto
  qed
  have "set (unit_points m (x, z) WalkableUnit_Center_3x3) = {p. IsValidPos m p \<and> snd p = z + 1 \<and> \<bar>fst p - x\<bar> \<le> 1}"
    "set (unit_points m (x, z) WalkableUnit_Center_5x5) = {p. IsValidPos m p \<and> snd p = z + 2 \<and> \<bar>fst p - x\<bar> \<le> 2}"
    using row [of 1] row [of 2] by (simp_all add: unit_points_def)
  then show ?thesis by simp
qed

theorem unit_points_row_witness: "(1, 1) \<notin> set (unit_points small_map (1, 1) WalkableUnit_Center_3x3)"
  using unit_points_row [of small_map 1 1] by (simp add: IsValidPos_def small_map_def)

end
