(* ===== verification/MapAStar.thy ===== *)
theory MapAStar
  imports Prelude OpenHeap BitMap "HOL-Library.Monad_Syntax"
begin

text \<open>
  \<open>pathfinder/pf_engine/map_astar.h\<close>, \<open>map_astar.cpp\<close> and the tables and distances of
  \<open>pf_common.h\<close>: the search for a path on the walk map. Nodes live in a store indexed by
  pointers, because the open list, the closed list and the parent links of other nodes share
  them and the search changes their costs in place. \<open>float\<close> arithmetic is a parameter: the
  proofs use only that adding a step never lowers a cost and is monotone.
\<close>

section \<open>Floats, tables and distances\<close>

record 'c floats =
  f_zero :: 'c
  f_one :: 'c
  f_root2 :: 'c
  f_add :: "'c \<Rightarrow> 'c \<Rightarrow> 'c"
  f_mul :: "'c \<Rightarrow> 'c \<Rightarrow> 'c"
  f_of_int :: "int \<Rightarrow> 'c"

definition PF2D_NeighborCost :: "'c floats \<Rightarrow> 'c list" where
  "PF2D_NeighborCost fl = [f_one fl, f_one fl, f_one fl, f_one fl, f_root2 fl, f_root2 fl, f_root2 fl, f_root2 fl]"

definition HeuristicDist :: "'c floats \<Rightarrow> point \<Rightarrow> point \<Rightarrow> 'c" where
  "HeuristicDist fl pt1 pt2 =
     (let diffX = i16 \<bar>fst pt2 - fst pt1\<bar>;
          diffZ = i16 \<bar>snd pt2 - snd pt1\<bar>;
          max_diff = (if diffX > diffZ then diffX else diffZ);
          min_diff = (if diffX < diffZ then diffX else diffZ);
          diffValue = i16 (max_diff - min_diff)
      in f_add fl (f_mul fl (f_of_int fl min_diff) (f_root2 fl)) (f_of_int fl diffValue))"

section \<open>Nodes and the state of a search\<close>

type_synonym ptr = nat

record 'c map_node =
  n_cost :: 'c
  n_point :: point
  n_parent :: "ptr option"

definition MapNode_init :: "'c floats \<Rightarrow> 'c map_node" where
  "MapNode_init fl = \<lparr>n_cost = f_zero fl, n_point = (0, 0), n_parent = None\<rparr>"

definition SetCost :: "'c::linorder floats \<Rightarrow> 'c \<Rightarrow> 'c map_node \<Rightarrow> 'c map_node" where
  "SetCost fl weight n = (if weight \<le> f_zero fl then n else n\<lparr>n_cost := weight\<rparr>)"

definition SetCorrd :: "point \<Rightarrow> 'c map_node \<Rightarrow> 'c map_node" where
  "SetCorrd pt n = n\<lparr>n_point := pt\<rparr>"

definition SetParent :: "ptr option \<Rightarrow> 'c map_node \<Rightarrow> 'c map_node" where
  "SetParent q n = (case q of None \<Rightarrow> n | Some _ \<Rightarrow> n\<lparr>n_parent := q\<rparr>)"

definition node_key :: "'c map_node \<Rightarrow> int" where
  "node_key n = MAKE_KEY 0 (fst (n_point n)) (snd (n_point n))"

record 'c mastar =
  nodes_touched :: int
  nodes_expanded :: int
  max_expanded :: int
  openlist :: "ptr open_heap"
  closelist :: "ptr close_hash"
  node_of :: "ptr \<Rightarrow> 'c map_node"
  next_ptr :: ptr

definition MAStar_init :: "'c floats \<Rightarrow> 'c mastar" where
  "MAStar_init fl = \<lparr>nodes_touched = 0, nodes_expanded = 0, max_expanded = 50000, openlist = OpenHeap_init,
     closelist = (\<lambda>_. None), node_of = (\<lambda>_. MapNode_init fl), next_ptr = 0\<rparr>"

abbreviation cost_in :: "'c mastar \<Rightarrow> ptr \<Rightarrow> 'c" where
  "cost_in s p \<equiv> n_cost (node_of s p)"

abbreviation key_in :: "'c mastar \<Rightarrow> ptr \<Rightarrow> int" where
  "key_in s p \<equiv> node_key (node_of s p)"

definition open_push :: "ptr \<Rightarrow> 'c::linorder mastar \<Rightarrow> 'c mastar" where
  "open_push p s = s\<lparr>openlist := Heap_Push (cost_in s) (key_in s) p (openlist s)\<rparr>"

definition new_node :: "'c map_node \<Rightarrow> 'c mastar \<Rightarrow> ptr \<times> 'c mastar" where
  "new_node n s = (next_ptr s, s\<lparr>node_of := (node_of s)(next_ptr s := n), next_ptr := next_ptr s + 1\<rparr>)"

definition set_node :: "ptr \<Rightarrow> ('c map_node \<Rightarrow> 'c map_node) \<Rightarrow> 'c mastar \<Rightarrow> 'c mastar" where
  "set_node p f s = s\<lparr>node_of := (node_of s)(p := f (node_of s p))\<rparr>"

definition clear_lists :: "'c mastar \<Rightarrow> 'c mastar" where
  "clear_lists s = s\<lparr>openlist := Heap_Clear (openlist s), closelist := (\<lambda>_. None)\<rparr>"

section \<open>The search\<close>

text \<open>The body of the loop over the neighbours: \<open>i\<close> indexes the table of directions.\<close>

definition neighbor_pt :: "point \<Rightarrow> nat \<Rightarrow> point" where
  "neighbor_pt pt i = Offset pt (fst (PF2D_NeighborDist ! i)) (snd (PF2D_NeighborDist ! i))"

definition neighbor_node :: "'c::linorder floats \<Rightarrow> ptr \<Rightarrow> nat \<Rightarrow> 'c mastar \<Rightarrow> 'c map_node" where
  "neighbor_node fl cur i s =
     SetParent (Some cur)
      (SetCost fl (f_add fl (cost_in s cur) (PF2D_NeighborCost fl ! i))
        (SetCorrd (neighbor_pt (n_point (node_of s cur)) i) (MapNode_init fl)))"

definition visit_neighbor :: "'c::linorder floats \<Rightarrow> ptr \<Rightarrow> nat \<Rightarrow> 'c mastar \<Rightarrow> 'c mastar" where
  "visit_neighbor fl cur i s0 =
     (let s = s0\<lparr>nodes_touched := i32 (nodes_touched s0 + 1)\<rparr>;
          neighbor = neighbor_node fl cur i s
      in case Heap_Find (node_key neighbor) (openlist s) of
           Some p \<Rightarrow>
             if n_cost neighbor < cost_in s p then
               let s1 = set_node p (SetParent (Some cur) \<circ> SetCost fl (n_cost neighbor)) s
               in s1\<lparr>openlist := Heap_Update (cost_in s1) (key_in s1) p (openlist s1)\<rparr>
             else s
         | None \<Rightarrow>
           (case Close_Find (node_key neighbor) (closelist s) of
              Some p \<Rightarrow>
                if n_cost neighbor < cost_in s p then
                  let s1 = s\<lparr>closelist := Close_Remove (key_in s) p (closelist s)\<rparr>;
                      s2 = set_node p (SetParent (Some cur) \<circ> SetCost fl (n_cost neighbor)) s1
                  in open_push p s2
                else s
            | None \<Rightarrow> (case new_node neighbor s of (p, s1) \<Rightarrow> open_push p s1)))"

definition try_neighbor ::
  "'c::linorder floats \<Rightarrow> bit_map \<Rightarrow> (point \<Rightarrow> bool) option \<Rightarrow> ptr \<Rightarrow> 'c mastar \<Rightarrow> nat \<Rightarrow> 'c mastar res" where
  "try_neighbor fl bm rng cur s i =
     (let pt = neighbor_pt (n_point (node_of s cur)) i in
      bindr (IsPassable bm pt) (\<lambda>ok.
        if \<not> ok then Inr s
        else case rng of
               Some test \<Rightarrow> if \<not> test pt then Inr s else Inr (visit_neighbor fl cur i s)
             | None \<Rightarrow> Inr (visit_neighbor fl cur i s)))"

definition PF_NEIGHBOR_COUNT :: nat where "PF_NEIGHBOR_COUNT = 8"

definition expand_node ::
  "'c::linorder floats \<Rightarrow> bit_map \<Rightarrow> (point \<Rightarrow> bool) option \<Rightarrow> ptr \<Rightarrow> 'c mastar \<Rightarrow> 'c mastar res" where
  "expand_node fl bm rng cur s0 =
     (let s = s0\<lparr>openlist := Heap_Pop (cost_in s0) (key_in s0) (openlist s0)\<rparr> in
      bindr (run (try_neighbor fl bm rng cur) s [0..<PF_NEIGHBOR_COUNT]) (\<lambda>s1.
        Inr (s1\<lparr>closelist := Close_Push (key_in s1) cur (closelist s1)\<rparr>)))"

text \<open>How the loop over the open list ends: no node left, too many expanded, or the goal on top.\<close>

datatype loop_end = Exhausted | TooMany | Found ptr

lemma visit_frame [simp]:
  "nodes_expanded (visit_neighbor fl cur i s) = nodes_expanded s"
  "max_expanded (visit_neighbor fl cur i s) = max_expanded s"
  by (auto simp: visit_neighbor_def Let_def set_node_def open_push_def new_node_def split: option.splits)

lemma try_frame:
  "try_neighbor fl bm rng cur s i = Inr s' \<Longrightarrow> nodes_expanded s' = nodes_expanded s \<and> max_expanded s' = max_expanded s"
  by (auto simp: try_neighbor_def Let_def bindr_Inr_iff split: if_splits option.splits)

lemma tries_frame:
  "run (try_neighbor fl bm rng cur) s is = Inr s' \<Longrightarrow>
     nodes_expanded s' = nodes_expanded s \<and> max_expanded s' = max_expanded s"
proof (induction "is" arbitrary: s)
  case (Cons i "is")
  then obtain s1 where "try_neighbor fl bm rng cur s i = Inr s1" "run (try_neighbor fl bm rng cur) s1 is = Inr s'"
    by (auto simp: bindr_Inr_iff)
  then show ?case using Cons.IH try_frame by metis
qed simp

lemma expand_frame:
  "expand_node fl bm rng cur s = Inr s' \<Longrightarrow> nodes_expanded s' = nodes_expanded s \<and> max_expanded s' = max_expanded s"
  using tries_frame by (fastforce simp: expand_node_def Let_def bindr_Inr_iff)

function search_loop ::
  "'c::linorder floats \<Rightarrow> bit_map \<Rightarrow> (point \<Rightarrow> bool) option \<Rightarrow> point \<Rightarrow> 'c mastar \<Rightarrow> ('c mastar \<times> loop_end) res" where
  "search_loop fl bm rng goal s0 =
     (if Heap_Empty (openlist s0) then Inr (s0, Exhausted)
      else
        let s = s0\<lparr>nodes_expanded := nodes_expanded s0 + 1\<rparr> in
        if nodes_expanded s0 + 1 \<ge> max_expanded s0 then Inr (clear_lists s, TooMany)
        else case Heap_Top (openlist s0) of
               None \<Rightarrow> Inl NullDeref
             | Some cur \<Rightarrow>
                 if n_point (node_of s0 cur) = goal then Inr (s, Found cur)
                 else bindr (expand_node fl bm rng cur s) (\<lambda>s1. search_loop fl bm rng goal s1))"
  by pat_completeness auto
termination
  by (relation "measure (\<lambda>(fl, bm, rng, goal, s). nat (max_expanded s - nodes_expanded s))")
    (auto dest!: expand_frame)

declare search_loop.simps [simp del]

text \<open>The parents of a node up to the start; a cycle of parents would never end.\<close>

partial_function (option) parents :: "(ptr \<Rightarrow> 'c map_node) \<Rightarrow> ptr \<Rightarrow> point list option" where
  "parents nd p =
     (case n_parent (nd p) of
        None \<Rightarrow> Some [n_point (nd p)]
      | Some q \<Rightarrow> Option.bind (parents nd q) (\<lambda>xs. Some (n_point (nd p) # xs)))"

declare parents.simps [code]

definition BuildPath :: "'c mastar \<Rightarrow> ptr option \<Rightarrow> point list \<Rightarrow> (point list \<times> bool) res" where
  "BuildPath s dest path =
     (case dest of
        None \<Rightarrow> Inr (path, False)
      | Some p \<Rightarrow> (case parents (node_of s) p of
            None \<Rightarrow> Inl Diverge
          | Some tmp_path \<Rightarrow> Inr (path @ rev tmp_path, True)))"

definition MAStar_Search ::
  "'c::linorder floats \<Rightarrow> bit_map option \<Rightarrow> point \<Rightarrow> point \<Rightarrow> (point \<Rightarrow> bool) option \<Rightarrow> 'c mastar \<Rightarrow> point list \<Rightarrow>
   ('c mastar \<times> point list \<times> bool) res" where
  "MAStar_Search fl bitmap start goal rng s path =
     (case bitmap of None \<Rightarrow> Inl AssertFail | Some bm \<Rightarrow>
      bindr (IsPassable bm start) (\<lambda>okS. assertx okS
      (bindr (IsPassable bm goal) (\<lambda>okG. assertx okG
      (if start = goal then Inr (s, path @ [goal], True)
       else
         let (cur, s1) = new_node (MapNode_init fl) s;
             s2 = set_node cur (SetParent None \<circ> SetCorrd start \<circ> SetCost fl (HeuristicDist fl start goal)) s1;
             s3 = open_push cur s2
         in bindr (search_loop fl bm rng goal s3) (\<lambda>(s4, how).
              case how of
                Exhausted \<Rightarrow> Inr (clear_lists s4, path, False)
              | TooMany \<Rightarrow> Inr (s4, path, False)
              | Found p \<Rightarrow>
                  bindr (BuildPath s4 (Some p) path) (\<lambda>(path', ok).
                    if \<not> ok then Inr (clear_lists s4, path', False) else Inr (s4, path', True))))))))"

end
