(* ===== verification/MapAStarCorrect.thy ===== *)
theory MapAStarCorrect
  imports MapAStar
begin

text \<open>
  Correctness of the search on the walk map: the path it returns is a cheapest walk from start
  to goal over walkable neighbours, it gives up only when there is none or after the limit of
  expanded nodes, and it always ends: the parent links it leaves behind have no cycle.
\<close>

section \<open>Routes\<close>

definition step_cost :: "'c floats \<Rightarrow> nat \<Rightarrow> 'c" where
  "step_cost fl i = PF2D_NeighborCost fl ! i"

definition walkable :: "bit_map \<Rightarrow> (point \<Rightarrow> bool) option \<Rightarrow> point \<Rightarrow> bool" where
  "walkable bm rng pt \<longleftrightarrow> IsValidPos bm pt \<and> passable_cell bm (TransCoordToIndex bm pt) \<and>
     (case rng of None \<Rightarrow> True | Some test \<Rightarrow> test pt)"

text \<open>A route is a list of directions; its points, its end, and its cost as the search adds it up.\<close>

fun route_ok :: "bit_map \<Rightarrow> (point \<Rightarrow> bool) option \<Rightarrow> point \<Rightarrow> nat list \<Rightarrow> bool" where
  "route_ok bm rng pt [] = True"
| "route_ok bm rng pt (i # is) = (i < PF_NEIGHBOR_COUNT \<and> walkable bm rng (neighbor_pt pt i) \<and> route_ok bm rng (neighbor_pt pt i) is)"

fun route_points :: "point \<Rightarrow> nat list \<Rightarrow> point list" where
  "route_points pt [] = [pt]"
| "route_points pt (i # is) = pt # route_points (neighbor_pt pt i) is"

definition route_end :: "point \<Rightarrow> nat list \<Rightarrow> point" where
  "route_end pt is = foldl neighbor_pt pt is"

definition route_cost :: "'c floats \<Rightarrow> 'c \<Rightarrow> nat list \<Rightarrow> 'c" where
  "route_cost fl c is = foldl (\<lambda>c i. f_add fl c (step_cost fl i)) c is"

text \<open>What the search needs of \<open>float\<close> addition; IEEE addition of finite numbers has both.\<close>

definition float_laws :: "'c::linorder floats \<Rightarrow> bool" where
  "float_laws fl \<longleftrightarrow> (\<forall>c. \<forall>w \<in> {f_one fl, f_root2 fl}. c \<le> f_add fl c w) \<and>
     (\<forall>c d. \<forall>w \<in> {f_one fl, f_root2 fl}. c \<le> d \<longrightarrow> f_add fl c w \<le> f_add fl d w)"

definition short_point :: "point \<Rightarrow> bool" where
  "short_point pt \<longleftrightarrow> fst pt \<in> {- 32768..32767} \<and> snd pt \<in> {- 32768..32767}"

lemma step_cost_cases: "i < PF_NEIGHBOR_COUNT \<Longrightarrow> step_cost fl i \<in> {f_one fl, f_root2 fl}"
  by (auto simp: step_cost_def PF2D_NeighborCost_def PF_NEIGHBOR_COUNT_def less_Suc_eq numeral_eq_Suc)

lemma add_up: "float_laws fl \<Longrightarrow> i < PF_NEIGHBOR_COUNT \<Longrightarrow> c \<le> f_add fl c (step_cost fl i)"
  using step_cost_cases [of i fl] by (auto simp: float_laws_def)

lemma add_mono: "float_laws fl \<Longrightarrow> i < PF_NEIGHBOR_COUNT \<Longrightarrow> c \<le> d \<Longrightarrow> f_add fl c (step_cost fl i) \<le> f_add fl d (step_cost fl i)"
  using step_cost_cases [of i fl] by (auto simp: float_laws_def)

lemma i16_range: "- 32768 \<le> i16 x" "i16 x \<le> 32767"
  by (auto simp: i16_def)

lemma neighbor_short: "short_point (neighbor_pt pt i)"
  using i16_range by (simp add: neighbor_pt_def Offset_def short_point_def)

lemma neighbor_other:
  assumes "i < PF_NEIGHBOR_COUNT" "short_point pt"
  shows "neighbor_pt pt i \<noteq> pt"
proof -
  have up: "i16 (a + 1) \<noteq> a" and down: "i16 (a - 1) \<noteq> a" if "a \<in> {- 32768..32767}" for a
  proof -
    have "a = 32767 \<or> i16 (a + 1) = a + 1" using that by (auto intro!: i16_id)
    then show "i16 (a + 1) \<noteq> a" by (auto simp: i16_def)
    have "a = - 32768 \<or> i16 (a - 1) = a - 1" using that by (auto intro!: i16_id)
    then show "i16 (a - 1) \<noteq> a" by (auto simp: i16_def)
  qed
  have "i \<in> {0, 1, 2, 3, 4, 5, 6, 7}" using assms(1) by (auto simp: PF_NEIGHBOR_COUNT_def)
  then have "fst (PF2D_NeighborDist ! i) \<in> {-1, 1} \<or> snd (PF2D_NeighborDist ! i) \<in> {-1, 1}"
    by (auto simp: PF2D_NeighborDist_def)
  then show ?thesis using up [of "fst pt"] down [of "fst pt"] up [of "snd pt"] down [of "snd pt"] assms(2)
    by (cases pt) (auto simp: neighbor_pt_def Offset_def short_point_def)
qed

lemma key_point:
  assumes "IsValidPos bm p" "IsValidPos bm q" "short_point p" "short_point q"
  shows "MAKE_KEY 0 (fst p) (snd p) = MAKE_KEY 0 (fst q) (snd q) \<longleftrightarrow> p = q"
proof
  assume "MAKE_KEY 0 (fst p) (snd p) = MAKE_KEY 0 (fst q) (snd q)"
  then have "fst p mod 65536 = fst q mod 65536 \<and> snd p = snd q"
    using MAKE_KEY_inj [of "snd p" "snd q" 0 "fst p" 0 "fst q"] assms by (auto simp: IsValidPos_def short_point_def)
  moreover have "fst p mod 65536 = fst p" "fst q mod 65536 = fst q"
    using assms by (auto simp: IsValidPos_def short_point_def)
  ultimately show "p = q" by (simp add: prod_eq_iff)
qed simp

section \<open>Nodes and their parents\<close>

inductive rooted :: "(ptr \<Rightarrow> 'c map_node) \<Rightarrow> ptr \<Rightarrow> bool" for nd where
  root: "n_parent (nd p) = None \<Longrightarrow> rooted nd p"
| link: "n_parent (nd p) = Some q \<Longrightarrow> rooted nd q \<Longrightarrow> rooted nd p"

inductive_cases rooted_linkE: "rooted nd p"

text \<open>
  The nodes \<open>A\<close> of a search: positive costs, walkable points, and parents in \<open>A\<close> one step away
  that cost at least that step less, ending at the start with the start's cost \<open>h0\<close>.
\<close>

definition point_ok :: "bit_map \<Rightarrow> (point \<Rightarrow> bool) option \<Rightarrow> point \<Rightarrow> point \<Rightarrow> bool" where
  "point_ok bm rng start pt \<longleftrightarrow> pt = start \<or> (walkable bm rng pt \<and> short_point pt)"

definition parent_ok ::
  "'c::linorder floats \<Rightarrow> bit_map \<Rightarrow> (point \<Rightarrow> bool) option \<Rightarrow> point \<Rightarrow> 'c \<Rightarrow> (ptr \<Rightarrow> 'c map_node) \<Rightarrow> ptr set \<Rightarrow> ptr \<Rightarrow> bool" where
  "parent_ok fl bm rng start h0 nd A p \<longleftrightarrow>
     (case n_parent (nd p) of
        None \<Rightarrow> n_point (nd p) = start \<and> n_cost (nd p) = h0
      | Some q \<Rightarrow> q \<in> A \<and> (\<exists>i < PF_NEIGHBOR_COUNT. n_point (nd p) = neighbor_pt (n_point (nd q)) i \<and>
          walkable bm rng (n_point (nd p)) \<and> f_add fl (n_cost (nd q)) (step_cost fl i) \<le> n_cost (nd p)))"

definition nodes_ok ::
  "'c::linorder floats \<Rightarrow> bit_map \<Rightarrow> (point \<Rightarrow> bool) option \<Rightarrow> point \<Rightarrow> 'c \<Rightarrow> (ptr \<Rightarrow> 'c map_node) \<Rightarrow> ptr set \<Rightarrow> bool" where
  "nodes_ok fl bm rng start h0 nd A \<longleftrightarrow>
     (\<forall>p \<in> A. f_zero fl < n_cost (nd p) \<and> point_ok bm rng start (n_point (nd p)) \<and>
        parent_ok fl bm rng start h0 nd A p \<and> rooted nd p)"

text \<open>Direction \<open>i\<close> of node \<open>p\<close> has been dealt with.\<close>

definition relaxed ::
  "'c::linorder floats \<Rightarrow> bit_map \<Rightarrow> (point \<Rightarrow> bool) option \<Rightarrow> (ptr \<Rightarrow> 'c map_node) \<Rightarrow> ptr set \<Rightarrow> ptr \<Rightarrow> nat \<Rightarrow> bool" where
  "relaxed fl bm rng nd A p i \<longleftrightarrow>
     (walkable bm rng (neighbor_pt (n_point (nd p)) i) \<longrightarrow>
       (\<exists>m \<in> A. n_point (nd m) = neighbor_pt (n_point (nd p)) i \<and> n_cost (nd m) \<le> f_add fl (n_cost (nd p)) (step_cost fl i)))"

definition start_in :: "point \<Rightarrow> 'c::linorder \<Rightarrow> (ptr \<Rightarrow> 'c map_node) \<Rightarrow> ptr set \<Rightarrow> bool" where
  "start_in start h0 nd A \<longleftrightarrow> (\<exists>m \<in> A. n_point (nd m) = start \<and> n_cost (nd m) \<le> h0)"

text \<open>
  A better way to a known point, or the first way to a new one: node \<open>p\<close> gets the neighbour's
  point, the lower cost and the current node as its parent.
\<close>

definition better_node :: "'c::linorder floats \<Rightarrow> (ptr \<Rightarrow> 'c map_node) \<Rightarrow> ptr \<Rightarrow> nat \<Rightarrow> 'c map_node" where
  "better_node fl nd cur i = \<lparr>n_cost = f_add fl (n_cost (nd cur)) (step_cost fl i),
     n_point = neighbor_pt (n_point (nd cur)) i, n_parent = Some cur\<rparr>"

definition improves :: "'c::linorder floats \<Rightarrow> (ptr \<Rightarrow> 'c map_node) \<Rightarrow> ptr set \<Rightarrow> ptr \<Rightarrow> nat \<Rightarrow> ptr \<Rightarrow> bool" where
  "improves fl nd A cur i p \<longleftrightarrow> cur \<in> A \<and> p \<noteq> cur \<and> i < PF_NEIGHBOR_COUNT \<and>
     (p \<in> A \<longrightarrow> n_point (nd p) = neighbor_pt (n_point (nd cur)) i \<and>
        f_add fl (n_cost (nd cur)) (step_cost fl i) < n_cost (nd p))"

lemma parent_cost:
  assumes "float_laws fl" "nodes_ok fl bm rng start h0 nd A" "q \<in> A" "n_parent (nd q) = Some r"
  shows "r \<in> A" "n_cost (nd r) \<le> n_cost (nd q)"
proof -
  have "parent_ok fl bm rng start h0 nd A q" using assms by (simp add: nodes_ok_def)
  then obtain i where i: "r \<in> A" "i < PF_NEIGHBOR_COUNT" "f_add fl (n_cost (nd r)) (step_cost fl i) \<le> n_cost (nd q)"
    using assms(4) by (auto simp: parent_ok_def)
  show "r \<in> A" by (rule i)
  show "n_cost (nd r) \<le> n_cost (nd q)" using add_up [OF assms(1) i(2)] i(3) order_trans by blast
qed

lemma rooted_cheaper:
  assumes laws: "float_laws fl" "nodes_ok fl bm rng start h0 nd A"
    and "rooted nd q" "q \<in> A" "p \<in> A \<Longrightarrow> n_cost (nd q) < n_cost (nd p)"
  shows "rooted (nd(p := x)) q"
  using assms(3-5)
proof (induction rule: rooted.induct)
  case (root q)
  then have "q \<noteq> p" by blast
  then show ?case using root by (intro rooted.root) simp
next
  case (link q r)
  then have "q \<noteq> p" by blast
  moreover have "p \<in> A \<Longrightarrow> n_cost (nd r) < n_cost (nd p)"
    using link.prems(2) parent_cost(2) [OF laws link.prems(1) link.hyps(1)] by simp
  then have "rooted (nd(p := x)) r"
    using link.IH parent_cost(1) [OF laws link.prems(1) link.hyps(1)] by blast
  ultimately show ?case using link.hyps(1) by (intro rooted.link [of _ q r]) (simp, assumption)
qed

lemma rooted_relink:
  assumes "rooted nd q" "rooted (nd(p := x)) c" "n_parent x = Some c"
  shows "rooted (nd(p := x)) q"
  using assms(1)
proof (induction rule: rooted.induct)
  case (root q)
  show ?case
  proof (cases "q = p")
    case True
    then show ?thesis using assms(3) by (intro rooted.link [of _ q c] assms(2)) simp
  next
    case False
    then show ?thesis using root by (intro rooted.root) simp
  qed
next
  case (link q r)
  show ?case
  proof (cases "q = p")
    case True
    then show ?thesis using assms(3) by (intro rooted.link [of _ q c] assms(2)) simp
  next
    case False
    then show ?thesis using link by (intro rooted.link [of _ q r]) simp_all
  qed
qed

lemma improves_cheaper:
  assumes "float_laws fl" "improves fl nd A cur i p"
  shows "p \<in> A \<Longrightarrow> n_cost (nd cur) < n_cost (nd p)"
  using assms add_up [OF assms(1), of i "n_cost (nd cur)"] by (auto simp: improves_def)

lemma nodes_ok_improve:
  assumes laws: "float_laws fl" "nodes_ok fl bm rng start h0 nd A" and imp: "improves fl nd A cur i p"
    and walk: "walkable bm rng (neighbor_pt (n_point (nd cur)) i)"
  shows "nodes_ok fl bm rng start h0 (nd(p := better_node fl nd cur i)) (insert p A)"
  unfolding nodes_ok_def
proof (intro ballI)
  let ?b = "better_node fl nd cur i" and ?nd = "nd(p := better_node fl nd cur i)"
  fix q assume q: "q \<in> insert p A"
  have c: "cur \<in> A" "cur \<noteq> p" "i < PF_NEIGHBOR_COUNT" using imp by (auto simp: improves_def)
  have b: "n_parent ?b = Some cur" "n_point ?b = neighbor_pt (n_point (nd cur)) i"
    "n_cost ?b = f_add fl (n_cost (nd cur)) (step_cost fl i)" by (simp_all add: better_node_def)
  have "rooted nd cur" using laws(2) c by (simp add: nodes_ok_def)
  then have rc: "rooted ?nd cur" using rooted_cheaper [OF laws] c(1) improves_cheaper [OF laws(1) imp] by blast
  have le: "n_cost (?nd r) \<le> n_cost (nd r)" "n_point (?nd r) = n_point (nd r)" if "r \<in> A" for r
    using imp that b by (auto simp: improves_def)
  show "f_zero fl < n_cost (?nd q) \<and> point_ok bm rng start (n_point (?nd q)) \<and>
      parent_ok fl bm rng start h0 ?nd (insert p A) q \<and> rooted ?nd q"
  proof (cases "q = p")
    case True
    have "f_zero fl < n_cost ?b" using laws(2) c b(3) add_up [OF laws(1) c(3)] by (auto simp: nodes_ok_def intro: less_le_trans)
    moreover have "point_ok bm rng start (n_point ?b)" using walk neighbor_short by (simp add: b point_ok_def)
    moreover have "parent_ok fl bm rng start h0 ?nd (insert p A) p"
      using c walk by (auto simp: parent_ok_def b)
    moreover have "rooted ?nd p" using rc b(1) by (intro rooted.link [of _ p cur]) simp_all
    ultimately show ?thesis using True by simp
  next
    case False
    then have qA: "q \<in> A" using q by simp
    then have old: "f_zero fl < n_cost (nd q)" "point_ok bm rng start (n_point (nd q))"
      "parent_ok fl bm rng start h0 nd A q" "rooted nd q" using laws(2) by (auto simp: nodes_ok_def)
    have "parent_ok fl bm rng start h0 ?nd (insert p A) q"
    proof (cases "n_parent (nd q)")
      case None
      then show ?thesis using old(3) False by (simp add: parent_ok_def)
    next
      case (Some r)
      then obtain j where j: "r \<in> A" "j < PF_NEIGHBOR_COUNT" "n_point (nd q) = neighbor_pt (n_point (nd r)) j"
        "walkable bm rng (n_point (nd q))" "f_add fl (n_cost (nd r)) (step_cost fl j) \<le> n_cost (nd q)"
        using old(3) by (auto simp: parent_ok_def)
      then have "f_add fl (n_cost (?nd r)) (step_cost fl j) \<le> n_cost (?nd q)"
        using add_mono [OF laws(1) j(2) le(1) [OF j(1)]] False by (auto intro: order_trans)
      moreover have "n_parent (?nd q) = Some r" "n_point (?nd q) = n_point (nd q)" using Some False by simp_all
      ultimately show ?thesis using j(1-4) le(2) [OF j(1)]
        unfolding parent_ok_def by (simp del: fun_upd_apply) (use j(2) in blast)
    qed
    moreover have "rooted ?nd q" using rooted_relink [OF old(4) rc b(1)] .
    ultimately show ?thesis using old False by simp
  qed
qed

lemma relaxed_improve:
  assumes "improves fl nd A cur i p" "q \<noteq> p" "relaxed fl bm rng nd A q j"
  shows "relaxed fl bm rng (nd(p := better_node fl nd cur i)) (insert p A) q j"
  unfolding relaxed_def
proof (intro impI)
  let ?nd = "nd(p := better_node fl nd cur i)"
  assume "walkable bm rng (neighbor_pt (n_point (?nd q)) j)"
  then obtain m where m: "m \<in> A" "n_point (nd m) = neighbor_pt (n_point (nd q)) j"
    "n_cost (nd m) \<le> f_add fl (n_cost (nd q)) (step_cost fl j)" using assms(2,3) by (auto simp: relaxed_def)
  have "n_point (?nd m) = n_point (nd m)" "n_cost (?nd m) \<le> n_cost (nd m)"
    using assms(1) m(1) by (auto simp: improves_def better_node_def)
  then show "\<exists>m \<in> insert p A. n_point (?nd m) = neighbor_pt (n_point (?nd q)) j \<and>
      n_cost (?nd m) \<le> f_add fl (n_cost (?nd q)) (step_cost fl j)"
    using m assms(2) by (intro bexI [of _ m]) auto
qed

lemma relaxed_new:
  assumes "improves fl nd A cur i p"
  shows "relaxed fl bm rng (nd(p := better_node fl nd cur i)) (insert p A) cur i"
  using assms by (auto simp: relaxed_def improves_def better_node_def intro!: bexI [of _ p])

lemma start_in_improve:
  assumes "improves fl nd A cur i p" "start_in start h0 nd A"
  shows "start_in start h0 (nd(p := better_node fl nd cur i)) (insert p A)"
proof -
  obtain m where m: "m \<in> A" "n_point (nd m) = start" "n_cost (nd m) \<le> h0" using assms(2) by (auto simp: start_in_def)
  show ?thesis unfolding start_in_def
    using m assms(1) by (intro bexI [of _ m]) (auto simp: improves_def better_node_def)
qed

section \<open>The lists of a search\<close>

definition opens :: "'c mastar \<Rightarrow> ptr set" where
  "opens s = set (hlist (openlist s))"

definition closed :: "'c mastar \<Rightarrow> ptr set" where
  "closed s = ran (closelist s)"

text \<open>
  The open list is a heap, the closed list is keyed by its nodes, no two nodes of the lists and
  \<open>X\<close> (the node being expanded) share a key, and all of them are allocated.
\<close>

definition lists_ok :: "'c::linorder mastar \<Rightarrow> ptr set \<Rightarrow> bool" where
  "lists_ok s X \<longleftrightarrow> heap_inv (cost_in s) (key_in s) (openlist s) \<and>
     (\<forall>k p. closelist s k = Some p \<longrightarrow> key_in s p = k) \<and>
     (\<forall>p \<in> opens s. closelist s (key_in s p) = None) \<and>
     (\<forall>p \<in> opens s \<union> closed s. \<forall>x \<in> X. key_in s p \<noteq> key_in s x) \<and>
     (\<forall>p \<in> opens s \<union> closed s \<union> X. p < next_ptr s)"

lemma lists_okD:
  assumes "lists_ok s X"
  shows "heap_inv (cost_in s) (key_in s) (openlist s)"
    "closelist s k = Some p \<Longrightarrow> key_in s p = k"
    "p \<in> opens s \<Longrightarrow> closelist s (key_in s p) = None"
    "p \<in> opens s \<union> closed s \<Longrightarrow> x \<in> X \<Longrightarrow> key_in s p \<noteq> key_in s x"
    "p \<in> opens s \<union> closed s \<union> X \<Longrightarrow> p < next_ptr s"
  using assms by (auto simp: lists_ok_def)

lemma heap_inv_cong:
  assumes "\<And>p. p \<in> set (hlist h) \<Longrightarrow> cost p = cost' p \<and> key p = key' p"
  shows "heap_inv cost key h = heap_inv cost' key' h"
proof -
  have c: "cost (hlist h ! j) = cost' (hlist h ! j)" and k: "key (hlist h ! j) = key' (hlist h ! j)"
    if "j < length (hlist h)" for j using assms that by simp_all
  have "cost (hlist h ! parent j) \<le> cost (hlist h ! j) \<longleftrightarrow> cost' (hlist h ! parent j) \<le> cost' (hlist h ! j)"
    if "0 < j \<and> j < length (hlist h)" for j
    using c [of j] c [of "parent j"] that parent_less [of j] by simp
  then have "heap_ok cost (hlist h) = heap_ok cost' (hlist h)" unfolding heap_ok_def by blast
  moreover have "(\<exists>i < length (hlist h). key (hlist h ! i) = m) = (\<exists>i < length (hlist h). key' (hlist h ! i) = m)" for m
    using k by auto
  then have "idx_ok key h = idx_ok key' h" unfolding idx_ok_def using k by simp
  ultimately show ?thesis by (simp add: heap_inv_def)
qed

lemma closed_iff: "lists_ok s X \<Longrightarrow> p \<in> closed s \<longleftrightarrow> closelist s (key_in s p) = Some p"
  using lists_okD(2) by (fastforce simp: closed_def ran_def)

lemma opens_closed: "lists_ok s X \<Longrightarrow> p \<in> opens s \<Longrightarrow> p \<notin> closed s"
  by (simp add: closed_iff lists_okD(3))

lemma opens_find:
  assumes "lists_ok s X"
  shows "Heap_Find k (openlist s) = Some p \<longleftrightarrow> p \<in> opens s \<and> key_in s p = k"
proof -
  have "idx_ok (key_in s) (openlist s)" using lists_okD(1) [OF assms] by (simp add: heap_inv_def)
  then show ?thesis by (simp add: Heap_Find_iff opens_def)
qed

lemma opens_find_None: "lists_ok s X \<Longrightarrow> Heap_Find k (openlist s) = None \<Longrightarrow> p \<in> opens s \<Longrightarrow> key_in s p \<noteq> k"
  using opens_find by (metis option.distinct(1))

lemma set_of_mset_eq: "mset xs = add_mset p (mset ys) \<Longrightarrow> set xs = insert p (set ys)"
  by (metis set_mset_add_mset_insert set_mset_mset)

lemma set_node_sel [simp]:
  "node_of (set_node p f s) = (node_of s)(p := f (node_of s p))" "openlist (set_node p f s) = openlist s"
  "closelist (set_node p f s) = closelist s" "next_ptr (set_node p f s) = next_ptr s"
  "opens (set_node p f s) = opens s" "closed (set_node p f s) = closed s"
  by (simp_all add: set_node_def opens_def closed_def)

lemma open_upd: "openlist (s\<lparr>openlist := h\<rparr>) = h" for s :: "'c mastar"
  by simp

text \<open>Pushing a node that is in neither list.\<close>

lemma open_push_ok:
  assumes ok: "lists_ok s X" and p: "p \<notin> X" "p < next_ptr s"
    and fresh: "\<And>q. q \<in> opens s \<union> closed s \<union> X \<Longrightarrow> q \<noteq> p \<Longrightarrow> key_in s q \<noteq> key_in s p"
    and out: "p \<notin> opens s" "p \<notin> closed s"
  shows "lists_ok (open_push p s) X \<and> opens (open_push p s) = insert p (opens s) \<and> closed (open_push p s) = closed s"
proof -
  let ?h = "Heap_Push (cost_in s) (key_in s) p (openlist s)"
  have st: "open_push p s = s\<lparr>openlist := ?h\<rparr>" by (simp add: open_push_def)
  have "key_in s p \<notin> key_in s ` set (hlist (openlist s))"
  proof
    assume "key_in s p \<in> key_in s ` set (hlist (openlist s))"
    then obtain q where "q \<in> opens s" "key_in s p = key_in s q" by (auto simp: opens_def)
    then show False using fresh [of q] out(1) by auto
  qed
  note P = Heap_Push_ok [OF lists_okD(1) [OF ok] this]
  have o: "opens (open_push p s) = insert p (opens s)" using set_of_mset_eq [OF P(2)] by (simp add: opens_def st)
  have c: "closed (open_push p s) = closed s" by (simp add: closed_def st)
  have "closelist s (key_in s p) = None"
  proof (rule ccontr)
    assume "closelist s (key_in s p) \<noteq> None"
    then obtain q where q: "closelist s (key_in s p) = Some q" by blast
    then have "key_in s q = key_in s p" "q \<in> closed s" using lists_okD(2) [OF ok q] by (auto simp: closed_def ran_def)
    then show False using fresh [of q] out(2) by auto
  qed
  moreover have "key_in s p \<noteq> key_in s x" if "x \<in> X" for x using fresh [of x] that p(1) by fastforce
  ultimately have "lists_ok (open_push p s) X"
    unfolding lists_ok_def o c using P(1) lists_okD [OF ok] p(2) by (simp add: st)
  then show ?thesis using o c by blast
qed

text \<open>Changing a node that no list refers to.\<close>

lemma set_node_lists:
  assumes ok: "lists_ok s X" and p: "p \<notin> opens s \<union> closed s \<union> X"
  shows "lists_ok (set_node p f s) X \<and> opens (set_node p f s) = opens s \<and> closed (set_node p f s) = closed s"
proof -
  let ?s = "set_node p f s"
  have oc: "opens ?s = opens s" "closed ?s = closed s" by simp_all
  have cl: "closelist ?s = closelist s" "openlist ?s = openlist s" "next_ptr ?s = next_ptr s" by simp_all
  have same: "node_of ?s q = node_of s q" if "q \<in> opens s \<union> closed s \<union> X" for q
    using that p by (auto simp: set_node_def)
  have "heap_inv (cost_in ?s) (key_in ?s) (openlist s) = heap_inv (cost_in s) (key_in s) (openlist s)"
    using same by (intro heap_inv_cong) (simp add: opens_def del: set_node_sel(1))
  moreover have "key_in ?s q = k" if "closelist s k = Some q" for k q
  proof -
    have "q \<in> closed s" using that by (auto simp: closed_def ran_def)
    then show ?thesis using same [of q] lists_okD(2) [OF ok that] by simp
  qed
  moreover have "key_in ?s q \<noteq> key_in ?s x" if "q \<in> opens s \<union> closed s" "x \<in> X" for q x
  proof -
    have "node_of ?s q = node_of s q" "node_of ?s x = node_of s x" using same that by blast+
    then show ?thesis using lists_okD(4) [OF ok that] by simp
  qed
  ultimately have "lists_ok ?s X"
    unfolding lists_ok_def oc cl using lists_okD [OF ok] same by simp
  then show ?thesis using oc by blast
qed

lemma lists_frame [simp]:
  "opens (s\<lparr>nodes_touched := t\<rparr>) = opens s" "closed (s\<lparr>nodes_touched := t\<rparr>) = closed s"
  "lists_ok (s\<lparr>nodes_touched := t\<rparr>) X = lists_ok s X"
  "opens (s\<lparr>nodes_expanded := t\<rparr>) = opens s" "closed (s\<lparr>nodes_expanded := t\<rparr>) = closed s"
  "lists_ok (s\<lparr>nodes_expanded := t\<rparr>) X = lists_ok s X"
  by (simp_all add: opens_def closed_def lists_ok_def)

lemma next_ptr_up:
  assumes "lists_ok s X"
  shows "lists_ok (s\<lparr>next_ptr := next_ptr s + 1\<rparr>) X" "opens (s\<lparr>next_ptr := n\<rparr>) = opens s" "closed (s\<lparr>next_ptr := n\<rparr>) = closed s"
  using assms by (auto simp: lists_ok_def opens_def closed_def intro: less_SucI)

lemma lists_ok_heap:
  assumes ok: "lists_ok s X" and h: "heap_inv (cost_in t) (key_in s) (openlist t)"
    and fr: "opens t = opens s" "closelist t = closelist s" "next_ptr t = next_ptr s" and key: "key_in t = key_in s"
  shows "lists_ok t X"
proof -
  have "key_in t q = key_in s q" for q by (rule fun_cong [OF key])
  moreover have "closed t = closed s" using fr(2) by (simp add: closed_def)
  ultimately show ?thesis using h fr lists_okD [OF ok] unfolding lists_ok_def by simp
qed

text \<open>Lowering the cost of a node of the open list in place.\<close>

lemma update_open_ok:
  assumes ok: "lists_ok s X" and p: "p \<in> opens s"
    and f: "n_point (f (node_of s p)) = n_point (node_of s p)" "n_cost (f (node_of s p)) \<le> cost_in s p"
  shows "let s1 = set_node p f s; s2 = s1\<lparr>openlist := Heap_Update (cost_in s1) (key_in s1) p (openlist s1)\<rparr>
     in lists_ok s2 X \<and> opens s2 = opens s \<and> closed s2 = closed s \<and> node_of s2 = (node_of s)(p := f (node_of s p))"
proof -
  let ?s1 = "set_node p f s"
  have key: "key_in ?s1 = key_in s" using f(1) by (auto simp: set_node_def node_key_def fun_eq_iff)
  have cost: "q \<noteq> p \<Longrightarrow> cost_in ?s1 q = cost_in s q" "cost_in ?s1 p \<le> cost_in s p" for q
    using f(2) by (auto simp: set_node_def)
  have o: "openlist ?s1 = openlist s" by (simp add: set_node_def)
  note U = Heap_Update_ok [OF lists_okD(1) [OF ok] p [unfolded opens_def] cost]
  let ?s2 = "?s1\<lparr>openlist := Heap_Update (cost_in ?s1) (key_in ?s1) p (openlist ?s1)\<rparr>"
  have "set (hlist (Heap_Update (cost_in ?s1) (key_in s) p (openlist s))) = set (hlist (openlist s))"
    using U(2) by (metis set_mset_mset)
  then have "set (hlist (openlist ?s2)) = set (hlist (openlist s))" unfolding key o open_upd .
  then have oc: "opens ?s2 = opens s" by (simp only: opens_def)
  have cc: "closed ?s2 = closed s" by (simp add: closed_def)
  have fr: "closelist ?s2 = closelist s" "next_ptr ?s2 = next_ptr s" "node_of ?s2 = node_of ?s1"
    by simp_all
  have keys: "key_in ?s2 = key_in s" unfolding fr(3) by (rule key)
  have costs: "cost_in ?s2 = cost_in ?s1" unfolding fr(3) ..
  have "heap_inv (cost_in ?s2) (key_in s) (openlist ?s2)"
    unfolding costs unfolding key o open_upd using U(1) by blast
  then have "lists_ok ?s2 X" using lists_ok_heap [OF ok] oc fr(1,2) keys by blast
  then show ?thesis using oc cc fr(3) unfolding Let_def set_node_sel by blast
qed

text \<open>Reopening a closed node.\<close>

lemma reopen_ok:
  assumes ok: "lists_ok s X" and p: "p \<in> closed s" "p \<notin> X"
    and f: "n_point (f (node_of s p)) = n_point (node_of s p)"
  shows "let s1 = s\<lparr>closelist := Close_Remove (key_in s) p (closelist s)\<rparr>; s2 = set_node p f s1; s3 = open_push p s2
     in lists_ok s3 X \<and> opens s3 = insert p (opens s) \<and> closed s3 = closed s - {p} \<and>
        node_of s3 = (node_of s)(p := f (node_of s p))"
proof -
  let ?s1 = "s\<lparr>closelist := Close_Remove (key_in s) p (closelist s)\<rparr>"
  let ?s2 = "set_node p f ?s1"
  have kp: "closelist s (key_in s p) = Some p" using p(1) closed_iff [OF ok] by blast
  have po: "p \<notin> opens s" using opens_closed [OF ok] p(1) by blast
  have o1: "opens ?s1 = opens s" by (simp add: opens_def)
  have "q \<in> closed ?s1 \<longleftrightarrow> q \<in> closed s \<and> q \<noteq> p" for q
  proof
    assume "q \<in> closed ?s1"
    then obtain k where k: "closelist s k = Some q" "k \<noteq> key_in s p"
      by (auto simp: closed_def ran_def Close_Remove_def split: if_splits)
    then have "key_in s q = k" using lists_okD(2) [OF ok] by blast
    with k show "q \<in> closed s \<and> q \<noteq> p" by (auto simp: closed_def ran_def)
  next
    assume q: "q \<in> closed s \<and> q \<noteq> p"
    then have "closelist s (key_in s q) = Some q" using closed_iff [OF ok] by blast
    moreover have "key_in s q \<noteq> key_in s p" using calculation kp q by auto
    ultimately show "q \<in> closed ?s1" by (auto simp: closed_def ran_def Close_Remove_def)
  qed
  then have c1: "closed ?s1 = closed s - {p}" by blast
  have "heap_inv (cost_in ?s1) (key_in ?s1) (openlist ?s1)" using lists_okD(1) [OF ok] by simp
  then have ok1: "lists_ok ?s1 X"
    unfolding lists_ok_def o1 c1 using lists_okD [OF ok] by (auto simp: Close_Remove_def split: if_splits)
  have out: "p \<notin> opens ?s1 \<union> closed ?s1 \<union> X" using o1 c1 po p(2) by blast
  note S = set_node_lists [OF ok1 out, of f]
  have n2: "node_of ?s2 = (node_of s)(p := f (node_of s p))" by (simp add: set_node_def)
  have fresh: "key_in ?s2 q \<noteq> key_in ?s2 p" if q: "q \<in> opens ?s2 \<union> closed ?s2 \<union> X" "q \<noteq> p" for q
  proof -
    have "q \<in> opens s \<or> (q \<in> closed s \<and> q \<noteq> p) \<or> q \<in> X" using q S o1 c1 by blast
    then have "key_in s q \<noteq> key_in s p"
    proof (elim disjE conjE)
      assume "q \<in> opens s"
      then show ?thesis using lists_okD(3) [OF ok, of q] kp by auto
    next
      assume "q \<in> closed s"
      then show ?thesis using closed_iff [OF ok, of q] kp q(2) by auto
    next
      assume "q \<in> X"
      then show ?thesis using lists_okD(4) [OF ok, of p q] p(1) by auto
    qed
    then show ?thesis using q(2) f by (simp add: n2 node_key_def)
  qed
  have "p < next_ptr ?s2" using lists_okD(5) [OF ok, of p] p(1) by (simp add: set_node_def)
  from open_push_ok [OF _ p(2) this fresh] S out
  have "lists_ok (open_push p ?s2) X \<and> opens (open_push p ?s2) = insert p (opens ?s2) \<and> closed (open_push p ?s2) = closed ?s2"
    by blast
  moreover have "opens ?s2 = opens s" "closed ?s2 = closed s - {p}" using S o1 c1 by blast+
  moreover have "node_of (open_push p ?s2) = node_of ?s2" by (simp add: open_push_def)
  ultimately show ?thesis unfolding Let_def n2 [symmetric] by metis
qed

text \<open>Adding a new node.\<close>

lemma add_new_ok:
  assumes ok: "lists_ok s X" and fresh: "\<And>q. q \<in> opens s \<union> closed s \<union> X \<Longrightarrow> key_in s q \<noteq> node_key n"
  shows "case new_node n s of (p, s1) \<Rightarrow>
     p = next_ptr s \<and> lists_ok (open_push p s1) X \<and> opens (open_push p s1) = insert p (opens s) \<and>
     closed (open_push p s1) = closed s \<and> node_of (open_push p s1) = (node_of s)(p := n)"
proof -
  let ?p = "next_ptr s"
  let ?s0 = "set_node ?p (\<lambda>_. n) s"
  let ?s1 = "?s0\<lparr>next_ptr := next_ptr ?s0 + 1\<rparr>"
  have out: "?p \<notin> opens s \<union> closed s \<union> X" using lists_okD(5) [OF ok] by blast
  note S = set_node_lists [OF ok out, of "\<lambda>_. n"]
  have oc: "opens ?s1 = opens s" "closed ?s1 = closed s" using S by (simp_all add: opens_def closed_def)
  have ok1: "lists_ok ?s1 X" using S next_ptr_up(1) by blast
  have nd: "node_of ?s1 = (node_of s)(?p := n)" by simp
  have "key_in ?s1 q \<noteq> key_in ?s1 ?p" if q: "q \<in> opens ?s1 \<union> closed ?s1 \<union> X" "q \<noteq> ?p" for q
    using fresh [of q] q(1) [unfolded oc] q(2) unfolding nd by simp
  from open_push_ok [OF ok1 _ _ this] out oc
  have "lists_ok (open_push ?p ?s1) X \<and> opens (open_push ?p ?s1) = insert ?p (opens s) \<and> closed (open_push ?p ?s1) = closed s"
    by (simp add: set_node_def)
  moreover have "node_of (open_push ?p ?s1) = (node_of s)(?p := n)" using nd by (simp add: open_push_def)
  moreover have "new_node n s = (?p, ?s1)" by (simp add: new_node_def set_node_def)
  ultimately show ?thesis by simp
qed

section \<open>Visiting a neighbour\<close>

definition known :: "'c mastar \<Rightarrow> ptr set" where
  "known s = opens s \<union> closed s"

text \<open>What a search is run on.\<close>

definition search_env :: "'c::linorder floats \<Rightarrow> bit_map \<Rightarrow> point \<Rightarrow> bool" where
  "search_env fl bm start \<longleftrightarrow> float_laws fl \<and> bitmap_inv bm \<and> IsValidPos bm start \<and> short_point start"

lemma point_ok_D:
  assumes "search_env fl bm start" "point_ok bm rng start pt"
  shows "IsValidPos bm pt" "short_point pt"
  using assms by (auto simp: search_env_def point_ok_def walkable_def)

lemma neighbor_node_eq:
  assumes "search_env fl bm start" "nodes_ok fl bm rng start h0 (node_of s) A" "cur \<in> A" "i < PF_NEIGHBOR_COUNT"
  shows "neighbor_node fl cur i s = better_node fl (node_of s) cur i"
proof -
  have "f_zero fl < cost_in s cur" using assms(2,3) by (simp add: nodes_ok_def)
  also have "\<dots> \<le> f_add fl (cost_in s cur) (PF2D_NeighborCost fl ! i)"
    using assms(1,4) add_up [of fl i] by (simp add: search_env_def step_cost_def)
  finally have "\<not> f_add fl (cost_in s cur) (PF2D_NeighborCost fl ! i) \<le> f_zero fl" by simp
  then show ?thesis
    by (simp add: neighbor_node_def better_node_def SetParent_def SetCost_def SetCorrd_def MapNode_init_def step_cost_def)
qed

lemma key_better:
  assumes "search_env fl bm start" "nodes_ok fl bm rng start h0 (node_of s) A" "p \<in> A"
    "walkable bm rng (neighbor_pt (n_point (node_of s cur)) i)"
  shows "key_in s p = node_key (better_node fl (node_of s) cur i) \<longleftrightarrow>
     n_point (node_of s p) = neighbor_pt (n_point (node_of s cur)) i"
proof -
  have "point_ok bm rng start (n_point (node_of s p))" using assms(2,3) by (simp add: nodes_ok_def)
  then show ?thesis
    using key_point [of bm] point_ok_D [OF assms(1)] assms(4) neighbor_short by (simp add: node_key_def better_node_def walkable_def)
qed

definition visited :: "'c::linorder floats \<Rightarrow> 'c mastar \<Rightarrow> ptr \<Rightarrow> nat \<Rightarrow> 'c mastar \<Rightarrow> bool" where
  "visited fl s cur i s' \<longleftrightarrow>
     (node_of s' = node_of s \<and> opens s' = opens s \<and> closed s' = closed s \<and>
      (\<exists>m \<in> known s. n_point (node_of s m) = neighbor_pt (n_point (node_of s cur)) i \<and>
         cost_in s m \<le> f_add fl (cost_in s cur) (step_cost fl i))) \<or>
     (\<exists>p. improves fl (node_of s) (insert cur (known s)) cur i p \<and>
        node_of s' = (node_of s)(p := better_node fl (node_of s) cur i) \<and>
        known s' = insert p (known s) \<and> closed s' = closed s - {p})"

lemma visit_ok:
  assumes env: "search_env fl bm start" and ok: "lists_ok s {cur}"
    and nodes: "nodes_ok fl bm rng start h0 (node_of s) (insert cur (known s))"
    and i: "i < PF_NEIGHBOR_COUNT" and walk: "walkable bm rng (neighbor_pt (n_point (node_of s cur)) i)"
  shows "lists_ok (visit_neighbor fl cur i s) {cur} \<and> visited fl s cur i (visit_neighbor fl cur i s)"
proof -
  let ?A = "insert cur (known s)" and ?nb = "neighbor_pt (n_point (node_of s cur)) i"
  let ?n = "better_node fl (node_of s) cur i" and ?nc = "f_add fl (cost_in s cur) (step_cost fl i)"
  define t where "t = s\<lparr>nodes_touched := i32 (nodes_touched s + 1)\<rparr>"
  have t: "node_of t = node_of s" "opens t = opens s" "closed t = closed s" "lists_ok t {cur}"
    using ok by (simp_all add: t_def)
  have n: "neighbor_node fl cur i t = ?n"
    using neighbor_node_eq [OF env, of rng h0 t ?A cur i] nodes i t(1) by simp
  have nsel: "n_cost ?n = ?nc" "n_point ?n = ?nb" "n_parent ?n = Some cur" by (simp_all add: better_node_def)
  have key: "key_in t p = node_key ?n \<longleftrightarrow> n_point (node_of s p) = ?nb" if "p \<in> ?A" for p
    unfolding t(1) by (rule key_better [OF env nodes that walk])
  have "point_ok bm rng start (n_point (node_of s cur))" using nodes by (simp add: nodes_ok_def)
  then have "short_point (n_point (node_of s cur))" using point_ok_D(2) [OF env] by blast
  then have cur_key: "key_in t cur \<noteq> node_key ?n" using key [of cur] neighbor_other [OF i, of "n_point (node_of s cur)"] by auto
  let ?f = "SetParent (Some cur) \<circ> SetCost fl ?nc"
  have pos: "f_zero fl < ?nc"
    using nodes add_up [of fl i "cost_in s cur"] env i by (auto simp: nodes_ok_def search_env_def intro: less_le_trans)
  have f: "?f (node_of s p) = ?n" if "n_point (node_of s p) = ?nb" for p
    using pos that nsel by (auto simp: SetParent_def SetCost_def better_node_def)
  have imp: "improves fl (node_of s) ?A cur i p" if "p \<noteq> cur" "p \<in> ?A \<Longrightarrow> n_point (node_of s p) = ?nb \<and> ?nc < cost_in s p" for p
    using that i by (auto simp: improves_def)
  have vn: "visit_neighbor fl cur i s =
     (case Heap_Find (node_key ?n) (openlist t) of
        Some p \<Rightarrow> if ?nc < cost_in t p
           then let s1 = set_node p ?f t in s1\<lparr>openlist := Heap_Update (cost_in s1) (key_in s1) p (openlist s1)\<rparr> else t
      | None \<Rightarrow> (case Close_Find (node_key ?n) (closelist t) of
           Some p \<Rightarrow> if ?nc < cost_in t p
             then let s1 = t\<lparr>closelist := Close_Remove (key_in t) p (closelist t)\<rparr>; s2 = set_node p ?f s1 in open_push p s2
             else t
         | None \<Rightarrow> (case new_node ?n t of (p, s1) \<Rightarrow> open_push p s1)))"
    unfolding visit_neighbor_def t_def [symmetric] Let_def n nsel(1) ..
  show ?thesis
  proof (cases "Heap_Find (node_key ?n) (openlist t)")
    case (Some p)
    then have p: "p \<in> opens s" "key_in t p = node_key ?n" using opens_find [OF t(4)] t(2) by auto
    then have pA: "p \<in> ?A" "p \<in> known s" "p \<noteq> cur" using cur_key by (auto simp: known_def)
    have pt: "n_point (node_of s p) = ?nb" using key [OF pA(1)] p(2) by blast
    show ?thesis
    proof (cases "?nc < cost_in s p")
      case True
      have "n_point (?f (node_of t p)) = n_point (node_of t p)" "n_cost (?f (node_of t p)) \<le> cost_in t p"
        using True unfolding t(1) f [OF pt] nsel(1,2) pt by auto
      note U = update_open_ok [where f = ?f, OF t(4) p(1) [folded t(2)] this]
      have "visit_neighbor fl cur i s = (let s1 = set_node p ?f t in
          s1\<lparr>openlist := Heap_Update (cost_in s1) (key_in s1) p (openlist s1)\<rparr>)" unfolding vn using Some True t(1) by simp
      with U have v: "lists_ok (visit_neighbor fl cur i s) {cur}" "opens (visit_neighbor fl cur i s) = opens s"
        "closed (visit_neighbor fl cur i s) = closed s" "node_of (visit_neighbor fl cur i s) = (node_of s)(p := ?n)"
        unfolding Let_def t(1-3) f [OF pt] by metis+
      have "p \<notin> closed s" using opens_closed [OF ok p(1)] .
      then show ?thesis using v imp [OF pA(3)] pt True pA unfolding visited_def known_def by blast
    next
      case False
      then have "visit_neighbor fl cur i s = t" unfolding vn using Some t(1) by simp
      then show ?thesis using False pt pA(2) t by (auto simp: visited_def not_less)
    qed
  next
    case None
    note notopen = opens_find_None [OF t(4) None, unfolded t(2)]
    show ?thesis
    proof (cases "Close_Find (node_key ?n) (closelist t)")
      case (Some p)
      then have cl: "closelist t (node_key ?n) = Some p" by (simp add: Close_Find_def)
      then have p: "p \<in> closed s" "key_in t p = node_key ?n"
        using lists_okD(2) [OF t(4) cl] t(3) by (auto simp: closed_def ran_def)
      then have pA: "p \<in> ?A" "p \<in> known s" "p \<noteq> cur" using cur_key by (auto simp: known_def)
      have pt: "n_point (node_of s p) = ?nb" using key [OF pA(1)] p(2) by blast
      show ?thesis
      proof (cases "?nc < cost_in s p")
        case True
        have pX: "p \<in> closed t" "p \<notin> {cur}" "n_point (?f (node_of t p)) = n_point (node_of t p)"
          using p(1) pA(3) f [OF pt] nsel(2) pt unfolding t(1,3) by simp_all
        note U = reopen_ok [where f = ?f, OF t(4) pX]
        have "visit_neighbor fl cur i s = (let s1 = t\<lparr>closelist := Close_Remove (key_in t) p (closelist t)\<rparr>;
            s2 = set_node p ?f s1 in open_push p s2)" unfolding vn using None Some True t(1) by simp
        with U have v: "lists_ok (visit_neighbor fl cur i s) {cur}" "opens (visit_neighbor fl cur i s) = insert p (opens s)"
          "closed (visit_neighbor fl cur i s) = closed s - {p}" "node_of (visit_neighbor fl cur i s) = (node_of s)(p := ?n)"
          unfolding Let_def t(1-3) f [OF pt] by metis+
        have "known (visit_neighbor fl cur i s) = insert p (known s)" using v(2,3) by (auto simp: known_def)
        then show ?thesis using v imp [OF pA(3)] pt True unfolding visited_def by blast
      next
        case False
        then have "visit_neighbor fl cur i s = t" unfolding vn using None Some t(1) by simp
        then show ?thesis using False pt pA(2) t by (auto simp: visited_def not_less)
      qed
    next
      case None2: None
      have fresh: "key_in t q \<noteq> node_key ?n" if q: "q \<in> opens t \<union> closed t \<union> {cur}" for q
      proof -
        have "q \<in> closed t \<Longrightarrow> key_in t q \<noteq> node_key ?n"
          using closed_iff [OF t(4), of q] None2 by (auto simp: Close_Find_def)
        then show ?thesis using q notopen [of q] cur_key unfolding t(2) by blast
      qed
      have "visit_neighbor fl cur i s = (case new_node ?n t of (p, s1) \<Rightarrow> open_push p s1)"
        unfolding vn using None None2 by simp
      with add_new_ok [OF t(4) fresh] obtain p where v: "p = next_ptr t" "lists_ok (visit_neighbor fl cur i s) {cur}"
        "opens (visit_neighbor fl cur i s) = insert p (opens s)" "closed (visit_neighbor fl cur i s) = closed s"
        "node_of (visit_neighbor fl cur i s) = (node_of s)(p := ?n)"
        unfolding t(1-3) by (auto split: prod.splits)
      have new: "p \<notin> ?A" using lists_okD(5) [OF t(4)] v(1) unfolding t(2,3) known_def by blast
      then have "closed s - {p} = closed s" "p \<noteq> cur" by (auto simp: known_def)
      moreover have "known (visit_neighbor fl cur i s) = insert p (known s)" using v(3,4) by (auto simp: known_def)
      ultimately show ?thesis using v imp [of p] new unfolding visited_def by metis
    qed
  qed
qed

section \<open>The loop invariant\<close>

definition closed_ok ::
  "'c::linorder floats \<Rightarrow> bit_map \<Rightarrow> (point \<Rightarrow> bool) option \<Rightarrow> point \<Rightarrow> 'c mastar \<Rightarrow> ptr set \<Rightarrow> bool" where
  "closed_ok fl bm rng goal s A \<longleftrightarrow>
     (\<forall>p \<in> closed s. n_point (node_of s p) \<noteq> goal \<and> (\<forall>i < PF_NEIGHBOR_COUNT. relaxed fl bm rng (node_of s) A p i))"

definition search_inv ::
  "'c::linorder floats \<Rightarrow> bit_map \<Rightarrow> (point \<Rightarrow> bool) option \<Rightarrow> point \<Rightarrow> point \<Rightarrow> 'c \<Rightarrow> 'c mastar \<Rightarrow> bool" where
  "search_inv fl bm rng start goal h0 s \<longleftrightarrow> lists_ok s {} \<and> nodes_ok fl bm rng start h0 (node_of s) (known s) \<and>
     closed_ok fl bm rng goal s (known s) \<and> start_in start h0 (node_of s) (known s)"

text \<open>While \<open>cur\<close> is expanded it is in neither list, and its first \<open>n\<close> directions are done.\<close>

definition expand_inv ::
  "'c::linorder floats \<Rightarrow> bit_map \<Rightarrow> (point \<Rightarrow> bool) option \<Rightarrow> point \<Rightarrow> point \<Rightarrow> 'c \<Rightarrow> ptr \<Rightarrow> nat \<Rightarrow> 'c mastar \<Rightarrow> bool" where
  "expand_inv fl bm rng start goal h0 cur n s \<longleftrightarrow> lists_ok s {cur} \<and>
     nodes_ok fl bm rng start h0 (node_of s) (insert cur (known s)) \<and>
     closed_ok fl bm rng goal s (insert cur (known s)) \<and> start_in start h0 (node_of s) (insert cur (known s)) \<and>
     n_point (node_of s cur) \<noteq> goal \<and> (\<forall>i < n. relaxed fl bm rng (node_of s) (insert cur (known s)) cur i)"

lemma visit_inv:
  assumes env: "search_env fl bm start" and inv: "expand_inv fl bm rng start goal h0 cur n s"
    and n: "n < PF_NEIGHBOR_COUNT" and walk: "walkable bm rng (neighbor_pt (n_point (node_of s cur)) n)"
  shows "expand_inv fl bm rng start goal h0 cur (Suc n) (visit_neighbor fl cur n s)"
proof -
  let ?s = "visit_neighbor fl cur n s" and ?A = "insert cur (known s)"
  have old: "lists_ok s {cur}" "nodes_ok fl bm rng start h0 (node_of s) ?A" "closed_ok fl bm rng goal s ?A"
    "start_in start h0 (node_of s) ?A" "n_point (node_of s cur) \<noteq> goal"
    "\<And>i. i < n \<Longrightarrow> relaxed fl bm rng (node_of s) ?A cur i" using inv by (auto simp: expand_inv_def)
  note V = visit_ok [OF env old(1,2) n walk]
  then consider (same) "node_of ?s = node_of s" "opens ?s = opens s" "closed ?s = closed s"
      "\<exists>m \<in> known s. n_point (node_of s m) = neighbor_pt (n_point (node_of s cur)) n \<and>
         cost_in s m \<le> f_add fl (cost_in s cur) (step_cost fl n)"
    | (better) p where "improves fl (node_of s) ?A cur n p" "node_of ?s = (node_of s)(p := better_node fl (node_of s) cur n)"
      "known ?s = insert p (known s)" "closed ?s = closed s - {p}" unfolding visited_def by blast
  then show ?thesis
  proof cases
    case same
    have k: "known ?s = known s" using same by (simp add: known_def)
    have "relaxed fl bm rng (node_of s) ?A cur n" using same(4) unfolding relaxed_def by blast
    then have "\<forall>i < Suc n. relaxed fl bm rng (node_of s) ?A cur i" using old(6) less_Suc_eq by auto
    then show ?thesis using V old unfolding expand_inv_def closed_ok_def k same(1,3) by blast
  next
    case (better p)
    let ?nd = "(node_of s)(p := better_node fl (node_of s) cur n)"
    have A: "insert cur (known ?s) = insert p ?A" using better(3) by auto
    have pc: "p \<noteq> cur" using better(1) by (simp add: improves_def)
    have laws: "float_laws fl" using env by (simp add: search_env_def)
    have "closed_ok fl bm rng goal ?s (insert p ?A)"
      unfolding closed_ok_def
    proof
      fix q assume q: "q \<in> closed ?s"
      then have "q \<in> closed s" "q \<noteq> p" using better(4) by auto
      then show "n_point (node_of ?s q) \<noteq> goal \<and> (\<forall>i < PF_NEIGHBOR_COUNT. relaxed fl bm rng (node_of ?s) (insert p ?A) q i)"
        using old(3) relaxed_improve [OF better(1)] unfolding closed_ok_def better(2) by simp
    qed
    moreover have "relaxed fl bm rng ?nd (insert p ?A) cur i" if "i < Suc n" for i
      using that old(6) [of i] relaxed_improve [OF better(1), of cur] relaxed_new [OF better(1)] pc by (auto simp: less_Suc_eq)
    moreover have "nodes_ok fl bm rng start h0 ?nd (insert p ?A)"
      by (rule nodes_ok_improve [OF laws old(2) better(1) walk])
    moreover have "start_in start h0 ?nd (insert p ?A)" by (rule start_in_improve [OF better(1) old(4)])
    moreover have "n_point (?nd cur) \<noteq> goal" using old(5) pc by simp
    ultimately show ?thesis using V unfolding expand_inv_def A better(2) by blast
  qed
qed

lemma try_inv:
  assumes env: "search_env fl bm start" and inv: "expand_inv fl bm rng start goal h0 cur n s" and n: "n < PF_NEIGHBOR_COUNT"
  shows "\<exists>s'. try_neighbor fl bm rng cur s n = Inr s' \<and> expand_inv fl bm rng start goal h0 cur (Suc n) s'"
proof (cases "walkable bm rng (neighbor_pt (n_point (node_of s cur)) n)")
  case True
  have "try_neighbor fl bm rng cur s n = Inr (visit_neighbor fl cur n s)"
    using True env by (auto simp: try_neighbor_def Let_def walkable_def search_env_def IsPassable_valid split: option.splits)
  then show ?thesis using visit_inv [OF env inv n True] by blast
next
  case False
  have "try_neighbor fl bm rng cur s n = Inr s"
    using False env by (auto simp: try_neighbor_def Let_def walkable_def search_env_def IsPassable_valid split: option.splits)
  moreover have "relaxed fl bm rng (node_of s) (insert cur (known s)) cur n" using False by (simp add: relaxed_def)
  then have "expand_inv fl bm rng start goal h0 cur (Suc n) s" using inv by (auto simp: expand_inv_def less_Suc_eq)
  ultimately show ?thesis by blast
qed

lemma tries_inv:
  assumes env: "search_env fl bm start" and "expand_inv fl bm rng start goal h0 cur n s" "n \<le> PF_NEIGHBOR_COUNT"
  shows "\<exists>s'. run (try_neighbor fl bm rng cur) s [n..<PF_NEIGHBOR_COUNT] = Inr s' \<and>
     expand_inv fl bm rng start goal h0 cur PF_NEIGHBOR_COUNT s'"
  using assms(2,3)
proof (induction "PF_NEIGHBOR_COUNT - n" arbitrary: n s)
  case 0
  then show ?case by auto
next
  case (Suc k)
  then have n: "n < PF_NEIGHBOR_COUNT" by simp
  obtain s1 where s1: "try_neighbor fl bm rng cur s n = Inr s1" "expand_inv fl bm rng start goal h0 cur (Suc n) s1"
    using try_inv [OF env Suc.prems(1) n] by blast
  have "k = PF_NEIGHBOR_COUNT - Suc n" using Suc.hyps(2) by simp
  then show ?case using Suc.hyps(1) [OF _ s1(2)] n s1(1) by (simp add: upt_conv_Cons)
qed

lemma idx_ok_distinct:
  assumes "idx_ok key h"
  shows "distinct (hlist h)" "inj_on key (set (hlist h))"
proof -
  note inj = idx_ok_key_inj [OF assms]
  show "distinct (hlist h)" unfolding distinct_conv_nth using inj by metis
  show "inj_on key (set (hlist h))" 
  proof (rule inj_onI)
    fix x y assume xy: "x \<in> set (hlist h)" "y \<in> set (hlist h)" "key x = key y"
    then obtain i j where "i < length (hlist h)" "x = hlist h ! i" "j < length (hlist h)" "y = hlist h ! j"
      by (auto simp: in_set_conv_nth)
    then show "x = y" using inj [of i j] xy(3) by simp
  qed
qed

text \<open>Taking the cheapest node off the open list.\<close>

lemma pop_ok:
  assumes ok: "lists_ok s {}" and cur: "Heap_Top (openlist s) = Some cur"
  shows "let s1 = s\<lparr>openlist := Heap_Pop (cost_in s) (key_in s) (openlist s)\<rparr>
     in lists_ok s1 {cur} \<and> opens s = insert cur (opens s1) \<and> cur \<notin> opens s1"
proof -
  let ?s = "s\<lparr>openlist := Heap_Pop (cost_in s) (key_in s) (openlist s)\<rparr>"
  note inv = lists_okD(1) [OF ok]
  note P = Heap_Pop_ok [OF inv cur]
  have idx: "idx_ok (key_in s) (openlist s)" using inv by (simp add: heap_inv_def)
  have o: "opens s = insert cur (opens ?s)" using set_of_mset_eq [OF P(2)] by (simp add: opens_def)
  have "distinct (hlist (openlist s))" by (rule idx_ok_distinct [OF idx])
  then have "count (mset (hlist (openlist s))) cur \<le> 1" by (simp add: distinct_count_atmost_1)
  then have "cur \<notin># mset (hlist (Heap_Pop (cost_in s) (key_in s) (openlist s)))"
    unfolding P(2) by (simp add: not_in_iff)
  then have out: "cur \<notin> opens ?s" by (simp add: opens_def)
  have keys: "key_in s q \<noteq> key_in s cur" if "q \<in> opens ?s \<union> closed s" for q
  proof (cases "q \<in> closed s")
    case True
    have "cur \<in> opens s" using o by simp
    then show ?thesis using lists_okD(3) [OF ok, of cur] closed_iff [OF ok, of q] True by auto
  next
    case False
    then have "q \<in> opens s" "cur \<in> opens s" "q \<noteq> cur" using that o out by auto
    then show ?thesis using idx_ok_distinct(2) [OF idx] by (auto simp: inj_on_def opens_def)
  qed
  have c: "closed ?s = closed s" by (simp add: closed_def)
  have "lists_ok ?s {cur}"
    unfolding lists_ok_def c using keys lists_okD [OF ok] P(1) o by auto
  then show ?thesis using o out by (simp add: Let_def)
qed

text \<open>Putting the expanded node on the closed list.\<close>

lemma close_ok:
  assumes ok: "lists_ok s {cur}"
  shows "let s1 = s\<lparr>closelist := Close_Push (key_in s) cur (closelist s)\<rparr>
     in lists_ok s1 {} \<and> opens s1 = opens s \<and> closed s1 = insert cur (closed s)"
proof -
  let ?s = "s\<lparr>closelist := Close_Push (key_in s) cur (closelist s)\<rparr>"
  have none: "closelist s (key_in s cur) = None"
  proof (rule ccontr)
    assume "closelist s (key_in s cur) \<noteq> None"
    then obtain q where q: "closelist s (key_in s cur) = Some q" by blast
    then have "q \<in> closed s" "key_in s q = key_in s cur" using lists_okD(2) [OF ok] by (auto simp: closed_def ran_def)
    then show False using lists_okD(4) [OF ok, of q cur] by simp
  qed
  then have c: "closed ?s = insert cur (closed s)" by (simp add: closed_def Close_Push_def)
  have o: "opens ?s = opens s" by (simp add: opens_def)
  have "lists_ok ?s {}"
    unfolding lists_ok_def o c
    using lists_okD(1,2,3,5) [OF ok] lists_okD(4) [OF ok, of _ cur] by (auto simp: Close_Push_def)
  then show ?thesis using o c by (simp add: Let_def)
qed

lemma expand_ok:
  assumes env: "search_env fl bm start" and inv: "search_inv fl bm rng start goal h0 s"
    and cur: "Heap_Top (openlist s) = Some cur" "n_point (node_of s cur) \<noteq> goal"
  shows "\<exists>s'. expand_node fl bm rng cur s = Inr s' \<and> search_inv fl bm rng start goal h0 s'"
proof -
  let ?s1 = "s\<lparr>openlist := Heap_Pop (cost_in s) (key_in s) (openlist s)\<rparr>"
  have ok: "lists_ok s {}" using inv by (simp add: search_inv_def)
  have P: "lists_ok ?s1 {cur}" "opens s = insert cur (opens ?s1)" using pop_ok [OF ok cur(1)] by (auto simp: Let_def)
  have c1: "closed ?s1 = closed s" by (simp add: closed_def)
  have A: "insert cur (known ?s1) = known s" using P(2) c1 by (auto simp: known_def)
  have nd: "node_of ?s1 = node_of s" by simp
  have "expand_inv fl bm rng start goal h0 cur 0 ?s1"
    using inv P(1) cur(2) unfolding expand_inv_def A search_inv_def closed_ok_def c1 nd by simp
  then obtain s2 where s2: "run (try_neighbor fl bm rng cur) ?s1 [0..<PF_NEIGHBOR_COUNT] = Inr s2"
    "expand_inv fl bm rng start goal h0 cur PF_NEIGHBOR_COUNT s2" using tries_inv [OF env] by blast
  let ?s3 = "s2\<lparr>closelist := Close_Push (key_in s2) cur (closelist s2)\<rparr>"
  have ok2: "lists_ok s2 {cur}" using s2(2) by (simp add: expand_inv_def)
  have C: "lists_ok ?s3 {}" "opens ?s3 = opens s2" "closed ?s3 = insert cur (closed s2)"
    using close_ok [OF ok2] by (auto simp: Let_def)
  have A3: "known ?s3 = insert cur (known s2)" using C by (auto simp: known_def)
  have nd3: "node_of ?s3 = node_of s2" by simp
  have "search_inv fl bm rng start goal h0 ?s3"
    using s2(2) C(1) unfolding expand_inv_def search_inv_def closed_ok_def A3 C(3) nd3 by blast
  then show ?thesis using s2(1) by (simp add: expand_node_def Let_def)
qed

lemma Heap_Empty_opens:
  assumes "lists_ok s X"
  shows "Heap_Empty (openlist s) \<longleftrightarrow> opens s = {}"
proof -
  have "idx_ok (key_in s) (openlist s)" using lists_okD(1) [OF assms] by (simp add: heap_inv_def)
  then have "hlist (openlist s) = [] \<Longrightarrow> pos2idx (openlist s) = []"
    by (cases "pos2idx (openlist s)") (auto simp: idx_ok_def split: if_splits)
  then show ?thesis by (auto simp: Heap_Empty_def opens_def)
qed

fun loop_result ::
  "'c::linorder floats \<Rightarrow> bit_map \<Rightarrow> (point \<Rightarrow> bool) option \<Rightarrow> point \<Rightarrow> point \<Rightarrow> 'c \<Rightarrow> 'c mastar \<Rightarrow> loop_end \<Rightarrow> bool" where
  "loop_result fl bm rng start goal h0 s Exhausted = (search_inv fl bm rng start goal h0 s \<and> opens s = {})"
| "loop_result fl bm rng start goal h0 s TooMany = (nodes_expanded s \<ge> max_expanded s)"
| "loop_result fl bm rng start goal h0 s (Found p) =
     (search_inv fl bm rng start goal h0 s \<and> Heap_Top (openlist s) = Some p \<and> n_point (node_of s p) = goal)"

lemma search_inv_count [simp]:
  "search_inv fl bm rng start goal h0 (s\<lparr>nodes_expanded := n\<rparr>) = search_inv fl bm rng start goal h0 s"
  by (simp add: search_inv_def closed_ok_def known_def)

lemma loop_ok:
  assumes "search_env fl bm start" "search_inv fl bm rng start goal h0 s"
  shows "\<exists>s' how. search_loop fl bm rng goal s = Inr (s', how) \<and> loop_result fl bm rng start goal h0 s' how \<and>
     max_expanded s' = max_expanded s"
  using assms
proof (induction fl bm rng goal s rule: search_loop.induct)
  case (1 fl bm rng goal s0)
  let ?s = "s0\<lparr>nodes_expanded := nodes_expanded s0 + 1\<rparr>"
  have ok: "lists_ok s0 {}" using "1.prems"(2) by (simp add: search_inv_def)
  show ?case
  proof (cases "Heap_Empty (openlist s0)")
    case True
    then show ?thesis using "1.prems" Heap_Empty_opens [OF ok] by (subst search_loop.simps) simp
  next
    case more: False
    then obtain cur where cur: "Heap_Top (openlist s0) = Some cur"
      using Heap_Empty_opens [OF ok] by (cases "hlist (openlist s0)") (auto simp: Heap_Top_def opens_def)
    show ?thesis
    proof (cases "nodes_expanded s0 + 1 \<ge> max_expanded s0")
      case True
      then have "search_loop fl bm rng goal s0 = Inr (clear_lists ?s, TooMany)"
        using more by (subst search_loop.simps) (simp add: Let_def)
      then show ?thesis using True by (auto simp: clear_lists_def)
    next
      case few: False
      show ?thesis
      proof (cases "n_point (node_of s0 cur) = goal")
        case True
        then have "search_loop fl bm rng goal s0 = Inr (?s, Found cur)"
          using more few cur by (subst search_loop.simps) (simp add: Let_def)
        then show ?thesis using "1.prems"(2) True cur by auto
      next
        case False
        obtain s1 where s1: "expand_node fl bm rng cur ?s = Inr s1" "search_inv fl bm rng start goal h0 s1"
          using expand_ok [OF "1.prems"(1), of rng goal h0 ?s cur] "1.prems"(2) cur False by auto
        then have "search_loop fl bm rng goal s0 = search_loop fl bm rng goal s1"
          using more few cur False by (subst search_loop.simps) (simp add: Let_def)
        moreover have "\<exists>s' how. search_loop fl bm rng goal s1 = Inr (s', how) \<and> loop_result fl bm rng start goal h0 s' how \<and>
            max_expanded s' = max_expanded s1"
          using "1.IH" [OF more refl few cur False s1(1) "1.prems"(1) s1(2)] .
        moreover have "max_expanded s1 = max_expanded s0" using expand_frame [OF s1(1)] by simp
        ultimately show ?thesis by simp
      qed
    qed
  qed
qed

section \<open>The path found\<close>

lemma route_append:
  "route_points pt (is @ [i]) = route_points pt is @ [neighbor_pt (route_end pt is) i]"
  "route_end pt (is @ [i]) = neighbor_pt (route_end pt is) i"
  "route_cost fl c (is @ [i]) = f_add fl (route_cost fl c is) (step_cost fl i)"
  "route_ok bm rng pt (is @ [i]) \<longleftrightarrow> route_ok bm rng pt is \<and> i < PF_NEIGHBOR_COUNT \<and> walkable bm rng (neighbor_pt (route_end pt is) i)"
proof -
  show "route_points pt (is @ [i]) = route_points pt is @ [neighbor_pt (route_end pt is) i]"
    by (induction "is" arbitrary: pt) (simp_all add: route_end_def)
  show "route_ok bm rng pt (is @ [i]) \<longleftrightarrow> route_ok bm rng pt is \<and> i < PF_NEIGHBOR_COUNT \<and> walkable bm rng (neighbor_pt (route_end pt is) i)"
    by (induction "is" arbitrary: pt) (auto simp: route_end_def)
qed (simp_all add: route_end_def route_cost_def)

lemma parents_route:
  assumes laws: "float_laws fl" and nodes: "nodes_ok fl bm rng start h0 nd A" and "rooted nd p" "p \<in> A"
  shows "\<exists>is. parents nd p = Some (rev (route_points start is)) \<and> route_ok bm rng start is \<and>
     route_end start is = n_point (nd p) \<and> route_cost fl h0 is \<le> n_cost (nd p)"
  using assms(3,4)
proof (induction rule: rooted.induct)
  case (root p)
  then have "parent_ok fl bm rng start h0 nd A p" using nodes by (simp add: nodes_ok_def)
  then have "n_point (nd p) = start" "n_cost (nd p) = h0" using root.hyps by (auto simp: parent_ok_def)
  moreover have "parents nd p = Some [n_point (nd p)]" using root.hyps by (subst parents.simps) simp
  ultimately show ?case by (intro exI [of _ "[]"]) (simp add: route_end_def route_cost_def)
next
  case (link p q)
  then have "parent_ok fl bm rng start h0 nd A p" using nodes by (simp add: nodes_ok_def)
  then obtain i where i: "q \<in> A" "i < PF_NEIGHBOR_COUNT" "n_point (nd p) = neighbor_pt (n_point (nd q)) i"
    "walkable bm rng (n_point (nd p))" "f_add fl (n_cost (nd q)) (step_cost fl i) \<le> n_cost (nd p)"
    using link.hyps(1) by (auto simp: parent_ok_def)
  obtain "is" where "is": "parents nd q = Some (rev (route_points start is))" "route_ok bm rng start is"
    "route_end start is = n_point (nd q)" "route_cost fl h0 is \<le> n_cost (nd q)" using link.IH i(1) by blast
  have "parents nd p = Some (n_point (nd p) # rev (route_points start is))"
    using link.hyps(1) "is"(1) by (subst parents.simps) simp
  moreover have "route_cost fl h0 (is @ [i]) \<le> n_cost (nd p)"
    using add_mono [OF laws i(2) "is"(4)] i(5) by (simp add: route_append order_trans)
  ultimately show ?case using "is" i by (intro exI [of _ "is @ [i]"]) (simp add: route_append)
qed

text \<open>Every route is overtaken by the search, at its end or at some node still open.\<close>

lemma route_overtaken:
  assumes env: "search_env fl bm start" and inv: "search_inv fl bm rng start goal h0 s" and "route_ok bm rng start js"
  shows "(\<exists>m \<in> closed s. n_point (node_of s m) = route_end start js \<and> cost_in s m \<le> route_cost fl h0 js) \<or>
     (\<exists>m \<in> opens s. cost_in s m \<le> route_cost fl h0 js)"
  using assms(3)
proof (induction js rule: rev_induct)
  case Nil
  then show ?case using inv by (auto simp: search_inv_def start_in_def known_def route_end_def route_cost_def)
next
  case (snoc j js)
  have laws: "float_laws fl" using env by (simp add: search_env_def)
  have j: "j < PF_NEIGHBOR_COUNT" "walkable bm rng (neighbor_pt (route_end start js) j)" "route_ok bm rng start js"
    using snoc.prems by (simp_all add: route_append)
  from snoc.IH [OF j(3)] show ?case
  proof (elim disjE bexE conjE)
    fix m assume m: "m \<in> closed s" "n_point (node_of s m) = route_end start js" "cost_in s m \<le> route_cost fl h0 js"
    have "relaxed fl bm rng (node_of s) (known s) m j" using inv m(1) j(1) by (simp add: search_inv_def closed_ok_def)
    then obtain k where k: "k \<in> known s" "n_point (node_of s k) = neighbor_pt (route_end start js) j"
      "cost_in s k \<le> f_add fl (cost_in s m) (step_cost fl j)" using j(2) m(2) unfolding relaxed_def by force
    have "cost_in s k \<le> route_cost fl h0 (js @ [j])"
      using k(3) add_mono [OF laws j(1) m(3)] by (simp add: route_append order_trans)
    then show ?thesis using k by (auto simp: known_def route_append)
  next
    fix m assume "m \<in> opens s" "cost_in s m \<le> route_cost fl h0 js"
    then have "m \<in> opens s" "cost_in s m \<le> route_cost fl h0 (js @ [j])"
      using add_up [OF laws j(1), of "route_cost fl h0 js"] by (auto simp: route_append intro: order_trans)
    then show ?thesis by blast
  qed
qed

lemma found_cheapest:
  assumes env: "search_env fl bm start" and inv: "search_inv fl bm rng start goal h0 s"
    and p: "Heap_Top (openlist s) = Some p" and js: "route_ok bm rng start js" "route_end start js = goal"
  shows "cost_in s p \<le> route_cost fl h0 js"
proof -
  have hi: "heap_inv (cost_in s) (key_in s) (openlist s)" using inv lists_okD(1) by (auto simp: search_inv_def)
  have "n_point (node_of s m) \<noteq> goal" if "m \<in> closed s" for m using inv that by (simp add: search_inv_def closed_ok_def)
  then obtain m where "m \<in> opens s" "cost_in s m \<le> route_cost fl h0 js"
    using route_overtaken [OF env inv js(1)] js(2) by auto
  then show ?thesis using Heap_Top_least(2) [OF hi p] by (auto simp: opens_def intro: order_trans)
qed

lemma exhausted_unreachable:
  assumes "search_env fl bm start" "search_inv fl bm rng start goal h0 s" "opens s = {}" "route_ok bm rng start js"
  shows "route_end start js \<noteq> goal"
  using route_overtaken [OF assms(1,2,4)] assms(2,3) by (auto simp: search_inv_def closed_ok_def)

section \<open>The search as a whole\<close>

definition search_pre :: "'c::linorder floats \<Rightarrow> bit_map \<Rightarrow> point \<Rightarrow> point \<Rightarrow> bool" where
  "search_pre fl bm start goal \<longleftrightarrow> float_laws fl \<and> bitmap_inv bm \<and> short_point start \<and>
     IsPassable bm start = Inr True \<and> IsPassable bm goal = Inr True \<and>
     (start \<noteq> goal \<longrightarrow> f_zero fl < HeuristicDist fl start goal)"

lemma first_inv:
  assumes pre: "search_pre fl bm start goal" and ne: "start \<noteq> goal"
  shows "search_env fl bm start" "\<exists>p s1. new_node (MapNode_init fl) (MAStar_init fl) = (p, s1) \<and>
     (let s2 = set_node p (SetParent None \<circ> SetCorrd start \<circ> SetCost fl (HeuristicDist fl start goal)) s1
      in search_inv fl bm rng start goal (HeuristicDist fl start goal) (open_push p s2) \<and> max_expanded (open_push p s2) = 50000)"
proof -
  show "search_env fl bm start" using pre by (auto simp: search_env_def search_pre_def IsPassable_valid)
  let ?h0 = "HeuristicDist fl start goal" and ?s = "MAStar_init fl"
  let ?f = "SetParent None \<circ> SetCorrd start \<circ> SetCost fl ?h0"
  let ?s1 = "?s\<lparr>node_of := (node_of ?s)(0 := MapNode_init fl), next_ptr := 1\<rparr>"
  let ?s2 = "set_node 0 ?f ?s1"
  have pos: "f_zero fl < ?h0" using pre ne by (simp add: search_pre_def)
  then have n: "node_of ?s2 0 = \<lparr>n_cost = ?h0, n_point = start, n_parent = None\<rparr>"
    by (auto simp: SetParent_def SetCorrd_def SetCost_def MapNode_init_def)
  have empty: "opens ?s2 = {}" "closed ?s2 = {}"
    by (auto simp: opens_def closed_def MAStar_init_def OpenHeap_init_def ran_def)
  have "lists_ok ?s2 {}"
    unfolding lists_ok_def empty using heap_inv_init by (auto simp: MAStar_init_def)
  from open_push_ok [OF this, of 0] empty
  have P: "lists_ok (open_push 0 ?s2) {}" "opens (open_push 0 ?s2) = {0}" "closed (open_push 0 ?s2) = {}"
    by auto
  have k: "known (open_push 0 ?s2) = {0}" using P by (simp add: known_def)
  have nd: "node_of (open_push 0 ?s2) 0 = \<lparr>n_cost = ?h0, n_point = start, n_parent = None\<rparr>"
    using n by (simp add: open_push_def)
  have "rooted (node_of (open_push 0 ?s2)) 0" using nd by (intro rooted.root) simp
  then have "search_inv fl bm rng start goal ?h0 (open_push 0 ?s2)"
    using P pos nd unfolding search_inv_def k
    by (simp add: nodes_ok_def point_ok_def parent_ok_def closed_ok_def start_in_def)
  moreover have "max_expanded (open_push 0 ?s2) = 50000"
    by (simp add: open_push_def set_node_def MAStar_init_def)
  moreover have "new_node (MapNode_init fl) ?s = (0, ?s1)" by (simp add: new_node_def MAStar_init_def)
  ultimately show "\<exists>p s1. new_node (MapNode_init fl) ?s = (p, s1) \<and>
     (let s2 = set_node p ?f s1 in search_inv fl bm rng start goal ?h0 (open_push p s2) \<and> max_expanded (open_push p s2) = 50000)"
    by (intro exI [of _ 0] exI [of _ ?s1]) (simp only: Let_def simp_thms)
qed

text \<open>The result of a search from a fresh object, for all three ways it can end.\<close>

lemma Search_cases:
  assumes pre: "search_pre fl bm start goal"
  obtains (found) s "is" where "MAStar_Search fl (Some bm) start goal rng (MAStar_init fl) [] = Inr (s, route_points start is, True)"
      "route_ok bm rng start is" "route_end start is = goal"
      "\<And>js. route_ok bm rng start js \<Longrightarrow> route_end start js = goal \<Longrightarrow>
         route_cost fl (HeuristicDist fl start goal) is \<le> route_cost fl (HeuristicDist fl start goal) js"
  | (none) s where "MAStar_Search fl (Some bm) start goal rng (MAStar_init fl) [] = Inr (s, [], False)"
      "nodes_expanded s \<ge> 50000 \<or> (\<forall>js. route_ok bm rng start js \<longrightarrow> route_end start js \<noteq> goal)"
proof (cases "start = goal")
  case True
  have "float_laws fl" using pre by (simp add: search_pre_def)
  have up: "c \<le> route_cost fl c js" if "route_ok bm rng start js" for js c
    using that
  proof (induction js rule: rev_induct)
    case (snoc j js)
    then show ?case using add_up [OF \<open>float_laws fl\<close>, of j "route_cost fl c js"]
      by (auto simp: route_append intro: order_trans)
  qed (simp add: route_cost_def)
  show ?thesis
  proof (rule found)
    show "MAStar_Search fl (Some bm) start goal rng (MAStar_init fl) [] = Inr (MAStar_init fl, route_points start [], True)"
      using pre True by (simp add: MAStar_Search_def search_pre_def)
  qed (use True up in \<open>auto simp: route_end_def route_cost_def\<close>)
next
  case ne: False
  let ?h0 = "HeuristicDist fl start goal"
  note env = first_inv(1) [OF pre ne]
  obtain p s1 where p: "new_node (MapNode_init fl) (MAStar_init fl) = (p, s1)"
    "search_inv fl bm rng start goal ?h0 (open_push p (set_node p (SetParent None \<circ> SetCorrd start \<circ> SetCost fl ?h0) s1))"
    "max_expanded (open_push p (set_node p (SetParent None \<circ> SetCorrd start \<circ> SetCost fl ?h0) s1)) = 50000"
    using first_inv(2) [OF pre ne, of rng] unfolding Let_def by blast
  obtain s' how where loop: "search_loop fl bm rng goal (open_push p (set_node p (SetParent None \<circ> SetCorrd start \<circ> SetCost fl ?h0) s1)) = Inr (s', how)"
    "loop_result fl bm rng start goal ?h0 s' how" "max_expanded s' = 50000"
    using loop_ok [OF env p(2)] p(3) by metis
  have search: "MAStar_Search fl (Some bm) start goal rng (MAStar_init fl) [] =
     (case how of Exhausted \<Rightarrow> Inr (clear_lists s', [], False) | TooMany \<Rightarrow> Inr (s', [], False)
      | Found q \<Rightarrow> bindr (BuildPath s' (Some q) []) (\<lambda>(path', ok).
           if \<not> ok then Inr (clear_lists s', path', False) else Inr (s', path', True)))"
    using pre ne p(1) loop(1) by (simp add: MAStar_Search_def search_pre_def Let_def)
  show ?thesis
  proof (cases how)
    case Exhausted
    then have "search_inv fl bm rng start goal ?h0 s'" "opens s' = {}" using loop(2) by auto
    then show ?thesis using exhausted_unreachable [OF env] search Exhausted by (intro none) auto
  next
    case TooMany
    then show ?thesis using search loop(2,3) by (intro none) auto
  next
    case (Found q)
    then have q: "search_inv fl bm rng start goal ?h0 s'" "Heap_Top (openlist s') = Some q" "n_point (node_of s' q) = goal"
      using loop(2) by auto
    have laws: "float_laws fl" using env by (simp add: search_env_def)
    have nodes: "nodes_ok fl bm rng start ?h0 (node_of s') (known s')" using q(1) by (simp add: search_inv_def)
    have qk: "q \<in> known s'" using q(2) by (auto simp: Heap_Top_def known_def opens_def split: list.splits)
    then have "rooted (node_of s') q" using nodes by (simp add: nodes_ok_def)
    then obtain "is" where "is": "parents (node_of s') q = Some (rev (route_points start is))" "route_ok bm rng start is"
      "route_end start is = goal" "route_cost fl ?h0 is \<le> cost_in s' q" using parents_route [OF laws nodes] qk q(3) by metis
    show ?thesis
    proof (rule found)
      show "MAStar_Search fl (Some bm) start goal rng (MAStar_init fl) [] = Inr (s', route_points start is, True)"
        using search Found "is"(1) by (simp add: BuildPath_def)
      fix js assume "route_ok bm rng start js" "route_end start js = goal"
      then have "cost_in s' q \<le> route_cost fl ?h0 js" by (rule found_cheapest [OF env q(1,2)])
      then show "route_cost fl ?h0 is \<le> route_cost fl ?h0 js" using "is"(4) by (rule order_trans [rotated])
    qed (fact "is")+
  qed
qed

section \<open>Properties\<close>

text \<open>A concrete arithmetic, in thousandths, and an open corner of a map, for the witnesses.\<close>

definition milli :: "int floats" where
  "milli = \<lparr>f_zero = 0, f_one = 1000, f_root2 = 1414, f_add = (+), f_mul = (\<lambda>a b. a * b div 1000), f_of_int = (\<lambda>n. 1000 * n)\<rparr>"

lemma milli_laws: "float_laws milli"
  by (auto simp: float_laws_def milli_def)

lemma milli_search: "search_pre milli small_map (0, 0) (3, 0)"
proof -
  have "IsPassable small_map (0, 0) = Inr True" "IsPassable small_map (3, 0) = Inr True" by code_simp+
  moreover have "f_zero milli < HeuristicDist milli (0, 0) (3, 0)" by code_simp
  ultimately show ?thesis using milli_laws small_map_inv(1) by (simp add: search_pre_def short_point_def)
qed

lemma row_route: "route_ok small_map None (0, 0) [1, 1, 1]" "route_end (0, 0) [1, 1, 1] = (3, 0)"
proof -
  have "IsPassable small_map (1, 0) = Inr True" "IsPassable small_map (2, 0) = Inr True" "IsPassable small_map (3, 0) = Inr True"
    by code_simp+
  then have w: "walkable small_map None (1, 0)" "walkable small_map None (2, 0)" "walkable small_map None (3, 0)"
    using IsPassable_valid [OF small_map_inv(1)] by (auto simp: walkable_def)
  have n: "neighbor_pt (0, 0) 1 = (1, 0)" "neighbor_pt (1, 0) 1 = (2, 0)" "neighbor_pt (2, 0) 1 = (3, 0)" by code_simp+
  show "route_ok small_map None (0, 0) [1, 1, 1]" using w by (simp add: n PF_NEIGHBOR_COUNT_def del: One_nat_def)
  show "route_end (0, 0) [1, 1, 1] = (3, 0)" by (simp add: route_end_def n del: One_nat_def)
qed

text \<open>The search evaluated on the top row of the map, and towards a cell it cannot reach.\<close>

lemma milli_found:
  "\<exists>s. MAStar_Search milli (Some small_map) (0, 0) (3, 0) None (MAStar_init milli) [] =
     Inr (s, [(0, 0), (1, 0), (2, 0), (3, 0)], True)"
proof -
  have "(case MAStar_Search milli (Some small_map) (0, 0) (3, 0) None (MAStar_init milli) [] of
      Inr (s, p, ok) \<Rightarrow> ok \<and> p = [(0, 0), (1, 0), (2, 0), (3, 0)] | Inl _ \<Rightarrow> False)" by code_simp
  then show ?thesis by (auto split: sum.splits)
qed

lemma milli_blocked: "search_pre milli small_map (0, 0) (0, 2)"
proof -
  have "IsPassable small_map (0, 0) = Inr True" "IsPassable small_map (0, 2) = Inr True" by code_simp+
  moreover have "f_zero milli < HeuristicDist milli (0, 0) (0, 2)" by code_simp
  ultimately show ?thesis using milli_laws small_map_inv(1) by (simp add: search_pre_def short_point_def)
qed

lemma milli_none:
  "\<exists>s. MAStar_Search milli (Some small_map) (0, 0) (0, 2) None (MAStar_init milli) [] = Inr (s, [], False) \<and>
     nodes_expanded s = 4"
proof -
  have "(case MAStar_Search milli (Some small_map) (0, 0) (0, 2) None (MAStar_init milli) [] of
      Inr (s, p, ok) \<Rightarrow> \<not> ok \<and> p = [] \<and> nodes_expanded s = 4 | Inl _ \<Rightarrow> False)" by code_simp
  then show ?thesis by (auto split: sum.splits)
qed

text \<open>
  A search on the walk map between two passable points of it (\<open>search_pre\<close>) always returns, and a path it reports is a walk: it starts at the
  start, ends at the goal, every point after the first is a neighbour of the one before it,
  walkable and within the range given. No parent cycle can keep \<open>BuildPath\<close> from ending.
\<close>

theorem MAStar_returns_walk:
  assumes "search_pre fl bm start goal"
  shows "\<exists>s path ok. MAStar_Search fl (Some bm) start goal rng (MAStar_init fl) [] = Inr (s, path, ok) \<and>
     (if ok then \<exists>is. route_ok bm rng start is \<and> route_end start is = goal \<and> path = route_points start is
      else path = [])"
proof -
  consider s "is" where "MAStar_Search fl (Some bm) start goal rng (MAStar_init fl) [] = Inr (s, route_points start is, True)"
      "route_ok bm rng start is" "route_end start is = goal"
    | s where "MAStar_Search fl (Some bm) start goal rng (MAStar_init fl) [] = Inr (s, [], False)"
    using Search_cases [OF assms, of rng] by metis
  then show ?thesis
  proof cases
    case (1 s "is")
    then have "if True then \<exists>js. route_ok bm rng start js \<and> route_end start js = goal \<and> route_points start is = route_points start js
        else route_points start is = []" by auto
    with 1(1) show ?thesis by blast
  next
    case (2 s)
    have "if False then \<exists>js. route_ok bm rng start js \<and> route_end start js = goal \<and> [] = route_points start js
        else ([] :: point list) = []" by simp
    with 2 show ?thesis by blast
  qed
qed

theorem MAStar_returns_walk_witness:
  "\<exists>s path ok. MAStar_Search milli (Some small_map) (0, 0) (3, 0) None (MAStar_init milli) [] = Inr (s, path, ok) \<and>
     (ok \<longrightarrow> (\<exists>is. path = route_points (0, 0) is \<and> route_end (0, 0) is = (3, 0)))"
  using MAStar_returns_walk [OF milli_search, of None] by (auto split: if_splits)

text \<open>
  C2: The path found is a cheapest one: no walk from the start to the goal has a lower cost, as
  the search adds up costs in its own arithmetic, in the order of the walk.
\<close>

theorem MAStar_cheapest:
  assumes "search_pre fl bm start goal"
    and "MAStar_Search fl (Some bm) start goal rng (MAStar_init fl) [] = Inr (s, path, True)"
  shows "\<exists>is. path = route_points start is \<and> route_ok bm rng start is \<and> route_end start is = goal \<and>
     (\<forall>js. route_ok bm rng start js \<and> route_end start js = goal \<longrightarrow>
        route_cost fl (HeuristicDist fl start goal) is \<le> route_cost fl (HeuristicDist fl start goal) js)"
  using Search_cases [OF assms(1), of rng] assms(2) by cases force+

theorem MAStar_cheapest_witness:
  "route_cost milli 3000 [1, 1, 1] \<le> route_cost milli 3000 [4, 5, 1] \<and>
   (\<exists>s is. MAStar_Search milli (Some small_map) (0, 0) (3, 0) None (MAStar_init milli) [] = Inr (s, route_points (0, 0) is, True) \<and>
      route_cost milli 3000 is \<le> route_cost milli 3000 [1, 1, 1])"
proof -
  have h: "HeuristicDist milli (0, 0) (3, 0) = 3000" by code_simp
  obtain s where s: "MAStar_Search milli (Some small_map) (0, 0) (3, 0) None (MAStar_init milli) [] =
     Inr (s, [(0, 0), (1, 0), (2, 0), (3, 0)], True)" using milli_found by blast
  have "route_cost milli 3000 [1, 1, 1] \<le> route_cost milli 3000 [4, 5, 1]" by code_simp
  then show ?thesis using MAStar_cheapest [OF milli_search s] row_route s unfolding h by metis
qed

text \<open>
  C18: The search fails only for a reason: when it reports no path, no walk from the start to the
  goal exists, or it has expanded its limit of 50000 nodes.
\<close>

theorem MAStar_complete:
  assumes "search_pre fl bm start goal"
    and "MAStar_Search fl (Some bm) start goal rng (MAStar_init fl) [] = Inr (s, path, False)"
  shows "nodes_expanded s \<ge> 50000 \<or> \<not> (\<exists>js. route_ok bm rng start js \<and> route_end start js = goal)"
  using Search_cases [OF assms(1), of rng] assms(2) by cases force+

theorem MAStar_complete_witness: "\<not> (\<exists>js. route_ok small_map None (0, 0) js \<and> route_end (0, 0) js = (0, 2))"
proof -
  obtain s where s: "MAStar_Search milli (Some small_map) (0, 0) (0, 2) None (MAStar_init milli) [] = Inr (s, [], False)"
    "nodes_expanded s = 4" using milli_none by blast
  from MAStar_complete [OF milli_blocked s(1)] s(2) show ?thesis by simp
qed

end
