(* ===== verification/Expression.thy ===== *)
theory Expression
  imports Prelude "HOL-Library.Char_ord"
begin

text \<open>
  \<open>game_module/skill/utility/expression.cpp\<close>: the arithmetic formulas of skills and
  achievements, kept as strings in the templates and evaluated at run time: splitting into
  tokens, conversion to postfix with an operator stack, and evaluation with a value stack.
  \<open>game_module/achieve\<close> has the same code without the sign prefix. The arithmetic of
  \<open>double\<close>, \<open>atof\<close> and the parameters of the derived classes are an environment.
\<close>

section \<open>The class\<close>

record 'd calc_env =
  d_zero :: 'd
  d_is_zero :: "'d \<Rightarrow> bool"
  d_add :: "'d \<Rightarrow> 'd \<Rightarrow> 'd"
  d_sub :: "'d \<Rightarrow> 'd \<Rightarrow> 'd"
  d_mul :: "'d \<Rightarrow> 'd \<Rightarrow> 'd"
  d_div :: "'d \<Rightarrow> 'd \<Rightarrow> 'd"
  d_neg :: "'d \<Rightarrow> 'd"
  atof :: "string \<Rightarrow> 'd"
  IsParamTag :: "char \<Rightarrow> bool"
  GetParamValue :: "string \<Rightarrow> 'd res"

record formula =
  minus_flag :: bool
  exp_str :: string

definition make_formula :: "string \<Rightarrow> formula" where
  "make_formula s =
     (let m = (s \<noteq> [] \<and> hd s = CHR ''-'') in \<lparr>minus_flag = m, exp_str = (if m then tl s else s)\<rparr>)"

section \<open>Tokens\<close>

text \<open>A stack is a list whose head is the top.\<close>

fun bracket_loop :: "string \<Rightarrow> string \<Rightarrow> bool" where
  "bracket_loop [] st = (st = [])"
| "bracket_loop (ch # cs) st =
     (if ch \<noteq> CHR ''('' \<and> ch \<noteq> CHR '')'' then bracket_loop cs st
      else if ch = CHR ''('' then bracket_loop cs (ch # st)
      else if st = [] then False
      else bracket_loop cs (tl st))"

definition IsBracketMatch :: "string \<Rightarrow> bool" where
  "IsBracketMatch s = bracket_loop s []"

definition IsNumber :: "char \<Rightarrow> bool" where
  "IsNumber ch \<longleftrightarrow> ch \<in> set ''0123456789''"

definition IsOperator :: "char \<Rightarrow> bool" where
  "IsOperator ch \<longleftrightarrow> ch \<in> set ''()+-*/''"

text \<open>The loop of \<open>DivideExpression\<close>; \<open>i == size - 1\<close> is the last character.\<close>

fun divide_loop :: "string \<Rightarrow> string list \<Rightarrow> string \<Rightarrow> bool \<Rightarrow> bool \<Rightarrow> string list" where
  "divide_loop [] que str in_num in_param = que"
| "divide_loop (ch # cs) que str in_num in_param =
     (if ch = CHR '' '' then divide_loop cs que str in_num in_param
      else
        let (n, p) =
          (if IsNumber ch \<and> \<not> in_param then (True, in_param)
           else if IsOperator ch then (False, False)
           else if \<not> in_param then (in_num, True)
           else (in_num, in_param))
        in if n \<or> p then
             let str' = str @ [ch]
             in divide_loop cs (if cs = [] then que @ [str'] else que) str' n p
           else
             divide_loop cs ((if str \<noteq> [] then que @ [str] else que) @ [[ch]]) [] n p)"

definition DivideExpression :: "string \<Rightarrow> string list" where
  "DivideExpression s = (if \<not> IsBracketMatch s then [] else divide_loop s [] [] False False)"

section \<open>Postfix\<close>

fun pop_to_bracket :: "string list \<Rightarrow> string list \<Rightarrow> string list \<times> string list" where
  "pop_to_bracket a [] = (a, [])"
| "pop_to_bracket a (x # b) = (if x \<noteq> ''('' then pop_to_bracket (x # a) b else (a, x # b))"

fun suffix_loop :: "string list \<Rightarrow> string list \<Rightarrow> string list \<Rightarrow> string list \<times> string list" where
  "suffix_loop [] a b = (a, b)"
| "suffix_loop (str # que) a b =
     (if str = ''('' then suffix_loop que a (str # b)
      else if str = '')'' then
        (case pop_to_bracket a b of (a', b') \<Rightarrow> suffix_loop que a' (if b' \<noteq> [] then tl b' else b'))
      else if str = ''+'' \<or> str = ''-'' then
        (if b = [] \<or> hd b = ''('' then suffix_loop que a (str # b)
         else case pop_to_bracket a b of (a', b') \<Rightarrow> suffix_loop que a' (str # b'))
      else if str = ''*'' \<or> str = ''/'' then
        (if b = [] \<or> hd b = ''+'' \<or> hd b = ''-'' \<or> hd b = ''('' then suffix_loop que a (str # b)
         else suffix_loop que (hd b # a) (str # b))
      else suffix_loop que (str # a) b)"

fun drain_ops :: "string list \<Rightarrow> string list \<Rightarrow> string list" where
  "drain_ops a [] = a"
| "drain_ops a (x # b) = drain_ops (if x \<noteq> ''('' then x # a else a) b"

definition ChangeToSuffix :: "string \<Rightarrow> string list" where
  "ChangeToSuffix s =
     (let que = DivideExpression s in
      if que = [] then []
      else case suffix_loop que [] [] of (a, b) \<Rightarrow> rev (drain_ops a b))"

section \<open>Evaluation\<close>

definition pop_top :: "'d list \<Rightarrow> ('d \<times> 'd list) res" where
  "pop_top st = (case st of [] \<Rightarrow> Inl EmptyTop | x # xs \<Rightarrow> Inr (x, xs))"

text \<open>One token; a division by zero drops the divisor and leaves the dividend.\<close>

definition calc_token :: "'d calc_env \<Rightarrow> string \<Rightarrow> 'd list \<Rightarrow> 'd list res" where
  "calc_token env str st =
     (if str = [] then Inl OutOfRange
      else let ch = hd str in
        if ch = CHR ''+'' then
          bindr (pop_top st) (\<lambda>(dbl, st1). bindr (pop_top st1) (\<lambda>(y, st2). Inr (d_add env dbl y # st2)))
        else if ch = CHR ''-'' then
          bindr (pop_top st) (\<lambda>(dbl, st1). bindr (pop_top st1) (\<lambda>(y, st2). Inr (d_sub env y dbl # st2)))
        else if ch = CHR ''*'' then
          bindr (pop_top st) (\<lambda>(dbl, st1). bindr (pop_top st1) (\<lambda>(y, st2). Inr (d_mul env dbl y # st2)))
        else if ch = CHR ''/'' then
          bindr (pop_top st) (\<lambda>(dbl, st1).
            if \<not> d_is_zero env dbl then bindr (pop_top st1) (\<lambda>(y, st2). Inr (d_div env y dbl # st2)) else Inr st1)
        else if IsNumber ch then Inr (atof env str # st)
        else if IsParamTag env ch then bindr (GetParamValue env str) (\<lambda>v. Inr (v # st))
        else Inr st)"

fun calc_loop :: "'d calc_env \<Rightarrow> string list \<Rightarrow> 'd list \<Rightarrow> 'd list res" where
  "calc_loop env [] st = Inr st"
| "calc_loop env (str # ts) st = bindr (calc_token env str st) (\<lambda>st'. calc_loop env ts st')"

definition Calculate :: "'d calc_env \<Rightarrow> formula \<Rightarrow> 'd res" where
  "Calculate env f =
     (let ts = ChangeToSuffix (exp_str f) in
      if ts = [] then Inr (d_zero env)
      else bindr (calc_loop env ts []) (\<lambda>st.
           bindr (pop_top st) (\<lambda>(r, _). Inr (if minus_flag f then d_neg env r else r))))"

section \<open>The parameters of skill and achievement formulas\<close>

definition npos :: int where "npos = 18446744073709551615"

fun find_from :: "char \<Rightarrow> string \<Rightarrow> int \<Rightarrow> int" where
  "find_from c [] i = npos"
| "find_from c (x # xs) i = (if x = c then i else find_from c xs (i + 1))"

definition substr :: "string \<Rightarrow> int \<Rightarrow> int \<Rightarrow> string res" where
  "substr s p n = (if p > int (length s) then Inl OutOfRange
      else let rest = drop (nat p) s in Inr (if n \<ge> int (length rest) then rest else take (nat n) rest))"

fun digits_val :: "string \<Rightarrow> int \<Rightarrow> int" where
  "digits_val [] v = v"
| "digits_val (c # cs) v = (if IsNumber c then digits_val cs (10 * v + (of_char c - 48)) else v)"

fun atoi :: "string \<Rightarrow> int" where
  "atoi [] = 0"
| "atoi (c # cs) =
     (if c \<in> {CHR '' '', CHR 0x09, CHR 0x0A, CHR 0x0B, CHR 0x0C, CHR 0x0D} then atoi cs
      else if c = CHR ''-'' then - digits_val cs 0
      else if c = CHR ''+'' then digits_val cs 0
      else digits_val (c # cs) 0)"

definition Skill_IsParamTag :: "char \<Rightarrow> bool" where
  "Skill_IsParamTag ch \<longleftrightarrow> ch = CHR ''l'' \<or> ch = CHR ''p''"

definition Skill_GetParamValue :: "'d \<Rightarrow> (int \<Rightarrow> 'd) \<Rightarrow> string \<Rightarrow> 'd res" where
  "Skill_GetParamValue level property param =
     (if param \<noteq> [] \<and> hd param = CHR ''l'' then Inr level
      else bindr (substr param 4 npos) (\<lambda>digits.
        let prop_num = atoi digits
        in assertx ((prop_num \<ge> 1 \<and> prop_num \<le> 19) \<or> (prop_num \<ge> 1001 \<and> prop_num \<le> 1019))
             (Inr (property (prop_num - 1)))))"

definition Achieve_IsParamTag :: "char \<Rightarrow> bool" where
  "Achieve_IsParamTag ch \<longleftrightarrow> ch = CHR ''V''"

definition Achieve_GetParamValue :: "(int \<Rightarrow> int \<Rightarrow> 'd) \<Rightarrow> string \<Rightarrow> 'd res" where
  "Achieve_GetParamValue data param =
     (let start = find_from (CHR ''['') param 0;
          end1 = find_from (CHR '','') param 0
      in bindr (substr param (u64 (start + 1)) (u64 (end1 - start - 1))) (\<lambda>t.
         let end2 = find_from (CHR '']'') param 0
         in bindr (substr param (u64 (end1 + 1)) (u64 (end2 - end1 - 1))) (\<lambda>u.
            Inr (data (atoi t) (atoi u)))))"

section \<open>Formulas as trees\<close>

text \<open>
  The formulas the code handles: sums of terms, where a term is a factor or one product or
  quotient of two factors, and a factor is a number, a parameter or a sum in brackets.
\<close>

datatype fac = Atom string | Paren esum
  and trm = One fac | Mul fac fac | Dvd fac fac
  and esum = Single trm | Plus esum trm | Minus esum trm

primrec toks_f :: "fac \<Rightarrow> string list"
  and toks_t :: "trm \<Rightarrow> string list"
  and toks_s :: "esum \<Rightarrow> string list" where
  "toks_f (Atom a) = [a]"
| "toks_f (Paren s) = [''(''] @ toks_s s @ ['')'']"
| "toks_t (One f) = toks_f f"
| "toks_t (Mul f g) = toks_f f @ [''*''] @ toks_f g"
| "toks_t (Dvd f g) = toks_f f @ [''/''] @ toks_f g"
| "toks_s (Single t) = toks_t t"
| "toks_s (Plus s t) = toks_s s @ [''+''] @ toks_t t"
| "toks_s (Minus s t) = toks_s s @ [''-''] @ toks_t t"

definition print_sum :: "esum \<Rightarrow> string" where
  "print_sum s = concat (toks_s s)"

text \<open>A number starts with a digit, a parameter with its tag; neither has spaces or operators.\<close>

definition atom_ok :: "'d calc_env \<Rightarrow> string \<Rightarrow> bool" where
  "atom_ok env a \<longleftrightarrow> a \<noteq> [] \<and> (\<forall>c \<in> set a. c \<noteq> CHR '' '' \<and> \<not> IsOperator c) \<and>
     (IsNumber (hd a) \<or> IsParamTag env (hd a))"

primrec ok_f :: "'d calc_env \<Rightarrow> fac \<Rightarrow> bool"
  and ok_t :: "'d calc_env \<Rightarrow> trm \<Rightarrow> bool"
  and ok_s :: "'d calc_env \<Rightarrow> esum \<Rightarrow> bool" where
  "ok_f env (Atom a) = atom_ok env a"
| "ok_f env (Paren s) = ok_s env s"
| "ok_t env (One f) = ok_f env f"
| "ok_t env (Mul f g) = (ok_f env f \<and> ok_f env g)"
| "ok_t env (Dvd f g) = (ok_f env f \<and> ok_f env g)"
| "ok_s env (Single t) = ok_t env t"
| "ok_s env (Plus s t) = (ok_s env s \<and> ok_t env t)"
| "ok_s env (Minus s t) = (ok_s env s \<and> ok_t env t)"

text \<open>Their value, operands from left to right; a quotient by zero is its dividend.\<close>

definition value_of :: "'d calc_env \<Rightarrow> string \<Rightarrow> 'd res" where
  "value_of env a = (if IsNumber (hd a) then Inr (atof env a) else GetParamValue env a)"

definition lift2 :: "('d \<Rightarrow> 'd \<Rightarrow> 'd) \<Rightarrow> 'd res \<Rightarrow> 'd res \<Rightarrow> 'd res" where
  "lift2 f a b = bindr a (\<lambda>x. bindr b (\<lambda>y. Inr (f x y)))"

definition quotient_of :: "'d calc_env \<Rightarrow> 'd \<Rightarrow> 'd \<Rightarrow> 'd" where
  "quotient_of env x y = (if \<not> d_is_zero env y then d_div env x y else x)"

primrec eval_f :: "'d calc_env \<Rightarrow> fac \<Rightarrow> 'd res"
  and eval_t :: "'d calc_env \<Rightarrow> trm \<Rightarrow> 'd res"
  and eval_s :: "'d calc_env \<Rightarrow> esum \<Rightarrow> 'd res" where
  "eval_f env (Atom a) = value_of env a"
| "eval_f env (Paren s) = eval_s env s"
| "eval_t env (One f) = eval_f env f"
| "eval_t env (Mul f g) = lift2 (d_mul env) (eval_f env f) (eval_f env g)"
| "eval_t env (Dvd f g) = lift2 (quotient_of env) (eval_f env f) (eval_f env g)"
| "eval_s env (Single t) = eval_t env t"
| "eval_s env (Plus s t) = lift2 (d_add env) (eval_s env s) (eval_t env t)"
| "eval_s env (Minus s t) = lift2 (d_sub env) (eval_s env s) (eval_t env t)"

definition commutes :: "'d calc_env \<Rightarrow> bool" where
  "commutes env \<longleftrightarrow> (\<forall>x y. d_add env x y = d_add env y x \<and> d_mul env x y = d_mul env y x)"

section \<open>Tokenising a printed formula\<close>

lemma operator_char: "IsOperator c \<Longrightarrow> \<not> IsNumber c \<and> c \<noteq> CHR '' ''"
  by (auto simp: IsOperator_def IsNumber_def)

text \<open>Spaces inside the string make no difference as long as the last character is not one.\<close>

lemma divide_spaces:
  assumes "s \<noteq> []" "last s \<noteq> CHR '' ''"
  shows "divide_loop s que str n p = divide_loop (filter (\<lambda>c. c \<noteq> CHR '' '') s) que str n p"
  using assms
proof (induction s arbitrary: que str n p)
  case (Cons c cs)
  let ?f = "filter (\<lambda>c. c \<noteq> CHR '' '')"
  show ?case
  proof (cases "cs = []")
    case True
    then show ?thesis using Cons.prems(2) by simp
  next
    case False
    then have l: "last cs \<noteq> CHR '' ''" using Cons.prems(2) by simp
    then have "last cs \<in> set (?f cs)" using False by simp
    then have ne: "?f cs \<noteq> []" by (metis list.distinct(1) list.set_cases)
    note IH = Cons.IH [OF False l]
    show ?thesis
    proof (cases "c = CHR '' ''")
      case True
      then show ?thesis using IH by simp
    next
      case nsp: False
      have "divide_loop (c # cs) que str n p = divide_loop (c # ?f cs) que str n p"
        using False ne IH by (simp add: Let_def split: prod.splits)
      then show ?thesis using nsp by simp
    qed
  qed
qed simp

declare divide_loop.simps(2) [simp del]

lemma divide_atom_step:
  assumes "c \<noteq> CHR '' ''" "\<not> IsOperator c"
  shows "\<exists>n' p'. (n' \<or> p') \<and> divide_loop (c # cs) que str n p =
     divide_loop cs (if cs = [] then que @ [str @ [c]] else que) (str @ [c]) n' p'"
proof -
  let ?n = "IsNumber c \<and> \<not> p \<or> n" and ?p = "p \<or> \<not> IsNumber c"
  have "divide_loop (c # cs) que str n p =
      divide_loop cs (if cs = [] then que @ [str @ [c]] else que) (str @ [c]) ?n ?p"
    unfolding divide_loop.simps(2) using assms by (cases "IsNumber c"; cases p) (simp_all add: Let_def)
  moreover have "?n \<or> ?p" by auto
  ultimately show ?thesis by (intro exI [of _ ?n] exI [of _ ?p] conjI)
qed

text \<open>The token under construction grows over an atom; an operator or the end closes it.\<close>

lemma divide_atom:
  assumes "a \<noteq> []" "\<forall>c \<in> set a. c \<noteq> CHR '' '' \<and> \<not> IsOperator c"
  shows "\<exists>n' p'. divide_loop (a @ cs) que str n p =
     divide_loop cs (if cs = [] then que @ [str @ a] else que) (str @ a) n' p'"
  using assms
proof (induction a arbitrary: str n p)
  case (Cons c a)
  obtain n1 p1 where 1: "divide_loop (c # (a @ cs)) que str n p =
      divide_loop (a @ cs) (if a @ cs = [] then que @ [str @ [c]] else que) (str @ [c]) n1 p1"
    using divide_atom_step [of c "a @ cs" que str n p] Cons.prems by auto
  show ?case
  proof (cases "a = []")
    case True
    then show ?thesis using 1 by auto
  next
    case False
    obtain n2 p2 where "divide_loop (a @ cs) que (str @ [c]) n1 p1 =
        divide_loop cs (if cs = [] then que @ [(str @ [c]) @ a] else que) ((str @ [c]) @ a) n2 p2"
      using Cons.IH [OF False, of "str @ [c]" n1 p1] Cons.prems(2) by auto
    then show ?thesis using 1 False by auto
  qed
qed simp

lemma divide_operator:
  assumes "IsOperator c"
  shows "divide_loop (c # cs) que str n p = divide_loop cs ((if str \<noteq> [] then que @ [str] else que) @ [[c]]) [] False False"
  unfolding divide_loop.simps(2) using assms operator_char [OF assms] by (simp add: Let_def)

lemma operators [simp]:
  "IsOperator CHR ''(''" "IsOperator CHR '')''" "IsOperator CHR ''+''" "IsOperator CHR ''-''"
  "IsOperator CHR ''*''" "IsOperator CHR ''/''"
  by (simp_all add: IsOperator_def)

text \<open>Lists of tokens without two adjacent atoms are read back as they are.\<close>

definition op_tok :: "string \<Rightarrow> bool" where
  "op_tok t \<longleftrightarrow> (\<exists>c. t = [c] \<and> IsOperator c)"

definition atom_tok :: "string \<Rightarrow> bool" where
  "atom_tok a \<longleftrightarrow> a \<noteq> [] \<and> (\<forall>c \<in> set a. c \<noteq> CHR '' '' \<and> \<not> IsOperator c)"

fun good_toks :: "string list \<Rightarrow> bool" where
  "good_toks [] = True"
| "good_toks [t] = (op_tok t \<or> atom_tok t)"
| "good_toks (t # u # ts) = ((op_tok t \<or> atom_tok t) \<and> (op_tok t \<or> op_tok u) \<and> good_toks (u # ts))"

lemma good_Cons: "good_toks (t # ts) \<Longrightarrow> (op_tok t \<or> atom_tok t) \<and> good_toks ts \<and> (op_tok t \<or> ts = [] \<or> op_tok (hd ts))"
  by (cases ts) auto

lemma good_ne: "good_toks ts \<Longrightarrow> ts \<noteq> [] \<Longrightarrow> concat ts \<noteq> []"
proof -
  assume "good_toks ts" "ts \<noteq> []"
  then obtain t us where "ts = t # us" "op_tok t \<or> atom_tok t" using good_Cons by (cases ts) blast+
  then show ?thesis by (auto simp: op_tok_def atom_tok_def)
qed

lemma divide_toks:
  assumes "good_toks ts" "str \<noteq> [] \<Longrightarrow> ts = [] \<or> op_tok (hd ts)"
  shows "divide_loop (concat ts) que str n p = que @ (if str \<noteq> [] \<and> ts \<noteq> [] then [str] else []) @ ts"
  using assms
proof (induction ts arbitrary: que str n p)
  case (Cons t ts)
  note g = good_Cons [OF Cons.prems(1)]
  show ?case
  proof (cases "op_tok t")
    case True
    then obtain c where c: "t = [c]" "IsOperator c" by (auto simp: op_tok_def)
    have "divide_loop (concat (t # ts)) que str n p =
        divide_loop (concat ts) ((if str \<noteq> [] then que @ [str] else que) @ [[c]]) [] False False"
      using divide_operator [OF c(2), of "concat ts" que str n p] by (simp add: c(1))
    also have "\<dots> = ((if str \<noteq> [] then que @ [str] else que) @ [[c]]) @ ts"
      using Cons.IH [of "[]"] g by simp
    finally show ?thesis by (simp add: c(1))
  next
    case False
    then have a: "atom_tok t" "str = []" using g Cons.prems(2) by auto
    have "t \<noteq> []" "\<forall>c \<in> set t. c \<noteq> CHR '' '' \<and> \<not> IsOperator c" using a(1) unfolding atom_tok_def by blast+
    from divide_atom [OF this, of "concat ts" que "[]" n p, unfolded append_Nil]
    obtain n' p' where d: "divide_loop (t @ concat ts) que [] n p =
        divide_loop (concat ts) (if concat ts = [] then que @ [t] else que) t n' p'" by (elim exE)
    show ?thesis
    proof (cases "ts = []")
      case True
      then show ?thesis using d a(2) by simp
    next
      case ne: False
      have "divide_loop (concat ts) que t n' p' = que @ [t] @ ts"
        using Cons.IH [of t que n' p'] g False ne a(1) by (auto simp: atom_tok_def)
      moreover have "concat ts \<noteq> []" using good_ne g ne by blast
      ultimately have "divide_loop (t @ concat ts) que [] n p = que @ [t] @ ts" unfolding d by (simp only: if_False)
      then show ?thesis using a(2) by simp
    qed
  qed
qed simp

lemma good_join: "good_toks xs \<Longrightarrow> good_toks ys \<Longrightarrow> op_tok t \<Longrightarrow> good_toks (xs @ t # ys)"
proof (induction xs rule: good_toks.induct)
  case 1
  then show ?case by (cases ys) auto
next
  case (2 u)
  then show ?case by (cases ys) auto
qed auto

lemma op_toks [simp]: "op_tok ''(''" "op_tok '')''" "op_tok ''+''" "op_tok ''-''" "op_tok ''*''" "op_tok ''/''"
  by (simp_all add: op_tok_def)

lemma atom_ok_tok: "atom_ok env a \<Longrightarrow> atom_tok a"
  by (simp add: atom_ok_def atom_tok_def)

lemma good_toks_tree:
  "ok_f env f \<Longrightarrow> good_toks (toks_f f)" "ok_t env t \<Longrightarrow> good_toks (toks_t t)" "ok_s env s \<Longrightarrow> good_toks (toks_s s)"
proof (induction f and t and s)
  case (Paren s)
  then have "good_toks (toks_s s @ '')'' # [])" by (intro good_join) auto
  then show ?case using good_join [of "[]" "toks_s s @ ['')'']" "''(''"] by simp
qed (auto intro: good_join dest: atom_ok_tok)

text \<open>Brackets in a printed tree match.\<close>

lemma bracket_skip: "\<forall>c \<in> set a. \<not> IsOperator c \<Longrightarrow> bracket_loop (a @ cs) st = bracket_loop cs st"
  by (induction a) (auto simp: IsOperator_def)

lemma bracket_tree:
  "ok_f env f \<Longrightarrow> bracket_loop (concat (toks_f f) @ cs) st = bracket_loop cs st"
  "ok_t env t \<Longrightarrow> bracket_loop (concat (toks_t t) @ cs) st = bracket_loop cs st"
  "ok_s env s \<Longrightarrow> bracket_loop (concat (toks_s s) @ cs) st = bracket_loop cs st"
proof (induction f and t and s arbitrary: cs st and cs st and cs st)
  case (Atom a)
  then show ?case by (simp add: atom_ok_def bracket_skip)
qed auto

lemma bracket_spaces: "bracket_loop (filter (\<lambda>c. c \<noteq> CHR '' '') s) st = bracket_loop s st"
  by (induction s arbitrary: st) auto

text \<open>A string that reads as the tree \<open>e\<close> once its spaces are dropped.\<close>

definition reads :: "string \<Rightarrow> esum \<Rightarrow> bool" where
  "reads s e \<longleftrightarrow> filter (\<lambda>c. c \<noteq> CHR '' '') s = print_sum e \<and> s \<noteq> [] \<and> last s \<noteq> CHR '' ''"

lemma Divide_reads:
  assumes "reads s e" "ok_s env e"
  shows "DivideExpression s = toks_s e"
proof -
  have "IsBracketMatch s"
    using bracket_tree(3) [OF assms(2), of "[]" "[]"] bracket_spaces [of s "[]"] assms(1)
    by (simp add: IsBracketMatch_def reads_def print_sum_def)
  moreover have "divide_loop s [] [] False False = toks_s e"
    using divide_spaces [of s "[]" "[]" False False] divide_toks [OF good_toks_tree(3) [OF assms(2)], of "[]" "[]" False False] assms(1)
    by (simp add: reads_def print_sum_def)
  ultimately show ?thesis by (simp add: DivideExpression_def)
qed

section \<open>Postfix of a tree\<close>

text \<open>The tokens written out while a tree is read, and the operators it leaves on the stack.\<close>

fun pend_t :: "trm \<Rightarrow> string list" where
  "pend_t (One f) = []"
| "pend_t (Mul f g) = [''*'']"
| "pend_t (Dvd f g) = [''/'']"

fun pend_s :: "esum \<Rightarrow> string list" where
  "pend_s (Single t) = pend_t t"
| "pend_s (Plus s t) = pend_t t @ [''+'']"
| "pend_s (Minus s t) = pend_t t @ [''-'']"

primrec out_f :: "fac \<Rightarrow> string list"
  and out_t :: "trm \<Rightarrow> string list"
  and out_s :: "esum \<Rightarrow> string list" where
  "out_f (Atom a) = [a]"
| "out_f (Paren s) = out_s s @ pend_s s"
| "out_t (One f) = out_f f"
| "out_t (Mul f g) = out_f f @ out_f g"
| "out_t (Dvd f g) = out_f f @ out_f g"
| "out_s (Single t) = out_t t"
| "out_s (Plus s t) = out_s s @ pend_s s @ out_t t"
| "out_s (Minus s t) = out_s s @ pend_s s @ out_t t"

lemma pend_no_bracket: "''('' \<notin> set (pend_t t)" "''('' \<notin> set (pend_s s)"
proof -
  show t: "''('' \<notin> set (pend_t t)" for t by (cases t) auto
  show "''('' \<notin> set (pend_s s)" using t by (cases s) auto
qed

text \<open>At the bottom of a sum the operator stack is empty or shows an opening bracket.\<close>

definition at_base :: "string list \<Rightarrow> bool" where
  "at_base b \<longleftrightarrow> b = [] \<or> hd b = ''(''"

definition at_term :: "string list \<Rightarrow> bool" where
  "at_term b \<longleftrightarrow> b = [] \<or> hd b \<in> {''('', ''+'', ''-''}"

lemma pop_pending:
  "''('' \<notin> set xs \<Longrightarrow> at_base b \<Longrightarrow> pop_to_bracket a (xs @ b) = (rev xs @ a, b)"
proof (induction xs arbitrary: a)
  case Nil
  then show ?case by (cases b) (auto simp: at_base_def)
qed auto

lemma suffix_atom:
  assumes "atom_ok env a"
  shows "suffix_loop (a # ts) x b = suffix_loop ts (a # x) b"
proof -
  have "\<not> op_tok a" using assms by (auto simp: atom_ok_def op_tok_def)
  then have "a \<noteq> ''(''" "a \<noteq> '')''" "a \<noteq> ''+''" "a \<noteq> ''-''" "a \<noteq> ''*''" "a \<noteq> ''/''" using op_toks by metis+
  then show ?thesis by simp
qed

lemma suffix_pm:
  assumes "str = ''+'' \<or> str = ''-''" "at_base b" "''('' \<notin> set xs"
  shows "suffix_loop (str # ts) a (xs @ b) = suffix_loop ts (rev xs @ a) (str # b)"
proof (cases xs)
  case Nil
  then show ?thesis using assms by (auto simp: at_base_def)
next
  case (Cons y ys)
  then have "\<not> (xs @ b = [] \<or> hd (xs @ b) = ''('')" using assms(3) by auto
  then show ?thesis using assms(1) pop_pending [OF assms(3,2), of a] by auto
qed

lemma suffix_md:
  assumes "str = ''*'' \<or> str = ''/''" "at_term b"
  shows "suffix_loop (str # ts) a b = suffix_loop ts a (str # b)"
  using assms by (auto simp: at_term_def)

lemma suffix_brackets:
  "suffix_loop (''('' # que) a b = suffix_loop que a (''('' # b)"
  "suffix_loop ('')'' # que) a b = (case pop_to_bracket a b of (a', b') \<Rightarrow> suffix_loop que a' (if b' \<noteq> [] then tl b' else b'))"
  by simp_all

declare suffix_loop.simps(2) [simp del]

lemma suffix_tree:
  "ok_f env f \<Longrightarrow> suffix_loop (toks_f f @ ts) a b = suffix_loop ts (rev (out_f f) @ a) b"
  "ok_t env t \<Longrightarrow> at_term b \<Longrightarrow> suffix_loop (toks_t t @ ts) a b = suffix_loop ts (rev (out_t t) @ a) (pend_t t @ b)"
  "ok_s env s \<Longrightarrow> at_base b \<Longrightarrow> suffix_loop (toks_s s @ ts) a b = suffix_loop ts (rev (out_s s) @ a) (pend_s s @ b)"
proof (induction f and t and s arbitrary: a b ts and a b ts and a b ts)
  case (Atom x)
  then show ?case using suffix_atom [of env x ts a b] by simp
next
  case (Paren s)
  have base: "at_base (''('' # b)" by (simp add: at_base_def)
  have "suffix_loop (toks_f (Paren s) @ ts) a b = suffix_loop (toks_s s @ '')'' # ts) a (''('' # b)" by (simp add: suffix_brackets)
  also have "\<dots> = suffix_loop ('')'' # ts) (rev (out_s s) @ a) (pend_s s @ ''('' # b)"
    using Paren.IH [of "''('' # b" "'')'' # ts" a] Paren.prems base by simp
  also have "\<dots> = suffix_loop ts (rev (pend_s s) @ rev (out_s s) @ a) b"
    using pop_pending [OF pend_no_bracket(2) base] by (simp add: suffix_brackets)
  finally show ?case by simp
next
  case (Mul f g)
  then show ?case using suffix_md by simp
next
  case (Dvd f g)
  then show ?case using suffix_md by simp
next
  case (Single t)
  then show ?case by (auto simp: at_base_def at_term_def)
next
  case (Plus s t)
  have "at_term (''+'' # b)" by (simp add: at_term_def)
  then show ?case using Plus suffix_pm [OF _ Plus.prems(2) pend_no_bracket(2)] by simp
next
  case (Minus s t)
  have "at_term (''-'' # b)" by (simp add: at_term_def)
  then show ?case using Minus suffix_pm [OF _ Minus.prems(2) pend_no_bracket(2)] by simp
qed simp

lemma drain_no_bracket: "''('' \<notin> set b \<Longrightarrow> drain_ops a b = rev b @ a"
  by (induction b arbitrary: a) auto

lemma toks_nonempty: "ok_s env s \<Longrightarrow> toks_s s \<noteq> []"
proof -
  have "toks_f f \<noteq> []" for f by (cases f) auto
  then have "toks_t t \<noteq> []" for t by (cases t) auto
  then show ?thesis by (cases s) auto
qed

lemma Suffix_reads:
  assumes "reads s e" "ok_s env e"
  shows "ChangeToSuffix s = out_s e @ pend_s e"
proof -
  have "suffix_loop (toks_s e) [] [] = (rev (out_s e), pend_s e)"
    using suffix_tree(3) [OF assms(2), of "[]" "[]" "[]"] by (simp add: at_base_def)
  then show ?thesis
    using Divide_reads [OF assms] toks_nonempty [OF assms(2)] drain_no_bracket [OF pend_no_bracket(2)]
    by (simp add: ChangeToSuffix_def)
qed

section \<open>Evaluation of a tree\<close>

lemma calc_append: "calc_loop env (ts @ us) st = bindr (calc_loop env ts st) (\<lambda>st'. calc_loop env us st')"
proof (induction ts arbitrary: st)
  case (Cons t ts)
  then have "calc_loop env (ts @ us) = (\<lambda>st. bindr (calc_loop env ts st) (\<lambda>st'. calc_loop env us st'))" by blast
  then show ?case by (simp add: bindr_assoc)
qed simp

lemma calc_ops:
  "calc_token env ''+'' (y # x # st) = Inr (d_add env y x # st)"
  "calc_token env ''-'' (y # x # st) = Inr (d_sub env x y # st)"
  "calc_token env ''*'' (y # x # st) = Inr (d_mul env y x # st)"
  "calc_token env ''/'' (y # x # st) = Inr (quotient_of env x y # st)"
  by (auto simp: calc_token_def pop_top_def quotient_of_def)

lemma calc_atom:
  assumes "atom_ok env a"
  shows "calc_token env a st = bindr (value_of env a) (\<lambda>v. Inr (v # st))"
proof -
  have "hd a \<in> set a" using assms by (simp add: atom_ok_def)
  then have "\<not> IsOperator (hd a)" using assms by (simp add: atom_ok_def)
  then have "hd a \<noteq> CHR ''+''" "hd a \<noteq> CHR ''-''" "hd a \<noteq> CHR ''*''" "hd a \<noteq> CHR ''/''" by (auto simp: IsOperator_def)
  then show ?thesis using assms by (auto simp: calc_token_def value_of_def atom_ok_def)
qed

lemma calc_tree:
  assumes "commutes env"
  shows "ok_f env f \<Longrightarrow> calc_loop env (out_f f) st = bindr (eval_f env f) (\<lambda>v. Inr (v # st))"
    "ok_t env t \<Longrightarrow> calc_loop env (out_t t @ pend_t t) st = bindr (eval_t env t) (\<lambda>v. Inr (v # st))"
    "ok_s env s \<Longrightarrow> calc_loop env (out_s s @ pend_s s) st = bindr (eval_s env s) (\<lambda>v. Inr (v # st))"
proof (induction f and t and s arbitrary: st and st and st)
  case (Atom a)
  then show ?case by (simp add: calc_atom bindr_assoc)
next
  case (Mul f g)
  then show ?case using assms by (simp add: calc_append lift2_def bindr_assoc calc_ops commutes_def)
next
  case (Dvd f g)
  then show ?case by (simp add: calc_append lift2_def bindr_assoc calc_ops)
next
  case (Plus s t)
  then have "calc_loop env (out_s s @ pend_s s @ out_t t @ pend_t t @ [''+'']) st =
      bindr (eval_s env s) (\<lambda>x. bindr (eval_t env t) (\<lambda>y. Inr (d_add env y x # st)))"
    by (simp add: calc_append bindr_assoc calc_ops flip: append_assoc)
  then show ?case using assms by (simp add: lift2_def bindr_assoc commutes_def)
next
  case (Minus s t)
  then have "calc_loop env (out_s s @ pend_s s @ out_t t @ pend_t t @ [''-'']) st =
      bindr (eval_s env s) (\<lambda>x. bindr (eval_t env t) (\<lambda>y. Inr (d_sub env x y # st)))"
    by (simp add: calc_append bindr_assoc calc_ops flip: append_assoc)
  then show ?case by (simp add: lift2_def bindr_assoc)
qed simp_all

lemma out_nonempty: "out_f f \<noteq> []" "out_t t \<noteq> []" "out_s e \<noteq> []"
  by (induction f and t and e) auto

lemma print_starts:
  "ok_f env f \<Longrightarrow> concat (toks_f f) \<noteq> [] \<and> hd (concat (toks_f f)) \<noteq> CHR ''-''"
  "ok_t env t \<Longrightarrow> concat (toks_t t) \<noteq> [] \<and> hd (concat (toks_t t)) \<noteq> CHR ''-''"
  "ok_s env s \<Longrightarrow> concat (toks_s s) \<noteq> [] \<and> hd (concat (toks_s s)) \<noteq> CHR ''-''"
proof (induction f and t and s)
  case (Atom a)
  then have "a \<noteq> []" "\<not> IsOperator (hd a)" by (auto simp: atom_ok_def)
  then show ?case by (auto simp: IsOperator_def)
qed (auto simp del: concat_eq_Nil_conv)

lemma reads_no_minus:
  assumes "reads s e" "ok_s env e"
  shows "hd s \<noteq> CHR ''-''"
proof
  assume m: "hd s = CHR ''-''"
  then obtain cs where "s = CHR ''-'' # cs" using assms(1) by (cases s) (auto simp: reads_def)
  then have "filter (\<lambda>c. c \<noteq> CHR '' '') s = CHR ''-'' # filter (\<lambda>c. c \<noteq> CHR '' '') cs" by simp
  then have "hd (print_sum e) = CHR ''-''" using assms(1) unfolding reads_def by (metis list.sel(1))
  then show False using print_starts(3) [OF assms(2)] by (simp add: print_sum_def)
qed

lemma Calculate_reads:
  assumes "commutes env" "ok_s env e" "reads s e"
  shows "Calculate env \<lparr>minus_flag = m, exp_str = s\<rparr> =
     bindr (eval_s env e) (\<lambda>v. Inr (if m then d_neg env v else v))"
proof -
  have suf: "ChangeToSuffix s = out_s e @ pend_s e" by (rule Suffix_reads [OF assms(3,2)])
  show ?thesis
    unfolding Calculate_def using out_nonempty(3) [of e] calc_tree(3) [OF assms(1,2), of "[]"]
    by (simp add: suf bindr_assoc pop_top_def Let_def)
qed

section \<open>Properties\<close>

text \<open>A concrete environment, for the witnesses.\<close>

definition int_env :: "int calc_env" where
  "int_env = \<lparr>d_zero = 0, d_is_zero = (\<lambda>x. x = 0), d_add = (+), d_sub = (-), d_mul = (*), d_div = (div), d_neg = uminus,
     atof = (\<lambda>s. digits_val s 0), IsParamTag = Skill_IsParamTag, GetParamValue = Skill_GetParamValue 7 (\<lambda>n. 100 + n)\<rparr>"

text \<open>
  C25: A formula means what it says: whatever the spaces inside it, a string that reads as a sum
  of terms (each one factor, or one product or quotient of two), with factors in brackets as
  deep as one likes, is evaluated to the value of that tree. A leading minus, however, negates
  the whole formula and not its first term.
\<close>

theorem Calculate_correct:
  assumes "commutes env" "ok_s env e" "reads s e"
  shows "Calculate env (make_formula s) = eval_s env e \<and>
     Calculate env (make_formula (CHR ''-'' # s)) = bindr (eval_s env e) (\<lambda>v. Inr (d_neg env v))"
proof -
  have "hd s \<noteq> CHR ''-''" by (rule reads_no_minus [OF assms(3,2)])
  then have "make_formula s = \<lparr>minus_flag = False, exp_str = s\<rparr>"
    "make_formula (CHR ''-'' # s) = \<lparr>minus_flag = True, exp_str = s\<rparr>"
    using assms(3) by (auto simp: make_formula_def reads_def)
  moreover have "bindr r Inr = r" for r :: "'a res" by (cases r) auto
  ultimately show ?thesis using Calculate_reads [OF assms] by simp
qed

theorem Calculate_correct_witness:
  "Calculate int_env (make_formula ''2*(level + 4)-prop3'') = Inr (-80) \<and>
   Calculate int_env (make_formula ''-2*(level + 4)-prop3'') = Inr 80"
proof -
  let ?e = "Minus (Single (Mul (Atom ''2'') (Paren (Plus (Single (One (Atom ''level''))) (One (Atom ''4'')))))) (One (Atom ''prop3''))"
  have c: "commutes int_env" by (simp add: commutes_def int_env_def)
  have o: "ok_s int_env ?e" "reads ''2*(level + 4)-prop3'' ?e" by code_simp+
  have v: "eval_s int_env ?e = Inr (-80)" by code_simp
  have "d_neg int_env (-80) = 80" by (simp add: int_env_def)
  then show ?thesis using Calculate_correct [OF c o] unfolding v by simp
qed

text \<open>
  A term with two multiplications or divisions in a row, of any three numbers, is not
  evaluated at all: the conversion writes the first operator out a second time and evaluation
  reads the top of an empty stack.
\<close>

theorem Calculate_chain_underflow:
  assumes "atom_tok a" "atom_tok b" "atom_tok c" "IsNumber (hd a)" "IsNumber (hd b)" "IsNumber (hd c)"
    and "o1 = CHR ''*'' \<or> o1 = CHR ''/''" "o2 = CHR ''*'' \<or> o2 = CHR ''/''"
  shows "Calculate env (make_formula (a @ o1 # b @ o2 # c)) = Inl EmptyTop"
proof -
  let ?s = "a @ o1 # b @ o2 # c" and ?ts = "[a, [o1], b, [o2], c]"
  have ok: "atom_ok env a" "atom_ok env b" "atom_ok env c" using assms(1-6) by (auto simp: atom_ok_def atom_tok_def)
  have ops: "op_tok [o1]" "op_tok [o2]" using assms(7,8) by (auto simp: op_tok_def)
  have "good_toks ?ts" using assms(1-3) ops by simp
  from divide_toks [OF this, of "[]" "[]" False False] have "divide_loop ?s [] [] False False = ?ts" by simp
  moreover have "IsBracketMatch ?s"
  proof -
    have na: "\<forall>d \<in> set a. \<not> IsOperator d" "\<forall>d \<in> set b. \<not> IsOperator d" "\<forall>d \<in> set (c @ []). \<not> IsOperator d"
      using assms(1-3) by (auto simp: atom_tok_def)
    have "bracket_loop c [] = True" using bracket_skip [OF na(3), of "[]" "[]"] by simp
    then show ?thesis using assms(7,8) by (auto simp: IsBracketMatch_def bracket_skip [OF na(1)] bracket_skip [OF na(2)])
  qed
  ultimately have div: "DivideExpression ?s = ?ts" by (simp add: DivideExpression_def)
  have "suffix_loop ?ts [] [] = ([c, [o1], b, a], [[o2], [o1]])"
  proof -
    have "suffix_loop ?ts [] [] = suffix_loop [b, [o2], c] [a] [[o1]]"
      using suffix_atom [OF ok(1)] suffix_md [of "[o1]" "[]"] assms(7) by (auto simp: at_term_def)
    also have "\<dots> = suffix_loop [[o2], c] [b, a] [[o1]]" using suffix_atom [OF ok(2)] by blast
    also have "\<dots> = suffix_loop [c] [[o1], b, a] [[o2], [o1]]" using assms(7,8) by (auto simp: suffix_loop.simps(2))
    also have "\<dots> = ([c, [o1], b, a], [[o2], [o1]])" by (simp add: suffix_atom [OF ok(3)])
    finally show ?thesis .
  qed
  then have suf: "ChangeToSuffix ?s = [a, b, [o1], c, [o2], [o1]]"
    using div assms(7,8) by (auto simp: ChangeToSuffix_def)
  have val: "calc_token env x st = Inr (atof env x # st)" if "atom_ok env x" "IsNumber (hd x)" for x st
    using calc_atom [OF that(1)] that(2) by (simp add: value_of_def)
  have two: "\<exists>v. calc_token env [o'] (y # x # st) = Inr (v # st)" if "o' = CHR ''*'' \<or> o' = CHR ''/''" for o' x y st
  proof (cases "o' = CHR ''*''")
    case True
    then show ?thesis using calc_ops(3) [of env y x st] by metis
  next
    case False
    then have "o' = CHR ''/''" using that by blast
    then show ?thesis using calc_ops(4) [of env y x st] by metis
  qed
  have one: "calc_token env [o'] [y] = Inl EmptyTop \<or> calc_token env [o'] [y] = Inr []"
    if "o' = CHR ''*'' \<or> o' = CHR ''/''" for o' y
    using that by (auto simp: calc_token_def pop_top_def)
  obtain v where v: "calc_token env [o1] [atof env b, atof env a] = Inr [v]" using two [OF assms(7)] by blast
  obtain w where w: "calc_token env [o2] [atof env c, v] = Inr [w]" using two [OF assms(8)] by blast
  have hd: "hd ?s \<noteq> CHR ''-''"
    using assms(1,4) by (cases a) (auto simp: atom_tok_def IsNumber_def)
  then have "make_formula ?s = \<lparr>minus_flag = False, exp_str = ?s\<rparr>" by (simp add: make_formula_def)
  then show ?thesis using one [OF assms(7), of w] v w val ok assms(4-6)
    by (auto simp: Calculate_def suf Let_def pop_top_def)
qed

theorem Calculate_chain_underflow_witness: "Calculate int_env (make_formula ''2*3*4'') = Inl EmptyTop"
proof -
  have "atom_tok ''2''" "atom_tok ''3''" "atom_tok ''4''" "IsNumber (hd ''2'')" "IsNumber (hd ''3'')" "IsNumber (hd ''4'')"
    by (auto simp: atom_tok_def IsNumber_def IsOperator_def)
  from Calculate_chain_underflow [OF this, of "CHR ''*''" "CHR ''*''" int_env] show ?thesis by simp
qed

end
