(* ===== verification/BehaviorTree.thy ===== *)
theory BehaviorTree
  imports Prelude "HOL-Library.Signed_Division"
begin

text \<open>
  \<open>utility_lib/BTLib\<close>: the behaviour trees of area events. A tree is loaded from XML, its nodes
  know their parent, and a run walks the nodes by calls down (\<open>executeDbg\<close>) and up (\<open>update\<close>).
  The XML parser, the scripts behind the leaves and the blackboard are an environment.
\<close>

section \<open>Nodes and trees\<close>

datatype node_status = START | FAILURE | SUCCESS | EXECUTING

datatype leaf_class = ActionLeaf | ConditionLeaf

record bt_leaf =
  leaf_kind :: leaf_class
  operation :: string
  scriptName :: string
  scriptFunc :: string

datatype node_kind = LinkNode | SelecNode | SeqNode | LeafNode bt_leaf

text \<open>
  A pointer to a node is a number; the iterator \<open>itChild\<close> is an index into \<open>children\<close> and
  indeterminate until the tree is initialised.
\<close>

record bt_node =
  kind :: node_kind
  parent_of :: "nat option"
  children :: "nat list"
  node_id :: int
  nodeStatus :: node_status
  itChild :: nat

datatype bt_state = BTST_NONDEF | BTST_IDLE | BTST_EXECUTING

text \<open>\<open>world\<close> is what the leaves act on: the scripts' state and the blackboard.\<close>

record 'w behavior_tree =
  nodes :: "nat \<Rightarrow> bt_node"
  fresh :: nat
  nodesOfTree :: "int \<Rightarrow> (int \<times> nat) list"
  isInited :: bool
  btState :: bt_state
  curDeep :: int
  curIndex :: int
  world :: 'w

record 'w bt_env =
  stepInto :: "bt_leaf \<Rightarrow> 'w \<Rightarrow> node_status \<times> 'w"
  leaf_init :: "bt_leaf \<Rightarrow> 'w \<Rightarrow> 'w"
  leaf_reset :: "bt_leaf \<Rightarrow> 'w \<Rightarrow> 'w"
  blackboard_reset :: "'w \<Rightarrow> 'w"

definition u8 :: "int \<Rightarrow> int" where
  "u8 x = x mod 256"

definition set_node :: "nat \<Rightarrow> (bt_node \<Rightarrow> bt_node) \<Rightarrow> 'w behavior_tree \<Rightarrow> 'w behavior_tree" where
  "set_node p f s = s\<lparr>nodes := (nodes s)(p := f (nodes s p))\<rparr>"

definition new_node :: "node_kind \<Rightarrow> nat option \<Rightarrow> bt_node" where
  "new_node k par = \<lparr>kind = k, parent_of = par, children = [], node_id = -1, nodeStatus = START, itChild = 0\<rparr>"

text \<open>The root is the first node made.\<close>

definition root_ptr :: nat where "root_ptr = 0"

definition BehaviorTree_init :: "'w \<Rightarrow> 'w behavior_tree" where
  "BehaviorTree_init w = \<lparr>nodes = (\<lambda>_. new_node LinkNode None), fresh = 1, nodesOfTree = (\<lambda>_. [])(0 := [(0, root_ptr)]),
     isInited = False, btState = BTST_NONDEF, curDeep = 0, curIndex = 0, world = w\<rparr>"

definition setCurrentNode :: "int \<Rightarrow> 'w behavior_tree \<Rightarrow> 'w behavior_tree" where
  "setCurrentNode i s = s\<lparr>curDeep := u8 (i sdiv 100), curIndex := u8 (i smod 100)\<rparr>"

definition addNode :: "nat \<Rightarrow> int \<Rightarrow> nat \<Rightarrow> 'w behavior_tree \<Rightarrow> (int \<times> 'w behavior_tree) res" where
  "addNode par deep node s =
     assertx (\<not> isInited s) (
       let level = nodesOfTree s (u8 deep); index = u8 (int (length level))
       in assertx (map_of level index = None)
            (Inr (index, set_node par (\<lambda>n. n\<lparr>children := children n @ [node]\<rparr>)
               (s\<lparr>nodesOfTree := (nodesOfTree s)(u8 deep := smap_put index node level)\<rparr>))))"

section \<open>Execution\<close>

text \<open>
  Every call of a node to its child or parent is the last thing its function does, so a run is a
  sequence of calls, each doing its work and naming the next one.
\<close>

datatype bt_call = ExecuteDbg nat | UpdateNode nat node_status

definition leaf_step :: "'w bt_env \<Rightarrow> bt_leaf \<Rightarrow> 'w \<Rightarrow> node_status \<times> 'w" where
  "leaf_step env l w = (case leaf_kind l of
     ActionLeaf \<Rightarrow> (SUCCESS, snd (stepInto env l w))
   | ConditionLeaf \<Rightarrow> stepInto env l w)"

definition to_parent :: "nat \<Rightarrow> node_status \<Rightarrow> 'w behavior_tree \<Rightarrow> ('w behavior_tree \<times> bt_call option) res" where
  "to_parent p st s = (case parent_of (nodes s p) of None \<Rightarrow> Inl NullDeref | Some q \<Rightarrow> Inr (s, Some (UpdateNode q st)))"

definition first_child :: "nat \<Rightarrow> 'w behavior_tree \<Rightarrow> ('w behavior_tree \<times> bt_call option) res" where
  "first_child p s = (case children (nodes s p) of [] \<Rightarrow> Inl OutOfRange
     | c # _ \<Rightarrow> Inr (set_node p (\<lambda>n. n\<lparr>itChild := 0\<rparr>) s, Some (ExecuteDbg c)))"

definition LinkNode_execute :: "nat \<Rightarrow> 'w behavior_tree \<Rightarrow> ('w behavior_tree \<times> bt_call option) res" where
  "LinkNode_execute p s = assertx (length (children (nodes s p)) \<le> 1) (first_child p s)"

definition SelecNode_execute :: "nat \<Rightarrow> 'w behavior_tree \<Rightarrow> ('w behavior_tree \<times> bt_call option) res" where
  "SelecNode_execute p s = assertx (children (nodes s p) \<noteq> []) (first_child p s)"

definition SeqNode_execute :: "nat \<Rightarrow> 'w behavior_tree \<Rightarrow> ('w behavior_tree \<times> bt_call option) res" where
  "SeqNode_execute p s = assertx (children (nodes s p) \<noteq> []) (first_child p s)"

definition LeafNode_execute :: "'w bt_env \<Rightarrow> bt_leaf \<Rightarrow> nat \<Rightarrow> 'w behavior_tree \<Rightarrow> ('w behavior_tree \<times> bt_call option) res" where
  "LeafNode_execute env l p s =
     (case leaf_step env l (world s) of (st, w) \<Rightarrow>
        let s1 = set_node p (\<lambda>n. n\<lparr>nodeStatus := st\<rparr>) (s\<lparr>world := w\<rparr>)
        in if st = SUCCESS \<or> st = FAILURE then to_parent p st s1 else Inl AssertFail)"

definition executeDbg :: "'w bt_env \<Rightarrow> nat \<Rightarrow> 'w behavior_tree \<Rightarrow> ('w behavior_tree \<times> bt_call option) res" where
  "executeDbg env p s =
     (let s1 = setCurrentNode (node_id (nodes s p)) (set_node p (\<lambda>n. n\<lparr>nodeStatus := EXECUTING\<rparr>) s)
      in case kind (nodes s p) of
           LinkNode \<Rightarrow> LinkNode_execute p s1
         | SelecNode \<Rightarrow> SelecNode_execute p s1
         | SeqNode \<Rightarrow> SeqNode_execute p s1
         | LeafNode l \<Rightarrow> LeafNode_execute env l p s1)"

definition LinkNode_update :: "nat \<Rightarrow> 'w behavior_tree \<Rightarrow> ('w behavior_tree \<times> bt_call option) res" where
  "LinkNode_update p s = Inr (setCurrentNode (node_id (nodes s p)) s, None)"

definition finish :: "nat \<Rightarrow> node_status \<Rightarrow> 'w behavior_tree \<Rightarrow> ('w behavior_tree \<times> bt_call option) res" where
  "finish p st s = to_parent p st (set_node p (\<lambda>n. n\<lparr>itChild := 0, nodeStatus := st\<rparr>) s)"

definition SeqNode_update :: "nat \<Rightarrow> node_status \<Rightarrow> 'w behavior_tree \<Rightarrow> ('w behavior_tree \<times> bt_call option) res" where
  "SeqNode_update p result s =
     (let s1 = setCurrentNode (node_id (nodes s p)) s;
          s2 = (if result \<noteq> EXECUTING then set_node p (\<lambda>n. n\<lparr>itChild := itChild n + 1\<rparr>) s1 else s1);
          n = nodes s2 p
      in if result = SUCCESS then
           (if itChild n \<noteq> length (children n) then
              (if itChild n > length (children n) then Inl OutOfRange else Inr (s2, Some (ExecuteDbg (children n ! itChild n))))
            else finish p SUCCESS s2)
         else if result = FAILURE then finish p FAILURE s2
         else Inr (s2, None))"

definition SelecNode_update :: "nat \<Rightarrow> node_status \<Rightarrow> 'w behavior_tree \<Rightarrow> ('w behavior_tree \<times> bt_call option) res" where
  "SelecNode_update p result s =
     (let s1 = setCurrentNode (node_id (nodes s p)) s;
          s2 = (if result \<noteq> EXECUTING then set_node p (\<lambda>n. n\<lparr>itChild := itChild n + 1\<rparr>) s1 else s1);
          n = nodes s2 p
      in if result = FAILURE then
           (if itChild n \<noteq> length (children n) then
              (if itChild n > length (children n) then Inl OutOfRange else Inr (s2, Some (ExecuteDbg (children n ! itChild n))))
            else finish p FAILURE s2)
         else if result = SUCCESS then finish p SUCCESS s2
         else Inr (s2, None))"

fun bt_step :: "'w bt_env \<Rightarrow> 'w behavior_tree \<Rightarrow> bt_call \<Rightarrow> ('w behavior_tree \<times> bt_call option) res" where
  "bt_step env s (ExecuteDbg p) = executeDbg env p s"
| "bt_step env s (UpdateNode p result) =
     (case kind (nodes s p) of
        LinkNode \<Rightarrow> LinkNode_update p s
      | SelecNode \<Rightarrow> SelecNode_update p result s
      | SeqNode \<Rightarrow> SeqNode_update p result s
      | LeafNode l \<Rightarrow> Inr (s, None))"

partial_function (option) drive :: "'w bt_env \<Rightarrow> 'w behavior_tree \<Rightarrow> bt_call \<Rightarrow> 'w behavior_tree res option" where
  "drive env s c =
     (case bt_step env s c of
        Inl e \<Rightarrow> Some (Inl e)
      | Inr (s', nxt) \<Rightarrow> (case nxt of None \<Rightarrow> Some (Inr s') | Some c' \<Rightarrow> drive env s' c'))"

declare drive.simps [code]

definition initRuntimeData :: "nat \<Rightarrow> 'w behavior_tree \<Rightarrow> 'w behavior_tree" where
  "initRuntimeData p = set_node p (\<lambda>n. n\<lparr>nodeStatus := START, itChild := length (children n)\<rparr>)"

definition resetRuntimeData :: "nat \<Rightarrow> 'w behavior_tree \<Rightarrow> 'w behavior_tree" where
  "resetRuntimeData p = set_node p (\<lambda>n. n\<lparr>nodeStatus := START, itChild := length (children n)\<rparr>)"

text \<open>The loop over the children with the recursive call on each; \<open>after\<close> is what follows it.\<close>

partial_function (option) visitChildren ::
    "(nat \<Rightarrow> 'w behavior_tree \<Rightarrow> 'w behavior_tree) \<Rightarrow> nat list \<Rightarrow> 'w behavior_tree \<Rightarrow> 'w behavior_tree option" where
  "visitChildren after cs s =
     (case cs of [] \<Rightarrow> Some s
      | c # cs' \<Rightarrow> Option.bind (visitChildren after (children (nodes s c)) s) (\<lambda>s1. visitChildren after cs' (after c s1)))"

declare visitChildren.simps [code]

definition virtual_hook :: "(bt_leaf \<Rightarrow> 'w \<Rightarrow> 'w) \<Rightarrow> nat \<Rightarrow> 'w behavior_tree \<Rightarrow> 'w behavior_tree" where
  "virtual_hook f p s = (case kind (nodes s p) of LeafNode l \<Rightarrow> s\<lparr>world := f l (world s)\<rparr> | _ \<Rightarrow> s)"

definition initNodes :: "'w bt_env \<Rightarrow> nat \<Rightarrow> 'w behavior_tree \<Rightarrow> 'w behavior_tree option" where
  "initNodes env p s = Option.bind
     (visitChildren (\<lambda>c s1. virtual_hook (leaf_init env) c (initRuntimeData c s1)) (children (nodes s p)) s)
     (\<lambda>s1. Some (initRuntimeData p s1))"

definition resetNodes :: "'w bt_env \<Rightarrow> nat \<Rightarrow> 'w behavior_tree \<Rightarrow> 'w behavior_tree option" where
  "resetNodes env p s = Option.bind
     (visitChildren (\<lambda>c s1. virtual_hook (leaf_reset env) c (resetRuntimeData c s1)) (children (nodes s p)) s)
     (\<lambda>s1. Some (resetRuntimeData p s1))"

definition initTree :: "'w bt_env \<Rightarrow> 'w behavior_tree \<Rightarrow> 'w behavior_tree option" where
  "initTree env s = Option.bind (initNodes env root_ptr s) (\<lambda>s1. Some (s1\<lparr>isInited := True, btState := BTST_IDLE\<rparr>))"

definition BehaviorTree_reset :: "'w bt_env \<Rightarrow> 'w behavior_tree \<Rightarrow> 'w behavior_tree option" where
  "BehaviorTree_reset env s = Option.bind (resetNodes env root_ptr s) (\<lambda>s1.
     Some (s1\<lparr>curDeep := 0, curIndex := 0, btState := BTST_IDLE, world := blackboard_reset env (world s1)\<rparr>))"

definition BehaviorTree_execute :: "'w bt_env \<Rightarrow> 'w behavior_tree \<Rightarrow> (node_status \<times> 'w behavior_tree) res option" where
  "BehaviorTree_execute env s =
     Option.bind (if \<not> isInited s then initTree env s else Some s) (\<lambda>s1.
       if children (nodes s1 root_ptr) \<noteq> [] \<and> btState s1 = BTST_IDLE then
         Option.bind (drive env (s1\<lparr>btState := BTST_EXECUTING\<rparr>) (ExecuteDbg root_ptr)) (\<lambda>r.
           case r of
             Inl e \<Rightarrow> Some (Inl e)
           | Inr s2 \<Rightarrow>
               (case map_of (nodesOfTree s2 (curDeep s2)) (curIndex s2) of
                  None \<Rightarrow> Some (Inl NullDeref)
                | Some p \<Rightarrow> Option.bind (BehaviorTree_reset env s2) (\<lambda>s3. Some (Inr (nodeStatus (nodes s2 p), s3)))))
       else Some (Inr (START, s1)))"

section \<open>Loading a tree\<close>

text \<open>
  The leaf classes a factory knows by name. An XML element has the attributes the loader reads
  (the parser gives an empty string for a missing one, and 0 for a missing number) and its child
  elements named \<open>Node\<close>.
\<close>

type_synonym leaf_factory = "string \<Rightarrow> leaf_class option"

definition Register :: "string \<Rightarrow> leaf_class \<Rightarrow> leaf_factory \<Rightarrow> leaf_factory res" where
  "Register name creator f = assertx (f name = None) (Inr (f(name \<mapsto> creator)))"

definition UnRegister :: "string \<Rightarrow> leaf_factory \<Rightarrow> leaf_factory res" where
  "UnRegister name f = assertx (f name \<noteq> None) (Inr (f(name := None)))"

definition IsRegistered :: "string \<Rightarrow> leaf_factory \<Rightarrow> bool" where
  "IsRegistered name f \<longleftrightarrow> f name \<noteq> None"

definition GetCreator :: "string \<Rightarrow> leaf_factory \<Rightarrow> leaf_class res" where
  "GetCreator name f = (case f name of None \<Rightarrow> Inl AssertFail | Some c \<Rightarrow> Inr c)"

definition registerDefaultLeafNodes :: "leaf_factory \<Rightarrow> leaf_factory res" where
  "registerDefaultLeafNodes f =
     bindr (Register ''Nop'' ActionLeaf f) (\<lambda>f1.
     bindr (Register ''ConditionSuccessful'' ConditionLeaf f1)
       (Register ''ConditionFailure'' ConditionLeaf))"

text \<open>What the three default classes do.\<close>

definition default_stepInto :: "(bt_leaf \<Rightarrow> 'w \<Rightarrow> node_status \<times> 'w) \<Rightarrow> bt_leaf \<Rightarrow> 'w \<Rightarrow> node_status \<times> 'w" where
  "default_stepInto other l w =
     (if operation l = ''Nop'' \<or> operation l = ''ConditionSuccessful'' then (SUCCESS, w)
      else if operation l = ''ConditionFailure'' then (FAILURE, w)
      else other l w)"

datatype xml_node = XNode (xml_type: string) (xml_id: int) (xml_operation: string) (xml_script: string) (xml_func: string)
  (xml_children: "xml_node list")

definition insertTreeNode :: "nat \<Rightarrow> int \<Rightarrow> nat \<Rightarrow> int \<Rightarrow> 'w behavior_tree \<Rightarrow> 'w behavior_tree res" where
  "insertTreeNode par deep node xid s =
     bindr (addNode par deep node s) (\<lambda>(index, s1).
       let t_nodeId = deep * 100 + index;
           s2 = set_node node (\<lambda>n. n\<lparr>node_id := i16 t_nodeId\<rparr>) s1
       in assertx (xid = t_nodeId) (Inr s2))"

definition alloc_node :: "node_kind \<Rightarrow> nat \<Rightarrow> 'w behavior_tree \<Rightarrow> nat \<times> 'w behavior_tree" where
  "alloc_node k par s =
     (fresh s, s\<lparr>nodes := (nodes s)(fresh s := new_node k (Some par)), fresh := fresh s + 1\<rparr>)"

definition is_leaf_type :: "string \<Rightarrow> bool" where
  "is_leaf_type ty \<longleftrightarrow> ty = ''Condition'' \<or> ty = ''Action''"

text \<open>
  An unknown type throws a \<open>std::string\<close> (the file's \<open>runtime_error\<close>), which the handler of
  \<open>Load\<close>, for \<open>char*\<close>, does not catch.
\<close>

fun loadRecur :: "leaf_factory \<Rightarrow> nat \<Rightarrow> int \<Rightarrow> xml_node \<Rightarrow> 'w behavior_tree \<Rightarrow> 'w behavior_tree res"
  and loadChildren :: "leaf_factory \<Rightarrow> nat \<Rightarrow> int \<Rightarrow> xml_node list \<Rightarrow> 'w behavior_tree \<Rightarrow> 'w behavior_tree res" where
  "loadRecur f par deep (XNode ty xid op sn sf subs) s =
     (if is_leaf_type ty then
        assertx (IsRegistered op f) (
          bindr (GetCreator op f) (\<lambda>c.
            let (node, s1) = alloc_node (LeafNode \<lparr>leaf_kind = c, operation = op, scriptName = sn, scriptFunc = sf\<rparr>) par s
            in insertTreeNode par deep node xid s1))
      else
        bindr (if ty = ''Root'' then
                 let s1 = set_node par (\<lambda>n. n\<lparr>node_id := 0\<rparr>) s in assertx (xid = 0) (Inr (par, s1))
               else if ty = ''Selector'' \<or> ty = ''Sequence'' then
                 let (node, s1) = alloc_node (if ty = ''Selector'' then SelecNode else SeqNode) par s
                 in bindr (insertTreeNode par deep node xid s1) (\<lambda>s2. Inr (node, s2))
               else if ty = ''Filter'' then Inr (par, s)
               else Inl Uncaught)
          (\<lambda>(next_level, s2). assertx (subs \<noteq> []) (loadChildren f next_level (deep + 1) subs s2)))"
| "loadChildren f par deep [] s = Inr s"
| "loadChildren f par deep (x # xs) s = bindr (loadRecur f par deep x s) (\<lambda>s1. loadChildren f par deep xs s1)"

record bt_loader =
  loader_inited :: bool
  leafFactory :: leaf_factory

definition Loader_Init :: "leaf_factory \<Rightarrow> bt_loader \<Rightarrow> bt_loader res" where
  "Loader_Init f l = assertx (\<not> loader_inited l) (Inr \<lparr>loader_inited = True, leafFactory = f\<rparr>)"

text \<open>A document is the list of \<open>Node\<close> elements of its \<open>BehaviorTree\<close> element, if it has one.\<close>

definition LoadTree :: "bt_loader \<Rightarrow> xml_node list option \<Rightarrow> 'w \<Rightarrow> 'w behavior_tree option res" where
  "LoadTree l doc w =
     assertx (loader_inited l)
       (case doc of
          None \<Rightarrow> Inr None
        | Some [] \<Rightarrow> Inr None
        | Some (element # _) \<Rightarrow>
            bindr (loadRecur (leafFactory l) root_ptr 0 element (BehaviorTree_init w)) (\<lambda>s. Inr (Some s)))"

section \<open>What a tree means\<close>

datatype 'p beh = BLeaf 'p bt_leaf | BSeq 'p "'p beh list" | BSel 'p "'p beh list"

text \<open>
  Children run in order while they answer \<open>go\<close>; a sequence goes on after a success, a selector
  after a failure.
\<close>

fun eval :: "'w bt_env \<Rightarrow> 'p beh \<Rightarrow> 'w \<Rightarrow> node_status \<times> 'w"
  and eval_many :: "'w bt_env \<Rightarrow> node_status \<Rightarrow> 'p beh list \<Rightarrow> 'w \<Rightarrow> node_status \<times> 'w" where
  "eval env (BLeaf p l) w = leaf_step env l w"
| "eval env (BSeq p ts) w = eval_many env SUCCESS ts w"
| "eval env (BSel p ts) w = eval_many env FAILURE ts w"
| "eval_many env go [] w = (go, w)"
| "eval_many env go (t # ts) w =
     (case eval env t w of (st, w') \<Rightarrow> if st = go then eval_many env go ts w' else (st, w'))"

text \<open>The leaves of a tree, left to right, and its nodes.\<close>

primrec leaves :: "'p beh \<Rightarrow> bt_leaf list" where
  "leaves (BLeaf p l) = [l]"
| "leaves (BSeq p ts) = concat (map leaves ts)"
| "leaves (BSel p ts) = concat (map leaves ts)"

primrec ptrs :: "'p beh \<Rightarrow> 'p list" where
  "ptrs (BLeaf p l) = [p]"
| "ptrs (BSeq p ts) = p # concat (map ptrs ts)"
| "ptrs (BSel p ts) = p # concat (map ptrs ts)"

primrec top_ptr :: "'p beh \<Rightarrow> 'p" where
  "top_ptr (BLeaf p l) = p" | "top_ptr (BSeq p ts) = p" | "top_ptr (BSel p ts) = p"

text \<open>The trees an XML element adds to its parent; a filter and a nested root only pass theirs on.\<close>

fun behs_of :: "leaf_factory \<Rightarrow> xml_node \<Rightarrow> unit beh list" where
  "behs_of f (XNode ty xid op sn sf subs) =
     (if is_leaf_type ty then
        [BLeaf () \<lparr>leaf_kind = the (f op), operation = op, scriptName = sn, scriptFunc = sf\<rparr>]
      else if ty = ''Selector'' then [BSel () (concat (map (behs_of f) subs))]
      else if ty = ''Sequence'' then [BSeq () (concat (map (behs_of f) subs))]
      else concat (map (behs_of f) subs))"

text \<open>A part of the node store is a tree.\<close>

fun bt_rep :: "(nat \<Rightarrow> bt_node) \<Rightarrow> nat option \<Rightarrow> nat beh \<Rightarrow> bool" where
  "bt_rep nd q (BLeaf p l) \<longleftrightarrow> kind (nd p) = LeafNode l \<and> parent_of (nd p) = q \<and> children (nd p) = []"
| "bt_rep nd q (BSeq p ts) \<longleftrightarrow> kind (nd p) = SeqNode \<and> parent_of (nd p) = q \<and> children (nd p) = map top_ptr ts \<and> ts \<noteq> [] \<and>
     (\<forall>t \<in> set ts. bt_rep nd (Some p) t)"
| "bt_rep nd q (BSel p ts) \<longleftrightarrow> kind (nd p) = SelecNode \<and> parent_of (nd p) = q \<and> children (nd p) = map top_ptr ts \<and> ts \<noteq> [] \<and>
     (\<forall>t \<in> set ts. bt_rep nd (Some p) t)"

text \<open>A condition answers success or failure.\<close>

definition steps_ok :: "'w bt_env \<Rightarrow> bool" where
  "steps_ok env \<longleftrightarrow> (\<forall>l w. leaf_kind l = ConditionLeaf \<longrightarrow> fst (stepInto env l w) \<in> {SUCCESS, FAILURE})"

section \<open>A run of a tree\<close>

definition shape :: "bt_node \<Rightarrow> node_kind \<times> nat option \<times> nat list \<times> int" where
  "shape n = (kind n, parent_of n, children n, node_id n)"

definition frame :: "nat set \<Rightarrow> 'w behavior_tree \<Rightarrow> 'w behavior_tree \<Rightarrow> bool" where
  "frame A s s' \<longleftrightarrow> (\<forall>p. shape (nodes s' p) = shape (nodes s p)) \<and> (\<forall>p. p \<notin> A \<longrightarrow> nodes s' p = nodes s p) \<and>
     fresh s' = fresh s \<and> nodesOfTree s' = nodesOfTree s \<and> isInited s' = isInited s \<and> btState s' = btState s"

lemma frame_refl: "frame A s s" by (simp add: frame_def)

lemma frame_trans: "frame A s s' \<Longrightarrow> frame B s' s'' \<Longrightarrow> A \<subseteq> C \<Longrightarrow> B \<subseteq> C \<Longrightarrow> frame C s s''"
  unfolding frame_def by (metis subsetD)

lemma frame_set: "p \<in> A \<Longrightarrow> shape (f (nodes s p)) = shape (nodes s p) \<Longrightarrow> frame A s (set_node p f s)"
  by (simp add: frame_def set_node_def)

lemma frame_cur: "frame A s (setCurrentNode i s)"
  by (simp add: frame_def setCurrentNode_def)

lemma frame_fields:
  assumes "frame A s s'"
  shows "kind (nodes s' p) = kind (nodes s p)" "parent_of (nodes s' p) = parent_of (nodes s p)"
    "children (nodes s' p) = children (nodes s p)" "node_id (nodes s' p) = node_id (nodes s p)"
  using assms by (auto simp: frame_def shape_def)

lemma frame_off: "frame A s s' \<Longrightarrow> p \<notin> A \<Longrightarrow> nodes s' p = nodes s p"
  by (simp add: frame_def)

lemma bt_rep_shape: "(\<And>p. shape (nd' p) = shape (nd p)) \<Longrightarrow> bt_rep nd q t \<Longrightarrow> bt_rep nd' q t"
  by (induction t arbitrary: q) (auto simp: shape_def)

lemma frame_rep: "frame A s s' \<Longrightarrow> bt_rep (nodes s) q t \<Longrightarrow> bt_rep (nodes s') q t"
  by (rule bt_rep_shape) (auto simp: frame_def)

lemma leaf_step_ok: "steps_ok env \<Longrightarrow> leaf_step env l w = (st, w') \<Longrightarrow> st = SUCCESS \<or> st = FAILURE"
  by (auto simp: leaf_step_def steps_ok_def split: leaf_class.splits) (metis fst_conv)

lemma drive_step:
  "bt_step env s c = Inr (s', Some c') \<Longrightarrow> drive env s c = drive env s' c'"
  "bt_step env s c = Inr (s', None) \<Longrightarrow> drive env s c = Some (Inr s')"
  "bt_step env s c = Inl e \<Longrightarrow> drive env s c = Some (Inl e)"
  by (subst drive.simps, simp)+

text \<open>Sequences and selectors are the same machine with a different answer to go on.\<close>

definition go_of :: "node_kind \<Rightarrow> node_status" where
  "go_of k = (if k = SeqNode then SUCCESS else FAILURE)"

lemma inner_update:
  assumes "kind (nodes s p) = k" "k = SeqNode \<or> k = SelecNode" "st = SUCCESS \<or> st = FAILURE" "parent_of (nodes s p) = Some q"
    and "itChild (nodes s p) < length (children (nodes s p))"
  shows "\<exists>s'. frame {p} s s' \<and> world s' = world s \<and>
     (if st = go_of k \<and> Suc (itChild (nodes s p)) < length (children (nodes s p)) then
        itChild (nodes s' p) = Suc (itChild (nodes s p)) \<and>
        bt_step env s (UpdateNode p st) = Inr (s', Some (ExecuteDbg (children (nodes s p) ! Suc (itChild (nodes s p)))))
      else bt_step env s (UpdateNode p st) = Inr (s', Some (UpdateNode q st)))"
proof -
  let ?it = "itChild (nodes s p)" and ?n = "length (children (nodes s p))"
  let ?s1 = "setCurrentNode (node_id (nodes s p)) s"
  let ?s2 = "set_node p (\<lambda>n. n\<lparr>itChild := itChild n + 1\<rparr>) ?s1"
  let ?s3 = "set_node p (\<lambda>n. n\<lparr>itChild := 0, nodeStatus := st\<rparr>) ?s2"
  have f2: "frame {p} s ?s2"
    by (rule frame_trans [OF frame_cur [of "{p}"] frame_set [of p "{p}"]]) (auto simp: shape_def)
  have f3: "frame {p} s ?s3"
    by (rule frame_trans [OF f2 frame_set [of p "{p}"]]) (auto simp: shape_def)
  have n2: "nodes ?s2 p = (nodes s p)\<lparr>itChild := Suc ?it\<rparr>" by (simp add: set_node_def setCurrentNode_def)
  have w: "world ?s2 = world s" "world ?s3 = world s" by (simp_all add: set_node_def setCurrentNode_def)
  have fin: "finish p st ?s2 = Inr (?s3, Some (UpdateNode q st))"
    using assms(4) by (simp add: finish_def to_parent_def set_node_def setCurrentNode_def)
  have go: "bt_step env s (UpdateNode p st) =
      (if st = go_of k then (if Suc ?it \<noteq> ?n then Inr (?s2, Some (ExecuteDbg (children (nodes s p) ! Suc ?it))) else finish p st ?s2)
       else finish p st ?s2)"
    using assms(1-3,5) n2 by (auto simp: go_of_def SeqNode_update_def SelecNode_update_def Let_def)
  show ?thesis
  proof (cases "st = go_of k \<and> Suc ?it < ?n")
    case True
    then show ?thesis using f2 w n2 go by (intro exI [of _ ?s2]) auto
  next
    case False
    then have "bt_step env s (UpdateNode p st) = Inr (?s3, Some (UpdateNode q st))"
      using go fin assms(5) by (auto split: if_splits)
    then show ?thesis using f3 w False by (intro exI [of _ ?s3]) auto
  qed
qed

text \<open>What a call of a subtree does: \<open>s'\<close> calls the parent with its value, having touched only its own nodes.\<close>

definition returns :: "'w bt_env \<Rightarrow> 'w behavior_tree \<Rightarrow> bt_call \<Rightarrow> nat set \<Rightarrow> nat \<Rightarrow> node_status \<times> 'w \<Rightarrow> bool" where
  "returns env s c A q r \<longleftrightarrow> (fst r = SUCCESS \<or> fst r = FAILURE) \<and>
     (\<exists>s'. drive env s c = drive env s' (UpdateNode q (fst r)) \<and> frame A s s' \<and> world s' = snd r)"

definition tree_ok :: "'w bt_env \<Rightarrow> nat beh \<Rightarrow> bool" where
  "tree_ok env t \<longleftrightarrow> (\<forall>s q. bt_rep (nodes s) (Some q) t \<longrightarrow> distinct (ptrs t) \<longrightarrow>
     returns env s (ExecuteDbg (top_ptr t)) (set (ptrs t)) q (eval env t (world s)))"

lemma returns_step:
  assumes "bt_step env s c = Inr (s1, Some c1)" "frame A s s1" "world s1 = world s" "returns env s1 c1 A q r"
  shows "returns env s c A q r"
  using assms drive_step(1) [OF assms(1)] unfolding returns_def by (metis frame_trans order_refl)

lemma child_runs:
  assumes "tree_ok env t" "bt_rep (nodes s) (Some p) t" "distinct (ptrs t)" "eval env t (world s) = (st, w)"
  obtains s1 where "drive env s (ExecuteDbg (top_ptr t)) = drive env s1 (UpdateNode p st)" "frame (set (ptrs t)) s s1"
    "world s1 = w" "st = SUCCESS \<or> st = FAILURE"
  using assms unfolding tree_ok_def returns_def by (metis fst_conv snd_conv)

lemma run_children:
  assumes "\<forall>t \<in> set (t # ts). tree_ok env t" "kind (nodes s p) = k" "k = SeqNode \<or> k = SelecNode"
    and "parent_of (nodes s p) = Some q" "drop (itChild (nodes s p)) (children (nodes s p)) = map top_ptr (t # ts)"
    and "\<forall>t \<in> set (t # ts). bt_rep (nodes s) (Some p) t" "distinct (p # concat (map ptrs (t # ts)))"
    and "insert p (set (concat (map ptrs (t # ts)))) \<subseteq> A"
  shows "returns env s (ExecuteDbg (top_ptr t)) A q (eval_many env (go_of k) (t # ts) (world s))"
  using assms
proof (induction ts arbitrary: t s)
  case (Nil t s)
  obtain st w where ev: "eval env t (world s) = (st, w)" by fastforce
  obtain s1 where s1: "drive env s (ExecuteDbg (top_ptr t)) = drive env s1 (UpdateNode p st)" "frame (set (ptrs t)) s s1"
    "world s1 = w" and st: "st = SUCCESS \<or> st = FAILURE"
    using child_runs [OF _ _ _ ev, of p] Nil.prems(1,6,7) by auto
  have p: "nodes s1 p = nodes s p" using frame_off [OF s1(2)] Nil.prems(7) by simp
  have len: "length (children (nodes s p)) = Suc (itChild (nodes s p))"
    using arg_cong [OF Nil.prems(5), of length] by simp
  obtain s2 where s2: "frame {p} s1 s2" "world s2 = w" "bt_step env s1 (UpdateNode p st) = Inr (s2, Some (UpdateNode q st))"
    using inner_update [of s1 p k st q env] Nil.prems(2-4) st p len s1(3) by auto
  have "frame A s s2" using frame_trans [OF s1(2) s2(1)] Nil.prems(8) by auto
  then show ?case using s1(1) s2 drive_step(1) [OF s2(3)] ev st by (auto simp: returns_def)
next
  case (Cons u us t s)
  obtain st w where ev: "eval env t (world s) = (st, w)" by fastforce
  obtain s1 where s1: "drive env s (ExecuteDbg (top_ptr t)) = drive env s1 (UpdateNode p st)" "frame (set (ptrs t)) s s1"
    "world s1 = w" and st: "st = SUCCESS \<or> st = FAILURE"
    using child_runs [OF _ _ _ ev, of p] Cons.prems(1,6,7) by auto
  have p: "nodes s1 p = nodes s p" using frame_off [OF s1(2)] Cons.prems(7) by simp
  let ?it = "itChild (nodes s p)" and ?cs = "children (nodes s p)"
  have len: "length ?cs = ?it + Suc (Suc (length us))"
    using arg_cong [OF Cons.prems(5), of length] by simp
  have "drop 1 (drop ?it ?cs) = map top_ptr (u # us)" unfolding Cons.prems(5) by simp
  then have dr: "drop (Suc ?it) ?cs = map top_ptr (u # us)" by simp
  have "hd (drop (Suc ?it) ?cs) = ?cs ! Suc ?it" using len by (intro hd_drop_conv_nth) simp
  then have nth: "?cs ! Suc ?it = top_ptr u" unfolding dr by simp
  obtain s2 where s2: "frame {p} s1 s2" "world s2 = w" and
    c: "if st = go_of k then itChild (nodes s2 p) = Suc ?it \<and> bt_step env s1 (UpdateNode p st) = Inr (s2, Some (ExecuteDbg (top_ptr u)))
        else bt_step env s1 (UpdateNode p st) = Inr (s2, Some (UpdateNode q st))"
    using inner_update [of s1 p k st q env] Cons.prems(2-4) st p len s1(3) nth by (auto split: if_splits)
  have fr: "frame A s s2" using frame_trans [OF s1(2) s2(1)] Cons.prems(8) by auto
  show ?case
  proof (cases "st = go_of k")
    case False
    then show ?thesis using s1(1) s2 c drive_step(1) [of env s1 "UpdateNode p st" s2] ev st fr by (auto simp: returns_def)
  next
    case True
    note fs = frame_fields [OF fr]
    have "returns env s2 (ExecuteDbg (top_ptr u)) A q (eval_many env (go_of k) (u # us) (world s2))"
      using Cons.prems c True dr frame_rep [OF fr] fs by (intro Cons.IH) auto
    moreover have "drive env s (ExecuteDbg (top_ptr t)) = drive env s2 (ExecuteDbg (top_ptr u))"
      using s1(1) c True drive_step(1) [of env s1 "UpdateNode p st" s2] by simp
    moreover have "eval_many env (go_of k) (t # u # us) (world s) = eval_many env (go_of k) (u # us) (world s2)"
      using ev True s2(2) by simp
    ultimately show ?thesis using fr frame_trans [OF fr] unfolding returns_def by (metis order_refl)
  qed
qed

lemma first_child_step:
  assumes "kind (nodes s p) = SeqNode \<or> kind (nodes s p) = SelecNode" "children (nodes s p) = c # cs"
  shows "\<exists>s'. bt_step env s (ExecuteDbg p) = Inr (s', Some (ExecuteDbg c)) \<and> frame {p} s s' \<and> world s' = world s \<and> itChild (nodes s' p) = 0"
proof -
  let ?s1 = "setCurrentNode (node_id (nodes s p)) (set_node p (\<lambda>n. n\<lparr>nodeStatus := EXECUTING\<rparr>) s)"
  let ?s2 = "set_node p (\<lambda>n. n\<lparr>itChild := 0\<rparr>) ?s1"
  have "frame {p} s ?s1" by (rule frame_trans [OF frame_set [of p "{p}"] frame_cur [of "{p}"]]) (auto simp: shape_def)
  then have "frame {p} s ?s2" by (rule frame_trans [OF _ frame_set [of p "{p}"]]) (auto simp: shape_def)
  moreover have "bt_step env s (ExecuteDbg p) = Inr (?s2, Some (ExecuteDbg c))"
    using assms by (auto simp: executeDbg_def Let_def SeqNode_execute_def SelecNode_execute_def first_child_def set_node_def setCurrentNode_def)
  moreover have "world ?s2 = world s" "itChild (nodes ?s2 p) = 0" by (simp_all add: set_node_def setCurrentNode_def)
  ultimately show ?thesis by blast
qed

lemma inner_ok:
  assumes "\<forall>t \<in> set ts. tree_ok env t" "kind (nodes s p) = k" "k = SeqNode \<or> k = SelecNode" "parent_of (nodes s p) = Some q"
    and "children (nodes s p) = map top_ptr ts" "ts \<noteq> []" "\<forall>t \<in> set ts. bt_rep (nodes s) (Some p) t"
    and "distinct (p # concat (map ptrs ts))"
  shows "returns env s (ExecuteDbg p) (set (p # concat (map ptrs ts))) q (eval_many env (go_of k) ts (world s))"
proof -
  obtain t us where ts: "ts = t # us" using assms(6) by (cases ts) auto
  obtain s1 where s1: "bt_step env s (ExecuteDbg p) = Inr (s1, Some (ExecuteDbg (top_ptr t)))" "frame {p} s s1"
    "world s1 = world s" "itChild (nodes s1 p) = 0"
    using first_child_step [of s p "top_ptr t" "map top_ptr us" env] assms(2,3,5) ts by auto
  note fs = frame_fields [OF s1(2)]
  have "returns env s1 (ExecuteDbg (top_ptr t)) (set (p # concat (map ptrs ts))) q (eval_many env (go_of k) (t # us) (world s1))"
    using assms ts s1(4) fs frame_rep [OF s1(2)] by (intro run_children [where p = p]) auto
  moreover have "frame (set (p # concat (map ptrs ts))) s s1"
    by (rule frame_trans [OF s1(2) frame_refl [of "{}"]]) auto
  ultimately show ?thesis unfolding ts s1(3) by (rule returns_step [OF s1(1) _ s1(3), rotated])
qed

lemma all_trees_ok:
  assumes "steps_ok env"
  shows "tree_ok env t"
proof (induction t)
  case (BLeaf p l)
  show ?case unfolding tree_ok_def
  proof (intro allI impI)
    fix s :: "'a behavior_tree" and q
    assume r: "bt_rep (nodes s) (Some q) (BLeaf p l)"
    obtain st w where ev: "leaf_step env l (world s) = (st, w)" by fastforce
    have st: "st = SUCCESS \<or> st = FAILURE" by (rule leaf_step_ok [OF assms ev])
    let ?s1 = "setCurrentNode (node_id (nodes s p)) (set_node p (\<lambda>n. n\<lparr>nodeStatus := EXECUTING\<rparr>) s)"
    let ?s2 = "set_node p (\<lambda>n. n\<lparr>nodeStatus := st\<rparr>) (?s1\<lparr>world := w\<rparr>)"
    have "bt_step env s (ExecuteDbg p) = Inr (?s2, Some (UpdateNode q st))"
      using r st ev by (auto simp: executeDbg_def Let_def LeafNode_execute_def to_parent_def set_node_def setCurrentNode_def)
    moreover have "frame {p} s ?s2" by (auto simp: frame_def set_node_def setCurrentNode_def shape_def)
    moreover have "world ?s2 = w" by (simp add: set_node_def)
    ultimately show "returns env s (ExecuteDbg (top_ptr (BLeaf p l))) (set (ptrs (BLeaf p l))) q (eval env (BLeaf p l) (world s))"
      using st ev drive_step(1) by (fastforce simp: returns_def)
  qed
next
  case (BSeq p ts)
  then show ?case using inner_ok [of ts env _ p SeqNode] by (auto simp: tree_ok_def go_of_def simp del: ptrs.simps) (simp_all add: go_of_def)
next
  case (BSel p ts)
  then show ?case using inner_ok [of ts env _ p SelecNode] by (auto simp: tree_ok_def go_of_def simp del: ptrs.simps) (simp_all add: go_of_def)
qed

section \<open>Initialising and resetting a tree\<close>

definition ready :: "'w behavior_tree \<Rightarrow> nat \<Rightarrow> bool" where
  "ready s p \<longleftrightarrow> nodeStatus (nodes s p) = START \<and> itChild (nodes s p) = length (children (nodes s p))"

definition visited :: "(bt_leaf \<Rightarrow> 'w \<Rightarrow> 'w) \<Rightarrow> nat set \<Rightarrow> bt_leaf list \<Rightarrow> 'w behavior_tree \<Rightarrow> 'w behavior_tree \<Rightarrow> bool" where
  "visited h A ls s s' \<longleftrightarrow> frame A s s' \<and> (\<forall>p. ready s p \<or> p \<in> A \<longrightarrow> ready s' p) \<and> world s' = fold h ls (world s)"

lemma visited_refl: "visited h {} [] s s"
  by (simp add: visited_def frame_refl)

lemma visited_trans:
  "visited h A ls s s1 \<Longrightarrow> visited h B ms s1 s2 \<Longrightarrow> visited h (A \<union> B) (ls @ ms) s s2"
  using frame_trans [of A s s1 B s2 "A \<union> B"] by (auto simp: visited_def)

lemma clear_visited: "visited h {p} [] s (initRuntimeData p s)"
  by (auto simp: visited_def frame_def initRuntimeData_def set_node_def shape_def ready_def)

lemma reset_is_init: "resetRuntimeData = initRuntimeData"
  by (rule ext) (simp add: resetRuntimeData_def initRuntimeData_def)

definition after_child :: "(bt_leaf \<Rightarrow> 'w \<Rightarrow> 'w) \<Rightarrow> nat \<Rightarrow> 'w behavior_tree \<Rightarrow> 'w behavior_tree" where
  "after_child h c s = virtual_hook h c (initRuntimeData c s)"

definition visit_ok :: "(bt_leaf \<Rightarrow> 'w \<Rightarrow> 'w) \<Rightarrow> nat beh \<Rightarrow> bool" where
  "visit_ok h t \<longleftrightarrow> (\<forall>s q. bt_rep (nodes s) q t \<longrightarrow>
     (\<exists>s1. visitChildren (after_child h) (children (nodes s (top_ptr t))) s = Some s1 \<and>
       visited h (set (ptrs t)) (leaves t) s (after_child h (top_ptr t) s1)))"

lemma visit_list:
  assumes "\<forall>t \<in> set ts. visit_ok h t" "\<forall>t \<in> set ts. \<exists>q. bt_rep (nodes s) q t"
  shows "\<exists>s'. visitChildren (after_child h) (map top_ptr ts) s = Some s' \<and>
    visited h (set (concat (map ptrs ts))) (concat (map leaves ts)) s s'"
  using assms
proof (induction ts arbitrary: s)
  case Nil
  then show ?case by (simp add: visitChildren.simps visited_refl)
next
  case (Cons t ts)
  obtain q where "bt_rep (nodes s) q t" using Cons.prems(2) by auto
  moreover have "visit_ok h t" using Cons.prems(1) by simp
  ultimately obtain s1 where s1: "visitChildren (after_child h) (children (nodes s (top_ptr t))) s = Some s1"
    "visited h (set (ptrs t)) (leaves t) s (after_child h (top_ptr t) s1)"
    unfolding visit_ok_def by blast
  let ?s2 = "after_child h (top_ptr t) s1"
  have fr: "frame (set (ptrs t)) s ?s2" using s1(2) by (simp add: visited_def)
  have "\<forall>u \<in> set ts. \<exists>q. bt_rep (nodes ?s2) q u" 
  proof
    fix u assume "u \<in> set ts"
    then obtain q where "bt_rep (nodes s) q u" using Cons.prems(2) by auto
    then show "\<exists>q. bt_rep (nodes ?s2) q u" using frame_rep [OF fr] by blast
  qed
  moreover have "\<forall>u \<in> set ts. visit_ok h u" using Cons.prems(1) by simp
  ultimately have "\<exists>s3. visitChildren (after_child h) (map top_ptr ts) ?s2 = Some s3 \<and>
      visited h (set (concat (map ptrs ts))) (concat (map leaves ts)) ?s2 s3" by (intro Cons.IH)
  then obtain s3 where s3: "visitChildren (after_child h) (map top_ptr ts) ?s2 = Some s3"
    "visited h (set (concat (map ptrs ts))) (concat (map leaves ts)) ?s2 s3" by blast
  have "visitChildren (after_child h) (map top_ptr (t # ts)) s = Some s3"
    by (subst visitChildren.simps) (simp add: s1(1) s3(1))
  then show ?case using visited_trans [OF s1(2) s3(2)] by auto
qed

lemma after_inner:
  assumes "visited h A ls s s1" "kind (nodes s p) = SeqNode \<or> kind (nodes s p) = SelecNode"
  shows "visited h (insert p A) ls s (after_child h p s1)"
proof -
  have "kind (nodes s1 p) = kind (nodes s p)" using assms(1) frame_fields(1) by (auto simp: visited_def)
  then have "after_child h p s1 = initRuntimeData p s1"
    using assms(2) by (auto simp: after_child_def virtual_hook_def initRuntimeData_def set_node_def)
  then show ?thesis using visited_trans [OF assms(1) clear_visited [of h p s1]] by simp
qed

lemma all_visit_ok: "visit_ok h t"
proof (induction t)
  case (BLeaf p l)
  show ?case unfolding visit_ok_def
  proof (intro allI impI)
    fix s :: "'a behavior_tree" and q
    assume r: "bt_rep (nodes s) q (BLeaf p l)"
    have "visited h {p} [l] s (after_child h p s)"
      using r by (auto simp: visited_def frame_def after_child_def virtual_hook_def initRuntimeData_def set_node_def shape_def ready_def)
    then show "\<exists>s1. visitChildren (after_child h) (children (nodes s (top_ptr (BLeaf p l)))) s = Some s1 \<and>
       visited h (set (ptrs (BLeaf p l))) (leaves (BLeaf p l)) s (after_child h (top_ptr (BLeaf p l)) s1)"
      using r by (subst visitChildren.simps) simp
  qed
next
  case (BSeq p ts)
  then have ok: "\<forall>t \<in> set ts. visit_ok h t" by simp
  show ?case unfolding visit_ok_def
  proof (intro allI impI)
    fix s :: "'a behavior_tree" and q
    assume r: "bt_rep (nodes s) q (BSeq p ts)"
    then obtain s1 where "visitChildren (after_child h) (map top_ptr ts) s = Some s1"
      "visited h (set (concat (map ptrs ts))) (concat (map leaves ts)) s s1" using visit_list [OF ok, of s] by auto
    then show "\<exists>s1. visitChildren (after_child h) (children (nodes s (top_ptr (BSeq p ts)))) s = Some s1 \<and>
       visited h (set (ptrs (BSeq p ts))) (leaves (BSeq p ts)) s (after_child h (top_ptr (BSeq p ts)) s1)"
      using r after_inner [of h _ _ s s1 p] by (intro exI [of _ s1]) simp
  qed
next
  case (BSel p ts)
  then have ok: "\<forall>t \<in> set ts. visit_ok h t" by simp
  show ?case unfolding visit_ok_def
  proof (intro allI impI)
    fix s :: "'a behavior_tree" and q
    assume r: "bt_rep (nodes s) q (BSel p ts)"
    then obtain s1 where "visitChildren (after_child h) (map top_ptr ts) s = Some s1"
      "visited h (set (concat (map ptrs ts))) (concat (map leaves ts)) s s1" using visit_list [OF ok, of s] by auto
    then show "\<exists>s1. visitChildren (after_child h) (children (nodes s (top_ptr (BSel p ts)))) s = Some s1 \<and>
       visited h (set (ptrs (BSel p ts))) (leaves (BSel p ts)) s (after_child h (top_ptr (BSel p ts)) s1)"
      using r after_inner [of h _ _ s s1 p] by (intro exI [of _ s1]) simp
  qed
qed

section \<open>Executing a loaded tree\<close>

text \<open>A tree with the one subtree \<open>t\<close> below its root, and the same tree between two runs.\<close>

definition hung :: "nat beh \<Rightarrow> 'w behavior_tree \<Rightarrow> bool" where
  "hung t s \<longleftrightarrow> kind (nodes s root_ptr) = LinkNode \<and> children (nodes s root_ptr) = [top_ptr t] \<and>
     bt_rep (nodes s) (Some root_ptr) t \<and> distinct (ptrs t) \<and> root_ptr \<notin> set (ptrs t) \<and>
     map_of (nodesOfTree s 0) 0 = Some root_ptr"

definition idle :: "nat beh \<Rightarrow> 'w behavior_tree \<Rightarrow> bool" where
  "idle t s \<longleftrightarrow> hung t s \<and> isInited s \<and> btState s = BTST_IDLE \<and> (\<forall>p \<in> insert root_ptr (set (ptrs t)). ready s p)"

lemma hung_frame: "frame A s s' \<Longrightarrow> hung t s \<Longrightarrow> hung t s'"
  unfolding hung_def using frame_fields [of A s s'] frame_rep [of A s s'] by (auto simp: frame_def)

lemma hung_fields:
  "hung t (s\<lparr>isInited := b\<rparr>) = hung t s" "hung t (s\<lparr>btState := st\<rparr>) = hung t s"
  "hung t (s\<lparr>curDeep := d\<rparr>) = hung t s" "hung t (s\<lparr>curIndex := i\<rparr>) = hung t s" "hung t (s\<lparr>world := w\<rparr>) = hung t s"
  by (simp_all add: hung_def)

lemma visit_root:
  assumes "hung t s"
  shows "\<exists>s1. visitChildren (after_child h) (children (nodes s root_ptr)) s = Some s1 \<and>
    visited h (insert root_ptr (set (ptrs t))) (leaves t) s (initRuntimeData root_ptr s1)"
proof -
  obtain s1 where s1: "visitChildren (after_child h) (map top_ptr [t]) s = Some s1"
    "visited h (set (concat (map ptrs [t]))) (concat (map leaves [t])) s s1"
    using visit_list [of "[t]" h s] all_visit_ok assms by (auto simp: hung_def)
  then show ?thesis using visited_trans [OF s1(2) clear_visited [of h root_ptr s1]] assms
    by (intro exI [of _ s1]) (auto simp: hung_def)
qed

lemma initTree_ok:
  assumes "hung t s"
  shows "\<exists>s'. initTree env s = Some s' \<and> idle t s' \<and> world s' = fold (leaf_init env) (leaves t) (world s) \<and>
    (\<forall>p. shape (nodes s' p) = shape (nodes s p)) \<and> nodesOfTree s' = nodesOfTree s"
proof -
  have "after_child (leaf_init env) = (\<lambda>c s. virtual_hook (leaf_init env) c (initRuntimeData c s))"
    by (intro ext) (simp add: after_child_def)
  then obtain s1 where s1: "initNodes env root_ptr s = Some s1"
    "visited (leaf_init env) (insert root_ptr (set (ptrs t))) (leaves t) s s1"
    using visit_root [OF assms, of "leaf_init env"] by (auto simp: initNodes_def)
  then have fr: "frame (insert root_ptr (set (ptrs t))) s s1" by (simp add: visited_def)
  show ?thesis
    using s1 hung_frame [OF fr assms] fr
    by (intro exI [of _ "s1\<lparr>isInited := True, btState := BTST_IDLE\<rparr>"])
      (auto simp: initTree_def idle_def hung_fields visited_def ready_def frame_def)
qed

lemma reset_ok:
  assumes "hung t s" "isInited s"
  shows "\<exists>s'. BehaviorTree_reset env s = Some s' \<and> idle t s' \<and>
    world s' = blackboard_reset env (fold (leaf_reset env) (leaves t) (world s)) \<and> (\<forall>p. shape (nodes s' p) = shape (nodes s p))"
proof -
  have "after_child (leaf_reset env) = (\<lambda>c s. virtual_hook (leaf_reset env) c (resetRuntimeData c s))"
    by (intro ext) (simp add: after_child_def reset_is_init)
  then obtain s1 where s1: "resetNodes env root_ptr s = Some s1"
    "visited (leaf_reset env) (insert root_ptr (set (ptrs t))) (leaves t) s s1"
    using visit_root [OF assms(1), of "leaf_reset env"] by (auto simp: resetNodes_def reset_is_init)
  then have fr: "frame (insert root_ptr (set (ptrs t))) s s1" by (simp add: visited_def)
  show ?thesis
    using s1 hung_frame [OF fr assms(1)] fr assms(2)
    by (intro exI [of _ "s1\<lparr>curDeep := 0, curIndex := 0, btState := BTST_IDLE, world := blackboard_reset env (world s1)\<rparr>"])
      (auto simp: BehaviorTree_reset_def idle_def hung_fields visited_def ready_def frame_def)
qed

text \<open>The walk from the root ends in the root, whose status is still the one it started with.\<close>

lemma drive_root:
  assumes "hung t s" "steps_ok env"
  shows "\<exists>s'. drive env s (ExecuteDbg root_ptr) = Some (Inr s') \<and> frame (insert root_ptr (set (ptrs t))) s s' \<and>
    world s' = snd (eval env t (world s)) \<and> nodeStatus (nodes s' root_ptr) = EXECUTING \<and>
    curDeep s' = u8 (node_id (nodes s root_ptr) sdiv 100) \<and> curIndex s' = u8 (node_id (nodes s root_ptr) smod 100)"
proof -
  let ?i = "node_id (nodes s root_ptr)" and ?A = "insert root_ptr (set (ptrs t))"
  let ?s1 = "set_node root_ptr (\<lambda>n. n\<lparr>itChild := 0\<rparr>) (setCurrentNode ?i (set_node root_ptr (\<lambda>n. n\<lparr>nodeStatus := EXECUTING\<rparr>) s))"
  have f1: "frame ?A s ?s1" by (auto simp: frame_def set_node_def setCurrentNode_def shape_def)
  have b: "bt_step env s (ExecuteDbg root_ptr) = Inr (?s1, Some (ExecuteDbg (top_ptr t)))"
    using assms(1) by (auto simp: hung_def executeDbg_def Let_def LinkNode_execute_def first_child_def set_node_def setCurrentNode_def)
  have w: "world ?s1 = world s" by (simp add: set_node_def setCurrentNode_def)
  have r: "bt_rep (nodes ?s1) (Some root_ptr) t" "distinct (ptrs t)" "root_ptr \<notin> set (ptrs t)"
    using assms(1) frame_rep [OF f1] by (auto simp: hung_def)
  have "returns env ?s1 (ExecuteDbg (top_ptr t)) (set (ptrs t)) root_ptr (eval env t (world ?s1))"
    using all_trees_ok [OF assms(2), of t] r(1,2) by (simp only: tree_ok_def)
  then obtain s2 st where s2: "drive env ?s1 (ExecuteDbg (top_ptr t)) = drive env s2 (UpdateNode root_ptr st)"
    "frame (set (ptrs t)) ?s1 s2" "world s2 = snd (eval env t (world s))"
    unfolding returns_def w by blast
  have off: "nodes s2 root_ptr = nodes ?s1 root_ptr" by (rule frame_off [OF s2(2) r(3)])
  have n: "kind (nodes s2 root_ptr) = LinkNode" "node_id (nodes s2 root_ptr) = ?i" "nodeStatus (nodes s2 root_ptr) = EXECUTING"
    using off assms(1) by (auto simp: hung_def set_node_def setCurrentNode_def)
  then have "bt_step env s2 (UpdateNode root_ptr st) = Inr (setCurrentNode ?i s2, None)" by (simp add: LinkNode_update_def)
  then have "drive env s (ExecuteDbg root_ptr) = Some (Inr (setCurrentNode ?i s2))"
    using drive_step(1) [OF b] s2(1) drive_step(2) by metis
  moreover have "frame ?A s (setCurrentNode ?i s2)"
    by (rule frame_trans [OF frame_trans [OF f1 s2(2), of ?A] frame_cur [of "{}"]]) auto
  ultimately show ?thesis using s2(3) n by (intro exI [of _ "setCurrentNode ?i s2"]) (simp add: setCurrentNode_def)
qed

definition bt_round :: "'w bt_env \<Rightarrow> 'p beh \<Rightarrow> 'w \<Rightarrow> 'w" where
  "bt_round env t w = blackboard_reset env (fold (leaf_reset env) (leaves t) (snd (eval env t w)))"

lemma execute_idle:
  assumes "idle t s" "steps_ok env" "node_id (nodes s root_ptr) = 0"
  shows "\<exists>s'. BehaviorTree_execute env s = Some (Inr (EXECUTING, s')) \<and> idle t s' \<and> world s' = bt_round env t (world s) \<and>
    node_id (nodes s' root_ptr) = 0"
proof -
  let ?s1 = "s\<lparr>btState := BTST_EXECUTING\<rparr>"
  have h1: "hung t ?s1" using assms(1) by (simp add: idle_def hung_fields)
  obtain s2 where s2: "drive env ?s1 (ExecuteDbg root_ptr) = Some (Inr s2)" "frame (insert root_ptr (set (ptrs t))) ?s1 s2"
    "world s2 = snd (eval env t (world s))" "nodeStatus (nodes s2 root_ptr) = EXECUTING" "curDeep s2 = 0" "curIndex s2 = 0"
    using drive_root [OF h1 assms(2)] assms(3) by (auto simp: u8_def)
  have h2: "hung t s2" by (rule hung_frame [OF s2(2) h1])
  moreover have "isInited s2" using s2(2) assms(1) by (simp add: frame_def idle_def)
  ultimately obtain s3 where s3: "BehaviorTree_reset env s2 = Some s3" "idle t s3"
    "world s3 = bt_round env t (world s)" "\<forall>p. shape (nodes s3 p) = shape (nodes s2 p)"
    using reset_ok [of t s2 env] s2(3) by (auto simp: bt_round_def)
  have "node_id (nodes s3 root_ptr) = 0"
    using s3(4) frame_fields(4) [OF s2(2), of root_ptr] assms(3) by (simp add: shape_def)
  moreover have "BehaviorTree_execute env s = Some (Inr (EXECUTING, s3))"
    using assms(1) h1 h2 s2 s3(1) by (simp add: BehaviorTree_execute_def idle_def hung_def)
  ultimately show ?thesis using s3 by blast
qed

section \<open>What the loader builds\<close>

abbreviation bare :: "nat beh \<Rightarrow> unit beh" where "bare \<equiv> map_beh (\<lambda>_. ())"

definition levels_ok :: "'w behavior_tree \<Rightarrow> bool" where
  "levels_ok s \<longleftrightarrow> (\<forall>d. smap_inv (nodesOfTree s d))"

text \<open>Loading below \<open>par\<close> makes new nodes and changes, of the old ones, the children of \<open>par\<close>.\<close>

definition grows :: "nat \<Rightarrow> 'w behavior_tree \<Rightarrow> 'w behavior_tree \<Rightarrow> bool" where
  "grows par s s' \<longleftrightarrow> fresh s \<le> fresh s' \<and> (\<forall>p < fresh s. p \<noteq> par \<longrightarrow> nodes s' p = nodes s p) \<and>
     kind (nodes s' par) = kind (nodes s par) \<and> parent_of (nodes s' par) = parent_of (nodes s par) \<and>
     (node_id (nodes s' par) = node_id (nodes s par) \<or> node_id (nodes s' par) = 0) \<and>
     isInited s' = isInited s \<and> btState s' = btState s \<and> world s' = world s \<and>
     (levels_ok s \<longrightarrow> levels_ok s' \<and> (\<forall>d k v. map_of (nodesOfTree s d) k = Some v \<longrightarrow> map_of (nodesOfTree s' d) k = Some v))"

definition loads :: "nat \<Rightarrow> unit beh list \<Rightarrow> 'w behavior_tree \<Rightarrow> 'w behavior_tree \<Rightarrow> bool" where
  "loads par bs s s' \<longleftrightarrow> grows par s s' \<and> (\<exists>ts. map bare ts = bs \<and> (\<forall>t \<in> set ts. bt_rep (nodes s') (Some par) t) \<and>
     children (nodes s' par) = children (nodes s par) @ map top_ptr ts \<and>
     distinct (concat (map ptrs ts)) \<and> set (concat (map ptrs ts)) \<subseteq> {fresh s..<fresh s'})"

lemma grows_trans: "grows par s s1 \<Longrightarrow> grows par s1 s2 \<Longrightarrow> grows par s s2"
  unfolding grows_def by auto

lemma bt_rep_off: "(\<And>p. p \<in> set (ptrs t) \<Longrightarrow> nd' p = nd p) \<Longrightarrow> bt_rep nd q t \<Longrightarrow> bt_rep nd' q t"
  by (induction t arbitrary: q) auto

lemma loads_Nil: "loads par [] s s"
  by (simp add: loads_def grows_def)

lemma loads_trans:
  assumes "loads par bs s s1" "loads par cs s1 s2" "par < fresh s"
  shows "loads par (bs @ cs) s s2"
proof -
  obtain ts where ts: "map bare ts = bs" "\<forall>t \<in> set ts. bt_rep (nodes s1) (Some par) t"
    "children (nodes s1 par) = children (nodes s par) @ map top_ptr ts" "distinct (concat (map ptrs ts))"
    "set (concat (map ptrs ts)) \<subseteq> {fresh s..<fresh s1}" and g1: "grows par s s1" using assms(1) unfolding loads_def by blast
  obtain us where us: "map bare us = cs" "\<forall>t \<in> set us. bt_rep (nodes s2) (Some par) t"
    "children (nodes s2 par) = children (nodes s1 par) @ map top_ptr us" "distinct (concat (map ptrs us))"
    "set (concat (map ptrs us)) \<subseteq> {fresh s1..<fresh s2}" and g2: "grows par s1 s2" using assms(2) unfolding loads_def by blast
  have "bt_rep (nodes s2) (Some par) t" if "t \<in> set ts" for t
  proof (rule bt_rep_off)
    show "bt_rep (nodes s1) (Some par) t" using ts(2) that by blast
    fix p assume "p \<in> set (ptrs t)"
    then have "p \<in> {fresh s..<fresh s1}" using that ts(5) by auto
    then show "nodes s2 p = nodes s1 p" using g2 assms(3) by (auto simp: grows_def)
  qed
  moreover have "set (concat (map ptrs ts)) \<inter> set (concat (map ptrs us)) = {}" using ts(5) us(5) by fastforce
  moreover have "fresh s \<le> fresh s1" "fresh s1 \<le> fresh s2" using g1 g2 by (auto simp: grows_def)
  ultimately show ?thesis unfolding loads_def
    using ts us grows_trans [OF g1 g2] by (intro conjI exI [of _ "ts @ us"]) (auto 0 3)
qed

lemma insert_new:
  assumes "alloc_node k par s = (node, s1)" "insertTreeNode par deep node xid s1 = Inr s2" "par < fresh s"
  shows "node = fresh s" "fresh s2 = fresh s + 1" "grows par s s2"
    "children (nodes s2 par) = children (nodes s par) @ [node]" "node_id (nodes s2 par) = node_id (nodes s par)"
    "kind (nodes s2 node) = k" "parent_of (nodes s2 node) = Some par" "children (nodes s2 node) = []"
proof -
  have a: "node = fresh s" "s1 = s\<lparr>nodes := (nodes s)(fresh s := new_node k (Some par)), fresh := fresh s + 1\<rparr>"
    using assms(1) by (auto simp: alloc_node_def)
  let ?lv = "nodesOfTree s (u8 deep)" and ?i = "u8 (int (length (nodesOfTree s (u8 deep))))"
  let ?s2 = "s1\<lparr>nodesOfTree := (nodesOfTree s)(u8 deep := smap_put ?i node ?lv)\<rparr>"
  have free: "map_of ?lv ?i = None"
    and s2: "s2 = set_node node (\<lambda>n. n\<lparr>node_id := i16 (deep * 100 + ?i)\<rparr>)
       (set_node par (\<lambda>n. n\<lparr>children := children n @ [node]\<rparr>) ?s2)"
    using assms(2) a by (auto simp: insertTreeNode_def addNode_def Let_def res_Inr_iff)
  have ne: "fresh s \<noteq> par" using assms(3) by simp
  show "node = fresh s" "fresh s2 = fresh s + 1" using a s2 by (simp_all add: set_node_def)
  show "children (nodes s2 par) = children (nodes s par) @ [node]" "node_id (nodes s2 par) = node_id (nodes s par)"
    "kind (nodes s2 node) = k" "parent_of (nodes s2 node) = Some par" "children (nodes s2 node) = []"
    using a s2 ne by (auto simp: set_node_def new_node_def)
  have "levels_ok s2 \<and> (\<forall>d j v. map_of (nodesOfTree s d) j = Some v \<longrightarrow> map_of (nodesOfTree s2 d) j = Some v)" if "levels_ok s"
  proof -
    have n: "nodesOfTree s2 = (nodesOfTree s)(u8 deep := smap_put ?i node ?lv)" using s2 by (simp add: set_node_def)
    have "smap_inv ?lv" using that by (simp add: levels_ok_def)
    then have "smap_inv (smap_put ?i node ?lv)" "map_of (smap_put ?i node ?lv) = (map_of ?lv)(?i \<mapsto> node)" by simp_all
    then show ?thesis using n that free by (auto simp: levels_ok_def)
  qed
  then show "grows par s s2" using a s2 ne by (auto simp: grows_def set_node_def new_node_def)
qed

lemma loads_inner:
  assumes "alloc_node k par s = (node, s1)" "insertTreeNode par deep node xid s1 = Inr s2" "par < fresh s"
    and "loads node bs s2 s3" "bs \<noteq> []"
    and "k = SeqNode \<and> b = BSeq () bs \<or> k = SelecNode \<and> b = BSel () bs"
  shows "loads par [b] s s3" "node_id (nodes s3 par) = node_id (nodes s par)"
proof -
  note new = insert_new [OF assms(1,2,3)]
  obtain ts where ts: "map bare ts = bs" "\<forall>t \<in> set ts. bt_rep (nodes s3) (Some node) t"
    "children (nodes s3 node) = map top_ptr ts" "distinct (concat (map ptrs ts))"
    "set (concat (map ptrs ts)) \<subseteq> {fresh s2..<fresh s3}" and g: "grows node s2 s3"
    using assms(4) new(8) unfolding loads_def by auto
  have par: "nodes s3 par = nodes s2 par" using g new(1,2) assms(3) by (auto simp: grows_def)
  then show "node_id (nodes s3 par) = node_id (nodes s par)" using new(5) by simp
  have kn: "kind (nodes s3 node) = k" "parent_of (nodes s3 node) = Some par" using g new(6,7) by (auto simp: grows_def)
  have gr: "grows par s s3" using new(3) g par new(1,2) unfolding grows_def by auto
  let ?t = "if k = SeqNode then BSeq node ts else BSel node ts"
  have t: "bare ?t = b" "top_ptr ?t = node" "ptrs ?t = node # concat (map ptrs ts)" using assms(6) ts(1) by auto
  have "bt_rep (nodes s3) (Some par) ?t" using kn ts assms(5,6) by auto
  moreover have "distinct (ptrs ?t)" "set (ptrs ?t) \<subseteq> {fresh s..<fresh s3}"
    using t(3) ts(4,5) new(1,2) g by (auto simp: grows_def)
  ultimately show "loads par [b] s s3" unfolding loads_def
    using gr t(1,2) par new(4) by (intro conjI exI [of _ "[?t]"]) simp_all
qed

lemma loads_leaf:
  assumes "alloc_node (LeafNode l) par s = (node, s1)" "insertTreeNode par deep node xid s1 = Inr s2" "par < fresh s"
  shows "loads par [BLeaf () l] s s2"
  using insert_new [OF assms] unfolding loads_def by (intro conjI exI [of _ "[BLeaf node l]"]) auto

lemma loads_nonempty: "loads par bs s s' \<Longrightarrow> bs \<noteq> [] \<longleftrightarrow> children (nodes s' par) \<noteq> children (nodes s par)"
  by (auto simp: loads_def)

lemma loads_id:
  assumes "loads par bs (set_node par (\<lambda>n. n\<lparr>node_id := 0\<rparr>) s) s'" "par < fresh s"
  shows "loads par bs s s'"
  using assms unfolding loads_def grows_def levels_ok_def by (auto simp: set_node_def)

lemma load_ok:
  "loadRecur f par deep x s = Inr s' \<Longrightarrow> par < fresh s \<Longrightarrow> loads par (behs_of f x) s s' \<and> behs_of f x \<noteq> []"
  "loadChildren f par deep xs s = Inr s' \<Longrightarrow> par < fresh s \<Longrightarrow>
     loads par (concat (map (behs_of f) xs)) s s' \<and> (\<forall>x \<in> set xs. behs_of f x \<noteq> [])"
proof (induction f par deep x s and f par deep xs s arbitrary: s' and s' rule: loadRecur_loadChildren.induct)
  case (1 f par deep ty xid op sn sf subs s)
  show ?case
  proof (cases "is_leaf_type ty")
    case True
    obtain node s1 where a: "alloc_node (LeafNode \<lparr>leaf_kind = the (f op), operation = op, scriptName = sn, scriptFunc = sf\<rparr>) par s = (node, s1)"
      by fastforce
    have "insertTreeNode par deep node xid s1 = Inr s'"
      using 1(2) True a by (auto simp: res_Inr_iff GetCreator_def split: option.splits)
    from loads_leaf [OF a this 1(3)] show ?thesis using True by simp
  next
    case nl: False
    let ?bs = "concat (map (behs_of f) subs)"
    consider (inner) "ty = ''Selector'' \<or> ty = ''Sequence''" | (root) "ty = ''Root''" | (filter) "ty = ''Filter''"
      using 1(2) nl by (auto split: if_splits)
    then show ?thesis
    proof cases
      case inner
      let ?k = "if ty = ''Selector'' then SelecNode else SeqNode" and ?b = "if ty = ''Selector'' then BSel () ?bs else BSeq () ?bs"
      obtain node s1 where a: "alloc_node ?k par s = (node, s1)" by fastforce
      obtain s2 where s2: "insertTreeNode par deep node xid s1 = Inr s2" "subs \<noteq> []" "loadChildren f node (deep + 1) subs s2 = Inr s'"
        using 1(2) nl a inner by (auto simp: res_Inr_iff split: if_splits)
      note new = insert_new [OF a s2(1) 1(3)]
      have IH: "loads node ?bs s2 s' \<and> (\<forall>x \<in> set subs. behs_of f x \<noteq> [])"
        using nl inner a s2 new(1,2) by (intro 1(1)) (auto simp: res_Inr_iff)
      then have "?bs \<noteq> []" using s2(2) by (cases subs) auto
      then have "loads par [?b] s s'" using loads_inner(1) [OF a s2(1) 1(3), of ?bs s' ?b] IH inner by auto
      then show ?thesis using nl inner by auto
    next
      case root
      then have s2: "subs \<noteq> []" "loadChildren f par (deep + 1) subs (set_node par (\<lambda>n. n\<lparr>node_id := 0\<rparr>) s) = Inr s'"
        "xid = 0" using 1(2) nl by (auto simp: res_Inr_iff)
      have IH: "loads par ?bs (set_node par (\<lambda>n. n\<lparr>node_id := 0\<rparr>) s) s' \<and> (\<forall>x \<in> set subs. behs_of f x \<noteq> [])"
        using nl root s2 1(3) by (intro 1(1)) (auto simp: set_node_def)
      then show ?thesis using loads_id 1(3) nl root s2(1) by (cases subs) auto
    next
      case filter
      then have s2: "subs \<noteq> []" "loadChildren f par (deep + 1) subs s = Inr s'" using 1(2) nl by (auto simp: res_Inr_iff)
      have "loads par ?bs s s' \<and> (\<forall>x \<in> set subs. behs_of f x \<noteq> [])"
        using nl filter s2 1(3) by (intro 1(1)) auto
      then show ?thesis using nl filter s2(1) by (cases subs) auto
    qed
  qed
next
  case (2 f par deep s)
  then show ?case by (simp add: loads_Nil)
next
  case (3 f par deep x xs s)
  obtain s1 where s1: "loadRecur f par deep x s = Inr s1" "loadChildren f par deep xs s1 = Inr s'"
    using 3(3) by (auto simp: bindr_Inr_iff)
  have l: "loads par (behs_of f x) s s1" "behs_of f x \<noteq> []" using 3(1) s1(1) 3(4) by auto
  then have "par < fresh s1" using 3(4) by (auto simp: loads_def grows_def)
  then have "loads par (concat (map (behs_of f) xs)) s1 s' \<and> (\<forall>x \<in> set xs. behs_of f x \<noteq> [])" using 3(2) s1 by blast
  then show ?case using loads_trans [OF l(1) _ 3(4)] l(2) by auto
qed

lemma eval_many_bare:
  "(\<And>t w. t \<in> set ts \<Longrightarrow> eval env (bare t) w = eval env t w) \<Longrightarrow> eval_many env go (map bare ts) w = eval_many env go ts w"
  by (induction ts arbitrary: w) (auto split: prod.splits)

lemma eval_bare: "eval env (bare t) w = eval env t w"
proof (induction t arbitrary: w)
  case (BSeq p ts)
  then have "eval_many env go (map bare ts) w = eval_many env go ts w" for go by (intro eval_many_bare)
  then show ?case by simp
next
  case (BSel p ts)
  then have "eval_many env go (map bare ts) w = eval_many env go ts w" for go by (intro eval_many_bare)
  then show ?case by simp
qed simp

lemma leaves_bare: "leaves (bare t) = leaves t"
  by (induction t) (auto simp: comp_def intro!: arg_cong [where f = concat])

lemma load_hung:
  assumes "loadRecur f root_ptr 0 x (BehaviorTree_init w) = Inr s" "behs_of f x = [b]"
  shows "\<exists>t. bare t = b \<and> hung t s \<and> \<not> isInited s \<and> world s = w"
proof -
  let ?s0 = "BehaviorTree_init w"
  have "loads root_ptr [b] ?s0 s"
    using load_ok(1) [OF assms(1)] assms(2) by (simp add: BehaviorTree_init_def root_ptr_def)
  then obtain t where t: "bare t = b" "bt_rep (nodes s) (Some root_ptr) t" "children (nodes s root_ptr) = [top_ptr t]"
    "distinct (ptrs t)" "set (ptrs t) \<subseteq> {1..<fresh s}" and g: "grows root_ptr ?s0 s"
    unfolding loads_def by (auto simp: BehaviorTree_init_def new_node_def map_eq_Cons_conv)
  have "levels_ok ?s0" by (simp add: levels_ok_def BehaviorTree_init_def sset_inv_Cons)
  then have "map_of (nodesOfTree s 0) 0 = Some root_ptr" using g by (auto simp: grows_def BehaviorTree_init_def)
  moreover have "root_ptr \<notin> set (ptrs t)" using t(5) by (auto simp: root_ptr_def)
  ultimately have "hung t s" using t g by (simp add: hung_def grows_def BehaviorTree_init_def new_node_def)
  then show ?thesis using t(1) g by (auto simp: grows_def BehaviorTree_init_def)
qed

lemma load_root_id:
  assumes "loadRecur f root_ptr 0 (XNode ''Root'' xid op sn sf subs) (BehaviorTree_init w) = Inr s"
  shows "node_id (nodes s root_ptr) = 0"
proof -
  let ?s1 = "set_node root_ptr (\<lambda>n. n\<lparr>node_id := 0\<rparr>) (BehaviorTree_init w)"
  have "loadChildren f root_ptr 1 subs ?s1 = Inr s" using assms by (auto simp: is_leaf_type_def res_Inr_iff)
  then have "loads root_ptr (concat (map (behs_of f) subs)) ?s1 s"
    using load_ok(2) [of f root_ptr 1 subs ?s1 s] by (simp add: root_ptr_def set_node_def BehaviorTree_init_def)
  then show ?thesis by (simp add: loads_def grows_def set_node_def)
qed

lemma load_other_id:
  assumes "loadRecur f root_ptr 0 (XNode ty xid op sn sf subs) (BehaviorTree_init w) = Inr s"
    and "ty \<in> {''Selector'', ''Sequence'', ''Condition'', ''Action''}"
  shows "node_id (nodes s root_ptr) = -1"
proof -
  let ?s0 = "BehaviorTree_init w" and ?bs = "concat (map (behs_of f) subs)"
  have f0: "root_ptr < fresh ?s0" and id0: "node_id (nodes ?s0 root_ptr) = -1"
    by (simp_all add: root_ptr_def BehaviorTree_init_def new_node_def)
  show ?thesis
  proof (cases "is_leaf_type ty")
    case True
    obtain node s1 where a: "alloc_node (LeafNode \<lparr>leaf_kind = the (f op), operation = op, scriptName = sn, scriptFunc = sf\<rparr>) root_ptr ?s0 = (node, s1)"
      by fastforce
    have "insertTreeNode root_ptr 0 node xid s1 = Inr s"
      using assms(1) True a by (auto simp: res_Inr_iff GetCreator_def split: option.splits)
    from insert_new(5) [OF a this f0] show ?thesis using id0 by simp
  next
    case nl: False
    let ?k = "if ty = ''Selector'' then SelecNode else SeqNode" and ?b = "if ty = ''Selector'' then BSel () ?bs else BSeq () ?bs"
    obtain node s1 where a: "alloc_node ?k root_ptr ?s0 = (node, s1)" by fastforce
    have ty: "ty = ''Selector'' \<or> ty = ''Sequence''" using nl assms(2) by (auto simp: is_leaf_type_def)
    obtain s2 where s2: "insertTreeNode root_ptr 0 node xid s1 = Inr s2" "subs \<noteq> []" "loadChildren f node 1 subs s2 = Inr s"
      using assms(1) nl a ty by (auto simp: res_Inr_iff split: if_splits)
    note new = insert_new [OF a s2(1) f0]
    have l: "loads node ?bs s2 s \<and> (\<forall>x \<in> set subs. behs_of f x \<noteq> [])"
      by (rule load_ok(2) [OF s2(3)]) (simp add: new(1,2))
    then have "?bs \<noteq> []" using s2(2) by (cases subs) auto
    then show ?thesis using loads_inner(2) [OF a s2(1) f0, of ?bs s ?b] l id0 by auto
  qed
qed

section \<open>Properties\<close>

text \<open>Several executions one after the other.\<close>

primrec executes :: "'w bt_env \<Rightarrow> nat \<Rightarrow> 'w behavior_tree \<Rightarrow> (node_status list \<times> 'w behavior_tree) res option" where
  "executes env 0 s = Some (Inr ([], s))"
| "executes env (Suc n) s = Option.bind (BehaviorTree_execute env s) (\<lambda>r.
     case r of Inl e \<Rightarrow> Some (Inl e)
     | Inr (st, s1) \<Rightarrow> Option.bind (executes env n s1) (\<lambda>r'.
         case r' of Inl e \<Rightarrow> Some (Inl e) | Inr (sts, s2) \<Rightarrow> Some (Inr (st # sts, s2))))"

lemma executes_idle:
  assumes "steps_ok env"
  shows "idle t s \<Longrightarrow> node_id (nodes s root_ptr) = 0 \<Longrightarrow>
    \<exists>s'. executes env n s = Some (Inr (replicate n EXECUTING, s')) \<and> idle t s' \<and> world s' = (bt_round env t ^^ n) (world s)"
proof (induction n arbitrary: s)
  case (Suc n)
  obtain s1 where s1: "BehaviorTree_execute env s = Some (Inr (EXECUTING, s1))" "idle t s1" "world s1 = bt_round env t (world s)"
    "node_id (nodes s1 root_ptr) = 0" using execute_idle [OF Suc.prems(1) assms Suc.prems(2)] by blast
  obtain s2 where "executes env n s1 = Some (Inr (replicate n EXECUTING, s2))" "idle t s2" "world s2 = (bt_round env t ^^ n) (world s1)"
    using Suc.IH [OF s1(2,4)] by blast
  then show ?case using s1(1,3) by (simp add: funpow_swap1)
qed simp

lemma execute_inits:
  assumes "hung t s" "\<not> isInited s" "initTree env s = Some s1" "isInited s1"
  shows "BehaviorTree_execute env s = BehaviorTree_execute env s1"
  using assms by (simp add: BehaviorTree_execute_def)

text \<open>
  C23: A file whose top element is a root with one subtree, loaded and executed any number of
  times, does exactly what the subtree says, sequences going on after a success and selectors
  after a failure, and every execution leaves the tree ready for the next one. Every execution
  answers \<open>EXECUTING\<close>, whatever the subtree's outcome, because the root does not keep the result
  of its child.
\<close>

theorem Load_execute_means:
  assumes "LoadTree l (Some (XNode ''Root'' xid op sn sf subs # rest)) w = Inr (Some s)"
    and "behs_of (leafFactory l) (XNode ''Root'' xid op sn sf subs) = [b]" "steps_ok env"
  shows "\<exists>s'. executes env (Suc n) s = Some (Inr (replicate (Suc n) EXECUTING, s')) \<and> btState s' = BTST_IDLE \<and>
    world s' = (bt_round env b ^^ Suc n) (fold (leaf_init env) (leaves b) w)"
proof -
  have ld: "loadRecur (leafFactory l) root_ptr 0 (XNode ''Root'' xid op sn sf subs) (BehaviorTree_init w) = Inr s"
    using assms(1) by (auto simp: LoadTree_def res_Inr_iff simp del: loadRecur.simps)
  obtain t where t: "bare t = b" "hung t s" "\<not> isInited s" "world s = w" using load_hung [OF ld assms(2)] by blast
  obtain s1 where s1: "initTree env s = Some s1" "idle t s1" "world s1 = fold (leaf_init env) (leaves t) w"
    "\<forall>p. shape (nodes s1 p) = shape (nodes s p)" using initTree_ok [OF t(2), of env] t(4) by auto
  have "node_id (nodes s1 root_ptr) = 0" using s1(4) load_root_id [OF ld] by (simp add: shape_def)
  then obtain s' where s': "executes env (Suc n) s1 = Some (Inr (replicate (Suc n) EXECUTING, s'))" "idle t s'"
    "world s' = (bt_round env t ^^ Suc n) (world s1)" using executes_idle [OF assms(3) s1(2)] by blast
  have "executes env (Suc n) s = executes env (Suc n) s1"
    using execute_inits [OF t(2,3) s1(1)] s1(2) by (simp add: idle_def)
  moreover have "bt_round env t = bt_round env b" using t(1) by (auto simp: bt_round_def eval_bare leaves_bare)
  moreover have "leaves t = leaves b" using leaves_bare [of t] t(1) by simp
  ultimately show ?thesis using s' s1(3) by (simp add: idle_def)
qed

text \<open>A world that logs what the leaves do, and a tree whose condition fails.\<close>

definition log_env :: "string list bt_env" where
  "log_env = \<lparr>stepInto = default_stepInto (\<lambda>l w. (SUCCESS, scriptFunc l # w)), leaf_init = (\<lambda>l w. w), leaf_reset = (\<lambda>l w. w),
     blackboard_reset = (\<lambda>w. w)\<rparr>"

definition demo_loader :: bt_loader where
  "demo_loader = \<lparr>loader_inited = True, leafFactory = [''Nop'' \<mapsto> ActionLeaf, ''ConditionFailure'' \<mapsto> ConditionLeaf, ''Act'' \<mapsto> ActionLeaf]\<rparr>"

definition demo_tree :: "xml_node list" where
  "demo_tree =
    [XNode ''Selector'' 100 [] [] []
      [XNode ''Sequence'' 200 [] [] []
         [XNode ''Action'' 300 ''Act'' [] ''a'' [], XNode ''Condition'' 301 ''ConditionFailure'' [] [] [],
          XNode ''Action'' 302 ''Act'' [] ''b'' []],
       XNode ''Action'' 201 ''Act'' [] ''c'' []]]"

lemmas load_eval = LoadTree_def demo_loader_def demo_tree_def is_leaf_type_def IsRegistered_def GetCreator_def alloc_node_def
  insertTreeNode_def addNode_def set_node_def BehaviorTree_init_def new_node_def root_ptr_def u8_def i16_def Let_def
  smap_put_def sset_erase_def

theorem Load_execute_means_witness:
  "\<exists>s s'. LoadTree demo_loader (Some [XNode ''Root'' 0 [] [] [] demo_tree]) [] = Inr (Some s) \<and>
     executes log_env 2 s = Some (Inr ([EXECUTING, EXECUTING], s')) \<and> world s' = [''c'', ''a'', ''c'', ''a'']"
proof -
  let ?x = "XNode ''Root'' 0 [] [] [] demo_tree"
  let ?leaf = "\<lambda>c op f. BLeaf () \<lparr>leaf_kind = c, operation = op, scriptName = [], scriptFunc = f\<rparr>"
  let ?b = "BSel () [BSeq () [?leaf ActionLeaf ''Act'' ''a'', ?leaf ConditionLeaf ''ConditionFailure'' [], ?leaf ActionLeaf ''Act'' ''b''],
     ?leaf ActionLeaf ''Act'' ''c'']"
  have "\<exists>s. LoadTree demo_loader (Some [?x]) ([] :: string list) = Inr (Some s)" by (simp add: load_eval)
  then obtain s where s: "LoadTree demo_loader (Some [?x]) ([] :: string list) = Inr (Some s)" by blast
  have b: "behs_of (leafFactory demo_loader) ?x = [?b]"
    by (simp add: demo_loader_def demo_tree_def is_leaf_type_def)
  have ok: "steps_ok log_env" by (simp add: steps_ok_def log_env_def default_stepInto_def)
  have r: "(bt_round log_env ?b ^^ Suc 1) (fold (leaf_init log_env) (leaves ?b) []) = [''c'', ''a'', ''c'', ''a'']" by code_simp
  have two: "Suc 1 = 2" "replicate 2 EXECUTING = [EXECUTING, EXECUTING]" by (simp_all add: numeral_2_eq_2)
  show ?thesis using Load_execute_means [OF s b ok, of 1] s unfolding r unfolding two by blast
qed

text \<open>
  A file without a root element, whose top element is a selector, sequence or leaf, loads as
  well. Its tree runs to the end, but then execution looks up the node with the number of its root,
  which was never set, and dereferences null.
\<close>

theorem Execute_without_root:
  assumes "LoadTree l (Some (XNode ty xid op sn sf subs # rest)) w = Inr (Some s)"
    and "ty \<in> {''Selector'', ''Sequence'', ''Condition'', ''Action''}" "steps_ok env"
    and "map_of (nodesOfTree s 0) 255 = None"
  shows "BehaviorTree_execute env s = Some (Inl NullDeref)"
proof -
  have ld: "loadRecur (leafFactory l) root_ptr 0 (XNode ty xid op sn sf subs) (BehaviorTree_init w) = Inr s"
    using assms(1) by (auto simp: LoadTree_def res_Inr_iff simp del: loadRecur.simps)
  obtain b where "behs_of (leafFactory l) (XNode ty xid op sn sf subs) = [b]" using assms(2) by (auto simp: is_leaf_type_def)
  then obtain t where t: "hung t s" "\<not> isInited s" using load_hung [OF ld] by blast
  obtain s1 where s1: "initTree env s = Some s1" "idle t s1" "\<forall>p. shape (nodes s1 p) = shape (nodes s p)"
    "nodesOfTree s1 = nodesOfTree s" using initTree_ok [OF t(1), of env] by blast
  let ?s2 = "s1\<lparr>btState := BTST_EXECUTING\<rparr>"
  have id: "node_id (nodes ?s2 root_ptr) = -1" using s1(3) load_other_id [OF ld assms(2)] by (simp add: shape_def)
  have h: "hung t ?s2" using s1(2) by (simp add: idle_def hung_fields)
  have "u8 (- 1 sdiv 100) = 0" "u8 (- 1 smod 100) = 255" by (simp_all add: u8_def signed_divide_int_def signed_modulo_int_def)
  then obtain s3 where s3: "drive env ?s2 (ExecuteDbg root_ptr) = Some (Inr s3)" "frame (insert root_ptr (set (ptrs t))) ?s2 s3"
    "curDeep s3 = 0" "curIndex s3 = 255" using drive_root [OF h assms(3)] unfolding id by auto
  then have "map_of (nodesOfTree s3 (curDeep s3)) (curIndex s3) = None" using assms(4) s1(4) by (simp add: frame_def)
  then have "BehaviorTree_execute env s1 = Some (Inl NullDeref)"
    using s1(2) h s3(1) by (simp add: BehaviorTree_execute_def idle_def hung_def)
  then show ?thesis using execute_inits [OF t s1(1)] s1(2) by (simp add: idle_def)
qed

theorem Execute_without_root_witness:
  "\<exists>s. LoadTree demo_loader (Some [XNode ''Action'' 1 ''Nop'' [] [] []]) [] = Inr (Some s) \<and>
     BehaviorTree_execute log_env s = Some (Inl NullDeref)"
proof -
  let ?x = "XNode ''Action'' 1 ''Nop'' [] [] []"
  have "\<exists>s. LoadTree demo_loader (Some [?x]) ([] :: string list) = Inr (Some s) \<and> map_of (nodesOfTree s 0) 255 = None"
    by (simp add: load_eval)
  then obtain s where s: "LoadTree demo_loader (Some [?x]) ([] :: string list) = Inr (Some s)" "map_of (nodesOfTree s 0) 255 = None"
    by blast
  have "steps_ok log_env" by (simp add: steps_ok_def log_env_def default_stepInto_def)
  then show ?thesis using Execute_without_root [OF s(1) _ _ s(2), of log_env] s(1) by auto
qed

end
