(* ===== verification/CombatATB.thy ===== *)
theory CombatATB
  imports Prelude "HOL-Library.Signed_Division"
begin

text \<open>
  \<open>game_module/combat/combat/combat_atb.cpp\<close>: the turns of a combat. Every unit waits its own
  time (ATB), then stands in the ready list and attacks when its turn comes; some attack at once.
  What an attack does is an environment: it answers whether it succeeded and which calls of the
  scheduler it made on the way.
\<close>

section \<open>The scheduler\<close>

text \<open>
  A unit is its id, unique within a combat. \<open>atb_set\<close> is a multiset in the order of \<open>ATBCMP\<close>,
  kept as a list; \<open>tick\<close> and \<open>remain_time\<close> are changed in place.
\<close>

record atb_entry =
  interval :: int
  priority :: int
  tick :: int
  remain_time :: int
  atb_unit :: int

record unit_data =
  ATBTime :: int
  AttackPriority :: int
  alive :: bool

record 'w atb =
  atb_set :: "atb_entry list"
  ready_obj_list :: "int list"
  change_obj_vec :: "int list"
  instant_obj_vec :: "int list"
  cur_obj :: "int option"
  active :: bool
  total_tick :: int
  units :: "int \<Rightarrow> unit_data"
  actions :: "(int \<times> int) list"
  world :: 'w

datatype atb_call = CRegister int | CInstant int | CUnRegister int | CUnRegisterAll | CReset int | CChange int
  | CActivate | CDeActivate | CClear | CUnit int unit_data

text \<open>\<open>junk\<close> is the value of a field that the code leaves uninitialised.\<close>

record 'w atb_env =
  StartAttack :: "'w \<Rightarrow> int \<Rightarrow> (bool \<times> atb_call list \<times> 'w) res"
  junk :: int

definition MSEC_PER_TICK :: int where "MSEC_PER_TICK = 100"

definition ATBCMP :: "atb_entry \<Rightarrow> atb_entry \<Rightarrow> bool" where
  "ATBCMP lhs rhs \<longleftrightarrow> remain_time lhs < remain_time rhs \<or> (remain_time lhs = remain_time rhs \<and> priority lhs > priority rhs)"

fun atb_insert :: "atb_entry \<Rightarrow> atb_entry list \<Rightarrow> atb_entry list" where
  "atb_insert e [] = [e]"
| "atb_insert e (x # xs) = (if ATBCMP e x then e # x # xs else x # atb_insert e xs)"

fun erase_unit :: "int \<Rightarrow> atb_entry list \<Rightarrow> atb_entry list" where
  "erase_unit u [] = []"
| "erase_unit u (x # xs) = (if atb_unit x = u then xs else x # erase_unit u xs)"

definition CombatATB_init :: "(int \<Rightarrow> unit_data) \<Rightarrow> 'w \<Rightarrow> 'w atb" where
  "CombatATB_init us w = \<lparr>atb_set = [], ready_obj_list = [], change_obj_vec = [], instant_obj_vec = [], cur_obj = None,
     active = False, total_tick = 0, units = us, actions = [], world = w\<rparr>"

section \<open>Registering\<close>

abbreviation waiting :: "'w atb \<Rightarrow> int set" where
  "waiting s \<equiv> atb_unit ` set (atb_set s)"

definition IsATBExist :: "int \<Rightarrow> 'w atb \<Rightarrow> bool" where
  "IsATBExist u s \<longleftrightarrow> u \<in> waiting s \<or> u \<in> set (ready_obj_list s) \<or> u \<in> set (instant_obj_vec s)"

definition RegisterATB :: "int \<Rightarrow> 'w atb \<Rightarrow> 'w atb" where
  "RegisterATB u s =
     (if IsATBExist u s then s
      else let t = ATBTime (units s u) in
        s\<lparr>atb_set := atb_insert \<lparr>interval = t, priority = AttackPriority (units s u), tick = t sdiv MSEC_PER_TICK,
                               remain_time = t, atb_unit = u\<rparr> (atb_set s)\<rparr>)"

definition UnRegisterATB :: "int \<Rightarrow> 'w atb \<Rightarrow> 'w atb" where
  "UnRegisterATB u s =
     (if \<not> IsATBExist u s then s
      else if u \<in> waiting s then s\<lparr>atb_set := erase_unit u (atb_set s)\<rparr>
      else if u \<in> set (ready_obj_list s) then s\<lparr>ready_obj_list := remove1 u (ready_obj_list s)\<rparr>
      else if u \<in> set (instant_obj_vec s) then s\<lparr>instant_obj_vec := remove1 u (instant_obj_vec s)\<rparr>
      else s\<lparr>change_obj_vec := remove1 u (change_obj_vec s)\<rparr>)"

definition RegisterInstantATB :: "int \<Rightarrow> 'w atb \<Rightarrow> 'w atb" where
  "RegisterInstantATB u s =
     (let s1 = (if IsATBExist u s \<and> cur_obj s \<noteq> Some u then UnRegisterATB u s else s)
      in s1\<lparr>instant_obj_vec := instant_obj_vec s1 @ [u]\<rparr>)"

definition ResetATB :: "int \<Rightarrow> 'w atb \<Rightarrow> 'w atb" where
  "ResetATB u s = RegisterATB u (if IsATBExist u s then UnRegisterATB u s else s)"

definition UnRegisterAllATB :: "'w atb \<Rightarrow> 'w atb" where
  "UnRegisterAllATB s =
     (if atb_set s = [] \<and> change_obj_vec s = [] \<and> instant_obj_vec s = [] \<and> ready_obj_list s = [] then s
      else s\<lparr>atb_set := [], ready_obj_list := [], change_obj_vec := [], instant_obj_vec := []\<rparr>)"

definition OnATBChange :: "int \<Rightarrow> 'w atb \<Rightarrow> 'w atb" where
  "OnATBChange u s = (if u \<in> set (change_obj_vec s) then s else s\<lparr>change_obj_vec := change_obj_vec s @ [u]\<rparr>)"

definition Activate :: "'w atb \<Rightarrow> 'w atb res" where
  "Activate s = assertx (\<not> active s) (Inr (s\<lparr>active := True\<rparr>))"

definition DeActivate :: "'w atb \<Rightarrow> 'w atb res" where
  "DeActivate s = assertx (active s) (Inr (s\<lparr>active := False\<rparr>))"

definition ATB_Clear :: "'w atb \<Rightarrow> 'w atb" where
  "ATB_Clear s = s\<lparr>atb_set := [], ready_obj_list := [], change_obj_vec := [], instant_obj_vec := [], cur_obj := None, active := False\<rparr>"

fun do_call :: "'w atb \<Rightarrow> atb_call \<Rightarrow> 'w atb res" where
  "do_call s (CRegister u) = Inr (RegisterATB u s)"
| "do_call s (CInstant u) = Inr (RegisterInstantATB u s)"
| "do_call s (CUnRegister u) = Inr (UnRegisterATB u s)"
| "do_call s CUnRegisterAll = Inr (UnRegisterAllATB s)"
| "do_call s (CReset u) = Inr (ResetATB u s)"
| "do_call s (CChange u) = Inr (OnATBChange u s)"
| "do_call s CActivate = Activate s"
| "do_call s CDeActivate = DeActivate s"
| "do_call s CClear = Inr (ATB_Clear s)"
| "do_call s (CUnit u d) = Inr (s\<lparr>units := (units s)(u := d)\<rparr>)"

section \<open>The heartbeat\<close>

text \<open>A changed unit gets a new entry with the waiting time left moved by the difference.\<close>

definition changed_tick :: "atb_entry \<Rightarrow> int \<Rightarrow> int" where
  "changed_tick old t =
     (if interval old < t then tick old + (t - interval old) div MSEC_PER_TICK
      else if interval old > t then tick old - (interval old - t) div MSEC_PER_TICK
      else tick old)"

definition change_one :: "'w atb_env \<Rightarrow> (int \<Rightarrow> unit_data) \<Rightarrow> int \<Rightarrow> atb_entry list \<Rightarrow> atb_entry list" where
  "change_one env us u es =
     (case find (\<lambda>e. atb_unit e = u) es of
        None \<Rightarrow> es
      | Some old \<Rightarrow>
          if interval old = ATBTime (us u) \<and> priority old = AttackPriority (us u) then es
          else atb_insert \<lparr>interval = ATBTime (us u), priority = AttackPriority (us u),
                 tick = changed_tick old (ATBTime (us u)), remain_time = junk env, atb_unit = u\<rparr> (erase_unit u es))"

definition DoChange :: "'w atb_env \<Rightarrow> 'w atb \<Rightarrow> 'w atb" where
  "DoChange env s = s\<lparr>atb_set := fold (change_one env (units s)) (change_obj_vec s) (atb_set s), change_obj_vec := []\<rparr>"

fun collect_loop :: "atb_entry list \<Rightarrow> int list \<Rightarrow> (atb_entry list \<times> int list) res" where
  "collect_loop [] ready = Inr ([], ready)"
| "collect_loop (e # es) ready =
     (let e' = e\<lparr>tick := tick e - 1, remain_time := remain_time e - MSEC_PER_TICK\<rparr>
      in if tick e' \<le> 0 then assertx (atb_unit e \<notin> set ready) (collect_loop es (ready @ [atb_unit e]))
         else bindr (collect_loop es ready) (\<lambda>(keep, ready'). Inr (e' # keep, ready')))"

definition CollectReadyATB :: "'w atb \<Rightarrow> 'w atb res" where
  "CollectReadyATB s = bindr (collect_loop (atb_set s) (ready_obj_list s)) (\<lambda>(es, ready).
     Inr (s\<lparr>atb_set := es, ready_obj_list := ready\<rparr>))"

definition CollectInstantATB :: "'w atb \<Rightarrow> 'w atb" where
  "CollectInstantATB s = s\<lparr>ready_obj_list := fold (\<lambda>u l. u # l) (rev (instant_obj_vec s)) (ready_obj_list s), instant_obj_vec := []\<rparr>"

text \<open>The attack of \<open>obj\<close>, if it is alive: whether it succeeded, and the state with the action noted.\<close>

definition attack_one :: "'w atb_env \<Rightarrow> int \<Rightarrow> 'w atb \<Rightarrow> (bool \<times> 'w atb) res" where
  "attack_one env obj s =
     (if alive (units s obj) then
        bindr (StartAttack env (world s) obj) (\<lambda>(ret, calls, w).
          bindr (run do_call (s\<lparr>cur_obj := Some obj, world := w\<rparr>) calls) (\<lambda>s1.
            let s2 = s1\<lparr>cur_obj := None\<rparr>
            in Inr (ret, if ret then s2\<lparr>actions := actions s2 @ [(obj, total_tick s2)]\<rparr> else s2)))
      else Inr (True, s))"

partial_function (option) DoAttack :: "'w atb_env \<Rightarrow> 'w atb \<Rightarrow> 'w atb res option" where
  "DoAttack env s =
     (case ready_obj_list s of
        [] \<Rightarrow> Some (Inr s)
      | obj # rest \<Rightarrow>
          (case attack_one env obj s of
             Inl e \<Rightarrow> Some (Inl e)
           | Inr p \<Rightarrow>
               (if \<not> fst p then Some (Inr (snd p))
                else let s2 = (snd p)\<lparr>ready_obj_list := remove1 obj (ready_obj_list (snd p))\<rparr>
                     in if \<not> active s2 then Some (Inr s2) else DoAttack env (CollectInstantATB s2))))"

declare DoAttack.simps [code]

definition ATB_HeartBeat :: "'w atb_env \<Rightarrow> 'w atb \<Rightarrow> 'w atb res option" where
  "ATB_HeartBeat env s =
     (if \<not> active s then Some (Inr s)
      else case CollectReadyATB (DoChange env (s\<lparr>total_tick := u32 (total_tick s + 1)\<rparr>)) of
             Inl e \<Rightarrow> Some (Inl e)
           | Inr s1 \<Rightarrow> DoAttack env (CollectInstantATB s1))"

section \<open>The order of the waiting list\<close>

abbreviation atb_sorted :: "atb_entry list \<Rightarrow> bool" where
  "atb_sorted \<equiv> sorted_wrt (\<lambda>a b. \<not> ATBCMP b a)"

lemma ATBCMP_trans: "ATBCMP a b \<Longrightarrow> \<not> ATBCMP c b \<Longrightarrow> \<not> ATBCMP c a"
  by (auto simp: ATBCMP_def)

lemma set_atb_insert [simp]: "set (atb_insert e xs) = insert e (set xs)"
  by (induction xs) auto

lemma atb_sorted_insert: "atb_sorted xs \<Longrightarrow> atb_sorted (atb_insert e xs)"
proof (induction xs)
  case (Cons x xs)
  show ?case
  proof (cases "ATBCMP e x")
    case True
    then have "\<not> ATBCMP y e" if "y \<in> set (x # xs)" for y
      using that Cons.prems ATBCMP_trans [of e x y] by (auto simp: ATBCMP_def)
    then show ?thesis using True Cons.prems by auto
  next
    case False
    then show ?thesis using Cons by auto
  qed
qed simp

lemma distinct_insert: "atb_unit e \<notin> atb_unit ` set xs \<Longrightarrow> distinct (map atb_unit xs) \<Longrightarrow> distinct (map atb_unit (atb_insert e xs))"
  by (induction xs) auto

lemma erase_unit_subset: "x \<in> set (erase_unit u xs) \<Longrightarrow> x \<in> set xs"
  by (induction xs) (auto split: if_splits)

lemma erase_unit_props:
  "distinct (map atb_unit xs) \<Longrightarrow> u \<notin> atb_unit ` set (erase_unit u xs)"
  "distinct (map atb_unit xs) \<Longrightarrow> distinct (map atb_unit (erase_unit u xs))"
  "atb_sorted xs \<Longrightarrow> atb_sorted (erase_unit u xs)"
  by (induction xs) (auto dest: erase_unit_subset)

section \<open>The invariant\<close>

text \<open>
  The waiting list is in order with one entry per unit, and no unit waits while it is ready or
  about to attack. A unit may stand twice in the ready list.
\<close>

definition atb_inv :: "'w atb \<Rightarrow> bool" where
  "atb_inv s \<longleftrightarrow> atb_sorted (atb_set s) \<and> distinct (map atb_unit (atb_set s)) \<and>
     waiting s \<inter> (set (ready_obj_list s) \<union> set (instant_obj_vec s)) = {}"

text \<open>
  What a call may assume: \<open>Activate\<close> and \<open>DeActivate\<close> alternate, the unit whose attack is
  running, if it asks for another one at once, is not already waiting again, and nothing is
  cleared during an attack.
\<close>

fun call_pre :: "'w atb \<Rightarrow> atb_call \<Rightarrow> bool" where
  "call_pre s (CInstant u) = (cur_obj s = Some u \<longrightarrow> u \<notin> waiting s)"
| "call_pre s CActivate = (\<not> active s)"
| "call_pre s CDeActivate = active s"
| "call_pre s CClear = (cur_obj s = None)"
| "call_pre s _ = True"

lemma UnRegister_inv:
  assumes "atb_inv s"
  shows "atb_inv (UnRegisterATB u s)" "u \<notin> waiting (UnRegisterATB u s)"
proof -
  have d: "distinct (map atb_unit (atb_set s))" using assms by (simp add: atb_inv_def)
  note e = erase_unit_props [of "atb_set s" u]
  have "atb_unit ` set (erase_unit u (atb_set s)) \<subseteq> waiting s" using erase_unit_subset by fastforce
  moreover have "set (remove1 u xs) \<subseteq> set xs" for xs by (rule set_remove1_subset)
  ultimately show "atb_inv (UnRegisterATB u s)" using assms e(2,3)
    unfolding UnRegisterATB_def atb_inv_def by (simp only: split: if_splits) (simp, blast)+
  show "u \<notin> waiting (UnRegisterATB u s)" using e(1) [OF d] by (auto simp: UnRegisterATB_def IsATBExist_def)
qed

lemma cur_obj_calls [simp]:
  "cur_obj (RegisterATB u s) = cur_obj s" "cur_obj (UnRegisterATB u s) = cur_obj s"
  by (simp_all add: RegisterATB_def UnRegisterATB_def Let_def)

lemma cur_obj_calls' [simp]:
  "cur_obj (ResetATB u s) = cur_obj s" "cur_obj (RegisterInstantATB u s) = cur_obj s"
  "cur_obj (UnRegisterAllATB s) = cur_obj s" "cur_obj (OnATBChange u s) = cur_obj s"
  by (simp_all add: ResetATB_def RegisterInstantATB_def UnRegisterAllATB_def OnATBChange_def Let_def)

lemma Register_inv: "atb_inv s \<Longrightarrow> atb_inv (RegisterATB u s)"
  unfolding atb_inv_def RegisterATB_def IsATBExist_def
  by (auto simp: Let_def atb_sorted_insert distinct_insert)

lemma Instant_inv:
  assumes "atb_inv s" "cur_obj s = Some u \<longrightarrow> u \<notin> waiting s"
  shows "atb_inv (RegisterInstantATB u s)"
proof -
  let ?s1 = "if IsATBExist u s \<and> cur_obj s \<noteq> Some u then UnRegisterATB u s else s"
  have "atb_inv ?s1 \<and> u \<notin> waiting ?s1" using UnRegister_inv [OF assms(1)] assms by (auto simp: IsATBExist_def)
  then show ?thesis by (auto simp: RegisterInstantATB_def Let_def atb_inv_def)
qed

lemma Reset_inv: "atb_inv s \<Longrightarrow> atb_inv (ResetATB u s)"
  by (simp add: ResetATB_def Register_inv UnRegister_inv(1))

lemma call_inv:
  assumes "atb_inv s" "call_pre s c"
  shows "\<exists>s'. do_call s c = Inr s' \<and> atb_inv s' \<and> cur_obj s' = cur_obj s"
proof -
  have "atb_inv (UnRegisterAllATB s)" "atb_inv (OnATBChange u s)" "atb_inv (s\<lparr>active := b\<rparr>)" "atb_inv (s\<lparr>units := us\<rparr>)"
    "atb_inv (ATB_Clear s)" "cur_obj (ATB_Clear s) = None" for u b us
    using assms(1) by (simp_all add: atb_inv_def UnRegisterAllATB_def OnATBChange_def ATB_Clear_def)
  then show ?thesis
    using assms Register_inv UnRegister_inv(1) Instant_inv Reset_inv
    by (cases c) (simp_all add: Activate_def DeActivate_def)
qed

interpretation calls: invariant_system do_call call_pre "\<lambda>s. atb_inv s \<and> cur_obj s = c" for c
  by unfold_locales (use call_inv in fastforce)

section \<open>A heartbeat keeps the invariant\<close>

definition one_beat :: "atb_entry \<Rightarrow> atb_entry" where
  "one_beat e = e\<lparr>tick := tick e - 1, remain_time := remain_time e - MSEC_PER_TICK\<rparr>"

definition due :: "atb_entry list \<Rightarrow> int list" where
  "due es = map atb_unit (filter (\<lambda>e. tick e \<le> 1) es)"

definition still_waiting :: "atb_entry list \<Rightarrow> atb_entry list" where
  "still_waiting es = map one_beat (filter (\<lambda>e. tick e > 1) es)"

text \<open>The assertion of the loop never fails: no unit waits twice or while it is ready.\<close>

lemma collect_loop_eq:
  "distinct (map atb_unit es) \<Longrightarrow> atb_unit ` set es \<inter> set ready = {} \<Longrightarrow>
   collect_loop es ready = Inr (still_waiting es, ready @ due es)"
  by (induction es arbitrary: ready) (auto simp: still_waiting_def due_def one_beat_def Let_def)

lemma still_waiting_props:
  "atb_unit ` set (still_waiting es) \<subseteq> atb_unit ` set es"
  "distinct (map atb_unit es) \<Longrightarrow> distinct (map atb_unit (still_waiting es))"
  "distinct (map atb_unit es) \<Longrightarrow> atb_unit ` set (still_waiting es) \<inter> set (due es) = {}"
  "atb_sorted es \<Longrightarrow> atb_sorted (still_waiting es)"
proof -
  have u: "atb_unit (one_beat e) = atb_unit e" for e by (simp add: one_beat_def)
  show "atb_unit ` set (still_waiting es) \<subseteq> atb_unit ` set es" using u by (auto simp: still_waiting_def)
  show "distinct (map atb_unit es) \<Longrightarrow> distinct (map atb_unit (still_waiting es))"
    using u by (induction es) (auto simp: still_waiting_def)
  show "distinct (map atb_unit es) \<Longrightarrow> atb_unit ` set (still_waiting es) \<inter> set (due es) = {}"
    using u by (fastforce simp: still_waiting_def due_def distinct_map inj_on_def)
  have "ATBCMP (one_beat a) (one_beat b) = ATBCMP a b" for a b by (simp add: ATBCMP_def one_beat_def)
  then show "atb_sorted es \<Longrightarrow> atb_sorted (still_waiting es)"
    by (simp add: still_waiting_def sorted_wrt_map sorted_wrt_filter)
qed

lemma disjoint_sub: "W' \<subseteq> W \<Longrightarrow> W' \<inter> D = {} \<Longrightarrow> W \<inter> R = {} \<Longrightarrow> W \<inter> I = {} \<Longrightarrow> W' \<inter> ((R \<union> D) \<union> I) = {}"
  by blast

lemma CollectReady_inv:
  assumes "atb_inv s"
  shows "CollectReadyATB s = Inr (s\<lparr>atb_set := still_waiting (atb_set s), ready_obj_list := ready_obj_list s @ due (atb_set s)\<rparr>)"
    "atb_inv (s\<lparr>atb_set := still_waiting (atb_set s), ready_obj_list := ready_obj_list s @ due (atb_set s)\<rparr>)"
proof -
  have i: "distinct (map atb_unit (atb_set s))" "waiting s \<inter> set (ready_obj_list s) = {}" "waiting s \<inter> set (instant_obj_vec s) = {}"
    "atb_sorted (atb_set s)" using assms by (auto simp: atb_inv_def)
  note k = still_waiting_props [of "atb_set s"]
  show "CollectReadyATB s = Inr (s\<lparr>atb_set := still_waiting (atb_set s), ready_obj_list := ready_obj_list s @ due (atb_set s)\<rparr>)"
    using collect_loop_eq [OF i(1,2)] by (simp add: CollectReadyATB_def)
  show "atb_inv (s\<lparr>atb_set := still_waiting (atb_set s), ready_obj_list := ready_obj_list s @ due (atb_set s)\<rparr>)"
  proof -
    have "atb_unit ` set (still_waiting (atb_set s)) \<inter>
        ((set (ready_obj_list s) \<union> set (due (atb_set s))) \<union> set (instant_obj_vec s)) = {}"
      by (rule disjoint_sub [OF k(1) k(3) [OF i(1)] i(2,3)])
    then show ?thesis using k(2) [OF i(1)] k(4) [OF i(4)] by (simp add: atb_inv_def)
  qed
qed

lemma CollectInstant_eq:
  "CollectInstantATB s = s\<lparr>ready_obj_list := instant_obj_vec s @ ready_obj_list s, instant_obj_vec := []\<rparr>"
  using fold_Cons_rev [of "rev (instant_obj_vec s)"] by (simp add: CollectInstantATB_def)

lemma CollectInstant_inv: "atb_inv s \<Longrightarrow> atb_inv (CollectInstantATB s)"
  by (auto simp: CollectInstant_eq atb_inv_def)

lemma change_one_inv:
  assumes "atb_sorted es" "distinct (map atb_unit es)"
  shows "atb_sorted (change_one env us u es)" "distinct (map atb_unit (change_one env us u es))"
    "atb_unit ` set (change_one env us u es) \<subseteq> atb_unit ` set es"
proof -
  note e = erase_unit_props [of es u]
  show "atb_sorted (change_one env us u es)" "distinct (map atb_unit (change_one env us u es))"
    using assms e by (auto simp: change_one_def atb_sorted_insert distinct_insert split: option.splits)
  have "atb_unit ` set (erase_unit u es) \<subseteq> atb_unit ` set es" using erase_unit_subset by fastforce
  then show "atb_unit ` set (change_one env us u es) \<subseteq> atb_unit ` set es"
    by (auto simp: change_one_def find_Some_iff split: option.splits)
qed

lemma change_all_inv:
  "atb_sorted es \<Longrightarrow> distinct (map atb_unit es) \<Longrightarrow>
   atb_sorted (fold (change_one env us) xs es) \<and> distinct (map atb_unit (fold (change_one env us) xs es)) \<and>
   atb_unit ` set (fold (change_one env us) xs es) \<subseteq> atb_unit ` set es"
proof (induction xs arbitrary: es)
  case (Cons x xs)
  note c = change_one_inv [OF Cons.prems, of env us x]
  note ih = Cons.IH [OF c(1,2)]
  then have "atb_unit ` set (fold (change_one env us) xs (change_one env us x es)) \<subseteq> atb_unit ` set es"
    using c(3) by (meson order_trans)
  then show ?case using ih by simp
qed simp

lemma DoChange_inv: "atb_inv s \<Longrightarrow> atb_inv (DoChange env s)"
  unfolding atb_inv_def DoChange_def
  using change_all_inv [of "atb_set s" env "units s" "change_obj_vec s"] by (simp, blast)

section \<open>A heartbeat ends\<close>

text \<open>
  Attacks call the scheduler within its preconditions, and a measure of the world bounds the
  attacks at once that are still to come.
\<close>

definition entries :: "'w atb \<Rightarrow> int set" where
  "entries s = waiting s \<union> set (ready_obj_list s) \<union> set (instant_obj_vec s)"

text \<open>
  The world may be tied to the scheduler by a predicate \<open>J\<close> that every attack keeps, given that it
  holds when the attack starts, and that depends on nothing the scheduler does by itself.
\<close>

definition tied :: "('w atb \<Rightarrow> bool) \<Rightarrow> bool" where
  "tied J \<longleftrightarrow> (\<forall>s s'. J s \<and> world s' = world s \<and> active s' = active s \<and> entries s' \<subseteq> entries s \<longrightarrow> J s')"

definition attacks_keep :: "('w atb \<Rightarrow> bool) \<Rightarrow> 'w atb_env \<Rightarrow> bool" where
  "attacks_keep J env \<longleftrightarrow> (\<forall>s u. atb_inv s \<and> active s \<and> u \<in> set (ready_obj_list s) \<and> u \<notin> waiting s \<and> J s \<longrightarrow>
     (case StartAttack env (world s) u of
        Inl e \<Rightarrow> False
      | Inr (ret, calls, w) \<Rightarrow>
          admissible do_call call_pre (s\<lparr>cur_obj := Some u, world := w\<rparr>) calls \<and>
          (\<forall>s'. run do_call (s\<lparr>cur_obj := Some u, world := w\<rparr>) calls = Inr s' \<longrightarrow> J s')))"

abbreviation attacks_ok :: "'w atb_env \<Rightarrow> bool" where
  "attacks_ok \<equiv> attacks_keep (\<lambda>_. True)"

definition instants :: "atb_call list \<Rightarrow> nat" where
  "instants cs = length (filter (\<lambda>c. case c of CInstant _ \<Rightarrow> True | _ \<Rightarrow> False) cs)"

definition finite_instants :: "'w atb_env \<Rightarrow> ('w \<Rightarrow> nat) \<Rightarrow> bool" where
  "finite_instants env b \<longleftrightarrow> (\<forall>w u ret calls w'. StartAttack env w u = Inr (ret, calls, w') \<longrightarrow> b w' + instants calls \<le> b w)"

definition queued :: "int \<Rightarrow> 'w atb \<Rightarrow> nat" where
  "queued u s = length (remove1 u (ready_obj_list s)) + length (instant_obj_vec s)"

lemma length_remove1_le: "length (remove1 x xs) \<le> length xs"
  by (simp add: length_remove1)

lemma UnRegister_queued:
  "queued v (UnRegisterATB u s) \<le> queued v s" "world (UnRegisterATB u s) = world s"
  unfolding UnRegisterATB_def queued_def by (auto simp: remove1_commute [of v u] length_remove1_le)

lemma call_queued:
  assumes "do_call s c = Inr s'"
  shows "queued v s' \<le> queued v s + instants [c]" "world s' = world s"
  using assms UnRegister_queued(1) [of v _ s] UnRegister_queued(2) [of _ s]
  by (cases c; auto simp: RegisterATB_def ResetATB_def RegisterInstantATB_def UnRegisterAllATB_def OnATBChange_def Activate_def
      DeActivate_def ATB_Clear_def assertx_def queued_def instants_def Let_def split: if_splits)+

lemma run_queued: "run do_call s cs = Inr s' \<Longrightarrow> queued v s' \<le> queued v s + instants cs \<and> world s' = world s"
proof (induction cs arbitrary: s)
  case (Cons c cs)
  obtain s1 where s1: "do_call s c = Inr s1" "run do_call s1 cs = Inr s'" using Cons.prems by (auto simp: bindr_Inr_iff)
  have "instants (c # cs) = instants [c] + instants cs" by (simp add: instants_def)
  then show ?case using Cons.IH [OF s1(2)] call_queued(1) [OF s1(1), of v] call_queued(2) [OF s1(1)] by simp
qed (simp add: instants_def)

lemma attack_one_ok:
  assumes "atb_inv s" "active s" "u \<in> set (ready_obj_list s)" "cur_obj s = None" "J s"
    and "tied J" "attacks_keep J env" "finite_instants env b"
  shows "\<exists>ret s'. attack_one env u s = Inr (ret, s') \<and> atb_inv s' \<and> cur_obj s' = None \<and> J s' \<and>
    queued u s' + b (world s') \<le> queued u s + b (world s)"
proof (cases "alive (units s u)")
  case True
  have "u \<notin> waiting s" using assms(1,3) by (auto simp: atb_inv_def)
  then have ok: "case StartAttack env (world s) u of Inl e \<Rightarrow> False | Inr (ret, calls, w) \<Rightarrow>
      admissible do_call call_pre (s\<lparr>cur_obj := Some u, world := w\<rparr>) calls \<and>
      (\<forall>s'. run do_call (s\<lparr>cur_obj := Some u, world := w\<rparr>) calls = Inr s' \<longrightarrow> J s')"
    using assms(1-3,5,7) unfolding attacks_keep_def by blast
  then obtain ret calls w where st: "StartAttack env (world s) u = Inr (ret, calls, w)"
    by (auto split: sum.splits)
  let ?s0 = "s\<lparr>cur_obj := Some u, world := w\<rparr>"
  have adm: "admissible do_call call_pre ?s0 calls" and keep: "\<And>s'. run do_call ?s0 calls = Inr s' \<Longrightarrow> J s'"
    using ok st by auto
  have "atb_inv ?s0 \<and> cur_obj ?s0 = Some u" using assms(1) by (simp add: atb_inv_def)
  from calls.run_inv [OF this adm] obtain s1 where s1: "run do_call ?s0 calls = Inr s1" "atb_inv s1" by blast
  have "queued u s1 \<le> queued u s + instants calls" "world s1 = w" using run_queued [OF s1(1), of u] by (auto simp: queued_def)
  moreover have "b w + instants calls \<le> b (world s)" using assms(8) st unfolding finite_instants_def by blast
  moreover have "atb_inv (s1\<lparr>cur_obj := None\<rparr>)" "atb_inv (s1\<lparr>cur_obj := None, actions := a\<rparr>)" for a
    using s1(2) by (simp_all add: atb_inv_def)
  moreover have "J (s1\<lparr>cur_obj := None\<rparr>)" "J (s1\<lparr>cur_obj := None, actions := a\<rparr>)" for a
  proof -
    have j1: "\<And>s'. world s' = world s1 \<and> active s' = active s1 \<and> entries s' \<subseteq> entries s1 \<longrightarrow> J s'"
      using assms(6) keep [OF s1(1)] unfolding tied_def by blast
    show "J (s1\<lparr>cur_obj := None\<rparr>)" "J (s1\<lparr>cur_obj := None, actions := a\<rparr>)" by (rule j1 [rule_format], simp add: entries_def)+
  qed
  ultimately show ?thesis using True st s1(1) by (auto simp: attack_one_def queued_def Let_def)
next
  case False
  then show ?thesis using assms by (intro exI [of _ True] exI [of _ s]) (simp add: attack_one_def)
qed

lemma remove1_inv: "atb_inv s \<Longrightarrow> atb_inv (s\<lparr>ready_obj_list := remove1 u (ready_obj_list s)\<rparr>)"
  using set_remove1_subset [of u "ready_obj_list s"] by (auto simp: atb_inv_def)

lemma tied_J: "tied J \<Longrightarrow> J s \<Longrightarrow> world s' = world s \<Longrightarrow> active s' = active s \<Longrightarrow> entries s' \<subseteq> entries s \<Longrightarrow> J s'"
  unfolding tied_def by blast

lemma DoAttack_ok:
  assumes "tied J" "attacks_keep J env" "finite_instants env b"
  shows "atb_inv s \<Longrightarrow> active s \<Longrightarrow> cur_obj s = None \<Longrightarrow> J s \<Longrightarrow>
    \<exists>s'. DoAttack env s = Some (Inr s') \<and> atb_inv s' \<and> cur_obj s' = None \<and> J s'"
proof (induction "length (ready_obj_list s) + length (instant_obj_vec s) + b (world s)" arbitrary: s rule: less_induct)
  case less
  show ?case
  proof (cases "ready_obj_list s")
    case Nil
    then show ?thesis using less.prems by (simp add: DoAttack.simps)
  next
    case (Cons u rest)
    obtain ret s1 where s1: "attack_one env u s = Inr (ret, s1)" "atb_inv s1" "cur_obj s1 = None" "J s1"
      "queued u s1 + b (world s1) \<le> queued u s + b (world s)"
      using attack_one_ok [OF less.prems(1,2) _ less.prems(3,4) assms, of u] Cons by auto
    let ?s2 = "s1\<lparr>ready_obj_list := remove1 u (ready_obj_list s1)\<rparr>"
    have i2: "atb_inv ?s2" by (rule remove1_inv [OF s1(2)])
    have e2: "entries ?s2 \<subseteq> entries s1" using set_remove1_subset [of u "ready_obj_list s1"] by (auto simp: entries_def)
    have j2: "J ?s2" by (rule tied_J [OF assms(1) s1(4)]) (use e2 in simp_all)
    show ?thesis
    proof (cases "ret \<and> active s1")
      case False
      then show ?thesis using Cons s1 i2 j2 by (subst DoAttack.simps) auto
    next
      case True
      let ?s3 = "CollectInstantATB ?s2"
      have "queued u s + b (world s) < length (ready_obj_list s) + length (instant_obj_vec s) + b (world s)"
        using Cons by (simp add: queued_def)
      moreover have "length (ready_obj_list ?s3) + length (instant_obj_vec ?s3) + b (world ?s3) = queued u s1 + b (world s1)"
        by (simp add: CollectInstant_eq queued_def)
      ultimately have lt: "length (ready_obj_list ?s3) + length (instant_obj_vec ?s3) + b (world ?s3)
          < length (ready_obj_list s) + length (instant_obj_vec s) + b (world s)" using s1(5) by linarith
      have c3: "active ?s3" "cur_obj ?s3 = None" using True s1(3) by (simp_all add: CollectInstant_eq)
      have "entries ?s3 \<subseteq> entries ?s2" by (auto simp: entries_def CollectInstant_eq)
      then have "J ?s3" by (intro tied_J [OF assms(1) j2]) (simp_all add: CollectInstant_eq)
      then obtain s' where "DoAttack env ?s3 = Some (Inr s')" "atb_inv s'" "cur_obj s' = None" "J s'"
        using less.hyps [OF lt CollectInstant_inv [OF i2] c3] by blast
      then show ?thesis using Cons s1(1) True by (subst DoAttack.simps) simp
    qed
  qed
qed

lemma ATB_beat_ok:
  assumes "tied J" "attacks_keep J env" "finite_instants env b" "atb_inv s" "cur_obj s = None" "J s"
  shows "\<exists>s'. ATB_HeartBeat env s = Some (Inr s') \<and> atb_inv s' \<and> cur_obj s' = None \<and> J s'"
proof (cases "active s")
  case True
  let ?s1 = "DoChange env (s\<lparr>total_tick := u32 (total_tick s + 1)\<rparr>)"
  have i0: "atb_inv (s\<lparr>total_tick := u32 (total_tick s + 1)\<rparr>)" using assms(4) by (simp add: atb_inv_def)
  then have i1: "atb_inv ?s1" by (rule DoChange_inv)
  note c = CollectReady_inv [OF i1]
  let ?s2 = "?s1\<lparr>atb_set := still_waiting (atb_set ?s1), ready_obj_list := ready_obj_list ?s1 @ due (atb_set ?s1)\<rparr>"
  let ?s3 = "CollectInstantATB ?s2"
  have i3: "atb_inv ?s3" by (rule CollectInstant_inv [OF c(2)])
  have w1: "waiting ?s1 \<subseteq> waiting s"
    using change_all_inv [of "atb_set s" env "units s" "change_obj_vec s"] assms(4) by (simp add: DoChange_def atb_inv_def)
  have "set (due es) \<subseteq> atb_unit ` set es" for es by (auto simp: due_def)
  then have "entries ?s3 \<subseteq> entries s" using still_waiting_props(1) [of "atb_set ?s1"] w1
    unfolding entries_def CollectInstant_eq by (simp add: DoChange_def) blast
  then have "J ?s3" by (intro tied_J [OF assms(1,6)]) (simp_all add: CollectInstant_eq DoChange_def)
  then obtain s' where "DoAttack env ?s3 = Some (Inr s')" "atb_inv s'" "cur_obj s' = None" "J s'"
    using DoAttack_ok [OF assms(1-3) i3] True assms(5) by (auto simp: CollectInstant_eq DoChange_def)
  then show ?thesis using True c(1) by (simp add: ATB_HeartBeat_def)
qed (use assms in \<open>simp add: ATB_HeartBeat_def\<close>)

section \<open>Calm attacks\<close>

text \<open>Attacks that succeed and do not call the scheduler.\<close>

definition calm :: "'w atb_env \<Rightarrow> bool" where
  "calm env \<longleftrightarrow> (\<forall>w u. \<exists>w'. StartAttack env w u = Inr (True, [], w'))"

definition turns :: "'w atb \<Rightarrow> int list \<Rightarrow> (int \<times> int) list" where
  "turns s us = map (\<lambda>u. (u, total_tick s)) (filter (\<lambda>u. alive (units s u)) us)"

definition same_but_turns :: "'w atb \<Rightarrow> 'w atb \<Rightarrow> bool" where
  "same_but_turns s s' \<longleftrightarrow> atb_set s' = atb_set s \<and> change_obj_vec s' = change_obj_vec s \<and> active s' = active s \<and>
     total_tick s' = total_tick s \<and> units s' = units s \<and> instant_obj_vec s' = [] \<and> cur_obj s' = None"

lemma DoAttack_calm:
  assumes "calm env"
  shows "active s \<Longrightarrow> instant_obj_vec s = [] \<Longrightarrow> cur_obj s = None \<Longrightarrow>
    \<exists>s'. DoAttack env s = Some (Inr s') \<and> same_but_turns s s' \<and> ready_obj_list s' = [] \<and>
      actions s' = actions s @ turns s (ready_obj_list s)"
proof (induction "ready_obj_list s" arbitrary: s)
  case Nil
  then show ?case by (subst DoAttack.simps) (simp add: same_but_turns_def turns_def)
next
  case (Cons u rest)
  obtain w where w: "StartAttack env (world s) u = Inr (True, [], w)" using assms by (auto simp: calm_def)
  let ?s1 = "if alive (units s u) then s\<lparr>cur_obj := None, world := w, actions := actions s @ [(u, total_tick s)]\<rparr> else s"
  have a: "attack_one env u s = Inr (True, ?s1)" using w by (simp add: attack_one_def)
  let ?s2 = "CollectInstantATB (?s1\<lparr>ready_obj_list := remove1 u (ready_obj_list ?s1)\<rparr>)"
  have r: "ready_obj_list s = u # rest" using Cons.hyps(2) by simp
  have r2: "ready_obj_list ?s2 = rest" "active ?s2" "instant_obj_vec ?s2 = []" "cur_obj ?s2 = None" "atb_set ?s2 = atb_set s"
    "change_obj_vec ?s2 = change_obj_vec s" "total_tick ?s2 = total_tick s" "units ?s2 = units s"
    "actions ?s2 = actions s @ turns s [u]"
    using Cons.prems r by (simp_all add: CollectInstant_eq turns_def)
  obtain s' where s': "DoAttack env ?s2 = Some (Inr s')" "same_but_turns ?s2 s'" "ready_obj_list s' = []"
    "actions s' = actions ?s2 @ turns ?s2 (ready_obj_list ?s2)" using Cons.hyps(1) [of ?s2] r2 by auto
  have "DoAttack env s = DoAttack env ?s2" using r a Cons.prems(1) by (subst DoAttack.simps) simp
  moreover have "actions s' = actions s @ turns s (u # rest)" using s'(4) r2 by (simp add: turns_def)
  ultimately show ?case using s' r r2 Cons.prems(1) unfolding same_but_turns_def by (intro exI [of _ s']) simp
qed

definition in_turn :: "'w atb_env \<Rightarrow> 'w atb \<Rightarrow> int list" where
  "in_turn env s = instant_obj_vec s @ ready_obj_list s @ due (atb_set (DoChange env s))"

lemma HeartBeat_calm:
  assumes "calm env" "atb_inv s" "active s" "cur_obj s = None"
  shows "\<exists>s'. ATB_HeartBeat env s = Some (Inr s') \<and> ready_obj_list s' = [] \<and> instant_obj_vec s' = [] \<and> change_obj_vec s' = [] \<and>
    atb_set s' = still_waiting (atb_set (DoChange env s)) \<and> total_tick s' = u32 (total_tick s + 1) \<and>
    actions s' = actions s @ map (\<lambda>u. (u, u32 (total_tick s + 1))) (filter (\<lambda>u. alive (units s u)) (in_turn env s)) \<and>
    units s' = units s \<and> active s' \<and> cur_obj s' = None"
proof -
  let ?s0 = "s\<lparr>total_tick := u32 (total_tick s + 1)\<rparr>"
  let ?s1 = "DoChange env ?s0"
  let ?s2 = "?s1\<lparr>atb_set := still_waiting (atb_set ?s1), ready_obj_list := ready_obj_list ?s1 @ due (atb_set ?s1)\<rparr>"
  have "atb_inv ?s0" using assms(2) by (simp add: atb_inv_def)
  then have "CollectReadyATB ?s1 = Inr ?s2" by (intro CollectReady_inv(1) DoChange_inv)
  then have h: "ATB_HeartBeat env s = DoAttack env (CollectInstantATB ?s2)" using assms(3) by (simp add: ATB_HeartBeat_def)
  have e: "atb_set ?s1 = atb_set (DoChange env s)" by (simp add: DoChange_def)
  obtain q where q: "q = CollectInstantATB ?s2" by blast
  have c: "active q" "instant_obj_vec q = []" "cur_obj q = None"
    "ready_obj_list q = in_turn env s" "atb_set q = still_waiting (atb_set (DoChange env s))"
    "change_obj_vec q = []" "units q = units s" "total_tick q = u32 (total_tick s + 1)" "actions q = actions s"
    using assms(3,4) e unfolding q by (simp_all add: CollectInstant_eq DoChange_def in_turn_def)
  from DoAttack_calm [OF assms(1) c(1,2,3)] show ?thesis
    unfolding h q [symmetric] by (auto simp: same_but_turns_def turns_def c)
qed

text \<open>Several heartbeats.\<close>

primrec beats :: "'w atb_env \<Rightarrow> nat \<Rightarrow> 'w atb \<Rightarrow> 'w atb res option" where
  "beats env 0 s = Some (Inr s)"
| "beats env (Suc n) s = Option.bind (ATB_HeartBeat env s) (\<lambda>r. case r of Inl e \<Rightarrow> Some (Inl e) | Inr s1 \<Rightarrow> beats env n s1)"

definition turns_of :: "int \<Rightarrow> 'w atb \<Rightarrow> (int \<times> int) list" where
  "turns_of u s = filter (\<lambda>a. fst a = u) (actions s)"

lemma due_none: "u \<notin> atb_unit ` set es \<Longrightarrow> u \<notin> set (due es)"
  by (auto simp: due_def)

lemma filter_eq_single: "distinct xs \<Longrightarrow> filter (\<lambda>x. x = u) xs = (if u \<in> set xs then [u] else [])"
  by (induction xs) auto

lemma due_waiting:
  assumes "distinct (map atb_unit es)" "e \<in> set es"
  shows "filter (\<lambda>x. x = atb_unit e) (due es) = (if tick e \<le> 1 then [atb_unit e] else [])"
    "atb_unit e \<in> atb_unit ` set (still_waiting es) \<longleftrightarrow> \<not> tick e \<le> 1"
    "\<not> tick e \<le> 1 \<Longrightarrow> one_beat e \<in> set (still_waiting es)"
proof -
  have u: "atb_unit (one_beat x) = atb_unit x" for x by (simp add: one_beat_def)
  have same: "x = e" if "x \<in> set es" "atb_unit x = atb_unit e" for x
    using assms that by (simp add: distinct_map inj_on_def)
  have "distinct (due es)" using assms(1) by (induction es) (auto simp: due_def)
  moreover have "atb_unit e \<in> set (due es) \<longleftrightarrow> tick e \<le> 1"
  proof
    assume "atb_unit e \<in> set (due es)"
    then obtain x where "x \<in> set es" "tick x \<le> 1" "atb_unit x = atb_unit e" by (auto simp: due_def)
    then show "tick e \<le> 1" using same by blast
  qed (use assms(2) in \<open>simp add: due_def\<close>)
  ultimately show "filter (\<lambda>x. x = atb_unit e) (due es) = (if tick e \<le> 1 then [atb_unit e] else [])"
    by (simp add: filter_eq_single)
  show "\<not> tick e \<le> 1 \<Longrightarrow> one_beat e \<in> set (still_waiting es)" using assms(2) by (auto simp: still_waiting_def)
  show "atb_unit e \<in> atb_unit ` set (still_waiting es) \<longleftrightarrow> \<not> tick e \<le> 1"
  proof
    assume "atb_unit e \<in> atb_unit ` set (still_waiting es)"
    then obtain x where "x \<in> set es" "tick x > 1" "atb_unit x = atb_unit e" using u by (auto simp: still_waiting_def)
    then show "\<not> tick e \<le> 1" using same by force
  qed (use assms(2) u in \<open>simp add: still_waiting_def image_image\<close>)
qed

text \<open>Between its turns a calm scheduler holds nothing but waiting units.\<close>

definition calm_state :: "'w atb \<Rightarrow> bool" where
  "calm_state s \<longleftrightarrow> atb_inv s \<and> active s \<and> cur_obj s = None \<and> change_obj_vec s = [] \<and> ready_obj_list s = [] \<and> instant_obj_vec s = []"

lemma calm_beat:
  assumes "calm env" "calm_state s" "0 \<le> total_tick s" "total_tick s < 4294967295"
  obtains s' where "ATB_HeartBeat env s = Some (Inr s')" "calm_state s'" "total_tick s' = total_tick s + 1" "units s' = units s"
    "atb_set s' = still_waiting (atb_set s)"
    "actions s' = actions s @ map (\<lambda>u. (u, total_tick s + 1)) (filter (\<lambda>u. alive (units s u)) (due (atb_set s)))"
proof -
  have i: "atb_inv s" "active s" "cur_obj s = None" "DoChange env s = s" "in_turn env s = due (atb_set s)"
    using assms(2) by (simp_all add: calm_state_def DoChange_def in_turn_def)
  have t: "u32 (total_tick s + 1) = total_tick s + 1" using assms(3,4) by (intro u32_id) auto
  obtain s' where s': "ATB_HeartBeat env s = Some (Inr s')" "ready_obj_list s' = []" "instant_obj_vec s' = []" "change_obj_vec s' = []"
    "atb_set s' = still_waiting (atb_set s)" "total_tick s' = total_tick s + 1"
    "actions s' = actions s @ map (\<lambda>u. (u, total_tick s + 1)) (filter (\<lambda>u. alive (units s u)) (due (atb_set s)))"
    "units s' = units s" "active s'" "cur_obj s' = None"
    using HeartBeat_calm [OF assms(1) i(1-3)] unfolding i(4,5) t by blast
  have "atb_inv s'" using i(1) s'(2,3,5) still_waiting_props [of "atb_set s"] by (simp add: atb_inv_def)
  then show ?thesis using that s' by (simp add: calm_state_def)
qed

lemma beats_none:
  assumes "calm env"
  shows "calm_state s \<Longrightarrow> u \<notin> waiting s \<Longrightarrow> 0 \<le> total_tick s \<Longrightarrow> total_tick s + int n < 4294967296 \<Longrightarrow>
    \<exists>s'. beats env n s = Some (Inr s') \<and> turns_of u s' = turns_of u s"
proof (induction n arbitrary: s)
  case (Suc n)
  have lim: "total_tick s < 4294967295" using Suc.prems(4) by simp
  obtain s1 where s1: "ATB_HeartBeat env s = Some (Inr s1)" "calm_state s1" "total_tick s1 = total_tick s + 1"
    "atb_set s1 = still_waiting (atb_set s)"
    "actions s1 = actions s @ map (\<lambda>u. (u, total_tick s + 1)) (filter (\<lambda>u. alive (units s u)) (due (atb_set s)))"
    by (rule calm_beat [OF assms Suc.prems(1,3) lim])
  have "u \<notin> waiting s1" using s1(4) still_waiting_props(1) [of "atb_set s"] Suc.prems(2) by auto
  moreover have "turns_of u s1 = turns_of u s"
    using s1(5) due_none [OF Suc.prems(2)] by (auto simp: turns_of_def filter_empty_conv)
  ultimately show ?case using Suc.IH [OF s1(2)] s1(1,3) Suc.prems(3,4) by simp
qed simp

lemma beats_turn:
  assumes "calm env"
  shows "calm_state s \<Longrightarrow> e \<in> set (atb_set s) \<Longrightarrow> alive (units s (atb_unit e)) \<Longrightarrow> 0 \<le> total_tick s \<Longrightarrow>
    total_tick s + int n < 4294967296 \<Longrightarrow>
    \<exists>s'. beats env n s = Some (Inr s') \<and> turns_of (atb_unit e) s' = turns_of (atb_unit e) s @
      (if max 1 (tick e) \<le> int n then [(atb_unit e, total_tick s + max 1 (tick e))] else [])"
proof (induction n arbitrary: s e)
  case (Suc n)
  let ?u = "atb_unit e"
  have lim: "total_tick s < 4294967295" using Suc.prems(5) by simp
  obtain s1 where s1: "ATB_HeartBeat env s = Some (Inr s1)" "calm_state s1" "total_tick s1 = total_tick s + 1" "units s1 = units s"
    "atb_set s1 = still_waiting (atb_set s)"
    "actions s1 = actions s @ map (\<lambda>u. (u, total_tick s + 1)) (filter (\<lambda>u. alive (units s u)) (due (atb_set s)))"
    by (rule calm_beat [OF assms Suc.prems(1,4) lim])
  have d: "distinct (map atb_unit (atb_set s))" using Suc.prems(1) by (simp add: calm_state_def atb_inv_def)
  note dw = due_waiting [OF d Suc.prems(2)]
  have "filter (\<lambda>a. fst a = ?u) (map (\<lambda>u. (u, total_tick s + 1)) (filter (\<lambda>u. alive (units s u)) (due (atb_set s)))) =
      map (\<lambda>u. (u, total_tick s + 1)) (filter (\<lambda>u. alive (units s u)) (filter (\<lambda>x. x = ?u) (due (atb_set s))))"
    by (simp add: filter_map comp_def conj_commute)
  also have "\<dots> = (if tick e \<le> 1 then [(?u, total_tick s + 1)] else [])" unfolding dw(1) using Suc.prems(3) by simp
  finally have t1: "turns_of ?u s1 = turns_of ?u s @ (if tick e \<le> 1 then [(?u, total_tick s + 1)] else [])"
    using s1(6) by (simp add: turns_of_def)
  show ?case
  proof (cases "tick e \<le> 1")
    case True
    then have "?u \<notin> waiting s1" using dw(2) s1(5) by simp
    then obtain s' where "beats env n s1 = Some (Inr s')" "turns_of ?u s' = turns_of ?u s1"
      using beats_none [OF assms s1(2), of ?u n] s1(3) Suc.prems(4,5) by auto
    then show ?thesis using s1(1) t1 True by simp
  next
    case False
    let ?e = "one_beat e"
    have e: "atb_unit ?e = ?u" "tick ?e = tick e - 1" by (simp_all add: one_beat_def)
    have "?e \<in> set (atb_set s1)" using dw(3) [OF False] s1(5) by simp
    then obtain s' where "beats env n s1 = Some (Inr s')"
      "turns_of ?u s' = turns_of ?u s1 @ (if max 1 (tick e - 1) \<le> int n then [(?u, total_tick s1 + max 1 (tick e - 1))] else [])"
      using Suc.IH [OF s1(2), of ?e] s1(3,4) Suc.prems(3,4,5) unfolding e by auto
    then show ?thesis using s1(1,3) t1 False by simp
  qed
qed simp

section \<open>Properties\<close>

text \<open>A run mixes calls from outside with heartbeats.\<close>

datatype atb_op = OCall atb_call | OBeat

fun atb_step :: "'w atb_env \<Rightarrow> 'w atb \<Rightarrow> atb_op \<Rightarrow> 'w atb res" where
  "atb_step env s (OCall c) = do_call s c"
| "atb_step env s OBeat = (case ATB_HeartBeat env s of None \<Rightarrow> Inl Diverge | Some r \<Rightarrow> r)"

fun atb_pre :: "'w atb \<Rightarrow> atb_op \<Rightarrow> bool" where
  "atb_pre s (OCall c) = call_pre s c"
| "atb_pre s OBeat = True"

lemma atb_step_inv:
  assumes "atb_inv s \<and> cur_obj s = None \<and> attacks_ok env \<and> finite_instants env b" "atb_pre s x"
  shows "\<exists>s'. atb_step env s x = Inr s' \<and> (atb_inv s' \<and> cur_obj s' = None \<and> attacks_ok env \<and> finite_instants env b)"
proof (cases x)
  case (OCall c)
  then show ?thesis using call_inv [of s c] assms by auto
next
  case OBeat
  have "tied (\<lambda>_. True)" by (simp add: tied_def)
  from ATB_beat_ok [OF this, of env b s] OBeat show ?thesis using assms by auto
qed

interpretation sched: invariant_system "atb_step env" atb_pre
  "\<lambda>s. atb_inv s \<and> cur_obj s = None \<and> attacks_ok env \<and> finite_instants env b" for env b
  by unfold_locales (rule atb_step_inv)

text \<open>
  C16: Calls are allowed by the rule \<open>call_pre\<close>: the scheduler is activated only while it is not
  active and deactivated only while it is, it is not cleared during an attack, and a unit does not ask
  for another attack at once (\<open>RegisterInstantATB\<close>) during its own attack while it waits in the list
  (after \<open>ResetATB\<close> in that attack, say: the code fails an assertion then). Attacks return without an
  abort, ask for another attack at once finitely often in all (\<open>finite_instants\<close>), and otherwise make
  any calls the rule allows. Then, whatever is registered, unregistered, reset or changed between
  heartbeats and during attacks, every heartbeat ends and none of the scheduler's assertions fails: no
  unit waits twice, or waits while it is ready or about to attack at once, and the waiting list stays in
  the order of remaining time and priority.
\<close>

theorem atb_runs_safely:
  assumes "attacks_ok env" "finite_instants env b" "admissible (atb_step env) atb_pre (CombatATB_init us w) ops"
  shows "\<exists>s. run (atb_step env) (CombatATB_init us w) ops = Inr s \<and> atb_inv s"
proof -
  have "atb_inv (CombatATB_init us w)" "cur_obj (CombatATB_init us w) = None" by (simp_all add: CombatATB_init_def atb_inv_def)
  then show ?thesis using sched.run_inv [of "CombatATB_init us w" env b ops] assms by blast
qed

text \<open>A world in which unit 1, once, asks for a second attack and unregisters unit 2.\<close>

definition demo_env :: "bool atb_env" where
  "demo_env = \<lparr>StartAttack = (\<lambda>w u. if w \<and> u = 1 then Inr (True, [CInstant 1, CUnRegister 2], False) else Inr (True, [], w)), junk = 0\<rparr>"

definition demo_units :: "int \<Rightarrow> unit_data" where
  "demo_units u = \<lparr>ATBTime = (if u = 1 then 150 else 300), AttackPriority = 0, alive = True\<rparr>"

theorem atb_runs_safely_witness:
  "\<exists>s. run (atb_step demo_env) (CombatATB_init demo_units True) [OCall CActivate, OCall (CRegister 1), OCall (CRegister 2), OBeat] = Inr s \<and>
     atb_inv s"
proof -
  have ok: "attacks_ok demo_env" by (auto simp: attacks_keep_def demo_env_def)
  have fin: "finite_instants demo_env (\<lambda>w. if w then 1 else 0)" by (auto simp: finite_instants_def demo_env_def instants_def)
  have "admissible (atb_step demo_env) atb_pre (CombatATB_init demo_units True)
      [OCall CActivate, OCall (CRegister 1), OCall (CRegister 2), OBeat]"
    by (simp add: CombatATB_init_def Activate_def split: sum.splits)
  from atb_runs_safely [OF ok fin this] show ?thesis .
qed

text \<open>
  C24: When attacks succeed without calling the scheduler, a heartbeat lets act, each once and in
  this order, the units with an attack at once, those left in the ready list, and those whose
  waiting time is over, by remaining time and then priority; dead units are passed over. All
  other units wait one tick less.
\<close>

theorem HeartBeat_serves_in_order:
  assumes "calm env" "atb_inv s" "active s" "cur_obj s = None"
  shows "\<exists>s' es. ATB_HeartBeat env s = Some (Inr s') \<and> es = atb_set (DoChange env s) \<and>
    actions s' = actions s @ map (\<lambda>u. (u, u32 (total_tick s + 1)))
      (filter (\<lambda>u. alive (units s u)) (instant_obj_vec s @ ready_obj_list s @ due es)) \<and>
    atb_sorted (filter (\<lambda>e. tick e \<le> 1) es) \<and> atb_set s' = still_waiting es \<and> ready_obj_list s' = [] \<and> instant_obj_vec s' = []"
proof -
  have "atb_sorted (atb_set (DoChange env s))" using DoChange_inv [OF assms(2)] by (simp add: atb_inv_def)
  then have "atb_sorted (filter (\<lambda>e. tick e \<le> 1) (atb_set (DoChange env s)))" by (rule sorted_wrt_filter)
  then show ?thesis using HeartBeat_calm [OF assms] unfolding in_turn_def by blast
qed

definition calm_env :: "unit atb_env" where
  "calm_env = \<lparr>StartAttack = (\<lambda>w u. Inr (True, [], w)), junk = 0\<rparr>"

definition busy_state :: "unit atb" where
  "busy_state = (CombatATB_init (\<lambda>u. \<lparr>ATBTime = 100 * u, AttackPriority = u, alive = u \<noteq> 4\<rparr>) ())
     \<lparr>active := True, instant_obj_vec := [5], ready_obj_list := [4, 3],
      atb_set := [\<lparr>interval = 100, priority = 1, tick = 1, remain_time = 100, atb_unit = 1\<rparr>,
                  \<lparr>interval = 200, priority = 2, tick = 2, remain_time = 200, atb_unit = 2\<rparr>]\<rparr>"

theorem HeartBeat_serves_in_order_witness:
  "\<exists>s'. ATB_HeartBeat calm_env busy_state = Some (Inr s') \<and> actions s' = [(5, 1), (3, 1), (1, 1)] \<and> map tick (atb_set s') = [1]"
proof -
  have h: "calm calm_env" "atb_inv busy_state" "active busy_state" "cur_obj busy_state = None"
    by (simp_all add: calm_def calm_env_def busy_state_def CombatATB_init_def atb_inv_def ATBCMP_def)
  have e: "atb_set (DoChange calm_env busy_state) = atb_set busy_state" by (simp add: DoChange_def busy_state_def CombatATB_init_def)
  have v: "map (\<lambda>u. (u, u32 (total_tick busy_state + 1)))
      (filter (\<lambda>u. alive (units busy_state u)) (instant_obj_vec busy_state @ ready_obj_list busy_state @ due (atb_set busy_state))) =
      [(5, 1), (3, 1), (1, 1)]" "actions busy_state = []" "map tick (still_waiting (atb_set busy_state)) = [1]"
    by (simp_all add: busy_state_def CombatATB_init_def due_def still_waiting_def one_beat_def u32_def)
  from HeartBeat_serves_in_order [OF h] show ?thesis unfolding e using v by auto
qed

text \<open>
  C31: A unit that registers with a waiting time of \<open>t\<close> milliseconds acts exactly once, at the
  heartbeat number \<open>t / 100\<close> from now (the first one if that is 0), as long as attacks are calm
  and it stays alive.
\<close>

theorem RegisterATB_acts_in_time:
  assumes "calm env" "calm_state s" "\<not> IsATBExist u s" "alive (units s u)" "0 \<le> ATBTime (units s u)"
    and "0 \<le> total_tick s" "total_tick s + int n < 4294967296"
  shows "\<exists>s'. beats env n (RegisterATB u s) = Some (Inr s') \<and> turns_of u s' = turns_of u s @
    (let d = max 1 (ATBTime (units s u) div 100) in if d \<le> int n then [(u, total_tick s + d)] else [])"
proof -
  have t: "ATBTime (units s u) sdiv 100 = ATBTime (units s u) div 100"
    using assms(5) by (cases "ATBTime (units s u) = 0") (simp_all add: signed_divide_int_def)
  obtain e where e: "e = \<lparr>interval = ATBTime (units s u), priority = AttackPriority (units s u), tick = ATBTime (units s u) div 100,
    remain_time = ATBTime (units s u), atb_unit = u\<rparr>" by blast
  have eu: "atb_unit e = u" "tick e = ATBTime (units s u) div 100" by (simp_all add: e)
  have r: "RegisterATB u s = s\<lparr>atb_set := atb_insert e (atb_set s)\<rparr>"
    using assms(3) by (simp add: RegisterATB_def MSEC_PER_TICK_def Let_def e t)
  have c: "calm_state (RegisterATB u s)" using assms(2) Register_inv [of s u] by (simp add: calm_state_def r)
  have m: "e \<in> set (atb_set (RegisterATB u s))" by (simp add: r)
  have f: "units (RegisterATB u s) = units s" "total_tick (RegisterATB u s) = total_tick s" "turns_of u (RegisterATB u s) = turns_of u s"
    by (simp_all add: r turns_of_def)
  from beats_turn [OF assms(1) c m, of n] show ?thesis
    using assms(4,6,7) unfolding eu f Let_def by blast
qed

theorem RegisterATB_acts_in_time_witness:
  "\<exists>s'. beats calm_env 3 (RegisterATB 2 ((CombatATB_init demo_units ())\<lparr>active := True\<rparr>)) = Some (Inr s') \<and> turns_of 2 s' = [(2, 3)]"
proof -
  let ?s = "(CombatATB_init demo_units ())\<lparr>active := True\<rparr>"
  have h: "calm calm_env" "calm_state ?s" "\<not> IsATBExist 2 ?s" "alive (units ?s 2)" "0 \<le> ATBTime (units ?s 2)" "0 \<le> total_tick ?s" "total_tick ?s + int 3 < 4294967296"
    by (simp_all add: calm_def calm_env_def calm_state_def CombatATB_init_def atb_inv_def IsATBExist_def demo_units_def)
  have v: "ATBTime (units ?s 2) div 100 = 3" "total_tick ?s = 0" "turns_of 2 ?s = []"
    by (simp_all add: CombatATB_init_def demo_units_def turns_of_def)
  from RegisterATB_acts_in_time [OF h] show ?thesis unfolding v by simp
qed

end
