(* ===== verification/ObjPool.thy ===== *)
theory ObjPool
  imports Prelude "HOL-Library.Word"
begin

unbundle bit_operations_syntax

text \<open>
  \<open>game_module/combat/global/obj_man.h\<close>: the pools of combats, players and monsters. The free
  objects of a pool form a list linked both ways through the objects themselves; an object is
  handed out locked. \<open>ObjectMan\<close> keeps the objects that receive heartbeats, with insertions and
  removals delayed to the next one. \<open>CombatMan\<close> finds an object by its id.
\<close>

section \<open>The pool\<close>

text \<open>
  An object is its index in the array. \<open>locked\<close> holds the objects whose mutex is taken;
  \<open>handed\<close> notes what \<open>Alloc\<close> has returned.
\<close>

record objpool =
  pPrev :: "nat \<Rightarrow> nat option"
  pNext :: "nat \<Rightarrow> nat option"
  is_active :: "nat \<Rightarrow> bool"
  header :: "nat option"
  tail :: "nat option"
  pool_count :: int
  pool_size :: nat
  locked :: "nat list"
  handed :: "nat list"

definition Pool_Init :: "nat \<Rightarrow> objpool res" where
  "Pool_Init n =
     (if n = 0 then Inl OutOfRange
      else Inr \<lparr>pPrev = (\<lambda>i. if i = 0 then None else Some (i - 1)), pNext = (\<lambda>i. if i = n - 1 then None else Some (i + 1)),
        is_active = (\<lambda>_. False), header = Some 0, tail = Some (n - 1), pool_count = 0, pool_size = n,
        locked = [], handed = []\<rparr>)"

definition Lock :: "nat \<Rightarrow> 'a objpool_scheme \<Rightarrow> 'a objpool_scheme res" where
  "Lock i p = (if i \<in> set (locked p) then Inl Deadlock else Inr (p\<lparr>locked := i # locked p\<rparr>))"

definition Unlock :: "nat \<Rightarrow> 'a objpool_scheme \<Rightarrow> 'a objpool_scheme" where
  "Unlock i p = p\<lparr>locked := removeAll i (locked p)\<rparr>"

definition Pool_Clear :: "nat \<Rightarrow> 'a objpool_scheme \<Rightarrow> 'a objpool_scheme" where
  "Pool_Clear i p = p\<lparr>is_active := (is_active p)(i := False)\<rparr>"

definition Alloc :: "'a objpool_scheme \<Rightarrow> (nat option \<times> 'a objpool_scheme) res" where
  "Alloc p =
     (case header p of
        None \<Rightarrow> Inr (None, p)
      | Some x \<Rightarrow>
          let p1 = p\<lparr>header := pNext p x\<rparr>;
              p2 = (case header p1 of
                      Some y \<Rightarrow> p1\<lparr>pPrev := (pPrev p1)(y := None)\<rparr>
                    | None \<Rightarrow> p1\<lparr>tail := None\<rparr>);
              p3 = p2\<lparr>pool_count := u64 (pool_count p2 + 1)\<rparr>
          in assertx (\<not> is_active p3 x) (bindr (Lock x p3) (\<lambda>p4.
               assertx (\<not> is_active p4 x) (Inr (Some x, p4\<lparr>is_active := (is_active p4)(x := True), handed := handed p4 @ [x]\<rparr>)))))"

definition Free :: "nat \<Rightarrow> 'a objpool_scheme \<Rightarrow> 'a objpool_scheme" where
  "Free x p =
     (let p1 = (if is_active p x then Pool_Clear x p else p);
          p2 = (case tail p1 of
                  None \<Rightarrow> p1\<lparr>header := Some x, tail := Some x, pPrev := (pPrev p1)(x := None), pNext := (pNext p1)(x := None)\<rparr>
                | Some t \<Rightarrow>
                    let q1 = p1\<lparr>pNext := (pNext p1)(t := Some x)\<rparr>;
                        q2 = q1\<lparr>pPrev := (pPrev q1)(x := Some t)\<rparr>;
                        q3 = q2\<lparr>pNext := (pNext q2)(x := None)\<rparr>
                    in q3\<lparr>tail := Some x\<rparr>)
      in p2\<lparr>pool_count := u64 (pool_count p2 - 1)\<rparr>)"

definition GetByIndex :: "nat \<Rightarrow> 'a objpool_scheme \<Rightarrow> nat res" where
  "GetByIndex i p = assertx (i < pool_size p) (Inr i)"

section \<open>The free list\<close>

text \<open>What the links of the pool spell, read forwards and backwards.\<close>

primrec linked :: "(nat \<Rightarrow> nat option) \<Rightarrow> nat option \<Rightarrow> nat list \<Rightarrow> bool" where
  "linked nx h [] = (h = None)"
| "linked nx h (x # xs) = (h = Some x \<and> linked nx (nx x) xs)"

primrec linked_back :: "(nat \<Rightarrow> nat option) \<Rightarrow> nat option \<Rightarrow> nat list \<Rightarrow> bool" where
  "linked_back pv b [] = True"
| "linked_back pv b (x # xs) = (pv x = b \<and> linked_back pv (Some x) xs)"

fun walk :: "nat \<Rightarrow> (nat \<Rightarrow> nat option) \<Rightarrow> nat option \<Rightarrow> nat list" where
  "walk 0 nx h = []"
| "walk (Suc n) nx None = []"
| "walk (Suc n) nx (Some x) = x # walk n nx (nx x)"

definition free_list :: "'a objpool_scheme \<Rightarrow> nat list" where
  "free_list p = walk (pool_size p) (pNext p) (header p)"

definition end_of :: "nat list \<Rightarrow> nat option" where
  "end_of xs = (if xs = [] then None else Some (last xs))"

definition pool_rep :: "'a objpool_scheme \<Rightarrow> nat list \<Rightarrow> bool" where
  "pool_rep p xs \<longleftrightarrow> linked (pNext p) (header p) xs \<and> linked_back (pPrev p) None xs \<and> tail p = end_of xs \<and>
     distinct xs \<and> set xs \<subseteq> {..<pool_size p} \<and> (\<forall>i \<in> set xs. \<not> is_active p i) \<and>
     pool_count p = int (pool_size p) - int (length xs) \<and> pool_size p < 18446744073709551616"

definition pool_inv :: "'a objpool_scheme \<Rightarrow> bool" where
  "pool_inv p \<longleftrightarrow> pool_rep p (free_list p)"

lemma walk_linked: "linked nx h xs \<Longrightarrow> length xs \<le> n \<Longrightarrow> walk n nx h = xs"
proof (induction xs arbitrary: h n)
  case Nil
  then show ?case by (cases n) auto
next
  case (Cons x xs)
  then show ?case by (cases n) auto
qed

lemma distinct_bounded: "distinct xs \<Longrightarrow> set xs \<subseteq> {..<n} \<Longrightarrow> length xs \<le> n"
  using card_mono [of "{..<n}" "set xs"] by (simp add: distinct_card)

lemma pool_rep_free: "pool_rep p xs \<Longrightarrow> free_list p = xs"
  by (simp add: pool_rep_def free_list_def walk_linked distinct_bounded)

lemma pool_rep_inv: "pool_rep p xs \<Longrightarrow> pool_inv p"
  by (simp add: pool_inv_def pool_rep_free)

lemma linked_upd [simp]: "a \<notin> set xs \<Longrightarrow> linked (nx(a := y)) h xs = linked nx h xs"
  by (induction xs arbitrary: h) auto

lemma linked_back_upd [simp]: "a \<notin> set xs \<Longrightarrow> linked_back (pv(a := y)) b xs = linked_back pv b xs"
  by (induction xs arbitrary: b) auto

lemma linked_snoc:
  "linked nx h xs \<Longrightarrow> xs \<noteq> [] \<Longrightarrow> distinct xs \<Longrightarrow> x \<notin> set xs \<Longrightarrow>
   linked (nx(last xs := Some x, x := None)) h (xs @ [x])"
  by (induction xs arbitrary: h) auto

lemma linked_back_snoc:
  "linked_back pv b xs \<Longrightarrow> xs \<noteq> [] \<Longrightarrow> x \<notin> set xs \<Longrightarrow> linked_back (pv(x := Some (last xs))) b (xs @ [x])"
  by (induction xs arbitrary: b) auto

lemma linked_back_head: "linked_back pv b (y # ys) \<Longrightarrow> distinct (y # ys) \<Longrightarrow> linked_back (pv(y := c)) c (y # ys)"
  by simp

lemma Init_rep:
  assumes "0 < n" "n < 18446744073709551616" "Pool_Init n = Inr p"
  shows "pool_rep p [0..<n]" "handed p = []" "locked p = []" "pool_size p = n"
proof -
  let ?nx = "\<lambda>i. if i = n - 1 then None else Some (i + 1)" and ?pv = "\<lambda>i. if i = 0 then None else Some (i - 1)"
  have nx: "i < n \<Longrightarrow> linked ?nx (Some i) [i..<n]" for i
  proof (induction "n - i" arbitrary: i)
    case (Suc k)
    then show ?case
      by (cases "i = n - 1") (auto simp: upt_conv_Cons)
  qed simp
  have pv: "linked_back ?pv (if i = 0 then None else Some (i - 1)) [i..<n]" for i
  proof (induction "n - i" arbitrary: i)
    case (Suc k)
    then have "linked_back ?pv (Some i) [Suc i..<n]" using Suc.hyps(1) [of "Suc i"] by simp
    then show ?case using Suc.hyps(2) by (simp add: upt_conv_Cons)
  qed simp
  from nx [of 0] pv [of 0] show "pool_rep p [0..<n]" "handed p = []" "locked p = []" "pool_size p = n"
    using assms by (auto simp: Pool_Init_def pool_rep_def end_of_def)
qed

lemma Alloc_empty: "pool_rep p [] \<Longrightarrow> Alloc p = Inr (None, p)"
  by (simp add: Alloc_def pool_rep_def)

lemma Alloc_ok:
  assumes "pool_rep p (x # xs)" "x \<notin> set (locked p)"
  shows "\<exists>q. Alloc p = Inr (Some x, q) \<and> pool_rep q xs \<and> handed q = handed p @ [x] \<and> locked q = x # locked p \<and>
    is_active q = (is_active p)(x := True) \<and> pool_size q = pool_size p"
proof -
  have h: "header p = Some x" "linked (pNext p) (pNext p x) xs" "\<not> is_active p x" "distinct (x # xs)"
    "linked_back (pPrev p) (Some x) xs" "pool_count p = int (pool_size p) - int (Suc (length xs))"
    "pool_size p < 18446744073709551616" "set xs \<subseteq> {..<pool_size p}" "x < pool_size p" "tail p = end_of (x # xs)"
    "\<forall>i \<in> set xs. \<not> is_active p i"
    using assms(1) by (auto simp: pool_rep_def)
  have len: "length (x # xs) \<le> pool_size p" using h(4,8,9) by (intro distinct_bounded) auto
  then have c: "u64 (pool_count p + 1) = int (pool_size p) - int (length xs)" using h(6,7) by (subst u64_id) auto
  show ?thesis
  proof (cases xs)
    case Nil
    then have "pNext p x = None" using h(2) by simp
    then show ?thesis using h c assms(2) Nil
      by (simp add: Alloc_def Lock_def pool_rep_def Let_def end_of_def)
  next
    case (Cons y ys)
    then have n: "pNext p x = Some y" using h(2) by simp
    have b: "linked_back ((pPrev p)(y := None)) None (y # ys)" using h(4,5) Cons by simp
    show ?thesis using h c assms(2) Cons n b
      by (auto simp: Alloc_def Lock_def pool_rep_def Let_def end_of_def)
  qed
qed

lemma Free_ok:
  assumes "pool_rep p xs" "x < pool_size p" "x \<notin> set xs"
  shows "pool_rep (Free x p) (xs @ [x])" "handed (Free x p) = handed p" "locked (Free x p) = locked p"
    "pool_size (Free x p) = pool_size p" "is_active (Free x p) = (is_active p)(x := False)"
proof -
  have h: "linked (pNext p) (header p) xs" "linked_back (pPrev p) None xs" "distinct xs" "tail p = end_of xs"
    "pool_count p = int (pool_size p) - int (length xs)" "pool_size p < 18446744073709551616" "set xs \<subseteq> {..<pool_size p}"
    "\<forall>i \<in> set xs. \<not> is_active p i"
    using assms(1) by (auto simp: pool_rep_def)
  have len: "length (x # xs) \<le> pool_size p" using assms(2,3) h(3,7) by (intro distinct_bounded) auto
  then have c: "u64 (pool_count p - 1) = int (pool_size p) - int (Suc (length xs))" using h(5,6) by (subst u64_id) auto
  show "pool_rep (Free x p) (xs @ [x])"
  proof (cases "xs = []")
    case True
    then show ?thesis using h assms(2) c by (auto simp: Free_def Pool_Clear_def pool_rep_def Let_def end_of_def)
  next
    case False
    have t: "last xs \<noteq> x" using False assms(3) by auto
    note s = linked_snoc [OF h(1) False h(3) assms(3)] linked_back_snoc [OF h(2) False assms(3)]
    show ?thesis using h assms(2,3) c False s
      by (auto simp: Free_def Pool_Clear_def pool_rep_def Let_def end_of_def)
  qed
  show "handed (Free x p) = handed p" "locked (Free x p) = locked p" "pool_size (Free x p) = pool_size p"
    "is_active (Free x p) = (is_active p)(x := False)"
    by (auto simp: Free_def Pool_Clear_def Let_def fun_eq_iff split: option.splits)
qed

section \<open>Runs of a pool\<close>

datatype pool_op = PAlloc | PFree nat | PUnlock nat | PClear nat

fun pool_step :: "'a objpool_scheme \<Rightarrow> pool_op \<Rightarrow> 'a objpool_scheme res" where
  "pool_step p PAlloc = bindr (Alloc p) (\<lambda>(r, q). Inr q)"
| "pool_step p (PFree i) = Inr (Free i p)"
| "pool_step p (PUnlock i) = Inr (Unlock i p)"
| "pool_step p (PClear i) = Inr (Pool_Clear i p)"

text \<open>An object is freed once, and before the next object is handed out its mutex is free.\<close>

fun pool_pre :: "'a objpool_scheme \<Rightarrow> pool_op \<Rightarrow> bool" where
  "pool_pre p PAlloc = (\<forall>x. header p = Some x \<longrightarrow> x \<notin> set (locked p))"
| "pool_pre p (PFree i) = (i < pool_size p \<and> i \<notin> set (free_list p))"
| "pool_pre p _ = True"

definition pool_abs :: "'a objpool_scheme \<Rightarrow> nat list \<times> nat list" where
  "pool_abs p = (free_list p, handed p)"

fun pool_spec :: "nat list \<times> nat list \<Rightarrow> pool_op \<Rightarrow> nat list \<times> nat list" where
  "pool_spec (x # xs, h) PAlloc = (xs, h @ [x])"
| "pool_spec (xs, h) (PFree i) = (xs @ [i], h)"
| "pool_spec (xs, h) _ = (xs, h)"

lemma pool_rep_quiet:
  "pool_rep (Unlock i p) xs = pool_rep p xs" "pool_rep p xs \<Longrightarrow> pool_rep (Pool_Clear i p) xs"
  by (auto simp: Unlock_def Pool_Clear_def pool_rep_def)

lemma pool_step_ok:
  assumes "pool_inv p" "pool_pre p a"
  shows "\<exists>q. pool_step p a = Inr q \<and> pool_inv q \<and> pool_abs q = pool_spec (pool_abs p) a \<and> pool_size q = pool_size p"
proof -
  have r: "pool_rep p (free_list p)" using assms(1) by (simp add: pool_inv_def)
  show ?thesis
  proof (cases a)
    case PAlloc
    show ?thesis
    proof (cases "free_list p")
      case Nil
      then show ?thesis using Alloc_empty [of p] r PAlloc assms(1) by (auto simp: pool_abs_def)
    next
      case (Cons x xs)
      then have "x \<notin> set (locked p)" using r assms(2) PAlloc by (simp add: pool_rep_def)
      then obtain q where q: "Alloc p = Inr (Some x, q)" "pool_rep q xs" "handed q = handed p @ [x]" "pool_size q = pool_size p"
        using Alloc_ok [of p x xs] r Cons by auto
      then show ?thesis using PAlloc Cons pool_rep_inv [OF q(2)] pool_rep_free [OF q(2)] by (simp add: pool_abs_def)
    qed
  next
    case (PFree i)
    then have i: "i < pool_size p" "i \<notin> set (free_list p)" using assms(2) by auto
    note f = Free_ok [OF r i]
    show ?thesis using PFree pool_rep_inv [OF f(1)] pool_rep_free [OF f(1)] f(2,4) by (simp add: pool_abs_def)
  next
    case (PUnlock i)
    have u: "pool_rep (Unlock i p) (free_list p)" using r by (simp add: pool_rep_quiet)
    then show ?thesis using PUnlock pool_rep_inv [OF u] pool_rep_free [OF u] by (simp add: pool_abs_def Unlock_def)
  next
    case (PClear i)
    have u: "pool_rep (Pool_Clear i p) (free_list p)" using r by (simp add: pool_rep_quiet)
    then show ?thesis using PClear pool_rep_inv [OF u] pool_rep_free [OF u] by (simp add: pool_abs_def Pool_Clear_def)
  qed
qed

interpretation pool: refinement_system pool_step pool_pre pool_inv pool_abs pool_spec
  by unfold_locales (use pool_step_ok in fastforce)+

text \<open>
  C22: From its initialisation on a pool hands out and takes back objects first in, first out, as
  if its free objects were a queue: while it runs, the links of the objects, the head, the tail and
  the count describe exactly that queue, no object in it is active, and no assertion fails.
\<close>

theorem pool_refines_fifo:
  assumes "0 < n" "n < 18446744073709551616" "Pool_Init n = Inr p" "admissible pool_step pool_pre p ops"
  shows "\<exists>q. run pool_step p ops = Inr q \<and> pool_rep q (free_list q) \<and>
    (free_list q, handed q) = foldl pool_spec ([0..<n], []) ops"
proof -
  note i = Init_rep [OF assms(1-3)]
  have "pool_inv p" "pool_abs p = ([0..<n], [])" using pool_rep_inv [OF i(1)] pool_rep_free [OF i(1)] i(2) by (simp_all add: pool_abs_def)
  then show ?thesis using pool.run_refines [of p ops] assms(4) by (auto simp: pool_abs_def pool_inv_def)
qed

definition pool3 :: objpool where
  "pool3 = \<lparr>pPrev = (\<lambda>i. if i = 0 then None else Some (i - 1)), pNext = (\<lambda>i. if i = 3 - 1 then None else Some (i + 1)),
        is_active = (\<lambda>_. False), header = Some 0, tail = Some (3 - 1), pool_count = 0, pool_size = 3,
        locked = [], handed = []\<rparr>"

lemma pool3: "Pool_Init 3 = Inr pool3"
  by (simp add: Pool_Init_def pool3_def)

theorem pool_refines_fifo_witness:
  "\<exists>q. run pool_step pool3 [PAlloc, PAlloc, PFree 0, PUnlock 0, PAlloc] = Inr q \<and> free_list q = [0] \<and> handed q = [0, 1, 2]"
proof -
  have "admissible pool_step pool_pre pool3 [PAlloc, PAlloc, PFree 0, PUnlock 0, PAlloc]"
    by (simp add: pool3_def Alloc_def Lock_def Free_def Unlock_def Pool_Clear_def Let_def free_list_def eval_nat_numeral u64_def)
  from pool_refines_fifo [OF _ _ pool3 this] obtain q where "run pool_step pool3 [PAlloc, PAlloc, PFree 0, PUnlock 0, PAlloc] = Inr q"
    "(free_list q, handed q) = foldl pool_spec ([0..<3], []) [PAlloc, PAlloc, PFree 0, PUnlock 0, PAlloc]" by auto
  moreover have "[0..<3] = [0, 1, 2::nat]" by code_simp
  ultimately show ?thesis by (intro exI [of _ q]) simp
qed

section \<open>Players and world bosses\<close>

text \<open>
  \<open>ObjQuery\<close> maps a role or a world boss to the index of its object (\<open>global/obj_query.cpp\<close>);
  \<open>key_of\<close> is the id the object has loaded.
\<close>

record keyed_pool = objpool +
  index_map :: "(int \<times> nat) list"
  key_of :: "nat \<Rightarrow> int"

definition GetMappedIndex :: "int \<Rightarrow> 'a keyed_pool_scheme \<Rightarrow> nat option" where
  "GetMappedIndex key p = map_of (index_map p) key"

definition MapObject :: "int \<Rightarrow> nat \<Rightarrow> 'a keyed_pool_scheme \<Rightarrow> bool \<times> 'a keyed_pool_scheme" where
  "MapObject key i p =
     (case map_of (index_map p) key of
        Some _ \<Rightarrow> (False, p)
      | None \<Rightarrow> (True, p\<lparr>index_map := smap_put key i (index_map p)\<rparr>))"

definition UnmapObject :: "int \<Rightarrow> 'a keyed_pool_scheme \<Rightarrow> int \<times> 'a keyed_pool_scheme" where
  "UnmapObject key p = (if map_of (index_map p) key = None then 0 else 1, p\<lparr>index_map := smap_erase key (index_map p)\<rparr>)"

definition AllocPlayer :: "int \<Rightarrow> 'a keyed_pool_scheme \<Rightarrow> (nat option \<times> 'a keyed_pool_scheme) res" where
  "AllocPlayer role p = bindr (Alloc p) (\<lambda>(r, p1).
     case r of
       None \<Rightarrow> Inr (None, p1)
     | Some x \<Rightarrow> (case MapObject role x p1 of
         (mapped, p2) \<Rightarrow> if \<not> mapped then Inr (None, Free x p2) else Inr (Some x, p2)))"

definition FreePlayer :: "nat \<Rightarrow> 'a keyed_pool_scheme \<Rightarrow> 'a keyed_pool_scheme" where
  "FreePlayer x p = Free x (snd (UnmapObject (key_of p x) p))"

definition AllocWorldBoss :: "int \<Rightarrow> 'a keyed_pool_scheme \<Rightarrow> (nat option \<times> 'a keyed_pool_scheme) res" where
  "AllocWorldBoss obj_id p = bindr (Alloc p) (\<lambda>(r, p1).
     case r of
       None \<Rightarrow> Inr (None, p1)
     | Some x \<Rightarrow> (case MapObject obj_id x p1 of
         (mapped, p2) \<Rightarrow> if \<not> mapped then Inr (None, Free x p2) else Inr (Some x, p2)))"

definition FreeWorldBoss :: "nat \<Rightarrow> 'a keyed_pool_scheme \<Rightarrow> 'a keyed_pool_scheme res" where
  "FreeWorldBoss x p = (case UnmapObject (key_of p x) p of (n, p1) \<Rightarrow> assertx (n = 1) (Inr (Free x p1)))"

definition FindPlayer :: "int \<Rightarrow> 'a keyed_pool_scheme \<Rightarrow> nat option res" where
  "FindPlayer role p =
     (case GetMappedIndex role p of None \<Rightarrow> Inr None | Some i \<Rightarrow> bindr (GetByIndex i p) (\<lambda>x. Inr (Some x)))"

definition FindWorldBoss :: "int \<Rightarrow> 'a keyed_pool_scheme \<Rightarrow> nat option res" where
  "FindWorldBoss bossid p =
     (case GetMappedIndex bossid p of None \<Rightarrow> Inr None | Some i \<Rightarrow> bindr (GetByIndex i p) (\<lambda>x. Inr (Some x)))"

lemma Alloc_more: "Alloc p = Inr (r, q) \<Longrightarrow> index_map q = index_map p \<and> key_of q = key_of p"
  by (auto simp: Alloc_def Lock_def assertx_def Let_def bindr_Inr_iff split: option.splits if_splits)

lemma allocs_deadlock:
  "pool_rep p (xs @ x # ys) \<Longrightarrow> set xs \<inter> set (locked p) = {} \<Longrightarrow> x \<in> set (locked p) \<Longrightarrow>
   (\<exists>q. run pool_step p (replicate (length xs) PAlloc) = Inr q) \<and> run pool_step p (replicate (Suc (length xs)) PAlloc) = Inl Deadlock"
proof (induction xs arbitrary: p)
  case Nil
  then have "header p = Some x" "\<not> is_active p x" by (auto simp: pool_rep_def)
  then have "Alloc p = Inl Deadlock" using Nil.prems(3)
    by (cases "pNext p x") (auto simp: Alloc_def Lock_def Let_def)
  then show ?case by simp
next
  case (Cons a xs)
  have "x \<noteq> a" using Cons.prems(1) by (auto simp: pool_rep_def)
  obtain q where q: "Alloc p = Inr (Some a, q)" "pool_rep q (xs @ x # ys)" "locked q = a # locked p"
    using Alloc_ok [of p a "xs @ x # ys"] Cons.prems by auto
  moreover have "a \<notin> set xs" using Cons.prems(1) by (auto simp: pool_rep_def)
  ultimately show ?case using Cons.IH [of q] Cons.prems by auto
qed

text \<open>
  Asking for a player whose role is already in a combat answers null but leaves the object it
  took locked at the end of the free list: once all other free objects have been handed out, the
  next request waits for ever, holding the mutex of the pool.
\<close>

theorem AllocPlayer_twice_deadlocks:
  assumes "pool_rep p (x # xs)" "x \<notin> set (locked p)" "set xs \<inter> set (locked p) = {}" "map_of (index_map p) role = Some y"
  shows "\<exists>q. AllocPlayer role p = Inr (None, q) \<and> pool_rep q (xs @ [x]) \<and>
    (\<exists>r. run pool_step q (replicate (length xs) PAlloc) = Inr r) \<and>
    run pool_step q (replicate (Suc (length xs)) PAlloc) = Inl Deadlock"
proof -
  obtain a where a: "Alloc p = Inr (Some x, a)" "pool_rep a xs" "locked a = x # locked p" "pool_size a = pool_size p"
    using Alloc_ok [OF assms(1,2)] by blast
  have n: "x < pool_size a" "x \<notin> set xs" using assms(1) a(4) by (auto simp: pool_rep_def)
  note f = Free_ok [OF a(2) n]
  have "AllocPlayer role p = Inr (None, Free x a)" using a(1) Alloc_more [OF a(1)] assms(4) by (simp add: AllocPlayer_def MapObject_def)
  moreover have "set xs \<inter> set (locked (Free x a)) = {}" "x \<in> set (locked (Free x a))" using f(3) a(3) n assms(3) by auto
  ultimately show ?thesis using allocs_deadlock [of "Free x a" xs x "[]"] f(1) by auto
qed

definition players3 :: keyed_pool where
  "players3 = objpool.extend pool3 \<lparr>index_map = [(7, 2)], key_of = (\<lambda>_. 7)\<rparr>"

theorem AllocPlayer_twice_deadlocks_witness:
  "\<exists>q. AllocPlayer 7 players3 = Inr (None, q) \<and> run pool_step q [PAlloc, PAlloc, PAlloc] = Inl Deadlock"
proof -
  have "pool_rep players3 (0 # [1, 2])"
    by (auto simp: players3_def pool3_def pool_rep_def end_of_def objpool.defs)
  moreover have "0 \<notin> set (locked players3)" "set [1, 2] \<inter> set (locked players3) = {}" "map_of (index_map players3) 7 = Some 2"
    by (simp_all add: players3_def pool3_def objpool.defs)
  ultimately have "\<exists>q. AllocPlayer 7 players3 = Inr (None, q) \<and> pool_rep q ([1, 2] @ [0]) \<and>
    (\<exists>r. run pool_step q (replicate (length [1, 2 :: nat]) PAlloc) = Inr r) \<and>
    run pool_step q (replicate (Suc (length [1, 2 :: nat])) PAlloc) = Inl Deadlock"
    by (rule AllocPlayer_twice_deadlocks)
  then show ?thesis by (auto simp: numeral_2_eq_2)
qed

section \<open>Object ids\<close>

text \<open>
  \<open>include/combat_types.h\<close>: the type of an object is one bit of the high byte of its id, its
  index the low three bytes.
\<close>

definition MAKE_ID :: "nat \<Rightarrow> nat \<Rightarrow> 32 word" where
  "MAKE_ID type index = (push_bit (23 + type) 1 AND 0xFF000000) + of_nat index"

definition ID2INDEX :: "32 word \<Rightarrow> 32 word" where
  "ID2INDEX oid = oid AND 0x00FFFFFF"

function type_loop :: "32 word \<Rightarrow> nat \<Rightarrow> nat" where
  "type_loop type_mask type = (if type_mask = 0 then type else type_loop (drop_bit 1 type_mask) (type + 1))"
  by pat_completeness auto
termination
proof (relation "measure (\<lambda>(m, _). unat m)")
  fix m :: "32 word" and t :: nat
  assume "m \<noteq> 0"
  then have "0 < unat m" by (simp add: unat_gt_0)
  then show "((drop_bit 1 m, t + 1), m, t) \<in> measure (\<lambda>(m, _). unat m)"
    by (simp add: drop_bit_Suc unat_div_distrib)
qed simp

declare type_loop.simps [simp del]

definition ID2Type :: "32 word \<Rightarrow> nat" where
  "ID2Type oid = type_loop (drop_bit 24 (oid AND 0xFF000000)) 0"

definition QueryByID :: "32 word \<Rightarrow> 'a objpool_scheme \<Rightarrow> nat option res" where
  "QueryByID oid p = (if 0 <s oid then bindr (GetByIndex (unat (ID2INDEX oid)) p) (\<lambda>i. Inr (Some i)) else Inr None)"

lemma types_cases: "t \<in> {1..8} \<Longrightarrow> t = 1 \<or> t = 2 \<or> t = 3 \<or> t = 4 \<or> t = 5 \<or> t = 6 \<or> t = 7 \<or> t = (8::nat)"
  by auto

lemma make_id_high: "t \<in> {1..8} \<Longrightarrow> push_bit (23 + t) 1 AND 0xFF000000 = (word_of_nat (2 ^ (23 + t)) :: 32 word)"
  by (drule types_cases, elim disjE) (simp_all add: push_bit_of_1)

lemma unat_MAKE_ID:
  assumes "t \<in> {1..8}" "i < 2 ^ 24"
  shows "unat (MAKE_ID t i) = 2 ^ (23 + t) + i"
proof -
  have "(2::nat) ^ (23 + t) \<le> 2 ^ 31" using assms(1) by (intro power_increasing) auto
  then have "2 ^ (23 + t) + i < 2 ^ 32" using assms(2) by simp
  moreover have "MAKE_ID t i = word_of_nat (2 ^ (23 + t) + i)" unfolding MAKE_ID_def make_id_high [OF assms(1)] by simp
  ultimately show ?thesis by (simp only: unsigned_of_nat) (simp add: take_bit_nat_eq_self)
qed

lemma word_of_nat_unat_id: "word_of_nat (unat w) = (w :: 32 word)"
  by simp

lemma high_byte: "drop_bit 24 (w AND 0xFF000000 :: 32 word) = drop_bit 24 w AND 0xFF"
  by (simp add: drop_bit_and)

text \<open>
  The id made of a type from 1 to 7 and an index below \<open>2 ^ 24\<close> is positive, and gives back
  both its type and its index.
\<close>

theorem ids_roundtrip:
  assumes "t \<in> {1..7}" "i < 2 ^ 24"
  shows "ID2Type (MAKE_ID t i) = t \<and> unat (ID2INDEX (MAKE_ID t i)) = i \<and> 0 <s MAKE_ID t i"
proof (intro conjI)
  have t: "t \<in> {1..8}" using assms(1) by auto
  note u = unat_MAKE_ID [OF t assms(2)]
  have "23 + t = 24 + (t - 1)" using assms(1) by auto
  then have pw: "(2::nat) ^ (23 + t) = 2 ^ 24 * 2 ^ (t - 1)" by (simp only: power_add)
  have "unat (drop_bit 24 (MAKE_ID t i)) = (2 ^ 24 * 2 ^ (t - 1) + i) div 2 ^ 24"
    by (subst unat_drop_bit_eq) (simp only: drop_bit_eq_div u pw)
  then have "unat (drop_bit 24 (MAKE_ID t i)) = 2 ^ (t - 1)" using assms(2) by simp
  then have d: "drop_bit 24 (MAKE_ID t i) = word_of_nat (2 ^ (t - 1))" by (metis word_of_nat_unat_id)
  show "ID2Type (MAKE_ID t i) = t"
    unfolding ID2Type_def high_byte d using types_cases [OF t]
    by (elim disjE) (simp_all add: type_loop.simps)
  have "ID2INDEX w = take_bit 24 w" for w by (simp add: ID2INDEX_def take_bit_eq_mask mask_eq_exp_minus_1)
  then have "unat (ID2INDEX (MAKE_ID t i)) = (2 ^ 24 * 2 ^ (t - 1) + i) mod 2 ^ 24"
    by (simp only:) (subst unsigned_take_bit_eq, simp only: take_bit_eq_mod u pw)
  then show "unat (ID2INDEX (MAKE_ID t i)) = i" using assms(2) by simp
  have "2 ^ (23 + t) \<le> (2::nat) ^ 30" using assms(1) by (intro power_increasing) auto
  then have "unat (MAKE_ID t i) < 2147483648" "0 < unat (MAKE_ID t i)" using u assms(2) by auto
  then have "uint (MAKE_ID t i) < 2147483648" "0 < uint (MAKE_ID t i)" unfolding uint_nat by linarith+
  moreover from this have "signed_take_bit 31 (uint (MAKE_ID t i)) = uint (MAKE_ID t i)" by (intro signed_take_bit_int_eq_self) auto
  ultimately show "0 <s MAKE_ID t i" by (simp add: word_sless_alt sint_uint)
qed

theorem ids_roundtrip_witness: "ID2Type (MAKE_ID 3 4999) = 3 \<and> unat (ID2INDEX (MAKE_ID 3 4999)) = 4999"
  using ids_roundtrip [of 3 4999] by simp

end
