(* ===== verification/ObjMan.thy ===== *)
theory ObjMan
  imports ObjPool
begin

text \<open>
  The rest of \<open>game_module/combat/global/obj_man.h\<close>: \<open>ObjectMan\<close> keeps the objects of a pool
  that receive heartbeats. Insertions and removals may happen at any time, during a heartbeat too,
  and take effect when the next one begins.
\<close>

section \<open>The manager\<close>

text \<open>
  \<open>obj_set\<close> is a \<open>std::set\<close> of pointers into the array, in the order of indices. What an object
  does in its heartbeat is an environment: given the state it finds, the calls it makes here and
  the new state of a world of its own.
\<close>

record 'w objman = objpool +
  obj_set :: "nat list"
  change_map :: "(nat \<times> int) list"
  cur_obj :: "nat option"
  man_world :: 'w
  beaten :: "nat list"

datatype man_op = MInsert nat | MRemove nat | MPool pool_op

type_synonym 'w beat_env = "'w objman \<Rightarrow> nat \<Rightarrow> man_op list \<times> 'w"

definition change_of :: "'w objman \<Rightarrow> nat \<Rightarrow> int" where
  "change_of m i = (case map_of (change_map m) i of None \<Rightarrow> 0 | Some c \<Rightarrow> c)"

definition Man_Insert :: "nat \<Rightarrow> 'w objman \<Rightarrow> 'w objman" where
  "Man_Insert i m = m\<lparr>change_map := smap_put i (change_of m i + 1) (change_map m)\<rparr>"

definition Man_Remove :: "nat \<Rightarrow> 'w objman \<Rightarrow> 'w objman" where
  "Man_Remove i m = m\<lparr>change_map := smap_put i (change_of m i - 1) (change_map m)\<rparr>"

definition DoInsert :: "nat \<Rightarrow> 'w objman \<Rightarrow> 'w objman res" where
  "DoInsert i m = assertx (i \<notin> set (obj_set m)) (Inr (m\<lparr>obj_set := sset_insert (\<lambda>x. x) i (obj_set m)\<rparr>))"

definition DoDelete :: "nat \<Rightarrow> 'w objman \<Rightarrow> 'w objman res" where
  "DoDelete i m =
     (let m1 = (if cur_obj m = Some i
                then m\<lparr>cur_obj := (case filter (\<lambda>j. i < j) (obj_set m) of [] \<Rightarrow> None | j # _ \<Rightarrow> Some j)\<rparr> else m)
      in assertx (i \<in> set (obj_set m1)) (Inr (m1\<lparr>obj_set := sset_erase (\<lambda>x. x) i (obj_set m1)\<rparr>)))"

fun apply_changes :: "(nat \<times> int) list \<Rightarrow> 'w objman \<Rightarrow> 'w objman res" where
  "apply_changes [] m = Inr m"
| "apply_changes ((i, c) # cs) m =
     (if c = 0 then apply_changes cs m
      else assertx (c = - 1 \<or> c = 1 \<or> c = 0)
        (bindr (if c > 0 then DoInsert i m else DoDelete i m) (apply_changes cs)))"

definition Man_DoChange :: "'w objman \<Rightarrow> 'w objman res" where
  "Man_DoChange m = bindr (apply_changes (change_map m) m) (\<lambda>m1. Inr (m1\<lparr>change_map := []\<rparr>))"

text \<open>\<open>pushes\<close> is the \<open>Insertor\<close>: the managers of players and monsters collect nobody.\<close>

definition CollectHeartBeatObject :: "bool \<Rightarrow> 'w objman \<Rightarrow> (nat list \<times> 'w objman) res" where
  "CollectHeartBeatObject pushes m = bindr (Man_DoChange m) (\<lambda>m1. Inr (if pushes then obj_set m1 else [], m1))"

fun man_do :: "'w objman \<Rightarrow> man_op \<Rightarrow> 'w objman res" where
  "man_do m (MInsert i) = Inr (Man_Insert i m)"
| "man_do m (MRemove i) = Inr (Man_Remove i m)"
| "man_do m (MPool a) = pool_step m a"

fun beat_list :: "'w beat_env \<Rightarrow> nat list \<Rightarrow> 'w objman \<Rightarrow> 'w objman res" where
  "beat_list env [] m = Inr m"
| "beat_list env (i # is) m = bindr (Lock i m) (\<lambda>m1.
     if \<not> is_active m1 i then beat_list env is (Unlock i m1)
     else (case env m1 i of (ops, w) \<Rightarrow>
       bindr (run man_do (m1\<lparr>man_world := w, beaten := beaten m1 @ [i]\<rparr>) ops) (\<lambda>m2. beat_list env is (Unlock i m2))))"

definition Man_HeartBeat :: "'w beat_env \<Rightarrow> bool \<Rightarrow> 'w objman \<Rightarrow> 'w objman res" where
  "Man_HeartBeat env pushes m = bindr (CollectHeartBeatObject pushes m) (\<lambda>(list, m1).
     if list = [] then Inr m1 else beat_list env list m1)"

section \<open>The members\<close>

text \<open>An object is a member if it is in the set and not to be removed, or is to be inserted.\<close>

definition held :: "'w objman \<Rightarrow> nat \<Rightarrow> int" where
  "held m i = (if i \<in> set (obj_set m) then 1 else 0) + change_of m i"

definition members :: "'w objman \<Rightarrow> nat set" where
  "members m = {i. held m i = 1}"

definition man_inv :: "'w objman \<Rightarrow> bool" where
  "man_inv m \<longleftrightarrow> pool_inv m \<and> cur_obj m = None \<and> sset_inv (\<lambda>x. x) (obj_set m) \<and> smap_inv (change_map m) \<and> (\<forall>i. held m i = 0 \<or> held m i = 1)"

fun man_pre :: "'w objman \<Rightarrow> man_op \<Rightarrow> bool" where
  "man_pre m (MInsert i) = (i \<notin> members m)"
| "man_pre m (MRemove i) = (i \<in> members m)"
| "man_pre m (MPool a) = pool_pre m a"

lemma pool_step_more:
  assumes "pool_step m a = Inr m'"
  shows "obj_set m' = obj_set m" "change_map m' = change_map m" "cur_obj m' = cur_obj m"
  using assms by (cases a; auto simp: Alloc_def Free_def Lock_def Unlock_def Pool_Clear_def assertx_def Let_def bindr_Inr_iff
      split: option.splits if_splits)+

lemma held_cong: "obj_set m' = obj_set m \<Longrightarrow> change_map m' = change_map m \<Longrightarrow> held m' i = held m i"
  by (simp add: held_def change_of_def)

lemma pool_inv_more [simp]:
  "pool_inv (m\<lparr>obj_set := s\<rparr>) = pool_inv m" "pool_inv (m\<lparr>change_map := cm\<rparr>) = pool_inv m"
  "pool_inv (m\<lparr>man_world := w\<rparr>) = pool_inv m" "pool_inv (m\<lparr>beaten := b\<rparr>) = pool_inv m"
  "pool_inv (m\<lparr>cur_obj := c\<rparr>) = pool_inv m" "pool_inv (m\<lparr>locked := l\<rparr>) = pool_inv m"
  by (simp_all add: pool_inv_def pool_rep_def free_list_def)

lemma held_put:
  assumes "smap_inv (change_map m)"
  shows "held (Man_Insert i m) j = held m j + (if j = i then 1 else 0)" "held (Man_Remove i m) j = held m j - (if j = i then 1 else 0)"
  using assms by (simp_all add: held_def change_of_def Man_Insert_def Man_Remove_def)

lemma man_do_ok:
  assumes "man_inv m" "man_pre m a"
  shows "\<exists>m'. man_do m a = Inr m' \<and> man_inv m'"
proof (cases a)
  case (MInsert i)
  then have "held m i = 0" using assms by (auto simp: man_inv_def members_def)
  then show ?thesis using assms(1) MInsert held_put(1) [of m i] by (simp add: man_inv_def) (simp add: Man_Insert_def)
next
  case (MRemove i)
  then have "held m i = 1" using assms by (auto simp: man_inv_def members_def)
  then show ?thesis using assms(1) MRemove held_put(2) [of m i] by (simp add: man_inv_def) (simp add: Man_Remove_def)
next
  case (MPool p)
  then obtain m' where "pool_step m p = Inr m'" "pool_inv m'" using assms pool_step_ok [of m p] by (auto simp: man_inv_def)
  moreover note pool_step_more [OF this(1)]
  ultimately show ?thesis using MPool assms(1) held_cong [of m' m] by (intro exI [of _ m']) (simp add: man_inv_def)
qed

interpretation man: invariant_system man_do man_pre man_inv
  by unfold_locales (rule man_do_ok)

section \<open>A heartbeat\<close>

lemma apply_changes_ok:
  "distinct (map fst cs) \<Longrightarrow> sset_inv (\<lambda>x. x) (obj_set m) \<Longrightarrow> cur_obj m = None \<Longrightarrow>
   \<forall>(i, c) \<in> set cs. (if i \<in> set (obj_set m) then 1 else 0) + c \<in> {0, 1} \<Longrightarrow>
   \<exists>s. apply_changes cs m = Inr (m\<lparr>obj_set := s\<rparr>) \<and> sset_inv (\<lambda>x. x) s \<and>
     (\<forall>i. i \<in> set s \<longleftrightarrow> (if i \<in> set (obj_set m) then 1 else 0) + (case map_of cs i of None \<Rightarrow> 0 | Some c \<Rightarrow> c) = (1 :: int))"
proof (induction cs arbitrary: m)
  case Nil
  then show ?case by (intro exI [of _ "obj_set m"]) auto
next
  case (Cons e cs)
  obtain k c where e: "e = (k, c)" by (cases e)
  let ?in = "\<lambda>s i. if i \<in> set s then 1 else (0 :: int)"
  have k: "?in (obj_set m) k + c \<in> {0, 1}" "k \<notin> fst ` set cs" using Cons.prems(1,4) e by auto
  have rest: "?in (obj_set m) i + d \<in> {0, 1}" "i \<noteq> k" if "(i, d) \<in> set cs" for i d
    using Cons.prems(1,4) e that by (auto simp: rev_image_eqI)
  define s1 where "s1 = (if c = 0 then obj_set m else if c > 0 then sset_insert (\<lambda>x. x) k (obj_set m) else sset_erase (\<lambda>x. x) k (obj_set m))"
  have in1: "?in s1 i = ?in (obj_set m) i + (if i = k then c else 0)" for i
    using k(1) by (auto simp: s1_def set_sset_insert set_sset_erase split: if_splits)
  have step: "apply_changes (e # cs) m = apply_changes cs (m\<lparr>obj_set := s1\<rparr>)"
    using k(1) Cons.prems(3) by (auto simp: e s1_def DoInsert_def DoDelete_def split: if_splits)
  obtain s where s: "apply_changes cs (m\<lparr>obj_set := s1\<rparr>) = Inr (m\<lparr>obj_set := s\<rparr>)" "sset_inv (\<lambda>x. x) s"
      "\<And>i. i \<in> set s \<longleftrightarrow> ?in s1 i + (case map_of cs i of None \<Rightarrow> 0 | Some c \<Rightarrow> c) = 1"
  proof -
    have "sset_inv (\<lambda>x. x) s1" using Cons.prems(2) by (simp add: s1_def)
    moreover have "\<forall>(i, d) \<in> set cs. ?in s1 i + d \<in> {0, 1}" using rest in1 by fastforce
    ultimately show ?thesis using that Cons.IH [of "m\<lparr>obj_set := s1\<rparr>"] Cons.prems(1,3) e by auto
  qed
  have "map_of cs k = None" using k(2) by (simp add: map_of_eq_None_iff)
  then have res: "i \<in> set s \<longleftrightarrow> ?in (obj_set m) i + (case map_of (e # cs) i of None \<Rightarrow> 0 | Some c \<Rightarrow> c) = 1" for i
    using s(3) [of i] in1 [of i] by (cases "i = k") (simp_all add: e)
  show ?case using s(1,2) res unfolding step by blast
qed

lemma DoChange_ok:
  assumes "man_inv m"
  shows "\<exists>m'. Man_DoChange m = Inr m' \<and> man_inv m' \<and> set (obj_set m') = members m \<and> members m' = members m \<and>
    change_map m' = [] \<and> is_active m' = is_active m \<and> locked m' = locked m \<and> beaten m' = beaten m \<and> man_world m' = man_world m"
proof -
  have h: "sset_inv (\<lambda>x. x) (obj_set m)" "smap_inv (change_map m)" "cur_obj m = None" "pool_inv m" "\<And>i. held m i \<in> {0, 1}"
    using assms by (auto simp: man_inv_def)
  have "(if i \<in> set (obj_set m) then 1 else 0) + c \<in> {0, 1}" if "(i, c) \<in> set (change_map m)" for i c
  proof -
    have "map_of (change_map m) i = Some c" using that h(2) by (simp add: smap_map_of_iff)
    then show ?thesis using h(5) [of i] by (simp add: held_def change_of_def)
  qed
  then have "\<forall>(i, c) \<in> set (change_map m). (if i \<in> set (obj_set m) then 1 else 0) + c \<in> {0, 1}" by blast
  from apply_changes_ok [OF _ h(1,3) this] obtain s where s: "apply_changes (change_map m) m = Inr (m\<lparr>obj_set := s\<rparr>)" "sset_inv (\<lambda>x. x) s"
    "\<forall>i. i \<in> set s \<longleftrightarrow> held m i = 1" using h(2) by (auto simp: sset_inv_def held_def change_of_def)
  let ?m = "m\<lparr>obj_set := s, change_map := []\<rparr>"
  have hs: "held ?m i = (if i \<in> set s then 1 else 0)" for i by (simp add: held_def change_of_def)
  have ms: "set s = members m" using s(3) by (auto simp: members_def)
  have "members ?m = members m" unfolding ms [symmetric] by (auto simp: members_def hs)
  moreover have "man_inv ?m" using s(2) h(3,4) hs by (simp add: man_inv_def)
  ultimately show ?thesis using s(1) ms by (intro exI [of _ ?m]) (simp add: Man_DoChange_def)
qed

text \<open>
  What objects may do in their heartbeat: calls within the preconditions above, giving back every
  mutex they take.
\<close>

definition beats_ok :: "'w beat_env \<Rightarrow> bool" where
  "beats_ok env \<longleftrightarrow> (\<forall>m i. man_inv m \<and> locked m = [i] \<and> is_active m i \<longrightarrow>
     (case env m i of (ops, w) \<Rightarrow>
        admissible man_do man_pre (m\<lparr>man_world := w, beaten := beaten m @ [i]\<rparr>) ops \<and>
        (\<forall>m'. run man_do (m\<lparr>man_world := w, beaten := beaten m @ [i]\<rparr>) ops = Inr m' \<longrightarrow> locked m' = [i])))"

lemma man_inv_more [simp]:
  "man_inv (m\<lparr>man_world := w, beaten := b\<rparr>) = man_inv m" "man_inv (m\<lparr>locked := l\<rparr>) = man_inv m"
  by (simp_all add: man_inv_def held_def change_of_def)

lemma beat_list_ok:
  assumes "beats_ok env"
  shows "man_inv m \<Longrightarrow> locked m = [] \<Longrightarrow> \<exists>m'. beat_list env is m = Inr m' \<and> man_inv m' \<and> locked m' = []"
proof (induction "is" arbitrary: m)
  case (Cons i "is")
  let ?m1 = "m\<lparr>locked := [i]\<rparr>"
  have l: "Lock i m = Inr ?m1" "man_inv ?m1" using Cons.prems by (simp_all add: Lock_def)
  have u: "Unlock i q = q\<lparr>locked := []\<rparr>" if "locked q = [i]" for q using that by (simp add: Unlock_def)
  show ?case
  proof (cases "is_active m i")
    case False
    have "Unlock i ?m1 = m" using Cons.prems(2) by (simp add: u)
    then show ?thesis using Cons.IH [OF Cons.prems] l(1) False by simp
  next
    case True
    obtain ops w where e: "env ?m1 i = (ops, w)" by (cases "env ?m1 i")
    let ?m2 = "?m1\<lparr>man_world := w, beaten := beaten ?m1 @ [i]\<rparr>"
    have i2: "man_inv ?m2" using Cons.prems(1) by (simp add: man_inv_def held_def change_of_def)
    have b: "admissible man_do man_pre ?m2 ops" "\<And>q. run man_do ?m2 ops = Inr q \<Longrightarrow> locked q = [i]"
      using assms [unfolded beats_ok_def, rule_format, of ?m1 i] True l(2) e by auto
    from man.run_inv [OF i2 b(1)] obtain q where q: "run man_do ?m2 ops = Inr q" "man_inv q" by blast
    have "man_inv (Unlock i q)" "locked (Unlock i q) = []" using q(2) u [OF b(2) [OF q(1)]] by simp_all
    from Cons.IH [OF this] show ?thesis using l(1) True e q(1) by simp
  qed
qed simp

section \<open>Properties\<close>

datatype beat_op = TOp man_op | TBeat bool

fun beat_step :: "'w beat_env \<Rightarrow> 'w objman \<Rightarrow> beat_op \<Rightarrow> 'w objman res" where
  "beat_step env m (TOp a) = man_do m a"
| "beat_step env m (TBeat pushes) = Man_HeartBeat env pushes m"

fun beat_pre :: "'w objman \<Rightarrow> beat_op \<Rightarrow> bool" where
  "beat_pre m (TOp a) = man_pre m a"
| "beat_pre m (TBeat pushes) = (locked m = [])"

lemma beat_step_ok:
  assumes "man_inv m \<and> beats_ok env" "beat_pre m a"
  shows "\<exists>m'. beat_step env m a = Inr m' \<and> man_inv m' \<and> beats_ok env"
proof (cases a)
  case (TOp b)
  then show ?thesis using man_do_ok [of m b] assms by auto
next
  case (TBeat pushes)
  obtain m1 where m1: "Man_DoChange m = Inr m1" "man_inv m1" "locked m1 = locked m" using DoChange_ok [of m] assms(1) by blast
  then obtain m2 where "beat_list env (obj_set m1) m1 = Inr m2" "man_inv m2"
    using beat_list_ok [of env m1 "obj_set m1"] TBeat assms by auto
  then show ?thesis using m1 TBeat assms(1) by (simp add: Man_HeartBeat_def CollectHeartBeatObject_def)
qed

interpretation beats: invariant_system "beat_step env" beat_pre "\<lambda>m. man_inv m \<and> beats_ok env" for env
  by unfold_locales (rule beat_step_ok)

definition Man_init :: "objpool \<Rightarrow> 'w \<Rightarrow> 'w objman" where
  "Man_init p w = objpool.extend p \<lparr>obj_set = [], change_map = [], cur_obj = None, man_world = w, beaten = []\<rparr>"

text \<open>
  C32: While objects are allocated, inserted, removed and freed in any order, between heartbeats
  and during them, every heartbeat returns and no assertion of the pool or of the delayed changes
  fails, provided that an object is inserted only when it is not a member, removed only when it is,
  and freed once.
\<close>

theorem objects_beat_safely:
  assumes "0 < n" "n < 18446744073709551616" "Pool_Init n = Inr p" "beats_ok env"
    and "admissible (beat_step env) beat_pre (Man_init p w) ops"
  shows "\<exists>m. run (beat_step env) (Man_init p w) ops = Inr m \<and> man_inv m \<and> pool_inv m"
proof -
  have "pool_inv p" using Init_rep(1) [OF assms(1-3)] by (rule pool_rep_inv)
  then have "man_inv (Man_init p w)"
    by (simp add: man_inv_def Man_init_def pool_inv_def pool_rep_def free_list_def objpool.defs held_def change_of_def)
  then obtain m where "run (beat_step env) (Man_init p w) ops = Inr m" "man_inv m" using beats.run_inv [of "Man_init p w" env ops] assms(4,5) by blast
  then show ?thesis by (auto simp: man_inv_def)
qed

text \<open>The first object, when it is a member, leaves and frees itself.\<close>

definition leaving_env :: "unit beat_env" where
  "leaving_env m i = (if i = 0 \<and> held m 0 = 1 \<and> 0 < pool_size m then ([MRemove 0, MPool (PFree 0)], ()) else ([], ()))"

lemma leaving_ok: "beats_ok leaving_env"
proof -
  have "admissible man_do man_pre (m\<lparr>man_world := (), beaten := b\<rparr>) [MRemove 0, MPool (PFree 0)]"
    if "man_inv m" "is_active m 0" "held m 0 = 1" "0 < pool_size m" for m :: "unit objman" and b
  proof -
    let ?m = "Man_Remove 0 (m\<lparr>man_world := (), beaten := b\<rparr>)"
    have "0 \<notin> set (free_list m)" using that(1,2) by (auto simp: man_inv_def pool_inv_def pool_rep_def)
    moreover have "free_list ?m = free_list m" "pool_size ?m = pool_size m" by (simp_all add: free_list_def Man_Remove_def)
    ultimately show ?thesis using that(3,4) by (simp add: members_def held_def change_of_def)
  qed
  moreover have "locked m' = locked m"
    if "run man_do (m\<lparr>man_world := (), beaten := b\<rparr>) [MRemove 0, MPool (PFree 0)] = Inr m'" for m m' :: "unit objman" and b
    using that by (auto simp: Man_Remove_def Free_def Pool_Clear_def Let_def split: option.splits if_splits)
  ultimately show ?thesis by (simp add: beats_ok_def leaving_env_def)
qed

theorem objects_beat_safely_witness:
  "\<exists>m. run (beat_step leaving_env) (Man_init pool3 ()) [TOp (MPool PAlloc), TOp (MInsert 0), TOp (MPool (PUnlock 0)), TBeat True] = Inr m \<and>
    man_inv m"
proof -
  have "admissible (beat_step leaving_env) beat_pre (Man_init pool3 ()) [TOp (MPool PAlloc), TOp (MInsert 0), TOp (MPool (PUnlock 0)), TBeat True]"
    by (simp add: Man_init_def pool3_def objpool.defs Alloc_def Lock_def Unlock_def Man_Insert_def Let_def members_def held_def change_of_def
        split: sum.splits)
  from objects_beat_safely [OF _ _ pool3 leaving_ok this] show ?thesis by auto
qed

text \<open>Objects that do nothing to the manager in their heartbeat.\<close>

definition calm_beats :: "'w beat_env \<Rightarrow> bool" where
  "calm_beats env \<longleftrightarrow> (\<forall>m i. fst (env m i) = [])"

lemma beat_list_calm:
  assumes "calm_beats env"
  shows "locked m = [] \<Longrightarrow> \<exists>w. beat_list env is m = Inr (m\<lparr>man_world := w, beaten := beaten m @ filter (is_active m) is\<rparr>)"
proof (induction "is" arbitrary: m)
  case Nil
  show ?case by (intro exI [of _ "man_world m"]) simp
next
  case (Cons i "is")
  have u: "Unlock i (m\<lparr>locked := [i]\<rparr>) = m" using Cons.prems by (simp add: Unlock_def)
  show ?case
  proof (cases "is_active m i")
    case False
    then show ?thesis using Cons.IH [OF Cons.prems] Cons.prems u by (simp add: Lock_def)
  next
    case True
    obtain w where w: "env (m\<lparr>locked := [i]\<rparr>) i = ([], w)"
      using assms [unfolded calm_beats_def, rule_format, of "m\<lparr>locked := [i]\<rparr>" i] by (metis prod.collapse)
    let ?m = "m\<lparr>man_world := w, beaten := beaten m @ [i]\<rparr>"
    have "Unlock i (m\<lparr>locked := [i], man_world := w, beaten := beaten m @ [i]\<rparr>) = ?m" using Cons.prems by (simp add: Unlock_def)
    then have "beat_list env (i # is) m = beat_list env is ?m" using True w Cons.prems by (simp add: Lock_def)
    then show ?thesis using Cons.IH [of ?m] Cons.prems True by simp
  qed
qed

text \<open>
  A heartbeat takes the delayed changes in and then beats, in the order of their indices,
  exactly the members that are active; the members stay the same. Here objects do nothing to the
  manager in their heartbeat.
\<close>

theorem HeartBeat_beats_members:
  assumes "calm_beats env" "man_inv m" "locked m = []"
  shows "\<exists>m'. Man_HeartBeat env True m = Inr m' \<and> man_inv m' \<and> members m' = members m \<and> change_map m' = [] \<and>
    beaten m' = beaten m @ filter (is_active m) (sorted_list_of_set (members m))"
proof -
  obtain m1 where m1: "Man_DoChange m = Inr m1" "man_inv m1" "set (obj_set m1) = members m" "members m1 = members m"
    "change_map m1 = []" "is_active m1 = is_active m" "locked m1 = []" "beaten m1 = beaten m"
    using DoChange_ok [OF assms(2)] assms(3) by metis
  have "sorted (obj_set m1)" "distinct (obj_set m1)" using m1(2) by (simp_all add: man_inv_def sset_inv_def)
  then have o: "obj_set m1 = sorted_list_of_set (members m)" using m1(3) by (metis sorted_list_of_set.idem_if_sorted_distinct)
  obtain w where "beat_list env (obj_set m1) m1 = Inr (m1\<lparr>man_world := w, beaten := beaten m1 @ filter (is_active m1) (obj_set m1)\<rparr>)"
    using beat_list_calm [OF assms(1) m1(7)] by blast
  moreover have "members (m1\<lparr>man_world := w, beaten := b\<rparr>) = members m1" for b by (simp add: members_def held_def change_of_def)
  ultimately show ?thesis using m1 o by (simp add: Man_HeartBeat_def CollectHeartBeatObject_def)
qed

definition quiet_env :: "unit beat_env" where
  "quiet_env m i = ([], ())"

text \<open>Objects 0, 1 and 2 are members; object 2 is to leave and object 1 is not active.\<close>

definition man3 :: "unit objman" where
  "man3 = (Man_init pool3 ())\<lparr>header := None, tail := None, pool_count := 3, is_active := (\<lambda>i. i \<noteq> 1),
     obj_set := [1, 2], change_map := [(0, 1), (2, - 1)]\<rparr>"

theorem HeartBeat_beats_members_witness:
  "\<exists>m'. Man_HeartBeat quiet_env True man3 = Inr m' \<and> beaten m' = [0]"
proof -
  have h: "held man3 i = (if i < 2 then 1 else 0)" for i
    by (auto simp: man3_def Man_init_def objpool.defs held_def change_of_def)
  have f: "obj_set man3 = [1, 2]" "change_map man3 = [(0, 1), (2, - 1)]" "cur_obj man3 = None" "locked man3 = []"
    by (simp_all add: man3_def Man_init_def objpool.defs pool3_def)
  have "pool_rep man3 []" by (simp add: pool_rep_def man3_def Man_init_def objpool.defs pool3_def end_of_def)
  then have "man_inv man3" using pool_rep_inv f h by (simp add: man_inv_def sset_inv_def)
  moreover have "calm_beats quiet_env" by (simp add: calm_beats_def quiet_env_def)
  ultimately have "calm_beats quiet_env" "man_inv man3" by blast+
  note t = HeartBeat_beats_members [OF this f(4)]
  have "members man3 = {0, 1}" using h by (auto simp: members_def)
  then show ?thesis using t by (auto simp: man3_def Man_init_def objpool.defs)
qed

end
