(* ===== verification/MsgQueue.thy ===== *)
theory MsgQueue
  imports Prelude
begin

text \<open>
  \<open>game_module/combat/global/combat_mq.cpp\<close>: messages between combats, their units and world
  bosses. A message waits for the next heartbeat, or in a wheel of 600 slots for a later one.
  \<open>CombatMan\<close> finds the target, takes its mutex and runs its handler, which may send messages.
\<close>

section \<open>Queues\<close>

text \<open>A message and the bytes that its content points to; without any the pointer is \<open>NULL\<close>.\<close>

record msg =
  message :: int
  target :: int
  source :: int
  param :: int
  content :: "int list"

record msg_queue =
  unicasts :: "msg list"
  multi_queue :: "(int list \<times> msg) list"
  id_multi_queue :: "(int list \<times> msg) list"

definition empty_queue :: msg_queue where
  "empty_queue = \<lparr>unicasts = [], multi_queue = [], id_multi_queue = []\<rparr>"

definition Queue_IsEmpty :: "msg_queue \<Rightarrow> bool" where
  "Queue_IsEmpty q \<longleftrightarrow> unicasts q = [] \<and> multi_queue q = [] \<and> id_multi_queue q = []"

definition Queue_AddMsg :: "msg \<Rightarrow> msg_queue \<Rightarrow> msg_queue" where
  "Queue_AddMsg m q = q\<lparr>unicasts := unicasts q @ [m]\<rparr>"

text \<open>
  A multicast is pushed as a temporary that owns a copy of the content. The queue keeps a plain copy
  of the temporary, whose destructor then frees that content. What the queue holds of a message with
  content is a dangling pointer, which a handler reads and \<open>Clear\<close> frees again: the model
  stops here with \<open>Dangling\<close>.
\<close>

definition push_temporary :: "msg \<Rightarrow> 'a \<Rightarrow> 'a res" where
  "push_temporary m q = (if content m = [] then Inr q else Inl Dangling)"

definition Queue_AddMultiMsg :: "int list \<Rightarrow> msg \<Rightarrow> msg_queue \<Rightarrow> msg_queue res" where
  "Queue_AddMultiMsg os m q = push_temporary m (q\<lparr>multi_queue := multi_queue q @ [(os, m)]\<rparr>)"

definition Queue_AddIDMultiMsg :: "int list \<Rightarrow> msg \<Rightarrow> msg_queue \<Rightarrow> msg_queue res" where
  "Queue_AddIDMultiMsg is m q = assertx (is \<noteq> [])
     (push_temporary m (q\<lparr>id_multi_queue := id_multi_queue q @ [(is, m)]\<rparr>))"

text \<open>A multicast by id goes to each target with the target filled in.\<close>

definition IDMultiCast_Send :: "int list \<times> msg \<Rightarrow> msg list" where
  "IDMultiCast_Send e = map (\<lambda>i. (snd e)\<lparr>target := i\<rparr>) (fst e)"

text \<open>What \<open>Send\<close> dispatches, in order.\<close>

definition Queue_Send :: "msg_queue \<Rightarrow> msg list" where
  "Queue_Send q = unicasts q @ concat (map IDMultiCast_Send (id_multi_queue q))"

section \<open>The wheel and the dispatcher\<close>

definition MAX_MSG_LATENCY :: nat where "MAX_MSG_LATENCY = 600"
definition MAX_QUEUE_SIZE :: nat where "MAX_QUEUE_SIZE = 256"

text \<open>
  \<open>held\<close> are the objects whose mutex this thread has taken, \<open>list_lock\<close> says whether it has taken
  that of the wheel; \<open>log\<close> notes the messages that reached a handler.
\<close>

record 'w mq =
  cur_queue :: msg_queue
  wheel :: "msg_queue option list"
  offset :: nat
  cur_queue_size :: nat
  held :: "int list"
  list_lock :: bool
  mq_world :: 'w
  log :: "msg list"

datatype send = Send msg nat | SendObjects "int list" msg nat | SendIDs "int list" msg nat

text \<open>
  The rest of the combat system is an environment over a world of its own: the id and activity of
  the object that an id leads to, and what the handler of a message sends.
\<close>

record 'w mq_env =
  QueryObject :: "'w \<Rightarrow> int \<Rightarrow> (int \<times> bool) option"
  MessageHandler :: "'w \<Rightarrow> msg \<Rightarrow> send list \<times> 'w"

definition mq_init :: "'w \<Rightarrow> 'w mq" where
  "mq_init w = \<lparr>cur_queue = empty_queue, wheel = replicate MAX_MSG_LATENCY None, offset = 0, cur_queue_size = 0,
     held = [], list_lock = False, mq_world = w, log = []\<rparr>"

definition GetQueue :: "nat \<Rightarrow> 'w mq \<Rightarrow> msg_queue" where
  "GetQueue t s = (case wheel s ! t of None \<Rightarrow> empty_queue | Some q \<Rightarrow> q)"

text \<open>
  Calls that are still to be made, the innermost first. A call may end in others: a handler sends,
  and a queue that is full is sent at once.
\<close>

datatype call = Dispatch msg | Release int | Add send

definition Add_now :: "msg_queue \<Rightarrow> 'w mq \<Rightarrow> (call list \<times> 'w mq) res" where
  "Add_now q s =
     (if cur_queue_size s + 1 > MAX_QUEUE_SIZE
      then Inr (map Dispatch (Queue_Send q), s\<lparr>cur_queue := empty_queue, cur_queue_size := 0\<rparr>)
      else Inr ([], s\<lparr>cur_queue := q, cur_queue_size := cur_queue_size s + 1\<rparr>))"

definition Add_later :: "(msg_queue \<Rightarrow> msg_queue res) \<Rightarrow> nat \<Rightarrow> 'w mq \<Rightarrow> (call list \<times> 'w mq) res" where
  "Add_later f k s =
     assertx (k < MAX_MSG_LATENCY)
       (if list_lock s then Inl Deadlock
        else let t = (if offset s + k \<ge> MAX_MSG_LATENCY then (offset s + k) mod MAX_MSG_LATENCY else offset s + k)
             in bindr (f (GetQueue t s)) (\<lambda>q. Inr ([], s\<lparr>wheel := (wheel s)[t := Some q]\<rparr>)))"

fun do_add :: "send \<Rightarrow> 'w mq \<Rightarrow> (call list \<times> 'w mq) res" where
  "do_add (Send m k) s = (if k = 0 then Add_now (Queue_AddMsg m (cur_queue s)) s else Add_later (\<lambda>q. Inr (Queue_AddMsg m q)) k s)"
| "do_add (SendObjects os m k) s =
     (if k = 0 then bindr (Queue_AddMultiMsg os m (cur_queue s)) (\<lambda>q. Add_now q s) else Add_later (Queue_AddMultiMsg os m) k s)"
| "do_add (SendIDs is m k) s =
     (if k = 0 then bindr (Queue_AddIDMultiMsg is m (cur_queue s)) (\<lambda>q. Add_now q s) else Add_later (Queue_AddIDMultiMsg is m) k s)"

definition DispatchMSG :: "'w mq_env \<Rightarrow> msg \<Rightarrow> 'w mq \<Rightarrow> (call list \<times> 'w mq) res" where
  "DispatchMSG env m s =
     (case QueryObject env (mq_world s) (target m) of
        None \<Rightarrow> Inr ([], s)
      | Some (i, act) \<Rightarrow>
          if \<not> act then Inr ([], s)
          else if i \<in> set (held s) then Inl Deadlock
          else assertx (i = target m) (case MessageHandler env (mq_world s) m of (sends, w) \<Rightarrow>
            Inr (map Add sends @ [Release i], s\<lparr>held := i # held s, mq_world := w, log := log s @ [m]\<rparr>)))"

fun mq_call :: "'w mq_env \<Rightarrow> call \<Rightarrow> 'w mq \<Rightarrow> (call list \<times> 'w mq) res" where
  "mq_call env (Dispatch m) s = DispatchMSG env m s"
| "mq_call env (Release i) s = Inr ([], s\<lparr>held := remove1 i (held s)\<rparr>)"
| "mq_call env (Add a) s = do_add a s"

partial_function (option) mq_exec :: "'w mq_env \<Rightarrow> call list \<Rightarrow> 'w mq \<Rightarrow> 'w mq res option" where
  "mq_exec env cs s =
     (case cs of
        [] \<Rightarrow> Some (Inr s)
      | c # rest \<Rightarrow>
          (case mq_call env c s of
             Inl e \<Rightarrow> Some (Inl e)
           | Inr p \<Rightarrow> mq_exec env (fst p @ rest) (snd p)))"

declare mq_exec.simps [code]

definition AddMsg :: "'w mq_env \<Rightarrow> msg \<Rightarrow> nat \<Rightarrow> 'w mq \<Rightarrow> 'w mq res option" where
  "AddMsg env m k s = mq_exec env [Add (Send m k)] s"

definition AddMultiMsg :: "'w mq_env \<Rightarrow> int list \<Rightarrow> msg \<Rightarrow> nat \<Rightarrow> 'w mq \<Rightarrow> 'w mq res option" where
  "AddMultiMsg env os m k s = mq_exec env [Add (SendObjects os m k)] s"

definition AddIDMultiMsg :: "'w mq_env \<Rightarrow> int list \<Rightarrow> msg \<Rightarrow> nat \<Rightarrow> 'w mq \<Rightarrow> 'w mq res option" where
  "AddIDMultiMsg env is m k s = mq_exec env [Add (SendIDs is m k)] s"

abbreviation then_do :: "'a res option \<Rightarrow> ('a \<Rightarrow> 'b res option) \<Rightarrow> 'b res option" where
  "then_do r k \<equiv> Option.bind r (\<lambda>x. case x of Inl e \<Rightarrow> Some (Inl e) | Inr s \<Rightarrow> k s)"

definition send_current :: "'w mq_env \<Rightarrow> 'w mq \<Rightarrow> 'w mq res option" where
  "send_current env s =
     (if cur_queue_size s > 0
      then let q = cur_queue s; s1 = s\<lparr>cur_queue := empty_queue, cur_queue_size := 0\<rparr>
           in if Queue_IsEmpty q then Some (Inr s1) else mq_exec env (map Dispatch (Queue_Send q)) s1
      else Some (Inr s))"

definition send_slot :: "'w mq_env \<Rightarrow> 'w mq \<Rightarrow> 'w mq res option" where
  "send_slot env s =
     (if list_lock s then Some (Inl Deadlock)
      else let s0 = s\<lparr>list_lock := True\<rparr> in
        then_do (case wheel s0 ! offset s0 of
                   None \<Rightarrow> Some (Inr s0)
                 | Some q \<Rightarrow> then_do (mq_exec env (map Dispatch (Queue_Send q)) s0)
                     (\<lambda>s1. Some (Inr (s1\<lparr>wheel := (wheel s1)[offset s1 := Some empty_queue]\<rparr>))))
          (\<lambda>s1. let o1 = offset s1 + 1 in
             Some (assertx (o1 \<le> MAX_MSG_LATENCY)
               (Inr (s1\<lparr>offset := (if o1 \<ge> MAX_MSG_LATENCY then 0 else o1), list_lock := False\<rparr>)))))"

definition MQ_HeartBeat :: "'w mq_env \<Rightarrow> 'w mq \<Rightarrow> 'w mq res option" where
  "MQ_HeartBeat env s = then_do (send_current env s) (send_slot env)"

section \<open>A heartbeat against its reference\<close>

text \<open>
  What a list of messages does when all handlers have run: the new world, the messages that found
  an active target, and everything their handlers sent.
\<close>

definition reaches :: "'w mq_env \<Rightarrow> 'w \<Rightarrow> msg \<Rightarrow> bool" where
  "reaches env w m \<longleftrightarrow> (case QueryObject env w (target m) of None \<Rightarrow> False | Some (i, act) \<Rightarrow> act)"

fun deliver :: "'w mq_env \<Rightarrow> msg list \<Rightarrow> 'w \<Rightarrow> 'w \<times> msg list \<times> send list" where
  "deliver env [] w = (w, [], [])"
| "deliver env (m # ms) w =
     (if reaches env w m
      then case MessageHandler env w m of (ss, w1) \<Rightarrow> case deliver env ms w1 of (w2, l, out) \<Rightarrow> (w2, m # l, ss @ out)
      else deliver env ms w)"

fun now_send :: "send \<Rightarrow> bool" where
  "now_send (Send m k) = (k = 0)"
| "now_send (SendObjects os m k) = (k = 0 \<and> content m = [])"
| "now_send (SendIDs is m k) = (k = 0 \<and> is \<noteq> [] \<and> content m = [])"

fun add_one :: "send \<Rightarrow> msg_queue \<Rightarrow> msg_queue" where
  "add_one (Send m k) q = q\<lparr>unicasts := unicasts q @ [m]\<rparr>"
| "add_one (SendObjects os m k) q = q\<lparr>multi_queue := multi_queue q @ [(os, m)]\<rparr>"
| "add_one (SendIDs is m k) q = q\<lparr>id_multi_queue := id_multi_queue q @ [(is, m)]\<rparr>"

definition ids_ok :: "'w mq_env \<Rightarrow> bool" where
  "ids_ok env \<longleftrightarrow> (\<forall>w i j. QueryObject env w i = Some (j, True) \<longrightarrow> j = i)"

text \<open>The queue that goes out at the \<open>k\<close>-th heartbeat after the next one.\<close>

definition slot :: "nat \<Rightarrow> 'w mq \<Rightarrow> msg_queue" where
  "slot k s = GetQueue ((offset s + k) mod 600) s"

definition entries :: "msg_queue \<Rightarrow> nat" where
  "entries q = length (unicasts q) + length (multi_queue q) + length (id_multi_queue q)"

text \<open>No multicast that waits has content.\<close>

definition bare :: "msg_queue \<Rightarrow> bool" where
  "bare q \<longleftrightarrow> (\<forall>e \<in> set (multi_queue q) \<union> set (id_multi_queue q). content (snd e) = [])"

definition mq_inv :: "'w mq \<Rightarrow> bool" where
  "mq_inv s \<longleftrightarrow> length (wheel s) = 600 \<and> offset s < 600 \<and> cur_queue_size s = entries (cur_queue s) \<and>
     cur_queue_size s \<le> 256 \<and> \<not> list_lock s \<and> bare (cur_queue s) \<and> (\<forall>t < 600. bare (GetQueue t s))"

lemma mq_consts [simp]: "MAX_MSG_LATENCY = 600" "MAX_QUEUE_SIZE = 256"
  by (simp_all add: MAX_MSG_LATENCY_def MAX_QUEUE_SIZE_def)

lemma exec_Nil [simp]: "mq_exec env [] s = Some (Inr s)"
  by (simp add: mq_exec.simps)

lemma exec_Cons:
  "mq_exec env (c # rest) s = (case mq_call env c s of Inl e \<Rightarrow> Some (Inl e) | Inr p \<Rightarrow> mq_exec env (fst p @ rest) (snd p))"
  by (subst mq_exec.simps) simp

lemma entries_add [simp]: "entries (add_one a q) = entries q + 1"
  by (cases a) (simp_all add: entries_def)

lemma do_add_now:
  assumes "now_send a" "cur_queue_size s < 256"
  shows "do_add a s = Inr ([], s\<lparr>cur_queue := add_one a (cur_queue s), cur_queue_size := cur_queue_size s + 1\<rparr>)"
  using assms by (cases a) (simp_all add: Add_now_def Queue_AddMsg_def Queue_AddMultiMsg_def Queue_AddIDMultiMsg_def push_temporary_def)

lemma bare_empty [simp]: "bare empty_queue"
  by (simp add: bare_def empty_queue_def)

lemma bare_unicast [simp]: "bare (q\<lparr>unicasts := ms\<rparr>) = bare q"
  by (simp add: bare_def)

lemma bare_add: "now_send a \<Longrightarrow> bare q \<Longrightarrow> bare (add_one a q)"
  by (cases a) (auto simp: bare_def)

lemma bare_fold: "\<forall>a \<in> set ss. now_send a \<Longrightarrow> bare q \<Longrightarrow> bare (fold add_one ss q)"
  by (induction ss arbitrary: q) (simp_all add: bare_add)

lemma exec_adds:
  "\<forall>a \<in> set ss. now_send a \<Longrightarrow> cur_queue_size s + length ss \<le> 256 \<Longrightarrow>
   mq_exec env (map Add ss @ rest) s =
     mq_exec env rest (s\<lparr>cur_queue := fold add_one ss (cur_queue s), cur_queue_size := cur_queue_size s + length ss\<rparr>)"
  by (induction ss arbitrary: s) (simp_all add: exec_Cons do_add_now)

lemma exec_deliver:
  assumes "ids_ok env"
  shows "deliver env ms (mq_world s) = (w, l, out) \<Longrightarrow> \<forall>a \<in> set out. now_send a \<Longrightarrow> cur_queue_size s + length out \<le> 256 \<Longrightarrow>
    \<forall>m \<in> set ms. target m \<notin> set (held s) \<Longrightarrow>
    mq_exec env (map Dispatch ms @ rest) s = mq_exec env rest (s\<lparr>mq_world := w, log := log s @ l,
      cur_queue := fold add_one out (cur_queue s), cur_queue_size := cur_queue_size s + length out\<rparr>)"
proof (induction ms arbitrary: s l out)
  case (Cons m ms)
  show ?case
  proof (cases "reaches env (mq_world s) m")
    case False
    then have "DispatchMSG env m s = Inr ([], s)" by (auto simp: DispatchMSG_def reaches_def split: option.splits)
    then show ?thesis using Cons False by (simp add: exec_Cons)
  next
    case True
    then have q: "QueryObject env (mq_world s) (target m) = Some (target m, True)"
      using assms by (auto simp: reaches_def ids_ok_def split: option.splits)
    obtain ss w1 where h: "MessageHandler env (mq_world s) m = (ss, w1)" by (cases "MessageHandler env (mq_world s) m")
    obtain w2 l2 out2 where d: "deliver env ms w1 = (w2, l2, out2)" by (cases "deliver env ms w1") auto
    have e: "w = w2" "l = m # l2" "out = ss @ out2" using Cons.prems(1) True h d by auto
    let ?s1 = "s\<lparr>held := target m # held s, mq_world := w1, log := log s @ [m]\<rparr>"
    let ?s2 = "s\<lparr>mq_world := w1, log := log s @ [m], cur_queue := fold add_one ss (cur_queue s), cur_queue_size := cur_queue_size s + length ss\<rparr>"
    have "DispatchMSG env m s = Inr (map Add ss @ [Release (target m)], ?s1)"
      using q h Cons.prems(4) by (simp add: DispatchMSG_def)
    then have "mq_exec env (map Dispatch (m # ms) @ rest) s = mq_exec env (map Add ss @ Release (target m) # map Dispatch ms @ rest) ?s1"
      by (simp add: exec_Cons)
    also have "\<dots> = mq_exec env (map Dispatch ms @ rest) ?s2"
      using Cons.prems(2,3) e by (subst exec_adds) (simp_all add: exec_Cons)
    also have "\<dots> = mq_exec env rest (?s2\<lparr>mq_world := w, log := log ?s2 @ l2,
      cur_queue := fold add_one out2 (cur_queue ?s2), cur_queue_size := cur_queue_size ?s2 + length out2\<rparr>)"
      by (rule Cons.IH) (use Cons.prems(2,3,4) e d in auto)
    finally show ?thesis using e by (simp add: add.assoc)
  qed
next
  case Nil
  then have "w = mq_world s" "l = []" "out = []" by auto
  then show ?case by simp
qed

lemma deliver_append:
  "deliver env (xs @ ys) w = (case deliver env xs w of (w1, l1, o1) \<Rightarrow> case deliver env ys w1 of (w2, l2, o2) \<Rightarrow> (w2, l1 @ l2, o1 @ o2))"
  by (induction xs arbitrary: w) (auto split: prod.splits)

lemma Queue_Send_empty [simp]: "Queue_Send empty_queue = []"
  by (simp add: Queue_Send_def empty_queue_def)

lemma entries_zero: "entries q = 0 \<longleftrightarrow> q = empty_queue"
  by (cases q) (auto simp: entries_def empty_queue_def)

lemma entries_empty [simp]: "entries empty_queue = 0"
  by (simp add: entries_zero)

lemma Queue_IsEmpty_iff: "Queue_IsEmpty q \<longleftrightarrow> q = empty_queue"
  by (cases q) (auto simp: Queue_IsEmpty_def empty_queue_def)

lemma entries_fold: "entries (fold add_one ss q) = entries q + length ss"
  by (induction ss arbitrary: q) simp_all

lemma send_current_ok:
  assumes "ids_ok env" "mq_inv s" "deliver env (Queue_Send (cur_queue s)) (mq_world s) = (w, l, out)"
    "\<forall>a \<in> set out. now_send a" "length out \<le> 256" "\<forall>m \<in> set (Queue_Send (cur_queue s)). target m \<notin> set (held s)"
  shows "send_current env s = Some (Inr (s\<lparr>mq_world := w, log := log s @ l,
      cur_queue := fold add_one out empty_queue, cur_queue_size := length out\<rparr>))"
proof (cases "cur_queue s = empty_queue")
  case True
  then have "cur_queue_size s = 0" "w = mq_world s" "l = []" "out = []" using assms(2,3) by (auto simp: mq_inv_def)
  then show ?thesis using True by (simp add: send_current_def)
next
  case False
  then have p: "0 < cur_queue_size s" "\<not> Queue_IsEmpty (cur_queue s)"
    using assms(2) entries_zero [of "cur_queue s"] by (auto simp: mq_inv_def Queue_IsEmpty_iff)
  let ?s1 = "s\<lparr>cur_queue := empty_queue, cur_queue_size := 0\<rparr>"
  have "mq_exec env (map Dispatch (Queue_Send (cur_queue s)) @ []) ?s1 = mq_exec env [] (?s1\<lparr>mq_world := w, log := log ?s1 @ l,
      cur_queue := fold add_one out (cur_queue ?s1), cur_queue_size := cur_queue_size ?s1 + length out\<rparr>)"
    using assms by (intro exec_deliver) auto
  then show ?thesis using p by (simp add: send_current_def)
qed

lemma GetQueue_upd: "length (wheel s) = 600 \<Longrightarrow> t < 600 \<Longrightarrow> GetQueue u (s\<lparr>wheel := (wheel s)[t := Some q]\<rparr>) = (if u = t then q else GetQueue u s)"
  by (simp add: GetQueue_def)

lemma mod_wrap: "i < 600 \<Longrightarrow> j \<le> 600 \<Longrightarrow> (i + j) mod 600 = (if i + j < 600 then i + j else i + j - (600::nat))"
  by (simp add: le_mod_geq)

lemma slot_next:
  assumes "offset s < 600" "k < 600"
  shows "((if offset s + 1 \<ge> 600 then 0 else offset s + 1) + k) mod 600 = (offset s + (k + 1)) mod 600"
    "(offset s + (k + 1)) mod 600 = offset s \<longleftrightarrow> k = 599"
  using assms mod_wrap [of "offset s" "k + 1"] mod_wrap [of "offset s + 1" k] by (auto split: if_splits)

lemma HeartBeat_delivers:
  assumes "ids_ok env" "mq_inv s"
    "deliver env (Queue_Send (cur_queue s) @ Queue_Send (slot 0 s)) (mq_world s) = (w, l, out)"
    "\<forall>a \<in> set out. now_send a" "length out \<le> 256"
    "\<forall>m \<in> set (Queue_Send (cur_queue s) @ Queue_Send (slot 0 s)). target m \<notin> set (held s)"
  shows "\<exists>s'. MQ_HeartBeat env s = Some (Inr s') \<and> mq_inv s' \<and> held s' = held s \<and> mq_world s' = w \<and> log s' = log s @ l \<and>
    cur_queue s' = fold add_one out empty_queue \<and> (\<forall>k < 600. slot k s' = (if k = 599 then empty_queue else slot (k + 1) s))"
proof -
  have inv: "length (wheel s) = 600" "offset s < 600" "\<not> list_lock s" using assms(2) by (auto simp: mq_inv_def)
  obtain w1 l1 o1 where d1: "deliver env (Queue_Send (cur_queue s)) (mq_world s) = (w1, l1, o1)"
    by (cases "deliver env (Queue_Send (cur_queue s)) (mq_world s)") auto
  obtain w2 l2 o2 where d2: "deliver env (Queue_Send (slot 0 s)) w1 = (w2, l2, o2)"
    by (cases "deliver env (Queue_Send (slot 0 s)) w1") auto
  have e: "w = w2" "l = l1 @ l2" "out = o1 @ o2" using assms(3) d1 d2 by (auto simp: deliver_append)
  let ?s1 = "s\<lparr>mq_world := w1, log := log s @ l1, cur_queue := fold add_one o1 empty_queue, cur_queue_size := length o1\<rparr>"
  have c: "send_current env s = Some (Inr ?s1)" using send_current_ok [OF assms(1,2) d1] assms(4-6) e by auto
  let ?q = "GetQueue (offset s) s"
  have q: "slot 0 s = ?q" using inv(2) by (simp add: slot_def)
  let ?s2 = "?s1\<lparr>list_lock := True, mq_world := w, log := log s @ l, cur_queue := fold add_one out empty_queue, cur_queue_size := length out\<rparr>"
  have x: "mq_exec env (map Dispatch (Queue_Send ?q)) (?s1\<lparr>list_lock := True\<rparr>) = Some (Inr ?s2)"
    using exec_deliver [OF assms(1), of "Queue_Send ?q" "?s1\<lparr>list_lock := True\<rparr>" w l2 o2 "[]"] d2 e assms(4-6) q by auto
  define wh where "wh = (case wheel s ! offset s of None \<Rightarrow> wheel s | Some _ \<Rightarrow> (wheel s)[offset s := Some empty_queue])"
  let ?s3 = "?s2\<lparr>wheel := wh, offset := (if offset s + 1 \<ge> 600 then 0 else offset s + 1), list_lock := False\<rparr>"
  have "send_slot env ?s1 = Some (Inr ?s3)"
  proof (cases "wheel s ! offset s")
    case None
    then have "?q = empty_queue" by (simp add: GetQueue_def)
    then have "l2 = []" "o2 = []" "w = w1" using d2 e q by auto
    then show ?thesis using None inv e by (simp add: send_slot_def Let_def wh_def)
  next
    case (Some q0)
    then have "?q = q0" by (simp add: GetQueue_def)
    then show ?thesis using Some inv x by (simp add: send_slot_def Let_def wh_def)
  qed
  then have h: "MQ_HeartBeat env s = Some (Inr ?s3)" using c by (simp add: MQ_HeartBeat_def)
  have g: "GetQueue u ?s3 = (if u = offset s then empty_queue else GetQueue u s)" if "u < 600" for u
    using inv that by (auto simp: GetQueue_def wh_def split: option.splits)
  have "slot k ?s3 = (if k = 599 then empty_queue else slot (k + 1) s)" if "k < 600" for k
  proof -
    let ?t = "(offset s + (k + 1)) mod 600"
    have "slot k ?s3 = GetQueue ?t ?s3" using slot_next(1) [of s k] inv(2) that by (simp add: slot_def)
    also have "\<dots> = (if ?t = offset s then empty_queue else GetQueue ?t s)" by (rule g) simp
    also have "?t = offset s \<longleftrightarrow> k = 599" by (rule slot_next(2) [OF inv(2) that])
    finally show ?thesis unfolding slot_def .
  qed
  moreover have "length wh = 600" using inv(1) by (simp add: wh_def split: option.splits)
  then have "mq_inv ?s3" using inv(2) assms(2,4,5) g by (simp add: mq_inv_def entries_fold bare_fold)
  ultimately show ?thesis using h by (intro exI [of _ ?s3]) simp
qed

text \<open>
  C21: The messages to one target may have content; those to lists of targets have none (the code
  frees it, and the queue keeps a dangling pointer), be they waiting or sent by the handlers. One
  heartbeat dispatches the messages that wait for the next one, single ones first, and then
  those of the slot that is due, to every target that is active at that moment, in this order; the
  wheel moves on by one slot; what the handlers send waits for the next heartbeat. This holds as
  long as the handlers of one heartbeat send at most 256 messages, none of them delayed, no object
  is held by the thread before, and an id leads to the object that has it.
\<close>

theorem HeartBeat_equals_reference:
  assumes "ids_ok env" "mq_inv s" "held s = []"
    and "deliver env (Queue_Send (cur_queue s) @ Queue_Send (slot 0 s)) (mq_world s) = (w, l, out)"
    and "\<forall>a \<in> set out. now_send a" "length out \<le> 256"
  shows "\<exists>s'. MQ_HeartBeat env s = Some (Inr s') \<and> mq_inv s' \<and> mq_world s' = w \<and> log s' = log s @ l \<and>
    cur_queue s' = fold add_one out empty_queue \<and> (\<forall>k < 600. slot k s' = (if k = 599 then empty_queue else slot (k + 1) s))"
proof -
  have "\<forall>m \<in> set (Queue_Send (cur_queue s) @ Queue_Send (slot 0 s)). target m \<notin> set (held s)" using assms(3) by simp
  from HeartBeat_delivers [OF assms(1,2,4-6) this] show ?thesis by blast
qed

text \<open>Object 1 answers every message to it with one to object 2; object 3 is not active.\<close>

definition ping_env :: "unit mq_env" where
  "ping_env = \<lparr>QueryObject = (\<lambda>w i. Some (i, i \<noteq> 3)),
     MessageHandler = (\<lambda>w m. (if target m = 1 then [Send (m\<lparr>target := 2, source := 1\<rparr>) 0] else [], ()))\<rparr>"

definition to :: "int \<Rightarrow> msg" where
  "to i = \<lparr>message = 5, target = i, source = 9, param = 0, content = []\<rparr>"

definition waiting_state :: "unit mq" where
  "waiting_state = (mq_init ())\<lparr>cur_queue := \<lparr>unicasts = [to 1, to 3], multi_queue = [], id_multi_queue = [([4, 1], to 0)]\<rparr>, cur_queue_size := 3,
     wheel := (replicate 600 None)[0 := Some \<lparr>unicasts = [to 5], multi_queue = [], id_multi_queue = []\<rparr>]\<rparr>"

theorem HeartBeat_equals_reference_witness:
  "\<exists>s'. MQ_HeartBeat ping_env waiting_state = Some (Inr s') \<and> map target (log s') = [1, 4, 1, 5] \<and> map target (unicasts (cur_queue s')) = [2, 2]"
proof -
  have s0: "slot 0 waiting_state = \<lparr>unicasts = [to 5], multi_queue = [], id_multi_queue = []\<rparr>"
    by (simp add: slot_def GetQueue_def waiting_state_def mq_init_def)
  have i: "ids_ok ping_env" "mq_inv waiting_state" "held waiting_state = []" "log waiting_state = []"
    by (simp_all add: ids_ok_def ping_env_def mq_inv_def waiting_state_def mq_init_def entries_def GetQueue_def bare_def nth_list_update to_def empty_queue_def)
  let ?o = "[Send (to 2\<lparr>source := 1\<rparr>) 0, Send (to 2\<lparr>source := 1\<rparr>) 0]"
  have "deliver ping_env (Queue_Send (cur_queue waiting_state) @ Queue_Send (slot 0 waiting_state)) (mq_world waiting_state)
      = ((), [to 1, to 4, to 1, to 5], ?o)"
    unfolding s0 by (simp add: waiting_state_def mq_init_def Queue_Send_def IDMultiCast_Send_def ping_env_def reaches_def to_def)
  from HeartBeat_equals_reference [OF i(1-3) this] show ?thesis
    using i(4) by (auto simp: to_def empty_queue_def)
qed

section \<open>Delays\<close>

text \<open>Objects that are always there and send nothing themselves.\<close>

definition calm_mq :: "'w mq_env \<Rightarrow> bool" where
  "calm_mq env \<longleftrightarrow> (\<forall>w i. QueryObject env w i = Some (i, True)) \<and> (\<forall>w m. fst (MessageHandler env w m) = [])"

primrec mq_beats :: "'w mq_env \<Rightarrow> nat \<Rightarrow> 'w mq \<Rightarrow> 'w mq res option" where
  "mq_beats env 0 s = Some (Inr s)"
| "mq_beats env (Suc n) s = then_do (MQ_HeartBeat env s) (mq_beats env n)"

definition due :: "'w mq \<Rightarrow> nat \<Rightarrow> msg list" where
  "due s j = (if j = 0 then Queue_Send (cur_queue s) else []) @ (if j < 600 then Queue_Send (slot j s) else [])"

lemma calm_deliver: "calm_mq env \<Longrightarrow> \<exists>w'. deliver env ms w = (w', ms, [])"
proof (induction ms arbitrary: w)
  case (Cons m ms)
  obtain ss w1 where h: "MessageHandler env w m = (ss, w1)" by (cases "MessageHandler env w m")
  moreover have "ss = []" using Cons.prems h unfolding calm_mq_def by (metis fst_conv)
  moreover obtain w' where "deliver env ms w1 = (w', ms, [])" using Cons by blast
  ultimately show ?case using Cons.prems by (simp add: reaches_def calm_mq_def)
qed simp

lemma mq_calm_beat:
  assumes "calm_mq env" "mq_inv s" "held s = []"
  obtains s' where "MQ_HeartBeat env s = Some (Inr s')" "mq_inv s'" "held s' = []" "log s' = log s @ due s 0" "\<And>j. due s' j = due s (j + 1)"
proof -
  obtain w where d: "deliver env (Queue_Send (cur_queue s) @ Queue_Send (slot 0 s)) (mq_world s) = (w, due s 0, [])"
    using calm_deliver [OF assms(1), of "due s 0"] by (auto simp: due_def)
  have i: "ids_ok env" using assms(1) by (simp add: ids_ok_def calm_mq_def)
  obtain s' where s': "MQ_HeartBeat env s = Some (Inr s')" "mq_inv s'" "held s' = []" "log s' = log s @ due s 0"
    "cur_queue s' = empty_queue" "\<And>k. k < 600 \<Longrightarrow> slot k s' = (if k = 599 then empty_queue else slot (k + 1) s)"
    using HeartBeat_delivers [OF i assms(2) d] assms(3) by auto
  have "due s' j = due s (j + 1)" for j using s'(5) s'(6) [of j] by (simp add: due_def)
  then show ?thesis using that s'(1-4) by blast
qed

lemma mq_calm_beats:
  assumes "calm_mq env"
  shows "mq_inv s \<Longrightarrow> held s = [] \<Longrightarrow> \<exists>s'. mq_beats env n s = Some (Inr s') \<and> log s' = log s @ concat (map (due s) [0..<n])"
proof (induction n arbitrary: s)
  case (Suc n)
  obtain s1 where s1: "MQ_HeartBeat env s = Some (Inr s1)" "mq_inv s1" "held s1 = []" "log s1 = log s @ due s 0" "\<And>j. due s1 j = due s (j + 1)"
    using mq_calm_beat [OF assms Suc.prems] by blast
  have "map (due s1) [0..<n] = map (due s) [1..<Suc n]" by (rule nth_equalityI) (simp_all add: s1(5) del: upt_Suc)
  then have "concat (map (due s) [0..<Suc n]) = due s 0 @ concat (map (due s1) [0..<n])" by (simp add: upt_conv_Cons del: upt_Suc)
  then show ?case using Suc.IH [OF s1(2,3)] s1(1,4) by auto
qed simp

lemma slot_index: "j < 600 \<Longrightarrow> k < 600 \<Longrightarrow> i < 600 \<Longrightarrow> (i + j) mod 600 = (i + k) mod (600::nat) \<Longrightarrow> j = k"
  using mod_wrap [of i j] mod_wrap [of i k] by (auto split: if_splits)

lemma AddMsg_due:
  assumes "mq_inv s" "k < 600" "k = 0 \<longrightarrow> cur_queue_size s < 256"
  shows "\<exists>s1. AddMsg env m k s = Some (Inr s1) \<and> mq_inv s1 \<and> held s1 = held s \<and> log s1 = log s \<and>
    (\<forall>j. mset (due s1 j) = mset (due s j) + (if j = k then {#m#} else {#}))"
proof (cases "k = 0")
  case True
  let ?s1 = "s\<lparr>cur_queue := add_one (Send m 0) (cur_queue s), cur_queue_size := cur_queue_size s + 1\<rparr>"
  have "AddMsg env m k s = Some (Inr ?s1)" using do_add_now [of "Send m 0" s] True assms(3) by (simp add: AddMsg_def exec_Cons)
  moreover have "mq_inv ?s1" using assms True by (simp add: mq_inv_def entries_def GetQueue_def)
  moreover have "mset (due ?s1 j) = mset (due s j) + (if j = k then {#m#} else {#})" for j
    using True by (simp add: due_def Queue_Send_def slot_def GetQueue_def)
  ultimately show ?thesis by (intro exI [of _ ?s1]) simp
next
  case False
  let ?t = "(offset s + k) mod 600"
  let ?s1 = "s\<lparr>wheel := (wheel s)[?t := Some (Queue_AddMsg m (GetQueue ?t s))]\<rparr>"
  have i: "offset s < 600" "length (wheel s) = 600" "\<not> list_lock s" using assms(1) by (simp_all add: mq_inv_def)
  have "(if 600 \<le> offset s + k then (offset s + k) mod 600 else offset s + k) = ?t" by simp
  then have "AddMsg env m k s = Some (Inr ?s1)"
    using False assms(2) i(3) by (simp add: AddMsg_def exec_Cons Add_later_def Let_def)
  moreover have "bare (GetQueue u ?s1)" if "u < 600" for u
    using GetQueue_upd [OF i(2), of ?t u "Queue_AddMsg m (GetQueue ?t s)"] assms(1) that by (simp add: mq_inv_def Queue_AddMsg_def)
  then have "mq_inv ?s1" using assms(1) by (simp add: mq_inv_def)
  moreover have "mset (due ?s1 j) = mset (due s j) + (if j = k then {#m#} else {#})" for j
  proof (cases "j < 600")
    case True
    have "slot j ?s1 = (if j = k then Queue_AddMsg m (slot k s) else slot j s)"
      using slot_index [OF True assms(2) i(1)] i(2) by (auto simp: slot_def GetQueue_upd)
    then show ?thesis using True False by (simp add: due_def Queue_Send_def Queue_AddMsg_def)
  qed (use assms(2) in \<open>simp add: due_def\<close>)
  ultimately show ?thesis by (intro exI [of _ ?s1]) simp
qed

lemma mset_dues:
  "(\<And>j. mset (f j) = mset (g j) + (if j = k then {#m#} else {#})) \<Longrightarrow>
   mset (concat (map f [0..<n])) = mset (concat (map g [0..<n])) + (if k < n then {#m#} else {#})"
  by (induction n) (auto simp: less_Suc_eq)

text \<open>
  C33: The objects of the system are always there and active, and their handlers send nothing
  themselves (\<open>calm_mq\<close>); no object is held by the thread. Then a message sent with a delay of \<open>k\<close> ticks below 600 reaches its target exactly once, at the
  heartbeat number \<open>k + 1\<close> from then, and delays no other message; so with every number of
  heartbeats after it. Without a delay this needs fewer than 256 messages waiting.
\<close>

theorem AddMsg_on_time:
  assumes "calm_mq env" "mq_inv s" "held s = []" "k < 600" "k = 0 \<longrightarrow> cur_queue_size s < 256"
  shows "\<exists>s1 r t. AddMsg env m k s = Some (Inr s1) \<and> mq_beats env n s = Some (Inr r) \<and> mq_beats env n s1 = Some (Inr t) \<and>
    mset (log t) = mset (log r) + (if k < n then {#m#} else {#})"
proof -
  obtain s1 where s1: "AddMsg env m k s = Some (Inr s1)" "mq_inv s1" "held s1 = []" "log s1 = log s"
    "\<And>j. mset (due s1 j) = mset (due s j) + (if j = k then {#m#} else {#})"
    using AddMsg_due [OF assms(2,4,5), of env m] assms(3) by auto
  obtain r where r: "mq_beats env n s = Some (Inr r)" "log r = log s @ concat (map (due s) [0..<n])"
    using mq_calm_beats [OF assms(1-3)] by blast
  obtain t where t: "mq_beats env n s1 = Some (Inr t)" "log t = log s1 @ concat (map (due s1) [0..<n])"
    using mq_calm_beats [OF assms(1) s1(2,3)] by blast
  have "mset (log t) = mset (log r) + (if k < n then {#m#} else {#})"
    unfolding r(2) t(2) s1(4) using mset_dues [of "due s1" "due s" k m n] s1(5) by simp
  then show ?thesis using s1(1) r(1) t(1) by blast
qed

definition mq_calm_env :: "unit mq_env" where
  "mq_calm_env = \<lparr>QueryObject = (\<lambda>w i. Some (i, True)), MessageHandler = (\<lambda>w m. ([], ()))\<rparr>"

theorem AddMsg_on_time_witness:
  "\<exists>s1 r t. AddMsg mq_calm_env (to 8) 7 waiting_state = Some (Inr s1) \<and> mq_beats mq_calm_env 700 waiting_state = Some (Inr r) \<and>
    mq_beats mq_calm_env 700 s1 = Some (Inr t) \<and> mset (log t) = mset (log r) + {#to 8#}"
proof -
  have "calm_mq mq_calm_env" "mq_inv waiting_state" "held waiting_state = []"
    by (simp_all add: calm_mq_def mq_calm_env_def mq_inv_def waiting_state_def mq_init_def entries_def GetQueue_def bare_def nth_list_update to_def empty_queue_def)
  from AddMsg_on_time [OF this, of 7 "to 8" 700] show ?thesis by simp
qed

section \<open>What goes wrong\<close>

lemma exec_held_deadlock:
  assumes "calm_mq env"
  shows "\<exists>m \<in> set ms. target m \<in> set (held s) \<Longrightarrow> mq_exec env (map Dispatch ms @ rest) s = Some (Inl Deadlock)"
proof (induction ms arbitrary: s)
  case (Cons m ms)
  have q: "QueryObject env (mq_world s) (target m) = Some (target m, True)" using assms by (simp add: calm_mq_def)
  show ?case
  proof (cases "target m \<in> set (held s)")
    case True
    then show ?thesis using q by (simp add: exec_Cons DispatchMSG_def)
  next
    case False
    obtain w where "MessageHandler env (mq_world s) m = ([], w)"
      using assms unfolding calm_mq_def by (metis prod.collapse)
    then have "mq_exec env (map Dispatch (m # ms) @ rest) s = mq_exec env (map Dispatch ms @ rest) (s\<lparr>mq_world := w, log := log s @ [m]\<rparr>)"
      using q False by (simp add: exec_Cons DispatchMSG_def)
    then show ?thesis using Cons False by simp
  qed
qed simp

text \<open>
  When 256 messages wait, the 257th is dispatched with them inside the call that sends it: if
  one of them is for the object that is just sending, whose mutex is taken, the thread waits for
  itself. Here objects are always there and handlers send nothing.
\<close>

theorem AddMsg_full_deadlocks:
  assumes "calm_mq env" "mq_inv s" "cur_queue_size s = 256" "m0 \<in> set (unicasts (cur_queue s))" "target m0 \<in> set (held s)"
  shows "AddMsg env m 0 s = Some (Inl Deadlock)"
proof -
  let ?ms = "Queue_Send (Queue_AddMsg m (cur_queue s))"
  have "m0 \<in> set ?ms" using assms(4) by (simp add: Queue_Send_def Queue_AddMsg_def)
  then have "mq_exec env (map Dispatch ?ms @ []) (s\<lparr>cur_queue := empty_queue, cur_queue_size := 0\<rparr>) = Some (Inl Deadlock)"
    using assms(5) by (intro exec_held_deadlock [OF assms(1)] bexI [of _ m0]) simp_all
  then show ?thesis using assms(3) by (simp add: AddMsg_def exec_Cons Add_now_def)
qed

definition full_state :: "unit mq" where
  "full_state = (mq_init ())\<lparr>cur_queue := \<lparr>unicasts = replicate 256 (to 3), multi_queue = [], id_multi_queue = []\<rparr>, cur_queue_size := 256, held := [3]\<rparr>"

theorem AddMsg_full_deadlocks_witness: "AddMsg mq_calm_env (to 7) 0 full_state = Some (Inl Deadlock)"
proof -
  have "calm_mq mq_calm_env" "mq_inv full_state" "cur_queue_size full_state = 256" "target (to 3) \<in> set (held full_state)"
    by (simp_all add: calm_mq_def mq_calm_env_def mq_inv_def full_state_def mq_init_def entries_def to_def GetQueue_def bare_def empty_queue_def)
  moreover have "to 3 \<in> set (unicasts (cur_queue full_state))" by (simp add: full_state_def)
  ultimately show ?thesis by (intro AddMsg_full_deadlocks)
qed

text \<open>A multicast to a list of objects is kept, counted and cleared, but never sent.\<close>

lemma AddMultiMsg_never_sent:
  assumes "calm_mq env" "mq_inv s" "held s = []" "cur_queue_size s < 256" "content m = []"
  shows "\<exists>s1 r t. AddMultiMsg env os m 0 s = Some (Inr s1) \<and> mq_beats env n s = Some (Inr r) \<and> mq_beats env n s1 = Some (Inr t) \<and> log t = log r"
proof -
  let ?s1 = "s\<lparr>cur_queue := add_one (SendObjects os m 0) (cur_queue s), cur_queue_size := cur_queue_size s + 1\<rparr>"
  have a: "AddMultiMsg env os m 0 s = Some (Inr ?s1)" using do_add_now [of "SendObjects os m 0" s] assms(4,5) by (simp add: AddMultiMsg_def exec_Cons)
  have "mq_inv ?s1" "held ?s1 = []" using assms by (simp_all add: mq_inv_def entries_def bare_def GetQueue_def)
  then obtain t where t: "mq_beats env n ?s1 = Some (Inr t)" "log t = log ?s1 @ concat (map (due ?s1) [0..<n])"
    using mq_calm_beats [OF assms(1)] by blast
  obtain r where r: "mq_beats env n s = Some (Inr r)" "log r = log s @ concat (map (due s) [0..<n])"
    using mq_calm_beats [OF assms(1-3)] by blast
  have "due ?s1 j = due s j" for j by (simp add: due_def Queue_Send_def slot_def GetQueue_def)
  then have "due ?s1 = due s" by blast
  then show ?thesis using a t r by auto
qed

end
