(* ===== verification/Fsm.thy ===== *)
theory Fsm
  imports Prelude
begin

text \<open>
  \<open>game_module/combat/global/state.h\<close> and \<open>state_machine.h\<close>: states with a timeout and a set
  of permitted options, and machines that shift an object's state along a table of transitions,
  running the virtual methods of the states it leaves and enters.
\<close>

section \<open>States\<close>

record xstate =
  status :: int
  timeout :: int
  opts :: "int set"

definition new_state :: "int \<Rightarrow> int list \<Rightarrow> xstate" where
  "new_state st first = \<lparr>status = st, timeout = - 1, opts = set first\<rparr>"

definition SetTimeOut :: "int \<Rightarrow> xstate \<Rightarrow> xstate res" where
  "SetTimeOut tick x = assertx (tick \<noteq> 0) (Inr (x\<lparr>timeout := tick\<rparr>))"

definition OptionPolicy :: "int \<Rightarrow> xstate \<Rightarrow> bool" where
  "OptionPolicy opt x \<longleftrightarrow> opt \<in> opts x"

text \<open>
  The object of a machine: how it holds its state, and the methods of the state classes, chosen by
  the status.
\<close>

record 'o methods =
  state_of :: "'o \<Rightarrow> xstate option"
  with_state :: "xstate \<Rightarrow> 'o \<Rightarrow> 'o"
  OnEnter :: "int \<Rightarrow> 'o \<Rightarrow> 'o res"
  OnLeave :: "int \<Rightarrow> 'o \<Rightarrow> 'o res"
  OnHeartBeat :: "int \<Rightarrow> 'o \<Rightarrow> 'o res"

definition deref :: "'a option \<Rightarrow> 'a res" where
  "deref p = (case p of None \<Rightarrow> Inl NullDeref | Some x \<Rightarrow> Inr x)"

text \<open>\<open>XState::HeartBeat\<close>: -1 if the state never ends, 0 if it ends now, else the ticks left.\<close>

definition State_HeartBeat :: "'o methods \<Rightarrow> 'o \<Rightarrow> (int \<times> 'o) res" where
  "State_HeartBeat m o1 =
     bindr (deref (state_of m o1)) (\<lambda>x. bindr (OnHeartBeat m (status x) o1) (\<lambda>o2.
     bindr (deref (state_of m o2)) (\<lambda>y.
       if timeout y = - 1 then Inr (- 1, o2)
       else let o3 = with_state m (y\<lparr>timeout := timeout y - 1\<rparr>) o2
            in if timeout y - 1 \<le> 0 then Inr (0, o3) else Inr (timeout y - 1, o3))))"

section \<open>Machines\<close>

record fsm =
  state_stubs :: "xstate option list"
  state_shift_table :: "(int \<times> int) list list"

definition Fsm_Init :: "int \<Rightarrow> int \<Rightarrow> fsm res" where
  "Fsm_Init max_status max_event = assertx (max_status > 0) (assertx (max_event > 0)
     (Inr \<lparr>state_stubs = replicate (nat max_status) None, state_shift_table = replicate (nat max_event) []\<rparr>))"

definition RegisterState :: "xstate \<Rightarrow> fsm \<Rightarrow> fsm res" where
  "RegisterState x m = assertx (\<not> (status x < 0 \<or> status x \<ge> int (length (state_stubs m))))
     (assertx (state_stubs m ! nat (status x) = None)
       (Inr (m\<lparr>state_stubs := (state_stubs m)[nat (status x) := Some x]\<rparr>)))"

definition QueryState :: "int \<Rightarrow> fsm \<Rightarrow> xstate option res" where
  "QueryState st m = (if 0 \<le> st \<and> st < int (length (state_stubs m)) then Inr (state_stubs m ! nat st) else Inl OutOfRange)"

text \<open>One row \<open>(cur, event, next)\<close>; an event equal to the size passes the check.\<close>

definition AddShift :: "int \<times> int \<times> int \<Rightarrow> fsm \<Rightarrow> fsm res" where
  "AddShift r m = (case r of (cur, event, nxt) \<Rightarrow>
     assertx (\<not> event > int (length (state_shift_table m)))
       (if event < 0 \<or> event \<ge> int (length (state_shift_table m)) then Inl OutOfRange
        else let map = state_shift_table m ! nat event in
          assertx (map_of map cur = None)
            (Inr (m\<lparr>state_shift_table := (state_shift_table m)[nat event := smap_put cur nxt map]\<rparr>))))"

fun InitStateShiftTable :: "(int \<times> int \<times> int) list \<Rightarrow> fsm \<Rightarrow> fsm res" where
  "InitStateShiftTable [] m = Inr m"
| "InitStateShiftTable (r # rs) m = bindr (AddShift r m) (InitStateShiftTable rs)"

definition next_status :: "fsm \<Rightarrow> int \<Rightarrow> int \<Rightarrow> int option" where
  "next_status m event cur =
     (if 0 \<le> event \<and> event < int (length (state_shift_table m)) then map_of (state_shift_table m ! nat event) cur else None)"

definition Shift :: "fsm \<Rightarrow> 'o methods \<Rightarrow> int \<Rightarrow> int \<Rightarrow> 'o \<Rightarrow> 'o res" where
  "Shift m f event time o1 =
     assertx (\<not> (event < 0 \<or> event \<ge> int (length (state_shift_table m))))
       (bindr (deref (state_of f o1)) (\<lambda>x.
         case map_of (state_shift_table m ! nat event) (status x) of
           None \<Rightarrow> Inl AssertFail
         | Some nxt \<Rightarrow>
             if nxt = status x then
               bindr (if time > timeout x then SetTimeOut time x else Inr x) (\<lambda>y.
               bindr (OnLeave f (status y) (with_state f y o1)) (\<lambda>o2.
               bindr (deref (state_of f o2)) (\<lambda>z. OnEnter f (status z) o2)))
             else
               bindr (OnLeave f (status x) o1) (\<lambda>o2.
               bindr (QueryState nxt m) (\<lambda>stub. bindr (deref stub) (\<lambda>y.
               bindr (SetTimeOut time y) (\<lambda>z. OnEnter f (status z) (with_state f z o2)))))))"

section \<open>The table a machine is given\<close>

text \<open>
  A table is deterministic if no two rows start from the same status with the same event. Then
  every row is found again, and nothing else is.
\<close>

definition deterministic :: "(int \<times> int \<times> int) list \<Rightarrow> bool" where
  "deterministic rows \<longleftrightarrow> distinct (map (\<lambda>(cur, event, nxt). (event, cur)) rows)"

definition row_of :: "(int \<times> int \<times> int) list \<Rightarrow> int \<Rightarrow> int \<Rightarrow> int option" where
  "row_of rows event cur = map_of (map (\<lambda>(c, e, n). ((e, c), n)) rows) (event, cur)"

lemma row_of_Cons: "row_of ((c, e, n) # rows) event cur = (if event = e \<and> cur = c then Some n else row_of rows event cur)"
  by (auto simp: row_of_def)

definition shift_maps :: "fsm \<Rightarrow> bool" where
  "shift_maps m \<longleftrightarrow> (\<forall>t \<in> set (state_shift_table m). smap_inv t)"

lemma AddShift_ok:
  assumes "shift_maps m" "0 \<le> e" "e < int (length (state_shift_table m))" "next_status m e c = None"
  shows "\<exists>m'. AddShift (c, e, n) m = Inr m' \<and> shift_maps m' \<and> state_stubs m' = state_stubs m \<and>
    length (state_shift_table m') = length (state_shift_table m) \<and>
    (\<forall>event cur. next_status m' event cur = (if event = e \<and> cur = c then Some n else next_status m event cur))"
proof -
  let ?t = "state_shift_table m" let ?m = "?t ! nat e"
  let ?m' = "m\<lparr>state_shift_table := ?t[nat e := smap_put c n ?m]\<rparr>"
  have l: "nat e < length ?t" using assms(2,3) by simp
  have i: "smap_inv ?m" using assms(1) l by (simp add: shift_maps_def)
  have "AddShift (c, e, n) m = Inr ?m'" using assms(2-4) by (simp add: AddShift_def Let_def next_status_def)
  moreover have "shift_maps ?m'" using assms(1) i set_update_subset_insert [of ?t "nat e" "smap_put c n ?m"]
    by (auto simp: shift_maps_def)
  moreover have "next_status ?m' event cur = (if event = e \<and> cur = c then Some n else next_status m event cur)" for event cur
    using l i assms(2) by (auto simp: next_status_def nth_list_update nat_eq_iff)
  ultimately show ?thesis by (intro exI [of _ ?m']) simp
qed

text \<open>
  The loop that fills the table succeeds exactly on the rows of a deterministic table whose events
  are in range, and then the machine's transitions are the rows.
\<close>

lemma InitStateShiftTable_ok:
  "shift_maps m \<Longrightarrow> deterministic rows \<Longrightarrow>
   \<forall>(c, e, n) \<in> set rows. 0 \<le> e \<and> e < int (length (state_shift_table m)) \<and> next_status m e c = None \<Longrightarrow>
   \<exists>m'. InitStateShiftTable rows m = Inr m' \<and> state_stubs m' = state_stubs m \<and>
     length (state_shift_table m') = length (state_shift_table m) \<and>
     (\<forall>event cur. next_status m' event cur = (case row_of rows event cur of Some n \<Rightarrow> Some n | None \<Rightarrow> next_status m event cur))"
proof (induction rows arbitrary: m)
  case Nil
  then show ?case by (simp add: row_of_def)
next
  case (Cons r rows)
  obtain c e n where r: "r = (c, e, n)" by (cases r)
  have p: "0 \<le> e" "e < int (length (state_shift_table m))" "next_status m e c = None" using Cons.prems(3) r by auto
  obtain m1 where m1: "AddShift r m = Inr m1" "shift_maps m1" "state_stubs m1 = state_stubs m"
    "length (state_shift_table m1) = length (state_shift_table m)"
    "\<And>event cur. next_status m1 event cur = (if event = e \<and> cur = c then Some n else next_status m event cur)"
    using AddShift_ok [OF Cons.prems(1) p] r by blast
  have fresh: "row_of rows e c = None" using Cons.prems(2) r by (force simp: deterministic_def row_of_def map_of_eq_None_iff)
  have "\<forall>(c', e', n') \<in> set rows. 0 \<le> e' \<and> e' < int (length (state_shift_table m1)) \<and> next_status m1 e' c' = None"
  proof clarify
    fix c' e' n' assume in_rows: "(c', e', n') \<in> set rows"
    then have "(e', c') \<in> set (map (\<lambda>(cur, event, nxt). (event, cur)) rows)" by force
    moreover have "(e, c) \<notin> set (map (\<lambda>(cur, event, nxt). (event, cur)) rows)"
      using Cons.prems(2) by (simp only: r deterministic_def list.map distinct.simps prod.case not_False_eq_True simp_thms)
    ultimately have "\<not> (e' = e \<and> c' = c)" by blast
    then show "0 \<le> e' \<and> e' < int (length (state_shift_table m1)) \<and> next_status m1 e' c' = None"
      using Cons.prems(3) in_rows m1(4) m1(5) [of e' c'] by auto
  qed
  moreover have "deterministic rows" using Cons.prems(2) by (simp add: deterministic_def)
  ultimately obtain m2 where m2: "InitStateShiftTable rows m1 = Inr m2" "state_stubs m2 = state_stubs m1"
    "length (state_shift_table m2) = length (state_shift_table m1)"
    "\<And>event cur. next_status m2 event cur = (case row_of rows event cur of Some n \<Rightarrow> Some n | None \<Rightarrow> next_status m1 event cur)"
    using Cons.IH [OF m1(2)] by blast
  have "next_status m2 event cur = (case row_of (r # rows) event cur of Some n \<Rightarrow> Some n | None \<Rightarrow> next_status m event cur)" for event cur
    unfolding r row_of_Cons m2(4) m1(5) using fresh by (auto split: option.splits)
  then show ?case using m1 m2 by auto
qed

end
