(* ===== verification/CombatFlow.thy ===== *)
theory CombatFlow
  imports Fsm CombatATB
begin

text \<open>
  The course of a combat (\<open>combat/combat_state.cpp\<close> and the operations of \<open>combat/combat.cpp\<close>
  that change its state): the machine of \<open>Fsm\<close> with the table of a combat, driven by units,
  scripts, players and heartbeats, and tied to the scheduler of \<open>CombatATB\<close>.
\<close>

section \<open>The machine of a combat\<close>

abbreviation (input) XOPT_REGISTER_ATB :: int where "XOPT_REGISTER_ATB \<equiv> 1"
abbreviation (input) XOPT_UNREGISTER_ATB :: int where "XOPT_UNREGISTER_ATB \<equiv> 2"
abbreviation (input) XOPT_PLAYER_OPERATE :: int where "XOPT_PLAYER_OPERATE \<equiv> 3"
abbreviation (input) XOPT_SCRIPT_OPERATE :: int where "XOPT_SCRIPT_OPERATE \<equiv> 4"
abbreviation (input) XOPT_STOP :: int where "XOPT_STOP \<equiv> 5"
abbreviation (input) XOPT_SUSPEND :: int where "XOPT_SUSPEND \<equiv> 6"
abbreviation (input) XOPT_WAIT_SELECT_SKILL :: int where "XOPT_WAIT_SELECT_SKILL \<equiv> 7"
abbreviation (input) XOPT_WAIT_SELECT_PET :: int where "XOPT_WAIT_SELECT_PET \<equiv> 8"

abbreviation (input) XSTATUS_CLOSED :: int where "XSTATUS_CLOSED \<equiv> 0"
abbreviation (input) XSTATUS_OPEN_READY :: int where "XSTATUS_OPEN_READY \<equiv> 1"
abbreviation (input) XSTATUS_RUNNING :: int where "XSTATUS_RUNNING \<equiv> 2"
abbreviation (input) XSTATUS_STOPPED :: int where "XSTATUS_STOPPED \<equiv> 3"
abbreviation (input) XSTATUS_SUSPEND :: int where "XSTATUS_SUSPEND \<equiv> 4"
abbreviation (input) XSTATUS_CLOSE_WAIT :: int where "XSTATUS_CLOSE_WAIT \<equiv> 5"
abbreviation (input) XSTATUS_LAST_WAIT :: int where "XSTATUS_LAST_WAIT \<equiv> 6"
abbreviation (input) XSTATUS_WAIT_SELECT_SKILL :: int where "XSTATUS_WAIT_SELECT_SKILL \<equiv> 7"
abbreviation (input) XSTATUS_WAIT_SELECT_PET :: int where "XSTATUS_WAIT_SELECT_PET \<equiv> 8"
abbreviation (input) XSTATUS_MAX :: int where "XSTATUS_MAX \<equiv> 9"

abbreviation (input) XEVENT_INIT :: int where "XEVENT_INIT \<equiv> 0"
abbreviation (input) XEVENT_STOP :: int where "XEVENT_STOP \<equiv> 1"
abbreviation (input) XEVENT_SUSPEND :: int where "XEVENT_SUSPEND \<equiv> 2"
abbreviation (input) XEVENT_RESUME :: int where "XEVENT_RESUME \<equiv> 3"
abbreviation (input) XEVENT_TIMEOUT :: int where "XEVENT_TIMEOUT \<equiv> 4"
abbreviation (input) XEVENT_CLOSING :: int where "XEVENT_CLOSING \<equiv> 5"
abbreviation (input) XEVENT_CLOSE :: int where "XEVENT_CLOSE \<equiv> 6"
abbreviation (input) XEVENT_WAIT_SELECT_SKILL :: int where "XEVENT_WAIT_SELECT_SKILL \<equiv> 7"
abbreviation (input) XEVENT_WAIT_SELECT_PET :: int where "XEVENT_WAIT_SELECT_PET \<equiv> 8"
abbreviation (input) XEVENT_MAX :: int where "XEVENT_MAX \<equiv> 9"

definition combat_states :: "xstate list" where
  "combat_states =
    [new_state XSTATUS_CLOSED [],
     new_state XSTATUS_OPEN_READY [XOPT_REGISTER_ATB, XOPT_UNREGISTER_ATB, XOPT_PLAYER_OPERATE, XOPT_SCRIPT_OPERATE, XOPT_SUSPEND],
     new_state XSTATUS_RUNNING [XOPT_REGISTER_ATB, XOPT_UNREGISTER_ATB, XOPT_PLAYER_OPERATE, XOPT_SCRIPT_OPERATE, XOPT_SUSPEND, XOPT_STOP,
       XOPT_WAIT_SELECT_SKILL, XOPT_WAIT_SELECT_PET],
     new_state XSTATUS_STOPPED [XOPT_REGISTER_ATB, XOPT_UNREGISTER_ATB, XOPT_PLAYER_OPERATE, XOPT_SCRIPT_OPERATE],
     new_state XSTATUS_SUSPEND [XOPT_REGISTER_ATB, XOPT_UNREGISTER_ATB, XOPT_PLAYER_OPERATE, XOPT_SCRIPT_OPERATE, XOPT_SUSPEND],
     new_state XSTATUS_CLOSE_WAIT [XOPT_PLAYER_OPERATE],
     new_state XSTATUS_LAST_WAIT [],
     new_state XSTATUS_WAIT_SELECT_SKILL [XOPT_REGISTER_ATB, XOPT_UNREGISTER_ATB, XOPT_PLAYER_OPERATE, XOPT_SCRIPT_OPERATE, XOPT_WAIT_SELECT_SKILL],
     new_state XSTATUS_WAIT_SELECT_PET [XOPT_REGISTER_ATB, XOPT_UNREGISTER_ATB, XOPT_PLAYER_OPERATE, XOPT_SCRIPT_OPERATE, XOPT_WAIT_SELECT_PET]]"

definition combat_state_shift_table :: "(int \<times> int \<times> int) list" where
  "combat_state_shift_table =
    [(XSTATUS_CLOSED, XEVENT_INIT, XSTATUS_OPEN_READY),
     (XSTATUS_OPEN_READY, XEVENT_TIMEOUT, XSTATUS_RUNNING),
     (XSTATUS_OPEN_READY, XEVENT_SUSPEND, XSTATUS_SUSPEND),
     (XSTATUS_OPEN_READY, XEVENT_CLOSING, XSTATUS_CLOSE_WAIT),
     (XSTATUS_RUNNING, XEVENT_STOP, XSTATUS_STOPPED),
     (XSTATUS_RUNNING, XEVENT_SUSPEND, XSTATUS_SUSPEND),
     (XSTATUS_RUNNING, XEVENT_CLOSING, XSTATUS_CLOSE_WAIT),
     (XSTATUS_RUNNING, XEVENT_CLOSE, XSTATUS_CLOSED),
     (XSTATUS_RUNNING, XEVENT_WAIT_SELECT_SKILL, XSTATUS_WAIT_SELECT_SKILL),
     (XSTATUS_RUNNING, XEVENT_WAIT_SELECT_PET, XSTATUS_WAIT_SELECT_PET),
     (XSTATUS_SUSPEND, XEVENT_SUSPEND, XSTATUS_SUSPEND),
     (XSTATUS_SUSPEND, XEVENT_RESUME, XSTATUS_RUNNING),
     (XSTATUS_SUSPEND, XEVENT_TIMEOUT, XSTATUS_RUNNING),
     (XSTATUS_SUSPEND, XEVENT_CLOSING, XSTATUS_CLOSE_WAIT),
     (XSTATUS_STOPPED, XEVENT_TIMEOUT, XSTATUS_RUNNING),
     (XSTATUS_STOPPED, XEVENT_CLOSING, XSTATUS_CLOSE_WAIT),
     (XSTATUS_CLOSE_WAIT, XEVENT_CLOSING, XSTATUS_CLOSE_WAIT),
     (XSTATUS_CLOSE_WAIT, XEVENT_CLOSE, XSTATUS_LAST_WAIT),
     (XSTATUS_LAST_WAIT, XEVENT_TIMEOUT, XSTATUS_CLOSED),
     (XSTATUS_WAIT_SELECT_SKILL, XEVENT_WAIT_SELECT_SKILL, XSTATUS_WAIT_SELECT_SKILL),
     (XSTATUS_WAIT_SELECT_SKILL, XEVENT_RESUME, XSTATUS_RUNNING),
     (XSTATUS_WAIT_SELECT_SKILL, XEVENT_TIMEOUT, XSTATUS_RUNNING),
     (XSTATUS_WAIT_SELECT_SKILL, XEVENT_CLOSING, XSTATUS_CLOSE_WAIT),
     (XSTATUS_WAIT_SELECT_PET, XEVENT_WAIT_SELECT_PET, XSTATUS_WAIT_SELECT_PET),
     (XSTATUS_WAIT_SELECT_PET, XEVENT_RESUME, XSTATUS_RUNNING),
     (XSTATUS_WAIT_SELECT_PET, XEVENT_TIMEOUT, XSTATUS_RUNNING),
     (XSTATUS_WAIT_SELECT_PET, XEVENT_CLOSING, XSTATUS_CLOSE_WAIT)]"

fun register_all :: "xstate list \<Rightarrow> fsm \<Rightarrow> fsm res" where
  "register_all [] m = Inr m"
| "register_all (x # xs) m = bindr (RegisterState x m) (register_all xs)"

definition CombatState_Initialize :: "fsm res" where
  "CombatState_Initialize = bindr (Fsm_Init XSTATUS_MAX XEVENT_MAX) (\<lambda>m.
     bindr (register_all combat_states m) (InitStateShiftTable combat_state_shift_table))"

definition combat_fsm :: fsm where
  "combat_fsm = (case CombatState_Initialize of Inr m \<Rightarrow> m | Inl _ \<Rightarrow> \<lparr>state_stubs = [], state_shift_table = []\<rparr>)"

section \<open>The state of a combat\<close>

text \<open>
  \<open>scene\<close> is the script of the scene: none, one without a Lua stack, or one with a stack that
  has yielded or not. A combat sends messages to itself; \<open>out\<close> collects the calls of the
  scheduler that an operation makes; \<open>outer\<close> is the rest of the world. \<open>ended\<close> says that the
  combat has been cleared and given back to its pool.
\<close>

datatype scene = NoScene | NoLua | Lua bool

datatype flow_msg = MsgEnd | MsgContinue | MsgResume

datatype cmd = CmdSelectSkill bool | CmdPetAttack | CmdTerminate | CmdOther

record 'x flow =
  fstate :: "xstate option"
  scene :: scene
  attacker_win :: bool
  mob_group_id :: int
  next_mob_group_id :: int
  wave_counter :: int
  ended :: bool
  to_self :: "flow_msg list"
  cmd_vec :: "cmd list"
  out :: "atb_call list"
  outer :: 'x

text \<open>
  The operations of \<open>Combat\<close> that units, scripts and commands call; \<open>OOuter\<close> is what they do to
  the rest of the world, \<open>ORound\<close> the start of a unit's round.
\<close>

datatype 'x op = OSuspend int | OWaitSkill int | OWaitPet int | OTerminate | OTestEnd | OStop int | ORevise int
  | ORegister int | OInstant int | OUnRegister int | OReset int | OChange int | OUnRegisterAll
  | OUnit int unit_data | OOuter 'x | ORound int

datatype script_event = ScriptStart | ScriptRound int | ScriptResume

text \<open>
  What units, scripts and players do is an environment: lists of operations that may depend on
  all of the state. \<open>Accepts\<close> says whether a unit takes a command, and what that changes;
  \<open>NextWave\<close> whether there is a next wave (\<open>None\<close> if not, which the code rules out) and all its
  mobs could be made.
\<close>

record 'x combat_env =
  Script :: "'x flow \<Rightarrow> script_event \<Rightarrow> 'x op list"
  Release :: "'x flow \<Rightarrow> 'x"
  LuaInit :: "'x flow \<Rightarrow> bool"
  Attack :: "'x flow \<Rightarrow> int \<Rightarrow> bool \<times> 'x op list"
  UnitsHeartBeat :: "'x flow \<Rightarrow> 'x op list"
  OtherMSG :: "'x flow \<Rightarrow> 'x op list"
  StartOps :: "'x flow \<Rightarrow> 'x op list"
  EndOps :: "'x flow \<Rightarrow> 'x"
  NextWave :: "'x flow \<Rightarrow> bool option \<times> 'x"
  IsCombatEnd :: "'x flow \<Rightarrow> int"
  TestCloseCombat :: "'x flow \<Rightarrow> bool"
  AliveUnits :: "'x flow \<Rightarrow> int list"
  GetNextMobGroupID :: "int \<Rightarrow> int"
  Accepts :: "'x flow \<Rightarrow> cmd \<Rightarrow> bool \<times> 'x"
  junk_time :: int

definition emit :: "atb_call \<Rightarrow> 'x flow \<Rightarrow> 'x flow" where
  "emit c f = f\<lparr>out := out f @ [c]\<rparr>"

definition send_self :: "flow_msg \<Rightarrow> 'x flow \<Rightarrow> 'x flow" where
  "send_self m f = f\<lparr>to_self := to_self f @ [m]\<rparr>"

definition permits :: "int \<Rightarrow> 'x flow \<Rightarrow> bool res" where
  "permits opt f = bindr (deref (fstate f)) (\<lambda>x. Inr (OptionPolicy opt x))"

definition in_state :: "int \<Rightarrow> 'x flow \<Rightarrow> bool res" where
  "in_state st f = bindr (deref (fstate f)) (\<lambda>x. Inr (status x = st))"

section \<open>Entering and leaving states\<close>

text \<open>
  \<open>CombatPVE::DoCombatEnd\<close> reports the result, clears the combat and gives it back to its pool.
\<close>

definition DoCombatEnd :: "'x flow \<Rightarrow> 'x flow" where
  "DoCombatEnd f = emit CClear (f\<lparr>scene := NoScene, attacker_win := False, cmd_vec := [], ended := True\<rparr>)"

definition TryCloseCombat :: "'x combat_env \<Rightarrow> 'x flow \<Rightarrow> bool \<times> 'x flow" where
  "TryCloseCombat env f =
     (if attacker_win f \<and> next_mob_group_id f > 0
      then (False, f\<lparr>mob_group_id := next_mob_group_id f, next_mob_group_id := GetNextMobGroupID env (next_mob_group_id f)\<rparr>)
      else (True, f))"

definition resume_message :: "'x flow \<Rightarrow> 'x flow" where
  "resume_message f = (if scene f = Lua True then send_self MsgResume f else f)"

definition LastWait_OnLeave :: "'x combat_env \<Rightarrow> 'x flow \<Rightarrow> 'x flow" where
  "LastWait_OnLeave env f = (case TryCloseCombat env f of (close, f1) \<Rightarrow>
     if close then DoCombatEnd f1 else send_self MsgContinue f1)"

text \<open>\<open>start\<close> is \<open>OnCombatStart\<close>, which runs a script and so may shift the state again.\<close>

definition combat_methods :: "'x combat_env \<Rightarrow> ('x flow \<Rightarrow> 'x flow res) \<Rightarrow> 'x flow methods" where
  "combat_methods env start = \<lparr>
     state_of = fstate,
     with_state = (\<lambda>x f. f\<lparr>fstate := Some x\<rparr>),
     OnEnter = (\<lambda>st f.
       if st = XSTATUS_OPEN_READY then start f
       else if st = XSTATUS_RUNNING then Inr (emit CActivate f)
       else if st = XSTATUS_CLOSE_WAIT then Inr (emit CUnRegisterAll f)
       else Inr f),
     OnLeave = (\<lambda>st f.
       if st = XSTATUS_SUSPEND \<or> st = XSTATUS_WAIT_SELECT_SKILL \<or> st = XSTATUS_WAIT_SELECT_PET then Inr (resume_message f)
       else if st = XSTATUS_LAST_WAIT then Inr (LastWait_OnLeave env f)
       else Inr f),
     OnHeartBeat = (\<lambda>st f.
       if st = XSTATUS_CLOSE_WAIT \<and> TestCloseCombat env f then Inr (send_self MsgEnd f) else Inr f)\<rparr>"

definition Update :: "'x combat_env \<Rightarrow> ('x flow \<Rightarrow> 'x flow res) \<Rightarrow> int \<Rightarrow> int \<Rightarrow> 'x flow \<Rightarrow> 'x flow res" where
  "Update env start event time f = Shift combat_fsm (combat_methods env start) event (if time > 0 then time else - 1) f"

section \<open>Operations\<close>

definition guarded :: "bool res \<Rightarrow> 'x flow \<Rightarrow> ('x flow \<Rightarrow> 'x flow res) \<Rightarrow> 'x flow res" where
  "guarded c f k = bindr c (\<lambda>b. if b then k f else Inr f)"

text \<open>
  In what follows \<open>upd\<close> is \<open>Update\<close> with its script, \<open>resume\<close> is \<open>CombatSceneAI::Resume\<close>.
  \<open>sdiv\<close> is the division of C++. A pause stops the scheduler if the combat is running; a second
  one of the same kind may prolong the first.
\<close>

definition stop_for :: "int \<Rightarrow> 'x flow \<Rightarrow> 'x flow res" where
  "stop_for again f = bindr (in_state XSTATUS_RUNNING f) (\<lambda>b.
     if b then Inr (emit CDeActivate f)
     else bindr (in_state again f) (\<lambda>b. assertx b (Inr f)))"

definition Suspend :: "(int \<Rightarrow> int \<Rightarrow> 'x flow \<Rightarrow> 'x flow res) \<Rightarrow> int \<Rightarrow> 'x flow \<Rightarrow> 'x flow res" where
  "Suspend upd msec f = guarded (permits XOPT_SUSPEND f) f (\<lambda>f.
     bindr (in_state XSTATUS_OPEN_READY f) (\<lambda>b.
     bindr (if b then Inr f else stop_for XSTATUS_SUSPEND f) (upd XEVENT_SUSPEND (msec sdiv MSEC_PER_TICK))))"

definition shown_msec :: "int \<Rightarrow> int" where
  "shown_msec msec = (if msec \<ge> 5000 then msec - 5000 else msec)"

definition WaitSelectSkill :: "(int \<Rightarrow> int \<Rightarrow> 'x flow \<Rightarrow> 'x flow res) \<Rightarrow> ('x flow \<Rightarrow> 'x flow res) \<Rightarrow> int \<Rightarrow> 'x flow \<Rightarrow> 'x flow res" where
  "WaitSelectSkill upd resume msec f =
     (if msec \<noteq> 0 then
        guarded (permits XOPT_WAIT_SELECT_SKILL f) f (\<lambda>f.
          bindr (stop_for XSTATUS_WAIT_SELECT_SKILL f) (upd XEVENT_WAIT_SELECT_SKILL (shown_msec msec sdiv MSEC_PER_TICK)))
      else bindr (upd XEVENT_RESUME (- 1) f) resume)"

definition WaitSelectPet :: "(int \<Rightarrow> int \<Rightarrow> 'x flow \<Rightarrow> 'x flow res) \<Rightarrow> ('x flow \<Rightarrow> 'x flow res) \<Rightarrow> int \<Rightarrow> 'x flow \<Rightarrow> 'x flow res" where
  "WaitSelectPet upd resume msec f =
     (if msec \<noteq> 0 then
        guarded (permits XOPT_WAIT_SELECT_PET f) f (\<lambda>f.
          bindr (stop_for XSTATUS_WAIT_SELECT_PET f) (upd XEVENT_WAIT_SELECT_PET (shown_msec msec sdiv MSEC_PER_TICK)))
      else bindr (upd XEVENT_RESUME (- 1) f) resume)"

definition Terminate :: "(int \<Rightarrow> int \<Rightarrow> 'x flow \<Rightarrow> 'x flow res) \<Rightarrow> 'x flow \<Rightarrow> 'x flow res" where
  "Terminate upd f = upd XEVENT_CLOSING (- 1) f"

text \<open>Bit 2 of the result says that the attackers have lost, bit 1 that they have won.\<close>

definition TestCombatEnd :: "'x combat_env \<Rightarrow> (int \<Rightarrow> int \<Rightarrow> 'x flow \<Rightarrow> 'x flow res) \<Rightarrow> 'x flow \<Rightarrow> 'x flow res" where
  "TestCombatEnd env upd f =
     (if bit (IsCombatEnd env f) 1 then upd XEVENT_CLOSING (- 1) ((emit CUnRegisterAll f)\<lparr>attacker_win := False\<rparr>)
      else if bit (IsCombatEnd env f) 0 then upd XEVENT_CLOSING (- 1) ((emit CUnRegisterAll f)\<lparr>attacker_win := True\<rparr>)
      else Inr f)"

definition DeActivateATB :: "(int \<Rightarrow> int \<Rightarrow> 'x flow \<Rightarrow> 'x flow res) \<Rightarrow> int \<Rightarrow> 'x flow \<Rightarrow> 'x flow res" where
  "DeActivateATB upd t f = guarded (permits XOPT_STOP f) f (\<lambda>f. upd XEVENT_STOP t (emit CDeActivate f))"

text \<open>\<open>delta\<close> is the number of ticks since the last action of the unit's side.\<close>

definition NeedReviseATB :: "(int \<Rightarrow> int \<Rightarrow> 'x flow \<Rightarrow> 'x flow res) \<Rightarrow> int \<Rightarrow> 'x flow \<Rightarrow> (bool \<times> 'x flow) res" where
  "NeedReviseATB upd delta f =
     (if delta < 2 then bindr (DeActivateATB upd (2 - delta) f) (\<lambda>f1. Inr (True, f1)) else Inr (False, f))"

definition Combat_RegisterATB :: "int \<Rightarrow> 'x flow \<Rightarrow> 'x flow res" where
  "Combat_RegisterATB u f = guarded (permits XOPT_REGISTER_ATB f) f (\<lambda>f. Inr (emit (CRegister u) f))"

definition Combat_RegisterInstantATB :: "int \<Rightarrow> 'x flow \<Rightarrow> 'x flow res" where
  "Combat_RegisterInstantATB u f = guarded (permits XOPT_REGISTER_ATB f) f (\<lambda>f. Inr (emit (CInstant u) f))"

definition Combat_UnRegisterATB :: "int \<Rightarrow> 'x flow \<Rightarrow> 'x flow res" where
  "Combat_UnRegisterATB u f = guarded (permits XOPT_UNREGISTER_ATB f) f (\<lambda>f. Inr (emit (CUnRegister u) f))"

definition Combat_ResetATB :: "int \<Rightarrow> 'x flow \<Rightarrow> 'x flow res" where
  "Combat_ResetATB u f = guarded (permits XOPT_REGISTER_ATB f) f (\<lambda>f. Inr (emit (CReset u) f))"

fun register_units :: "int list \<Rightarrow> 'x flow \<Rightarrow> 'x flow res" where
  "register_units [] f = Inr f"
| "register_units (u # us) f = bindr (Combat_RegisterATB u f) (register_units us)"

definition RegisterAllATB :: "'x combat_env \<Rightarrow> 'x flow \<Rightarrow> 'x flow res" where
  "RegisterAllATB env f = register_units (AliveUnits env f) f"

text \<open>
  \<open>scripts\<close> runs the scene's script on an event. A start or a round asserts that the script does
  not hang in the middle of another event; a resumption of one that does not is nothing. Scripts
  are free of Lua errors here: one that fails is reported and dropped by the code, but leaves its
  coroutine in the status of the error, in which the assertion of the next start or round fails.
\<close>

definition SceneAI_On :: "(script_event \<Rightarrow> 'x flow \<Rightarrow> 'x flow res) \<Rightarrow> script_event \<Rightarrow> 'x flow \<Rightarrow> 'x flow res" where
  "SceneAI_On scripts ev f = (case scene f of Lua yielded \<Rightarrow> assertx (\<not> yielded) (scripts ev f) | _ \<Rightarrow> Inr f)"

definition SceneAI_Resume :: "(script_event \<Rightarrow> 'x flow \<Rightarrow> 'x flow res) \<Rightarrow> 'x flow \<Rightarrow> 'x flow res" where
  "SceneAI_Resume scripts f =
     (case scene f of
        NoScene \<Rightarrow> Inl NullDeref
      | NoLua \<Rightarrow> Inl AssertFail
      | Lua yielded \<Rightarrow> if \<not> yielded then Inr f else scripts ScriptResume f)"

definition OnCombatStart :: "'x combat_env \<Rightarrow> (script_event \<Rightarrow> 'x flow \<Rightarrow> 'x flow res) \<Rightarrow> 'x flow \<Rightarrow> 'x flow res" where
  "OnCombatStart env scripts f = bindr (RegisterAllATB env f) (SceneAI_On scripts ScriptStart)"

fun do_op :: "'x combat_env \<Rightarrow> (script_event \<Rightarrow> 'x flow \<Rightarrow> 'x flow res) \<Rightarrow> 'x flow \<Rightarrow> 'x op \<Rightarrow> 'x flow res" where
  "do_op env scripts f (OSuspend msec) = Suspend (Update env (OnCombatStart env scripts)) msec f"
| "do_op env scripts f (OWaitSkill msec) = WaitSelectSkill (Update env (OnCombatStart env scripts)) (SceneAI_Resume scripts) msec f"
| "do_op env scripts f (OWaitPet msec) = WaitSelectPet (Update env (OnCombatStart env scripts)) (SceneAI_Resume scripts) msec f"
| "do_op env scripts f OTerminate = Terminate (Update env (OnCombatStart env scripts)) f"
| "do_op env scripts f OTestEnd = TestCombatEnd env (Update env (OnCombatStart env scripts)) f"
| "do_op env scripts f (OStop t) = DeActivateATB (Update env (OnCombatStart env scripts)) t f"
| "do_op env scripts f (ORevise delta) = bindr (NeedReviseATB (Update env (OnCombatStart env scripts)) delta f) (\<lambda>p. Inr (snd p))"
| "do_op env scripts f (ORegister u) = Combat_RegisterATB u f"
| "do_op env scripts f (OInstant u) = Combat_RegisterInstantATB u f"
| "do_op env scripts f (OUnRegister u) = Combat_UnRegisterATB u f"
| "do_op env scripts f (OReset u) = Combat_ResetATB u f"
| "do_op env scripts f (OChange u) = Inr (emit (CChange u) f)"
| "do_op env scripts f OUnRegisterAll = Inr (emit CUnRegisterAll f)"
| "do_op env scripts f (OUnit u d) = Inr (emit (CUnit u d) f)"
| "do_op env scripts f (OOuter x) = Inr (f\<lparr>outer := x\<rparr>)"
| "do_op env scripts f (ORound u) = SceneAI_On scripts (ScriptRound u) f"

section \<open>Scripts\<close>

text \<open>
  A script calls operations through \<open>CombatLuaAPI\<close>, which refuses them in some states. A call that
  puts it to sleep yields, in whatever state, unless it is refused; what it does after that is
  left to its next resumption. A running script cannot be resumed.
\<close>

definition nested_script :: "script_event \<Rightarrow> 'x flow \<Rightarrow> 'x flow res" where
  "nested_script ev f = Inr f"

fun sleeps :: "'x op \<Rightarrow> bool" where
  "sleeps (OSuspend _) = True"
| "sleeps (OWaitSkill _) = True"
| "sleeps (OWaitPet _) = True"
| "sleeps _ = False"

fun script_ops :: "'x combat_env \<Rightarrow> 'x op list \<Rightarrow> 'x flow \<Rightarrow> 'x flow res" where
  "script_ops env [] f = Inr f"
| "script_ops env (a # ops) f = bindr (permits XOPT_SCRIPT_OPERATE f) (\<lambda>ok.
     if \<not> ok then script_ops env ops f
     else bindr (do_op env nested_script f a) (\<lambda>f1.
       if sleeps a then Inr (f1\<lparr>scene := Lua True\<rparr>) else script_ops env ops f1))"

definition run_script :: "'x combat_env \<Rightarrow> script_event \<Rightarrow> 'x flow \<Rightarrow> 'x flow res" where
  "run_script env ev f = script_ops env (Script env f ev) (f\<lparr>scene := Lua False\<rparr>)"

abbreviation combat_op :: "'x combat_env \<Rightarrow> 'x flow \<Rightarrow> 'x op \<Rightarrow> 'x flow res" where
  "combat_op env \<equiv> do_op env (run_script env)"

abbreviation combat_update :: "'x combat_env \<Rightarrow> int \<Rightarrow> int \<Rightarrow> 'x flow \<Rightarrow> 'x flow res" where
  "combat_update env \<equiv> Update env (OnCombatStart env (run_script env))"

section \<open>Commands\<close>

text \<open>
  A player's command is taken at once, or kept while the combat closes. Choosing a skill or a pet
  ends the wait for it.
\<close>

fun player_cmd :: "'x combat_env \<Rightarrow> cmd \<Rightarrow> 'x flow \<Rightarrow> 'x flow res" where
  "player_cmd env CmdTerminate f = combat_op env f OTerminate"
| "player_cmd env (CmdSelectSkill notify) f =
     (case Accepts env f (CmdSelectSkill notify) of (ok, x) \<Rightarrow>
        if \<not> ok then Inr f
        else let f1 = f\<lparr>outer := x\<rparr>
             in if \<not> notify then Inr f1
                else guarded (in_state XSTATUS_WAIT_SELECT_SKILL f1) f1 (\<lambda>f. combat_op env f (OWaitSkill 0)))"
| "player_cmd env CmdPetAttack f =
     (case Accepts env f CmdPetAttack of (ok, x) \<Rightarrow>
        if \<not> ok then Inr f
        else let f1 = f\<lparr>outer := x\<rparr>
             in guarded (in_state XSTATUS_WAIT_SELECT_PET f1) f1 (\<lambda>f. combat_op env f (OWaitPet 0)))"
| "player_cmd env CmdOther f = (case Accepts env f CmdOther of (ok, x) \<Rightarrow> Inr (if ok then f\<lparr>outer := x\<rparr> else f))"

definition HandleCMD :: "'x combat_env \<Rightarrow> cmd \<Rightarrow> 'x flow \<Rightarrow> 'x flow res" where
  "HandleCMD env c f = guarded (permits XOPT_PLAYER_OPERATE f) f (\<lambda>f.
     bindr (in_state XSTATUS_CLOSE_WAIT f) (\<lambda>b. if b then Inr (f\<lparr>cmd_vec := cmd_vec f @ [c]\<rparr>) else player_cmd env c f))"

text \<open>The loop reads the length of the list in every round, and a command may lengthen it.\<close>

partial_function (option) delay_loop :: "'x combat_env \<Rightarrow> nat \<Rightarrow> 'x flow \<Rightarrow> 'x flow res option" where
  "delay_loop env i f =
     (if i < length (cmd_vec f)
      then (case HandleCMD env (cmd_vec f ! i) f of
              Inl e \<Rightarrow> Some (Inl e)
            | Inr f1 \<Rightarrow> delay_loop env (Suc i) f1)
      else Some (Inr (f\<lparr>cmd_vec := []\<rparr>)))"

declare delay_loop.simps [code]

definition HandleDelayCMD :: "'x combat_env \<Rightarrow> 'x flow \<Rightarrow> 'x flow res option" where
  "HandleDelayCMD env f = delay_loop env 0 f"

section \<open>Start, heartbeat and messages\<close>

text \<open>\<open>CombatState::Init\<close>, \<open>Reset\<close> and \<open>HeartBeat\<close>, with the times of \<open>combat_def.h\<close>.\<close>

definition State_Init :: "'x combat_env \<Rightarrow> 'x flow \<Rightarrow> 'x flow res" where
  "State_Init env f =
     bindr (if fstate f = None then bindr (QueryState XSTATUS_CLOSED combat_fsm) (\<lambda>s. Inr (f\<lparr>fstate := s\<rparr>)) else Inr f)
       (combat_update env XEVENT_INIT (1000 sdiv MSEC_PER_TICK))"

definition State_Reset :: "'x combat_env \<Rightarrow> 'x flow \<Rightarrow> 'x flow res" where
  "State_Reset env f = combat_update env XEVENT_INIT (100 sdiv MSEC_PER_TICK) f"

definition CombatState_HeartBeat :: "'x combat_env \<Rightarrow> 'x flow \<Rightarrow> 'x flow res" where
  "CombatState_HeartBeat env f =
     bindr (State_HeartBeat (combat_methods env (OnCombatStart env (run_script env))) f) (\<lambda>(rst, f1).
       if rst = 0 then combat_update env XEVENT_TIMEOUT (- 1) f1 else Inr f1)"

definition CombatEnd :: "'x combat_env \<Rightarrow> 'x flow \<Rightarrow> 'x flow res" where
  "CombatEnd env f = combat_update env XEVENT_CLOSE (1500 sdiv MSEC_PER_TICK) (f\<lparr>outer := EndOps env f\<rparr>)"

text \<open>
  The next wave: the script is run to its end, in a state in which all its calls are refused, and
  starts anew after the state has been reset.
\<close>

definition SceneAI_Release :: "'x combat_env \<Rightarrow> 'x flow \<Rightarrow> 'x flow res" where
  "SceneAI_Release env f = (case scene f of Lua _ \<Rightarrow> Inr (f\<lparr>scene := NoLua, outer := Release env f\<rparr>) | _ \<Rightarrow> Inl NullDeref)"

definition SceneAI_Init :: "'x combat_env \<Rightarrow> 'x flow \<Rightarrow> 'x flow" where
  "SceneAI_Init env f = f\<lparr>scene := (if LuaInit env f then Lua False else NoLua)\<rparr>"

definition CombatContinue :: "'x combat_env \<Rightarrow> 'x flow \<Rightarrow> 'x flow res" where
  "CombatContinue env f = assertx (attacker_win f)
     (let f1 = emit CClear (f\<lparr>wave_counter := i32 (wave_counter f + 1)\<rparr>)
      in bindr (if scene f1 = NoScene then Inr f1 else SceneAI_Release env f1) (\<lambda>f2.
        case NextWave env f2 of
          (None, x) \<Rightarrow> Inl AssertFail
        | (Some ok, x) \<Rightarrow>
          let f3 = f2\<lparr>outer := x\<rparr>
          in if \<not> ok then Inr f3
             else bindr (State_Reset env f3) (\<lambda>f4. Inr (if scene f4 = NoScene then f4 else SceneAI_Init env f4))))"

definition ResumeSceneScript :: "'x combat_env \<Rightarrow> 'x flow \<Rightarrow> 'x flow res" where
  "ResumeSceneScript env f = assertx (scene f \<noteq> NoScene) (SceneAI_Resume (run_script env) f)"

fun message_handler :: "'x combat_env \<Rightarrow> flow_msg \<Rightarrow> 'x flow \<Rightarrow> 'x flow res" where
  "message_handler env MsgEnd f = CombatEnd env f"
| "message_handler env MsgContinue f = CombatContinue env f"
| "message_handler env MsgResume f = ResumeSceneScript env f"

text \<open>
  A combat is its scheduler with the flow as its world. What an operation does to the flow it then
  does to the scheduler.
\<close>

type_synonym 'x combat = "'x flow atb"

definition on_flow :: "('x flow \<Rightarrow> 'x flow res) \<Rightarrow> 'x combat \<Rightarrow> 'x combat res" where
  "on_flow g s = bindr (g (world s)) (\<lambda>f. run do_call (s\<lparr>world := f\<lparr>out := []\<rparr>\<rparr>) (out f))"

definition attack_env :: "'x combat_env \<Rightarrow> 'x flow atb_env" where
  "attack_env env = \<lparr>StartAttack = (\<lambda>f u. case Attack env f u of (ret, ops) \<Rightarrow>
     bindr (run (combat_op env) f ops) (\<lambda>f1. Inr (ret, out f1, f1\<lparr>out := []\<rparr>))), junk = junk_time env\<rparr>"

definition new_combat :: "int \<Rightarrow> int \<Rightarrow> (int \<Rightarrow> unit_data) \<Rightarrow> 'x \<Rightarrow> 'x combat" where
  "new_combat grp next_grp us x = CombatATB_init us \<lparr>fstate = None, scene = NoScene, attacker_win = False, mob_group_id = grp,
     next_mob_group_id = next_grp, wave_counter = 0, ended = False, to_self = [], cmd_vec = [], out = [], outer = x\<rparr>"

definition StartCombat :: "'x combat_env \<Rightarrow> bool \<Rightarrow> 'x flow \<Rightarrow> 'x flow res" where
  "StartCombat env has_script f =
     (let f1 = (if has_script then SceneAI_Init env f else f)
      in if scene f1 = NoLua then Inr f1
         else bindr (State_Init env f1) (\<lambda>f2. run (combat_op env) f2 (StartOps env f2)))"

definition Combat_HeartBeat :: "'x combat_env \<Rightarrow> 'x combat \<Rightarrow> 'x combat res option" where
  "Combat_HeartBeat env s =
     (case on_flow (\<lambda>f. run (combat_op env) f (UnitsHeartBeat env f)) s of
        Inl e \<Rightarrow> Some (Inl e)
      | Inr s1 \<Rightarrow>
     (case ATB_HeartBeat (attack_env env) s1 of
        None \<Rightarrow> None
      | Some (Inl e) \<Rightarrow> Some (Inl e)
      | Some (Inr s2) \<Rightarrow>
     (case on_flow (CombatState_HeartBeat env) s2 of
        Inl e \<Rightarrow> Some (Inl e)
      | Inr s3 \<Rightarrow>
     (case in_state XSTATUS_RUNNING (world s3) of
        Inl e \<Rightarrow> Some (Inl e)
      | Inr running \<Rightarrow>
          if \<not> running then Some (Inr s3)
          else (case HandleDelayCMD env (world s3) of
                  None \<Rightarrow> None
                | Some r \<Rightarrow> Some (on_flow (\<lambda>_. r) s3))))))"

text \<open>
  A tick of \<open>CombatMan\<close>: a heartbeat of the combat, then the messages it holds for itself; what
  they send waits for the next tick. A combat that has ended is inactive and gets neither.
\<close>

fun deliver_self :: "'x combat_env \<Rightarrow> flow_msg list \<Rightarrow> 'x combat \<Rightarrow> 'x combat res" where
  "deliver_self env [] s = Inr s"
| "deliver_self env (m # ms) s =
     (if ended (world s) then Inr s else bindr (on_flow (message_handler env m) s) (deliver_self env ms))"

definition combat_tick :: "'x combat_env \<Rightarrow> 'x combat \<Rightarrow> 'x combat res option" where
  "combat_tick env s =
     (if ended (world s) then Some (Inr s)
      else case Combat_HeartBeat env s of
             None \<Rightarrow> None
           | Some (Inl e) \<Rightarrow> Some (Inl e)
           | Some (Inr s1) \<Rightarrow>
               Some (deliver_self env (to_self (world s1)) (s1\<lparr>world := (world s1)\<lparr>to_self := []\<rparr>\<rparr>)))"

datatype combat_step = TTick | TCmd cmd | TMsg

fun combat_do :: "'x combat_env \<Rightarrow> 'x combat \<Rightarrow> combat_step \<Rightarrow> 'x combat res" where
  "combat_do env s TTick = (case combat_tick env s of None \<Rightarrow> Inl Diverge | Some r \<Rightarrow> r)"
| "combat_do env s (TCmd c) = (if ended (world s) then Inr s else on_flow (HandleCMD env c) s)"
| "combat_do env s TMsg =
     (if ended (world s) then Inr s else on_flow (\<lambda>f. run (combat_op env) f (OtherMSG env f)) s)"

end
