(* ===== verification/CombatLink.thy ===== *)
theory CombatLink
  imports CombatFlow
begin

text \<open>
  The machine of a combat has the transitions of its table, and \<open>moves\<close>, the bond between a flow
  and its scheduler: the calls that an operation makes suit every scheduler that suits the state.
\<close>

section \<open>The machine\<close>

lemma shift_table_deterministic: "deterministic combat_state_shift_table"
  by (simp add: deterministic_def combat_state_shift_table_def)

lemma register_states: "\<exists>m. bindr (Fsm_Init 9 9) (register_all combat_states) = Inr m \<and>
    state_stubs m = map Some combat_states \<and> state_shift_table m = replicate 9 []"
  by (simp add: Fsm_Init_def combat_states_def RegisterState_def new_state_def numeral_eq_Suc)

lemma Initialize_ok:
  "\<exists>m. CombatState_Initialize = Inr m \<and> state_stubs m = map Some combat_states \<and> length (state_shift_table m) = 9 \<and>
     (\<forall>event cur. next_status m event cur = row_of combat_state_shift_table event cur)"
proof -
  obtain m where m: "bindr (Fsm_Init 9 9) (register_all combat_states) = Inr m" "state_stubs m = map Some combat_states"
    "state_shift_table m = replicate 9 []" using register_states by blast
  have none: "next_status m event cur = None" for event cur
  proof (cases "0 \<le> event \<and> event < 9")
    case True
    then have "nat event < 9" using nat_less_iff [of event 9] by simp
    then have "replicate 9 [] ! nat event = ([] :: (int \<times> int) list)" by (rule nth_replicate)
    then show ?thesis using m(3) by (simp add: next_status_def)
  qed (auto simp: next_status_def m(3))
  have "shift_maps m" using m(3) by (simp add: shift_maps_def)
  moreover have "\<forall>(c, e, n) \<in> set combat_state_shift_table. 0 \<le> e \<and> e < int (length (state_shift_table m)) \<and> next_status m e c = None"
    unfolding none m(3) by (simp add: combat_state_shift_table_def)
  ultimately obtain m' where "InitStateShiftTable combat_state_shift_table m = Inr m'" "state_stubs m' = state_stubs m"
    "length (state_shift_table m') = length (state_shift_table m)"
    "\<forall>event cur. next_status m' event cur = (case row_of combat_state_shift_table event cur of Some n \<Rightarrow> Some n | None \<Rightarrow> next_status m event cur)"
    using InitStateShiftTable_ok [OF _ shift_table_deterministic, of m] by blast
  then show ?thesis using m none
    by (auto simp: CombatState_Initialize_def bindr_assoc [symmetric] split: option.splits)
qed

lemma combat_fsm_ok:
  "CombatState_Initialize = Inr combat_fsm" "state_stubs combat_fsm = map Some combat_states" "length (state_shift_table combat_fsm) = 9"
  "next_status combat_fsm event cur = row_of combat_state_shift_table event cur"
proof -
  obtain m where m: "CombatState_Initialize = Inr m" "state_stubs m = map Some combat_states" "length (state_shift_table m) = 9"
    "\<And>event cur. next_status m event cur = row_of combat_state_shift_table event cur" using Initialize_ok by blast
  then have "combat_fsm = m" unfolding combat_fsm_def m(1) by simp
  then show "CombatState_Initialize = Inr combat_fsm" "state_stubs combat_fsm = map Some combat_states"
    "length (state_shift_table combat_fsm) = 9" "next_status combat_fsm event cur = row_of combat_state_shift_table event cur"
    using m by simp_all
qed

text \<open>\<open>cstate st t\<close> is the state with number \<open>st\<close> and timeout \<open>t\<close>.\<close>

definition cstate :: "int \<Rightarrow> int \<Rightarrow> xstate" where
  "cstate st t = (combat_states ! nat st)\<lparr>timeout := t\<rparr>"

definition statuses :: "int set" where "statuses = {0, 1, 2, 3, 4, 5, 6, 7, 8}"

lemma statusesE: "st \<in> statuses \<Longrightarrow> (st = 0 \<Longrightarrow> P) \<Longrightarrow> (st = 1 \<Longrightarrow> P) \<Longrightarrow> (st = 2 \<Longrightarrow> P) \<Longrightarrow> (st = 3 \<Longrightarrow> P) \<Longrightarrow> (st = 4 \<Longrightarrow> P) \<Longrightarrow>
    (st = 5 \<Longrightarrow> P) \<Longrightarrow> (st = 6 \<Longrightarrow> P) \<Longrightarrow> (st = 7 \<Longrightarrow> P) \<Longrightarrow> (st = 8 \<Longrightarrow> P) \<Longrightarrow> P"
  unfolding statuses_def by blast

lemma timeout_cstate [simp]: "timeout (cstate st t) = t" "(cstate st t)\<lparr>timeout := k\<rparr> = cstate st k"
  by (simp_all add: cstate_def)

lemma status_cstate [simp]: "st \<in> statuses \<Longrightarrow> status (cstate st t) = st"
  by (erule statusesE) (simp_all add: cstate_def combat_states_def new_state_def)

lemma permits_cstate:
  assumes "fstate f = Some (cstate st t)"
  shows "permits opt f = Inr (opt \<in> opts (combat_states ! nat st))"
  using assms by (simp add: permits_def deref_def OptionPolicy_def cstate_def)

lemma opts_simps:
  "opts (combat_states ! nat 0) = {}" "opts (combat_states ! nat 1) = {1, 2, 3, 4, 6}" "opts (combat_states ! nat 2) = {1, 2, 3, 4, 6, 5, 7, 8}"
  "opts (combat_states ! nat 3) = {1, 2, 3, 4}" "opts (combat_states ! nat 4) = {1, 2, 3, 4, 6}" "opts (combat_states ! nat 5) = {3}"
  "opts (combat_states ! nat 6) = {}" "opts (combat_states ! nat 7) = {1, 2, 3, 4, 7}" "opts (combat_states ! nat 8) = {1, 2, 3, 4, 8}"
  by (simp_all add: combat_states_def new_state_def)

lemma in_state_cstate: "fstate f = Some (cstate st t) \<Longrightarrow> st \<in> statuses \<Longrightarrow> in_state k f = Inr (st = k)"
  by (simp add: in_state_def deref_def)

text \<open>A transition in terms of the table.\<close>

definition ticks_of :: "int \<Rightarrow> int" where
  "ticks_of time = (if time > 0 then time else - 1)"

lemma ticks_of_not_0 [simp]: "ticks_of k \<noteq> 0" "- 1 \<le> ticks_of k" "ticks_of (- 1) = - 1"
  by (simp_all add: ticks_of_def)

lemma Update_row:
  assumes "fstate f = Some (cstate st t)" "st \<in> statuses" "0 \<le> e" "e < 9"
    and "row_of combat_state_shift_table e st = Some n" "n \<in> statuses"
  shows "n \<noteq> st \<Longrightarrow> Update env start e k f =
      bindr (OnLeave (combat_methods env start) st f) (\<lambda>f2. OnEnter (combat_methods env start) n (f2\<lparr>fstate := Some (cstate n (ticks_of k))\<rparr>))"
    "n = st \<Longrightarrow> Update env start e k f =
      bindr (OnLeave (combat_methods env start) st (f\<lparr>fstate := Some (cstate st (max (ticks_of k) t))\<rparr>))
        (\<lambda>f2. bindr (deref (fstate f2)) (\<lambda>z. OnEnter (combat_methods env start) (status z) f2))"
proof -
  have l: "\<not> (e < 0 \<or> e \<ge> int (length (state_shift_table combat_fsm)))" using assms(3,4) combat_fsm_ok(3) by simp
  have r: "map_of (state_shift_table combat_fsm ! nat e) st = Some n"
    using assms(3-5) combat_fsm_ok(3) combat_fsm_ok(4) [of e st] by (simp add: next_status_def)
  have q: "QueryState n combat_fsm = Inr (Some (combat_states ! nat n))"
    using assms(6) by (elim statusesE) (simp_all add: QueryState_def combat_fsm_ok(2) combat_states_def)
  have c: "(combat_states ! nat n)\<lparr>timeout := ticks_of k\<rparr> = cstate n (ticks_of k)" by (simp add: cstate_def)
  have s: "status (combat_states ! nat n) = n" using status_cstate [OF assms(6)] by (simp add: cstate_def)
  have sh: "Update env start e k f = Shift combat_fsm (combat_methods env start) e (ticks_of k) f"
    by (simp add: Update_def ticks_of_def)
  have m: "state_of (combat_methods env start) = fstate" "with_state (combat_methods env start) x g = g\<lparr>fstate := Some x\<rparr>" for x g
    by (simp_all add: combat_methods_def)
  show "n \<noteq> st \<Longrightarrow> Update env start e k f =
      bindr (OnLeave (combat_methods env start) st f) (\<lambda>f2. OnEnter (combat_methods env start) n (f2\<lparr>fstate := Some (cstate n (ticks_of k))\<rparr>))"
    unfolding sh Shift_def m using assms(1,2,6) l r q c s by (simp add: deref_def SetTimeOut_def)
  show "n = st \<Longrightarrow> Update env start e k f =
      bindr (OnLeave (combat_methods env start) st (f\<lparr>fstate := Some (cstate st (max (ticks_of k) t))\<rparr>))
        (\<lambda>f2. bindr (deref (fstate f2)) (\<lambda>z. OnEnter (combat_methods env start) (status z) f2))"
    unfolding sh Shift_def m using assms(1,2) l r by (simp add: deref_def SetTimeOut_def max_def)
qed

section \<open>Scheduler and state\<close>

text \<open>
  The scheduler runs when the combat is running, stands still when it is getting ready or paused,
  and holds nobody when it is closing or closed.
\<close>

definition clocked :: "int \<Rightarrow> 'w atb \<Rightarrow> bool" where
  "clocked st s \<longleftrightarrow> (st \<in> {1, 3, 4, 7, 8} \<longrightarrow> \<not> active s) \<and> (st = 2 \<longrightarrow> active s) \<and> (st \<in> {0, 5, 6} \<longrightarrow> CombatATB.entries s = {})"

lemma clocked_simps:
  "clocked 2 s = active s" "st \<in> {1, 3, 4, 7, 8} \<Longrightarrow> clocked st s = (\<not> active s)"
  "st \<in> {0, 5, 6} \<Longrightarrow> clocked st s = (CombatATB.entries s = {})"
  by (simp add: clocked_def, (erule insertE, simp add: clocked_def)+, simp, (erule insertE, simp add: clocked_def)+, simp)

lemma clocked_cong: "active s' = active s \<Longrightarrow> (st \<in> {0, 5, 6} \<Longrightarrow> CombatATB.entries s' \<subseteq> CombatATB.entries s) \<Longrightarrow> clocked st s \<Longrightarrow> clocked st s'"
  unfolding clocked_def by blast

definition stat :: "'x flow \<Rightarrow> int" where
  "stat f = (case fstate f of None \<Rightarrow> 0 | Some x \<Rightarrow> status x)"

text \<open>\<open>c\<close> is the unit whose attack is running, if any; it does not wait meanwhile.\<close>

definition linked :: "int option \<Rightarrow> 'x flow \<Rightarrow> 'w atb \<Rightarrow> bool" where
  "linked c f s \<longleftrightarrow> cur_obj s = c \<and> (\<forall>u. c = Some u \<longrightarrow> u \<notin> waiting s) \<and> clocked (stat f) s"

text \<open>
  \<open>moves c f f'\<close>: the calls made between \<open>f\<close> and \<open>f'\<close> suit every scheduler that suits \<open>f\<close>, and it
  then suits \<open>f'\<close>.
\<close>

definition moves :: "int option \<Rightarrow> 'x flow \<Rightarrow> 'x flow \<Rightarrow> bool" where
  "moves c f f' \<longleftrightarrow> (\<exists>cs. out f' = out f @ cs \<and>
     (\<forall>s :: 'x flow atb. atb_inv s \<and> linked c f s \<longrightarrow>
        admissible do_call call_pre s cs \<and> (\<forall>s'. run do_call s cs = Inr s' \<longrightarrow> atb_inv s' \<and> linked c f' s')))"

lemma movesI:
  assumes "out f' = out f @ cs"
    "\<And>s :: 'x flow atb. atb_inv s \<Longrightarrow> linked c f s \<Longrightarrow> admissible do_call call_pre s cs"
    "\<And>s s' :: 'x flow atb. atb_inv s \<Longrightarrow> linked c f s \<Longrightarrow> run do_call s cs = Inr s' \<Longrightarrow> atb_inv s' \<and> linked c f' s'"
  shows "moves c (f :: 'x flow) f'"
  using assms unfolding moves_def by blast

lemma run_app: "run st s (xs @ ys) = bindr (run st s xs) (\<lambda>s1. run st s1 ys)"
  by (induction xs arbitrary: s) (auto simp: bindr_assoc)

lemma admissible_app:
  "admissible st p s (xs @ ys) \<longleftrightarrow> admissible st p s xs \<and> (\<forall>s1. run st s xs = Inr s1 \<longrightarrow> admissible st p s1 ys)"
  by (induction xs arbitrary: s) (auto split: sum.splits simp: bindr_Inr_iff)

lemma moves_trans: "moves c f g \<Longrightarrow> moves c g h \<Longrightarrow> moves c f h"
  unfolding moves_def
proof (elim exE conjE)
  fix cs ds
  assume a: "out g = out f @ cs" "\<forall>s :: 'a flow atb. atb_inv s \<and> linked c f s \<longrightarrow>
        admissible do_call call_pre s cs \<and> (\<forall>s'. run do_call s cs = Inr s' \<longrightarrow> atb_inv s' \<and> linked c g s')"
    and b: "out h = out g @ ds" "\<forall>s :: 'a flow atb. atb_inv s \<and> linked c g s \<longrightarrow>
        admissible do_call call_pre s ds \<and> (\<forall>s'. run do_call s ds = Inr s' \<longrightarrow> atb_inv s' \<and> linked c h s')"
  have "\<forall>s :: 'a flow atb. atb_inv s \<and> linked c f s \<longrightarrow> admissible do_call call_pre s (cs @ ds) \<and>
      (\<forall>s'. run do_call s (cs @ ds) = Inr s' \<longrightarrow> atb_inv s' \<and> linked c h s')"
    using a(2) b(2) unfolding admissible_app run_app bindr_Inr_iff by blast
  then show "\<exists>cs. out h = out f @ cs \<and> (\<forall>s :: 'a flow atb. atb_inv s \<and> linked c f s \<longrightarrow>
        admissible do_call call_pre s cs \<and> (\<forall>s'. run do_call s cs = Inr s' \<longrightarrow> atb_inv s' \<and> linked c h s'))"
    using a(1) b(1) by (intro exI [of _ "cs @ ds"]) simp
qed

lemma moves_quiet:
  assumes "out f' = out f" "stat f' = stat f \<or> (stat f, stat f') \<in> {(1, 4), (5, 6), (6, 0)}"
  shows "moves c f f'"
proof -
  have "clocked (stat f) s \<Longrightarrow> clocked (stat f') s" for s :: "'a flow atb"
    using assms(2) clocked_simps(2) [of 1 s] clocked_simps(2) [of 4 s] clocked_simps(3) [of 0 s] clocked_simps(3) [of 5 s] clocked_simps(3) [of 6 s]
    by (elim disjE insertE emptyE) simp_all
  then have "linked c f s \<Longrightarrow> linked c f' s" for s :: "'a flow atb" unfolding linked_def by blast
  then show ?thesis using assms(1) by (intro movesI [of _ _ "[]"]) auto
qed

text \<open>The effect of one call.\<close>

lemma Register_effect: "CombatATB.entries (RegisterATB u s) \<subseteq> insert u (CombatATB.entries s)"
    "waiting (RegisterATB u s) \<subseteq> insert u (waiting s)"
  by (auto simp: RegisterATB_def Let_def CombatATB.entries_def)

lemma UnRegister_effect: "CombatATB.entries (UnRegisterATB u s) \<subseteq> CombatATB.entries s"
    "waiting (UnRegisterATB u s) \<subseteq> waiting s"
proof -
  have e: "atb_unit ` set (erase_unit u (atb_set s)) \<subseteq> waiting s" using erase_unit_subset by fastforce
  have r: "set (remove1 u xs) \<subseteq> set xs" for xs by (rule set_remove1_subset)
  show "waiting (UnRegisterATB u s) \<subseteq> waiting s" using e by (simp add: UnRegisterATB_def)
  show "CombatATB.entries (UnRegisterATB u s) \<subseteq> CombatATB.entries s" using e r [of "ready_obj_list s"] r [of "instant_obj_vec s"]
    by (simp add: UnRegisterATB_def CombatATB.entries_def) blast
qed

lemma Reset_effect: "CombatATB.entries (ResetATB u s) \<subseteq> insert u (CombatATB.entries s)"
    "waiting (ResetATB u s) \<subseteq> insert u (waiting s)"
proof -
  define t where "t = (if IsATBExist u s then UnRegisterATB u s else s)"
  have t: "CombatATB.entries t \<subseteq> CombatATB.entries s" "waiting t \<subseteq> waiting s" unfolding t_def using UnRegister_effect [of u s] by (simp_all split: if_split)
  have r: "ResetATB u s = RegisterATB u t" by (simp add: ResetATB_def t_def)
  show "CombatATB.entries (ResetATB u s) \<subseteq> insert u (CombatATB.entries s)"
    unfolding r by (rule subset_trans [OF Register_effect(1) insert_mono [OF t(1)]])
  show "waiting (ResetATB u s) \<subseteq> insert u (waiting s)"
    unfolding r by (rule subset_trans [OF Register_effect(2) insert_mono [OF t(2)]])
qed

lemma Instant_effect: "waiting (RegisterInstantATB u s) \<subseteq> waiting s"
  using UnRegister_effect(2) [of u s] by (simp add: RegisterInstantATB_def Let_def)

lemma Change_effect: "atb_set (OnATBChange u s) = atb_set s" "CombatATB.entries (OnATBChange u s) = CombatATB.entries s"
  by (simp_all add: OnATBChange_def CombatATB.entries_def)

lemma active_calls [simp]:
  "active (RegisterATB u s) = active s" "active (UnRegisterATB u s) = active s" "active (OnATBChange u s) = active s"
  "active (ResetATB u s) = active s" "active (RegisterInstantATB u s) = active s"
  by (simp_all add: RegisterATB_def UnRegisterATB_def OnATBChange_def ResetATB_def RegisterInstantATB_def Let_def)

lemma moves_call:
  assumes "out f' = out f @ [cl]" "\<And>s :: 'x flow atb. linked c f s \<Longrightarrow> call_pre s cl"
    "\<And>s s' :: 'x flow atb. linked c f s \<Longrightarrow> do_call s cl = Inr s' \<Longrightarrow> cur_obj s' = cur_obj s \<Longrightarrow> linked c f' s'"
  shows "moves c (f :: 'x flow) f'"
proof (rule movesI [OF assms(1)])
  fix s :: "'x flow atb"
  assume s: "atb_inv s" "linked c f s"
  show "admissible do_call call_pre s [cl]" using assms(2) [OF s(2)] by (simp split: sum.split)
  fix s' assume "run do_call s [cl] = Inr s'"
  then have r: "do_call s cl = Inr s'" by (auto simp: bindr_Inr_iff)
  then have "atb_inv s' \<and> cur_obj s' = cur_obj s" using call_inv [OF s(1) assms(2) [OF s(2)]] by auto
  then show "atb_inv s' \<and> linked c f' s'" using assms(3) [OF s(2) r] by blast
qed

lemma moves_DeActivate:
  assumes "out f' = out f @ [CDeActivate]" "stat f = 2" "stat f' \<in> {1, 3, 4, 7, 8}"
  shows "moves c f f'"
proof (rule moves_call [OF assms(1)])
  fix s :: "'a flow atb" assume l: "linked c f s"
  then show p: "call_pre s CDeActivate" using assms(2) by (simp add: linked_def clocked_simps(1))
  fix s' assume "do_call s CDeActivate = Inr s'"
  then have s': "s' = s\<lparr>active := False\<rparr>" using p by (simp add: DeActivate_def)
  then show "linked c f' s'" using l unfolding linked_def clocked_simps(2) [OF assms(3)] by simp
qed

lemma moves_Activate:
  assumes "out f' = out f @ [CActivate]" "stat f \<in> {1, 3, 4, 7, 8}" "stat f' = 2"
  shows "moves c f f'"
proof (rule moves_call [OF assms(1)])
  fix s :: "'a flow atb" assume l: "linked c f s"
  then show p: "call_pre s CActivate" unfolding linked_def clocked_simps(2) [OF assms(2)] by simp
  fix s' assume "do_call s CActivate = Inr s'"
  then have "s' = s\<lparr>active := True\<rparr>" using p by (simp add: Activate_def)
  then show "linked c f' s'" using l unfolding linked_def assms(3) clocked_simps(1) by simp
qed

lemma moves_UnRegisterAll:
  assumes "out f' = out f @ [CUnRegisterAll]" "stat f' = stat f \<or> stat f' = 5"
  shows "moves c f f'"
proof (rule moves_call [OF assms(1)])
  fix s s' :: "'a flow atb" assume l: "linked c f s" "do_call s CUnRegisterAll = Inr s'"
  then have "s' = UnRegisterAllATB s" by simp
  then have e: "CombatATB.entries s' = {}" "waiting s' = {}" "active s' = active s" "cur_obj s' = cur_obj s"
    by (simp_all add: UnRegisterAllATB_def CombatATB.entries_def)
  have "clocked (stat f) s'" using l(1) e clocked_cong [of s' s "stat f"] by (simp add: linked_def)
  moreover have "clocked 5 s'" using e clocked_simps(3) [of 5 s'] by simp
  ultimately have "clocked (stat f') s'" using assms(2) by (elim disjE) simp_all
  then show "linked c f' s'" using l(1) e by (simp add: linked_def)
qed simp

lemma moves_Clear:
  assumes "out f' = out f @ [CClear]" "stat f' \<in> {0, 1}"
  shows "moves None f f'"
proof (rule moves_call [OF assms(1)])
  fix s s' :: "'a flow atb" assume l: "linked None f s"
  then show "call_pre s CClear" by (simp add: linked_def)
  assume "do_call s CClear = Inr s'"
  then have "s' = ATB_Clear s" by simp
  then have e: "\<not> active s'" "CombatATB.entries s' = {}" "cur_obj s' = None" by (simp_all add: ATB_Clear_def CombatATB.entries_def)
  then have "clocked 0 s'" "clocked 1 s'" using clocked_simps(3) [of 0 s'] clocked_simps(2) [of 1 s'] by simp_all
  then have "clocked (stat f') s'" using assms(2) by (elim insertE emptyE) simp_all
  then show "linked None f' s'" using e by (simp add: linked_def)
qed

text \<open>Calls about one unit, in a state that permits them.\<close>

lemma moves_unit:
  assumes "out f' = out f @ [cl]" "stat f' = stat f"
    "(stat f \<notin> {0, 5, 6} \<and> cl \<in> {CRegister u, CInstant u, CReset u}) \<or> cl \<in> {CChange u, CUnit u d, CUnRegister u}"
    "cl \<in> {CRegister u, CReset u} \<longrightarrow> c \<noteq> Some u"
  shows "moves c f f'"
proof (rule moves_call [OF assms(1)])
  fix s s' :: "'a flow atb" assume l: "linked c f s"
  show "call_pre s cl" using l assms(3) by (elim disjE conjE insertE emptyE) (simp_all add: linked_def)
  assume d: "do_call s cl = Inr s'" "cur_obj s' = cur_obj s"
  have a: "active s' = active s" using d(1) assms(3) by (elim disjE conjE insertE emptyE) auto
  have w: "waiting s' \<subseteq> (if cl \<in> {CRegister u, CReset u} then insert u (waiting s) else waiting s)"
    using assms(3)
  proof (elim disjE conjE insertE emptyE)
    show ?thesis if "cl = CRegister u" using d(1) that Register_effect(2) [of u s] by simp
    show ?thesis if "cl = CInstant u" using d(1) that Instant_effect [of u s] by simp
    show ?thesis if "cl = CReset u" using d(1) that Reset_effect(2) [of u s] by simp
    show ?thesis if "cl = CChange u" using d(1) that Change_effect(1) [of u s] by auto
    show ?thesis if "cl = CUnit u d" using d(1) that by auto
    show ?thesis if "cl = CUnRegister u" using d(1) that UnRegister_effect(2) [of u s] by simp
  qed
  have e: "CombatATB.entries s' \<subseteq> CombatATB.entries s" if "stat f \<in> {0, 5, 6}"
    using assms(3)
  proof (elim disjE conjE)
    show ?thesis if "stat f \<notin> {0, 5, 6}" using that \<open>stat f \<in> {0, 5, 6}\<close> by blast
    show ?thesis if "cl \<in> {CChange u, CUnit u d, CUnRegister u}" using that
    proof (elim insertE emptyE)
      show ?thesis if "cl = CChange u" using d(1) that Change_effect(2) [of u s] by simp
      show ?thesis if "cl = CUnit u d" using d(1) that by (auto simp: CombatATB.entries_def)
      show ?thesis if "cl = CUnRegister u" using d(1) that UnRegister_effect(1) [of u s] by simp
    qed
  qed
  have "clocked (stat f) s'" using l a e clocked_cong [of s' s "stat f"] by (simp add: linked_def)
  moreover have "v \<notin> waiting s'" if "c = Some v" for v
    using w l that assms(4) by (auto simp: linked_def split: if_splits)
  ultimately show "linked c f' s'" using l d(2) assms(2) by (simp add: linked_def)
qed

end
