(* ===== verification/CombatOps.thy ===== *)
theory CombatOps
  imports CombatLink
begin

text \<open>
  The operations of a combat and its scripts: each one keeps \<open>core\<close>, what holds of a flow between
  operations, and fails no assertion where its precondition holds.
\<close>

section \<open>What operations keep\<close>

definition lua :: "'x flow \<Rightarrow> bool" where
  "lua f \<longleftrightarrow> (\<exists>y. scene f = Lua y)"

text \<open>
  Only pauses, the start and the last wait have a timeout; only a closed combat has a scene
  without a stack; only a script waits for a choice.
\<close>

definition core :: "'x flow \<Rightarrow> bool" where
  "core f \<longleftrightarrow> (\<exists>st t. fstate f = Some (cstate st t) \<and> st \<in> statuses \<and> (t = - 1 \<or> 0 < t \<and> st \<notin> {0, 2, 5})) \<and>
     (scene f = NoLua \<longrightarrow> stat f = 0) \<and> (stat f \<in> {7, 8} \<longrightarrow> lua f) \<and> CmdTerminate \<notin> set (cmd_vec f) \<and> \<not> ended f"

text \<open>A script that hangs has paused the combat, or the combat is over.\<close>

definition hung_ok :: "'x flow \<Rightarrow> bool" where
  "hung_ok f \<longleftrightarrow> (scene f = Lua True \<longrightarrow> stat f \<notin> {1, 2, 3})"

lemma core_stateE:
  assumes "core f"
  obtains t where "fstate f = Some (cstate (stat f) t)" "stat f \<in> statuses" "t = - 1 \<or> 0 < t \<and> stat f \<notin> {0, 2, 5}"
proof -
  obtain st t where h: "fstate f = Some (cstate st t)" "st \<in> statuses" "t = - 1 \<or> 0 < t \<and> st \<notin> {0, 2, 5}"
    using assms unfolding core_def by blast
  then have "stat f = st" by (simp add: stat_def)
  then show ?thesis using that h by blast
qed

lemma stat_cstate [simp]: "st \<in> statuses \<Longrightarrow> stat (f\<lparr>fstate := Some (cstate st t)\<rparr>) = st"
  by (simp add: stat_def)

lemma coreI:
  assumes "fstate f = Some (cstate st t)" "st \<in> statuses" "t = - 1 \<or> 0 < t \<and> st \<notin> {0, 2, 5}" "scene f = NoLua \<longrightarrow> st = 0"
    "st \<in> {7, 8} \<longrightarrow> lua f" "CmdTerminate \<notin> set (cmd_vec f)" "\<not> ended f"
  shows "core f"
proof -
  have "stat f = st" using assms(1,2) by (simp add: stat_def)
  then show ?thesis using assms unfolding core_def by blast
qed

lemma core_set_state:
  assumes "core f" "st \<in> statuses" "t = - 1 \<or> 0 < t \<and> st \<notin> {0, 2, 5}" "scene f = NoLua \<longrightarrow> st = 0" "st \<in> {7, 8} \<longrightarrow> lua f"
  shows "core (f\<lparr>fstate := Some (cstate st t)\<rparr>)"
proof -
  have "lua (f\<lparr>fstate := Some (cstate st t)\<rparr>) = lua f" by (simp add: lua_def)
  then show ?thesis using assms unfolding core_def stat_cstate [OF assms(2)] by auto
qed

lemma stat_more [simp]:
  "stat (emit cl f) = stat f" "stat (send_self m f) = stat f" "stat (f\<lparr>outer := x\<rparr>) = stat f" "stat (f\<lparr>attacker_win := w\<rparr>) = stat f"
  "stat (f\<lparr>scene := sc\<rparr>) = stat f" "stat (f\<lparr>out := cs\<rparr>) = stat f" "stat (f\<lparr>to_self := ms\<rparr>) = stat f" "stat (resume_message f) = stat f"
  by (simp_all add: stat_def emit_def send_self_def resume_message_def)

lemma core_more [simp]:
  "core (emit cl f) = core f" "core (send_self m f) = core f" "core (f\<lparr>outer := x\<rparr>) = core f" "core (f\<lparr>attacker_win := w\<rparr>) = core f"
  "core (f\<lparr>out := cs\<rparr>) = core f" "core (f\<lparr>to_self := ms\<rparr>) = core f" "core (resume_message f) = core f"
  by (simp_all add: core_def stat_def emit_def send_self_def resume_message_def lua_def)

text \<open>
  Between operations a combat tells itself nothing but to resume a script that hangs, and whether
  there is a script does not change.
\<close>

definition grows :: "'x flow \<Rightarrow> 'x flow \<Rightarrow> bool" where
  "grows f f' \<longleftrightarrow> (\<exists>k. to_self f' = to_self f @ replicate k MsgResume \<and> (k \<noteq> 0 \<longrightarrow> lua f)) \<and> lua f' = lua f \<and>
     scene f' \<in> {scene f, Lua True, Lua False} \<and> cmd_vec f' = cmd_vec f"

lemma grows_refl: "to_self f' = to_self f \<Longrightarrow> scene f' = scene f \<Longrightarrow> cmd_vec f' = cmd_vec f \<Longrightarrow> grows f f'"
  by (auto simp: grows_def lua_def intro: exI [of _ 0])

lemma flow_grows_trans:
  assumes "grows f g" "grows g h"
  shows "grows f h"
proof -
  obtain k where k: "to_self g = to_self f @ replicate k MsgResume" "k \<noteq> 0 \<longrightarrow> lua f" using assms(1) by (auto simp: grows_def)
  obtain l where l: "to_self h = to_self g @ replicate l MsgResume" "l \<noteq> 0 \<longrightarrow> lua g" using assms(2) by (auto simp: grows_def)
  have "to_self h = to_self f @ replicate (k + l) MsgResume \<and> (k + l \<noteq> 0 \<longrightarrow> lua f)"
    using k l assms(1) by (auto simp: replicate_add grows_def)
  then have "\<exists>k. to_self h = to_self f @ replicate k MsgResume \<and> (k \<noteq> 0 \<longrightarrow> lua f)" by blast
  moreover have "lua h = lua f" "cmd_vec h = cmd_vec f" "scene h \<in> {scene f, Lua True, Lua False}"
    using assms by (simp_all add: grows_def) (elim conjE disjE; simp)
  ultimately show ?thesis unfolding grows_def by blast
qed

lemma grows_resume_message: "grows f (resume_message f)"
proof (cases "scene f = Lua True")
  case True
  then show ?thesis by (auto simp: grows_def resume_message_def send_self_def lua_def intro!: exI [of _ "Suc 0"])
qed (simp add: resume_message_def grows_refl)

definition keeps :: "int option \<Rightarrow> 'x flow \<Rightarrow> 'x flow \<Rightarrow> bool" where
  "keeps c f f' \<longleftrightarrow> moves c f f' \<and> grows f f' \<and> core f'"

lemma keeps_trans: "keeps c f g \<Longrightarrow> keeps c g h \<Longrightarrow> keeps c f h"
  unfolding keeps_def using moves_trans flow_grows_trans by blast

section \<open>Transitions\<close>

text \<open>\<open>goto\<close> is where a transition of the table leads; every one of these is taken as the table says.\<close>

abbreviation goto :: "int \<Rightarrow> int \<Rightarrow> 'x flow \<Rightarrow> 'x flow" where
  "goto st t f \<equiv> f\<lparr>fstate := Some (cstate st t)\<rparr>"

lemma table_rows:
  "row_of combat_state_shift_table 0 0 = Some 1"
  "row_of combat_state_shift_table 1 2 = Some 3"
  "st \<in> {1, 2, 4} \<Longrightarrow> row_of combat_state_shift_table 2 st = Some 4"
  "st \<in> {4, 7, 8} \<Longrightarrow> row_of combat_state_shift_table 3 st = Some 2"
  "st \<in> {1, 3, 4, 7, 8} \<Longrightarrow> row_of combat_state_shift_table 4 st = Some 2"
  "row_of combat_state_shift_table 4 6 = Some 0"
  "st \<in> {1, 2, 3, 4, 5, 7, 8} \<Longrightarrow> row_of combat_state_shift_table 5 st = Some 5"
  "row_of combat_state_shift_table 6 5 = Some 6"
  "st \<in> {2, 7} \<Longrightarrow> row_of combat_state_shift_table 7 st = Some 7"
  "st \<in> {2, 8} \<Longrightarrow> row_of combat_state_shift_table 8 st = Some 8"
  by (auto simp: row_of_def combat_state_shift_table_def)

lemma row_in_table: "row_of combat_state_shift_table e st = Some n \<Longrightarrow> (st, e, n) \<in> set combat_state_shift_table"
  unfolding row_of_def by (drule map_of_SomeD) auto

lemma OnEnter_simps:
  "OnEnter (combat_methods env start) 1 f = start f" "OnEnter (combat_methods env start) 2 f = Inr (emit CActivate f)"
  "OnEnter (combat_methods env start) 5 f = Inr (emit CUnRegisterAll f)"
  "n \<in> {0, 3, 4, 6, 7, 8} \<Longrightarrow> OnEnter (combat_methods env start) n f = Inr f"
  by (auto simp: combat_methods_def)

lemma OnLeave_simps:
  "st \<in> {4, 7, 8} \<Longrightarrow> OnLeave (combat_methods env start) st f = Inr (resume_message f)"
  "OnLeave (combat_methods env start) 6 f = Inr (LastWait_OnLeave env f)"
  "st \<in> {0, 1, 2, 3, 5} \<Longrightarrow> OnLeave (combat_methods env start) st f = Inr f"
  by (auto simp: combat_methods_def)

definition leaving :: "int \<Rightarrow> 'x flow \<Rightarrow> 'x flow" where
  "leaving st f = (if st \<in> {4, 7, 8} then resume_message f else f)"

lemma OnLeave_leaving: "st \<in> statuses \<Longrightarrow> st \<noteq> 6 \<Longrightarrow> OnLeave (combat_methods env start) st f = Inr (leaving st f)"
  by (erule statusesE) (simp_all add: leaving_def OnLeave_simps)

lemma leaving_props: "stat (leaving st f) = stat f" "core (leaving st f) = core f" "grows f (leaving st f)" "out (leaving st f) = out f"
    "scene (leaving st f) = scene f" "fstate (leaving st f) = fstate f"
  using grows_resume_message [of f]
  by (auto simp: leaving_def grows_refl resume_message_def send_self_def)

lemma Update_simple:
  assumes "core f" "0 \<le> e" "e < 9" "row_of combat_state_shift_table e (stat f) = Some n" "n \<in> statuses" "stat f \<noteq> 6" "n \<noteq> 1"
  shows "\<exists>t. (t = - 1 \<or> 0 < t) \<and> (ticks_of k = - 1 \<and> n \<noteq> stat f \<longrightarrow> t = - 1) \<and> (n \<noteq> stat f \<longrightarrow> t = ticks_of k) \<and> (ticks_of k = - 1 \<and> n \<in> {2, 5} \<longrightarrow> t = - 1) \<and>
    Update env start e k f = OnEnter (combat_methods env start) n (leaving (stat f) (goto n t f))"
proof -
  obtain t where t: "fstate f = Some (cstate (stat f) t)" "stat f \<in> statuses" "t = - 1 \<or> 0 < t \<and> stat f \<notin> {0, 2, 5}"
    using assms(1) by (rule core_stateE)
  have tk: "ticks_of k = - 1 \<or> 0 < ticks_of k" by (simp add: ticks_of_def)
  note u = Update_row [OF t(1,2) assms(2-5), where env=env and start=start and k=k]
  show ?thesis
  proof (cases "n = stat f")
    case True
    let ?t = "max (ticks_of k) t"
    have "OnEnter (combat_methods env start) (status (cstate n ?t)) = OnEnter (combat_methods env start) n" using assms(5) by simp
    then have "Update env start e k f = OnEnter (combat_methods env start) n (leaving (stat f) (goto n ?t f))"
      unfolding u(2) [OF True] using True OnLeave_leaving [OF t(2) assms(6), where env=env and start=start] leaving_props(6) [of "stat f" "goto (stat f) ?t f"]
      by (simp add: deref_def)
    moreover have "?t = - 1 \<or> 0 < ?t" using tk t(3) by (auto simp: max_def)
    moreover have "ticks_of k = - 1 \<and> n \<in> {2, 5} \<longrightarrow> ?t = - 1" using t(3) True by auto
    ultimately show ?thesis using True by (intro exI [of _ ?t]) auto
  next
    case False
    have "(leaving (stat f) f)\<lparr>fstate := Some (cstate n (ticks_of k))\<rparr> = leaving (stat f) (goto n (ticks_of k) f)"
      by (simp add: leaving_def resume_message_def send_self_def)
    then show ?thesis unfolding u(1) [OF False] using OnLeave_leaving [OF t(2) assms(6), where env=env and start=start] tk
      by (intro exI [of _ "ticks_of k"]) simp
  qed
qed

lemma core_lua: "core f \<Longrightarrow> stat f \<noteq> 0 \<Longrightarrow> scene f \<noteq> NoLua"
  by (auto simp: core_def)

lemma core_stat: "core f \<Longrightarrow> stat f \<in> statuses"
  by (erule core_stateE)

text \<open>Where a transition leads, apart from what entering the state does.\<close>

lemma Update_goes:
  assumes "core f" "0 \<le> e" "e < 9" "row_of combat_state_shift_table e (stat f) = Some n" "n \<in> statuses" "stat f \<notin> {0, 6}" "n \<notin> {0, 1}"
    and "n \<in> {7, 8} \<longrightarrow> lua f" "n \<in> {2, 5} \<longrightarrow> k \<le> 0"
  shows "\<exists>f1. Update env start e k f = OnEnter (combat_methods env start) n f1 \<and> core f1 \<and> stat f1 = n \<and> grows f f1 \<and> scene f1 = scene f \<and> out f1 = out f \<and>
     to_self f1 = (if stat f \<in> {4, 7, 8} \<and> scene f = Lua True then to_self f @ [MsgResume] else to_self f) \<and> (n \<noteq> stat f \<longrightarrow> fstate f1 = Some (cstate n (ticks_of k)))"
proof -
  have nn: "stat f \<noteq> 6" "n \<noteq> 1" "stat f \<noteq> 0" using assms(6,7) by simp_all
  obtain t where t: "t = - 1 \<or> 0 < t" "ticks_of k = - 1 \<and> n \<in> {2, 5} \<longrightarrow> t = - 1" "n \<noteq> stat f \<longrightarrow> t = ticks_of k"
    "Update env start e k f = OnEnter (combat_methods env start) n (leaving (stat f) (goto n t f))"
    using Update_simple [OF assms(1-5) nn(1,2), where k=k and env=env and start=start] by blast
  let ?f1 = "leaving (stat f) (goto n t f)"
  have "t = - 1 \<or> 0 < t \<and> n \<notin> {0, 2, 5}" using t(1,2) assms(7,9) by (auto simp: ticks_of_def)
  then have "core (goto n t f)" using assms(1,5,8) core_lua [OF assms(1) nn(3)] by (intro core_set_state) auto
  moreover have "grows (goto n t f) ?f1" by (rule leaving_props(3))
  then have "grows f ?f1" by (simp add: grows_def lua_def)
  moreover have "to_self ?f1 = (if stat f \<in> {4, 7, 8} \<and> scene f = Lua True then to_self f @ [MsgResume] else to_self f)"
    by (simp add: leaving_def resume_message_def send_self_def)
  moreover have "n \<noteq> stat f \<longrightarrow> fstate ?f1 = Some (cstate n (ticks_of k))"
    using t(3) leaving_props(6) [where st="stat f" and f="goto n t f"] by auto
  ultimately show ?thesis using t(4) assms(5) leaving_props(1,2,4,5) [where st="stat f" and f="goto n t f"]
    by (intro exI [of _ ?f1] conjI) simp_all
qed

lemma Update_pause:
  assumes "core f" "0 \<le> e" "e < 9" "row_of combat_state_shift_table e (stat f) = Some n" "n \<in> {3, 4, 7, 8}" "stat f \<notin> {0, 6}" "n \<in> {7, 8} \<longrightarrow> lua f"
  shows "\<exists>f1. Update env start e k f = Inr f1 \<and> core f1 \<and> stat f1 = n \<and> grows f f1 \<and> scene f1 = scene f \<and> out f1 = out f \<and>
     (n \<noteq> stat f \<longrightarrow> fstate f1 = Some (cstate n (ticks_of k)))"
proof -
  have n: "n \<in> statuses" "n \<notin> {0, 1}" "n \<in> {2, 5} \<longrightarrow> k \<le> 0" "n \<in> {0, 3, 4, 6, 7, 8}" using assms(5) by (auto simp: statuses_def)
  show ?thesis using Update_goes [OF assms(1-4) n(1) assms(6) n(2) assms(7) n(3), where env=env and start=start] OnEnter_simps(4) [OF n(4), where env=env and start=start] by auto
qed

lemma Update_closing:
  assumes "core f" "stat f \<notin> {0, 6}" "k \<le> 0"
  shows "\<exists>f1. Update env start 5 k f = Inr f1 \<and> core f1 \<and> stat f1 = 5 \<and> grows f f1 \<and> scene f1 = scene f \<and> out f1 = out f @ [CUnRegisterAll]"
proof -
  have "stat f \<in> {1, 2, 3, 4, 5, 7, 8}" using core_stat [OF assms(1)] assms(2) by (auto simp: statuses_def)
  then have r: "row_of combat_state_shift_table 5 (stat f) = Some 5" by (rule table_rows(7))
  obtain f1 where f1: "Update env start 5 k f = OnEnter (combat_methods env start) 5 f1" "core f1" "stat f1 = 5" "grows f f1" "scene f1 = scene f" "out f1 = out f"
    using Update_goes [OF assms(1) _ _ r _ assms(2), where k=k and env=env and start=start] assms(3) by (auto simp: statuses_def)
  have "grows f1 (emit CUnRegisterAll f1)" by (simp add: grows_refl emit_def)
  then show ?thesis using f1 flow_grows_trans [OF f1(4)] OnEnter_simps(3) [where env=env and start=start] by (intro exI [of _ "emit CUnRegisterAll f1"]) (simp add: emit_def)
qed

lemma Update_running:
  assumes "core f" "row_of combat_state_shift_table e (stat f) = Some 2" "e \<in> {3, 4}" "stat f \<in> {1, 3, 4, 7, 8}" "k \<le> 0"
  shows "\<exists>f1. Update env start e k f = Inr f1 \<and> core f1 \<and> stat f1 = 2 \<and> grows f f1 \<and> scene f1 = scene f \<and> moves c f f1 \<and>
    to_self f1 = (if stat f \<in> {4, 7, 8} \<and> scene f = Lua True then to_self f @ [MsgResume] else to_self f)"
proof -
  have e: "0 \<le> e" "e < 9" "stat f \<notin> {0, 6}" "(2::int) \<in> statuses" "(2::int) \<notin> {0, 1}" using assms(3,4) by (auto simp: statuses_def)
  obtain f1 where f1: "Update env start e k f = OnEnter (combat_methods env start) 2 f1" "core f1" "stat f1 = 2" "grows f f1" "scene f1 = scene f" "out f1 = out f"
    "to_self f1 = (if stat f \<in> {4, 7, 8} \<and> scene f = Lua True then to_self f @ [MsgResume] else to_self f)"
    using Update_goes [OF assms(1) e(1,2) assms(2) e(4,3,5), where k=k and env=env and start=start] assms(5) by auto
  have g: "grows f1 (emit CActivate f1)" by (simp add: grows_refl emit_def)
  have "moves c f (emit CActivate f1)" using f1(3,6) assms(4) by (intro moves_Activate) (simp_all add: emit_def)
  then show ?thesis using f1 flow_grows_trans [OF f1(4) g] OnEnter_simps(2) [where env=env and start=start] by (intro exI [of _ "emit CActivate f1"]) (simp add: emit_def)
qed

section \<open>Operations\<close>

text \<open>What an operation may assume; \<open>c\<close> is the unit whose attack is running.\<close>

fun op_pre :: "int option \<Rightarrow> 'x flow \<Rightarrow> 'x op \<Rightarrow> bool" where
  "op_pre c f (OWaitSkill m) = (if m = 0 then c = None \<and> stat f = 7 else lua f)"
| "op_pre c f (OWaitPet m) = (if m = 0 then c = None \<and> stat f = 8 else lua f)"
| "op_pre c f OTerminate = (stat f \<notin> {0, 6})"
| "op_pre c f OTestEnd = (stat f \<notin> {0, 6})"
| "op_pre c f (ORegister u) = (c \<noteq> Some u)"
| "op_pre c f (OReset u) = (c \<noteq> Some u)"
| "op_pre c f (ORound u) = (c = Some u \<and> stat f = 2)"
| "op_pre c f _ = True"

fun plain :: "'x op \<Rightarrow> bool" where
  "plain (OWaitSkill m) = (m \<noteq> 0)"
| "plain (OWaitPet m) = (m \<noteq> 0)"
| "plain (ORound u) = False"
| "plain _ = True"

text \<open>Operations that run no script.\<close>

definition plain_step :: "int option \<Rightarrow> 'x flow \<Rightarrow> 'x flow \<Rightarrow> bool" where
  "plain_step c f f' \<longleftrightarrow> keeps c f f' \<and> scene f' = scene f \<and> (stat f' = stat f \<or> stat f' \<in> {4, 5, 7, 8} \<or> stat f = 2 \<and> stat f' = 3)"

lemma plain_step_trans_eq: "plain_step c f f" if "core f"
proof -
  have "moves c f f" by (rule moves_quiet) simp_all
  then show ?thesis using that by (simp add: plain_step_def keeps_def grows_refl)
qed

lemma plain_step_hung: "plain_step c f f' \<Longrightarrow> hung_ok f \<Longrightarrow> hung_ok f'"
  by (auto simp: plain_step_def hung_ok_def)

lemma emit_props: "out (emit cl f) = out f @ [cl]" "to_self (emit cl f) = to_self f" "scene (emit cl f) = scene f" "cmd_vec (emit cl f) = cmd_vec f"
    "fstate (emit cl f) = fstate f" "lua (emit cl f) = lua f"
  by (simp_all add: emit_def lua_def)

lemma plain_emit: "core f \<Longrightarrow> moves c f (emit cl f) \<Longrightarrow> plain_step c f (emit cl f)"
  by (simp add: plain_step_def keeps_def grows_refl emit_props)

lemma pause_ok:
  assumes "core f" "0 \<le> e" "e < 9" "row_of combat_state_shift_table e (stat f) = Some n" "n \<in> {3, 4, 7, 8}" "n \<in> {7, 8} \<longrightarrow> lua f"
    and "stat f = 2 \<and> g = emit CDeActivate f \<or> stat f \<in> {1, 4, 7, 8} \<and> g = f \<and> (n = stat f \<or> stat f = 1 \<and> n = 4)"
  shows "\<exists>f'. Update env start e k g = Inr f' \<and> plain_step c f f' \<and> stat f' = n \<and> (n \<noteq> stat f \<longrightarrow> fstate f' = Some (cstate n (ticks_of k)))"
proof -
  have g: "core g" "stat g = stat f" "stat g \<notin> {0, 6}" "scene g = scene f" "grows f g" "n \<in> {7, 8} \<longrightarrow> lua g"
    using assms(1,6,7) by (auto simp: emit_props grows_refl)
  have r: "row_of combat_state_shift_table e (stat g) = Some n" using assms(4) g(2) by simp
  obtain f' where f': "Update env start e k g = Inr f'" "core f'" "stat f' = n" "grows g f'" "scene f' = scene g" "out f' = out g"
    "n \<noteq> stat g \<longrightarrow> fstate f' = Some (cstate n (ticks_of k))"
    using Update_pause [OF g(1) assms(2,3) r assms(5) g(3,6), where env=env and start=start and k=k] by blast
  have "moves c f f'" using assms(7)
  proof (elim disjE conjE)
    assume "stat f = 2" "g = emit CDeActivate f"
    then show ?thesis using f'(3,6) assms(5) by (intro moves_DeActivate) (simp_all add: emit_props)
  next
    assume "g = f" "n = stat f"
    then show ?thesis using f'(3,6) by (intro moves_quiet) simp_all
  next
    assume "g = f" "stat f = 1" "n = 4"
    then show ?thesis using f'(3,6) by (intro moves_quiet) simp_all
  qed
  moreover have "stat f' = stat f \<or> stat f' \<in> {4, 5, 7, 8} \<or> stat f = 2 \<and> stat f' = 3" using f'(3) assms(5,7) by auto
  ultimately have "plain_step c f f'" using f' g flow_grows_trans [OF g(5) f'(4)] by (simp add: plain_step_def keeps_def)
  then show ?thesis using f'(1,3,7) g(2) by auto
qed

lemma stop_for_ok:
  assumes "core f" "stat f = 2 \<or> stat f = k"
  shows "stop_for k f = Inr (if stat f = 2 then emit CDeActivate f else f)"
proof -
  obtain t where t: "fstate f = Some (cstate (stat f) t)" "stat f \<in> statuses" using assms(1) by (rule core_stateE)
  show ?thesis using assms(2) by (auto simp: stop_for_def in_state_cstate [OF t])
qed

lemma permits_core:
  assumes "core f"
  shows "permits opt f = Inr (opt \<in> opts (combat_states ! nat (stat f)))" "in_state k f = Inr (stat f = k)"
proof -
  obtain t where t: "fstate f = Some (cstate (stat f) t)" "stat f \<in> statuses" using assms by (rule core_stateE)
  show "permits opt f = Inr (opt \<in> opts (combat_states ! nat (stat f)))" "in_state k f = Inr (stat f = k)"
    by (rule permits_cstate [OF t(1)], rule in_state_cstate [OF t])
qed

lemma opts_of:
  assumes "st \<in> statuses"
  shows "(1 \<in> opts (combat_states ! nat st)) = (st \<notin> {0, 5, 6})" "(2 \<in> opts (combat_states ! nat st)) = (st \<notin> {0, 5, 6})"
    "(3 \<in> opts (combat_states ! nat st)) = (st \<notin> {0, 6})" "(4 \<in> opts (combat_states ! nat st)) = (st \<notin> {0, 5, 6})"
    "(5 \<in> opts (combat_states ! nat st)) = (st = 2)" "(6 \<in> opts (combat_states ! nat st)) = (st \<in> {1, 2, 4})"
    "(7 \<in> opts (combat_states ! nat st)) = (st \<in> {2, 7})" "(8 \<in> opts (combat_states ! nat st)) = (st \<in> {2, 8})"
  using assms by (elim statusesE; simp add: combat_states_def new_state_def)+

lemma permits_simps:
  assumes "core f"
  shows "permits 1 f = Inr (stat f \<notin> {0, 5, 6})" "permits 2 f = Inr (stat f \<notin> {0, 5, 6})" "permits 3 f = Inr (stat f \<notin> {0, 6})"
    "permits 4 f = Inr (stat f \<notin> {0, 5, 6})" "permits 5 f = Inr (stat f = 2)" "permits 6 f = Inr (stat f \<in> {1, 2, 4})"
    "permits 7 f = Inr (stat f \<in> {2, 7})" "permits 8 f = Inr (stat f \<in> {2, 8})"
  using opts_of [OF core_stat [OF assms]] by (simp_all only: permits_core [OF assms])

lemma Suspend_ok:
  assumes "core f"
  shows "\<exists>f'. Suspend (Update env start) msec f = Inr f' \<and> plain_step c f f' \<and> stat f' = (if stat f \<in> {1, 2, 4} then 4 else stat f)"
proof (cases "stat f \<in> {1, 2, 4}")
  case False
  then show ?thesis using plain_step_trans_eq [OF assms] by (simp add: Suspend_def guarded_def permits_simps [OF assms])
next
  case True
  let ?g = "if stat f = 2 then emit CDeActivate f else f"
  have "Suspend (Update env start) msec f = Update env start 2 (msec sdiv MSEC_PER_TICK) ?g"
    using True stop_for_ok [OF assms, of 4] by (auto simp: Suspend_def guarded_def permits_simps(6) [OF assms] permits_core(2) [OF assms])
  moreover have "row_of combat_state_shift_table 2 (stat f) = Some 4" by (rule table_rows(3) [OF True])
  ultimately show ?thesis using pause_ok [OF assms, of 2 4 ?g env start "msec sdiv MSEC_PER_TICK" c] True by auto
qed

lemma Wait_ok:
  assumes "core f" "lua f" "msec \<noteq> 0"
  shows "\<exists>f'. WaitSelectSkill (Update env start) resume msec f = Inr f' \<and> plain_step c f f' \<and> stat f' = (if stat f = 2 then 7 else stat f)"
    "\<exists>f'. WaitSelectPet (Update env start) resume msec f = Inr f' \<and> plain_step c f f' \<and> stat f' = (if stat f = 2 then 8 else stat f)"
proof -
  let ?g = "if stat f = 2 then emit CDeActivate f else f"
  show "\<exists>f'. WaitSelectSkill (Update env start) resume msec f = Inr f' \<and> plain_step c f f' \<and> stat f' = (if stat f = 2 then 7 else stat f)"
  proof (cases "stat f \<in> {2, 7}")
    case False
    then show ?thesis using plain_step_trans_eq [OF assms(1)] assms(3) by (simp add: WaitSelectSkill_def guarded_def permits_simps [OF assms(1)])
  next
    case True
    have "WaitSelectSkill (Update env start) resume msec f = Update env start 7 (shown_msec msec sdiv MSEC_PER_TICK) ?g"
      using True assms(3) stop_for_ok [OF assms(1), of 7] by (auto simp: WaitSelectSkill_def guarded_def permits_simps(7) [OF assms(1)])
    then show ?thesis using pause_ok [OF assms(1) _ _ table_rows(9) [OF True], of ?g env start "shown_msec msec sdiv MSEC_PER_TICK" c] True assms(2) by auto
  qed
  show "\<exists>f'. WaitSelectPet (Update env start) resume msec f = Inr f' \<and> plain_step c f f' \<and> stat f' = (if stat f = 2 then 8 else stat f)"
  proof (cases "stat f \<in> {2, 8}")
    case False
    then show ?thesis using plain_step_trans_eq [OF assms(1)] assms(3) by (simp add: WaitSelectPet_def guarded_def permits_simps [OF assms(1)])
  next
    case True
    have "WaitSelectPet (Update env start) resume msec f = Update env start 8 (shown_msec msec sdiv MSEC_PER_TICK) ?g"
      using True assms(3) stop_for_ok [OF assms(1), of 8] by (auto simp: WaitSelectPet_def guarded_def permits_simps(8) [OF assms(1)])
    then show ?thesis using pause_ok [OF assms(1) _ _ table_rows(10) [OF True], of ?g env start "shown_msec msec sdiv MSEC_PER_TICK" c] True assms(2) by auto
  qed
qed

lemma closing_ok:
  assumes "core f" "stat f \<notin> {0, 6}" "k \<le> 0" "moves c f g" "core g" "stat g = stat f" "grows f g" "scene g = scene f"
  shows "\<exists>f'. Update env start 5 k g = Inr f' \<and> plain_step c f f' \<and> stat f' = 5"
proof -
  have "stat g \<notin> {0, 6}" using assms(2,6) by simp
  then obtain f' where f': "Update env start 5 k g = Inr f'" "core f'" "stat f' = 5" "grows g f'" "scene f' = scene g" "out f' = out g @ [CUnRegisterAll]"
    using Update_closing [OF assms(5) _ assms(3), where env=env and start=start] by blast
  have "moves c g f'" using f'(3,6) by (intro moves_UnRegisterAll) simp_all
  then have "moves c f f'" by (rule moves_trans [OF assms(4)])
  then show ?thesis using f' assms(8) flow_grows_trans [OF assms(7) f'(4)] by (simp add: plain_step_def keeps_def)
qed

lemma TestCombatEnd_ok:
  assumes "core f" "stat f \<notin> {0, 6}"
  shows "\<exists>f'. TestCombatEnd env (Update env start) f = Inr f' \<and> plain_step c f f'"
proof -
  have "\<exists>f'. Update env start 5 (- 1) ((emit CUnRegisterAll f)\<lparr>attacker_win := w\<rparr>) = Inr f' \<and> plain_step c f f' \<and> stat f' = 5" for w
  proof (rule closing_ok [OF assms])
    let ?g = "(emit CUnRegisterAll f)\<lparr>attacker_win := w\<rparr>"
    show "moves c f ?g" by (rule moves_UnRegisterAll) (simp_all add: emit_props)
    show "grows f ?g" by (rule grows_refl) (simp_all add: emit_props)
    show "core ?g" "stat ?g = stat f" "scene ?g = scene f" using assms(1) by (simp_all add: emit_props)
  qed simp
  then show ?thesis using plain_step_trans_eq [OF assms(1), of c] by (auto simp: TestCombatEnd_def)
qed

lemma DeActivateATB_ok:
  assumes "core f"
  shows "\<exists>f'. DeActivateATB (Update env start) t f = Inr f' \<and> plain_step c f f'"
proof (cases "stat f = 2")
  case True
  then have "DeActivateATB (Update env start) t f = Update env start 1 t (emit CDeActivate f)"
    by (simp add: DeActivateATB_def guarded_def permits_simps(5) [OF assms])
  moreover have "row_of combat_state_shift_table 1 (stat f) = Some 3" using True table_rows(2) by simp
  ultimately show ?thesis using pause_ok [OF assms, of 1 3 "emit CDeActivate f" env start t c] True by auto
next
  case False
  then show ?thesis using plain_step_trans_eq [OF assms] by (simp add: DeActivateATB_def guarded_def permits_simps(5) [OF assms])
qed

lemma unit_call_ok:
  assumes "core f" "cl \<in> {CRegister u, CReset u} \<longrightarrow> c \<noteq> Some u"
  shows "cl \<in> {CRegister u, CInstant u, CReset u} \<Longrightarrow> \<exists>f'. guarded (permits 1 f) f (\<lambda>f. Inr (emit cl f)) = Inr f' \<and> plain_step c f f' \<and> stat f' = stat f"
    "cl \<in> {CChange u, CUnit u d, CUnRegister u} \<Longrightarrow> plain_step c f (emit cl f)"
    "plain_step c f (emit CUnRegisterAll f)"
proof -
  show "\<exists>f'. guarded (permits 1 f) f (\<lambda>f. Inr (emit cl f)) = Inr f' \<and> plain_step c f f' \<and> stat f' = stat f" if "cl \<in> {CRegister u, CInstant u, CReset u}"
  proof (cases "stat f \<in> {0, 5, 6}")
    case True
    then show ?thesis using plain_step_trans_eq [OF assms(1)] by (simp add: guarded_def permits_simps [OF assms(1)])
  next
    case False
    then have "moves c f (emit cl f)" using that assms(2) by (intro moves_unit [where u=u and cl=cl and d=undefined]) (simp_all add: emit_props)
    then show ?thesis using False plain_emit [OF assms(1)] by (simp add: guarded_def permits_simps [OF assms(1)])
  qed
  show "plain_step c f (emit cl f)" if "cl \<in> {CChange u, CUnit u d, CUnRegister u}"
  proof -
    have "moves c f (emit cl f)" using that assms(2) by (intro moves_unit [where u=u and cl=cl and d=d]) (auto simp: emit_props)
    then show ?thesis by (rule plain_emit [OF assms(1)])
  qed
  have "moves c f (emit CUnRegisterAll f)" by (rule moves_UnRegisterAll) (simp_all add: emit_props)
  then show "plain_step c f (emit CUnRegisterAll f)" by (rule plain_emit [OF assms(1)])
qed

lemma plain_op_ok:
  assumes "core f" "op_pre c f a" "plain a"
  shows "\<exists>f'. do_op env scripts f a = Inr f' \<and> plain_step c f f'"
proof -
  note u = unit_call_ok [OF assms(1)]
  note s = plain_step_trans_eq [OF assms(1), of c]
  show ?thesis
  proof (cases a)
    case (OSuspend msec)
    then show ?thesis using Suspend_ok [OF assms(1)] by (metis do_op.simps(1))
  next
    case (OWaitSkill msec)
    then show ?thesis using Wait_ok(1) [OF assms(1), of msec] assms(2,3) by (auto, blast)
  next
    case (OWaitPet msec)
    then show ?thesis using Wait_ok(2) [OF assms(1), of msec] assms(2,3) by (auto, blast)
  next
    case OTerminate
    have "moves c f f" by (rule moves_quiet) simp_all
    then show ?thesis using OTerminate assms(1,2) closing_ok [OF assms(1) _ _ \<open>moves c f f\<close> assms(1), of "- 1"] by (simp add: Terminate_def grows_refl) blast
  next
    case OTestEnd
    then show ?thesis using TestCombatEnd_ok [OF assms(1), where env=env] assms(2) by simp
  next
    case (OStop t)
    then show ?thesis using DeActivateATB_ok [OF assms(1)] by simp
  next
    case (ORevise delta)
    then show ?thesis using s DeActivateATB_ok [OF assms(1), where env=env and c=c and t="2 - delta"] by (auto simp: NeedReviseATB_def bindr_Inr_iff)
  next
    case (ORegister v)
    then show ?thesis using u(1) [of "CRegister v" v c] assms(2) by (auto simp: Combat_RegisterATB_def)
  next
    case (OInstant v)
    then show ?thesis using u(1) [of "CInstant v" v c] by (auto simp: Combat_RegisterInstantATB_def)
  next
    case (OUnRegister v)
    then show ?thesis using s u(2) [of "CUnRegister v" v c] by (auto simp: Combat_UnRegisterATB_def guarded_def permits_simps [OF assms(1)])
  next
    case (OReset v)
    then show ?thesis using u(1) [of "CReset v" v c] assms(2) by (auto simp: Combat_ResetATB_def)
  next
    case (OChange v)
    then show ?thesis using u(2) [of "CChange v" v c] by simp
  next
    case OUnRegisterAll
    then show ?thesis using u(3) [of "CChange 0" 0 c] by simp
  next
    case (OUnit v d)
    then show ?thesis using u(2) [of "CUnit v d" v c] by simp
  next
    case (OOuter x)
    have "moves c f (f\<lparr>outer := x\<rparr>)" by (rule moves_quiet) simp_all
    then show ?thesis using OOuter assms(1) by (simp add: plain_step_def keeps_def grows_refl)
  next
    case (ORound v)
    then show ?thesis using assms(3) by simp
  qed
qed

section \<open>Scripts\<close>

text \<open>
  What a script may do, as long as its calls are not refused: it does not start a round or end its
  own wait, goes to sleep only where that pauses the combat, and otherwise calls what units call.
\<close>

fun script_pre :: "'x combat_env \<Rightarrow> int option \<Rightarrow> 'x op list \<Rightarrow> 'x flow \<Rightarrow> bool" where
  "script_pre env c [] f = True"
| "script_pre env c (a # ops) f =
     (if stat f \<in> {0, 5, 6} then script_pre env c ops f
      else op_pre c f a \<and> plain a \<and> (sleeps a \<longrightarrow> stat f \<noteq> 3 \<and> (stat f = 1 \<longrightarrow> (\<exists>msec. a = OSuspend msec))) \<and>
        (sleeps a \<or> (case do_op env nested_script f a of Inl _ \<Rightarrow> True | Inr f' \<Rightarrow> script_pre env c ops f')))"

definition shifts :: "'x flow \<Rightarrow> 'x flow \<Rightarrow> bool" where
  "shifts f f' \<longleftrightarrow> stat f' = stat f \<or> stat f' \<in> {4, 5, 7, 8} \<or> stat f = 2 \<and> stat f' = 3"

lemma shifts_trans: "shifts f g \<Longrightarrow> shifts g h \<Longrightarrow> shifts f h"
  unfolding shifts_def by (elim disjE conjE) auto

lemma sleep_op_stat:
  assumes "core f" "op_pre c f a" "plain a" "sleeps a" "stat f \<noteq> 3" "stat f = 1 \<longrightarrow> (\<exists>msec. a = OSuspend msec)" "stat f \<notin> {0, 5, 6}"
    and "do_op env scripts f a = Inr f'"
  shows "stat f' \<in> {4, 7, 8}"
proof -
  have r: "stat f \<in> {1, 2, 4, 7, 8}" using core_stat [OF assms(1)] assms(5,7) by (auto simp: statuses_def)
  show ?thesis
  proof (cases a)
    case (OSuspend msec)
    then show ?thesis using Suspend_ok [OF assms(1), where env=env and start="OnCombatStart env scripts" and msec=msec and c=c] assms(8) r by auto
  next
    case (OWaitSkill msec)
    then show ?thesis using Wait_ok(1) [OF assms(1), where env=env and start="OnCombatStart env scripts" and msec=msec and c=c and resume="SceneAI_Resume scripts"]
      assms(2,3,6,8) r by auto
  next
    case (OWaitPet msec)
    then show ?thesis using Wait_ok(2) [OF assms(1), where env=env and start="OnCombatStart env scripts" and msec=msec and c=c and resume="SceneAI_Resume scripts"]
      assms(2,3,6,8) r by auto
  qed (use assms(4) in simp_all)
qed

lemma set_scene_ok:
  assumes "core f" "lua f"
  shows "core (f\<lparr>scene := Lua y\<rparr>)" "keeps c f (f\<lparr>scene := Lua y\<rparr>)"
proof -
  show c: "core (f\<lparr>scene := Lua y\<rparr>)" using assms by (simp add: core_def lua_def stat_def)
  have "moves c f (f\<lparr>scene := Lua y\<rparr>)" by (rule moves_quiet) simp_all
  moreover have "grows f (f\<lparr>scene := Lua y\<rparr>)" using assms(2) by (cases y) (auto simp: grows_def lua_def intro: exI [of _ 0])
  ultimately show "keeps c f (f\<lparr>scene := Lua y\<rparr>)" using c by (simp add: keeps_def)
qed

lemma script_ops_ok:
  "core f \<Longrightarrow> scene f = Lua False \<Longrightarrow> script_pre env c ops f \<Longrightarrow>
   \<exists>f'. script_ops env ops f = Inr f' \<and> keeps c f f' \<and> shifts f f' \<and> hung_ok f'"
proof (induction ops arbitrary: f)
  case Nil
  then show ?case using plain_step_trans_eq [OF Nil.prems(1), of c] by (simp add: plain_step_def shifts_def hung_ok_def)
next
  case (Cons a ops)
  have p: "permits 4 f = Inr (stat f \<notin> {0, 5, 6})" by (rule permits_simps(4) [OF Cons.prems(1)])
  show ?case
  proof (cases "stat f \<in> {0, 5, 6}")
    case True
    then show ?thesis using Cons.IH [OF Cons.prems(1,2)] Cons.prems(3) p by auto
  next
    case False
    then have pre: "op_pre c f a" "plain a" "sleeps a \<longrightarrow> stat f \<noteq> 3 \<and> (stat f = 1 \<longrightarrow> (\<exists>msec. a = OSuspend msec))"
      "sleeps a \<or> (case do_op env nested_script f a of Inl _ \<Rightarrow> True | Inr f' \<Rightarrow> script_pre env c ops f')"
      using Cons.prems(3) unfolding script_pre.simps if_not_P [OF False] by blast+
    obtain f1 where f1: "do_op env nested_script f a = Inr f1" "plain_step c f f1"
      using plain_op_ok [OF Cons.prems(1) pre(1,2), where env=env and scripts=nested_script] by blast
    then have k: "keeps c f f1" "core f1" "scene f1 = Lua False" "shifts f f1"
      using Cons.prems(2) by (simp_all add: plain_step_def keeps_def shifts_def)
    show ?thesis
    proof (cases "sleeps a")
      case True
      let ?f' = "f1\<lparr>scene := Lua True\<rparr>"
      have "lua f1" using k(3) unfolding lua_def by blast
      then have "keeps c f1 ?f'" by (rule set_scene_ok(2) [OF k(2)])
      moreover have "stat f1 \<in> {4, 7, 8}" using sleep_op_stat [OF Cons.prems(1) pre(1,2) True _ _ False f1(1)] pre(3) True by blast
      then have "hung_ok ?f'" by (auto simp: hung_ok_def)
      moreover have "shifts f ?f'" using k(4) by (simp add: shifts_def)
      ultimately show ?thesis using f1(1) p False True keeps_trans [OF k(1)] by auto
    next
      case no: False
      then have "script_pre env c ops f1" using pre(4) f1(1) by simp
      then obtain f' where "script_ops env ops f1 = Inr f'" "keeps c f1 f'" "shifts f1 f'" "hung_ok f'"
        using Cons.IH [OF k(2,3)] by blast
      then show ?thesis using f1(1) p False no keeps_trans [OF k(1)] shifts_trans [OF k(4)] by auto
    qed
  qed
qed

fun attacker :: "script_event \<Rightarrow> int option" where
  "attacker (ScriptRound u) = Some u"
| "attacker _ = None"

fun event_at :: "script_event \<Rightarrow> int \<Rightarrow> bool" where
  "event_at ScriptStart st = (st = 1)"
| "event_at (ScriptRound u) st = (st = 2)"
| "event_at ScriptResume st = (st \<notin> {1, 3})"

definition scripts_fit :: "'x combat_env \<Rightarrow> bool" where
  "scripts_fit env \<longleftrightarrow> (\<forall>f ev. core f \<and> lua f \<and> event_at ev (stat f) \<longrightarrow>
     script_pre env (attacker ev) (Script env f ev) (f\<lparr>scene := Lua False\<rparr>))"

lemma run_script_ok:
  assumes "scripts_fit env" "core f" "lua f" "event_at ev (stat f)" "c = attacker ev"
  shows "\<exists>f'. run_script env ev f = Inr f' \<and> keeps c f f' \<and> shifts f f' \<and> hung_ok f'"
proof -
  let ?g = "f\<lparr>scene := Lua False\<rparr>"
  have pre: "script_pre env c (Script env f ev) ?g" using assms unfolding scripts_fit_def by blast
  note g = set_scene_ok [OF assms(2,3), where y=False]
  obtain f' where f': "script_ops env (Script env f ev) ?g = Inr f'" "keeps c ?g f'" "shifts ?g f'" "hung_ok f'"
    using script_ops_ok [OF g(1) _ pre] by auto
  have "shifts f f'" using f'(3) by (simp add: shifts_def)
  then show ?thesis using f'(1,4) keeps_trans [OF g(2) f'(2)] by (simp add: run_script_def)
qed

section \<open>Runs of operations\<close>

lemma luaE: "lua f \<Longrightarrow> (\<And>y. scene f = Lua y \<Longrightarrow> P) \<Longrightarrow> P"
  by (auto simp: lua_def)

lemma Resume_ok:
  assumes "scripts_fit env" "core f" "lua f" "scene f = Lua True \<longrightarrow> stat f \<notin> {1, 3}"
  shows "\<exists>f'. SceneAI_Resume (run_script env) f = Inr f' \<and> keeps None f f' \<and> shifts f f' \<and> hung_ok f'"
proof (cases "scene f = Lua True")
  case True
  then show ?thesis using run_script_ok [OF assms(1-3), of ScriptResume None] assms(4) by (auto simp: SceneAI_Resume_def)
next
  case False
  then obtain y where "scene f = Lua False" using assms(3) by (auto simp: lua_def)
  then show ?thesis using plain_step_trans_eq [OF assms(2), of None] by (auto simp: SceneAI_Resume_def plain_step_def shifts_def hung_ok_def)
qed

lemma Wait_over_ok:
  assumes "scripts_fit env" "core f" "stat f \<in> {7, 8}"
  shows "\<exists>f'. bindr (combat_update env 3 (- 1) f) (SceneAI_Resume (run_script env)) = Inr f' \<and> keeps None f f' \<and> hung_ok f'"
proof -
  have l: "lua f" using assms(2,3) unfolding core_def by blast
  have r: "row_of combat_state_shift_table 3 (stat f) = Some 2" "stat f \<in> {1, 3, 4, 7, 8}" using assms(3) by (auto intro: table_rows(4))
  obtain f1 where f1: "combat_update env 3 (- 1) f = Inr f1" "core f1" "stat f1 = 2" "grows f f1" "scene f1 = scene f" "moves None f f1"
    using Update_running [OF assms(2) r(1) _ r(2), where env=env and start="OnCombatStart env (run_script env)" and k="- 1" and c=None] by auto
  have "lua f1" "scene f1 = Lua True \<longrightarrow> stat f1 \<notin> {1, 3}" using l f1(3,5) by (simp_all add: lua_def)
  then obtain f' where "SceneAI_Resume (run_script env) f1 = Inr f'" "keeps None f1 f'" "hung_ok f'"
    using Resume_ok [OF assms(1) f1(2)] by blast
  moreover have "keeps None f f1" using f1 by (simp add: keeps_def)
  ultimately show ?thesis using f1(1) keeps_trans by auto
qed

lemma Round_ok:
  assumes "scripts_fit env" "core f" "hung_ok f" "stat f = 2"
  shows "\<exists>f'. SceneAI_On (run_script env) (ScriptRound u) f = Inr f' \<and> keeps (Some u) f f' \<and> hung_ok f'"
proof (cases "lua f")
  case True
  then have s: "scene f = Lua False" using assms(3,4) by (auto simp: lua_def hung_ok_def)
  show ?thesis using run_script_ok [OF assms(1,2) True, of "ScriptRound u" "Some u"] assms(4) s by (auto simp: SceneAI_On_def)
next
  case False
  then have "SceneAI_On (run_script env) (ScriptRound u) f = Inr f" by (auto simp: SceneAI_On_def lua_def split: scene.split)
  then show ?thesis using plain_step_trans_eq [OF assms(2), of "Some u"] assms(3) by (auto simp: plain_step_def)
qed

lemma op_ok:
  assumes "scripts_fit env" "core f" "hung_ok f" "op_pre c f a"
  shows "\<exists>f'. combat_op env f a = Inr f' \<and> keeps c f f' \<and> hung_ok f'"
proof (cases "plain a")
  case True
  then show ?thesis using plain_op_ok [OF assms(2,4) True, where env=env and scripts="run_script env"] plain_step_hung assms(3)
    unfolding plain_step_def by blast
next
  case False
  then consider "a = OWaitSkill 0" | "a = OWaitPet 0" | u where "a = ORound u" by (cases a) auto
  then show ?thesis
  proof cases
    case 1
    then have "c = None" "stat f \<in> {7, 8}" using assms(4) by simp_all
    then show ?thesis using Wait_over_ok [OF assms(1,2)] 1 by (simp add: WaitSelectSkill_def)
  next
    case 2
    then have "c = None" "stat f \<in> {7, 8}" using assms(4) by simp_all
    then show ?thesis using Wait_over_ok [OF assms(1,2)] 2 by (simp add: WaitSelectPet_def)
  next
    case 3
    then show ?thesis using Round_ok [OF assms(1-3), of u] assms(4) by simp
  qed
qed

interpretation combat_ops: invariant_system "combat_op env" "op_pre c" "\<lambda>f. keeps c f0 f \<and> hung_ok f \<and> scripts_fit env" for env c f0
proof unfold_locales
  fix f a
  assume "keeps c f0 f \<and> hung_ok f \<and> scripts_fit env" "op_pre c f a"
  then show "\<exists>f'. combat_op env f a = Inr f' \<and> (keeps c f0 f' \<and> hung_ok f' \<and> scripts_fit env)"
    using op_ok [of env f c a] keeps_trans [of c f0 f] by (auto simp: keeps_def)
qed

lemma keeps_refl: "core f \<Longrightarrow> keeps c f f"
  using plain_step_trans_eq by (simp add: plain_step_def)

lemma ops_ok:
  assumes "scripts_fit env" "core f" "hung_ok f" "admissible (combat_op env) (op_pre c) f ops"
  shows "\<exists>f'. run (combat_op env) f ops = Inr f' \<and> keeps c f f' \<and> hung_ok f'"
  using combat_ops.run_inv [of c f f env ops] keeps_refl [OF assms(2)] assms by blast

end
