(* ===== verification/CombatBeat.thy ===== *)
theory CombatBeat
  imports CombatOps
begin

text \<open>
  Heartbeats of the machine, its timeouts, the messages that a combat sends itself, and the
  transition with which it gets ready.
\<close>

section \<open>Heartbeat of the state, start and messages\<close>

lemma grows_self: "set (to_self f) \<subseteq> {MsgResume} \<Longrightarrow> grows f f' \<Longrightarrow> set (to_self f') \<subseteq> {MsgResume}"
  by (auto simp: grows_def)

text \<open>
  After its heartbeat a combat may have told itself one thing more, which fits its state: to end,
  to go on with the next wave, or to resume a script that hangs. Or it is over.
\<close>

definition told :: "'x flow \<Rightarrow> flow_msg list \<Rightarrow> bool" where
  "told f ms \<longleftrightarrow> (\<exists>k tail. ms = replicate k MsgResume @ tail \<and> tail \<in> {[], [MsgEnd], [MsgContinue]} \<and> (k \<noteq> 0 \<longrightarrow> lua f) \<and>
     (tail = [MsgEnd] \<longrightarrow> stat f = 5) \<and> (tail = [MsgContinue] \<longrightarrow> stat f = 0 \<and> attacker_win f \<and> scene f \<noteq> NoLua) \<and>
     (scene f = Lua True \<longrightarrow> stat f \<notin> {1, 3} \<and> (stat f = 2 \<longrightarrow> k \<noteq> 0)))"

lemma self_replicate: "set ms \<subseteq> {x} \<Longrightarrow> ms = replicate (length ms) x"
  by (induction ms) auto

lemma toldI:
  assumes "set rs \<subseteq> {MsgResume}" "rs \<noteq> [] \<longrightarrow> lua f" "scene f = Lua True \<longrightarrow> stat f \<notin> {1, 3} \<and> (stat f = 2 \<longrightarrow> rs \<noteq> [])"
    "ms = rs @ tail" "tail = [] \<or> tail = [MsgEnd] \<and> stat f = 5 \<or> tail = [MsgContinue] \<and> stat f = 0 \<and> attacker_win f \<and> scene f \<noteq> NoLua"
  shows "told f ms"
  unfolding told_def
proof (intro exI [of _ "length rs"] exI [of _ tail] conjI)
  show "ms = replicate (length rs) MsgResume @ tail" using self_replicate [OF assms(1)] assms(4) by simp
qed (use assms in auto)

definition over :: "'x flow \<Rightarrow> bool" where
  "over f \<longleftrightarrow> ended f \<and> fstate f = Some (cstate 0 (- 1)) \<and> scene f = NoScene \<and> cmd_vec f = []"

text \<open>A heartbeat in a state without a timeout, before the timeout, and at the timeout.\<close>

lemma Beat_eq:
  assumes "fstate f = Some (cstate st t)" "st \<in> statuses"
  shows "State_HeartBeat (combat_methods env start) f =
    (let g = if st = 5 \<and> TestCloseCombat env f then send_self MsgEnd f else f
     in if t = - 1 then Inr (- 1, g) else Inr (if t - 1 \<le> 0 then 0 else t - 1, goto st (t - 1) g))"
  using assms by (simp add: State_HeartBeat_def deref_def combat_methods_def send_self_def Let_def)

lemma Beat_untimed:
  assumes "fstate f = Some (cstate st (- 1))" "st \<in> statuses"
  shows "CombatState_HeartBeat env f = Inr (if st = 5 \<and> TestCloseCombat env f then send_self MsgEnd f else f)"
  using Beat_eq [OF assms, where env=env] by (simp add: CombatState_HeartBeat_def)

lemma Beat_counts:
  assumes "fstate f = Some (cstate st t)" "st \<in> statuses" "st \<noteq> 5" "1 < t"
  shows "CombatState_HeartBeat env f = Inr (goto st (t - 1) f)"
  using Beat_eq [OF assms(1,2), where env=env] assms(3,4) by (simp add: CombatState_HeartBeat_def)

lemma Beat_timeout:
  assumes "fstate f = Some (cstate st 1)" "st \<in> statuses" "st \<noteq> 5"
  shows "CombatState_HeartBeat env f = combat_update env 4 (- 1) (goto st 0 f)"
  using Beat_eq [OF assms(1,2), where env=env] assms(3) by (simp add: CombatState_HeartBeat_def)

lemma Beat_resumes:
  assumes "fstate f = Some (cstate st 1)" "st \<in> {1, 3, 4, 7, 8}"
  shows "CombatState_HeartBeat env f = Inr (emit CActivate (leaving st (goto 2 (- 1) f)))"
proof -
  let ?start = "OnCombatStart env (run_script env)" let ?g = "goto st 0 f"
  have s: "st \<in> statuses" "st \<noteq> 5" "st \<noteq> 6" "(2::int) \<noteq> st" "(2::int) \<in> statuses" using assms(2) by (auto simp: statuses_def)
  have "(leaving st ?g)\<lparr>fstate := Some (cstate 2 (- 1))\<rparr> = leaving st (goto 2 (- 1) f)" by (simp add: leaving_def resume_message_def send_self_def)
  then show ?thesis
    using Beat_timeout [OF assms(1) s(1,2), where env=env] Update_row(1) [of ?g st 0 4 2, where env=env and start="?start" and k="- 1"]
      table_rows(5) [OF assms(2)] OnLeave_leaving [OF s(1,3), where env=env and start="?start"] OnEnter_simps(2) [where env=env and start="?start"] s
    by simp
qed

lemma Beat_last:
  assumes "fstate f = Some (cstate 6 1)"
  shows "CombatState_HeartBeat env f = Inr (goto 0 (- 1) (LastWait_OnLeave env (goto 6 0 f)))"
proof -
  let ?start = "OnCombatStart env (run_script env)"
  have s: "(6::int) \<in> statuses" "(0::int) \<in> statuses" by (simp_all add: statuses_def)
  show ?thesis
    using Beat_timeout [OF assms s(1), where env=env] Update_row(1) [of "goto 6 0 f" 6 0 4 0, where env=env and start="?start" and k="- 1"] table_rows(6) s
      OnLeave_simps(2) [where env=env and start="?start"] OnEnter_simps(4) [of 0, where env=env and start="?start"]
    by simp
qed

text \<open>The end of the last wait: the combat is over, or there is another wave.\<close>

lemma LastWait_ok:
  assumes "core f" "stat f = 6" "set (to_self f) \<subseteq> {MsgResume}" "to_self f \<noteq> [] \<longrightarrow> lua f"
    and "f' = goto 0 (- 1) (LastWait_OnLeave env (goto 6 0 f))"
  shows "moves None f f' \<and> (over f' \<or> core f' \<and> told f' (to_self f') \<and> cmd_vec f' = cmd_vec f)"
proof -
  let ?g0 = "goto 6 0 f"
  have z: "(0::int) \<in> statuses" by (simp add: statuses_def)
  show ?thesis
  proof (cases "attacker_win f \<and> next_mob_group_id f > 0")
    case False
    then have "f' = goto 0 (- 1) (DoCombatEnd ?g0)" using assms(5) by (auto simp: LastWait_OnLeave_def TryCloseCombat_def)
    moreover have "moves None f (goto 0 (- 1) (DoCombatEnd ?g0))"
      using z by (intro moves_Clear) (simp_all add: DoCombatEnd_def emit_def)
    ultimately show ?thesis by (simp add: over_def DoCombatEnd_def emit_def)
  next
    case True
    let ?f1 = "snd (TryCloseCombat env ?g0)"
    have f1: "\<not> fst (TryCloseCombat env ?g0)" "out ?f1 = out f" "scene ?f1 = scene f" "to_self ?f1 = to_self f" "cmd_vec ?f1 = cmd_vec f"
      "attacker_win ?f1" "ended ?f1 = ended f" using True by (simp_all add: TryCloseCombat_def)
    have e: "f' = goto 0 (- 1) (send_self MsgContinue ?f1)"
      using f1(1) assms(5) by (cases "TryCloseCombat env ?g0") (simp add: LastWait_OnLeave_def)
    have p: "out f' = out f" "scene f' = scene f" "to_self f' = to_self f @ [MsgContinue]" "cmd_vec f' = cmd_vec f" "attacker_win f'" "ended f' = ended f"
      "fstate f' = Some (cstate 0 (- 1))" "stat f' = 0" using f1 z by (simp_all add: e send_self_def)
    have c: "\<not> ended f" "CmdTerminate \<notin> set (cmd_vec f)" "scene f \<noteq> NoLua" using assms(1) core_lua [OF assms(1)] assms(2) by (simp_all add: core_def)
    have "core f'" by (rule coreI [OF p(7) z]) (use p c in simp_all)
    moreover have "moves None f f'" using p assms(2) by (intro moves_quiet) simp_all
    moreover have "told f' (to_self f')"
      by (rule toldI [OF assms(3) _ _ p(3)]) (use assms(4) p c in \<open>auto simp: lua_def\<close>)
    ultimately show ?thesis using p(4) by blast
  qed
qed

lemma Beat_simple:
  assumes "core f" "set (to_self f) \<subseteq> {MsgResume}" "to_self f \<noteq> [] \<longrightarrow> lua f" "hung_ok f"
  shows "\<exists>f'. CombatState_HeartBeat env f = Inr f' \<and> moves None f f' \<and> (over f' \<or> core f' \<and> told f' (to_self f') \<and> cmd_vec f' = cmd_vec f)"
proof -
  obtain t where t: "fstate f = Some (cstate (stat f) t)" "stat f \<in> statuses" "t = - 1 \<or> 0 < t \<and> stat f \<notin> {0, 2, 5}"
    using assms(1) by (rule core_stateE)
  have told0: "told f' ms" if "stat f' = stat f" "scene f' = scene f" "ms = to_self f" for f' :: "'a flow" and ms
    using that assms(2-4) by (intro toldI [of ms _ _ "[]"]) (auto simp: hung_ok_def lua_def)
  consider "t = - 1" | "1 < t" "stat f \<noteq> 5" | "t = 1" "stat f \<in> {1, 3, 4, 7, 8}" | "t = 1" "stat f = 6"
  proof -
    have "t = - 1 \<or> 1 < t \<or> t = 1" using t(3) by auto
    then show ?thesis using that t(2,3) by (auto simp: statuses_def)
  qed
  then show ?thesis
  proof cases
    case 1
    let ?g = "if stat f = 5 \<and> TestCloseCombat env f then send_self MsgEnd f else f"
    have "told ?g (to_self ?g)"
    proof (cases "stat f = 5 \<and> TestCloseCombat env f")
      case True
      then show ?thesis using assms(2-4) by (intro toldI [of "to_self f" _ _ "[MsgEnd]"]) (auto simp: hung_ok_def lua_def send_self_def)
    qed (simp only: if_False told0)
    moreover have "moves None f ?g" by (rule moves_quiet) (simp_all add: send_self_def)
    moreover have "core ?g" "cmd_vec ?g = cmd_vec f" using assms(1) by (simp_all add: send_self_def)
    ultimately show ?thesis using Beat_untimed [of f "stat f" env] t(1,2) 1 by simp
  next
    case 2
    let ?f' = "goto (stat f) (t - 1) f"
    have "core ?f'" using assms(1) 2 t(2,3) by (intro core_set_state) (auto simp: core_def)
    moreover have "moves None f ?f'" using t(2) by (intro moves_quiet) simp_all
    moreover have "told ?f' (to_self ?f')" using t(2) by (intro told0) simp_all
    ultimately show ?thesis using Beat_counts [OF t(1,2) 2(2,1), of env] by simp
  next
    case 3
    let ?f1 = "leaving (stat f) (goto 2 (- 1) f)" let ?f' = "emit CActivate ?f1"
    have two: "(2::int) \<in> statuses" by (simp add: statuses_def)
    have "core (goto 2 (- 1) f)" using assms(1) core_lua [OF assms(1)] 3(2) two by (intro core_set_state) auto
    then have l: "stat ?f1 = 2" "core ?f1" "out ?f1 = out f" "scene ?f1 = scene f" "cmd_vec ?f1 = cmd_vec f"
      using two leaving_props [where st="stat f" and f="goto 2 (- 1) f"] by (simp_all add: grows_def)
    have ts: "to_self ?f1 = (if stat f \<in> {4, 7, 8} \<and> scene f = Lua True then to_self f @ [MsgResume] else to_self f)"
      by (simp add: leaving_def resume_message_def send_self_def)
    have "moves None f ?f'" using l 3(2) by (intro moves_Activate) (simp_all add: emit_props)
    moreover have "told ?f' (to_self ?f')"
      by (rule toldI [of "to_self ?f1" _ _ "[]"]) (use ts assms(2-4) l 3(2) in \<open>auto simp: emit_props lua_def hung_ok_def\<close>)
    ultimately show ?thesis using Beat_resumes [of f "stat f" env] t(1) 3 l by (simp add: emit_props)
  next
    case 4
    then show ?thesis using Beat_last [of f env] t(1) LastWait_ok [OF assms(1) _ assms(2,3)] by simp
  qed
qed

text \<open>A script that goes on in a state that refuses its calls changes nothing.\<close>

lemma script_ops_refused:
  assumes "core f" "stat f \<in> {0, 5, 6}"
  shows "script_ops env ops f = Inr f"
  using permits_simps(4) [OF assms(1)] assms(2) by (induction ops) auto

lemma ResumeSceneScript_ok:
  assumes "scripts_fit env" "core f" "told f (MsgResume # q)" "set (to_self f) \<subseteq> {MsgResume}"
  shows "\<exists>f'. ResumeSceneScript env f = Inr f' \<and> keeps None f f' \<and> told f' q"
proof -
  obtain k tail where k: "MsgResume # q = replicate k MsgResume @ tail" "tail \<in> {[], [MsgEnd], [MsgContinue]}" "k \<noteq> 0 \<longrightarrow> lua f"
    "tail = [MsgEnd] \<longrightarrow> stat f = 5" "tail = [MsgContinue] \<longrightarrow> stat f = 0 \<and> attacker_win f \<and> scene f \<noteq> NoLua"
    "scene f = Lua True \<longrightarrow> stat f \<notin> {1, 3} \<and> (stat f = 2 \<longrightarrow> k \<noteq> 0)" using assms(3) unfolding told_def by blast
  have k0: "k \<noteq> 0" "q = replicate (k - 1) MsgResume @ tail" using k(1,2) by (cases k; auto)+
  then have l: "lua f" using k(3) by blast
  then have sc: "scene f \<noteq> NoScene" by (auto simp: lua_def)
  have tl: "tail = [] \<or> tail = [MsgEnd] \<or> tail = [MsgContinue]" using k(2) by simp
  show ?thesis
  proof (cases "stat f \<in> {0, 5, 6} \<and> scene f = Lua True")
    case True
    let ?f' = "f\<lparr>scene := Lua False\<rparr>"
    note g = set_scene_ok [OF assms(2) l, where y=False]
    have "script_ops env (Script env f ScriptResume) ?f' = Inr ?f'" using True by (intro script_ops_refused [OF g(1)]) simp
    then have "ResumeSceneScript env f = Inr ?f'" using True by (simp add: ResumeSceneScript_def SceneAI_Resume_def run_script_def)
    moreover have "told ?f' q" using tl k(4,5) k0(2) by (intro toldI [of "replicate (k - 1) MsgResume" _ q tail]) (auto simp: lua_def)
    ultimately show ?thesis using g(2) by blast
  next
    case False
    have "scene f = Lua True \<longrightarrow> stat f \<notin> {1, 3}" using k(6) by blast
    then obtain f' where f': "SceneAI_Resume (run_script env) f = Inr f'" "keeps None f f'" "shifts f f'" "hung_ok f'"
      using Resume_ok [OF assms(1,2) l] by blast
    have l': "lua f'" using f'(2) l by (simp add: keeps_def grows_def)
    have "told f' q"
    proof (cases "tail = []")
      case True
      then show ?thesis using f'(4) l' k0(2) by (intro toldI [of "replicate (k - 1) MsgResume" _ q "[]"]) (auto simp: hung_ok_def)
    next
      case t: False
      then have "stat f \<in> {0, 5, 6}" using tl k(4,5) by auto
      then have "scene f = Lua False" using False l by (auto simp: lua_def)
      then have "f' = f" using f'(1) by (simp add: SceneAI_Resume_def)
      then show ?thesis using tl k(4,5) k0(2) l \<open>scene f = Lua False\<close>
        by (intro toldI [of "replicate (k - 1) MsgResume" _ q tail]) auto
    qed
    then show ?thesis using f'(1,2) sc by (auto simp: ResumeSceneScript_def)
  qed
qed

lemma CombatEnd_ok:
  assumes "core f" "told f (MsgEnd # q)"
  shows "\<exists>f'. CombatEnd env f = Inr f' \<and> keeps None f f' \<and> q = [] \<and> stat f' = 6"
proof -
  obtain k tail where k: "MsgEnd # q = replicate k MsgResume @ tail" "tail \<in> {[], [MsgEnd], [MsgContinue]}" "tail = [MsgEnd] \<longrightarrow> stat f = 5"
    using assms(2) unfolding told_def by blast
  have q: "q = []" "stat f = 5" using k by (cases k; auto)+
  let ?g = "f\<lparr>outer := EndOps env f\<rparr>"
  have r: "row_of combat_state_shift_table 6 (stat ?g) = Some 6" using q(2) table_rows(8) by simp
  have c: "core ?g" "stat ?g \<notin> {0, 6}" "(6::int) \<in> statuses" using assms(1) q(2) by (simp_all add: statuses_def)
  obtain f' where f': "combat_update env 6 (1500 sdiv MSEC_PER_TICK) ?g = OnEnter (combat_methods env (OnCombatStart env (run_script env))) 6 f'"
    "core f'" "stat f' = 6" "grows ?g f'" "out f' = out ?g"
    using Update_goes [OF c(1) _ _ r c(3,2), where env=env and start="OnCombatStart env (run_script env)" and k="1500 sdiv MSEC_PER_TICK"] by auto
  have "grows f f'" using f'(4) by (simp add: grows_def lua_def)
  moreover have "moves None f f'" using f'(3,5) q(2) by (intro moves_quiet) simp_all
  ultimately show ?thesis using f'(1-3) q(1) OnEnter_simps(4) [of 6, where env=env and start="OnCombatStart env (run_script env)"]
    by (simp add: CombatEnd_def keeps_def)
qed

section \<open>Getting ready\<close>

lemma register_units_eq:
  assumes "fstate f = Some (cstate 1 t)"
  shows "register_units us f = Inr (f\<lparr>out := out f @ map CRegister us\<rparr>)"
  using assms
proof (induction us arbitrary: f)
  case (Cons u us)
  have p: "permits 1 f = Inr True" using permits_cstate [OF Cons.prems, of 1] opts_of(1) [of 1] by (simp add: statuses_def)
  have "fstate (emit (CRegister u) f) = Some (cstate 1 t)" using Cons.prems by (simp add: emit_def)
  from Cons.IH [OF this] show ?case using p by (simp add: Combat_RegisterATB_def guarded_def emit_def)
qed simp

lemma moves_registers:
  "stat f = 1 \<Longrightarrow> moves None f (f\<lparr>out := out f @ map CRegister us\<rparr>)"
proof (induction us arbitrary: f)
  case Nil
  then show ?case by (intro moves_quiet) simp_all
next
  case (Cons u us)
  let ?g = "f\<lparr>out := out f @ [CRegister u]\<rparr>"
  have "moves None f ?g" using Cons.prems by (intro moves_unit [where u=u and cl="CRegister u" and d=undefined]) simp_all
  moreover have "moves None ?g (?g\<lparr>out := out ?g @ map CRegister us\<rparr>)" using Cons.prems by (intro Cons.IH) simp
  ultimately have "moves None f (?g\<lparr>out := out ?g @ map CRegister us\<rparr>)" by (rule moves_trans)
  then show ?case by simp
qed

text \<open>The transition from closed to ready registers everybody alive and starts the script, if it has a stack.\<close>

lemma Update_init:
  assumes "fstate f = Some (cstate 0 t)"
  shows "combat_update env 0 k f = SceneAI_On (run_script env) ScriptStart
    ((goto 1 (ticks_of k) f)\<lparr>out := out f @ map CRegister (AliveUnits env (goto 1 (ticks_of k) f))\<rparr>)"
proof -
  have z: "(0::int) \<in> statuses" "(1::int) \<in> statuses" by (simp_all add: statuses_def)
  have "combat_update env 0 k f = OnCombatStart env (run_script env) (goto 1 (ticks_of k) f)"
    using Update_row(1) [OF assms z(1) _ _ table_rows(1) z(2), where env=env and start="OnCombatStart env (run_script env)" and k=k]
      OnLeave_simps(3) [of 0, where env=env and start="OnCombatStart env (run_script env)"]
      OnEnter_simps(1) [where env=env and start="OnCombatStart env (run_script env)"] by simp
  then show ?thesis using register_units_eq [of "goto 1 (ticks_of k) f"] by (simp add: OnCombatStart_def RegisterAllATB_def)
qed

lemma ready_core:
  assumes "0 < t" "scene f \<noteq> NoLua" "CmdTerminate \<notin> set (cmd_vec f)" "\<not> ended f"
  shows "core (goto 1 t f)" "core ((goto 1 t f)\<lparr>out := cs\<rparr>)"
proof -
  have z: "(1::int) \<in> statuses" by (simp add: statuses_def)
  show "core (goto 1 t f)" by (rule coreI [of _ 1 t]) (use assms z in simp_all)
  then show "core ((goto 1 t f)\<lparr>out := cs\<rparr>)" by simp
qed

lemma CombatContinue_ok:
  assumes "\<forall>f. LuaInit env f" "\<forall>f. fst (NextWave env f) \<noteq> None" "core f" "told f (MsgContinue # q)"
  shows "\<exists>f'. CombatContinue env f = Inr f' \<and> moves None f f' \<and> core f' \<and> hung_ok f' \<and> to_self f' = to_self f \<and> (lua f \<and> stat f' \<noteq> 0 \<longrightarrow> lua f') \<and> q = []"
proof -
  obtain k tail where k: "MsgContinue # q = replicate k MsgResume @ tail" "tail \<in> {[], [MsgEnd], [MsgContinue]}"
    "tail = [MsgContinue] \<longrightarrow> stat f = 0 \<and> attacker_win f \<and> scene f \<noteq> NoLua" using assms(4) unfolding told_def by blast
  have q: "q = []" "stat f = 0" "attacker_win f" "scene f \<noteq> NoLua" using k by (cases k; auto)+
  obtain t where t: "fstate f = Some (cstate 0 t)" using assms(3) q(2) by (metis core_stateE)
  let ?f1 = "emit CClear (f\<lparr>wave_counter := i32 (wave_counter f + 1)\<rparr>)"
  define f2 where "f2 = (if scene f = NoScene then ?f1 else ?f1\<lparr>scene := NoLua, outer := Release env ?f1\<rparr>)"
  have f2: "(if scene ?f1 = NoScene then Inr ?f1 else SceneAI_Release env ?f1) = Inr f2"
    using q(4) by (cases "scene f") (simp_all add: SceneAI_Release_def f2_def emit_props)
  obtain ok x where nw: "NextWave env f2 = (Some ok, x)" using assms(2) by (metis not_Some_eq prod.collapse)
  let ?f3 = "f2\<lparr>outer := x\<rparr>"
  have c: "CmdTerminate \<notin> set (cmd_vec f)" "\<not> ended f" using assms(3) by (simp_all add: core_def)
  have f3: "fstate ?f3 = Some (cstate 0 t)" "out ?f3 = out f @ [CClear]" "to_self ?f3 = to_self f" "cmd_vec ?f3 = cmd_vec f" "ended ?f3 = ended f"
    "scene ?f3 \<in> {NoScene, NoLua}" "stat ?f3 = 0" "scene ?f3 = NoScene \<longleftrightarrow> scene f = NoScene"
    using t q(2) by (simp_all add: f2_def emit_def stat_def)
  show ?thesis
  proof (cases ok)
    case False
    have "core ?f3" using assms(3) f3 t q(2) unfolding core_def by (simp add: lua_def)
    moreover have "hung_ok ?f3" using f3(6) by (auto simp: hung_ok_def)
    moreover have "moves None f ?f3" using f3(2,7) by (intro moves_Clear) simp_all
    moreover have "CombatContinue env f = Inr ?f3" using q(3) f2 nw False by (simp add: CombatContinue_def Let_def)
    ultimately show ?thesis using f3(3,7) q(1) by auto
  next
    case True
    let ?g = "goto 1 1 ?f3"
    let ?f4 = "?g\<lparr>out := out ?f3 @ map CRegister (AliveUnits env ?g)\<rparr>"
    have tk: "ticks_of (100 sdiv MSEC_PER_TICK) = 1" by (simp add: ticks_of_def MSEC_PER_TICK_def signed_divide_int_def)
    have "SceneAI_On (run_script env) ScriptStart ?f4 = Inr ?f4" using f3(6) by (auto simp: SceneAI_On_def)
    then have r: "State_Reset env ?f3 = Inr ?f4" using Update_init [OF f3(1), where env=env and k="100 sdiv MSEC_PER_TICK"] tk by (simp add: State_Reset_def)
    define f5 where "f5 = (if scene ?f4 = NoScene then ?f4 else SceneAI_Init env ?f4)"
    have e: "CombatContinue env f = Inr f5" using q(3) f2 nw True r by (simp add: CombatContinue_def Let_def f5_def)
    have z: "(1::int) \<in> statuses" by (simp add: statuses_def)
    have s4: "stat ?f4 = 1" "stat ?g = 1" "out ?g = out f @ [CClear]" using z f3(2) by simp_all
    have s5: "fstate f5 = Some (cstate 1 1)" "scene f5 \<in> {NoScene, Lua False}" "to_self f5 = to_self f" "cmd_vec f5 = cmd_vec f" "ended f5 = ended f"
      "out f5 = out ?f4" "scene f5 = NoScene \<longleftrightarrow> scene f = NoScene" using f3 assms(1) by (simp_all add: f5_def SceneAI_Init_def)
    have st: "stat f5 = 1" using s5(1) z by (simp add: stat_def)
    have "moves None f ?g" by (rule moves_Clear) (use s4 in simp_all)
    moreover have "moves None ?g ?f4" using moves_registers [of ?g] s4(2) by simp
    moreover have "moves None ?f4 f5" using s5(6) st s4(1) by (intro moves_quiet) simp_all
    ultimately have "moves None f f5" using moves_trans by blast
    moreover have "core f5" by (rule coreI [OF s5(1) z]) (use s5 c in auto)
    moreover have "hung_ok f5" using s5(2) by (auto simp: hung_ok_def)
    moreover have "lua f \<longrightarrow> lua f5" using s5(2,7) by (auto simp: lua_def)
    ultimately show ?thesis using e s5(3) q(1) by auto
  qed
qed

end
