(* ===== verification/CombatProps.thy ===== *)
theory CombatProps
  imports CombatBeat
begin

text \<open>
  Properties of combats as a whole: the heartbeat of a combat with its scheduler, its script, the
  commands of players and the messages it sends itself.
\<close>

section \<open>Flow and scheduler together\<close>

definition calm_flow :: "'x flow \<Rightarrow> bool" where
  "calm_flow f \<longleftrightarrow> core f \<and> hung_ok f \<and> set (to_self f) \<subseteq> {MsgResume} \<and> (to_self f \<noteq> [] \<longrightarrow> lua f)"

lemma calm_keeps: "calm_flow f \<Longrightarrow> keeps c f f' \<Longrightarrow> hung_ok f' \<Longrightarrow> calm_flow f'"
  by (auto simp: calm_flow_def keeps_def grows_def)

text \<open>
  What units, scripts and the makers of mobs may do: scripts as \<open>script_pre\<close> says; attacks while
  the combat runs, for the attacking unit; everything else between attacks.
\<close>

definition env_fits :: "'x combat_env \<Rightarrow> bool" where
  "env_fits env \<longleftrightarrow> scripts_fit env \<and> (\<forall>f. LuaInit env f) \<and> (\<forall>f. fst (NextWave env f) \<noteq> None) \<and>
     (\<forall>f u. calm_flow f \<and> stat f = 2 \<longrightarrow> admissible (combat_op env) (op_pre (Some u)) f (snd (Attack env f u))) \<and>
     (\<forall>f. calm_flow f \<longrightarrow> admissible (combat_op env) (op_pre None) f (UnitsHeartBeat env f) \<and>
        admissible (combat_op env) (op_pre None) f (OtherMSG env f) \<and> admissible (combat_op env) (op_pre None) f (StartOps env f))"

lemma on_flow_ok:
  assumes "atb_inv s" "g (world s) = Inr f'" "moves None f0 f'" "linked None f0 s" "out f0 = []"
  shows "\<exists>s'. on_flow g s = Inr s' \<and> atb_inv s' \<and> cur_obj s' = None \<and> clocked (stat f') s' \<and> world s' = f'\<lparr>out := []\<rparr>"
proof -
  let ?s0 = "s\<lparr>world := f'\<lparr>out := []\<rparr>\<rparr>"
  have i: "atb_inv ?s0" using assms(1) by (simp add: atb_inv_def)
  have "linked None f0 ?s0" using assms(4) clocked_cong [of ?s0 s "stat f0"] by (simp add: linked_def CombatATB.entries_def)
  then have a: "admissible do_call call_pre ?s0 (out f')" "\<And>s'. run do_call ?s0 (out f') = Inr s' \<Longrightarrow> atb_inv s' \<and> linked None f' s'"
    using assms(3,5) i unfolding moves_def by auto
  have "atb_inv ?s0 \<and> cur_obj ?s0 = None" using i assms(4) by (simp add: linked_def)
  then obtain s' where s': "run do_call ?s0 (out f') = Inr s'" using calls.run_inv [OF _ a(1), of None] by blast
  then have "world s' = f'\<lparr>out := []\<rparr>" using run_queued [OF s'] by simp
  then show ?thesis using s' a(2) [OF s'] assms(2) by (simp add: on_flow_def linked_def)
qed

text \<open>\<open>fits\<close> ties the flow to the scheduler, also while attacks run.\<close>

definition fits :: "'x combat \<Rightarrow> bool" where
  "fits s \<longleftrightarrow> calm_flow (world s) \<and> out (world s) = [] \<and> clocked (stat (world s)) s"

lemma tied_fits: "tied fits"
  unfolding tied_def fits_def using clocked_cong by metis

lemma fits_linked: "fits s \<Longrightarrow> cur_obj s = None \<Longrightarrow> linked None (world s) s"
  by (simp add: fits_def linked_def)

lemma calm_out [simp]: "calm_flow (f\<lparr>out := cs\<rparr>) = calm_flow f"
  by (simp add: calm_flow_def hung_ok_def lua_def)

lemma attacks_fit:
  assumes "env_fits env"
  shows "attacks_keep fits (attack_env env)"
  unfolding attacks_keep_def
proof (intro allI impI)
  fix s :: "'a combat" and u
  assume h: "atb_inv s \<and> active s \<and> u \<in> set (ready_obj_list s) \<and> u \<notin> waiting s \<and> fits s"
  let ?f = "world s"
  have c: "calm_flow ?f" "out ?f = []" "clocked (stat ?f) s" using h by (simp_all add: fits_def)
  have "CombatATB.entries s \<noteq> {}" using h by (auto simp: CombatATB.entries_def)
  then have "stat ?f \<notin> {1, 3, 4, 7, 8} \<and> stat ?f \<notin> {0, 5, 6}" using c(3) h by (auto simp: clocked_def)
  then have st: "stat ?f = 2" using core_stat [of ?f] c(1) by (auto simp: calm_flow_def statuses_def)
  obtain ret ops where at: "Attack env ?f u = (ret, ops)" by fastforce
  have "admissible (combat_op env) (op_pre (Some u)) ?f ops" using assms c(1) st at unfolding env_fits_def by (metis snd_conv)
  then obtain f1 where f1: "run (combat_op env) ?f ops = Inr f1" "keeps (Some u) ?f f1" "hung_ok f1"
    using ops_ok [of env ?f "Some u" ops] assms c(1) by (auto simp: env_fits_def calm_flow_def)
  let ?s0 = "s\<lparr>cur_obj := Some u, world := f1\<lparr>out := []\<rparr>\<rparr>"
  have i: "atb_inv ?s0" using h by (simp add: atb_inv_def)
  have "clocked (stat ?f) ?s0" using c(3) clocked_cong [of ?s0 s] by (simp add: CombatATB.entries_def)
  then have l: "linked (Some u) ?f ?s0" using h by (simp add: linked_def)
  then have a: "admissible do_call call_pre ?s0 (out f1)" "\<And>s'. run do_call ?s0 (out f1) = Inr s' \<Longrightarrow> linked (Some u) f1 s'"
    using f1(2) c(2) i unfolding keeps_def moves_def by auto
  have "fits s'" if r: "run do_call ?s0 (out f1) = Inr s'" for s'
    using run_queued [OF r] a(2) [OF r] calm_keeps [OF c(1) f1(2,3)] by (simp add: fits_def linked_def)
  then show "case StartAttack (attack_env env) (world s) u of Inl e \<Rightarrow> False
      | Inr (ret, calls, w) \<Rightarrow> admissible do_call call_pre (s\<lparr>cur_obj := Some u, world := w\<rparr>) calls \<and>
          (\<forall>s'. run do_call (s\<lparr>cur_obj := Some u, world := w\<rparr>) calls = Inr s' \<longrightarrow> fits s')"
    using at f1(1) a(1) by (simp add: attack_env_def)
qed

section \<open>Commands\<close>

text \<open>A running combat that has nobody terminate it works its delayed commands off.\<close>

lemma HandleCMD_running:
  assumes "core f" "stat f = 2" "c \<noteq> CmdTerminate"
  shows "\<exists>x. HandleCMD env c f = Inr (f\<lparr>outer := x\<rparr>)"
proof -
  have p: "permits 3 f = Inr True" "in_state 5 f = Inr False" using permits_simps(3) [OF assms(1)] permits_core(2) [OF assms(1)] assms(2) by simp_all
  have w: "in_state k (f\<lparr>outer := x\<rparr>) = Inr (k = 2)" for k x
    using permits_core(2) [of "f\<lparr>outer := x\<rparr>"] assms(1,2) by auto
  have same: "Inr f = Inr (f\<lparr>outer := outer f\<rparr>)" by simp
  obtain ok x where a: "Accepts env f c = (ok, x)" by fastforce
  have "player_cmd env c f = Inr (if ok then f\<lparr>outer := x\<rparr> else f)"
    using assms(3) a w [of 7 x] w [of 8 x] by (cases c) (simp_all add: guarded_def Let_def)
  then have "player_cmd env c f = Inr (f\<lparr>outer := (if ok then x else outer f)\<rparr>)" using same by (cases ok) simp_all
  then have "\<exists>x. player_cmd env c f = Inr (f\<lparr>outer := x\<rparr>)" by blast
  then show ?thesis using p by (simp add: HandleCMD_def guarded_def)
qed

lemma delay_loop_running:
  "core f \<Longrightarrow> stat f = 2 \<Longrightarrow> \<exists>x. delay_loop env i f = Some (Inr (f\<lparr>outer := x, cmd_vec := []\<rparr>))"
proof (induction "length (cmd_vec f) - i" arbitrary: i f)
  case 0
  then show ?case by (subst delay_loop.simps) (auto intro: exI [of _ "outer f"])
next
  case (Suc n)
  then have i: "i < length (cmd_vec f)" by simp
  then have "cmd_vec f ! i \<noteq> CmdTerminate" using Suc.prems(1) nth_mem unfolding core_def by metis
  then obtain x where x: "HandleCMD env (cmd_vec f ! i) f = Inr (f\<lparr>outer := x\<rparr>)" using HandleCMD_running [OF Suc.prems] by blast
  have "n = length (cmd_vec (f\<lparr>outer := x\<rparr>)) - Suc i" using Suc.hyps(2) by simp
  then obtain y where "delay_loop env (Suc i) (f\<lparr>outer := x\<rparr>) = Some (Inr (f\<lparr>outer := x, outer := y, cmd_vec := []\<rparr>))"
    using Suc.hyps(1) [of "f\<lparr>outer := x\<rparr>" "Suc i"] Suc.prems by auto
  then show ?case using i x by (subst delay_loop.simps) auto
qed

lemma HandleCMD_ok:
  assumes "scripts_fit env" "calm_flow f" "stat f = 5 \<longrightarrow> c \<noteq> CmdTerminate"
  shows "\<exists>f'. HandleCMD env c f = Inr f' \<and> moves None f f' \<and> calm_flow f'"
proof -
  have k: "core f" "hung_ok f" using assms(2) by (simp_all add: calm_flow_def)
  have z: "moves None f f" by (rule moves_quiet) simp_all
  have p: "permits 3 f = Inr (stat f \<notin> {0, 6})" "in_state 5 f = Inr (stat f = 5)"
    using permits_simps(3) [OF k(1)] permits_core(2) [OF k(1)] by simp_all
  consider "stat f \<in> {0, 6}" | "stat f = 5" | "stat f \<notin> {0, 5, 6}" by blast
  then show ?thesis
  proof cases
    case 1
    then show ?thesis using p z assms(2) by (simp add: HandleCMD_def guarded_def)
  next
    case 2
    let ?f' = "f\<lparr>cmd_vec := cmd_vec f @ [c]\<rparr>"
    have s: "stat ?f' = stat f" "lua ?f' = lua f" by (simp_all add: stat_def lua_def)
    then have "core ?f'" using k(1) assms(3) 2 unfolding core_def by simp
    then have "calm_flow ?f'" using assms(2) s by (simp add: calm_flow_def hung_ok_def)
    moreover have "moves None f ?f'" using s by (intro moves_quiet) simp_all
    moreover have "HandleCMD env c f = Inr ?f'" using p 2 by (simp add: HandleCMD_def guarded_def)
    ultimately show ?thesis by blast
  next
    case 3
    then have h: "HandleCMD env c f = player_cmd env c f" using p by (auto simp: HandleCMD_def guarded_def)
    have op: "\<exists>f'. combat_op env (f\<lparr>outer := x\<rparr>) a = Inr f' \<and> moves None f f' \<and> calm_flow f'" if pre: "op_pre None (f\<lparr>outer := x\<rparr>) a" for x a
    proof -
      let ?g = "f\<lparr>outer := x\<rparr>"
      have g: "core ?g" "hung_ok ?g" "calm_flow ?g" "moves None f ?g"
        using k assms(2) by (simp_all add: hung_ok_def calm_flow_def lua_def moves_quiet)
      obtain f' where f': "combat_op env ?g a = Inr f'" "keeps None ?g f'" "hung_ok f'" using op_ok [OF assms(1) g(1,2) pre] by blast
      then show ?thesis using calm_keeps [OF g(3) f'(2,3)] moves_trans [OF g(4)] by (auto simp: keeps_def)
    qed
    have q: "moves None f (f\<lparr>outer := x\<rparr>) \<and> calm_flow (f\<lparr>outer := x\<rparr>)" for x
      using assms(2) by (simp add: calm_flow_def hung_ok_def lua_def moves_quiet)
    have w: "in_state m (f\<lparr>outer := x\<rparr>) = Inr (stat f = m)" for m x
      using permits_core(2) [of "f\<lparr>outer := x\<rparr>" m] k(1) by simp
    show ?thesis unfolding h
    proof (cases c)
      case (CmdSelectSkill notify)
      obtain ok x where a: "Accepts env f c = (ok, x)" by fastforce
      show "\<exists>f'. player_cmd env c f = Inr f' \<and> moves None f f' \<and> calm_flow f'"
      proof (cases "ok \<and> notify \<and> stat f = 7")
        case True
        then show ?thesis using op [of x "OWaitSkill 0"] w [of 7 x] a CmdSelectSkill by (auto simp: guarded_def Let_def)
      next
        case False
        then show ?thesis using q [of x] z assms(2) w [of 7 x] a CmdSelectSkill by (auto simp: guarded_def Let_def)
      qed
    next
      case CmdPetAttack
      obtain ok x where a: "Accepts env f c = (ok, x)" by fastforce
      show "\<exists>f'. player_cmd env c f = Inr f' \<and> moves None f f' \<and> calm_flow f'"
      proof (cases "ok \<and> stat f = 8")
        case True
        then show ?thesis using op [of x "OWaitPet 0"] w [of 8 x] a CmdPetAttack by (auto simp: guarded_def Let_def)
      next
        case False
        then show ?thesis using q [of x] z assms(2) w [of 8 x] a CmdPetAttack by (auto simp: guarded_def Let_def)
      qed
    next
      case CmdTerminate
      then show "\<exists>f'. player_cmd env c f = Inr f' \<and> moves None f f' \<and> calm_flow f'"
        using op [of "outer f" OTerminate] 3 by simp
    next
      case CmdOther
      obtain ok x where a: "Accepts env f c = (ok, x)" by fastforce
      then show "\<exists>f'. player_cmd env c f = Inr f' \<and> moves None f f' \<and> calm_flow f'" using q [of x] z assms(2) CmdOther by auto
    qed
  qed
qed

section \<open>A tick\<close>

definition combat_ok :: "'x combat \<Rightarrow> bool" where
  "combat_ok s \<longleftrightarrow> atb_inv s \<and> cur_obj s = None \<and> (over (world s) \<or> fits s)"

text \<open>After the heartbeat, with the messages that the combat has told itself still to come.\<close>

definition beaten_ok :: "'x combat \<Rightarrow> flow_msg list \<Rightarrow> bool" where
  "beaten_ok s ms \<longleftrightarrow> atb_inv s \<and> cur_obj s = None \<and>
     (over (world s) \<or> core (world s) \<and> told (world s) ms \<and> out (world s) = [] \<and> clocked (stat (world s)) s)"

lemma over_out [simp]: "over (f\<lparr>out := cs\<rparr>) = over f" "over (f\<lparr>to_self := ms\<rparr>) = over f"
  by (simp_all add: over_def)

lemma told_more [simp]: "told (f\<lparr>out := cs\<rparr>) ms = told f ms" "told (f\<lparr>to_self := rs\<rparr>) ms = told f ms"
    "told (f\<lparr>outer := x, cmd_vec := ds\<rparr>) ms = told f ms"
  by (simp_all add: told_def lua_def stat_def)

lemma core_cmds: "core f \<Longrightarrow> core (f\<lparr>outer := x, cmd_vec := []\<rparr>)"
  unfolding core_def by (simp add: lua_def stat_def)

lemma Combat_HeartBeat_ok:
  assumes "env_fits env" "finite_instants (attack_env env) b" "atb_inv s" "cur_obj s = None" "fits s"
  shows "\<exists>s'. Combat_HeartBeat env s = Some (Inr s') \<and> beaten_ok s' (to_self (world s'))"
proof -
  have f: "calm_flow (world s)" "out (world s) = []" using assms(5) by (simp_all add: fits_def)
  have sf: "scripts_fit env" "admissible (combat_op env) (op_pre None) (world s) (UnitsHeartBeat env (world s))"
    using assms(1) f(1) by (simp_all add: env_fits_def)
  obtain f1 where f1: "run (combat_op env) (world s) (UnitsHeartBeat env (world s)) = Inr f1" "keeps None (world s) f1" "hung_ok f1"
    using ops_ok [OF sf(1) _ _ sf(2)] f(1) by (auto simp: calm_flow_def)
  have m1: "moves None (world s) f1" using f1(2) by (simp add: keeps_def)
  obtain s1 where s1: "on_flow (\<lambda>f. run (combat_op env) f (UnitsHeartBeat env f)) s = Inr s1" "atb_inv s1" "cur_obj s1 = None"
    "clocked (stat f1) s1" "world s1 = f1\<lparr>out := []\<rparr>"
    using on_flow_ok [of s "\<lambda>f. run (combat_op env) f (UnitsHeartBeat env f)", OF assms(3) f1(1) m1 fits_linked [OF assms(5,4)] f(2)] by blast
  have "fits s1" using s1(4,5) calm_keeps [OF f(1) f1(2,3)] by (simp add: fits_def)
  then obtain s2 where s2: "ATB_HeartBeat (attack_env env) s1 = Some (Inr s2)" "atb_inv s2" "cur_obj s2 = None" "fits s2"
    using ATB_beat_ok [OF tied_fits attacks_fit [OF assms(1)] assms(2) s1(2,3)] by blast
  have g: "core (world s2)" "set (to_self (world s2)) \<subseteq> {MsgResume}" "to_self (world s2) \<noteq> [] \<longrightarrow> lua (world s2)" "hung_ok (world s2)" "out (world s2) = []"
    using s2(4) by (simp_all add: fits_def calm_flow_def)
  obtain f3 where f3: "CombatState_HeartBeat env (world s2) = Inr f3" "moves None (world s2) f3"
    "over f3 \<or> core f3 \<and> told f3 (to_self f3)"
    using Beat_simple [OF g(1-4), of env] by blast
  obtain s3 where s3: "on_flow (CombatState_HeartBeat env) s2 = Inr s3" "atb_inv s3" "cur_obj s3 = None" "clocked (stat f3) s3" "world s3 = f3\<lparr>out := []\<rparr>"
    using on_flow_ok [of s2 "CombatState_HeartBeat env", OF s2(2) f3(1,2) fits_linked [OF s2(4,3)] g(5)] by blast
  show ?thesis
  proof (cases "over f3")
    case True
    then have "in_state 2 (world s3) = Inr False" using s3(5) by (simp add: over_def in_state_def deref_def statuses_def)
    moreover have "beaten_ok s3 (to_self (world s3))" using True s3 by (simp add: beaten_ok_def)
    ultimately show ?thesis using s1(1) s2(1) s3(1) by (auto simp: Combat_HeartBeat_def)
  next
    case False
    then have c3: "core (world s3)" "told (world s3) (to_self (world s3))" "out (world s3) = []" "clocked (stat (world s3)) s3"
      using f3(3) s3(4,5) by simp_all
    have run: "in_state 2 (world s3) = Inr (stat (world s3) = 2)" by (rule permits_core(2) [OF c3(1)])
    show ?thesis
    proof (cases "stat (world s3) = 2")
      case no: False
      then show ?thesis using s1(1) s2(1) s3(1-3) run c3 by (auto simp: Combat_HeartBeat_def beaten_ok_def)
    next
      case yes: True
      obtain x where x: "HandleDelayCMD env (world s3) = Some (Inr ((world s3)\<lparr>outer := x, cmd_vec := []\<rparr>))"
        using delay_loop_running [OF c3(1) yes] by (auto simp: HandleDelayCMD_def)
      let ?f4 = "(world s3)\<lparr>outer := x, cmd_vec := []\<rparr>"
      have st: "stat ?f4 = stat (world s3)" by (simp add: stat_def)
      have "moves None (world s3) ?f4" using st by (intro moves_quiet) simp_all
      moreover have "linked None (world s3) s3" using s3(3) c3(4) by (simp add: linked_def)
      ultimately obtain s4 where s4: "on_flow (\<lambda>_. Inr ?f4) s3 = Inr s4" "atb_inv s4" "cur_obj s4 = None" "clocked (stat ?f4) s4" "world s4 = ?f4\<lparr>out := []\<rparr>"
        using on_flow_ok [of s3 "\<lambda>_. Inr ?f4" ?f4 "world s3"] s3(2) c3(3) by blast
      have "beaten_ok s4 (to_self (world s4))" using s4 st c3 core_cmds [OF c3(1), of x] by (simp add: beaten_ok_def)
      then show ?thesis using s1(1) s2(1) s3(1) run yes x s4(1) by (auto simp: Combat_HeartBeat_def)
    qed
  qed
qed

text \<open>Delivering the messages; \<open>news\<close> is what the handlers have told the combat for the next tick.\<close>

definition news_ok :: "'x flow \<Rightarrow> bool" where
  "news_ok f \<longleftrightarrow> set (to_self f) \<subseteq> {MsgResume} \<and> (to_self f \<noteq> [] \<longrightarrow> lua f)"

lemma news_keeps: "news_ok f \<Longrightarrow> keeps c f f' \<Longrightarrow> news_ok f'"
  by (auto simp: news_ok_def keeps_def grows_def)

lemma handler_ok:
  assumes "env_fits env" "core f" "told f (m # q)" "news_ok f" "m = MsgContinue \<longrightarrow> to_self f = []"
  shows "\<exists>f'. message_handler env m f = Inr f' \<and> moves None f f' \<and> core f' \<and> told f' q \<and> news_ok f' \<and> (MsgContinue \<in> set q \<longrightarrow> to_self f' = to_self f)"
proof (cases m)
  case MsgResume
  obtain f' where f': "ResumeSceneScript env f = Inr f'" "keeps None f f'" "told f' q"
    using ResumeSceneScript_ok [of env f q] assms by (auto simp: env_fits_def news_ok_def MsgResume)
  have "to_self f' = to_self f" if "MsgContinue \<in> set q"
  proof -
    obtain k tail where "m # q = replicate k flow_msg.MsgResume @ tail" "tail \<in> {[], [MsgEnd], [MsgContinue]}" "tail = [MsgContinue] \<longrightarrow> stat f = 0"
      using assms(3) unfolding told_def by blast
    moreover have "MsgContinue \<in> set (m # q)" using that by simp
    ultimately have st: "stat f = 0" by auto
    have l: "scene f \<noteq> NoScene" "scene f \<noteq> NoLua" using f'(1) by (auto simp: ResumeSceneScript_def SceneAI_Resume_def)
    then have lf: "lua f" by (cases "scene f") (simp_all add: lua_def)
    note g = set_scene_ok(1) [OF assms(2) lf, where y=False]
    have "script_ops env (Script env f ScriptResume) (f\<lparr>scene := Lua False\<rparr>) = Inr (f\<lparr>scene := Lua False\<rparr>)"
      using st by (intro script_ops_refused [OF g]) simp
    then show ?thesis using f'(1) l lf by (auto simp: ResumeSceneScript_def SceneAI_Resume_def run_script_def lua_def split: if_splits)
  qed
  then show ?thesis using f' news_keeps [OF assms(4) f'(2)] by (auto simp: MsgResume keeps_def)
next
  case MsgEnd
  obtain f' where f': "CombatEnd env f = Inr f'" "keeps None f f'" "q = []" "stat f' = 6"
    using CombatEnd_ok [OF assms(2), of q env] assms(3) MsgEnd by blast
  have "told f' q" using f'(3,4) by (intro toldI [of "[]" _ _ "[]"]) simp_all
  then show ?thesis using f' news_keeps [OF assms(4) f'(2)] by (simp add: MsgEnd keeps_def)
next
  case MsgContinue
  have e: "\<forall>f. LuaInit env f" "\<forall>f. fst (NextWave env f) \<noteq> None" using assms(1) by (simp_all add: env_fits_def)
  obtain f' where f': "CombatContinue env f = Inr f'" "moves None f f'" "core f'" "hung_ok f'" "to_self f' = to_self f" "q = []"
    using CombatContinue_ok [OF e assms(2), of q] assms(3) MsgContinue by blast
  have "told f' q" using f'(4,6) by (intro toldI [of "[]" _ _ "[]"]) (simp_all add: hung_ok_def)
  moreover have "news_ok f'" using f'(5) assms(5) MsgContinue by (simp add: news_ok_def)
  ultimately show ?thesis using f' by (simp add: MsgContinue)
qed

lemma deliver_ok:
  assumes "env_fits env"
  shows "beaten_ok s q \<Longrightarrow> news_ok (world s) \<Longrightarrow> MsgContinue \<in> set q \<longrightarrow> to_self (world s) = [] \<Longrightarrow> \<exists>s'. deliver_self env q s = Inr s' \<and> combat_ok s'"
proof (induction q arbitrary: s)
  case Nil
  have "combat_ok s"
  proof (cases "over (world s)")
    case False
    then have b: "core (world s)" "told (world s) []" "out (world s) = []" "clocked (stat (world s)) s" "atb_inv s" "cur_obj s = None"
      using Nil.prems(1) by (simp_all add: beaten_ok_def)
    have "hung_ok (world s)" using b(2) by (auto simp: told_def hung_ok_def)
    then show ?thesis using b Nil.prems(2) by (simp add: combat_ok_def fits_def calm_flow_def news_ok_def)
  qed (use Nil.prems(1) in \<open>simp add: beaten_ok_def combat_ok_def\<close>)
  then show ?case by simp
next
  case (Cons m q)
  show ?case
  proof (cases "over (world s)")
    case True
    then show ?thesis using Cons.prems(1) by (simp add: beaten_ok_def combat_ok_def over_def)
  next
    case False
    then have b: "core (world s)" "told (world s) (m # q)" "out (world s) = []" "clocked (stat (world s)) s" "atb_inv s" "cur_obj s = None"
      using Cons.prems(1) by (simp_all add: beaten_ok_def)
    have "m = MsgContinue \<longrightarrow> to_self (world s) = []" using Cons.prems(3) by simp
    then obtain f' where f': "message_handler env m (world s) = Inr f'" "moves None (world s) f'" "core f'" "told f' q" "news_ok f'"
      "MsgContinue \<in> set q \<longrightarrow> to_self f' = to_self (world s)"
      using handler_ok [OF assms b(1,2) Cons.prems(2)] by blast
    have "linked None (world s) s" using b by (simp add: linked_def)
    then obtain s' where s': "on_flow (message_handler env m) s = Inr s'" "atb_inv s'" "cur_obj s' = None" "clocked (stat f') s'" "world s' = f'\<lparr>out := []\<rparr>"
      using on_flow_ok [of s "message_handler env m", OF b(5) f'(1,2) _ b(3)] by blast
    have "beaten_ok s' q" using s' f' by (simp add: beaten_ok_def)
    moreover have "news_ok (world s')" using s'(5) f'(5) by (simp add: news_ok_def lua_def)
    moreover have "MsgContinue \<in> set q \<longrightarrow> to_self (world s') = []" using s'(5) f'(6) Cons.prems(3) by auto
    ultimately obtain s'' where "deliver_self env q s' = Inr s''" "combat_ok s''" using Cons.IH by blast
    moreover have "\<not> ended (world s)" using b(1) by (simp add: core_def)
    ultimately show ?thesis using s'(1) by simp
  qed
qed

lemma tick_ok:
  assumes "env_fits env" "finite_instants (attack_env env) b" "combat_ok s"
  shows "\<exists>s'. combat_tick env s = Some (Inr s') \<and> combat_ok s'"
proof (cases "over (world s)")
  case True
  then show ?thesis using assms(3) by (simp add: combat_tick_def over_def)
next
  case False
  then have s: "atb_inv s" "cur_obj s = None" "fits s" using assms(3) by (simp_all add: combat_ok_def)
  then have ne: "\<not> ended (world s)" by (simp add: fits_def calm_flow_def core_def)
  obtain s1 where s1: "Combat_HeartBeat env s = Some (Inr s1)" "beaten_ok s1 (to_self (world s1))"
    using Combat_HeartBeat_ok [OF assms(1,2) s] by blast
  let ?s1 = "s1\<lparr>world := (world s1)\<lparr>to_self := []\<rparr>\<rparr>"
  have "clocked st ?s1 = clocked st s1" for st by (simp add: clocked_def CombatATB.entries_def)
  then have "beaten_ok ?s1 (to_self (world s1))" using s1(2) by (simp add: beaten_ok_def atb_inv_def)
  then obtain s' where "deliver_self env (to_self (world s1)) ?s1 = Inr s'" "combat_ok s'"
    using deliver_ok [OF assms(1), of ?s1] by (auto simp: news_ok_def)
  then show ?thesis using s1(1) ne by (simp add: combat_tick_def)
qed

section \<open>Start and runs\<close>

lemma closed_state: "QueryState 0 combat_fsm = Inr (Some (cstate 0 (- 1)))"
  by (simp add: QueryState_def combat_fsm_ok(2) cstate_def combat_states_def new_state_def)

lemma StartCombat_ok:
  assumes "env_fits env"
  shows "\<exists>s. on_flow (StartCombat env has_script) (new_combat grp next_grp us x) = Inr s \<and> combat_ok s"
proof -
  define s0 where "s0 = new_combat grp next_grp us x"
  have w: "fstate (world s0) = None" "scene (world s0) = NoScene" "ended (world s0) = False" "to_self (world s0) = []" "cmd_vec (world s0) = []"
    "out (world s0) = []" by (simp_all add: s0_def new_combat_def CombatATB_init_def)
  have a: "atb_inv s0" "cur_obj s0 = None" "\<not> active s0" by (simp_all add: s0_def new_combat_def CombatATB_init_def atb_inv_def)
  have sf: "scripts_fit env" using assms by (simp add: env_fits_def)
  let ?f1 = "if has_script then SceneAI_Init env (world s0) else world s0"
  let ?g0 = "?f1\<lparr>fstate := Some (cstate 0 (- 1))\<rparr>"
  let ?r = "goto 1 10 ?g0"
  let ?h = "?r\<lparr>out := map CRegister (AliveUnits env ?r)\<rparr>"
  have f1: "scene ?f1 \<in> {NoScene, Lua False}" "fstate ?f1 = None" "ended ?f1 = False" "to_self ?f1 = []" "cmd_vec ?f1 = []" "out ?f1 = []"
    using assms w by (simp_all add: SceneAI_Init_def env_fits_def)
  have k: "ticks_of (1000 sdiv MSEC_PER_TICK) = 10" by (simp add: ticks_of_def MSEC_PER_TICK_def signed_divide_int_def)
  have st: "stat ?r = 1" "stat ?h = 1" by (simp_all add: statuses_def)
  have c: "core ?h" using ready_core(2) [of 10 ?g0] f1 by auto
  have si: "State_Init env ?f1 = SceneAI_On (run_script env) ScriptStart ?h"
    using f1 Update_init [of ?g0 "- 1" env "1000 sdiv MSEC_PER_TICK"] k by (simp add: State_Init_def closed_state)
  have calm: "calm_flow ?h" using c f1 by (auto simp: calm_flow_def hung_ok_def)
  obtain f2 where f2: "State_Init env ?f1 = Inr f2" "keeps None ?h f2" "hung_ok f2"
  proof (cases "lua ?h")
    case True
    then have "scene ?h = Lua False" using f1(1) by (auto simp: lua_def)
    then have "SceneAI_On (run_script env) ScriptStart ?h = run_script env ScriptStart ?h" by (simp add: SceneAI_On_def)
    then show ?thesis using that run_script_ok [OF sf c True, of ScriptStart None] st(2) si by auto
  next
    case False
    then have "SceneAI_On (run_script env) ScriptStart ?h = Inr ?h" by (auto simp: SceneAI_On_def lua_def split: scene.split)
    then show ?thesis using that [of ?h] si keeps_refl [OF c] calm by (simp add: calm_flow_def)
  qed
  have cf2: "calm_flow f2" by (rule calm_keeps [OF calm f2(2,3)])
  then have "admissible (combat_op env) (op_pre None) f2 (StartOps env f2)" using assms by (simp add: env_fits_def)
  then obtain f3 where f3: "run (combat_op env) f2 (StartOps env f2) = Inr f3" "keeps None f2 f3" "hung_ok f3"
    using ops_ok [OF sf _ f2(3), of None] cf2 unfolding calm_flow_def by blast
  have sc: "StartCombat env has_script (world s0) = Inr f3" using f1(1) f2(1) f3(1) by (auto simp: StartCombat_def Let_def)
  have "moves None ?r f3" proof -
    have "moves None ?r ?h" using moves_registers [OF st(1), of "AliveUnits env ?r"] f1(6) by simp
    then show ?thesis using f2(2) f3(2) moves_trans unfolding keeps_def by blast
  qed
  moreover have "linked None ?r s0" using a(2,3) st(1) clocked_simps(2) [of 1 s0] by (simp add: linked_def)
  ultimately obtain s where "on_flow (StartCombat env has_script) s0 = Inr s" "atb_inv s" "cur_obj s = None" "clocked (stat f3) s" "world s = f3\<lparr>out := []\<rparr>"
    using on_flow_ok [of s0 "StartCombat env has_script" f3 ?r] a(1) sc f1(6) by auto
  moreover have "calm_flow f3" by (rule calm_keeps [OF cf2 f3(2,3)])
  ultimately show ?thesis by (auto simp: s0_def combat_ok_def fits_def)
qed

text \<open>A player who may end the combat does not do so once it is closing.\<close>

fun combat_pre :: "'x combat \<Rightarrow> combat_step \<Rightarrow> bool" where
  "combat_pre s (TCmd c) = (c = CmdTerminate \<longrightarrow> stat (world s) \<noteq> 5)"
| "combat_pre s _ = True"

lemma flow_step_ok:
  assumes "atb_inv s" "cur_obj s = None" "fits s" "g (world s) = Inr f'" "moves None (world s) f'" "calm_flow f'"
  shows "\<exists>s'. on_flow g s = Inr s' \<and> combat_ok s'"
proof -
  obtain s' where "on_flow g s = Inr s'" "atb_inv s'" "cur_obj s' = None" "clocked (stat f') s'" "world s' = f'\<lparr>out := []\<rparr>"
    using on_flow_ok [of s g f' "world s"] assms fits_linked [OF assms(3,2)] by (auto simp: fits_def)
  then show ?thesis using assms(6) by (auto simp: combat_ok_def fits_def)
qed

lemma combat_do_ok:
  assumes "env_fits env" "finite_instants (attack_env env) b" "combat_ok s" "combat_pre s x"
  shows "\<exists>s'. combat_do env s x = Inr s' \<and> combat_ok s'"
proof (cases "over (world s)")
  case True
  then show ?thesis using assms(3) by (cases x) (simp_all add: combat_tick_def over_def)
next
  case False
  then have s: "atb_inv s" "cur_obj s = None" "fits s" using assms(3) by (simp_all add: combat_ok_def)
  then have c: "calm_flow (world s)" "core (world s)" "hung_ok (world s)" "\<not> ended (world s)" by (simp_all add: fits_def calm_flow_def core_def)
  have sf: "scripts_fit env" using assms(1) by (simp add: env_fits_def)
  show ?thesis
  proof (cases x)
    case TTick
    then show ?thesis using tick_ok [OF assms(1-3)] by auto
  next
    case (TCmd cmd)
    have "stat (world s) = 5 \<longrightarrow> cmd \<noteq> CmdTerminate" using assms(4) TCmd by auto
    then show ?thesis using HandleCMD_ok [OF sf c(1), of cmd] flow_step_ok [OF s, of "HandleCMD env cmd"] TCmd c(4) by auto
  next
    case TMsg
    have "admissible (combat_op env) (op_pre None) (world s) (OtherMSG env (world s))" using assms(1) c(1) by (simp add: env_fits_def)
    then obtain f' where f': "run (combat_op env) (world s) (OtherMSG env (world s)) = Inr f'" "keeps None (world s) f'" "hung_ok f'"
      using ops_ok [OF sf c(2,3)] by blast
    have "moves None (world s) f'" using f'(2) by (simp add: keeps_def)
    then show ?thesis using flow_step_ok [of s "\<lambda>f. run (combat_op env) f (OtherMSG env f)", OF s f'(1) _ calm_keeps [OF c(1) f'(2,3)]] TMsg c(4) by auto
  qed
qed

interpretation combats: invariant_system "combat_do env" combat_pre
  "\<lambda>s. combat_ok s \<and> env_fits env \<and> finite_instants (attack_env env) b" for env b
  by unfold_locales (use combat_do_ok in blast)

text \<open>\<open>in_step\<close>: what the parts of a combat know of each other between two steps.\<close>

definition in_step :: "'x combat \<Rightarrow> bool" where
  "in_step s \<longleftrightarrow> atb_inv s \<and> cur_obj s = None \<and>
     (if ended (world s) then stat (world s) = 0 \<and> scene (world s) = NoScene
      else (stat (world s) = 2 \<longrightarrow> active s) \<and> (stat (world s) \<in> {1, 3, 4, 7, 8} \<longrightarrow> \<not> active s) \<and>
        (stat (world s) \<in> {0, 5, 6} \<longrightarrow> CombatATB.entries s = {}) \<and> (scene (world s) = Lua True \<longrightarrow> stat (world s) \<notin> {1, 2, 3}))"

lemma combat_ok_in_step:
  assumes "combat_ok s"
  shows "in_step s"
proof (cases "over (world s)")
  case True
  then show ?thesis using assms by (simp add: combat_ok_def in_step_def over_def stat_def statuses_def)
next
  case False
  then have "fits s" "atb_inv s" "cur_obj s = None" using assms by (simp_all add: combat_ok_def)
  then show ?thesis unfolding in_step_def fits_def calm_flow_def core_def hung_ok_def clocked_def by simp
qed

text \<open>
  C3: A combat in progress never fails an assertion, never divides its scheduler from its state,
  and every heartbeat of it ends: started with or without a script, whatever its units, its
  script, its players and its messages do that the operations of a combat permit, the scheduler
  runs while the combat is running, stands still while it gets ready or is paused, and holds no unit
  once it is closing; a script that hangs has paused the combat, so that it is resumed; and a combat
  that has ended stays as it is. Scripts are free of Lua errors (\<open>SceneAI_On\<close>).
\<close>

theorem combat_runs_safely:
  assumes "env_fits env" "finite_instants (attack_env env) b"
  shows "\<exists>s0. on_flow (StartCombat env has_script) (new_combat grp next_grp us x) = Inr s0 \<and>
    (\<forall>steps. admissible (combat_do env) combat_pre s0 steps \<longrightarrow> (\<exists>s. run (combat_do env) s0 steps = Inr s \<and> in_step s))"
  using StartCombat_ok [OF assms(1)] combats.run_inv [of _ env b] combat_ok_in_step assms by metis

text \<open>
  A combat whose script pauses it for 300 ms at the start; unit 1 attacks and tells the script of
  its round, unit 2 changes its speed, and a message terminates the combat.
\<close>

definition demo_script :: "unit flow \<Rightarrow> script_event \<Rightarrow> unit op list" where
  "demo_script f ev = (case ev of ScriptStart \<Rightarrow> [OSuspend 300] | _ \<Rightarrow> [])"

definition demo_combat :: "unit combat_env" where
  "demo_combat = \<lparr>Script = demo_script, Release = outer, LuaInit = (\<lambda>f. True),
     Attack = (\<lambda>f u. (True, if u = 1 then [ORound u] else [OChange u])),
     UnitsHeartBeat = (\<lambda>f. []), OtherMSG = (\<lambda>f. if stat f \<in> {0, 6} then [] else [OTerminate]), StartOps = (\<lambda>f. []), EndOps = outer,
     NextWave = (\<lambda>f. (Some True, ())), IsCombatEnd = (\<lambda>f. 0), TestCloseCombat = (\<lambda>f. True), AliveUnits = (\<lambda>f. [1, 2]),
     GetNextMobGroupID = (\<lambda>i. 0), Accepts = (\<lambda>f c. (True, ())), junk_time = 0\<rparr>"

lemma demo_fits: "env_fits demo_combat"
proof -
  have "script_pre demo_combat (attacker ev) (demo_script f ev) (f\<lparr>scene := Lua False\<rparr>)" if "event_at ev (stat f)" for f ev
    using that by (cases ev) (simp_all add: demo_script_def)
  then have "scripts_fit demo_combat" unfolding scripts_fit_def by (simp add: demo_combat_def)
  then show ?thesis unfolding env_fits_def by (simp add: demo_combat_def split: sum.split)
qed

lemma instants_append [simp]: "instants (xs @ ys) = instants xs + instants ys"
  by (simp add: instants_def)

lemma demo_instants: "finite_instants (attack_env demo_combat) (\<lambda>f. instants (out f))"
proof -
  have "instants (out f') \<le> instants (out f)" if "run (combat_op demo_combat) f (if u = 1 then [ORound u] else [OChange u]) = Inr f'" for f f' u
    using that by (auto simp: demo_combat_def demo_script_def SceneAI_On_def run_script_def emit_def instants_def assertx_def split: if_splits scene.splits)
  moreover have "Attack demo_combat f u = (True, if u = 1 then [ORound u] else [OChange u])" for f u by (simp add: demo_combat_def)
  ultimately show ?thesis unfolding finite_instants_def attack_env_def by (fastforce simp: bindr_Inr_iff instants_def)
qed

theorem combat_runs_safely_witness:
  "\<exists>s0. on_flow (StartCombat demo_combat True) (new_combat 1 0 demo_units ()) = Inr s0 \<and>
    (\<exists>s. run (combat_do demo_combat) s0 [TTick, TCmd (CmdSelectSkill True), TTick, TTick, TTick, TMsg, TTick] = Inr s \<and> in_step s)"
proof -
  have "admissible (combat_do demo_combat) combat_pre s0 [TTick, TCmd (CmdSelectSkill True), TTick, TTick, TTick, TMsg, TTick]" for s0
    by (rule admissibleI) auto
  then show ?thesis using combat_runs_safely [OF demo_fits demo_instants, of True 1 0 demo_units "()"] by blast
qed

end
