(* ===== verification/CombatPauses.thy ===== *)
theory CombatPauses
  imports CombatBeat
begin

text \<open>
  The machine of a combat is the one its table describes; pauses last as long as they say; and
  what happens to commands that are kept while a combat closes.
\<close>

section \<open>The machine\<close>

lemma next_in_table:
  "row_of combat_state_shift_table e c = Some n \<longleftrightarrow> (c, e, n) \<in> set combat_state_shift_table"
  unfolding row_of_def combat_state_shift_table_def by (auto split: if_splits)

text \<open>
  \<open>CombatState::Initialize\<close> fails no assertion, gives every state its number, its options and
  no timeout, and leads from one state to another exactly where the table of combats has a row, to
  states that exist.
\<close>

theorem CombatState_Initialize_table:
  "\<exists>m. CombatState_Initialize = Inr m \<and> state_stubs m = map Some combat_states \<and>
     map status combat_states = [0..8] \<and> map timeout combat_states = replicate 9 (- 1) \<and>
     (\<forall>e c n. next_status m e c = Some n \<longleftrightarrow> (c, e, n) \<in> set combat_state_shift_table) \<and>
     list_all (\<lambda>(c, e, n). c \<in> {0..8} \<and> e \<in> {0..8} \<and> n \<in> {0..8}) combat_state_shift_table"
proof (intro exI [of _ combat_fsm] conjI allI)
  show "CombatState_Initialize = Inr combat_fsm" "state_stubs combat_fsm = map Some combat_states" by (rule combat_fsm_ok)+
  show "next_status combat_fsm e c = Some n \<longleftrightarrow> (c, e, n) \<in> set combat_state_shift_table" for e c n
    unfolding combat_fsm_ok(4) by (rule next_in_table)
  show "map status combat_states = [0..8]" by (simp add: combat_states_def new_state_def upto_rec1)
  show "map timeout combat_states = replicate 9 (- 1)" by (simp add: combat_states_def new_state_def numeral_eq_Suc)
  show "list_all (\<lambda>(c, e, n). c \<in> {0..8} \<and> e \<in> {0..8} \<and> n \<in> {0..8}) combat_state_shift_table"
    by (simp add: combat_state_shift_table_def)
qed

section \<open>Pauses\<close>

text \<open>\<open>pause_of\<close> is the state in which an operation pauses a running combat, and for how many heartbeats.\<close>

fun pause_of :: "'x op \<Rightarrow> (int \<times> int) option" where
  "pause_of (OSuspend msec) = Some (4, msec sdiv 100)"
| "pause_of (OWaitSkill msec) = (if msec = 0 then None else Some (7, shown_msec msec sdiv 100))"
| "pause_of (OWaitPet msec) = (if msec = 0 then None else Some (8, shown_msec msec sdiv 100))"
| "pause_of (OStop t) = Some (3, t)"
| "pause_of (ORevise delta) = (if delta < 2 then Some (3, 2 - delta) else None)"
| "pause_of _ = None"

lemma pause_Update:
  assumes "fstate f = Some (cstate 2 t)" "(e, n) \<in> {(1, 3), (2, 4), (7, 7), (8, 8)}"
  shows "Update env start e k f = Inr (goto n (ticks_of k) f)"
proof -
  have s: "(2::int) \<in> statuses" "n \<in> statuses" "0 \<le> e" "e < 9" "n \<noteq> 2" "n \<in> {0, 3, 4, 6, 7, 8}" using assms(2) by (auto simp: statuses_def)
  have r: "row_of combat_state_shift_table e 2 = Some n" using assms(2) by (auto simp: row_of_def combat_state_shift_table_def)
  show ?thesis
    using Update_row(1) [OF assms(1) s(1,3,4) r s(2,5), where env=env and start=start and k=k] OnLeave_simps(3) [of 2, where env=env and start=start]
      OnEnter_simps(4) [OF s(6), where env=env and start=start] by simp
qed

lemma pause_running:
  assumes "fstate f = Some (cstate 2 t)" "pause_of a = Some (st, n)"
  shows "do_op env scripts f a = Inr (goto st (ticks_of n) (emit CDeActivate f))" "st \<in> {3, 4, 7, 8}"
proof -
  let ?g = "emit CDeActivate f"
  have z: "(2::int) \<in> statuses" by (simp add: statuses_def)
  have p: "permits k f = Inr (k \<in> {1, 2, 3, 4, 6, 5, 7, 8})" "in_state k f = Inr (2 = k)" for k
    using permits_cstate [OF assms(1), of k] opts_simps(3) in_state_cstate [OF assms(1) z, of k] by simp_all
  have s: "stop_for k f = Inr ?g" for k using p(2) by (simp add: stop_for_def)
  have u: "Update env (OnCombatStart env scripts) e k ?g = Inr (goto m (ticks_of k) ?g)" if "(e, m) \<in> {(1, 3), (2, 4), (7, 7), (8, 8)}" for e m k
    using pause_Update [of ?g t e m env "OnCombatStart env scripts" k, OF _ that] assms(1) by (simp add: emit_props)
  show "do_op env scripts f a = Inr (goto st (ticks_of n) ?g)"
    using assms(2) p s u
    by (cases a) (auto simp: Suspend_def WaitSelectSkill_def WaitSelectPet_def DeActivateATB_def NeedReviseATB_def guarded_def MSEC_PER_TICK_def split: if_splits)
  show "st \<in> {3, 4, 7, 8}" using assms(2) by (cases a) (auto split: if_splits)
qed

definition heartbeats :: "'x combat_env \<Rightarrow> nat \<Rightarrow> 'x flow \<Rightarrow> 'x flow res" where
  "heartbeats env k f = run (\<lambda>f _. CombatState_HeartBeat env f) f (replicate k ())"

lemma heartbeats_Suc: "heartbeats env (Suc k) f = bindr (CombatState_HeartBeat env f) (heartbeats env k)"
  by (simp add: heartbeats_def [abs_def])

lemma heartbeats_pause:
  assumes "st \<in> {3, 4, 7, 8}"
  shows "int k < n \<Longrightarrow> heartbeats env k (goto st n f) = Inr (goto st (n - int k) f)"
    "heartbeats env (Suc k) (goto st (1 + int k) f) = Inr (emit CActivate (leaving st (goto 2 (- 1) f)))"
    "heartbeats env k (goto st (- 1) f) = Inr (goto st (- 1) f)"
proof -
  have s: "st \<in> statuses" "st \<noteq> 5" "st \<in> {1, 3, 4, 7, 8}" using assms by (auto simp: statuses_def)
  have c: "CombatState_HeartBeat env (goto st n f) = Inr (goto st (n - 1) f)" if "1 < n" for n
    using Beat_counts [of "goto st n f" st n env] s that by simp
  show "int k < n \<Longrightarrow> heartbeats env k (goto st n f) = Inr (goto st (n - int k) f)"
  proof (induction k arbitrary: n)
    case (Suc k)
    then have "1 < n" "int k < n - 1" by simp_all
    then show ?case using Suc.IH [of "n - 1"] c [of n] by (simp add: heartbeats_Suc algebra_simps)
  qed (simp add: heartbeats_def)
  show "heartbeats env (Suc k) (goto st (1 + int k) f) = Inr (emit CActivate (leaving st (goto 2 (- 1) f)))"
  proof (induction k)
    case 0
    then show ?case using Beat_resumes [of "goto st 1 f" st env] s(3) by (simp add: heartbeats_def)
  next
    case (Suc k)
    then show ?case using c [of "1 + int (Suc k)"] heartbeats_Suc [of env "Suc k" "goto st (1 + int (Suc k)) f"] by simp
  qed
  show "heartbeats env k (goto st (- 1) f) = Inr (goto st (- 1) f)"
    using Beat_untimed [of "goto st (- 1) f" st env] s by (induction k) (simp_all add: heartbeats_def)
qed

lemma running_stateE: "core f \<Longrightarrow> stat f = 2 \<Longrightarrow> (\<And>t. fstate f = Some (cstate 2 t) \<Longrightarrow> P) \<Longrightarrow> P"
  by (metis core_stateE)

text \<open>
  An operation that pauses a running combat for \<open>n\<close> heartbeats stops the scheduler at once; the
  machine stays in the state of the pause for the first \<open>n - 1\<close> heartbeats; the \<open>n\<close>th one leads
  back to the running state, starts the scheduler again and, unless the pause only let an action be
  shown, sends a hanging script the message to resume.
\<close>

theorem pause_resumes:
  assumes "core f" "stat f = 2" "pause_of a = Some (st, n)" "0 < n"
  shows "\<exists>f0. combat_op env f a = Inr f0 \<and> stat f0 = st \<and> out f0 = out f @ [CDeActivate] \<and>
    (\<forall>k < nat n. \<exists>g. heartbeats env k f0 = Inr g \<and> stat g = st \<and> out g = out f0) \<and>
    (\<exists>g. heartbeats env (nat n) f0 = Inr g \<and> stat g = 2 \<and> out g = out f0 @ [CActivate] \<and>
       to_self g = (if st \<noteq> 3 \<and> scene f = Lua True then to_self f @ [MsgResume] else to_self f))"
proof -
  obtain t where t: "fstate f = Some (cstate 2 t)" using assms(1,2) by (rule running_stateE)
  note p = pause_running(1) [OF t assms(3), where env=env and scripts="run_script env"] pause_running(2) [OF t assms(3)]
  let ?f = "emit CDeActivate f" let ?f0 = "goto st n ?f"
  have s: "st \<in> statuses" "(2::int) \<in> statuses" using p(2) by (auto simp: statuses_def)
  have n: "nat n = Suc (nat (n - 1))" "1 + int (nat (n - 1)) = n" using assms(4) by simp_all
  have k: "heartbeats env k ?f0 = Inr (goto st (n - int k) ?f)" if "k < nat n" for k
    using heartbeats_pause(1) [OF p(2), of k n env ?f] that by simp
  have e: "heartbeats env (nat n) ?f0 = Inr (emit CActivate (leaving st (goto 2 (- 1) ?f)))"
    using heartbeats_pause(2) [OF p(2), of env "nat (n - 1)" ?f] n by simp
  have "combat_op env f a = Inr ?f0" using p(1) assms(4) by (simp add: ticks_of_def)
  moreover have "\<forall>k < nat n. \<exists>g. heartbeats env k ?f0 = Inr g \<and> stat g = st \<and> out g = out ?f0" using k s(1) by simp
  moreover have "st = 3 \<longleftrightarrow> st \<notin> {4, 7, 8}" using p(2) by auto
  ultimately show ?thesis using e s leaving_props [where st=st and f="goto 2 (- 1) ?f"]
    by (intro exI [of _ ?f0]) (simp add: emit_props leaving_def resume_message_def send_self_def)
qed

text \<open>A running combat whose script hangs in the middle of a round.\<close>

definition demo_running :: "cmd list \<Rightarrow> unit flow" where
  "demo_running cs = \<lparr>fstate = Some (cstate 2 (- 1)), scene = Lua True, attacker_win = False, mob_group_id = 1,
     next_mob_group_id = 0, wave_counter = 0, ended = False, to_self = [], cmd_vec = cs, out = [], outer = ()\<rparr>"

lemma demo_running_core: "core (demo_running [])" "stat (demo_running cs) = 2"
  by (rule coreI [of _ 2 "- 1"]) (simp_all add: demo_running_def statuses_def lua_def stat_def)

theorem pause_resumes_witness:
  "\<forall>env. \<exists>f0. combat_op env (demo_running []) (OWaitSkill 5300) = Inr f0 \<and> stat f0 = 7 \<and>
     (\<exists>g. heartbeats env 3 f0 = Inr g \<and> stat g = 2 \<and> out g = [CDeActivate, CActivate] \<and> to_self g = [MsgResume])"
proof
  fix env :: "unit combat_env"
  have "pause_of (OWaitSkill 5300 :: unit op) = Some (7, 3)" by (simp add: shown_msec_def signed_divide_int_def)
  from pause_resumes [OF demo_running_core this, of env]
  show "\<exists>f0. combat_op env (demo_running []) (OWaitSkill 5300) = Inr f0 \<and> stat f0 = 7 \<and>
     (\<exists>g. heartbeats env 3 f0 = Inr g \<and> stat g = 2 \<and> out g = [CDeActivate, CActivate] \<and> to_self g = [MsgResume])"
    by (auto simp: demo_running_def)
qed

text \<open>
  A pause of no whole heartbeat does not end by itself: 5000 to 5099 ms for a choice, of which
  5000 are for the client to show it, less than 100 ms of suspension, or a stop for no ticks.
\<close>

theorem pause_of_nothing_lasts:
  assumes "core f" "stat f = 2" "pause_of a = Some (st, n)" "n \<le> 0"
  shows "\<exists>f0. combat_op env f a = Inr f0 \<and> stat f0 = st \<and> out f0 = out f @ [CDeActivate] \<and> (\<forall>k. heartbeats env k f0 = Inr f0)"
proof -
  obtain t where t: "fstate f = Some (cstate 2 t)" using assms(1,2) by (rule running_stateE)
  note p = pause_running(1) [OF t assms(3), where env=env and scripts="run_script env"] pause_running(2) [OF t assms(3)]
  have s: "st \<in> statuses" using p(2) by (auto simp: statuses_def)
  have "combat_op env f a = Inr (goto st (- 1) (emit CDeActivate f))" using p(1) assms(4) by (simp add: ticks_of_def)
  then show ?thesis using heartbeats_pause(3) [OF p(2), of env _ "emit CDeActivate f"] s by (auto simp: emit_props)
qed

theorem pause_of_nothing_lasts_witness:
  "\<forall>env. \<exists>f0. combat_op env (demo_running []) (OWaitSkill 5099) = Inr f0 \<and> stat f0 = 7 \<and> (\<forall>k. heartbeats env k f0 = Inr f0)"
proof
  fix env :: "unit combat_env"
  have "pause_of (OWaitSkill 5099 :: unit op) = Some (7, 0)" by (simp add: shown_msec_def signed_divide_int_def)
  from pause_of_nothing_lasts [OF demo_running_core this, of env]
  show "\<exists>f0. combat_op env (demo_running []) (OWaitSkill 5099) = Inr f0 \<and> stat f0 = 7 \<and> (\<forall>k. heartbeats env k f0 = Inr f0)" by auto
qed

section \<open>Delayed commands\<close>

lemma delay_loop_closing:
  assumes "delay_loop env i f = Some r"
  shows "fstate f = Some (cstate 5 t) \<longrightarrow> \<not> i < length (cmd_vec f)"
proof (rule delay_loop.raw_induct [OF _ assms])
  fix dl :: "'a combat_env \<Rightarrow> nat \<Rightarrow> 'a flow \<Rightarrow> 'a flow res option" and env i f r
  assume hyp: "\<And>env i f r. dl env i f = Some r \<Longrightarrow> fstate f = Some (cstate 5 t) \<longrightarrow> \<not> i < length (cmd_vec f)"
    and body: "(if i < length (cmd_vec f)
      then (case HandleCMD env (cmd_vec f ! i) f of Inl e \<Rightarrow> Some (Inl e) | Inr f1 \<Rightarrow> dl env (Suc i) f1)
      else Some (Inr (f\<lparr>cmd_vec := []\<rparr>))) = Some r"
  show "fstate f = Some (cstate 5 t) \<longrightarrow> \<not> i < length (cmd_vec f)"
  proof (intro impI notI)
    assume f: "fstate f = Some (cstate 5 t)" and i: "i < length (cmd_vec f)"
    let ?f' = "f\<lparr>cmd_vec := cmd_vec f @ [cmd_vec f ! i]\<rparr>"
    have z: "(5::int) \<in> statuses" by (simp add: statuses_def)
    have "HandleCMD env (cmd_vec f ! i) f = Inr ?f'"
      using permits_cstate [OF f, of 3] opts_simps(6) in_state_cstate [OF f z, of 5] by (simp add: HandleCMD_def guarded_def)
    then have "dl env (Suc i) ?f' = Some r" using body i by simp
    from hyp [OF this] show False using f i by simp
  qed
qed

lemma closing_running:
  assumes "fstate f = Some (cstate 2 t)"
  shows "combat_op env f OTerminate = Inr (emit CUnRegisterAll (goto 5 (- 1) f))"
proof -
  have s: "(2::int) \<in> statuses" "(5::int) \<in> statuses" by (simp_all add: statuses_def)
  show ?thesis
    using Update_row(1) [OF assms s(1) _ _ _ s(2), of 5, where env=env and start="OnCombatStart env (run_script env)" and k="- 1"] table_rows(7) [of 2]
      OnLeave_simps(3) [of 2, where env=env and start="OnCombatStart env (run_script env)"] OnEnter_simps(3) [where env=env and start="OnCombatStart env (run_script env)"]
    by (simp add: Terminate_def)
qed

text \<open>
  C37: A command to terminate that was kept while the combat closed, followed by another one, never
  lets the loop over the kept commands end, when the next wave runs: the first command closes the
  combat again, and then the loop keeps every command it takes once more.
\<close>

theorem HandleDelayCMD_spins:
  assumes "fstate f = Some (cstate 2 t)" "cmd_vec f = CmdTerminate # c # cs"
  shows "HandleDelayCMD env f = None"
proof -
  have z: "(2::int) \<in> statuses" by (simp add: statuses_def)
  let ?f' = "emit CUnRegisterAll (goto 5 (- 1) f)"
  have "HandleCMD env CmdTerminate f = Inr ?f'"
    using permits_cstate [OF assms(1), of 3] opts_simps(3) in_state_cstate [OF assms(1) z, of 5] closing_running [OF assms(1), of env]
    by (simp add: HandleCMD_def guarded_def)
  then have "HandleDelayCMD env f = delay_loop env 1 ?f'" unfolding HandleDelayCMD_def by (subst delay_loop.simps) (simp add: assms(2))
  moreover have "delay_loop env 1 ?f' = None"
    using delay_loop_closing [of env 1 ?f' _ "- 1"] assms(2) by (cases "delay_loop env 1 ?f'") (auto simp: emit_props)
  ultimately show ?thesis by simp
qed

theorem HandleDelayCMD_spins_witness:
  "\<forall>env. HandleDelayCMD env (demo_running [CmdTerminate, CmdOther]) = None"
proof
  fix env :: "unit combat_env"
  show "HandleDelayCMD env (demo_running [CmdTerminate, CmdOther]) = None"
    by (rule HandleDelayCMD_spins [of _ "- 1" "CmdOther" "[]"]) (simp_all add: demo_running_def)
qed

end
