(* ===== verification/UnitState.thy ===== *)
theory UnitState
  imports Fsm
begin

unbundle bit_operations_syntax

text \<open>
  \<open>game_module/combat/unit/unit_state\<close>: the states of a unit in a combat, the table of their
  transitions for every type of unit, and the record of the transitions that were taken.
\<close>

section \<open>States and the table\<close>

abbreviation (input) UT_INVALID :: int where "UT_INVALID \<equiv> 0"
abbreviation (input) UT_PLAYER :: int where "UT_PLAYER \<equiv> 1"
abbreviation (input) UT_MOB :: int where "UT_MOB \<equiv> 2"
abbreviation (input) UT_PET :: int where "UT_PET \<equiv> 3"
abbreviation (input) UT_GOLEM :: int where "UT_GOLEM \<equiv> 4"
abbreviation (input) UT_TEAM_NPC :: int where "UT_TEAM_NPC \<equiv> 5"
abbreviation (input) UT_BOSS :: int where "UT_BOSS \<equiv> 6"

abbreviation (input) STATUS_NULL :: int where "STATUS_NULL \<equiv> 0"
abbreviation (input) STATUS_NORMAL :: int where "STATUS_NORMAL \<equiv> 1"
abbreviation (input) STATUS_ACTION :: int where "STATUS_ACTION \<equiv> 2"
abbreviation (input) STATUS_ATTACKED :: int where "STATUS_ATTACKED \<equiv> 3"
abbreviation (input) STATUS_ZOMBIE_DYING :: int where "STATUS_ZOMBIE_DYING \<equiv> 4"
abbreviation (input) STATUS_DYING :: int where "STATUS_DYING \<equiv> 5"
abbreviation (input) STATUS_DEAD :: int where "STATUS_DEAD \<equiv> 6"
abbreviation (input) STATUS_SLEEP :: int where "STATUS_SLEEP \<equiv> 7"
abbreviation (input) STATUS_ZOMBIE :: int where "STATUS_ZOMBIE \<equiv> 8"
abbreviation (input) STATUS_SNEAKED :: int where "STATUS_SNEAKED \<equiv> 9"
abbreviation (input) STATUS_TRANSFORM_WAIT :: int where "STATUS_TRANSFORM_WAIT \<equiv> 10"
abbreviation (input) STATUS_TRANSFORMING :: int where "STATUS_TRANSFORMING \<equiv> 11"
abbreviation (input) STATUS_PLAYER_ACTION :: int where "STATUS_PLAYER_ACTION \<equiv> 12"
abbreviation (input) STATUS_WAIT_GOLEM :: int where "STATUS_WAIT_GOLEM \<equiv> 13"
abbreviation (input) STATUS_WG_ATTACKED :: int where "STATUS_WG_ATTACKED \<equiv> 14"
abbreviation (input) STATUS_GOLEM_ACTION :: int where "STATUS_GOLEM_ACTION \<equiv> 15"
abbreviation (input) STATUS_ESCAPE_WAIT :: int where "STATUS_ESCAPE_WAIT \<equiv> 16"
abbreviation (input) STATUS_MAX :: int where "STATUS_MAX \<equiv> 17"

abbreviation (input) EVENT_INIT :: int where "EVENT_INIT \<equiv> 0"
abbreviation (input) EVENT_SNEAKED :: int where "EVENT_SNEAKED \<equiv> 1"
abbreviation (input) EVENT_ACTION :: int where "EVENT_ACTION \<equiv> 2"
abbreviation (input) EVENT_ATTACKED :: int where "EVENT_ATTACKED \<equiv> 3"
abbreviation (input) EVENT_DYING :: int where "EVENT_DYING \<equiv> 4"
abbreviation (input) EVENT_ZOMBIE :: int where "EVENT_ZOMBIE \<equiv> 5"
abbreviation (input) EVENT_RELEASE :: int where "EVENT_RELEASE \<equiv> 6"
abbreviation (input) EVENT_ACTIVED :: int where "EVENT_ACTIVED \<equiv> 7"
abbreviation (input) EVENT_DEACTIVED :: int where "EVENT_DEACTIVED \<equiv> 8"
abbreviation (input) EVENT_POWER_FULL :: int where "EVENT_POWER_FULL \<equiv> 9"
abbreviation (input) EVENT_POWER_EMPTY :: int where "EVENT_POWER_EMPTY \<equiv> 10"
abbreviation (input) EVENT_REVIVE :: int where "EVENT_REVIVE \<equiv> 11"
abbreviation (input) EVENT_TIMEOUT :: int where "EVENT_TIMEOUT \<equiv> 12"
abbreviation (input) EVENT_TRANSFORM :: int where "EVENT_TRANSFORM \<equiv> 13"
abbreviation (input) EVENT_TRANSFORMING :: int where "EVENT_TRANSFORMING \<equiv> 14"
abbreviation (input) EVENT_PLAYER_ACTION :: int where "EVENT_PLAYER_ACTION \<equiv> 15"
abbreviation (input) EVENT_WAIT_GOLEM :: int where "EVENT_WAIT_GOLEM \<equiv> 16"
abbreviation (input) EVENT_GOLEM_ACTION :: int where "EVENT_GOLEM_ACTION \<equiv> 17"
abbreviation (input) EVENT_ESCAPE :: int where "EVENT_ESCAPE \<equiv> 18"

abbreviation (input) OPT_ACTION :: int where "OPT_ACTION \<equiv> 0"
abbreviation (input) OPT_ATTACKED :: int where "OPT_ATTACKED \<equiv> 1"
abbreviation (input) OPT_SELECT_SKILL :: int where "OPT_SELECT_SKILL \<equiv> 2"
abbreviation (input) OPT_PET_ATTACK :: int where "OPT_PET_ATTACK \<equiv> 3"
abbreviation (input) OPT_REVIVE :: int where "OPT_REVIVE \<equiv> 4"
abbreviation (input) OPT_RESURRECT :: int where "OPT_RESURRECT \<equiv> 5"
abbreviation (input) OPT_SUMMONED :: int where "OPT_SUMMONED \<equiv> 6"
abbreviation (input) OPT_TRANSFORM :: int where "OPT_TRANSFORM \<equiv> 7"
abbreviation (input) OPT_ESCAPE :: int where "OPT_ESCAPE \<equiv> 8"

text \<open>Rows \<open>(cur, event, next, accept_unit_set)\<close>.\<close>

definition unit_shift_table :: "(int \<times> int \<times> int \<times> string) list" where
  "unit_shift_table =
    [(STATUS_NULL, EVENT_INIT, STATUS_NORMAL, ''all,''),
     (STATUS_NORMAL, EVENT_ACTION, STATUS_ACTION, ''player, mob, boss, pet,''),
     (STATUS_NORMAL, EVENT_ATTACKED, STATUS_ATTACKED, ''player, mob, boss,''),
     (STATUS_ATTACKED, EVENT_ATTACKED, STATUS_ATTACKED, ''player, mob, boss,''),
     (STATUS_SNEAKED, EVENT_ATTACKED, STATUS_ATTACKED, ''player, mob, boss,''),
     (STATUS_ACTION, EVENT_TIMEOUT, STATUS_NORMAL, ''player, mob, boss, pet,''),
     (STATUS_ATTACKED, EVENT_TIMEOUT, STATUS_NORMAL, ''player, mob, boss,''),
     (STATUS_NORMAL, EVENT_DYING, STATUS_ZOMBIE_DYING, ''player,''),
     (STATUS_ATTACKED, EVENT_DYING, STATUS_ZOMBIE_DYING, ''player,''),
     (STATUS_ZOMBIE_DYING, EVENT_ATTACKED, STATUS_ZOMBIE_DYING, ''player,''),
     (STATUS_ZOMBIE_DYING, EVENT_TIMEOUT, STATUS_DYING, ''player,''),
     (STATUS_ZOMBIE_DYING, EVENT_REVIVE, STATUS_NORMAL, ''player,''),
     (STATUS_DYING, EVENT_ATTACKED, STATUS_DYING, ''player,''),
     (STATUS_DYING, EVENT_TIMEOUT, STATUS_DEAD, ''player,''),
     (STATUS_DYING, EVENT_REVIVE, STATUS_NORMAL, ''player,''),
     (STATUS_DEAD, EVENT_REVIVE, STATUS_NORMAL, ''player,''),
     (STATUS_NORMAL, EVENT_ZOMBIE, STATUS_ZOMBIE, ''player, mob, boss,''),
     (STATUS_ACTION, EVENT_ZOMBIE, STATUS_ZOMBIE, ''player, mob, boss,''),
     (STATUS_ATTACKED, EVENT_ZOMBIE, STATUS_ZOMBIE, ''player, mob, boss,''),
     (STATUS_SNEAKED, EVENT_ZOMBIE, STATUS_ZOMBIE, ''player, mob, boss,''),
     (STATUS_ZOMBIE, EVENT_TIMEOUT, STATUS_DEAD, ''player, mob, boss,''),
     (STATUS_NORMAL, EVENT_SNEAKED, STATUS_SNEAKED, ''player, mob, boss,''),
     (STATUS_SNEAKED, EVENT_TIMEOUT, STATUS_NORMAL, ''player, mob, boss,''),
     (STATUS_NORMAL, EVENT_PLAYER_ACTION, STATUS_PLAYER_ACTION, ''player,''),
     (STATUS_PLAYER_ACTION, EVENT_WAIT_GOLEM, STATUS_WAIT_GOLEM, ''player,''),
     (STATUS_WAIT_GOLEM, EVENT_GOLEM_ACTION, STATUS_GOLEM_ACTION, ''player,''),
     (STATUS_GOLEM_ACTION, EVENT_TIMEOUT, STATUS_ACTION, ''player,''),
     (STATUS_WAIT_GOLEM, EVENT_ATTACKED, STATUS_WG_ATTACKED, ''player,''),
     (STATUS_WG_ATTACKED, EVENT_ATTACKED, STATUS_WG_ATTACKED, ''player,''),
     (STATUS_WG_ATTACKED, EVENT_DYING, STATUS_ZOMBIE_DYING, ''player,''),
     (STATUS_WG_ATTACKED, EVENT_ZOMBIE, STATUS_ZOMBIE, ''player,''),
     (STATUS_WG_ATTACKED, EVENT_TIMEOUT, STATUS_WAIT_GOLEM, ''player,''),
     (STATUS_WAIT_GOLEM, EVENT_ZOMBIE, STATUS_ZOMBIE, ''player,''),
     (STATUS_ACTION, EVENT_TRANSFORM, STATUS_TRANSFORM_WAIT, ''mob,''),
     (STATUS_ATTACKED, EVENT_TRANSFORM, STATUS_TRANSFORM_WAIT, ''mob,''),
     (STATUS_NORMAL, EVENT_TRANSFORM, STATUS_TRANSFORM_WAIT, ''mob,''),
     (STATUS_TRANSFORM_WAIT, EVENT_TIMEOUT, STATUS_DEAD, ''mob,''),
     (STATUS_NORMAL, EVENT_TRANSFORMING, STATUS_TRANSFORMING, ''mob,''),
     (STATUS_TRANSFORMING, EVENT_TIMEOUT, STATUS_NORMAL, ''mob,''),
     (STATUS_NORMAL, EVENT_ACTION, STATUS_NORMAL, ''golem,''),
     (STATUS_SLEEP, EVENT_ACTIVED, STATUS_NORMAL, ''golem,''),
     (STATUS_NORMAL, EVENT_DEACTIVED, STATUS_SLEEP, ''golem,''),
     (STATUS_ACTION, EVENT_DEACTIVED, STATUS_SLEEP, ''golem,''),
     (STATUS_ZOMBIE, EVENT_DEACTIVED, STATUS_ZOMBIE, ''golem,''),
     (STATUS_NORMAL, EVENT_POWER_EMPTY, STATUS_ZOMBIE, ''golem,''),
     (STATUS_ACTION, EVENT_POWER_EMPTY, STATUS_ZOMBIE, ''golem,''),
     (STATUS_SLEEP, EVENT_POWER_FULL, STATUS_SLEEP, ''golem,''),
     (STATUS_ZOMBIE, EVENT_POWER_FULL, STATUS_SLEEP, ''golem,''),
     (STATUS_ACTION, EVENT_ESCAPE, STATUS_ESCAPE_WAIT, ''mob,''),
     (STATUS_ATTACKED, EVENT_ESCAPE, STATUS_ESCAPE_WAIT, ''mob,''),
     (STATUS_NORMAL, EVENT_ESCAPE, STATUS_ESCAPE_WAIT, ''mob,''),
     (STATUS_ESCAPE_WAIT, EVENT_TIMEOUT, STATUS_DEAD, ''mob,''),
     (STATUS_NORMAL, EVENT_RELEASE, STATUS_NULL, ''all,''),
     (STATUS_ACTION, EVENT_RELEASE, STATUS_NULL, ''all,''),
     (STATUS_ATTACKED, EVENT_RELEASE, STATUS_NULL, ''all,''),
     (STATUS_ZOMBIE_DYING, EVENT_RELEASE, STATUS_NULL, ''all,''),
     (STATUS_DYING, EVENT_RELEASE, STATUS_NULL, ''all,''),
     (STATUS_DEAD, EVENT_RELEASE, STATUS_NULL, ''all,''),
     (STATUS_SLEEP, EVENT_RELEASE, STATUS_NULL, ''all,''),
     (STATUS_ZOMBIE, EVENT_RELEASE, STATUS_NULL, ''all,''),
     (STATUS_SNEAKED, EVENT_RELEASE, STATUS_NULL, ''all,''),
     (STATUS_TRANSFORM_WAIT, EVENT_RELEASE, STATUS_NULL, ''all,''),
     (STATUS_TRANSFORMING, EVENT_RELEASE, STATUS_NULL, ''all,''),
     (STATUS_PLAYER_ACTION, EVENT_RELEASE, STATUS_NULL, ''all,''),
     (STATUS_WAIT_GOLEM, EVENT_RELEASE, STATUS_NULL, ''all,''),
     (STATUS_GOLEM_ACTION, EVENT_RELEASE, STATUS_NULL, ''all,''),
     (STATUS_ESCAPE_WAIT, EVENT_RELEASE, STATUS_NULL, ''all,'')]"

definition state_pool :: "xstate list" where
  "state_pool =
    [new_state STATUS_NULL [],
     new_state STATUS_NORMAL [OPT_SELECT_SKILL, OPT_ACTION, OPT_ATTACKED, OPT_PET_ATTACK, OPT_TRANSFORM, OPT_ESCAPE],
     new_state STATUS_ACTION [OPT_SELECT_SKILL, OPT_PET_ATTACK, OPT_TRANSFORM, OPT_ESCAPE],
     new_state STATUS_ATTACKED [OPT_SELECT_SKILL, OPT_ATTACKED, OPT_PET_ATTACK, OPT_TRANSFORM, OPT_ESCAPE],
     new_state STATUS_ZOMBIE_DYING [OPT_ATTACKED],
     new_state STATUS_DYING [OPT_ATTACKED],
     new_state STATUS_DEAD [],
     new_state STATUS_SLEEP [OPT_SUMMONED],
     new_state STATUS_ZOMBIE [],
     new_state STATUS_SNEAKED [OPT_SELECT_SKILL, OPT_ATTACKED, OPT_PET_ATTACK],
     new_state STATUS_TRANSFORM_WAIT [],
     new_state STATUS_TRANSFORMING [],
     new_state STATUS_PLAYER_ACTION [OPT_SELECT_SKILL],
     new_state STATUS_WAIT_GOLEM [OPT_SELECT_SKILL, OPT_ATTACKED],
     new_state STATUS_WG_ATTACKED [OPT_SELECT_SKILL, OPT_ATTACKED],
     new_state STATUS_GOLEM_ACTION [OPT_SELECT_SKILL],
     new_state STATUS_ESCAPE_WAIT []]"

text \<open>\<open>TransUnitList\<close>: the types whose names occur in a string.\<close>

fun str_find :: "string \<Rightarrow> string \<Rightarrow> bool" where
  "str_find sub [] = (sub = [])"
| "str_find sub (c # s) = (take (length sub) (c # s) = sub \<or> str_find sub s)"

definition TransUnitList :: "string \<Rightarrow> int list res" where
  "TransUnitList buf =
     (let list = (if str_find ''player'' buf then [UT_PLAYER] else []) @ (if str_find ''mob'' buf then [UT_MOB] else []) @
        (if str_find ''pet'' buf then [UT_PET] else []) @ (if str_find ''golem'' buf then [UT_GOLEM] else []) @
        (if str_find ''boss'' buf then [UT_BOSS] else []) @
        (if str_find ''all'' buf then [UT_PLAYER, UT_MOB, UT_PET, UT_GOLEM, UT_TEAM_NPC, UT_BOSS] else [])
      in assertx (list \<noteq> []) (Inr list))"

text \<open>The key of a record; nested maps, whose \<open>operator[]\<close> gives an empty map for a missing key.\<close>

definition MAKE_KEY :: "int \<Rightarrow> int \<Rightarrow> int \<Rightarrow> int" where
  "MAKE_KEY cur nxt event = push_bit 16 cur OR push_bit 8 nxt OR event"

type_synonym event_map = "(int \<times> int) list"
type_synonym unit_table = "(int \<times> (int \<times> event_map) list) list"

record shift_record =
  event :: int
  cur :: int
  nxt :: int
  shift_times :: int

type_synonym record_map = "(int \<times> (int \<times> shift_record) list) list"

definition at_key :: "('k \<times> 'v list) list \<Rightarrow> 'k \<Rightarrow> 'v list" where
  "at_key m k = (case map_of m k of None \<Rightarrow> [] | Some v \<Rightarrow> v)"

definition add_shift :: "int \<Rightarrow> int \<Rightarrow> int \<Rightarrow> int \<Rightarrow> unit_table \<Rightarrow> unit_table" where
  "add_shift ut c e n t =
     smap_put ut (smap_put c (smap_put e n (at_key (at_key t ut) c)) (at_key t ut)) t"

fun fill_table :: "(int \<times> int \<times> int \<times> string) list \<Rightarrow> unit_table \<Rightarrow> unit_table res" where
  "fill_table [] t = Inr t"
| "fill_table ((c, e, n, accept_unit_set) # rows) t = bindr (TransUnitList accept_unit_set) (\<lambda>list.
     fill_table rows (foldl (\<lambda>t ut. add_shift ut c e n t) t list))"

fun record_events :: "int \<Rightarrow> event_map \<Rightarrow> (int \<times> shift_record) list \<Rightarrow> (int \<times> shift_record) list res" where
  "record_events c [] rm = Inr rm"
| "record_events c ((e, n) # es) rm = assertx (map_of rm (MAKE_KEY c n e) = None)
     (record_events c es (smap_put (MAKE_KEY c n e) \<lparr>event = e, cur = c, nxt = n, shift_times = 0\<rparr> rm))"

fun record_states :: "(int \<times> event_map) list \<Rightarrow> (int \<times> shift_record) list \<Rightarrow> (int \<times> shift_record) list res" where
  "record_states [] rm = Inr rm"
| "record_states ((c, es) # cs) rm = bindr (record_events c es rm) (record_states cs)"

fun record_types :: "unit_table \<Rightarrow> record_map \<Rightarrow> record_map res" where
  "record_types [] g = Inr g"
| "record_types ((ut, cs) # uts) g = bindr (record_states cs (at_key g ut)) (\<lambda>rm. record_types uts (smap_put ut rm g))"

definition InitStateTable :: "(unit_table \<times> record_map) res" where
  "InitStateTable = bindr (fill_table unit_shift_table []) (\<lambda>t. bindr (record_types t []) (\<lambda>g. Inr (t, g)))"

definition state_table :: unit_table where
  "state_table = (case InitStateTable of Inr (t, g) \<Rightarrow> t | Inl _ \<Rightarrow> [])"

definition first_records :: record_map where
  "first_records = (case InitStateTable of Inr (t, g) \<Rightarrow> g | Inl _ \<Rightarrow> [])"

section \<open>The machine of one unit\<close>

text \<open>A time in milliseconds becomes heartbeats, rounded up from 21 ms on; a negative one changes nothing.\<close>

definition State_SetTimeOut :: "int \<Rightarrow> xstate \<Rightarrow> xstate" where
  "State_SetTimeOut time s =
     (if time < 0 then s else s\<lparr>timeout := time div 100 + (if time mod 100 > 20 then 1 else 0)\<rparr>)"

record ustate =
  state :: xstate
  unit_type :: int
  records :: record_map

definition RecordStateShift :: "int \<Rightarrow> int \<Rightarrow> int \<Rightarrow> int \<Rightarrow> record_map \<Rightarrow> record_map res" where
  "RecordStateShift ut c n e g =
     (let rm = at_key g ut in
      case map_of rm (MAKE_KEY c n e) of
        None \<Rightarrow> Inl AssertFail
      | Some r \<Rightarrow> Inr (smap_put ut (smap_put (MAKE_KEY c n e) (r\<lparr>shift_times := shift_times r + 1\<rparr>) rm) g))"

definition UnitState_Update :: "int \<Rightarrow> int \<Rightarrow> ustate \<Rightarrow> ustate res" where
  "UnitState_Update e time s =
     (case map_of (at_key (at_key state_table (unit_type s)) (status (state s))) e of
        None \<Rightarrow> Inl AssertFail
      | Some n \<Rightarrow>
          bindr (RecordStateShift (unit_type s) (status (state s)) (status (state_pool ! nat n)) e (records s)) (\<lambda>g.
            Inr (s\<lparr>state := State_SetTimeOut time (state_pool ! nat n), records := g\<rparr>)))"

definition UnitState_new :: "record_map \<Rightarrow> ustate" where
  "UnitState_new g = \<lparr>state = state_pool ! 0, unit_type = UT_INVALID, records = g\<rparr>"

definition UnitState_Init :: "int \<Rightarrow> ustate \<Rightarrow> ustate res" where
  "UnitState_Init ut s = UnitState_Update EVENT_INIT (- 1) (s\<lparr>unit_type := ut\<rparr>)"

definition UnitState_Clear :: "ustate \<Rightarrow> ustate res" where
  "UnitState_Clear s = bindr (UnitState_Update EVENT_RELEASE (- 1) s) (\<lambda>s. Inr (s\<lparr>unit_type := UT_INVALID\<rparr>))"

section \<open>The table is the list of rows\<close>

lemma map_of_smap_put_any: "map_of (smap_put k v m) x = (if x = k then Some v else map_of m x)"
proof -
  have "map_of (insort_key fst (k, v) xs) x = (if x = k then Some v else map_of xs x)" if "k \<notin> fst ` set xs" for xs
    using that by (induction xs) auto
  moreover have "k \<notin> fst ` set (smap_erase k m)" by (auto simp: set_sset_erase)
  ultimately have "map_of (smap_put k v m) x = (if x = k then Some v else map_of (smap_erase k m) x)" by (simp only: smap_put_def)
  then show ?thesis by simp
qed

lemma at_key_put [simp]: "at_key (smap_put k v m) x = (if x = k then v else at_key m x)"
  by (simp add: at_key_def map_of_smap_put_any)

text \<open>\<open>accepts ut\<close> are the rows for a type, without the types.\<close>

definition accepts :: "int \<Rightarrow> (int \<times> int \<times> int \<times> string) list \<Rightarrow> (int \<times> int \<times> int) list" where
  "accepts ut rows = map (\<lambda>(c, e, n, a). (c, e, n)) (filter (\<lambda>(c, e, n, a). case TransUnitList a of Inl _ \<Rightarrow> False | Inr uts \<Rightarrow> ut \<in> set uts) rows)"

definition next_of :: "unit_table \<Rightarrow> int \<Rightarrow> int \<Rightarrow> int \<Rightarrow> int option" where
  "next_of t ut c e = map_of (at_key (at_key t ut) c) e"

lemma next_of_add: "next_of (add_shift ut c e n t) ut' c' e' = (if ut' = ut \<and> c' = c \<and> e' = e then Some n else next_of t ut' c' e')"
  by (simp add: next_of_def add_shift_def map_of_smap_put_any)

lemma next_of_adds:
  "next_of (foldl (\<lambda>t ut. add_shift ut c e n t) t uts) ut' c' e' = (if ut' \<in> set uts \<and> c' = c \<and> e' = e then Some n else next_of t ut' c' e')"
  by (induction uts arbitrary: t) (auto simp: next_of_add)

lemma fill_table_next:
  "fill_table rows t = Inr t' \<Longrightarrow> deterministic (accepts ut rows) \<Longrightarrow>
   next_of t' ut c e = (case row_of (accepts ut rows) e c of Some n \<Rightarrow> Some n | None \<Rightarrow> next_of t ut c e)"
proof (induction rows t rule: fill_table.induct)
  case (1 t)
  then show ?case by (simp add: accepts_def row_of_def)
next
  case (2 c0 e0 n0 a rows t)
  obtain uts where u: "TransUnitList a = Inr uts" "fill_table rows (foldl (\<lambda>t ut. add_shift ut c0 e0 n0 t) t uts) = Inr t'"
    using "2.prems"(1) by (auto simp: bindr_Inr_iff)
  let ?t1 = "foldl (\<lambda>t ut. add_shift ut c0 e0 n0 t) t uts"
  show ?case
  proof (cases "ut \<in> set uts")
    case True
    then have a: "accepts ut ((c0, e0, n0, a) # rows) = (c0, e0, n0) # accepts ut rows" using u(1) by (simp add: accepts_def)
    have d: "deterministic (accepts ut rows)" using "2.prems"(2) by (simp add: a deterministic_def)
    have f: "row_of (accepts ut rows) e0 c0 = None"
      using "2.prems"(2) by (force simp: a deterministic_def row_of_def map_of_eq_None_iff)
    show ?thesis using "2.IH" [OF u(1,2) d] True f by (auto simp: a row_of_Cons next_of_adds split: option.splits)
  next
    case False
    then have a: "accepts ut ((c0, e0, n0, a) # rows) = accepts ut rows" using u(1) by (simp add: accepts_def)
    show ?thesis using "2.IH" [OF u] "2.prems"(2) False by (simp add: a next_of_adds split: option.splits)
  qed
qed

text \<open>The eight sets of types that occur in the table.\<close>

lemma TransUnitList_simps:
  "TransUnitList ''all,'' = Inr [1, 2, 3, 4, 5, 6]"
  "TransUnitList ''player, mob, boss, pet,'' = Inr [1, 2, 3, 6]"
  "TransUnitList ''player, mob, boss,'' = Inr [1, 2, 6]"
  "TransUnitList ''player,'' = Inr [1]"
  "TransUnitList ''mob,'' = Inr [2]"
  "TransUnitList ''golem,'' = Inr [4]"
  by (simp_all add: TransUnitList_def)

definition unit_types :: "int list" where "unit_types = [1, 2, 3, 4, 5, 6]"

lemma accepts_rows:
  "accepts 1 unit_shift_table = [(0, 0, 1), (1, 2, 2), (1, 3, 3), (3, 3, 3), (9, 3, 3), (2, 12, 1), (3, 12, 1), (1, 4, 4), (3, 4, 4), (4, 3, 4), (4, 12, 5), (4, 11, 1), (5,
    3, 5), (5, 12, 6), (5, 11, 1), (6, 11, 1), (1, 5, 8), (2, 5, 8), (3, 5, 8), (9, 5, 8), (8, 12, 6), (1, 1, 9), (9, 12, 1), (1, 15, 12), (12,
    16, 13), (13, 17, 15), (15, 12, 2), (13, 3, 14), (14, 3, 14), (14, 4, 4), (14, 5, 8), (14, 12, 13), (13, 5, 8), (1, 6, 0), (2, 6, 0), (3, 6,
    0), (4, 6, 0), (5, 6, 0), (6, 6, 0), (7, 6, 0), (8, 6, 0), (9, 6, 0), (10, 6, 0), (11, 6, 0), (12, 6, 0), (13, 6, 0), (15, 6, 0), (16, 6, 0)]"
  "accepts 2 unit_shift_table = [(0, 0, 1), (1, 2, 2), (1, 3, 3), (3, 3, 3), (9, 3, 3), (2, 12, 1), (3, 12, 1), (1, 5, 8), (2, 5, 8), (3, 5, 8), (9, 5, 8), (8, 12, 6), (1,
    1, 9), (9, 12, 1), (2, 13, 10), (3, 13, 10), (1, 13, 10), (10, 12, 6), (1, 14, 11), (11, 12, 1), (2, 18, 16), (3, 18, 16), (1, 18, 16), (16,
    12, 6), (1, 6, 0), (2, 6, 0), (3, 6, 0), (4, 6, 0), (5, 6, 0), (6, 6, 0), (7, 6, 0), (8, 6, 0), (9, 6, 0), (10, 6, 0), (11, 6, 0), (12, 6,
    0), (13, 6, 0), (15, 6, 0), (16, 6, 0)]"
  "accepts 3 unit_shift_table = [(0, 0, 1), (1, 2, 2), (2, 12, 1), (1, 6, 0), (2, 6, 0), (3, 6, 0), (4, 6, 0), (5, 6, 0), (6, 6, 0), (7, 6, 0), (8, 6, 0), (9, 6, 0), (10, 6,
    0), (11, 6, 0), (12, 6, 0), (13, 6, 0), (15, 6, 0), (16, 6, 0)]"
  "accepts 4 unit_shift_table = [(0, 0, 1), (1, 2, 1), (7, 7, 1), (1, 8, 7), (2, 8, 7), (8, 8, 8), (1, 10, 8), (2, 10, 8), (7, 9, 7), (8, 9, 7), (1, 6, 0), (2, 6, 0), (3, 6,
    0), (4, 6, 0), (5, 6, 0), (6, 6, 0), (7, 6, 0), (8, 6, 0), (9, 6, 0), (10, 6, 0), (11, 6, 0), (12, 6, 0), (13, 6, 0), (15, 6, 0), (16, 6, 0)]"
  "accepts 5 unit_shift_table = [(0, 0, 1), (1, 6, 0), (2, 6, 0), (3, 6, 0), (4, 6, 0), (5, 6, 0), (6, 6, 0), (7, 6, 0), (8, 6, 0), (9, 6, 0), (10, 6, 0), (11, 6, 0), (12,
    6, 0), (13, 6, 0), (15, 6, 0), (16, 6, 0)]"
  "accepts 6 unit_shift_table = [(0, 0, 1), (1, 2, 2), (1, 3, 3), (3, 3, 3), (9, 3, 3), (2, 12, 1), (3, 12, 1), (1, 5, 8), (2, 5, 8), (3, 5, 8), (9, 5, 8), (8, 12, 6), (1,
    1, 9), (9, 12, 1), (1, 6, 0), (2, 6, 0), (3, 6, 0), (4, 6, 0), (5, 6, 0), (6, 6, 0), (7, 6, 0), (8, 6, 0), (9, 6, 0), (10, 6, 0), (11, 6,
    0), (12, 6, 0), (13, 6, 0), (15, 6, 0), (16, 6, 0)]"
  by (simp_all add: accepts_def unit_shift_table_def TransUnitList_simps)

lemma accepts_none:
  assumes "ut \<notin> set unit_types"
  shows "accepts ut unit_shift_table = []"
proof -
  have "ut \<notin> set uts" if "(c, e, n, a) \<in> set unit_shift_table" "TransUnitList a = Inr uts" for c e n a uts
  proof -
    have "list_all (\<lambda>(c, e, n, a). case TransUnitList a of Inl _ \<Rightarrow> True | Inr uts \<Rightarrow> set uts \<subseteq> {1, 2, 3, 4, 5, 6}) unit_shift_table"
      by (simp add: unit_shift_table_def TransUnitList_simps)
    then have "case (c, e, n, a) of (c, e, n, a) \<Rightarrow> case TransUnitList a of Inl _ \<Rightarrow> True | Inr uts \<Rightarrow> set uts \<subseteq> {1, 2, 3, 4, 5, 6}"
      using that(1) unfolding list_all_iff by (rule bspec)
    then have "set uts \<subseteq> {1, 2, 3, 4, 5, 6}" using that(2) by simp
    then show ?thesis using assms by (auto simp: unit_types_def)
  qed
  then have "\<not> (case r of (c, e, n, a) \<Rightarrow> case TransUnitList a of Inl _ \<Rightarrow> False | Inr uts \<Rightarrow> ut \<in> set uts)" if "r \<in> set unit_shift_table" for r
    using that by (cases r; cases "TransUnitList (snd (snd (snd r)))") auto
  then show ?thesis unfolding accepts_def by (simp add: filter_empty_conv)
qed

lemma accepts_deterministic: "deterministic (accepts ut unit_shift_table)"
proof (cases "ut \<in> set unit_types")
  case True
  then consider "ut = 1" | "ut = 2" | "ut = 3" | "ut = 4" | "ut = 5" | "ut = 6" by (auto simp: unit_types_def)
  then show ?thesis by cases (simp_all add: deterministic_def accepts_rows)
qed (simp add: accepts_none deterministic_def)

lemma fill_table_ok: "list_all (\<lambda>(c, e, n, a). \<exists>uts. TransUnitList a = Inr uts) rows \<Longrightarrow> \<exists>t'. fill_table rows t = Inr t'"
  by (induction rows t rule: fill_table.induct) auto

section \<open>The records\<close>

text \<open>Status and event fit into a byte each, so that a key determines them.\<close>

definition byte :: "int \<Rightarrow> bool" where "byte x \<longleftrightarrow> 0 \<le> x \<and> x < 256"

lemma or_byte: "byte b \<Longrightarrow> push_bit 8 a OR b = a * 256 + b"
proof -
  assume b: "byte b"
  have t: "take_bit 8 b = b" using b by (simp add: byte_def take_bit_int_eq_self)
  have "push_bit 8 a AND take_bit 8 b = 0" by (auto simp: bit_eq_iff bit_simps)
  then have "push_bit 8 a + b = push_bit 8 a OR b" using disjunctive_add_eq_or [of "push_bit 8 a" "take_bit 8 b"] t by simp
  then show ?thesis by (simp add: push_bit_eq_mult)
qed

lemma MAKE_KEY_eq: "byte n \<Longrightarrow> byte e \<Longrightarrow> MAKE_KEY c n e = (c * 256 + n) * 256 + e"
proof -
  assume b: "byte n" "byte e"
  have "push_bit 16 c OR push_bit 8 n = push_bit 8 (push_bit 8 c OR n)"
    by (rule bit_eqI) (auto simp: bit_simps)
  then have "MAKE_KEY c n e = push_bit 8 (push_bit 8 c OR n) OR e" by (simp only: MAKE_KEY_def or.assoc [symmetric])
  then show ?thesis by (simp only: or_byte [OF b(1)] or_byte [OF b(2)])
qed

lemma shift_key_inj:
  assumes "byte n" "byte e" "byte n'" "byte e'" "MAKE_KEY c n e = MAKE_KEY c' n' e'"
  shows "c = c' \<and> n = n' \<and> e = e'"
proof -
  have k: "(c * 256 + n) * 256 + e = (c' * 256 + n') * 256 + e'" using assms MAKE_KEY_eq by simp
  have low: "(a * 256 + b) mod 256 = b" "(a * 256 + b) div 256 = a" if "byte b" for a b using that by (simp_all add: byte_def)
  have "e = e'" using k low(1) [OF assms(2)] low(1) [OF assms(4)] by metis
  moreover have cn: "c * 256 + n = c' * 256 + n'" using k low(2) [OF assms(2)] low(2) [OF assms(4)] by metis
  then have "n = n'" using low(1) [OF assms(1)] low(1) [OF assms(3)] by metis
  moreover have "c = c'" using cn low(2) [OF assms(1)] low(2) [OF assms(3)] by metis
  ultimately show ?thesis by blast
qed

text \<open>What the loops over the table rely on.\<close>

definition events_ok :: "event_map \<Rightarrow> bool" where
  "events_ok es \<longleftrightarrow> distinct (map fst es) \<and> (\<forall>(e, n) \<in> set es. byte e \<and> byte n)"

definition states_ok :: "(int \<times> event_map) list \<Rightarrow> bool" where
  "states_ok cs \<longleftrightarrow> distinct (map fst cs) \<and> (\<forall>(c, es) \<in> set cs. events_ok es)"

definition table_ok :: "unit_table \<Rightarrow> bool" where
  "table_ok t \<longleftrightarrow> distinct (map fst t) \<and> (\<forall>(ut, cs) \<in> set t. states_ok cs)"

lemma distinct_smap_put: "distinct (map fst m) \<Longrightarrow> distinct (map fst (smap_put k v m))"
proof -
  assume d: "distinct (map fst m)"
  have "distinct (map fst (insort_key fst (k, v) xs))" if "k \<notin> fst ` set xs" "distinct (map fst xs)" for xs
    using that by (induction xs) (auto simp: set_insort_key)
  moreover have "k \<notin> fst ` set (smap_erase k m)" by (auto simp: set_sset_erase)
  moreover have "distinct (map fst (smap_erase k m))" using d by (induction m) (auto simp: sset_erase_def)
  ultimately show ?thesis by (simp only: smap_put_def)
qed

lemma at_key_in: "at_key m k = [] \<or> (k, at_key m k) \<in> set m"
  by (auto simp: at_key_def dest: map_of_SomeD split: option.splits)

lemma add_shift_ok:
  assumes "table_ok t" "byte e" "byte n"
  shows "table_ok (add_shift ut c e n t)"
proof -
  have "states_ok (at_key t ut)" using assms(1) at_key_in [of t ut] by (auto simp: table_ok_def states_ok_def)
  then have s: "states_ok (at_key t ut)" "events_ok (at_key (at_key t ut) c)"
    using at_key_in [of "at_key t ut" c] by (auto simp: states_ok_def events_ok_def)
  then have "events_ok (smap_put e n (at_key (at_key t ut) c))"
    using assms(2,3) by (auto simp: events_ok_def distinct_smap_put set_smap_put)
  then have "states_ok (smap_put c (smap_put e n (at_key (at_key t ut) c)) (at_key t ut))"
    using s(1) by (auto simp: states_ok_def distinct_smap_put set_smap_put)
  then show ?thesis using assms(1) by (auto simp: add_shift_def table_ok_def distinct_smap_put set_smap_put)
qed

lemma fill_table_table_ok:
  "fill_table rows t = Inr t' \<Longrightarrow> table_ok t \<Longrightarrow> list_all (\<lambda>(c, e, n, a). byte e \<and> byte n) rows \<Longrightarrow> table_ok t'"
proof (induction rows t rule: fill_table.induct)
  case (2 c e n a rows t)
  then obtain uts where u: "TransUnitList a = Inr uts" "fill_table rows (foldl (\<lambda>t ut. add_shift ut c e n t) t uts) = Inr t'"
    by (auto simp: bindr_Inr_iff)
  have b: "byte e" "byte n" using "2.prems"(3) by simp_all
  have "table_ok (foldl (\<lambda>t ut. add_shift ut c e n t) t uts)"
    using "2.prems"(2) by (induction uts arbitrary: t) (simp_all add: add_shift_ok [OF _ b])
  then show ?case using "2.IH" [OF u] "2.prems"(3) by simp
qed simp

lemma record_events_ok:
  "events_ok es \<Longrightarrow> \<forall>(e, n) \<in> set es. map_of rm (MAKE_KEY c n e) = None \<Longrightarrow>
   \<exists>rm'. record_events c es rm = Inr rm' \<and>
     (\<forall>k. map_of rm' k \<noteq> None \<longleftrightarrow> map_of rm k \<noteq> None \<or> (\<exists>(e, n) \<in> set es. k = MAKE_KEY c n e)) \<and>
     (\<forall>k r. map_of rm' k = Some r \<longrightarrow> map_of rm k = Some r \<or> shift_times r = 0)"
proof (induction c es rm rule: record_events.induct)
  case (2 c e n es rm)
  let ?rm = "smap_put (MAKE_KEY c n e) \<lparr>event = e, cur = c, nxt = n, shift_times = 0\<rparr> rm"
  have eo: "events_ok es" "byte e" "byte n" "e \<notin> fst ` set es" using "2.prems"(1) by (auto simp: events_ok_def)
  have "map_of ?rm (MAKE_KEY c n' e') = None" if "(e', n') \<in> set es" for e' n'
  proof -
    have "e' \<in> fst ` set es" using that by (rule rev_image_eqI) simp
    then have "byte e'" "byte n'" "e' \<noteq> e" using eo that by (auto simp: events_ok_def)
    then have "MAKE_KEY c n' e' \<noteq> MAKE_KEY c n e" using shift_key_inj eo(2,3) by blast
    then show ?thesis using "2.prems"(2) that by (auto simp: map_of_smap_put_any)
  qed
  then obtain rm' where r: "record_events c es ?rm = Inr rm'"
     "\<forall>k. map_of rm' k \<noteq> None \<longleftrightarrow> map_of ?rm k \<noteq> None \<or> (\<exists>(e, n) \<in> set es. k = MAKE_KEY c n e)"
     "\<forall>k r. map_of rm' k = Some r \<longrightarrow> map_of ?rm k = Some r \<or> shift_times r = 0"
    using "2.IH" [OF eo(1)] by blast
  have "map_of rm (MAKE_KEY c n e) = None" using "2.prems"(2) by simp
  then have e: "record_events c ((e, n) # es) rm = Inr rm'" using r(1) by simp
  show ?case
  proof (intro exI [of _ rm'] conjI allI impI e)
    show "map_of rm' k \<noteq> None \<longleftrightarrow> map_of rm k \<noteq> None \<or> (\<exists>(e, n) \<in> set ((e, n) # es). k = MAKE_KEY c n e)" for k
      using r(2) [rule_format, of k] by (auto simp: map_of_smap_put_any)
    show "map_of rm k = Some r \<or> shift_times r = 0" if "map_of rm' k = Some r" for k r
      using r(3) [rule_format, OF that] by (auto simp: map_of_smap_put_any split: if_splits)
  qed
qed simp

lemma record_states_ok:
  "states_ok cs \<Longrightarrow> \<forall>(c, es) \<in> set cs. \<forall>n e. byte n \<and> byte e \<longrightarrow> map_of rm (MAKE_KEY c n e) = None \<Longrightarrow>
   \<exists>rm'. record_states cs rm = Inr rm' \<and>
     (\<forall>k. map_of rm' k \<noteq> None \<longleftrightarrow> map_of rm k \<noteq> None \<or> (\<exists>(c, es) \<in> set cs. \<exists>(e, n) \<in> set es. k = MAKE_KEY c n e)) \<and>
     (\<forall>k r. map_of rm' k = Some r \<longrightarrow> map_of rm k = Some r \<or> shift_times r = 0)"
proof (induction cs rm rule: record_states.induct)
  case (2 c es cs rm)
  have eo: "events_ok es" "states_ok cs" "c \<notin> fst ` set cs" using "2.prems"(1) by (auto simp: states_ok_def)
  have "\<forall>(e, n) \<in> set es. map_of rm (MAKE_KEY c n e) = None" using "2.prems"(2) eo(1) by (auto simp: events_ok_def)
  then obtain rm1 where r1: "record_events c es rm = Inr rm1"
     "\<forall>k. map_of rm1 k \<noteq> None \<longleftrightarrow> map_of rm k \<noteq> None \<or> (\<exists>(e, n) \<in> set es. k = MAKE_KEY c n e)"
     "\<forall>k r. map_of rm1 k = Some r \<longrightarrow> map_of rm k = Some r \<or> shift_times r = 0"
    using record_events_ok [OF eo(1)] by blast
  have "map_of rm1 (MAKE_KEY c' n' e') = None" if "(c', es') \<in> set cs" "byte n'" "byte e'" for c' es' n' e'
  proof -
    have "c' \<in> fst ` set cs" using that(1) by (rule rev_image_eqI) simp
    then have "c' \<noteq> c" using eo(3) by blast
    then have "MAKE_KEY c' n' e' \<noteq> MAKE_KEY c n e" if "(e, n) \<in> set es" for e n
    proof -
      have "byte n" "byte e" using that eo(1) by (auto simp: events_ok_def)
      then show ?thesis using shift_key_inj [OF \<open>byte n'\<close> \<open>byte e'\<close>] \<open>c' \<noteq> c\<close> by blast
    qed
    moreover have "map_of rm (MAKE_KEY c' n' e') = None" using "2.prems"(2) that by auto
    ultimately show ?thesis using r1(2) [rule_format, of "MAKE_KEY c' n' e'"] by auto
  qed
  then have "\<forall>(c, es) \<in> set cs. \<forall>n e. byte n \<and> byte e \<longrightarrow> map_of rm1 (MAKE_KEY c n e) = None" by auto
  then obtain rm' where r: "record_states cs rm1 = Inr rm'"
     "\<forall>k. map_of rm' k \<noteq> None \<longleftrightarrow> map_of rm1 k \<noteq> None \<or> (\<exists>(c, es) \<in> set cs. \<exists>(e, n) \<in> set es. k = MAKE_KEY c n e)"
     "\<forall>k r. map_of rm' k = Some r \<longrightarrow> map_of rm1 k = Some r \<or> shift_times r = 0"
    using "2.IH" [OF r1(1) eo(2)] by blast
  have "record_states ((c, es) # cs) rm = Inr rm'" using r1(1) r(1) by simp
  moreover have "map_of rm' k \<noteq> None \<longleftrightarrow> map_of rm k \<noteq> None \<or> (\<exists>(c, es) \<in> set ((c, es) # cs). \<exists>(e, n) \<in> set es. k = MAKE_KEY c n e)" for k
    using r(2) [rule_format, of k] r1(2) [rule_format, of k] by auto
  moreover have "map_of rm k = Some x \<or> shift_times x = 0" if "map_of rm' k = Some x" for k x
    using r(3) [rule_format, OF that] r1(3) by blast
  ultimately show ?case by blast
qed simp

lemma record_types_ok:
  "table_ok t \<Longrightarrow> \<forall>(ut, cs) \<in> set t. at_key g ut = [] \<Longrightarrow>
   \<exists>g'. record_types t g = Inr g' \<and>
     (\<forall>ut. (case map_of t ut of None \<Rightarrow> at_key g' ut = at_key g ut | Some cs \<Rightarrow>
        (\<forall>k. map_of (at_key g' ut) k \<noteq> None \<longleftrightarrow> (\<exists>(c, es) \<in> set cs. \<exists>(e, n) \<in> set es. k = MAKE_KEY c n e)) \<and>
        (\<forall>k r. map_of (at_key g' ut) k = Some r \<longrightarrow> shift_times r = 0)))"
proof (induction t g rule: record_types.induct)
  case (2 ut cs uts g)
  have eo: "states_ok cs" "table_ok uts" "ut \<notin> fst ` set uts" using "2.prems"(1) by (auto simp: table_ok_def)
  have g0: "at_key g ut = []" using "2.prems"(2) by simp
  obtain rm where rm: "record_states cs [] = Inr rm"
     "\<forall>k. map_of rm k \<noteq> None \<longleftrightarrow> (\<exists>(c, es) \<in> set cs. \<exists>(e, n) \<in> set es. k = MAKE_KEY c n e)"
     "\<forall>k r. map_of rm k = Some r \<longrightarrow> shift_times r = 0"
    using record_states_ok [OF eo(1), of "[]"] by auto
  have "\<forall>(ut', cs) \<in> set uts. at_key (smap_put ut rm g) ut' = []" using "2.prems"(2) eo(3) by force
  then obtain g' where g': "record_types uts (smap_put ut rm g) = Inr g'"
     "\<forall>ut'. (case map_of uts ut' of None \<Rightarrow> at_key g' ut' = at_key (smap_put ut rm g) ut' | Some cs \<Rightarrow>
        (\<forall>k. map_of (at_key g' ut') k \<noteq> None \<longleftrightarrow> (\<exists>(c, es) \<in> set cs. \<exists>(e, n) \<in> set es. k = MAKE_KEY c n e)) \<and>
        (\<forall>k r. map_of (at_key g' ut') k = Some r \<longrightarrow> shift_times r = 0))"
    using "2.IH" [OF _ eo(2), of rm] rm(1) g0 by auto
  have n: "map_of uts ut = None" using eo(3) by (simp add: map_of_eq_None_iff)
  show ?case
  proof (intro exI [of _ g'] conjI allI)
    show "record_types ((ut, cs) # uts) g = Inr g'" using rm(1) g0 g'(1) by simp
    fix ut'
    show "case map_of ((ut, cs) # uts) ut' of None \<Rightarrow> at_key g' ut' = at_key g ut' | Some cs \<Rightarrow>
        (\<forall>k. map_of (at_key g' ut') k \<noteq> None \<longleftrightarrow> (\<exists>(c, es) \<in> set cs. \<exists>(e, n) \<in> set es. k = MAKE_KEY c n e)) \<and>
        (\<forall>k r. map_of (at_key g' ut') k = Some r \<longrightarrow> shift_times r = 0)"
      using g'(2) [rule_format, of ut'] rm(2,3) n by (cases "ut' = ut") (auto split: option.splits)
  qed
qed simp

lemma InitStateTable_ok:
  "InitStateTable = Inr (state_table, first_records)"
  "next_of state_table ut c e = row_of (accepts ut unit_shift_table) e c"
  "next_of state_table ut c e = Some n \<Longrightarrow> \<exists>r. map_of (at_key first_records ut) (MAKE_KEY c n e) = Some r \<and> shift_times r = 0"
  "next_of state_table ut c e = Some n \<Longrightarrow> byte e \<and> byte n"
proof -
  have "list_all (\<lambda>(c, e, n, a). \<exists>uts. TransUnitList a = Inr uts) unit_shift_table"
    by (simp add: unit_shift_table_def TransUnitList_simps)
  then obtain t where t: "fill_table unit_shift_table [] = Inr t" using fill_table_ok by blast
  have "list_all (\<lambda>(c, e, n, a). byte e \<and> byte n) unit_shift_table" by (simp add: unit_shift_table_def byte_def)
  then have ok: "table_ok t" using fill_table_table_ok [OF t] by (simp add: table_ok_def)
  obtain g where g: "record_types t [] = Inr g"
     "\<forall>ut. (case map_of t ut of None \<Rightarrow> at_key g ut = [] | Some cs \<Rightarrow>
        (\<forall>k. map_of (at_key g ut) k \<noteq> None \<longleftrightarrow> (\<exists>(c, es) \<in> set cs. \<exists>(e, n) \<in> set es. k = MAKE_KEY c n e)) \<and>
        (\<forall>k r. map_of (at_key g ut) k = Some r \<longrightarrow> shift_times r = 0))"
  proof -
    have "at_key [] ut = ([] :: (int \<times> shift_record) list)" for ut :: int by (simp add: at_key_def)
    then show ?thesis using that record_types_ok [OF ok, of "[]"] by (simp cong: option.case_cong) blast
  qed
  have i: "InitStateTable = Inr (t, g)" using t g(1) by (simp add: InitStateTable_def)
  have tg: "state_table = t" "first_records = g" unfolding state_table_def first_records_def i by simp_all
  show "InitStateTable = Inr (state_table, first_records)" using i tg by simp
  show "next_of state_table ut c e = row_of (accepts ut unit_shift_table) e c"
    using fill_table_next [OF t accepts_deterministic, of ut c e] by (simp add: tg next_of_def at_key_def split: option.splits)
  assume n: "next_of state_table ut c e = Some n"
  then have m: "map_of (at_key (at_key t ut) c) e = Some n" by (simp add: next_of_def tg)
  then have ne: "at_key (at_key t ut) c \<noteq> []" "at_key t ut \<noteq> []" by (auto simp: at_key_def)
  then have c1: "(c, at_key (at_key t ut) c) \<in> set (at_key t ut)" "(ut, at_key t ut) \<in> set t" using at_key_in by fastforce+
  have e1: "(e, n) \<in> set (at_key (at_key t ut) c)" using m by (rule map_of_SomeD)
  have cs: "map_of t ut = Some (at_key t ut)" using ne(2) by (simp add: at_key_def split: option.splits)
  have gu: "map_of (at_key g ut) k \<noteq> None \<longleftrightarrow> (\<exists>(c, es) \<in> set (at_key t ut). \<exists>(e, n) \<in> set es. k = MAKE_KEY c n e)"
    "map_of (at_key g ut) k = Some r \<Longrightarrow> shift_times r = 0" for k r using g(2) [rule_format, of ut] cs by simp_all
  have "map_of (at_key g ut) (MAKE_KEY c n e) \<noteq> None" unfolding gu(1) using c1(1) e1 by fast
  then show "\<exists>r. map_of (at_key first_records ut) (MAKE_KEY c n e) = Some r \<and> shift_times r = 0" using gu(2) by (auto simp: tg)
  show "byte e \<and> byte n" using ok c1 e1 by (fastforce simp: table_ok_def states_ok_def events_ok_def)
qed

section \<open>Runs of the machine\<close>

text \<open>What the records of a game server say, at any time.\<close>

definition records_ok :: "record_map \<Rightarrow> bool" where
  "records_ok g \<longleftrightarrow> (\<forall>ut c e n. next_of state_table ut c e = Some n \<longrightarrow> map_of (at_key g ut) (MAKE_KEY c n e) \<noteq> None)"

definition taken :: "record_map \<Rightarrow> int \<Rightarrow> int \<times> int \<times> int \<Rightarrow> int" where
  "taken g ut x = (case x of (c, n, e) \<Rightarrow> case map_of (at_key g ut) (MAKE_KEY c n e) of None \<Rightarrow> 0 | Some r \<Rightarrow> shift_times r)"

text \<open>The states that a unit of a type can be in.\<close>

definition reach :: "int \<Rightarrow> int list" where
  "reach ut =
     (if ut = UT_PLAYER then [0, 1, 2, 3, 4, 5, 6, 8, 9, 12, 13, 14, 15]
      else if ut = UT_MOB then [0, 1, 2, 3, 6, 8, 9, 10, 11, 16]
      else if ut = UT_PET then [0, 1, 2]
      else if ut = UT_GOLEM then [0, 1, 7, 8]
      else if ut = UT_BOSS then [0, 1, 2, 3, 6, 8, 9]
      else [0, 1])"

lemma row_of_list_all: "row_of rows e c = Some n \<Longrightarrow> list_all P rows \<Longrightarrow> P (c, e, n)"
proof -
  assume r: "row_of rows e c = Some n" and "list_all P rows"
  from r have "((e, c), n) \<in> set (map (\<lambda>(c, e, n). ((e, c), n)) rows)" unfolding row_of_def by (rule map_of_SomeD)
  then have "(c, e, n) \<in> set rows" by auto
  then show "P (c, e, n)" using \<open>list_all P rows\<close> by (simp add: list_all_iff)
qed

lemma reach_next:
  assumes "next_of state_table ut c e = Some n" "c \<in> set (reach ut)"
  shows "n \<in> set (reach ut)"
proof -
  have r: "row_of (accepts ut unit_shift_table) e c = Some n" using assms(1) InitStateTable_ok(2) by simp
  have "list_all (\<lambda>(c, e, n). c \<in> set (reach ut) \<longrightarrow> n \<in> set (reach ut)) (accepts ut unit_shift_table)"
  proof (cases "ut \<in> set unit_types")
    case True
    then consider "ut = 1" | "ut = 2" | "ut = 3" | "ut = 4" | "ut = 5" | "ut = 6" by (auto simp: unit_types_def)
    then show ?thesis by cases (simp_all add: reach_def accepts_rows)
  qed (simp add: accepts_none)
  from row_of_list_all [OF r this] show ?thesis using assms(2) by simp
qed

lemma next_status_range:
  assumes "next_of state_table ut c e = Some n"
  shows "0 \<le> n \<and> n < 17"
proof -
  have r: "row_of (accepts ut unit_shift_table) e c = Some n" using assms InitStateTable_ok(2) by simp
  have "list_all (\<lambda>(c, e, n, a). 0 \<le> n \<and> n < 17) unit_shift_table" by (simp add: unit_shift_table_def)
  then have "list_all (\<lambda>(c, e, n). 0 \<le> n \<and> n < 17) (accepts ut unit_shift_table)" by (auto simp: accepts_def list_all_iff)
  from row_of_list_all [OF r this] show ?thesis by simp
qed

lemma pool_status: "0 \<le> n \<Longrightarrow> n < 17 \<Longrightarrow> status (state_pool ! nat n) = n \<and> timeout (state_pool ! nat n) = - 1"
proof -
  assume n: "0 \<le> n" "n < 17"
  have "map status state_pool = map int [0..<17]" "map timeout state_pool = replicate 17 (- 1)" "length state_pool = 17"
    by (simp_all add: state_pool_def new_state_def upt_rec numeral_eq_Suc)
  then have "map status state_pool ! nat n = map int [0..<17] ! nat n" "map timeout state_pool ! nat n = replicate 17 (- 1) ! nat n" by simp_all
  then show ?thesis using n \<open>length state_pool = 17\<close> by (simp add: nat_less_iff)
qed

lemma Update_ok:
  assumes "records_ok (records s)" "next_of state_table (unit_type s) (status (state s)) e = Some n"
  shows "\<exists>s'. UnitState_Update e time s = Inr s' \<and> state s' = State_SetTimeOut time (state_pool ! nat n) \<and> unit_type s' = unit_type s \<and>
    records_ok (records s') \<and> status (state s') = n \<and>
    (\<forall>ut c m k. byte m \<longrightarrow> byte k \<longrightarrow> taken (records s') ut (c, m, k) =
       taken (records s) ut (c, m, k) + (if ut = unit_type s \<and> (c, m, k) = (status (state s), n, e) then 1 else 0))"
proof -
  let ?ut = "unit_type s" let ?c = "status (state s)" let ?k = "MAKE_KEY ?c n e"
  have st: "status (state_pool ! nat n) = n" using next_status_range [OF assms(2)] pool_status by blast
  obtain r where r: "map_of (at_key (records s) ?ut) ?k = Some r" using assms unfolding records_ok_def by blast
  let ?g = "smap_put ?ut (smap_put ?k (r\<lparr>shift_times := shift_times r + 1\<rparr>) (at_key (records s) ?ut)) (records s)"
  have rec: "RecordStateShift ?ut ?c n e (records s) = Inr ?g" using r by (simp add: RecordStateShift_def)
  have u: "UnitState_Update e time s = Inr (s\<lparr>state := State_SetTimeOut time (state_pool ! nat n), records := ?g\<rparr>)"
    using assms(2) st rec by (simp add: UnitState_Update_def next_of_def)
  have b: "byte n" "byte e" using InitStateTable_ok(4) [OF assms(2)] by simp_all
  have "records_ok ?g" using assms(1) unfolding records_ok_def by (auto simp: map_of_smap_put_any)
  moreover have "taken ?g ut (c, m, k) = taken (records s) ut (c, m, k) + (if ut = ?ut \<and> (c, m, k) = (?c, n, e) then 1 else 0)"
    if "byte m" "byte k" for ut c m k
  proof -
    have "MAKE_KEY c m k = ?k \<longleftrightarrow> (c, m, k) = (?c, n, e)" using shift_key_inj [OF that b, of c ?c] by auto
    then show ?thesis using r unfolding taken_def by (simp add: map_of_smap_put_any)
  qed
  ultimately show ?thesis using u st by (simp add: State_SetTimeOut_def)
qed

text \<open>
  The transitions that a list of events takes a unit through, by the rows of its type; none if one
  of the events has no row.
\<close>

fun trace :: "int \<Rightarrow> int \<Rightarrow> (int \<times> int) list \<Rightarrow> (int \<times> int \<times> int) list option" where
  "trace ut c [] = Some []"
| "trace ut c ((e, time) # es) =
     (case row_of (accepts ut unit_shift_table) e c of
        None \<Rightarrow> None
      | Some n \<Rightarrow> map_option (\<lambda>tr. (c, n, e) # tr) (trace ut n es))"

fun ends_in :: "int \<Rightarrow> (int \<times> int \<times> int) list \<Rightarrow> int" where
  "ends_in c [] = c"
| "ends_in c ((_, n, _) # tr) = ends_in n tr"

abbreviation updates :: "ustate \<Rightarrow> (int \<times> int) list \<Rightarrow> ustate res" where
  "updates \<equiv> run (\<lambda>s (e, time). UnitState_Update e time s)"

lemma updates_trace:
  assumes "records_ok (records s)" "status (state s) \<in> set (reach (unit_type s))"
  shows "case trace (unit_type s) (status (state s)) es of
      None \<Rightarrow> updates s es = Inl AssertFail
    | Some tr \<Rightarrow> \<exists>s'. updates s es = Inr s' \<and> unit_type s' = unit_type s \<and> records_ok (records s') \<and>
        status (state s') = ends_in (status (state s)) tr \<and> status (state s') \<in> set (reach (unit_type s)) \<and>
        (\<forall>c n e. byte n \<longrightarrow> byte e \<longrightarrow> taken (records s') (unit_type s) (c, n, e) =
           taken (records s) (unit_type s) (c, n, e) + int (count_list tr (c, n, e)))"
  using assms
proof (induction es arbitrary: s)
  case (Cons x es)
  obtain e time where x: "x = (e, time)" by (cases x)
  have nx: "next_of state_table (unit_type s) (status (state s)) e = row_of (accepts (unit_type s) unit_shift_table) e (status (state s))"
    by (rule InitStateTable_ok(2))
  show ?case
  proof (cases "next_of state_table (unit_type s) (status (state s)) e")
    case None
    then have "UnitState_Update e time s = Inl AssertFail" by (simp add: UnitState_Update_def next_of_def)
    then show ?thesis using None nx x by simp
  next
    case (Some n)
    obtain s1 where s1: "UnitState_Update e time s = Inr s1" "unit_type s1 = unit_type s" "records_ok (records s1)" "status (state s1) = n"
      "\<forall>ut c m k. byte m \<longrightarrow> byte k \<longrightarrow> taken (records s1) ut (c, m, k) =
         taken (records s) ut (c, m, k) + (if ut = unit_type s \<and> (c, m, k) = (status (state s), n, e) then 1 else 0)"
      using Update_ok [OF Cons.prems(1) Some] by blast
    have r: "n \<in> set (reach (unit_type s))" by (rule reach_next [OF Some Cons.prems(2)])
    show ?thesis
    proof (cases "trace (unit_type s) n es")
      case None
      then show ?thesis using Cons.IH [of s1] s1 r Some nx x by simp
    next
      case tr: (Some tr)
      then obtain s' where s': "updates s1 es = Inr s'" "unit_type s' = unit_type s" "records_ok (records s')" "status (state s') = ends_in n tr"
         "status (state s') \<in> set (reach (unit_type s))"
         "\<forall>c m k. byte m \<longrightarrow> byte k \<longrightarrow> taken (records s') (unit_type s) (c, m, k) = taken (records s1) (unit_type s) (c, m, k) + int (count_list tr (c, m, k))"
        using Cons.IH [of s1] s1 r by auto
      have "taken (records s') (unit_type s) (c, m, k) = taken (records s) (unit_type s) (c, m, k) + int (count_list ((status (state s), n, e) # tr) (c, m, k))"
        if "byte m" "byte k" for c m k
        using s'(6) s1(5) that by simp
      then show ?thesis using s' s1(1) tr Some nx x by simp
    qed
  qed
qed simp

text \<open>
  The machine of a unit takes exactly the transitions that the table lists for the type of the
  unit: an event without a row aborts; otherwise the state follows the rows, stays among those
  that the type can reach, and every transition taken adds one to its own record and to no other.
\<close>

theorem UnitState_follows_table:
  assumes "ut \<in> {1..6}" "records_ok g"
  shows "\<exists>s. UnitState_Init ut (UnitState_new g) = Inr s \<and> status (state s) = 1 \<and>
    (case trace ut 1 es of
       None \<Rightarrow> updates s es = Inl AssertFail
     | Some tr \<Rightarrow> \<exists>s'. updates s es = Inr s' \<and> status (state s') = ends_in 1 tr \<and> status (state s') \<in> set (reach ut) \<and>
         (\<forall>c n e. byte n \<longrightarrow> byte e \<longrightarrow> taken (records s') ut (c, n, e) = taken (records s) ut (c, n, e) + int (count_list tr (c, n, e))))"
proof -
  let ?s0 = "(UnitState_new g)\<lparr>unit_type := ut\<rparr>"
  have s0: "status (state ?s0) = 0" "records_ok (records ?s0)" "unit_type ?s0 = ut" using assms(2) pool_status [of 0] by (simp_all add: UnitState_new_def)
  have cs: "ut = 1 \<or> ut = 2 \<or> ut = 3 \<or> ut = 4 \<or> ut = 5 \<or> ut = 6" using assms(1) by auto
  then have n: "next_of state_table ut 0 0 = Some 1"
    by (elim disjE) (simp_all add: InitStateTable_ok(2) row_of_def accepts_rows)
  obtain s where s: "UnitState_Update 0 (- 1) ?s0 = Inr s" "unit_type s = ut" "records_ok (records s)" "status (state s) = 1"
    using Update_ok [of ?s0 0 1 "- 1"] s0 n by auto
  have "status (state s) \<in> set (reach (unit_type s))" using s(2,4) cs by (auto simp: reach_def)
  from updates_trace [OF s(3) this, of es] show ?thesis using s(1,2,4) by (auto simp: UnitState_Init_def split: option.splits)
qed

lemma next_eval:
  "next_of state_table ut c e = row_of (accepts ut unit_shift_table) e c" by (rule InitStateTable_ok(2))

lemmas next_simps = next_eval row_of_def accepts_rows

lemma first_records_ok: "records_ok first_records"
  using InitStateTable_ok(3) by (force simp: records_ok_def)

theorem UnitState_follows_table_witness:
  "\<exists>s. UnitState_Init 1 (UnitState_new first_records) = Inr s \<and> updates s [(EVENT_ATTACKED, 700), (EVENT_ACTION, 500)] = Inl AssertFail \<and>
    (\<exists>s'. updates s [(EVENT_ATTACKED, 700), (EVENT_TIMEOUT, - 1)] = Inr s' \<and> status (state s') = 1)"
proof -
  have t: "trace 1 1 [(EVENT_ATTACKED, 700), (EVENT_ACTION, 500)] = None"
    "trace 1 1 [(EVENT_ATTACKED, 700), (EVENT_TIMEOUT, - 1)] = Some [(1, 3, 3), (3, 1, 12)]"
    by (simp_all add: row_of_def accepts_rows)
  show ?thesis using UnitState_follows_table [of 1, OF _ first_records_ok, of "[(EVENT_ATTACKED, 700), (EVENT_ACTION, 500)]", unfolded t]
      UnitState_follows_table [of 1, OF _ first_records_ok, of "[(EVENT_ATTACKED, 700), (EVENT_TIMEOUT, - 1)]", unfolded t]
    by auto
qed

text \<open>
  A unit that is in use can be given back to its pool from every state it can reach, except a
  player who is attacked while waiting for its golem: there \<open>Clear\<close> aborts.
\<close>

theorem UnitState_Clear_stuck:
  assumes "records_ok (records s)" "unit_type s \<in> {1..6}" "status (state s) \<in> set (reach (unit_type s))" "status (state s) \<noteq> 0"
  shows "if status (state s) = STATUS_WG_ATTACKED then UnitState_Clear s = Inl AssertFail
    else \<exists>s'. UnitState_Clear s = Inr s' \<and> status (state s') = 0 \<and> unit_type s' = 0"
proof -
  have cs: "unit_type s = 1 \<or> unit_type s = 2 \<or> unit_type s = 3 \<or> unit_type s = 4 \<or> unit_type s = 5 \<or> unit_type s = 6" using assms(2) by auto
  have "list_all (\<lambda>ut. list_all (\<lambda>c. c = 0 \<or> row_of (accepts ut unit_shift_table) 6 c = (if c = 14 then None else Some 0)) (reach ut)) [1, 2, 3, 4, 5, 6]"
    by (simp add: row_of_def accepts_rows reach_def)
  moreover have "unit_type s \<in> set [1, 2, 3, 4, 5, 6]" using cs by auto
  ultimately have "\<forall>c \<in> set (reach (unit_type s)). c = 0 \<or> row_of (accepts (unit_type s) unit_shift_table) 6 c = (if c = 14 then None else Some 0)"
    unfolding list_all_iff by (rule bspec)
  then have "status (state s) = 0 \<or> row_of (accepts (unit_type s) unit_shift_table) 6 (status (state s)) = (if status (state s) = 14 then None else Some 0)"
    using assms(3) by (rule bspec)
  then have n: "next_of state_table (unit_type s) (status (state s)) 6 = (if status (state s) = 14 then None else Some 0)"
    using assms(4) unfolding next_eval by blast
  show ?thesis
  proof (cases "status (state s) = 14")
    case True
    then show ?thesis using n by (simp add: UnitState_Clear_def UnitState_Update_def next_of_def)
  next
    case False
    then have "next_of state_table (unit_type s) (status (state s)) 6 = Some 0" using n by simp
    from Update_ok [OF assms(1) this, of "- 1"] show ?thesis using False by (auto simp: UnitState_Clear_def)
  qed
qed

theorem UnitState_Clear_stuck_witness:
  "UnitState_Clear \<lparr>state = state_pool ! 14, unit_type = 1, records = first_records\<rparr> = Inl AssertFail"
proof -
  let ?s = "\<lparr>state = state_pool ! 14, unit_type = 1, records = first_records\<rparr>"
  have "status (state ?s) = 14" using pool_status [of 14] by simp
  then show ?thesis using UnitState_Clear_stuck [of ?s] first_records_ok by (simp add: reach_def)
qed

end
