(* ===== verification/UnitLife.thy ===== *)
theory UnitLife
  imports UnitState "HOL-Library.Signed_Division"
begin

text \<open>
  Life and death of a unit without golem (\<open>unit/combat_unit.cpp\<close>, \<open>combat_player.cpp\<close>,
  \<open>combat_npc.cpp\<close>): damage, healing, being attacked, transforming, escaping, and the heartbeat that
  lets the states of \<open>UnitState\<close> time out.
\<close>

section \<open>The state of a unit\<close>

text \<open>
  \<open>calls\<close> is what a unit tells its combat: registration with the scheduler, tests for the end, and
  the messages and broadcasts about transformation, escape and death.
\<close>

datatype unit_call = KRegister | KUnRegister | KReset | KTestEnd | KClrSneaked | KDying | KDeath | KSomeoneDead int
  | KTriggerTransform int | KStartTransform int | KTriggerEscape int | KStartEscape

record 'x cunit =
  ust :: ustate
  is_team_npc :: bool
  hp :: int
  max_hp :: int
  killer :: int
  round_counter :: int
  is_atb_owner :: bool
  is_transforming :: bool
  is_escaping :: bool
  new_mob_tid :: int
  calls :: "unit_call list"
  rest :: 'x

text \<open>What buffs do to the unit itself when its round ends, when it is dying and when it dies.\<close>

datatype hit = Hurt int int | Mend int

datatype occasion = AtRoundEnd | AtDying | AtDeath

record 'x unit_env =
  buff_hits :: "occasion \<Rightarrow> 'x cunit \<Rightarrow> hit list \<times> 'x"
  GetTeammatesAlive :: "'x cunit \<Rightarrow> int"
  IsStateClose :: "'x cunit \<Rightarrow> bool"

abbreviation ustatus :: "'x cunit \<Rightarrow> int" where
  "ustatus u \<equiv> status (state (ust u))"

abbreviation GetStateTimeout :: "'x cunit \<Rightarrow> int" where
  "GetStateTimeout u \<equiv> timeout (state (ust u))"

definition is_player :: "'x cunit \<Rightarrow> bool" where "is_player u \<longleftrightarrow> unit_type (ust u) = UT_PLAYER"
definition is_mob :: "'x cunit \<Rightarrow> bool" where "is_mob u \<longleftrightarrow> unit_type (ust u) = UT_MOB \<and> \<not> is_team_npc u"
definition is_boss :: "'x cunit \<Rightarrow> bool" where "is_boss u \<longleftrightarrow> unit_type (ust u) = UT_BOSS"

definition IsDead :: "'x cunit \<Rightarrow> bool" where "IsDead u \<longleftrightarrow> ustatus u = STATUS_DEAD"
definition IsZombie :: "'x cunit \<Rightarrow> bool" where "IsZombie u \<longleftrightarrow> ustatus u = STATUS_ZOMBIE"
definition IsZombieDying :: "'x cunit \<Rightarrow> bool" where "IsZombieDying u \<longleftrightarrow> ustatus u = STATUS_ZOMBIE_DYING"
definition IsDying :: "'x cunit \<Rightarrow> bool" where "IsDying u \<longleftrightarrow> IsZombieDying u \<or> ustatus u = STATUS_DYING"
definition IsNormal :: "'x cunit \<Rightarrow> bool" where "IsNormal u \<longleftrightarrow> ustatus u = STATUS_NORMAL"
definition IsAttacked :: "'x cunit \<Rightarrow> bool" where "IsAttacked u \<longleftrightarrow> ustatus u = STATUS_ATTACKED \<or> ustatus u = STATUS_WG_ATTACKED"
definition IsSneaked :: "'x cunit \<Rightarrow> bool" where "IsSneaked u \<longleftrightarrow> ustatus u = STATUS_SNEAKED"

definition IsAlive :: "'x cunit \<Rightarrow> bool" where
  "IsAlive u \<longleftrightarrow> \<not> IsDying u \<and> \<not> IsDead u \<and> \<not> IsZombie u \<and> \<not> is_escaping u"

definition CanDo :: "int \<Rightarrow> 'x cunit \<Rightarrow> bool" where
  "CanDo opt u \<longleftrightarrow> opt \<in> opts (state (ust u))"

definition tell :: "unit_call \<Rightarrow> 'x cunit \<Rightarrow> 'x cunit" where
  "tell c u = u\<lparr>calls := calls u @ [c]\<rparr>"

definition UpdateState :: "int \<Rightarrow> int \<Rightarrow> 'x cunit \<Rightarrow> 'x cunit res" where
  "UpdateState e time u = bindr (UnitState_Update e time (ust u)) (\<lambda>s. Inr (u\<lparr>ust := s\<rparr>))"

definition SetStateTimeout :: "int \<Rightarrow> 'x cunit \<Rightarrow> 'x cunit" where
  "SetStateTimeout time u = u\<lparr>ust := (ust u)\<lparr>state := State_SetTimeOut time (state (ust u))\<rparr>\<rparr>"

section \<open>Damage and healing\<close>

text \<open>Hit points are 32-bit: a sum or difference that leaves their range wraps.\<close>

definition Unit_RegisterATB :: "'x cunit \<Rightarrow> 'x cunit" where
  "Unit_RegisterATB u = (if is_atb_owner u \<and> IsAlive u \<and> \<not> is_transforming u then tell KRegister u else u)"

definition Unit_ResetATB :: "'x cunit \<Rightarrow> 'x cunit" where
  "Unit_ResetATB u = (if is_atb_owner u \<and> IsAlive u then tell KReset u else u)"

definition DoHeal :: "int \<Rightarrow> 'x cunit \<Rightarrow> 'x cunit" where
  "DoHeal life u = (if life \<le> 0 \<or> IsDead u then u else let h = i32 (hp u + life) in u\<lparr>hp := if h > max_hp u then max_hp u else h\<rparr>)"

definition lose :: "int \<Rightarrow> int \<Rightarrow> 'x cunit \<Rightarrow> 'x cunit" where
  "lose damage attacker u =
     (let u1 = u\<lparr>hp := i32 (hp u - damage)\<rparr> in if hp u1 \<le> 0 \<and> killer u1 = 0 then u1\<lparr>killer := attacker\<rparr> else u1)"

definition out_of_combat :: "'x cunit \<Rightarrow> 'x cunit" where
  "out_of_combat u = tell KTestEnd (if \<not> IsSneaked u then tell KUnRegister u else u)"

definition Unit_DoDamage :: "int \<Rightarrow> int \<Rightarrow> 'x cunit \<Rightarrow> 'x cunit res" where
  "Unit_DoDamage damage attacker u =
     (if \<not> IsAlive u \<or> damage \<le> 0 then Inr u
      else let u1 = lose damage attacker u
           in if hp u > 0 \<and> hp u1 \<le> 0 then bindr (UpdateState EVENT_ZOMBIE (- 1) u1) (\<lambda>u2. Inr (out_of_combat u2))
              else Inr u1)"

definition Player_DoDamage :: "'x unit_env \<Rightarrow> int \<Rightarrow> int \<Rightarrow> 'x cunit \<Rightarrow> 'x cunit res" where
  "Player_DoDamage env damage attacker u =
     (if damage \<le> 0 \<or> IsZombie u \<or> IsDead u then Inr u
      else let u1 = lose damage attacker u
           in if hp u > 0 \<and> hp u1 \<le> 0
              then bindr (UpdateState (if GetTeammatesAlive env u1 \<le> 1 then EVENT_ZOMBIE else EVENT_DYING) (- 1) u1)
                     (\<lambda>u2. Inr (out_of_combat u2))
              else Inr u1)"

definition DoDamage :: "'x unit_env \<Rightarrow> int \<Rightarrow> int \<Rightarrow> 'x cunit \<Rightarrow> 'x cunit res" where
  "DoDamage env damage attacker u =
     (if is_player u then Player_DoDamage env damage attacker u else Unit_DoDamage damage attacker u)"

text \<open>Setting the hit points after a change of their maximum, and those of a world boss after damage elsewhere.\<close>

definition SetHP :: "int \<Rightarrow> 'x cunit \<Rightarrow> 'x cunit" where
  "SetHP new_hp u = (if \<not> IsAlive u \<or> new_hp = hp u then u else u\<lparr>hp := min new_hp (max_hp u)\<rparr>)"

definition SyncHP :: "'x unit_env \<Rightarrow> int \<Rightarrow> 'x cunit \<Rightarrow> 'x cunit res" where
  "SyncHP env new_hp u =
     (if \<not> is_boss u \<or> \<not> IsAlive u \<or> new_hp = hp u then Inr u
      else if hp u > 0 \<and> new_hp \<le> 0
      then bindr (UpdateState EVENT_ZOMBIE (GetStateTimeout u * 100) (u\<lparr>hp := 0\<rparr>)) (\<lambda>u1.
             let u2 = (if \<not> IsSneaked u1 then tell KUnRegister u1 else u1)
             in Inr (if \<not> IsStateClose env u2 then tell KTestEnd u2 else u2))
      else if new_hp > max_hp u then Inr (u\<lparr>hp := max_hp u\<rparr>) else Inr (u\<lparr>hp := new_hp\<rparr>))"

definition Revive :: "'x cunit \<Rightarrow> 'x cunit res" where
  "Revive u = bindr (UpdateState EVENT_REVIVE (- 1) (u\<lparr>killer := 0\<rparr>)) (\<lambda>u1. Inr (tell KRegister u1))"

definition Resurrect :: "int \<Rightarrow> 'x cunit \<Rightarrow> 'x cunit res" where
  "Resurrect scale u =
     (if \<not> IsDead u then Inr u
      else let u1 = SetHP (i32 (max_hp u * (scale sdiv 100))) (u\<lparr>killer := 0\<rparr>)
           in bindr (UpdateState EVENT_REVIVE (- 1) u1) (\<lambda>u2. Inr (tell KRegister u2)))"

fun hits :: "'x unit_env \<Rightarrow> hit list \<Rightarrow> 'x cunit \<Rightarrow> 'x cunit res" where
  "hits env [] u = Inr u"
| "hits env (Hurt damage attacker # hs) u = bindr (DoDamage env damage attacker u) (hits env hs)"
| "hits env (Mend life # hs) u = hits env hs (DoHeal life u)"

definition buffs :: "'x unit_env \<Rightarrow> occasion \<Rightarrow> 'x cunit \<Rightarrow> 'x cunit res" where
  "buffs env occ u = (case buff_hits env occ u of (hs, x) \<Rightarrow> hits env hs (u\<lparr>rest := x\<rparr>))"

section \<open>Attacks\<close>

definition SetSneaked :: "'x cunit \<Rightarrow> 'x cunit res" where
  "SetSneaked u = UpdateState EVENT_SNEAKED (- 1) u"

definition OnSneakedEnd :: "'x cunit \<Rightarrow> 'x cunit res" where
  "OnSneakedEnd u = bindr (UpdateState EVENT_TIMEOUT (- 1) (Unit_ResetATB u)) (\<lambda>u1. Inr (tell KClrSneaked u1))"

definition OnAttacked :: "int \<Rightarrow> 'x cunit \<Rightarrow> 'x cunit res" where
  "OnAttacked attacked_time u =
     (if IsZombie u then Inr (SetStateTimeout attacked_time u)
      else if IsSneaked u \<and> round_counter u \<noteq> 0 then OnSneakedEnd u
      else if \<not> IsAttacked u then UpdateState EVENT_ATTACKED attacked_time u
      else if GetStateTimeout u * 100 < attacked_time then Inr (SetStateTimeout attacked_time u)
      else Inr u)"

text \<open>The attacker's own state at the end of its attack.\<close>

definition AttackEnd_self :: "int \<Rightarrow> 'x cunit \<Rightarrow> 'x cunit res" where
  "AttackEnd_self action_time u =
     (if IsZombie u \<or> IsZombieDying u then Inr (SetStateTimeout action_time u) else UpdateState EVENT_ACTION action_time u)"

section \<open>Transforming and escaping\<close>

definition TriggerTransform :: "int \<Rightarrow> 'x cunit \<Rightarrow> 'x cunit" where
  "TriggerTransform tid u =
     (if CanDo OPT_TRANSFORM u then (tell KUnRegister (tell (KTriggerTransform tid) u))\<lparr>is_transforming := True\<rparr> else u)"

definition Transform :: "int \<Rightarrow> 'x cunit \<Rightarrow> 'x cunit res" where
  "Transform tid u = assertx (CanDo OPT_TRANSFORM u)
     (UpdateState EVENT_TRANSFORM (if IsNormal u then 100 else GetStateTimeout u * 100) (u\<lparr>new_mob_tid := tid\<rparr>))"

definition TriggerEscape :: "int \<Rightarrow> 'x cunit \<Rightarrow> 'x cunit" where
  "TriggerEscape result u =
     (if CanDo OPT_ESCAPE u then (tell KUnRegister (tell (KTriggerEscape result) u))\<lparr>is_escaping := True\<rparr> else u)"

definition Escape :: "'x cunit \<Rightarrow> 'x cunit res" where
  "Escape u = assertx (CanDo OPT_ESCAPE u)
     (UpdateState EVENT_ESCAPE (if IsNormal u then 1000 else GetStateTimeout u * 100 + 1000) u)"

section \<open>Heartbeat\<close>

definition Die :: "'x unit_env \<Rightarrow> 'x cunit \<Rightarrow> 'x cunit res" where
  "Die env u = bindr (buffs env AtDeath u) (\<lambda>u1. Inr (tell (KSomeoneDead (killer u1)) (tell KDeath u1)))"

definition Dying :: "'x unit_env \<Rightarrow> 'x cunit \<Rightarrow> 'x cunit res" where
  "Dying env u = bindr (buffs env AtDying u) (\<lambda>u1. Inr (tell KDying u1))"

definition RoundEnd :: "'x unit_env \<Rightarrow> 'x cunit \<Rightarrow> 'x cunit res" where
  "RoundEnd env u = bindr (buffs env AtRoundEnd u) (\<lambda>u1. Inr (Unit_RegisterATB u1))"

definition TransformWaitEnd :: "'x cunit \<Rightarrow> 'x cunit" where
  "TransformWaitEnd u = (tell (KStartTransform (new_mob_tid u)) u)\<lparr>new_mob_tid := 0\<rparr>"

definition OnTime :: "'x unit_env \<Rightarrow> 'x cunit \<Rightarrow> 'x cunit res" where
  "OnTime env u =
     (let st = ustatus u in
      if st = STATUS_ACTION \<or> st = STATUS_GOLEM_ACTION then RoundEnd env u
      else if st = STATUS_ATTACKED \<or> st = STATUS_WG_ATTACKED then Inr u
      else if st = STATUS_ZOMBIE_DYING then assertx (is_player u) (Dying env u)
      else if st = STATUS_DYING then assertx (is_player u) (Die env u)
      else if st = STATUS_ZOMBIE then assertx (unit_type (ust u) \<in> {UT_PLAYER, UT_MOB, UT_BOSS}) (Die env u)
      else if st = STATUS_TRANSFORM_WAIT then assertx (is_mob u) (Inr (TransformWaitEnd u))
      else if st = STATUS_TRANSFORMING then assertx (is_mob u) (Inr (tell KStartEscape (Unit_RegisterATB u)))
      else if st = STATUS_ESCAPE_WAIT then assertx (is_mob u) (Inr (tell KStartEscape u))
      else Inl AssertFail)"

definition UnitState_HeartBeat :: "'x unit_env \<Rightarrow> 'x cunit \<Rightarrow> 'x cunit res" where
  "UnitState_HeartBeat env u =
     (let t = GetStateTimeout u; set_timeout = (\<lambda>t. u\<lparr>ust := (ust u)\<lparr>state := (state (ust u))\<lparr>timeout := t\<rparr>\<rparr>\<rparr>) in
      if t = - 1 then Inr u
      else if t - 1 \<le> 0 then
        bindr (OnTime env (set_timeout 0)) (\<lambda>u1.
          if IsZombieDying u1 then UpdateState EVENT_TIMEOUT 3000 u1
          else if ustatus u1 = STATUS_WG_ATTACKED then UpdateState EVENT_TIMEOUT 100 u1
          else if ustatus u1 \<notin> {STATUS_PLAYER_ACTION, STATUS_WAIT_GOLEM, STATUS_GOLEM_ACTION} then UpdateState EVENT_TIMEOUT (- 1) u1
          else Inr u1)
      else Inr (set_timeout (t - 1)))"

definition Unit_HeartBeat :: "'x unit_env \<Rightarrow> 'x cunit \<Rightarrow> 'x cunit res" where
  "Unit_HeartBeat env u = bindr (UnitState_HeartBeat env u) (\<lambda>u1.
     if is_player u1 \<and> IsDying u1 \<and> hp u1 > 0 then Revive u1 else Inr u1)"

datatype unit_op = UDamage int int | UHeal int | USetHP int | USyncHP int | UResurrect int | USneak | UAttacked int | UAct int
  | UTriggerTransform int | UTransform int | UTransforming | UTriggerEscape int | UEscape | UBeat

fun unit_do :: "'x unit_env \<Rightarrow> 'x cunit \<Rightarrow> unit_op \<Rightarrow> 'x cunit res" where
  "unit_do env u (UDamage damage attacker) = DoDamage env damage attacker u"
| "unit_do env u (UHeal life) = Inr (DoHeal life u)"
| "unit_do env u (USetHP new_hp) = Inr (SetHP new_hp u)"
| "unit_do env u (USyncHP new_hp) = SyncHP env new_hp u"
| "unit_do env u (UResurrect scale) = Resurrect scale u"
| "unit_do env u USneak = SetSneaked u"
| "unit_do env u (UAttacked time) = OnAttacked time u"
| "unit_do env u (UAct time) = AttackEnd_self time u"
| "unit_do env u (UTriggerTransform tid) = Inr (TriggerTransform tid u)"
| "unit_do env u (UTransform tid) = Transform tid u"
| "unit_do env u UTransforming = UpdateState EVENT_TRANSFORMING 3000 u"
| "unit_do env u (UTriggerEscape result) = Inr (TriggerEscape result u)"
| "unit_do env u UEscape = Escape u"
| "unit_do env u UBeat = Unit_HeartBeat env u"

section \<open>Units stay in order\<close>

text \<open>Transitions of the three types of unit that fight by themselves.\<close>

lemma next_life:
  assumes "ut \<in> {1, 2, 6}"
  shows "next_of state_table ut 1 1 = Some 9" "next_of state_table ut 1 2 = Some 2"
    "c \<in> {1, 3, 9} \<Longrightarrow> next_of state_table ut c 3 = Some 3" "c \<in> {1, 2, 3, 9} \<Longrightarrow> next_of state_table ut c 5 = Some 8"
    "c \<in> {2, 3, 9} \<Longrightarrow> next_of state_table ut c 12 = Some 1" "next_of state_table ut 8 12 = Some 6"
  using assms by (auto simp: next_simps)

lemma next_player:
  "c \<in> {1, 3} \<Longrightarrow> next_of state_table 1 c 4 = Some 4" "next_of state_table 1 4 3 = Some 4" "next_of state_table 1 5 3 = Some 5"
  "next_of state_table 1 4 12 = Some 5" "next_of state_table 1 5 12 = Some 6" "c \<in> {4, 5, 6} \<Longrightarrow> next_of state_table 1 c 11 = Some 1"
  by (auto simp: next_simps)

lemma next_mob:
  "c \<in> {1, 2, 3} \<Longrightarrow> next_of state_table 2 c 13 = Some 10" "next_of state_table 2 10 12 = Some 6" "next_of state_table 2 1 14 = Some 11"
  "next_of state_table 2 11 12 = Some 1" "c \<in> {1, 2, 3} \<Longrightarrow> next_of state_table 2 c 18 = Some 16" "next_of state_table 2 16 12 = Some 6"
  by (auto simp: next_simps)

definition beats_of :: "int \<Rightarrow> int" where
  "beats_of time = time div 100 + (if time mod 100 > 20 then 1 else 0)"

definition shape :: "'x cunit \<Rightarrow> bool" where
  "shape u \<longleftrightarrow> unit_type (ust u) \<in> {1, 2, 6} \<and> records_ok (records (ust u)) \<and> hp u \<le> max_hp u \<and> 0 < max_hp u \<and>
     - 2147483648 \<le> hp u \<and> max_hp u < 2147483648"

text \<open>
  Only players are dying, only mobs transform or escape; a unit that has nothing to wait for has no
  timeout; a unit that can fight has hit points.
\<close>

definition life_states :: "int set" where "life_states = {1, 2, 3, 4, 5, 6, 8, 9, 10, 11, 16}"

definition life_inv :: "'x cunit \<Rightarrow> bool" where
  "life_inv u \<longleftrightarrow> shape u \<and> ustatus u \<in> life_states \<and> opts (state (ust u)) = opts (state_pool ! nat (ustatus u)) \<and>
     (ustatus u \<in> {4, 5} \<longrightarrow> is_player u) \<and> (ustatus u \<in> {10, 11, 16} \<longrightarrow> is_mob u) \<and>
     (ustatus u \<in> {1, 6, 9} \<longrightarrow> GetStateTimeout u = - 1) \<and> (ustatus u \<in> {1, 2, 3, 9, 11} \<longrightarrow> 0 < hp u)"

lemma UpdateState_ok:
  assumes "records_ok (records (ust u))" "next_of state_table (unit_type (ust u)) (ustatus u) e = Some n"
  obtains s' where "UpdateState e time u = Inr (u\<lparr>ust := s'\<rparr>)" "unit_type s' = unit_type (ust u)" "records_ok (records s')"
    "status (state s') = n" "timeout (state s') = (if time < 0 then - 1 else beats_of time)" "opts (state s') = opts (state_pool ! nat n)"
proof -
  obtain s' where s': "UnitState_Update e time (ust u) = Inr s'" "state s' = State_SetTimeOut time (state_pool ! nat n)"
    "unit_type s' = unit_type (ust u)" "records_ok (records s')" "status (state s') = n"
    using Update_ok [OF assms, of time] by blast
  have "timeout (state_pool ! nat n) = - 1" using next_status_range [OF assms(2)] pool_status by blast
  then show ?thesis using that [of s'] s' by (simp add: UpdateState_def State_SetTimeOut_def beats_of_def)
qed

lemma life_upd:
  assumes "shape u" "next_of state_table (unit_type (ust u)) (ustatus u) e = Some n" "n \<in> life_states"
    "n \<in> {4, 5} \<longrightarrow> is_player u" "n \<in> {10, 11, 16} \<longrightarrow> is_mob u" "n \<in> {1, 6, 9} \<longrightarrow> time < 0" "n \<in> {1, 2, 3, 9, 11} \<longrightarrow> 0 < hp u"
  obtains s' where "UpdateState e time u = Inr (u\<lparr>ust := s'\<rparr>)" "life_inv (u\<lparr>ust := s'\<rparr>)" "status (state s') = n" "unit_type s' = unit_type (ust u)"
    "timeout (state s') = (if time < 0 then - 1 else beats_of time)"
proof -
  have r: "records_ok (records (ust u))" using assms(1) by (simp add: shape_def)
  obtain s' where s': "UpdateState e time u = Inr (u\<lparr>ust := s'\<rparr>)" "unit_type s' = unit_type (ust u)" "records_ok (records s')"
    "status (state s') = n" "timeout (state s') = (if time < 0 then - 1 else beats_of time)" "opts (state s') = opts (state_pool ! nat n)"
    by (rule UpdateState_ok [OF r assms(2), of time])
  have "life_inv (u\<lparr>ust := s'\<rparr>)" using assms(1,3-7) s' unfolding life_inv_def by (simp add: shape_def is_player_def is_mob_def)
  then show ?thesis using that s' by blast
qed

lemma life_more [simp]:
  "life_inv (tell c u) = life_inv u" "life_inv (u\<lparr>rest := x\<rparr>) = life_inv u" "life_inv (u\<lparr>is_transforming := b\<rparr>) = life_inv u"
  "life_inv (u\<lparr>is_escaping := b\<rparr>) = life_inv u" "life_inv (u\<lparr>new_mob_tid := i\<rparr>) = life_inv u" "life_inv (u\<lparr>killer := k\<rparr>) = life_inv u"
  by (simp_all add: life_inv_def shape_def tell_def is_player_def is_mob_def)

lemma tell_more [simp]:
  "ust (tell c u) = ust u" "hp (tell c u) = hp u" "killer (tell c u) = killer u" "max_hp (tell c u) = max_hp u" "calls (tell c u) = calls u @ [c]"
  by (simp_all add: tell_def)

lemma life_hp:
  assumes "life_inv u" "h \<le> max_hp u" "- 2147483648 \<le> h" "ustatus u \<in> {1, 2, 3, 9, 11} \<longrightarrow> 0 < h"
  shows "life_inv (u\<lparr>hp := h\<rparr>)"
  using assms by (simp add: life_inv_def shape_def is_player_def is_mob_def)

text \<open>A heal that does not leave the 32 bits of the hit points before they are capped.\<close>

definition heals :: "int \<Rightarrow> 'x cunit \<Rightarrow> bool" where
  "heals life u \<longleftrightarrow> hp u + life < 2147483648"

lemma DoHeal_hp:
  assumes "hp u \<le> max_hp u" "- 2147483648 \<le> hp u" "heals life u"
  obtains h where "DoHeal life u = u\<lparr>hp := h\<rparr>" "hp u \<le> h" "h \<le> max_hp u"
proof (cases "life \<le> 0 \<or> IsDead u")
  case True
  then show ?thesis using that [of "hp u"] assms(1) by (simp add: DoHeal_def)
next
  case False
  have "i32 (hp u + life) = hp u + life" using assms(2,3) False by (intro i32_id) (auto simp: heals_def)
  then show ?thesis using that [of "min (hp u + life) (max_hp u)"] assms(1) False by (simp add: DoHeal_def Let_def min_def)
qed

text \<open>
  What buffs do to a unit of their own accord: heal it, by an amount that fits on top of its maximum,
  or nothing.
\<close>

fun mends :: "'x cunit \<Rightarrow> hit \<Rightarrow> bool" where
  "mends u (Mend life) = (max_hp u + life < 2147483648)"
| "mends u (Hurt _ _) = False"

definition gentle :: "'x unit_env \<Rightarrow> bool" where
  "gentle env \<longleftrightarrow> (\<forall>occ u. list_all (mends u) (fst (buff_hits env occ u)))"

lemma mends_same [simp]: "mends (u\<lparr>hp := h\<rparr>) = mends u" "mends (u\<lparr>rest := y\<rparr>) = mends u"
proof -
  have "mends (u\<lparr>hp := h\<rparr>) e = mends u e" "mends (u\<lparr>rest := y\<rparr>) e = mends u e" for e by (cases e; simp)+
  then show "mends (u\<lparr>hp := h\<rparr>) = mends u" "mends (u\<lparr>rest := y\<rparr>) = mends u" by blast+
qed

lemma hits_gentle:
  assumes "list_all (mends u) hs" "hp u \<le> max_hp u" "- 2147483648 \<le> hp u"
  shows "\<exists>h. hits env hs u = Inr (u\<lparr>hp := h\<rparr>) \<and> hp u \<le> h \<and> h \<le> max_hp u"
  using assms
proof (induction hs arbitrary: u)
  case (Cons x hs)
  then obtain life where x: "x = Mend life" "max_hp u + life < 2147483648" by (cases x) auto
  then have "heals life u" using Cons.prems(2) by (simp add: heals_def)
  then obtain h where h: "DoHeal life u = u\<lparr>hp := h\<rparr>" "hp u \<le> h" "h \<le> max_hp u" using DoHeal_hp Cons.prems(2,3) by blast
  then obtain h' where "hits env hs (u\<lparr>hp := h\<rparr>) = Inr (u\<lparr>hp := h, hp := h'\<rparr>)" "h \<le> h'" "h' \<le> max_hp u"
    using Cons.IH [of "u\<lparr>hp := h\<rparr>"] Cons.prems by auto
  then show ?case using h x by auto
next
  case (Nil u)
  then show ?case by (intro exI [of _ "hp u"]) simp
qed

lemma buffs_gentle:
  assumes "gentle env" "hp u \<le> max_hp u" "- 2147483648 \<le> hp u"
  obtains h x where "buffs env occ u = Inr (u\<lparr>rest := x, hp := h\<rparr>)" "hp u \<le> h" "h \<le> max_hp u"
proof -
  obtain hs x where b: "buff_hits env occ u = (hs, x)" by fastforce
  then have "list_all (mends u) hs" using assms(1) unfolding gentle_def by (metis fst_conv)
  then have "list_all (mends (u\<lparr>rest := x\<rparr>)) hs" by simp
  from hits_gentle [OF this, of env] show ?thesis using that b assms(2,3) by (auto simp: buffs_def)
qed

section \<open>Operations keep the order\<close>

definition lethal :: "int \<Rightarrow> 'x cunit \<Rightarrow> bool" where
  "lethal damage u \<longleftrightarrow> 0 < hp u \<and> hp u \<le> damage"

text \<open>
  When an operation may be called: a unit is not hit deadly while the machine has no way to die (a
  player not while it acts or is unaware and others of its team live, nobody while it transforms or
  escapes), only those who can act or be attacked do, nobody is resurrected, and no damage and no
  heal takes the hit points out of their 32 bits.
\<close>

definition dealt :: "int \<Rightarrow> 'x cunit \<Rightarrow> bool" where
  "dealt d u \<longleftrightarrow> - 2147483648 \<le> hp u - d"

fun op_fits :: "'x unit_env \<Rightarrow> 'x cunit \<Rightarrow> unit_op \<Rightarrow> bool" where
  "op_fits env u (UDamage d a) = (dealt d u \<and> (lethal d u \<longrightarrow> ustatus u \<in> {1, 3, 6, 8} \<or>
     ustatus u \<in> {2, 9} \<and> \<not> (is_player u \<and> GetTeammatesAlive env (lose d a u) > 1)))"
| "op_fits env u (UHeal life) = heals life u"
| "op_fits env u (USetHP h) = (0 < h)"
| "op_fits env u (UResurrect _) = (ustatus u \<noteq> 6)"
| "op_fits env u USneak = (ustatus u = 1)"
| "op_fits env u (UAttacked _) = (ustatus u \<in> {1, 3, 4, 5, 8, 9})"
| "op_fits env u (UAct _) = (ustatus u \<in> {1, 4, 8})"
| "op_fits env u (UTransform _) = (is_mob u \<and> CanDo OPT_TRANSFORM u)"
| "op_fits env u UTransforming = (is_mob u \<and> ustatus u = 1)"
| "op_fits env u UEscape = (is_mob u \<and> CanDo OPT_ESCAPE u)"
| "op_fits env u _ = True"

lemma lose_props:
  "ust (lose d a u) = ust u" "max_hp (lose d a u) = max_hp u"
  "is_player (lose d a u) = is_player u" "is_mob (lose d a u) = is_mob u" "calls (lose d a u) = calls u"
  by (simp_all add: lose_def Let_def is_player_def is_mob_def)

lemma hp_lose:
  assumes "shape u" "dealt d u" "0 \<le> d"
  shows "hp (lose d a u) = hp u - d"
proof -
  have "i32 (hp u - d) = hp u - d" using assms by (intro i32_id) (auto simp: shape_def dealt_def)
  then show ?thesis by (simp add: lose_def Let_def)
qed

lemma types_of: "shape u \<Longrightarrow> unit_type (ust u) = 1 \<or> unit_type (ust u) = 2 \<or> unit_type (ust u) = 6"
  by (simp add: shape_def)

lemma life_shape: "life_inv u \<Longrightarrow> shape u" by (simp add: life_inv_def)

lemma shape_lose: "shape u \<Longrightarrow> dealt d u \<Longrightarrow> 0 \<le> d \<Longrightarrow> shape (lose d a u)"
  using hp_lose [of u d a] by (simp add: shape_def lose_props dealt_def)

lemma out_life [simp]: "life_inv (out_of_combat u) = life_inv u"
  by (simp add: out_of_combat_def)

lemma DoDamage_cases:
  assumes "0 < d" "\<not> IsZombie u" "\<not> IsDead u" "is_player u \<or> IsAlive u" "shape u" "dealt d u"
  shows "\<not> lethal d u \<Longrightarrow> DoDamage env d a u = Inr (lose d a u)"
    "lethal d u \<Longrightarrow> DoDamage env d a u =
       bindr (UpdateState (if is_player u \<and> GetTeammatesAlive env (lose d a u) > 1 then 4 else 5) (- 1) (lose d a u)) (\<lambda>u2. Inr (out_of_combat u2))"
proof -
  have h: "lethal d u = (0 < hp u \<and> hp (lose d a u) \<le> 0)" using hp_lose [OF assms(5,6), of a] assms(1) by (simp add: lethal_def)
  have p: "\<not> d \<le> 0" using assms(1) by simp
  show "DoDamage env d a u = Inr (lose d a u)" if "\<not> lethal d u"
    unfolding DoDamage_def Player_DoDamage_def Unit_DoDamage_def Let_def h [symmetric] using assms(2-4) p that by (cases "is_player u") simp_all
  show "DoDamage env d a u = bindr (UpdateState (if is_player u \<and> GetTeammatesAlive env (lose d a u) > 1 then 4 else 5) (- 1) (lose d a u))
      (\<lambda>u2. Inr (out_of_combat u2))" if "lethal d u"
    unfolding DoDamage_def Player_DoDamage_def Unit_DoDamage_def Let_def h [symmetric] using assms(2-4) p that
    by (cases "is_player u"; cases "GetTeammatesAlive env (lose d a u) > 1") simp_all
qed

lemma Damage_ok:
  assumes "life_inv u" "op_fits env u (UDamage d a)"
  shows "\<exists>u'. DoDamage env d a u = Inr u' \<and> life_inv u'"
proof (cases "d \<le> 0 \<or> IsZombie u \<or> IsDead u \<or> \<not> is_player u \<and> \<not> IsAlive u")
  case True
  then show ?thesis using assms(1) by (auto simp: DoDamage_def Player_DoDamage_def Unit_DoDamage_def IsAlive_def)
next
  case False
  let ?u1 = "lose d a u"
  have su: "shape u" "dealt d u" using life_shape [OF assms(1)] assms(2) by simp_all
  have ok: "0 < d" "\<not> IsZombie u" "\<not> IsDead u" "is_player u \<or> IsAlive u" "shape u" "dealt d u" using False su by linarith+
  have sh: "shape ?u1" using shape_lose [OF su] False by simp
  have hd: "hp ?u1 = hp u - d" using hp_lose [OF su] ok(1) by simp
  have ty: "unit_type (ust ?u1) \<in> {1, 2, 6}" using types_of [OF sh] by auto
  show ?thesis
  proof (cases "lethal d u")
    case no: False
    have e: "DoDamage env d a u = Inr ?u1"
      using DoDamage_cases(1) [OF ok no] .
    have "0 < hp u \<longrightarrow> 0 < hp u - d" using no unfolding lethal_def by linarith
    then have "ustatus u \<in> {1, 2, 3, 9, 11} \<longrightarrow> 0 < hp u - d" using assms(1) unfolding life_inv_def by blast
    then have "life_inv ?u1" using assms(1) sh hd by (simp add: life_inv_def lose_props)
    then show ?thesis using e by blast
  next
    case l: True
    have st: "ustatus u \<in> {1, 3} \<or> ustatus u \<in> {2, 9} \<and> \<not> (is_player u \<and> GetTeammatesAlive env ?u1 > 1)"
      using assms(2) l False by (auto simp: IsZombie_def IsDead_def)
    define e where "e = (if is_player u \<and> GetTeammatesAlive env ?u1 > 1 then 4 else 5 :: int)"
    define n where "n = (if is_player u \<and> GetTeammatesAlive env ?u1 > 1 then 4 else 8 :: int)"
    have nx: "next_of state_table (unit_type (ust ?u1)) (ustatus ?u1) e = Some n"
      using st next_life(4) [OF ty, of "ustatus u"] next_player(1) [of "ustatus u"] by (auto simp: e_def n_def lose_props is_player_def)
    obtain s' where s': "UpdateState e (- 1) ?u1 = Inr (?u1\<lparr>ust := s'\<rparr>)" "life_inv (?u1\<lparr>ust := s'\<rparr>)"
    proof -
      have "n \<in> life_states" "n \<in> {4, 5} \<longrightarrow> is_player ?u1" "n \<in> {10, 11, 16} \<longrightarrow> is_mob ?u1" "n \<notin> {1, 6, 9, 2, 3, 11}"
        by (simp_all add: n_def life_states_def lose_props)
      with life_upd [OF sh nx this(1-3), of "- 1"] that show thesis by blast
    qed
    have "DoDamage env d a u = bindr (UpdateState e (- 1) ?u1) (\<lambda>u2. Inr (out_of_combat u2))"
      unfolding e_def using DoDamage_cases(2) [OF ok l] .
    then show ?thesis using s' by auto
  qed
qed

lemma SyncHP_ok:
  assumes "life_inv u"
  shows "\<exists>u'. SyncHP env h u = Inr u' \<and> life_inv u'"
proof (cases "is_boss u \<and> IsAlive u \<and> h \<noteq> hp u")
  case False
  then show ?thesis using assms by (auto simp: SyncHP_def)
next
  case True
  then have st: "ustatus u \<in> {1, 2, 3, 9}"
    using assms by (auto simp: life_inv_def life_states_def IsAlive_def IsDying_def IsZombieDying_def IsDead_def IsZombie_def is_boss_def is_mob_def)
  show ?thesis
  proof (cases "hp u > 0 \<and> h \<le> 0")
    case no: False
    have "0 < hp u" using st assms unfolding life_inv_def by blast
    with no have h: "0 < h" by linarith
    have m: "0 < max_hp u" using assms by (simp add: life_inv_def shape_def)
    have "life_inv (u\<lparr>hp := max_hp u\<rparr>)" "h \<le> max_hp u \<Longrightarrow> life_inv (u\<lparr>hp := h\<rparr>)" using life_hp [OF assms] h m by simp_all
    then show ?thesis using True no by (auto simp: SyncHP_def)
  next
    case k: True
    let ?u0 = "u\<lparr>hp := 0\<rparr>"
    have sh: "shape ?u0" using assms by (simp add: life_inv_def shape_def)
    have "unit_type (ust u) \<in> {1, 2, 6}" using types_of [OF sh] by auto
    then have "next_of state_table (unit_type (ust ?u0)) (ustatus ?u0) 5 = Some 8" using next_life(4) st by simp
    from life_upd [OF sh this, of "GetStateTimeout u * 100"]
    obtain s' where s': "UpdateState 5 (GetStateTimeout u * 100) ?u0 = Inr (?u0\<lparr>ust := s'\<rparr>)" "life_inv (?u0\<lparr>ust := s'\<rparr>)" by (auto simp: life_states_def)
    then show ?thesis using True k by (auto simp: SyncHP_def Let_def)
  qed
qed

lemma Attacked_ok:
  assumes "life_inv u" "op_fits env u (UAttacked t)"
  shows "\<exists>u'. OnAttacked t u = Inr u' \<and> life_inv u'"
proof -
  have sh: "shape u" by (rule life_shape [OF assms(1)])
  have ty: "unit_type (ust u) \<in> {1, 2, 6}" using types_of [OF sh] by auto
  have st: "ustatus u \<in> {1, 3, 4, 5, 8, 9}" using assms(2) by simp
  have set_t: "life_inv (SetStateTimeout t u)" if "ustatus u = c" "c = 3 \<or> c = 8" for c
    using that(2) assms(1) by (elim disjE; simp add: that(1) SetStateTimeout_def life_inv_def shape_def State_SetTimeOut_def is_player_def is_mob_def)
  consider "ustatus u = 8" | "ustatus u = 3" | "ustatus u \<in> {1, 9}" "\<not> (ustatus u = 9 \<and> round_counter u \<noteq> 0)" | "ustatus u = 9" "round_counter u \<noteq> 0" | "ustatus u \<in> {4, 5}"
    using st by auto
  then show ?thesis
  proof cases
    case 1
    then show ?thesis using set_t [OF 1] by (simp add: OnAttacked_def IsZombie_def)
  next
    case 2
    then show ?thesis using set_t [OF 2] assms(1) by (simp add: OnAttacked_def IsZombie_def IsSneaked_def IsAttacked_def)
  next
    case 3
    have nx: "next_of state_table (unit_type (ust u)) (ustatus u) 3 = Some 3" by (rule next_life(3) [OF ty]) (use 3(1) in blast)
    have "0 < hp u" using 3(1) assms(1) unfolding life_inv_def by blast
    from life_upd [OF sh nx, of t] this obtain s' where s': "UpdateState 3 t u = Inr (u\<lparr>ust := s'\<rparr>)" "life_inv (u\<lparr>ust := s'\<rparr>)"
      by (auto simp: life_states_def)
    have "\<not> IsZombie u" "\<not> (IsSneaked u \<and> round_counter u \<noteq> 0)" "\<not> IsAttacked u" using 3 by (auto simp: IsZombie_def IsSneaked_def IsAttacked_def)
    then have "OnAttacked t u = UpdateState 3 t u" by (simp only: OnAttacked_def if_False if_True simp_thms)
    then show ?thesis using s' by simp
  next
    case 4
    let ?u = "Unit_ResetATB u"
    have r: "life_inv ?u" "ust ?u = ust u" "hp ?u = hp u" using assms(1) by (simp_all add: Unit_ResetATB_def)
    have nx: "next_of state_table (unit_type (ust ?u)) (ustatus ?u) 12 = Some 1" using next_life(5) [OF ty, of 9] 4 r(2) by simp
    have "0 < hp ?u" using 4(1) assms(1) r(3) by (simp add: life_inv_def)
    from life_upd [OF life_shape [OF r(1)] nx, of "- 1"] this
    obtain s' where s': "UpdateState 12 (- 1) ?u = Inr (?u\<lparr>ust := s'\<rparr>)" "life_inv (?u\<lparr>ust := s'\<rparr>)" by (auto simp: life_states_def)
    then have "OnSneakedEnd u = Inr (tell KClrSneaked (?u\<lparr>ust := s'\<rparr>))" "life_inv (tell KClrSneaked (?u\<lparr>ust := s'\<rparr>))" by (simp_all add: OnSneakedEnd_def)
    moreover have "OnAttacked t u = OnSneakedEnd u" using 4 by (simp add: OnAttacked_def IsZombie_def IsSneaked_def)
    ultimately show ?thesis by simp
  next
    case 5
    then have p: "is_player u" "unit_type (ust u) = 1" using assms(1) by (auto simp: life_inv_def is_player_def)
    then have nx: "next_of state_table (unit_type (ust u)) (ustatus u) 3 = Some (ustatus u)" using next_player(2,3) 5 by auto
    have "ustatus u \<in> life_states" "ustatus u \<notin> {10, 11, 16, 1, 6, 9, 2, 3}" using 5 by (auto simp: life_states_def)
    from life_upd [OF sh nx this(1), of t] p(1) this(2)
    obtain s' where s': "UpdateState 3 t u = Inr (u\<lparr>ust := s'\<rparr>)" "life_inv (u\<lparr>ust := s'\<rparr>)" by blast
    have "\<not> IsZombie u" "\<not> IsSneaked u" "\<not> IsAttacked u" using 5 by (auto simp: IsZombie_def IsSneaked_def IsAttacked_def)
    then have "OnAttacked t u = UpdateState 3 t u" by (simp add: OnAttacked_def)
    then show ?thesis using s' by simp
  qed
qed

lemma Resurrect_ok:
  assumes "life_inv u" "ustatus u \<noteq> 6"
  shows "Resurrect scale u = Inr u"
  using assms by (simp add: Resurrect_def IsDead_def)

lemma Sneak_ok:
  assumes "life_inv u" "ustatus u = 1"
  shows "\<exists>u'. SetSneaked u = Inr u' \<and> life_inv u'"
proof -
  have "unit_type (ust u) \<in> {1, 2, 6}" using types_of [OF life_shape [OF assms(1)]] by auto
  then have nx: "next_of state_table (unit_type (ust u)) (ustatus u) 1 = Some 9" using next_life(1) assms(2) by simp
  have "0 < hp u" using assms by (simp add: life_inv_def)
  from life_upd [OF life_shape [OF assms(1)] nx, of "- 1"] this show ?thesis by (auto simp: SetSneaked_def life_states_def)
qed

lemma Act_ok:
  assumes "life_inv u" "op_fits env u (UAct t)"
  shows "\<exists>u'. AttackEnd_self t u = Inr u' \<and> life_inv u'"
proof -
  have sh: "shape u" by (rule life_shape [OF assms(1)])
  have st: "ustatus u = 1 \<or> ustatus u = 4 \<or> ustatus u = 8" using assms(2) by auto
  show ?thesis
  proof (cases "ustatus u = 1")
    case True
    have "unit_type (ust u) \<in> {1, 2, 6}" using types_of [OF sh] by auto
    then have nx: "next_of state_table (unit_type (ust u)) (ustatus u) 2 = Some 2" using next_life(2) True by simp
    have "0 < hp u" using assms(1) True by (simp add: life_inv_def)
    from life_upd [OF sh nx, of t] this True show ?thesis by (auto simp: AttackEnd_self_def IsZombie_def IsZombieDying_def life_states_def)
  next
    case False
    have "life_inv (SetStateTimeout t u)" if "ustatus u = c" "c = 4 \<or> c = 8" for c
      using that(2) assms(1) by (elim disjE; simp add: that(1) SetStateTimeout_def life_inv_def shape_def State_SetTimeOut_def is_player_def is_mob_def)
    then have "life_inv (SetStateTimeout t u)" using st False by blast
    then show ?thesis using st False by (auto simp: AttackEnd_self_def IsZombie_def IsZombieDying_def)
  qed
qed

lemma Trigger_ok:
  assumes "life_inv u"
  shows "life_inv (TriggerTransform tid u)" "life_inv (TriggerEscape r u)"
  using assms by (simp_all add: TriggerTransform_def TriggerEscape_def)

text \<open>The options of a state decide who may transform or escape.\<close>

lemma can_states:
  assumes "life_inv u"
  shows "CanDo OPT_TRANSFORM u \<Longrightarrow> ustatus u = 1 \<or> ustatus u = 2 \<or> ustatus u = 3"
    "CanDo OPT_ESCAPE u \<Longrightarrow> ustatus u = 1 \<or> ustatus u = 2 \<or> ustatus u = 3"
proof -
  have "ustatus u \<in> life_states" "opts (state (ust u)) = opts (state_pool ! nat (ustatus u))" using assms by (simp_all add: life_inv_def)
  then show "CanDo OPT_TRANSFORM u \<Longrightarrow> ustatus u = 1 \<or> ustatus u = 2 \<or> ustatus u = 3"
    "CanDo OPT_ESCAPE u \<Longrightarrow> ustatus u = 1 \<or> ustatus u = 2 \<or> ustatus u = 3"
    unfolding life_states_def by (auto simp: CanDo_def state_pool_def new_state_def)
qed

lemma mob_moves:
  assumes "life_inv u" "is_mob u" "ustatus u = 1 \<or> ustatus u = 2 \<or> ustatus u = 3"
  shows "\<exists>u'. UpdateState 13 t u = Inr u' \<and> life_inv u'" "\<exists>u'. UpdateState 18 t u = Inr u' \<and> life_inv u'"
proof -
  have ty: "unit_type (ust u) = 2" using assms(2) by (simp add: is_mob_def)
  have "next_of state_table (unit_type (ust u)) (ustatus u) 13 = Some 10" "next_of state_table (unit_type (ust u)) (ustatus u) 18 = Some 16"
    using assms(3) next_mob(1,5) ty by auto
  from life_upd [OF life_shape [OF assms(1)] this(1), of t] life_upd [OF life_shape [OF assms(1)] this(2), of t] assms(2)
  show "\<exists>u'. UpdateState 13 t u = Inr u' \<and> life_inv u'" "\<exists>u'. UpdateState 18 t u = Inr u' \<and> life_inv u'"
    by (fastforce simp: life_states_def)+
qed

lemma Transform_ok:
  assumes "life_inv u" "is_mob u"
  shows "CanDo OPT_TRANSFORM u \<Longrightarrow> \<exists>u'. Transform tid u = Inr u' \<and> life_inv u'" "CanDo OPT_ESCAPE u \<Longrightarrow> \<exists>u'. Escape u = Inr u' \<and> life_inv u'"
proof -
  assume c: "CanDo OPT_TRANSFORM u"
  have "life_inv (u\<lparr>new_mob_tid := tid\<rparr>)" "is_mob (u\<lparr>new_mob_tid := tid\<rparr>)" using assms by (simp_all add: is_mob_def)
  from mob_moves(1) [OF this] can_states(1) [OF assms(1) c] show "\<exists>u'. Transform tid u = Inr u' \<and> life_inv u'" using c by (simp add: Transform_def)
next
  assume "CanDo OPT_ESCAPE u"
  then show "\<exists>u'. Escape u = Inr u' \<and> life_inv u'" using mob_moves(2) [OF assms] can_states(2) [OF assms(1)] by (simp add: Escape_def)
qed

lemma Transforming_ok:
  assumes "life_inv u" "is_mob u" "ustatus u = 1"
  shows "\<exists>u'. UpdateState EVENT_TRANSFORMING 3000 u = Inr u' \<and> life_inv u'"
proof -
  have "unit_type (ust u) = 2" using assms(2) by (simp add: is_mob_def)
  then have nx: "next_of state_table (unit_type (ust u)) (ustatus u) 14 = Some 11" using next_mob(3) assms(3) by simp
  have "0 < hp u" using assms(1,3) by (simp add: life_inv_def)
  from life_upd [OF life_shape [OF assms(1)] nx, of 3000] assms(2) this show ?thesis by (auto simp: life_states_def)
qed

lemma Heal_ok:
  assumes "life_inv u" "heals life u"
  shows "life_inv (DoHeal life u)"
proof -
  have b: "hp u \<le> max_hp u" "- 2147483648 \<le> hp u" using assms(1) by (simp_all add: life_inv_def shape_def)
  from DoHeal_hp [OF this assms(2)] obtain h where h: "DoHeal life u = u\<lparr>hp := h\<rparr>" "hp u \<le> h" "h \<le> max_hp u" by blast
  have "ustatus u \<in> {1, 2, 3, 9, 11} \<longrightarrow> 0 < hp u" using assms unfolding life_inv_def by blast
  then have "life_inv (u\<lparr>hp := h\<rparr>)" by (intro life_hp [OF assms(1) h(3)]) (use b h(2) in linarith)+
  then show ?thesis using h(1) by simp
qed

lemma SetHP_ok:
  assumes "life_inv u" "0 < h"
  shows "life_inv (SetHP h u)"
proof (cases "\<not> IsAlive u \<or> h = hp u")
  case False
  have "0 < max_hp u" using assms(1) by (simp add: life_inv_def shape_def)
  then have "life_inv (u\<lparr>hp := min h (max_hp u)\<rparr>)" using life_hp [OF assms(1), of "min h (max_hp u)"] assms(2) by simp
  then show ?thesis using False by (simp add: SetHP_def)
qed (use assms(1) in \<open>auto simp: SetHP_def\<close>)

section \<open>The heartbeat\<close>

text \<open>Where a time-out leads.\<close>

definition after_timeout :: "int \<Rightarrow> int" where
  "after_timeout c = (if c = 2 \<or> c = 3 \<or> c = 11 then 1 else if c = 4 then 5 else 6)"

abbreviation waiting :: "int \<Rightarrow> bool" where "waiting c \<equiv> c \<in> {2, 3, 4, 5, 8, 10, 11, 16}"

lemma timeout_next:
  assumes "life_inv u" "waiting (ustatus u)"
  shows "next_of state_table (unit_type (ust u)) (ustatus u) 12 = Some (after_timeout (ustatus u))"
proof -
  have ty: "unit_type (ust u) \<in> {1, 2, 6}" using types_of [OF life_shape [OF assms(1)]] by auto
  have p: "unit_type (ust u) = 1" if "ustatus u = 4 \<or> ustatus u = 5" using assms(1) that by (auto simp: life_inv_def is_player_def)
  have m: "unit_type (ust u) = 2" if "ustatus u = 10 \<or> ustatus u = 11 \<or> ustatus u = 16" using assms(1) that by (auto simp: life_inv_def is_mob_def)
  have "ustatus u = 2 \<or> ustatus u = 3 \<or> ustatus u = 8 \<or> (ustatus u = 4 \<or> ustatus u = 5) \<or> ustatus u = 10 \<or> ustatus u = 11 \<or> ustatus u = 16"
    using assms(2) by auto
  then show ?thesis
    by (elim disjE) (simp_all add: after_timeout_def next_life(5) [OF ty, of 2] next_life(5) [OF ty, of 3] next_life(6) [OF ty] p m next_player next_mob)
qed

definition same_unit :: "'x cunit \<Rightarrow> 'x cunit \<Rightarrow> bool" where
  "same_unit u v \<longleftrightarrow> ust v = ust u \<and> is_team_npc v = is_team_npc u \<and> max_hp v = max_hp u \<and> hp u \<le> hp v \<and> hp v \<le> max_hp v"

lemma same_tell [simp]: "same_unit u (tell c v) = same_unit u v" "same_unit u (Unit_RegisterATB v) = same_unit u v"
  "same_unit u (v\<lparr>new_mob_tid := i\<rparr>) = same_unit u v"
  by (simp_all add: same_unit_def tell_def Unit_RegisterATB_def)

lemma buffs_same:
  assumes "gentle env" "shape u"
  obtains v where "buffs env occ u = Inr v" "same_unit u v" "calls v = calls u" "killer v = killer u"
proof -
  have "hp u \<le> max_hp u" "- 2147483648 \<le> hp u" using assms(2) by (simp_all add: shape_def)
  from buffs_gentle [OF assms(1) this, of occ] obtain h x where "buffs env occ u = Inr (u\<lparr>rest := x, hp := h\<rparr>)" "hp u \<le> h" "h \<le> max_hp u" by blast
  then show ?thesis using that by (simp add: same_unit_def)
qed

lemma OnTime_ok:
  assumes "life_inv u" "waiting (ustatus u)" "gentle env"
  shows "\<exists>v. OnTime env u = Inr v \<and> same_unit u v"
proof -
  have sh: "shape u" by (rule life_shape [OF assms(1)])
  have b: "\<exists>v. buffs env occ u = Inr v \<and> same_unit u v" for occ using buffs_same [OF assms(3) sh, of occ] by metis
  have r: "\<exists>v. RoundEnd env u = Inr v \<and> same_unit u v" "\<exists>v. Dying env u = Inr v \<and> same_unit u v" "\<exists>v. Die env u = Inr v \<and> same_unit u v"
    using b [of AtRoundEnd] b [of AtDying] b [of AtDeath] by (auto simp: RoundEnd_def Dying_def Die_def)
  have s: "same_unit u u" using sh by (simp add: same_unit_def shape_def)
  have ty: "unit_type (ust u) \<in> {1, 2, 6}" using types_of [OF sh] by auto
  have p: "is_player u" if "ustatus u = 4 \<or> ustatus u = 5" using assms(1) that by (auto simp: life_inv_def)
  have m: "is_mob u" if "ustatus u = 10 \<or> ustatus u = 11 \<or> ustatus u = 16" using assms(1) that by (auto simp: life_inv_def)
  have "ustatus u = 2 \<or> ustatus u = 3 \<or> ustatus u = 8 \<or> ustatus u = 4 \<or> ustatus u = 5 \<or> ustatus u = 10 \<or> ustatus u = 11 \<or> ustatus u = 16"
    using assms(2) by auto
  then show ?thesis
    by (elim disjE) (use r s ty p m in \<open>simp_all add: OnTime_def TransformWaitEnd_def\<close>)
qed

lemma same_shape: "same_unit u v \<Longrightarrow> shape u \<Longrightarrow> shape v"
  by (simp add: same_unit_def shape_def)

lemma same_kind: "same_unit u v \<Longrightarrow> is_player v = is_player u \<and> is_mob v = is_mob u"
  by (simp add: same_unit_def is_player_def is_mob_def)

abbreviation end_time :: "int \<Rightarrow> int" where "end_time c \<equiv> (if c = 4 then 3000 else - 1)"

lemma timeout_upd:
  assumes "life_inv u" "waiting (ustatus u)" "same_unit u v"
  obtains s' where "UpdateState 12 (end_time (ustatus u)) v = Inr (v\<lparr>ust := s'\<rparr>)" "life_inv (v\<lparr>ust := s'\<rparr>)" "status (state s') = after_timeout (ustatus u)"
    "unit_type s' = unit_type (ust u)" "timeout (state s') = (if ustatus u = 4 then 30 else - 1)"
proof -
  let ?n = "after_timeout (ustatus u)"
  have e: "ust v = ust u" using assms(3) by (simp add: same_unit_def)
  have nx: "next_of state_table (unit_type (ust v)) (ustatus v) 12 = Some ?n" using timeout_next [OF assms(1,2)] e by simp
  have sh: "shape v" by (rule same_shape [OF assms(3) life_shape [OF assms(1)]])
  have hp: "0 < hp v" if "ustatus u = 2 \<or> ustatus u = 3 \<or> ustatus u = 11"
  proof -
    have "0 < hp u" using assms(1) that unfolding life_inv_def by blast
    then show ?thesis using assms(3) unfolding same_unit_def by linarith
  qed
  have pl: "is_player v" if "ustatus u = 4" using same_kind [OF assms(3)] assms(1) that by (simp add: life_inv_def)
  have n: "?n = 1 \<or> ?n = 5 \<or> ?n = 6" by (simp add: after_timeout_def)
  have c: "?n \<in> life_states" "?n \<in> {4, 5} \<longrightarrow> is_player v" "?n \<in> {10, 11, 16} \<longrightarrow> is_mob v" "?n \<in> {1, 6, 9} \<longrightarrow> end_time (ustatus u) < 0"
    "?n \<in> {1, 2, 3, 9, 11} \<longrightarrow> 0 < hp v"
    by (use n hp pl in \<open>auto simp: after_timeout_def life_states_def split: if_splits\<close>)
  obtain s' where s': "UpdateState 12 (end_time (ustatus u)) v = Inr (v\<lparr>ust := s'\<rparr>)" "life_inv (v\<lparr>ust := s'\<rparr>)" "status (state s') = ?n"
    "unit_type s' = unit_type (ust v)" "timeout (state s') = (if end_time (ustatus u) < 0 then - 1 else beats_of (end_time (ustatus u)))"
    by (rule life_upd [OF sh nx c])
  moreover have "timeout (state s') = (if ustatus u = 4 then 30 else - 1)" using s'(5) by (simp add: beats_of_def)
  ultimately show ?thesis using that e by simp
qed

lemma resting: "life_inv u \<Longrightarrow> GetStateTimeout u \<noteq> - 1 \<Longrightarrow> waiting (ustatus u)"
  unfolding life_inv_def life_states_def by blast

lemma set_time_ok: "life_inv u \<Longrightarrow> waiting (ustatus u) \<Longrightarrow> life_inv (u\<lparr>ust := (ust u)\<lparr>state := (state (ust u))\<lparr>timeout := t\<rparr>\<rparr>\<rparr>)"
proof -
  assume a: "life_inv u" "waiting (ustatus u)"
  then have "ustatus u \<notin> {1, 6, 9}" by auto
  then show ?thesis using a(1) unfolding life_inv_def by (simp add: shape_def is_player_def is_mob_def)
qed

lemma State_beat_ok:
  assumes "life_inv u" "gentle env"
  shows "\<exists>v. UnitState_HeartBeat env u = Inr v \<and> life_inv v"
proof -
  let ?set = "\<lambda>t. u\<lparr>ust := (ust u)\<lparr>state := (state (ust u))\<lparr>timeout := t\<rparr>\<rparr>\<rparr>"
  consider "GetStateTimeout u = - 1" | "GetStateTimeout u \<noteq> - 1" "GetStateTimeout u - 1 > 0" | "GetStateTimeout u \<noteq> - 1" "GetStateTimeout u - 1 \<le> 0"
    by linarith
  then show ?thesis
  proof cases
    case 1
    then show ?thesis using assms(1) by (simp add: UnitState_HeartBeat_def)
  next
    case 2
    then show ?thesis using set_time_ok [OF assms(1) resting [OF assms(1) 2(1)]] by (simp add: UnitState_HeartBeat_def Let_def)
  next
    case 3
    have w: "waiting (ustatus u)" by (rule resting [OF assms(1) 3(1)])
    let ?u = "?set 0"
    have i: "life_inv ?u" "waiting (ustatus ?u)" "ustatus ?u = ustatus u" using set_time_ok [OF assms(1) w] w by simp_all
    obtain v where v: "OnTime env ?u = Inr v" "same_unit ?u v" using OnTime_ok [OF i(1,2) assms(2)] by blast
    obtain s' where s': "UpdateState 12 (end_time (ustatus u)) v = Inr (v\<lparr>ust := s'\<rparr>)" "life_inv (v\<lparr>ust := s'\<rparr>)"
      using timeout_upd [OF i(1,2) v(2)] i(3) by metis
    have st: "ustatus v = ustatus u" using v(2) i(3) by (simp add: same_unit_def)
    have "ustatus u \<noteq> 14" "ustatus u \<notin> {12, 13, 15}" using w by auto
    then have "UnitState_HeartBeat env u = Inr (v\<lparr>ust := s'\<rparr>)" using 3 v(1) s'(1) st by (auto simp: UnitState_HeartBeat_def Let_def IsZombieDying_def)
    then show ?thesis using s'(2) by blast
  qed
qed

lemma Beat_ok:
  assumes "life_inv u" "gentle env"
  shows "\<exists>v. Unit_HeartBeat env u = Inr v \<and> life_inv v"
proof -
  obtain v where v: "UnitState_HeartBeat env u = Inr v" "life_inv v" using State_beat_ok [OF assms] by blast
  show ?thesis
  proof (cases "is_player v \<and> IsDying v \<and> hp v > 0")
    case False
    then show ?thesis using v by (auto simp: Unit_HeartBeat_def)
  next
    case True
    let ?v = "v\<lparr>killer := 0\<rparr>"
    have sh: "shape ?v" using v(2) by (simp add: life_inv_def shape_def)
    have nx: "next_of state_table (unit_type (ust ?v)) (ustatus ?v) 11 = Some 1"
      using True next_player(6) [of "ustatus v"] by (auto simp: is_player_def IsDying_def IsZombieDying_def)
    have "0 < hp ?v" using True by simp
    from life_upd [OF sh nx, of "- 1"] this obtain s' where s': "UpdateState 11 (- 1) ?v = Inr (?v\<lparr>ust := s'\<rparr>)" "life_inv (?v\<lparr>ust := s'\<rparr>)"
      by (auto simp: life_states_def)
    then have "Revive v = Inr (tell KRegister (?v\<lparr>ust := s'\<rparr>)) \<and> life_inv (tell KRegister (?v\<lparr>ust := s'\<rparr>))" by (simp add: Revive_def)
    then show ?thesis using v True by (simp add: Unit_HeartBeat_def)
  qed
qed

lemma unit_do_ok:
  assumes "life_inv u \<and> gentle env" "op_fits env u x"
  shows "\<exists>v. unit_do env u x = Inr v \<and> life_inv v \<and> gentle env"
proof -
  have i: "life_inv u" and g: "gentle env" using assms(1) by simp_all
  have "\<exists>v. unit_do env u x = Inr v \<and> life_inv v"
  proof (cases x)
    case (UResurrect k)
    then show ?thesis using Resurrect_ok [OF i] assms(2) i by simp
  next
    case (UHeal life)
    then show ?thesis using Heal_ok [OF i] assms(2) by simp
  next
    case (UDamage d a)
    then show ?thesis using Damage_ok [OF i, of env d a] assms(2) by simp
  next
    case (UAttacked t)
    then show ?thesis using Attacked_ok [OF i, of env t] assms(2) by simp
  next
    case (UAct t)
    then show ?thesis using Act_ok [OF i, of env t] assms(2) by simp
  next
    case UBeat
    then show ?thesis using Beat_ok [OF i g] by simp
  qed (use assms(2) i SetHP_ok [OF i] SyncHP_ok [OF i] Sneak_ok [OF i] Trigger_ok [OF i] Transform_ok [OF i] Transforming_ok [OF i] in simp_all)
  then show ?thesis using g by blast
qed

interpretation lives: invariant_system "unit_do env" "op_fits env" "\<lambda>u. life_inv u \<and> gentle env" for env
  by unfold_locales (rule unit_do_ok)

end
