(* ===== verification/UnitProps.thy ===== *)
theory UnitProps
  imports UnitLife
begin

text \<open>
  Properties of the life of a unit: the order that all operations keep, how it dies, and where its
  machine leaves it in a state that it cannot leave, or aborts.
\<close>

section \<open>Properties\<close>

text \<open>A unit as it enters a combat: its machine is started with its type when its properties are set.\<close>

definition fresh_unit :: "int \<Rightarrow> int \<Rightarrow> int \<Rightarrow> 'x \<Rightarrow> 'x cunit res" where
  "fresh_unit ut h m x = bindr (UnitState_Init ut (UnitState_new first_records)) (\<lambda>s.
     Inr \<lparr>ust = s, is_team_npc = False, hp = h, max_hp = m, killer = 0, round_counter = 0, is_atb_owner = True, is_transforming = False,
       is_escaping = False, new_mob_tid = 0, calls = [], rest = x\<rparr>)"

lemma fresh_unit_ok:
  assumes "ut \<in> {1, 2, 6}" "0 < h" "h \<le> m" "m < 2147483648"
  obtains u where "fresh_unit ut h m x = Inr u" "life_inv u" "ustatus u = 1" "unit_type (ust u) = ut" "hp u = h" "max_hp u = m" "calls u = []" "killer u = 0"
    "\<not> is_escaping u" "GetStateTimeout u = - 1" "is_team_npc u = False" "round_counter u = 0"
proof -
  let ?s0 = "(UnitState_new first_records)\<lparr>unit_type := ut\<rparr>"
  have nx: "next_of state_table ut 0 0 = Some 1" using assms(1) by (auto simp: next_simps)
  have s0: "records_ok (records ?s0)" "next_of state_table (unit_type ?s0) (status (state ?s0)) 0 = Some 1"
    using nx first_records_ok pool_status [of 0] by (simp_all add: UnitState_new_def)
  obtain s where s: "UnitState_Update 0 (- 1) ?s0 = Inr s" "unit_type s = ut" "records_ok (records s)" "status (state s) = 1" "state s = State_SetTimeOut (- 1) (state_pool ! nat 1)"
    using Update_ok [OF s0, of "- 1"] by auto
  have t: "timeout (state s) = - 1" "opts (state s) = opts (state_pool ! nat 1)" using s(5) pool_status [of 1] by (simp_all add: State_SetTimeOut_def)
  obtain u where u: "fresh_unit ut h m x = Inr u" "u = \<lparr>ust = s, is_team_npc = False, hp = h, max_hp = m, killer = 0, round_counter = 0, is_atb_owner = True,
      is_transforming = False, is_escaping = False, new_mob_tid = 0, calls = [], rest = x\<rparr>"
    using s(1) by (simp add: fresh_unit_def UnitState_Init_def)
  have "life_inv u" using assms s(2-4) t by (simp add: life_inv_def shape_def life_states_def u(2))
  then show ?thesis using that [OF u(1)] u(2) s(2,4) t(1) by simp
qed

definition calm_env :: "unit unit_env" where
  "calm_env = \<lparr>buff_hits = \<lambda>_ _. ([], ()), GetTeammatesAlive = \<lambda>_. 1, IsStateClose = \<lambda>_. False\<rparr>"

definition poison_env :: "unit unit_env" where
  "poison_env = calm_env\<lparr>buff_hits := \<lambda>_ _. ([Hurt 20 7], ())\<rparr>"

lemma calm_gentle: "gentle calm_env" by (simp add: gentle_def calm_env_def)

text \<open>A unit in a state of the pool, with no time to wait.\<close>

definition pool_unit :: "int \<Rightarrow> int \<Rightarrow> int \<Rightarrow> unit cunit" where
  "pool_unit c ut h = \<lparr>ust = \<lparr>state = state_pool ! nat c, unit_type = ut, records = first_records\<rparr>, is_team_npc = False, hp = h, max_hp = 10,
     killer = 0, round_counter = 0, is_atb_owner = True, is_transforming = False, is_escaping = False, new_mob_tid = 0, calls = [], rest = ()\<rparr>"

lemma pool_unit_simps [simp]:
  assumes "0 \<le> c" "c < 17"
  shows "ustatus (pool_unit c ut h) = c" "GetStateTimeout (pool_unit c ut h) = - 1" "hp (pool_unit c ut h) = h" "is_escaping (pool_unit c ut h) = False"
    "is_player (pool_unit c ut h) = (ut = 1)" "is_boss (pool_unit c ut h) = (ut = 6)" "killer (pool_unit c ut h) = 0" "calls (pool_unit c ut h) = []"
  using pool_status [OF assms] by (simp_all add: pool_unit_def is_player_def is_boss_def)

lemma pool_unit_ok:
  assumes "c \<in> {1, 2, 6, 9}" "ut \<in> {1, 2, 6}" "c \<noteq> 6 \<longrightarrow> 0 < h" "- 2147483648 \<le> h" "h \<le> 10"
  shows "life_inv (pool_unit c ut h)"
proof -
  have c: "c = 1 \<or> c = 2 \<or> c = 6 \<or> c = 9" using assms(1) by auto
  have u: "unit_type (ust (pool_unit c ut h)) = ut" "records (ust (pool_unit c ut h)) = first_records" "max_hp (pool_unit c ut h) = 10"
    "opts (state (ust (pool_unit c ut h))) = opts (state_pool ! nat c)"
    by (simp_all add: pool_unit_def)
  show ?thesis using c u first_records_ok assms(2-5) unfolding life_inv_def shape_def by (elim disjE) (simp_all add: life_states_def)
qed



section \<open>Death\<close>

definition with_timeout :: "int \<Rightarrow> 'x cunit \<Rightarrow> 'x cunit" where
  "with_timeout t u = u\<lparr>ust := (ust u)\<lparr>state := (state (ust u))\<lparr>timeout := t\<rparr>\<rparr>\<rparr>"

lemma with_timeout_simps [simp]:
  "GetStateTimeout (with_timeout t u) = t" "ustatus (with_timeout t u) = ustatus u" "calls (with_timeout t u) = calls u" "hp (with_timeout t u) = hp u"
  "killer (with_timeout t u) = killer u" "with_timeout t (with_timeout k u) = with_timeout t u" "with_timeout (GetStateTimeout u) u = u"
  by (simp_all add: with_timeout_def)

lemma State_beat_cases:
  "GetStateTimeout u = - 1 \<Longrightarrow> UnitState_HeartBeat env u = Inr u"
  "1 < GetStateTimeout u \<Longrightarrow> UnitState_HeartBeat env u = Inr (with_timeout (GetStateTimeout u - 1) u)"
  by (simp_all add: UnitState_HeartBeat_def Let_def with_timeout_def)

lemma State_beat_end:
  assumes "life_inv u" "gentle env" "GetStateTimeout u \<noteq> - 1" "GetStateTimeout u \<le> 1"
  obtains v s' where "OnTime env (with_timeout 0 u) = Inr v" "same_unit (with_timeout 0 u) v" "UnitState_HeartBeat env u = Inr (v\<lparr>ust := s'\<rparr>)"
    "life_inv (v\<lparr>ust := s'\<rparr>)" "status (state s') = after_timeout (ustatus u)" "timeout (state s') = (if ustatus u = 4 then 30 else - 1)"
proof -
  have w: "waiting (ustatus u)" by (rule resting [OF assms(1,3)])
  have i: "life_inv (with_timeout 0 u)" "waiting (ustatus (with_timeout 0 u))" using set_time_ok [OF assms(1) w, of 0] w by (simp_all add: with_timeout_def)
  obtain v where v: "OnTime env (with_timeout 0 u) = Inr v" "same_unit (with_timeout 0 u) v" using OnTime_ok [OF i assms(2)] by blast
  obtain s' where s': "UpdateState 12 (end_time (ustatus u)) v = Inr (v\<lparr>ust := s'\<rparr>)" "life_inv (v\<lparr>ust := s'\<rparr>)" "status (state s') = after_timeout (ustatus u)"
    "timeout (state s') = (if ustatus u = 4 then 30 else - 1)"
    using timeout_upd [OF i v(2)] by (metis with_timeout_simps(2))
  have st: "ustatus v = ustatus u" using v(2) by (simp add: same_unit_def with_timeout_def)
  have "ustatus u \<noteq> 14" "ustatus u \<notin> {12, 13, 15}" using w by auto
  then have "UnitState_HeartBeat env u = Inr (v\<lparr>ust := s'\<rparr>)"
    using v(1) s'(1) st assms(3,4) by (auto simp: UnitState_HeartBeat_def Let_def IsZombieDying_def with_timeout_def)
  then show ?thesis using that v s' by blast
qed

lemma kill:
  assumes "dealt d u" "life_inv u" "\<not> is_escaping u" "ustatus u \<in> {1, 2, 3, 9}" "lethal d u" "is_player u \<longrightarrow> GetTeammatesAlive env (lose d a u) \<le> 1"
  obtains s' where "DoDamage env d a u = Inr (out_of_combat ((lose d a u)\<lparr>ust := s'\<rparr>))" "life_inv ((lose d a u)\<lparr>ust := s'\<rparr>)"
    "status (state s') = 8" "timeout (state s') = - 1" "unit_type s' = unit_type (ust u)"
proof -
  let ?u1 = "lose d a u"
  have al: "IsAlive u" "\<not> IsZombie u" "\<not> IsDead u"
    using assms(3,4) by (auto simp: IsAlive_def IsDying_def IsZombieDying_def IsDead_def IsZombie_def)
  have d: "0 < d" using assms(5) by (simp add: lethal_def)
  have sh: "shape ?u1" using shape_lose [OF life_shape [OF assms(2)] assms(1)] d by simp
  have "unit_type (ust ?u1) \<in> {1, 2, 6}" using types_of [OF sh] by auto
  then have nx: "next_of state_table (unit_type (ust ?u1)) (ustatus ?u1) 5 = Some 8" using next_life(4) assms(4) by (simp add: lose_props)
  obtain s' where s': "UpdateState 5 (- 1) ?u1 = Inr (?u1\<lparr>ust := s'\<rparr>)" "life_inv (?u1\<lparr>ust := s'\<rparr>)" "status (state s') = 8" "timeout (state s') = - 1"
    "unit_type s' = unit_type (ust u)"
    using life_upd [OF sh nx, of "- 1"] by (auto simp: life_states_def lose_props)
  have "(if is_player u \<and> GetTeammatesAlive env ?u1 > 1 then 4 else 5 :: int) = 5" using assms(6) by auto
  then have "DoDamage env d a u = bindr (UpdateState 5 (- 1) ?u1) (\<lambda>u2. Inr (out_of_combat u2))"
    using DoDamage_cases(2) [OF d al(2,3) _ life_shape [OF assms(2)] assms(1,5), of env a] al(1) by simp
  then show ?thesis using that s' by simp
qed

lemma zombie_beat:
  assumes "life_inv u" "gentle env" "IsZombie u" "GetStateTimeout u \<noteq> - 1" "GetStateTimeout u \<le> 1"
  obtains w where "Unit_HeartBeat env u = Inr w" "IsDead w" "GetStateTimeout w = - 1" "calls w = calls u @ [KDeath, KSomeoneDead (killer u)]"
proof -
  obtain v s' where v: "OnTime env (with_timeout 0 u) = Inr v" "UnitState_HeartBeat env u = Inr (v\<lparr>ust := s'\<rparr>)"
    "status (state s') = after_timeout (ustatus u)" "timeout (state s') = (if ustatus u = 4 then 30 else - 1)"
    using State_beat_end [OF assms(1,2,4,5)] by metis
  have st: "ustatus u = 8" using assms(3) by (simp add: IsZombie_def)
  have sh: "shape (with_timeout 0 u)" using life_shape [OF assms(1)] by (simp add: shape_def with_timeout_def)
  obtain b where b: "buffs env AtDeath (with_timeout 0 u) = Inr b" "calls b = calls u" "killer b = killer u"
    using buffs_same [OF assms(2) sh, of AtDeath] by (metis with_timeout_simps(3,5))
  have "unit_type (ust u) \<in> {1, 2, 6}" using types_of [OF life_shape [OF assms(1)]] by auto
  then have "OnTime env (with_timeout 0 u) = Die env (with_timeout 0 u)" using st by (auto simp: OnTime_def with_timeout_def)
  then have c: "calls v = calls u @ [KDeath, KSomeoneDead (killer u)]" using b v(1) by (auto simp: Die_def)
  have "Unit_HeartBeat env u = Inr (v\<lparr>ust := s'\<rparr>)" using v(2,3) st by (simp add: Unit_HeartBeat_def IsDying_def IsZombieDying_def after_timeout_def)
  then show ?thesis using that [of "v\<lparr>ust := s'\<rparr>"] v(3,4) st c by (simp add: IsDead_def after_timeout_def)
qed

lemma zombie_waits:
  assumes "IsZombie u" "int n < max 1 (GetStateTimeout u)"
  shows "run (unit_do env) u (replicate n UBeat) = Inr (with_timeout (GetStateTimeout u - int n) u)"
  using assms
proof (induction n arbitrary: u)
  case (Suc n)
  let ?v = "with_timeout (GetStateTimeout u - 1) u"
  have "Unit_HeartBeat env u = Inr ?v" using State_beat_cases(2) [of u env] Suc.prems by (simp add: Unit_HeartBeat_def IsDying_def IsZombieDying_def IsZombie_def)
  moreover have "run (unit_do env) ?v (replicate n UBeat) = Inr (with_timeout (GetStateTimeout ?v - int n) ?v)"
    by (rule Suc.IH) (use Suc.prems in \<open>auto simp: IsZombie_def\<close>)
  ultimately show ?case by (simp add: algebra_simps)
qed simp

lemma dead_stays:
  assumes "IsDead w" "GetStateTimeout w = - 1"
  shows "run (unit_do env) w (replicate n UBeat) = Inr w"
proof (induction n)
  case (Suc n)
  have "Unit_HeartBeat env w = Inr w" using State_beat_cases(1) [OF assms(2), of env] assms(1)
    by (simp add: Unit_HeartBeat_def IsDying_def IsZombieDying_def IsDead_def)
  then show ?case using Suc by simp
qed simp

lemma zombie_attacked:
  assumes "life_inv u" "IsZombie u" "0 \<le> t"
  shows "OnAttacked t u = Inr (with_timeout (beats_of t) u)" "life_inv (with_timeout (beats_of t) u)"
proof -
  show "OnAttacked t u = Inr (with_timeout (beats_of t) u)"
    using assms(2,3) by (simp add: OnAttacked_def SetStateTimeout_def State_SetTimeOut_def with_timeout_def beats_of_def)
  have "waiting (ustatus u)" using assms(2) by (simp add: IsZombie_def)
  then show "life_inv (with_timeout (beats_of t) u)" using set_time_ok [OF assms(1)] by (simp add: with_timeout_def)
qed

lemma beats_nonneg: "0 \<le> t \<Longrightarrow> 0 \<le> beats_of t"
  by (simp add: beats_of_def)

lemma run_replicate_add: "run f u (replicate (m + n) x) = bindr (run f u (replicate m x)) (\<lambda>v. run f v (replicate n x))"
  by (induction m arbitrary: u) (simp_all add: bindr_assoc)

lemma zombie_dies:
  assumes "life_inv v" "gentle env" "IsZombie v" "0 \<le> GetStateTimeout v"
  obtains w where "IsDead w" "calls w = calls v @ [KDeath, KSomeoneDead (killer v)]"
    "\<forall>n. max 1 (GetStateTimeout v) \<le> int n \<longrightarrow> run (unit_do env) v (replicate n UBeat) = Inr w"
proof -
  let ?m = "nat (max 1 (GetStateTimeout v)) - 1" let ?u = "with_timeout (GetStateTimeout v - int ?m) v"
  have m: "run (unit_do env) v (replicate ?m UBeat) = Inr ?u" by (rule zombie_waits [OF assms(3)]) simp
  have t: "GetStateTimeout ?u \<noteq> - 1" "GetStateTimeout ?u \<le> 1" using assms(4) by auto
  have "waiting (ustatus v)" using assms(3) by (simp add: IsZombie_def)
  then have i: "life_inv ?u" using set_time_ok [OF assms(1)] by (simp add: with_timeout_def)
  have z: "IsZombie ?u" using assms(3) by (simp add: IsZombie_def)
  obtain w where w: "Unit_HeartBeat env ?u = Inr w" "IsDead w" "GetStateTimeout w = - 1" "calls w = calls ?u @ [KDeath, KSomeoneDead (killer ?u)]"
    by (rule zombie_beat [OF i assms(2) z t])
  have "run (unit_do env) v (replicate n UBeat) = Inr w" if "max 1 (GetStateTimeout v) \<le> int n" for n
  proof -
    have "?m < n" using that by linarith
    then obtain k where k: "n = ?m + Suc k" using less_imp_add_positive gr0_implies_Suc by metis
    show ?thesis unfolding k run_replicate_add m using w(1) dead_stays [OF w(2,3)] by simp
  qed
  then show ?thesis using that w by simp
qed

text \<open>
  C6: A unit that is not escaping, a monster or boss or a player none of whose team is left alive
  with it, whose own buffs never hurt it, is dealt deadly damage while it could fight (ready, acting,
  attacked or unaware). It, which the rest of the blow keeps
  busy for \<open>t\<close> milliseconds, lies as a zombie, silent, until \<open>t\<close> has passed in heartbeats (at least
  one); then it dies, exactly once, and its combat is told its killer: whoever struck the blow,
  unless the unit owed its death to an earlier one.
\<close>

theorem killed_unit_dies_once:
  assumes "life_inv u" "gentle env" "\<not> is_escaping u" "ustatus u \<in> {1, 2, 3, 9}" "lethal d u"
    "is_player u \<longrightarrow> GetTeammatesAlive env (lose d a u) \<le> 1" "0 \<le> t" "d < 2147483648"
  shows "\<exists>v w. run (unit_do env) u [UDamage d a, UAttacked t] = Inr v \<and>
    (\<forall>n. int n < max 1 (beats_of t) \<longrightarrow> (\<exists>x. run (unit_do env) v (replicate n UBeat) = Inr x \<and> IsZombie x \<and> calls x = calls v)) \<and>
    (\<forall>n. max 1 (beats_of t) \<le> int n \<longrightarrow> run (unit_do env) v (replicate n UBeat) = Inr w) \<and>
    IsDead w \<and> calls w = calls v @ [KDeath, KSomeoneDead (if killer u = 0 then a else killer u)]"
proof -
  have dl: "dealt d u" using assms(5,8) by (simp add: lethal_def dealt_def)
  obtain s' where s': "DoDamage env d a u = Inr (out_of_combat ((lose d a u)\<lparr>ust := s'\<rparr>))" "life_inv ((lose d a u)\<lparr>ust := s'\<rparr>)" "status (state s') = 8"
    using kill [OF dl assms(1,3-6)] by metis
  let ?z = "out_of_combat ((lose d a u)\<lparr>ust := s'\<rparr>)" let ?v = "with_timeout (beats_of t) ?z"
  have z: "life_inv ?z" "IsZombie ?z" using s' by (simp_all add: IsZombie_def out_of_combat_def)
  have "hp (lose d a u) \<le> 0" using hp_lose [OF life_shape [OF assms(1)] dl, of a] assms(5) by (simp add: lethal_def)
  then have "i32 (hp u - d) \<le> 0" by (auto simp: lose_def Let_def split: if_splits)
  then have k: "killer ?v = (if killer u = 0 then a else killer u)" by (simp add: out_of_combat_def lose_def Let_def)
  have v: "run (unit_do env) u [UDamage d a, UAttacked t] = Inr ?v" "life_inv ?v" using s'(1) zombie_attacked [OF z assms(7)] by simp_all
  have zv: "IsZombie ?v" "0 \<le> GetStateTimeout ?v" using z(2) beats_nonneg [OF assms(7)] by (simp_all add: IsZombie_def)
  obtain w where w: "IsDead w" "calls w = calls ?v @ [KDeath, KSomeoneDead (killer ?v)]"
    "\<forall>n. max 1 (GetStateTimeout ?v) \<le> int n \<longrightarrow> run (unit_do env) ?v (replicate n UBeat) = Inr w"
    by (rule zombie_dies [OF v(2) assms(2) zv])
  have "\<exists>x. run (unit_do env) ?v (replicate n UBeat) = Inr x \<and> IsZombie x \<and> calls x = calls ?v" if "int n < max 1 (beats_of t)" for n
    using zombie_waits [OF zv(1), of n env] that zv(1) by (simp add: IsZombie_def)
  then show ?thesis using v(1) w k by (intro exI [of _ ?v] exI [of _ w]) simp
qed

theorem killed_unit_dies_once_witness:
  "\<exists>v w. run (unit_do calm_env) (pool_unit 1 2 10) [UDamage 20 7, UAttacked 250] = Inr v \<and>
    (\<exists>x. run (unit_do calm_env) v (replicate 2 UBeat) = Inr x \<and> IsZombie x) \<and>
    run (unit_do calm_env) v (replicate 3 UBeat) = Inr w \<and> IsDead w \<and> calls w = calls v @ [KDeath, KSomeoneDead 7]"
proof -
  let ?u = "pool_unit 1 2 10"
  have b: "beats_of 250 = 3" by (simp add: beats_of_def)
  obtain v w where "run (unit_do calm_env) ?u [UDamage 20 7, UAttacked 250] = Inr v"
    "\<forall>n. int n < 3 \<longrightarrow> (\<exists>x. run (unit_do calm_env) v (replicate n UBeat) = Inr x \<and> IsZombie x \<and> calls x = calls v)"
    "\<forall>n. 3 \<le> int n \<longrightarrow> run (unit_do calm_env) v (replicate n UBeat) = Inr w" "IsDead w" "calls w = calls v @ [KDeath, KSomeoneDead 7]"
    using killed_unit_dies_once [of ?u calm_env 20 7 250, OF pool_unit_ok calm_gentle] by (auto simp: b lethal_def)
  moreover have "int 2 < 3" "3 \<le> int 3" by simp_all
  ultimately show ?thesis by blast
qed

section \<open>Where the machine fails\<close>

definition dealt_by :: "(int \<times> int) list \<Rightarrow> int" where
  "dealt_by ds = (\<Sum>(d, a)\<leftarrow>ds. max 0 d)"

lemma dealt_by_simps [simp]: "dealt_by [] = 0" "dealt_by ((d, a) # ds) = max 0 d + dealt_by ds"
  by (simp_all add: dealt_by_def)

lemma dealt_by_nonneg: "0 \<le> dealt_by ds"
  by (induction ds) (auto simp: dealt_by_def)

lemma below_zero_stays:
  assumes "is_player v" "IsNormal v" "hp v \<le> 0" "- 2147483648 \<le> hp v - dealt_by ds"
  shows "\<exists>w. run (unit_do env) v (map (\<lambda>(d, a). UDamage d a) ds) = Inr w \<and> IsNormal w \<and> hp w = hp v - dealt_by ds"
  using assms
proof (induction ds arbitrary: v)
  case (Cons x ds)
  obtain d a where x: "x = (d, a)" by (cases x)
  let ?w = "if d \<le> 0 then v else lose d a v"
  have b: "- 2147483648 \<le> hp v - max 0 d" using Cons.prems(4) dealt_by_nonneg [of ds] x by simp
  then have "i32 (hp v - max 0 d) = hp v - max 0 d" using Cons.prems(3) by (intro i32_id) simp_all
  then have h: "hp ?w = hp v - max 0 d" by (auto simp: lose_def Let_def max_def)
  have "DoDamage env d a v = Inr ?w"
    using Cons.prems(1-3) by (simp add: DoDamage_def Player_DoDamage_def Let_def IsNormal_def IsZombie_def IsDead_def)
  moreover have "is_player ?w" "IsNormal ?w" "hp ?w \<le> 0" "- 2147483648 \<le> hp ?w - dealt_by ds"
    using Cons.prems h x by (auto simp: lose_props IsNormal_def)
  ultimately have "\<exists>w. run (unit_do env) ?w (map (\<lambda>(d, a). UDamage d a) ds) = Inr w \<and> IsNormal w \<and> hp w = hp v - max 0 d - dealt_by ds"
    and "unit_do env v (UDamage d a) = Inr ?w" using Cons.IH [of ?w] h by simp_all
  then show ?case using x by (simp add: algebra_simps)
qed simp

text \<open>
  C38: A dead player who is resurrected with its hit points at or below zero gets none back: its new hit
  points are set while it still counts as dead. Afterwards it fights on with those hit points,
  and damage, however often and by whomever it is dealt, takes its hit points down further but does
  not kill it, as long as the hit points stay within their 32 bits.
\<close>

theorem resurrected_player_cannot_die:
  assumes "life_inv u" "is_player u" "IsDead u" "hp u \<le> 0"
  shows "\<exists>v. Resurrect scale u = Inr v \<and> IsNormal v \<and> hp v = hp u \<and>
    (\<forall>ds. - 2147483648 \<le> hp u - dealt_by ds \<longrightarrow>
      (\<exists>w. run (unit_do env) v (map (\<lambda>(d, a). UDamage d a) ds) = Inr w \<and> IsNormal w \<and> hp w = hp u - dealt_by ds))"
proof -
  let ?u = "u\<lparr>killer := 0\<rparr>"
  have st: "ustatus u = 6" using assms(3) by (simp add: IsDead_def)
  have r: "records_ok (records (ust ?u))" using assms(1) by (simp add: life_inv_def shape_def)
  have nx: "next_of state_table (unit_type (ust ?u)) (ustatus ?u) 11 = Some 1" using st next_player(6) [of 6] assms(2) by (simp add: is_player_def)
  obtain s' where s': "UpdateState 11 (- 1) ?u = Inr (?u\<lparr>ust := s'\<rparr>)" "unit_type s' = unit_type (ust ?u)" "status (state s') = 1"
    using UpdateState_ok [OF r nx, of "- 1"] by metis
  let ?v = "tell KRegister (?u\<lparr>ust := s'\<rparr>)"
  have "SetHP (i32 (max_hp u * (scale sdiv 100))) ?u = ?u" using st by (simp add: SetHP_def IsAlive_def IsDead_def)
  then have v: "Resurrect scale u = Inr ?v" using assms(3) s'(1) by (simp add: Resurrect_def)
  have p: "is_player ?v" "IsNormal ?v" "hp ?v \<le> 0" using assms(2,4) s'(2,3) by (simp_all add: is_player_def IsNormal_def)
  have h: "hp ?v = hp u" by simp
  show ?thesis by (rule exI [of _ ?v]) (use v p(2) h below_zero_stays [OF p, unfolded h] in blast)
qed

theorem resurrected_player_cannot_die_witness:
  "\<exists>v w. Resurrect 50 (pool_unit 6 1 (- 3)) = Inr v \<and> run (unit_do calm_env) v [UDamage 100 7, UDamage 100 7] = Inr w \<and> IsNormal w \<and> hp w = - 203"
proof -
  have "life_inv (pool_unit 6 1 (- 3))" by (rule pool_unit_ok) simp_all
  then obtain v where v: "Resurrect 50 (pool_unit 6 1 (- 3)) = Inr v"
    "\<forall>ds. - 2147483648 \<le> - 3 - dealt_by ds \<longrightarrow>
      (\<exists>w. run (unit_do calm_env) v (map (\<lambda>(d, a). UDamage d a) ds) = Inr w \<and> IsNormal w \<and> hp w = - 3 - dealt_by ds)"
    using resurrected_player_cannot_die [of "pool_unit 6 1 (- 3)" 50 calm_env] by (auto simp: IsDead_def)
  show ?thesis using v(1) spec [OF v(2), of "[(100, 7), (100, 7)]"] by auto
qed

text \<open>
  A world boss that stands ready when it is killed in another of its combats becomes a zombie
  without a time to wait, and stays one at every heartbeat: it never dies in this combat.
\<close>

theorem synced_boss_never_dies:
  assumes "life_inv u" "is_boss u" "\<not> is_escaping u" "IsNormal u \<or> IsSneaked u" "h \<le> 0"
  shows "\<exists>v. SyncHP env h u = Inr v \<and> IsZombie v \<and> (\<forall>n. run (unit_do env) v (replicate n UBeat) = Inr v)"
proof -
  have st: "ustatus u = 1 \<or> ustatus u = 9" using assms(4) by (simp add: IsNormal_def IsSneaked_def)
  have hp: "0 < hp u" "GetStateTimeout u = - 1" using assms(1) st unfolding life_inv_def by blast+
  let ?u = "u\<lparr>hp := 0\<rparr>"
  have sh: "shape ?u" using assms(1) by (simp add: life_inv_def shape_def)
  have "unit_type (ust ?u) \<in> {1, 2, 6}" using types_of [OF sh] by auto
  then have nx: "next_of state_table (unit_type (ust ?u)) (ustatus ?u) 5 = Some 8" using next_life(4) st by auto
  obtain s' where s': "UpdateState 5 (- 100) ?u = Inr (?u\<lparr>ust := s'\<rparr>)" "status (state s') = 8" "timeout (state s') = - 1"
    using life_upd [OF sh nx, of "- 100"] by (auto simp: life_states_def)
  have al: "IsAlive u" using st assms(3) by (auto simp: IsAlive_def IsDying_def IsZombieDying_def IsDead_def IsZombie_def)
  obtain v where v: "SyncHP env h u = Inr v" "ust v = s'"
    using al assms(2,5) hp s' by (auto simp: SyncHP_def Let_def)
  have "run (unit_do env) v (replicate n UBeat) = Inr v" for n
  proof (induction n)
    case (Suc n)
    have "Unit_HeartBeat env v = Inr v" using State_beat_cases(1) [of v env] v(2) s'(2,3) by (simp add: Unit_HeartBeat_def IsDying_def IsZombieDying_def)
    then show ?case using Suc by simp
  qed simp
  then show ?thesis using v s'(2) by (simp add: IsZombie_def)
qed

theorem synced_boss_never_dies_witness:
  "\<exists>v. SyncHP calm_env 0 (pool_unit 1 6 10) = Inr v \<and> IsZombie v \<and> run (unit_do calm_env) v (replicate 600 UBeat) = Inr v"
proof -
  have "life_inv (pool_unit 1 6 10)" by (rule pool_unit_ok) simp_all
  then show ?thesis using synced_boss_never_dies [of "pool_unit 1 6 10" 0 calm_env] by (auto simp: IsNormal_def)
qed

text \<open>
  The machine has no way from acting, or from being caught unawares, to lying dying: a player
  who is dealt deadly damage there while others of its team live makes the server abort.
\<close>

theorem acting_player_killed_aborts:
  assumes "life_inv u" "is_player u" "ustatus u = STATUS_ACTION \<or> ustatus u = STATUS_SNEAKED" "lethal d u"
    "1 < GetTeammatesAlive env (lose d a u)" "d < 2147483648"
  shows "DoDamage env d a u = Inl AssertFail"
proof -
  have dl: "dealt d u" using assms(4,6) by (simp add: lethal_def dealt_def)
  have "0 < d" "\<not> IsZombie u" "\<not> IsDead u" using assms(3,4) by (auto simp: lethal_def IsZombie_def IsDead_def)
  then have e: "DoDamage env d a u = bindr (UpdateState 4 (- 1) (lose d a u)) (\<lambda>u2. Inr (out_of_combat u2))"
    using DoDamage_cases(2) [OF _ _ _ _ life_shape [OF assms(1)] dl assms(4), of env a] assms(2,5) by simp
  have "next_of state_table 1 (ustatus u) 4 = None" using assms(3) by (auto simp: next_simps)
  then have "UpdateState 4 (- 1) (lose d a u) = Inl AssertFail"
    using assms(2) by (simp add: UpdateState_def UnitState_Update_def next_of_def lose_props is_player_def)
  then show ?thesis using e by simp
qed

theorem acting_player_killed_aborts_witness:
  "DoDamage (calm_env\<lparr>GetTeammatesAlive := \<lambda>_. 2\<rparr>) 20 7 (pool_unit 2 1 10) = Inl AssertFail"
proof -
  have "life_inv (pool_unit 2 1 10)" by (rule pool_unit_ok) simp_all
  then show ?thesis by (rule acting_player_killed_aborts) (simp_all add: lethal_def)
qed

text \<open>
  A unit that its own buffs kill at the end of its action is dead at once: the time-out of its
  action ends its death too, so that it is never told to its combat that it died.
\<close>

theorem round_end_death_unannounced:
  assumes "life_inv u" "ustatus u = STATUS_ACTION" "\<not> is_escaping u" "GetStateTimeout u = 1" "lethal d u" "\<not> is_player u"
    "\<And>v. buff_hits env AtRoundEnd v = ([Hurt d a], rest v)" "d < 2147483648"
  shows "\<exists>w. unit_do env u UBeat = Inr w \<and> IsDead w \<and> calls w = calls u @ [KUnRegister, KTestEnd] \<and>
    (\<forall>n. run (unit_do env) w (replicate n UBeat) = Inr w)"
proof -
  let ?u = "with_timeout 0 u"
  have w: "waiting (ustatus u)" using assms(2) by simp
  have i: "life_inv ?u" using set_time_ok [OF assms(1) w] by (simp add: with_timeout_def)
  have c: "\<not> is_escaping ?u" "ustatus ?u \<in> {1, 2, 3, 9}" "lethal d ?u" "is_player ?u \<longrightarrow> GetTeammatesAlive env (lose d a ?u) \<le> 1"
    using assms(2,3,5,6) by (simp_all add: with_timeout_def lethal_def is_player_def)
  have dl: "dealt d ?u" using assms(5,8) by (simp add: lethal_def dealt_def)
  obtain s' where s': "DoDamage env d a ?u = Inr (out_of_combat ((lose d a ?u)\<lparr>ust := s'\<rparr>))" "life_inv ((lose d a ?u)\<lparr>ust := s'\<rparr>)"
    "status (state s') = 8" "unit_type s' = unit_type (ust ?u)"
    using kill [OF dl i c] by metis
  let ?z = "out_of_combat ((lose d a ?u)\<lparr>ust := s'\<rparr>)"
  have b: "buffs env AtRoundEnd ?u = Inr ?z" using s'(1) assms(7) [of ?u] by (simp add: buffs_def)
  have "\<not> IsAlive ?z" using s'(3) by (simp add: IsAlive_def IsZombie_def out_of_combat_def)
  then have r: "OnTime env ?u = Inr ?z" using b assms(2) by (simp add: OnTime_def RoundEnd_def Unit_RegisterATB_def)
  have z: "life_inv ?z" "ustatus ?z = 8" using s'(2,3) by (simp_all add: out_of_combat_def)
  have "unit_type (ust ?z) \<in> {1, 2, 6}" using types_of [OF life_shape [OF z(1)]] by auto
  then have nx: "next_of state_table (unit_type (ust ?z)) (ustatus ?z) 12 = Some 6" using next_life(6) z(2) by simp
  obtain s2 where s2: "UpdateState 12 (- 1) ?z = Inr (?z\<lparr>ust := s2\<rparr>)" "status (state s2) = 6" "timeout (state s2) = - 1"
    using life_upd [OF life_shape [OF z(1)] nx, of "- 1"] by (auto simp: life_states_def)
  let ?w = "?z\<lparr>ust := s2\<rparr>"
  have "UnitState_HeartBeat env u = Inr ?w" using r s2(1) z(2) assms(4) by (simp add: UnitState_HeartBeat_def with_timeout_def IsZombieDying_def)
  then have h: "unit_do env u UBeat = Inr ?w" using s2(2) by (simp add: Unit_HeartBeat_def IsDying_def IsZombieDying_def)
  have dd: "IsDead ?w" "GetStateTimeout ?w = - 1" using s2(2,3) by (simp_all add: IsDead_def)
  have "calls ?w = calls u @ [KUnRegister, KTestEnd]" using s'(3) by (simp add: out_of_combat_def IsSneaked_def lose_props)
  then show ?thesis using h dd dead_stays [OF dd] by blast
qed

theorem round_end_death_unannounced_witness:
  "\<exists>w. unit_do poison_env (with_timeout 1 (pool_unit 2 2 10)) UBeat = Inr w \<and> IsDead w \<and> calls w = [KUnRegister, KTestEnd]"
proof -
  let ?u = "with_timeout 1 (pool_unit 2 2 10)"
  have "life_inv (pool_unit 2 2 10)" by (rule pool_unit_ok) simp_all
  then have i: "life_inv ?u" using set_time_ok [of "pool_unit 2 2 10" 1] by (simp add: with_timeout_def)
  have "\<exists>w. unit_do poison_env ?u UBeat = Inr w \<and> IsDead w \<and> calls w = calls ?u @ [KUnRegister, KTestEnd] \<and>
      (\<forall>n. run (unit_do poison_env) w (replicate n UBeat) = Inr w)"
    by (rule round_end_death_unannounced [OF i, where d=20 and a=7])
      (use pool_status [of 2] in \<open>simp_all add: lethal_def poison_env_def is_player_def with_timeout_def pool_unit_def\<close>)
  then show ?thesis by auto
qed

text \<open>Waiting in a passing state that nobody interferes with.\<close>

lemma passing_waits:
  assumes "\<not> is_player u" "int n < max 1 (GetStateTimeout u)"
  shows "run (unit_do env) u (replicate n UBeat) = Inr (with_timeout (GetStateTimeout u - int n) u)"
  using assms
proof (induction n arbitrary: u)
  case (Suc n)
  let ?v = "with_timeout (GetStateTimeout u - 1) u"
  have p: "\<not> is_player ?v" using Suc.prems(1) by (simp add: with_timeout_def is_player_def)
  have "Unit_HeartBeat env u = Inr ?v" using State_beat_cases(2) [of u env] Suc.prems(2) p by (simp add: Unit_HeartBeat_def)
  moreover have "run (unit_do env) ?v (replicate n UBeat) = Inr (with_timeout (GetStateTimeout ?v - int n) ?v)"
    by (rule Suc.IH [OF p]) (use Suc.prems(2) in simp)
  ultimately show ?case by (simp add: algebra_simps)
qed simp

text \<open>
  When the three seconds of a transformation are over, the monster gets its turn back and is
  ready, but the same time-out goes on as if it had waited to escape, and tells the combat that its
  escape starts.
\<close>

theorem transformed_mob_told_to_escape:
  assumes "life_inv u" "is_mob u" "IsNormal u" "is_atb_owner u" "\<not> is_transforming u" "\<not> is_escaping u" "gentle env"
  shows "\<exists>v. run (unit_do env) u (UTransforming # replicate 30 UBeat) = Inr v \<and> IsNormal v \<and> calls v = calls u @ [KRegister, KStartEscape]"
proof -
  have st: "ustatus u = 1" using assms(3) by (simp add: IsNormal_def)
  have hp: "0 < hp u" using assms(1) st by (simp add: life_inv_def)
  have ty: "unit_type (ust u) = 2" using assms(2) by (simp add: is_mob_def)
  have nx: "next_of state_table (unit_type (ust u)) (ustatus u) 14 = Some 11" using next_mob(3) st ty by simp
  from life_upd [OF life_shape [OF assms(1)] nx, of 3000]
  obtain s' where s': "UpdateState 14 3000 u = Inr (u\<lparr>ust := s'\<rparr>)" "life_inv (u\<lparr>ust := s'\<rparr>)" "status (state s') = 11"
      "unit_type s' = unit_type (ust u)" "timeout (state s') = beats_of 3000"
    using assms(2) hp by (auto simp: life_states_def)
  let ?m = "u\<lparr>ust := s'\<rparr>" let ?l = "with_timeout 1 ?m"
  have p: "\<not> is_player ?m" using s'(4) ty by (simp add: is_player_def)
  have "GetStateTimeout ?m = 30" using s'(5) by (simp add: beats_of_def)
  then have r: "run (unit_do env) ?m (replicate 29 UBeat) = Inr ?l" using passing_waits [OF p, of 29 env] by simp
  have w: "waiting (ustatus ?m)" using s'(3) by simp
  have l: "life_inv ?l" "GetStateTimeout ?l \<noteq> - 1" "GetStateTimeout ?l \<le> 1" using set_time_ok [OF s'(2) w] by (simp_all add: with_timeout_def)
  obtain v s2 where v: "OnTime env (with_timeout 0 ?l) = Inr v" "same_unit (with_timeout 0 ?l) v" "UnitState_HeartBeat env ?l = Inr (v\<lparr>ust := s2\<rparr>)"
    "status (state s2) = after_timeout (ustatus ?l)"
    using State_beat_end [OF l(1) assms(7) l(2,3)] by metis
  have e: "after_timeout (ustatus ?l) = 1" using s'(3) by (simp add: after_timeout_def)
  have "is_mob (with_timeout 0 ?m)" "IsAlive (with_timeout 0 ?m)" "is_atb_owner (with_timeout 0 ?m)" "\<not> is_transforming (with_timeout 0 ?m)"
    using assms(2,4-6) s'(3,4) ty
    by (simp_all add: with_timeout_def is_mob_def IsAlive_def IsDying_def IsZombieDying_def IsDead_def IsZombie_def)
  moreover have "ustatus (with_timeout 0 ?m) = 11" "calls (with_timeout 0 ?m) = calls u" using s'(3) by simp_all
  ultimately have c: "calls v = calls u @ [KRegister, KStartEscape]" using v(1) by (auto simp: OnTime_def Unit_RegisterATB_def)
  have "is_player (v\<lparr>ust := s2\<rparr>) \<and> IsDying (v\<lparr>ust := s2\<rparr>) \<longleftrightarrow> False" using v(4) e by (simp add: IsDying_def IsZombieDying_def)
  then have b: "Unit_HeartBeat env ?l = Inr (v\<lparr>ust := s2\<rparr>)" using v(3) unfolding Unit_HeartBeat_def by auto
  have "replicate 30 UBeat = replicate (29 + 1) UBeat" by simp
  then have "run (unit_do env) ?m (replicate 30 UBeat) = Inr (v\<lparr>ust := s2\<rparr>)" using r b by (simp only: run_replicate_add) simp
  then have "run (unit_do env) u (UTransforming # replicate 30 UBeat) = Inr (v\<lparr>ust := s2\<rparr>)" using s'(1) by simp
  then show ?thesis using v(4) e c by (simp add: IsNormal_def)
qed

theorem transformed_mob_told_to_escape_witness:
  "\<exists>v. run (unit_do calm_env) (pool_unit 1 2 10) (UTransforming # replicate 30 UBeat) = Inr v \<and> calls v = [KRegister, KStartEscape]"
proof -
  have i: "life_inv (pool_unit 1 2 10)" by (rule pool_unit_ok) simp_all
  have "is_mob (pool_unit 1 2 10)" "is_atb_owner (pool_unit 1 2 10)" "\<not> is_transforming (pool_unit 1 2 10)" by (simp_all add: pool_unit_def is_mob_def)
  then show ?thesis using transformed_mob_told_to_escape [OF i _ _ _ _ _ calm_gentle] by (auto simp: IsNormal_def)
qed

end
