(* ===== verification/WireBuffer.thy ===== *)
theory WireBuffer
  imports NetBuffer
begin

unbundle bit_operations_syntax

text \<open>
  \<open>shared/net/packet/bytebuffer.h\<close> and \<open>bit_set.h\<close>: the buffer that packets are marshalled into, with
  a read and a write position, its integers in little-endian order, strings, single bits, and bit sets.
\<close>

section \<open>The buffer\<close>

record bbuf =
  rpos :: nat
  wpos :: nat
  bitpos :: nat
  curbitval :: byte
  storage :: "byte list"

definition BB_new :: bbuf where
  "BB_new = \<lparr>rpos = 0, wpos = 0, bitpos = 8, curbitval = 0, storage = []\<rparr>"

abbreviation bb_size :: "bbuf \<Rightarrow> nat" where "bb_size b \<equiv> length (storage b)"

text \<open>\<open>append\<close> of raw bytes: overwrites what is behind the write position, and grows the storage.\<close>

definition append_raw :: "byte list \<Rightarrow> bbuf \<Rightarrow> bbuf res" where
  "append_raw src b =
     (if src = [] then Inr b
      else assertx (bb_size b < 10000000)
        (let st = storage b @ replicate (wpos b + length src - bb_size b) 0
         in Inr (b\<lparr>storage := write_at (wpos b) src st, wpos := wpos b + length src\<rparr>)))"

definition append_buffer :: "bbuf \<Rightarrow> bbuf \<Rightarrow> bbuf res" where
  "append_buffer src b =
     (if wpos src = 0 then Inr b
      else if bb_size src < wpos src then Inl OutOfRange
      else append_raw (take (wpos src) (storage src)) b)"

definition bb_put :: "nat \<Rightarrow> byte list \<Rightarrow> bbuf \<Rightarrow> bbuf res" where
  "bb_put pos src b = (if pos + length src > bb_size b then Inl Thrown else Inr (b\<lparr>storage := write_at pos src (storage b)\<rparr>))"

definition bb_resize :: "nat \<Rightarrow> bbuf \<Rightarrow> bbuf" where
  "bb_resize n b = b\<lparr>storage := take n (storage b) @ replicate (n - bb_size b) 0, rpos := 0, wpos := n\<rparr>"

definition flushBits :: "bbuf \<Rightarrow> bbuf res" where
  "flushBits b =
     (if bitpos b = 8 then Inr b else bindr (append_raw [curbitval b] b) (\<lambda>b1. Inr (b1\<lparr>curbitval := 0, bitpos := 8\<rparr>)))"

definition resetBitReader :: "bbuf \<Rightarrow> bbuf" where
  "resetBitReader b = b\<lparr>bitpos := 8\<rparr>"

text \<open>Integers of \<open>n\<close> bytes, the lowest first, as the server's processors hold them.\<close>

fun le_bytes :: "nat \<Rightarrow> int \<Rightarrow> byte list" where
  "le_bytes 0 i = []"
| "le_bytes (Suc n) i = word_of_int i # le_bytes n (i div 256)"

fun le_int :: "byte list \<Rightarrow> int" where
  "le_int [] = 0"
| "le_int (x # xs) = uint x + 256 * le_int xs"

definition signed_of :: "nat \<Rightarrow> int \<Rightarrow> int" where
  "signed_of n i = (if i < 2 ^ (8 * n - 1) then i else i - 2 ^ (8 * n))"

definition append_num :: "nat \<Rightarrow> int \<Rightarrow> bbuf \<Rightarrow> bbuf res" where
  "append_num n i b = bindr (flushBits b) (append_raw (le_bytes n i))"

definition read_bytes :: "nat \<Rightarrow> bbuf \<Rightarrow> (byte list \<times> bbuf) res" where
  "read_bytes n b =
     (let b1 = resetBitReader b
      in if rpos b1 + n > bb_size b1 then Inl Thrown
         else Inr (take n (drop (rpos b1) (storage b1)), b1\<lparr>rpos := rpos b1 + n\<rparr>))"

definition read_num :: "nat \<Rightarrow> bbuf \<Rightarrow> (int \<times> bbuf) res" where
  "read_num n b = bindr (read_bytes n b) (\<lambda>(bs, b1). Inr (le_int bs, b1))"

definition readSkip :: "nat \<Rightarrow> bbuf \<Rightarrow> bbuf res" where
  "readSkip n b =
     (let b1 = resetBitReader b in if rpos b1 + n > bb_size b1 then Inl Thrown else Inr (b1\<lparr>rpos := rpos b1 + n\<rparr>))"

text \<open>\<open>PeekInt32\<close>, as its callers use it, unsigned; the difference of two positions is unsigned too.\<close>

definition peek_u32 :: "bbuf \<Rightarrow> int res" where
  "peek_u32 b =
     (if rpos b \<le> bb_size b \<and> bb_size b - rpos b < 4 then Inl Thrown
      else if bb_size b < rpos b then Inl OutOfRange
      else Inr (le_int (take 4 (drop (rpos b) (storage b)))))"

section \<open>Strings\<close>

definition append_string :: "byte list \<Rightarrow> bbuf \<Rightarrow> bbuf res" where
  "append_string s b = bindr (append_num 4 (u32 (int (length s))) b) (append_raw s)"

lemma read_bytes_Inr:
  "read_bytes n b = Inr (bs, b') \<longleftrightarrow> rpos b + n \<le> bb_size b \<and> bs = take n (drop (rpos b) (storage b)) \<and> b' = b\<lparr>rpos := rpos b + n, bitpos := 8\<rparr>"
  by (auto simp: read_bytes_def resetBitReader_def Let_def)

function read_chars :: "nat \<Rightarrow> bbuf \<Rightarrow> (byte list \<times> bbuf) res" where
  "read_chars bound b =
     (if rpos b < bb_size b \<and> rpos b < bound
      then bindr (read_bytes 1 b) (\<lambda>(c, b1). bindr (read_chars bound b1) (\<lambda>(cs, b2). Inr (c @ cs, b2)))
      else Inr ([], b))"
  by pat_completeness auto
termination
  by (relation "measure (\<lambda>(_, b). bb_size b - rpos b)") (auto simp: read_bytes_Inr)

declare read_chars.simps [simp del]

definition read_string :: "bbuf \<Rightarrow> (byte list \<times> bbuf) res" where
  "read_string b = bindr (read_num 4 b) (\<lambda>(n, b1). read_chars (nat (u32 (u32 (int (rpos b1)) + n))) b1)"

section \<open>Single bits\<close>

definition writeBit :: "bool \<Rightarrow> bbuf \<Rightarrow> bbuf res" where
  "writeBit x b =
     (if bitpos b = 0 then Inl OutOfRange
      else let p = bitpos b - 1; cur = (if x then curbitval b OR push_bit p 1 else curbitval b)
           in if p = 0 then bindr (append_raw [cur] b) (\<lambda>b1. Inr (b1\<lparr>bitpos := 8, curbitval := 0\<rparr>))
              else Inr (b\<lparr>bitpos := p, curbitval := cur\<rparr>))"

definition readBit :: "bbuf \<Rightarrow> (bool \<times> bbuf) res" where
  "readBit b =
     bindr (if bitpos b + 1 > 7 then bindr (read_bytes 1 b) (\<lambda>(c, b1). Inr (b1\<lparr>curbitval := hd c, bitpos := 0\<rparr>))
            else Inr (b\<lparr>bitpos := bitpos b + 1\<rparr>)) (\<lambda>b2. Inr (bit (curbitval b2) (7 - bitpos b2), b2))"

fun writeBits :: "int \<Rightarrow> nat \<Rightarrow> bbuf \<Rightarrow> bbuf res" where
  "writeBits v 0 b = Inr b"
| "writeBits v (Suc i) b = bindr (writeBit (bit v i) b) (writeBits v i)"

fun readBits_from :: "nat \<Rightarrow> 32 word \<Rightarrow> bbuf \<Rightarrow> (32 word \<times> bbuf) res" where
  "readBits_from 0 v b = Inr (v, b)"
| "readBits_from (Suc i) v b =
     bindr (readBit b) (\<lambda>(x, b1). readBits_from i (if x then v OR push_bit i (of_nat i) else v) b1)"

definition readBits :: "nat \<Rightarrow> bbuf \<Rightarrow> (32 word \<times> bbuf) res" where
  "readBits n b = readBits_from n 0 b"

section \<open>Bit sets\<close>

definition kMaxBitsetSize :: nat where "kMaxBitsetSize = 1024 * 1024"

definition tail_alignment :: "nat \<Rightarrow> nat" where
  "tail_alignment m = (if m mod 8 = 0 then 8 else m mod 8)"

fun fill_byte :: "bool list \<Rightarrow> nat \<Rightarrow> byte \<Rightarrow> byte" where
  "fill_byte [] j t = t"
| "fill_byte (x # xs) j t = fill_byte xs (Suc j) (if x then t OR push_bit j 1 else t)"

function pack_loop :: "nat \<Rightarrow> nat \<Rightarrow> bool list \<Rightarrow> bbuf \<Rightarrow> bbuf res" where
  "pack_loop m cnt bits b =
     (if bits = [] then assertx (cnt = 0) (Inr b)
      else let k = (if cnt = 1 then tail_alignment m else 8)
           in if length bits < k then Inl OutOfRange
              else bindr (append_num 1 (uint (fill_byte (take k bits) 0 0)) b)
                     (pack_loop m (if cnt = 0 then 4294967295 else cnt - 1) (drop k bits)))"
  by pat_completeness auto
termination
  by (relation "measure (\<lambda>(_, _, bits, _). length bits)") (auto simp: tail_alignment_def split: if_splits)

declare pack_loop.simps [simp del]

definition BitSet_Pack :: "nat \<Rightarrow> bool list \<Rightarrow> bbuf \<Rightarrow> bbuf res" where
  "BitSet_Pack m bits b =
     (if length bits > kMaxBitsetSize \<or> length bits \<noteq> m then Inl Thrown
      else let cnt = (length bits + 7) div 8
           in bindr (append_num 4 (int cnt) b) (pack_loop m cnt bits))"

text \<open>\<open>bit_set_.set\<close> of the bits that a byte has, from a position on; it throws behind the end.\<close>

fun set_bits :: "byte \<Rightarrow> nat \<Rightarrow> nat \<Rightarrow> nat \<Rightarrow> bool list \<Rightarrow> bool list res" where
  "set_bits t i 0 pos bits = Inr bits"
| "set_bits t i (Suc k) pos bits =
     (if bit t i then if pos < length bits then set_bits t (Suc i) k (Suc pos) (bits[pos := True]) else Inl Thrown
      else set_bits t (Suc i) k (Suc pos) bits)"

fun unpack_loop :: "nat \<Rightarrow> nat \<Rightarrow> nat \<Rightarrow> bool list \<Rightarrow> bbuf \<Rightarrow> (bool list \<times> bbuf) res" where
  "unpack_loop m 0 pos bits b = assertx (pos = m \<and> length bits = m) (Inr (bits, b))"
| "unpack_loop m (Suc cnt) pos bits b =
     bindr (read_bytes 1 b) (\<lambda>(c, b1).
       let k = (if cnt = 0 then tail_alignment m else 8)
       in bindr (set_bits (hd c) 0 k pos bits) (\<lambda>bits1. unpack_loop m cnt (pos + k) bits1 b1))"

definition BitSet_UnPack :: "nat \<Rightarrow> bool list \<Rightarrow> bbuf \<Rightarrow> (bool list \<times> bbuf) res" where
  "BitSet_UnPack m old b =
     bindr (read_num 4 b) (\<lambda>(cnt, b1).
       if cnt > int kMaxBitsetSize then Inl Thrown
       else assertx (\<not> (\<exists>x \<in> set old. x))
         (if int m \<noteq> u32 (u32 (u32 (cnt - 1) * 8) + int (tail_alignment m)) then Inl Thrown
          else unpack_loop m (nat cnt) 0 old b1))"

end
