(* ===== verification/WireTypes.thy ===== *)
theory WireTypes
  imports WireBuffer "HOL-Library.List_Lexorder"
begin

text \<open>
  Marshalling of every member type (\<open>shared/net/packet/bytebuffer.h\<close>, \<open>bit_set.h\<close>,
  \<open>packet_util.h\<close>): the overloads of the two stream operators are one function each, by recursion on
  the static type that selects the overload.
\<close>

section \<open>Types and values\<close>

text \<open>Numbers by their size in bytes; the last case is a struct or packet with the members of its \<open>NESTED_DEFINE\<close>.\<close>

datatype ty = TBool | TUInt nat | TSInt nat | TFloat nat | TStr | TVec ty | TList ty | TMap ty ty | TSet ty
  | TBoundArray nat ty | TBoundStr nat | TFixedArray nat ty | TBitSet nat | TStruct "ty list"

datatype val = VBool bool | VInt int | VStr "byte list" | VSeq "val list" | VMap "(val \<times> val) list" | VBits "bool list"

text \<open>The order of keys in sets and maps: numbers by value, strings by their unsigned bytes.\<close>

fun key_of :: "val \<Rightarrow> int list" where
  "key_of (VBool x) = [if x then 1 else 0]"
| "key_of (VInt i) = [i]"
| "key_of (VStr s) = List.map uint s"
| "key_of _ = []"

definition kMaxBBDynamicContainerSize :: nat where "kMaxBBDynamicContainerSize = 4096"

section \<open>Writing\<close>

fun write_all :: "('v \<Rightarrow> bbuf \<Rightarrow> bbuf res) \<Rightarrow> 'v list \<Rightarrow> bbuf \<Rightarrow> bbuf res" where
  "write_all w [] b = Inr b"
| "write_all w (v # vs) b = bindr (w v b) (write_all w vs)"

fun write_members :: "(val \<Rightarrow> bbuf \<Rightarrow> bbuf res) list \<Rightarrow> val list \<Rightarrow> bbuf \<Rightarrow> bbuf res" where
  "write_members [] [] b = Inr b"
| "write_members (w # ws) (v # vs) b = bindr (w v b) (write_members ws vs)"
| "write_members _ _ b = Inl AssertFail"

definition write_seq :: "('v \<Rightarrow> bbuf \<Rightarrow> bbuf res) \<Rightarrow> 'v list \<Rightarrow> bbuf \<Rightarrow> bbuf res" where
  "write_seq w vs b =
     (if length vs > kMaxBBDynamicContainerSize then Inl Thrown
      else bindr (append_num 4 (u32 (int (length vs))) b) (write_all w vs))"

text \<open>A value whose shape is not of the type cannot be written: the compiler rules it out.\<close>

primrec marshal :: "ty \<Rightarrow> val \<Rightarrow> bbuf \<Rightarrow> bbuf res" where
  "marshal TBool v b = (case v of VBool x \<Rightarrow> append_num 1 (if x then 1 else 0) b | _ \<Rightarrow> Inl AssertFail)"
| "marshal (TUInt n) v b = (case v of VInt i \<Rightarrow> append_num n i b | _ \<Rightarrow> Inl AssertFail)"
| "marshal (TSInt n) v b = (case v of VInt i \<Rightarrow> append_num n i b | _ \<Rightarrow> Inl AssertFail)"
| "marshal (TFloat n) v b = (case v of VInt i \<Rightarrow> append_num n i b | _ \<Rightarrow> Inl AssertFail)"
| "marshal TStr v b = (case v of VStr s \<Rightarrow> append_string s b | _ \<Rightarrow> Inl AssertFail)"
| "marshal (TVec t) v b = (case v of VSeq vs \<Rightarrow> write_seq (marshal t) vs b | _ \<Rightarrow> Inl AssertFail)"
| "marshal (TList t) v b = (case v of VSeq vs \<Rightarrow> write_seq (marshal t) vs b | _ \<Rightarrow> Inl AssertFail)"
| "marshal (TMap k t) v b =
     (case v of VMap m \<Rightarrow> write_seq (\<lambda>(x, y) b. bindr (marshal k x b) (marshal t y)) m b | _ \<Rightarrow> Inl AssertFail)"
| "marshal (TSet t) v b = (case v of VSeq vs \<Rightarrow> write_seq (marshal t) vs b | _ \<Rightarrow> Inl AssertFail)"
| "marshal (TBoundArray m t) v b =
     (case v of VSeq vs \<Rightarrow>
        if length vs > m then Inl Thrown else bindr (append_num 4 (u32 (int m)) b) (write_seq (marshal t) vs)
      | _ \<Rightarrow> Inl AssertFail)"
| "marshal (TBoundStr m) v b =
     (case v of VStr s \<Rightarrow> if length s > m then Inl Thrown else bindr (append_num 4 (u32 (int m)) b) (append_string s)
      | _ \<Rightarrow> Inl AssertFail)"
| "marshal (TFixedArray m t) v b =
     (case v of VSeq vs \<Rightarrow> if length vs \<noteq> m then Inl AssertFail else bindr (append_num 4 (u32 (int m)) b) (write_all (marshal t) vs)
      | _ \<Rightarrow> Inl AssertFail)"
| "marshal (TBitSet m) v b = (case v of VBits bits \<Rightarrow> BitSet_Pack m bits b | _ \<Rightarrow> Inl AssertFail)"
| "marshal (TStruct ts) v b = (case v of VSeq vs \<Rightarrow> write_members (List.map marshal ts) vs b | _ \<Rightarrow> Inl AssertFail)"

section \<open>Reading\<close>

text \<open>The value that a variable of the type is made with; numbers are not initialised.\<close>

primrec fresh :: "ty \<Rightarrow> val" where
  "fresh TBool = VBool False"
| "fresh (TUInt n) = VInt 0"
| "fresh (TSInt n) = VInt 0"
| "fresh (TFloat n) = VInt 0"
| "fresh TStr = VStr []"
| "fresh (TVec t) = VSeq []"
| "fresh (TList t) = VSeq []"
| "fresh (TMap k t) = VMap []"
| "fresh (TSet t) = VSeq []"
| "fresh (TBoundArray m t) = VSeq []"
| "fresh (TBoundStr m) = VStr []"
| "fresh (TFixedArray m t) = VSeq (replicate m (fresh t))"
| "fresh (TBitSet m) = VBits (replicate m False)"
| "fresh (TStruct ts) = VSeq (List.map fresh ts)"

fun read_times :: "(bbuf \<Rightarrow> ('v \<times> bbuf) res) \<Rightarrow> nat \<Rightarrow> bbuf \<Rightarrow> ('v list \<times> bbuf) res" where
  "read_times r 0 b = Inr ([], b)"
| "read_times r (Suc n) b = bindr (r b) (\<lambda>(v, b1). bindr (read_times r n b1) (\<lambda>(vs, b2). Inr (v # vs, b2)))"

definition read_seq :: "(bbuf \<Rightarrow> ('v \<times> bbuf) res) \<Rightarrow> bbuf \<Rightarrow> ('v list \<times> bbuf) res" where
  "read_seq r b =
     bindr (read_num 4 b) (\<lambda>(n, b1). if n > int kMaxBBDynamicContainerSize then Inl Thrown else read_times r (nat n) b1)"

fun read_over :: "(val \<Rightarrow> bbuf \<Rightarrow> (val \<times> bbuf) res) \<Rightarrow> val list \<Rightarrow> bbuf \<Rightarrow> (val list \<times> bbuf) res" where
  "read_over r [] b = Inr ([], b)"
| "read_over r (old # olds) b = bindr (r old b) (\<lambda>(v, b1). bindr (read_over r olds b1) (\<lambda>(vs, b2). Inr (v # vs, b2)))"

fun read_members :: "(val \<Rightarrow> bbuf \<Rightarrow> (val \<times> bbuf) res) list \<Rightarrow> val list \<Rightarrow> bbuf \<Rightarrow> (val list \<times> bbuf) res" where
  "read_members [] [] b = Inr ([], b)"
| "read_members (r # rs) (old # olds) b =
     bindr (r old b) (\<lambda>(v, b1). bindr (read_members rs olds b1) (\<lambda>(vs, b2). Inr (v # vs, b2)))"
| "read_members _ _ b = Inl AssertFail"

definition as_val :: "('v \<Rightarrow> val) \<Rightarrow> ('v \<times> bbuf) res \<Rightarrow> (val \<times> bbuf) res" where
  "as_val f r = bindr r (\<lambda>(x, b). Inr (f x, b))"

text \<open>\<open>insert\<close> of the elements one by one into a set or map that was cleared.\<close>

definition insert_all :: "('v \<Rightarrow> int list) \<Rightarrow> 'v list \<Rightarrow> 'v list" where
  "insert_all key vs = foldl (\<lambda>s v. sset_insert key v s) [] vs"

text \<open>A bounded container checks its own bound and, ahead, the size of its contents.\<close>

definition check_bound :: "nat \<Rightarrow> bbuf \<Rightarrow> bbuf res" where
  "check_bound m b =
     bindr (read_num 4 b) (\<lambda>(n, b1).
       if int m \<noteq> n then Inl Thrown
       else bindr (peek_u32 b1) (\<lambda>k. if k > n then Inl Thrown else Inr b1))"

primrec unmarshal :: "ty \<Rightarrow> val \<Rightarrow> bbuf \<Rightarrow> (val \<times> bbuf) res" where
  "unmarshal TBool old b = as_val (\<lambda>i. VBool (i \<noteq> 0)) (read_num 1 b)"
| "unmarshal (TUInt n) old b = as_val VInt (read_num n b)"
| "unmarshal (TSInt n) old b = as_val (\<lambda>i. VInt (signed_of n i)) (read_num n b)"
| "unmarshal (TFloat n) old b = as_val VInt (read_num n b)"
| "unmarshal TStr old b = as_val VStr (read_string b)"
| "unmarshal (TVec t) old b = as_val VSeq (read_seq (unmarshal t (fresh t)) b)"
| "unmarshal (TList t) old b = as_val VSeq (read_seq (unmarshal t (fresh t)) b)"
| "unmarshal (TMap k t) old b =
     as_val (\<lambda>m. VMap (insert_all (key_of \<circ> fst) m))
       (read_seq (\<lambda>b. bindr (unmarshal k (fresh k) b) (\<lambda>(x, b1). bindr (unmarshal t (fresh t) b1) (\<lambda>(y, b2). Inr ((x, y), b2)))) b)"
| "unmarshal (TSet t) old b = as_val (\<lambda>vs. VSeq (insert_all key_of vs)) (read_seq (unmarshal t (fresh t)) b)"
| "unmarshal (TBoundArray m t) old b = bindr (check_bound m b) (\<lambda>b1. as_val VSeq (read_seq (unmarshal t (fresh t)) b1))"
| "unmarshal (TBoundStr m) old b = bindr (check_bound m b) (\<lambda>b1. as_val VStr (read_string b1))"
| "unmarshal (TFixedArray m t) old b =
     (case old of VSeq olds \<Rightarrow>
        bindr (read_num 4 b) (\<lambda>(n, b1). if int m \<noteq> n then Inl Thrown else as_val VSeq (read_over (unmarshal t) olds b1))
      | _ \<Rightarrow> Inl AssertFail)"
| "unmarshal (TBitSet m) old b = (case old of VBits bits \<Rightarrow> as_val VBits (BitSet_UnPack m bits b) | _ \<Rightarrow> Inl AssertFail)"
| "unmarshal (TStruct ts) old b = (case old of VSeq olds \<Rightarrow> as_val VSeq (read_members (List.map unmarshal ts) olds b) | _ \<Rightarrow> Inl AssertFail)"

section \<open>The wire format\<close>

fun pack_bits :: "nat \<Rightarrow> bool list \<Rightarrow> byte list" where
  "pack_bits 0 bits = []"
| "pack_bits (Suc n) bits = fill_byte (take 8 bits) 0 0 # pack_bits n (drop 8 bits)"

definition encode_seq :: "('v \<Rightarrow> byte list) \<Rightarrow> 'v list \<Rightarrow> byte list" where
  "encode_seq e vs = le_bytes 4 (int (length vs)) @ concat (List.map e vs)"

definition encode_string :: "byte list \<Rightarrow> byte list" where
  "encode_string s = le_bytes 4 (int (length s)) @ s"

primrec encode :: "ty \<Rightarrow> val \<Rightarrow> byte list" where
  "encode TBool v = (case v of VBool x \<Rightarrow> [if x then 1 else 0] | _ \<Rightarrow> [])"
| "encode (TUInt n) v = (case v of VInt i \<Rightarrow> le_bytes n i | _ \<Rightarrow> [])"
| "encode (TSInt n) v = (case v of VInt i \<Rightarrow> le_bytes n i | _ \<Rightarrow> [])"
| "encode (TFloat n) v = (case v of VInt i \<Rightarrow> le_bytes n i | _ \<Rightarrow> [])"
| "encode TStr v = (case v of VStr s \<Rightarrow> encode_string s | _ \<Rightarrow> [])"
| "encode (TVec t) v = (case v of VSeq vs \<Rightarrow> encode_seq (encode t) vs | _ \<Rightarrow> [])"
| "encode (TList t) v = (case v of VSeq vs \<Rightarrow> encode_seq (encode t) vs | _ \<Rightarrow> [])"
| "encode (TMap k t) v = (case v of VMap m \<Rightarrow> encode_seq (\<lambda>(x, y). encode k x @ encode t y) m | _ \<Rightarrow> [])"
| "encode (TSet t) v = (case v of VSeq vs \<Rightarrow> encode_seq (encode t) vs | _ \<Rightarrow> [])"
| "encode (TBoundArray m t) v = (case v of VSeq vs \<Rightarrow> le_bytes 4 (int m) @ encode_seq (encode t) vs | _ \<Rightarrow> [])"
| "encode (TBoundStr m) v = (case v of VStr s \<Rightarrow> le_bytes 4 (int m) @ encode_string s | _ \<Rightarrow> [])"
| "encode (TFixedArray m t) v = (case v of VSeq vs \<Rightarrow> le_bytes 4 (int m) @ concat (List.map (encode t) vs) | _ \<Rightarrow> [])"
| "encode (TBitSet m) v = (case v of VBits bits \<Rightarrow> le_bytes 4 (int ((m + 7) div 8)) @ pack_bits ((m + 7) div 8) bits | _ \<Rightarrow> [])"
| "encode (TStruct ts) v = (case v of VSeq vs \<Rightarrow> concat (map2 (\<lambda>e v. e v) (List.map encode ts) vs) | _ \<Rightarrow> [])"

text \<open>Values of a type that can be marshalled, and types whose bounds fit the format.\<close>

primrec marshallable :: "ty \<Rightarrow> val \<Rightarrow> bool" where
  "marshallable TBool v \<longleftrightarrow> (\<exists>x. v = VBool x)"
| "marshallable (TUInt n) v \<longleftrightarrow> (\<exists>i. v = VInt i \<and> 0 \<le> i \<and> i < 2 ^ (8 * n))"
| "marshallable (TSInt n) v \<longleftrightarrow> (\<exists>i. v = VInt i \<and> - (2 ^ (8 * n - 1)) \<le> i \<and> i < 2 ^ (8 * n - 1))"
| "marshallable (TFloat n) v \<longleftrightarrow> (\<exists>i. v = VInt i \<and> 0 \<le> i \<and> i < 2 ^ (8 * n))"
| "marshallable TStr v \<longleftrightarrow> (\<exists>s. v = VStr s \<and> length s < 2 ^ 32)"
| "marshallable (TVec t) v \<longleftrightarrow> (\<exists>vs. v = VSeq vs \<and> length vs \<le> 4096 \<and> list_all (marshallable t) vs)"
| "marshallable (TList t) v \<longleftrightarrow> (\<exists>vs. v = VSeq vs \<and> length vs \<le> 4096 \<and> list_all (marshallable t) vs)"
| "marshallable (TMap k t) v \<longleftrightarrow> (\<exists>m. v = VMap m \<and> length m \<le> 4096 \<and> sset_inv (key_of \<circ> fst) m \<and>
     list_all (marshallable k) (List.map fst m) \<and> list_all (marshallable t) (List.map snd m))"
| "marshallable (TSet t) v \<longleftrightarrow> (\<exists>vs. v = VSeq vs \<and> length vs \<le> 4096 \<and> sset_inv key_of vs \<and> list_all (marshallable t) vs)"
| "marshallable (TBoundArray m t) v \<longleftrightarrow> (\<exists>vs. v = VSeq vs \<and> length vs \<le> 4096 \<and> length vs \<le> m \<and> list_all (marshallable t) vs)"
| "marshallable (TBoundStr m) v \<longleftrightarrow> (\<exists>s. v = VStr s \<and> length s \<le> m)"
| "marshallable (TFixedArray m t) v \<longleftrightarrow> (\<exists>vs. v = VSeq vs \<and> length vs = m \<and> list_all (marshallable t) vs)"
| "marshallable (TBitSet m) v \<longleftrightarrow> (\<exists>bits. v = VBits bits \<and> length bits = m)"
| "marshallable (TStruct ts) v \<longleftrightarrow> (\<exists>vs. v = VSeq vs \<and> list_all2 (\<lambda>p v. p v) (List.map marshallable ts) vs)"

fun key_type :: "ty \<Rightarrow> bool" where
  "key_type TBool = True"
| "key_type (TUInt n) = True"
| "key_type (TSInt n) = True"
| "key_type TStr = True"
| "key_type _ = False"

primrec type_ok :: "ty \<Rightarrow> bool" where
  "type_ok TBool \<longleftrightarrow> True"
| "type_ok (TUInt n) \<longleftrightarrow> n \<in> {1, 2, 4, 8}"
| "type_ok (TSInt n) \<longleftrightarrow> n \<in> {1, 2, 4, 8}"
| "type_ok (TFloat n) \<longleftrightarrow> n \<in> {4, 8}"
| "type_ok TStr \<longleftrightarrow> True"
| "type_ok (TVec t) \<longleftrightarrow> type_ok t"
| "type_ok (TList t) \<longleftrightarrow> type_ok t"
| "type_ok (TMap k t) \<longleftrightarrow> key_type k \<and> type_ok k \<and> type_ok t"
| "type_ok (TSet t) \<longleftrightarrow> key_type t \<and> type_ok t"
| "type_ok (TBoundArray m t) \<longleftrightarrow> m < 2 ^ 32 \<and> type_ok t"
| "type_ok (TBoundStr m) \<longleftrightarrow> m < 2 ^ 32"
| "type_ok (TFixedArray m t) \<longleftrightarrow> m < 2 ^ 32 \<and> type_ok t"
| "type_ok (TBitSet m) \<longleftrightarrow> m \<le> kMaxBitsetSize"
| "type_ok (TStruct ts) \<longleftrightarrow> list_all (\<lambda>p. p) (List.map type_ok ts)"

text \<open>The bit sets in a variable that is read into must be empty.\<close>

primrec bits_clear :: "ty \<Rightarrow> val \<Rightarrow> bool" where
  "bits_clear TBool v \<longleftrightarrow> True"
| "bits_clear (TUInt n) v \<longleftrightarrow> True"
| "bits_clear (TSInt n) v \<longleftrightarrow> True"
| "bits_clear (TFloat n) v \<longleftrightarrow> True"
| "bits_clear TStr v \<longleftrightarrow> True"
| "bits_clear (TVec t) v \<longleftrightarrow> True"
| "bits_clear (TList t) v \<longleftrightarrow> True"
| "bits_clear (TMap k t) v \<longleftrightarrow> True"
| "bits_clear (TSet t) v \<longleftrightarrow> True"
| "bits_clear (TBoundArray m t) v \<longleftrightarrow> True"
| "bits_clear (TBoundStr m) v \<longleftrightarrow> True"
| "bits_clear (TFixedArray m t) v \<longleftrightarrow> (case v of VSeq vs \<Rightarrow> list_all (bits_clear t) vs | _ \<Rightarrow> False)"
| "bits_clear (TBitSet m) v \<longleftrightarrow> (case v of VBits bits \<Rightarrow> \<not> (\<exists>x \<in> set bits. x) | _ \<Rightarrow> False)"
| "bits_clear (TStruct ts) v \<longleftrightarrow> (case v of VSeq vs \<Rightarrow> list_all2 (\<lambda>p v. p v) (List.map bits_clear ts) vs | _ \<Rightarrow> False)"

end
