(* ===== verification/WireProps.thy ===== *)
theory WireProps
  imports WireTypes
begin

text \<open>
  What marshalling writes and what reading it back gives: every overload appends the bytes of the wire
  format, reading them returns the value, and reading other bytes throws or returns a value of the type.
\<close>

section \<open>Numbers\<close>

lemma length_le_bytes [simp]: "length (le_bytes n i) = n"
  by (induction n arbitrary: i) simp_all

lemma le_int_bytes: "0 \<le> i \<Longrightarrow> i < 2 ^ (8 * n) \<Longrightarrow> le_int (le_bytes n i) = i"
proof (induction n arbitrary: i)
  case (Suc n)
  have "i div 256 < 2 ^ (8 * n)" using Suc.prems by (simp add: div_less_iff_less_mult power_add mult.commute)
  then have "le_int (le_bytes n (i div 256)) = i div 256" using Suc by simp
  moreover have "uint (word_of_int i :: byte) = i mod 256" by (simp add: uint_word_of_int)
  ultimately show ?case by simp
qed simp

lemma le_int_range: "0 \<le> le_int bs \<and> le_int bs < 2 ^ (8 * length bs)"
proof (induction bs)
  case (Cons x xs)
  have "uint x < 256" using uint_lt2p [of x] by simp
  then show ?case using Cons by (simp add: power_add)
qed simp

lemma le_bytes_mod: "le_bytes n (i mod 2 ^ (8 * n)) = le_bytes n i"
proof (induction n arbitrary: i)
  case (Suc n)
  have p: "(2::int) ^ (8 * Suc n) = 256 * 2 ^ (8 * n)" by (simp add: power_add)
  have "i mod 2 ^ (8 * Suc n) div 256 = i div 256 mod 2 ^ (8 * n)"
    unfolding p by (simp add: zmod_zmult2_eq)
  moreover have "(word_of_int (i mod 2 ^ (8 * Suc n)) :: byte) = word_of_int i"
    unfolding p by (simp add: word_of_int_eq_iff take_bit_eq_mod mod_mod_cancel)
  ultimately show ?case using Suc.IH by simp
qed simp

lemma signed_read:
  assumes "0 < n" "- (2 ^ (8 * n - 1)) \<le> i" "i < 2 ^ (8 * n - 1)"
  shows "signed_of n (le_int (le_bytes n i)) = i"
proof -
  let ?h = "2 ^ (8 * n - 1) :: int"
  have p: "(2::int) ^ (8 * n) = 2 * ?h" using assms(1) by (simp flip: power_Suc)
  have "0 \<le> i mod 2 ^ (8 * n)" "i mod 2 ^ (8 * n) < 2 ^ (8 * n)" by simp_all
  then have e: "le_int (le_bytes n i) = i mod 2 ^ (8 * n)" using le_int_bytes le_bytes_mod by metis
  show ?thesis
  proof (cases "0 \<le> i")
    case True
    then have "i mod 2 ^ (8 * n) = i" using assms(3) p by (intro mod_pos_pos_trivial) auto
    then show ?thesis using e assms(3) by (simp add: signed_of_def)
  next
    case False
    then have "(i + 2 ^ (8 * n)) mod 2 ^ (8 * n) = i + 2 ^ (8 * n)" using assms(2) p by (intro mod_pos_pos_trivial) auto
    then have "i mod 2 ^ (8 * n) = i + 2 ^ (8 * n)" by simp
    then show ?thesis using e assms(2) p by (simp add: signed_of_def)
  qed
qed

section \<open>Writing at the end\<close>

definition put_end :: "byte list \<Rightarrow> bbuf \<Rightarrow> bbuf" where
  "put_end bs b = b\<lparr>storage := storage b @ bs, wpos := wpos b + length bs\<rparr>"

text \<open>A buffer that nobody moved the write position of, with room for some bytes.\<close>

definition room :: "byte list \<Rightarrow> bbuf \<Rightarrow> bool" where
  "room bs b \<longleftrightarrow> wpos b = bb_size b \<and> bitpos b = 8 \<and> bb_size b + length bs < 10000000"

lemma put_end_simps [simp]:
  "put_end [] b = b" "put_end ys (put_end xs b) = put_end (xs @ ys) b" "storage (put_end bs b) = storage b @ bs"
  "rpos (put_end bs b) = rpos b" "bitpos (put_end bs b) = bitpos b"
  by (simp_all add: put_end_def)

lemma room_append: "room (xs @ ys) b \<Longrightarrow> room xs b" "room (xs @ ys) b \<Longrightarrow> room ys (put_end xs b)"
  by (simp_all add: room_def put_end_def)

lemma append_raw_end: "room bs b \<Longrightarrow> append_raw bs b = Inr (put_end bs b)"
  by (simp add: append_raw_def room_def put_end_def write_at_def Let_def)

lemma append_num_end: "room (le_bytes n i) b \<Longrightarrow> append_num n i b = Inr (put_end (le_bytes n i) b)"
  using append_raw_end [of "le_bytes n i" b] by (simp add: append_num_def flushBits_def room_def)

text \<open>An operation that appends given bytes.\<close>

definition puts :: "byte list \<Rightarrow> (bbuf \<Rightarrow> bbuf res) \<Rightarrow> bool" where
  "puts bs w \<longleftrightarrow> (\<forall>b. room bs b \<longrightarrow> w b = Inr (put_end bs b))"

lemma puts_num [intro]: "puts (le_bytes n i) (append_num n i)"
  by (simp add: puts_def append_num_end)

lemma puts_raw [intro]: "puts bs (append_raw bs)"
  by (simp add: puts_def append_raw_end)

lemma puts_bind: "puts xs w \<Longrightarrow> puts ys w' \<Longrightarrow> puts (xs @ ys) (\<lambda>b. bindr (w b) w')"
  using room_append by (fastforce simp: puts_def)

lemma puts_all: "\<forall>v \<in> set vs. puts (e v) (w v) \<Longrightarrow> puts (concat (List.map e vs)) (write_all w vs)"
proof (induction vs)
  case (Cons v vs)
  have "write_all w (v # vs) = (\<lambda>b. bindr (w v b) (write_all w vs))" by (rule ext) simp
  then show ?case using Cons puts_bind [of "e v" "w v" "concat (List.map e vs)"] by simp
qed (simp add: puts_def)

lemma puts_seq:
  assumes "\<forall>v \<in> set vs. puts (e v) (w v)" "length vs \<le> 4096"
  shows "puts (encode_seq e vs) (write_seq w vs)"
proof -
  have "write_seq w vs = (\<lambda>b. bindr (append_num 4 (int (length vs)) b) (write_all w vs))"
    using assms(2) by (rule_tac ext) (simp add: write_seq_def kMaxBBDynamicContainerSize_def u32_def)
  then show ?thesis using puts_bind [OF puts_num puts_all [OF assms(1)]] by (simp add: encode_seq_def)
qed

lemma puts_string: "length s < 2 ^ 32 \<Longrightarrow> puts (encode_string s) (append_string s)"
proof -
  assume s: "length s < 2 ^ 32"
  then have "u32 (int (length s)) = int (length s)" by (simp add: u32_def)
  then have "append_string s = (\<lambda>b. bindr (append_num 4 (int (length s)) b) (append_raw s))" by (rule_tac ext) (simp add: append_string_def)
  then show ?thesis using puts_bind [OF puts_num puts_raw] by (simp add: encode_string_def)
qed

lemma puts_members:
  assumes "list_all2 (\<lambda>t v. puts (encode t v) (marshal t v)) ts vs"
  shows "puts (concat (map2 (\<lambda>e v. e v) (List.map encode ts) vs)) (write_members (List.map marshal ts) vs)"
  using assms
proof (induction ts vs rule: list_all2_induct)
  case (Cons t ts v vs)
  have "write_members (List.map marshal (t # ts)) (v # vs) = (\<lambda>b. bindr (marshal t v b) (write_members (List.map marshal ts) vs))"
    by (rule ext) simp
  then show ?case using Cons puts_bind [of "encode t v"] by simp
qed (simp add: puts_def)

text \<open>The bytes of a bit set.\<close>

definition tail_fits :: "nat \<Rightarrow> nat \<Rightarrow> bool" where
  "tail_fits m l \<longleftrightarrow> l mod 8 = m mod 8"

lemma tail_cases:
  assumes "tail_fits m l" "(l + 7) div 8 = Suc n"
  shows "l \<noteq> 0" "n = 0 \<Longrightarrow> l = tail_alignment m" "n \<noteq> 0 \<Longrightarrow> 8 \<le> l \<and> tail_fits m (l - 8) \<and> (l - 8 + 7) div 8 = n"
proof -
  show "l \<noteq> 0" using assms(2) by (cases l) simp_all
  show "l = tail_alignment m" if "n = 0"
  proof -
    have l: "0 < l" "l \<le> 8" using assms(2) that by linarith+
    then have "l mod 8 = (if l = 8 then 0 else l)" by simp
    then show ?thesis using assms(1) l unfolding tail_fits_def tail_alignment_def by (cases "l = 8") simp_all
  qed
  show "8 \<le> l \<and> tail_fits m (l - 8) \<and> (l - 8 + 7) div 8 = n" if "n \<noteq> 0"
  proof -
    have "8 \<le> l" using assms(2) that by linarith
    then obtain k where "l = k + 8" using nat_le_iff_add by (metis add.commute)
    then show ?thesis using assms unfolding tail_fits_def by simp
  qed
qed

lemma tail_range: "0 < tail_alignment m \<and> tail_alignment m \<le> 8"
  by (simp add: tail_alignment_def less_imp_le)

lemma puts_pack_loop:
  assumes "n = (length bits + 7) div 8" "tail_fits m (length bits)" "n < 4294967296"
  shows "puts (pack_bits n bits) (pack_loop m n bits)"
  using assms
proof (induction n arbitrary: bits)
  case 0
  then have "length bits < 1" by (simp add: div_eq_0_iff)
  then have "bits = []" by simp
  then show ?case by (simp add: puts_def pack_loop.simps)
next
  case (Suc n)
  let ?k = "if Suc n = 1 then tail_alignment m else 8"
  note tc = tail_cases [OF Suc.prems(2) Suc.prems(1) [symmetric]]
  have k: "?k \<le> length bits" "bits \<noteq> []" using tc by auto
  have t: "take ?k bits = take 8 bits" "drop ?k bits = drop 8 bits" "n = 0 \<Longrightarrow> drop 8 bits = []"
    using tc(2) tail_range [of m] by auto
  have r: "puts (pack_bits n (drop 8 bits)) (pack_loop m n (drop 8 bits))"
  proof (cases "n = 0")
    case True
    then show ?thesis using t(3) by (simp add: puts_def pack_loop.simps)
  next
    case False
    then have "n = (length (drop 8 bits) + 7) div 8" "tail_fits m (length (drop 8 bits))" "n < 4294967296"
      using tc(3) [OF False] Suc.prems(3) unfolding length_drop by auto
    then show ?thesis by (rule Suc.IH)
  qed
  have "pack_loop m (Suc n) bits = (\<lambda>b. bindr (append_num 1 (uint (fill_byte (take 8 bits) 0 0)) b) (pack_loop m n (drop 8 bits)))"
  proof
    fix b
    show "pack_loop m (Suc n) bits b = bindr (append_num 1 (uint (fill_byte (take 8 bits) 0 0)) b) (pack_loop m n (drop 8 bits))"
      using k t(1,2) by (subst pack_loop.simps) (simp add: Let_def)
  qed
  moreover have "le_bytes 1 (uint (fill_byte (take 8 bits) 0 0)) = [fill_byte (take 8 bits) 0 0]" by simp
  ultimately show ?case using puts_bind [OF puts_num [of 1 "uint (fill_byte (take 8 bits) 0 0)"] r] by simp
qed

lemma puts_bits:
  assumes "length bits = m" "m \<le> kMaxBitsetSize"
  shows "puts (le_bytes 4 (int ((m + 7) div 8)) @ pack_bits ((m + 7) div 8) bits) (BitSet_Pack m bits)"
proof -
  have m: "m \<le> 1048576" using assms(2) by (simp add: kMaxBitsetSize_def)
  then have "(m + 7) div 8 < 4294967296" by simp
  then have "puts (pack_bits ((m + 7) div 8) bits) (pack_loop m ((m + 7) div 8) bits)"
    using puts_pack_loop [of "(m + 7) div 8" bits m] assms(1) by (simp add: tail_fits_def)
  moreover have "BitSet_Pack m bits = (\<lambda>b. bindr (append_num 4 (int ((m + 7) div 8)) b) (pack_loop m ((m + 7) div 8) bits))"
    using assms by (rule_tac ext) (simp add: BitSet_Pack_def Let_def)
  ultimately show ?thesis using puts_bind [OF puts_num] by simp
qed

section \<open>The format\<close>

lemma puts_encode:
  "type_ok t \<Longrightarrow> marshallable t v \<Longrightarrow> puts (encode t v) (marshal t v)"
proof (induction t arbitrary: v)
  case TBool
  then obtain x where v: "v = VBool x" by auto
  have "le_bytes 1 (if x then 1 else 0) = [if x then 1 else 0 :: byte]" by (cases x) simp_all
  then have "puts [if x then 1 else 0] (append_num 1 (if x then 1 else 0))" by (metis puts_num)
  then show ?case using v by (simp add: puts_def)
next
  case TStr
  then show ?case using puts_string by (auto simp: puts_def)
next
  case (TVec t)
  then obtain vs where v: "v = VSeq vs" "length vs \<le> 4096" "list_all (marshallable t) vs" by auto
  have "\<forall>x \<in> set vs. puts (encode t x) (marshal t x)" using TVec v(3) by (auto simp: list_all_iff)
  from puts_seq [OF this v(2)] show ?case using v(1) by (simp add: puts_def)
next
  case (TList t)
  then obtain vs where v: "v = VSeq vs" "length vs \<le> 4096" "list_all (marshallable t) vs" by auto
  have "\<forall>x \<in> set vs. puts (encode t x) (marshal t x)" using TList v(3) by (auto simp: list_all_iff)
  from puts_seq [OF this v(2)] show ?case using v(1) by (simp add: puts_def)
next
  case (TSet t)
  then obtain vs where v: "v = VSeq vs" "length vs \<le> 4096" "list_all (marshallable t) vs" by auto
  have "\<forall>x \<in> set vs. puts (encode t x) (marshal t x)" using TSet v(3) by (auto simp: list_all_iff)
  from puts_seq [OF this v(2)] show ?case using v(1) by (simp add: puts_def)
next
  case (TMap k t)
  then obtain m where v: "v = VMap m" "length m \<le> 4096" "list_all (marshallable k) (List.map fst m)" "list_all (marshallable t) (List.map snd m)" by auto
  let ?w = "\<lambda>(x, y) b. bindr (marshal k x b) (marshal t y)" let ?e = "\<lambda>(x, y). encode k x @ encode t y"
  have "\<forall>p \<in> set m. puts (?e p) (?w p)"
    using TMap v(3,4) puts_bind [of "encode k _" "marshal k _"] by (fastforce simp: list_all_iff)
  from puts_seq [OF this v(2)] show ?case using v(1) by (simp add: puts_def)
next
  case (TBoundArray m t)
  then obtain vs where v: "v = VSeq vs" "length vs \<le> 4096" "length vs \<le> m" "list_all (marshallable t) vs" by auto
  have m: "u32 (int m) = int m" using TBoundArray.prems(1) by (simp add: u32_def)
  have "\<forall>x \<in> set vs. puts (encode t x) (marshal t x)" using TBoundArray v(4) by (auto simp: list_all_iff)
  from puts_bind [OF puts_num [of 4 "int m"] puts_seq [OF this v(2)]] show ?case using v(1,3) m by (simp add: puts_def)
next
  case (TBoundStr m)
  then obtain s where v: "v = VStr s" "length s \<le> m" by auto
  have m: "u32 (int m) = int m" "length s < 2 ^ 32" using TBoundStr.prems(1) v(2) by (simp_all add: u32_def)
  from puts_bind [OF puts_num [of 4 "int m"] puts_string [OF m(2)]] show ?case using v m(1) by (simp add: puts_def)
next
  case (TFixedArray m t)
  then obtain vs where v: "v = VSeq vs" "length vs = m" "list_all (marshallable t) vs" by auto
  have m: "u32 (int m) = int m" using TFixedArray.prems(1) by (simp add: u32_def)
  have "\<forall>x \<in> set vs. puts (encode t x) (marshal t x)" using TFixedArray v(3) by (auto simp: list_all_iff)
  from puts_bind [OF puts_num [of 4 "int m"] puts_all [OF this]] show ?case using v(1,2) m by (simp add: puts_def)
next
  case (TBitSet m)
  then obtain bits where v: "v = VBits bits" "length bits = m" "m \<le> kMaxBitsetSize" by auto
  from puts_bits [OF v(2,3)] show ?case using v(1) by (simp add: puts_def)
next
  case (TStruct ts)
  then obtain vs where v: "v = VSeq vs" "list_all2 (\<lambda>p v. p v) (List.map marshallable ts) vs" by auto
  have "list_all2 (\<lambda>t v. puts (encode t v) (marshal t v)) ts vs"
    using TStruct v(2) by (fastforce simp: list_all2_conv_all_nth list_all_length)
  from puts_members [OF this] show ?case using v(1) by (simp add: puts_def)
qed (auto simp: puts_def append_num_end)

section \<open>Reading back\<close>

text \<open>A buffer whose unread bytes are given, and a reader that takes given bytes for a value.\<close>

definition ahead :: "byte list \<Rightarrow> bbuf \<Rightarrow> bool" where
  "ahead bs b \<longleftrightarrow> bitpos b = 8 \<and> rpos b \<le> bb_size b \<and> bb_size b < 2 ^ 32 \<and> drop (rpos b) (storage b) = bs"

definition skip :: "nat \<Rightarrow> bbuf \<Rightarrow> bbuf" where
  "skip n b = b\<lparr>rpos := rpos b + n\<rparr>"

lemma skip_simps [simp]:
  "skip 0 b = b" "skip m (skip n b) = skip (n + m) b" "storage (skip n b) = storage b" "rpos (skip n b) = rpos b + n" "bitpos (skip n b) = bitpos b"
  by (simp_all add: skip_def)

lemma ahead_room: "ahead (xs @ ys) b \<Longrightarrow> rpos b + length xs \<le> bb_size b"
proof -
  assume a: "ahead (xs @ ys) b"
  then have "length (xs @ ys) = bb_size b - rpos b" "rpos b \<le> bb_size b" unfolding ahead_def by (metis length_drop, blast)
  then show ?thesis unfolding length_append by linarith
qed

lemma ahead_skip: "ahead (xs @ ys) b \<Longrightarrow> ahead ys (skip (length xs) b)"
proof -
  assume a: "ahead (xs @ ys) b"
  then have d: "drop (rpos b) (storage b) = xs @ ys" by (simp add: ahead_def)
  have l: "rpos b + length xs \<le> bb_size b" by (rule ahead_room [OF a])
  have "drop (length xs) (drop (rpos b) (storage b)) = ys" using d by simp
  then have "drop (rpos b + length xs) (storage b) = ys" by (simp add: add.commute)
  then show ?thesis using a l by (simp add: ahead_def)
qed

definition gets :: "byte list \<Rightarrow> (bbuf \<Rightarrow> ('v \<times> bbuf) res) \<Rightarrow> 'v \<Rightarrow> bool" where
  "gets bs r v \<longleftrightarrow> (\<forall>b ys. ahead (bs @ ys) b \<longrightarrow> r b = Inr (v, skip (length bs) b))"

lemma gets_ret: "gets [] (\<lambda>b. Inr (v, b)) v"
  by (simp add: gets_def)

lemma gets_bind:
  assumes "gets xs r v" "gets ys (k v) w"
  shows "gets (xs @ ys) (\<lambda>b. bindr (r b) (\<lambda>(v, b1). k v b1)) w"
  unfolding gets_def
proof (intro allI impI)
  fix b zs
  assume "ahead ((xs @ ys) @ zs) b"
  then have a: "ahead (xs @ ys @ zs) b" by simp
  then have "r b = Inr (v, skip (length xs) b)" using assms(1) unfolding gets_def by blast
  moreover have "k v (skip (length xs) b) = Inr (w, skip (length ys) (skip (length xs) b))"
    using assms(2) ahead_skip [OF a] unfolding gets_def by blast
  ultimately show "bindr (r b) (\<lambda>(v, b1). k v b1) = Inr (w, skip (length (xs @ ys)) b)" by simp
qed

lemma gets_map: "gets xs r v \<Longrightarrow> gets xs (\<lambda>b. as_val f (r b)) (f v)"
  by (simp add: gets_def as_val_def)

lemma gets_bytes: "gets bs (read_bytes (length bs)) bs"
  unfolding gets_def
proof (intro allI impI)
  fix b ys
  assume a: "ahead (bs @ ys) b"
  then have "rpos b + length bs \<le> bb_size b" by (rule ahead_room)
  moreover have "b\<lparr>rpos := rpos b + length bs, bitpos := 8\<rparr> = skip (length bs) b" using a by (simp add: skip_def ahead_def)
  ultimately show "read_bytes (length bs) b = Inr (bs, skip (length bs) b)" using a by (simp add: read_bytes_Inr ahead_def)
qed

lemma gets_num_raw: "gets (le_bytes n i) (read_num n) (le_int (le_bytes n i))"
  using gets_bytes [of "le_bytes n i"] by (simp add: gets_def read_num_def)

lemma gets_num: "0 \<le> i \<Longrightarrow> i < 2 ^ (8 * n) \<Longrightarrow> gets (le_bytes n i) (read_num n) i"
  using gets_num_raw [of n i] le_int_bytes [of i n] by simp

lemma gets_bind_cont:
  assumes "gets xs r v" "\<And>b1. k v b1 = r' b1" "gets ys r' w"
  shows "gets (xs @ ys) (\<lambda>b. bindr (r b) (\<lambda>(v, b1). k v b1)) w"
  using gets_bind [OF assms(1), of ys k w] assms(2,3) by (simp add: gets_def)

lemma gets_cons:
  assumes "gets xs r v" "gets ys rs vs"
  shows "gets (xs @ ys) (\<lambda>b. bindr (r b) (\<lambda>(v, b1). bindr (rs b1) (\<lambda>(vs, b2). Inr (v # vs, b2)))) (v # vs)"
proof -
  have "gets (ys @ []) (\<lambda>b. bindr (rs b) (\<lambda>(vs, b2). Inr (v # vs, b2))) (v # vs)" by (rule gets_bind [OF assms(2) gets_ret])
  then show ?thesis using gets_bind [OF assms(1), of ys "\<lambda>v b1. bindr (rs b1) (\<lambda>(vs, b2). Inr (v # vs, b2))"] by simp
qed

lemma gets_times:
  assumes "\<forall>v \<in> set vs. gets (e v) r v"
  shows "gets (concat (List.map e vs)) (read_times r (length vs)) vs"
  using assms
proof (induction vs)
  case (Cons v vs)
  have "read_times r (length (v # vs)) = (\<lambda>b. bindr (r b) (\<lambda>(v, b1). bindr (read_times r (length vs) b1) (\<lambda>(vs, b2). Inr (v # vs, b2))))"
    by (rule ext) simp
  then show ?case using Cons gets_cons [of "e v" r v] by simp
qed (simp add: gets_def)

lemma gets_seq:
  assumes "\<forall>v \<in> set vs. gets (e v) r v" "length vs \<le> 4096"
  shows "gets (encode_seq e vs) (read_seq r) vs"
proof -
  have n: "gets (le_bytes 4 (int (length vs))) (read_num 4) (int (length vs))" using assms(2) by (intro gets_num) simp_all
  have "gets (le_bytes 4 (int (length vs)) @ concat (List.map e vs))
      (\<lambda>b. bindr (read_num 4 b) (\<lambda>(n, b1). if n > int kMaxBBDynamicContainerSize then Inl Thrown else read_times r (nat n) b1)) vs"
    by (rule gets_bind_cont [OF n _ gets_times [OF assms(1)]]) (use assms(2) in \<open>simp add: kMaxBBDynamicContainerSize_def\<close>)
  then show ?thesis unfolding encode_seq_def gets_def read_seq_def .
qed

lemma gets_over:
  assumes "list_all2 (\<lambda>v old. gets (e v) (r old) v) vs olds"
  shows "gets (concat (List.map e vs)) (read_over r olds) vs"
  using assms
proof (induction vs olds rule: list_all2_induct)
  case (Cons v vs old olds)
  have "read_over r (old # olds) = (\<lambda>b. bindr (r old b) (\<lambda>(v, b1). bindr (read_over r olds b1) (\<lambda>(vs, b2). Inr (v # vs, b2))))"
    by (rule ext) simp
  then show ?case using Cons gets_cons [of "e v" "r old" v] by simp
qed (simp add: gets_ret)

lemma gets_chars:
  assumes "ahead (s @ ys) b" "bound = rpos b + length s"
  shows "read_chars bound b = Inr (s, skip (length s) b)"
  using assms
proof (induction s arbitrary: b)
  case Nil
  then show ?case by (subst read_chars.simps) simp
next
  case (Cons c s)
  have "read_bytes 1 b = Inr ([c], skip 1 b)" using gets_bytes [of "[c]"] Cons.prems(1) by (auto simp: gets_def)
  moreover have "ahead (s @ ys) (skip 1 b)" using ahead_skip [of "[c]" "s @ ys" b] Cons.prems(1) by simp
  moreover have "rpos b < bb_size b" using Cons.prems(1) unfolding ahead_def
    by (metis Cons_eq_appendI drop_all leI list.distinct(1))
  ultimately show ?case using Cons.IH [of "skip 1 b"] Cons.prems(2) by (subst read_chars.simps) simp
qed

lemma gets_string:
  assumes "length s < 2 ^ 32"
  shows "gets (encode_string s) read_string (s)"
  unfolding gets_def
proof (intro allI impI)
  fix b ys
  assume a: "ahead (encode_string s @ ys) b"
  let ?n = "le_bytes 4 (int (length s))" let ?b = "skip 4 b"
  have a1: "ahead (?n @ s @ ys) b" using a by (simp add: encode_string_def)
  have g: "gets ?n (read_num 4) (int (length s))" using assms by (intro gets_num) simp_all
  have n: "read_num 4 b = Inr (int (length s), ?b)" using g a1 unfolding gets_def by fastforce
  have a2: "ahead (s @ ys) ?b" using ahead_skip [OF a1] by simp
  have l: "rpos ?b + length s \<le> bb_size ?b" "bb_size ?b < 4294967296" using ahead_room [OF a2] a2 by (simp_all add: ahead_def)
  have "nat (u32 (u32 (int (rpos ?b)) + int (length s))) = rpos ?b + length s" using l by (simp add: u32_def)
  then show "read_string b = Inr (s, skip (length (encode_string s)) b)"
    using n gets_chars [OF a2 refl] by (simp add: read_string_def encode_string_def)
qed

lemma gets_members:
  assumes "length ts = length vs" "length olds = length vs" "\<forall>i < length vs. gets (encode (ts ! i) (vs ! i)) (unmarshal (ts ! i) (olds ! i)) (vs ! i)"
  shows "gets (concat (map2 (\<lambda>e v. e v) (List.map encode ts) vs)) (read_members (List.map unmarshal ts) olds) vs"
  using assms
proof (induction vs arbitrary: ts olds)
  case Nil
  then show ?case by (simp add: gets_def)
next
  case (Cons v vs)
  obtain t ts' where ts: "ts = t # ts'" using Cons.prems(1) by (cases ts) auto
  obtain old olds' where olds: "olds = old # olds'" using Cons.prems(2) by (cases olds) auto
  have h: "gets (encode t v) (unmarshal t old) v" using Cons.prems(3) ts olds by force
  have "gets (encode (ts' ! i) (vs ! i)) (unmarshal (ts' ! i) (olds' ! i)) (vs ! i)" if "i < length vs" for i
    using Cons.prems(3) that ts olds by (metis Suc_less_eq length_Cons nth_Cons_Suc)
  then have t: "gets (concat (map2 (\<lambda>e v. e v) (List.map encode ts') vs)) (read_members (List.map unmarshal ts') olds') vs"
    using Cons.IH [of ts' olds'] Cons.prems(1,2) ts olds by simp
  have "read_members (List.map unmarshal ts) olds =
      (\<lambda>b. bindr (unmarshal t old b) (\<lambda>(v, b1). bindr (read_members (List.map unmarshal ts') olds' b1) (\<lambda>(vs, b2). Inr (v # vs, b2))))"
    unfolding ts olds by (rule ext) simp
  then show ?case using gets_cons [OF h t] ts by simp
qed

lemma peek_ahead:
  assumes "ahead (le_bytes 4 i @ ys) b" "0 \<le> i" "i < 2 ^ 32"
  shows "peek_u32 b = Inr i"
proof -
  have "rpos b + 4 \<le> bb_size b" using ahead_room [OF assms(1)] by simp
  moreover have "take 4 (drop (rpos b) (storage b)) = le_bytes 4 i" using assms(1) by (simp add: ahead_def)
  moreover have "le_int (le_bytes 4 i) = i" using le_int_bytes [of i 4] assms(2,3) by simp
  ultimately show ?thesis by (simp add: peek_u32_def)
qed

lemma gets_bound:
  assumes "m < 2 ^ 32" "0 \<le> i" "i \<le> int m" "gets (le_bytes 4 i @ zs) r v"
  shows "gets (le_bytes 4 (int m) @ le_bytes 4 i @ zs) (\<lambda>b. bindr (check_bound m b) r) v"
  unfolding gets_def
proof (intro allI impI)
  fix b ys
  assume "ahead ((le_bytes 4 (int m) @ le_bytes 4 i @ zs) @ ys) b"
  then have a: "ahead (le_bytes 4 (int m) @ (le_bytes 4 i @ zs) @ ys) b" by simp
  have "gets (le_bytes 4 (int m)) (read_num 4) (int m)" using assms(1) by (intro gets_num) simp_all
  then have n: "read_num 4 b = Inr (int m, skip 4 b)" using a unfolding gets_def by fastforce
  have a2: "ahead ((le_bytes 4 i @ zs) @ ys) (skip 4 b)" using ahead_skip [OF a] by simp
  have k: "peek_u32 (skip 4 b) = Inr i" using peek_ahead [of i "zs @ ys" "skip 4 b"] a2 assms(1-3) by simp
  have "r (skip 4 b) = Inr (v, skip (length (le_bytes 4 i @ zs)) (skip 4 b))" using assms(4) a2 unfolding gets_def by blast
  then show "bindr (check_bound m b) r = Inr (v, skip (length (le_bytes 4 (int m) @ le_bytes 4 i @ zs)) b)"
    using n k assms(3) by (simp add: check_bound_def)
qed

lemma insert_all_sorted: "sset_inv key vs \<Longrightarrow> insert_all key vs = vs"
proof -
  have ins: "insort_key key v s = s @ [v]" if "\<forall>x \<in> set s. key x < key v" for v s
    using that by (induction s) (auto simp: not_le)
  have "sset_inv key (s @ vs) \<Longrightarrow> foldl (\<lambda>s v. sset_insert key v s) s vs = s @ vs" for s
  proof (induction vs arbitrary: s)
    case (Cons v vs)
    have "\<forall>x \<in> set s. key x < key v" using Cons.prems by (induction s) (auto simp: sset_inv_Cons)
    then have "sset_insert key v s = s @ [v]" using ins [of s v] by (auto simp: sset_insert_def)
    then show ?case using Cons by simp
  qed simp
  from this [of "[]"] show "sset_inv key vs \<Longrightarrow> insert_all key vs = vs" by (simp add: insert_all_def)
qed

text \<open>Bit sets.\<close>

lemma bit_fill:
  assumes "j + length xs \<le> 8" "i < 8"
  shows "bit (fill_byte xs j t) i = (bit t i \<or> j \<le> i \<and> i < j + length xs \<and> xs ! (i - j))"
  using assms(1)
proof (induction xs arbitrary: j t)
  case (Cons x xs)
  have j: "j < 8" using Cons.prems by simp
  have b: "bit (if x then t OR push_bit j 1 else t) i = (bit t i \<or> x \<and> i = j)"
    using assms(2) j by (cases x; cases "i = j") (simp_all add: bit_or_iff bit_exp_iff)
  have e: "bit (fill_byte (x # xs) j t) i = ((bit t i \<or> x \<and> i = j) \<or> Suc j \<le> i \<and> i < Suc j + length xs \<and> xs ! (i - Suc j))"
    using Cons.IH [of "Suc j"] Cons.prems b by simp
  consider "i = j" | "i < j" | k where "i = Suc j + k" by (metis add_Suc less_imp_Suc_add linorder_neqE_nat)
  then show ?case unfolding e by cases auto
qed auto

lemma set_bits_ok:
  assumes "length done + k \<le> length (done @ replicate n False)" "k \<le> n"
  shows "set_bits t i k (length done) (done @ replicate n False) = Inr (done @ List.map (\<lambda>j. bit t (i + j)) [0..<k] @ replicate (n - k) False)"
  using assms(2)
proof (induction k arbitrary: i "done" n)
  case (Suc k)
  then obtain n' where n: "n = Suc n'" "k \<le> n'" by (cases n) auto
  have e: "(done @ replicate n False)[length done := True] = (done @ [True]) @ replicate n' False"
    "done @ replicate n False = (done @ [False]) @ replicate n' False" using n by simp_all
  have "set_bits t i (Suc k) (length done) (done @ replicate n False) = set_bits t (Suc i) k (length (done @ [bit t i])) ((done @ [bit t i]) @ replicate n' False)"
    using n(1) by (auto simp: e(1))
  also have "\<dots> = Inr ((done @ [bit t i]) @ List.map (\<lambda>j. bit t (Suc i + j)) [0..<k] @ replicate (n' - k) False)"
    by (rule Suc.IH [OF n(2)])
  also have "\<dots> = Inr (done @ List.map (\<lambda>j. bit t (i + j)) [0..<Suc k] @ replicate (n - Suc k) False)"
    using n(1) by (simp add: upt_conv_Cons map_Suc_upt [symmetric] del: upt_Suc)
  finally show ?case .
qed simp

lemma byte_bits:
  assumes "length xs \<le> 8"
  shows "List.map (bit (fill_byte xs 0 0)) [0..<length xs] = xs"
  by (rule nth_equalityI) (use assms in \<open>auto simp: bit_fill\<close>)

lemma length_pack_bits [simp]: "length (pack_bits n bits) = n"
  by (induction n arbitrary: bits) simp_all

lemma gets_unpack:
  assumes "n = (length bits + 7) div 8" "tail_fits m (length bits)" "length done + length bits = m"
  shows "gets (pack_bits n bits) (unpack_loop m n (length done) (done @ replicate (length bits) False)) (done @ bits)"
  using assms
proof (induction n arbitrary: bits "done")
  case 0
  then have "length bits < 1" by (simp add: div_eq_0_iff)
  then show ?case using 0 by (simp add: gets_def)
next
  case (Suc n)
  let ?k = "if n = 0 then tail_alignment m else 8"
  note tc = tail_cases [OF Suc.prems(2) Suc.prems(1) [symmetric]]
  have k: "?k \<le> length bits" "?k \<le> 8" using tc tail_range [of m] by auto
  have t: "take 8 bits = take ?k bits" "drop 8 bits = drop ?k bits" using tc(2) tail_range [of m] by auto
  let ?x = "fill_byte (take ?k bits) 0 0" let ?d = "done @ take ?k bits" let ?r = "drop ?k bits"
  have s: "set_bits ?x 0 ?k (length done) (done @ replicate (length bits) False) = Inr (?d @ replicate (length ?r) False)"
    using set_bits_ok [of "done" ?k "length bits" ?x 0] byte_bits [of "take ?k bits"] k by simp
  have l: "length ?d = length done + ?k" using k by simp
  have r: "gets (pack_bits n ?r) (unpack_loop m n (length ?d) (?d @ replicate (length ?r) False)) (?d @ ?r)"
  proof (cases "n = 0")
    case True
    then have "?r = []" using tc(2) by simp
    moreover have "length ?d = m" using Suc.prems(3) True tc(2) by simp
    ultimately show ?thesis using True by (simp add: gets_def)
  next
    case False
    show ?thesis by (rule Suc.IH) (use tc(3) [OF False] False Suc.prems(3) in auto)
  qed
  have g1: "gets [?x] (read_bytes 1) [?x]" using gets_bytes [of "[?x]"] by simp
  have "gets ([?x] @ pack_bits n ?r) (\<lambda>b. bindr (read_bytes 1 b) (\<lambda>(c, b1).
       bindr (set_bits (hd c) 0 ?k (length done) (done @ replicate (length bits) False)) (\<lambda>bits1. unpack_loop m n (length done + ?k) bits1 b1))) (?d @ ?r)"
    by (rule gets_bind_cont [OF g1 _ r]) (unfold list.sel(1) s bindr_simps(2) l, rule refl)
  moreover have "pack_bits (Suc n) bits = [?x] @ pack_bits n ?r" by (simp only: pack_bits.simps t append_Cons append_Nil)
  moreover have "?d @ ?r = done @ bits" by simp
  ultimately show ?case unfolding gets_def unpack_loop.simps Let_def by metis
qed

lemma gets_bits:
  assumes "length bits = m" "m \<le> kMaxBitsetSize" "length old = m" "\<not> (\<exists>x \<in> set old. x)"
  shows "gets (le_bytes 4 (int ((m + 7) div 8)) @ pack_bits ((m + 7) div 8) bits) (BitSet_UnPack m old) bits"
proof -
  let ?n = "(m + 7) div 8"
  have m: "m \<le> 1048576" "?n \<le> 131072" using assms(2) by (simp_all add: kMaxBitsetSize_def)
  have o4: "(\<exists>x \<in> set old. x) = False" using assms(4) by blast
  have o: "old = replicate m False" using assms(3,4) by (metis replicate_eqI)
  have n: "gets (le_bytes 4 (int ?n)) (read_num 4) (int ?n)" using m(2) by (intro gets_num) simp_all
  have u: "gets (pack_bits ?n bits) (unpack_loop m ?n 0 old) bits"
    using gets_unpack [of ?n bits m "[]"] assms(1) o by (simp add: tail_fits_def)
  have c: "u32 (u32 (u32 (int ?n - 1) * 8) + int (tail_alignment m)) = int m"
  proof (cases "m = 0")
    case True
    then show ?thesis by (simp add: u32_def tail_alignment_def)
  next
    case False
    then have "1 \<le> ?n" by simp
    then have "u32 (int ?n - 1) = int ?n - 1" "u32 ((int ?n - 1) * 8) = (int ?n - 1) * 8" using m(2) by (simp_all add: u32_def)
    moreover have "(int ?n - 1) * 8 + int (tail_alignment m) = int m"
    proof -
      define q r where "q = m div 8" and "r = m mod 8"
      have mq: "m = 8 * q + r" "r < 8" by (simp_all add: q_def r_def)
      have "(r + 7) div 8 = (if r = 0 then 0 else 1)" using mq(2) by (auto intro: div_nat_eqI)
      then have "?n = q + (if r = 0 then 0 else 1)" using mq(1) by (simp add: add.assoc)
      then show ?thesis using mq by (simp add: tail_alignment_def)
    qed
    ultimately show ?thesis using m(1) by (simp add: u32_def)
  qed
  have "gets (le_bytes 4 (int ?n) @ pack_bits ?n bits) (\<lambda>b. bindr (read_num 4 b) (\<lambda>(cnt, b1).
       if cnt > int kMaxBitsetSize then Inl Thrown
       else assertx (\<not> (\<exists>x \<in> set old. x))
         (if int m \<noteq> u32 (u32 (u32 (cnt - 1) * 8) + int (tail_alignment m)) then Inl Thrown
          else unpack_loop m (nat cnt) 0 old b1))) bits"
    by (rule gets_bind_cont [OF n _ u]) (use c m in \<open>simp add: kMaxBitsetSize_def o4 del: bex_simps ball_simps\<close>)
  then show ?thesis by (simp add: gets_def BitSet_UnPack_def)
qed

lemma fresh_ok: "type_ok t \<Longrightarrow> marshallable t (fresh t) \<and> bits_clear t (fresh t)"
proof (induction t)
  case (TStruct ts)
  then show ?case by (auto simp: list_all2_conv_all_nth list_all_length)
qed (auto simp: list_all_length)

lemma gets_encode:
  "type_ok t \<Longrightarrow> marshallable t v \<Longrightarrow> marshallable t old \<Longrightarrow> bits_clear t old \<Longrightarrow> gets (encode t v) (unmarshal t old) v"
proof (induction t arbitrary: v old)
  case TBool
  then obtain x where v: "v = VBool x" by auto
  have "gets (le_bytes 1 (if x then 1 else 0)) (read_num 1) (if x then 1 else 0)" by (intro gets_num) auto
  moreover have "le_bytes 1 (if x then 1 else 0) = [if x then 1 else 0 :: byte]" by (cases x) simp_all
  ultimately have "gets [if x then 1 else 0] (read_num 1) (if x then 1 else 0)" by metis
  from gets_map [OF this, of "\<lambda>i. VBool (i \<noteq> 0)"] show ?case using v by (simp add: gets_def)
next
  case (TUInt n)
  then obtain i where v: "v = VInt i" "0 \<le> i" "i < 2 ^ (8 * n)" by auto
  from gets_map [OF gets_num [OF v(2,3)], of VInt] show ?case using v(1) by (simp add: gets_def)
next
  case (TFloat n)
  then obtain i where v: "v = VInt i" "0 \<le> i" "i < 2 ^ (8 * n)" by auto
  from gets_map [OF gets_num [OF v(2,3)], of VInt] show ?case using v(1) by (simp add: gets_def)
next
  case (TSInt n)
  then obtain i where v: "v = VInt i" "- (2 ^ (8 * n - 1)) \<le> i" "i < 2 ^ (8 * n - 1)" by auto
  have "0 < n" using TSInt.prems(1) by auto
  then have "signed_of n (le_int (le_bytes n i)) = i" using signed_read v(2,3) by blast
  with gets_map [OF gets_num_raw [of n i], of "\<lambda>i. VInt (signed_of n i)"] show ?case using v(1) by (simp add: gets_def)
next
  case TStr
  then obtain s where v: "v = VStr s" "length s < 2 ^ 32" by auto
  from gets_map [OF gets_string [OF v(2)], of VStr] show ?case using v(1) by (simp add: gets_def)
next
  case (TVec t)
  then obtain vs where v: "v = VSeq vs" "length vs \<le> 4096" "list_all (marshallable t) vs" by auto
  have "\<forall>x \<in> set vs. gets (encode t x) (unmarshal t (fresh t)) x" using TVec v(3) fresh_ok [of t] by (auto simp: list_all_iff)
  from gets_map [OF gets_seq [OF this v(2)], of VSeq] show ?case using v(1) by (simp add: gets_def)
next
  case (TList t)
  then obtain vs where v: "v = VSeq vs" "length vs \<le> 4096" "list_all (marshallable t) vs" by auto
  have "\<forall>x \<in> set vs. gets (encode t x) (unmarshal t (fresh t)) x" using TList v(3) fresh_ok [of t] by (auto simp: list_all_iff)
  from gets_map [OF gets_seq [OF this v(2)], of VSeq] show ?case using v(1) by (simp add: gets_def)
next
  case (TSet t)
  then obtain vs where v: "v = VSeq vs" "length vs \<le> 4096" "list_all (marshallable t) vs" "sset_inv key_of vs" by auto
  have "\<forall>x \<in> set vs. gets (encode t x) (unmarshal t (fresh t)) x" using TSet v(3) fresh_ok [of t] by (auto simp: list_all_iff)
  from gets_map [OF gets_seq [OF this v(2)], of "\<lambda>vs. VSeq (insert_all key_of vs)"]
  show ?case using v(1) insert_all_sorted [OF v(4)] by (simp add: gets_def)
next
  case (TMap k t)
  then obtain m where v: "v = VMap m" "length m \<le> 4096" "sset_inv (key_of \<circ> fst) m"
    "list_all (marshallable k) (List.map fst m)" "list_all (marshallable t) (List.map snd m)" by auto
  let ?e = "\<lambda>(x, y). encode k x @ encode t y"
  let ?r = "\<lambda>b. bindr (unmarshal k (fresh k) b) (\<lambda>(x, b1). bindr (unmarshal t (fresh t) b1) (\<lambda>(y, b2). Inr ((x, y), b2)))"
  have "gets (encode k x @ encode t y) ?r (x, y)" if "(x, y) \<in> set m" for x y
  proof -
    have "marshallable k x" "marshallable t y" using v(4,5) that by (auto simp: list_all_iff)
    then have g: "gets (encode k x) (unmarshal k (fresh k)) x" "gets (encode t y) (unmarshal t (fresh t)) y"
      using TMap.IH TMap.prems(1) fresh_ok [of k] fresh_ok [of t] by auto
    have "gets (encode t y @ []) (\<lambda>b. bindr (unmarshal t (fresh t) b) (\<lambda>(y, b2). Inr ((x, y), b2))) (x, y)"
      by (rule gets_bind [OF g(2) gets_ret])
    then show ?thesis using gets_bind [OF g(1), of "encode t y" "\<lambda>x b1. bindr (unmarshal t (fresh t) b1) (\<lambda>(y, b2). Inr ((x, y), b2))"] by simp
  qed
  then have "\<forall>p \<in> set m. gets (?e p) ?r p" by auto
  from gets_map [OF gets_seq [OF this v(2)], of "\<lambda>m. VMap (insert_all (key_of \<circ> fst) m)"]
  show ?case using v(1) insert_all_sorted [OF v(3)] by (simp add: gets_def)
next
  case (TBoundArray m t)
  then obtain vs where v: "v = VSeq vs" "length vs \<le> 4096" "length vs \<le> m" "list_all (marshallable t) vs" by auto
  have m: "m < 2 ^ 32" using TBoundArray.prems(1) by simp
  have "\<forall>x \<in> set vs. gets (encode t x) (unmarshal t (fresh t)) x" using TBoundArray v(4) fresh_ok [of t] by (auto simp: list_all_iff)
  from gets_map [OF gets_seq [OF this v(2)], of VSeq]
  have g: "gets (le_bytes 4 (int (length vs)) @ concat (List.map (encode t) vs)) (\<lambda>b. as_val VSeq (read_seq (unmarshal t (fresh t)) b)) v"
    using v(1) by (simp add: encode_seq_def)
  from gets_bound [OF m _ _ g] v(1,3) show ?case by (simp add: gets_def encode_seq_def)
next
  case (TBoundStr m)
  then obtain s where v: "v = VStr s" "length s \<le> m" by auto
  have m: "m < 2 ^ 32" "length s < 2 ^ 32" using TBoundStr.prems(1) v(2) by simp_all
  from gets_map [OF gets_string [OF m(2)], of VStr]
  have g: "gets (le_bytes 4 (int (length s)) @ s) (\<lambda>b. as_val VStr (read_string b)) v" using v(1) by (simp add: encode_string_def)
  from gets_bound [OF m(1) _ _ g] v show ?case by (simp add: gets_def encode_string_def)
next
  case (TFixedArray m t)
  then obtain vs olds where v: "v = VSeq vs" "length vs = m" "list_all (marshallable t) vs"
    and o: "old = VSeq olds" "length olds = m" "list_all (marshallable t) olds" "list_all (bits_clear t) olds" by auto
  have "list_all2 (\<lambda>v old. gets (encode t v) (unmarshal t old) v) vs olds"
    using TFixedArray.IH TFixedArray.prems(1) v(2,3) o(2-4) by (simp add: list_all2_conv_all_nth list_all_length)
  from gets_map [OF gets_over [OF this], of VSeq]
  have g: "gets (concat (List.map (encode t) vs)) (\<lambda>b. as_val VSeq (read_over (unmarshal t) olds b)) v" using v(1) by simp
  have n: "gets (le_bytes 4 (int m)) (read_num 4) (int m)" using TFixedArray.prems(1) by (intro gets_num) simp_all
  have "gets (le_bytes 4 (int m) @ concat (List.map (encode t) vs))
      (\<lambda>b. bindr (read_num 4 b) (\<lambda>(n, b1). if int m \<noteq> n then Inl Thrown else as_val VSeq (read_over (unmarshal t) olds b1))) v"
    by (rule gets_bind_cont [OF n _ g]) simp
  then show ?case using v(1) o(1) by (simp add: gets_def)
next
  case (TBitSet m)
  then obtain bits obits where v: "v = VBits bits" "length bits = m" and o: "old = VBits obits" "length obits = m" "\<not> (\<exists>x \<in> set obits. x)" by auto
  have "m \<le> kMaxBitsetSize" using TBitSet.prems(1) by simp
  from gets_map [OF gets_bits [OF v(2) this o(2,3)], of VBits] show ?case using v(1) o(1) by (simp add: gets_def)
next
  case (TStruct ts)
  then obtain vs olds where v: "v = VSeq vs" "list_all2 (\<lambda>p v. p v) (List.map marshallable ts) vs"
    and o: "old = VSeq olds" "list_all2 (\<lambda>p v. p v) (List.map marshallable ts) olds" "list_all2 (\<lambda>p v. p v) (List.map bits_clear ts) olds" by auto
  have l: "length ts = length vs" "length olds = length vs" using list_all2_lengthD [OF v(2)] list_all2_lengthD [OF o(2)] by simp_all
  have ok: "type_ok (ts ! i)" "ts ! i \<in> set ts" if "i < length vs" for i
    using TStruct.prems(1) that l(1) by (simp_all add: list_all_length)
  have "gets (encode (ts ! i) (vs ! i)) (unmarshal (ts ! i) (olds ! i)) (vs ! i)" if i: "i < length vs" for i
  proof (rule TStruct.IH [OF ok(2) [OF i] ok(1) [OF i]])
    show "marshallable (ts ! i) (vs ! i)" using list_all2_nthD2 [OF v(2) i] l(1) i by simp
    show "marshallable (ts ! i) (olds ! i)" using list_all2_nthD [OF o(2)] l i by simp
    show "bits_clear (ts ! i) (olds ! i)" using list_all2_nthD [OF o(3)] l i by simp
  qed
  then have g: "\<forall>i < length vs. gets (encode (ts ! i) (vs ! i)) (unmarshal (ts ! i) (olds ! i)) (vs ! i)" by (intro allI impI)
  from gets_map [OF gets_members [OF l g], of VSeq] show ?case using v(1) o(1) by (simp add: gets_def)
qed

section \<open>Reading anything\<close>

text \<open>A reader that throws, or moves on within the buffer and returns a value with a property.\<close>

definition safe :: "(bbuf \<Rightarrow> ('v \<times> bbuf) res) \<Rightarrow> ('v \<Rightarrow> bool) \<Rightarrow> bool" where
  "safe r P \<longleftrightarrow> (\<forall>b. bitpos b = 8 \<longrightarrow> rpos b \<le> bb_size b \<longrightarrow>
     r b = Inl Thrown \<or> (\<exists>v n. r b = Inr (v, skip n b) \<and> rpos b + n \<le> bb_size b \<and> P v))"

lemma safeI:
  "(\<And>b. bitpos b = 8 \<Longrightarrow> rpos b \<le> bb_size b \<Longrightarrow> r b \<noteq> Inl Thrown \<Longrightarrow> \<exists>v n. r b = Inr (v, skip n b) \<and> rpos b + n \<le> bb_size b \<and> P v) \<Longrightarrow> safe r P"
  by (auto simp: safe_def)

lemma safe_ret: "P v \<Longrightarrow> safe (\<lambda>b. Inr (v, b)) P"
  by (intro safeI exI [of _ v] exI [of _ 0]) simp

lemma safe_throw: "safe (\<lambda>b. Inl Thrown) P"
  by (simp add: safe_def)

lemma safe_bind:
  assumes "safe r P" "\<And>v. P v \<Longrightarrow> safe (k v) Q"
  shows "safe (\<lambda>b. bindr (r b) (\<lambda>(v, b1). k v b1)) Q"
  unfolding safe_def
proof (intro allI impI)
  fix b :: bbuf
  assume b: "bitpos b = 8" "rpos b \<le> bb_size b"
  consider "r b = Inl Thrown" | v n where "r b = Inr (v, skip n b)" "rpos b + n \<le> bb_size b" "P v"
    using assms(1) b unfolding safe_def by blast
  then show "bindr (r b) (\<lambda>(v, b1). k v b1) = Inl Thrown \<or>
      (\<exists>w n. bindr (r b) (\<lambda>(v, b1). k v b1) = Inr (w, skip n b) \<and> rpos b + n \<le> bb_size b \<and> Q w)"
  proof cases
    case 2
    have "bitpos (skip n b) = 8" "rpos (skip n b) \<le> bb_size (skip n b)" using b 2(2) by simp_all
    then consider "k v (skip n b) = Inl Thrown" | w m where "k v (skip n b) = Inr (w, skip m (skip n b))" "rpos b + n + m \<le> bb_size b" "Q w"
      using assms(2) [OF 2(3)] unfolding safe_def by (metis skip_simps(3,4))
    then show ?thesis
    proof cases
      case (2 w m)
      then show ?thesis using \<open>r b = Inr (v, skip n b)\<close> by (intro disjI2 exI [of _ w] exI [of _ "n + m"]) simp
    qed (use 2(1) in simp)
  qed simp
qed

lemma safe_map: "safe r P \<Longrightarrow> (\<And>v. P v \<Longrightarrow> Q (f v)) \<Longrightarrow> safe (\<lambda>b. as_val f (r b)) Q"
  unfolding as_val_def by (erule safe_bind) (rule safe_ret, blast)

lemma safe_mono: "safe r P \<Longrightarrow> (\<And>v. P v \<Longrightarrow> Q v) \<Longrightarrow> safe r Q"
  unfolding safe_def by blast

lemma safe_bytes: "safe (read_bytes n) (\<lambda>bs. length bs = n)"
proof (rule safeI)
  fix b :: bbuf
  assume b: "bitpos b = 8" "read_bytes n b \<noteq> Inl Thrown"
  then have "rpos b + n \<le> bb_size b" by (simp add: read_bytes_def resetBitReader_def Let_def split: if_splits)
  moreover have "b\<lparr>rpos := rpos b + n, bitpos := 8\<rparr> = skip n b" using b(1) by (simp add: skip_def)
  ultimately show "\<exists>v k. read_bytes n b = Inr (v, skip k b) \<and> rpos b + k \<le> bb_size b \<and> length v = n"
    by (intro exI [of _ "take n (drop (rpos b) (storage b))"] exI [of _ n]) (simp add: read_bytes_Inr)
qed

lemma safe_num: "safe (read_num n) (\<lambda>i. 0 \<le> i \<and> i < 2 ^ (8 * n))"
proof -
  have "safe (\<lambda>b. bindr (read_bytes n b) (\<lambda>(bs, b1). Inr (le_int bs, b1))) (\<lambda>i. 0 \<le> i \<and> i < 2 ^ (8 * n))"
    by (rule safe_bind [OF safe_bytes]) (use le_int_range in \<open>auto intro: safe_ret\<close>)
  then show ?thesis by (simp add: safe_def read_num_def)
qed

lemma safe_cons:
  assumes "safe r P" "safe rs Q" "\<And>v vs. P v \<Longrightarrow> Q vs \<Longrightarrow> R (v # vs)"
  shows "safe (\<lambda>b. bindr (r b) (\<lambda>(v, b1). bindr (rs b1) (\<lambda>(vs, b2). Inr (v # vs, b2)))) R"
  by (rule safe_bind [OF assms(1)], rule safe_bind [OF assms(2)]) (use assms(3) in \<open>auto intro: safe_ret\<close>)

lemma safe_times: "safe r P \<Longrightarrow> safe (read_times r n) (\<lambda>vs. length vs = n \<and> list_all P vs)"
proof (induction n)
  case (Suc n)
  have "read_times r (Suc n) = (\<lambda>b. bindr (r b) (\<lambda>(v, b1). bindr (read_times r n b1) (\<lambda>(vs, b2). Inr (v # vs, b2))))"
    by (rule ext) simp
  then show ?case using safe_cons [OF Suc.prems Suc.IH [OF Suc.prems], of "\<lambda>vs. length vs = Suc n \<and> list_all P vs"] by simp
qed (simp add: safe_def, metis add_0_right skip_simps(1))

lemma safe_seq:
  assumes "safe r P"
  shows "safe (read_seq r) (\<lambda>vs. length vs \<le> 4096 \<and> list_all P vs)"
proof -
  have "safe (\<lambda>b1. if n > int kMaxBBDynamicContainerSize then Inl Thrown else read_times r (nat n) b1) (\<lambda>vs. length vs \<le> 4096 \<and> list_all P vs)"
    if "0 \<le> n" for n
    using safe_mono [OF safe_times [OF assms, of "nat n"], of "\<lambda>vs. length vs \<le> 4096 \<and> list_all P vs"] that safe_throw
    by (cases "n > int kMaxBBDynamicContainerSize") (auto simp: kMaxBBDynamicContainerSize_def)
  then have "safe (\<lambda>b. bindr (read_num 4 b) (\<lambda>(n, b1). if n > int kMaxBBDynamicContainerSize then Inl Thrown else read_times r (nat n) b1))
      (\<lambda>vs. length vs \<le> 4096 \<and> list_all P vs)"
    by (intro safe_bind [OF safe_num]) auto
  then show ?thesis by (simp add: safe_def read_seq_def)
qed

lemma safe_over:
  assumes "\<forall>old \<in> set olds. safe (r old) P"
  shows "safe (read_over r olds) (\<lambda>vs. length vs = length olds \<and> list_all P vs)"
  using assms
proof (induction olds)
  case (Cons old olds)
  have "read_over r (old # olds) = (\<lambda>b. bindr (r old b) (\<lambda>(v, b1). bindr (read_over r olds b1) (\<lambda>(vs, b2). Inr (v # vs, b2))))"
    by (rule ext) simp
  then show ?case using safe_cons [of "r old" P "read_over r olds" _ "\<lambda>vs. length vs = Suc (length olds) \<and> list_all P vs"] Cons by simp
qed (simp add: safe_def, metis add_0_right skip_simps(1))

lemma read_chars_end:
  assumes "bitpos b = 8" "rpos b \<le> bb_size b"
  shows "\<exists>s n. read_chars bound b = Inr (s, skip n b) \<and> rpos b + n \<le> bb_size b \<and> length s = n \<and> (n = 0 \<or> rpos b + n \<le> bound)"
  using assms
proof (induction "bb_size b - rpos b" arbitrary: b rule: less_induct)
  case less
  show ?case
  proof (cases "rpos b < bb_size b \<and> rpos b < bound")
    case False
    then show ?thesis using less.prems by (intro exI [of _ "[]"] exI [of _ 0]) (subst read_chars.simps, auto)
  next
    case True
    let ?c = "take 1 (drop (rpos b) (storage b))"
    have b1: "b\<lparr>rpos := rpos b + 1, bitpos := 8\<rparr> = skip 1 b" using less.prems(1) by (simp add: skip_def)
    have r: "read_bytes 1 b = Inr (?c, skip 1 b)" using True b1 by (simp add: read_bytes_Inr)
    have "\<exists>s n. read_chars bound (skip 1 b) = Inr (s, skip n (skip 1 b)) \<and> rpos (skip 1 b) + n \<le> bb_size (skip 1 b) \<and> length s = n \<and>
        (n = 0 \<or> rpos (skip 1 b) + n \<le> bound)"
      by (rule less.hyps) (use True less.prems in auto)
    then obtain s n where s: "read_chars bound (skip 1 b) = Inr (s, skip n (skip 1 b))" "rpos (skip 1 b) + n \<le> bb_size (skip 1 b)" "length s = n"
      "n = 0 \<or> rpos (skip 1 b) + n \<le> bound" by blast
    have "1 \<le> bb_size b - rpos b" using True by linarith
    then have "length ?c = 1" by (simp add: min_absorb2)
    then show ?thesis using r s True by (intro exI [of _ "?c @ s"] exI [of _ "Suc n"]) (subst read_chars.simps, auto)
  qed
qed

lemma safe_chars: "safe (read_chars bound) (\<lambda>s. length s \<le> bound)"
  unfolding safe_def using read_chars_end by (metis add_leD2 le0 list.size(3))

lemma safe_string: "safe read_string (\<lambda>s. length s < 2 ^ 32)"
proof -
  have "safe (\<lambda>b1. read_chars (nat (u32 (u32 (int (rpos b1)) + n))) b1) (\<lambda>s. length s < 2 ^ 32)" for n
  proof -
    have "nat (u32 x) < 2 ^ 32" for x by (simp add: u32_def nat_less_iff)
    then show ?thesis using safe_chars unfolding safe_def by (meson le_less_trans)
  qed
  then have "safe (\<lambda>b. bindr (read_num 4 b) (\<lambda>(n, b1). read_chars (nat (u32 (u32 (int (rpos b1)) + n))) b1)) (\<lambda>s. length s < 2 ^ 32)"
    by (intro safe_bind [OF safe_num])
  then show ?thesis by (simp add: safe_def read_string_def)
qed

lemma peek_read:
  assumes "peek_u32 b = Inr k" "bitpos b = 8"
  shows "rpos b + 4 \<le> bb_size b" "read_num 4 b = Inr (k, skip 4 b)" "0 \<le> k"
proof -
  have k: "rpos b + 4 \<le> bb_size b" "k = le_int (take 4 (drop (rpos b) (storage b)))" using assms(1) by (auto simp: peek_u32_def split: if_splits)
  then show "rpos b + 4 \<le> bb_size b" "0 \<le> k" using le_int_range by auto
  show "read_num 4 b = Inr (k, skip 4 b)"
    using k unfolding read_num_def by (simp add: read_bytes_def resetBitReader_def Let_def) (simp add: skip_def assms(2))
qed

lemma safe_string_after_bound:
  assumes "0 \<le> k" "k \<le> int m"
  shows "\<forall>b. peek_u32 b = Inr k \<longrightarrow> bitpos b = 8 \<longrightarrow> rpos b \<le> bb_size b \<longrightarrow>
     read_string b = Inl Thrown \<or> (\<exists>s n. read_string b = Inr (s, skip n b) \<and> rpos b + n \<le> bb_size b \<and> length s \<le> m)"
proof (intro allI impI)
  fix b
  assume b: "peek_u32 b = Inr k" "bitpos b = 8" "rpos b \<le> bb_size b"
  note k = peek_read(1) [OF b(1,2)] and n = peek_read(2) [OF b(1,2)]
  let ?bound = "nat (u32 (u32 (int (rpos b + 4)) + k))"
  obtain s j where s: "read_chars ?bound (skip 4 b) = Inr (s, skip j (skip 4 b))" "rpos b + 4 + j \<le> bb_size b" "length s = j"
    "j = 0 \<or> rpos b + 4 + j \<le> ?bound"
    using read_chars_end [of "skip 4 b" ?bound] b(2) k by (auto simp: skip_def)
  have u: "u32 x \<le> x" if "0 \<le> x" for x using that by (simp add: u32_def zmod_le_nonneg_dividend)
  have "0 \<le> u32 (int (rpos b + 4))" by (simp add: u32_def)
  then have "u32 (u32 (int (rpos b + 4)) + k) \<le> int (rpos b + 4) + k"
    using u [of "u32 (int (rpos b + 4)) + k"] u [of "int (rpos b + 4)"] assms(1) by linarith
  then have "length s \<le> m" using s(3,4) assms by linarith
  then show "read_string b = Inl Thrown \<or> (\<exists>s n. read_string b = Inr (s, skip n b) \<and> rpos b + n \<le> bb_size b \<and> length s \<le> m)"
    using n s(1,2) by (intro disjI2 exI [of _ s] exI [of _ "4 + j"]) (simp add: read_string_def)
qed

lemma check_bound_cases:
  assumes "bitpos b = 8" "rpos b \<le> bb_size b"
  shows "check_bound m b = Inl Thrown \<or>
    (\<exists>k. check_bound m b = Inr (skip 4 b) \<and> rpos b + 4 \<le> bb_size b \<and> peek_u32 (skip 4 b) = Inr k \<and> 0 \<le> k \<and> k \<le> int m)"
proof -
  consider "read_num 4 b = Inl Thrown" | n where "read_num 4 b = Inr (n, skip 4 b)" "rpos b + 4 \<le> bb_size b"
    by (cases "rpos b + 4 \<le> bb_size b") (auto simp: read_num_def read_bytes_def resetBitReader_def Let_def skip_def assms(1))
  then show ?thesis
  proof cases
    case (2 n)
    consider "peek_u32 (skip 4 b) = Inl Thrown" | k where "peek_u32 (skip 4 b) = Inr k"
      using 2(2) by (cases "bb_size b - (rpos b + 4) < 4") (simp_all add: peek_u32_def)
    then show ?thesis
    proof cases
      case (2 k)
      then have "0 \<le> k" using peek_read(3) [OF 2] assms(1) by simp
      then show ?thesis using 2 \<open>read_num 4 b = Inr (n, skip 4 b)\<close> \<open>rpos b + 4 \<le> bb_size b\<close> by (auto simp: check_bound_def)
    qed (use 2(1) in \<open>auto simp: check_bound_def\<close>)
  qed (simp add: check_bound_def)
qed

lemma safe_after_bound:
  assumes "\<And>b k. bitpos b = 8 \<Longrightarrow> rpos b \<le> bb_size b \<Longrightarrow> peek_u32 b = Inr k \<Longrightarrow> 0 \<le> k \<Longrightarrow> k \<le> int m \<Longrightarrow>
    r b = Inl Thrown \<or> (\<exists>v n. r b = Inr (v, skip n b) \<and> rpos b + n \<le> bb_size b \<and> P v)"
  shows "safe (\<lambda>b. bindr (check_bound m b) r) P"
  unfolding safe_def
proof (intro allI impI)
  fix b :: bbuf
  assume b: "bitpos b = 8" "rpos b \<le> bb_size b"
  consider "check_bound m b = Inl Thrown" | k where "check_bound m b = Inr (skip 4 b)" "rpos b + 4 \<le> bb_size b" "peek_u32 (skip 4 b) = Inr k" "0 \<le> k" "k \<le> int m"
    using check_bound_cases [OF b] by blast
  then show "bindr (check_bound m b) r = Inl Thrown \<or> (\<exists>v n. bindr (check_bound m b) r = Inr (v, skip n b) \<and> rpos b + n \<le> bb_size b \<and> P v)"
  proof cases
    case (2 k)
    consider "r (skip 4 b) = Inl Thrown" | v n where "r (skip 4 b) = Inr (v, skip n (skip 4 b))" "rpos (skip 4 b) + n \<le> bb_size b" "P v"
      using assms [of "skip 4 b" k] b 2 by auto
    then show ?thesis
    proof cases
      case (2 v n)
      then show ?thesis using \<open>check_bound m b = Inr (skip 4 b)\<close> by (intro disjI2 exI [of _ v] exI [of _ "4 + n"]) simp
    qed (use 2(1) in simp)
  qed simp
qed

lemma safe_bound_seq:
  assumes "safe r P"
  shows "safe (\<lambda>b. bindr (check_bound m b) (\<lambda>b1. as_val VSeq (read_seq r b1)))
    (\<lambda>v. \<exists>vs. v = VSeq vs \<and> length vs \<le> 4096 \<and> length vs \<le> m \<and> list_all P vs)"
proof (rule safe_after_bound)
  fix b k
  assume b: "bitpos b = 8" "rpos b \<le> bb_size b" "peek_u32 b = Inr k" "0 \<le> k" "k \<le> int m"
  note n = peek_read [OF b(3,1)]
  have s: "safe (read_times r (nat k)) (\<lambda>vs. length vs = nat k \<and> list_all P vs)" by (rule safe_times [OF assms])
  have "bitpos (skip 4 b) = 8" "rpos (skip 4 b) \<le> bb_size (skip 4 b)" using b(1) n(1) by simp_all
  then consider "read_times r (nat k) (skip 4 b) = Inl Thrown"
    | vs j where "read_times r (nat k) (skip 4 b) = Inr (vs, skip j (skip 4 b))" "rpos b + 4 + j \<le> bb_size b" "length vs = nat k" "list_all P vs"
    using s unfolding safe_def by (metis skip_simps(3,4))
  then show "as_val VSeq (read_seq r b) = Inl Thrown \<or> (\<exists>v n. as_val VSeq (read_seq r b) = Inr (v, skip n b) \<and> rpos b + n \<le> bb_size b \<and>
      (\<exists>vs. v = VSeq vs \<and> length vs \<le> 4096 \<and> length vs \<le> m \<and> list_all P vs))"
  proof cases
    case 1
    then show ?thesis using n(2) by (simp add: as_val_def read_seq_def)
  next
    case (2 vs j)
    show ?thesis
    proof (cases "k > int kMaxBBDynamicContainerSize")
      case False
      then have "length vs \<le> 4096" "length vs \<le> m" using 2(3) b(5) by (auto simp: kMaxBBDynamicContainerSize_def)
      then show ?thesis using 2 n(2) False
        by (intro disjI2 exI [of _ "VSeq vs"] exI [of _ "4 + j"]) (simp add: as_val_def read_seq_def)
    qed (use n(2) in \<open>simp add: as_val_def read_seq_def\<close>)
  qed
qed

lemma safe_bound_string:
  "safe (\<lambda>b. bindr (check_bound m b) (\<lambda>b1. as_val VStr (read_string b1))) (\<lambda>v. \<exists>s. v = VStr s \<and> length s \<le> m)"
proof (rule safe_after_bound)
  fix b k
  assume b: "bitpos b = 8" "rpos b \<le> bb_size b" "peek_u32 b = Inr k" "0 \<le> k" "k \<le> int m"
  show "as_val VStr (read_string b) = Inl Thrown \<or>
      (\<exists>v n. as_val VStr (read_string b) = Inr (v, skip n b) \<and> rpos b + n \<le> bb_size b \<and> (\<exists>s. v = VStr s \<and> length s \<le> m))"
    using safe_string_after_bound [OF b(4,5)] b(1-3) by (fastforce simp: as_val_def)
qed

lemma insert_all_ok:
  "sset_inv key (insert_all key vs) \<and> length (insert_all key vs) \<le> length vs \<and> set (insert_all key vs) \<subseteq> set vs"
proof -
  have "sset_inv key s \<Longrightarrow> sset_inv key (foldl (\<lambda>s v. sset_insert key v s) s vs) \<and>
      length (foldl (\<lambda>s v. sset_insert key v s) s vs) \<le> length s + length vs \<and> set (foldl (\<lambda>s v. sset_insert key v s) s vs) \<subseteq> set s \<union> set vs" for s
  proof (induction vs arbitrary: s)
    case (Cons v vs)
    have "sset_inv key (sset_insert key v s)" using Cons.prems by simp
    from Cons.IH [OF this] show ?case using length_sset_insert [of key v s] set_sset_insert [of key v s] by (auto split: if_splits)
  qed simp
  from this [of "[]"] show ?thesis by (simp add: insert_all_def)
qed

lemma set_bits_safe: "set_bits t i k pos bits = Inl Thrown \<or> (\<exists>bits'. set_bits t i k pos bits = Inr bits' \<and> length bits' = length bits)"
  by (induction t i k pos bits rule: set_bits.induct) auto

lemma safe_unpack:
  assumes "length bits = m" "n = 0 \<longrightarrow> pos = m" "n \<noteq> 0 \<longrightarrow> pos + (n - 1) * 8 + tail_alignment m = m"
  shows "safe (unpack_loop m n pos bits) (\<lambda>bits. length bits = m)"
  using assms
proof (induction n arbitrary: pos bits)
  case 0
  then show ?case by (simp add: safe_def) (metis add_0_right skip_simps(1))
next
  case (Suc n)
  let ?k = "if n = 0 then tail_alignment m else 8"
  have i: "n = 0 \<longrightarrow> pos + ?k = m" "n \<noteq> 0 \<longrightarrow> pos + ?k + (n - 1) * 8 + tail_alignment m = m"
    using Suc.prems(3) by (cases n; simp)+
  have "safe (\<lambda>b1. bindr (set_bits (hd c) 0 ?k pos bits) (\<lambda>bits1. unpack_loop m n (pos + ?k) bits1 b1)) (\<lambda>bits. length bits = m)" for c
  proof -
    consider "set_bits (hd c) 0 ?k pos bits = Inl Thrown" | bits' where "set_bits (hd c) 0 ?k pos bits = Inr bits'" "length bits' = m"
      using set_bits_safe [of "hd c" 0 ?k pos bits] Suc.prems(1) by auto
    then show ?thesis
    proof cases
      case 1
      then show ?thesis by (simp add: safe_throw)
    next
      case (2 bits')
      then show ?thesis using Suc.IH [OF 2(2) i] by simp
    qed
  qed
  then have "safe (\<lambda>b. bindr (read_bytes 1 b) (\<lambda>(c, b1). bindr (set_bits (hd c) 0 ?k pos bits) (\<lambda>bits1. unpack_loop m n (pos + ?k) bits1 b1))) (\<lambda>bits. length bits = m)"
    by (intro safe_bind [OF safe_bytes])
  then show ?case unfolding safe_def unpack_loop.simps Let_def .
qed

lemma safe_bits:
  assumes "length old = m" "\<not> (\<exists>x \<in> set old. x)" "m \<le> kMaxBitsetSize"
  shows "safe (BitSet_UnPack m old) (\<lambda>bits. length bits = m)"
proof -
  have m: "m \<le> 1048576" using assms(3) by (simp add: kMaxBitsetSize_def)
  have o: "(\<not> (\<exists>x \<in> set old. x)) = True" using assms(2) by blast
  have "safe (\<lambda>b1. if n > int kMaxBitsetSize then Inl Thrown
       else assertx (\<not> (\<exists>x \<in> set old. x))
         (if int m \<noteq> u32 (u32 (u32 (n - 1) * 8) + int (tail_alignment m)) then Inl Thrown
          else unpack_loop m (nat n) 0 old b1)) (\<lambda>bits. length bits = m)" if "0 \<le> n" for n
  proof (cases "n > int kMaxBitsetSize \<or> int m \<noteq> u32 (u32 (u32 (n - 1) * 8) + int (tail_alignment m))")
    case True
    then show ?thesis unfolding o by (cases "int kMaxBitsetSize < n") (simp_all add: safe_throw)
  next
    case False
    then have n: "n \<le> 1048576" "int m = u32 (u32 (u32 (n - 1) * 8) + int (tail_alignment m))" by (auto simp: kMaxBitsetSize_def)
    have t: "0 < int (tail_alignment m)" "int (tail_alignment m) \<le> 8" using tail_range [of m] by simp_all
    have "safe (unpack_loop m (nat n) 0 old) (\<lambda>bits. length bits = m)"
    proof (rule safe_unpack [OF assms(1)]; intro impI)
      assume "nat n = 0"
      then have "n = 0" using that by simp
      then have e: "int m = u32 (4294967288 + int (tail_alignment m))" using n(2) by (simp add: u32_def)
      show "0 = m"
      proof (cases "tail_alignment m = 8")
        case True
        then show ?thesis using e by (simp add: u32_def)
      next
        case False
        then have "int m = 4294967288 + int (tail_alignment m)" using e t by (simp add: u32_def)
        then show ?thesis using m by simp
      qed
    next
      assume "nat n \<noteq> 0"
      then have p: "0 < n" by simp
      then have "u32 (n - 1) = n - 1" "u32 ((n - 1) * 8) = (n - 1) * 8" using n(1) by (simp_all add: u32_def)
      then have "int m = (n - 1) * 8 + int (tail_alignment m)" using n p t by (simp add: u32_def)
      moreover obtain k where "n = int (Suc k)" using p by (metis gr0_implies_Suc zero_less_imp_eq_int)
      ultimately show "0 + (nat n - 1) * 8 + tail_alignment m = m" by simp
    qed
    then show ?thesis using False unfolding o by auto
  qed
  then have "safe (\<lambda>b. bindr (read_num 4 b) (\<lambda>(n, b1). if n > int kMaxBitsetSize then Inl Thrown
       else assertx (\<not> (\<exists>x \<in> set old. x))
         (if int m \<noteq> u32 (u32 (u32 (n - 1) * 8) + int (tail_alignment m)) then Inl Thrown
          else unpack_loop m (nat n) 0 old b1))) (\<lambda>bits. length bits = m)"
    by (intro safe_bind [OF safe_num]) blast
  then show ?thesis unfolding safe_def BitSet_UnPack_def .
qed

lemma safe_members:
  assumes "length olds = length ts" "\<forall>i < length ts. safe (unmarshal (ts ! i) (olds ! i)) (marshallable (ts ! i))"
  shows "safe (read_members (List.map unmarshal ts) olds) (\<lambda>vs. list_all2 (\<lambda>p v. p v) (List.map marshallable ts) vs)"
  using assms
proof (induction ts arbitrary: olds)
  case Nil
  then show ?case by (simp add: safe_def) (metis add_0_right skip_simps(1))
next
  case (Cons t ts)
  then obtain old olds' where olds: "olds = old # olds'" by (cases olds) auto
  have h: "safe (unmarshal t old) (marshallable t)" using Cons.prems(2) olds by force
  have "\<forall>i < length ts. safe (unmarshal (ts ! i) (olds' ! i)) (marshallable (ts ! i))"
    using Cons.prems(2) olds by (metis Suc_less_eq length_Cons nth_Cons_Suc)
  then have r: "safe (read_members (List.map unmarshal ts) olds') (\<lambda>vs. list_all2 (\<lambda>p v. p v) (List.map marshallable ts) vs)"
    using Cons.IH [of olds'] Cons.prems(1) olds by simp
  have "read_members (List.map unmarshal (t # ts)) olds =
      (\<lambda>b. bindr (unmarshal t old b) (\<lambda>(v, b1). bindr (read_members (List.map unmarshal ts) olds' b1) (\<lambda>(vs, b2). Inr (v # vs, b2))))"
    unfolding olds by (rule ext) simp
  then show ?case using safe_cons [OF h r, of "\<lambda>vs. list_all2 (\<lambda>p v. p v) (List.map marshallable (t # ts)) vs"] by simp
qed

lemma safe_unmarshal:
  "type_ok t \<Longrightarrow> marshallable t old \<Longrightarrow> bits_clear t old \<Longrightarrow> safe (unmarshal t old) (marshallable t)"
proof (induction t arbitrary: old)
  case TBool
  from safe_map [OF safe_num [of 1], of "marshallable TBool" "\<lambda>i. VBool (i \<noteq> 0)"] show ?case by (simp add: safe_def)
next
  case (TUInt n)
  from safe_map [OF safe_num [of n], of "marshallable (TUInt n)" VInt] show ?case by (simp add: safe_def)
next
  case (TFloat n)
  from safe_map [OF safe_num [of n], of "marshallable (TFloat n)" VInt] show ?case by (simp add: safe_def)
next
  case (TSInt n)
  have "0 < n" using TSInt.prems(1) by auto
  then have p: "(2::int) ^ (8 * n) = 2 * 2 ^ (8 * n - 1)" by (simp flip: power_Suc)
  have "marshallable (TSInt n) (VInt (signed_of n i))" if "0 \<le> i \<and> i < 2 ^ (8 * n)" for i
    using that p by (simp add: signed_of_def)
  from safe_map [OF safe_num [of n], of "marshallable (TSInt n)" "\<lambda>i. VInt (signed_of n i)", OF this] show ?case by (simp add: safe_def)
next
  case TStr
  from safe_map [OF safe_string, of "marshallable TStr" VStr] show ?case by (simp add: safe_def)
next
  case (TVec t)
  have "safe (unmarshal t (fresh t)) (marshallable t)" using TVec fresh_ok [of t] by simp
  from safe_map [OF safe_seq [OF this], of "marshallable (TVec t)" VSeq] show ?case by (simp add: safe_def)
next
  case (TList t)
  have "safe (unmarshal t (fresh t)) (marshallable t)" using TList fresh_ok [of t] by simp
  from safe_map [OF safe_seq [OF this], of "marshallable (TList t)" VSeq] show ?case by (simp add: safe_def)
next
  case (TSet t)
  have "safe (unmarshal t (fresh t)) (marshallable t)" using TSet fresh_ok [of t] by simp
  note r = safe_seq [OF this]
  have "marshallable (TSet t) (VSeq (insert_all key_of vs))" if "length vs \<le> 4096 \<and> list_all (marshallable t) vs" for vs
    using that insert_all_ok [of key_of vs] by (auto simp: list_all_iff)
  from safe_map [OF r, of "marshallable (TSet t)" "\<lambda>vs. VSeq (insert_all key_of vs)", OF this] show ?case by (simp add: safe_def)
next
  case (TMap k t)
  have s: "safe (unmarshal k (fresh k)) (marshallable k)" "safe (unmarshal t (fresh t)) (marshallable t)"
    using TMap fresh_ok [of k] fresh_ok [of t] by simp_all
  have "safe (\<lambda>b. bindr (unmarshal k (fresh k) b) (\<lambda>(x, b1). bindr (unmarshal t (fresh t) b1) (\<lambda>(y, b2). Inr ((x, y), b2))))
      (\<lambda>p. marshallable k (fst p) \<and> marshallable t (snd p))"
    by (rule safe_bind [OF s(1)], rule safe_bind [OF s(2)], rule safe_ret) simp
  note r = safe_seq [OF this]
  have "marshallable (TMap k t) (VMap (insert_all (key_of \<circ> fst) m))"
    if "length m \<le> 4096 \<and> list_all (\<lambda>p. marshallable k (fst p) \<and> marshallable t (snd p)) m" for m
    using that insert_all_ok [of "key_of \<circ> fst" m] by (auto simp: list_all_iff)
  from safe_map [OF r, of "marshallable (TMap k t)" "\<lambda>m. VMap (insert_all (key_of \<circ> fst) m)", OF this] show ?case by (simp add: safe_def)
next
  case (TBoundArray m t)
  have "safe (unmarshal t (fresh t)) (marshallable t)" using TBoundArray fresh_ok [of t] by simp
  from safe_bound_seq [OF this, of m] show ?case by (simp add: safe_def)
next
  case (TBoundStr m)
  from safe_bound_string [of m] show ?case by (simp add: safe_def)
next
  case (TFixedArray m t)
  then obtain olds where o: "old = VSeq olds" "length olds = m" "list_all (marshallable t) olds" "list_all (bits_clear t) olds" by auto
  have "\<forall>x \<in> set olds. safe (unmarshal t x) (marshallable t)" using TFixedArray o(3,4) by (auto simp: list_all_iff)
  note r = safe_map [OF safe_over [OF this], of "marshallable (TFixedArray m t)" VSeq]
  have "safe (\<lambda>b1. if int m \<noteq> n then Inl Thrown else as_val VSeq (read_over (unmarshal t) olds b1)) (marshallable (TFixedArray m t))" for n
    using r o(2) safe_throw by (cases "int m \<noteq> n") simp_all
  then have "safe (\<lambda>b. bindr (read_num 4 b) (\<lambda>(n, b1). if int m \<noteq> n then Inl Thrown else as_val VSeq (read_over (unmarshal t) olds b1)))
      (marshallable (TFixedArray m t))"
    by (intro safe_bind [OF safe_num])
  then show ?case using o(1) by (simp add: safe_def)
next
  case (TBitSet m)
  then obtain obits where o: "old = VBits obits" "length obits = m" "\<not> (\<exists>x \<in> set obits. x)" by auto
  have "m \<le> kMaxBitsetSize" using TBitSet.prems(1) by simp
  from safe_map [OF safe_bits [OF o(2,3) this], of "marshallable (TBitSet m)" VBits] show ?case using o(1) by (simp add: safe_def)
next
  case (TStruct ts)
  then obtain olds where o: "old = VSeq olds" "list_all2 (\<lambda>p v. p v) (List.map marshallable ts) olds" "list_all2 (\<lambda>p v. p v) (List.map bits_clear ts) olds" by auto
  have l: "length olds = length ts" using list_all2_lengthD [OF o(2)] by simp
  have "safe (unmarshal (ts ! i) (olds ! i)) (marshallable (ts ! i))" if i: "i < length ts" for i
  proof (rule TStruct.IH)
    show "ts ! i \<in> set ts" using i by simp
    show "type_ok (ts ! i)" using TStruct.prems(1) i by (simp add: list_all_length)
    show "marshallable (ts ! i) (olds ! i)" using list_all2_nthD [OF o(2)] i by simp
    show "bits_clear (ts ! i) (olds ! i)" using list_all2_nthD [OF o(3)] i by simp
  qed
  then have "\<forall>i < length ts. safe (unmarshal (ts ! i) (olds ! i)) (marshallable (ts ! i))" by (intro allI impI)
  from safe_map [OF safe_members [OF l this], of "marshallable (TStruct ts)" VSeq] show ?case using o(1) by (simp add: safe_def)
qed

lemma cut_chars:
  assumes "ahead s b" "rpos b + length s \<le> bound"
  shows "read_chars bound b = Inr (s, skip (length s) b)"
  using assms
proof (induction s arbitrary: b)
  case Nil
  then have "\<not> rpos b < bb_size b" by (simp add: ahead_def)
  then show ?case by (subst read_chars.simps) simp
next
  case (Cons c s)
  have "read_bytes 1 b = Inr ([c], skip 1 b)" using gets_bytes [of "[c]"] Cons.prems(1) by (auto simp: gets_def)
  moreover have "ahead s (skip 1 b)" using ahead_skip [of "[c]" s b] Cons.prems(1) by simp
  moreover have "rpos b < bb_size b" using ahead_room [of "[c]" s b] Cons.prems(1) by simp
  ultimately show ?case using Cons.IH [of "skip 1 b"] Cons.prems(2) by (subst read_chars.simps) simp
qed

end
