(* ===== verification/WireFormat.thy ===== *)
theory WireFormat
  imports WireProps
begin

text \<open>
  Properties of the wire format: round trip, unambiguity, reading of hostile bytes, and the three
  places where reading does not give what was written.
\<close>

section \<open>Round trip\<close>

text \<open>A buffer that holds received bytes, as \<open>AppendBuffer\<close> fills it.\<close>

definition received :: "byte list \<Rightarrow> bbuf" where
  "received bs = BB_new\<lparr>storage := bs, wpos := length bs\<rparr>"

lemma received_append: "length bs < 10000000 \<Longrightarrow> append_raw bs BB_new = Inr (received bs)"
  using append_raw_end [of bs BB_new] by (simp add: room_def BB_new_def put_end_def received_def)

lemma received_ahead: "length bs < 2 ^ 32 \<Longrightarrow> ahead bs (received bs)"
  by (simp add: ahead_def received_def BB_new_def)

text \<open>
  C7: A value of any type that packets are made of, written to a fresh buffer, is exactly the bytes of
  the wire format, and reading them back into a fresh or reused variable without set bits gives the
  value and stops behind its last byte, whatever bytes follow.
\<close>

theorem wire_roundtrip:
  assumes "type_ok t" "marshallable t v" "marshallable t old" "bits_clear t old" "length (encode t v @ rest) < 10000000"
  shows "marshal t v BB_new = Inr (received (encode t v)) \<and>
    unmarshal t old (received (encode t v @ rest)) = Inr (v, (received (encode t v @ rest))\<lparr>rpos := length (encode t v)\<rparr>)"
proof
  have "room (encode t v) BB_new" using assms(5) by (simp add: room_def BB_new_def)
  then show "marshal t v BB_new = Inr (received (encode t v))"
    using puts_encode [OF assms(1,2)] by (simp add: puts_def put_end_def BB_new_def received_def)
  have "ahead (encode t v @ rest) (received (encode t v @ rest))" by (rule received_ahead) (use assms(5) in simp)
  then have "unmarshal t old (received (encode t v @ rest)) = Inr (v, skip (length (encode t v)) (received (encode t v @ rest)))"
    using gets_encode [OF assms(1-4)] unfolding gets_def by blast
  then show "unmarshal t old (received (encode t v @ rest)) = Inr (v, (received (encode t v @ rest))\<lparr>rpos := length (encode t v)\<rparr>)"
    by (simp add: skip_def received_def BB_new_def)
qed

abbreviation player_type :: ty where
  "player_type \<equiv> TStruct [TSInt 4, TStr, TMap (TUInt 2) TBool, TBoundArray 3 (TSInt 8), TBitSet 10]"

abbreviation player_value :: val where
  "player_value \<equiv> VSeq [VInt (- 7), VStr [65, 66], VMap [(VInt 2, VBool True), (VInt 300, VBool False)], VSeq [VInt 1],
     VBits [True, False, False, False, False, False, False, False, False, True]]"

lemma player_ok: "type_ok player_type" "marshallable player_type player_value"
  by (auto simp: kMaxBitsetSize_def sset_inv_Cons)

theorem wire_roundtrip_witness:
  "\<exists>bs b. marshal player_type player_value BB_new = Inr (received bs) \<and> unmarshal player_type (fresh player_type) (received bs) = Inr (player_value, b)"
proof -
  have "length (encode player_type player_value @ []) < 10000000"
    by (simp add: encode_seq_def encode_string_def)
  then have "marshal player_type player_value BB_new = Inr (received (encode player_type player_value)) \<and>
      unmarshal player_type (fresh player_type) (received (encode player_type player_value @ [])) =
        Inr (player_value, (received (encode player_type player_value @ []))\<lparr>rpos := length (encode player_type player_value)\<rparr>)"
    by (rule wire_roundtrip [OF player_ok fresh_ok [OF player_ok(1), THEN conjunct1] fresh_ok [OF player_ok(1), THEN conjunct2]])
  then show ?thesis unfolding append_Nil2 by blast
qed

text \<open>
  The format is unambiguous: if the bytes of two values of a type begin two byte streams that are
  equal, the values are equal and so is what follows them.
\<close>

theorem wire_unambiguous:
  assumes "type_ok t" "marshallable t v" "marshallable t w" "encode t v @ xs = encode t w @ ys" "length (encode t v @ xs) < 10000000"
  shows "v = w \<and> xs = ys"
proof -
  let ?b = "received (encode t v @ xs)"
  have f: "marshallable t (fresh t)" "bits_clear t (fresh t)" using fresh_ok [OF assms(1)] by simp_all
  have a: "ahead (encode t v @ xs) ?b" by (rule received_ahead) (use assms(5) in simp)
  have "unmarshal t (fresh t) ?b = Inr (v, skip (length (encode t v)) ?b)" using gets_encode [OF assms(1,2) f] a unfolding gets_def by blast
  moreover have "unmarshal t (fresh t) ?b = Inr (w, skip (length (encode t w)) ?b)"
    using gets_encode [OF assms(1,3) f] a assms(4) unfolding gets_def by metis
  ultimately have "v = w" by simp
  then show ?thesis using assms(4) by simp
qed

theorem wire_unambiguous_witness: "encode TStr (VStr [65]) @ [1] \<noteq> encode TStr (VStr [65, 1]) @ []"
proof
  assume e: "encode TStr (VStr [65]) @ [1] = encode TStr (VStr [65, 1]) @ []"
  have "length (encode TStr (VStr [65]) @ [1]) < 10000000" by (simp add: encode_string_def)
  from wire_unambiguous [OF _ _ _ e this] show False by simp
qed

section \<open>Hostile bytes\<close>



text \<open>
  A string that announces more bytes than the packet has is not refused: it is cut where the packet
  ends, and the reader goes on as if all were well.
\<close>

theorem short_string_accepted:
  assumes "length s < n" "n < 2 ^ 32 - 4"
  shows "unmarshal TStr old (received (le_bytes 4 (int n) @ s)) = Inr (VStr s, (received (le_bytes 4 (int n) @ s))\<lparr>rpos := 4 + length s\<rparr>)"
proof -
  let ?b = "received (le_bytes 4 (int n) @ s)"
  have len: "length (le_bytes 4 (int n) @ s) < 2 ^ 32" using assms by simp
  have a: "ahead (le_bytes 4 (int n) @ s) ?b" by (rule received_ahead [OF len])
  have "gets (le_bytes 4 (int n)) (read_num 4) (int n)" using assms(2) by (intro gets_num) simp_all
  then have n: "read_num 4 ?b = Inr (int n, skip 4 ?b)" using a unfolding gets_def by fastforce
  have a2: "ahead s (skip 4 ?b)" using ahead_skip [OF a] by simp
  have r: "rpos (skip 4 ?b) = 4" by (simp add: received_def BB_new_def)
  have u: "nat (u32 (u32 (int (rpos (skip 4 ?b))) + int n)) = 4 + n" using assms(2) r by (simp add: u32_def)
  have "read_chars (4 + n) (skip 4 ?b) = Inr (s, skip (length s) (skip 4 ?b))" by (rule cut_chars [OF a2]) (use r assms(1) in simp)
  then have "read_string ?b = Inr (s, skip (4 + length s) ?b)" using n u by (simp add: read_string_def)
  then show ?thesis by (simp add: as_val_def skip_def received_def BB_new_def)
qed

theorem short_string_accepted_witness:
  "\<exists>b. unmarshal TStr (VStr []) (received [9, 0, 0, 0, 65, 66]) = Inr (VStr [65, 66], b)"
proof -
  have "le_bytes 4 (int 9) @ [65, 66] = [9, 0, 0, 0, 65, 66]" by (simp add: eval_nat_numeral)
  moreover have "unmarshal TStr (VStr []) (received (le_bytes 4 (int 9) @ [65, 66])) =
      Inr (VStr [65, 66], (received (le_bytes 4 (int 9) @ [65, 66]))\<lparr>rpos := 4 + length [65 :: byte, 66]\<rparr>)"
    by (rule short_string_accepted) simp_all
  ultimately show ?thesis by (intro exI) simp
qed

text \<open>
  A bit set can be read only into an empty one: reading a second packet into the same object aborts
  as soon as the first had a bit set.
\<close>

theorem reused_bitset_aborts:
  assumes "marshallable (TBitSet m) v" "m \<le> kMaxBitsetSize" "x \<in> set old" "x"
  shows "unmarshal (TBitSet m) (VBits old) (received (encode (TBitSet m) v)) = Inl AssertFail"
proof -
  obtain bits where v: "v = VBits bits" "length bits = m" using assms(1) by auto
  let ?n = "(m + 7) div 8" let ?b = "received (encode (TBitSet m) v)"
  have m: "m \<le> 1048576" "?n \<le> 131072" using assms(2) by (simp_all add: kMaxBitsetSize_def)
  have "ahead (le_bytes 4 (int ?n) @ pack_bits ?n bits) ?b"
    using received_ahead [of "encode (TBitSet m) v"] v(1) m(2) by simp
  moreover have "gets (le_bytes 4 (int ?n)) (read_num 4) (int ?n)" using m(2) by (intro gets_num) simp_all
  ultimately have "read_num 4 ?b = Inr (int ?n, skip 4 ?b)" unfolding gets_def by fastforce
  moreover have "(\<exists>x \<in> set old. x) = True" using assms(3,4) by blast
  ultimately have "BitSet_UnPack m old ?b = Inl AssertFail" using m(2) unfolding BitSet_UnPack_def kMaxBitsetSize_def by simp
  then show ?thesis by (simp add: as_val_def)
qed

theorem reused_bitset_aborts_witness:
  "unmarshal (TBitSet 2) (VBits [True, False]) (received (encode (TBitSet 2) (VBits [False, True]))) = Inl AssertFail"
  by (rule reused_bitset_aborts [where x=True]) (simp_all add: kMaxBitsetSize_def)

text \<open>Single bits do not come back: \<open>readBits\<close> shifts the position of a bit where it means to shift a one.\<close>

lemma readBits_loses_bit: "readBit b = Inr (x, b1) \<Longrightarrow> readBits 1 b = Inr (0, b1)"
  by (simp add: readBits_def)

end
