(* ===== verification/TimeSegments.thy ===== *)
theory TimeSegments
  imports WireFormat
begin

text \<open>
  The time segments that templates hold (\<open>gs/template/data_templ/base_datatempl.cpp\<close>), whose reading
  moves their dates and may abort, and the members of templates that are made of them and of
  plain types.
\<close>

section \<open>Time segments\<close>

record time_segment =
  is_valid :: int
  start_date :: int
  end_date :: int
  start_time :: int
  end_time :: int
  is_day_of_month :: int
  days :: "int list"
  months :: "int list"

definition TimeSegment_new :: time_segment where
  "TimeSegment_new = \<lparr>is_valid = 0, start_date = 0, end_date = 0, start_time = 0, end_time = 0,
     is_day_of_month = 1, days = [], months = []\<rparr>"

definition CheckTimeSegment :: "time_segment \<Rightarrow> bool" where
  "CheckTimeSegment t =
     (let sec_limit = 23 * 3600 + 59 * 60 + 59 in
      if start_date t \<le> 0 \<and> end_date t > 0 then False
      else if start_date t > 0 \<and> end_date t \<le> 0 then False
      else if start_date t > 0 \<and> start_date t > end_date t then False
      else if start_time t < 0 \<and> end_time t > 0 then False
      else if start_time t > 0 \<and> end_time t < 0 then False
      else if start_time t < 0 \<or> start_time t > sec_limit \<or> end_time t < 0 \<or> end_time t > sec_limit then False
      else if start_time t > 0 \<and> start_time t > end_time t then False
      else if is_day_of_month t = 0 \<and> length (days t) > 7 then False
      else if \<not> list_all (\<lambda>d. if is_day_of_month t \<noteq> 0 then \<not> (d < 1 \<or> d > 31) else \<not> (d < 0 \<or> d > 6)) (days t) then False
      else list_all (\<lambda>m. \<not> (m < 0 \<or> m > 11)) (months t))"

text \<open>The parameter is the offset of the local time zone from UTC in seconds (\<open>tm_gmtoff\<close>).\<close>

definition CorrectionDateTime :: "int \<Rightarrow> time_segment \<Rightarrow> time_segment" where
  "CorrectionDateTime gmtoff t =
     (if is_valid t = 0 then t
      else if start_date t > 0 \<and> end_date t > 0
           then t\<lparr>start_date := i32 (start_date t - gmtoff), end_date := i32 (end_date t - gmtoff)\<rparr>
           else t)"

definition ts_type :: ty where
  "ts_type = TStruct [TSInt 1, TSInt 4, TSInt 4, TSInt 4, TSInt 4, TSInt 1, TBoundArray 31 (TSInt 1), TBoundArray 12 (TSInt 1)]"

definition ts_val :: "time_segment \<Rightarrow> val" where
  "ts_val t = VSeq [VInt (is_valid t), VInt (start_date t), VInt (end_date t), VInt (start_time t), VInt (end_time t),
     VInt (is_day_of_month t), VSeq (List.map VInt (days t)), VSeq (List.map VInt (months t))]"

fun int_of_val :: "val \<Rightarrow> int" where
  "int_of_val (VInt i) = i"
| "int_of_val _ = 0"

fun seq_of_val :: "val \<Rightarrow> val list" where
  "seq_of_val (VSeq vs) = vs"
| "seq_of_val _ = []"

definition ts_of :: "val \<Rightarrow> time_segment" where
  "ts_of v = (let vs = seq_of_val v; num = (\<lambda>i. int_of_val (vs ! i)) in
     \<lparr>is_valid = num 0, start_date = num 1, end_date = num 2, start_time = num 3, end_time = num 4, is_day_of_month = num 5,
      days = List.map int_of_val (seq_of_val (vs ! 6)), months = List.map int_of_val (seq_of_val (vs ! 7))\<rparr>)"

definition Pack :: "time_segment \<Rightarrow> bbuf \<Rightarrow> bbuf res" where
  "Pack t b = marshal ts_type (ts_val t) b"

definition UnPack :: "int \<Rightarrow> time_segment \<Rightarrow> bbuf \<Rightarrow> (time_segment \<times> bbuf) res" where
  "UnPack gmtoff old b =
     bindr (unmarshal ts_type (ts_val old) b) (\<lambda>(v, b1).
       let t = CorrectionDateTime gmtoff (ts_of v) in assertx (CheckTimeSegment t) (Inr (t, b1)))"

lemma CheckTimeSegment_iff:
  "CheckTimeSegment t \<longleftrightarrow>
     (start_date t \<le> 0 \<and> end_date t \<le> 0 \<or> 0 < start_date t \<and> start_date t \<le> end_date t) \<and>
     0 \<le> start_time t \<and> start_time t \<le> end_time t \<and> end_time t < 86400 \<and>
     (if is_day_of_month t = 0 then length (days t) \<le> 7 \<and> set (days t) \<subseteq> {0..6} else set (days t) \<subseteq> {1..31}) \<and>
     set (months t) \<subseteq> {0..11}"
  unfolding CheckTimeSegment_def Let_def by (auto simp: list_all_iff not_less subset_iff)

lemma ts_of_val [simp]: "ts_of (ts_val t) = t"
  by (cases t) (simp add: ts_of_def ts_val_def Let_def comp_def)

text \<open>A segment whose members fit their types.\<close>

definition ts_fits :: "time_segment \<Rightarrow> bool" where
  "ts_fits t \<longleftrightarrow> marshallable ts_type (ts_val t)"

lemma ts_type_ok: "type_ok ts_type"
  by (simp add: ts_type_def)

lemma ts_bits_clear: "bits_clear ts_type (ts_val t)"
  by (simp add: ts_type_def ts_val_def list_all_iff)

lemma ts_length: "ts_fits t \<Longrightarrow> length (encode ts_type (ts_val t)) < 100"
  by (auto simp: ts_fits_def ts_type_def ts_val_def encode_seq_def comp_def length_concat sum_list_triv)

text \<open>The date of a valid segment moves at every reading, also when it was written by this program.\<close>

lemma CorrectionDateTime_twice:
  assumes "is_valid t \<noteq> 0" "0 < start_date t" "0 < end_date t" "0 < start_date t - off" "0 < end_date t - off"
    "start_date t < 2147483648" "end_date t < 2147483648" "0 \<le> off"
  shows "start_date (CorrectionDateTime off (CorrectionDateTime off t)) = start_date t - 2 * off"
  using assms by (simp add: CorrectionDateTime_def i32_id)

section \<open>Members of templates\<close>

text \<open>
  A member of a template is of a plain type, a time segment, a bounded array or a nested struct of
  such members. On the wire a time segment is a struct like any other.
\<close>

datatype mem = Plain ty | Segment | Bounded nat mem | Nested "mem list"

primrec wire_of :: "mem \<Rightarrow> ty" where
  "wire_of (Plain t) = t"
| "wire_of Segment = ts_type"
| "wire_of (Bounded n m) = TBoundArray n (wire_of m)"
| "wire_of (Nested ms) = TStruct (List.map wire_of ms)"

text \<open>Reading, given the offset of the local time zone.\<close>

primrec unmarshal_mem :: "int \<Rightarrow> mem \<Rightarrow> val \<Rightarrow> bbuf \<Rightarrow> (val \<times> bbuf) res" where
  "unmarshal_mem off (Plain t) old b = unmarshal t old b"
| "unmarshal_mem off Segment old b = as_val ts_val (UnPack off (ts_of old) b)"
| "unmarshal_mem off (Bounded n m) old b =
     bindr (check_bound n b) (\<lambda>b1. as_val VSeq (read_seq (unmarshal_mem off m (fresh (wire_of m))) b1))"
| "unmarshal_mem off (Nested ms) old b =
     (case old of VSeq olds \<Rightarrow> as_val VSeq (read_members (List.map (unmarshal_mem off) ms) olds b) | _ \<Rightarrow> Inl AssertFail)"

text \<open>What comes back of a value: its valid time segments are moved.\<close>

primrec moved :: "int \<Rightarrow> mem \<Rightarrow> val \<Rightarrow> val" where
  "moved off (Plain t) v = v"
| "moved off Segment v = ts_val (CorrectionDateTime off (ts_of v))"
| "moved off (Bounded n m) v = VSeq (List.map (moved off m) (seq_of_val v))"
| "moved off (Nested ms) v = VSeq (map2 (\<lambda>f v. f v) (List.map (moved off) ms) (seq_of_val v))"

primrec segments_proper :: "int \<Rightarrow> mem \<Rightarrow> val \<Rightarrow> bool" where
  "segments_proper off (Plain t) v \<longleftrightarrow> True"
| "segments_proper off Segment v \<longleftrightarrow> CheckTimeSegment (CorrectionDateTime off (ts_of v))"
| "segments_proper off (Bounded n m) v \<longleftrightarrow> list_all (segments_proper off m) (seq_of_val v)"
| "segments_proper off (Nested ms) v \<longleftrightarrow> list_all2 (\<lambda>p v. p v) (List.map (segments_proper off) ms) (seq_of_val v)"

lemma ts_val_of:
  assumes "marshallable ts_type v"
  shows "ts_val (ts_of v) = v"
proof -
  have ints: "List.map (VInt \<circ> int_of_val) vs = vs" if "list_all (marshallable (TSInt 1)) vs" for vs
    using that by (intro map_idI) (auto simp: list_all_iff)
  obtain vs where v: "v = VSeq vs" "list_all2 (\<lambda>p v. p v) (List.map marshallable
      [TSInt 1, TSInt 4, TSInt 4, TSInt 4, TSInt 4, TSInt 1, TBoundArray 31 (TSInt 1), TBoundArray 12 (TSInt 1)]) vs"
    using assms by (auto simp: ts_type_def)
  then obtain a b c d e f ds ms where vs: "vs = [VInt a, VInt b, VInt c, VInt d, VInt e, VInt f, VSeq ds, VSeq ms]"
    "list_all (marshallable (TSInt 1)) ds" "list_all (marshallable (TSInt 1)) ms"
    by (auto simp: list_all2_Cons1)
  show ?thesis unfolding v(1) vs(1) using ints [OF vs(2)] ints [OF vs(3)] by (simp add: ts_of_def ts_val_def Let_def)
qed

lemma gets_times_map:
  assumes "\<forall>v \<in> set vs. gets (e v) r (f v)"
  shows "gets (concat (List.map e vs)) (read_times r (length vs)) (List.map f vs)"
  using assms
proof (induction vs)
  case (Cons v vs)
  have "read_times r (length (v # vs)) = (\<lambda>b. bindr (r b) (\<lambda>(v, b1). bindr (read_times r (length vs) b1) (\<lambda>(vs, b2). Inr (v # vs, b2))))"
    by (rule ext) simp
  then show ?case using Cons gets_cons [of "e v" r "f v"] by simp
qed (simp add: gets_def)

lemma gets_seq_map:
  assumes "\<forall>v \<in> set vs. gets (e v) r (f v)" "length vs \<le> 4096"
  shows "gets (encode_seq e vs) (read_seq r) (List.map f vs)"
proof -
  have n: "gets (le_bytes 4 (int (length vs))) (read_num 4) (int (length vs))" using assms(2) by (intro gets_num) simp_all
  have "gets (le_bytes 4 (int (length vs)) @ concat (List.map e vs))
      (\<lambda>b. bindr (read_num 4 b) (\<lambda>(n, b1). if n > int kMaxBBDynamicContainerSize then Inl Thrown else read_times r (nat n) b1)) (List.map f vs)"
    by (rule gets_bind_cont [OF n _ gets_times_map [OF assms(1)]]) (use assms(2) in \<open>simp add: kMaxBBDynamicContainerSize_def\<close>)
  then show ?thesis unfolding encode_seq_def gets_def read_seq_def .
qed

lemma gets_members_map:
  assumes "length ms = length vs" "length olds = length vs"
    "\<forall>i < length vs. gets (encode (wire_of (ms ! i)) (vs ! i)) (unmarshal_mem off (ms ! i) (olds ! i)) (moved off (ms ! i) (vs ! i))"
  shows "gets (concat (map2 (\<lambda>e v. e v) (List.map encode (List.map wire_of ms)) vs)) (read_members (List.map (unmarshal_mem off) ms) olds)
    (map2 (\<lambda>f v. f v) (List.map (moved off) ms) vs)"
  using assms
proof (induction vs arbitrary: ms olds)
  case Nil
  then show ?case by (simp add: gets_def)
next
  case (Cons v vs)
  obtain m ms' where ms: "ms = m # ms'" using Cons.prems(1) by (cases ms) auto
  obtain old olds' where olds: "olds = old # olds'" using Cons.prems(2) by (cases olds) auto
  have h: "gets (encode (wire_of m) v) (unmarshal_mem off m old) (moved off m v)" using Cons.prems(3) ms olds by force
  have "gets (encode (wire_of (ms' ! i)) (vs ! i)) (unmarshal_mem off (ms' ! i) (olds' ! i)) (moved off (ms' ! i) (vs ! i))" if "i < length vs" for i
    using Cons.prems(3) that ms olds by (metis Suc_less_eq length_Cons nth_Cons_Suc)
  then have t: "gets (concat (map2 (\<lambda>e v. e v) (List.map encode (List.map wire_of ms')) vs)) (read_members (List.map (unmarshal_mem off) ms') olds')
      (map2 (\<lambda>f v. f v) (List.map (moved off) ms') vs)"
    using Cons.IH [of ms' olds'] Cons.prems(1,2) ms olds by simp
  have "read_members (List.map (unmarshal_mem off) ms) olds =
      (\<lambda>b. bindr (unmarshal_mem off m old b) (\<lambda>(v, b1). bindr (read_members (List.map (unmarshal_mem off) ms') olds' b1) (\<lambda>(vs, b2). Inr (v # vs, b2))))"
    unfolding ms olds by (rule ext) simp
  then show ?case using gets_cons [OF h t] ms by simp
qed

text \<open>A member that is read where it was written comes back with its time segments moved.\<close>

lemma gets_mem:
  "type_ok (wire_of m) \<Longrightarrow> marshallable (wire_of m) v \<Longrightarrow> marshallable (wire_of m) old \<Longrightarrow> bits_clear (wire_of m) old \<Longrightarrow>
   segments_proper off m v \<Longrightarrow> gets (encode (wire_of m) v) (unmarshal_mem off m old) (moved off m v)"
proof (induction m arbitrary: v old)
  case (Plain t)
  then show ?case using gets_encode [of t v old] by (simp add: gets_def)
next
  case Segment
  have v: "marshallable ts_type v" "ts_val (ts_of old) = old" using Segment.prems(2,3) ts_val_of by simp_all
  have "gets (encode ts_type v) (unmarshal ts_type old) v"
    using gets_encode [OF ts_type_ok v(1)] Segment.prems(3,4) by simp
  from gets_bind [OF this, of "[]" "\<lambda>v b. let t = CorrectionDateTime off (ts_of v) in assertx (CheckTimeSegment t) (Inr (t, b))" "CorrectionDateTime off (ts_of v)"]
  have "gets (encode ts_type v) (UnPack off (ts_of old)) (CorrectionDateTime off (ts_of v))"
    using Segment.prems(5) v(2) by (simp add: gets_def UnPack_def Let_def)
  from gets_map [OF this, of ts_val] show ?case by (simp add: gets_def)
next
  case (Bounded n m)
  obtain vs where v: "v = VSeq vs" "length vs \<le> 4096" "length vs \<le> n" "list_all (marshallable (wire_of m)) vs"
    using Bounded.prems(2) by auto
  let ?r = "unmarshal_mem off m (fresh (wire_of m))"
  have t: "type_ok (wire_of m)" "n < 2 ^ 32" using Bounded.prems(1) by simp_all
  have "gets (encode (wire_of m) x) ?r (moved off m x)" if "x \<in> set vs" for x
    using Bounded.IH [OF t(1), of x "fresh (wire_of m)"] fresh_ok [OF t(1)] Bounded.prems(5) v(1,4) that by (auto simp: list_all_iff)
  then have "gets (encode_seq (encode (wire_of m)) vs) (read_seq ?r) (List.map (moved off m) vs)" using v(2) by (intro gets_seq_map) blast+
  from gets_map [OF this, of VSeq]
  have "gets (le_bytes 4 (int n) @ encode_seq (encode (wire_of m)) vs) (\<lambda>b. bindr (check_bound n b) (\<lambda>b1. as_val VSeq (read_seq ?r b1)))
      (VSeq (List.map (moved off m) vs))"
    unfolding encode_seq_def by (intro gets_bound) (use t(2) v(3) in simp_all)
  then show ?case using v(1) by (simp add: gets_def)
next
  case (Nested ms)
  obtain vs where v: "v = VSeq vs" "list_all2 (\<lambda>p v. p v) (List.map marshallable (List.map wire_of ms)) vs"
    using Nested.prems(2) by auto
  obtain olds where o: "old = VSeq olds" "list_all2 (\<lambda>p v. p v) (List.map marshallable (List.map wire_of ms)) olds"
    using Nested.prems(3) by auto
  have c: "list_all2 (\<lambda>p v. p v) (List.map bits_clear (List.map wire_of ms)) olds" using Nested.prems(4) o(1) by simp
  have p: "list_all2 (\<lambda>p v. p v) (List.map (segments_proper off) ms) vs" using Nested.prems(5) v(1) by simp
  have l: "length ms = length vs" "length olds = length vs" using list_all2_lengthD [OF v(2)] list_all2_lengthD [OF o(2)] by simp_all
  have "gets (encode (wire_of (ms ! i)) (vs ! i)) (unmarshal_mem off (ms ! i) (olds ! i)) (moved off (ms ! i) (vs ! i))" if "i < length vs" for i
  proof (rule Nested.IH)
    show "ms ! i \<in> set ms" using that l by simp
    show "type_ok (wire_of (ms ! i))" using Nested.prems(1) that l by (simp add: list_all_length)
  qed (use that l v(2) o(2) c p in \<open>simp_all add: list_all2_conv_all_nth\<close>)
  then have "gets (concat (map2 (\<lambda>e v. e v) (List.map encode (List.map wire_of ms)) vs)) (read_members (List.map (unmarshal_mem off) ms) olds)
      (map2 (\<lambda>f v. f v) (List.map (moved off) ms) vs)"
    by (intro gets_members_map [OF l]) blast
  from gets_map [OF this, of VSeq] show ?case using v(1) o(1) by (simp add: gets_def)
qed

section \<open>A round trip that moves\<close>

text \<open>
  A time segment that was packed and is unpacked has its days, times and months, but the dates of
  a valid one move by the offset of the local time zone each time; the process aborts if the moved
  segment is not a proper one.
\<close>

theorem time_segment_moves:
  assumes "ts_fits t"
  shows "\<exists>b b'. Pack t BB_new = Inr b \<and>
     UnPack gmtoff TimeSegment_new b =
       assertx (CheckTimeSegment (CorrectionDateTime gmtoff t)) (Inr (CorrectionDateTime gmtoff t, b')) \<and>
     days (CorrectionDateTime gmtoff t) = days t \<and> end_time (CorrectionDateTime gmtoff t) = end_time t \<and>
     (is_valid t \<noteq> 0 \<longrightarrow> 0 < start_date t \<longrightarrow> 0 < end_date t \<longrightarrow>
        start_date (CorrectionDateTime gmtoff t) = i32 (start_date t - gmtoff))"
proof -
  let ?e = "encode ts_type (ts_val t)" and ?new = "ts_val TimeSegment_new"
  have m: "marshallable ts_type (ts_val t)" using assms by (simp add: ts_fits_def)
  have n: "marshallable ts_type ?new" by (simp add: ts_type_def ts_val_def TimeSegment_new_def list_all2_Cons1)
  have "room ?e BB_new" using ts_length [OF assms] by (simp add: room_def BB_new_def)
  then have p: "Pack t BB_new = Inr (put_end ?e BB_new)"
    using puts_encode [OF ts_type_ok m] unfolding puts_def Pack_def by blast
  have "ahead (?e @ []) (put_end ?e BB_new)"
    using ts_length [OF assms] by (simp add: ahead_def put_end_def BB_new_def)
  then have u: "unmarshal ts_type ?new (put_end ?e BB_new) = Inr (ts_val t, skip (length ?e) (put_end ?e BB_new))"
    using gets_encode [OF ts_type_ok m n ts_bits_clear] unfolding gets_def by blast
  show ?thesis
    by (rule exI [of _ "put_end ?e BB_new"], rule exI [of _ "skip (length ?e) (put_end ?e BB_new)"])
      (simp add: p UnPack_def u Let_def CorrectionDateTime_def)
qed

theorem time_segment_moves_witness:
  "\<exists>b b'. Pack (TimeSegment_new\<lparr>is_valid := 1, start_date := 1400000000, end_date := 1400003600\<rparr>) BB_new = Inr b \<and>
     UnPack 28800 TimeSegment_new b =
       Inr (TimeSegment_new\<lparr>is_valid := 1, start_date := 1399971200, end_date := 1399974800\<rparr>, b')"
proof -
  let ?t = "TimeSegment_new\<lparr>is_valid := 1, start_date := 1400000000, end_date := 1400003600\<rparr>"
  have f: "ts_fits ?t" by (simp add: ts_fits_def ts_type_def ts_val_def TimeSegment_new_def list_all2_Cons1)
  have c: "CorrectionDateTime 28800 ?t = TimeSegment_new\<lparr>is_valid := 1, start_date := 1399971200, end_date := 1399974800\<rparr>"
    by (simp add: CorrectionDateTime_def TimeSegment_new_def i32_id)
  have k: "CheckTimeSegment (CorrectionDateTime 28800 ?t)"
    unfolding c by (simp add: CheckTimeSegment_iff TimeSegment_new_def)
  from time_segment_moves [OF f, of 28800] k show ?thesis unfolding c by auto
qed

end
