(* ===== verification/TemplCodec.thy ===== *)
theory TemplCodec
  imports TimeSegments
begin

unbundle bit_operations_syntax

text \<open>
  The files of template data: packets of \<open>shared/net/packet/base_packet.h\<close>, their codec
  (\<open>codec_templ.h\<close>) with lengths, version and checksum.
\<close>

section \<open>Templates\<close>

text \<open>The members of a template are its id and what its class marshals behind it.\<close>

record templ =
  typeid :: nat
  members :: val
  buf :: bbuf

text \<open>
  Classes and the checksum are parameters: a prototype of every registered type, the members of its
  class in the order in which it marshals them, whether its data is valid, and \<open>adler32\<close>. So is
  \<open>gmtoff\<close>, the offset of the local time zone from UTC in seconds, which reading looks up.
\<close>

record templ_env =
  templ_version :: "32 word"
  prototype :: "nat \<Rightarrow> templ option"
  member_types :: "nat \<Rightarrow> mem list"
  gmtoff :: int
  CheckDataValidity :: "templ \<Rightarrow> bool"
  adler32 :: "byte list \<Rightarrow> 32 word"

definition TEMPL_TYPE_GLOBAL_CONFIG :: nat where "TEMPL_TYPE_GLOBAL_CONFIG = 4"
definition TEMPL_TYPE_MAX :: nat where "TEMPL_TYPE_MAX = 46"

definition IsValidType :: "nat \<Rightarrow> bool" where
  "IsValidType t \<longleftrightarrow> 0 < t \<and> t < TEMPL_TYPE_MAX"

definition CreatePacket :: "templ_env \<Rightarrow> nat \<Rightarrow> templ option" where
  "CreatePacket env t = prototype env t"

definition templ_mem :: "templ_env \<Rightarrow> nat \<Rightarrow> mem" where
  "templ_mem env t = Nested (Plain (TSInt 4) # member_types env t)"

definition templ_type :: "templ_env \<Rightarrow> nat \<Rightarrow> ty" where
  "templ_type env t = wire_of (templ_mem env t)"

definition templ_id :: "templ \<Rightarrow> int" where
  "templ_id p = (case members p of VSeq (VInt i # _) \<Rightarrow> i | _ \<Rightarrow> 0)"

definition Marshal :: "templ_env \<Rightarrow> templ \<Rightarrow> templ res" where
  "Marshal env p = bindr (marshal (templ_type env (typeid p)) (members p) (buf p)) (\<lambda>b. Inr (p\<lparr>buf := b\<rparr>))"

definition Unmarshal :: "templ_env \<Rightarrow> templ \<Rightarrow> templ res" where
  "Unmarshal env p = bindr (unmarshal_mem (gmtoff env) (templ_mem env (typeid p)) (members p) (buf p)) (\<lambda>(v, b). Inr (p\<lparr>members := v, buf := b\<rparr>))"

definition AppendBuffer :: "byte list \<Rightarrow> templ \<Rightarrow> templ res" where
  "AppendBuffer bs p = bindr (append_raw bs (buf p)) (\<lambda>b. Inr (p\<lparr>buf := b\<rparr>))"

definition FreeContent :: "templ \<Rightarrow> templ" where
  "FreeContent p = p\<lparr>buf := BB_new\<rparr>"

section \<open>Assembling a file\<close>

datatype TPCErrorCode = TPC_SUCCESS | TPC_INVALID_LENGTH | TPC_CHECK_SUM_ERROR | TPC_VERSION_ERROR | TPC_PARSE_ERROR
  | TPC_TEMPL_PACKET_TYPE_ERROR | TPC_PACKET_LEN_ERROR | TPC_PACKET_TYPE_NOT_FOUND | TPC_PACKET_UNMARSHAL_ERROR | TPC_PACKET_MARSHAL_ERROR

definition SinglePacketFillEmptyBuffer :: "net_buffer \<Rightarrow> templ \<Rightarrow> net_buffer res" where
  "SinglePacketFillEmptyBuffer b p =
     assertx (ReadableBytes b = 0)
      (bindr (AppendInt16 b (of_nat (typeid p))) (\<lambda>b1.
       let byte_size = bb_size (buf p) in
       bindr (if byte_size \<noteq> 0 then bindr (EnsureWritableBytes b1 byte_size) (\<lambda>b2. Append b2 (storage (buf p))) else Inr b1) (\<lambda>b3.
       assertx (ReadableBytes b3 = 2 + byte_size) (Prepend b3 (be32 (of_nat (ReadableBytes b3)))))))"

text \<open>
  The loop over the templates. A template that throws ends it (the \<open>try\<close>): the flag tells. The
  loop returns the file buffer and the total length of the packets; the buffers that \<open>Marshal\<close> fills
  stay with the templates, which the writer does not look at again.
\<close>

fun assemble_loop :: "templ_env \<Rightarrow> templ list \<Rightarrow> net_buffer \<Rightarrow> net_buffer \<Rightarrow> nat \<Rightarrow> (bool \<times> net_buffer \<times> nat) res" where
  "assemble_loop env [] tempbuf b content_total_len = Inr (True, b, content_total_len)"
| "assemble_loop env (p # ps) tempbuf b content_total_len =
     (case Marshal env p of
        Inl Thrown \<Rightarrow> Inr (False, b, content_total_len)
      | Inl e \<Rightarrow> Inl e
      | Inr p1 \<Rightarrow>
          bindr (SinglePacketFillEmptyBuffer (RetrieveAll tempbuf) p1) (\<lambda>t1.
          bindr (Append b (peek_bytes t1)) (\<lambda>b1. assemble_loop env ps t1 b1 (content_total_len + ReadableBytes t1))))"

definition AssemblingEmptyBuffer :: "templ_env \<Rightarrow> net_buffer \<Rightarrow> templ list \<Rightarrow> (TPCErrorCode \<times> net_buffer) res" where
  "AssemblingEmptyBuffer env b vecTempl =
     assertx (ReadableBytes b = 0)
      (bindr (AppendInt32 b (templ_version env)) (\<lambda>b1.
       bindr (AppendInt32 b1 (of_nat (length vecTempl))) (\<lambda>b2.
       bindr (assemble_loop env vecTempl Buffer_init b2 0) (\<lambda>(ok, b3, content_total_len).
       if \<not> ok then Inr (TPC_PACKET_MARSHAL_ERROR, b3)
       else bindr (AppendInt32 b3 (adler32 env (peek_bytes b3))) (\<lambda>b4.
         assertx (ReadableBytes b4 = 4 + 4 + content_total_len + 4)
          (bindr (Prepend b4 (be32 (of_nat (ReadableBytes b4)))) (\<lambda>b5. Inr (TPC_SUCCESS, b5))))))))"

section \<open>Parsing a file\<close>

text \<open>
  The parser reads through a pointer: the memory behind the first readable byte ends where the
  vector ends. Reading beyond is undefined.
\<close>

definition mem_of :: "net_buffer \<Rightarrow> byte list" where
  "mem_of b = drop (readerIndex b) (bytes_of b)"

definition mem_take :: "nat \<Rightarrow> nat \<Rightarrow> byte list \<Rightarrow> byte list res" where
  "mem_take off n m = (if off + n \<le> length m then Inr (take n (drop off m)) else Inl OutOfRange)"

definition AsInt32 :: "nat \<Rightarrow> byte list \<Rightarrow> int res" where
  "AsInt32 off m = bindr (mem_take off 4 m) (\<lambda>bs. Inr (sint (host32 bs)))"

definition AsInt16 :: "nat \<Rightarrow> byte list \<Rightarrow> int res" where
  "AsInt16 off m = bindr (mem_take off 2 m) (\<lambda>bs. Inr (sint (host16 bs)))"

definition uint16_of :: "int \<Rightarrow> nat" where
  "uint16_of i = nat (i mod 65536)"

text \<open>One packet of the file: a code and no template, or a template.\<close>

definition parse_packet :: "templ_env \<Rightarrow> nat \<Rightarrow> int \<Rightarrow> byte list \<Rightarrow> (TPCErrorCode + templ) res" where
  "parse_packet env off packet_len m =
     bindr (AsInt16 (off + 4) m) (\<lambda>t.
       let typenum = uint16_of t in
       if \<not> IsValidType typenum then Inr (Inl TPC_TEMPL_PACKET_TYPE_ERROR)
       else case CreatePacket env typenum of
           None \<Rightarrow> Inr (Inl TPC_PACKET_TYPE_NOT_FOUND)
         | Some p \<Rightarrow>
             bindr (mem_take (off + 6) 4 m) (\<lambda>_.
             bindr (mem_take (off + 6) (nat (packet_len - 2)) m) (\<lambda>data.
             case bindr (AppendBuffer data p) (Unmarshal env) of
               Inl Thrown \<Rightarrow> Inr (Inl TPC_PACKET_UNMARSHAL_ERROR)
             | Inl e \<Rightarrow> Inl e
             | Inr p1 \<Rightarrow> Inr (Inr (FreeContent p1)))))"

function Parse :: "templ_env \<Rightarrow> nat \<Rightarrow> int \<Rightarrow> int \<Rightarrow> int \<Rightarrow> byte list \<Rightarrow> templ list \<Rightarrow> (TPCErrorCode \<times> templ list) res" where
  "Parse env off templ_count check_count calc_len m vec =
     (if calc_len \<le> 0 then assertx (check_count = templ_count) (Inr (TPC_SUCCESS, vec))
      else bindr (AsInt32 off m) (\<lambda>packet_len.
        if packet_len < 2 then Inr (TPC_PACKET_LEN_ERROR, vec)
        else bindr (parse_packet env off packet_len m) (\<lambda>r.
          case r of
            Inl code \<Rightarrow> Inr (code, vec)
          | Inr p \<Rightarrow> Parse env (off + 4 + nat packet_len) templ_count (check_count + 1) (calc_len - (4 + packet_len)) m (vec @ [p]))))"
  by pat_completeness auto
termination
  by (relation "measure (\<lambda>(_, _, _, _, calc_len, _, _). nat calc_len)") auto

declare Parse.simps [simp del]

definition ParseBuffer :: "templ_env \<Rightarrow> net_buffer \<Rightarrow> (TPCErrorCode \<times> templ list) res" where
  "ParseBuffer env b =
     (if ReadableBytes b < 12 + 4 then Inr (TPC_INVALID_LENGTH, [])
      else bindr (PeekInt32 b) (\<lambda>w.
        let len = sint w; m = drop 4 (mem_of b) in
        if len < 12 then Inr (TPC_INVALID_LENGTH, [])
        else bindr (AsInt32 (nat (len - 4)) m) (\<lambda>expected.
          bindr (mem_take 0 (nat (len - 4)) m) (\<lambda>content.
          if sint (adler32 env content) \<noteq> expected then Inr (TPC_CHECK_SUM_ERROR, [])
          else bindr (AsInt32 0 m) (\<lambda>version.
            if version \<noteq> sint (templ_version env) then Inr (TPC_VERSION_ERROR, [])
            else bindr (AsInt32 4 m) (\<lambda>total_count.
              bindr (Parse env 8 total_count 0 (len - 12) m []) (\<lambda>(code, vec).
                if code \<noteq> TPC_SUCCESS then Inr (TPC_PARSE_ERROR, []) else Inr (TPC_SUCCESS, vec))))))))"


section \<open>The format\<close>

definition templ_bytes :: "templ_env \<Rightarrow> templ \<Rightarrow> byte list" where
  "templ_bytes env p = encode (templ_type env (typeid p)) (members p)"

definition packet_bytes :: "templ_env \<Rightarrow> templ \<Rightarrow> byte list" where
  "packet_bytes env p = (let c = be16 (of_nat (typeid p)) @ templ_bytes env p in be32 (of_nat (length c)) @ c)"

text \<open>A file with a given version, number and packets; the writer puts in its version and the number of templates.\<close>

definition file_content :: "templ_env \<Rightarrow> 32 word \<Rightarrow> 32 word \<Rightarrow> templ list \<Rightarrow> byte list" where
  "file_content env v n ps = be32 v @ be32 n @ concat (List.map (packet_bytes env) ps)"

definition file_with :: "templ_env \<Rightarrow> 32 word \<Rightarrow> 32 word \<Rightarrow> templ list \<Rightarrow> byte list" where
  "file_with env v n ps = (let c = file_content env v n ps in be32 (of_nat (length c + 4)) @ c @ be32 (adler32 env c))"

definition file_bytes :: "templ_env \<Rightarrow> templ list \<Rightarrow> byte list" where
  "file_bytes env ps = file_with env (templ_version env) (of_nat (length ps)) ps"

text \<open>
  A template that was not marshalled yet, of a registered type, with members of its class that the
  format can hold and time segments that are proper once they are moved; the registered prototype
  has empty bit sets and an empty buffer. \<open>restored\<close> is what reading gives back of it: the same
  template with its valid time segments moved.
\<close>

definition restored :: "templ_env \<Rightarrow> templ \<Rightarrow> templ" where
  "restored env p = p\<lparr>members := moved (gmtoff env) (templ_mem env (typeid p)) (members p)\<rparr>"

definition templ_ok :: "templ_env \<Rightarrow> templ \<Rightarrow> bool" where
  "templ_ok env p \<longleftrightarrow>
     IsValidType (typeid p) \<and> buf p = BB_new \<and> type_ok (templ_type env (typeid p)) \<and>
     marshallable (templ_type env (typeid p)) (members p) \<and>
     segments_proper (gmtoff env) (templ_mem env (typeid p)) (members p) \<and> length (templ_bytes env p) < 10000000 \<and>
     (case prototype env (typeid p) of
        None \<Rightarrow> False
      | Some q \<Rightarrow> typeid q = typeid p \<and> buf q = BB_new \<and>
          marshallable (templ_type env (typeid p)) (members q) \<and> bits_clear (templ_type env (typeid p)) (members q))"

lemma length_be [simp]: "length (be32 x) = 4" "length (be16 y) = 2"
  by (simp_all add: be32_def be16_def)

lemma length_packet: "length (packet_bytes env p) = 6 + length (templ_bytes env p)"
  by (simp add: packet_bytes_def Let_def)

section \<open>Writing it\<close>

text \<open>Buffers that keep the space to prepend a length, with given readable bytes.\<close>

definition holds :: "byte list \<Rightarrow> net_buffer \<Rightarrow> bool" where
  "holds bs b \<longleftrightarrow> buffer_inv b \<and> 8 \<le> readerIndex b \<and> peek_bytes b = bs"

lemma holds_ReadableBytes: "holds bs b \<Longrightarrow> ReadableBytes b = length bs"
  using length_peek by (auto simp: holds_def)

lemma EnsureWritableBytes_front:
  "EnsureWritableBytes b n = Inr b' \<Longrightarrow> 8 \<le> readerIndex b \<Longrightarrow> 8 \<le> readerIndex b'"
  by (auto simp: EnsureWritableBytes_def MakeSpace_def Let_def res_Inr_iff kCheapPrepend_def split: if_splits)

lemma Ensure_holds:
  assumes "holds bs b"
  obtains b' where "EnsureWritableBytes b n = Inr b'" "holds bs b'"
  using EnsureWritableBytes_ok [of b n] EnsureWritableBytes_front assms unfolding holds_def by metis

lemma Append_holds:
  assumes "holds bs b"
  obtains b' where "Append b xs = Inr b'" "holds (bs @ xs) b'"
proof -
  have b: "buffer_inv b" "8 \<le> readerIndex b" "peek_bytes b = bs" using assms by (simp_all add: holds_def)
  obtain b' where b': "Append b xs = Inr b'" "buffer_inv b'" "peek_bytes b' = bs @ xs"
    using Append_ok [OF b(1), of xs] b(3) by auto
  have "8 \<le> readerIndex b'"
    using b'(1) EnsureWritableBytes_front [OF _ b(2)] by (auto simp: Append_def res_Inr_iff)
  with b' that show thesis by (simp add: holds_def)
qed

lemma Prepend_holds:
  assumes "holds bs b"
  obtains b' where "Prepend b (be32 x) = Inr b'" "buffer_inv b'" "peek_bytes b' = be32 x @ bs"
  using Prepend_ok [of b "be32 x"] assms by (auto simp: holds_def PrependableBytes_def)

lemma holds_init: "holds [] Buffer_init"
  by (simp add: holds_def buffer_inv_init peek_bytes_def ReadableBytes_def) (simp add: Buffer_init_def kCheapPrepend_def)

lemma holds_RetrieveAll: "buffer_inv b \<Longrightarrow> holds [] (RetrieveAll b)"
  by (simp add: holds_def RetrieveAll_def buffer_inv_def peek_bytes_def ReadableBytes_def kCheapPrepend_def)

lemma Marshal_ok:
  assumes "templ_ok env p"
  obtains p1 where "Marshal env p = Inr p1" "typeid p1 = typeid p" "storage (buf p1) = templ_bytes env p"
proof -
  have ok: "buf p = BB_new" "type_ok (templ_type env (typeid p))" "marshallable (templ_type env (typeid p)) (members p)"
    "length (templ_bytes env p) < 10000000"
    using assms by (simp_all add: templ_ok_def)
  have "room (templ_bytes env p) BB_new" using ok(4) by (simp add: room_def BB_new_def)
  then have "marshal (templ_type env (typeid p)) (members p) BB_new = Inr (put_end (templ_bytes env p) BB_new)"
    using puts_encode [OF ok(2,3)] unfolding puts_def templ_bytes_def by blast
  then have "Marshal env p = Inr (p\<lparr>buf := put_end (templ_bytes env p) BB_new\<rparr>)"
    by (simp add: Marshal_def ok(1))
  then show thesis using that by (simp add: BB_new_def)
qed

lemma SinglePacket_ok:
  assumes t: "buffer_inv t" and p: "typeid p1 = typeid p" "storage (buf p1) = templ_bytes env p"
  obtains t1 where "SinglePacketFillEmptyBuffer (RetrieveAll t) p1 = Inr t1" "buffer_inv t1" "peek_bytes t1 = packet_bytes env p"
proof -
  let ?c = "templ_bytes env p"
  note e = holds_RetrieveAll [OF t]
  obtain b1 where b1: "AppendInt16 (RetrieveAll t) (of_nat (typeid p1)) = Inr b1" "holds (be16 (of_nat (typeid p))) b1"
    using Append_holds [OF e] p(1) by (auto simp: AppendInt16_def)
  obtain b2 where b2: "EnsureWritableBytes b1 (length ?c) = Inr b2" "holds (be16 (of_nat (typeid p))) b2"
    using Ensure_holds [OF b1(2)] by metis
  obtain b3 where b3: "Append b2 ?c = Inr b3" "holds (be16 (of_nat (typeid p)) @ ?c) b3"
    using Append_holds [OF b2(2)] by metis
  let ?fill = "if length ?c \<noteq> 0 then bindr (EnsureWritableBytes b1 (length ?c)) (\<lambda>b2. Append b2 ?c) else Inr b1"
  obtain b4 where b4: "?fill = Inr b4" "holds (be16 (of_nat (typeid p)) @ ?c) b4"
  proof (cases "length ?c = 0")
    case True
    then show thesis using that b1(2) by simp
  next
    case False
    then show thesis using that b2(1) b3 by simp
  qed
  have r: "ReadableBytes b4 = 2 + length ?c" using holds_ReadableBytes [OF b4(2)] by simp
  obtain b5 where b5: "Prepend b4 (be32 (of_nat (ReadableBytes b4))) = Inr b5" "buffer_inv b5"
    "peek_bytes b5 = be32 (of_nat (ReadableBytes b4)) @ be16 (of_nat (typeid p)) @ ?c"
    using Prepend_holds [OF b4(2)] by metis
  have "SinglePacketFillEmptyBuffer (RetrieveAll t) p1 = Inr b5"
    by (simp only: SinglePacketFillEmptyBuffer_def Let_def p(2) holds_ReadableBytes [OF e] list.size b1(1) b4(1) r
        b5(1) [unfolded r] assertx_simps bindr_simps simp_thms)
  moreover have "peek_bytes b5 = packet_bytes env p" using b5(3) r by (simp add: packet_bytes_def Let_def)
  ultimately show thesis using that b5(2) by blast
qed

lemma assemble_loop_ok:
  assumes "list_all (templ_ok env) ps" "buffer_inv t" "holds bs b"
  shows "\<exists>b'. assemble_loop env ps t b n = Inr (True, b', n + length (concat (List.map (packet_bytes env) ps))) \<and>
     holds (bs @ concat (List.map (packet_bytes env) ps)) b'"
  using assms
proof (induction ps arbitrary: t b bs n)
  case (Cons p ps)
  obtain p1 where p1: "Marshal env p = Inr p1" "typeid p1 = typeid p" "storage (buf p1) = templ_bytes env p"
    using Marshal_ok Cons.prems(1) by auto
  obtain t1 where t1: "SinglePacketFillEmptyBuffer (RetrieveAll t) p1 = Inr t1" "buffer_inv t1" "peek_bytes t1 = packet_bytes env p"
    using SinglePacket_ok [OF Cons.prems(2) p1(2,3)] by blast
  obtain b1 where b1: "Append b (packet_bytes env p) = Inr b1" "holds (bs @ packet_bytes env p) b1"
    using Append_holds [OF Cons.prems(3)] by metis
  have ps: "list_all (templ_ok env) ps" using Cons.prems(1) by simp
  have "ReadableBytes t1 = length (packet_bytes env p)" using length_peek [OF t1(2)] t1(3) by simp
  with Cons.IH [OF ps t1(2) b1(2), of "n + ReadableBytes t1"] show ?case
    by (simp add: p1(1) t1(1,3) b1(1) add.assoc)
qed simp

lemma Assembling_ok:
  assumes ps: "list_all (templ_ok env) ps" and b: "holds [] b"
  obtains b' where "AssemblingEmptyBuffer env b ps = Inr (TPC_SUCCESS, b')" "buffer_inv b'" "peek_bytes b' = file_bytes env ps"
proof -
  let ?c = "file_content env (templ_version env) (of_nat (length ps)) ps" and ?cs = "concat (List.map (packet_bytes env) ps)"
  obtain b1 where b1: "AppendInt32 b (templ_version env) = Inr b1" "holds (be32 (templ_version env)) b1"
    using Append_holds [OF b] by (auto simp: AppendInt32_def)
  obtain b2 where b2: "AppendInt32 b1 (of_nat (length ps)) = Inr b2" "holds (be32 (templ_version env) @ be32 (of_nat (length ps))) b2"
    using Append_holds [OF b1(2)] by (auto simp: AppendInt32_def)
  obtain b3 where b3: "assemble_loop env ps Buffer_init b2 0 = Inr (True, b3, length ?cs)" "holds (?c) b3"
    using assemble_loop_ok [OF ps buffer_inv_init b2(2), of 0] by (auto simp: file_content_def)
  have p3: "peek_bytes b3 = ?c" using b3(2) by (simp add: holds_def)
  obtain b4 where b4: "AppendInt32 b3 (adler32 env (peek_bytes b3)) = Inr b4"
    "holds (?c @ be32 (adler32 env (?c))) b4"
    using Append_holds [OF b3(2)] p3 by (auto simp: AppendInt32_def)
  have r: "ReadableBytes b4 = length (?c) + 4" using holds_ReadableBytes [OF b4(2)] by simp
  then have r': "ReadableBytes b4 = 4 + 4 + length ?cs + 4" by (simp add: file_content_def)
  obtain b5 where b5: "Prepend b4 (be32 (of_nat (ReadableBytes b4))) = Inr b5" "buffer_inv b5"
    "peek_bytes b5 = be32 (of_nat (ReadableBytes b4)) @ ?c @ be32 (adler32 env (?c))"
    using Prepend_holds [OF b4(2)] by metis
  have "AssemblingEmptyBuffer env b ps = Inr (TPC_SUCCESS, b5)"
    using holds_ReadableBytes [OF b] b1(1) b2(1) b3(1) b4(1) r' b5(1) by (simp add: AssemblingEmptyBuffer_def)
  moreover have "peek_bytes b5 = file_bytes env ps" using b5(3) r by (simp add: file_bytes_def file_with_def Let_def)
  ultimately show thesis using that b5(2) by blast
qed

section \<open>Reading it\<close>

lemma mem_take_at: "m = xs @ ys @ zs \<Longrightarrow> off = length xs \<Longrightarrow> n = length ys \<Longrightarrow> mem_take off n m = Inr ys"
  by (simp add: mem_take_def)

lemma AsInt32_at: "m = xs @ be32 w @ zs \<Longrightarrow> off = length xs \<Longrightarrow> AsInt32 off m = Inr (sint w)"
  using mem_take_at [of m xs "be32 w" zs off 4] host32_be32 [of w "[]"] by (simp add: AsInt32_def)

lemma AsInt16_at: "m = xs @ be16 w @ zs \<Longrightarrow> off = length xs \<Longrightarrow> AsInt16 off m = Inr (sint w)"
  using mem_take_at [of m xs "be16 w" zs off 2] host16_be16 [of w "[]"] by (simp add: AsInt16_def)

lemma sint_small: "n < 2147483648 \<Longrightarrow> sint (of_nat n :: 32 word) = int n"
  using sint_sbintrunc' [of "int n", where 'a = 32] by (simp add: signed_take_bit_int_eq_self)

lemma uint16_type: "IsValidType t \<Longrightarrow> uint16_of (sint (of_nat t :: 16 word)) = t"
  using sint_sbintrunc' [of "int t", where 'a = 16]
  by (simp add: uint16_of_def IsValidType_def TEMPL_TYPE_MAX_def signed_take_bit_int_eq_self)

lemma parse_packet_ok:
  assumes p: "templ_ok env p" and m: "m = xs @ packet_bytes env p @ zs"
  shows "AsInt32 (length xs) m = Inr (int (2 + length (templ_bytes env p)))"
    and "parse_packet env (length xs) (int (2 + length (templ_bytes env p))) m = Inr (Inr (restored env p))"
proof -
  let ?c = "templ_bytes env p" and ?t = "templ_type env (typeid p)"
  let ?len = "be32 (of_nat (2 + length ?c))" and ?tb = "be16 (of_nat (typeid p))"
  have ok: "IsValidType (typeid p)" "buf p = BB_new" "type_ok ?t" "marshallable ?t (members p)" "length ?c < 10000000"
    "segments_proper (gmtoff env) (templ_mem env (typeid p)) (members p)"
    using p by (simp_all add: templ_ok_def)
  have m1: "m = xs @ ?len @ ?tb @ ?c @ zs" using m by (simp add: packet_bytes_def Let_def)
  then show "AsInt32 (length xs) m = Inr (int (2 + length ?c))"
    using AsInt32_at [of m xs "of_nat (2 + length ?c)" "?tb @ ?c @ zs"] sint_small [of "2 + length ?c"] ok(5) by simp
  have t: "AsInt16 (length xs + 4) m = Inr (sint (of_nat (typeid p) :: 16 word))"
    by (rule AsInt16_at [of m "xs @ ?len"]) (use m1 in simp_all)
  have d: "mem_take (length xs + 6) (length ?c) m = Inr ?c"
    by (rule mem_take_at [of m "xs @ ?len @ ?tb" ?c zs]) (use m1 in simp_all)
  obtain q where q: "prototype env (typeid p) = Some q" "typeid q = typeid p" "buf q = BB_new"
    "marshallable ?t (members q)" "bits_clear ?t (members q)"
    using p by (auto simp: templ_ok_def split: option.splits)
  have four: "4 \<le> length ?c"
    using ok(4) by (auto simp: templ_bytes_def templ_type_def templ_mem_def list_all2_Cons1 length_le_bytes)
  then have h: "mem_take (length xs + 6) 4 m = Inr (take 4 ?c)"
    by (intro mem_take_at [of m "xs @ ?len @ ?tb" _ "drop 4 ?c @ zs"]) (use m1 in \<open>simp_all flip: append_assoc\<close>)
  let ?b = "\<lparr>rpos = 0, wpos = length ?c, bitpos = 8, curbitval = 0, storage = ?c\<rparr>"
  have a: "AppendBuffer ?c q = Inr (q\<lparr>buf := ?b\<rparr>)"
    using four by (auto simp: AppendBuffer_def append_raw_def q(3) BB_new_def write_at_def Let_def)
  have h1: "ahead (?c @ []) ?b" using ok(5) by (simp add: ahead_def)
  have g: "gets ?c (unmarshal_mem (gmtoff env) (templ_mem env (typeid p)) (members q)) (members (restored env p))"
    using gets_mem [OF ok(3,4) [unfolded templ_type_def] q(4,5) [unfolded templ_type_def] ok(6)]
    by (simp add: templ_bytes_def templ_type_def restored_def)
  have "unmarshal_mem (gmtoff env) (templ_mem env (typeid p)) (members q) ?b = Inr (members (restored env p), skip (length ?c) ?b)"
    using g h1 unfolding gets_def by blast
  then have u: "Unmarshal env (q\<lparr>buf := ?b\<rparr>) = Inr (q\<lparr>members := members (restored env p), buf := skip (length ?c) ?b\<rparr>)"
    by (simp add: Unmarshal_def q(2))
  have f: "FreeContent (q\<lparr>members := members (restored env p), buf := skip (length ?c) ?b\<rparr>) = restored env p"
    using q(2) ok(2) by (cases p, cases q) (simp add: FreeContent_def restored_def)
  have "nat (int (2 + length ?c) - 2) = length ?c" by simp
  then show "parse_packet env (length xs) (int (2 + length ?c)) m = Inr (Inr (restored env p))"
    using uint16_type [OF ok(1)] ok(1) by (simp add: parse_packet_def t CreatePacket_def q(1) h d a u f Let_def)
qed

lemma Parse_ok:
  assumes "list_all (templ_ok env) ps" "m = xs @ concat (List.map (packet_bytes env) ps) @ zs"
  shows "Parse env (length xs) k n (int (length (concat (List.map (packet_bytes env) ps)))) m vec
    = assertx (n + int (length ps) = k) (Inr (TPC_SUCCESS, vec @ List.map (restored env) ps))"
  using assms
proof (induction ps arbitrary: xs n vec)
  case Nil
  then show ?case by (simp add: Parse.simps)
next
  case (Cons p ps)
  let ?c = "templ_bytes env p" and ?rest = "concat (List.map (packet_bytes env) ps)"
  have p: "templ_ok env p" and ps: "list_all (templ_ok env) ps" using Cons.prems(1) by simp_all
  have m: "m = xs @ packet_bytes env p @ ?rest @ zs" using Cons.prems(2) by simp
  note ok = parse_packet_ok [OF p m]
  have l: "int (length (concat (List.map (packet_bytes env) (p # ps)))) = int (6 + length ?c) + int (length ?rest)"
    by (simp add: length_packet)
  have "Parse env (length (xs @ packet_bytes env p)) k (n + 1) (int (length ?rest)) m (vec @ [restored env p])
      = assertx (n + 1 + int (length ps) = k) (Inr (TPC_SUCCESS, (vec @ [restored env p]) @ List.map (restored env) ps))"
    by (rule Cons.IH [OF ps]) (use m in simp)
  then have next_step: "Parse env (length xs + 4 + nat (int (2 + length ?c))) k (n + 1)
      (int (6 + length ?c) + int (length ?rest) - (4 + int (2 + length ?c))) m (vec @ [restored env p])
      = assertx (n + int (length (p # ps)) = k) (Inr (TPC_SUCCESS, vec @ restored env p # List.map (restored env) ps))"
    by (simp add: length_packet nat_add_distrib ac_simps)
  show ?case unfolding l
    by (subst Parse.simps) (simp only: ok bindr_simps sum.case next_step if_False, simp)
qed

lemma ParseBuffer_with:
  assumes ps: "list_all (templ_ok env) ps" and b: "buffer_inv b" "peek_bytes b = file_with env v n ps"
    and small: "length (file_with env v n ps) < 2147483648"
  shows "ParseBuffer env b =
     (if v \<noteq> templ_version env then Inr (TPC_VERSION_ERROR, [])
      else assertx (n = of_nat (length ps)) (Inr (TPC_SUCCESS, List.map (restored env) ps)))"
proof -
  let ?c = "file_content env v n ps" and ?cs = "concat (List.map (packet_bytes env) ps)"
  let ?len = "be32 (of_nat (length ?c + 4))" and ?sum = "be32 (adler32 env ?c)"
  have f: "file_with env v n ps = ?len @ ?c @ ?sum" by (simp add: file_with_def Let_def)
  have lc: "length ?c = 8 + length ?cs" by (simp add: file_content_def)
  have r: "ReadableBytes b = length ?c + 8" using length_peek [OF b(1)] b(2) f by simp
  obtain zs where zs: "mem_of b = file_with env v n ps @ zs"
    using b(2) append_take_drop_id [of "ReadableBytes b" "mem_of b"] by (metis mem_of_def peek_bytes_def)
  have m: "drop 4 (mem_of b) = ?c @ ?sum @ zs" using zs f by simp
  have len: "sint (of_nat (length ?c + 4) :: 32 word) = int (length ?c + 4)"
    by (rule sint_small) (use small f in simp)
  have pk: "PeekInt32 b = Inr (of_nat (length ?c + 4))"
    using r host32_be32 [of "of_nat (length ?c + 4)" "?c @ ?sum"] by (simp add: PeekInt32_def b(2) f)
  have e: "AsInt32 (nat (int (length ?c + 4) - 4)) (?c @ ?sum @ zs) = Inr (sint (adler32 env ?c))"
    by (rule AsInt32_at) simp_all
  have c: "mem_take 0 (nat (int (length ?c + 4) - 4)) (?c @ ?sum @ zs) = Inr ?c"
    by (rule mem_take_at [of _ "[]"]) simp_all
  have ver: "AsInt32 0 (?c @ ?sum @ zs) = Inr (sint v)"
    by (rule AsInt32_at [of _ "[]"]) (simp_all add: file_content_def)
  have "length ps \<le> length ?cs"
    by (induction ps) (simp_all add: length_packet)
  then have n: "sint (of_nat (length ps) :: 32 word) = int (length ps)"
    by (intro sint_small) (use small f lc in simp)
  have cnt: "(0 + int (length ps) = sint n) = (n = of_nat (length ps))"
  proof
    assume "0 + int (length ps) = sint n"
    then have "sint n = sint (of_nat (length ps) :: 32 word)" unfolding n by simp
    then show "n = of_nat (length ps)" by (rule signed_word_eqI)
  qed (simp add: n)
  have k: "AsInt32 4 (?c @ ?sum @ zs) = Inr (sint n)"
    by (rule AsInt32_at [of _ "be32 v"]) (simp_all add: file_content_def)
  have "Parse env (length (be32 v @ be32 n)) (sint n) 0 (int (length ?cs)) (?c @ ?sum @ zs) []
      = assertx (0 + int (length ps) = sint n) (Inr (TPC_SUCCESS, [] @ List.map (restored env) ps))"
    by (rule Parse_ok [OF ps]) (simp add: file_content_def)
  then have p: "Parse env 8 (sint n) 0 (int (length ?c + 4) - 12) (?c @ ?sum @ zs) []
      = assertx (n = of_nat (length ps)) (Inr (TPC_SUCCESS, List.map (restored env) ps))"
    unfolding cnt by (simp add: lc)
  have "\<not> int (length ?c + 4) < 12" "\<not> ReadableBytes b < 12 + 4" using lc r by simp_all
  then have "ParseBuffer env b = (if sint v \<noteq> sint (templ_version env) then Inr (TPC_VERSION_ERROR, [])
      else bindr (assertx (n = of_nat (length ps)) (Inr (TPC_SUCCESS, List.map (restored env) ps))) (\<lambda>(code, vec).
        if code \<noteq> TPC_SUCCESS then Inr (TPC_PARSE_ERROR, []) else Inr (TPC_SUCCESS, vec)))"
    by (simp only: ParseBuffer_def pk len m e c ver k p bindr_simps Let_def if_False refl simp_thms)
  moreover have "(sint v = sint (templ_version env)) = (v = templ_version env)" by (auto intro: signed_word_eqI)
  ultimately show ?thesis by (simp add: assertx_def)
qed

lemma ParseBuffer_ok:
  assumes "list_all (templ_ok env) ps" "buffer_inv b" "peek_bytes b = file_bytes env ps" "length (file_bytes env ps) < 2147483648"
  shows "ParseBuffer env b = Inr (TPC_SUCCESS, List.map (restored env) ps)"
  using ParseBuffer_with [OF assms [unfolded file_bytes_def]] by simp

text \<open>What \<open>Parse\<close> accepts: as many templates as announced, of valid types.\<close>

lemma Unmarshal_type: "bindr (AppendBuffer data q) (Unmarshal env) = Inr p1 \<Longrightarrow> typeid p1 = typeid q"
  by (auto simp: AppendBuffer_def Unmarshal_def bindr_Inr_iff)

lemma parse_packet_code: "parse_packet env off len m = Inr (Inl code) \<Longrightarrow> code \<noteq> TPC_SUCCESS"
proof -
  assume r: "parse_packet env off len m = Inr (Inl code)"
  obtain t where t: "AsInt16 (off + 4) m = Inr t" using r by (auto simp: parse_packet_def bindr_Inr_iff)
  show ?thesis
  proof (cases "IsValidType (uint16_of t) \<and> prototype env (uint16_of t) \<noteq> None")
    case True
    then obtain q where q: "prototype env (uint16_of t) = Some q" "IsValidType (uint16_of t)" by auto
    obtain data where d: "(case bindr (AppendBuffer data q) (Unmarshal env) of
        Inl Thrown \<Rightarrow> Inr (Inl TPC_PACKET_UNMARSHAL_ERROR) | Inl e \<Rightarrow> Inl e | Inr p1 \<Rightarrow> Inr (Inr (FreeContent p1))) = Inr (Inl code)"
      using r q by (auto simp: parse_packet_def CreatePacket_def t Let_def bindr_Inr_iff)
    then show ?thesis by (cases "bindr (AppendBuffer data q) (Unmarshal env)") (auto split: abort.splits)
  next
    case False
    with r show ?thesis by (auto simp: parse_packet_def CreatePacket_def t Let_def split: if_splits option.splits)
  qed
qed

lemma parse_packet_type:
  assumes proto: "\<And>t q. prototype env t = Some q \<Longrightarrow> typeid q = t" and r: "parse_packet env off len m = Inr (Inr p)"
  shows "IsValidType (typeid p) \<and> buf p = BB_new"
proof -
  obtain t where t: "AsInt16 (off + 4) m = Inr t" using r by (auto simp: parse_packet_def bindr_Inr_iff)
  have v: "IsValidType (uint16_of t)" using r by (auto simp: parse_packet_def t Let_def split: if_splits)
  obtain q where q: "prototype env (uint16_of t) = Some q"
    using r v by (auto simp: parse_packet_def CreatePacket_def t Let_def split: option.splits)
  obtain data where d: "(case bindr (AppendBuffer data q) (Unmarshal env) of
      Inl Thrown \<Rightarrow> Inr (Inl TPC_PACKET_UNMARSHAL_ERROR) | Inl e \<Rightarrow> Inl e | Inr p1 \<Rightarrow> Inr (Inr (FreeContent p1))) = Inr (Inr p)"
    using r v by (auto simp: parse_packet_def CreatePacket_def t q Let_def bindr_Inr_iff)
  then obtain p1 where "bindr (AppendBuffer data q) (Unmarshal env) = Inr p1" "p = FreeContent p1"
    by (cases "bindr (AppendBuffer data q) (Unmarshal env)") (auto split: abort.splits)
  with Unmarshal_type proto [OF q] v show ?thesis by (auto simp: FreeContent_def)
qed

lemma Parse_accepts:
  assumes proto: "\<And>t q. prototype env t = Some q \<Longrightarrow> typeid q = t"
  shows "Parse env off k n len m vec = Inr (TPC_SUCCESS, ps) \<Longrightarrow>
     \<exists>qs. ps = vec @ qs \<and> n + int (length qs) = k \<and> list_all (\<lambda>p. IsValidType (typeid p) \<and> buf p = BB_new) qs"
proof (induction "nat len" arbitrary: off n len vec rule: less_induct)
  case less
  note run = less.prems [unfolded Parse.simps [of env off k n len m vec]]
  show ?case
  proof (cases "len \<le> 0")
    case True
    with run show ?thesis by (auto simp: assertx_Inr_iff)
  next
    case False
    then obtain l where l: "AsInt32 off m = Inr l" using run by (auto simp: bindr_Inr_iff)
    then have big: "\<not> l < 2" using run False by auto
    then obtain r where r: "parse_packet env off l m = Inr r" using run False l by (auto simp: bindr_Inr_iff)
    show ?thesis
    proof (cases r)
      case (Inl code)
      have "code \<noteq> TPC_SUCCESS" using r Inl parse_packet_code by blast
      with run False l big r Inl show ?thesis by simp
    next
      case (Inr p)
      have "Parse env (off + 4 + nat l) k (n + 1) (len - (4 + l)) m (vec @ [p]) = Inr (TPC_SUCCESS, ps)"
        using run False l big r Inr by simp
      moreover have "nat (len - (4 + l)) < nat len" using False big by simp
      ultimately obtain qs where "ps = (vec @ [p]) @ qs" "n + 1 + int (length qs) = k"
        "list_all (\<lambda>p. IsValidType (typeid p) \<and> buf p = BB_new) qs"
        using less.hyps by blast
      with parse_packet_type [OF proto] r Inr show ?thesis by (intro exI [of _ "p # qs"]) auto
    qed
  qed
qed

end
