(* ===== verification/TemplManager.thy ===== *)
theory TemplManager
  imports TemplCodec
begin

text \<open>
  \<open>gs/template/data_templ\<close>: the manager
  that writes templates to a file, reads them back and answers queries (\<open>templ_manager.cpp\<close>).
\<close>

section \<open>The manager of data templates\<close>

record templ_man =
  id_query_map :: "(int \<times> templ) list"
  specific_type_query_map :: "nat \<Rightarrow> templ list"
  global_config_templ :: "templ option"

definition Man_new :: templ_man where
  "Man_new = \<lparr>id_query_map = [], specific_type_query_map = (\<lambda>_. []), global_config_templ = None\<rparr>"

definition InsertToSpecificMap :: "templ \<Rightarrow> templ_man \<Rightarrow> templ_man" where
  "InsertToSpecificMap p m =
     m\<lparr>specific_type_query_map := (specific_type_query_map m)(typeid p := specific_type_query_map m (typeid p) @ [p])\<rparr>"

text \<open>The templates of a file go into the maps one by one; invalid and repeated ones abort.\<close>

fun insert_templs :: "templ_env \<Rightarrow> templ list \<Rightarrow> templ_man \<Rightarrow> templ_man res" where
  "insert_templs env [] m = Inr m"
| "insert_templs env (p # ps) m =
     assertx (CheckDataValidity env p)
      (assertx (templ_id p \<notin> fst ` set (id_query_map m))
        (insert_templs env ps (InsertToSpecificMap p (m\<lparr>id_query_map := sset_insert fst (templ_id p, p) (id_query_map m)\<rparr>))))"

definition ReadFromBuffer :: "templ_env \<Rightarrow> net_buffer \<Rightarrow> templ_man \<Rightarrow> (bool \<times> templ_man) res" where
  "ReadFromBuffer env b m =
     bindr (ParseBuffer env b) (\<lambda>(code, vec).
       if code \<noteq> TPC_SUCCESS then Inr (False, m)
       else bindr (insert_templs env vec m) (\<lambda>m1.
         case specific_type_query_map m1 TEMPL_TYPE_GLOBAL_CONFIG of
           [g] \<Rightarrow> Inr (True, m1\<lparr>global_config_templ := Some g\<rparr>)
         | _ \<Rightarrow> Inl AssertFail))"

text \<open>\<open>WriteToFile\<close>: whether it wrote, and the bytes of the file; opening and writing it succeed.\<close>

definition WriteToFile :: "templ_env \<Rightarrow> templ list \<Rightarrow> (bool \<times> byte list) res" where
  "WriteToFile env ps =
     (if \<not> list_all (CheckDataValidity env) ps then Inr (False, [])
      else bindr (AssemblingEmptyBuffer env Buffer_init ps) (\<lambda>(code, b).
        if code \<noteq> TPC_SUCCESS then Inr (False, []) else Inr (True, peek_bytes b)))"

definition QueryBaseDataTempl :: "int \<Rightarrow> templ_man \<Rightarrow> templ option" where
  "QueryBaseDataTempl i m = map_of (id_query_map m) i"

definition QueryDataTemplByType :: "nat \<Rightarrow> templ_man \<Rightarrow> templ list" where
  "QueryDataTemplByType t m = specific_type_query_map m t"

text \<open>\<open>ReadFromFile\<close>: the bytes of a file are copied into a fresh buffer.\<close>

definition ReadFromFile :: "templ_env \<Rightarrow> byte list \<Rightarrow> templ_man \<Rightarrow> (bool \<times> templ_man) res" where
  "ReadFromFile env bytes m =
     bindr (EnsureWritableBytes Buffer_init (length bytes)) (\<lambda>b.
       ReadFromBuffer env (b\<lparr>bytes_of := write_at (writerIndex b) bytes (bytes_of b), writerIndex := writerIndex b + length bytes\<rparr>) m)"


section \<open>Lemmas\<close>

lemma insert_templs_ok:
  assumes "list_all (CheckDataValidity env) ps" "distinct (List.map templ_id ps)"
    "templ_id ` set ps \<inter> fst ` set (id_query_map m) = {}" "smap_inv (id_query_map m)"
  shows "\<exists>m'. insert_templs env ps m = Inr m' \<and> smap_inv (id_query_map m') \<and>
     set (id_query_map m') = set (id_query_map m) \<union> (\<lambda>p. (templ_id p, p)) ` set ps \<and>
     (\<forall>t. specific_type_query_map m' t = specific_type_query_map m t @ filter (\<lambda>p. typeid p = t) ps) \<and>
     global_config_templ m' = global_config_templ m"
  using assms
proof (induction ps arbitrary: m)
  case (Cons p ps)
  let ?m = "InsertToSpecificMap p (m\<lparr>id_query_map := sset_insert fst (templ_id p, p) (id_query_map m)\<rparr>)"
  have new: "templ_id p \<notin> fst ` set (id_query_map m)" using Cons.prems(3) by auto
  then have s: "set (id_query_map ?m) = insert (templ_id p, p) (set (id_query_map m))"
    by (simp add: InsertToSpecificMap_def set_sset_insert)
  have "\<exists>m'. insert_templs env ps ?m = Inr m' \<and> smap_inv (id_query_map m') \<and>
     set (id_query_map m') = set (id_query_map ?m) \<union> (\<lambda>p. (templ_id p, p)) ` set ps \<and>
     (\<forall>t. specific_type_query_map m' t = specific_type_query_map ?m t @ filter (\<lambda>p. typeid p = t) ps) \<and>
     global_config_templ m' = global_config_templ ?m"
  proof (rule Cons.IH)
    show "templ_id ` set ps \<inter> fst ` set (id_query_map ?m) = {}"
      unfolding s using Cons.prems(2,3) by auto
  qed (use Cons.prems in \<open>simp_all add: InsertToSpecificMap_def\<close>)
  then show ?case using Cons.prems(1) new s by (auto simp: InsertToSpecificMap_def)
qed simp

lemma write_file_buffer:
  assumes "EnsureWritableBytes Buffer_init (length bytes) = Inr b"
  shows "buffer_inv (b\<lparr>bytes_of := write_at (writerIndex b) bytes (bytes_of b), writerIndex := writerIndex b + length bytes\<rparr>)"
    and "peek_bytes (b\<lparr>bytes_of := write_at (writerIndex b) bytes (bytes_of b), writerIndex := writerIndex b + length bytes\<rparr>) = bytes"
proof -
  obtain b' where b': "Append Buffer_init bytes = Inr b'" "holds ([] @ bytes) b'"
    using Append_holds [OF holds_init] by blast
  then show "buffer_inv (b\<lparr>bytes_of := write_at (writerIndex b) bytes (bytes_of b), writerIndex := writerIndex b + length bytes\<rparr>)"
    "peek_bytes (b\<lparr>bytes_of := write_at (writerIndex b) bytes (bytes_of b), writerIndex := writerIndex b + length bytes\<rparr>) = bytes"
    using assms by (simp_all add: Append_def holds_def)
qed

lemma ReadFromFile_parse:
  assumes "\<And>b. buffer_inv b \<Longrightarrow> peek_bytes b = bytes \<Longrightarrow> ParseBuffer env b = r"
  shows "ReadFromFile env bytes m =
     bindr r (\<lambda>(code, vec). if code \<noteq> TPC_SUCCESS then Inr (False, m)
       else bindr (insert_templs env vec m) (\<lambda>m1.
         case specific_type_query_map m1 TEMPL_TYPE_GLOBAL_CONFIG of
           [g] \<Rightarrow> Inr (True, m1\<lparr>global_config_templ := Some g\<rparr>) | _ \<Rightarrow> Inl AssertFail))"
proof -
  obtain b where b: "EnsureWritableBytes Buffer_init (length bytes) = Inr b"
    using EnsureWritableBytes_ok [OF buffer_inv_init] by blast
  show ?thesis
    unfolding ReadFromFile_def b bindr_simps ReadFromBuffer_def assms [OF write_file_buffer [OF b]] ..
qed

text \<open>
  An environment with two registered classes, the configuration with a name and a shop with the
  time in which it is open, for concrete files in a zone eight hours east of Greenwich.
\<close>

definition tiny_env :: templ_env where
  "tiny_env = \<lparr>templ_version = 1,
     prototype = (\<lambda>t. if t = 4 then Some \<lparr>typeid = 4, members = VSeq [VInt 0, VStr []], buf = BB_new\<rparr>
       else if t = 20 then Some \<lparr>typeid = 20, members = VSeq [VInt 0, ts_val TimeSegment_new], buf = BB_new\<rparr> else None),
     member_types = (\<lambda>t. if t = 4 then [Plain TStr] else [Segment]), gmtoff = 28800, CheckDataValidity = (\<lambda>p. True),
     adler32 = (\<lambda>bs. of_nat (length bs))\<rparr>"

definition tiny_templ :: templ where
  "tiny_templ = \<lparr>typeid = 4, members = VSeq [VInt 77, VStr [1, 2]], buf = BB_new\<rparr>"

definition tiny_shop :: "int \<Rightarrow> int \<Rightarrow> templ" where
  "tiny_shop d e = \<lparr>typeid = 20, members = VSeq [VInt 78, ts_val (TimeSegment_new\<lparr>is_valid := 1, start_date := d, end_date := e\<rparr>)], buf = BB_new\<rparr>"

lemmas tiny_defs = tiny_env_def tiny_templ_def tiny_shop_def templ_type_def templ_mem_def templ_bytes_def

lemma tiny_templ_ok: "templ_ok tiny_env tiny_templ"
  by (simp add: templ_ok_def tiny_defs IsValidType_def TEMPL_TYPE_MAX_def encode_string_def)

lemma tiny_restored [simp]: "restored tiny_env tiny_templ = tiny_templ"
  by (simp add: restored_def tiny_defs)

abbreviation opened :: templ where "opened \<equiv> tiny_shop 1400000000 1400003600"

lemma tiny_shop_restored: "restored tiny_env opened = tiny_shop 1399971200 1399974800"
  by (simp add: restored_def tiny_defs CorrectionDateTime_def TimeSegment_new_def i32_id)

lemma opened_fits: "ts_fits (TimeSegment_new\<lparr>is_valid := 1, start_date := 1400000000, end_date := 1400003600\<rparr>)"
  by (simp add: ts_fits_def ts_type_def ts_val_def TimeSegment_new_def list_all2_Cons1)

lemma tiny_shop_ok: "templ_ok tiny_env opened"
proof -
  let ?t = "TimeSegment_new\<lparr>is_valid := 1, start_date := 1400000000, end_date := 1400003600\<rparr>"
  note f = opened_fits
  have n: "marshallable ts_type (ts_val TimeSegment_new)" by (simp add: ts_type_def ts_val_def TimeSegment_new_def list_all2_Cons1)
  have c: "CheckTimeSegment (CorrectionDateTime 28800 ?t)"
    by (simp add: CorrectionDateTime_def TimeSegment_new_def i32_id CheckTimeSegment_iff)
  show ?thesis using f n c ts_length [OF f] ts_type_ok ts_bits_clear [of TimeSegment_new]
    by (simp add: templ_ok_def tiny_defs IsValidType_def TEMPL_TYPE_MAX_def ts_fits_def)
qed

lemma tiny_file_small: "length (file_with tiny_env v n [tiny_templ]) < 2147483648"
  by (simp add: file_with_def file_content_def Let_def length_packet)
    (simp add: tiny_defs encode_string_def)

text \<open>Moving the time segments of a template leaves its id and its type.\<close>

lemma restored_ids:
  assumes "list_all (templ_ok env) ps"
  shows "List.map (templ_id \<circ> restored env) ps = List.map templ_id ps"
proof -
  have "templ_id (restored env p) = templ_id p" if "templ_ok env p" for p
  proof -
    have "\<exists>i vs. members p = VSeq (VInt i # vs)"
      using that by (auto simp: templ_ok_def templ_type_def templ_mem_def list_all2_Cons1)
    then obtain i vs where "members p = VSeq (VInt i # vs)" by blast
    then show ?thesis by (simp add: restored_def templ_mem_def templ_id_def)
  qed
  then show ?thesis using assms by (auto simp: list_all_iff)
qed

lemma restored_map_of:
  assumes "list_all (templ_ok env) ps"
  shows "map_of (List.map (\<lambda>p. (templ_id p, p)) (List.map (restored env) ps)) k
    = map_option (restored env) (map_of (List.map (\<lambda>p. (templ_id p, p)) ps) k)"
  using assms
proof (induction ps)
  case (Cons p ps)
  then show ?case using restored_ids [of env "[p]"] by simp
qed simp

lemma found_by_id:
  assumes "smap_inv m" "set m = (\<lambda>p. (templ_id p, p)) ` set ps" "distinct (List.map templ_id ps)"
  shows "map_of m k = map_of (List.map (\<lambda>p. (templ_id p, p)) ps) k"
proof -
  have "map_of m = map_of (List.map (\<lambda>p. (templ_id p, p)) ps)"
  proof (rule map_of_eqI)
    show "set (List.map fst m) = set (List.map fst (List.map (\<lambda>p. (templ_id p, p)) ps))"
      unfolding set_map assms(2) by (simp add: image_image)
    show "\<forall>k \<in> set (List.map fst m). map_of m k = map_of (List.map (\<lambda>p. (templ_id p, p)) ps) k"
    proof
      fix k assume "k \<in> set (List.map fst m)"
      then obtain p where p: "(k, p) \<in> set m" by auto
      then have "(k, p) \<in> set (List.map (\<lambda>p. (templ_id p, p)) ps)" using assms(2) by simp
      then have "map_of (List.map (\<lambda>p. (templ_id p, p)) ps) k = Some p" using assms(3) by (intro map_of_is_SomeI) (simp_all add: comp_def)
      then show "map_of m k = map_of (List.map (\<lambda>p. (templ_id p, p)) ps) k" using p smap_map_of_iff [OF assms(1)] by simp
    qed
  qed
  then show ?thesis by simp
qed

lemma tiny_bytes: "templ_bytes tiny_env tiny_templ = le_bytes 4 77 @ encode_string [1, 2]"
    "templ_bytes tiny_env opened = le_bytes 4 78 @ encode ts_type (ts_val (TimeSegment_new\<lparr>is_valid := 1, start_date := 1400000000, end_date := 1400003600\<rparr>))"
  by (simp_all add: tiny_defs)

lemma tiny_ids: "templ_id tiny_templ = 77" "templ_id (tiny_shop d e) = 78" "typeid tiny_templ = 4" "typeid (tiny_shop d e) = 20"
  by (simp_all add: templ_id_def tiny_templ_def tiny_shop_def)

section \<open>Properties\<close>

text \<open>
  C9: A template file survives the disk: when a set of valid templates with distinct ids and one
  global configuration is written, the bytes of the file are the documented format (length, version,
  count, packets and checksum), and a new manager that reads them finds by id exactly the templates
  that were written, by type those of the type in file order, and the global configuration: each as
  it was, but for the start and end dates of its valid time segments, which \<open>UnPack\<close> moves by the
  offset of the local time zone. The templates are of registered types whose prototypes have clear
  bits, were not marshalled before and take less than ten million bytes each, and the file stays below
  2 GB (\<open>templ_ok\<close>, the last premise). The templates as read must be valid too, and their time
  segments proper: where they are not, the server that reads the file aborts.
\<close>

theorem templates_survive_file:
  assumes ok: "list_all (templ_ok env) ps" "list_all (CheckDataValidity env) ps"
      "list_all (CheckDataValidity env) (List.map (restored env) ps)" "distinct (List.map templ_id ps)"
    and conf: "filter (\<lambda>p. typeid p = TEMPL_TYPE_GLOBAL_CONFIG) ps = [g]"
    and small: "length (file_bytes env ps) < 2147483648"
  shows "\<exists>b m. WriteToFile env ps = Inr (True, peek_bytes b) \<and> peek_bytes b = file_bytes env ps \<and>
     ReadFromFile env (peek_bytes b) Man_new = Inr (True, m) \<and>
     (\<forall>i. QueryBaseDataTempl i m = map_option (restored env) (map_of (List.map (\<lambda>p. (templ_id p, p)) ps) i)) \<and>
     (\<forall>t. QueryDataTemplByType t m = List.map (restored env) (filter (\<lambda>p. typeid p = t) ps)) \<and>
     global_config_templ m = Some (restored env g)"
proof -
  let ?rs = "List.map (restored env) ps"
  obtain b where b: "AssemblingEmptyBuffer env Buffer_init ps = Inr (TPC_SUCCESS, b)" "peek_bytes b = file_bytes env ps"
    using Assembling_ok [OF ok(1) holds_init] by blast
  have d: "distinct (List.map templ_id ?rs)" using ok(4) unfolding list.map_comp restored_ids [OF ok(1)] .
  obtain m where m: "insert_templs env ?rs Man_new = Inr m" "smap_inv (id_query_map m)"
    "set (id_query_map m) = (\<lambda>p. (templ_id p, p)) ` set ?rs" "\<forall>t. specific_type_query_map m t = filter (\<lambda>p. typeid p = t) ?rs"
    using insert_templs_ok [OF ok(3) d, of Man_new] by (auto simp: Man_new_def)
  have f: "filter (\<lambda>p. typeid p = t) ?rs = List.map (restored env) (filter (\<lambda>p. typeid p = t) ps)" for t
    by (simp add: filter_map comp_def restored_def)
  have r: "ReadFromFile env (file_bytes env ps) Man_new = Inr (True, m\<lparr>global_config_templ := Some (restored env g)\<rparr>)"
    using conf by (subst ReadFromFile_parse [OF ParseBuffer_ok [OF ok(1) _ _ small]]) (simp_all add: m(1,4) f)
  have "map_of (id_query_map m) k = map_option (restored env) (map_of (List.map (\<lambda>p. (templ_id p, p)) ps) k)" for k
    using found_by_id [OF m(2,3) d, of k] restored_map_of [OF ok(1), of k] by simp
  with r b m(4) ok(2) f show ?thesis
    by (intro exI [of _ b] exI [of _ "m\<lparr>global_config_templ := Some (restored env g)\<rparr>"])
      (simp add: WriteToFile_def QueryBaseDataTempl_def QueryDataTemplByType_def)
qed

theorem templates_survive_file_witness:
  "\<exists>b m. WriteToFile tiny_env [tiny_templ, opened] = Inr (True, peek_bytes b) \<and>
     ReadFromFile tiny_env (peek_bytes b) Man_new = Inr (True, m) \<and>
     QueryBaseDataTempl 78 m = Some (tiny_shop 1399971200 1399974800) \<and> QueryDataTemplByType 4 m = [tiny_templ]"
proof -
  let ?ps = "[tiny_templ, opened]"
  have small: "length (file_bytes tiny_env ?ps) < 2147483648"
    using ts_length [OF opened_fits]
    by (simp add: file_bytes_def file_with_def file_content_def Let_def length_packet tiny_bytes encode_string_def)
  obtain b m where m: "WriteToFile tiny_env ?ps = Inr (True, peek_bytes b)" "ReadFromFile tiny_env (peek_bytes b) Man_new = Inr (True, m)"
    "\<forall>i. QueryBaseDataTempl i m = map_option (restored tiny_env) (map_of (List.map (\<lambda>p. (templ_id p, p)) ?ps) i)"
    "\<forall>t. QueryDataTemplByType t m = List.map (restored tiny_env) (filter (\<lambda>p. typeid p = t) ?ps)"
    using templates_survive_file [of tiny_env ?ps tiny_templ] small tiny_templ_ok tiny_shop_ok
    by (auto simp: tiny_env_def tiny_templ_def tiny_shop_def templ_id_def TEMPL_TYPE_GLOBAL_CONFIG_def)
  have "QueryBaseDataTempl 78 m = Some (tiny_shop 1399971200 1399974800)" "QueryDataTemplByType 4 m = [tiny_templ]"
    using m(3,4) tiny_shop_restored by (simp_all add: tiny_ids)
  then show ?thesis using m(1,2) by blast
qed

text \<open>
  A file whose checksum is right but whose number of templates is not the number of its packets
  aborts the server that loads it, although the parser has an error code for bad files; a file of
  another version is refused and leaves the manager as it was.
\<close>

theorem wrong_count_aborts:
  assumes "list_all (templ_ok env) ps" "length (file_with env v n ps) < 2147483648"
  shows "ReadFromFile env (file_with env v n ps) m =
     (if v \<noteq> templ_version env then Inr (False, m)
      else if n \<noteq> of_nat (length ps) then Inl AssertFail
      else ReadFromFile env (file_bytes env ps) m)"
proof (cases "v = templ_version env \<and> n = of_nat (length ps)")
  case True
  then show ?thesis by (simp add: file_bytes_def)
next
  case False
  then show ?thesis by (auto simp: ReadFromFile_parse [OF ParseBuffer_with [OF assms(1) _ _ assms(2)]])
qed

theorem wrong_count_aborts_witness:
  "ReadFromFile tiny_env (file_with tiny_env 2 1 [tiny_templ]) Man_new = Inr (False, Man_new) \<and>
   ReadFromFile tiny_env (file_with tiny_env 1 2 [tiny_templ]) Man_new = Inl AssertFail"
proof -
  have ok: "list_all (templ_ok tiny_env) [tiny_templ]" by (simp add: tiny_templ_ok)
  have v: "templ_version tiny_env = 1" by (simp add: tiny_env_def)
  show ?thesis
    using wrong_count_aborts [OF ok tiny_file_small, of 2 1 Man_new] wrong_count_aborts [OF ok tiny_file_small, of 1 2 Man_new]
    by (simp add: v)
qed

text \<open>
  The length in a file is not compared with the size of the file: when it reaches beyond the
  memory of the buffer, the parser reads out of bounds before any check has failed.
\<close>

theorem length_beyond_file_overruns:
  assumes "buffer_inv b" "16 \<le> length (peek_bytes b)" "12 \<le> sint (host32 (peek_bytes b))"
    and "int (length (mem_of b)) < sint (host32 (peek_bytes b)) + 4"
  shows "ParseBuffer env b = Inl OutOfRange"
proof -
  let ?len = "sint (host32 (peek_bytes b))"
  have "\<not> nat (?len - 4) + 4 \<le> length (drop 4 (mem_of b))" using assms(3,4) by simp
  then have "AsInt32 (nat (?len - 4)) (drop 4 (mem_of b)) = Inl OutOfRange" by (simp add: AsInt32_def mem_take_def)
  then show ?thesis
    using assms(2,3) length_peek [OF assms(1)] by (simp add: ParseBuffer_def PeekInt32_def Let_def)
qed

definition short_file :: net_buffer where
  "short_file = \<lparr>bytes_of = replicate 8 0 @ [0, 0, 16, 0] @ replicate 12 0, readerIndex = 8, writerIndex = 24\<rparr>"

theorem length_beyond_file_overruns_witness: "ParseBuffer tiny_env short_file = Inl OutOfRange"
proof (rule length_beyond_file_overruns)
  have p: "peek_bytes short_file = be32 4096 @ replicate 12 0"
    by (simp add: peek_bytes_def ReadableBytes_def short_file_def be32_def)
  then have h: "host32 (peek_bytes short_file) = 4096" by (simp add: host32_be32)
  show "buffer_inv short_file" by (simp add: buffer_inv_def short_file_def kCheapPrepend_def)
  show "16 \<le> length (peek_bytes short_file)" unfolding p by simp
  show "12 \<le> sint (host32 (peek_bytes short_file))" unfolding h by simp
  show "int (length (mem_of short_file)) < sint (host32 (peek_bytes short_file)) + 4"
    unfolding h by (simp add: mem_of_def short_file_def)
qed

text \<open>
  C30: What the parser accepts is checked: the checksum of the content is the stored one, the version
  is the program's, there are as many templates as the header says, and each is of a registered type
  with its packet buffer released.
\<close>

theorem ParseBuffer_checks:
  assumes proto: "\<And>t q. prototype env t = Some q \<Longrightarrow> typeid q = t" and r: "ParseBuffer env b = Inr (TPC_SUCCESS, ps)"
  shows "\<exists>len c. PeekInt32 b = Inr len \<and> 12 \<le> sint len \<and> c = take (nat (sint len - 4)) (drop 4 (mem_of b)) \<and>
     AsInt32 (nat (sint len - 4)) (drop 4 (mem_of b)) = Inr (sint (adler32 env c)) \<and>
     AsInt32 0 (drop 4 (mem_of b)) = Inr (sint (templ_version env)) \<and>
     AsInt32 4 (drop 4 (mem_of b)) = Inr (int (length ps)) \<and>
     list_all (\<lambda>p. IsValidType (typeid p) \<and> buf p = BB_new) ps"
proof -
  obtain w where w: "PeekInt32 b = Inr w" using r by (auto simp: ParseBuffer_def bindr_Inr_iff split: if_splits)
  let ?m = "drop 4 (mem_of b)" and ?n = "nat (sint w - 4)"
  have big: "12 \<le> sint w" using r w by (auto simp: ParseBuffer_def Let_def split: if_splits)
  obtain e where e: "AsInt32 ?n ?m = Inr e"
    using r w big by (auto simp: ParseBuffer_def Let_def bindr_Inr_iff split: if_splits)
  obtain c where c: "mem_take 0 ?n ?m = Inr c"
    using r w big e by (auto simp: ParseBuffer_def Let_def bindr_Inr_iff split: if_splits)
  have s: "e = sint (adler32 env c)" using r w big e c by (auto simp: ParseBuffer_def Let_def split: if_splits)
  obtain v where v: "AsInt32 0 ?m = Inr v" using r w big e c s by (auto simp: ParseBuffer_def Let_def bindr_Inr_iff split: if_splits)
  have v': "v = sint (templ_version env)" using r w big e c s v by (auto simp: ParseBuffer_def Let_def split: if_splits)
  obtain k where k: "AsInt32 4 ?m = Inr k" using r w big e c s v v' by (auto simp: ParseBuffer_def Let_def bindr_Inr_iff split: if_splits)
  have "Parse env 8 k 0 (sint w - 12) ?m [] = Inr (TPC_SUCCESS, ps)"
    using r w big e c s v v' k by (auto simp: ParseBuffer_def Let_def bindr_Inr_iff split: if_splits)
  from Parse_accepts [OF proto this] obtain qs where "ps = qs" "int (length qs) = k"
    "list_all (\<lambda>p. IsValidType (typeid p) \<and> buf p = BB_new) qs" by auto
  with w big e c s v v' k show ?thesis by (auto simp: mem_take_def split: if_splits)
qed

theorem ParseBuffer_checks_witness:
  "\<exists>b. ParseBuffer tiny_env b = Inr (TPC_SUCCESS, [tiny_templ]) \<and> (\<exists>len. PeekInt32 b = Inr len \<and>
     AsInt32 (nat (sint len - 4)) (drop 4 (mem_of b)) =
       Inr (sint (adler32 tiny_env (take (nat (sint len - 4)) (drop 4 (mem_of b))))))"
proof -
  have ok: "list_all (templ_ok tiny_env) [tiny_templ]" by (simp add: tiny_templ_ok)
  have small: "length (file_bytes tiny_env [tiny_templ]) < 2147483648"
    unfolding file_bytes_def by (rule tiny_file_small)
  obtain b where b: "buffer_inv b" "peek_bytes b = file_bytes tiny_env [tiny_templ]"
    using Assembling_ok [OF ok holds_init] by blast
  have run: "ParseBuffer tiny_env b = Inr (TPC_SUCCESS, [tiny_templ])" using ParseBuffer_ok [OF ok b small] by simp
  have pr: "\<And>t q. prototype tiny_env t = Some q \<Longrightarrow> typeid q = t" by (auto simp: tiny_env_def split: if_splits)
  from ParseBuffer_checks [OF pr run] run show ?thesis by blast
qed

end
