(* ===== verification/Targets.thy ===== *)
theory Targets
  imports Prelude Complex_Main
begin

text \<open>
  Whom a skill hits (\<open>skill/utility\<close>: \<open>target_util.cpp\<close>, \<open>range_util.cpp\<close>, \<open>redir_util.cpp\<close>,
  \<open>player_util.cpp\<close>, \<open>util.h\<close>; templates \<open>skill_target\<close>, \<open>skill_range.h\<close>, \<open>redirect.h\<close>): the
  position a skill is cast at, the units in its range there, and the units its effects are
  redirected to.
\<close>

section \<open>Units and draws\<close>

text \<open>
  What is asked of units, by their id (0 is \<open>NULL\<close>). The hit points and their share of the maximum
  are compared in single precision: \<open>hp_float\<close> is the number a float holds for them, divided by the
  maximum or by 1. \<open>draw_between\<close> is the \<open>n\<close>th random number between two bounds.
\<close>

record units =
  IsDead :: "int \<Rightarrow> bool"
  IsDying :: "int \<Rightarrow> bool"
  attackable :: "int \<Rightarrow> bool"
  GetPos :: "int \<Rightarrow> int"
  hp_float :: "int \<Rightarrow> bool \<Rightarrow> rat"
  GetRoleClass :: "int \<Rightarrow> int"
  draw_between :: "nat \<Rightarrow> int \<Rightarrow> int \<Rightarrow> int"

definition Rand :: "units \<Rightarrow> int \<Rightarrow> int \<Rightarrow> nat \<Rightarrow> int \<times> nat" where
  "Rand v lo hi n = (draw_between v n lo hi, n + 1)"

definition IsAlive :: "units \<Rightarrow> int \<Rightarrow> bool" where
  "IsAlive v p \<longleftrightarrow> p \<noteq> 0 \<and> \<not> IsDead v p"

definition CanAct :: "units \<Rightarrow> int \<Rightarrow> bool" where
  "CanAct v p \<longleftrightarrow> p \<noteq> 0 \<and> \<not> IsDead v p \<and> \<not> IsDying v p"

definition CanAttacked :: "units \<Rightarrow> int \<Rightarrow> bool" where
  "CanAttacked v p \<longleftrightarrow> CanAct v p \<and> attackable v p"

definition dead_unit :: "units \<Rightarrow> int \<Rightarrow> bool" where
  "dead_unit v p \<longleftrightarrow> p \<noteq> 0 \<and> IsDead v p"

definition dying_unit :: "units \<Rightarrow> int \<Rightarrow> bool" where
  "dying_unit v p \<longleftrightarrow> p \<noteq> 0 \<and> IsDying v p"

text \<open>\<open>GetValidPlayer\<close>, which \<open>GetAlive\<close>, \<open>GetCanAction\<close>, \<open>GetCanAttacked\<close>, \<open>GetDead\<close> and \<open>GetDying\<close> call.\<close>

definition GetValidPlayer :: "int list \<Rightarrow> (int \<Rightarrow> bool) \<Rightarrow> int list" where
  "GetValidPlayer src f = filter f src"

definition slot :: "int list \<Rightarrow> int \<Rightarrow> int res" where
  "slot ps i = (if 0 \<le> i \<and> nat i < length ps then Inr (ps ! nat i) else Inl OutOfRange)"

definition pos_of :: "units \<Rightarrow> int \<Rightarrow> int res" where
  "pos_of v p = (if p = 0 then Inl NullDeref else Inr (GetPos v p))"

section \<open>Templates\<close>

record skill_target =
  tg_type :: int
  tg_params :: "int list"

record skill_range =
  rg_type :: int
  rg_num :: int
  rg_factor :: int
  rg_max_selected :: int
  rg_chain_param :: int

record redirect =
  rd_type :: int
  rd_num :: int
  rd_max_selected :: int

definition TEAM_MATE :: int where "TEAM_MATE = 0"
definition TARGET_APPOINT :: int where "TARGET_APPOINT = 1"
definition TARGET_RANDOM :: int where "TARGET_RANDOM = 2"
definition TARGET_SEQUENCE :: int where "TARGET_SEQUENCE = 3"
definition TARGET_HP :: int where "TARGET_HP = 4"
definition TARGET_LINE :: int where "TARGET_LINE = 5"
definition TARGET_CLASS :: int where "TARGET_CLASS = 6"
definition TARGET_POSITION :: int where "TARGET_POSITION = 7"
definition TARGET_DEAD :: int where "TARGET_DEAD = 8"
definition TARGET_TYPE_MAX :: int where "TARGET_TYPE_MAX = 9"
definition RANGE_SINGLE :: int where "RANGE_SINGLE = 0"
definition RANGE_RANGE :: int where "RANGE_RANGE = 1"
definition RANGE_ALL :: int where "RANGE_ALL = 2"
definition RANGE_CHAIN :: int where "RANGE_CHAIN = 3"
definition RANGE_LINE :: int where "RANGE_LINE = 4"
definition RANGE_BULLET_LINE :: int where "RANGE_BULLET_LINE = 5"
definition POS_INVALID :: int where "POS_INVALID = - 1"
definition POS_CENTER :: int where "POS_CENTER = 4"
definition LINE_FRONT :: int where "LINE_FRONT = 5"
definition LINE_TWO_FRONT :: int where "LINE_TWO_FRONT = 6"
definition LINE_VMID :: int where "LINE_VMID = 7"
definition LINE_TWO_BACK :: int where "LINE_TWO_BACK = 8"
definition LINE_BACK :: int where "LINE_BACK = 9"
definition LINE_UP :: int where "LINE_UP = 10"
definition LINE_TWO_UP :: int where "LINE_TWO_UP = 11"
definition LINE_HMID :: int where "LINE_HMID = 12"
definition LINE_TWO_DOWN :: int where "LINE_TWO_DOWN = 13"
definition LINE_DOWN :: int where "LINE_DOWN = 14"
definition LINE_RAND_VERTICAL :: int where "LINE_RAND_VERTICAL = 15"
definition LINE_RAND_HORIZONTAL :: int where "LINE_RAND_HORIZONTAL = 16"
definition LINE_RAND_VTWO :: int where "LINE_RAND_VTWO = 17"
definition LINE_RAND_HTWO :: int where "LINE_RAND_HTWO = 18"
definition HP_SCALE_MIN :: int where "HP_SCALE_MIN = 2"
definition HP_SCALE_MAX :: int where "HP_SCALE_MAX = 3"
definition FRONT_ROW :: int where "FRONT_ROW = 0"
definition CLS_MAXCLS_LABEL :: int where "CLS_MAXCLS_LABEL = 16"
definition REDIR_NO :: int where "REDIR_NO = 0"
definition REDIR_CASTER :: int where "REDIR_CASTER = 1"
definition REDIR_RANDOM_MATE :: int where "REDIR_RANDOM_MATE = 2"
definition REDIR_ALL_MATE :: int where "REDIR_ALL_MATE = 3"
definition REDIR_RANDOM_ENEMY :: int where "REDIR_RANDOM_ENEMY = 4"
definition REDIR_ALL_ENEMY :: int where "REDIR_ALL_ENEMY = 5"
definition REDIR_TRIGGER :: int where "REDIR_TRIGGER = 6"

lemmas target_consts = TEAM_MATE_def TARGET_APPOINT_def TARGET_RANDOM_def TARGET_SEQUENCE_def TARGET_HP_def TARGET_LINE_def
  TARGET_CLASS_def TARGET_POSITION_def TARGET_DEAD_def TARGET_TYPE_MAX_def RANGE_SINGLE_def RANGE_RANGE_def RANGE_ALL_def
  RANGE_CHAIN_def RANGE_LINE_def RANGE_BULLET_LINE_def POS_INVALID_def POS_CENTER_def HP_SCALE_MIN_def HP_SCALE_MAX_def
  FRONT_ROW_def CLS_MAXCLS_LABEL_def

lemmas line_consts = LINE_FRONT_def LINE_TWO_FRONT_def LINE_VMID_def LINE_TWO_BACK_def LINE_BACK_def LINE_UP_def LINE_TWO_UP_def
  LINE_HMID_def LINE_TWO_DOWN_def LINE_DOWN_def LINE_RAND_VERTICAL_def LINE_RAND_HORIZONTAL_def LINE_RAND_VTWO_def LINE_RAND_HTWO_def

lemmas redir_consts = REDIR_NO_def REDIR_CASTER_def REDIR_RANDOM_MATE_def REDIR_ALL_MATE_def REDIR_RANDOM_ENEMY_def
  REDIR_ALL_ENEMY_def REDIR_TRIGGER_def

definition target_params_valid :: "skill_target \<Rightarrow> bool" where
  "target_params_valid t =
     (let ps = tg_params t; one = (\<lambda>lo hi. length ps = 1 \<and> lo \<le> ps ! 0 \<and> ps ! 0 \<le> hi)
      in if tg_type t = TARGET_APPOINT then one 0 POS_CENTER
         else if tg_type t = TARGET_HP then one 0 HP_SCALE_MAX
         else if tg_type t = TARGET_LINE then one LINE_FRONT LINE_RAND_HTWO
         else if tg_type t = TARGET_CLASS then ps = [] \<or> - 1 < ps ! 0 \<and> ps ! 0 < CLS_MAXCLS_LABEL
         else if tg_type t = TARGET_POSITION then one FRONT_ROW 1
         else True)"

definition target_valid :: "skill_target \<Rightarrow> bool" where
  "target_valid t \<longleftrightarrow> 0 \<le> tg_type t \<and> tg_type t \<le> TARGET_TYPE_MAX \<and> target_params_valid t"

definition range_valid :: "skill_range \<Rightarrow> bool" where
  "range_valid r \<longleftrightarrow> RANGE_SINGLE \<le> rg_type r \<and> rg_type r \<le> RANGE_BULLET_LINE \<and>
     rg_num r \<ge> 0 \<and> rg_factor r \<ge> 0 \<and> rg_max_selected r \<ge> 0"

definition redirect_valid :: "redirect \<Rightarrow> bool" where
  "redirect_valid r \<longleftrightarrow> REDIR_NO \<le> rd_type r \<and> rd_type r \<le> REDIR_TRIGGER \<and>
     \<not> (rd_num r < 0 \<or> rd_max_selected r < 0 \<or> rd_max_selected r > rd_num r)"

section \<open>Selecting at random\<close>

text \<open>
  \<open>Util::Rand(src, des, num, max, chain, first)\<close>: up to \<open>num\<close> elements, each at most \<open>max\<close> times, in a
  chain never the same one twice in a row. A draw that may not be taken is repeated.
\<close>

partial_function (option) Rand_select ::
  "units \<Rightarrow> int \<Rightarrow> bool \<Rightarrow> int list \<Rightarrow> int list \<Rightarrow> int \<Rightarrow> int \<Rightarrow> nat \<Rightarrow> ((int list \<times> nat) res) option" where
  "Rand_select v max' chain src des num prev n =
     (if num > 0 \<and> length src > (if chain then 1 else 0)
      then let i = draw_between v n 0 (int (length src) - 1)
           in case slot src i of
                Inl e \<Rightarrow> Some (Inl e)
              | Inr selected \<Rightarrow>
                  if int (length (filter (\<lambda>x. x = selected) des)) = max'
                  then Rand_select v max' chain (take (nat i) src @ drop (Suc (nat i)) src) des num prev (n + 1)
                  else if chain \<and> prev = selected then Rand_select v max' chain src des num prev (n + 1)
                  else Rand_select v max' chain src (des @ [selected]) (num - 1) selected (n + 1)
      else Some (Inr (des, n)))"

section \<open>Where a skill is cast\<close>

definition RandPos :: "units \<Rightarrow> int list \<Rightarrow> nat \<Rightarrow> (int \<times> nat) res" where
  "RandPos v ps n =
     (case Rand v 0 (int (length ps) - 1) n of (i, n1) \<Rightarrow>
        bindr (slot ps i) (\<lambda>p. bindr (pos_of v p) (\<lambda>q. Inr (q, n1))))"

definition Random :: "units \<Rightarrow> int list \<Rightarrow> nat \<Rightarrow> (int \<times> nat) res" where
  "Random v ps n =
     (let attack = GetValidPlayer ps (CanAttacked v); action = GetValidPlayer ps (CanAct v)
      in if attack \<noteq> [] then RandPos v attack n
         else if action \<noteq> [] then RandPos v action n
         else Inr (POS_INVALID, n))"

definition Position :: "units \<Rightarrow> int list \<Rightarrow> int list \<Rightarrow> nat \<Rightarrow> (int \<times> nat) res" where
  "Position v params ps n =
     bindr (slot params 0) (\<lambda>p0. let end' = (if p0 = FRONT_ROW then 3 else 0) in
     bindr (slot ps end') (\<lambda>last.
       let row = take (nat end') ps @ drop (Suc (nat end')) ps;
           action = GetValidPlayer row (CanAct v); attack = GetValidPlayer action (CanAttacked v)
       in if action = [] then Inr (if CanAct v last then end' else POS_INVALID, n)
          else if attack \<noteq> [] then RandPos v attack n else RandPos v action n))"

definition Sequence :: "units \<Rightarrow> int list \<Rightarrow> int res" where
  "Sequence v ps = (case GetValidPlayer ps (CanAct v) of [] \<Rightarrow> Inr POS_INVALID | p # _ \<Rightarrow> pos_of v p)"

text \<open>The loop of \<open>HP\<close>: the place whose unit has the least or most hit points, or share of them.\<close>

definition FLT_MAX :: rat where "FLT_MAX = (2 ^ 24 - 1) * 2 ^ 104"

fun HP_loop :: "units \<Rightarrow> int \<Rightarrow> (int \<Rightarrow> bool) \<Rightarrow> int list \<Rightarrow> int \<Rightarrow> rat \<Rightarrow> int \<Rightarrow> int" where
  "HP_loop v t f [] i best pos = pos"
| "HP_loop v t f (p # ps) i best pos =
     (let value = hp_float v p (\<not> t < HP_SCALE_MIN)
      in if f p \<and> (if t mod 2 = 0 then value < best else value > best)
         then HP_loop v t f ps (i + 1) value i
         else HP_loop v t f ps (i + 1) best pos)"

definition HP :: "units \<Rightarrow> int \<Rightarrow> int list \<Rightarrow> int list \<Rightarrow> int res" where
  "HP v team params ps =
     bindr (slot params 0) (\<lambda>t. Inr (HP_loop v t (if team = TEAM_MATE then IsAlive v else CanAct v) ps 0
       (if t mod 2 = 0 then FLT_MAX else 0) POS_INVALID))"

definition Class :: "units \<Rightarrow> int list \<Rightarrow> int list \<Rightarrow> nat \<Rightarrow> (int \<times> nat) res" where
  "Class v params ps n =
     (let action = GetValidPlayer ps (CanAct v); attack = GetValidPlayer action (CanAttacked v)
      in if action = [] then Inr (POS_INVALID, n)
         else case filter (\<lambda>p. GetRoleClass v p \<in> set params) action of
                p # _ \<Rightarrow> bindr (pos_of v p) (\<lambda>q. Inr (q, n))
              | [] \<Rightarrow> if attack \<noteq> [] then RandPos v attack n else RandPos v action n)"

text \<open>The lines, over a vector with a place for each of the four positions.\<close>

definition alive_at :: "units \<Rightarrow> int list \<Rightarrow> nat \<Rightarrow> bool" where
  "alive_at v ps i = IsAlive v (ps ! i)"

definition LineFront :: "units \<Rightarrow> int list \<Rightarrow> int" where
  "LineFront v ps =
     (if alive_at v ps 0 \<or> alive_at v ps 1 then LINE_FRONT
      else if alive_at v ps 2 \<or> alive_at v ps 3 then LINE_BACK else POS_INVALID)"

definition LineBack :: "units \<Rightarrow> int list \<Rightarrow> int" where
  "LineBack v ps =
     (if alive_at v ps 2 \<or> alive_at v ps 3 then LINE_BACK
      else if alive_at v ps 0 \<or> alive_at v ps 1 then LINE_FRONT else POS_INVALID)"

definition LineVMid :: "units \<Rightarrow> int list \<Rightarrow> nat \<Rightarrow> int \<times> nat" where
  "LineVMid v ps n =
     (if alive_at v ps 1 \<or> alive_at v ps 2 then (LINE_VMID, n)
      else let pos = (if alive_at v ps 0 then LINE_FRONT else POS_INVALID)
           in if alive_at v ps 3 \<and> pos = POS_INVALID then (LINE_BACK, n)
              else if alive_at v ps 3 \<and> pos \<noteq> POS_INVALID
                   then case Rand v 0 1 n of (x, n1) \<Rightarrow> (if x = 0 then LINE_FRONT else LINE_BACK, n1)
                   else (pos, n))"

definition LineUp :: "units \<Rightarrow> int list \<Rightarrow> int" where
  "LineUp v ps =
     (if alive_at v ps 1 \<or> alive_at v ps 3 then LINE_UP
      else if alive_at v ps 0 \<or> alive_at v ps 2 then LINE_DOWN else POS_INVALID)"

definition LineDown :: "units \<Rightarrow> int list \<Rightarrow> int" where
  "LineDown v ps =
     (if alive_at v ps 0 \<or> alive_at v ps 2 then LINE_DOWN
      else if alive_at v ps 1 \<or> alive_at v ps 3 then LINE_UP else POS_INVALID)"

definition LineHMid :: "units \<Rightarrow> int list \<Rightarrow> nat \<Rightarrow> int \<times> nat" where
  "LineHMid v ps n =
     (if alive_at v ps 0 \<or> alive_at v ps 3 then (LINE_HMID, n)
      else let pos = (if alive_at v ps 1 then LINE_UP else POS_INVALID)
           in if alive_at v ps 2 \<and> pos = POS_INVALID then (LINE_DOWN, n)
              else if alive_at v ps 2 \<and> pos \<noteq> POS_INVALID
                   then case Rand v 0 1 n of (x, n1) \<Rightarrow> (if x = 0 then LINE_UP else LINE_DOWN, n1)
                   else (pos, n))"

definition LineTwoFront :: "units \<Rightarrow> int list \<Rightarrow> int" where
  "LineTwoFront v ps =
     (if alive_at v ps 0 then LINE_TWO_FRONT
      else if \<not> alive_at v ps 1 \<and> \<not> alive_at v ps 2 \<and> \<not> alive_at v ps 3 then POS_INVALID else LINE_TWO_BACK)"

definition LineTwoBack :: "units \<Rightarrow> int list \<Rightarrow> int" where
  "LineTwoBack v ps =
     (if alive_at v ps 3 then LINE_TWO_BACK
      else if \<not> alive_at v ps 0 \<and> \<not> alive_at v ps 1 \<and> \<not> alive_at v ps 2 then POS_INVALID else LINE_TWO_FRONT)"

definition LineTwoUp :: "units \<Rightarrow> int list \<Rightarrow> int" where
  "LineTwoUp v ps =
     (if alive_at v ps 1 then LINE_TWO_UP
      else if \<not> alive_at v ps 0 \<and> \<not> alive_at v ps 2 \<and> \<not> alive_at v ps 3 then POS_INVALID else LINE_TWO_DOWN)"

definition LineTwoDown :: "units \<Rightarrow> int list \<Rightarrow> int" where
  "LineTwoDown v ps =
     (if alive_at v ps 2 then LINE_TWO_DOWN
      else if \<not> alive_at v ps 0 \<and> \<not> alive_at v ps 1 \<and> \<not> alive_at v ps 3 then POS_INVALID else LINE_TWO_UP)"

definition RandLineType :: "units \<Rightarrow> int \<Rightarrow> nat \<Rightarrow> int \<times> nat" where
  "RandLineType v t n =
     (if LINE_FRONT \<le> t \<and> t \<le> LINE_DOWN then (t, n)
      else if t = LINE_RAND_VERTICAL then (case Rand v 0 2 n of (x, n1) \<Rightarrow> (LINE_FRONT + 2 * x, n1))
      else if t = LINE_RAND_HORIZONTAL then (case Rand v 0 2 n of (x, n1) \<Rightarrow> (LINE_UP + 2 * x, n1))
      else if t = LINE_RAND_VTWO then (case Rand v 0 1 n of (x, n1) \<Rightarrow> (if x = 0 then LINE_TWO_FRONT else LINE_TWO_BACK, n1))
      else if t = LINE_RAND_HTWO then (case Rand v 0 1 n of (x, n1) \<Rightarrow> (if x = 0 then LINE_TWO_UP else LINE_TWO_DOWN, n1))
      else (POS_INVALID, n))"

definition Line :: "units \<Rightarrow> int list \<Rightarrow> int list \<Rightarrow> nat \<Rightarrow> (int \<times> nat) res" where
  "Line v params ps n =
     bindr (slot params 0) (\<lambda>p0. case RandLineType v p0 n of (t, n1) \<Rightarrow>
       if length ps < 4 then Inl OutOfRange
       else if t = LINE_FRONT then Inr (LineFront v ps, n1)
       else if t = LINE_BACK then Inr (LineBack v ps, n1)
       else if t = LINE_VMID then Inr (LineVMid v ps n1)
       else if t = LINE_UP then Inr (LineUp v ps, n1)
       else if t = LINE_DOWN then Inr (LineDown v ps, n1)
       else if t = LINE_HMID then Inr (LineHMid v ps n1)
       else if t = LINE_TWO_FRONT then Inr (LineTwoFront v ps, n1)
       else if t = LINE_TWO_BACK then Inr (LineTwoBack v ps, n1)
       else if t = LINE_TWO_UP then Inr (LineTwoUp v ps, n1)
       else if t = LINE_TWO_DOWN then Inr (LineTwoDown v ps, n1)
       else Inl AssertFail)"

definition Dead :: "units \<Rightarrow> int list \<Rightarrow> nat \<Rightarrow> (int \<times> nat) res" where
  "Dead v ps n =
     (let dead = GetValidPlayer ps (dead_unit v); dying = GetValidPlayer ps (dying_unit v)
      in if dead \<noteq> [] then RandPos v dead n
         else if dying \<noteq> [] then RandPos v dying n
         else Random v ps n)"

definition GetCastPos :: "units \<Rightarrow> int \<Rightarrow> int \<Rightarrow> skill_target \<Rightarrow> int list \<Rightarrow> nat \<Rightarrow> (int \<times> nat) res" where
  "GetCastPos v caster team t ps n =
     (if tg_type t = TARGET_APPOINT then bindr (slot (tg_params t) 0) (\<lambda>q. Inr (q, n))
      else if tg_type t = TARGET_RANDOM then Random v ps n
      else if tg_type t = TARGET_SEQUENCE then bindr (Sequence v ps) (\<lambda>q. Inr (q, n))
      else if tg_type t = TARGET_HP then bindr (HP v team (tg_params t) ps) (\<lambda>q. Inr (q, n))
      else if tg_type t = TARGET_LINE then Line v (tg_params t) ps n
      else if tg_type t = TARGET_CLASS then Class v (tg_params t) ps n
      else if tg_type t = TARGET_POSITION then Position v (tg_params t) ps n
      else if tg_type t = TARGET_DEAD then Dead v ps n
      else bindr (pos_of v caster) (\<lambda>q. Inr (q, n)))"

section \<open>Who is in range\<close>

definition CheckPosValid :: "int \<Rightarrow> int \<Rightarrow> bool" where
  "CheckPosValid t pos =
     (if t = RANGE_RANGE \<or> t = RANGE_ALL then 0 \<le> pos \<and> pos \<le> POS_CENTER
      else if t = RANGE_LINE \<or> t = RANGE_BULLET_LINE then LINE_FRONT \<le> pos \<and> pos \<le> LINE_DOWN
      else 0 \<le> pos \<and> pos \<le> 3)"

text \<open>The calls of \<open>Util::Rand\<close> with the default arguments.\<close>

definition Rand_some :: "units \<Rightarrow> int list \<Rightarrow> int list \<Rightarrow> int \<Rightarrow> nat \<Rightarrow> ((int list \<times> nat) res) option" where
  "Rand_some v src des num n = Rand_select v 1 False src des num 0 n"

definition RangeRange :: "units \<Rightarrow> skill_target \<Rightarrow> skill_range \<Rightarrow> int \<Rightarrow> int list \<Rightarrow> nat \<Rightarrow> ((int list \<times> nat) res) option" where
  "RangeRange v t r pos ps n =
     (case (if pos \<noteq> POS_CENTER then bindr (slot ps pos) (\<lambda>p. Inr (p, [p], take (nat pos) ps @ drop (Suc (nat pos)) ps, rg_num r - 1))
            else Inr (0, [], ps, rg_num r)) of
        Inl e \<Rightarrow> Some (Inl e)
      | Inr (obj, target, players, num) \<Rightarrow>
          let attacked = GetValidPlayer players (CanAttacked v); action = GetValidPlayer players (CanAct v);
              dead = GetValidPlayer players (dead_unit v); dying = GetValidPlayer players (dying_unit v)
          in if tg_type t \<noteq> TARGET_DEAD
             then Rand_some v (if int (length attacked) > num then attacked else action) target num n
             else if CanAct v obj then Rand_some v action target num n
             else if dead_unit v obj \<and> int (length dead) > num then Rand_some v dead target num n
             else let target1 = (if dead_unit v obj then target @ dead else target);
                      num1 = (if dead_unit v obj then num - int (length dead) else num)
                  in if int (length dying) > num1 then Rand_some v dying target1 num1 n
                     else Rand_some v action (target1 @ dying) (num1 - int (length dying)) n)"

definition AllRange :: "units \<Rightarrow> skill_target \<Rightarrow> int list \<Rightarrow> int list" where
  "AllRange v t ps = (if tg_type t \<noteq> TARGET_DEAD then GetValidPlayer ps (IsAlive v) else ps)"

text \<open>The units alive at the places that a line crosses.\<close>

definition places :: "units \<Rightarrow> int list \<Rightarrow> nat list \<Rightarrow> int list" where
  "places v ps is = filter (IsAlive v) (List.map (\<lambda>i. ps ! i) is)"

definition LineRange :: "units \<Rightarrow> int \<Rightarrow> int list \<Rightarrow> int list res" where
  "LineRange v pos ps =
     (if length ps < 4 then Inl OutOfRange
      else Inr (if pos = LINE_FRONT then places v ps [0, 1]
                else if pos = LINE_BACK then places v ps [2, 3]
                else if pos = LINE_VMID then places v ps [1, 2]
                else if pos = LINE_UP then places v ps [1, 3]
                else if pos = LINE_DOWN then places v ps [0, 2]
                else if pos = LINE_HMID then places v ps [0, 3]
                else if pos = LINE_TWO_FRONT then places v ps [0, 1, 2]
                else if pos = LINE_TWO_BACK then places v ps [1, 2, 3]
                else if pos = LINE_TWO_UP then places v ps [0, 1, 3]
                else if pos = LINE_TWO_DOWN then places v ps [0, 2, 3]
                else []))"

definition ChainRange :: "units \<Rightarrow> skill_target \<Rightarrow> skill_range \<Rightarrow> int \<Rightarrow> int list \<Rightarrow> nat \<Rightarrow> ((int list \<times> nat) res) option" where
  "ChainRange v t r pos ps n =
     (case assertx (tg_type t \<noteq> TARGET_DEAD) (bindr (slot ps pos) (\<lambda>p. assertx (CanAct v p) (Inr p))) of
        Inl e \<Rightarrow> Some (Inl e)
      | Inr obj \<Rightarrow>
          let players = (if rg_max_selected r = 1 then take (nat pos) ps @ drop (Suc (nat pos)) ps else ps);
              num = rg_num r - 1;
              attacked = GetValidPlayer players (CanAttacked v); action = GetValidPlayer players (CanAct v)
          in Rand_select v (rg_max_selected r) (rg_chain_param r \<noteq> 0)
               (if int (length attacked) \<ge> num then attacked else action) [obj] num obj n)"

definition GetAttackRange :: "units \<Rightarrow> skill_target \<Rightarrow> skill_range \<Rightarrow> int \<Rightarrow> int list \<Rightarrow> nat \<Rightarrow> ((int list \<times> nat) res) option" where
  "GetAttackRange v t r pos ps n =
     (if \<not> CheckPosValid (rg_type r) pos then Some (Inl AssertFail)
      else if rg_type r = RANGE_SINGLE then Some (bindr (slot ps pos) (\<lambda>p. Inr ([p], n)))
      else if rg_type r = RANGE_RANGE then RangeRange v t r pos ps n
      else if rg_type r = RANGE_ALL then Some (Inr (AllRange v t ps, n))
      else if rg_type r = RANGE_LINE \<or> rg_type r = RANGE_BULLET_LINE then Some (bindr (LineRange v pos ps) (\<lambda>ts. Inr (ts, n)))
      else if rg_type r = RANGE_CHAIN then ChainRange v t r pos ps n
      else Some (Inl AssertFail))"

text \<open>\<open>GetSkillTarget\<close>: the position and the targets, none where there is no position.\<close>

definition GetSkillTarget :: "units \<Rightarrow> int \<Rightarrow> int \<Rightarrow> skill_target \<Rightarrow> skill_range \<Rightarrow> int list \<Rightarrow> nat \<Rightarrow> ((int \<times> int list \<times> nat) res) option" where
  "GetSkillTarget v caster team t r ps n =
     (case GetCastPos v caster team t ps n of
        Inl e \<Rightarrow> Some (Inl e)
      | Inr (pos, n1) \<Rightarrow>
          if pos = POS_INVALID then Some (Inr (pos, [], n1))
          else case GetAttackRange v t r pos ps n1 of
                 None \<Rightarrow> None
               | Some (Inl e) \<Rightarrow> Some (Inl e)
               | Some (Inr (ts, n2)) \<Rightarrow> Some (Inr (pos, ts, n2)))"

section \<open>Redirected effects\<close>

definition AllAlive :: "units \<Rightarrow> redirect \<Rightarrow> int list \<Rightarrow> int list \<Rightarrow> int list" where
  "AllAlive v rd mates' enemies' = GetValidPlayer (if rd_type rd = REDIR_ALL_MATE then mates' else enemies') (IsAlive v)"

definition RandTarget :: "units \<Rightarrow> redirect \<Rightarrow> int list \<Rightarrow> int list \<Rightarrow> nat \<Rightarrow> ((int list \<times> nat) res) option" where
  "RandTarget v rd mates' enemies' n =
     Rand_select v (rd_max_selected rd) False
       (GetValidPlayer (if rd_type rd = REDIR_ALL_MATE then mates' else enemies') (IsAlive v)) [] (rd_num rd) 0 n"

definition RedirTarget :: "units \<Rightarrow> int \<Rightarrow> int \<Rightarrow> redirect \<Rightarrow> int list \<Rightarrow> int list \<Rightarrow> nat \<Rightarrow> ((int list \<times> nat) res) option" where
  "RedirTarget v caster trigger rd mates' enemies' n =
     (if rd_type rd = REDIR_CASTER then Some (Inr ([caster], n))
      else if rd_type rd = REDIR_TRIGGER then Some (Inr ([trigger], n))
      else if rd_type rd = REDIR_ALL_MATE \<or> rd_type rd = REDIR_ALL_ENEMY then Some (Inr (AllAlive v rd mates' enemies', n))
      else if rd_type rd = REDIR_RANDOM_MATE \<or> rd_type rd = REDIR_RANDOM_ENEMY then RandTarget v rd mates' enemies' n
      else Some (Inr ([], n)))"

end
