(* ===== verification/Buffs.thy ===== *)
theory Buffs
  imports Targets "HOL-Library.Signed_Division"
begin

unbundle bit_operations_syntax

text \<open>
  Buffs of the skill system (\<open>skill/skill/buff.cpp\<close>, \<open>buff_wrapper.cpp\<close>, \<open>active_point.cpp\<close> and the
  effect logics \<open>logic_*.cpp\<close>): how effects become buffs of a unit, replace each other, act at the
  nodes of a round, absorb, return and pass on damage, and end; and the loop of
  \<open>utility/attack_util.cpp\<close> that deals the damage of buffs until no buff produces more.
\<close>

section \<open>Templates\<close>

text \<open>Units by their id, 0 is none. Formulas are strings; what they evaluate to is a parameter.\<close>

type_synonym pid = int
type_synonym formula = string

text \<open>The logics of an effect with their parameters, parsed as the type of the logic tells.\<close>

datatype elogic =
    BasicAttack int formula "formula option"
  | ChangeProp int formula "formula option"
  | Control int
  | Taunt
  | NormalShield int formula int
  | ReboundShield int
  | SummonGolem int
  | PowerFlag
  | PowerGolem formula
  | ResetCooldown int
  | Purify int "int list"
  | LifeChain int
  | LRevive int formula
  | Revise int int formula
  | TriggerEffect
  | Charge int
  | OtherLogic

datatype effect_type = EFFECT_INSTANT | EFFECT_BUFF
datatype buff_type = BUFF_NORMAL | BUFF_POINT
datatype update_time = UPDATE_ROUNDSTART | UPDATE_BEATTACKED | UPDATE_ROUNDEND

text \<open>Templates are the same when their ids are.\<close>

record effect_templ =
  templ_id :: int
  etype :: effect_type
  prob :: int
  redir :: redirect
  mutex_gid :: int
  mutex_prior :: int
  mutex :: bool
  btype :: buff_type
  update :: update_time
  time :: int
  info_num :: int
  info_overlap :: int
  logics :: "elogic list"
  effect_group :: "int list"

definition MUTEX_GID_INDEPENDENT :: int where "MUTEX_GID_INDEPENDENT = - 1"
definition ATTACK_VALUE :: int where "ATTACK_VALUE = 7"
definition SHIELD_VALUE :: int where "SHIELD_VALUE = 7"
definition CHANGE_POINT :: int where "CHANGE_POINT = 8"
definition CHANGE_SCALE :: int where "CHANGE_SCALE = 10"
definition DAMAGE_SHIELD :: int where "DAMAGE_SHIELD = 16"
definition PROP_INDEX_HP :: int where "PROP_INDEX_HP = 64"
definition REVISE_CONSUME :: int where "REVISE_CONSUME = 3"
definition REVISE_DAMAGE :: int where "REVISE_DAMAGE = 4"
definition RECAST_KILL :: int where "RECAST_KILL = 1"

lemmas skill_consts = MUTEX_GID_INDEPENDENT_def ATTACK_VALUE_def SHIELD_VALUE_def CHANGE_POINT_def CHANGE_SCALE_def
  DAMAGE_SHIELD_def PROP_INDEX_HP_def REVISE_CONSUME_def REVISE_DAMAGE_def RECAST_KILL_def

record buff =
  caster :: pid
  effect :: effect_templ
  sn :: int
  num :: int
  overlap :: int
  hp :: int
  duration :: int

record damage =
  dtype :: int
  dprop :: int
  dvalue :: int

record buff_damage =
  effectid :: int
  bd_attacker :: pid
  bd_defender :: pid
  buff_sn :: int
  bd_dmgs :: "damage list"

section \<open>The units of a fight\<close>

text \<open>What the skill system calls on a unit.\<close>

datatype ucall =
    CAttach pid int int pid
  | CDetach pid int int pid
  | CDamage pid int pid
  | CHeal pid int pid
  | CInc pid int int
  | CDec pid int int
  | CRevive pid int
  | CControl pid int bool
  | CCharging pid bool
  | CCharged pid bool
  | CGolem pid int
  | CGenPower pid
  | CPowerGolem pid int
  | CTakeItem pid int int

text \<open>
  What it asks units for may depend on all calls so far: the value of a formula for its caster and
  the properties. \<open>scaled\<close> is a value times a share in parts of 10000, in single precision.
\<close>

record fenv =
  calc :: "ucall list \<Rightarrow> pid \<Rightarrow> formula \<Rightarrow> int"
  GetProperty :: "ucall list \<Rightarrow> pid \<Rightarrow> int \<Rightarrow> int"
  CanAction :: "ucall list \<Rightarrow> pid \<Rightarrow> bool"
  GetCurTime :: "pid \<Rightarrow> int"
  mates :: "pid \<Rightarrow> pid list"
  enemies :: "pid \<Rightarrow> pid list"
  golems :: "pid \<Rightarrow> pid list"
  GetOwner :: "pid \<Rightarrow> pid"
  GetEffectTempl :: "int \<Rightarrow> effect_templ"
  scaled :: "int \<Rightarrow> int \<Rightarrow> int"
  draw :: "nat \<Rightarrow> nat \<Rightarrow> nat"

record fight =
  buff_vec :: "pid \<Rightarrow> buff list"
  calls :: "ucall list"
  next_sn :: int
  draws :: nat

definition tell :: "ucall \<Rightarrow> fight \<Rightarrow> fight" where
  "tell c w = w\<lparr>calls := calls w @ [c]\<rparr>"

definition set_vec :: "pid \<Rightarrow> buff list \<Rightarrow> fight \<Rightarrow> fight" where
  "set_vec o' bs w = w\<lparr>buff_vec := (buff_vec w)(o' := bs)\<rparr>"

section \<open>Logics\<close>

text \<open>
  \<open>FillDmg\<close> of \<open>LogicChangeProp\<close>, whose factor is 1 or -1, and of \<open>LogicBasicAttack\<close> for the
  nodes of a round, both for one defender. Values stay below \<open>2 ^ 24\<close>, so that a float holds them.
\<close>

definition capped :: "fenv \<Rightarrow> pid \<Rightarrow> formula option \<Rightarrow> int \<Rightarrow> fight \<Rightarrow> int" where
  "capped env c cap v w =
     (case cap of None \<Rightarrow> v | Some f \<Rightarrow> if v > calc env (calls w) c f then calc env (calls w) c f else v)"

definition FillDmg_prop :: "fenv \<Rightarrow> pid \<Rightarrow> int \<Rightarrow> formula \<Rightarrow> formula option \<Rightarrow> int \<Rightarrow> fight \<Rightarrow> damage" where
  "FillDmg_prop env c p f cap factor w =
     \<lparr>dtype = CHANGE_POINT, dprop = p, dvalue = capped env c cap (factor * calc env (calls w) c f) w\<rparr>"

definition GetDefence :: "fenv \<Rightarrow> pid \<Rightarrow> int \<Rightarrow> fight \<Rightarrow> int" where
  "GetDefence env o' t w =
     (if t = 1 then GetProperty env (calls w) o' 5 else if t = 2 then GetProperty env (calls w) o' 6
      else if t = 4 then GetProperty env (calls w) o' 4 else 0)"

definition CalcDmg :: "fenv \<Rightarrow> pid \<Rightarrow> int \<Rightarrow> int \<Rightarrow> fight \<Rightarrow> int" where
  "CalcDmg env o' t base w = (let d = i32 (base - GetDefence env o' t w) in if d < 1 then 1 else d)"

definition FillDmg_attack :: "fenv \<Rightarrow> pid \<Rightarrow> pid \<Rightarrow> int \<Rightarrow> formula \<Rightarrow> formula option \<Rightarrow> fight \<Rightarrow> damage" where
  "FillDmg_attack env c o' t f cap w =
     (let v = capped env c cap (calc env (calls w) c f) w
      in \<lparr>dtype = t, dprop = PROP_INDEX_HP, dvalue = (if t \<noteq> ATTACK_VALUE then CalcDmg env o' t v w else v)\<rparr>)"

text \<open>\<open>PlayerUtil::ChangeProp\<close>: the damage with the type it is shown as, and whether it killed.\<close>

definition PlayerChangeProp :: "fenv \<Rightarrow> pid \<Rightarrow> pid \<Rightarrow> damage \<Rightarrow> fight \<Rightarrow> (int \<times> damage \<times> fight) res" where
  "PlayerChangeProp env attacker defender d w =
     (let change_value = \<bar>dvalue d\<bar>;
          shown = d\<lparr>dtype := (if dtype d = CHANGE_SCALE then 1 else 0)\<rparr>
      in if dtype d \<le> ATTACK_VALUE \<or> dtype d = CHANGE_POINT \<and> dprop d = PROP_INDEX_HP
         then assertx (dprop d = PROP_INDEX_HP)
           (let w1 = tell (if dtype d \<le> ATTACK_VALUE then CDamage defender change_value attacker
                           else CHeal defender change_value attacker) w;
                before = GetProperty env (calls w) defender (dprop d) \<le> 0;
                after = GetProperty env (calls w1) defender (dprop d) \<le> 0
            in Inr (if \<not> before \<and> after then RECAST_KILL else 0, shown, w1))
         else if dvalue d \<ge> 0 \<and> dtype d = CHANGE_POINT then Inr (0, shown, tell (CInc defender (dprop d) change_value) w)
         else if dvalue d < 0 \<and> dtype d = CHANGE_POINT then Inr (0, shown, tell (CDec defender (dprop d) change_value) w)
         else if dtype d = CHANGE_SCALE then Inr (0, shown, tell (CRevive defender change_value) w)
         else Inr (0, shown, w))"

text \<open>\<open>Attach\<close>, \<open>Enhance\<close> and \<open>Detach\<close> of the logics of a buff; none of them counts as an activation.\<close>

definition apply_prop :: "fenv \<Rightarrow> pid \<Rightarrow> pid \<Rightarrow> int \<Rightarrow> formula \<Rightarrow> formula option \<Rightarrow> int \<Rightarrow> fight \<Rightarrow> fight res" where
  "apply_prop env c o' p f cap factor w =
     bindr (PlayerChangeProp env c o' (FillDmg_prop env c p f cap factor w) w) (\<lambda>(_, _, w1). Inr w1)"

definition SetStatus :: "pid \<Rightarrow> int \<Rightarrow> bool \<Rightarrow> fight \<Rightarrow> fight" where
  "SetStatus o' t attach w = (if 0 \<le> t \<and> t \<le> 3 then tell (CControl o' t attach) w else w)"

fun logic_Attach :: "fenv \<Rightarrow> pid \<Rightarrow> pid \<Rightarrow> elogic \<Rightarrow> fight \<Rightarrow> fight res" where
  "logic_Attach env c o' (ChangeProp p f cap) w = apply_prop env c o' p f cap 1 w"
| "logic_Attach env c o' (Control t) w = Inr (SetStatus o' t True w)"
| "logic_Attach env c o' (SummonGolem g) w = Inr (tell (CGolem o' g) w)"
| "logic_Attach env c o' _ w = Inr w"

fun logic_Enhance :: "fenv \<Rightarrow> pid \<Rightarrow> pid \<Rightarrow> elogic \<Rightarrow> fight \<Rightarrow> fight res" where
  "logic_Enhance env c o' (ChangeProp p f cap) w = apply_prop env c o' p f cap 1 w"
| "logic_Enhance env c o' _ w = Inr w"

fun logic_Detach :: "fenv \<Rightarrow> pid \<Rightarrow> pid \<Rightarrow> elogic \<Rightarrow> fight \<Rightarrow> fight res" where
  "logic_Detach env c o' (ChangeProp p f cap) w = apply_prop env c o' p f cap (- 1) w"
| "logic_Detach env c o' (Control t) w = Inr (SetStatus o' t False w)"
| "logic_Detach env c o' _ w = Inr w"

fun each_logic :: "(elogic \<Rightarrow> 's \<Rightarrow> 's res) \<Rightarrow> elogic list \<Rightarrow> 's \<Rightarrow> 's res" where
  "each_logic h [] s = Inr s"
| "each_logic h (l # ls) s = bindr (h l s) (each_logic h ls)"

text \<open>\<open>Init\<close>: a shield raises the hit points of its buff.\<close>

fun init_hp :: "fenv \<Rightarrow> pid \<Rightarrow> elogic list \<Rightarrow> fight \<Rightarrow> int \<Rightarrow> int" where
  "init_hp env c [] w h = h"
| "init_hp env c (NormalShield t f p # ls) w h =
     init_hp env c ls w (if h < calc env (calls w) c f then calc env (calls w) c f else h)"
| "init_hp env c (_ # ls) w h = init_hp env c ls w h"

definition buff_init :: "fenv \<Rightarrow> buff \<Rightarrow> fight \<Rightarrow> buff" where
  "buff_init env b w = (let h = init_hp env (caster b) (logics (effect b)) w (hp b) in b\<lparr>hp := (if h \<le> 0 then 1 else h)\<rparr>)"

section \<open>One buff\<close>

definition Buff_new :: "pid \<Rightarrow> effect_templ \<Rightarrow> fight \<Rightarrow> buff \<times> fight" where
  "Buff_new c e w = (let n = u32 (next_sn w + 1) in
     (\<lparr>caster = c, effect = e, sn = n, num = 0, overlap = 0, hp = 0, duration = 0\<rparr>, w\<lparr>next_sn := n\<rparr>))"

definition IsTimeout :: "buff \<Rightarrow> bool" where
  "IsTimeout b \<longleftrightarrow> duration b = 0 \<or> num b = 0 \<or> hp b < 0"

definition DecDuration :: "buff \<Rightarrow> buff" where
  "DecDuration b = (if duration b > 0 then b\<lparr>duration := duration b - 1\<rparr> else b)"

definition DecActiveNum :: "buff \<Rightarrow> buff" where
  "DecActiveNum b = (if num b > 0 then b\<lparr>num := num b - 1\<rparr> else b)"

definition Attach :: "fenv \<Rightarrow> pid \<Rightarrow> buff \<Rightarrow> fight \<Rightarrow> fight res" where
  "Attach env o' b w =
     (let w1 = tell (CAttach o' (sn b) (templ_id (effect b)) (caster b)) w
      in if caster b = 0 then Inl NullDeref
         else if btype (effect b) \<noteq> BUFF_NORMAL then Inr w1
         else each_logic (logic_Attach env (caster b) o') (logics (effect b)) w1)"

definition Enhance :: "fenv \<Rightarrow> pid \<Rightarrow> buff \<Rightarrow> fight \<Rightarrow> fight res" where
  "Enhance env o' b w =
     (if btype (effect b) \<noteq> BUFF_NORMAL then Inr w
      else each_logic (logic_Enhance env (caster b) o') (logics (effect b)) w)"

definition Detach :: "fenv \<Rightarrow> pid \<Rightarrow> buff \<Rightarrow> fight \<Rightarrow> fight res" where
  "Detach env o' b w =
     (let w1 = tell (CDetach o' (sn b) (templ_id (effect b)) (caster b)) w
      in if caster b = 0 then Inl NullDeref
         else if btype (effect b) \<noteq> BUFF_NORMAL then Inr w1
         else each_logic (logic_Detach env (caster b) o') (logics (effect b)) w1)"

text \<open>
  The loop \<open>FOR_EACH\<close> over the vector: the handler gets the vector as it is and the place of the
  buff, and a buff that has timed out is detached and erased.
\<close>

fun for_each :: "(buff list \<Rightarrow> nat \<Rightarrow> 's \<Rightarrow> (buff \<times> 's) res) \<Rightarrow> (buff \<Rightarrow> 's \<Rightarrow> 's res) \<Rightarrow> buff list \<Rightarrow> buff list \<Rightarrow> 's \<Rightarrow> (buff list \<times> 's) res" where
  "for_each h d kept [] s = Inr (kept, s)"
| "for_each h d kept (b # bs) s =
     bindr (h (kept @ b # bs) (length kept) s) (\<lambda>(b1, s1).
       if IsTimeout b1 then bindr (d b1 s1) (for_each h d kept bs) else for_each h d (kept @ [b1]) bs s1)"


section \<open>The nodes of a round\<close>

text \<open>\<open>RoundStart\<close> and \<open>RoundEnd\<close> of a logic: whether it was active, and the damage it produces.\<close>

definition push_dmg :: "pid \<Rightarrow> buff \<Rightarrow> damage \<Rightarrow> buff_damage list \<Rightarrow> buff_damage list" where
  "push_dmg o' b d out =
     out @ [\<lparr>effectid = templ_id (effect b), bd_attacker = caster b, bd_defender = o', buff_sn = sn b, bd_dmgs = [d]\<rparr>]"

definition update_index :: "update_time \<Rightarrow> int" where
  "update_index u = (case u of UPDATE_ROUNDSTART \<Rightarrow> 0 | UPDATE_BEATTACKED \<Rightarrow> 1 | UPDATE_ROUNDEND \<Rightarrow> 2)"

definition btype_index :: "buff_type \<Rightarrow> int" where
  "btype_index t = (case t of BUFF_NORMAL \<Rightarrow> 0 | BUFF_POINT \<Rightarrow> 1)"

definition over_rounds :: "int \<Rightarrow> int \<Rightarrow> int res" where
  "over_rounds v t = (if t = 0 then Inl DivZero else let q = v sdiv (- 1 * t) in Inr (if q = 0 then - 1 else q))"

definition charge_RoundEnd :: "pid \<Rightarrow> buff \<Rightarrow> fight \<Rightarrow> fight" where
  "charge_RoundEnd o' b w =
     (if duration b = 0 then tell (CCharged o' False) (tell (CCharging o' False) w)
      else if duration b = 1 then tell (CCharged o' True) (tell (CCharging o' False) w)
      else if duration b = time (effect b) - 1 then tell (CCharged o' False) (tell (CCharging o' True) w)
      else w)"

fun logic_node :: "fenv \<Rightarrow> update_time \<Rightarrow> pid \<Rightarrow> buff \<Rightarrow> elogic \<Rightarrow> bool \<times> fight \<times> buff_damage list \<Rightarrow> (bool \<times> fight \<times> buff_damage list) res" where
  "logic_node env u o' b (BasicAttack t f cap) (a, w, out) =
     (let d = FillDmg_attack env (caster b) o' t f cap w
      in bindr (over_rounds (dvalue d) (time (effect b))) (\<lambda>v. Inr (True, w, push_dmg o' b (d\<lparr>dvalue := v\<rparr>) out)))"
| "logic_node env u o' b (ChangeProp p f cap) (a, w, out) = Inr (True, w, push_dmg o' b (FillDmg_prop env (caster b) p f cap 1 w) out)"
| "logic_node env u o' b TriggerEffect (a, w, out) =
     Inr (a \<or> btype (effect b) \<noteq> BUFF_NORMAL \<and> btype_index (btype (effect b)) = update_index u, w, out)"
| "logic_node env u o' b (Charge k) (a, w, out) = Inr (a, if u = UPDATE_ROUNDEND then charge_RoundEnd o' b w else w, out)"
| "logic_node env u o' b _ (a, w, out) = Inr (a, w, out)"

definition activate :: "fenv \<Rightarrow> update_time \<Rightarrow> pid \<Rightarrow> buff \<Rightarrow> fight \<times> buff_damage list \<Rightarrow> (buff \<times> fight \<times> buff_damage list) res" where
  "activate env u o' b s =
     bindr (each_logic (logic_node env u o' b) (logics (effect b)) (False, s)) (\<lambda>(a, s1). Inr (if a then DecActiveNum b else b, s1))"

definition buff_RoundStart :: "fenv \<Rightarrow> pid \<Rightarrow> buff \<Rightarrow> fight \<times> buff_damage list \<Rightarrow> (buff \<times> fight \<times> buff_damage list) res" where
  "buff_RoundStart env o' b s =
     (if btype (effect b) = BUFF_NORMAL \<or> update (effect b) \<noteq> UPDATE_ROUNDSTART then Inr (b, s)
      else bindr (activate env UPDATE_ROUNDSTART o' b s) (\<lambda>(b1, s1). Inr (DecDuration b1, s1)))"

definition buff_RoundEnd :: "fenv \<Rightarrow> pid \<Rightarrow> buff \<Rightarrow> fight \<times> buff_damage list \<Rightarrow> (buff \<times> fight \<times> buff_damage list) res" where
  "buff_RoundEnd env o' b s =
     (if btype (effect b) = BUFF_POINT \<and> update (effect b) = UPDATE_ROUNDSTART then Inr (b, s)
      else bindr (if btype (effect b) = BUFF_POINT \<and> update (effect b) = UPDATE_ROUNDEND
                  then activate env UPDATE_ROUNDEND o' b s else Inr (b, s)) (\<lambda>(b1, s1). Inr (DecDuration b1, s1)))"

section \<open>Revision\<close>

record revise_param =
  scale :: int
  point :: int

definition CalcRevise :: "fenv \<Rightarrow> buff \<Rightarrow> int \<Rightarrow> formula \<Rightarrow> fight \<Rightarrow> revise_param \<Rightarrow> revise_param" where
  "CalcRevise env b change f w r =
     (let v = i32 (calc env (calls w) (caster b) f * overlap b)
      in if change = CHANGE_POINT then r\<lparr>point := i32 (point r + v)\<rparr> else r\<lparr>scale := i32 (scale r + v)\<rparr>)"

text \<open>\<open>ConsumeRevise\<close> and \<open>AttackedRevise\<close> differ in the type they look for.\<close>

fun logic_Revise :: "fenv \<Rightarrow> int \<Rightarrow> buff \<Rightarrow> elogic \<Rightarrow> bool \<times> fight \<times> revise_param \<Rightarrow> (bool \<times> fight \<times> revise_param) res" where
  "logic_Revise env want b (Revise t change f) (a, w, r) =
     (if t \<noteq> want then Inr (a, w, r) else Inr (True, w, CalcRevise env b change f w r))"
| "logic_Revise env want b _ (a, w, r) = Inr (a, w, r)"

definition buff_Revise :: "fenv \<Rightarrow> int \<Rightarrow> buff \<Rightarrow> fight \<times> revise_param \<Rightarrow> (buff \<times> fight \<times> revise_param) res" where
  "buff_Revise env want b s =
     bindr (each_logic (logic_Revise env want b) (logics (effect b)) (False, s)) (\<lambda>(a, s1). Inr (if a then DecActiveNum b else b, s1))"

text \<open>\<open>CastRevise\<close> revises the entry of an array of three that the type selects.\<close>

fun logic_CastRevise :: "fenv \<Rightarrow> buff \<Rightarrow> elogic \<Rightarrow> bool \<times> fight \<times> revise_param list \<Rightarrow> (bool \<times> fight \<times> revise_param list) res" where
  "logic_CastRevise env b (Revise t change f) (a, w, rs) =
     (if t = REVISE_CONSUME \<or> t = REVISE_DAMAGE then Inr (a, w, rs)
      else if 0 \<le> t \<and> nat t < length rs then Inr (True, w, rs[nat t := CalcRevise env b change f w (rs ! nat t)])
      else Inl OutOfRange)"
| "logic_CastRevise env b _ (a, w, rs) = Inr (a, w, rs)"

definition buff_CastRevise :: "fenv \<Rightarrow> buff \<Rightarrow> fight \<times> revise_param list \<Rightarrow> (buff \<times> fight \<times> revise_param list) res" where
  "buff_CastRevise env b s =
     bindr (each_logic (logic_CastRevise env b) (logics (effect b)) (False, s)) (\<lambda>(a, s1). Inr (if a then DecActiveNum b else b, s1))"

text \<open>\<open>GetTarget\<close>: a taunt makes the owner of its caster a target.\<close>

fun logic_GetTarget :: "fenv \<Rightarrow> buff \<Rightarrow> elogic \<Rightarrow> bool \<times> fight \<times> pid list \<Rightarrow> (bool \<times> fight \<times> pid list) res" where
  "logic_GetTarget env b Taunt (a, w, ts) = Inr (True, w, ts @ [GetOwner env (caster b)])"
| "logic_GetTarget env b _ (a, w, ts) = Inr (a, w, ts)"

definition buff_GetTarget :: "fenv \<Rightarrow> buff \<Rightarrow> fight \<times> pid list \<Rightarrow> (buff \<times> fight \<times> pid list) res" where
  "buff_GetTarget env b s =
     bindr (each_logic (logic_GetTarget env b) (logics (effect b)) (False, s)) (\<lambda>(a, s1). Inr (if a then DecActiveNum b else b, s1))"

section \<open>Shields and life chains\<close>

text \<open>
  The message of an attack: who attacks (0 for none), with which effect and damage, and the buff that
  \<open>NormalShield\<close> visited last, a pointer into the vector.
\<close>

record attack_msg =
  am_attacker :: pid
  am_effect :: effect_templ
  am_dmgs :: "damage list"
  am_buff :: "nat option"

definition deref :: "nat option \<Rightarrow> buff list \<Rightarrow> buff res" where
  "deref p vec = (case p of None \<Rightarrow> Inl NullDeref | Some i \<Rightarrow> if i < length vec then Inr (vec ! i) else Inl OutOfRange)"

definition CanShield :: "int \<Rightarrow> int \<Rightarrow> damage \<Rightarrow> bool" where
  "CanShield shield h d =
     (if h \<le> 0 \<or> dprop d \<noteq> PROP_INDEX_HP \<or> dvalue d \<ge> 0 \<or> dtype d > SHIELD_VALUE then False
      else if shield = SHIELD_VALUE then True
      else if dtype d = ATTACK_VALUE then False
      else dtype d = shield)"

fun shield_loop :: "fenv \<Rightarrow> int \<Rightarrow> int \<Rightarrow> int \<Rightarrow> damage list \<Rightarrow> int \<times> damage list \<times> damage list" where
  "shield_loop env t p h [] = (h, [], [])"
| "shield_loop env t p h (d # ds) =
     (if \<not> h > 0 then (h, d # ds, [])
      else if \<not> CanShield t h d then (case shield_loop env t p h ds of (h1, ds1, ab) \<Rightarrow> (h1, d # ds1, ab))
      else let s0 = scaled env (dvalue d) p; s = (if s0 + h > 0 then s0 else - 1 * h)
           in case shield_loop env t p (h + s) ds of
                (h1, ds1, ab) \<Rightarrow> (h1, d\<lparr>dvalue := dvalue d - s\<rparr> # ds1, \<lparr>dtype = DAMAGE_SHIELD, dprop = PROP_INDEX_HP, dvalue = s\<rparr> # ab))"

definition hit_out :: "int \<Rightarrow> pid \<Rightarrow> pid \<Rightarrow> int \<Rightarrow> damage list \<Rightarrow> buff_damage" where
  "hit_out e a o' n ds = \<lparr>effectid = e, bd_attacker = a, bd_defender = o', buff_sn = n, bd_dmgs = ds\<rparr>"

fun logic_NormalShield :: "fenv \<Rightarrow> pid \<Rightarrow> elogic \<Rightarrow> bool \<times> buff \<times> attack_msg \<times> buff_damage list \<Rightarrow> (bool \<times> buff \<times> attack_msg \<times> buff_damage list) res" where
  "logic_NormalShield env o' (NormalShield t f p) (a, b, m, out) =
     (case shield_loop env t p (hp b) (am_dmgs m) of (h1, ds1, ab) \<Rightarrow>
        Inr (a \<or> ab \<noteq> [], b\<lparr>hp := h1\<rparr>, m\<lparr>am_dmgs := ds1\<rparr>,
             if ab \<noteq> [] then out @ [hit_out (templ_id (am_effect m)) (am_attacker m) o' (sn b) ab] else out))"
| "logic_NormalShield env o' _ s = Inr s"

definition buff_NormalShield :: "fenv \<Rightarrow> pid \<Rightarrow> buff list \<Rightarrow> nat \<Rightarrow> fight \<times> attack_msg \<times> buff_damage list \<Rightarrow> (buff \<times> fight \<times> attack_msg \<times> buff_damage list) res" where
  "buff_NormalShield env o' vec i s =
     (case s of (w, m, out) \<Rightarrow>
        bindr (each_logic (logic_NormalShield env o') (logics (effect (vec ! i))) (False, vec ! i, m\<lparr>am_buff := Some i\<rparr>, out))
          (\<lambda>(a, b1, m1, out1). Inr (if a then DecActiveNum b1 else b1, w, m1, out1)))"

definition is_wound :: "damage \<Rightarrow> bool" where
  "is_wound d \<longleftrightarrow> dtype d \<noteq> DAMAGE_SHIELD \<and> dprop d = PROP_INDEX_HP \<and> dvalue d < 0"

definition shares :: "fenv \<Rightarrow> int \<Rightarrow> damage list \<Rightarrow> damage list" where
  "shares env p ds = List.map (\<lambda>d. let v = scaled env (dvalue d) p in
     \<lparr>dtype = ATTACK_VALUE, dprop = PROP_INDEX_HP, dvalue = (if v \<noteq> 0 then v else - 1)\<rparr>) (filter is_wound ds)"

fun logic_Rebound :: "fenv \<Rightarrow> pid \<Rightarrow> buff list \<Rightarrow> elogic \<Rightarrow> bool \<times> attack_msg \<times> buff_damage list \<Rightarrow> (bool \<times> attack_msg \<times> buff_damage list) res" where
  "logic_Rebound env o' vec (ReboundShield p) (a, m, out) =
     (if am_attacker m = 0 then Inr (a, m, out)
      else bindr (deref (am_buff m) vec) (\<lambda>b.
        let ds = shares env p (am_dmgs m)
        in Inr (a \<or> ds \<noteq> [], m, if ds \<noteq> [] then out @ [hit_out (templ_id (am_effect m)) 0 o' (sn b) ds] else out)))"
| "logic_Rebound env o' vec _ s = Inr s"

definition InLifeChain :: "fenv \<Rightarrow> fight \<Rightarrow> pid \<Rightarrow> buff \<Rightarrow> pid \<Rightarrow> bool" where
  "InLifeChain env w e b o' \<longleftrightarrow>
     list_ex (\<lambda>x. templ_id (effect x) = templ_id (effect b) \<and> GetOwner env (caster x) = GetOwner env o') (buff_vec w e)"

fun logic_LifeChain :: "fenv \<Rightarrow> pid \<Rightarrow> buff list \<Rightarrow> fight \<Rightarrow> elogic \<Rightarrow> bool \<times> attack_msg \<times> buff_damage list \<Rightarrow> (bool \<times> attack_msg \<times> buff_damage list) res" where
  "logic_LifeChain env o' vec w (LifeChain p) (a, m, out) =
     (if am_attacker m = 0 then Inr (a, m, out)
      else bindr (deref (am_buff m) vec) (\<lambda>b.
        let ds = shares env p (am_dmgs m); chained = filter (\<lambda>e. e \<noteq> 0 \<and> InLifeChain env w e b o') (enemies env o')
        in Inr (a \<or> chained \<noteq> [], m, out @ List.map (\<lambda>e. hit_out (templ_id (am_effect m)) 0 e (sn b) ds) chained)))"
| "logic_LifeChain env o' vec w _ s = Inr s"

definition buff_Rebound :: "fenv \<Rightarrow> pid \<Rightarrow> buff list \<Rightarrow> nat \<Rightarrow> fight \<times> attack_msg \<times> buff_damage list \<Rightarrow> (buff \<times> fight \<times> attack_msg \<times> buff_damage list) res" where
  "buff_Rebound env o' vec i s =
     (case s of (w, m, out) \<Rightarrow>
        bindr (each_logic (logic_Rebound env o' vec) (logics (effect (vec ! i))) (False, m, out))
          (\<lambda>(a, m1, out1). Inr (if a then DecActiveNum (vec ! i) else vec ! i, w, m1, out1)))"

definition buff_LifeChain :: "fenv \<Rightarrow> pid \<Rightarrow> buff list \<Rightarrow> nat \<Rightarrow> fight \<times> attack_msg \<times> buff_damage list \<Rightarrow> (buff \<times> fight \<times> attack_msg \<times> buff_damage list) res" where
  "buff_LifeChain env o' vec i s =
     (case s of (w, m, out) \<Rightarrow>
        bindr (each_logic (logic_LifeChain env o' vec w) (logics (effect (vec ! i))) (False, m, out))
          (\<lambda>(a, m1, out1). Inr (if a then DecActiveNum (vec ! i) else vec ! i, w, m1, out1)))"

end
