(* ===== verification/BuffWrapper.thy ===== *)
theory BuffWrapper
  imports Buffs
begin

unbundle bit_operations_syntax

text \<open>
  The buffs of a unit and their operations (\<open>skill/skill/buff_wrapper.cpp\<close>), and the loops that deal
  the damage of skills and buffs (\<open>skill/utility/attack_util.cpp\<close>).
\<close>

section \<open>Loops over the vector\<close>

text \<open>The loop over the buffs of a unit, with a handler that sees one buff.\<close>

definition each_buff :: "fenv \<Rightarrow> (pid \<Rightarrow> buff list \<Rightarrow> nat \<Rightarrow> fight \<times> 's \<Rightarrow> (buff \<times> fight \<times> 's) res) \<Rightarrow> pid \<Rightarrow> 's \<Rightarrow> fight \<Rightarrow> (fight \<times> 's) res" where
  "each_buff env h o' s w =
     bindr (for_each (h o') (\<lambda>b (w, s). bindr (Detach env o' b w) (\<lambda>w1. Inr (w1, s))) [] (buff_vec w o') (w, s))
       (\<lambda>(vec, w1, s1). Inr (set_vec o' vec w1, s1))"

definition alone :: "(buff \<Rightarrow> fight \<times> 's \<Rightarrow> (buff \<times> fight \<times> 's) res) \<Rightarrow> pid \<Rightarrow> buff list \<Rightarrow> nat \<Rightarrow> fight \<times> 's \<Rightarrow> (buff \<times> fight \<times> 's) res" where
  "alone h o' vec i s = h (vec ! i) s"

definition GetTarget :: "fenv \<Rightarrow> pid \<Rightarrow> fight \<Rightarrow> (fight \<times> pid list) res" where
  "GetTarget env o' w = each_buff env (alone (buff_GetTarget env)) o' [] w"

definition ConsumeRevise :: "fenv \<Rightarrow> pid \<Rightarrow> fight \<Rightarrow> (fight \<times> revise_param) res" where
  "ConsumeRevise env o' w = each_buff env (alone (buff_Revise env REVISE_CONSUME)) o' \<lparr>scale = 0, point = 0\<rparr> w"

definition CastRevise :: "fenv \<Rightarrow> pid \<Rightarrow> fight \<Rightarrow> (fight \<times> revise_param list) res" where
  "CastRevise env o' w = each_buff env (alone (buff_CastRevise env)) o' (replicate 3 \<lparr>scale = 0, point = 0\<rparr>) w"

fun detach_all :: "fenv \<Rightarrow> pid \<Rightarrow> buff list \<Rightarrow> fight \<Rightarrow> fight res" where
  "detach_all env o' [] w = Inr w"
| "detach_all env o' (b # bs) w = bindr (Detach env o' b w) (detach_all env o' bs)"

definition ClearBuff :: "fenv \<Rightarrow> pid \<Rightarrow> fight \<Rightarrow> fight res" where
  "ClearBuff env o' w = bindr (detach_all env o' (buff_vec w o') w) (\<lambda>w1. Inr (set_vec o' [] w1))"

text \<open>
  Detaching and erasing the buffs that are picked. The loops compare the slot the iterator is at: after
  an erase the next buff has moved into the same slot.
\<close>

fun erase_buffs :: "fenv \<Rightarrow> pid \<Rightarrow> (nat \<Rightarrow> buff \<Rightarrow> bool) \<Rightarrow> nat \<Rightarrow> buff list \<Rightarrow> fight \<Rightarrow> (buff list \<times> fight) res" where
  "erase_buffs env o' P i [] w = Inr ([], w)"
| "erase_buffs env o' P i (b # bs) w =
     (if P i b then bindr (Detach env o' b w) (erase_buffs env o' P i bs)
      else bindr (erase_buffs env o' P (Suc i) bs w) (\<lambda>(bs1, w1). Inr (b # bs1, w1)))"

definition erase_where :: "fenv \<Rightarrow> pid \<Rightarrow> (nat \<Rightarrow> buff \<Rightarrow> bool) \<Rightarrow> fight \<Rightarrow> fight res" where
  "erase_where env o' P w = bindr (erase_buffs env o' P 0 (buff_vec w o') w) (\<lambda>(bs, w1). Inr (set_vec o' bs w1))"

definition ClearBuff_of :: "fenv \<Rightarrow> pid \<Rightarrow> effect_templ \<Rightarrow> pid \<Rightarrow> fight \<Rightarrow> fight res" where
  "ClearBuff_of env o' e c w = erase_where env o' (\<lambda>_ b. templ_id (effect b) = templ_id e \<and> caster b = c) w"

section \<open>Attaching\<close>

definition UpdateBuff :: "fenv \<Rightarrow> pid \<Rightarrow> buff \<Rightarrow> fight \<Rightarrow> (buff \<times> fight) res" where
  "UpdateBuff env o' b w =
     (let b1 = b\<lparr>duration := GetCurTime env o' + time (effect b), num := info_num (effect b)\<rparr>
      in bindr (if overlap b1 < info_overlap (effect b)
                then bindr (if overlap b1 = 0 then Attach env o' b1 w else Enhance env o' b1 w)
                       (\<lambda>w1. Inr (b1\<lparr>overlap := overlap b1 + 1\<rparr>, overlap b1 = 0, w1))
                else Inr (b1, False, w)) (\<lambda>(b2, new_buff, w2).
         let w3 = (if new_buff then w2 else tell (CAttach o' (sn b2) (templ_id (effect b2)) (caster b2)) w2)
         in Inr (buff_init env b2 w3, w3)))"

text \<open>Whether the buff is replaced by the new effect, the buff, and whether to insert the new one.\<close>

definition Replace :: "fenv \<Rightarrow> pid \<Rightarrow> attack_msg \<Rightarrow> buff \<Rightarrow> bool \<Rightarrow> fight \<Rightarrow> (bool \<times> buff \<times> bool \<times> fight) res" where
  "Replace env o' m b ins0 w =
     (let new = am_effect m; old = effect b
      in if mutex_gid old = MUTEX_GID_INDEPENDENT \<or> mutex_gid old \<noteq> mutex_gid new then Inr (False, b, ins0, w)
         else let ins = (mutex_prior new \<ge> mutex_prior old)
              in if mutex_prior new = mutex_prior old
                 then if caster b \<noteq> am_attacker m then Inr (mutex new, b, ins, w)
                      else if templ_id old = templ_id new
                      then bindr (UpdateBuff env o' b w) (\<lambda>(b1, w1). Inr (False, b1, False, w1))
                      else Inr (ins, b, ins, w)
                 else Inr (ins, b, ins, w))"

fun replace_loop :: "fenv \<Rightarrow> pid \<Rightarrow> attack_msg \<Rightarrow> buff list \<Rightarrow> bool \<Rightarrow> fight \<Rightarrow> (buff list \<times> bool \<times> fight) res" where
  "replace_loop env o' m [] ins w = Inr ([], ins, w)"
| "replace_loop env o' m (b # bs) ins w =
     bindr (Replace env o' m b ins w) (\<lambda>(r, b1, ins1, w1).
       if r then bindr (Detach env o' b1 w1) (replace_loop env o' m bs ins1)
       else bindr (replace_loop env o' m bs ins1 w1) (\<lambda>(bs1, ins2, w2). Inr (b1 # bs1, ins2, w2)))"

definition same_effect :: "buff \<Rightarrow> buff \<Rightarrow> bool" where
  "same_effect b x \<longleftrightarrow> templ_id (effect x) = templ_id (effect b)"

text \<open>The oldest buff of the effect makes place when there are as many as may be.\<close>

definition make_place :: "fenv \<Rightarrow> pid \<Rightarrow> buff \<Rightarrow> buff list \<Rightarrow> fight \<Rightarrow> (buff list \<times> fight) res" where
  "make_place env o' b vec w =
     (if int (length (filter (same_effect b) vec)) = info_overlap (effect b)
      then case dropWhile (\<lambda>x. \<not> same_effect b x) vec of
             [] \<Rightarrow> Inl OutOfRange
           | x # xs \<Rightarrow> bindr (Detach env o' x w) (\<lambda>w1. Inr (takeWhile (\<lambda>x. \<not> same_effect b x) vec @ xs, w1))
      else Inr (vec, w))"

definition InsertNewBuff :: "fenv \<Rightarrow> pid \<Rightarrow> buff \<Rightarrow> buff list \<Rightarrow> fight \<Rightarrow> (buff list \<times> fight) res" where
  "InsertNewBuff env o' b vec w =
     (let b1 = b\<lparr>duration := GetCurTime env o' + time (effect b), num := info_num (effect b)\<rparr>
      in bindr (make_place env o' b1 vec w) (\<lambda>(vec1, w1).
         let b2 = buff_init env b1 w1 in bindr (Attach env o' b2 w1) (\<lambda>w2. Inr (vec1 @ [b2], w2))))"

definition AttachBuff :: "fenv \<Rightarrow> pid \<Rightarrow> attack_msg \<Rightarrow> fight \<Rightarrow> fight res" where
  "AttachBuff env o' m w =
     (if \<not> CanAction env (calls w) o' then Inr w
      else bindr (replace_loop env o' m (buff_vec w o') True w) (\<lambda>(vec, ins, w1).
        if \<not> ins then Inr (set_vec o' vec w1)
        else case Buff_new (am_attacker m) (am_effect m) w1 of (b, w2) \<Rightarrow>
          bindr (InsertNewBuff env o' b vec w2) (\<lambda>(vec1, w3). Inr (set_vec o' vec1 w3))))"

section \<open>Being attacked\<close>

text \<open>
  \<open>Purify\<close>: buffs of the named groups, chosen at random when there are more than may go. The chosen
  ones are pointers to slots of the vector, which the buffs behind move into.
\<close>

fun drop_random :: "fenv \<Rightarrow> int \<Rightarrow> nat list \<Rightarrow> fight \<Rightarrow> nat list \<times> fight" where
  "drop_random env m [] w = ([], w)"
| "drop_random env m (x # xs) w =
     (if int (length (x # xs)) > m
      then let i = draw env (draws w) (length (x # xs)) mod length (x # xs)
           in drop_random env m (take i (x # xs) @ drop (Suc i) (x # xs)) (w\<lparr>draws := draws w + 1\<rparr>)
      else (x # xs, w))"

definition logic_Purify :: "fenv \<Rightarrow> pid \<Rightarrow> int \<Rightarrow> int list \<Rightarrow> fight \<Rightarrow> fight res" where
  "logic_Purify env o' m groups w =
     (let max_count = (if m < 0 then 2147483647 else m); vec = buff_vec w o';
          hits = filter (\<lambda>i. list_ex (\<lambda>g. g \<in> set (effect_group (effect (vec ! i)))) groups) [0..<length vec]
      in case drop_random env max_count hits w of (chosen, w1) \<Rightarrow> erase_where env o' (\<lambda>i _. i \<in> set chosen) w1)"

fun purify_logics :: "fenv \<Rightarrow> pid \<Rightarrow> elogic list \<Rightarrow> fight \<Rightarrow> fight res" where
  "purify_logics env o' [] w = Inr w"
| "purify_logics env o' (Purify m gs # ls) w = bindr (logic_Purify env o' m gs w) (purify_logics env o' ls)"
| "purify_logics env o' (_ # ls) w = purify_logics env o' ls w"

definition revise_damage :: "revise_param \<Rightarrow> damage \<Rightarrow> damage" where
  "revise_damage r d =
     (if dprop d \<noteq> PROP_INDEX_HP \<or> dvalue d \<ge> 0 then d
      else let scale0 = (10000 + scale r) sdiv 10000; sc = (if scale0 < 0 then 0 else scale0);
               v = i32 (i32 (dvalue d * sc) + - 1 * point r)
           in d\<lparr>dvalue := (if v \<ge> 0 then - 1 else v)\<rparr>)"

definition AttackedRevise :: "fenv \<Rightarrow> pid \<Rightarrow> attack_msg \<Rightarrow> fight \<Rightarrow> (fight \<times> attack_msg) res" where
  "AttackedRevise env o' m w =
     bindr (each_buff env (alone (buff_Revise env REVISE_DAMAGE)) o' \<lparr>scale = 0, point = 0\<rparr> w) (\<lambda>(w1, r).
       Inr (w1, if scale r = 0 \<and> point r = 0 then m else m\<lparr>am_dmgs := List.map (revise_damage r) (am_dmgs m)\<rparr>))"

fun DoDamage :: "fenv \<Rightarrow> pid \<Rightarrow> pid \<Rightarrow> damage list \<Rightarrow> fight \<Rightarrow> (int \<times> damage list \<times> fight) res" where
  "DoDamage env a o' [] w = Inr (0, [], w)"
| "DoDamage env a o' (d # ds) w =
     bindr (if dtype d \<noteq> DAMAGE_SHIELD then PlayerChangeProp env a o' d w else Inr (0, d, w)) (\<lambda>(s1, d1, w1).
     bindr (DoDamage env a o' ds w1) (\<lambda>(s2, ds2, w2).
       Inr (s1 OR s2, if dtype d1 = 1 then ds2 else d1 # ds2, w2)))"

definition BeAttacked :: "fenv \<Rightarrow> pid \<Rightarrow> attack_msg \<Rightarrow> buff_damage list \<Rightarrow> fight \<Rightarrow> (int \<times> attack_msg \<times> buff_damage list \<times> fight) res" where
  "BeAttacked env o' m out w =
     (if etype (am_effect m) = EFFECT_BUFF \<and> am_dmgs m = []
      then bindr (AttachBuff env o' m w) (\<lambda>w1. Inr (0, m, out, w1))
      else bindr (purify_logics env o' (logics (am_effect m)) w) (\<lambda>w1.
        bindr (AttackedRevise env o' m w1) (\<lambda>(w2, m2).
        bindr (each_buff env (buff_NormalShield env) o' (m2, out) w2) (\<lambda>(w3, m3, out3).
        bindr (each_buff env (buff_Rebound env) o' (m3, out3) w3) (\<lambda>(w4, m4, out4).
        bindr (each_buff env (buff_LifeChain env) o' (m4, out4) w4) (\<lambda>(w5, m5, out5).
        bindr (DoDamage env (am_attacker m5) o' (am_dmgs m5) w5) (\<lambda>(status, ds, w6).
          Inr (status, m5\<lparr>am_dmgs := ds\<rparr>, out5, w6))))))))"

section \<open>Dealing damage\<close>

definition FindPlayer :: "fenv \<Rightarrow> pid \<Rightarrow> int \<Rightarrow> pid" where
  "FindPlayer env player roleid =
     (if roleid \<noteq> 0 \<and> roleid \<in> set (mates env player @ enemies env player @ golems env player) then roleid else 0)"

fun deal :: "fenv \<Rightarrow> pid \<Rightarrow> buff_damage list \<Rightarrow> buff_damage list \<Rightarrow> fight \<Rightarrow> (buff_damage list \<times> buff_damage list \<times> fight) res" where
  "deal env player [] out w = Inr ([], out, w)"
| "deal env player (d # ds) out w =
     (let attacker = FindPlayer env player (bd_attacker d); defender = FindPlayer env player (bd_defender d)
      in if defender = 0 then Inl NullDeref
         else bindr (BeAttacked env (GetOwner env defender)
                \<lparr>am_attacker = attacker, am_effect = GetEffectTempl env (effectid d), am_dmgs = bd_dmgs d, am_buff = None\<rparr> out w)
           (\<lambda>(_, m1, out1, w1). bindr (deal env player ds out1 w1) (\<lambda>(ds2, out2, w2).
              Inr (d\<lparr>bd_dmgs := am_dmgs m1\<rparr> # ds2, out2, w2))))"

text \<open>The loop of \<open>AttackUtil::Attack\<close>: what it has dealt, and what it has to deal.\<close>

partial_function (option) Attack_loop :: "fenv \<Rightarrow> pid \<Rightarrow> buff_damage list \<Rightarrow> buff_damage list \<Rightarrow> fight \<Rightarrow> ((buff_damage list \<times> fight) res) option" where
  "Attack_loop env player dealt ds w =
     (if ds = [] then Some (Inr (dealt, w))
      else case deal env player ds [] w of
             Inl e \<Rightarrow> Some (Inl e)
           | Inr (ds1, new, w1) \<Rightarrow> Attack_loop env player (dealt @ ds1) new w1)"

definition Attack :: "fenv \<Rightarrow> pid \<Rightarrow> buff_damage list \<Rightarrow> fight \<Rightarrow> ((buff_damage list \<times> fight) res) option" where
  "Attack env player ds w = Attack_loop env player [] ds w"

section \<open>The round of a unit\<close>

text \<open>
  The loops over the buffs in \<open>RoundStart\<close> and \<open>RoundEnd\<close>, and the damage that they deal. What comes
  after the one, the heartbeat of the cooldowns, and before the other, the casting of passive skills,
  is added by the operations of these names in \<open>SkillCast\<close>.
\<close>

definition RoundStart_buffs :: "fenv \<Rightarrow> pid \<Rightarrow> fight \<Rightarrow> ((buff_damage list \<times> fight) res) option" where
  "RoundStart_buffs env o' w =
     (case each_buff env (alone (buff_RoundStart env o')) o' [] w of
        Inl e \<Rightarrow> Some (Inl e)
      | Inr (w1, out) \<Rightarrow> Attack env o' out w1)"

definition RoundEnd_buffs :: "fenv \<Rightarrow> pid \<Rightarrow> fight \<Rightarrow> ((buff_damage list \<times> fight) res) option" where
  "RoundEnd_buffs env o' w =
     (case each_buff env (alone (buff_RoundEnd env o')) o' [] w of
        Inl e \<Rightarrow> Some (Inl e)
      | Inr (w1, out) \<Rightarrow> Attack env o' out w1)"

definition is_charged :: "elogic \<Rightarrow> int option" where
  "is_charged l = (case l of Charge k \<Rightarrow> Some k | _ \<Rightarrow> None)"

definition is_golem :: "elogic \<Rightarrow> int option" where
  "is_golem l = (case l of SummonGolem k \<Rightarrow> Some k | _ \<Rightarrow> None)"

text \<open>\<open>charged_skillid\<close> and \<open>summon_golemid\<close> of an effect: the parameter of its first such logic.\<close>

definition first_param :: "(elogic \<Rightarrow> int option) \<Rightarrow> effect_templ \<Rightarrow> int" where
  "first_param f e = (if etype e \<noteq> EFFECT_BUFF then 0
     else case List.map_filter f (logics e) of [] \<Rightarrow> 0 | k # _ \<Rightarrow> k)"

fun GetChargedSkill :: "buff list \<Rightarrow> int" where
  "GetChargedSkill [] = 0"
| "GetChargedSkill (b # bs) =
     (if duration b = 1 \<and> first_param is_charged (effect b) \<noteq> 0 then first_param is_charged (effect b) else GetChargedSkill bs)"

fun GetGolemId :: "buff list \<Rightarrow> int" where
  "GetGolemId [] = 0"
| "GetGolemId (b # bs) = (if first_param is_golem (effect b) \<noteq> 0 then first_param is_golem (effect b) else GetGolemId bs)"

end
