(* ===== verification/BuffRounds.thy ===== *)
theory BuffRounds
  imports BuffWrapper
begin

unbundle bit_operations_syntax

text \<open>
  The loops of \<open>BuffWrapper\<close> over the buffs of a unit, and the loop that deals the damage of buffs:
  every hit that a buff produces is of a lower rank than the hit it answers, so the loop comes to an end.
\<close>

section \<open>The loops\<close>

lemma each_logic_inv:
  assumes "each_logic h ls s = Inr s'" "P s" "\<And>l s s'. l \<in> set ls \<Longrightarrow> P s \<Longrightarrow> h l s = Inr s' \<Longrightarrow> P s'"
  shows "P s'"
  using assms by (induction ls arbitrary: s) (auto simp: bindr_Inr_iff)

lemma for_each_rule:
  assumes "for_each h d kept bs s = Inr (vec, s')" "J (kept @ bs) s"
    and "\<And>kept b bs s b1 s1. J (kept @ b # bs) s \<Longrightarrow> h (kept @ b # bs) (length kept) s = Inr (b1, s1) \<Longrightarrow> J (kept @ b1 # bs) s1"
    and "\<And>kept b bs s s1. J (kept @ b # bs) s \<Longrightarrow> IsTimeout b \<Longrightarrow> d b s = Inr s1 \<Longrightarrow> J (kept @ bs) s1"
  shows "J vec s'"
  using assms(1,2)
proof (induction bs arbitrary: kept s)
  case (Cons b bs)
  obtain b1 s1 where h: "h (kept @ b # bs) (length kept) s = Inr (b1, s1)" using Cons.prems(1) by (auto simp: bindr_Inr_iff)
  have J: "J (kept @ b1 # bs) s1" using assms(3) Cons.prems(2) h by blast
  show ?case
  proof (cases "IsTimeout b1")
    case True
    then obtain s2 where s2: "d b1 s1 = Inr s2" "for_each h d kept bs s2 = Inr (vec, s')"
      using Cons.prems(1) h by (auto simp: bindr_Inr_iff)
    show ?thesis by (rule Cons.IH [OF s2(2)]) (rule assms(4) [OF J True s2(1)])
  next
    case False
    then have "for_each h d (kept @ [b1]) bs s1 = Inr (vec, s')" using Cons.prems(1) h by simp
    then show ?thesis by (rule Cons.IH) (use J in simp)
  qed
qed simp

lemma each_buff_rule:
  assumes "each_buff env h o' s w = Inr (w', s')" "J (buff_vec w o') w s"
    and "\<And>kept b bs w s b1 w1 s1. J (kept @ b # bs) w s \<Longrightarrow> h o' (kept @ b # bs) (length kept) (w, s) = Inr (b1, w1, s1) \<Longrightarrow> J (kept @ b1 # bs) w1 s1"
    and "\<And>kept b bs w s w1. J (kept @ b # bs) w s \<Longrightarrow> Detach env o' b w = Inr w1 \<Longrightarrow> J (kept @ bs) w1 s"
  shows "\<exists>vec w1. w' = set_vec o' vec w1 \<and> J vec w1 s'"
proof -
  let ?d = "\<lambda>b (w, s). bindr (Detach env o' b w) (\<lambda>w1. Inr (w1, s))"
  obtain vec w1 where run: "for_each (h o') ?d [] (buff_vec w o') (w, s) = Inr (vec, w1, s')" "w' = set_vec o' vec w1"
    using assms(1) by (auto simp: each_buff_def bindr_Inr_iff)
  have "case (w1, s') of (w, s) \<Rightarrow> J vec w s"
  proof (rule for_each_rule [OF run(1), where J = "\<lambda>vec (w, s). J vec w s"], goal_cases)
    case 1
    then show ?case using assms(2) by simp
  next
    case (2 kept b bs s b1 s1)
    then show ?case using assms(3) by (cases s, cases s1) blast
  next
    case (3 kept b bs s s1)
    then show ?case using assms(4) by (cases s, cases s1) (auto simp: bindr_Inr_iff)
  qed
  with run(2) show ?thesis by auto
qed

section \<open>The damage of buffs comes to an end\<close>

definition all_shield :: "damage list \<Rightarrow> bool" where
  "all_shield ds \<longleftrightarrow> set (List.map dtype ds) \<subseteq> {DAMAGE_SHIELD}"

definition rank :: "pid \<Rightarrow> damage list \<Rightarrow> nat" where
  "rank a ds = (if a = 0 \<and> all_shield ds then 0 else if a = 0 \<or> all_shield ds then 1 else 2)"

definition rank_below :: "nat \<Rightarrow> buff_damage list \<Rightarrow> bool" where
  "rank_below r out \<longleftrightarrow> list_all (\<lambda>d. rank (bd_attacker d) (bd_dmgs d) < r) out"

text \<open>What the handlers of an attack keep: the attacker, the types of the damage, and the ranks of what they add.\<close>

definition adds :: "attack_msg \<Rightarrow> buff_damage list \<Rightarrow> attack_msg \<Rightarrow> buff_damage list \<Rightarrow> bool" where
  "adds m out m' out' \<longleftrightarrow> am_attacker m' = am_attacker m \<and> List.map dtype (am_dmgs m') = List.map dtype (am_dmgs m) \<and>
     (\<exists>new. out' = out @ new \<and> rank_below (rank (am_attacker m) (am_dmgs m)) new)"

lemma rank_types: "List.map dtype ds' = List.map dtype ds \<Longrightarrow> rank a ds' = rank a ds"
  unfolding rank_def all_shield_def by simp

lemma adds_refl: "adds m out m out"
  by (simp add: adds_def rank_below_def)

lemma adds_trans:
  assumes "adds m out m1 out1" "adds m1 out1 m2 out2"
  shows "adds m out m2 out2"
proof -
  have "rank (am_attacker m1) (am_dmgs m1) = rank (am_attacker m) (am_dmgs m)"
    using assms(1) rank_types unfolding adds_def by metis
  with assms show ?thesis unfolding adds_def rank_below_def by auto
qed

lemma shield_loop_types: "shield_loop env t p h ds = (h1, ds1, ab) \<Longrightarrow> List.map dtype ds1 = List.map dtype ds \<and> all_shield ab \<and> (all_shield ds \<longrightarrow> ab = [])"
  by (induction env t p h ds arbitrary: h1 ds1 ab rule: shield_loop.induct)
    (auto simp: Let_def all_shield_def CanShield_def DAMAGE_SHIELD_def SHIELD_VALUE_def split: prod.splits if_splits)

lemma wounds_shield: "all_shield ds \<Longrightarrow> shares env p ds = []"
  by (auto simp: shares_def all_shield_def is_wound_def filter_empty_conv)


lemma rank_zero: "rank a ds = 0 \<longleftrightarrow> a = 0 \<and> all_shield ds"
  by (simp add: rank_def)

lemma rank_shield: "all_shield ds \<Longrightarrow> rank a ds = (if a = 0 then 0 else 1)"
  by (simp add: rank_def)

lemma rank_nobody: "rank 0 ds = (if all_shield ds then 0 else 1)"
  by (simp add: rank_def)

lemma NormalShield_adds:
  assumes "buff_NormalShield env o' vec i (w, m, out) = Inr (b1, w1, m1, out1)"
  shows "adds m out m1 out1"
proof -
  let ?P = "\<lambda>s :: bool \<times> buff \<times> attack_msg \<times> buff_damage list. case s of (a, b, m1, out1) \<Rightarrow> adds (m\<lparr>am_buff := Some i\<rparr>) out m1 out1"
  obtain a b where run: "each_logic (logic_NormalShield env o') (logics (effect (vec ! i))) (False, vec ! i, m\<lparr>am_buff := Some i\<rparr>, out) = Inr (a, b, m1, out1)"
    using assms by (auto simp: buff_NormalShield_def bindr_Inr_iff)
  have "?P (a, b, m1, out1)"
  proof (rule each_logic_inv [OF run])
    show "?P (False, vec ! i, m\<lparr>am_buff := Some i\<rparr>, out)" by (simp add: adds_refl)
  next
    fix l and s s' :: "bool \<times> buff \<times> attack_msg \<times> buff_damage list"
    assume P: "?P s" and l: "logic_NormalShield env o' l s = Inr s'"
    obtain a b m2 out2 where s: "s = (a, b, m2, out2)" by (cases s)
    show "?P s'"
    proof (cases l)
      case (NormalShield t f p)
      obtain h1 ds1 ab where sl: "shield_loop env t p (hp b) (am_dmgs m2) = (h1, ds1, ab)" by (cases "shield_loop env t p (hp b) (am_dmgs m2)")
      note types = shield_loop_types [OF sl]
      have "adds m2 out2 (m2\<lparr>am_dmgs := ds1\<rparr>) (if ab \<noteq> [] then out2 @ [hit_out (templ_id (am_effect m2)) (am_attacker m2) o' (sn b) ab] else out2)"
        using types by (auto simp: adds_def rank_below_def hit_out_def rank_def)
      from adds_trans [OF _ this] P l show ?thesis unfolding s NormalShield by (auto simp: sl split: if_splits)
    qed (use P l s in auto)
  qed
  then show ?thesis by (simp add: adds_def)
qed

lemma Rebound_adds:
  assumes "buff_Rebound env o' vec i (w, m, out) = Inr (b1, w1, m1, out1)"
  shows "adds m out m1 out1"
proof -
  let ?P = "\<lambda>s :: bool \<times> attack_msg \<times> buff_damage list. case s of (a, m1, out1) \<Rightarrow> adds m out m1 out1"
  obtain a where run: "each_logic (logic_Rebound env o' vec) (logics (effect (vec ! i))) (False, m, out) = Inr (a, m1, out1)"
    using assms by (auto simp: buff_Rebound_def bindr_Inr_iff)
  have "?P (a, m1, out1)"
  proof (rule each_logic_inv [OF run])
    show "?P (False, m, out)" by (simp add: adds_refl)
  next
    fix l and s s' :: "bool \<times> attack_msg \<times> buff_damage list"
    assume P: "?P s" and l: "logic_Rebound env o' vec l s = Inr s'"
    obtain a m2 out2 where s: "s = (a, m2, out2)" by (cases s)
    show "?P s'"
    proof (cases l)
      case (ReboundShield p)
      show ?thesis
      proof (cases "am_attacker m2 = 0")
        case False
        obtain b where "deref (am_buff m2) vec = Inr b" using l False unfolding s ReboundShield by (auto simp: bindr_Inr_iff)
        moreover have "adds m2 out2 m2 (if shares env p (am_dmgs m2) \<noteq> [] then out2 @ [hit_out (templ_id (am_effect m2)) 0 o' (sn b) (shares env p (am_dmgs m2))] else out2)"
          using wounds_shield [of "am_dmgs m2" env p] False by (auto simp: adds_def rank_below_def hit_out_def rank_def)
        ultimately show ?thesis using P l False unfolding s ReboundShield by (auto simp: Let_def elim: adds_trans)
      qed (use P l s ReboundShield in auto)
    qed (use P l s in auto)
  qed
  then show ?thesis by simp
qed

lemma LifeChain_adds:
  assumes "buff_LifeChain env o' vec i (w, m, out) = Inr (b1, w1, m1, out1)"
  shows "adds m out m1 out1"
proof -
  let ?P = "\<lambda>s :: bool \<times> attack_msg \<times> buff_damage list. case s of (a, m1, out1) \<Rightarrow> adds m out m1 out1"
  obtain a where run: "each_logic (logic_LifeChain env o' vec w) (logics (effect (vec ! i))) (False, m, out) = Inr (a, m1, out1)"
    using assms by (auto simp: buff_LifeChain_def bindr_Inr_iff)
  have "?P (a, m1, out1)"
  proof (rule each_logic_inv [OF run])
    show "?P (False, m, out)" by (simp add: adds_refl)
  next
    fix l and s s' :: "bool \<times> attack_msg \<times> buff_damage list"
    assume P: "?P s" and l: "logic_LifeChain env o' vec w l s = Inr s'"
    obtain a m2 out2 where s: "s = (a, m2, out2)" by (cases s)
    show "?P s'"
    proof (cases l)
      case (LifeChain p)
      show ?thesis
      proof (cases "am_attacker m2 = 0")
        case False
        obtain b where b: "deref (am_buff m2) vec = Inr b" using l False unfolding s LifeChain by (auto simp: bindr_Inr_iff)
        have below: "rank 0 (shares env p (am_dmgs m2)) < rank (am_attacker m2) (am_dmgs m2)"
          using wounds_shield [of "am_dmgs m2" env p] False by (auto simp: rank_def all_shield_def)
        have "adds m2 out2 m2 (out2 @ List.map (\<lambda>e. hit_out (templ_id (am_effect m2)) 0 e (sn b) (shares env p (am_dmgs m2)))
            (filter (\<lambda>e. e \<noteq> 0 \<and> InLifeChain env w e b o') (enemies env o')))"
          using below by (auto simp: adds_def rank_below_def hit_out_def list_all_iff)
        then show ?thesis using P l False b unfolding s LifeChain by (auto simp: Let_def elim: adds_trans)
      qed (use P l s LifeChain in auto)
    qed (use P l s in auto)
  qed
  then show ?thesis by simp
qed


lemma each_buff_adds:
  assumes "each_buff env h o' (m, out) w = Inr (w', m', out')"
    and "\<And>vec i w m out b1 w1 m1 out1. h o' vec i (w, m, out) = Inr (b1, w1, m1, out1) \<Longrightarrow> adds m out m1 out1"
  shows "adds m out m' out'"
proof -
  have "\<exists>vec w1. w' = set_vec o' vec w1 \<and> (case (m', out') of (m1, out1) \<Rightarrow> adds m out m1 out1)"
  proof (rule each_buff_rule [OF assms(1), where J = "\<lambda>_ _ (m1, out1). adds m out m1 out1"], goal_cases)
    case 1
    then show ?case by (simp add: adds_refl)
  next
    case (2 kept b bs w s b1 w1 s1)
    obtain m2 out2 m3 out3 where s: "s = (m2, out2)" "s1 = (m3, out3)" by (cases s, cases s1) blast
    then show ?case using 2 assms(2) adds_trans by (auto intro: adds_trans)
  qed
  then show ?thesis by simp
qed

lemma map_revise_types: "List.map dtype (List.map (revise_damage r) ds) = List.map dtype ds"
  by (simp add: revise_damage_def Let_def)

lemma BeAttacked_steps:
  assumes run: "BeAttacked env o' m out w = Inr (st, m', out', w')" and no: "\<not> (etype (am_effect m) = EFFECT_BUFF \<and> am_dmgs m = [])"
  obtains w1 w2 m2 w3 m3 out3 w4 m4 out4 w5 m5 ds where
    "purify_logics env o' (logics (am_effect m)) w = Inr w1" "AttackedRevise env o' m w1 = Inr (w2, m2)"
    "each_buff env (buff_NormalShield env) o' (m2, out) w2 = Inr (w3, m3, out3)"
    "each_buff env (buff_Rebound env) o' (m3, out3) w3 = Inr (w4, m4, out4)"
    "each_buff env (buff_LifeChain env) o' (m4, out4) w4 = Inr (w5, m5, out')"
    "DoDamage env (am_attacker m5) o' (am_dmgs m5) w5 = Inr (st, ds, w')" "m' = m5\<lparr>am_dmgs := ds\<rparr>"
proof -
  note run' = run [unfolded BeAttacked_def if_not_P [OF no]]
  then obtain w1 where w1: "purify_logics env o' (logics (am_effect m)) w = Inr w1" by (auto simp: bindr_Inr_iff)
  note r1 = run' [unfolded w1 bindr_simps]
  then obtain w2 m2 where w2: "AttackedRevise env o' m w1 = Inr (w2, m2)" by (auto simp: bindr_Inr_iff)
  note r2 = r1 [unfolded w2 bindr_simps prod.case]
  then obtain w3 m3 out3 where w3: "each_buff env (buff_NormalShield env) o' (m2, out) w2 = Inr (w3, m3, out3)" by (auto simp: bindr_Inr_iff)
  note r3 = r2 [unfolded w3 bindr_simps prod.case]
  then obtain w4 m4 out4 where w4: "each_buff env (buff_Rebound env) o' (m3, out3) w3 = Inr (w4, m4, out4)" by (auto simp: bindr_Inr_iff)
  note r4 = r3 [unfolded w4 bindr_simps prod.case]
  then obtain w5 m5 out5 where w5: "each_buff env (buff_LifeChain env) o' (m4, out4) w4 = Inr (w5, m5, out5)" by (auto simp: bindr_Inr_iff)
  note r5 = r4 [unfolded w5 bindr_simps prod.case]
  then obtain ds where "DoDamage env (am_attacker m5) o' (am_dmgs m5) w5 = Inr (st, ds, w')" "m' = m5\<lparr>am_dmgs := ds\<rparr>" "out5 = out'"
    by (auto simp: bindr_Inr_iff)
  with w1 w2 w3 w4 w5 that show thesis by blast
qed

lemma BeAttacked_adds:
  assumes "BeAttacked env o' m out w = Inr (st, m', out', w')"
  shows "\<exists>new. out' = out @ new \<and> rank_below (rank (am_attacker m) (am_dmgs m)) new"
proof (cases "etype (am_effect m) = EFFECT_BUFF \<and> am_dmgs m = []")
  case True
  then have "out' = out" using assms by (auto simp: BeAttacked_def bindr_Inr_iff)
  then show ?thesis by (simp add: rank_below_def)
next
  case False
  then obtain w1 w2 m2 w3 m3 out3 w4 m4 out4 w5 m5 where
    r: "AttackedRevise env o' m w1 = Inr (w2, m2)"
    and n: "each_buff env (buff_NormalShield env) o' (m2, out) w2 = Inr (w3, m3, out3)"
    and b: "each_buff env (buff_Rebound env) o' (m3, out3) w3 = Inr (w4, m4, out4)"
    and l: "each_buff env (buff_LifeChain env) o' (m4, out4) w4 = Inr (w5, m5, out')"
    using BeAttacked_steps [OF assms] by metis
  have "adds m out m2 out" using r map_revise_types
    by (auto simp: AttackedRevise_def bindr_Inr_iff adds_def rank_below_def split: if_splits simp del: map_map)
  moreover have "adds m2 out m3 out3" by (rule each_buff_adds [OF n NormalShield_adds])
  moreover have "adds m3 out3 m4 out4" by (rule each_buff_adds [OF b Rebound_adds])
  moreover have "adds m4 out4 m5 out'" by (rule each_buff_adds [OF l LifeChain_adds])
  ultimately have "adds m out m5 out'" by (blast intro: adds_trans)
  then show ?thesis by (simp add: adds_def)
qed

lemma FindPlayer_0 [simp]: "FindPlayer env player 0 = 0"
  by (simp add: FindPlayer_def)

lemma rank_FindPlayer: "rank (FindPlayer env player a) ds \<le> rank a ds"
  by (cases "a = 0") (auto simp: rank_def)

lemma rank_below_mono: "rank_below r ds \<Longrightarrow> r \<le> r' \<Longrightarrow> rank_below r' ds"
  by (auto simp: rank_below_def list_all_iff)

lemma deal_ranks:
  assumes "deal env player ds out w = Inr (ds2, out2, w2)" "rank_below (Suc r) ds"
  shows "\<exists>new. out2 = out @ new \<and> rank_below r new"
  using assms
proof (induction ds arbitrary: out w ds2)
  case Nil
  then show ?case by (simp add: rank_below_def)
next
  case (Cons d ds)
  let ?m = "\<lparr>am_attacker = FindPlayer env player (bd_attacker d), am_effect = GetEffectTempl env (effectid d), am_dmgs = bd_dmgs d, am_buff = None\<rparr>"
  obtain st m1 out1 w1 where b: "BeAttacked env (GetOwner env (FindPlayer env player (bd_defender d))) ?m out w = Inr (st, m1, out1, w1)"
    using Cons.prems(1) by (auto simp: Let_def bindr_Inr_iff split: if_splits)
  then obtain ds3 where rest: "deal env player ds out1 w1 = Inr (ds3, out2, w2)"
    using Cons.prems(1) by (auto simp: Let_def bindr_Inr_iff split: if_splits)
  obtain new1 where new1: "out1 = out @ new1" "rank_below (rank (am_attacker ?m) (am_dmgs ?m)) new1"
    using BeAttacked_adds [OF b] by blast
  have "rank (am_attacker ?m) (am_dmgs ?m) \<le> r"
    using rank_FindPlayer [of env player "bd_attacker d" "bd_dmgs d"] Cons.prems(2) by (simp add: rank_below_def)
  then have "rank_below r new1" using new1(2) rank_below_mono by blast
  moreover obtain new2 where "out2 = out1 @ new2" "rank_below r new2"
    using Cons.IH [OF rest] Cons.prems(2) by (auto simp: rank_below_def)
  ultimately show ?case using new1(1) by (auto simp: rank_below_def)
qed

lemma Attack_loop_returns: "rank_below r ds \<Longrightarrow> \<exists>x. Attack_loop env player dealt ds w = Some x"
proof (induction r arbitrary: dealt ds w)
  case 0
  then have "ds = []" by (cases ds) (auto simp: rank_below_def)
  then show ?case by (simp add: Attack_loop.simps)
next
  case (Suc r)
  show ?case
  proof (cases "deal env player ds [] w")
    case (Inl e)
    then show ?thesis by (simp add: Attack_loop.simps)
  next
    case (Inr x)
    obtain ds1 new w1 where x: "x = (ds1, new, w1)" by (cases x)
    have "rank_below r new" using deal_ranks [OF _ Suc.prems] Inr x by fastforce
    from Suc.IH [OF this] Inr x show ?thesis by (subst Attack_loop.simps) auto
  qed
qed

lemma Attack_returns: "\<exists>x. Attack env player ds w = Some x"
proof -
  have "rank_below 3 ds" by (auto simp: rank_below_def rank_def list_all_iff)
  then show ?thesis unfolding Attack_def by (rule Attack_loop_returns)
qed

text \<open>
  C10: The damage of buffs comes to an end: whatever buffs the units of a fight have, with shields that
  absorb, return and pass on damage to others with such buffs, what the buffs of a unit do when its round
  starts and when it ends is done in finitely many steps.
\<close>

theorem rounds_return: "(\<exists>x. RoundStart_buffs env o' w = Some x) \<and> (\<exists>y. RoundEnd_buffs env o' w = Some y)"
  using Attack_returns by (auto simp: RoundStart_buffs_def RoundEnd_buffs_def split: sum.split)

end
