(* ===== verification/BuffBooks.thy ===== *)
theory BuffBooks
  imports BuffRounds
begin

unbundle bit_operations_syntax

text \<open>
  The books of the client: it is told of every buff that a unit gets and loses, under numbers that are
  distinct until the counter comes round.
\<close>

section \<open>What the client is told\<close>

text \<open>The buffs a client shows for a unit, by their numbers.\<close>

definition see :: "pid \<Rightarrow> int set \<Rightarrow> ucall \<Rightarrow> int set" where
  "see o' S c = (case c of CAttach p n _ _ \<Rightarrow> if p = o' then insert n S else S
     | CDetach p n _ _ \<Rightarrow> if p = o' then S - {n} else S | _ \<Rightarrow> S)"

definition seen :: "ucall list \<Rightarrow> pid \<Rightarrow> int set" where
  "seen cs o' = foldl (see o') {} cs"

definition attaches :: "ucall list \<Rightarrow> int" where
  "attaches cs = int (length (filter (\<lambda>c. case c of CAttach _ _ _ _ \<Rightarrow> True | _ \<Rightarrow> False) cs))"

definition books :: "pid \<Rightarrow> buff list \<Rightarrow> fight \<Rightarrow> bool" where
  "books o' vec w \<longleftrightarrow> distinct (List.map sn vec) \<and> seen (calls w) o' = sn ` set vec \<and>
     (\<forall>b \<in> set vec. sn b \<le> next_sn w \<and> caster b \<noteq> 0)"

text \<open>The numbers of buffs are unique until the counter of 32 bits comes round.\<close>

definition fight_inv :: "fight \<Rightarrow> bool" where
  "fight_inv w \<longleftrightarrow> (attaches (calls w) < 4294967295 \<longrightarrow>
     0 \<le> next_sn w \<and> next_sn w \<le> attaches (calls w) \<and> (\<forall>o'. books o' (buff_vec w o') w))"

text \<open>Only calls that do not attach or detach were made.\<close>

definition quiet :: "fight \<Rightarrow> fight \<Rightarrow> bool" where
  "quiet w w' \<longleftrightarrow> buff_vec w' = buff_vec w \<and> next_sn w' = next_sn w \<and> seen (calls w') = seen (calls w) \<and>
     attaches (calls w') = attaches (calls w)"

lemma quiet_refl [simp]: "quiet w w"
  by (simp add: quiet_def)

lemma quiet_trans: "quiet w w1 \<Longrightarrow> quiet w1 w2 \<Longrightarrow> quiet w w2"
  by (simp add: quiet_def)

lemma seen_tell: "seen (calls (tell c w)) o' = see o' (seen (calls w) o') c"
  by (simp add: seen_def tell_def)

lemma tell_simps [simp]: "buff_vec (tell c w) = buff_vec w" "next_sn (tell c w) = next_sn w" "calls (tell c w) = calls w @ [c]"
  by (simp_all add: tell_def)

lemma set_vec_simps [simp]: "buff_vec (set_vec o' vec w) = (buff_vec w)(o' := vec)" "next_sn (set_vec o' vec w) = next_sn w"
  "calls (set_vec o' vec w) = calls w" "set_vec o' v2 (set_vec o' v1 w) = set_vec o' v2 w" "set_vec o' (buff_vec w o') w = w"
  by (simp_all add: set_vec_def)

lemma see_others [simp]:
  "see o' S (CDamage p v a) = S" "see o' S (CHeal p v a) = S" "see o' S (CInc p i v) = S" "see o' S (CDec p i v) = S"
  "see o' S (CRevive p v) = S" "see o' S (CControl p t x) = S" "see o' S (CCharging p x) = S" "see o' S (CCharged p x) = S"
  "see o' S (CGolem p g) = S"
  "see o' S (CGenPower p) = S" "see o' S (CPowerGolem p v) = S" "see o' S (CTakeItem p i v) = S" "see o' S (CAttach p n e c) = (if p = o' then insert n S else S)"
  "see o' S (CDetach p n e c) = (if p = o' then S - {n} else S)"
  by (simp_all add: see_def)

lemma seen_snoc [simp]: "seen (cs @ [c]) = (\<lambda>o'. see o' (seen cs o') c)"
  by (rule ext) (simp add: seen_def)

lemma attaches_snoc [simp]: "attaches (cs @ [c]) = attaches cs + (case c of CAttach _ _ _ _ \<Rightarrow> 1 | _ \<Rightarrow> 0)"
  by (simp add: attaches_def split: ucall.split)

lemma quiet_ChangeProp: "PlayerChangeProp env a o' d w = Inr (st, d1, w1) \<Longrightarrow> quiet w w1"
  by (auto simp: PlayerChangeProp_def Let_def quiet_def assertx_Inr_iff split: if_splits)

lemma quiet_apply: "apply_prop env c o' p f cap k w = Inr w1 \<Longrightarrow> quiet w w1"
  using quiet_ChangeProp by (fastforce simp: apply_prop_def bindr_Inr_iff)

lemma quiet_SetStatus: "quiet w (SetStatus o' t x w)"
  by (simp add: SetStatus_def quiet_def)

lemma quiet_logic_Attach: "logic_Attach env c o' l w = Inr w1 \<Longrightarrow> quiet w w1"
  using quiet_apply quiet_SetStatus by (cases l) (auto simp: quiet_def)

lemma quiet_logic_Enhance: "logic_Enhance env c o' l w = Inr w1 \<Longrightarrow> quiet w w1"
  using quiet_apply by (cases l) (auto simp: quiet_def)

lemma quiet_logic_Detach: "logic_Detach env c o' l w = Inr w1 \<Longrightarrow> quiet w w1"
  using quiet_apply quiet_SetStatus by (cases l) (auto simp: quiet_def)

lemma quiet_each:
  assumes "each_logic h ls w = Inr w1" "\<And>l w w1. h l w = Inr w1 \<Longrightarrow> quiet w w1"
  shows "quiet w w1"
  by (rule each_logic_inv [OF assms(1), where P = "quiet w"]) (use assms(2) quiet_trans in \<open>auto intro: quiet_trans\<close>)

lemma Attach_marks:
  assumes "Attach env o' b w = Inr w1"
  shows "caster b \<noteq> 0 \<and> quiet (tell (CAttach o' (sn b) (templ_id (effect b)) (caster b)) w) w1"
  using assms quiet_each [OF _ quiet_logic_Attach] by (auto simp: Attach_def Let_def split: if_splits)

lemma Enhance_quiet: "Enhance env o' b w = Inr w1 \<Longrightarrow> quiet w w1"
  using quiet_each [OF _ quiet_logic_Enhance] by (auto simp: Enhance_def split: if_splits)

lemma Detach_marks:
  assumes "Detach env o' b w = Inr w1"
  shows "quiet (tell (CDetach o' (sn b) (templ_id (effect b)) (caster b)) w) w1"
  using assms quiet_each [OF _ quiet_logic_Detach] by (auto simp: Detach_def Let_def split: if_splits)

text \<open>The books of a unit whose vector is being worked on.\<close>

definition in_order :: "pid \<Rightarrow> buff list \<Rightarrow> fight \<Rightarrow> bool" where
  "in_order o' vec w \<longleftrightarrow> fight_inv (set_vec o' vec w)"

lemma in_order_iff:
  "in_order o' vec w \<longleftrightarrow> (attaches (calls w) < 4294967295 \<longrightarrow>
     0 \<le> next_sn w \<and> next_sn w \<le> attaches (calls w) \<and> books o' vec w \<and> (\<forall>p. p \<noteq> o' \<longrightarrow> books p (buff_vec w p) w))"
  unfolding in_order_def fight_inv_def books_def by (simp add: fun_upd_apply) (metis (no_types, lifting))

lemma in_order_start: "fight_inv w \<Longrightarrow> in_order o' (buff_vec w o') w"
  by (simp add: in_order_def)

lemma books_quiet: "quiet w w1 \<Longrightarrow> books o' vec w1 = books o' vec w"
  by (simp add: quiet_def books_def)

lemma in_order_quiet: "quiet w w1 \<Longrightarrow> in_order o' vec w1 = in_order o' vec w"
  by (simp add: in_order_def fight_inv_def quiet_def books_def)

lemma in_order_change:
  "sn b1 = sn b \<Longrightarrow> caster b1 = caster b \<Longrightarrow> in_order o' (kept @ b1 # bs) w = in_order o' (kept @ b # bs) w"
  by (simp add: in_order_def fight_inv_def books_def)

lemma in_order_Detach:
  assumes "in_order o' (kept @ b # bs) w" "Detach env o' b w = Inr w1"
  shows "in_order o' (kept @ bs) w1"
proof -
  have "in_order o' (kept @ bs) (tell (CDetach o' (sn b) (templ_id (effect b)) (caster b)) w)"
    using assms(1) unfolding in_order_iff books_def by (auto; metis image_eqI)
  then show ?thesis using in_order_quiet [OF Detach_marks [OF assms(2)]] by blast
qed

definition keeps_id :: "(pid \<Rightarrow> buff list \<Rightarrow> nat \<Rightarrow> fight \<times> 's \<Rightarrow> (buff \<times> fight \<times> 's) res) \<Rightarrow> bool" where
  "keeps_id h \<longleftrightarrow> (\<forall>o' vec i w s b1 w1 s1. i < length vec \<longrightarrow> h o' vec i (w, s) = Inr (b1, w1, s1) \<longrightarrow>
     sn b1 = sn (vec ! i) \<and> caster b1 = caster (vec ! i) \<and> quiet w w1)"

lemma each_buff_inv:
  assumes "each_buff env h o' s w = Inr (w', s')" "fight_inv w" "keeps_id h"
  shows "fight_inv w'"
proof -
  have "\<exists>vec w1. w' = set_vec o' vec w1 \<and> in_order o' vec w1"
  proof (rule each_buff_rule [OF assms(1), where J = "\<lambda>vec w _. in_order o' vec w"], goal_cases)
    case 1
    then show ?case using assms(2) by (rule in_order_start)
  next
    case (2 kept b bs w s b1 w1 s1)
    have "sn b1 = sn b \<and> caster b1 = caster b \<and> quiet w w1"
      using assms(3) [unfolded keeps_id_def, rule_format, OF _ 2(2)] by simp
    then show ?case using 2(1) in_order_change in_order_quiet by blast
  next
    case (3 kept b bs w s w1)
    then show ?case by (rule in_order_Detach)
  qed
  then show ?thesis by (auto simp: in_order_def)
qed

subsection \<open>The handlers keep the numbers of the buffs\<close>

lemma DecDuration_id [simp]: "sn (DecDuration b) = sn b" "caster (DecDuration b) = caster b"
  by (simp_all add: DecDuration_def)

lemma DecActiveNum_id [simp]: "sn (DecActiveNum b) = sn b" "caster (DecActiveNum b) = caster b"
  by (simp_all add: DecActiveNum_def)

lemma if_DecActiveNum_id [simp]:
  "sn (if a then DecActiveNum b else b) = sn b" "caster (if a then DecActiveNum b else b) = caster b"
  by simp_all

lemma keeps_id_alone:
  assumes "\<And>b w s b1 w1 s1. h b (w, s) = Inr (b1, w1, s1) \<Longrightarrow> sn b1 = sn b \<and> caster b1 = caster b \<and> quiet w w1"
  shows "keeps_id (alone h)"
  using assms by (auto simp: keeps_id_def alone_def)

lemma quiet_tell: "(case c of CAttach _ _ _ _ \<Rightarrow> False | CDetach _ _ _ _ \<Rightarrow> False | _ \<Rightarrow> True) \<Longrightarrow> quiet w (tell c w)"
  by (cases c) (simp_all add: quiet_def)

lemma quiet_charge: "quiet w (charge_RoundEnd o' b w)"
  by (auto simp: charge_RoundEnd_def intro!: quiet_refl quiet_trans [OF quiet_tell quiet_tell])

lemma quiet_logic_node: "logic_node env u o' b l (a, w, out) = Inr (a1, w1, out1) \<Longrightarrow> quiet w w1"
  by (cases l) (auto simp: Let_def bindr_Inr_iff quiet_charge)

lemma quiet_activate:
  assumes "activate env u o' b (w, out) = Inr (b1, w1, out1)"
  shows "sn b1 = sn b \<and> caster b1 = caster b \<and> quiet w w1"
proof -
  obtain a where run: "each_logic (logic_node env u o' b) (logics (effect b)) (False, w, out) = Inr (a, w1, out1)"
    and b1: "b1 = (if a then DecActiveNum b else b)"
    using assms by (auto simp: activate_def bindr_Inr_iff)
  have "case (a, w1, out1) of (_, w1, _) \<Rightarrow> quiet w w1"
    by (rule each_logic_inv [OF run, where P = "\<lambda>(_, w1, _). quiet w w1"]) (auto intro: quiet_trans quiet_logic_node)
  with b1 show ?thesis by simp
qed

lemma keeps_RoundStart: "keeps_id (alone (buff_RoundStart env o'))"
  by (rule keeps_id_alone) (use quiet_activate in \<open>fastforce simp: buff_RoundStart_def bindr_Inr_iff split: if_splits\<close>)

lemma keeps_RoundEnd: "keeps_id (alone (buff_RoundEnd env o'))"
  by (rule keeps_id_alone) (use quiet_activate in \<open>fastforce simp: buff_RoundEnd_def bindr_Inr_iff split: if_splits\<close>)

lemma world_each:
  assumes "each_logic h ls (a, w, s) = Inr (a1, w1, s1)" "\<And>l a w s a1 w1 s1. h l (a, w, s) = Inr (a1, w1, s1) \<Longrightarrow> w1 = w"
  shows "w1 = w"
proof -
  have "case (a1, w1, s1) of (_, w1, _) \<Rightarrow> w1 = w"
    by (rule each_logic_inv [OF assms(1), where P = "\<lambda>(_, w1, _). w1 = w"]) (use assms(2) in auto)
  then show ?thesis by simp
qed

lemma logic_Revise_world: "logic_Revise env want b l (a, w, s) = Inr (a1, w1, s1) \<Longrightarrow> w1 = w"
  by (cases l) (auto split: if_splits)

lemma logic_CastRevise_world: "logic_CastRevise env b l (a, w, s) = Inr (a1, w1, s1) \<Longrightarrow> w1 = w"
  by (cases l) (auto split: if_splits)

lemma logic_GetTarget_world: "logic_GetTarget env b l (a, w, s) = Inr (a1, w1, s1) \<Longrightarrow> w1 = w"
  by (cases l) (auto split: if_splits)

lemma keeps_Revise: "keeps_id (alone (buff_Revise env want))"
  by (rule keeps_id_alone) (auto simp: buff_Revise_def bindr_Inr_iff dest!: world_each [OF _ logic_Revise_world])

lemma keeps_CastRevise: "keeps_id (alone (buff_CastRevise env))"
  by (rule keeps_id_alone) (auto simp: buff_CastRevise_def bindr_Inr_iff dest!: world_each [OF _ logic_CastRevise_world])

lemma keeps_GetTarget: "keeps_id (alone (buff_GetTarget env))"
  by (rule keeps_id_alone) (auto simp: buff_GetTarget_def bindr_Inr_iff dest!: world_each [OF _ logic_GetTarget_world])

lemma logic_NormalShield_id: "logic_NormalShield env o' l (a, b, m, out) = Inr (a1, b1, m1, out1) \<Longrightarrow> sn b1 = sn b \<and> caster b1 = caster b"
  by (cases l) (auto split: prod.splits)

lemma keeps_NormalShield: "keeps_id (buff_NormalShield env)"
proof -
  have "sn b2 = sn b \<and> caster b2 = caster b"
    if run: "each_logic (logic_NormalShield env o') ls (a, b, m, out) = Inr (a2, b2, m2, out2)" for o' ls a b m out a2 b2 m2 out2
  proof -
    have "case (a2, b2, m2, out2) of (_, b2, _) \<Rightarrow> sn b2 = sn b \<and> caster b2 = caster b"
      by (rule each_logic_inv [OF run, where P = "\<lambda>(_, b2, _). sn b2 = sn b \<and> caster b2 = caster b"])
        (use logic_NormalShield_id in \<open>fastforce+\<close>)
    then show ?thesis by simp
  qed
  then show ?thesis by (fastforce simp: keeps_id_def buff_NormalShield_def bindr_Inr_iff)
qed

lemma keeps_Rebound: "keeps_id (buff_Rebound env)"
  by (auto simp: keeps_id_def buff_Rebound_def bindr_Inr_iff)

lemma keeps_LifeChain: "keeps_id (buff_LifeChain env)"
  by (auto simp: keeps_id_def buff_LifeChain_def bindr_Inr_iff)

subsection \<open>Attaching and erasing\<close>

lemma in_order_repeat:
  assumes "in_order o' (kept @ b # bs) w"
  shows "in_order o' (kept @ b # bs) (tell (CAttach o' (sn b) e c) w)"
  using assms unfolding in_order_iff books_def by auto

lemma buff_init_id [simp]: "sn (buff_init env b w) = sn b" "caster (buff_init env b w) = caster b" "effect (buff_init env b w) = effect b"
  by (simp_all add: buff_init_def Let_def)

lemma UpdateBuff_order:
  assumes "in_order o' (kept @ b # bs) w" "UpdateBuff env o' b w = Inr (b1, w1)"
  shows "in_order o' (kept @ b1 # bs) w1"
proof -
  let ?b = "b\<lparr>duration := GetCurTime env o' + time (effect b), num := info_num (effect b)\<rparr>"
  have r: "in_order o' (kept @ ?b # bs) w" using assms(1) by (subst in_order_change [of _ b]) simp_all
  have same: "in_order o' (kept @ b1 # bs) v = in_order o' (kept @ ?b # bs) v" for v
    by (rule in_order_change) (use assms(2) in \<open>auto simp: UpdateBuff_def Let_def bindr_Inr_iff split: if_splits\<close>)
  consider (first) w0 where "Attach env o' ?b w = Inr w0" "w1 = w0"
    | (more) w0 where "Enhance env o' ?b w = Inr w0" "w1 = tell (CAttach o' (sn ?b) (templ_id (effect ?b)) (caster ?b)) w0"
    | (full) "w1 = tell (CAttach o' (sn ?b) (templ_id (effect ?b)) (caster ?b)) w"
    using assms(2) by (auto simp: UpdateBuff_def Let_def bindr_Inr_iff split: if_splits)
  then show ?thesis
  proof cases
    case first
    with in_order_repeat [OF r] in_order_quiet Attach_marks show ?thesis unfolding same by blast
  next
    case more
    then have "in_order o' (kept @ ?b # bs) w0" using r in_order_quiet Enhance_quiet by blast
    from in_order_repeat [OF this] more show ?thesis unfolding same by blast
  next
    case full
    with in_order_repeat [OF r] show ?thesis unfolding same by blast
  qed
qed

lemma Replace_order:
  assumes "in_order o' (kept @ b # bs) w" "Replace env o' m b ins w = Inr (r, b1, ins1, w1)"
  shows "in_order o' (kept @ b1 # bs) w1"
  using assms UpdateBuff_order by (auto simp: Replace_def Let_def bindr_Inr_iff split: if_splits)

lemma replace_loop_order:
  assumes "replace_loop env o' m bs ins w = Inr (vec, ins1, w1)" "in_order o' (kept @ bs) w"
  shows "in_order o' (kept @ vec) w1"
  using assms
proof (induction bs arbitrary: kept ins w vec)
  case (Cons b bs)
  obtain r b2 ins2 w2 where R: "Replace env o' m b ins w = Inr (r, b2, ins2, w2)" using Cons.prems(1) by (auto simp: bindr_Inr_iff)
  have I: "in_order o' (kept @ b2 # bs) w2" by (rule Replace_order [OF Cons.prems(2) R])
  show ?case
  proof (cases r)
    case True
    then obtain w3 where "Detach env o' b2 w2 = Inr w3" "replace_loop env o' m bs ins2 w3 = Inr (vec, ins1, w1)"
      using Cons.prems(1) R by (auto simp: bindr_Inr_iff)
    then show ?thesis using Cons.IH in_order_Detach [OF I] by blast
  next
    case False
    then obtain vec2 where "replace_loop env o' m bs ins2 w2 = Inr (vec2, ins1, w1)" "vec = b2 # vec2"
      using Cons.prems(1) R by (auto simp: bindr_Inr_iff)
    then show ?thesis using Cons.IH [of ins2 w2 vec2 "kept @ [b2]"] I by simp
  qed
qed simp

text \<open>The same after the counter of the numbers went on, for the number that it had.\<close>

lemma in_order_Detach_at:
  assumes "in_order o' (kept @ b # bs) (w\<lparr>next_sn := x\<rparr>)" "Detach env o' b w = Inr w1"
  shows "in_order o' (kept @ bs) (w1\<lparr>next_sn := x\<rparr>)"
proof -
  let ?w = "tell (CDetach o' (sn b) (templ_id (effect b)) (caster b)) (w\<lparr>next_sn := x\<rparr>)"
  have "in_order o' (kept @ bs) ?w"
    using assms(1) unfolding in_order_iff books_def by (auto; metis image_eqI)
  moreover have "quiet ?w (w1\<lparr>next_sn := x\<rparr>)" using Detach_marks [OF assms(2)] by (simp add: quiet_def tell_def)
  ultimately show ?thesis using in_order_quiet by blast
qed

lemma make_place_order:
  assumes "make_place env o' b vec w = Inr (vec1, w1)" "in_order o' vec (w\<lparr>next_sn := x\<rparr>)"
  shows "in_order o' vec1 (w1\<lparr>next_sn := x\<rparr>) \<and> next_sn w1 = next_sn w"
proof (cases "int (length (filter (same_effect b) vec)) = info_overlap (effect b)")
  case True
  then obtain y ys where y: "dropWhile (\<lambda>x. \<not> same_effect b x) vec = y # ys" "Detach env o' y w = Inr w1"
      "vec1 = takeWhile (\<lambda>x. \<not> same_effect b x) vec @ ys"
    using assms(1) by (auto simp: make_place_def bindr_Inr_iff split: list.splits)
  have "vec = takeWhile (\<lambda>x. \<not> same_effect b x) vec @ y # ys" using y(1) by (metis takeWhile_dropWhile_id)
  then have "in_order o' (takeWhile (\<lambda>x. \<not> same_effect b x) vec @ y # ys) (w\<lparr>next_sn := x\<rparr>)" using assms(2) by metis
  from in_order_Detach_at [OF this y(2)] Detach_marks [OF y(2)] y(3) show ?thesis by (simp add: quiet_def)
qed (use assms in \<open>auto simp: make_place_def\<close>)

lemma InsertNewBuff_order:
  assumes "InsertNewBuff env o' b vec w = Inr (vec1, w1)" "in_order o' vec (w\<lparr>next_sn := x\<rparr>)" "next_sn w = u32 (x + 1)" "sn b = next_sn w"
  shows "in_order o' vec1 w1"
proof -
  obtain b1 b2 vec2 w2 where r: "make_place env o' b1 vec w = Inr (vec2, w2)" "Attach env o' b2 w2 = Inr w1" "vec1 = vec2 @ [b2]"
      "sn b2 = sn b"
    using assms(1) by (auto simp: InsertNewBuff_def Let_def bindr_Inr_iff)
  have old: "in_order o' vec2 (w2\<lparr>next_sn := x\<rparr>)" and same: "next_sn w2 = u32 (x + 1)" "sn b2 = u32 (x + 1)"
    using make_place_order [OF r(1) assms(2)] assms(3,4) r(4) by simp_all
  let ?w = "tell (CAttach o' (sn b2) (templ_id (effect b2)) (caster b2)) w2"
  note marks = Attach_marks [OF r(2)]
  have "in_order o' (vec2 @ [b2]) ?w"
    unfolding in_order_iff
  proof (intro impI)
    assume "attaches (calls ?w) < 4294967295"
    then have few: "attaches (calls w2) < 4294967294" by simp
    then have x: "0 \<le> x" "x \<le> attaches (calls w2)" and mine: "books o' vec2 (w2\<lparr>next_sn := x\<rparr>)"
      and others: "\<And>p. p \<noteq> o' \<Longrightarrow> books p (buff_vec w2 p) (w2\<lparr>next_sn := x\<rparr>)"
      using old unfolding in_order_iff by simp_all
    then have n: "u32 (x + 1) = x + 1" using few by (simp add: u32_def)
    have "books o' (vec2 @ [b2]) ?w" using mine marks same n by (auto simp: books_def)
    moreover have "books p (buff_vec ?w p) ?w" if "p \<noteq> o'" for p using others [OF that] that same n by (auto simp: books_def)
    ultimately show "0 \<le> next_sn ?w \<and> next_sn ?w \<le> attaches (calls ?w) \<and> books o' (vec2 @ [b2]) ?w \<and>
        (\<forall>p. p \<noteq> o' \<longrightarrow> books p (buff_vec ?w p) ?w)"
      using x same n by simp
  qed
  then show ?thesis using in_order_quiet marks r(3) by blast
qed

lemma AttachBuff_inv:
  assumes "AttachBuff env o' m w = Inr w1" "fight_inv w"
  shows "fight_inv w1"
proof (cases "CanAction env (calls w) o'")
  case True
  then obtain vec ins w2 where r: "replace_loop env o' m (buff_vec w o') True w = Inr (vec, ins, w2)"
    using assms(1) by (auto simp: AttachBuff_def bindr_Inr_iff)
  have I: "in_order o' vec w2" using replace_loop_order [OF r, of "[]"] in_order_start [OF assms(2)] by simp
  show ?thesis
  proof (cases ins)
    case False
    then show ?thesis using assms(1) r I True by (simp add: AttachBuff_def in_order_def)
  next
    case True
    obtain b w3 where b: "Buff_new (am_attacker m) (am_effect m) w2 = (b, w3)" by (cases "Buff_new (am_attacker m) (am_effect m) w2")
    then have new: "sn b = next_sn w3" "next_sn w3 = u32 (next_sn w2 + 1)" "w3\<lparr>next_sn := next_sn w2\<rparr> = w2"
      by (auto simp: Buff_new_def Let_def)
    obtain vec1 w4 where ins: "InsertNewBuff env o' b vec w3 = Inr (vec1, w4)" "w1 = set_vec o' vec1 w4"
      using assms(1) r b True \<open>CanAction env (calls w) o'\<close> by (auto simp: AttachBuff_def bindr_Inr_iff)
    have "in_order o' vec1 w4"
      by (rule InsertNewBuff_order [OF ins(1), of "next_sn w2"]) (use new I in simp_all)
    then show ?thesis using ins(2) by (simp add: in_order_def)
  qed
qed (use assms in \<open>simp add: AttachBuff_def\<close>)

lemma detach_all_order:
  assumes "detach_all env o' bs w = Inr w1" "in_order o' bs w"
  shows "in_order o' [] w1"
  using assms
proof (induction bs arbitrary: w)
  case (Cons b bs)
  obtain w2 where w2: "Detach env o' b w = Inr w2" "detach_all env o' bs w2 = Inr w1" using Cons.prems(1) by (auto simp: bindr_Inr_iff)
  from Cons.IH [OF w2(2)] in_order_Detach [of o' "[]" b bs, OF _ w2(1)] Cons.prems(2) show ?case by simp
qed simp

lemma ClearBuff_inv: "ClearBuff env o' w = Inr w1 \<Longrightarrow> fight_inv w \<Longrightarrow> fight_inv w1"
  using detach_all_order in_order_start by (auto simp: ClearBuff_def bindr_Inr_iff in_order_def)

lemma erase_buffs_order:
  assumes "erase_buffs env o' P i bs w = Inr (vec, w1)" "in_order o' (kept @ bs) w"
  shows "in_order o' (kept @ vec) w1"
  using assms
proof (induction bs arbitrary: kept i w vec)
  case (Cons b bs)
  show ?case
  proof (cases "P i b")
    case True
    then obtain w2 where "Detach env o' b w = Inr w2" "erase_buffs env o' P i bs w2 = Inr (vec, w1)"
      using Cons.prems(1) by (auto simp: bindr_Inr_iff)
    then show ?thesis using Cons.IH in_order_Detach [OF Cons.prems(2)] by blast
  next
    case False
    then obtain vec2 where "erase_buffs env o' P (Suc i) bs w = Inr (vec2, w1)" "vec = b # vec2"
      using Cons.prems(1) by (auto simp: bindr_Inr_iff)
    then show ?thesis using Cons.IH [of "Suc i" w vec2 "kept @ [b]"] Cons.prems(2) by simp
  qed
qed simp

lemma erase_where_inv: "erase_where env o' P w = Inr w1 \<Longrightarrow> fight_inv w \<Longrightarrow> fight_inv w1"
  using erase_buffs_order [where kept = "[]"] in_order_start by (fastforce simp: erase_where_def bindr_Inr_iff in_order_def)

lemma fight_inv_quiet: "quiet w w1 \<Longrightarrow> fight_inv w1 = fight_inv w"
  by (simp add: fight_inv_def quiet_def books_def)

lemma quiet_drop_random: "drop_random env m xs w = (ys, w1) \<Longrightarrow> quiet w w1"
proof (induction env m xs w rule: drop_random.induct)
  case (2 env m x xs w)
  then show ?case by (auto simp: quiet_def Let_def split: if_splits)
qed simp

lemma logic_Purify_inv: "logic_Purify env o' m gs w = Inr w1 \<Longrightarrow> fight_inv w \<Longrightarrow> fight_inv w1"
  by (auto simp: logic_Purify_def Let_def split: prod.splits) (metis erase_where_inv fight_inv_quiet quiet_drop_random)+

lemma purify_inv: "purify_logics env o' ls w = Inr w1 \<Longrightarrow> fight_inv w \<Longrightarrow> fight_inv w1"
proof (induction env o' ls w rule: purify_logics.induct)
  case (2 env o' m gs ls w)
  then obtain w2 where w2: "logic_Purify env o' m gs w = Inr w2" "purify_logics env o' ls w2 = Inr w1" by (auto simp: bindr_Inr_iff)
  have "fight_inv w2" by (rule logic_Purify_inv [OF w2(1) 2(3)])
  then show ?case by (rule 2(1) [OF w2])
qed simp_all

lemma quiet_DoDamage: "DoDamage env a o' ds w = Inr (st, ds1, w1) \<Longrightarrow> quiet w w1"
proof (induction ds arbitrary: w st ds1)
  case (Cons d ds)
  obtain s1 d1 w2 where h: "(if dtype d \<noteq> DAMAGE_SHIELD then PlayerChangeProp env a o' d w else Inr (0, d, w)) = Inr (s1, d1, w2)"
    using Cons.prems by (auto simp: bindr_Inr_iff)
  obtain s2 ds2 where "DoDamage env a o' ds w2 = Inr (s2, ds2, w1)"
    using Cons.prems unfolding DoDamage.simps h by (auto simp: bindr_Inr_iff)
  moreover have "quiet w w2" using h quiet_ChangeProp by (auto split: if_splits)
  ultimately show ?case using Cons.IH quiet_trans by blast
qed simp

lemma BeAttacked_inv:
  assumes "BeAttacked env o' m out w = Inr (st, m', out', w')" "fight_inv w"
  shows "fight_inv w'"
proof (cases "etype (am_effect m) = EFFECT_BUFF \<and> am_dmgs m = []")
  case True
  then show ?thesis using assms AttachBuff_inv by (auto simp: BeAttacked_def bindr_Inr_iff)
next
  case False
  then obtain w1 w2 m2 w3 m3 out3 w4 m4 out4 w5 m5 ds where
    p: "purify_logics env o' (logics (am_effect m)) w = Inr w1" and r: "AttackedRevise env o' m w1 = Inr (w2, m2)"
    and n: "each_buff env (buff_NormalShield env) o' (m2, out) w2 = Inr (w3, m3, out3)"
    and b: "each_buff env (buff_Rebound env) o' (m3, out3) w3 = Inr (w4, m4, out4)"
    and l: "each_buff env (buff_LifeChain env) o' (m4, out4) w4 = Inr (w5, m5, out')"
    and d: "DoDamage env (am_attacker m5) o' (am_dmgs m5) w5 = Inr (st, ds, w')"
    using BeAttacked_steps [OF assms(1)] by metis
  have "fight_inv w1" by (rule purify_inv [OF p assms(2)])
  then have "fight_inv w2" using r each_buff_inv [OF _ _ keeps_Revise] by (fastforce simp: AttackedRevise_def bindr_Inr_iff)
  then have "fight_inv w3" by (rule each_buff_inv [OF n _ keeps_NormalShield])
  then have "fight_inv w4" by (rule each_buff_inv [OF b _ keeps_Rebound])
  then have "fight_inv w5" by (rule each_buff_inv [OF l _ keeps_LifeChain])
  then show ?thesis using quiet_DoDamage [OF d] fight_inv_quiet by blast
qed

lemma deal_inv: "deal env player ds out w = Inr (ds1, out1, w1) \<Longrightarrow> fight_inv w \<Longrightarrow> fight_inv w1"
proof (induction ds arbitrary: out w ds1)
  case (Cons d ds)
  let ?m = "\<lparr>am_attacker = FindPlayer env player (bd_attacker d), am_effect = GetEffectTempl env (effectid d), am_dmgs = bd_dmgs d, am_buff = None\<rparr>"
  obtain st m1 out2 w2 where b: "BeAttacked env (GetOwner env (FindPlayer env player (bd_defender d))) ?m out w = Inr (st, m1, out2, w2)"
    using Cons.prems(1) by (auto simp: Let_def bindr_Inr_iff split: if_splits)
  then obtain ds3 where rest: "deal env player ds out2 w2 = Inr (ds3, out1, w1)"
    using Cons.prems(1) by (auto simp: Let_def bindr_Inr_iff split: if_splits)
  show ?case by (rule Cons.IH [OF rest BeAttacked_inv [OF b Cons.prems(2)]])
qed simp

lemma Attack_loop_inv:
  assumes "Attack_loop env player dealt ds w = Some y"
  shows "\<forall>dealt1 w1. fight_inv w \<longrightarrow> y = Inr (dealt1, w1) \<longrightarrow> fight_inv w1"
proof (rule Attack_loop.raw_induct [where P = "\<lambda>_ _ _ _ w y. \<forall>dealt1 w1. fight_inv w \<longrightarrow> y = Inr (dealt1, w1) \<longrightarrow> fight_inv w1", OF _ assms],
    intro allI impI)
  fix loop env player dealt ds w y dealt1 w1
  assume IH: "\<And>env player dealt ds w y. loop env player dealt ds w = Some y \<Longrightarrow> \<forall>dealt1 w1. fight_inv w \<longrightarrow> y = Inr (dealt1, w1) \<longrightarrow> fight_inv w1"
    and body: "(if ds = [] then Some (Inr (dealt, w)) else case deal env player ds [] w of Inl e \<Rightarrow> Some (Inl e)
      | Inr (ds1, new, w1) \<Rightarrow> loop env player (dealt @ ds1) new w1) = Some y"
    and fi: "fight_inv w" "y = Inr (dealt1, w1 :: fight)"
  show "fight_inv w1"
  proof (cases "ds = []")
    case False
    then obtain ds2 new w2 where "deal env player ds [] w = Inr (ds2, new, w2)" "loop env player (dealt @ ds2) new w2 = Some y"
      using body fi by (auto split: sum.splits)
    then show ?thesis using IH deal_inv fi by blast
  qed (use body fi in simp)
qed

lemma Attack_inv: "Attack env player ds w = Some (Inr (dealt1, w1)) \<Longrightarrow> fight_inv w \<Longrightarrow> fight_inv w1"
  unfolding Attack_def using Attack_loop_inv by blast

section \<open>The course of a fight\<close>

text \<open>The calls of \<open>BuffWrapper\<close>'s interface, each on the buffs of one unit.\<close>

datatype fop =
    OpBeAttacked attack_msg "buff_damage list"
  | OpAttack "buff_damage list"
  | OpRoundStart
  | OpRoundEnd
  | OpGetTarget
  | OpConsumeRevise
  | OpCastRevise
  | OpClearBuff
  | OpClearBuff_of effect_templ pid

text \<open>\<open>fought env o' op w w'\<close>: the operation on the buffs of \<open>o'\<close> returns with \<open>w'\<close>.\<close>

inductive fought :: "fenv \<Rightarrow> pid \<Rightarrow> fop \<Rightarrow> fight \<Rightarrow> fight \<Rightarrow> bool" for env o' where
  "BeAttacked env o' m out w = Inr (st, m', out', w') \<Longrightarrow> fought env o' (OpBeAttacked m out) w w'"
| "Attack env o' ds w = Some (Inr (ds', w')) \<Longrightarrow> fought env o' (OpAttack ds) w w'"
| "RoundStart_buffs env o' w = Some (Inr (ds, w')) \<Longrightarrow> fought env o' OpRoundStart w w'"
| "RoundEnd_buffs env o' w = Some (Inr (ds, w')) \<Longrightarrow> fought env o' OpRoundEnd w w'"
| "GetTarget env o' w = Inr (w', ts) \<Longrightarrow> fought env o' OpGetTarget w w'"
| "ConsumeRevise env o' w = Inr (w', r) \<Longrightarrow> fought env o' OpConsumeRevise w w'"
| "CastRevise env o' w = Inr (w', rs) \<Longrightarrow> fought env o' OpCastRevise w w'"
| "ClearBuff env o' w = Inr w' \<Longrightarrow> fought env o' OpClearBuff w w'"
| "ClearBuff_of env o' e c w = Inr w' \<Longrightarrow> fought env o' (OpClearBuff_of e c) w w'"

inductive_cases foughtE: "fought env o' op w w'"

inductive fight_reached :: "fight \<Rightarrow> bool" where
  start: "fight_reached \<lparr>buff_vec = \<lambda>_. [], calls = [], next_sn = 0, draws = 0\<rparr>"
| step: "fight_reached w \<Longrightarrow> fought env o' op w w' \<Longrightarrow> fight_reached w'"

lemma fought_inv: "fought env o' op w w' \<Longrightarrow> fight_inv w \<Longrightarrow> fight_inv w'"
proof (induction rule: fought.induct)
  case (3 w ds w')
  then show ?case using Attack_inv each_buff_inv [OF _ _ keeps_RoundStart] by (auto simp: RoundStart_buffs_def split: sum.splits)
next
  case (4 w ds w')
  then show ?case using Attack_inv each_buff_inv [OF _ _ keeps_RoundEnd] by (auto simp: RoundEnd_buffs_def split: sum.splits)
qed (auto simp: GetTarget_def ConsumeRevise_def CastRevise_def ClearBuff_of_def intro: BeAttacked_inv Attack_inv ClearBuff_inv erase_where_inv
   each_buff_inv [OF _ _ keeps_GetTarget] each_buff_inv [OF _ _ keeps_Revise] each_buff_inv [OF _ _ keeps_CastRevise])

lemma fight_reached_inv: "fight_reached w \<Longrightarrow> fight_inv w"
proof (induction rule: fight_reached.induct)
  case start
  then show ?case by (simp add: fight_inv_def books_def seen_def attaches_def)
qed (rule fought_inv)

end
