(* ===== verification/BuffDeeds.thy ===== *)
theory BuffDeeds
  imports BuffBooks
begin

unbundle bit_operations_syntax

text \<open>
  What buffs do for a unit: they end in time, shields neither lose nor invent damage; and cases in
  which they do not do what they are meant to.
\<close>

section \<open>A fight to try things out\<close>

text \<open>Units 1 and 2 are enemies; formulas and templates are given; shares are rounded towards zero.\<close>

definition demo_env :: "(formula \<Rightarrow> int) \<Rightarrow> (int \<Rightarrow> effect_templ) \<Rightarrow> fenv" where
  "demo_env F T = \<lparr>calc = \<lambda>_ _ f. F f, GetProperty = \<lambda>_ _ _. 100, CanAction = \<lambda>_ _. True, GetCurTime = \<lambda>_. 0,
     mates = \<lambda>o'. [o'], enemies = \<lambda>o'. [3 - o'], golems = \<lambda>_. [], GetOwner = \<lambda>p. p, GetEffectTempl = T,
     scaled = \<lambda>v p. (v * p) sdiv 10000, draw = \<lambda>_ _. 0\<rparr>"

definition demo_start :: fight where
  "demo_start = \<lparr>buff_vec = \<lambda>_. [], calls = [], next_sn = 0, draws = 0\<rparr>"

definition demo_templ :: "elogic list \<Rightarrow> effect_templ" where
  "demo_templ ls = \<lparr>templ_id = 9, etype = EFFECT_BUFF, prob = 10000, redir = \<lparr>rd_type = REDIR_NO, rd_num = 0, rd_max_selected = 0\<rparr>, mutex_gid = 5, mutex_prior = 1, mutex = False, btype = BUFF_NORMAL,
     update = UPDATE_ROUNDSTART, time = 3, info_num = - 1, info_overlap = 1, logics = ls, effect_group = []\<rparr>"

section \<open>Buffs end in time\<close>

definition lasting :: "buff \<Rightarrow> bool" where
  "lasting b \<longleftrightarrow> btype (effect b) = BUFF_NORMAL \<and> caster b \<noteq> 0 \<and> 0 < duration b \<and> num b \<noteq> 0 \<and> 0 \<le> hp b"

lemma ChangeProp_returns: "\<exists>st d1 w1. PlayerChangeProp env a o' (FillDmg_prop env c p f cap k w) w = Inr (st, d1, w1)"
  by (auto simp: PlayerChangeProp_def FillDmg_prop_def Let_def assertx_def skill_consts)

lemma logic_Detach_returns: "\<exists>w1. logic_Detach env c o' l w = Inr w1 \<and> (\<forall>p. buff_vec w1 p = buff_vec w p)"
proof (cases l)
  case (ChangeProp p f cap)
  obtain st d1 w1 where "PlayerChangeProp env c o' (FillDmg_prop env c p f cap (- 1) w) w = Inr (st, d1, w1)"
    using ChangeProp_returns by blast
  with quiet_ChangeProp [OF this] show ?thesis unfolding ChangeProp by (auto simp: apply_prop_def quiet_def)
qed (auto simp: SetStatus_def)

lemma each_Detach_returns: "\<exists>w1. each_logic (logic_Detach env c o') ls w = Inr w1"
proof (induction ls arbitrary: w)
  case (Cons l ls)
  then show ?case using logic_Detach_returns [of env c o' l w] by auto
qed simp

lemma Detach_returns: "caster b \<noteq> 0 \<Longrightarrow> \<exists>w1. Detach env o' b w = Inr w1"
  using each_Detach_returns by (auto simp: Detach_def Let_def)

lemma sweep_RoundEnd:
  assumes "list_all lasting bs"
  shows "\<exists>w1. for_each (alone (buff_RoundEnd env o') o') (\<lambda>b (w, s). bindr (Detach env o' b w) (\<lambda>w1. Inr (w1, s))) kept bs (w, s) =
    Inr (kept @ List.map DecDuration (filter (\<lambda>b. 1 < duration b) bs), w1, s)"
  using assms
proof (induction bs arbitrary: kept w)
  case (Cons b bs)
  have h: "alone (buff_RoundEnd env o') o' (kept @ b # bs) (length kept) (w, s) = Inr (DecDuration b, w, s)"
    using Cons.prems by (simp add: alone_def buff_RoundEnd_def lasting_def)
  have t: "IsTimeout (DecDuration b) \<longleftrightarrow> \<not> 1 < duration b"
    using Cons.prems by (auto simp: IsTimeout_def DecDuration_def lasting_def)
  obtain w1 where "Detach env o' (DecDuration b) w = Inr w1"
    using Detach_returns [of "DecDuration b" env o' w] Cons.prems by (auto simp: lasting_def)
  then show ?case using Cons.IH [of "kept"] Cons.IH [of "kept @ [DecDuration b]"] Cons.prems by (auto simp: h t)
qed simp

lemma RoundEnd_lasting:
  assumes "list_all lasting (buff_vec w o')"
  shows "\<exists>w1. RoundEnd_buffs env o' w = Some (Inr ([], w1)) \<and> buff_vec w1 o' = List.map DecDuration (filter (\<lambda>b. 1 < duration b) (buff_vec w o'))"
  using sweep_RoundEnd [OF assms, of env o' "[]" w "[]"]
  by (auto simp: RoundEnd_buffs_def each_buff_def Attack_def Attack_loop.simps)

section \<open>Shields\<close>

definition total_of :: "damage list \<Rightarrow> int" where
  "total_of ds = sum_list (List.map dvalue ds)"

text \<open>A wound that a shield answered: not deeper, not turned into healing; the rest is as it was.\<close>

definition eased :: "damage \<Rightarrow> damage \<Rightarrow> bool" where
  "eased d d1 \<longleftrightarrow> dtype d1 = dtype d \<and> dprop d1 = dprop d \<and> dvalue d \<le> dvalue d1 \<and>
     (dvalue d \<ge> 0 \<longrightarrow> dvalue d1 = dvalue d) \<and> (dvalue d < 0 \<longrightarrow> dvalue d1 \<le> 0)"

text \<open>What holds of a share of up to all of a wound, for values that a float holds.\<close>

definition share_law :: "fenv \<Rightarrow> bool" where
  "share_law env \<longleftrightarrow> (\<forall>v p. - 16777216 \<le> v \<longrightarrow> v \<le> 0 \<longrightarrow> 0 \<le> p \<longrightarrow> p \<le> 10000 \<longrightarrow> v \<le> scaled env v p \<and> scaled env v p \<le> 0)"

lemma share_lawD:
  "share_law env \<Longrightarrow> - 16777216 \<le> v \<Longrightarrow> v \<le> 0 \<Longrightarrow> 0 \<le> p \<Longrightarrow> p \<le> 10000 \<Longrightarrow> v \<le> scaled env v p \<and> scaled env v p \<le> 0"
  by (simp add: share_law_def)

definition proper_shields :: "buff list \<Rightarrow> bool" where
  "proper_shields bs \<longleftrightarrow> (\<forall>b \<in> set bs. \<forall>t f p. NormalShield t f p \<in> set (logics (effect b)) \<longrightarrow> 0 \<le> p \<and> p \<le> 10000)"

lemma eased_refl [simp]: "eased d d"
  by (simp add: eased_def)

lemma eased_trans: "eased d d1 \<Longrightarrow> eased d1 d2 \<Longrightarrow> eased d d2"
  by (auto simp: eased_def)

lemma all_eased_refl: "list_all2 eased ds ds"
  by (simp add: list_all2_refl)

lemma all_eased_trans: "list_all2 eased ds ds1 \<Longrightarrow> list_all2 eased ds1 ds2 \<Longrightarrow> list_all2 eased ds ds2"
  by (rule list_all2_trans [OF eased_trans])

definition small :: "damage list \<Rightarrow> bool" where
  "small ds \<longleftrightarrow> (\<forall>d \<in> set ds. - 16777216 \<le> dvalue d)"

lemma small_eased: "list_all2 eased ds ds1 \<Longrightarrow> small ds \<Longrightarrow> small ds1"
  by (induction rule: list_all2_induct) (auto simp: small_def eased_def)

lemma shield_loop_balance:
  assumes "shield_loop env t p h ds = (h1, ds1, ab)" "share_law env" "0 \<le> p" "p \<le> 10000" "small ds"
  shows "list_all2 eased ds ds1 \<and> total_of ds = total_of ds1 + total_of ab \<and> h1 = h + total_of ab \<and> (0 \<le> h \<longrightarrow> 0 \<le> h1)"
  using assms
proof (induction env t p h ds arbitrary: h1 ds1 ab rule: shield_loop.induct)
  case (2 env t p h d ds)
  have sm: "small ds" using 2(7) by (simp add: small_def)
  consider (spent) "\<not> h > 0" | (other) "h > 0" "\<not> CanShield t h d" | (shield) "h > 0" "CanShield t h d" by blast
  then show ?case
  proof cases
    case spent
    then show ?thesis using 2(3) by (auto simp: total_of_def all_eased_refl)
  next
    case other
    obtain h2 ds2 ab2 where r: "shield_loop env t p h ds = (h2, ds2, ab2)" by (cases "shield_loop env t p h ds")
    from 2(1) [OF _ _ r 2(4-6) sm] other 2(3) r show ?thesis by (auto simp: total_of_def)
  next
    case shield
    define s where "s = (if scaled env (dvalue d) p + h > 0 then scaled env (dvalue d) p else - 1 * h)"
    obtain h2 ds2 ab2 where r: "shield_loop env t p (h + s) ds = (h2, ds2, ab2)" by (cases "shield_loop env t p (h + s) ds")
    have v: "dvalue d < 0" "- 16777216 \<le> dvalue d" using shield(2) 2(7) by (auto simp: CanShield_def small_def split: if_splits)
    have law: "dvalue d \<le> scaled env (dvalue d) p \<and> scaled env (dvalue d) p \<le> 0" by (intro share_lawD [OF 2(4)]) (use v 2(5,6) in simp_all)
    then have s: "dvalue d \<le> s" "s \<le> 0" "0 \<le> h + s" using shield(1) by (auto simp: s_def)
    have IH: "list_all2 eased ds ds2 \<and> total_of ds = total_of ds2 + total_of ab2 \<and> h2 = h + s + total_of ab2 \<and> (0 \<le> h + s \<longrightarrow> 0 \<le> h2)"
      by (rule 2(2) [OF _ _ refl s_def r 2(4-6) sm]) (use shield in simp_all)
    have out: "h1 = h2" "ds1 = d\<lparr>dvalue := dvalue d - s\<rparr> # ds2" "ab = \<lparr>dtype = DAMAGE_SHIELD, dprop = PROP_INDEX_HP, dvalue = s\<rparr> # ab2"
      using 2(3) shield r by (auto simp: Let_def s_def [symmetric])
    have "eased d (d\<lparr>dvalue := dvalue d - s\<rparr>)" using s v by (simp add: eased_def)
    then show ?thesis using IH s(3) by (simp add: out total_of_def)
  qed
qed (simp add: total_of_def)

text \<open>What the shields of a unit do to a message and to the damage that is yet to be dealt.\<close>

definition balance :: "attack_msg \<Rightarrow> buff_damage list \<Rightarrow> attack_msg \<Rightarrow> buff_damage list \<Rightarrow> bool" where
  "balance m out m1 out1 \<longleftrightarrow> list_all2 eased (am_dmgs m) (am_dmgs m1) \<and>
     (\<exists>new. out1 = out @ new \<and> total_of (am_dmgs m) = total_of (am_dmgs m1) + sum_list (List.map (\<lambda>d. total_of (bd_dmgs d)) new))"

lemma balance_refl: "am_dmgs m1 = am_dmgs m \<Longrightarrow> balance m out m1 out"
  by (simp add: balance_def all_eased_refl)

lemma balance_trans:
  assumes "balance m out m1 out1" "balance m1 out1 m2 out2"
  shows "balance m out m2 out2"
proof -
  obtain new1 new2 where n: "out1 = out @ new1" "total_of (am_dmgs m) = total_of (am_dmgs m1) + sum_list (List.map (\<lambda>d. total_of (bd_dmgs d)) new1)"
    "out2 = out1 @ new2" "total_of (am_dmgs m1) = total_of (am_dmgs m2) + sum_list (List.map (\<lambda>d. total_of (bd_dmgs d)) new2)"
    using assms by (auto simp: balance_def)
  moreover have "list_all2 eased (am_dmgs m) (am_dmgs m2)" using assms all_eased_trans by (auto simp: balance_def)
  ultimately show ?thesis unfolding balance_def by (intro conjI exI [of _ "new1 @ new2"]) auto
qed

lemma logic_NormalShield_balance:
  assumes "logic_NormalShield env o' l (a, b, m, out) = Inr (a1, b1, m1, out1)" "share_law env" "small (am_dmgs m)"
    "\<And>t f p. l = NormalShield t f p \<Longrightarrow> 0 \<le> p \<and> p \<le> 10000"
  shows "balance m out m1 out1 \<and> effect b1 = effect b \<and> (0 \<le> hp b \<longrightarrow> 0 \<le> hp b1)"
proof (cases l)
  case (NormalShield t f p)
  obtain h1 ds1 ab where r: "shield_loop env t p (hp b) (am_dmgs m) = (h1, ds1, ab)" by (cases "shield_loop env t p (hp b) (am_dmgs m)")
  have p: "0 \<le> p" "p \<le> 10000" using assms(4) NormalShield by blast+
  have "balance m out (m\<lparr>am_dmgs := ds1\<rparr>) (if ab \<noteq> [] then out @ [hit_out (templ_id (am_effect m)) (am_attacker m) o' (sn b) ab] else out)"
    using shield_loop_balance [OF r assms(2) p assms(3)] by (simp add: balance_def hit_out_def total_of_def)
  then show ?thesis using assms(1) shield_loop_balance [OF r assms(2) p assms(3)] by (auto simp: NormalShield r)
qed (use assms(1) balance_refl in auto)

lemma buff_NormalShield_balance:
  assumes "buff_NormalShield env o' vec i (w, m, out) = Inr (b1, w1, m1, out1)" "share_law env" "small (am_dmgs m)"
    "proper_shields [vec ! i]"
  shows "w1 = w \<and> balance m out m1 out1 \<and> effect b1 = effect (vec ! i) \<and> (0 \<le> hp (vec ! i) \<longrightarrow> 0 \<le> hp b1)"
proof -
  let ?m = "m\<lparr>am_buff := Some i\<rparr>"
  obtain a b2 where run: "each_logic (logic_NormalShield env o') (logics (effect (vec ! i))) (False, vec ! i, ?m, out) = Inr (a, b2, m1, out1)"
    and b1: "b1 = (if a then DecActiveNum b2 else b2)" "w1 = w"
    using assms(1) by (auto simp: buff_NormalShield_def bindr_Inr_iff)
  let ?P = "\<lambda>s :: bool \<times> buff \<times> attack_msg \<times> buff_damage list. case s of (a, b, m1, out1) \<Rightarrow>
     balance ?m out m1 out1 \<and> effect b = effect (vec ! i) \<and> (0 \<le> hp (vec ! i) \<longrightarrow> 0 \<le> hp b)"
  have "?P (a, b2, m1, out1)"
  proof (rule each_logic_inv [OF run])
    show "?P (False, vec ! i, ?m, out)" by (simp add: balance_refl)
  next
    fix l and s s' :: "bool \<times> buff \<times> attack_msg \<times> buff_damage list"
    assume l: "l \<in> set (logics (effect (vec ! i)))" and P: "?P s" and run: "logic_NormalShield env o' l s = Inr s'"
    obtain a b m2 out2 a3 b3 m3 out3 where s: "s = (a, b, m2, out2)" "s' = (a3, b3, m3, out3)" by (cases s, cases s') blast
    have "small (am_dmgs m2)" using P s(1) small_eased assms(3) by (auto simp: balance_def)
    from logic_NormalShield_balance [OF run [unfolded s] assms(2) this] assms(4) l P
    show "?P s'" unfolding s by (auto simp: proper_shields_def intro: balance_trans)
  qed
  moreover have "balance m out ?m out" by (simp add: balance_refl)
  ultimately show ?thesis using b1 balance_trans by (auto simp: DecActiveNum_def)
qed

text \<open>
  C11: Shields neither lose nor invent damage: for a unit whose shields take up to all of a wound and are
  not overdrawn, the shields leave each entry of the damage as it is or make a wound smaller, never
  deeper and never into healing; the damage before is the damage left plus what the new entries say
  was absorbed; and no shield is overdrawn by it.
\<close>

theorem shields_balance:
  assumes "each_buff env (buff_NormalShield env) o' (m, out) w = Inr (w', m', out')" "share_law env"
    and "\<forall>d \<in> set (am_dmgs m). - 16777216 \<le> dvalue d" "proper_shields (buff_vec w o')" "\<forall>b \<in> set (buff_vec w o'). 0 \<le> hp b"
  shows "list_all2 eased (am_dmgs m) (am_dmgs m') \<and>
    (\<exists>new. out' = out @ new \<and> total_of (am_dmgs m) = total_of (am_dmgs m') + sum_list (List.map (\<lambda>d. total_of (bd_dmgs d)) new)) \<and>
    (\<forall>b \<in> set (buff_vec w' o'). 0 \<le> hp b)"
proof -
  have "\<exists>vec w1. w' = set_vec o' vec w1 \<and> (case (m', out') of (m1, out1) \<Rightarrow>
      balance m out m1 out1 \<and> proper_shields vec \<and> (\<forall>b \<in> set vec. 0 \<le> hp b))"
  proof (rule each_buff_rule [OF assms(1), where J = "\<lambda>vec _ (m1, out1). balance m out m1 out1 \<and> proper_shields vec \<and> (\<forall>b \<in> set vec. 0 \<le> hp b)"],
      goal_cases)
    case 1
    then show ?case using assms(4,5) by (simp add: balance_refl)
  next
    case (2 kept b bs w s b1 w1 s1)
    obtain m1 out1 m2 out2 where s: "s = (m1, out1)" "s1 = (m2, out2)" by (cases s, cases s1) blast
    have J: "balance m out m1 out1" "proper_shields (kept @ b # bs)" "\<forall>x \<in> set (kept @ b # bs). 0 \<le> hp x" using 2(1) s(1) by auto
    have "small (am_dmgs m1)" using J(1) small_eased assms(3) by (auto simp: balance_def small_def [symmetric])
    then have "w1 = w \<and> balance m1 out1 m2 out2 \<and> effect b1 = effect b \<and> (0 \<le> hp b \<longrightarrow> 0 \<le> hp b1)"
      using buff_NormalShield_balance [OF 2(2) [unfolded s] assms(2)] J(2) by (simp add: proper_shields_def)
    then show ?case using J s balance_trans by (auto simp: proper_shields_def)
  next
    case (3 kept b bs w s w1)
    then show ?case by (cases s) (auto simp: proper_shields_def)
  qed
  then show ?thesis by (auto simp: balance_def)
qed

lemma shields_balance_witness:
  "let b = \<lparr>caster = 2, effect = demo_templ [NormalShield 7 [] 5000], sn = 1, num = - 1, overlap = 0, hp = 30, duration = 3\<rparr>;
       w = demo_start\<lparr>buff_vec := \<lambda>_. [b]\<rparr>; env = demo_env (\<lambda>_. 0) (\<lambda>_. demo_templ []);
       hit = \<lambda>v. \<lparr>dtype = 1, dprop = PROP_INDEX_HP, dvalue = v\<rparr>;
       m = \<lparr>am_attacker = 2, am_effect = demo_templ [], am_dmgs = [hit (- 40), hit (- 50)], am_buff = None\<rparr>
   in \<exists>w' m' out' new. each_buff env (buff_NormalShield env) 1 (m, []) w = Inr (w', m', out') \<and>
        list_all2 eased (am_dmgs m) (am_dmgs m') \<and> am_dmgs m' = [hit (- 20), hit (- 40)] \<and> out' = new \<and>
        - 90 = total_of (am_dmgs m') + sum_list (List.map (\<lambda>d. total_of (bd_dmgs d)) new)"
proof -
  let ?b = "\<lparr>caster = 2, effect = demo_templ [NormalShield 7 [] 5000], sn = 1, num = - 1, overlap = 0, hp = 30, duration = 3\<rparr>"
  let ?w = "demo_start\<lparr>buff_vec := \<lambda>_. [?b]\<rparr>"
  let ?env = "demo_env (\<lambda>_. 0) (\<lambda>_. demo_templ [])"
  let ?hit = "\<lambda>v. \<lparr>dtype = 1, dprop = PROP_INDEX_HP, dvalue = v\<rparr>"
  let ?m = "\<lparr>am_attacker = 2, am_effect = demo_templ [], am_dmgs = [?hit (- 40), ?hit (- 50)], am_buff = None\<rparr>"
  have sh: "shield_loop ?env 7 5000 30 (am_dmgs ?m) =
      (0, [?hit (- 20), ?hit (- 40)], [\<lparr>dtype = 16, dprop = 64, dvalue = - 20\<rparr>, \<lparr>dtype = 16, dprop = 64, dvalue = - 10\<rparr>])"
    by (simp add: CanShield_def skill_consts demo_env_def)
  obtain w' m' out' where run: "each_buff ?env (buff_NormalShield ?env) 1 (?m, []) ?w = Inr (w', m', out')" "am_dmgs m' = [?hit (- 20), ?hit (- 40)]"
    using sh by (simp add: each_buff_def buff_NormalShield_def demo_templ_def IsTimeout_def DecActiveNum_def)
  have law: "share_law ?env" 
  proof -
    have "v \<le> (v * p) sdiv 10000 \<and> (v * p) sdiv 10000 \<le> 0" if "v \<le> 0" "0 \<le> p" "p \<le> 10000" for v p :: int
    proof -
      have 1: "(v * p) sdiv 10000 = - ((- v * p) div 10000)" using that by (auto simp: signed_divide_int_def sgn_if zero_less_mult_iff mult_less_0_iff abs_of_nonpos mult_nonpos_nonneg)
      have "- v * p \<le> - v * 10000" using that by (intro mult_left_mono) auto
      then have "(- v * p) div 10000 \<le> - v" by linarith
      moreover have "0 \<le> (- v * p) div 10000" using that by (intro pos_imp_zdiv_nonneg_iff [THEN iffD2] mult_nonneg_nonneg) auto
      ultimately show ?thesis using 1 by linarith
    qed
    then show ?thesis by (simp add: share_law_def demo_env_def)
  qed
  have small: "\<forall>d \<in> set (am_dmgs ?m). - 16777216 \<le> dvalue d" "proper_shields (buff_vec ?w 1)" "\<forall>b \<in> set (buff_vec ?w 1). 0 \<le> hp b"
    by (simp_all add: proper_shields_def demo_templ_def)
  show ?thesis unfolding Let_def using run shields_balance [OF run(1) law small] by (auto simp: total_of_def)
qed

section \<open>A buff that is refreshed\<close>

text \<open>A buff that raises a property, and a unit that may act and for whom the formula is worth \<open>v\<close>.\<close>

definition raises :: "effect_templ \<Rightarrow> int \<Rightarrow> formula \<Rightarrow> bool" where
  "raises e p f \<longleftrightarrow> etype e = EFFECT_BUFF \<and> btype e = BUFF_NORMAL \<and> logics e = [ChangeProp p f None] \<and> p \<noteq> PROP_INDEX_HP \<and>
     mutex_gid e \<noteq> MUTEX_GID_INDEPENDENT \<and> 1 \<le> info_overlap e"

definition raised :: "fenv \<Rightarrow> pid \<Rightarrow> effect_templ \<Rightarrow> int \<Rightarrow> int \<Rightarrow> buff" where
  "raised env c e t n = \<lparr>caster = c, effect = e, sn = n, num = info_num e, overlap = 0, hp = 1, duration = t + time e\<rparr>"

lemma raising_Attach:
  assumes "raises e p f" "effect b = e" "caster b \<noteq> 0" "\<And>cs. calc env cs (caster b) f = v" "0 < v"
  shows "Attach env o' b w = Inr (tell (CInc o' p v) (tell (CAttach o' (sn b) (templ_id e) (caster b)) w))"
    "Detach env o' b w = Inr (tell (CDec o' p v) (tell (CDetach o' (sn b) (templ_id e) (caster b)) w))"
    "buff_init env b w = b\<lparr>hp := (if hp b \<le> 0 then 1 else hp b)\<rparr>"
  using assms
  by (simp_all add: raises_def Attach_def Detach_def apply_prop_def PlayerChangeProp_def FillDmg_prop_def capped_def Let_def skill_consts buff_init_def)

text \<open>
  C35: A buff that is refreshed leaves its bonus behind: when a buff that raises a property is attached
  by the same caster a second time, the property is raised a second time, since the first attachment
  is not counted as an overlap, and only one of the two raises is taken back when the unit's buffs are
  cleared.
\<close>

theorem refreshed_bonus_stays:
  assumes "raises e p f" "c \<noteq> 0" "\<And>cs. calc env cs c f = v" "0 < v" "\<And>cs. CanAction env cs o'" "buff_vec w o' = []"
    and m: "m = \<lparr>am_attacker = c, am_effect = e, am_dmgs = [], am_buff = None\<rparr>" and n: "n = u32 (next_sn w + 1)"
  shows "\<exists>w1 w2 w3. BeAttacked env o' m out w = Inr (0, m, out, w1) \<and> BeAttacked env o' m out w1 = Inr (0, m, out, w2) \<and>
    ClearBuff env o' w2 = Inr w3 \<and> buff_vec w3 o' = [] \<and>
    calls w3 = calls w @ [CAttach o' n (templ_id e) c, CInc o' p v, CAttach o' n (templ_id e) c, CInc o' p v,
      CDetach o' n (templ_id e) c, CDec o' p v]"
proof -
  let ?b = "\<lparr>caster = c, effect = e, sn = n, num = info_num e, overlap = 0, hp = 1, duration = GetCurTime env o' + time e\<rparr>"
  let ?w1 = "set_vec o' [?b] (tell (CInc o' p v) (tell (CAttach o' n (templ_id e) c) (w\<lparr>next_sn := n\<rparr>)))"
  let ?w2 = "set_vec o' [?b\<lparr>overlap := 1\<rparr>] (tell (CInc o' p v) (tell (CAttach o' n (templ_id e) c) ?w1))"
  have att: "Attach env o' b w = Inr (tell (CInc o' p v) (tell (CAttach o' (sn b) (templ_id e) c) w))"
    "Detach env o' b w = Inr (tell (CDec o' p v) (tell (CDetach o' (sn b) (templ_id e) c) w))"
    "buff_init env b w = b\<lparr>hp := (if hp b \<le> 0 then 1 else hp b)\<rparr>" if "effect b = e" "caster b = c" for b w
    using raising_Attach [OF assms(1) that(1), of env v] assms(2-4) that(2) by simp_all
  have be: "BeAttacked env o' m out w = bindr (AttachBuff env o' m w) (\<lambda>w1. Inr (0, m, out, w1))" for w
    using assms(1) m by (simp add: BeAttacked_def raises_def)
  have "make_place env o' b [] w = Inr ([], w)" if "effect b = e" for b w
    using assms(1) that by (auto simp: make_place_def raises_def)
  then have 1: "AttachBuff env o' m w = Inr ?w1"
    using assms(5,6) m n by (simp add: AttachBuff_def Buff_new_def Let_def InsertNewBuff_def att)
  have 2: "AttachBuff env o' m ?w1 = Inr ?w2"
    using assms(1,5) m by (simp add: AttachBuff_def Replace_def raises_def Let_def UpdateBuff_def att)
  have 3: "ClearBuff env o' ?w2 = Inr (set_vec o' [] (tell (CDec o' p v) (tell (CDetach o' n (templ_id e) c) ?w2)))"
    by (simp add: ClearBuff_def att)
  have "BeAttacked env o' m out w = Inr (0, m, out, ?w1)" "BeAttacked env o' m out ?w1 = Inr (0, m, out, ?w2)"
    by (simp_all only: be 1 2 bindr_simps)
  with 3 show ?thesis
    by (intro exI [of _ ?w1] exI [of _ ?w2] exI [of _ "set_vec o' [] (tell (CDec o' p v) (tell (CDetach o' n (templ_id e) c) ?w2))"]) simp
qed

section \<open>Revision of damage\<close>

text \<open>
  A revision of damage by a share is cut to whole numbers: a buff that lessens the damage a unit
  takes by any share below the whole leaves of every wound one point, and one that raises it by less
  than the whole changes nothing; a revision by points is applied as such.
\<close>

theorem revised_in_wholes:
  assumes "\<bar>scale r\<bar> < 10000" "\<bar>point r\<bar> < 1073741824" "- 1073741824 < dvalue d" "dvalue d < 0" "dprop d = PROP_INDEX_HP"
  shows "revise_damage r d =
    (if scale r < 0 then d\<lparr>dvalue := min (- 1) (- point r)\<rparr> else d\<lparr>dvalue := min (- 1) (dvalue d - point r)\<rparr>)"
proof -
  have sc: "(10000 + scale r) sdiv 10000 = (if scale r < 0 then 0 else 1)"
    using assms(1) by (auto simp: signed_divide_int_def sgn_if)
  show ?thesis using assms by (auto simp: revise_damage_def Let_def sc i32_id min_def)
qed

lemma revised_in_wholes_witness:
  "let hit = \<lambda>v. \<lparr>dtype = 1, dprop = PROP_INDEX_HP, dvalue = v\<rparr>
   in revise_damage \<lparr>scale = - 1000, point = 0\<rparr> (hit (- 500)) = hit (- 1) \<and>
      revise_damage \<lparr>scale = 5000, point = 0\<rparr> (hit (- 500)) = hit (- 500)"
  using revised_in_wholes [of "\<lparr>scale = - 1000, point = 0\<rparr>" "\<lparr>dtype = 1, dprop = PROP_INDEX_HP, dvalue = - 500\<rparr>"]
    revised_in_wholes [of "\<lparr>scale = 5000, point = 0\<rparr>" "\<lparr>dtype = 1, dprop = PROP_INDEX_HP, dvalue = - 500\<rparr>"] by simp

lemma refreshed_bonus_stays_witness:
  "let e = demo_templ [ChangeProp 3 [] None]; env = demo_env (\<lambda>_. 20) (\<lambda>_. e);
       m = \<lparr>am_attacker = 2, am_effect = e, am_dmgs = [], am_buff = None\<rparr>
   in \<exists>w1 w2 w3. BeAttacked env 1 m [] demo_start = Inr (0, m, [], w1) \<and> BeAttacked env 1 m [] w1 = Inr (0, m, [], w2) \<and>
        ClearBuff env 1 w2 = Inr w3 \<and>
        calls w3 = [CAttach 1 1 9 2, CInc 1 3 20, CAttach 1 1 9 2, CInc 1 3 20, CDetach 1 1 9 2, CDec 1 3 20]"
proof -
  let ?e = "demo_templ [ChangeProp 3 [] None]"
  let ?env = "demo_env (\<lambda>_. 20) (\<lambda>_. ?e)"
  let ?m = "\<lparr>am_attacker = 2, am_effect = ?e, am_dmgs = [], am_buff = None\<rparr>"
  have r: "raises ?e 3 []" by (simp add: raises_def demo_templ_def skill_consts)
  have id: "templ_id ?e = 9" "calls demo_start = []" by (simp_all add: demo_templ_def demo_start_def)
  have "\<exists>w1 w2 w3. BeAttacked ?env 1 ?m [] demo_start = Inr (0, ?m, [], w1) \<and> BeAttacked ?env 1 ?m [] w1 = Inr (0, ?m, [], w2) \<and>
    ClearBuff ?env 1 w2 = Inr w3 \<and> buff_vec w3 1 = [] \<and>
    calls w3 = calls demo_start @ [CAttach 1 1 (templ_id ?e) 2, CInc 1 3 20, CAttach 1 1 (templ_id ?e) 2, CInc 1 3 20,
      CDetach 1 1 (templ_id ?e) 2, CDec 1 3 20]"
    by (rule refreshed_bonus_stays [OF r]) (simp_all add: demo_env_def demo_start_def u32_def)
  then obtain w1 w2 w3 where "BeAttacked ?env 1 ?m [] demo_start = Inr (0, ?m, [], w1)" "BeAttacked ?env 1 ?m [] w1 = Inr (0, ?m, [], w2)"
    "ClearBuff ?env 1 w2 = Inr w3" "calls w3 = [CAttach 1 1 9 2, CInc 1 3 20, CAttach 1 1 9 2, CInc 1 3 20, CDetach 1 1 9 2, CDec 1 3 20]"
    unfolding id by auto
  then show ?thesis unfolding Let_def by (intro exI [of _ w1] exI [of _ w2] exI [of _ w3]) simp
qed

section \<open>Healing through a life chain\<close>

definition regen_templ :: effect_templ where
  "regen_templ = (demo_templ [ChangeProp PROP_INDEX_HP [] None])\<lparr>btype := BUFF_POINT, update := UPDATE_ROUNDEND\<rparr>"

definition chain_templ :: effect_templ where
  "chain_templ = (demo_templ [LifeChain 5000])\<lparr>templ_id := 4, mutex_gid := MUTEX_GID_INDEPENDENT\<rparr>"

text \<open>Unit 1 heals at the end of its rounds and has a life chain with its enemy 2.\<close>

definition chained_fight :: fight where
  "chained_fight =
     (let regen = \<lparr>caster = 1, effect = regen_templ, sn = 1, num = - 1, overlap = 0, hp = 1, duration = 3\<rparr>;
          chain = \<lambda>n. \<lparr>caster = 1, effect = chain_templ, sn = n, num = - 1, overlap = 0, hp = 1, duration = 3\<rparr>
      in \<lparr>buff_vec = \<lambda>p. if p = 1 then [regen, chain 2] else if p = 2 then [chain 3] else [], calls = [], next_sn = 3, draws = 0\<rparr>)"

text \<open>
  A heal over time of a unit in a life chain crashes the server: the chain passes on the heal as a
  hit without damage, which, for the effect of a buff, attaches that buff to the chained enemy, with
  no unit as its caster, whose id is then read. Here the life chain comes behind the heal in the vector,
  so that it is the buff that \<open>NormalShield\<close> visited last.
\<close>

lemma chained_heal_crashes: "RoundEnd_buffs (demo_env (\<lambda>_. 20) (\<lambda>_. regen_templ)) 1 chained_fight = Some (Inl NullDeref)"
proof -
  let ?env = "demo_env (\<lambda>_. 20) (\<lambda>_. regen_templ)"
  let ?regen = "\<lparr>caster = 1, effect = regen_templ, sn = 1, num = - 1, overlap = 0, hp = 1, duration = 2\<rparr>"
  let ?chain = "\<lambda>n d. \<lparr>caster = 1, effect = chain_templ, sn = n, num = - 1, overlap = 0, hp = 1, duration = d\<rparr>"
  let ?heal = "\<lparr>dtype = 8, dprop = 64, dvalue = 20\<rparr>"
  let ?hit = "\<lparr>effectid = 9, bd_attacker = 1, bd_defender = 1, buff_sn = 1, bd_dmgs = [?heal]\<rparr>"
  let ?w = "set_vec 1 [?regen, ?chain 2 2] chained_fight"
  note templs = regen_templ_def chain_templ_def demo_templ_def
  have r: "logics regen_templ = [ChangeProp 64 [] None]" "btype regen_templ = BUFF_POINT" "update regen_templ = UPDATE_ROUNDEND"
    "templ_id regen_templ = 9" "etype regen_templ = EFFECT_BUFF" "mutex_gid regen_templ = 5" "info_overlap regen_templ = 1" "time regen_templ = 3"
    "info_num regen_templ = - 1"
    by (simp_all add: templs skill_consts)
  have c: "logics chain_templ = [LifeChain 5000]" "btype chain_templ = BUFF_NORMAL" "templ_id chain_templ = 4" "mutex_gid chain_templ = - 1"
    by (simp_all add: templs skill_consts)
  have vec: "buff_vec chained_fight p = (if p = 1 then [?regen\<lparr>duration := 3\<rparr>, ?chain 2 3] else if p = 2 then [?chain 3 3] else [])" for p
    by (simp add: chained_fight_def Let_def)
  have env: "calc ?env cs u f = 20" "GetOwner ?env u = u" "FindPlayer ?env 1 1 = 1" "FindPlayer ?env 1 2 = 2" "enemies ?env 1 = [2]"
    "GetEffectTempl ?env k = regen_templ" "CanAction ?env cs u" "GetProperty ?env cs u k = 100" "GetCurTime ?env u = 0" for cs u f k
    by (simp_all add: demo_env_def FindPlayer_def)
  have sweep: "each_buff ?env (alone (buff_RoundEnd ?env 1)) 1 [] chained_fight = Inr (?w, [?hit])"
    by (simp add: each_buff_def vec alone_def buff_RoundEnd_def r c activate_def FillDmg_prop_def capped_def env push_dmg_def
      IsTimeout_def DecDuration_def DecActiveNum_def skill_consts)
  let ?m = "\<lparr>am_attacker = 1, am_effect = regen_templ, am_dmgs = [?heal], am_buff = None\<rparr>"
  have rev: "AttackedRevise ?env 1 ?m ?w = Inr (?w, ?m)"
    by (simp add: AttackedRevise_def each_buff_def alone_def buff_Revise_def r c IsTimeout_def)
  let ?m1 = "\<lparr>am_attacker = 1, am_effect = regen_templ, am_dmgs = [?heal], am_buff = Some (Suc 0)\<rparr>"
  have sh: "each_buff ?env (buff_NormalShield ?env) 1 (?m, []) ?w = Inr (?w, ?m1, [])"
    by (simp add: each_buff_def buff_NormalShield_def r c IsTimeout_def)
  have rb: "each_buff ?env (buff_Rebound ?env) 1 (?m1, []) ?w = Inr (?w, ?m1, [])"
    by (simp add: each_buff_def buff_Rebound_def r c IsTimeout_def)
  let ?out = "[hit_out 9 0 2 2 []]"
  have lc: "each_buff ?env (buff_LifeChain ?env) 1 (?m1, []) ?w = Inr (?w, ?m1, ?out)"
    by (simp add: each_buff_def buff_LifeChain_def r c env IsTimeout_def deref_def shares_def is_wound_def InLifeChain_def vec
      DecActiveNum_def)
  have dmg: "DoDamage ?env 1 1 [?heal] ?w = Inr (0, [?heal\<lparr>dtype := 0\<rparr>], tell (CHeal 1 20 1) ?w)"
    by (simp add: PlayerChangeProp_def skill_consts env Let_def)
  have first: "deal ?env 1 [?hit] [] ?w = Inr ([?hit\<lparr>bd_dmgs := [?heal\<lparr>dtype := 0\<rparr>]\<rparr>], ?out, tell (CHeal 1 20 1) ?w)"
    by (simp add: env BeAttacked_def r rev sh rb lc dmg del: DoDamage.simps)
  let ?w2 = "tell (CHeal 1 20 1) ?w"
  have "AttachBuff ?env 2 \<lparr>am_attacker = 0, am_effect = regen_templ, am_dmgs = [], am_buff = None\<rparr> ?w2 = Inl NullDeref"
    by (simp add: AttachBuff_def env vec set_vec_def tell_def Replace_def c r Let_def skill_consts Buff_new_def InsertNewBuff_def
      make_place_def same_effect_def Attach_def)
  then have "deal ?env 1 ?out [] ?w2 = Inl NullDeref"
    by (simp add: env BeAttacked_def r hit_out_def Let_def)
  then show ?thesis unfolding RoundEnd_buffs_def sweep by (simp add: Attack_def Attack_loop.simps first del: deal.simps)
qed

end
