(* ===== verification/TargetProps.thy ===== *)
theory TargetProps
  imports Targets
begin

text \<open>
  What holds of \<open>Targets\<close>: how many elements a selection takes and that it ends, whom a skill hits, and
  where a template that passes the checks leads to an abort or to the wrong units.
\<close>

section \<open>Selecting at random\<close>

definition bounded_draws :: "units \<Rightarrow> bool" where
  "bounded_draws v \<longleftrightarrow> (\<forall>n lo hi. lo \<le> hi \<longrightarrow> lo \<le> draw_between v n lo hi \<and> draw_between v n lo hi \<le> hi)"

text \<open>Every number between the bounds is drawn again and again.\<close>

definition fair_draws :: "units \<Rightarrow> bool" where
  "fair_draws v \<longleftrightarrow> bounded_draws v \<and> (\<forall>n lo hi x. lo \<le> x \<longrightarrow> x \<le> hi \<longrightarrow> (\<exists>k\<ge>n. draw_between v k lo hi = x))"

definition room :: "int \<Rightarrow> int list \<Rightarrow> int list \<Rightarrow> nat" where
  "room m des src = (\<Sum>x\<in>set src. nat m - count_list des x)"

lemma filter_eq_count: "length (filter (\<lambda>x. x = s) des) = count_list des s"
  by (induction des) auto

lemma bounded_slot:
  assumes "bounded_draws v" "src \<noteq> []"
  obtains i where "i < length src" "draw_between v n 0 (int (length src) - 1) = int i" "slot src (draw_between v n 0 (int (length src) - 1)) = Inr (src ! i)"
proof -
  have "(0 :: int) \<le> int (length src) - 1" using assms(2) by (cases src) auto
  then have "0 \<le> draw_between v n 0 (int (length src) - 1)" "draw_between v n 0 (int (length src) - 1) \<le> int (length src) - 1"
    using assms(1) unfolding bounded_draws_def by blast+
  then show thesis using that [of "nat (draw_between v n 0 (int (length src) - 1))"] assms(2) by (auto simp: slot_def)
qed

lemma set_without_nth:
  assumes "distinct src" "i < length src"
  shows "set (take i src @ drop (Suc i) src) = set src - {src ! i}" "distinct (take i src @ drop (Suc i) src)"
    "length (take i src @ drop (Suc i) src) < length src"
proof -
  have s: "src = take i src @ src ! i # drop (Suc i) src" using assms(2) by (simp add: Cons_nth_drop_Suc)
  show "set (take i src @ drop (Suc i) src) = set src - {src ! i}"
    using assms(1) by (subst (3) s, subst (asm) s) (auto simp del: append_take_drop_id)
  show "distinct (take i src @ drop (Suc i) src)" using assms(1) by (subst (asm) s) (auto simp del: append_take_drop_id)
qed (use assms in simp)

lemma room_drop:
  assumes "distinct src" "i < length src" "int (count_list des (src ! i)) = m"
  shows "room m des (take i src @ drop (Suc i) src) = room m des src"
  unfolding room_def set_without_nth(1) [OF assms(1,2)] using assms(2,3) by (subst sum.remove [of "set src" "src ! i"]) auto

lemma room_add:
  assumes "i < length src" "int (count_list des (src ! i)) < m"
  shows "room m des src = Suc (room m (des @ [src ! i]) src)"
proof -
  have "room m des src = (nat m - count_list des (src ! i)) + (\<Sum>x\<in>set src - {src ! i}. nat m - count_list des x)"
    "room m (des @ [src ! i]) src = (nat m - count_list (des @ [src ! i]) (src ! i)) + (\<Sum>x\<in>set src - {src ! i}. nat m - count_list (des @ [src ! i]) x)"
    unfolding room_def using assms(1) by (simp_all add: sum.remove [of "set src" "src ! i"])
  moreover have "(\<Sum>x\<in>set src - {src ! i}. nat m - count_list (des @ [src ! i]) x) = (\<Sum>x\<in>set src - {src ! i}. nat m - count_list des x)"
    by (intro sum.cong) auto
  moreover have "Suc (count_list des (src ! i)) \<le> nat m" using assms(2) by linarith
  ultimately show ?thesis by (simp; arith)
qed

lemma Rand_select_takes:
  assumes "bounded_draws v" "distinct src" "0 \<le> m" "\<forall>x \<in> set src. int (count_list des x) \<le> m"
  shows "\<exists>xs n'. Rand_select v m False src des num prev n = Some (Inr (des @ xs, n')) \<and> set xs \<subseteq> set src \<and>
    (\<forall>x \<in> set src. int (count_list (des @ xs) x) \<le> m) \<and> length xs = min (nat num) (room m des src)"
  using assms(2,4)
proof (induction "length src + nat num" arbitrary: src des num prev n rule: less_induct)
  case less
  show ?case
  proof (cases "num > 0 \<and> src \<noteq> []")
    case False
    then have "length ([] :: int list) = min (nat num) (room m des src)" by (auto simp: room_def)
    then show ?thesis using False less.prems by (subst Rand_select.simps) auto
  next
    case True
    obtain i where i: "i < length src" "draw_between v n 0 (int (length src) - 1) = int i" "slot src (int i) = Inr (src ! i)"
      using bounded_slot [OF assms(1)] True by metis
    let ?rest = "take i src @ drop (Suc i) src"
    show ?thesis
    proof (cases "int (count_list des (src ! i)) = m")
      case full: True
      note rest = set_without_nth [OF less.prems(1) i(1)]
      obtain xs n' where IH: "Rand_select v m False ?rest des num prev (n + 1) = Some (Inr (des @ xs, n'))" "set xs \<subseteq> set ?rest"
        "\<forall>x \<in> set ?rest. int (count_list (des @ xs) x) \<le> m" "length xs = min (nat num) (room m des ?rest)"
        using less.hyps [of ?rest num des prev "n + 1"] rest less.prems by fastforce
      have "count_list xs (src ! i) = 0" using IH(2) rest(1) by (auto simp: count_list_0_iff)
      then have "\<forall>x \<in> set src. int (count_list (des @ xs) x) \<le> m" using IH(3) rest(1) full by auto
      then show ?thesis using True IH full i room_drop [OF less.prems(1) i(1) full] rest(1)
        by (subst Rand_select.simps) (auto simp: filter_eq_count)
    next
      case space: False
      then have lt: "int (count_list des (src ! i)) < m" using less.prems(2) i(1) nth_mem by (metis order_le_imp_less_or_eq)
      then have "\<forall>x \<in> set src. int (count_list (des @ [src ! i]) x) \<le> m" using less.prems(2) by auto
      then obtain xs n' where IH: "Rand_select v m False src (des @ [src ! i]) (num - 1) (src ! i) (n + 1) = Some (Inr ((des @ [src ! i]) @ xs, n'))"
        "set xs \<subseteq> set src" "\<forall>x \<in> set src. int (count_list ((des @ [src ! i]) @ xs) x) \<le> m"
        "length xs = min (nat (num - 1)) (room m (des @ [src ! i]) src)"
        using less.hyps [of src "num - 1" "des @ [src ! i]" "src ! i" "n + 1"] less.prems(1) True by auto
      have "Rand_select v m False src des num prev n = Some (Inr (des @ (src ! i # xs), n'))"
        using True IH(1) space i by (subst Rand_select.simps) (auto simp: filter_eq_count)
      moreover have "length (src ! i # xs) = min (nat num) (room m des src)"
        using IH(4) room_add [OF i(1) lt] True by (auto simp: nat_diff_distrib)
      ultimately show ?thesis using IH(2,3) i(1) by (intro exI [of _ "src ! i # xs"] exI [of _ n']) auto
    qed
  qed
qed

text \<open>The same without a word on how often each is taken already.\<close>

lemma Rand_select_plain:
  assumes "bounded_draws v" "distinct src"
  shows "\<exists>xs n'. Rand_select v m False src des num prev n = Some (Inr (des @ xs, n')) \<and> set xs \<subseteq> set src \<and> length xs \<le> nat num"
  using assms(2)
proof (induction "length src + nat num" arbitrary: src des num prev n rule: less_induct)
  case less
  show ?case
  proof (cases "num > 0 \<and> src \<noteq> []")
    case False
    then show ?thesis by (subst Rand_select.simps) auto
  next
    case True
    obtain i where i: "i < length src" "draw_between v n 0 (int (length src) - 1) = int i" "slot src (int i) = Inr (src ! i)"
      using bounded_slot [OF assms(1)] True by metis
    let ?rest = "take i src @ drop (Suc i) src"
    note rest = set_without_nth [OF less.prems i(1)]
    show ?thesis
    proof (cases "int (count_list des (src ! i)) = m")
      case full: True
      then have "Rand_select v m False src des num prev n = Rand_select v m False ?rest des num prev (n + 1)"
        using True i by (subst Rand_select.simps) (simp add: filter_eq_count)
      then show ?thesis using less.hyps [of ?rest num des prev "n + 1"] rest by fastforce
    next
      case space: False
      then have e: "Rand_select v m False src des num prev n = Rand_select v m False src (des @ [src ! i]) (num - 1) (src ! i) (n + 1)"
        using True i by (subst Rand_select.simps) (simp add: filter_eq_count)
      obtain xs n' where "Rand_select v m False src (des @ [src ! i]) (num - 1) (src ! i) (n + 1) = Some (Inr ((des @ [src ! i]) @ xs, n'))"
        "set xs \<subseteq> set src" "length xs \<le> nat (num - 1)"
        using less.hyps [of src "num - 1" "des @ [src ! i]" "src ! i" "n + 1"] less.prems True by auto
      then show ?thesis using i(1) True unfolding e by (intro exI [of _ "src ! i # xs"] exI [of _ n']) auto
    qed
  qed
qed

text \<open>The selection of a chain ends when the draws are fair.\<close>

lemma fair_other:
  assumes "fair_draws v" "distinct src" "1 < length src"
  shows "\<exists>k\<ge>n. src ! nat (draw_between v k 0 (int (length src) - 1)) \<noteq> prev"
proof -
  have "src ! 0 \<noteq> src ! 1" using nth_eq_iff_index_eq [OF assms(2), of 0 1] assms(3) by linarith
  then obtain x where x: "x < length src" "src ! x \<noteq> prev" using assms(3) by (metis Suc_lessD One_nat_def zero_less_Suc less_trans)
  then obtain k where "k \<ge> n" "draw_between v k 0 (int (length src) - 1) = int x"
    using assms(1) unfolding fair_draws_def by (metis of_nat_0_le_iff of_nat_less_iff zle_diff1_eq)
  then show ?thesis using x(2) by (intro exI [of _ k]) simp
qed

definition no_repeat :: "int \<Rightarrow> int list \<Rightarrow> bool" where
  "no_repeat prev xs \<longleftrightarrow> successively (\<noteq>) (prev # xs)"

lemma Rand_select_chain:
  assumes "fair_draws v" "distinct src"
  shows "\<exists>xs n'. Rand_select v m True src des num prev n = Some (Inr (des @ xs, n')) \<and> set xs \<subseteq> set src \<and>
    no_repeat prev xs \<and> length xs \<le> nat num"
  using assms(2)
proof (induction "length src + nat num" arbitrary: src des num prev n rule: less_induct)
  case less
  note IH = less.hyps and dist = less.prems
  show ?case
  proof (cases "num > 0 \<and> length src > 1")
    case False
    then show ?thesis by (subst Rand_select.simps) (auto simp: no_repeat_def)
  next
    case True
    obtain k where k: "k \<ge> n" "src ! nat (draw_between v k 0 (int (length src) - 1)) \<noteq> prev"
      using fair_other [OF assms(1) dist] True by blast
    then show ?thesis
    proof (induction "k - n" arbitrary: n rule: less_induct)
      case (less n)
      have b: "bounded_draws v" using assms(1) by (simp add: fair_draws_def)
      obtain i where i: "i < length src" "draw_between v n 0 (int (length src) - 1) = int i" "slot src (int i) = Inr (src ! i)"
        using bounded_slot [OF b, of src n] True by force
      let ?rest = "take i src @ drop (Suc i) src"
      note rest = set_without_nth [OF dist i(1)]
      consider (full) "int (count_list des (src ! i)) = m" | (again) "int (count_list des (src ! i)) \<noteq> m" "prev = src ! i"
        | (taken) "int (count_list des (src ! i)) \<noteq> m" "prev \<noteq> src ! i" by blast
      then show ?case
      proof cases
        case full
        then have "Rand_select v m True src des num prev n = Rand_select v m True ?rest des num prev (n + 1)"
          using True i by (subst Rand_select.simps) (simp add: filter_eq_count)
        then show ?thesis using IH [of ?rest num des prev "n + 1"] rest by fastforce
      next
        case again
        then have e: "Rand_select v m True src des num prev n = Rand_select v m True src des num prev (n + 1)"
          using True i by (subst Rand_select.simps) (simp add: filter_eq_count)
        have "n \<noteq> k" using less.prems(2) i(2) again(2) by auto
        then have "k - (n + 1) < k - n" "n + 1 \<le> k" using less.prems(1) by auto
        from less.hyps [OF this(1) this(2) less.prems(2)] show ?thesis unfolding e .
      next
        case taken
        then have e: "Rand_select v m True src des num prev n = Rand_select v m True src (des @ [src ! i]) (num - 1) (src ! i) (n + 1)"
          using True i by (subst Rand_select.simps) (simp add: filter_eq_count)
        obtain xs n' where "Rand_select v m True src (des @ [src ! i]) (num - 1) (src ! i) (n + 1) = Some (Inr ((des @ [src ! i]) @ xs, n'))"
          "set xs \<subseteq> set src" "no_repeat (src ! i) xs" "length xs \<le> nat (num - 1)"
          using IH [of src "num - 1" "des @ [src ! i]" "src ! i" "n + 1"] dist True by auto
        then show ?thesis using taken(2) i(1) True unfolding e
          by (intro exI [of _ "src ! i # xs"] exI [of _ n']) (auto simp: no_repeat_def)
      qed
    qed
  qed
qed

section \<open>Whom a skill hits\<close>

text \<open>
  The vector of a team has a place for each position, empty or with the unit at that position, as
  \<open>GetTeamMate\<close> and \<open>GetEnemy\<close> fill it; no unit is dead and dying.
\<close>

definition team :: "units \<Rightarrow> int list \<Rightarrow> bool" where
  "team v ps \<longleftrightarrow> length ps = 4 \<and> (\<forall>i < 4. ps ! i \<noteq> 0 \<longrightarrow> GetPos v (ps ! i) = int i) \<and> (\<forall>p. \<not> (IsDead v p \<and> IsDying v p))"

lemma team_pos:
  assumes "team v ps" "p \<in> set ps" "p \<noteq> 0"
  shows "0 \<le> GetPos v p" "GetPos v p \<le> 3" "ps ! nat (GetPos v p) = p" "slot ps (GetPos v p) = Inr p"
proof -
  obtain i where "i < 4" "ps ! i = p" using assms(1,2) by (auto simp: team_def in_set_conv_nth)
  then have "GetPos v p = int i" using assms(1,3) by (auto simp: team_def)
  with \<open>i < 4\<close> \<open>ps ! i = p\<close> assms(1) show "0 \<le> GetPos v p" "GetPos v p \<le> 3" "ps ! nat (GetPos v p) = p" "slot ps (GetPos v p) = Inr p"
    by (auto simp: slot_def team_def)
qed

lemma team_distinct:
  assumes "team v ps"
  shows "distinct (filter (\<lambda>p. p \<noteq> 0) ps)"
proof -
  have P: "GetPos v (ps ! i) = int i" if "i < 4" "ps ! i \<noteq> 0" for i using assms that by (simp add: team_def)
  have "distinct (filter (\<lambda>p. p \<noteq> 0) (List.map (\<lambda>i. ps ! i) js))" if "distinct js" "set js \<subseteq> {..<4}" for js
    using that
  proof (induction js)
    case (Cons j js)
    have "ps ! j \<noteq> ps ! k" if "k \<in> set js" "ps ! j \<noteq> 0" for k
    proof
      assume eq: "ps ! j = ps ! k"
      have lt: "j < 4" "k < 4" using Cons.prems(2) that(1) by auto
      have "GetPos v (ps ! j) = int j" by (rule P [OF lt(1) that(2)])
      moreover have "GetPos v (ps ! k) = int k" by (rule P [OF lt(2) that(2) [unfolded eq]])
      ultimately have "j = k" unfolding eq by simp
      then show False using that(1) Cons.prems(1) by simp
    qed
    then show ?case using Cons by auto
  qed simp
  from this [of "[0..<4]"] have "distinct (filter (\<lambda>p. p \<noteq> 0) (List.map (\<lambda>i. ps ! i) [0..<length ps]))"
    using assms by (simp add: team_def atLeast0LessThan del: upt_Suc upt.simps)
  then show ?thesis by (simp only: map_nth)
qed

lemma valid_distinct:
  assumes "team v ps" "\<And>p. f p \<Longrightarrow> p \<noteq> 0"
  shows "distinct (filter f ps)"
proof -
  have "filter f ps = filter f (filter (\<lambda>p. p \<noteq> 0) ps)" using assms(2) by (induction ps) auto
  then show ?thesis using team_distinct [OF assms(1)] by (metis distinct_filter)
qed

lemma acts: "CanAct v p \<Longrightarrow> p \<noteq> 0" "CanAttacked v p \<Longrightarrow> p \<noteq> 0" "dead_unit v p \<Longrightarrow> p \<noteq> 0" "dying_unit v p \<Longrightarrow> p \<noteq> 0"
  "IsAlive v p \<Longrightarrow> p \<noteq> 0" "CanAttacked v p \<Longrightarrow> CanAct v p" "CanAct v p \<Longrightarrow> IsAlive v p"
  by (auto simp: CanAct_def CanAttacked_def dead_unit_def dying_unit_def IsAlive_def)

lemma RandPos_picks:
  assumes "bounded_draws v" "qs \<noteq> []" "0 \<notin> set qs"
  shows "\<exists>p \<in> set qs. RandPos v qs n = Inr (GetPos v p, n + 1)"
proof -
  obtain i where "i < length qs" "slot qs (draw_between v n 0 (int (length qs) - 1)) = Inr (qs ! i)"
    using bounded_slot [OF assms(1,2)] by metis
  then show ?thesis using assms(3) nth_mem by (fastforce simp: RandPos_def Rand_def pos_of_def)
qed

text \<open>A position that was chosen is none, or that of a unit of the team of which \<open>f\<close> holds.\<close>

definition chosen :: "units \<Rightarrow> int list \<Rightarrow> (int \<Rightarrow> bool) \<Rightarrow> int \<Rightarrow> bool" where
  "chosen v ps f pos \<longleftrightarrow> pos = POS_INVALID \<or> (0 \<le> pos \<and> pos \<le> 3 \<and> ps ! nat pos \<in> set ps \<and> ps ! nat pos \<noteq> 0 \<and> f (ps ! nat pos))"

lemma chosen_unit: "team v ps \<Longrightarrow> p \<in> set ps \<Longrightarrow> p \<noteq> 0 \<Longrightarrow> f p \<Longrightarrow> chosen v ps f (GetPos v p)"
  using team_pos by (auto simp: chosen_def)

lemma RandPos_chosen:
  assumes "bounded_draws v" "team v ps" "qs \<noteq> []" "\<And>p. p \<in> set qs \<Longrightarrow> p \<in> set ps \<and> p \<noteq> 0 \<and> f p"
  shows "\<exists>pos. RandPos v qs n = Inr (pos, n + 1) \<and> chosen v ps f pos \<and> pos \<noteq> POS_INVALID"
proof -
  obtain p where p: "p \<in> set qs" "RandPos v qs n = Inr (GetPos v p, n + 1)" using RandPos_picks [OF assms(1,3)] assms(4) by blast
  note q = assms(4) [OF p(1)]
  have "chosen v ps f (GetPos v p)" using chosen_unit [OF assms(2)] q by blast
  moreover have "GetPos v p \<noteq> POS_INVALID" using team_pos(1) [OF assms(2)] q by (fastforce simp: POS_INVALID_def)
  ultimately show ?thesis using p(2) by blast
qed

lemma Random_chosen:
  assumes "bounded_draws v" "team v ps"
  shows "\<exists>pos n'. Random v ps n = Inr (pos, n') \<and> chosen v ps (CanAct v) pos"
proof -
  have a: "filter (CanAttacked v) ps \<noteq> [] \<Longrightarrow> \<exists>pos n'. RandPos v (filter (CanAttacked v) ps) n = Inr (pos, n') \<and> chosen v ps (CanAct v) pos"
    using RandPos_chosen [OF assms, of "filter (CanAttacked v) ps" "CanAct v" n] acts by fastforce
  have b: "filter (CanAct v) ps \<noteq> [] \<Longrightarrow> \<exists>pos n'. RandPos v (filter (CanAct v) ps) n = Inr (pos, n') \<and> chosen v ps (CanAct v) pos"
    using RandPos_chosen [OF assms, of "filter (CanAct v) ps" "CanAct v" n] acts by fastforce
  show ?thesis using a b by (auto simp: Random_def GetValidPlayer_def Let_def chosen_def)
qed

lemma action_or_attack:
  assumes "bounded_draws v" "team v ps" "set qs \<subseteq> set ps" "filter (CanAct v) qs \<noteq> []"
  shows "\<exists>pos n'. (if filter (CanAttacked v) (filter (CanAct v) qs) \<noteq> [] then RandPos v (filter (CanAttacked v) (filter (CanAct v) qs)) n
    else RandPos v (filter (CanAct v) qs) n) = Inr (pos, n') \<and> chosen v ps (CanAct v) pos"
proof -
  have acting: "p \<in> set ps \<and> p \<noteq> 0 \<and> CanAct v p" if "p \<in> set (filter (CanAct v) qs)" for p
    using that assms(3) acts(1) by auto
  show ?thesis
  proof (cases "filter (CanAttacked v) (filter (CanAct v) qs) = []")
    case True
    then show ?thesis using RandPos_chosen [OF assms(1,2,4) acting, of n] by (simp only: if_False simp_thms) blast
  next
    case False
    have "p \<in> set ps \<and> p \<noteq> 0 \<and> CanAct v p" if "p \<in> set (filter (CanAttacked v) (filter (CanAct v) qs))" for p
      using that acting [of p] by simp
    from RandPos_chosen [OF assms(1,2) False this, of n] False show ?thesis by (simp only: if_True simp_thms) blast
  qed
qed

text \<open>The other ways to choose a position.\<close>

lemma Position_chosen:
  assumes "bounded_draws v" "team v ps" "params \<noteq> []"
  shows "\<exists>pos n'. Position v params ps n = Inr (pos, n') \<and> chosen v ps (CanAct v) pos"
proof -
  define e :: int where "e = (if params ! 0 = FRONT_ROW then 3 else 0)"
  let ?row = "take (nat e) ps @ drop (Suc (nat e)) ps"
  have e: "0 \<le> e" "e \<le> 3" "slot ps e = Inr (ps ! nat e)" "ps ! nat e \<in> set ps" using assms(2) by (auto simp: e_def slot_def team_def)
  have row: "set ?row \<subseteq> set ps" by (auto dest: in_set_takeD in_set_dropD)
  have run: "Position v params ps n = (if filter (CanAct v) ?row = [] then Inr (if CanAct v (ps ! nat e) then e else POS_INVALID, n)
    else if filter (CanAttacked v) (filter (CanAct v) ?row) \<noteq> [] then RandPos v (filter (CanAttacked v) (filter (CanAct v) ?row)) n
    else RandPos v (filter (CanAct v) ?row) n)"
    using assms(3) e(3) unfolding Position_def by (simp add: slot_def [of params] Let_def GetValidPlayer_def e_def)
  show ?thesis
  proof (cases "filter (CanAct v) ?row = []")
    case True
    then show ?thesis using e acts(1) by (auto simp only: run if_True simp_thms) (auto simp: chosen_def)
  next
    case False
    from action_or_attack [OF assms(1,2) row False, of n] False show ?thesis by (simp only: run if_False)
  qed
qed

lemma Sequence_chosen: "team v ps \<Longrightarrow> \<exists>pos. Sequence v ps = Inr pos \<and> chosen v ps (CanAct v) pos"
proof (cases "filter (CanAct v) ps")
  case (Cons p qs)
  assume "team v ps"
  moreover have "p \<in> set (filter (CanAct v) ps)" unfolding Cons by simp
  then have "p \<in> set ps" "CanAct v p" "p \<noteq> 0" using acts(1) by auto
  ultimately show ?thesis using Cons chosen_unit by (auto simp: Sequence_def GetValidPlayer_def pos_of_def)
qed (simp add: Sequence_def GetValidPlayer_def chosen_def)

lemma HP_loop_chosen:
  assumes "HP_loop v t f qs (int (length ps) - int (length qs)) best pos = r" "ps = ks @ qs"
  shows "r = pos \<or> (0 \<le> r \<and> nat r < length ps \<and> f (ps ! nat r))"
  using assms
proof (induction qs arbitrary: ks best pos)
  case (Cons q qs)
  have here: "ps ! length ks = q" "int (length ps) - int (length (q # qs)) = int (length ks)"
    "int (length ps) - int (length qs) = int (length ks) + 1" using Cons.prems(2) by auto
  have IH: "HP_loop v t f qs (int (length ks) + 1) best' pos' = r \<Longrightarrow> r = pos' \<or> (0 \<le> r \<and> nat r < length ps \<and> f (ps ! nat r))" for best' pos'
    using Cons.IH [of best' pos' "ks @ [q]"] Cons.prems(2) unfolding here by simp
  have run: "HP_loop v t f (q # qs) (int (length ks)) best pos = r" using Cons.prems(1) unfolding here .
  show ?case
  proof (cases "f q \<and> (if t mod 2 = 0 then hp_float v q (\<not> t < HP_SCALE_MIN) < best else hp_float v q (\<not> t < HP_SCALE_MIN) > best)")
    case True
    have "r = int (length ks) \<or> (0 \<le> r \<and> nat r < length ps \<and> f (ps ! nat r))" by (rule IH [OF run [unfolded HP_loop.simps Let_def if_P [OF True]]])
    then show ?thesis using True here(1) Cons.prems(2) by auto
  next
    case False
    show ?thesis by (rule IH [OF run [unfolded HP_loop.simps Let_def if_not_P [OF False]]])
  qed
qed simp

lemma HP_chosen:
  assumes "team v ps" "params \<noteq> []" "f = (if tm = TEAM_MATE then IsAlive v else CanAct v)"
  shows "\<exists>pos. HP v tm params ps = Inr pos \<and> chosen v ps f pos"
proof -
  let ?pos = "HP_loop v (params ! 0) f ps 0 (if params ! 0 mod 2 = 0 then FLT_MAX else 0) POS_INVALID"
  have "?pos = POS_INVALID \<or> (0 \<le> ?pos \<and> nat ?pos < length ps \<and> f (ps ! nat ?pos))"
    using HP_loop_chosen [of v "params ! 0" f ps ps, OF _ append_Nil [symmetric]] by simp
  then have "chosen v ps f ?pos" using assms(1,3) acts(1,5) nth_mem by (auto simp: chosen_def team_def split: if_splits)
  then show ?thesis using assms(2,3) by (simp add: HP_def slot_def)
qed

lemma Class_chosen:
  assumes "bounded_draws v" "team v ps"
  shows "\<exists>pos n'. Class v params ps n = Inr (pos, n') \<and> chosen v ps (CanAct v) pos"
proof (cases "filter (CanAct v) ps = []")
  case False
  let ?own = "filter (\<lambda>p. GetRoleClass v p \<in> set params) (filter (CanAct v) ps)"
  show ?thesis
  proof (cases ?own)
    case Nil
    from action_or_attack [OF assms subset_refl False, of n] False Nil show ?thesis
      by (simp only: Class_def GetValidPlayer_def Let_def if_False list.case)
  next
    case (Cons p qs)
    then have "p \<in> set ?own" by simp
    then have "p \<in> set ps" "CanAct v p" "p \<noteq> 0" using acts(1) by auto
    then show ?thesis using chosen_unit [OF assms(2)] False Cons
      by (simp only: Class_def GetValidPlayer_def Let_def if_False list.case) (simp add: pos_of_def)
  qed
qed (simp add: Class_def GetValidPlayer_def chosen_def)

lemma Dead_chosen:
  assumes "bounded_draws v" "team v ps"
  shows "\<exists>pos n'. Dead v ps n = Inr (pos, n') \<and> chosen v ps (\<lambda>_. True) pos"
proof -
  have a: "filter f ps \<noteq> [] \<Longrightarrow> \<exists>pos n'. RandPos v (filter f ps) n = Inr (pos, n') \<and> chosen v ps (\<lambda>_. True) pos"
    if "\<And>p. f p \<Longrightarrow> p \<noteq> 0" for f using RandPos_chosen [OF assms, of "filter f ps" "\<lambda>_. True" n] that by fastforce
  have "\<exists>pos n'. Random v ps n = Inr (pos, n') \<and> chosen v ps (\<lambda>_. True) pos"
    using Random_chosen [OF assms, of n] by (auto simp: chosen_def)
  then show ?thesis using a [of "dead_unit v"] a [of "dying_unit v"] acts(3,4) unfolding Dead_def GetValidPlayer_def Let_def by (auto simp only: split: if_split)
qed

text \<open>A line that was chosen crosses a unit alive.\<close>

definition good_line :: "units \<Rightarrow> int list \<Rightarrow> int \<Rightarrow> bool" where
  "good_line v ps pos \<longleftrightarrow> pos = POS_INVALID \<or> (LINE_FRONT \<le> pos \<and> pos \<le> LINE_DOWN \<and>
     (\<exists>ts. LineRange v pos ps = Inr ts \<and> ts \<noteq> []))"

lemma places_nonempty: "places v ps js \<noteq> [] \<longleftrightarrow> (\<exists>j \<in> set js. alive_at v ps j)"
  by (auto simp: places_def alive_at_def filter_empty_conv)

lemma good_lines:
  assumes "4 \<le> length ps"
  shows "good_line v ps (LineFront v ps)" "good_line v ps (LineBack v ps)" "good_line v ps (LineUp v ps)" "good_line v ps (LineDown v ps)"
    "good_line v ps (LineTwoFront v ps)" "good_line v ps (LineTwoBack v ps)" "good_line v ps (LineTwoUp v ps)" "good_line v ps (LineTwoDown v ps)"
    "good_line v ps (fst (LineVMid v ps n))" "good_line v ps (fst (LineHMid v ps n))"
  using assms unfolding LineFront_def LineBack_def LineUp_def LineDown_def LineTwoFront_def LineTwoBack_def LineTwoUp_def LineTwoDown_def
    LineVMid_def LineHMid_def
  by (auto simp: good_line_def LineRange_def places_nonempty line_consts POS_INVALID_def Rand_def Let_def)

lemma RandLineType_range:
  assumes "bounded_draws v" "LINE_FRONT \<le> t" "t \<le> LINE_RAND_HTWO"
  shows "\<exists>u n'. RandLineType v t n = (u, n') \<and> LINE_FRONT \<le> u \<and> u \<le> LINE_DOWN"
proof -
  have b: "0 \<le> draw_between v n 0 2 \<and> draw_between v n 0 2 \<le> 2" using assms(1) by (simp add: bounded_draws_def)
  then show ?thesis using assms(2,3) by (auto simp: RandLineType_def Rand_def line_consts)
qed

lemma Line_chosen:
  assumes "bounded_draws v" "length ps = 4" "params \<noteq> []" "LINE_FRONT \<le> params ! 0" "params ! 0 \<le> LINE_RAND_HTWO"
  shows "\<exists>pos n'. Line v params ps n = Inr (pos, n') \<and> good_line v ps pos"
proof -
  obtain u n1 where u: "RandLineType v (params ! 0) n = (u, n1)" "LINE_FRONT \<le> u" "u \<le> LINE_DOWN"
    using RandLineType_range [OF assms(1,4,5)] by blast
  have "u \<in> {5, 6, 7, 8, 9, 10, 11, 12, 13, 14}" using u(2,3) unfolding LINE_FRONT_def LINE_DOWN_def by (simp; presburger)
  moreover have "slot params 0 = Inr (params ! 0)" using assms(3) by (simp add: slot_def)
  moreover note good = good_lines [of ps v]
  ultimately show ?thesis using assms(2) u(1)
    by (auto simp: Line_def line_consts) (metis fst_conv surj_pair)+
qed

text \<open>
  Templates whose ways to choose a position and a range go together. The checks of the templates look
  at each alone.
\<close>

definition fits :: "int \<Rightarrow> skill_target \<Rightarrow> skill_range \<Rightarrow> bool" where
  "fits tm t r \<longleftrightarrow> target_valid t \<and> range_valid r \<and>
     (if rg_type r = RANGE_LINE \<or> rg_type r = RANGE_BULLET_LINE then tg_type t = TARGET_LINE
      else tg_type t \<in> {TARGET_RANDOM, TARGET_SEQUENCE, TARGET_CLASS} \<or>
           tg_type t = TARGET_POSITION \<or>
           tg_type t = TARGET_HP \<and> (rg_type r = RANGE_CHAIN \<longrightarrow> tm \<noteq> TEAM_MATE) \<or>
           tg_type t = TARGET_DEAD \<and> rg_type r \<in> {RANGE_SINGLE, RANGE_RANGE})"

text \<open>What is chosen for templates that fit: units that can act but for those that look for others.\<close>

definition wanted :: "units \<Rightarrow> int \<Rightarrow> skill_target \<Rightarrow> int \<Rightarrow> bool" where
  "wanted v tm t p \<longleftrightarrow> (if tg_type t = TARGET_DEAD then True else if tg_type t = TARGET_HP \<and> tm = TEAM_MATE then IsAlive v p else CanAct v p)"

lemma wanted_cases:
  "tg_type t \<in> {TARGET_RANDOM, TARGET_SEQUENCE, TARGET_CLASS, TARGET_POSITION} \<Longrightarrow> wanted v tm t = CanAct v"
  "tg_type t = TARGET_HP \<Longrightarrow> wanted v tm t = (if tm = TEAM_MATE then IsAlive v else CanAct v)"
  "tg_type t = TARGET_DEAD \<Longrightarrow> wanted v tm t = (\<lambda>_. True)"
  by (auto simp: fun_eq_iff wanted_def target_consts)

lemma chosen_mono: "chosen v ps f pos \<Longrightarrow> (\<And>p. f p \<Longrightarrow> g p) \<Longrightarrow> chosen v ps g pos"
  by (auto simp: chosen_def)

lemma GetCastPos_chosen:
  assumes "bounded_draws v" "team v ps" "fits tm t r" "tg_type t \<noteq> TARGET_LINE"
  shows "\<exists>pos n'. GetCastPos v caster tm t ps n = Inr (pos, n') \<and> chosen v ps (wanted v tm t) pos"
proof -
  have params: "tg_type t = TARGET_HP \<Longrightarrow> tg_params t \<noteq> []" "tg_type t = TARGET_POSITION \<Longrightarrow> tg_params t \<noteq> []"
    using assms(3) by (auto simp: fits_def target_valid_def target_params_valid_def Let_def target_consts)
  have "tg_type t \<in> {TARGET_RANDOM, TARGET_SEQUENCE, TARGET_CLASS, TARGET_POSITION, TARGET_HP, TARGET_DEAD}"
    using assms(3,4) by (auto simp: fits_def split: if_splits)
  then consider "tg_type t = TARGET_RANDOM" | "tg_type t = TARGET_SEQUENCE" | "tg_type t = TARGET_CLASS" | "tg_type t = TARGET_POSITION"
    | "tg_type t = TARGET_HP" | "tg_type t = TARGET_DEAD" by blast
  then show ?thesis
  proof cases
    case 1
    then show ?thesis using Random_chosen [OF assms(1,2), of n] by (auto simp: GetCastPos_def wanted_cases(1)) (auto simp: target_consts)
  next
    case 2
    then show ?thesis using Sequence_chosen [OF assms(2)] by (auto simp: GetCastPos_def wanted_cases(1)) (auto simp: target_consts)
  next
    case 3
    then show ?thesis using Class_chosen [OF assms(1,2), of "tg_params t" n] by (auto simp: GetCastPos_def wanted_cases(1)) (auto simp: target_consts)
  next
    case 4
    then show ?thesis using Position_chosen [OF assms(1,2) params(2), of n] by (auto simp: GetCastPos_def wanted_cases(1)) (auto simp: target_consts)
  next
    case 5
    then show ?thesis using HP_chosen [OF assms(2) params(1) refl, of tm] by (simp add: GetCastPos_def wanted_cases(2)) (auto simp: target_consts)
  next
    case 6
    then show ?thesis using Dead_chosen [OF assms(1,2), of n] by (simp add: GetCastPos_def wanted_cases(3)) (auto simp: target_consts)
  qed
qed

lemma distinct_count: "(\<forall>x \<in> set xs. count_list xs x \<le> 1) \<Longrightarrow> distinct xs"
  by (induction xs) (auto simp: count_list_0_iff split: if_splits)

lemma Rand_some_takes:
  assumes "bounded_draws v" "distinct src" "distinct des" "set src \<inter> set des = {}"
  shows "\<exists>xs n'. Rand_some v src des num n = Some (Inr (des @ xs, n')) \<and> set xs \<subseteq> set src \<and> distinct (des @ xs) \<and>
    length xs = min (nat num) (length src)"
proof -
  have zero: "count_list des x = 0" if "x \<in> set src" for x using that assms(4) by (auto simp: count_list_0_iff)
  then have "\<forall>x \<in> set src. int (count_list des x) \<le> 1" by simp
  from Rand_select_takes [OF assms(1,2) _ this, of num 0 n] obtain xs n' where
    r: "Rand_select v 1 False src des num 0 n = Some (Inr (des @ xs, n'))" "set xs \<subseteq> set src"
      "\<forall>x \<in> set src. int (count_list (des @ xs) x) \<le> 1" "length xs = min (nat num) (room 1 des src)" by auto
  have "room 1 des src = (\<Sum>x \<in> set src. 1)" unfolding room_def using zero by (intro sum.cong) auto
  then have "room 1 des src = length src" using assms(2) by (simp add: distinct_card)
  moreover have "distinct xs" using r(2,3) zero by (intro distinct_count) (auto simp: subset_iff)
  ultimately show ?thesis using r assms(3,4) by (auto simp: Rand_some_def)
qed

text \<open>The units of a team without the one at a position.\<close>

lemma team_without:
  assumes "team v ps" "i < 4" "ps ! i \<noteq> 0" "\<And>p. f p \<Longrightarrow> p \<noteq> 0"
  shows "distinct (filter f (take i ps @ drop (Suc i) ps))" "ps ! i \<notin> set (filter f (take i ps @ drop (Suc i) ps))"
    "set (filter f (take i ps @ drop (Suc i) ps)) \<subseteq> {p \<in> set ps. f p}"
proof -
  have s: "ps = take i ps @ ps ! i # drop (Suc i) ps" using assms(1,2) by (simp add: Cons_nth_drop_Suc team_def)
  have "distinct (filter (\<lambda>p. p \<noteq> 0) (take i ps @ ps ! i # drop (Suc i) ps))" using team_distinct [OF assms(1)] s by metis
  then have d: "distinct (ps ! i # filter (\<lambda>p. p \<noteq> 0) (take i ps @ drop (Suc i) ps))" using assms(3) by auto
  have f: "filter f (take i ps @ drop (Suc i) ps) = filter f (filter (\<lambda>p. p \<noteq> 0) (take i ps @ drop (Suc i) ps))"
    using assms(4) by (simp only: filter_filter) (metis (mono_tags, lifting))
  show "distinct (filter f (take i ps @ drop (Suc i) ps))" unfolding f using d by (simp del: filter_filter filter_append)
  show "ps ! i \<notin> set (filter f (take i ps @ drop (Suc i) ps))" using d assms(3) by auto
  show "set (filter f (take i ps @ drop (Suc i) ps)) \<subseteq> {p \<in> set ps. f p}" by (auto dest: in_set_takeD in_set_dropD)
qed

text \<open>What is asked of the targets: units of the team, each once but for chains, alive unless the dead are looked for.\<close>

definition sound_targets :: "units \<Rightarrow> skill_target \<Rightarrow> skill_range \<Rightarrow> int list \<Rightarrow> int list \<Rightarrow> bool" where
  "sound_targets v t r ps ts \<longleftrightarrow> ts \<noteq> [] \<and> set ts \<subseteq> set ps \<and> 0 \<notin> set ts \<and> (rg_type r \<noteq> RANGE_CHAIN \<longrightarrow> distinct ts) \<and>
     (tg_type t \<noteq> TARGET_DEAD \<longrightarrow> (\<forall>p \<in> set ts. IsAlive v p)) \<and>
     (rg_type r \<in> {RANGE_RANGE, RANGE_CHAIN} \<longrightarrow> int (length ts) \<le> max 1 (rg_num r))"

lemma RangeRange_sound:
  assumes "bounded_draws v" "team v ps" "0 \<le> pos" "pos \<le> 3" "ps ! nat pos \<noteq> 0" "tg_type t \<noteq> TARGET_DEAD \<longrightarrow> IsAlive v (ps ! nat pos)"
    "rg_type r = RANGE_RANGE"
  shows "\<exists>ts n'. RangeRange v t r pos ps n = Some (Inr (ts, n')) \<and> sound_targets v t r ps ts"
proof -
  define obj where "obj = ps ! nat pos"
  define qs where "qs = take (nat pos) ps @ drop (Suc (nat pos)) ps"
  define num where "num = rg_num r - 1"
  have i: "nat pos < 4" using assms(3,4) by simp
  have obj: "obj \<in> set ps" "obj \<noteq> 0" using i assms(2,5) nth_mem by (auto simp: obj_def team_def)
  note without = team_without [OF assms(2) i assms(5), folded obj_def qs_def]
  have run: "RangeRange v t r pos ps n =
     (let attacked = filter (CanAttacked v) qs; action = filter (CanAct v) qs; dead = filter (dead_unit v) qs; dying = filter (dying_unit v) qs
      in if tg_type t \<noteq> TARGET_DEAD then Rand_some v (if int (length attacked) > num then attacked else action) [obj] num n
         else if CanAct v obj then Rand_some v action [obj] num n
         else if dead_unit v obj \<and> int (length dead) > num then Rand_some v dead [obj] num n
         else let target1 = (if dead_unit v obj then [obj] @ dead else [obj]);
                  num1 = (if dead_unit v obj then num - int (length dead) else num)
              in if int (length dying) > num1 then Rand_some v dying target1 num1 n
                 else Rand_some v action (target1 @ dying) (num1 - int (length dying)) n)"
  proof -
    have sl: "slot ps pos = Inr obj" and c: "pos \<noteq> POS_CENTER" using assms(2-4) i by (simp_all add: slot_def team_def POS_CENTER_def obj_def)
    show ?thesis unfolding RangeRange_def GetValidPlayer_def if_P [OF c] sl bindr_simps sum.case prod.case qs_def [symmetric] num_def [symmetric] ..
  qed
  have alone: "distinct [obj]" by simp
  have pick: "\<exists>xs n'. Rand_some v (filter f qs) des m n = Some (Inr (des @ xs, n')) \<and> set xs \<subseteq> set (filter f qs) \<and> distinct (des @ xs) \<and>
      int (length xs) \<le> max 0 m" if "\<And>p. f p \<Longrightarrow> p \<noteq> 0" "distinct des" "set (filter f qs) \<inter> set des = {}" for f des m
    using Rand_some_takes [OF assms(1) without(1) [OF that(1)] that(2,3), of m n] by auto
  have disj: "set (filter f qs) \<inter> set [obj] = {}" if "\<And>p. f p \<Longrightarrow> p \<noteq> 0" for f using without(2) [OF that] by auto
  have in_ps: "set (filter f qs) \<subseteq> set ps" for f by (auto simp: qs_def dest: in_set_takeD in_set_dropD)
  have sound: "sound_targets v t r ps ts" if "distinct ts" "set ts \<subseteq> set ps" "0 \<notin> set ts" "ts \<noteq> []" "int (length ts) \<le> max 1 (rg_num r)"
      "tg_type t \<noteq> TARGET_DEAD \<longrightarrow> (\<forall>p \<in> set ts. IsAlive v p)" for ts
    using that by (simp add: sound_targets_def)
  have one: "sound_targets v t r ps ([obj] @ xs)" if "set xs \<subseteq> set (filter f qs)" "distinct ([obj] @ xs)" "int (length xs) \<le> max 0 num" "\<And>p. f p \<Longrightarrow> p \<noteq> 0"
      "tg_type t \<noteq> TARGET_DEAD \<longrightarrow> (\<forall>p. f p \<longrightarrow> IsAlive v p)" for f xs
    using that obj in_ps [of f] assms(6) by (intro sound) (auto simp: num_def obj_def [symmetric])
  note f0 = acts(1) [of v] acts(2) [of v] acts(3) [of v] acts(4) [of v]
  have single: "\<exists>ts n'. Rand_some v (filter f qs) [obj] num n = Some (Inr (ts, n')) \<and> sound_targets v t r ps ts"
    if "\<And>p. f p \<Longrightarrow> p \<noteq> 0" "tg_type t \<noteq> TARGET_DEAD \<longrightarrow> (\<forall>p. f p \<longrightarrow> IsAlive v p)" for f
    using pick [OF that(1) alone disj [OF that(1)], where m = num] one [OF _ _ _ that] by blast
  have none: "\<not> CanAct v 0" "\<not> dead_unit v 0" "\<not> dying_unit v 0" using f0 by blast+
  have excl: "set (filter (dead_unit v) qs) \<inter> set (filter (dying_unit v) qs) = {}" "set (filter (dead_unit v) qs) \<inter> set (filter (CanAct v) qs) = {}"
    "set (filter (dying_unit v) qs) \<inter> set (filter (CanAct v) qs) = {}"
    using assms(2) by (auto simp: team_def dead_unit_def dying_unit_def CanAct_def)
  have tail: "\<exists>ts n'. (if int (length (filter (dying_unit v) qs)) > num1 then Rand_some v (filter (dying_unit v) qs) des num1 n
      else Rand_some v (filter (CanAct v) qs) (des @ filter (dying_unit v) qs) (num1 - int (length (filter (dying_unit v) qs))) n) = Some (Inr (ts, n')) \<and>
      sound_targets v t r ps ts"
    if des: "tg_type t = TARGET_DEAD" "distinct des" "set des \<subseteq> set ps" "0 \<notin> set des" "des \<noteq> []" "set (filter (dying_unit v) qs) \<inter> set des = {}"
      "set (filter (CanAct v) qs) \<inter> set des = {}" "int (length des) + max 0 num1 \<le> max 1 (rg_num r)" for des num1
  proof (cases "int (length (filter (dying_unit v) qs)) > num1")
    case True
    from pick [OF f0(4) des(2,6), where m = num1] obtain xs n' where
      "Rand_some v (filter (dying_unit v) qs) des num1 n = Some (Inr (des @ xs, n'))" "set xs \<subseteq> set (filter (dying_unit v) qs)"
      "distinct (des @ xs)" "int (length xs) \<le> max 0 num1" by blast
    moreover have "sound_targets v t r ps (des @ xs)" using calculation des in_ps [of "dying_unit v"] none by (intro sound) auto
    ultimately show ?thesis using True by auto
  next
    case False
    let ?dying = "filter (dying_unit v) qs"
    have d: "distinct (des @ ?dying)" "set (filter (CanAct v) qs) \<inter> set (des @ ?dying) = {}"
      using des without(1) [OF f0(4)] excl(3) by auto
    from pick [OF f0(1) d, where m = "num1 - int (length ?dying)"] obtain xs n' where
      x: "Rand_some v (filter (CanAct v) qs) (des @ ?dying) (num1 - int (length ?dying)) n = Some (Inr ((des @ ?dying) @ xs, n'))"
      "set xs \<subseteq> set (filter (CanAct v) qs)" "distinct ((des @ ?dying) @ xs)" "int (length xs) \<le> max 0 (num1 - int (length ?dying))" by blast
    have "sound_targets v t r ps ((des @ ?dying) @ xs)"
      using x(2-4) des(1-5,8) in_ps [of "dying_unit v"] in_ps [of "CanAct v"] none False by (intro sound) auto
    with x(1) False show ?thesis by auto
  qed
  show ?thesis
  proof (cases "tg_type t \<noteq> TARGET_DEAD")
    case True
    then show ?thesis using single [of "CanAttacked v"] single [of "CanAct v"] f0 acts(5-7) unfolding run Let_def by auto
  next
    case dead: False
    consider (acting) "CanAct v obj" | (many) "\<not> CanAct v obj" "dead_unit v obj" "int (length (filter (dead_unit v) qs)) > num"
      | (all) "\<not> CanAct v obj" "dead_unit v obj" "int (length (filter (dead_unit v) qs)) \<le> num" | (dying) "\<not> CanAct v obj" "\<not> dead_unit v obj"
      by force
    then show ?thesis
    proof cases
      case acting
      then show ?thesis using dead single [of "CanAct v"] f0(1) unfolding run Let_def by simp
    next
      case many
      then show ?thesis using dead single [of "dead_unit v"] f0(3) unfolding run Let_def by simp
    next
      case all
      let ?dead = "filter (dead_unit v) qs"
      have "\<exists>ts n'. (if int (length (filter (dying_unit v) qs)) > num - int (length ?dead) then Rand_some v (filter (dying_unit v) qs) ([obj] @ ?dead) (num - int (length ?dead)) n
        else Rand_some v (filter (CanAct v) qs) (([obj] @ ?dead) @ filter (dying_unit v) qs) (num - int (length ?dead) - int (length (filter (dying_unit v) qs))) n) =
          Some (Inr (ts, n')) \<and> sound_targets v t r ps ts"
        using dead all obj in_ps [of "dead_unit v"] none without(1) [OF f0(3)] disj [OF f0(1)] disj [OF f0(3)] disj [OF f0(4)] excl(1,2)
        by (intro tail) (auto simp: num_def)
      moreover have "\<not> num < int (length ?dead)" using all by simp
      ultimately show ?thesis using dead all unfolding run Let_def by (simp only: if_True if_False simp_thms)
    next
      case dying
      have "\<exists>ts n'. (if int (length (filter (dying_unit v) qs)) > num then Rand_some v (filter (dying_unit v) qs) [obj] num n
        else Rand_some v (filter (CanAct v) qs) ([obj] @ filter (dying_unit v) qs) (num - int (length (filter (dying_unit v) qs))) n) =
          Some (Inr (ts, n')) \<and> sound_targets v t r ps ts"
        using dead obj disj [OF f0(1)] disj [OF f0(4)] by (intro tail) (auto simp: num_def)
      then show ?thesis using dead dying unfolding run Let_def by (simp only: if_True if_False simp_thms)
    qed
  qed
qed

lemma Rand_select_returns:
  assumes "fair_draws v" "distinct src"
  shows "\<exists>xs n'. Rand_select v m ch src des num prev n = Some (Inr (des @ xs, n')) \<and> set xs \<subseteq> set src \<and> length xs \<le> nat num"
proof (cases ch)
  case True
  then have "ch = True" by simp
  then show ?thesis using Rand_select_chain [OF assms, of m des num prev n] by blast
next
  case False
  have "bounded_draws v" using assms(1) by (simp add: fair_draws_def)
  from Rand_select_plain [OF this assms(2), of m des num prev n] False show ?thesis by simp
qed

lemma ChainRange_sound:
  assumes "fair_draws v" "team v ps" "0 \<le> pos" "pos \<le> 3" "ps ! nat pos \<noteq> 0" "CanAct v (ps ! nat pos)" "tg_type t \<noteq> TARGET_DEAD"
    "rg_type r = RANGE_CHAIN"
  shows "\<exists>ts n'. ChainRange v t r pos ps n = Some (Inr (ts, n')) \<and> sound_targets v t r ps ts"
proof -
  let ?obj = "ps ! nat pos"
  define qs where "qs = (if rg_max_selected r = 1 then take (nat pos) ps @ drop (Suc (nat pos)) ps else ps)"
  define src where "src = (if int (length (filter (CanAttacked v) qs)) \<ge> rg_num r - 1 then filter (CanAttacked v) qs else filter (CanAct v) qs)"
  have i: "nat pos < 4" "slot ps pos = Inr ?obj" "?obj \<in> set ps" using assms(2-4) by (auto simp: slot_def team_def)
  have run: "ChainRange v t r pos ps n = Rand_select v (rg_max_selected r) (rg_chain_param r \<noteq> 0) src [?obj] (rg_num r - 1) ?obj n"
    unfolding ChainRange_def i(2) using assms(6,7) by (simp add: GetValidPlayer_def src_def qs_def Let_def)
  have f: "distinct (filter f qs) \<and> set (filter f qs) \<subseteq> {p \<in> set ps. f p}" if "\<And>p. f p \<Longrightarrow> p \<noteq> 0" for f
    using team_without(1,3) [where f = f, OF assms(2) i(1) assms(5) that] valid_distinct [where f = f, OF assms(2) that]
    by (auto simp: qs_def dest: in_set_takeD in_set_dropD)
  have "distinct (filter (CanAttacked v) qs) \<and> set (filter (CanAttacked v) qs) \<subseteq> {p \<in> set ps. CanAttacked v p}" by (rule f) (erule acts(2))
  moreover have "distinct (filter (CanAct v) qs) \<and> set (filter (CanAct v) qs) \<subseteq> {p \<in> set ps. CanAct v p}" by (rule f) (erule acts(1))
  ultimately have src: "distinct src" "set src \<subseteq> {p \<in> set ps. CanAct v p}" using acts(6) [of v] by (auto simp: src_def)
  obtain xs n' where "Rand_select v (rg_max_selected r) (rg_chain_param r \<noteq> 0) src [?obj] (rg_num r - 1) ?obj n = Some (Inr ([?obj] @ xs, n'))"
    "set xs \<subseteq> set src" "length xs \<le> nat (rg_num r - 1)" using Rand_select_returns [OF assms(1) src(1)] by blast
  moreover have "sound_targets v t r ps ([?obj] @ xs)"
    using calculation(2,3) src(2) i(3) assms(6-8) acts(1,7) [of v] by (auto simp: sound_targets_def target_consts)
  ultimately show ?thesis unfolding run by blast
qed

lemma LineRange_sound:
  assumes "team v ps" "LineRange v pos ps = Inr ts" "ts \<noteq> []" "rg_type r \<noteq> RANGE_RANGE" "rg_type r \<noteq> RANGE_CHAIN"
  shows "sound_targets v t r ps ts"
proof -
  have "ts \<in> places v ps ` {[0, 1], [2, 3], [1, 2], [1, 3], [0, 2], [0, 3], [0, 1, 2], [1, 2, 3], [0, 1, 3], [0, 2, 3]}"
    using assms(2,3) by (auto simp: LineRange_def split: if_splits)
  then obtain js where js: "ts = filter (IsAlive v) (List.map (\<lambda>i. ps ! i) js)" "distinct js" "set js \<subseteq> {..<4}" by (auto simp: places_def simp del: filter.simps list.map)
  have P: "GetPos v (ps ! i) = int i" if "i \<in> set js" "ps ! i \<noteq> 0" for i using assms(1) js(3) that by (auto simp: team_def subset_iff)
  have "distinct (filter (IsAlive v) (List.map (\<lambda>i. ps ! i) js))" using js(2) P
  proof (induction js)
    case (Cons j js)
    have "ps ! j \<noteq> ps ! k" if "k \<in> set js" "IsAlive v (ps ! j)" for k
    proof
      assume eq: "ps ! j = ps ! k"
      have nz: "ps ! j \<noteq> 0" using that(2) acts(5) by blast
      have "GetPos v (ps ! j) = int j" by (rule Cons.prems(2)) (use nz in simp_all)
      moreover have "GetPos v (ps ! k) = int k" by (rule Cons.prems(2)) (use nz eq that(1) in simp_all)
      ultimately have "j = k" unfolding eq by simp
      then show False using that(1) Cons.prems(1) by simp
    qed
    then show ?case using Cons by auto
  qed simp
  moreover have "set ts \<subseteq> set ps" using js(1,3) assms(1) nth_mem by (auto simp: team_def)
  ultimately show ?thesis using assms(3-5) js(1) acts(5) [of v] by (auto simp: sound_targets_def)
qed

text \<open>
  C0: Whom a skill hits. The template \<open>fits\<close>: it passes its checks; for lines in range its position is
  a line, otherwise it is chosen at random, in sequence, by class, row or hit points (not by these for a
  chain among mates), or among the dead, for a single target or a range. Skills on oneself or at an
  appointed place are left out. The team has a place for each position, empty or with the unit at that
  position, no unit is both dead and dying, and the draws give every number again and again. Then
  choosing targets comes to an end without an abort, and where there is a position there are targets:
  units of the team, never an empty place, alive unless the template looks for the dead, each once
  unless the range is a chain, and in a range or chain no more than the template says.
\<close>

theorem skill_targets_sound:
  assumes "fits tm t r" "team v ps" "fair_draws v"
  shows "\<exists>pos ts n'. GetSkillTarget v caster tm t r ps n = Some (Inr (pos, ts, n')) \<and>
    (if pos = POS_INVALID then ts = []
     else ts \<noteq> [] \<and> set ts \<subseteq> set ps \<and> 0 \<notin> set ts \<and> (rg_type r \<noteq> RANGE_CHAIN \<longrightarrow> distinct ts) \<and>
       (tg_type t \<noteq> TARGET_DEAD \<longrightarrow> (\<forall>p \<in> set ts. IsAlive v p)) \<and>
       (rg_type r \<in> {RANGE_RANGE, RANGE_CHAIN} \<longrightarrow> int (length ts) \<le> max 1 (rg_num r)))"
proof -
  have b: "bounded_draws v" using assms(3) by (simp add: fair_draws_def)
  have "\<exists>pos ts n'. GetSkillTarget v caster tm t r ps n = Some (Inr (pos, ts, n')) \<and>
    (if pos = POS_INVALID then ts = [] else sound_targets v t r ps ts)"
  proof (cases "rg_type r = RANGE_LINE \<or> rg_type r = RANGE_BULLET_LINE")
    case True
    then have t: "tg_type t = TARGET_LINE" "target_valid t" using assms(1) by (auto simp: fits_def)
    then have p: "tg_params t \<noteq> []" "LINE_FRONT \<le> tg_params t ! 0" "tg_params t ! 0 \<le> LINE_RAND_HTWO"
      by (auto simp: target_valid_def target_params_valid_def Let_def target_consts)
    obtain pos n1 where pos: "Line v (tg_params t) ps n = Inr (pos, n1)" "good_line v ps pos"
      using Line_chosen [OF b _ p, of ps n] assms(2) by (auto simp: team_def)
    have c: "GetCastPos v caster tm t ps n = Inr (pos, n1)" using t(1) pos(1) by (simp add: GetCastPos_def target_consts)
    show ?thesis
    proof (cases "pos = POS_INVALID")
      case False
      then obtain ts where ts: "LINE_FRONT \<le> pos" "pos \<le> LINE_DOWN" "LineRange v pos ps = Inr ts" "ts \<noteq> []" using pos(2) by (auto simp: good_line_def)
      have "sound_targets v t r ps ts" by (rule LineRange_sound [OF assms(2) ts(3,4)]) (use True in \<open>auto simp: target_consts\<close>)
      moreover have "GetAttackRange v t r pos ps n1 = Some (Inr (ts, n1))"
        using True ts(1-3) by (auto simp: GetAttackRange_def CheckPosValid_def target_consts)
      ultimately show ?thesis using c False by (simp add: GetSkillTarget_def)
    qed (simp add: GetSkillTarget_def c)
  next
    case False
    then have t: "tg_type t \<noteq> TARGET_LINE" "tg_type t \<noteq> TARGET_APPOINT" "tg_type t = TARGET_DEAD \<Longrightarrow> rg_type r = RANGE_SINGLE \<or> rg_type r = RANGE_RANGE"
      "rg_type r = RANGE_CHAIN \<Longrightarrow> \<not> (tg_type t = TARGET_HP \<and> tm = TEAM_MATE)"
      using assms(1) by (auto simp: fits_def target_consts)
    have rg: "rg_type r \<in> {RANGE_SINGLE, RANGE_RANGE, RANGE_ALL, RANGE_CHAIN}"
      using assms(1) False by (auto simp: fits_def range_valid_def target_consts)
    obtain pos n1 where pos: "GetCastPos v caster tm t ps n = Inr (pos, n1)" "chosen v ps (wanted v tm t) pos"
      using GetCastPos_chosen [OF b assms(2,1) t(1)] by blast
    show ?thesis
    proof (cases "pos = POS_INVALID")
      case valid: False
      then have p: "0 \<le> pos" "pos \<le> 3" "ps ! nat pos \<in> set ps" "ps ! nat pos \<noteq> 0" "wanted v tm t (ps ! nat pos)"
        using pos(2) by (auto simp: chosen_def)
      have alive: "tg_type t \<noteq> TARGET_DEAD \<longrightarrow> IsAlive v (ps ! nat pos)" using p(5) acts(7) by (auto simp: wanted_def split: if_splits)
      have check: "CheckPosValid (rg_type r) pos" using p(1,2) False by (simp add: CheckPosValid_def POS_CENTER_def)
      have "\<exists>ts n'. GetAttackRange v t r pos ps n1 = Some (Inr (ts, n')) \<and> sound_targets v t r ps ts"
        using rg
      proof (elim insertE emptyE)
        assume "rg_type r = RANGE_SINGLE"
        then show ?thesis using p alive check assms(2)
          by (auto simp: GetAttackRange_def slot_def team_def sound_targets_def target_consts)
      next
        assume r: "rg_type r = RANGE_RANGE"
        then show ?thesis using RangeRange_sound [OF b assms(2) p(1,2,4) alive r, of n1] check by (simp add: GetAttackRange_def target_consts)
      next
        assume r: "rg_type r = RANGE_ALL"
        then have d: "tg_type t \<noteq> TARGET_DEAD" using t(3) by (auto simp: target_consts)
        have "sound_targets v t r ps (filter (IsAlive v) ps)"
          using p(3) alive d r acts(5) [of v] valid_distinct [OF assms(2) acts(5) [of v]] by (auto simp: sound_targets_def filter_empty_conv target_consts)
        then show ?thesis using r check d by (simp add: GetAttackRange_def AllRange_def GetValidPlayer_def target_consts)
      next
        assume r: "rg_type r = RANGE_CHAIN"
        have d: "tg_type t \<noteq> TARGET_DEAD" using t(3) r by (auto simp: target_consts)
        then have "CanAct v (ps ! nat pos)" using p(5) t(4) r by (auto simp: wanted_def split: if_splits)
        from ChainRange_sound [OF assms(3,2) p(1,2,4) this d r, of n1] check r show ?thesis by (simp add: GetAttackRange_def target_consts)
      qed
      then show ?thesis using pos(1) valid by (auto simp: GetSkillTarget_def)
    qed (simp add: GetSkillTarget_def pos(1))
  qed
  then show ?thesis unfolding sound_targets_def .
qed

section \<open>Templates that pass the checks\<close>

lemma HP_loop_above:
  assumes "t mod 2 = 0" "\<forall>q \<in> set qs. f q \<longrightarrow> low < hp_float v q (\<not> t < HP_SCALE_MIN)" "low < best"
  shows "\<exists>best1 pos1. low < best1 \<and> HP_loop v t f (qs @ rs) i best pos = HP_loop v t f rs (i + int (length qs)) best1 pos1"
  using assms(2,3)
proof (induction qs arbitrary: i best pos)
  case (Cons q qs)
  have step: "\<exists>best1 pos1. low < best1 \<and> HP_loop v t f ((q # qs) @ rs) i best pos = HP_loop v t f (qs @ rs) (i + 1) best1 pos1"
    using Cons.prems assms(1) by (auto simp: Let_def)
  then obtain best1 pos1 where s: "low < best1" "HP_loop v t f ((q # qs) @ rs) i best pos = HP_loop v t f (qs @ rs) (i + 1) best1 pos1" by blast
  show ?case using Cons.IH [OF _ s(1), of "i + 1" pos1] Cons.prems(1) unfolding s(2) by (auto simp: algebra_simps)
qed auto

lemma HP_loop_below:
  assumes "t mod 2 = 0" "\<forall>q \<in> set qs. f q \<longrightarrow> best \<le> hp_float v q (\<not> t < HP_SCALE_MIN)"
  shows "HP_loop v t f qs i best pos = pos"
  using assms(2) by (induction qs arbitrary: i) (use assms(1) in \<open>auto simp: Let_def\<close>)

lemma HP_loop_lowest:
  assumes "t mod 2 = 0" "ps = ks @ p # qs" "f p" "hp_float v p (\<not> t < HP_SCALE_MIN) < best"
    "\<forall>q \<in> set ks \<union> set qs. f q \<longrightarrow> hp_float v p (\<not> t < HP_SCALE_MIN) < hp_float v q (\<not> t < HP_SCALE_MIN)"
  shows "HP_loop v t f ps 0 best pos = int (length ks)"
proof -
  obtain best1 pos1 where 1: "hp_float v p (\<not> t < HP_SCALE_MIN) < best1" "HP_loop v t f (ks @ p # qs) 0 best pos = HP_loop v t f (p # qs) (int (length ks)) best1 pos1"
    using HP_loop_above [OF assms(1), of ks f "hp_float v p (\<not> t < HP_SCALE_MIN)" v best "p # qs" 0 pos] assms(4,5) by auto
  have "HP_loop v t f (p # qs) (int (length ks)) best1 pos1 = HP_loop v t f qs (int (length ks) + 1) (hp_float v p (\<not> t < HP_SCALE_MIN)) (int (length ks))"
    using 1(1) assms(1,3) by (simp add: Let_def)
  also have "\<dots> = int (length ks)" by (rule HP_loop_below [OF assms(1)]) (use assms(5) in auto)
  finally show ?thesis using 1(2) assms(2) by simp
qed

text \<open>
  A chain that heals the weakest crashes the server when someone lies dying: a skill for the own team
  whose position is that of the fewest hit points, in number or share, and whose range is a chain
  passes the checks of its template; while a mate is dying with fewer hit points than the others,
  its place is chosen, and choosing the targets fails the assertion that the first of a chain can act.
\<close>

theorem chain_on_dying_mate_aborts:
  assumes "tg_type t = TARGET_HP" "tg_params t = [u]" "u mod 2 = 0" "rg_type r = RANGE_CHAIN" "team v ps"
    and "p \<in> set ps" "p \<noteq> 0" "IsDying v p" "hp_float v p (\<not> u < HP_SCALE_MIN) < FLT_MAX"
    and "\<forall>q \<in> set ps. q \<noteq> p \<longrightarrow> IsAlive v q \<longrightarrow> hp_float v p (\<not> u < HP_SCALE_MIN) < hp_float v q (\<not> u < HP_SCALE_MIN)"
  shows "GetSkillTarget v caster TEAM_MATE t r ps n = Some (Inl AssertFail)"
proof -
  obtain ks qs where split: "ps = ks @ p # qs" using assms(6) by (auto dest: split_list)
  have once: "p \<notin> set ks \<union> set qs" using team_distinct [OF assms(5)] assms(7) unfolding split by auto
  have alive: "IsAlive v p" using assms(5,7,8) by (auto simp: IsAlive_def team_def)
  have k: "length ks < 4" using assms(5) split by (simp add: team_def)
  have "HP_loop v u (IsAlive v) ps 0 FLT_MAX POS_INVALID = int (length ks)"
    by (rule HP_loop_lowest [OF assms(3) split, of "IsAlive v" v FLT_MAX POS_INVALID]) (use alive assms(9,10) once split in auto)
  then have c: "GetCastPos v caster TEAM_MATE t ps n = Inr (int (length ks), n)"
    using assms(1-3) by (simp add: GetCastPos_def HP_def slot_def target_consts)
  have "slot ps (int (length ks)) = Inr p" by (simp add: slot_def split)
  moreover have "\<not> CanAct v p" using assms(8) by (simp add: CanAct_def)
  ultimately have "GetAttackRange v t r (int (length ks)) ps n = Some (Inl AssertFail)"
    using assms(1,4) k by (simp add: GetAttackRange_def ChainRange_def CheckPosValid_def target_consts)
  then show ?thesis using c by (simp add: GetSkillTarget_def POS_INVALID_def)
qed

text \<open>
  An effect redirected to random mates hits enemies: whoever the mates are, the targets are living
  enemies, each at most as often as the template says, and as many as it asks for while there are
  such.
\<close>

theorem random_mates_are_enemies:
  assumes "rd_type rd = REDIR_RANDOM_MATE" "redirect_valid rd" "bounded_draws v" "team v enemies'"
  shows "\<exists>ts n'. RedirTarget v caster trigger rd mates' enemies' n = Some (Inr (ts, n')) \<and>
    (\<forall>p \<in> set ts. p \<in> set enemies' \<and> IsAlive v p \<and> int (count_list ts p) \<le> rd_max_selected rd) \<and>
    int (length ts) = min (rd_num rd) (rd_max_selected rd * int (length (filter (IsAlive v) enemies')))"
proof -
  let ?src = "filter (IsAlive v) enemies'"
  have d: "distinct ?src" by (rule valid_distinct [OF assms(4)]) (erule acts(5))
  have m: "0 \<le> rd_max_selected rd" "0 \<le> rd_num rd" using assms(2) by (auto simp: redirect_valid_def)
  obtain xs n' where x: "Rand_select v (rd_max_selected rd) False ?src [] (rd_num rd) 0 n = Some (Inr (xs, n'))" "set xs \<subseteq> set ?src"
    "\<forall>x \<in> set ?src. int (count_list xs x) \<le> rd_max_selected rd" "length xs = min (nat (rd_num rd)) (room (rd_max_selected rd) [] ?src)"
    using Rand_select_takes [OF assms(3) d m(1), of "[]" "rd_num rd" 0 n] m(1) by auto
  have "room (rd_max_selected rd) [] ?src = length ?src * nat (rd_max_selected rd)"
    using distinct_card [OF d] by (simp add: room_def)
  then have "int (length xs) = min (rd_num rd) (rd_max_selected rd * int (length ?src))" using x(4) m by (simp add: mult.commute of_nat_min)
  moreover have "RedirTarget v caster trigger rd mates' enemies' n = Some (Inr (xs, n'))"
    using assms(1) x(1) by (simp add: RedirTarget_def RandTarget_def GetValidPlayer_def redir_consts)
  ultimately show ?thesis using x(2,3) by auto
qed

text \<open>The empty places of a team are among the targets of a skill that looks for the dead everywhere.\<close>

lemma resurrect_all_hits_nobody:
  assumes "tg_type t = TARGET_DEAD" "rg_type r = RANGE_ALL" "team v ps" "bounded_draws v" "0 \<in> set ps" "filter (dead_unit v) ps \<noteq> []"
  shows "\<exists>pos n'. GetSkillTarget v caster tm t r ps n = Some (Inr (pos, ps, n'))"
proof -
  obtain pos where pos: "RandPos v (filter (dead_unit v) ps) n = Inr (pos, n + 1)" "chosen v ps (\<lambda>_. True) pos" "pos \<noteq> POS_INVALID"
    using RandPos_chosen [OF assms(4,3,6), of "\<lambda>_. True" n] acts(3) by fastforce
  then have "0 \<le> pos" "pos \<le> 3" by (auto simp: chosen_def)
  then show ?thesis using assms(1,2,6) pos(1,3)
    by (auto simp: GetSkillTarget_def GetCastPos_def Dead_def GetValidPlayer_def GetAttackRange_def AllRange_def CheckPosValid_def target_consts)
qed

section \<open>Witnesses\<close>

definition demo_units :: units where
  "demo_units = \<lparr>IsDead = \<lambda>p. p = 3, IsDying = \<lambda>p. p = 4, attackable = \<lambda>_. True, GetPos = \<lambda>p. p - 1,
     hp_float = \<lambda>p _. if p = 4 then 0 else 50, GetRoleClass = \<lambda>_. 1, draw_between = \<lambda>n lo hi. lo + int n mod (hi - lo + 1)\<rparr>"

lemma demo_fair: "fair_draws demo_units"
proof -
  have "\<exists>k\<ge>n. lo + int k mod (hi - lo + 1) = x" if "lo \<le> x" "x \<le> hi" for n :: nat and lo hi x :: int
  proof -
    have "0 < hi - lo + 1" using that by simp
    then have "int n \<le> int n * (hi - lo + 1)" by (simp add: mult_le_cancel_left1)
    then have "int n \<le> int n * (hi - lo + 1) + (x - lo)" using that by linarith
    moreover have "lo + (int n * (hi - lo + 1) + (x - lo)) mod (hi - lo + 1) = x" using that by (simp add: add.commute)
    ultimately show ?thesis by (intro exI [of _ "nat (int n * (hi - lo + 1) + (x - lo))"]) (auto simp: le_nat_iff)
  qed
  moreover have "lo + int n mod (hi - lo + 1) \<le> hi" if "lo \<le> hi" for n and lo hi :: int
    using pos_mod_bound [of "hi - lo + 1" "int n"] that by simp
  ultimately show ?thesis by (auto simp: fair_draws_def bounded_draws_def demo_units_def)
qed

lemma demo_team: "team demo_units [1, 0, 3, 4]"
  by (auto simp: team_def demo_units_def nth_Cons' numeral_eq_Suc less_Suc_eq)

lemma skill_targets_sound_witness:
  "let t = \<lparr>tg_type = TARGET_RANDOM, tg_params = []\<rparr>; r = \<lparr>rg_type = RANGE_RANGE, rg_num = 2, rg_factor = 10000, rg_max_selected = 0, rg_chain_param = 0\<rparr>
   in fits 0 t r \<and> (\<exists>pos ts n'. GetSkillTarget demo_units 1 0 t r [1, 0, 3, 4] 0 = Some (Inr (pos, ts, n')) \<and>
     (pos = POS_INVALID \<longrightarrow> ts = []) \<and> (pos \<noteq> POS_INVALID \<longrightarrow> ts \<noteq> [] \<and> length ts \<le> 2))"
proof -
  let ?t = "\<lparr>tg_type = TARGET_RANDOM, tg_params = []\<rparr>"
  let ?r = "\<lparr>rg_type = RANGE_RANGE, rg_num = 2, rg_factor = 10000, rg_max_selected = 0, rg_chain_param = 0\<rparr>"
  have f: "fits 0 ?t ?r" by (simp add: fits_def target_valid_def target_params_valid_def range_valid_def target_consts)
  show ?thesis unfolding Let_def using f skill_targets_sound [OF f demo_team demo_fair, of 1 0] by (auto simp: RANGE_RANGE_def split: if_splits)
qed

lemma chain_on_dying_mate_aborts_witness:
  "let t = \<lparr>tg_type = TARGET_HP, tg_params = [0]\<rparr>; r = \<lparr>rg_type = RANGE_CHAIN, rg_num = 2, rg_factor = 10000, rg_max_selected = 1, rg_chain_param = 0\<rparr>
   in target_valid t \<and> range_valid r \<and> GetSkillTarget demo_units 1 TEAM_MATE t r [1, 0, 3, 4] 0 = Some (Inl AssertFail)"
proof -
  let ?t = "\<lparr>tg_type = TARGET_HP, tg_params = [0]\<rparr>"
  let ?r = "\<lparr>rg_type = RANGE_CHAIN, rg_num = 2, rg_factor = 10000, rg_max_selected = 1, rg_chain_param = 0\<rparr>"
  have "GetSkillTarget demo_units 1 TEAM_MATE ?t ?r [1, 0, 3, 4] 0 = Some (Inl AssertFail)"
    by (rule chain_on_dying_mate_aborts [where p = 4 and u = 0, OF _ _ _ _ demo_team]) (simp_all add: demo_units_def IsAlive_def FLT_MAX_def)
  moreover have "target_valid ?t" "range_valid ?r" by (simp_all add: target_valid_def target_params_valid_def range_valid_def target_consts)
  ultimately show ?thesis by simp
qed

lemma random_mates_are_enemies_witness:
  "let rd = \<lparr>rd_type = REDIR_RANDOM_MATE, rd_num = 1, rd_max_selected = 1\<rparr>
   in \<exists>p n'. RedirTarget demo_units 9 9 rd [9, 8, 7, 6] [1, 0, 3, 4] 0 = Some (Inr ([p], n')) \<and> p \<in> {1, 4}"
proof -
  let ?rd = "\<lparr>rd_type = REDIR_RANDOM_MATE, rd_num = 1, rd_max_selected = 1\<rparr>"
  have b: "bounded_draws demo_units" using demo_fair by (simp add: fair_draws_def)
  obtain ts n' where t: "RedirTarget demo_units 9 9 ?rd [9, 8, 7, 6] [1, 0, 3, 4] 0 = Some (Inr (ts, n'))"
    "\<forall>p \<in> set ts. p \<in> set [1, 0, 3, 4] \<and> IsAlive demo_units p" "int (length ts) = 1"
    using random_mates_are_enemies [of ?rd demo_units "[1, 0, 3, 4]" 9 9 "[9, 8, 7, 6]" 0, OF _ _ b demo_team]
    by (auto simp: redirect_valid_def redir_consts IsAlive_def demo_units_def)
  then obtain p where "ts = [p]" by (cases ts) auto
  with t show ?thesis by (auto simp: IsAlive_def demo_units_def)
qed

end
