(* ===== verification/Cooldowns.thy ===== *)
theory Cooldowns
  imports Buffs
begin

text \<open>
  Templates of skills (\<open>template/skill_templ\<close>) and their cooldowns (\<open>skill/skill/cooldown_wrapper.cpp\<close>):
  a unit cannot cast a skill again until its time has passed, in rounds during a combat.
\<close>

section \<open>Templates of skills\<close>

record cond =
  cond_item :: bool
  cond_op :: int
  cond_id :: int
  cond_value :: formula

record attack_frame =
  effect_frames :: "effect_templ list"
  redir_frames :: "effect_templ list"

record skill_templ =
  skillid :: int
  skill_active :: bool
  by_player :: bool
  skill_team :: int
  skill_scope :: int
  hit_assign :: bool
  hit_rate :: int
  info_gid :: int
  info_time :: int
  info_reset :: bool
  recast_type :: int
  recast_prob :: int
  recast_skillid :: int
  skill_tgt :: skill_target
  skill_rng :: skill_range
  premise :: "cond list"
  consume :: "cond list"
  frames :: "attack_frame list"
  skill_group :: "int list"

section \<open>Cooldowns\<close>

definition COOLDOWN_GID_INDEPENDENT :: int where "COOLDOWN_GID_INDEPENDENT = - 1"
definition SKILL_GROUP_ALL :: int where "SKILL_GROUP_ALL = - 2"
definition SKILL_GROUP_CURRENT :: int where "SKILL_GROUP_CURRENT = - 1"

record cooldown =
  cd_gid :: int
  cooltime :: int
  cd_duration :: int

text \<open>The map is keyed by the template of a skill, here by its id; \<open>reset_gid\<close> is a sorted set.\<close>

record cooldowns =
  cd_map :: "int \<Rightarrow> cooldown option"
  reset_gid :: "int list"

definition GetCooldown :: "cooldowns \<Rightarrow> int \<Rightarrow> int" where
  "GetCooldown s k = (case cd_map s k of None \<Rightarrow> 0 | Some c \<Rightarrow> cd_duration c)"

definition IsCooldown :: "int \<Rightarrow> cooldowns \<Rightarrow> int \<Rightarrow> bool" where
  "IsCooldown now s k \<longleftrightarrow> GetCooldown s k > now"

definition HeartBeat :: "int \<Rightarrow> bool \<Rightarrow> cooldowns \<Rightarrow> cooldowns" where
  "HeartBeat now combat s = s\<lparr>cd_map := (\<lambda>k. case cd_map s k of None \<Rightarrow> None
     | Some c \<Rightarrow> let c1 = (if combat then c\<lparr>cd_duration := cd_duration c - 1\<rparr> else c)
                 in if cd_duration c1 > now then Some c1 else None)\<rparr>"

definition OnSetCooldown :: "int \<Rightarrow> skill_templ \<Rightarrow> cooldowns \<Rightarrow> cooldowns" where
  "OnSetCooldown now t s =
     (if info_time t = 0 then s
      else let m = (if info_gid t \<noteq> COOLDOWN_GID_INDEPENDENT
                    then (\<lambda>k. map_option (\<lambda>c. if cd_gid c = info_gid t
                            then c\<lparr>cd_duration := now + (if info_reset t then info_time t else cooltime c)\<rparr> else c) (cd_map s k))
                    else cd_map s)
           in s\<lparr>cd_map := m(skillid t \<mapsto> \<lparr>cd_gid = info_gid t, cooltime = info_time t, cd_duration = now + info_time t\<rparr>)\<rparr>)"

definition AddResetGID :: "int \<Rightarrow> cooldowns \<Rightarrow> cooldowns" where
  "AddResetGID g s = s\<lparr>reset_gid := sset_insert (\<lambda>x. x) g (reset_gid s)\<rparr>"

definition ResetAll :: "cooldowns \<Rightarrow> cooldowns" where
  "ResetAll s = s\<lparr>cd_map := (\<lambda>_. None)\<rparr>"

definition ResetSkill :: "int \<Rightarrow> cooldowns \<Rightarrow> cooldowns" where
  "ResetSkill k s = s\<lparr>cd_map := (cd_map s)(k := None)\<rparr>"

definition ResetGroup :: "(int \<Rightarrow> skill_templ) \<Rightarrow> int \<Rightarrow> cooldowns \<Rightarrow> cooldowns" where
  "ResetGroup T g s = s\<lparr>cd_map := (\<lambda>k. if g \<in> set (skill_group (T k)) then None else cd_map s k)\<rparr>"

fun reset_loop :: "(int \<Rightarrow> skill_templ) \<Rightarrow> int \<Rightarrow> int list \<Rightarrow> cooldowns \<Rightarrow> cooldowns" where
  "reset_loop T k [] s = s"
| "reset_loop T k (g # gs) s =
     reset_loop T k gs (if g = SKILL_GROUP_ALL then ResetAll s else if g = SKILL_GROUP_CURRENT then ResetSkill k s else ResetGroup T g s)"

definition ResetCooldown :: "(int \<Rightarrow> skill_templ) \<Rightarrow> int \<Rightarrow> cooldowns \<Rightarrow> cooldowns" where
  "ResetCooldown T k s = (reset_loop T k (reset_gid s) s)\<lparr>reset_gid := []\<rparr>"

definition SetCooldown :: "(int \<Rightarrow> skill_templ) \<Rightarrow> int \<Rightarrow> skill_templ \<Rightarrow> cooldowns \<Rightarrow> cooldowns" where
  "SetCooldown T now t s = ResetCooldown T (skillid t) (OnSetCooldown now t s)"

section \<open>How long a skill cools down\<close>

lemma HeartBeat_down:
  assumes "\<forall>k c. cd_map s k = Some c \<longrightarrow> 0 < cd_duration c"
  shows "GetCooldown (HeartBeat 0 True s) k = max 0 (GetCooldown s k - 1)"
    "\<forall>k c. cd_map (HeartBeat 0 True s) k = Some c \<longrightarrow> 0 < cd_duration c"
  using assms by (force simp: HeartBeat_def GetCooldown_def Let_def split: option.splits if_splits)+

lemma HeartBeats_down:
  assumes "\<forall>k c. cd_map s k = Some c \<longrightarrow> 0 < cd_duration c"
  shows "GetCooldown ((HeartBeat 0 True ^^ j) s) k = max 0 (GetCooldown s k - int j) \<and>
    (\<forall>k c. cd_map ((HeartBeat 0 True ^^ j) s) k = Some c \<longrightarrow> 0 < cd_duration c)"
proof (induction j)
  case 0
  then show ?case using assms by (auto simp: GetCooldown_def split: option.split)
next
  case (Suc j)
  note down = HeartBeat_down [OF conjunct2 [OF Suc]]
  show ?case using conjunct1 [OF Suc] down(1) [of k] down(2) by (simp del: One_nat_def)
qed

text \<open>
  C36: A skill cools down for its time: in a combat, where the clock of units stands still at 0, a skill
  with a cooldown that was cast is refused for exactly as many heartbeats as its template says; so is every
  skill of its group that was cooling down, for the time of the skill that was cast or its own; any other
  skill is refused as long as before. The unit's cooldowns have time left, and no effect asks to reset
  any (\<open>ResetCooldown\<close> is done when a cast sets the cooldown).
\<close>

theorem cooldown_lasts:
  assumes "\<forall>k c. cd_map s k = Some c \<longrightarrow> 0 < cd_duration c \<and> 0 < cooltime c" "reset_gid s = []" "0 < info_time t"
  shows "IsCooldown 0 ((HeartBeat 0 True ^^ j) (SetCooldown T 0 t s)) k \<longleftrightarrow>
    (if k = skillid t then int j < info_time t
     else case cd_map s k of None \<Rightarrow> False
        | Some c \<Rightarrow> if info_gid t \<noteq> COOLDOWN_GID_INDEPENDENT \<and> cd_gid c = info_gid t
                    then int j < (if info_reset t then info_time t else cooltime c)
                    else int j < cd_duration c)"
proof -
  let ?s = "SetCooldown T 0 t s"
  have map: "cd_map ?s = (if info_gid t \<noteq> COOLDOWN_GID_INDEPENDENT
      then (\<lambda>k. map_option (\<lambda>c. if cd_gid c = info_gid t then c\<lparr>cd_duration := if info_reset t then info_time t else cooltime c\<rparr> else c) (cd_map s k))
      else cd_map s)(skillid t \<mapsto> \<lparr>cd_gid = info_gid t, cooltime = info_time t, cd_duration = info_time t\<rparr>)"
    using assms(2,3) by (simp add: SetCooldown_def ResetCooldown_def OnSetCooldown_def Let_def cong: map_option_cong if_cong)
  have pos: "\<forall>k c. cd_map ?s k = Some c \<longrightarrow> 0 < cd_duration c"
    using assms(1,3) unfolding map by (auto split: if_splits)
  have "IsCooldown 0 ((HeartBeat 0 True ^^ j) ?s) k \<longleftrightarrow> int j < GetCooldown ?s k"
    using HeartBeats_down [OF pos, of j k] by (auto simp: IsCooldown_def)
  also have "GetCooldown ?s k = (if k = skillid t then info_time t
      else case cd_map s k of None \<Rightarrow> 0
        | Some c \<Rightarrow> if info_gid t \<noteq> COOLDOWN_GID_INDEPENDENT \<and> cd_gid c = info_gid t
                    then (if info_reset t then info_time t else cooltime c) else cd_duration c)"
    unfolding GetCooldown_def map by (simp split: option.split)
  finally show ?thesis by (auto split: option.split)
qed

definition demo_skill :: "int \<Rightarrow> skill_templ" where
  "demo_skill k = \<lparr>skillid = k, skill_active = True, by_player = True, skill_team = 1, skill_scope = 3, hit_assign = True, hit_rate = 10000,
     info_gid = 7, info_time = 2, info_reset = False, recast_type = 0, recast_prob = 0, recast_skillid = 0,
     skill_tgt = \<lparr>tg_type = TARGET_RANDOM, tg_params = []\<rparr>,
     skill_rng = \<lparr>rg_type = RANGE_SINGLE, rg_num = 1, rg_factor = 10000, rg_max_selected = 1, rg_chain_param = 0\<rparr>,
     premise = [], consume = [], frames = [], skill_group = []\<rparr>"

lemma cooldown_lasts_witness:
  "let s = \<lparr>cd_map = [5 \<mapsto> \<lparr>cd_gid = 7, cooltime = 3, cd_duration = 1\<rparr>], reset_gid = []\<rparr>; s1 = SetCooldown demo_skill 0 (demo_skill 4) s
   in IsCooldown 0 ((HeartBeat 0 True ^^ 1) s1) 4 \<and> \<not> IsCooldown 0 ((HeartBeat 0 True ^^ 2) s1) 4 \<and> IsCooldown 0 ((HeartBeat 0 True ^^ 2) s1) 5"
proof -
  let ?s = "\<lparr>cd_map = [5 \<mapsto> \<lparr>cd_gid = 7, cooltime = 3, cd_duration = 1\<rparr>], reset_gid = []\<rparr>"
  have pre: "\<forall>k c. cd_map ?s k = Some c \<longrightarrow> 0 < cd_duration c \<and> 0 < cooltime c" "reset_gid ?s = []" "0 < info_time (demo_skill 4)"
    by (auto simp: demo_skill_def split: if_splits)
  show ?thesis unfolding Let_def using cooldown_lasts [OF pre, of 1 demo_skill 4] cooldown_lasts [OF pre, of 2 demo_skill 4]
      cooldown_lasts [OF pre, of 2 demo_skill 5]
    by (simp add: demo_skill_def COOLDOWN_GID_INDEPENDENT_def)
qed

end
