(* ===== verification/SkillCast.thy ===== *)
theory SkillCast
  imports BuffWrapper Cooldowns
begin

unbundle bit_operations_syntax

text \<open>
  Casting skills (\<open>skill/skill\<close>: \<open>skill_wrapper.cpp\<close>, \<open>cast_proc.cpp\<close>, the \<open>Cast\<close> functions of the
  logics, and what \<open>buff_wrapper.cpp\<close> and \<open>utility/attack_util.cpp\<close> do with the result): whether a unit can
  cast a skill, at whom, what each frame of it does to them, and how it is dealt.
\<close>

section \<open>The units that cast\<close>

text \<open>Skills are known by their ids, in the order of the map; the template of an id never changes.\<close>

record casting =
  fw :: fight
  cd_of :: "pid \<Rightarrow> cooldowns"
  active_skill :: "pid \<Rightarrow> int list"
  passive_skill :: "pid \<Rightarrow> int list"

text \<open>
  What is asked of units beside \<open>fenv\<close>, and the rounding of a number to single (\<open>fl\<close>) and double
  precision (\<open>db\<close>); numbers are rationals between two roundings.
\<close>

record cenv =
  fe :: fenv
  units_at :: "ucall list \<Rightarrow> units"
  GetSkillTempl :: "int \<Rightarrow> skill_templ option"
  default_skillid :: "pid \<Rightarrow> int"
  calc_double :: "ucall list \<Rightarrow> pid \<Rightarrow> formula \<Rightarrow> rat"
  IsInCombat :: "pid \<Rightarrow> bool"
  IsSilent :: "ucall list \<Rightarrow> pid \<Rightarrow> bool"
  held :: "ucall list \<Rightarrow> pid \<Rightarrow> bool"
  GetItemCount :: "ucall list \<Rightarrow> pid \<Rightarrow> int \<Rightarrow> int"
  GetLevel :: "pid \<Rightarrow> int"
  GolemDeActivePower :: "pid \<Rightarrow> int \<Rightarrow> int"
  GolemProp :: "pid \<Rightarrow> int \<Rightarrow> int \<Rightarrow> int"
  fl :: "rat \<Rightarrow> rat"
  db :: "rat \<Rightarrow> rat"

definition trunc :: "rat \<Rightarrow> int" where
  "trunc x = (if x \<ge> 0 then \<lfloor>x\<rfloor> else \<lceil>x\<rceil>)"

definition bindo :: "('a res) option \<Rightarrow> ('a \<Rightarrow> ('b res) option) \<Rightarrow> ('b res) option" where
  "bindo m f = (case m of None \<Rightarrow> None | Some (Inl e) \<Rightarrow> Some (Inl e) | Some (Inr x) \<Rightarrow> f x)"

definition set_fw :: "fight \<Rightarrow> casting \<Rightarrow> casting" where
  "set_fw f w = w\<lparr>fw := f\<rparr>"

text \<open>\<open>Util::Rand()\<close>, between 1 and 10000.\<close>

definition roll :: "cenv \<Rightarrow> casting \<Rightarrow> int \<times> casting" where
  "roll env w = (draw_between (units_at env (calls (fw w))) (draws (fw w)) 1 10000,
     set_fw ((fw w)\<lparr>draws := draws (fw w) + 1\<rparr>) w)"

definition members :: "cenv \<Rightarrow> pid \<Rightarrow> int \<Rightarrow> pid list" where
  "members env o' tm = (if tm = 0 then mates (fe env) o' else if tm = 1 then enemies (fe env) o' else golems (fe env) o')"

section \<open>Whether a skill can be cast\<close>

definition ERR_SUCCESS :: int where "ERR_SUCCESS = 0"
definition ERR_COOLDOWN :: int where "ERR_COOLDOWN = 1"
definition ERR_ITEM :: int where "ERR_ITEM = 2"
definition ERR_PROP :: int where "ERR_PROP = 3"
definition ERR_GOLEM :: int where "ERR_GOLEM = 4"
definition PROP_INDEX_CON1 :: int where "PROP_INDEX_CON1 = 65"
definition PROP_INDEX_MAX_CON1 :: int where "PROP_INDEX_MAX_CON1 = 1"

lemmas cast_consts = ERR_SUCCESS_def ERR_COOLDOWN_def ERR_ITEM_def ERR_PROP_def ERR_GOLEM_def PROP_INDEX_CON1_def PROP_INDEX_MAX_CON1_def

definition AddSkill :: "cenv \<Rightarrow> pid \<Rightarrow> int \<Rightarrow> casting \<Rightarrow> casting res" where
  "AddSkill env o' k w =
     (case GetSkillTempl env k of None \<Rightarrow> Inl NullDeref
      | Some t \<Rightarrow> if skill_scope t AND (if IsInCombat env o' then 2 else 1) = 0 then Inr w
          else if skill_active t then Inr (w\<lparr>active_skill := (active_skill w)(o' := sset_insert (\<lambda>x. x) k (active_skill w o'))\<rparr>)
          else Inr (w\<lparr>passive_skill := (passive_skill w)(o' := sset_insert (\<lambda>x. x) k (passive_skill w o'))\<rparr>))"

definition GetSkill :: "cenv \<Rightarrow> casting \<Rightarrow> pid \<Rightarrow> int \<Rightarrow> skill_templ option" where
  "GetSkill env w o' k = (if k \<in> set (active_skill w o') \<or> k \<in> set (passive_skill w o') then GetSkillTempl env k else None)"

definition IsMatch :: "int \<Rightarrow> int \<Rightarrow> int \<Rightarrow> bool res" where
  "IsMatch own op needed =
     (if op = 0 then Inr (own < needed) else if op = 1 then Inr (own = needed) else if op = 2 then Inr (own > needed)
      else if op = 3 then Inr (own \<ge> needed) else Inl AssertFail)"

definition GetNeeded :: "cenv \<Rightarrow> ucall list \<Rightarrow> pid \<Rightarrow> formula \<Rightarrow> revise_param option \<Rightarrow> int" where
  "GetNeeded env cs o' f param =
     (let value = calc_double env cs o' f;
          value1 = (case param of None \<Rightarrow> value
            | Some r \<Rightarrow> db env (db env (value * db env (1 + db env (of_int (scale r) / 10000))) + of_int (point r)))
      in if trunc value1 > 0 then trunc value1 else 0)"

fun cond_loop :: "cenv \<Rightarrow> pid \<Rightarrow> revise_param \<Rightarrow> cond list \<Rightarrow> casting \<Rightarrow> int res" where
  "cond_loop env o' r [] w = Inr ERR_SUCCESS"
| "cond_loop env o' r (c # cs) w =
     (let needed = GetNeeded env (calls (fw w)) o' (cond_value c) (if cond_item c then None else Some r);
          own = (if cond_item c then GetItemCount env (calls (fw w)) o' (cond_id c)
                 else GetProperty (fe env) (calls (fw w)) o' (cond_id c))
      in bindr (IsMatch own (cond_op c) needed) (\<lambda>ok.
           if \<not> ok then Inr (if cond_item c then ERR_ITEM else ERR_PROP) else cond_loop env o' r cs w))"

definition Revise_costs :: "cenv \<Rightarrow> pid \<Rightarrow> casting \<Rightarrow> (revise_param \<times> casting) res" where
  "Revise_costs env o' w = bindr (ConsumeRevise (fe env) o' (fw w)) (\<lambda>(f, r). Inr (r, set_fw f w))"

definition CheckCond :: "cenv \<Rightarrow> pid \<Rightarrow> cond list \<Rightarrow> bool \<Rightarrow> casting \<Rightarrow> (int \<times> casting) res" where
  "CheckCond env o' cs consumed w =
     bindr (if consumed then Revise_costs env o' w else Inr (\<lparr>scale = 0, point = 0\<rparr>, w)) (\<lambda>(r, w1).
     bindr (cond_loop env o' r cs w1) (\<lambda>e. Inr (e, w1)))"

text \<open>\<open>summon_golemid\<close> of a skill: the golem of the first effect that summons one.\<close>

definition skill_golem :: "skill_templ \<Rightarrow> int" where
  "skill_golem t = (if tg_type (skill_tgt t) \<noteq> 0 then 0
     else case filter (\<lambda>g. g \<noteq> 0) (List.map (first_param is_golem) (concat (List.map (\<lambda>f. effect_frames f @ redir_frames f) (frames t)))) of
            [] \<Rightarrow> 0 | g # _ \<Rightarrow> g)"

definition golem_error :: "cenv \<Rightarrow> pid \<Rightarrow> skill_templ \<Rightarrow> casting \<Rightarrow> int" where
  "golem_error env o' t w =
     (let golem = GetGolemId (buff_vec (fw w) o'); summon = skill_golem t
      in if golem = 0 \<or> summon = 0 then ERR_SUCCESS
         else if summon = golem then ERR_GOLEM
         else if GolemDeActivePower env o' summon \<noteq> 0 then ERR_SUCCESS
         else if GolemProp env o' summon PROP_INDEX_CON1 < GolemProp env o' summon PROP_INDEX_MAX_CON1 then ERR_GOLEM
         else ERR_SUCCESS)"

definition OnCanCast :: "cenv \<Rightarrow> pid \<Rightarrow> skill_templ \<Rightarrow> casting \<Rightarrow> (int \<times> casting) res" where
  "OnCanCast env o' t w =
     (if IsCooldown (GetCurTime (fe env) o') (cd_of w o') (skillid t) then Inr (ERR_COOLDOWN, w)
      else bindr (CheckCond env o' (premise t) False w) (\<lambda>(e1, w1).
        if e1 \<noteq> ERR_SUCCESS then Inr (e1, w1)
        else bindr (if by_player t then CheckCond env o' (consume t) True w1 else Inr (ERR_SUCCESS, w1)) (\<lambda>(e2, w2).
          if e2 \<noteq> ERR_SUCCESS then Inr (e2, w2) else Inr (golem_error env o' t w2, w2))))"

definition CanCast :: "cenv \<Rightarrow> pid \<Rightarrow> int \<Rightarrow> casting \<Rightarrow> (int \<times> casting) res" where
  "CanCast env o' k w =
     assertx (k \<in> set (active_skill w o'))
       (case GetSkillTempl env k of None \<Rightarrow> Inl NullDeref | Some t \<Rightarrow> OnCanCast env o' t w)"

section \<open>At whom\<close>

definition GetRealCastSkill :: "cenv \<Rightarrow> pid \<Rightarrow> int \<Rightarrow> casting \<Rightarrow> int \<times> skill_templ option" where
  "GetRealCastSkill env o' k w =
     (let dflt = (default_skillid env o', GetSkill env w o' (default_skillid env o'))
      in if IsSilent env (calls (fw w)) o' then dflt
         else let charged = GetChargedSkill (buff_vec (fw w) o'); k1 = (if charged \<noteq> 0 then charged else k)
              in case GetSkillTempl env k1 of None \<Rightarrow> dflt | Some t \<Rightarrow> (k1, Some t))"

definition CanChangeTarget :: "skill_templ \<Rightarrow> bool" where
  "CanChangeTarget t \<longleftrightarrow> skill_team t = 1 \<and> rg_type (skill_rng t) = RANGE_SINGLE"

definition GetBuffTarget :: "cenv \<Rightarrow> pid \<Rightarrow> casting \<Rightarrow> (pid list \<times> casting) res" where
  "GetBuffTarget env o' w =
     bindr (GetTarget (fe env) o' (fw w)) (\<lambda>(f, ts). assertx (length ts \<le> 1) (Inr (ts, set_fw f w)))"

definition skill_targets :: "cenv \<Rightarrow> pid \<Rightarrow> skill_templ \<Rightarrow> casting \<Rightarrow> ((int \<times> pid list \<times> casting) res) option" where
  "skill_targets env o' t w =
     bindo (GetSkillTarget (units_at env (calls (fw w))) o' (skill_team t) (skill_tgt t) (skill_rng t) (members env o' (skill_team t)) (draws (fw w)))
       (\<lambda>(pos, ts, n). Some (Inr (pos, ts, set_fw ((fw w)\<lparr>draws := n\<rparr>) w)))"

text \<open>\<open>SkillWrapper::GetTarget\<close>: the skill that is cast, the position and the targets.\<close>

definition Wrapper_GetTarget :: "cenv \<Rightarrow> pid \<Rightarrow> int \<Rightarrow> casting \<Rightarrow> ((int \<times> int \<times> pid list \<times> casting) res) option" where
  "Wrapper_GetTarget env o' k w =
     (if held env (calls (fw w)) o' then Some (Inl AssertFail)
      else case GetRealCastSkill env o' k w of
             (k1, None) \<Rightarrow> Some (Inl NullDeref)
           | (k1, Some t) \<Rightarrow>
               bindo (Some (if CanChangeTarget t then GetBuffTarget env o' w else Inr ([], w))) (\<lambda>(ts, w1).
                 case ts of
                   p # _ \<Rightarrow> Some (bindr (pos_of (units_at env (calls (fw w1))) p) (\<lambda>q. Inr (k1, q, ts, w1)))
                 | [] \<Rightarrow> bindo (skill_targets env o' t w1) (\<lambda>(pos, ts1, w2). Some (Inr (k1, pos, ts1, w2)))))"

section \<open>What it costs\<close>

fun consume_loop :: "cenv \<Rightarrow> pid \<Rightarrow> revise_param \<Rightarrow> cond list \<Rightarrow> casting \<Rightarrow> casting" where
  "consume_loop env o' r [] w = w"
| "consume_loop env o' r (c # cs) w =
     (let needed = GetNeeded env (calls (fw w)) o' (cond_value c) (if cond_item c then None else Some r)
      in consume_loop env o' r cs
           (set_fw (tell (if cond_item c then CTakeItem o' (cond_id c) needed else CDec o' (cond_id c) needed) (fw w)) w))"

definition Consume :: "cenv \<Rightarrow> pid \<Rightarrow> int \<Rightarrow> casting \<Rightarrow> casting res" where
  "Consume env o' k w =
     (case GetSkill env w o' k of None \<Rightarrow> Inr w
      | Some t \<Rightarrow> if \<not> by_player t then Inr w
          else bindr (Revise_costs env o' w) (\<lambda>(r, w1). Inr (consume_loop env o' r (consume t) w1)))"

section \<open>The frames of a skill\<close>

record effect_damage =
  ed_effect :: int
  ed_status :: int
  ed_dmgs :: "damage list"

record player_damage =
  pd_defender :: pid
  pd_dmgs :: "effect_damage list"

record frame_damage =
  fd_players :: "player_damage list"
  fd_redir :: "player_damage list"

record skill_damage =
  sd_skill :: int
  sd_attacker :: pid
  sd_pos :: int
  sd_frames :: "frame_damage list"

record cast_param =
  factor :: rat
  defenders :: int
  crit :: bool
  revise :: "revise_param list"

definition EFFECT_CRIT :: int where "EFFECT_CRIT = 1"
definition EFFECT_REDIR :: int where "EFFECT_REDIR = 2"

text \<open>The value of a formula times the factor, shared among the defenders when there is a limit.\<close>

definition shared_value :: "cenv \<Rightarrow> pid \<Rightarrow> cast_param \<Rightarrow> formula \<Rightarrow> formula option \<Rightarrow> fight \<Rightarrow> int res" where
  "shared_value env c p f cap w =
     (let v = trunc (fl env (fl env (of_int (calc (fe env) (calls w) c f)) * factor p))
      in case cap of None \<Rightarrow> Inr v
         | Some g \<Rightarrow> if defenders p = 0 then Inl DivZero
             else let m = calc (fe env) (calls w) c g; x = v sdiv defenders p in Inr (if x > m then m else x))"

definition FillDmg_cast :: "cenv \<Rightarrow> pid \<Rightarrow> pid \<Rightarrow> cast_param \<Rightarrow> int \<Rightarrow> formula \<Rightarrow> formula option \<Rightarrow> fight \<Rightarrow> damage res" where
  "FillDmg_cast env c o' p t f cap w =
     bindr (shared_value env c p f cap w) (\<lambda>v.
       Inr \<lparr>dtype = t, dprop = PROP_INDEX_HP, dvalue = (if t \<noteq> ATTACK_VALUE then CalcDmg (fe env) o' t v w else v)\<rparr>)"

definition Revise_attack :: "cenv \<Rightarrow> pid \<Rightarrow> pid \<Rightarrow> cast_param \<Rightarrow> damage \<Rightarrow> fight \<Rightarrow> damage" where
  "Revise_attack env c o' p d w =
     (let pp = GetProperty (fe env) (calls w) c 7; mp = GetProperty (fe env) (calls w) o' 8;
          s0 = fl env (db env (1 + db env (db env (3 / 4 * of_int (pp - mp)) / of_int (pp + mp + 100))));
          s1 = fl env (db env (s0 + db env (of_int (scale (revise p ! 0)) / 10000)));
          s = (if s1 < 0 then 0 else s1);
          c0 = fl env (db env (1 / 2 + db env (of_int (scale (revise p ! 2)) / 10000)));
          cs = (if s \<le> 0 \<or> \<not> crit p \<or> c0 \<le> 0 then 0 else c0);
          v = trunc (fl env (fl env (fl env (of_int (dvalue d)) * fl env (s + cs)) + fl env (of_int (point (revise p ! 0)))))
      in d\<lparr>dvalue := (if v \<le> 0 then 1 else v)\<rparr>)"

definition Revise_heal :: "cast_param \<Rightarrow> damage \<Rightarrow> damage" where
  "Revise_heal p d =
     (if dprop d \<noteq> PROP_INDEX_HP \<or> dvalue d \<le> 0 \<or> dtype d \<noteq> CHANGE_POINT then d
      else let s0 = i32 (1 + scale (revise p ! 1)); s = (if s0 \<le> 0 then 0 else s0);
               v = i32 (i32 (dvalue d * s) + point (revise p ! 1))
           in d\<lparr>dvalue := (if v \<le> 0 then 0 else v)\<rparr>)"

text \<open>The logics that do something when an instant effect is cast.\<close>

fun logic_Cast :: "cenv \<Rightarrow> pid \<Rightarrow> pid \<Rightarrow> cast_param \<Rightarrow> elogic \<Rightarrow> damage list \<times> casting \<Rightarrow> (damage list \<times> casting) res" where
  "logic_Cast env c o' p (BasicAttack t f cap) (ds, w) =
     bindr (FillDmg_cast env c o' p t f cap (fw w)) (\<lambda>d.
       let d1 = Revise_attack env c o' p d (fw w) in Inr (ds @ [d1\<lparr>dvalue := - dvalue d1\<rparr>], w))"
| "logic_Cast env c o' p (ChangeProp i f cap) (ds, w) =
     bindr (shared_value env c p f cap (fw w)) (\<lambda>v.
       Inr (ds @ [Revise_heal p \<lparr>dtype = CHANGE_POINT, dprop = i, dvalue = v\<rparr>], w))"
| "logic_Cast env c o' p (LRevive k f) (ds, w) =
     (let v = units_at env (calls (fw w));
          d = (if IsDead v o' \<or> IsDying v o' then \<lparr>dtype = CHANGE_SCALE, dprop = PROP_INDEX_HP, dvalue = k\<rparr>
               else \<lparr>dtype = CHANGE_POINT, dprop = PROP_INDEX_HP, dvalue = calc (fe env) (calls (fw w)) c f\<rparr>)
      in Inr (ds @ [Revise_heal p d], w))"
| "logic_Cast env c o' p PowerFlag (ds, w) = Inr (ds, set_fw (tell (CGenPower c) (fw w)) w)"
| "logic_Cast env c o' p (PowerGolem f) (ds, w) =
     (let v = calc (fe env) (calls (fw w)) c f in Inr (ds, if v > 0 then set_fw (tell (CPowerGolem c v) (fw w)) w else w))"
| "logic_Cast env c o' p (elogic.ResetCooldown g) (ds, w) = Inr (ds, w\<lparr>cd_of := (cd_of w)(c := AddResetGID g (cd_of w c))\<rparr>)"
| "logic_Cast env c o' p _ s = Inr s"

definition Cast_effect :: "cenv \<Rightarrow> pid \<Rightarrow> pid \<Rightarrow> cast_param \<Rightarrow> effect_templ \<Rightarrow> casting \<Rightarrow> (damage list \<times> casting) res" where
  "Cast_effect env c o' p e w = (if etype e = EFFECT_BUFF then Inr ([], w) else each_logic (logic_Cast env c o' p) (logics e) ([], w))"

definition is_chain :: "elogic \<Rightarrow> bool" where
  "is_chain l = (case l of LifeChain _ \<Rightarrow> True | _ \<Rightarrow> False)"

definition life_chain :: "effect_templ \<Rightarrow> bool" where
  "life_chain e \<longleftrightarrow> etype e = EFFECT_BUFF \<and> list_ex is_chain (logics e)"

definition IsEffective :: "cenv \<Rightarrow> effect_templ \<Rightarrow> casting \<Rightarrow> bool \<times> casting" where
  "IsEffective env e w = (case roll env w of (x, w1) \<Rightarrow> (x \<le> prob e, w1))"

definition IsHit :: "cenv \<Rightarrow> pid \<Rightarrow> pid \<Rightarrow> skill_templ \<Rightarrow> casting \<Rightarrow> bool \<times> casting" where
  "IsHit env c o' t w =
     (if skill_team t = TEAM_MATE then (True, w)
      else case roll env w of (x, w1) \<Rightarrow>
        (x \<le> (if \<not> hit_assign t
               then i32 ((hit_rate t + GetProperty (fe env) (calls (fw w)) c 9 - GetProperty (fe env) (calls (fw w)) o' 10) * 10)
               else hit_rate t), w1))"

definition IsCritHit :: "cenv \<Rightarrow> pid \<Rightarrow> pid \<Rightarrow> casting \<Rightarrow> bool \<times> casting" where
  "IsCritHit env c o' w =
     (let rate = trunc (db env (db env (of_int (GetProperty (fe env) (calls (fw w)) c 11) / (1000 + of_int (GetLevel env o' * 100))) * 10000))
      in case roll env w of (x, w1) \<Rightarrow> (x \<le> rate, w1))"

text \<open>The effects of a frame on one defender; the set of life chains keeps the order of insertion here.\<close>

definition add_chain :: "effect_templ \<Rightarrow> effect_templ list \<Rightarrow> effect_templ list" where
  "add_chain e cs = (if life_chain e \<and> e \<notin> set cs then cs @ [e] else cs)"

fun effect_loop :: "cenv \<Rightarrow> pid \<Rightarrow> pid \<Rightarrow> cast_param \<Rightarrow> effect_templ list \<Rightarrow> effect_damage list \<Rightarrow> effect_templ list \<Rightarrow> casting \<Rightarrow>
    (effect_damage list \<times> effect_templ list \<times> casting) res" where
  "effect_loop env c o' p [] out cs w = Inr (out, cs, w)"
| "effect_loop env c o' p (e # es) out cs w =
     (case IsEffective env e w of (eff, w1) \<Rightarrow>
        if \<not> eff then effect_loop env c o' p es out cs w1
        else bindr (Cast_effect env c o' p e w1) (\<lambda>(ds, w2).
          effect_loop env c o' p es
            (out @ [\<lparr>ed_effect = templ_id e, ed_status = (if crit p \<and> ds \<noteq> [] \<and> etype e \<noteq> EFFECT_BUFF \<and> list_ex (\<lambda>l. case l of BasicAttack _ _ _ \<Rightarrow> True | _ \<Rightarrow> False) (logics e) then EFFECT_CRIT else 0), ed_dmgs = ds\<rparr>])
            (add_chain e cs) w2))"

fun target_loop :: "cenv \<Rightarrow> pid \<Rightarrow> skill_templ \<Rightarrow> attack_frame \<Rightarrow> cast_param \<Rightarrow> pid list \<Rightarrow> player_damage list \<Rightarrow> effect_templ list \<Rightarrow> bool \<Rightarrow>
    casting \<Rightarrow> (player_damage list \<times> effect_templ list \<times> bool \<times> cast_param \<times> casting) res" where
  "target_loop env c t f p [] out cs hit w = Inr (out, cs, hit, p, w)"
| "target_loop env c t f p (o' # ts) out cs hit w =
     (if o' = 0 then Inl NullDeref
      else case IsHit env c o' t w of (h, w1) \<Rightarrow>
        if \<not> h then target_loop env c t f p ts (out @ [\<lparr>pd_defender = o', pd_dmgs = []\<rparr>]) cs hit w1
        else case IsCritHit env c o' w1 of (cr, w2) \<Rightarrow>
          bindr (effect_loop env c o' (p\<lparr>crit := cr\<rparr>) (effect_frames f) [] cs w2) (\<lambda>(eds, cs1, w3).
            target_loop env c t f (p\<lparr>crit := cr, factor := fl env (factor p * fl env (db env (of_int (rg_factor (skill_rng t)) / 10000)))\<rparr>)
              ts (out @ [\<lparr>pd_defender = o', pd_dmgs = eds\<rparr>]) cs1 True w3))"

definition chain_damage :: "pid \<Rightarrow> effect_templ list \<Rightarrow> player_damage list" where
  "chain_damage c cs = (if cs = [] then [] else
     [\<lparr>pd_defender = c, pd_dmgs = List.map (\<lambda>e. \<lparr>ed_effect = templ_id e, ed_status = 0, ed_dmgs = []\<rparr>) cs\<rparr>])"

definition CastNormalEffect :: "cenv \<Rightarrow> pid \<Rightarrow> skill_templ \<Rightarrow> attack_frame \<Rightarrow> cast_param \<Rightarrow> pid list \<Rightarrow> casting \<Rightarrow>
    (bool \<times> player_damage list \<times> cast_param \<times> casting) res" where
  "CastNormalEffect env c t f p ts w =
     bindr (target_loop env c t f (p\<lparr>factor := 1, defenders := int (length ts)\<rparr>) ts [] [] False w) (\<lambda>(out, cs, hit, p1, w1).
       Inr (hit, out @ chain_damage c cs, p1, w1))"

fun redir_targets :: "cenv \<Rightarrow> pid \<Rightarrow> cast_param \<Rightarrow> effect_templ \<Rightarrow> pid list \<Rightarrow> player_damage list \<Rightarrow> casting \<Rightarrow> (player_damage list \<times> casting) res" where
  "redir_targets env c p e [] out w = Inr (out, w)"
| "redir_targets env c p e (o' # ts) out w =
     (if o' = 0 then Inl NullDeref
      else bindr (Cast_effect env c o' p e w) (\<lambda>(ds, w1).
        redir_targets env c p e ts (out @ [\<lparr>pd_defender = o', pd_dmgs =
          [\<lparr>ed_effect = templ_id e, ed_status = (if crit p \<and> ds \<noteq> [] \<and> list_ex (\<lambda>l. case l of BasicAttack _ _ _ \<Rightarrow> True | _ \<Rightarrow> False) (logics e) then EFFECT_REDIR OR EFFECT_CRIT else EFFECT_REDIR), ed_dmgs = ds\<rparr>]\<rparr>]) w1))"

fun redir_loop :: "cenv \<Rightarrow> pid \<Rightarrow> cast_param \<Rightarrow> effect_templ list \<Rightarrow> player_damage list \<Rightarrow> effect_templ list \<Rightarrow> casting \<Rightarrow>
    ((player_damage list \<times> effect_templ list \<times> cast_param \<times> casting) res) option" where
  "redir_loop env c p [] out cs w = Some (Inr (out, cs, p, w))"
| "redir_loop env c p (e # es) out cs w =
     (case IsEffective env e w of (eff, w1) \<Rightarrow>
        if \<not> eff then redir_loop env c p es out cs w1
        else bindo (RedirTarget (units_at env (calls (fw w1))) c c (redir e) (members env c 0) (members env c 1) (draws (fw w1))) (\<lambda>(ts, n).
          let p1 = p\<lparr>defenders := int (length ts)\<rparr>
          in bindo (Some (redir_targets env c p1 e ts out (set_fw ((fw w1)\<lparr>draws := n\<rparr>) w1))) (\<lambda>(out1, w2).
               redir_loop env c p1 es out1 (add_chain e cs) w2)))"

definition CastRedirEffect :: "cenv \<Rightarrow> pid \<Rightarrow> attack_frame \<Rightarrow> cast_param \<Rightarrow> casting \<Rightarrow> ((player_damage list \<times> cast_param \<times> casting) res) option" where
  "CastRedirEffect env c f p w =
     bindo (redir_loop env c (p\<lparr>factor := 1\<rparr>) (redir_frames f) [] [] w) (\<lambda>(out, cs, p1, w1).
       Some (Inr (out @ chain_damage c cs, p1, w1)))"

fun frame_loop :: "cenv \<Rightarrow> pid \<Rightarrow> skill_templ \<Rightarrow> attack_frame list \<Rightarrow> cast_param \<Rightarrow> pid list \<Rightarrow> frame_damage list \<Rightarrow> casting \<Rightarrow>
    ((frame_damage list \<times> casting) res) option" where
  "frame_loop env c t [] p ts out w = Some (Inr (out, w))"
| "frame_loop env c t (f # fs) p ts out w =
     bindo (Some (CastNormalEffect env c t f p ts w)) (\<lambda>(hit, ps, p1, w1).
       bindo (if hit then CastRedirEffect env c f p1 w1 else Some (Inr ([], p1, w1))) (\<lambda>(rs, p2, w2).
         frame_loop env c t fs p2 ts (out @ [\<lparr>fd_players = ps, fd_redir = rs\<rparr>]) w2))"

text \<open>\<open>CastSkill\<close> of a template; the parameters start with factor 0, no defenders and no critical hit.\<close>

definition CastSkill_templ :: "cenv \<Rightarrow> pid \<Rightarrow> skill_templ \<Rightarrow> pid list \<Rightarrow> casting \<Rightarrow> ((skill_damage \<times> casting) res) option" where
  "CastSkill_templ env c t ts w =
     bindo (Some (CastRevise (fe env) c (fw w))) (\<lambda>(f, rs).
       bindo (frame_loop env c t (frames t) \<lparr>factor = 0, defenders = 0, crit = False, revise = rs\<rparr> ts [] (set_fw f w)) (\<lambda>(fds, w1).
         Some (Inr (\<lparr>sd_skill = skillid t, sd_attacker = c, sd_pos = POS_INVALID, sd_frames = fds\<rparr>, w1))))"

definition set_cooldown :: "cenv \<Rightarrow> pid \<Rightarrow> skill_templ \<Rightarrow> casting \<Rightarrow> casting" where
  "set_cooldown env c t w =
     w\<lparr>cd_of := (cd_of w)(c := SetCooldown (\<lambda>k. the (GetSkillTempl env k)) (GetCurTime (fe env) c) t (cd_of w c))\<rparr>"

definition CastSkill :: "cenv \<Rightarrow> pid \<Rightarrow> int \<Rightarrow> pid list \<Rightarrow> bool \<Rightarrow> casting \<Rightarrow> ((skill_damage \<times> casting) res) option" where
  "CastSkill env c k ts recast w =
     (case (case GetSkill env w c k of None \<Rightarrow> GetSkillTempl env k | Some t \<Rightarrow> Some t) of
        None \<Rightarrow> Some (Inl NullDeref)
      | Some t \<Rightarrow> bindo (CastSkill_templ env c t ts w) (\<lambda>(d, w1). Some (Inr (d, if recast then w1 else set_cooldown env c t w1))))"

section \<open>Dealing the damage of a skill\<close>

definition RECAST_CRIT :: int where "RECAST_CRIT = 8"

fun deal_effects :: "cenv \<Rightarrow> pid \<Rightarrow> pid \<Rightarrow> effect_damage list \<Rightarrow> int \<Rightarrow> buff_damage list \<Rightarrow> fight \<Rightarrow> (effect_damage list \<times> int \<times> buff_damage list \<times> fight) res" where
  "deal_effects env a o' [] st out w = Inr ([], st, out, w)"
| "deal_effects env a o' (e # es) st out w =
     bindr (BeAttacked (fe env) o' \<lparr>am_attacker = a, am_effect = GetEffectTempl (fe env) (ed_effect e), am_dmgs = ed_dmgs e, am_buff = None\<rparr> out w)
       (\<lambda>(st1, m1, out1, w1).
          bindr (deal_effects env a o' es (st OR (if ed_status e AND EFFECT_CRIT \<noteq> 0 then RECAST_CRIT else 0) OR st1) out1 w1) (\<lambda>(es2, st2, out2, w2).
            Inr (e\<lparr>ed_dmgs := am_dmgs m1\<rparr> # es2, st2, out2, w2)))"

fun AttackPlayer :: "cenv \<Rightarrow> pid \<Rightarrow> pid \<Rightarrow> player_damage list \<Rightarrow> int \<Rightarrow> buff_damage list \<Rightarrow> fight \<Rightarrow> (player_damage list \<times> int \<times> buff_damage list \<times> fight) res" where
  "AttackPlayer env c a [] st out w = Inr ([], st, out, w)"
| "AttackPlayer env c a (p # ps) st out w =
     (let defender = FindPlayer (fe env) c (pd_defender p)
      in if defender = 0 then Inl NullDeref
         else bindr (deal_effects env a (GetOwner (fe env) defender) (pd_dmgs p) st out w) (\<lambda>(es, st1, out1, w1).
           bindr (AttackPlayer env c a ps st1 out1 w1) (\<lambda>(ps2, st2, out2, w2).
             Inr (p\<lparr>pd_dmgs := es\<rparr> # ps2, st2, out2, w2))))"

fun Attack_frames :: "cenv \<Rightarrow> pid \<Rightarrow> pid \<Rightarrow> frame_damage list \<Rightarrow> int \<Rightarrow> buff_damage list \<Rightarrow> fight \<Rightarrow> (frame_damage list \<times> int \<times> buff_damage list \<times> fight) res" where
  "Attack_frames env c a [] st out w = Inr ([], st, out, w)"
| "Attack_frames env c a (f # fs) st out w =
     bindr (AttackPlayer env c a (fd_players f) st out w) (\<lambda>(ps, st1, out1, w1).
     bindr (AttackPlayer env c a (fd_redir f) st1 out1 w1) (\<lambda>(rs, st2, out2, w2).
     bindr (Attack_frames env c a fs st2 out2 w2) (\<lambda>(fs3, st3, out3, w3).
       Inr (\<lparr>fd_players = ps, fd_redir = rs\<rparr> # fs3, st3, out3, w3))))"

text \<open>
  \<open>BuffWrapper::CastSkill\<close>: the damage of a skill is dealt, then that of the buffs it meets; the result
  is the skill to cast again, or 0.
\<close>

definition Wrapper_CastSkill :: "cenv \<Rightarrow> pid \<Rightarrow> skill_damage \<Rightarrow> buff_damage list \<Rightarrow> casting \<Rightarrow> ((int \<times> skill_damage \<times> buff_damage list \<times> casting) res) option" where
  "Wrapper_CastSkill env c d out w =
     bindo (Some (Attack_frames env c (FindPlayer (fe env) c (sd_attacker d)) (sd_frames d) 0 out (fw w))) (\<lambda>(fs, st, out1, f1).
     bindo (Attack (fe env) c out1 f1) (\<lambda>(out2, f2).
       case GetSkillTempl env (sd_skill d) of
         None \<Rightarrow> Some (Inl NullDeref)
       | Some t \<Rightarrow>
           let d1 = d\<lparr>sd_frames := fs\<rparr>; w1 = set_fw f2 w
           in if recast_type t AND st = 0 then Some (Inr (0, d1, out2, w1))
              else case roll env w1 of (x, w2) \<Rightarrow> Some (Inr (if x \<le> recast_prob t then recast_skillid t else 0, d1, out2, w2))))"

fun passive_loop :: "cenv \<Rightarrow> pid \<Rightarrow> int list \<Rightarrow> skill_damage list \<Rightarrow> casting \<Rightarrow> ((skill_damage list \<times> casting) res) option" where
  "passive_loop env c [] out w = Some (Inr (out, w))"
| "passive_loop env c (k # ks) out w =
     (case GetSkillTempl env k of
        None \<Rightarrow> Some (Inl NullDeref)
      | Some t \<Rightarrow>
          bindo (Some (OnCanCast env c t w)) (\<lambda>(e, w1).
            if e \<noteq> ERR_SUCCESS then passive_loop env c ks out w1
            else bindo (skill_targets env c t w1) (\<lambda>(pos, ts, w2).
              bindo (CastSkill_templ env c t ts w2) (\<lambda>(d, w3).
                bindo (Wrapper_CastSkill env c d [] w3) (\<lambda>(_, d1, bds, w4).
                  if bds \<noteq> [] then Some (Inl AssertFail)
                  else passive_loop env c ks (out @ [d1\<lparr>sd_pos := pos\<rparr>]) (set_cooldown env c t w4))))))"

definition CastPassiveSkill :: "cenv \<Rightarrow> pid \<Rightarrow> skill_damage list \<Rightarrow> casting \<Rightarrow> ((skill_damage list \<times> casting) res) option" where
  "CastPassiveSkill env c out w = passive_loop env c (passive_skill w c) out w"

section \<open>The rounds of a unit\<close>

definition in_fight :: "((buff_damage list \<times> fight) res) option \<Rightarrow> casting \<Rightarrow> ((buff_damage list \<times> casting) res) option" where
  "in_fight r w = bindo r (\<lambda>(out, f). Some (Inr (out, set_fw f w)))"

definition RoundStart :: "cenv \<Rightarrow> pid \<Rightarrow> casting \<Rightarrow> ((buff_damage list \<times> casting) res) option" where
  "RoundStart env c w =
     bindo (in_fight (RoundStart_buffs (fe env) c (fw w)) w) (\<lambda>(out, w1).
       Some (Inr (out, w1\<lparr>cd_of := (cd_of w1)(c := HeartBeat (GetCurTime (fe env) c) (IsInCombat env c) (cd_of w1 c))\<rparr>)))"

definition RoundEnd :: "cenv \<Rightarrow> pid \<Rightarrow> casting \<Rightarrow> ((skill_damage list \<times> buff_damage list \<times> casting) res) option" where
  "RoundEnd env c w =
     bindo (if CanAction (fe env) (calls (fw w)) c then CastPassiveSkill env c [] w else Some (Inr ([], w))) (\<lambda>(sds, w1).
     bindo (in_fight (RoundEnd_buffs (fe env) c (fw w1)) w1) (\<lambda>(out, w2). Some (Inr (sds, out, w2))))"

definition CombatStart :: "cenv \<Rightarrow> pid \<Rightarrow> casting \<Rightarrow> ((skill_damage list \<times> casting) res) option" where
  "CombatStart env c w = CastPassiveSkill env c [] w"

definition CombatEnd :: "cenv \<Rightarrow> pid \<Rightarrow> casting \<Rightarrow> casting res" where
  "CombatEnd env c w = bindr (ClearBuff (fe env) c (fw w)) (\<lambda>f. Inr (set_fw f w))"

text \<open>\<open>GetPassiveBuff\<close>: the effects of the passive skills of a unit that are buffs.\<close>

definition GetPassiveBuff :: "cenv \<Rightarrow> pid \<Rightarrow> casting \<Rightarrow> effect_templ list" where
  "GetPassiveBuff env c w = filter (\<lambda>e. etype e = EFFECT_BUFF)
     (concat (List.map (\<lambda>k. case GetSkillTempl env k of None \<Rightarrow> [] | Some t \<Rightarrow> concat (List.map (\<lambda>f. effect_frames f @ redir_frames f) (frames t)))
       (passive_skill w c)))"

definition GetAllPlayers :: "cenv \<Rightarrow> pid \<Rightarrow> pid list" where
  "GetAllPlayers env c = filter (\<lambda>p. p \<noteq> 0) (mates (fe env) c @ enemies (fe env) c)"

fun clear_effects :: "cenv \<Rightarrow> pid \<Rightarrow> pid \<Rightarrow> effect_templ list \<Rightarrow> fight \<Rightarrow> fight res" where
  "clear_effects env o' c [] w = Inr w"
| "clear_effects env o' c (e # es) w = bindr (ClearBuff_of (fe env) o' e c w) (clear_effects env o' c es)"

fun clear_from_others :: "cenv \<Rightarrow> pid \<Rightarrow> effect_templ list \<Rightarrow> pid list \<Rightarrow> fight \<Rightarrow> fight res" where
  "clear_from_others env c es [] w = Inr w"
| "clear_from_others env c es (o' # os) w =
     (if \<not> CanAction (fe env) (calls w) o' \<or> o' = c then clear_from_others env c es os w
      else bindr (clear_effects env o' c es w) (clear_from_others env c es os))"

fun revive_loop :: "cenv \<Rightarrow> pid list \<Rightarrow> skill_damage list \<Rightarrow> casting \<Rightarrow> ((skill_damage list \<times> casting) res) option" where
  "revive_loop env [] out w = Some (Inr (out, w))"
| "revive_loop env (o' # os) out w =
     (if \<not> CanAction (fe env) (calls (fw w)) o' then revive_loop env os out w
      else bindo (CastPassiveSkill env o' out w) (\<lambda>(out1, w1). revive_loop env os out1 w1))"

definition Wrapper_Revive :: "cenv \<Rightarrow> pid \<Rightarrow> skill_damage list \<Rightarrow> casting \<Rightarrow> ((skill_damage list \<times> casting) res) option" where
  "Wrapper_Revive env c out w = revive_loop env (GetAllPlayers env c) out w"

definition Wrapper_Dying :: "cenv \<Rightarrow> pid \<Rightarrow> casting \<Rightarrow> ((skill_damage list \<times> casting) res) option" where
  "Wrapper_Dying env c w =
     bindo (Some (bindr (ClearBuff (fe env) c (fw w)) (clear_from_others env c (GetPassiveBuff env c w) (GetAllPlayers env c)))) (\<lambda>f.
       Wrapper_Revive env c [] (set_fw f w))"

end
