(* ===== verification/SkillProps.thy ===== *)
theory SkillProps
  imports SkillCast BuffDeeds TargetProps "HOL-Library.Sublist"
begin

unbundle bit_operations_syntax

text \<open>
  What casting does: the books of the client stay right whatever is cast; each frame of a skill strikes
  each target once, in order; and asking whether a skill can be cast uses up what makes it cheaper.
\<close>

section \<open>Casting changes no buffs but through their operations\<close>

lemma set_fw_simps [simp]: "fw (set_fw f w) = f" "cd_of (set_fw f w) = cd_of w" "active_skill (set_fw f w) = active_skill w"
  "passive_skill (set_fw f w) = passive_skill w" "set_fw (fw w) w = w"
  by (simp_all add: set_fw_def)

lemma bindo_Inr_iff: "bindo m k = Some (Inr y) \<longleftrightarrow> (\<exists>x. m = Some (Inr x) \<and> k x = Some (Inr y))"
  by (auto simp: bindo_def split: option.splits sum.splits)

lemmas run_iff = bindo_Inr_iff bindr_Inr_iff assertx_Inr_iff

lemma quiet_draws: "quiet w (w\<lparr>draws := n\<rparr>)"
  by (simp add: quiet_def)

text \<open>What casting itself tells units: the caster gathers power. It harms and heals nobody.\<close>

definition aside :: "pid \<Rightarrow> fight \<Rightarrow> fight \<Rightarrow> bool" where
  "aside c w w1 \<longleftrightarrow> buff_vec w1 = buff_vec w \<and> next_sn w1 = next_sn w \<and>
     (\<exists>new. calls w1 = calls w @ new \<and> set new \<subseteq> insert (CGenPower c) (range (CPowerGolem c)))"

lemma aside_refl [simp]: "aside c w w"
  by (simp add: aside_def)

lemma aside_trans:
  assumes "aside c w w1" "aside c w1 w2"
  shows "aside c w w2"
proof -
  obtain n1 n2 where "calls w1 = calls w @ n1" "calls w2 = calls w1 @ n2" "set n1 \<subseteq> insert (CGenPower c) (range (CPowerGolem c))"
      "set n2 \<subseteq> insert (CGenPower c) (range (CPowerGolem c))"
    using assms unfolding aside_def by metis
  then show ?thesis using assms by (auto simp: aside_def intro!: exI [of _ "n1 @ n2"])
qed

lemma aside_tell: "x \<in> insert (CGenPower c) (range (CPowerGolem c)) \<Longrightarrow> aside c w (tell x w)"
  by (auto simp: aside_def)

lemma quiet_asides:
  assumes "set new \<subseteq> insert (CGenPower c) (range (CPowerGolem c))"
  shows "seen (cs @ new) = seen cs \<and> attaches (cs @ new) = attaches cs"
  using assms
proof (induction new rule: rev_induct)
  case (snoc x xs)
  then have "seen ((cs @ xs) @ [x]) = seen cs \<and> attaches ((cs @ xs) @ [x]) = attaches cs"
    unfolding seen_snoc attaches_snoc by auto
  then show ?case by simp
qed simp

lemma aside_quiet: "aside c w w1 \<Longrightarrow> quiet w w1"
  using quiet_asides by (auto simp: aside_def quiet_def)

lemma aside_draws: "aside c w (w\<lparr>draws := n\<rparr>)"
  by (simp add: aside_def)

lemma aside_roll: "roll env w = (x, w1) \<Longrightarrow> aside c (fw w) (fw w1)"
  by (auto simp: roll_def aside_draws)

lemma aside_logic_Cast: "logic_Cast env c o' p l (ds, w) = Inr (ds1, w1) \<Longrightarrow> aside c (fw w) (fw w1)"
  by (cases l) (auto simp: run_iff Let_def aside_tell split: if_splits)

lemma aside_Cast_effect:
  assumes "Cast_effect env c o' p e w = Inr (ds, w1)"
  shows "aside c (fw w) (fw w1)"
proof (cases "etype e")
  case EFFECT_INSTANT
  then have run: "each_logic (logic_Cast env c o' p) (logics e) ([], w) = Inr (ds, w1)" using assms by (simp add: Cast_effect_def)
  have "case (ds, w1) of (_, w1) \<Rightarrow> aside c (fw w) (fw w1)"
  proof (rule each_logic_inv [OF run, where P = "\<lambda>(_, w1). aside c (fw w) (fw w1)"], goal_cases)
    case (2 l s s')
    then show ?case using aside_trans aside_logic_Cast by (cases s, cases s') blast
  qed simp
  then show ?thesis by simp
qed (use assms in \<open>simp add: Cast_effect_def\<close>)

lemma aside_IsEffective: "IsEffective env e w = (x, w1) \<Longrightarrow> aside c (fw w) (fw w1)"
  by (auto simp: IsEffective_def aside_roll split: prod.splits)

lemma aside_IsHit: "IsHit env c o' t w = (x, w1) \<Longrightarrow> aside c (fw w) (fw w1)"
  by (auto simp: IsHit_def aside_roll split: prod.splits if_splits)

lemma aside_IsCritHit: "IsCritHit env c o' w = (x, w1) \<Longrightarrow> aside c (fw w) (fw w1)"
  by (auto simp: IsCritHit_def Let_def aside_roll split: prod.splits)

lemma aside_effect_loop: "effect_loop env c o' p es out cs w = Inr (out1, cs1, w1) \<Longrightarrow> aside c (fw w) (fw w1)"
proof (induction es arbitrary: out cs w)
  case (Cons e es)
  obtain eff w2 where e: "IsEffective env e w = (eff, w2)" by fastforce
  note q = aside_IsEffective [OF e]
  show ?case
  proof (cases eff)
    case True
    then obtain ds w3 where "Cast_effect env c o' p e w2 = Inr (ds, w3)" "\<exists>out cs. effect_loop env c o' p es out cs w3 = Inr (out1, cs1, w1)"
      using Cons.prems e by (auto simp: bindr_Inr_iff)
    then show ?thesis using Cons.IH q aside_Cast_effect by (meson aside_trans)
  next
    case False
    then have "effect_loop env c o' p es out cs w2 = Inr (out1, cs1, w1)" using Cons.prems e by simp
    from aside_trans [OF q Cons.IH [OF this]] show ?thesis .
  qed
qed simp

lemma aside_target_loop: "target_loop env c t f p ts out cs hit w = Inr (out1, cs1, hit1, p1, w1) \<Longrightarrow> aside c (fw w) (fw w1)"
proof (induction ts arbitrary: p out cs hit w)
  case (Cons o' ts)
  obtain h w2 where h: "IsHit env c o' t w = (h, w2)" by fastforce
  obtain cr w3 where cr: "IsCritHit env c o' w2 = (cr, w3)" by fastforce
  note q = aside_IsHit [OF h] aside_IsCritHit [OF cr]
  show ?case
  proof (cases h)
    case True
    then obtain eds cs2 w4 p2 out2 where "effect_loop env c o' (p\<lparr>crit := cr\<rparr>) (effect_frames f) [] cs w3 = Inr (eds, cs2, w4)"
        "target_loop env c t f p2 ts out2 cs2 True w4 = Inr (out1, cs1, hit1, p1, w1)"
      using Cons.prems h cr by (auto simp: bindr_Inr_iff split: if_splits)
    then show ?thesis using Cons.IH q aside_effect_loop by (meson aside_trans)
  next
    case False
    then have "\<exists>out. target_loop env c t f p ts out cs hit w2 = Inr (out1, cs1, hit1, p1, w1)"
      using Cons.prems h by (auto split: if_splits)
    then show ?thesis using Cons.IH q(1) aside_trans by blast
  qed
qed simp

lemma aside_CastNormalEffect: "CastNormalEffect env c t f p ts w = Inr (hit, out, p1, w1) \<Longrightarrow> aside c (fw w) (fw w1)"
  by (auto simp: CastNormalEffect_def bindr_Inr_iff aside_target_loop)

lemma aside_redir_targets: "redir_targets env c p e ts out w = Inr (out1, w1) \<Longrightarrow> aside c (fw w) (fw w1)"
proof (induction ts arbitrary: out w)
  case (Cons o' ts)
  then obtain ds w2 where "Cast_effect env c o' p e w = Inr (ds, w2)" "\<exists>out. redir_targets env c p e ts out w2 = Inr (out1, w1)"
    by (auto simp: bindr_Inr_iff split: if_splits)
  then show ?case using Cons.IH aside_Cast_effect aside_trans by blast
qed simp

lemma aside_redir_loop: "redir_loop env c p es out cs w = Some (Inr (out1, cs1, p1, w1)) \<Longrightarrow> aside c (fw w) (fw w1)"
proof (induction es arbitrary: p out cs w)
  case (Cons e es)
  obtain eff w2 where e: "IsEffective env e w = (eff, w2)" by fastforce
  note q = aside_IsEffective [OF e]
  show ?case
  proof (cases eff)
    case True
    then obtain ts n p2 out2 w3 where
      "redir_targets env c p2 e ts out (set_fw ((fw w2)\<lparr>draws := n\<rparr>) w2) = Inr (out2, w3)"
      "redir_loop env c p2 es out2 (add_chain e cs) w3 = Some (Inr (out1, cs1, p1, w1))"
      using Cons.prems e by (auto simp: bindo_Inr_iff Let_def)
    moreover from this(1) have "aside c (fw w2) (fw w3)" using aside_redir_targets aside_draws aside_trans by fastforce
    ultimately show ?thesis using Cons.IH q by (meson aside_trans)
  next
    case False
    then have "redir_loop env c p es out cs w2 = Some (Inr (out1, cs1, p1, w1))" using Cons.prems e by simp
    from aside_trans [OF q Cons.IH [OF this]] show ?thesis .
  qed
qed simp

lemma aside_CastRedirEffect: "CastRedirEffect env c f p w = Some (Inr (out, p1, w1)) \<Longrightarrow> aside c (fw w) (fw w1)"
  by (auto simp: CastRedirEffect_def bindo_Inr_iff aside_redir_loop)

lemma aside_frame_loop: "frame_loop env c t fs p ts out w = Some (Inr (out1, w1)) \<Longrightarrow> aside c (fw w) (fw w1)"
proof (induction fs arbitrary: p out w)
  case (Cons f fs)
  then obtain hit ps p2 w2 rs p3 w3 where n: "CastNormalEffect env c t f p ts w = Inr (hit, ps, p2, w2)"
      "(if hit then CastRedirEffect env c f p2 w2 else Some (Inr ([], p2, w2))) = Some (Inr (rs, p3, w3))"
      "frame_loop env c t fs p3 ts (out @ [\<lparr>fd_players = ps, fd_redir = rs\<rparr>]) w3 = Some (Inr (out1, w1))"
    by (auto simp: bindo_Inr_iff)
  have "aside c (fw w2) (fw w3)" using n(2) aside_CastRedirEffect by (auto split: if_splits)
  then show ?case using aside_CastNormalEffect [OF n(1)] Cons.IH [OF n(3)] aside_trans by blast
qed simp

section \<open>The operations of a unit keep the books\<close>

definition keeps :: "fight \<Rightarrow> fight \<Rightarrow> bool" where
  "keeps w w1 \<longleftrightarrow> (fight_inv w \<longrightarrow> fight_inv w1)"

lemma cast_keeps_refl [simp]: "keeps w w"
  by (simp add: keeps_def)

lemma cast_keeps_trans: "keeps w w1 \<Longrightarrow> keeps w1 w2 \<Longrightarrow> keeps w w2"
  by (simp add: keeps_def)

lemma quiet_keeps: "quiet w w1 \<Longrightarrow> keeps w w1"
  by (simp add: keeps_def fight_inv_quiet)

lemma fought_keeps: "fought env o' op w w1 \<Longrightarrow> keeps w w1"
  using fought_inv by (simp add: keeps_def)

lemmas fought_keep = fought.intros [THEN fought_keeps]

lemma keeps_Revise_costs: "Revise_costs env o' w = Inr (r, w1) \<Longrightarrow> keeps (fw w) (fw w1)"
  by (auto simp: Revise_costs_def bindr_Inr_iff dest: fought_keep)

lemma keeps_CheckCond: "CheckCond env o' cs b w = Inr (e, w1) \<Longrightarrow> keeps (fw w) (fw w1)"
  using keeps_Revise_costs by (fastforce simp: CheckCond_def bindr_Inr_iff split: if_splits)

lemma keeps_OnCanCast: "OnCanCast env o' t w = Inr (e, w1) \<Longrightarrow> keeps (fw w) (fw w1)"
  by (auto simp: OnCanCast_def bindr_Inr_iff split: if_splits dest!: keeps_CheckCond) (erule cast_keeps_trans, assumption)+

lemma keeps_GetBuffTarget: "GetBuffTarget env o' w = Inr (ts, w1) \<Longrightarrow> keeps (fw w) (fw w1)"
  by (auto simp: GetBuffTarget_def run_iff dest: fought_keep)

lemma quiet_skill_targets: "skill_targets env o' t w = Some (Inr (pos, ts, w1)) \<Longrightarrow> quiet (fw w) (fw w1)"
  by (auto simp: skill_targets_def run_iff quiet_draws)

lemma keeps_GetTarget_skill:
  assumes "Wrapper_GetTarget env o' k w = Some (Inr (k1, pos, ts, w1))"
  shows "keeps (fw w) (fw w1)"
proof -
  obtain k2 t where t: "GetRealCastSkill env o' k w = (k2, Some t)"
    using assms by (auto simp: Wrapper_GetTarget_def split: if_splits prod.splits option.splits)
  then obtain ts2 w2 where r: "(if CanChangeTarget t then GetBuffTarget env o' w else Inr ([], w)) = Inr (ts2, w2)"
      "(case ts2 of p # _ \<Rightarrow> Some (bindr (pos_of (units_at env (calls (fw w2))) p) (\<lambda>q. Inr (k2, q, ts2, w2)))
        | [] \<Rightarrow> bindo (skill_targets env o' t w2) (\<lambda>(pos, ts1, w2). Some (Inr (k2, pos, ts1, w2)))) = Some (Inr (k1, pos, ts, w1))"
    using assms by (auto simp: Wrapper_GetTarget_def bindo_Inr_iff split: if_splits)
  have "keeps (fw w) (fw w2)" using r(1) keeps_GetBuffTarget by (auto split: if_splits)
  moreover have "quiet (fw w2) (fw w1)" using r(2) quiet_skill_targets by (auto simp: run_iff split: list.splits)
  ultimately show ?thesis using cast_keeps_trans quiet_keeps by blast
qed

lemma quiet_consume_loop: "quiet (fw w) (fw (consume_loop env o' r cs w))"
proof (induction cs arbitrary: w)
  case (Cons c cs)
  show ?case unfolding consume_loop.simps Let_def
    by (rule quiet_trans [OF _ Cons]) (simp add: quiet_tell)
qed simp

lemma keeps_Consume: "Consume env o' k w = Inr w1 \<Longrightarrow> keeps (fw w) (fw w1)"
  using keeps_Revise_costs quiet_consume_loop
  by (fastforce simp: Consume_def bindr_Inr_iff split: option.splits if_splits intro: cast_keeps_trans quiet_keeps)

lemma keeps_CastSkill_templ:
  assumes "CastSkill_templ env c t ts w = Some (Inr (d, w1))"
  shows "keeps (fw w) (fw w1)"
proof -
  obtain f rs p fds where "CastRevise (fe env) c (fw w) = Inr (f, rs)" "frame_loop env c t (frames t) p ts [] (set_fw f w) = Some (Inr (fds, w1))"
    using assms by (auto simp: CastSkill_templ_def bindo_Inr_iff)
  then have "keeps (fw w) f" "quiet f (fw w1)" using fought_keep(7) aside_quiet [OF aside_frame_loop] by fastforce+
  then show ?thesis using cast_keeps_trans quiet_keeps by blast
qed

lemma fw_set_cooldown [simp]: "fw (set_cooldown env c t w) = fw w"
  by (simp add: set_cooldown_def)

lemma keeps_CastSkill: "CastSkill env c k ts re w = Some (Inr (d, w1)) \<Longrightarrow> keeps (fw w) (fw w1)"
  using keeps_CastSkill_templ by (fastforce simp: CastSkill_def bindo_Inr_iff split: option.splits if_splits)

lemma keeps_deal_effects: "deal_effects env a o' es st out w = Inr (es1, st1, out1, w1) \<Longrightarrow> keeps w w1"
proof (induction es arbitrary: st out w es1)
  case (Cons e es)
  then obtain st2 m2 out2 w2 st3 es3 where
    "BeAttacked (fe env) o' \<lparr>am_attacker = a, am_effect = GetEffectTempl (fe env) (ed_effect e), am_dmgs = ed_dmgs e, am_buff = None\<rparr> out w = Inr (st2, m2, out2, w2)"
    "deal_effects env a o' es st3 out2 w2 = Inr (es3, st1, out1, w1)"
    by (auto simp: bindr_Inr_iff)
  then show ?case using Cons.IH fought_keep(1) by (meson cast_keeps_trans)
qed simp

lemma keeps_AttackPlayer: "AttackPlayer env c a ps st out w = Inr (ps1, st1, out1, w1) \<Longrightarrow> keeps w w1"
proof (induction ps arbitrary: st out w ps1)
  case (Cons p ps)
  then obtain o' es st2 out2 w2 ps3 where "deal_effects env a o' (pd_dmgs p) st out w = Inr (es, st2, out2, w2)"
    "AttackPlayer env c a ps st2 out2 w2 = Inr (ps3, st1, out1, w1)"
    by (auto simp: bindr_Inr_iff Let_def split: if_splits)
  then show ?case using Cons.IH keeps_deal_effects by (meson cast_keeps_trans)
qed simp

lemma keeps_Attack_frames: "Attack_frames env c a fs st out w = Inr (fs1, st1, out1, w1) \<Longrightarrow> keeps w w1"
proof (induction fs arbitrary: st out w fs1)
  case (Cons f fs)
  then obtain ps st2 out2 w2 rs st3 out3 w3 fs3 where "AttackPlayer env c a (fd_players f) st out w = Inr (ps, st2, out2, w2)"
    "AttackPlayer env c a (fd_redir f) st2 out2 w2 = Inr (rs, st3, out3, w3)" "Attack_frames env c a fs st3 out3 w3 = Inr (fs3, st1, out1, w1)"
    by (auto simp: bindr_Inr_iff)
  then show ?case using Cons.IH keeps_AttackPlayer by (meson cast_keeps_trans)
qed simp

lemma keeps_Wrapper_CastSkill:
  assumes "Wrapper_CastSkill env c d out w = Some (Inr (k, d1, out1, w1))"
  shows "keeps (fw w) (fw w1)"
proof -
  obtain a fs st out2 f2 f3 where r: "Attack_frames env c a (sd_frames d) 0 out (fw w) = Inr (fs, st, out2, f2)"
      "Attack (fe env) c out2 f2 = Some (Inr (out1, f3))" "w1 = set_fw f3 w \<or> w1 = snd (roll env (set_fw f3 w))"
    using assms by (auto simp: Wrapper_CastSkill_def bindo_Inr_iff Let_def split_beta split: option.splits if_splits)
  have "keeps f3 (fw w1)" using r(3) quiet_keeps [OF quiet_draws] by (auto simp: roll_def)
  then show ?thesis using keeps_Attack_frames [OF r(1)] fought_keep(2) [OF r(2)] cast_keeps_trans by blast
qed

lemma keeps_passive_loop: "passive_loop env c ks out w = Some (Inr (out1, w1)) \<Longrightarrow> keeps (fw w) (fw w1)"
proof (induction ks arbitrary: out w)
  case (Cons k ks)
  then obtain t where t: "GetSkillTempl env k = Some t" by (auto split: option.splits)
  then obtain e w2 where e: "OnCanCast env c t w = Inr (e, w2)" using Cons.prems by (auto simp: bindo_Inr_iff)
  show ?case
  proof (cases "e = ERR_SUCCESS")
    case True
    then obtain pos ts w3 d w4 j d1 out2 w5 where r: "skill_targets env c t w2 = Some (Inr (pos, ts, w3))"
      "CastSkill_templ env c t ts w3 = Some (Inr (d, w4))" "Wrapper_CastSkill env c d [] w4 = Some (Inr (j, d1, [], w5))"
      "passive_loop env c ks out2 (set_cooldown env c t w5) = Some (Inr (out1, w1))"
      using Cons.prems t e by (auto simp: bindo_Inr_iff split: if_splits)
    show ?thesis using keeps_OnCanCast [OF e] quiet_keeps [OF quiet_skill_targets [OF r(1)]] keeps_CastSkill_templ [OF r(2)]
        keeps_Wrapper_CastSkill [OF r(3)] Cons.IH [OF r(4)] by (metis cast_keeps_trans fw_set_cooldown)
  next
    case False
    then have "passive_loop env c ks out w2 = Some (Inr (out1, w1))" using Cons.prems t e by (simp add: bindo_def)
    from cast_keeps_trans [OF keeps_OnCanCast [OF e] Cons.IH [OF this]] show ?thesis .
  qed
qed simp

lemma keeps_CastPassiveSkill: "CastPassiveSkill env c out w = Some (Inr (out1, w1)) \<Longrightarrow> keeps (fw w) (fw w1)"
  unfolding CastPassiveSkill_def by (rule keeps_passive_loop)

lemma keeps_clear_effects: "clear_effects env o' c es w = Inr w1 \<Longrightarrow> keeps w w1"
proof (induction es arbitrary: w)
  case (Cons e es)
  then show ?case using fought_keep(9) by (auto simp: bindr_Inr_iff) (meson cast_keeps_trans)
qed simp

lemma keeps_clear_from_others: "clear_from_others env c es os w = Inr w1 \<Longrightarrow> keeps w w1"
proof (induction os arbitrary: w)
  case (Cons o' os)
  then show ?case using keeps_clear_effects by (auto simp: bindr_Inr_iff split: if_splits) (meson cast_keeps_trans)
qed simp

lemma keeps_revive_loop: "revive_loop env os out w = Some (Inr (out1, w1)) \<Longrightarrow> keeps (fw w) (fw w1)"
proof (induction os arbitrary: out w)
  case (Cons o' os)
  then show ?case using keeps_CastPassiveSkill by (auto simp: bindo_Inr_iff split: if_splits) (meson cast_keeps_trans)
qed simp

text \<open>The calls that a combat makes on the skills and buffs of a unit.\<close>

inductive cast_step :: "cenv \<Rightarrow> pid \<Rightarrow> casting \<Rightarrow> casting \<Rightarrow> bool" for env o' where
  "AddSkill env o' k w = Inr w' \<Longrightarrow> cast_step env o' w w'"
| "CanCast env o' k w = Inr (e, w') \<Longrightarrow> cast_step env o' w w'"
| "Wrapper_GetTarget env o' k w = Some (Inr (k1, pos, ts, w')) \<Longrightarrow> cast_step env o' w w'"
| "Consume env o' k w = Inr w' \<Longrightarrow> cast_step env o' w w'"
| "CastSkill env o' k ts re w = Some (Inr (d, w')) \<Longrightarrow> cast_step env o' w w'"
| "Wrapper_CastSkill env o' d out w = Some (Inr (k, d', out', w')) \<Longrightarrow> cast_step env o' w w'"
| "CombatStart env o' w = Some (Inr (ds, w')) \<Longrightarrow> cast_step env o' w w'"
| "RoundStart env o' w = Some (Inr (out, w')) \<Longrightarrow> cast_step env o' w w'"
| "RoundEnd env o' w = Some (Inr (ds, out, w')) \<Longrightarrow> cast_step env o' w w'"
| "Wrapper_Dying env o' w = Some (Inr (ds, w')) \<Longrightarrow> cast_step env o' w w'"
| "Wrapper_Revive env o' ds w = Some (Inr (ds', w')) \<Longrightarrow> cast_step env o' w w'"
| "CombatEnd env o' w = Inr w' \<Longrightarrow> cast_step env o' w w'"

inductive cast_reached :: "casting \<Rightarrow> bool" where
  start: "cast_reached \<lparr>fw = \<lparr>buff_vec = \<lambda>_. [], calls = [], next_sn = 0, draws = 0\<rparr>,
     cd_of = \<lambda>_. \<lparr>cd_map = \<lambda>_. None, reset_gid = []\<rparr>, active_skill = \<lambda>_. [], passive_skill = \<lambda>_. []\<rparr>"
| step: "cast_reached w \<Longrightarrow> cast_step env o' w w' \<Longrightarrow> cast_reached w'"

lemma cast_step_keeps: "cast_step env o' w w' \<Longrightarrow> keeps (fw w) (fw w')"
proof (induction rule: cast_step.induct)
  case (1 k w w')
  then show ?case by (auto simp: AddSkill_def split: option.splits if_splits)
next
  case (2 k w e w')
  then show ?case using keeps_OnCanCast by (auto simp: CanCast_def assertx_Inr_iff split: option.splits)
next
  case (7 w ds w')
  then show ?case unfolding CombatStart_def by (rule keeps_CastPassiveSkill)
next
  case (8 w out w')
  then show ?case by (auto simp: RoundStart_def in_fight_def bindo_Inr_iff dest: fought_keep)
next
  case (9 w ds out w')
  then obtain w1 where r: "(if CanAction (fe env) (calls (fw w)) o' then CastPassiveSkill env o' [] w else Some (Inr ([], w))) = Some (Inr (ds, w1))"
      "RoundEnd_buffs (fe env) o' (fw w1) = Some (Inr (out, fw w'))"
    by (auto simp: RoundEnd_def in_fight_def bindo_Inr_iff)
  have "keeps (fw w) (fw w1)" using r(1) keeps_CastPassiveSkill by (auto split: if_splits)
  then show ?case using fought_keep(4) [OF r(2)] by (rule cast_keeps_trans)
next
  case (10 w ds w')
  then obtain f1 f2 where r: "ClearBuff (fe env) o' (fw w) = Inr f1" "clear_from_others env o' (GetPassiveBuff env o' w) (GetAllPlayers env o') f1 = Inr f2"
      "revive_loop env (GetAllPlayers env o') [] (set_fw f2 w) = Some (Inr (ds, w'))"
    by (auto simp: Wrapper_Dying_def Wrapper_Revive_def run_iff)
  show ?case using fought_keep(8) [OF r(1)] keeps_clear_from_others [OF r(2)] keeps_revive_loop [OF r(3)]
    by (metis cast_keeps_trans set_fw_simps(1))
next
  case (11 ds w ds' w')
  then show ?case unfolding Wrapper_Revive_def by (rule keeps_revive_loop)
next
  case (12 w w')
  then show ?case by (auto simp: CombatEnd_def bindr_Inr_iff dest: fought_keep)
qed (use keeps_GetTarget_skill keeps_Consume keeps_CastSkill keeps_Wrapper_CastSkill in auto)

lemma cast_reached_inv: "cast_reached w \<Longrightarrow> fight_inv (fw w)"
proof (induction rule: cast_reached.induct)
  case start
  then show ?case by (simp add: fight_inv_def books_def seen_def attaches_def)
qed (use cast_step_keeps in \<open>simp add: keeps_def\<close>)

section \<open>Whom the frames of a skill strike\<close>

definition chains_of :: "effect_templ list \<Rightarrow> effect_templ set" where
  "chains_of es = {e \<in> set es. life_chain e}"

lemma set_add_chain: "set (add_chain e cs) \<subseteq> set cs \<union> chains_of (e # es)"
  by (auto simp: add_chain_def chains_of_def)

lemma chains_of_Cons: "chains_of es \<subseteq> chains_of (e # es)"
  by (auto simp: chains_of_def)

text \<open>The entry of one defender: effects of the frame, in their order.\<close>

definition entry_of :: "effect_templ list \<Rightarrow> player_damage \<Rightarrow> bool" where
  "entry_of es q \<longleftrightarrow> subseq (List.map ed_effect (pd_dmgs q)) (List.map templ_id es)"

lemma effect_loop_entry:
  assumes "effect_loop env c o' p es out cs w = Inr (out1, cs1, w1)"
  shows "(\<exists>new. out1 = out @ new \<and> subseq (List.map ed_effect new) (List.map templ_id es)) \<and> set cs1 \<subseteq> set cs \<union> chains_of es"
  using assms
proof (induction es arbitrary: out cs w)
  case (Cons e es)
  obtain eff w2 where e: "IsEffective env e w = (eff, w2)" by fastforce
  show ?case
  proof (cases eff)
    case True
    then obtain ds w3 st where "effect_loop env c o' p es (out @ [\<lparr>ed_effect = templ_id e, ed_status = st, ed_dmgs = ds\<rparr>]) (add_chain e cs) w3 = Inr (out1, cs1, w1)"
      using Cons.prems e by (auto simp: bindr_Inr_iff)
    from Cons.IH [OF this] obtain new where new: "out1 = out @ \<lparr>ed_effect = templ_id e, ed_status = st, ed_dmgs = ds\<rparr> # new"
      "subseq (List.map ed_effect new) (List.map templ_id es)" "set cs1 \<subseteq> set (add_chain e cs) \<union> chains_of es" by auto
    show ?thesis
      by (intro conjI exI [of _ "\<lparr>ed_effect = templ_id e, ed_status = st, ed_dmgs = ds\<rparr> # new"])
        (use new set_add_chain chains_of_Cons in \<open>fastforce+\<close>)
  next
    case False
    then have "effect_loop env c o' p es out cs w2 = Inr (out1, cs1, w1)" using Cons.prems e by simp
    from Cons.IH [OF this] show ?thesis using chains_of_Cons by fastforce
  qed
qed simp

lemma target_loop_entries:
  assumes "target_loop env c t f p ts out cs hit w = Inr (out1, cs1, hit1, p1, w1)"
  shows "(\<exists>new. out1 = out @ new \<and> List.map pd_defender new = ts \<and> (\<forall>q \<in> set new. entry_of (effect_frames f) q)) \<and>
    set cs1 \<subseteq> set cs \<union> chains_of (effect_frames f) \<and> (hit1 \<longrightarrow> hit \<or> ts \<noteq> [])"
  using assms
proof (induction ts arbitrary: p out cs hit w)
  case (Cons o' ts)
  obtain h w2 where h: "IsHit env c o' t w = (h, w2)" by fastforce
  obtain cr w3 where cr: "IsCritHit env c o' w2 = (cr, w3)" by fastforce
  obtain eds cs2 hit2 p2 w4 where r: "target_loop env c t f p2 ts (out @ [\<lparr>pd_defender = o', pd_dmgs = eds\<rparr>]) cs2 hit2 w4 = Inr (out1, cs1, hit1, p1, w1)"
      "subseq (List.map ed_effect eds) (List.map templ_id (effect_frames f))" "set cs2 \<subseteq> set cs \<union> chains_of (effect_frames f)"
  proof (cases h)
    case True
    then obtain eds cs2 w4 p2 where r: "effect_loop env c o' (p\<lparr>crit := cr\<rparr>) (effect_frames f) [] cs w3 = Inr (eds, cs2, w4)"
        "target_loop env c t f p2 ts (out @ [\<lparr>pd_defender = o', pd_dmgs = eds\<rparr>]) cs2 True w4 = Inr (out1, cs1, hit1, p1, w1)"
      using Cons.prems h cr by (auto simp: bindr_Inr_iff split: if_splits)
    show ?thesis using effect_loop_entry [OF r(1)] that [OF r(2)] by auto
  next
    case False
    then show ?thesis using that [of p "[]" cs hit w2] Cons.prems h by (auto split: if_splits)
  qed
  from Cons.IH [OF r(1)] obtain new where "out1 = out @ \<lparr>pd_defender = o', pd_dmgs = eds\<rparr> # new" "List.map pd_defender new = ts"
    "\<forall>q \<in> set new. entry_of (effect_frames f) q" "set cs1 \<subseteq> set cs2 \<union> chains_of (effect_frames f)" by auto
  then show ?case using r(2,3) by (intro conjI exI [of _ "\<lparr>pd_defender = o', pd_dmgs = eds\<rparr> # new"]) (auto simp: entry_of_def)
qed (use assms in simp)

lemma redir_targets_entries:
  assumes "redir_targets env c p e ts out w = Inr (out1, w1)"
  shows "\<exists>new. out1 = out @ new \<and> (\<forall>q \<in> set new. List.map ed_effect (pd_dmgs q) = [templ_id e])"
  using assms
proof (induction ts arbitrary: out w)
  case (Cons o' ts)
  then obtain ds w2 st where "redir_targets env c p e ts (out @ [\<lparr>pd_defender = o', pd_dmgs = [\<lparr>ed_effect = templ_id e, ed_status = st, ed_dmgs = ds\<rparr>]\<rparr>]) w2 = Inr (out1, w1)"
    by (auto simp: bindr_Inr_iff split: if_splits)
  from Cons.IH [OF this] show ?case by fastforce
qed simp

definition redir_entry :: "effect_templ list \<Rightarrow> player_damage \<Rightarrow> bool" where
  "redir_entry es q \<longleftrightarrow> (\<exists>e \<in> set es. List.map ed_effect (pd_dmgs q) = [templ_id e])"

lemma redir_loop_entries:
  assumes "redir_loop env c p es out cs w = Some (Inr (out1, cs1, p1, w1))"
  shows "(\<exists>new. out1 = out @ new \<and> (\<forall>q \<in> set new. redir_entry es q)) \<and> set cs1 \<subseteq> set cs \<union> chains_of es"
  using assms
proof (induction es arbitrary: p out cs w)
  case (Cons e es)
  obtain eff w2 where e: "IsEffective env e w = (eff, w2)" by fastforce
  show ?case
  proof (cases eff)
    case True
    then obtain ts p2 out2 w3 w4 where r: "redir_targets env c p2 e ts out w3 = Inr (out2, w4)"
      "redir_loop env c p2 es out2 (add_chain e cs) w4 = Some (Inr (out1, cs1, p1, w1))"
      using Cons.prems e by (auto simp: bindo_Inr_iff Let_def)
    obtain new1 where n1: "out2 = out @ new1" "\<forall>q \<in> set new1. redir_entry (e # es) q"
      using redir_targets_entries [OF r(1)] by (auto simp: redir_entry_def)
    from Cons.IH [OF r(2)] obtain new2 where n2: "out1 = out2 @ new2" "\<forall>q \<in> set new2. redir_entry es q"
      "set cs1 \<subseteq> set (add_chain e cs) \<union> chains_of es" by auto
    have "set cs1 \<subseteq> set cs \<union> chains_of (e # es)" using n2(3) set_add_chain [of e cs es] chains_of_Cons [of es e] by blast
    moreover have "\<forall>q \<in> set (new1 @ new2). redir_entry (e # es) q" using n1(2) n2(2) by (auto simp: redir_entry_def)
    ultimately show ?thesis using n1(1) n2(1) by (intro conjI exI [of _ "new1 @ new2"]) simp_all
  next
    case False
    then have "redir_loop env c p es out cs w2 = Some (Inr (out1, cs1, p1, w1))" using Cons.prems e by simp
    from Cons.IH [OF this] show ?thesis using chains_of_Cons [of es e] by (fastforce simp: redir_entry_def)
  qed
qed simp

text \<open>
  A frame: every target once and in order, then the caster when life chains were laid; redirected
  effects, and the caster for their chains, only when there was a target.
\<close>

definition chained :: "pid \<Rightarrow> effect_templ list \<Rightarrow> player_damage list \<Rightarrow> bool" where
  "chained c es qs \<longleftrightarrow> qs = [] \<or> (\<exists>cs. cs \<noteq> [] \<and> set cs \<subseteq> chains_of es \<and> qs = chain_damage c cs)"

definition strikes :: "pid \<Rightarrow> pid list \<Rightarrow> attack_frame \<Rightarrow> frame_damage \<Rightarrow> bool" where
  "strikes c ts f fd \<longleftrightarrow>
     (\<exists>ps qs. fd_players fd = ps @ qs \<and> List.map pd_defender ps = ts \<and> (\<forall>q \<in> set ps. entry_of (effect_frames f) q) \<and> chained c (effect_frames f) qs) \<and>
     (\<exists>rs qs. fd_redir fd = rs @ qs \<and> (\<forall>q \<in> set rs. redir_entry (redir_frames f) q) \<and> chained c (redir_frames f) qs) \<and>
     (ts = [] \<longrightarrow> fd_redir fd = [])"

lemma chained_by: "set cs \<subseteq> chains_of es \<Longrightarrow> chained c es (chain_damage c cs)"
  by (auto simp: chained_def chain_damage_def)

lemma frame_loop_strikes:
  assumes "frame_loop env c t fs p ts out w = Some (Inr (out1, w1))"
  shows "\<exists>new. out1 = out @ new \<and> list_all2 (strikes c ts) fs new"
  using assms
proof (induction fs arbitrary: p out w)
  case (Cons f fs)
  then obtain hit ps p2 w2 rs p3 w3 where n: "CastNormalEffect env c t f p ts w = Inr (hit, ps, p2, w2)"
      "(if hit then CastRedirEffect env c f p2 w2 else Some (Inr ([], p2, w2))) = Some (Inr (rs, p3, w3))"
      "frame_loop env c t fs p3 ts (out @ [\<lparr>fd_players = ps, fd_redir = rs\<rparr>]) w3 = Some (Inr (out1, w1))"
    by (auto simp: bindo_Inr_iff)
  obtain ps1 cs1 p4 where t: "target_loop env c t f p4 ts [] [] False w = Inr (ps1, cs1, hit, p2, w2)" "ps = ps1 @ chain_damage c cs1"
    using n(1) by (auto simp: CastNormalEffect_def bindr_Inr_iff)
  have players: "List.map pd_defender ps1 = ts" "\<forall>q \<in> set ps1. entry_of (effect_frames f) q" "chained c (effect_frames f) (chain_damage c cs1)"
      "hit \<longrightarrow> ts \<noteq> []"
    using target_loop_entries [OF t(1)] chained_by by auto
  have redirs: "\<exists>rs1 qs. rs = rs1 @ qs \<and> (\<forall>q \<in> set rs1. redir_entry (redir_frames f) q) \<and> chained c (redir_frames f) qs"
  proof (cases hit)
    case True
    then obtain rs1 cs2 p5 where r: "redir_loop env c p5 (redir_frames f) [] [] w2 = Some (Inr (rs1, cs2, p3, w3))" "rs = rs1 @ chain_damage c cs2"
      using n(2) by (auto simp: CastRedirEffect_def bindo_Inr_iff)
    have "chained c (redir_frames f) (chain_damage c cs2)" using redir_loop_entries [OF r(1)] by (intro chained_by) auto
    then show ?thesis using redir_loop_entries [OF r(1)] r(2) by auto
  qed (use n(2) in \<open>auto simp: chained_def\<close>)
  have "strikes c ts f \<lparr>fd_players = ps, fd_redir = rs\<rparr>"
    unfolding strikes_def using players redirs t(2) n(2) by (auto split: if_splits)
  then show ?case using Cons.IH [OF n(3)] by auto
qed simp

section \<open>What was asked and what it cost\<close>

text \<open>A buff that makes skills cheaper one more time, and the unit without it.\<close>

definition discount :: "buff \<Rightarrow> int \<Rightarrow> formula \<Rightarrow> bool" where
  "discount b change f \<longleftrightarrow> logics (effect b) = [Revise REVISE_CONSUME change f] \<and> num b = 1 \<and> caster b \<noteq> 0"

definition spent :: "pid \<Rightarrow> buff \<Rightarrow> fight \<Rightarrow> fight" where
  "spent o' b w = set_vec o' [] (tell (CDetach o' (sn b) (templ_id (effect b)) (caster b)) w)"

lemma ConsumeRevise_spends:
  assumes "buff_vec w o' = [b]" "discount b change f"
  shows "ConsumeRevise env o' w = Inr (spent o' b w, CalcRevise env b change f w \<lparr>scale = 0, point = 0\<rparr>)"
  using assms
  by (simp add: ConsumeRevise_def each_buff_def alone_def buff_Revise_def discount_def DecActiveNum_def IsTimeout_def Detach_def Let_def spent_def)

lemma ConsumeRevise_none: "buff_vec w o' = [] \<Longrightarrow> ConsumeRevise env o' w = Inr (w, \<lparr>scale = 0, point = 0\<rparr>)"
  by (simp add: ConsumeRevise_def each_buff_def set_vec_def fun_upd_idem)

section \<open>A unit that is taunted twice\<close>

lemma two_taunts_abort:
  assumes "buff_vec (fw w) o' = [b1, b2]" "logics (effect b1) = [Taunt]" "logics (effect b2) = [Taunt]" "num b1 < 0" "num b2 < 0"
    "duration b1 \<noteq> 0" "duration b2 \<noteq> 0" "0 \<le> hp b1" "0 \<le> hp b2"
  shows "GetBuffTarget env o' w = Inl AssertFail"
  using assms by (simp add: GetBuffTarget_def GetTarget_def each_buff_def alone_def buff_GetTarget_def DecActiveNum_def IsTimeout_def assertx_def)

section \<open>A small world of two units\<close>

definition demo_hit :: effect_templ where
  "demo_hit = (demo_templ [BasicAttack ATTACK_VALUE ''50'' None])\<lparr>etype := EFFECT_INSTANT\<rparr>"

definition demo_cast :: skill_templ where
  "demo_cast = (demo_skill 4)\<lparr>consume := [\<lparr>cond_item = False, cond_op = 3, cond_id = 65, cond_value = ''150''\<rparr>],
     frames := [\<lparr>effect_frames = [demo_hit], redir_frames = []\<rparr>]\<rparr>"

definition demo_cenv :: cenv where
  "demo_cenv = \<lparr>fe = demo_env (\<lambda>f. if f = ''50'' then 50 else - 5000) (\<lambda>_. demo_hit), units_at = \<lambda>_. demo_units,
     GetSkillTempl = \<lambda>k. if k = 4 then Some demo_cast else None, default_skillid = \<lambda>_. 4, calc_double = \<lambda>_ _ _. 150,
     IsInCombat = \<lambda>_. True, IsSilent = \<lambda>_ _. False, held = \<lambda>_ _. False, GetItemCount = \<lambda>_ _ _. 0, GetLevel = \<lambda>_. 0,
     GolemDeActivePower = \<lambda>_ _. 0, GolemProp = \<lambda>_ _ _. 0, fl = \<lambda>x. x, db = \<lambda>x. x\<rparr>"

definition demo_casting :: "buff list \<Rightarrow> casting" where
  "demo_casting bs = \<lparr>fw = demo_start\<lparr>buff_vec := \<lambda>_. bs\<rparr>, cd_of = \<lambda>_. \<lparr>cd_map = \<lambda>_. None, reset_gid = []\<rparr>,
     active_skill = \<lambda>_. [4], passive_skill = \<lambda>_. []\<rparr>"

lemmas demo_run = demo_cenv_def demo_casting_def demo_env_def demo_start_def demo_cast_def demo_skill_def demo_hit_def demo_templ_def demo_units_def

lemma demo_runs:
  "\<exists>d w1. CastSkill demo_cenv 1 4 [2] False (demo_casting []) = Some (Inr (d, w1)) \<and>
     sd_frames d = [\<lparr>fd_players = [\<lparr>pd_defender = 2, pd_dmgs = [\<lparr>ed_effect = 9, ed_status = EFFECT_CRIT, ed_dmgs = [\<lparr>dtype = 7, dprop = 64, dvalue = - 75\<rparr>]\<rparr>]\<rparr>], fd_redir = []\<rparr>]"
proof -
  let ?w = "demo_casting []"
  have rev: "CastRevise (fe demo_cenv) 1 (fw ?w) = Inr (fw ?w, replicate 3 \<lparr>scale = 0, point = 0\<rparr>)"
    by (simp add: CastRevise_def each_buff_def demo_run set_vec_def fun_upd_idem)
  have hit: "IsHit demo_cenv 1 2 demo_cast w = (True, snd (roll demo_cenv w))" if "draws (fw w) = 0" for w
    using that by (simp add: IsHit_def roll_def demo_run TEAM_MATE_def)
  have crit: "IsCritHit demo_cenv 1 2 w = (True, snd (roll demo_cenv w))" if "draws (fw w) = 1" for w
    using that by (simp add: IsCritHit_def roll_def demo_run trunc_def)
  have eff: "IsEffective demo_cenv demo_hit w = (True, snd (roll demo_cenv w))" if "draws (fw w) = 2" for w
    using that by (simp add: IsEffective_def roll_def demo_run)
  have later: "draws (fw (snd (roll demo_cenv w))) = draws (fw w) + 1" for w by (simp add: roll_def)
  have cast: "Cast_effect demo_cenv 1 2 p demo_hit w = Inr ([\<lparr>dtype = 7, dprop = 64, dvalue = - 75\<rparr>], w)"
    if "factor p = 1" "crit p" "revise p = replicate 3 \<lparr>scale = 0, point = 0\<rparr>" for p w
    using that by (simp add: Cast_effect_def demo_run FillDmg_cast_def shared_value_def Revise_attack_def trunc_def skill_consts Let_def numeral_eq_Suc)
  have templ: "GetSkill demo_cenv ?w 1 4 = Some demo_cast" "frames demo_cast = [\<lparr>effect_frames = [demo_hit], redir_frames = []\<rparr>]"
    "rg_factor (skill_rng demo_cast) = 10000" "fl demo_cenv = (\<lambda>x. x)" "db demo_cenv = (\<lambda>x. x)" "templ_id demo_hit = 9"
    "etype demo_hit = EFFECT_INSTANT" "logics demo_hit = [BasicAttack ATTACK_VALUE ''50'' None]" "draws (fw ?w) = 0" "set_fw (fw ?w) ?w = ?w"
    by (simp_all add: GetSkill_def demo_run set_fw_def)
  show ?thesis
    by (simp add: CastSkill_def templ CastSkill_templ_def rev bindo_def CastNormalEffect_def hit crit eff later cast CastRedirEffect_def
        add_chain_def life_chain_def chain_damage_def)
qed

lemma demo_attaches:
  "let e = demo_templ [ChangeProp 3 [] None]; env = demo_env (\<lambda>_. 20) (\<lambda>_. e); m = \<lparr>am_attacker = 2, am_effect = e, am_dmgs = [], am_buff = None\<rparr>
   in \<exists>w. BeAttacked env 1 m [] demo_start = Inr (0, m, [], w) \<and> buff_vec w 1 \<noteq> [] \<and> attaches (calls w) = 1"
proof -
  let ?e = "demo_templ [ChangeProp 3 [] None]"
  let ?env = "demo_env (\<lambda>_. 20) (\<lambda>_. ?e)"
  let ?m = "\<lparr>am_attacker = 2, am_effect = ?e, am_dmgs = [], am_buff = None\<rparr>"
  let ?b = "\<lparr>caster = 2, effect = ?e, sn = 1, num = - 1, overlap = 0, hp = 1, duration = 3\<rparr>"
  let ?w = "set_vec 1 [?b] (tell (CInc 1 3 20) (tell (CAttach 1 1 9 2) (demo_start\<lparr>next_sn := 1\<rparr>)))"
  have r: "raises ?e 3 []" by (simp add: raises_def demo_templ_def skill_consts)
  have id: "templ_id ?e = 9" "time ?e = 3" "info_num ?e = - 1" "info_overlap ?e = 1" "etype ?e = EFFECT_BUFF" by (simp_all add: demo_templ_def)
  have start: "buff_vec demo_start p = []" "next_sn demo_start = 0" for p by (simp_all add: demo_start_def)
  have env: "CanAction ?env cs 1" "GetCurTime ?env 1 = 0" "calc ?env cs c f = 20" for cs c f by (simp_all add: demo_env_def)
  have att: "Attach ?env 1 b w = Inr (tell (CInc 1 3 20) (tell (CAttach 1 (sn b) 9 2) w))"
    "buff_init ?env b w = b\<lparr>hp := (if hp b \<le> 0 then 1 else hp b)\<rparr>" if "effect b = ?e" "caster b = 2" for b w
    using raising_Attach [OF r that(1), where env = ?env and v = 20] that(2) by (simp_all add: env id)
  have "AttachBuff ?env 1 ?m demo_start = Inr ?w"
    by (simp add: AttachBuff_def Buff_new_def Let_def InsertNewBuff_def make_place_def env id att start u32_def)
  then have "BeAttacked ?env 1 ?m [] demo_start = Inr (0, ?m, [], ?w)" by (simp add: BeAttacked_def id)
  then show ?thesis unfolding Let_def by (intro exI [of _ ?w]) (simp add: demo_start_def attaches_def)
qed

section \<open>What a purge takes\<close>

lemma erase_slots_tail:
  assumes "erase_buffs env o' (\<lambda>i _. i \<in> S) i bs w = Inr (vec, w1)" "i \<in> S"
  shows "vec = []"
  using assms by (induction bs arbitrary: w) (auto simp: bindr_Inr_iff)

lemma erase_slots_take:
  assumes "erase_buffs env o' (\<lambda>i _. i \<in> S) i bs w = Inr (vec, w1)" "S \<subseteq> {i..<i + length bs}"
  shows "vec = (if S = {} then bs else take (Min S - i) bs)"
  using assms
proof (induction bs arbitrary: i w vec)
  case (Cons b bs)
  have fin: "finite S" using Cons.prems(2) finite_subset by blast
  show ?case
  proof (cases "i \<in> S")
    case True
    then have "Min S = i" using Cons.prems(2) fin by (intro Min_eqI) auto
    moreover have "vec = []" using erase_slots_tail [OF Cons.prems(1) True] .
    ultimately show ?thesis using True by auto
  next
    case False
    then obtain vec2 where v: "erase_buffs env o' (\<lambda>i _. i \<in> S) (Suc i) bs w = Inr (vec2, w1)" "vec = b # vec2"
      using Cons.prems(1) by (auto simp: bindr_Inr_iff)
    have sub: "S \<subseteq> {Suc i..<Suc i + length bs}" using Cons.prems(2) False by (auto simp: Suc_le_eq order.order_iff_strict)
    have "Suc i \<le> Min S" if "S \<noteq> {}" using sub Min_in [OF fin that] by auto
    then have "S \<noteq> {} \<Longrightarrow> Min S - i = Suc (Min S - Suc i)" by force
    then show ?thesis using Cons.IH [OF v(1) sub] v(2) by auto
  qed
qed (use assms in auto)

lemma drop_random_takes:
  assumes "drop_random env m xs w = (ys, w1)" "0 < m"
  shows "set ys \<subseteq> set xs \<and> (xs \<noteq> [] \<longrightarrow> ys \<noteq> []) \<and> (int (length xs) \<le> m \<longrightarrow> ys = xs) \<and> buff_vec w1 = buff_vec w"
  using assms
proof (induction env m xs w rule: drop_random.induct)
  case (2 env m x xs w)
  show ?case
  proof (cases "int (length (x # xs)) > m")
    case True
    let ?i = "draw env (draws w) (length (x # xs)) mod length (x # xs)"
    have i: "?i < length (x # xs)" by simp
    have len: "length (take ?i (x # xs) @ drop (Suc ?i) (x # xs)) = length xs" using i by simp
    then have "take ?i (x # xs) @ drop (Suc ?i) (x # xs) \<noteq> []" using True 2(3) by (metis length_0_conv length_Cons of_nat_1 One_nat_def not_less zless_imp_add1_zle add_0)
    moreover have "set (take ?i (x # xs) @ drop (Suc ?i) (x # xs)) \<subseteq> set (x # xs)"
      using set_take_subset set_drop_subset by fastforce
    moreover have "drop_random env m (take ?i (x # xs) @ drop (Suc ?i) (x # xs)) (w\<lparr>draws := draws w + 1\<rparr>) = (ys, w1)"
      using 2(2) True by (simp add: Let_def)
    ultimately show ?thesis using 2(1) [OF True refl] 2(3) True by (auto simp: Let_def)
  next
    case False
    then show ?thesis using 2(2) by auto
  qed
qed simp

lemma erase_buffs_others: "erase_buffs env o' P i bs w = Inr (vec, w1) \<Longrightarrow> buff_vec w1 = buff_vec w"
proof (induction bs arbitrary: i w vec)
  case (Cons b bs)
  show ?case
  proof (cases "P i b")
    case True
    then obtain w2 where "Detach env o' b w = Inr w2" "erase_buffs env o' P i bs w2 = Inr (vec, w1)"
      using Cons.prems by (auto simp: bindr_Inr_iff)
    then show ?thesis using Cons.IH Detach_marks by (fastforce simp: quiet_def)
  qed (use Cons in \<open>auto simp: bindr_Inr_iff\<close>)
qed simp

lemma erase_buffs_returns: "\<forall>b \<in> set bs. caster b \<noteq> 0 \<Longrightarrow> \<exists>vec w1. erase_buffs env o' P i bs w = Inr (vec, w1)"
proof (induction bs arbitrary: i w)
  case (Cons b bs)
  then show ?case using Detach_returns [of b env o' w] by (cases "P i b") (auto simp: bindr_Inr_iff; metis)+
qed simp

lemma logic_Purify_returns:
  assumes "\<forall>b \<in> set (buff_vec w o'). caster b \<noteq> 0"
  shows "\<exists>w1. logic_Purify env o' m gs w = Inr w1"
proof -
  have "\<exists>w1. erase_where env o' P w2 = Inr w1" if "quiet w w2" for P w2
    using erase_buffs_returns [of "buff_vec w2 o'" env o' P 0 w2] that assms by (auto simp: erase_where_def bindr_Inr_iff quiet_def)
  then show ?thesis unfolding logic_Purify_def Let_def by (metis (no_types, lifting) case_prod_conv quiet_drop_random surj_pair)
qed

definition purgeable :: "int list \<Rightarrow> buff list \<Rightarrow> nat set" where
  "purgeable gs vec = {i. i < length vec \<and> (\<exists>g \<in> set gs. g \<in> set (effect_group (effect (vec ! i))))}"

section \<open>The rounds of a unit without passive skills\<close>

text \<open>The unit ends \<open>k\<close> rounds.\<close>

fun round_ends :: "cenv \<Rightarrow> pid \<Rightarrow> nat \<Rightarrow> casting \<Rightarrow> (casting res) option" where
  "round_ends env c 0 w = Some (Inr w)"
| "round_ends env c (Suc k) w = bindo (RoundEnd env c w) (\<lambda>(_, _, w1). round_ends env c k w1)"

lemma RoundEnd_casting:
  assumes "list_all lasting (buff_vec (fw w) c)" "passive_skill w c = []"
  shows "\<exists>w1. RoundEnd env c w = Some (Inr ([], [], w1)) \<and> passive_skill w1 c = [] \<and>
    buff_vec (fw w1) c = List.map DecDuration (filter (\<lambda>b. 1 < duration b) (buff_vec (fw w) c))"
proof -
  obtain f where "RoundEnd_buffs (fe env) c (fw w) = Some (Inr ([], f))"
      "buff_vec f c = List.map DecDuration (filter (\<lambda>b. 1 < duration b) (buff_vec (fw w) c))"
    using RoundEnd_lasting [OF assms(1)] by blast
  then show ?thesis using assms(2) by (simp add: RoundEnd_def CastPassiveSkill_def in_fight_def bindo_def)
qed

section \<open>Properties\<close>





text \<open>
  C19: Buffs end in time: for a unit without passive skills whose buffs are of the normal kind, and each
  has a caster, time left, activations left and no overdrawn shield, any number of round ends returns,
  and after \<open>k\<close> of them the unit has exactly the buffs that had more than \<open>k\<close> rounds left, in their
  order, with \<open>k\<close> rounds less.
\<close>

theorem buffs_end_in_time:
  assumes "list_all lasting (buff_vec (fw w) o')" "passive_skill w o' = []"
  shows "\<exists>w1. round_ends env o' k w = Some (Inr w1) \<and>
    buff_vec (fw w1) o' = List.map (\<lambda>b. b\<lparr>duration := duration b - int k\<rparr>) (filter (\<lambda>b. int k < duration b) (buff_vec (fw w) o'))"
  using assms
proof (induction k arbitrary: w)
  case 0
  then have "filter (\<lambda>b. 0 < duration b) (buff_vec (fw w) o') = buff_vec (fw w) o'" by (auto simp: list_all_iff lasting_def filter_id_conv)
  then show ?case by (simp add: map_idI)
next
  case (Suc k)
  obtain w1 where w1: "RoundEnd env o' w = Some (Inr ([], [], w1))" "passive_skill w1 o' = []"
      "buff_vec (fw w1) o' = List.map DecDuration (filter (\<lambda>b. 1 < duration b) (buff_vec (fw w) o'))"
    using RoundEnd_casting [OF Suc.prems] by blast
  have "list_all lasting (buff_vec (fw w1) o')" using Suc.prems w1(3) by (auto simp: list_all_iff lasting_def DecDuration_def)
  from Suc.IH [OF this w1(2)] obtain w2 where w2: "round_ends env o' k w1 = Some (Inr w2)"
    "buff_vec (fw w2) o' = List.map (\<lambda>b. b\<lparr>duration := duration b - int k\<rparr>) (filter (\<lambda>b. int k < duration b) (buff_vec (fw w1) o'))" by blast
  have "List.map (\<lambda>b. b\<lparr>duration := duration b - int k\<rparr>) (filter (\<lambda>b. int k < duration b) (List.map DecDuration (filter (\<lambda>b. 1 < duration b) bs))) =
      List.map (\<lambda>b. b\<lparr>duration := duration b - int (Suc k)\<rparr>) (filter (\<lambda>b. int (Suc k) < duration b) bs)" if "list_all lasting bs" for bs
    using that by (induction bs) (auto simp: lasting_def DecDuration_def)
  from this [OF Suc.prems(1)] w1 w2 show ?case by (simp add: bindo_def)
qed

lemma buffs_end_in_time_witness:
  "let b = \<lparr>caster = 2, effect = demo_templ [], sn = 1, num = - 1, overlap = 0, hp = 1, duration = 3\<rparr>
   in (\<exists>w1. round_ends demo_cenv 1 2 (demo_casting [b]) = Some (Inr w1) \<and> buff_vec (fw w1) 1 = [b\<lparr>duration := 1\<rparr>]) \<and>
      (\<exists>w1. round_ends demo_cenv 1 3 (demo_casting [b]) = Some (Inr w1) \<and> buff_vec (fw w1) 1 = [])"
proof -
  let ?b = "\<lparr>caster = 2, effect = demo_templ [], sn = 1, num = - 1, overlap = 0, hp = 1, duration = 3\<rparr>"
  have l: "list_all lasting (buff_vec (fw (demo_casting [?b])) 1)" "passive_skill (demo_casting [?b]) 1 = []"
    by (simp_all add: lasting_def demo_templ_def demo_casting_def)
  have b: "buff_vec (fw (demo_casting [?b])) 1 = [?b]" by (simp add: demo_casting_def)
  show ?thesis using buffs_end_in_time [OF l, of demo_cenv 2] buffs_end_in_time [OF l, of demo_cenv 3] unfolding b by simp
qed

text \<open>
  A purge takes too much: if it finds buffs of its groups and may take any, it takes one of them and
  every buff behind it, of whatever group, and the first of those it found unless it may take fewer
  than it found; if it finds none, it takes none; other units keep theirs.
\<close>

theorem purge_takes_the_rest:
  assumes "logic_Purify env o' m gs w = Inr w1" "m \<noteq> 0" "int (length (buff_vec w o')) \<le> 2147483647"
  shows "(purgeable gs (buff_vec w o') = {} \<longrightarrow> buff_vec w1 o' = buff_vec w o') \<and>
    (purgeable gs (buff_vec w o') \<noteq> {} \<longrightarrow> (\<exists>i \<in> purgeable gs (buff_vec w o'). buff_vec w1 o' = take i (buff_vec w o') \<and>
       (m < 0 \<or> int (card (purgeable gs (buff_vec w o'))) \<le> m \<longrightarrow> i = Min (purgeable gs (buff_vec w o'))))) \<and>
    (\<forall>p. p \<noteq> o' \<longrightarrow> buff_vec w1 p = buff_vec w p)"
proof -
  let ?vec = "buff_vec w o'" and ?m = "if m < 0 then 2147483647 else m"
  let ?hits = "filter (\<lambda>i. list_ex (\<lambda>g. g \<in> set (effect_group (effect (?vec ! i)))) gs) [0..<length ?vec]"
  have hits: "set ?hits = purgeable gs ?vec" by (auto simp: purgeable_def list_ex_iff)
  have card: "length ?hits = card (purgeable gs ?vec)" unfolding hits [symmetric] by (simp only: distinct_card distinct_filter distinct_upt)
  obtain ys w2 where ys: "drop_random env ?m ?hits w = (ys, w2)" "erase_where env o' (\<lambda>i _. i \<in> set ys) w2 = Inr w1"
    using assms(1) unfolding logic_Purify_def Let_def by (metis (no_types, lifting) case_prod_conv surj_pair)
  note d = drop_random_takes [OF ys(1)]
  have m: "0 < ?m" using assms(2) by simp
  obtain vec w3 where e: "erase_buffs env o' (\<lambda>i _. i \<in> set ys) 0 (buff_vec w2 o') w2 = Inr (vec, w3)" "w1 = set_vec o' vec w3"
    using ys(2) by (auto simp: erase_where_def bindr_Inr_iff)
  have sub: "set ys \<subseteq> purgeable gs ?vec" "buff_vec w2 = buff_vec w" using d [OF m] hits by auto
  have "set ys \<subseteq> {0..<0 + length (buff_vec w2 o')}" using sub by (auto simp: purgeable_def)
  from erase_slots_take [OF e(1) this] have vec: "vec = (if set ys = {} then ?vec else take (Min (set ys)) ?vec)" using sub(2) by simp
  have one: "set ys = purgeable gs ?vec" if "m < 0 \<or> int (card (purgeable gs ?vec)) \<le> m"
  proof -
    have "length ?hits \<le> length ?vec" using length_filter_le [of _ "[0..<length ?vec]"] by simp
    then have "int (length ?hits) \<le> ?m" using that assms(3) card by auto
    then show ?thesis using d [OF m] hits by auto
  qed
  have w1: "buff_vec w1 o' = vec" "\<And>p. p \<noteq> o' \<Longrightarrow> buff_vec w1 p = buff_vec w p"
    using e erase_buffs_others [OF e(1)] sub(2) by auto
  show ?thesis
  proof (cases "purgeable gs ?vec = {}")
    case True
    then have "set ys = {}" using sub(1) by auto
    then show ?thesis using True w1 vec by auto
  next
    case False
    then have "?hits \<noteq> []" using hits by (metis empty_set)
    then have "ys \<noteq> []" using d [OF m] by blast
    then have ne: "set ys \<noteq> {}" by simp
    then have first: "Min (set ys) \<in> purgeable gs ?vec" using sub(1) Min_in [OF finite_set ne] by auto
    have kept: "buff_vec w1 o' = take (Min (set ys)) ?vec" using w1(1) vec ne by simp
    have "i = Min (purgeable gs ?vec)" if "i = Min (set ys)" "m < 0 \<or> int (card (purgeable gs ?vec)) \<le> m" for i
      using one [OF that(2)] that(1) by simp
    then show ?thesis using False first kept w1(2) by (intro conjI impI allI bexI [of _ "Min (set ys)"]) blast+
  qed
qed

lemma purge_takes_the_rest_witness:
  "let b = \<lambda>g n. \<lparr>caster = 2, effect = (demo_templ [])\<lparr>effect_group := [g]\<rparr>, sn = n, num = - 1, overlap = 0, hp = 1, duration = 3\<rparr>;
       w = demo_start\<lparr>buff_vec := \<lambda>_. [b 1 1, b 2 2, b 1 3, b 1 4]\<rparr>
   in \<exists>w1. logic_Purify (fe demo_cenv) 1 1 [2] w = Inr w1 \<and> buff_vec w1 1 = [b 1 1]"
proof -
  let ?b = "\<lambda>g n. \<lparr>caster = 2, effect = (demo_templ [])\<lparr>effect_group := [g]\<rparr>, sn = n, num = - 1, overlap = 0, hp = 1, duration = 3\<rparr>"
  let ?w = "demo_start\<lparr>buff_vec := \<lambda>_. [?b 1 1, ?b 2 2, ?b 1 3, ?b 1 4]\<rparr>"
  have vec: "buff_vec ?w 1 = [?b 1 1, ?b 2 2, ?b 1 3, ?b 1 4]" by simp
  have p: "purgeable [2] (buff_vec ?w 1) = {1}" by (auto simp: purgeable_def demo_templ_def nth_Cons' less_Suc_eq numeral_eq_Suc split: if_splits)
  obtain w1 where run: "logic_Purify (fe demo_cenv) 1 1 [2] ?w = Inr w1"
    using logic_Purify_returns [of ?w 1 "fe demo_cenv" 1 "[2]"] unfolding vec by auto
  show ?thesis unfolding Let_def using purge_takes_the_rest [OF run] run unfolding p by (intro exI [of _ w1]) simp
qed

text \<open>
  Asking uses up a discount: when a skill costs a property and the only buff of the unit makes skills
  cheaper one last time, the question whether the unit can cast it is answered for the lower price and
  takes the buff away, and paying then takes the full price.
\<close>

theorem asking_uses_up_discount:
  assumes "buff_vec (fw w) o' = [b]" "discount b change f" "k \<in> set (active_skill w o')" "GetSkillTempl env k = Some t"
    and "\<not> IsCooldown (GetCurTime (fe env) o') (cd_of w o') (skillid t)" "by_player t" "premise t = []"
    and "consume t = [x]" "\<not> cond_item x" "cond_op x = 3"
  shows "let f1 = spent o' b (fw w); price = (\<lambda>r. GetNeeded env (calls f1) o' (cond_value x) (Some r));
      cheap = price (CalcRevise (fe env) b change f (fw w) \<lparr>scale = 0, point = 0\<rparr>)
    in CanCast env o' k w = Inr (if cheap \<le> GetProperty (fe env) (calls f1) o' (cond_id x) then ERR_SUCCESS else ERR_PROP, set_fw f1 w) \<and>
       Consume env o' k (set_fw f1 w) = Inr (set_fw (tell (CDec o' (cond_id x) (price \<lparr>scale = 0, point = 0\<rparr>)) f1) (set_fw f1 w))"
proof -
  have none: "buff_vec (spent o' b (fw w)) o' = []" by (simp add: spent_def)
  have golem: "golem_error env o' t (set_fw (spent o' b (fw w)) w) = ERR_SUCCESS" by (simp add: golem_error_def none Let_def)
  show ?thesis
    using assms ConsumeRevise_spends [OF assms(1,2), of "fe env"] ConsumeRevise_none [OF none, of "fe env"] golem
    by (simp add: CanCast_def OnCanCast_def assertx_def CheckCond_def Revise_costs_def IsMatch_def Consume_def GetSkill_def Let_def cast_consts
        bindr_def)
qed

lemma asking_uses_up_discount_witness:
  "let b = \<lparr>caster = 2, effect = demo_templ [Revise REVISE_CONSUME CHANGE_SCALE ''-5000''], sn = 1, num = 1, overlap = 1, hp = 1, duration = 3\<rparr>;
       w = demo_casting [b]; w1 = set_fw (spent 1 b (fw w)) w
   in CanCast demo_cenv 1 4 w = Inr (ERR_SUCCESS, w1) \<and> GetProperty (fe demo_cenv) (calls (fw w1)) 1 65 = 100 \<and>
      Consume demo_cenv 1 4 w1 = Inr (set_fw (tell (CDec 1 65 150) (fw w1)) w1)"
proof -
  let ?b = "\<lparr>caster = 2, effect = demo_templ [Revise REVISE_CONSUME CHANGE_SCALE ''-5000''], sn = 1, num = 1, overlap = 1, hp = 1, duration = 3\<rparr>"
  let ?w = "demo_casting [?b]"
  have pre: "buff_vec (fw ?w) 1 = [?b]" "discount ?b CHANGE_SCALE ''-5000''" "4 \<in> set (active_skill ?w 1)" "GetSkillTempl demo_cenv 4 = Some demo_cast"
    "\<not> IsCooldown (GetCurTime (fe demo_cenv) 1) (cd_of ?w 1) (skillid demo_cast)" "by_player demo_cast" "premise demo_cast = []"
    "consume demo_cast = [\<lparr>cond_item = False, cond_op = 3, cond_id = 65, cond_value = ''150''\<rparr>]"
    by (simp_all add: demo_run discount_def IsCooldown_def GetCooldown_def)
  show ?thesis unfolding Let_def using asking_uses_up_discount [OF pre] 
    by (simp add: Let_def GetNeeded_def CalcRevise_def demo_cenv_def demo_env_def trunc_def i32_def skill_consts demo_casting_def)
qed

end
