(* ===== verification/Spec2Isabelle.thy ===== *)
theory Spec2Isabelle
  imports Prelude TimerLite Aggro Items ItemList ItemListCorrect ItemListProps Inventory InventoryProps
    OpenHeap NetBuffer BitMap MapAStar MapAStarCorrect Expression BehaviorTree CombatATB
    ObjPool ObjMan MsgQueue Fsm CombatFlow CombatLink CombatOps CombatBeat CombatProps CombatPauses
    UnitState UnitLife UnitProps
    WireBuffer WireTypes WireProps WireFormat TimeSegments TemplCodec TemplManager
    Buffs BuffWrapper BuffRounds BuffBooks BuffDeeds
    Targets TargetProps Cooldowns SkillCast SkillProps
begin

text \<open>
  A model of the core of a game server (\<open>src/src/gamed\<close>): the data a player owns, the hate lists
  of monsters, the timers of instances, the walk map and the path search on it, the network buffer
  they are saved through, the turns of a combat, the behaviour trees of area events and the
  formulas of skills.

  \<^bold>\<open>How a model reads.\<close> Every C++ function is a HOL function of the same name over the state it
  touches, returned updated. Code that can abort returns \<open>abort + 'a\<close>: a failed assertion, a read
  out of range, \<open>top()\<close> of an empty stack, a null dereference and a loop that never ends are
  values (theory \<open>Prelude\<close>), and so are a thread that waits for a mutex it holds and an object that
  keeps a pointer to freed memory. Fixed-width integers wrap where the code can reach their limit
  (\<open>i32\<close>, \<open>u32\<close>, words): the amounts of items and the hit points of units are 32-bit, and the
  properties about them state the bounds they need. Where a comment bounds a number it is a plain \<open>int\<close>.
  \<open>std::set\<close> and \<open>std::map\<close> are lists kept sorted by key, hash maps association lists or
  functions, arrays lists with out-of-range reads written out. Pointers that are shared and
  updated in place (the nodes of a search) live in a store.

  \<^bold>\<open>Parts.\<close>
  \<^item> \<open>TimerLite\<close> (\<open>gs/global/timer_lite.h\<close>): deadlines of instances. A run of its operations
    implements a finite map from entities to deadlines.
  \<^item> \<open>Aggro\<close> (\<open>gs/scene/obj/npc\<close> aggro lists): the hate list of a monster and its policies,
    equivalent to a reference that sorts by hate. The position a change returns is none where the code
    computes it from an iterator that is no longer valid.
  \<^item> \<open>Items\<close>, \<open>ItemList\<close>, \<open>ItemListCorrect\<close>, \<open>ItemListProps\<close> (\<open>gs/item\<close>): items, their
    templates, and a bag with its books (free slots, type counts, partial stacks, ageing set);
    the invariant that the books describe the slots, conservation of items, saving and loading,
    and the operations that break the books. Amounts are 32-bit and added as the code adds them.
  \<^item> \<open>Inventory\<close>, \<open>InventoryProps\<close> (\<open>gs/player/subsys/player_inventory\<close>): the seven bags of a
    player, gaining and taking items across stacks, equipment, the client commands with their
    checks, and the heartbeat that expires items.
  \<^item> \<open>NetBuffer\<close> (\<open>shared/net/buffer.h\<close>): the byte buffer, shown to be a byte queue, and its
    integers in network order.
  \<^item> \<open>BitMap\<close> (\<open>pathfinder/pf_engine/bit_map.h\<close>): the walk map, its two ways of blocking cells,
    loading and saving through \<open>NetBuffer\<close>.
  \<^item> \<open>OpenHeap\<close> (\<open>pf_engine/base_astar.h\<close>): the open and closed lists of a search and node keys.
  \<^item> \<open>MapAStar\<close>, \<open>MapAStarCorrect\<close> (\<open>pf_engine/map_astar\<close>): the search on \<open>BitMap\<close> with the
    lists of \<open>OpenHeap\<close>; it returns a cheapest walk, fails only for a reason, and always ends.
  \<^item> \<open>Expression\<close> (the \<open>expression.cpp\<close> of skills and achievements): formulas cut into tokens, turned into
    postfix form and evaluated; which formulas evaluate to what they read as, and which do not.
  \<^item> \<open>BehaviorTree\<close> (\<open>utility_lib/BTLib\<close>): trees of nodes in a store, loaded, initialised, executed
    and reset; a loaded tree does what a recursive evaluation of its file means.
  \<^item> \<open>CombatATB\<close> (\<open>game_module/combat/combat/combat_atb.cpp\<close>): who attacks when in a combat, with
    attacks that call the scheduler back; its invariant, order and waiting times.
  \<^item> \<open>ObjPool\<close>, \<open>ObjMan\<close> (\<open>combat/global/obj_man.h\<close>, \<open>obj_query.cpp\<close>): the pools of combats and
    their units with the linked free list, ids of objects, and the manager that gives the members
    of a pool their heartbeats while they come and go; a pool is a first-in first-out queue.
  \<^item> \<open>MsgQueue\<close> (\<open>combat/global/combat_mq.cpp\<close>, dispatch in \<open>combat_man.cpp\<close>): messages between these
    objects, at once or through the wheel of delays, under the mutexes of objects and wheel; a
    heartbeat equals its reference and delays are exact. A message with content to several objects
    is left with a freed pointer, and a sender may wait for itself.
  \<^item> \<open>Fsm\<close>, \<open>CombatFlow\<close> (\<open>combat/global/state_machine.h\<close>, \<open>combat/combat/combat_state.cpp\<close> and the
    operations of \<open>combat.cpp\<close> that change the state): the machine that leads a combat from its
    start through pauses and waves to its end, with the scheduler of \<open>CombatATB\<close>, the scene script,
    commands of players and messages of a combat to itself. \<open>CombatLink\<close>, \<open>CombatOps\<close> and
    \<open>CombatBeat\<close> show that machine, scheduler and script agree after every operation, script and
    heartbeat, \<open>CombatProps\<close> that no run of a combat fails an assertion, and \<open>CombatPauses\<close> how
    pauses end and which commands keep a combat in an endless loop.
  \<^item> \<open>UnitState\<close>, \<open>UnitLife\<close>, \<open>UnitProps\<close> (\<open>combat/unit/unit_state.cpp\<close>, \<open>combat_unit.cpp\<close>,
    \<open>combat_player.cpp\<close>, \<open>combat_npc.cpp\<close>): the machine of players, monsters and bosses with its table,
    their hit points, damage, healing, attacks, transformation, escape and death; which order of
    operations never aborts, that a killed unit dies once, and the states a unit cannot leave.
  \<^item> \<open>WireBuffer\<close>, \<open>WireTypes\<close>, \<open>WireProps\<close>, \<open>WireFormat\<close> (\<open>shared/net/packet\<close>: \<open>bytebuffer.h\<close>,
    \<open>bit_set.h\<close>, \<open>packet_util.h\<close>): the buffer of packets and the stream operators of every member
    type, one function by recursion on the type. What is marshalled is read back, and reading
    arbitrary bytes throws or gives a value of the type.
  \<^item> \<open>TemplCodec\<close>, \<open>TemplManager\<close> (\<open>codec_templ.h\<close>, \<open>gs/template/data_templ\<close>): files of templates,
    written through \<open>NetBuffer\<close> with the packets of \<open>WireTypes\<close>, and the manager that loads them and
    answers queries; files survive the disk, and which bad files are refused, abort or overrun.
    \<open>TimeSegments\<close> (\<open>base_datatempl.cpp\<close>) holds the members that do more than read their bytes: a
    time segment checks its dates and shifts them to the server's time zone.
  \<^item> \<open>Buffs\<close>, \<open>BuffWrapper\<close> (\<open>game_module/skill/skill\<close>: \<open>buff.cpp\<close>, \<open>buff_wrapper.cpp\<close>, the
    \<open>logic_*.cpp\<close> of effects; \<open>utility/attack_util.cpp\<close>): the buffs of a unit, how they are attached,
    replaced, act in a round, absorb, return and pass on damage, and end. \<open>BuffRounds\<close> shows that the
    damage of buffs comes to an end, \<open>BuffBooks\<close> that the client is told of exactly the buffs a unit
    has, \<open>BuffDeeds\<close> what shields absorb, and which buffs do not do what they are for.
  \<^item> \<open>Targets\<close>, \<open>TargetProps\<close> (\<open>skill/utility\<close>: \<open>target_util.cpp\<close>, \<open>range_util.cpp\<close>,
    \<open>redir_util.cpp\<close>, \<open>player_util.cpp\<close>): whom a skill chooses, strikes and passes on to.
    \<open>Cooldowns\<close> (\<open>cooldown_wrapper.cpp\<close>): the times of skills and groups of skills. \<open>SkillCast\<close>
    (\<open>skill_wrapper.cpp\<close>, \<open>cast_proc.cpp\<close>, the casts of \<open>logic_*.cpp\<close>): conditions, costs, the frames of a
    cast, hits, chains and redirected effects, and the buffs of a round with the passive skills that act
    in it. \<open>SkillProps\<close> shows that casting keeps the books of the buffs, whom a cast deals with, and that
    buffs end in the rounds of units without passive skills.

  \<^bold>\<open>Interfaces.\<close> \<open>keyed_store\<close> (a map), \<open>invariant_system\<close> and \<open>refinement_system\<close> (operations
  with a precondition, an invariant and an abstract specification, carried through runs) and
  \<open>priority_queue\<close> are locales, each interpreted on the model's own definitions where they are
  defined; the properties of whole runs rest on these interpretations.

  \<^bold>\<open>Bounds.\<close> No fuel is used: loops are functions with a measure. The path search ends because
  every round counts against \<open>_max_expanded\<close> (50000); the walk along parent links, the calls of a
  behaviour tree, the attack loop of a combat, the loop that deals the damage of buffs and the
  dispatch of messages, whose handlers send more, are partial functions proved to return; so is the
  selection of different random targets, for draws that give every number again and again. The
  loop over the commands kept while a combat closes is shown never to return.

  \<^bold>\<open>Parameters.\<close> Template data (generated code and data files), random numbers and the clock are
  arguments. Floating-point arithmetic is an argument of the path search with two laws that IEEE
  addition of finite numbers has, and of formulas with none. Where skills compute with floats, the
  rounding to single and double precision and the share of hit points are arguments. What a leaf of a behaviour tree
  returns, what an attack does to the scheduler, and what units and scripts call in a combat are
  functions of a state of their own (scripts are free of Lua errors); in the model of combats what buffs do to a unit is a list of wounds
  and cures. In the model of buffs the value of a formula, the properties and the time of a unit, the
  share of a value in single precision and random draws are arguments. Of a template class the list of its
  members (plain ones of a type of the wire format, time segments, lists and nested structures),
  the offset of the time zone, the registered prototypes and the checksum functions are.

  \<^bold>\<open>Not modelled.\<close> Generated protocol classes, vendored libraries (pugixml, CGLib/wykobi, the Lua
  binding), sockets, threads and database access are outside the model. So are pets and golems of a
  combat, the buffs that belong to the world and not to a unit, the pause times of clients that show a
  skill (\<open>skill_info.cpp\<close>), the \<open>OnUse\<close> bodies of items, tasks, scenes and instances, whose code
  mostly drives these and the template data.
\<close>

end
